(* ===== verification/Prelude.thy ===== *)
theory Prelude
  imports Main "HOL-Library.Word" "HOL-Library.Char_ord" "HOL-Library.List_Lexorder"
begin

text \<open>
  What every component shares: the machine integers and the result type of the Rust sources,
  the fallible fold that a \<open>for\<close> loop with \<open>?\<close> in its body is, string helpers of the Rust
  standard library, and the lemmas on words, lists and results that the component proofs use.

  A Rust \<open>String\<close> is the list of its UTF-8 bytes (\<open>string\<close>, whose characters are bytes), so
  \<open>length\<close> is \<open>String::len\<close> and the order on \<open>string\<close> is Rust's byte-lexicographic order.
\<close>

section \<open>Integers, results, strings\<close>

type_synonym u32 = "32 word"
type_synonym u64 = "64 word"
type_synonym byte = "8 word"

text \<open>
  A fallible Rust function returns \<open>Err\<close> (an error value) or panics (an index out of range, an
  \<open>unwrap\<close> of nothing). Both are values of the model, so that a theorem can say neither happens.
\<close>

datatype rerr = Err string | Panic string

type_synonym 'a result = "rerr + 'a"

named_theorems result_simps \<open>rewrite rules of the result type and its folds\<close>

definition bind_res :: "'a result \<Rightarrow> ('a \<Rightarrow> 'b result) \<Rightarrow> 'b result" where
  "bind_res r f = (case r of Inl e \<Rightarrow> Inl e | Inr x \<Rightarrow> f x)"

text \<open>State passing with errors: \<open>?\<close> on a call that changes the state.\<close>

definition bind_st :: "'a result \<times> 's \<Rightarrow> ('a \<Rightarrow> 's \<Rightarrow> 'b result \<times> 's) \<Rightarrow> 'b result \<times> 's" where
  "bind_st p f = (case p of (Inl e, s) \<Rightarrow> (Inl e, s) | (Inr x, s) \<Rightarrow> f x s)"

text \<open>A \<open>for\<close> loop whose body can leave the function with an error.\<close>

fun fold_res :: "('a \<Rightarrow> 's \<Rightarrow> 's result) \<Rightarrow> 'a list \<Rightarrow> 's \<Rightarrow> 's result" where
  "fold_res f [] s = Inr s"
| "fold_res f (x # xs) s = (case f x s of Inl e \<Rightarrow> Inl e | Inr s' \<Rightarrow> fold_res f xs s')"

text \<open>\<open>u64::checked_add\<close> and \<open>u64::saturating_add\<close>.\<close>

definition checked_add :: "u64 \<Rightarrow> u64 \<Rightarrow> u64 option" where
  "checked_add a b = (if unat a + unat b < 2 ^ 64 then Some (a + b) else None)"

definition saturating_add :: "u64 \<Rightarrow> u64 \<Rightarrow> u64" where
  "saturating_add a b = (if unat a + unat b < 2 ^ 64 then a + b else - 1)"

text \<open>
  \<open>s.chars().take(n).collect()\<close>: the bytes of the first \<open>n\<close> characters. A byte \<open>10xxxxxx\<close>
  continues the character before it, every other byte starts one.
\<close>

definition utf8_continuation :: "char \<Rightarrow> bool" where
  "utf8_continuation c \<longleftrightarrow> 128 \<le> (of_char c :: nat) \<and> (of_char c :: nat) < 192"

fun chars_take :: "nat \<Rightarrow> string \<Rightarrow> string" where
  "chars_take n [] = []"
| "chars_take n (c # cs) =
     (if utf8_continuation c then c # chars_take n cs
      else case n of 0 \<Rightarrow> [] | Suc m \<Rightarrow> c # chars_take m cs)"

definition chars_count :: "string \<Rightarrow> nat" where
  "chars_count s = length (filter (\<lambda>c. \<not> utf8_continuation c) s)"

definition quoted :: "string \<Rightarrow> string" where
  "quoted s = CHR 0x27 # s @ [CHR 0x27]"

text \<open>White space, \<open>str::trim\<close> and the case of letters, on ASCII.\<close>

definition is_space :: "char \<Rightarrow> bool" where
  "is_space c \<longleftrightarrow> (of_char c :: nat) \<in> {9, 10, 11, 12, 13, 32}"

definition trim :: "string \<Rightarrow> string" where
  "trim s = rev (dropWhile is_space (rev (dropWhile is_space s)))"

definition ascii_lower :: "string \<Rightarrow> string" where
  "ascii_lower s = map (\<lambda>c. if CHR ''A'' \<le> c \<and> c \<le> CHR ''Z'' then char_of ((of_char c :: nat) + 32) else c) s"

definition ascii_upper :: "string \<Rightarrow> string" where
  "ascii_upper s = map (\<lambda>c. if CHR ''a'' \<le> c \<and> c \<le> CHR ''z'' then char_of ((of_char c :: nat) - 32) else c) s"

definition without :: "nat \<Rightarrow> 'a list \<Rightarrow> 'a list" where
  "without i xs = take i xs @ drop (Suc i) xs"

definition starts_with :: "string \<Rightarrow> string \<Rightarrow> bool" where
  "starts_with s p \<longleftrightarrow> take (length p) s = p"

section \<open>Lemmas\<close>

lemma bind_st_simps [simp]: "bind_st (Inl e, s) f = (Inl e, s)" "bind_st (Inr x, s) f = f x s"
  by (simp_all add: bind_st_def)

lemma bind_st_eq:
  "bind_st p f = (r, s') \<longleftrightarrow> (\<exists>e. p = (Inl e, s') \<and> r = Inl e) \<or> (\<exists>x s1. p = (Inr x, s1) \<and> f x s1 = (r, s'))"
  by (cases p; cases "fst p") (auto simp: bind_st_def)

lemma bind_st_cong:
  "p = q \<Longrightarrow> (\<And>x s. q = (Inr x, s) \<Longrightarrow> f x s = g x s) \<Longrightarrow> bind_st p f = bind_st q g"
  by (cases q; cases "fst q") (auto simp: bind_st_def)

lemma set_without: "set (without i xs) \<subseteq> set xs"
  unfolding without_def using set_take_subset [of i xs] set_drop_subset [of "Suc i" xs] by auto

lemma bind_res_simps [simp, result_simps]:
  "bind_res (Inl e) f = Inl e"
  "bind_res (Inr x) f = f x"
  by (simp_all add: bind_res_def)

lemma bind_res_Inr_iff:
  "bind_res r f = Inr y \<longleftrightarrow> (\<exists>x. r = Inr x \<and> f x = Inr y)"
  by (cases r) auto

lemma fold_res_append:
  "fold_res f (xs @ ys) s = bind_res (fold_res f xs s) (fold_res f ys)"
  by (induction xs arbitrary: s) (auto split: sum.splits)

text \<open>The loop rule: an invariant of the body is an invariant of the loop.\<close>

lemma fold_res_invariant:
  assumes "fold_res f xs s = Inr t" and "I s"
    and "\<And>x s t. x \<in> set xs \<Longrightarrow> I s \<Longrightarrow> f x s = Inr t \<Longrightarrow> I t"
  shows "I t"
  using assms
proof (induction xs arbitrary: s)
  case Nil
  then show ?case by simp
next
  case (Cons x xs)
  from Cons.prems(1) obtain s' where s': "f x s = Inr s'" and rest: "fold_res f xs s' = Inr t"
    by (auto split: sum.splits)
  from Cons.prems(2,3) s' have "I s'" by (meson list.set_intros(1))
  with rest show ?case by (rule Cons.IH) (meson Cons.prems(3) list.set_intros(2))
qed

text \<open>Errors of the loop are errors of the body, reached in a state where the invariant holds.\<close>

lemma fold_res_no_error:
  assumes "I s"
    and "\<And>x s t. x \<in> set xs \<Longrightarrow> I s \<Longrightarrow> f x s = Inr t \<Longrightarrow> I t"
    and "\<And>x s e. x \<in> set xs \<Longrightarrow> I s \<Longrightarrow> f x s = Inl e \<Longrightarrow> Q e"
    and "fold_res f xs s = Inl e"
  shows "Q e"
  using assms
proof (induction xs arbitrary: s)
  case Nil
  then show ?case by simp
next
  case (Cons x xs)
  show ?case
  proof (cases "f x s")
    case (Inl e')
    with Cons.prems(4) have "f x s = Inl e" by simp
    with Cons.prems(1,3) show ?thesis by (meson list.set_intros(1))
  next
    case (Inr s')
    with Cons.prems(1,2) have "I s'" by (meson list.set_intros(1))
    moreover from Inr Cons.prems(4) have "fold_res f xs s' = Inl e" by simp
    ultimately show ?thesis
      using Cons.IH [of s'] Cons.prems(2,3) by (meson list.set_intros(2))
  qed
qed

subsection \<open>Words\<close>

lemma unat_succ_u64: "unat (a :: u64) + 1 < 2 ^ 64 \<Longrightarrow> unat (a + 1) = unat a + 1"
  by (simp add: unat_word_ariths)

lemma unat_succ_u32: "unat (a :: u32) + 1 < 2 ^ 32 \<Longrightarrow> unat (a + 1) = unat a + 1"
  by (simp add: unat_word_ariths)

lemma checked_add_Some:
  assumes "checked_add a 1 = Some b"
  shows "unat b = unat a + 1" and "a < b"
proof -
  from assms have *: "unat a + 1 < 2 ^ 64" "b = a + 1"
    by (auto simp: checked_add_def split: if_splits)
  then show "unat b = unat a + 1" by (simp only: unat_succ_u64)
  with * show "a < b" by (simp add: word_less_nat_alt)
qed

lemma checked_add_None: "checked_add a 1 = None \<longleftrightarrow> unat a = 2 ^ 64 - 1"
proof -
  have "unat a < 2 ^ 64" using unsigned_less [of a] by simp
  then show ?thesis by (auto simp: checked_add_def)
qed

subsection \<open>Strings\<close>

lemma chars_take_bound: "chars_count (chars_take n s) \<le> n"
proof (induction n s rule: chars_take.induct)
  case (2 n c cs)
  then show ?case by (auto simp: chars_count_def split: nat.splits)
qed (simp add: chars_count_def)

lemma chars_take_all: "chars_count s \<le> n \<Longrightarrow> chars_take n s = s"
proof (induction n s rule: chars_take.induct)
  case (2 n c cs)
  then show ?case by (auto simp: chars_count_def split: nat.splits if_splits)
qed simp

lemma chars_take_prefix: "\<exists>r. s = chars_take n s @ r"
proof (induction n s rule: chars_take.induct)
  case (2 n c cs)
  then show ?case by (auto split: nat.splits)
qed simp

lemma starts_with_append [simp]: "starts_with (p @ s) p"
  by (simp add: starts_with_def)

lemma starts_with_iff: "starts_with s p \<longleftrightarrow> (\<exists>r. s = p @ r)"
proof
  assume "starts_with s p"
  then have "s = p @ drop (length p) s"
    by (metis append_take_drop_id starts_with_def)
  then show "\<exists>r. s = p @ r" ..
qed auto

subsection \<open>Lists\<close>

lemma length_filter_map_le:
  assumes "\<And>x. x \<in> set xs \<Longrightarrow> P (f x) \<Longrightarrow> P x"
  shows "length (filter P (map f xs)) \<le> length (filter P xs)"
  using assms by (induction xs) auto

section \<open>Machines with an invariant\<close>

text \<open>
  The contract every stateful component is held to: one step of any operation keeps the
  invariant. What follows for runs is proved here once; the components interpret the locale on
  their own step functions.
\<close>

locale invariant_machine =
  fixes step :: "'op \<Rightarrow> 's \<Rightarrow> 's"
    and inv_of :: "'s \<Rightarrow> bool"
  assumes step_inv: "inv_of s \<Longrightarrow> inv_of (step e s)"
begin

lemma run_inv: "inv_of s \<Longrightarrow> inv_of (fold step es s)"
  by (induction es arbitrary: s) (simp_all add: step_inv)

lemma run_monotone:
  assumes refl: "\<And>s. R s s" and trans: "\<And>s t u. R s t \<Longrightarrow> R t u \<Longrightarrow> R s u"
    and one: "\<And>e s. inv_of s \<Longrightarrow> R s (step e s)"
  shows "inv_of s \<Longrightarrow> R s (fold step es s)"
proof (induction es arbitrary: s)
  case Nil
  show ?case by (simp add: refl)
next
  case (Cons e es)
  have "R s (step e s)" using Cons.prems by (rule one)
  moreover have "R (step e s) (fold step es (step e s))"
    by (rule Cons.IH) (rule step_inv [OF Cons.prems])
  ultimately show ?case by (auto intro: trans)
qed

end

end
