(* ===== verification/BTree_Map.thy ===== *)
theory BTree_Map
  imports Prelude
begin

text \<open>
  \<open>std::collections::BTreeMap\<close>: a finite map iterated in increasing key order. It is modelled by
  the list of its entries in that order, so \<open>values()\<close>, \<open>iter().find\<close> and \<open>keys()\<close> read the list
  from the front. The locale \<open>ordered_map\<close> states what the components rely on.
\<close>

type_synonym ('k, 'v) btm = "('k \<times> 'v) list"

definition btm_ok :: "('k::linorder, 'v) btm \<Rightarrow> bool" where
  "btm_ok m \<longleftrightarrow> sorted_wrt (<) (map fst m)"

abbreviation btm_get :: "('k, 'v) btm \<Rightarrow> 'k \<Rightarrow> 'v option" where
  "btm_get \<equiv> map_of"

abbreviation btm_values :: "('k, 'v) btm \<Rightarrow> 'v list" where
  "btm_values m \<equiv> map snd m"

abbreviation btm_keys :: "('k, 'v) btm \<Rightarrow> 'k list" where
  "btm_keys m \<equiv> map fst m"

fun btm_insert :: "'k::linorder \<Rightarrow> 'v \<Rightarrow> ('k, 'v) btm \<Rightarrow> ('k, 'v) btm" where
  "btm_insert k v [] = [(k, v)]"
| "btm_insert k v (e # m) =
     (if fst e < k then e # btm_insert k v m
      else if fst e = k then (k, v) # m
      else (k, v) # e # m)"

definition btm_remove :: "'k \<Rightarrow> ('k, 'v) btm \<Rightarrow> ('k, 'v) btm" where
  "btm_remove k m = filter (\<lambda>e. fst e \<noteq> k) m"

text \<open>\<open>get_mut\<close> followed by an assignment through the reference.\<close>

definition btm_modify :: "'k \<Rightarrow> ('v \<Rightarrow> 'v) \<Rightarrow> ('k, 'v) btm \<Rightarrow> ('k, 'v) btm" where
  "btm_modify k f m = map (\<lambda>e. if fst e = k then (fst e, f (snd e)) else e) m"

text \<open>A loop over \<open>values_mut\<close>.\<close>

definition btm_map :: "('v \<Rightarrow> 'w) \<Rightarrow> ('k, 'v) btm \<Rightarrow> ('k, 'w) btm" where
  "btm_map f m = map (\<lambda>e. (fst e, f (snd e))) m"

definition btm_retain :: "('k \<Rightarrow> 'v \<Rightarrow> bool) \<Rightarrow> ('k, 'v) btm \<Rightarrow> ('k, 'v) btm" where
  "btm_retain P m = filter (\<lambda>e. P (fst e) (snd e)) m"

section \<open>The interface\<close>

locale ordered_map =
  fixes ok :: "'m \<Rightarrow> bool"
    and get :: "'m \<Rightarrow> 'k::linorder \<Rightarrow> 'v option"
    and insert_at :: "'k \<Rightarrow> 'v \<Rightarrow> 'm \<Rightarrow> 'm"
    and remove_at :: "'k \<Rightarrow> 'm \<Rightarrow> 'm"
    and modify_at :: "'k \<Rightarrow> ('v \<Rightarrow> 'v) \<Rightarrow> 'm \<Rightarrow> 'm"
    and entries :: "'m \<Rightarrow> ('k \<times> 'v) list"
  assumes get_insert: "get (insert_at k v m) k' = (if k' = k then Some v else get m k')"
    and get_remove: "get (remove_at k m) k' = (if k' = k then None else get m k')"
    and get_modify: "get (modify_at k f m) k' = (if k' = k then map_option f (get m k) else get m k')"
    and ok_insert: "ok m \<Longrightarrow> ok (insert_at k v m)"
    and ok_remove: "ok m \<Longrightarrow> ok (remove_at k m)"
    and ok_modify: "ok m \<Longrightarrow> ok (modify_at k f m)"
    and entries_sorted: "ok m \<Longrightarrow> sorted_wrt (<) (map fst (entries m))"
    and entries_get: "ok m \<Longrightarrow> (k, v) \<in> set (entries m) \<longleftrightarrow> get m k = Some v"
begin

lemma entries_distinct: "ok m \<Longrightarrow> distinct (map fst (entries m))"
  using entries_sorted strict_sorted_imp_sorted strict_sorted_iff by blast

lemma insert_remove_absent: "get m k = None \<Longrightarrow> get (remove_at k (insert_at k v m)) = get m"
  by (auto simp: get_insert get_remove)

lemma modify_entries:
  "ok m \<Longrightarrow> set (entries (modify_at k f m)) =
     {(k', v'). \<exists>v. (k', v) \<in> set (entries m) \<and> v' = (if k' = k then f v else v)}"
  by (auto simp: entries_get ok_modify get_modify split: if_splits)

lemma entries_ext:
  assumes "ok m" "ok m'" "get m = get m'"
  shows "entries m = entries m'"
proof (rule map_sorted_distinct_set_unique [where f = fst])
  show eq: "set (entries m) = set (entries m')"
    using assms by (auto simp: entries_get)
  show "inj_on fst (set (entries m) \<union> set (entries m'))"
    using assms entries_distinct [OF assms(1)] by (simp add: eq distinct_map)
  show "sorted (map fst (entries m))" "distinct (map fst (entries m))"
    "sorted (map fst (entries m'))" "distinct (map fst (entries m'))"
    using entries_sorted [OF assms(1)] entries_sorted [OF assms(2)]
    by (simp_all add: strict_sorted_iff)
qed

end

section \<open>Lemmas on the entry list\<close>

lemma btm_ok_Nil [simp]: "btm_ok []"
  by (simp add: btm_ok_def)

lemma btm_ok_Cons: "btm_ok (e # m) \<longleftrightarrow> (\<forall>k \<in> set (map fst m). fst e < k) \<and> btm_ok m"
  by (auto simp: btm_ok_def)

lemma btm_ok_distinct: "btm_ok m \<Longrightarrow> distinct (map fst m)"
  by (simp add: btm_ok_def strict_sorted_iff)

lemma btm_insert_last: "\<forall>k \<in> fst ` set m. k < i \<Longrightarrow> btm_insert i e m = m @ [(i, e)]"
  by (induction m) auto

lemma btm_get_insert: "btm_get (btm_insert k v m) k' = (if k' = k then Some v else btm_get m k')"
  by (induction m) auto

lemma set_btm_insert_keys: "fst ` set (btm_insert k v m) = insert k (fst ` set m)"
  by (induction m) auto

lemma set_btm_insert:
  "btm_ok m \<Longrightarrow> set (btm_insert k v m) = insert (k, v) {e \<in> set m. fst e \<noteq> k}"
  by (induction m) (auto simp: btm_ok_Cons, (force+)?)

lemma btm_ok_insert: "btm_ok m \<Longrightarrow> btm_ok (btm_insert k v m)"
proof (induction m)
  case (Cons e m)
  then show ?case
    using set_btm_insert_keys [of k v m] by (auto simp: btm_ok_Cons)
qed (simp add: btm_ok_def)

lemma btm_insert_fresh_length: "k \<notin> fst ` set m \<Longrightarrow> length (btm_insert k v m) = Suc (length m)"
  by (induction m) auto

lemma btm_get_remove: "btm_get (btm_remove k m) k' = (if k' = k then None else btm_get m k')"
  unfolding btm_remove_def by (induction m) auto

lemma btm_ok_filter: "btm_ok m \<Longrightarrow> btm_ok (filter P m)"
  by (induction m) (auto simp: btm_ok_Cons)

lemma btm_ok_remove: "btm_ok m \<Longrightarrow> btm_ok (btm_remove k m)"
  by (simp add: btm_remove_def btm_ok_filter)

lemma btm_ok_retain: "btm_ok m \<Longrightarrow> btm_ok (btm_retain P m)"
  by (simp add: btm_retain_def btm_ok_filter)

lemma btm_get_modify:
  "btm_get (btm_modify k f m) k' = (if k' = k then map_option f (btm_get m k) else btm_get m k')"
  unfolding btm_modify_def by (induction m) auto

lemma btm_keys_modify [simp]: "map fst (btm_modify k f m) = map fst m"
  by (simp add: btm_modify_def)

lemma btm_keys_map [simp]: "map fst (btm_map f m) = map fst m"
  by (simp add: btm_map_def)

lemma btm_length_modify [simp]: "length (btm_modify k f m) = length m"
  by (simp add: btm_modify_def)

lemma btm_length_map [simp]: "length (btm_map f m) = length m"
  by (simp add: btm_map_def)

lemma btm_ok_modify [simp]: "btm_ok (btm_modify k f m) = btm_ok m"
  by (simp add: btm_ok_def)

lemma btm_ok_map [simp]: "btm_ok (btm_map f m) = btm_ok m"
  by (simp add: btm_ok_def)

lemma btm_get_map: "btm_get (btm_map f m) k = map_option f (btm_get m k)"
  unfolding btm_map_def by (induction m) auto

lemma btm_get_retain:
  "btm_ok m \<Longrightarrow> btm_get (btm_retain P m) k =
     (case btm_get m k of None \<Rightarrow> None | Some v \<Rightarrow> if P k v then Some v else None)"
  unfolding btm_retain_def
proof (induction m)
  case (Cons e m)
  show ?case
  proof (cases "fst e = k")
    case True
    with Cons.prems have "k \<notin> fst ` set m" by (auto simp: btm_ok_Cons)
    then have "btm_get m k = None" by (simp add: map_of_eq_None_iff)
    with Cons True show ?thesis by (auto simp: btm_ok_Cons)
  next
    case False
    with Cons show ?thesis by (auto simp: btm_ok_Cons)
  qed
qed simp

lemma btm_get_iff: "btm_ok m \<Longrightarrow> (k, v) \<in> set m \<longleftrightarrow> btm_get m k = Some v"
  by (simp add: btm_ok_distinct)

interpretation btree: ordered_map btm_ok btm_get btm_insert btm_remove btm_modify "\<lambda>m. m"
  by unfold_locales
    (auto simp: btm_get_insert btm_get_remove btm_get_modify btm_ok_insert btm_ok_remove
      btm_get_iff, simp add: btm_ok_def)

section \<open>Counting and searching values\<close>

definition btm_count :: "('v \<Rightarrow> bool) \<Rightarrow> ('k, 'v) btm \<Rightarrow> nat" where
  "btm_count P m = length (filter P (btm_values m))"

lemma btm_count_Nil [simp]: "btm_count P [] = 0"
  by (simp add: btm_count_def)

lemma btm_count_Cons: "btm_count P (e # m) = (if P (snd e) then 1 else 0) + btm_count P m"
  by (simp add: btm_count_def)

lemma btm_count_insert:
  "k \<notin> fst ` set m \<Longrightarrow> btm_count P (btm_insert k v m) = btm_count P m + (if P v then 1 else 0)"
  by (induction m) (auto simp: btm_count_Cons)

lemma btm_count_remove: "btm_count P (btm_remove k m) \<le> btm_count P m"
  unfolding btm_remove_def by (induction m) (auto simp: btm_count_Cons)

lemma btm_length_remove: "k \<in> fst ` set m \<Longrightarrow> length (btm_remove k m) < length m"
  unfolding btm_remove_def by (auto intro: length_filter_less)

lemma btm_length_remove_le: "length (btm_remove k m) \<le> length m"
  by (simp add: btm_remove_def)

lemma btm_count_map: "btm_count P (btm_map f m) = btm_count (\<lambda>v. P (f v)) m"
  unfolding btm_map_def by (induction m) (auto simp: btm_count_Cons)

lemma btm_count_modify_other: "k \<notin> fst ` set m \<Longrightarrow> btm_count P (btm_modify k f m) = btm_count P m"
  unfolding btm_modify_def by (induction m) (auto simp: btm_count_Cons)

lemma btm_count_modify:
  assumes "btm_ok m" and "btm_get m k = Some v"
  shows "btm_count P (btm_modify k f m) + (if P v then 1 else 0)
         = btm_count P m + (if P (f v) then 1 else 0)"
  using assms
proof (induction m)
  case (Cons e m)
  show ?case
  proof (cases "fst e = k")
    case True
    with Cons.prems have "k \<notin> fst ` set m" by (auto simp: btm_ok_Cons)
    with True Cons.prems show ?thesis
      by (simp add: btm_modify_def btm_count_Cons) (simp flip: btm_modify_def add: btm_count_modify_other)
  next
    case False
    with Cons show ?thesis by (simp add: btm_modify_def btm_count_Cons btm_ok_Cons)
  qed
qed simp

lemma btm_list_ex:
  "btm_ok m \<Longrightarrow> list_ex P (btm_values m) \<longleftrightarrow> (\<exists>k v. btm_get m k = Some v \<and> P v)"
  by (auto simp: list_ex_iff simp flip: btm_get_iff) (force+)

lemma btm_values_get: "btm_ok m \<Longrightarrow> v \<in> set (btm_values m) \<longleftrightarrow> (\<exists>k. btm_get m k = Some v)"
  by (force simp flip: btm_get_iff)

lemma btm_get_mem: "btm_get m k = Some v \<Longrightarrow> k \<in> fst ` set m"
  by (force dest: map_of_SomeD)

lemma btm_find_get:
  assumes "btm_ok m" and "find (\<lambda>e. P (snd e)) m = Some (k, v)"
  shows "btm_get m k = Some v" and "P v"
    and "\<And>k' v'. btm_get m k' = Some v' \<Longrightarrow> P v' \<Longrightarrow> k \<le> k'"
proof -
  from assms(2) have mem: "(k, v) \<in> set m" and "P v"
    by (auto simp: find_Some_iff set_conv_nth) (metis snd_conv)
  with assms(1) show "btm_get m k = Some v" "P v" by (simp_all add: btm_get_iff)
  fix k' v' assume "btm_get m k' = Some v'" "P v'"
  then show "k \<le> k'"
    using assms
  proof (induction m)
    case (Cons e m)
    then show ?case
      by (auto simp: btm_ok_Cons split: if_splits dest!: btm_get_mem)
  qed simp
qed

lemma btm_find_values:
  "find P (btm_values m) = Some v \<Longrightarrow> \<exists>k. find (\<lambda>e. P (snd e)) m = Some (k, v)"
  by (induction m) (auto split: if_splits)

lemma btm_find_None:
  "btm_ok m \<Longrightarrow> find (\<lambda>e. P (snd e)) m = None \<longleftrightarrow> (\<forall>k v. btm_get m k = Some v \<longrightarrow> \<not> P v)"
  by (auto simp: find_None_iff simp flip: btm_get_iff)

lemma btm_rebuild: "btm_ok m \<Longrightarrow> map (\<lambda>k. (k, the (btm_get m k))) (btm_keys m) = m"
proof -
  assume ok: "btm_ok m"
  have "map (\<lambda>e. (fst e, the (btm_get m (fst e)))) m = m"
    by (rule map_idI) (auto simp: btm_get_iff [OF ok])
  then show ?thesis by (simp add: comp_def)
qed

lemma btm_ext:
  assumes ok: "btm_ok m" "btm_ok m'" and same: "\<And>k. btm_get m k = btm_get m' k"
  shows "m = m'"
proof -
  have eq: "map_of m = map_of m'" using same by (rule ext)
  have "set (btm_keys m) = set (btm_keys m')" unfolding set_map by (metis dom_map_of_conv_image_fst eq)
  then have "btm_keys m = btm_keys m'"
    by (intro strict_sorted_equal) (use ok in \<open>simp_all add: btm_ok_def\<close>)
  then have "map (\<lambda>k. (k, the (btm_get m k))) (btm_keys m) = map (\<lambda>k. (k, the (btm_get m' k))) (btm_keys m')"
    by (simp add: eq)
  then show ?thesis by (simp only: btm_rebuild [OF ok(1)] btm_rebuild [OF ok(2)])
qed

lemmas btm_get_simps = btm_get_insert btm_get_remove btm_get_modify btm_get_map

lemma sorted_key_unique:
  fixes f :: "'a \<Rightarrow> 'b::linorder"
  shows "sorted_wrt (<) (map f xs) \<Longrightarrow> sorted_wrt (<) (map f ys) \<Longrightarrow> set xs = set ys \<Longrightarrow> xs = ys"
proof (induction xs arbitrary: ys)
  case (Cons x xs)
  then obtain y ys' where ys: "ys = y # ys'" by (cases ys) auto
  have "x = y"
  proof (rule ccontr)
    assume "x \<noteq> y"
    then have "x \<in> set ys'" "y \<in> set xs" using Cons.prems(3) ys by auto
    with Cons.prems(1,2) ys have "f y < f x" "f x < f y" by auto
    then show False by simp
  qed
  moreover have "x \<notin> set xs" "y \<notin> set ys'" using Cons.prems(1,2) ys by auto
  ultimately have "set xs = set ys'" using Cons.prems(3) ys by auto
  with Cons ys \<open>x = y\<close> show ?case by simp
qed simp

end
