(* ===== verification/Sched_Core.thy ===== *)
theory Sched_Core
  imports BTree_Map
begin

text \<open>
  The scheduling core (\<open>src/scheduler-core/src/core.rs\<close>): definitions, policies, occurrence
  receipts, and the transitions create / observe / claim / finish / cancel / acknowledge /
  recover. Every transition clones the state, changes the clone and commits it; a failed commit
  poisons the instance. Times are \<open>DateTime<Utc>\<close> instants in nanoseconds.

  The cron library, the time zone database, chrono's range check, serde and sled are not part of
  the repository: the first three are the fields of \<open>calendar\<close>, serde is \<open>codec\<close>, and what sled
  answered to a compare-and-swap and flush is the argument \<open>store_answer\<close> of a commit.
\<close>

section \<open>Data\<close>

type_synonym time = int

definition seconds :: "nat \<Rightarrow> int" where
  "seconds n = int n * 1000000000"

datatype missed_runs = MissedSkip | RunOnce | CatchUp nat

datatype overlap = OverlapSkip | Queue | Concurrent

record retry =
  max_retries :: u32
  delay_seconds :: u32

record policy =
  missed :: missed_runs
  overlap_policy :: overlap
  retry_policy :: retry

record limits =
  lim_schedules :: nat
  lim_records :: nat
  lim_outstanding :: nat
  lim_running :: nat
  grace_seconds :: nat

definition default_limits :: limits where
  "default_limits = \<lparr>lim_schedules = 64, lim_records = 4096, lim_outstanding = 128,
     lim_running = 16, grace_seconds = 5\<rparr>"

definition limits_validate :: "limits \<Rightarrow> unit result" where
  "limits_validate l =
     (if lim_schedules l = 0 \<or> lim_schedules l > 1024
         \<or> lim_records l = 0 \<or> lim_records l > 65536
         \<or> lim_outstanding l = 0 \<or> lim_outstanding l > lim_records l
         \<or> lim_running l = 0 \<or> lim_running l > lim_outstanding l
         \<or> grace_seconds l \<ge> 60
      then Inl (Err ''invalid scheduler limits'')
      else Inr ())"

record sched_definition =
  def_name :: "string option"
  def_code :: string
  def_cron :: string
  def_timezone :: string
  def_policy :: policy

text \<open>What the core takes from croner, chrono-tz and chrono.\<close>

record ('cron, 'tz) calendar =
  cron_parse :: "string \<Rightarrow> string + 'cron"
  tz_parse :: "string \<Rightarrow> string + 'tz"
  find_next_occurrence :: "'cron \<Rightarrow> 'tz \<Rightarrow> time \<Rightarrow> bool \<Rightarrow> string + time"
  find_previous_occurrence :: "'cron \<Rightarrow> 'tz \<Rightarrow> time \<Rightarrow> bool \<Rightarrow> string + time"
  checked_add_signed :: "time \<Rightarrow> int \<Rightarrow> time option"

definition map_err :: "string + 'a \<Rightarrow> 'a result" where
  "map_err r = (case r of Inl e \<Rightarrow> Inl (Err e) | Inr x \<Rightarrow> Inr x)"

text \<open>
  \<open>split_whitespace().count()\<close>. Only ASCII input matters: a cron with another character is
  refused by the second test of the same condition, with the same error.
\<close>

fun word_count :: "bool \<Rightarrow> string \<Rightarrow> nat" where
  "word_count in_word [] = 0"
| "word_count in_word (c # cs) =
     (if is_space c then word_count False cs
      else (if in_word then 0 else 1) + word_count True cs)"

definition cron_char :: "char \<Rightarrow> bool" where
  "cron_char c \<longleftrightarrow> (48 \<le> (of_char c :: nat) \<and> (of_char c :: nat) \<le> 57)
     \<or> (of_char c :: nat) \<in> {9, 10, 12, 13, 32} \<or> c \<in> set ''*,-/''"

definition parsed :: "('cron, 'tz) calendar \<Rightarrow> sched_definition \<Rightarrow> ('cron \<times> 'tz) result" where
  "parsed cal d =
     (if length (def_code d) > 65536
         \<or> (case def_name d of None \<Rightarrow> False | Some n \<Rightarrow> length n > 128)
         \<or> length (def_cron d) > 256
         \<or> length (def_timezone d) > 128
      then Inl (Err ''schedule payload exceeds size limit'')
      else if word_count False (def_cron d) \<noteq> 5 \<or> \<not> list_all cron_char (def_cron d)
      then Inl (Err ''expected numeric five-field cron (* , - / supported)'')
      else case map_err (cron_parse cal (def_cron d)) of
        Inl e \<Rightarrow> Inl e
      | Inr cron \<Rightarrow>
          (case map_err (tz_parse cal (def_timezone d)) of
             Inl e \<Rightarrow> Inl e
           | Inr tz \<Rightarrow>
               (if max_retries (retry_policy (def_policy d)) > 100
                   \<or> delay_seconds (retry_policy (def_policy d)) > 86400
                then Inl (Err ''retry limit exceeds 100 retries or 86400 seconds'')
                else Inr (cron, tz))))"

record schedule =
  sched_id :: u64
  sched_def :: sched_definition
  enabled :: bool
  deleted :: bool
  next_due :: "time option"
  rejected :: u64

datatype status =
    Pending (attempt: u32) (ready_at: time)
  | Running (attempt: u32)
  | Cancelling (attempt: u32)
  | Cancelled (attempt: u32)
  | Succeeded (attempt: u32)
  | Failed (attempt: u32) (status_detail: string)
  | Unknown (attempt: u32) (status_detail: string)
  | Abandoned (attempt: u32) (status_detail: string)

fun terminal :: "status \<Rightarrow> bool" where
  "terminal (Succeeded _) = True"
| "terminal (Failed _ _) = True"
| "terminal (Abandoned _ _) = True"
| "terminal (Cancelled _) = True"
| "terminal _ = False"

fun active :: "status \<Rightarrow> bool" where
  "active (Running _) = True"
| "active (Unknown _ _) = True"
| "active (Cancelling _) = True"
| "active _ = False"

record occurrence =
  occ_id :: u64
  occ_schedule :: u64
  due_at :: time
  occ_status :: status

record invocation =
  inv_occurrence :: u64
  inv_schedule :: u64
  inv_due :: time
  inv_attempt :: u32
  inv_code :: string

datatype outcome = OSucceeded | OCancelled | OFailed string | OUnknown string

record sched_state =
  version :: u32
  limits_of :: limits
  next_id :: u64
  watermark :: "time option"
  schedules :: "(u64, schedule) btm"
  occurrences :: "(u64, occurrence) btm"

text \<open>
  \<open>Core\<close>. \<open>durable\<close> tells whether \<open>db\<close> and \<open>tree\<close> are present; \<open>persisted\<close> is the value the
  next compare-and-swap expects.
\<close>

record core =
  durable :: bool
  persisted :: "string option"
  state :: sched_state
  poisoned :: bool
  runner_active :: bool

text \<open>serde_json on the state.\<close>

record codec =
  to_json :: "sched_state \<Rightarrow> string + string"
  from_json :: "string \<Rightarrow> string + sched_state"

text \<open>What sled answered to the compare-and-swap and to the flush that follows it.\<close>

datatype store_answer = Flushed | SwapConflict | SwapError string | FlushError string

definition next_slot :: "('cron, 'tz) calendar \<Rightarrow> 'cron \<Rightarrow> 'tz \<Rightarrow> time \<Rightarrow> time result" where
  "next_slot cal cron tz after = map_err (find_next_occurrence cal cron tz after False)"

definition detail :: "string \<Rightarrow> string" where
  "detail s = chars_take 1024 s"

section \<open>Persistence\<close>

definition empty_state :: "limits \<Rightarrow> sched_state" where
  "empty_state l = \<lparr>version = 1, limits_of = l, next_id = 1, watermark = None,
     schedules = [], occurrences = []\<rparr>"

definition commit :: "codec \<Rightarrow> store_answer \<Rightarrow> core \<Rightarrow> sched_state \<Rightarrow> unit result \<times> core" where
  "commit cd w c s =
     (if poisoned c then (Inl (Err ''store is poisoned; reopen before continuing''), c)
      else if \<not> durable c then (Inr (), c\<lparr>state := s\<rparr>)
      else case map_err (to_json cd s) of
        Inl e \<Rightarrow> (Inl e, c)
      | Inr bytes \<Rightarrow>
          (case w of
             SwapConflict \<Rightarrow>
               (Inl (Err ''scheduler state changed outside this owner; reopen before continuing''),
                c\<lparr>poisoned := True\<rparr>)
           | SwapError e \<Rightarrow>
               (Inl (Err (''sled write failed; no further dispatch permitted: '' @ e)),
                c\<lparr>poisoned := True\<rparr>)
           | FlushError e \<Rightarrow>
               (Inl (Err (''sled flush failed; no further dispatch permitted: '' @ e)),
                c\<lparr>poisoned := True\<rparr>)
           | Flushed \<Rightarrow> (Inr (), c\<lparr>persisted := Some bytes, state := s\<rparr>)))"

text \<open>Running receipts of a state become Unknown; nothing else changes.\<close>

fun interrupt_status :: "string \<Rightarrow> status \<Rightarrow> status" where
  "interrupt_status why (Running a) = Unknown a why"
| "interrupt_status why st = st"

definition interrupt_state :: "string \<Rightarrow> sched_state \<Rightarrow> sched_state" where
  "interrupt_state why s =
     s\<lparr>occurrences := btm_map (\<lambda>oc. oc\<lparr>occ_status := interrupt_status why (occ_status oc)\<rparr>)
        (occurrences s)\<rparr>"

definition interrupt_running :: "codec \<Rightarrow> store_answer \<Rightarrow> core \<Rightarrow> unit result \<times> core" where
  "interrupt_running cd w c =
     commit cd w c (interrupt_state ''runner interrupted before durable completion'' (state c))"

text \<open>
  \<open>from_config\<close>: \<open>old_sqlite\<close> tells whether the directory holds a prototype store, \<open>opened\<close> is
  what opening the database, its tree and reading the key answered.
\<close>

definition from_config ::
  "codec \<Rightarrow> store_answer \<Rightarrow> bool \<Rightarrow> string + string option \<Rightarrow> limits \<Rightarrow> core result" where
  "from_config cd w old_sqlite opened l =
     (case limits_validate l of Inl e \<Rightarrow> Inl e
      | Inr _ \<Rightarrow>
        if old_sqlite
        then Inl (Err ''old SQLite comparison store requires explicit migration; refusing an empty sled replacement'')
        else (case map_err opened of Inl e \<Rightarrow> Inl e
      | Inr bytes \<Rightarrow>
       (case (case bytes of
                Some b \<Rightarrow> map_err (from_json cd b)
              | None \<Rightarrow> Inr (empty_state l)) of
          Inl e \<Rightarrow> Inl e
        | Inr s \<Rightarrow>
            if version s \<noteq> 1 then Inl (Err ''unsupported store version'')
            else if limits_of s \<noteq> l
            then Inl (Err ''store limits differ; use its original limits'')
            else
              (case commit cd w
                      \<lparr>durable = True, persisted = bytes, state = s, poisoned = False,
                       runner_active = False\<rparr>
                      (interrupt_state ''interrupted before durable completion'' s) of
                 (Inl e, _) \<Rightarrow> Inl e
               | (Inr _, c) \<Rightarrow> Inr c))))"

definition from_checkpoint ::
  "codec \<Rightarrow> store_answer \<Rightarrow> string option \<Rightarrow> limits \<Rightarrow> bool \<Rightarrow> core result" where
  "from_checkpoint cd w checkpoint l recover =
     (case limits_validate l of Inl e \<Rightarrow> Inl e
      | Inr _ \<Rightarrow>
       (let c0 = \<lparr>durable = False, persisted = None, state = empty_state l,
                  poisoned = False, runner_active = False\<rparr>;
            loaded =
              (case checkpoint of
                 None \<Rightarrow> Inr c0
               | Some text \<Rightarrow>
                   (case map_err (from_json cd text) of Inl e \<Rightarrow> Inl e
                    | Inr s \<Rightarrow>
                        if version s \<noteq> 1 \<or> limits_of s \<noteq> l
                        then Inl (Err ''checkpoint version or limits mismatch'')
                        else (case commit cd w c0 s of
                                (Inl e, _) \<Rightarrow> Inl e
                              | (Inr _, c) \<Rightarrow> Inr c)))
        in case loaded of Inl e \<Rightarrow> Inl e
           | Inr c \<Rightarrow>
               if recover
               then (case interrupt_running cd w c of
                       (Inl e, _) \<Rightarrow> Inl e
                     | (Inr _, c') \<Rightarrow> Inr c')
               else Inr c))"

definition checkpoint :: "codec \<Rightarrow> core \<Rightarrow> string result" where
  "checkpoint cd c =
     (if poisoned c then Inl (Err ''store poisoned'') else map_err (to_json cd (state c)))"

section \<open>Operations\<close>

definition schedules_list :: "core \<Rightarrow> schedule list" where
  "schedules_list c = filter (\<lambda>s. \<not> deleted s) (btm_values (schedules (state c)))"

definition occurrences_list :: "core \<Rightarrow> occurrence list" where
  "occurrences_list c = btm_values (occurrences (state c))"

definition definition_of :: "core \<Rightarrow> u64 \<Rightarrow> sched_definition option" where
  "definition_of c i = map_option sched_def (btm_get (schedules (state c)) i)"

definition set_status :: "u64 \<Rightarrow> status \<Rightarrow> sched_state \<Rightarrow> sched_state" where
  "set_status i st s = s\<lparr>occurrences := btm_modify i (\<lambda>oc. oc\<lparr>occ_status := st\<rparr>) (occurrences s)\<rparr>"

definition reject_unadmitted ::
  "codec \<Rightarrow> store_answer \<Rightarrow> core \<Rightarrow> u64 \<Rightarrow> u32 \<Rightarrow> unit result \<times> core" where
  "reject_unadmitted cd w c i a =
     (case btm_get (occurrences (state c)) i of
        None \<Rightarrow> (Inl (Err ''unknown occurrence''), c)
      | Some oc \<Rightarrow>
          (let failed = Failed a ''quorum confirmed attempt was never admitted'' in
           case occ_status oc of
             Running a' \<Rightarrow>
               if a' = a then commit cd w c (set_status i failed (state c))
               else (Inl (Err ''no matching unresolved attempt''), c)
           | Unknown a' _ \<Rightarrow>
               if a' = a then commit cd w c (set_status i failed (state c))
               else (Inl (Err ''no matching unresolved attempt''), c)
           | Cancelling a' \<Rightarrow>
               if a' = a then commit cd w c (set_status i (Cancelled a) (state c))
               else (Inl (Err ''no matching unresolved attempt''), c)
           | _ \<Rightarrow> (Inl (Err ''no matching unresolved attempt''), c)))"

definition create ::
  "('cron, 'tz) calendar \<Rightarrow> codec \<Rightarrow> store_answer \<Rightarrow> core \<Rightarrow> sched_definition \<Rightarrow> time
   \<Rightarrow> u64 result \<times> core" where
  "create cal cd w c d now =
     (let s = state c in
      case parsed cal d of Inl e \<Rightarrow> (Inl e, c)
      | Inr (cron, tz) \<Rightarrow>
        if (case watermark s of None \<Rightarrow> False | Some m \<Rightarrow> now < m)
        then (Inl (Err ''creation precedes observed clock''), c)
        else if (case missed (def_policy d) of
                   CatchUp cap \<Rightarrow> cap = 0 \<or> cap > lim_outstanding (limits_of s)
                 | _ \<Rightarrow> False)
        then (Inl (Err ''catch-up cap exceeds outstanding limit or is zero''), c)
        else if length (schedules s) \<ge> lim_schedules (limits_of s)
        then (Inl (Err ''schedule limit reached (includes tombstones)''), c)
        else (case next_slot cal cron tz now of Inl e \<Rightarrow> (Inl e, c)
      | Inr due \<Rightarrow>
        (case checked_add (next_id s) 1 of
           None \<Rightarrow> (Inl (Err ''identity exhausted''), c)
         | Some n \<Rightarrow>
            (case commit cd w c
                    (s\<lparr>next_id := n,
                       schedules := btm_insert (next_id s)
                         \<lparr>sched_id = next_id s, sched_def = d, enabled = True, deleted = False,
                          next_due = Some due, rejected = 0\<rparr> (schedules s)\<rparr>) of
               (Inl e, c') \<Rightarrow> (Inl e, c')
             | (Inr _, c') \<Rightarrow> (Inr (next_id s), c')))))"

definition stop_schedule ::
  "codec \<Rightarrow> store_answer \<Rightarrow> core \<Rightarrow> u64 \<Rightarrow> bool \<Rightarrow> unit result \<times> core" where
  "stop_schedule cd w c i del =
     (case btm_get (schedules (state c)) i of
        None \<Rightarrow> (Inl (Err ''unknown schedule''), c)
      | Some _ \<Rightarrow>
          commit cd w c ((state c)\<lparr>schedules :=
            btm_modify i (\<lambda>s. s\<lparr>enabled := False, deleted := deleted s \<or> del\<rparr>)
              (schedules (state c))\<rparr>))"

definition disable :: "codec \<Rightarrow> store_answer \<Rightarrow> core \<Rightarrow> u64 \<Rightarrow> unit result \<times> core" where
  "disable cd w c i = stop_schedule cd w c i False"

definition delete :: "codec \<Rightarrow> store_answer \<Rightarrow> core \<Rightarrow> u64 \<Rightarrow> unit result \<times> core" where
  "delete cd w c i = stop_schedule cd w c i True"

definition request_cancel :: "codec \<Rightarrow> store_answer \<Rightarrow> core \<Rightarrow> u64 \<Rightarrow> unit result \<times> core" where
  "request_cancel cd w c i =
     (case btm_get (occurrences (state c)) i of
        None \<Rightarrow> (Inl (Err ''unknown occurrence''), c)
      | Some oc \<Rightarrow>
          (case occ_status oc of
             Pending a _ \<Rightarrow> commit cd w c (set_status i (Cancelled a) (state c))
           | Running a \<Rightarrow> commit cd w c (set_status i (Cancelling a) (state c))
           | Unknown a _ \<Rightarrow> commit cd w c (set_status i (Cancelling a) (state c))
           | _ \<Rightarrow> (Inr (), c)))"

subsection \<open>Observation\<close>

text \<open>
  The selection loop \<open>for n in 0..cap\<close>: walks the calendar backwards from the observation,
  newest slot first; only the first step may return the cursor itself.
\<close>

fun select_slots ::
  "('cron, 'tz) calendar \<Rightarrow> 'cron \<Rightarrow> 'tz \<Rightarrow> bool \<Rightarrow> nat \<Rightarrow> time \<Rightarrow> time \<Rightarrow> nat \<Rightarrow> bool \<Rightarrow> time
   \<Rightarrow> time list result" where
  "select_slots cal cron tz skip grace now lo 0 inclusive cursor = Inr []"
| "select_slots cal cron tz skip grace now lo (Suc n) inclusive cursor =
     (case map_err (find_previous_occurrence cal cron tz cursor inclusive) of
        Inl e \<Rightarrow> Inl e
      | Inr due \<Rightarrow>
          if due < lo then Inr []
          else if skip \<and> now - due > seconds grace then Inr []
          else (case select_slots cal cron tz skip grace now lo n False due of
                  Inl e \<Rightarrow> Inl e
                | Inr rest \<Rightarrow> Inr (due # rest)))"

definition occupied :: "sched_state \<Rightarrow> u64 \<Rightarrow> bool" where
  "occupied s i \<longleftrightarrow>
     list_ex (\<lambda>oc. occ_schedule oc = i \<and> \<not> terminal (occ_status oc)) (btm_values (occurrences s))"

definition outstanding :: "sched_state \<Rightarrow> nat" where
  "outstanding s = length (filter (\<lambda>oc. \<not> terminal (occ_status oc)) (btm_values (occurrences s)))"

definition bump_rejected :: "u64 \<Rightarrow> sched_state \<Rightarrow> sched_state" where
  "bump_rejected i s =
     s\<lparr>schedules := btm_modify i (\<lambda>sc. sc\<lparr>rejected := saturating_add (rejected sc) 1\<rparr>) (schedules s)\<rparr>"

text \<open>
  Admission of one selected slot: reject on overlap or capacity, else evict the oldest terminal
  receipt when the record table is full (and reject when there is none), else record it.
\<close>

definition evict :: "sched_state \<Rightarrow> sched_state option" where
  "evict s =
     (if length (occurrences s) \<ge> lim_records (limits_of s)
      then (case find (\<lambda>e. terminal (occ_status (snd e))) (occurrences s) of
              Some (old, _) \<Rightarrow> Some (s\<lparr>occurrences := btm_remove old (occurrences s)\<rparr>)
            | None \<Rightarrow> None)
      else Some s)"

definition admit_slot :: "time \<Rightarrow> u64 \<Rightarrow> overlap \<Rightarrow> time \<Rightarrow> sched_state \<Rightarrow> sched_state result" where
  "admit_slot now i ov due s =
     (if (ov = OverlapSkip \<and> occupied s i) \<or> outstanding s \<ge> lim_outstanding (limits_of s)
      then Inr (bump_rejected i s)
      else case evict s of
        None \<Rightarrow> Inr (bump_rejected i s)
      | Some s' \<Rightarrow>
          (case checked_add (next_id s') 1 of
             None \<Rightarrow> Inl (Err ''identity exhausted'')
           | Some n \<Rightarrow>
               Inr (s'\<lparr>next_id := n,
                  occurrences := btm_insert (next_id s')
                    \<lparr>occ_id = next_id s', occ_schedule = i, due_at = due,
                     occ_status = Pending 1 now\<rparr> (occurrences s')\<rparr>)))"

definition observe_schedule ::
  "('cron, 'tz) calendar \<Rightarrow> time \<Rightarrow> u64 \<Rightarrow> sched_state \<Rightarrow> sched_state result" where
  "observe_schedule cal now i s =
     (case btm_get (schedules s) i of
        None \<Rightarrow> Inl (Panic ''no entry found for key'')
      | Some sc \<Rightarrow>
       (case next_due sc of
          None \<Rightarrow> Inr s
        | Some lo \<Rightarrow>
          if \<not> lo \<le> now then Inr s
          else (case parsed cal (sched_def sc) of Inl e \<Rightarrow> Inl e
        | Inr (cron, tz) \<Rightarrow>
         (case next_slot cal cron tz now of Inl e \<Rightarrow> Inl e
          | Inr nxt \<Rightarrow>
           (let s1 = s\<lparr>schedules := btm_modify i (\<lambda>x. x\<lparr>next_due := Some nxt\<rparr>) (schedules s)\<rparr> in
            if \<not> enabled sc then Inr s1
            else
             (let pol = def_policy (sched_def sc);
                  cap = (case missed pol of CatchUp n \<Rightarrow> n | _ \<Rightarrow> 1) in
              case select_slots cal cron tz (missed pol = MissedSkip)
                     (grace_seconds (limits_of s1)) now lo cap True now of
                Inl e \<Rightarrow> Inl e
              | Inr selected \<Rightarrow>
                  fold_res (admit_slot now i (overlap_policy pol)) (rev selected) s1))))))"

definition observe ::
  "('cron, 'tz) calendar \<Rightarrow> codec \<Rightarrow> store_answer \<Rightarrow> core \<Rightarrow> time \<Rightarrow> unit result \<times> core" where
  "observe cal cd w c now =
     (if poisoned c then (Inl (Err ''store is poisoned''), c)
      else if (case watermark (state c) of None \<Rightarrow> False | Some m \<Rightarrow> now \<le> m) then (Inr (), c)
      else case fold_res (observe_schedule cal now) (btm_keys (schedules (state c))) (state c) of
        Inl e \<Rightarrow> (Inl e, c)
      | Inr s \<Rightarrow> commit cd w c (s\<lparr>watermark := Some now\<rparr>))"

subsection \<open>Dispatch and completion\<close>

definition active_count :: "sched_state \<Rightarrow> nat" where
  "active_count s = length (filter (\<lambda>oc. active (occ_status oc)) (btm_values (occurrences s)))"

definition blocked :: "sched_state \<Rightarrow> occurrence \<Rightarrow> bool" where
  "blocked s oc \<longleftrightarrow>
     list_ex (\<lambda>x. occ_schedule x = occ_schedule oc \<and> occ_id x \<noteq> occ_id oc
        \<and> \<not> terminal (occ_status x) \<and> (active (occ_status x) \<or> occ_id x < occ_id oc))
       (btm_values (occurrences s))"

fun find_candidate :: "sched_state \<Rightarrow> time \<Rightarrow> occurrence list \<Rightarrow> (u64 \<times> u32) option result" where
  "find_candidate s now [] = Inr None"
| "find_candidate s now (oc # ocs) =
     (case occ_status oc of
        Pending a ready \<Rightarrow>
          if ready > now then find_candidate s now ocs
          else (case btm_get (schedules s) (occ_schedule oc) of
                  None \<Rightarrow> Inl (Panic ''no entry found for key'')
                | Some sc \<Rightarrow>
                    if overlap_policy (def_policy (sched_def sc)) \<noteq> Concurrent \<and> blocked s oc
                    then find_candidate s now ocs
                    else Inr (Some (occ_id oc, a)))
      | _ \<Rightarrow> find_candidate s now ocs)"

definition claim ::
  "codec \<Rightarrow> store_answer \<Rightarrow> core \<Rightarrow> time \<Rightarrow> invocation option result \<times> core" where
  "claim cd w c now =
     (let s = state c in
      if poisoned c then (Inl (Err ''store is poisoned''), c)
      else if active_count s \<ge> lim_running (limits_of s) then (Inr None, c)
      else case find_candidate s now (btm_values (occurrences s)) of
        Inl e \<Rightarrow> (Inl e, c)
      | Inr None \<Rightarrow> (Inr None, c)
      | Inr (Some (i, a)) \<Rightarrow>
         (case btm_get (occurrences s) i of
            None \<Rightarrow> (Inl (Panic ''called Option::unwrap() on a None value''), c)
          | Some oc \<Rightarrow>
             (case btm_get (schedules s) (occ_schedule oc) of
                None \<Rightarrow> (Inl (Panic ''no entry found for key''), c)
              | Some sc \<Rightarrow>
                 (case commit cd w c (set_status i (Running a) s) of
                    (Inl e, c') \<Rightarrow> (Inl e, c')
                  | (Inr _, c') \<Rightarrow>
                      (Inr (Some \<lparr>inv_occurrence = i, inv_schedule = occ_schedule oc,
                         inv_due = due_at oc, inv_attempt = a,
                         inv_code = def_code (sched_def sc)\<rparr>), c')))))"

definition finish_status ::
  "('cron, 'tz) calendar \<Rightarrow> retry \<Rightarrow> bool \<Rightarrow> u32 \<Rightarrow> outcome \<Rightarrow> time \<Rightarrow> status result" where
  "finish_status cal r cancelling a out now =
     (case out of
        OSucceeded \<Rightarrow> Inr (Succeeded a)
      | OCancelled \<Rightarrow> Inr (Cancelled a)
      | OFailed m \<Rightarrow>
          if \<not> cancelling \<and> a \<le> max_retries r
          then (case checked_add_signed cal now (seconds (unat (delay_seconds r))) of
                  None \<Rightarrow> Inl (Err ''retry time overflow'')
                | Some t \<Rightarrow> Inr (Pending (a + 1) t))
          else Inr (Failed a (detail m))
      | OUnknown m \<Rightarrow> if cancelling then Inr (Cancelling a) else Inr (Unknown a (detail m)))"

definition finish ::
  "('cron, 'tz) calendar \<Rightarrow> codec \<Rightarrow> store_answer \<Rightarrow> core \<Rightarrow> invocation \<Rightarrow> outcome \<Rightarrow> time
   \<Rightarrow> unit result \<times> core" where
  "finish cal cd w c iv out now =
     (case btm_get (occurrences (state c)) (inv_occurrence iv) of
        None \<Rightarrow> (Inl (Err ''unknown occurrence''), c)
      | Some oc \<Rightarrow>
        if occ_schedule oc \<noteq> inv_schedule iv \<or> due_at oc \<noteq> inv_due iv
           \<or> (occ_status oc \<noteq> Running (inv_attempt iv) \<and> occ_status oc \<noteq> Cancelling (inv_attempt iv))
        then (Inl (Err ''stale or mismatched execution completion''), c)
        else (case btm_get (schedules (state c)) (occ_schedule oc) of
          None \<Rightarrow> (Inl (Panic ''no entry found for key''), c)
        | Some sc \<Rightarrow>
         (case finish_status cal (retry_policy (def_policy (sched_def sc)))
                 (occ_status oc = Cancelling (inv_attempt iv)) (inv_attempt iv) out now of
            Inl e \<Rightarrow> (Inl e, c)
          | Inr st \<Rightarrow> commit cd w c (set_status (inv_occurrence iv) st (state c)))))"

definition acknowledge_stopped ::
  "codec \<Rightarrow> store_answer \<Rightarrow> core \<Rightarrow> u64 \<Rightarrow> unit result \<times> core" where
  "acknowledge_stopped cd w c i =
     (case btm_get (occurrences (state c)) i of
        None \<Rightarrow> (Inl (Err ''unknown occurrence''), c)
      | Some oc \<Rightarrow>
         (let stopped = (\<lambda>a. Abandoned a ''operator attested stopped; outcome unresolved'') in
          case occ_status oc of
            Unknown a _ \<Rightarrow> commit cd w c (set_status i (stopped a) (state c))
          | Cancelling a \<Rightarrow> commit cd w c (set_status i (stopped a) (state c))
          | _ \<Rightarrow> (Inl (Err ''occurrence is not unknown or cancelling''), c)))"

end
