(* ===== verification/Sched_Inv.thy ===== *)
theory Sched_Inv
  imports Sched_Core
begin

text \<open>
  The invariant of the scheduler state and its preservation by every transition: identities are
  unique and below the counter, receipts refer to existing schedules, the configured bounds hold,
  overlap policies are respected, and no due slot of a schedule has two receipts.
\<close>

section \<open>The invariant\<close>

definition well_limited :: "sched_definition \<Rightarrow> bool" where
  "well_limited d \<longleftrightarrow> max_retries (retry_policy (def_policy d)) \<le> 100"

definition ids_ok :: "sched_state \<Rightarrow> bool" where
  "ids_ok s \<longleftrightarrow> btm_ok (schedules s) \<and> btm_ok (occurrences s)
     \<and> (\<forall>k sc. btm_get (schedules s) k = Some sc \<longrightarrow>
           sched_id sc = k \<and> k < next_id s \<and> well_limited (sched_def sc))
     \<and> (\<forall>k oc. btm_get (occurrences s) k = Some oc \<longrightarrow> occ_id oc = k \<and> k < next_id s)"

text \<open>A receipt belongs to a schedule, and its attempt number is within that schedule's budget.\<close>

definition receipt_ok :: "sched_state \<Rightarrow> occurrence \<Rightarrow> bool" where
  "receipt_ok s oc \<longleftrightarrow>
     (case btm_get (schedules s) (occ_schedule oc) of
        None \<Rightarrow> False
      | Some sc \<Rightarrow> 1 \<le> unat (attempt (occ_status oc))
          \<and> unat (attempt (occ_status oc)) \<le> unat (max_retries (retry_policy (def_policy (sched_def sc)))) + 1)"

definition receipts_ok :: "sched_state \<Rightarrow> bool" where
  "receipts_ok s \<longleftrightarrow> (\<forall>k oc. btm_get (occurrences s) k = Some oc \<longrightarrow> receipt_ok s oc)"

definition bounds_ok :: "sched_state \<Rightarrow> bool" where
  "bounds_ok s \<longleftrightarrow> length (schedules s) \<le> lim_schedules (limits_of s)
     \<and> length (occurrences s) \<le> lim_records (limits_of s)
     \<and> outstanding s \<le> lim_outstanding (limits_of s)
     \<and> active_count s \<le> lim_running (limits_of s)"

definition policy_of :: "sched_state \<Rightarrow> u64 \<Rightarrow> overlap option" where
  "policy_of s i = map_option (\<lambda>sc. overlap_policy (def_policy (sched_def sc))) (btm_get (schedules s) i)"

definition live_in :: "sched_state \<Rightarrow> u64 \<Rightarrow> u64 \<Rightarrow> bool" where
  "live_in s i k \<longleftrightarrow> (\<exists>oc. btm_get (occurrences s) k = Some oc \<and> occ_schedule oc = i
      \<and> \<not> terminal (occ_status oc))"

definition active_in :: "sched_state \<Rightarrow> u64 \<Rightarrow> u64 \<Rightarrow> bool" where
  "active_in s i k \<longleftrightarrow> (\<exists>oc. btm_get (occurrences s) k = Some oc \<and> occ_schedule oc = i
      \<and> active (occ_status oc))"

text \<open>
  \<open>OverlapSkip\<close>: at most one unresolved receipt of a schedule. \<open>Queue\<close> (and \<open>OverlapSkip\<close>): at
  most one running, unknown or cancelling receipt.
\<close>

definition overlap_ok :: "sched_state \<Rightarrow> bool" where
  "overlap_ok s \<longleftrightarrow>
     (\<forall>i k k'. policy_of s i = Some OverlapSkip \<longrightarrow> live_in s i k \<longrightarrow> live_in s i k' \<longrightarrow> k = k')
   \<and> (\<forall>i k k'. policy_of s i \<noteq> Some Concurrent \<longrightarrow> active_in s i k \<longrightarrow> active_in s i k' \<longrightarrow> k = k')"

text \<open>
  The clock: armed slots are after the last observation, receipts are not, and a slot of a
  schedule has at most one receipt.
\<close>

definition clock_ok :: "sched_state \<Rightarrow> bool" where
  "clock_ok s \<longleftrightarrow>
     (\<forall>k sc t m. btm_get (schedules s) k = Some sc \<longrightarrow> next_due sc = Some t \<longrightarrow>
        watermark s = Some m \<longrightarrow> m < t)
   \<and> (\<forall>k oc. btm_get (occurrences s) k = Some oc \<longrightarrow> (\<exists>m. watermark s = Some m \<and> due_at oc \<le> m))"

definition slots_unique :: "sched_state \<Rightarrow> bool" where
  "slots_unique s \<longleftrightarrow>
     (\<forall>k oc k' oc'. btm_get (occurrences s) k = Some oc \<longrightarrow> btm_get (occurrences s) k' = Some oc' \<longrightarrow>
        occ_schedule oc = occ_schedule oc' \<longrightarrow> due_at oc = due_at oc' \<longrightarrow> k = k')"

definition base_inv :: "sched_state \<Rightarrow> bool" where
  "base_inv s \<longleftrightarrow> ids_ok s \<and> receipts_ok s \<and> bounds_ok s \<and> overlap_ok s \<and> slots_unique s"

definition sched_inv :: "sched_state \<Rightarrow> bool" where
  "sched_inv s \<longleftrightarrow> ids_ok s \<and> receipts_ok s \<and> bounds_ok s \<and> overlap_ok s \<and> clock_ok s \<and> slots_unique s"

lemma sched_inv_iff: "sched_inv s \<longleftrightarrow> base_inv s \<and> clock_ok s"
  by (auto simp: sched_inv_def base_inv_def)

named_theorems inv_defs \<open>the conjuncts of the scheduler invariant\<close>

lemmas [inv_defs] = ids_ok_def receipts_ok_def receipt_ok_def bounds_ok_def overlap_ok_def
  live_in_def active_in_def policy_of_def clock_ok_def slots_unique_def

section \<open>What the calendar promises\<close>

text \<open>
  Croner's contract: the next occurrence is after the instant, the previous one is before it or,
  when asked to include it, at it.
\<close>

definition calendar_ok :: "('cron, 'tz) calendar \<Rightarrow> bool" where
  "calendar_ok cal \<longleftrightarrow>
     (\<forall>cron tz t u. find_next_occurrence cal cron tz t False = Inr u \<longrightarrow> t < u)
   \<and> (\<forall>cron tz t b u. find_previous_occurrence cal cron tz t b = Inr u \<longrightarrow> u \<le> t \<and> (\<not> b \<longrightarrow> u < t))"

lemma map_err_Inr [simp]: "map_err r = Inr x \<longleftrightarrow> r = Inr x"
  by (auto simp: map_err_def split: sum.splits)

lemma map_err_Inl: "map_err r = Inl e \<longleftrightarrow> (\<exists>m. r = Inl m \<and> e = Err m)"
  by (auto simp: map_err_def split: sum.splits)

lemma next_slot_after: "calendar_ok cal \<Longrightarrow> next_slot cal cron tz t = Inr u \<Longrightarrow> t < u"
  by (auto simp: calendar_ok_def next_slot_def)

lemma parsed_limited: "parsed cal d = Inr x \<Longrightarrow> well_limited d"
  by (auto simp: parsed_def well_limited_def not_less split: if_splits sum.splits)

section \<open>Views of the state\<close>

lemma occupied_iff: "ids_ok s \<Longrightarrow> occupied s i \<longleftrightarrow> (\<exists>k. live_in s i k)"
  unfolding occupied_def live_in_def ids_ok_def by (subst btm_list_ex) auto

lemma outstanding_count: "outstanding s = btm_count (\<lambda>oc. \<not> terminal (occ_status oc)) (occurrences s)"
  by (simp add: outstanding_def btm_count_def)

lemma active_count_count: "active_count s = btm_count (\<lambda>oc. active (occ_status oc)) (occurrences s)"
  by (simp add: active_count_def btm_count_def)

lemma active_not_terminal: "active st \<Longrightarrow> \<not> terminal st"
  by (cases st) auto

lemma get_set_status:
  "btm_get (occurrences (set_status i st s)) k =
     (if k = i then map_option (\<lambda>oc. oc\<lparr>occ_status := st\<rparr>) (btm_get (occurrences s) i)
      else btm_get (occurrences s) k)"
  by (simp add: set_status_def btm_get_modify)

lemma set_status_frame [simp]:
  "schedules (set_status i st s) = schedules s" "limits_of (set_status i st s) = limits_of s"
  "next_id (set_status i st s) = next_id s" "watermark (set_status i st s) = watermark s"
  "version (set_status i st s) = version s"
  "length (occurrences (set_status i st s)) = length (occurrences s)"
  "btm_ok (occurrences (set_status i st s)) = btm_ok (occurrences s)"
  by (simp_all add: set_status_def)

lemma outstanding_set_status:
  assumes "ids_ok s" "btm_get (occurrences s) i = Some oc"
  shows "outstanding (set_status i st s) + (if terminal (occ_status oc) then 0 else 1)
         = outstanding s + (if terminal st then 0 else 1)"
  using btm_count_modify [of "occurrences s" i oc "\<lambda>oc. \<not> terminal (occ_status oc)"
      "\<lambda>oc. oc\<lparr>occ_status := st\<rparr>"] assms
  by (auto simp: outstanding_count set_status_def ids_ok_def split: if_splits)

lemma active_count_set_status:
  assumes "ids_ok s" "btm_get (occurrences s) i = Some oc"
  shows "active_count (set_status i st s) + (if active (occ_status oc) then 1 else 0)
         = active_count s + (if active st then 1 else 0)"
  using btm_count_modify [of "occurrences s" i oc "\<lambda>oc. active (occ_status oc)"
      "\<lambda>oc. oc\<lparr>occ_status := st\<rparr>"] assms
  by (auto simp: active_count_count set_status_def ids_ok_def split: if_splits)

section \<open>Status changes\<close>

lemma receipt_okD: "sched_inv s \<Longrightarrow> btm_get (occurrences s) k = Some oc \<Longrightarrow> receipt_ok s oc"
  by (auto simp: sched_inv_def receipts_ok_def)

lemma receipt_ok_same_attempt:
  "attempt st = attempt (occ_status oc) \<Longrightarrow> receipt_ok s (oc\<lparr>occ_status := st\<rparr>) = receipt_ok s oc"
  by (auto simp: receipt_ok_def split: option.splits)

lemma receipt_ok_cong:
  "schedules t = schedules s \<Longrightarrow> receipt_ok t oc = receipt_ok s oc"
  by (simp add: receipt_ok_def)

lemma ids_ok_set_status: "ids_ok s \<Longrightarrow> ids_ok (set_status i st s)"
  by (auto simp: ids_ok_def get_set_status split: if_splits)

lemma clock_ok_set_status: "clock_ok s \<Longrightarrow> clock_ok (set_status i st s)"
  by (auto simp: clock_ok_def get_set_status split: if_splits)

lemma slots_unique_set_status: "slots_unique s \<Longrightarrow> slots_unique (set_status i st s)"
  unfolding slots_unique_def get_set_status by (auto split: if_splits)

lemma receipts_ok_set_status:
  assumes "receipts_ok s" "btm_get (occurrences s) i = Some oc"
    and "receipt_ok s (oc\<lparr>occ_status := st\<rparr>)"
  shows "receipts_ok (set_status i st s)"
  using assms by (auto simp: receipts_ok_def receipt_ok_def get_set_status split: if_splits)

lemma live_in_set_status:
  "btm_get (occurrences s) i = Some oc \<Longrightarrow>
   live_in (set_status i st s) j k \<longleftrightarrow>
     (if k = i then occ_schedule oc = j \<and> \<not> terminal st else live_in s j k)"
  by (auto simp: live_in_def get_set_status)

lemma active_in_set_status:
  "btm_get (occurrences s) i = Some oc \<Longrightarrow>
   active_in (set_status i st s) j k \<longleftrightarrow>
     (if k = i then occ_schedule oc = j \<and> active st else active_in s j k)"
  by (auto simp: active_in_def get_set_status)

text \<open>
  A status change keeps the invariant when it stays within the attempt budget, does not revive a
  resolved receipt, and does not activate an inactive one.
\<close>

lemma sched_inv_set_status:
  assumes inv: "sched_inv s" and oc: "btm_get (occurrences s) i = Some oc"
    and rec: "receipt_ok s (oc\<lparr>occ_status := st\<rparr>)"
    and live: "\<not> terminal st \<Longrightarrow> \<not> terminal (occ_status oc)"
    and act: "active st \<Longrightarrow> active (occ_status oc)"
  shows "sched_inv (set_status i st s)"
proof -
  have ids: "ids_ok s" using inv by (simp add: sched_inv_def)
  have "bounds_ok (set_status i st s)"
    using inv live act outstanding_set_status [OF ids oc, of st] active_count_set_status [OF ids oc, of st]
    by (auto simp: sched_inv_def bounds_ok_def split: if_splits)
  moreover have "overlap_ok (set_status i st s)"
  proof -
    have sub: "live_in (set_status i st s) j k \<Longrightarrow> live_in s j k"
      "active_in (set_status i st s) j k \<Longrightarrow> active_in s j k" for j k
      using live act oc by (auto simp: live_in_def active_in_def get_set_status split: if_splits)
    have "policy_of (set_status i st s) = policy_of s" by (simp add: policy_of_def fun_eq_iff)
    with inv sub show ?thesis unfolding sched_inv_def overlap_ok_def by metis
  qed
  ultimately show ?thesis
    using inv oc rec
    by (simp add: sched_inv_def ids_ok_set_status clock_ok_set_status slots_unique_set_status
        receipts_ok_set_status)
qed

text \<open>
  Activation: a pending receipt may start when a running slot is free and, unless its schedule
  runs concurrently, no other receipt of the schedule is active.
\<close>

lemma sched_inv_activate:
  assumes inv: "sched_inv s" and oc: "btm_get (occurrences s) i = Some oc"
    and pend: "occ_status oc = Pending a r"
    and room: "active_count s < lim_running (limits_of s)"
    and excl: "policy_of s (occ_schedule oc) \<noteq> Some Concurrent \<Longrightarrow>
      (\<forall>k. active_in s (occ_schedule oc) k \<longrightarrow> k = i)"
  shows "sched_inv (set_status i (Running a) s)"
proof -
  have ids: "ids_ok s" using inv by (simp add: sched_inv_def)
  have rec: "receipt_ok s (oc\<lparr>occ_status := Running a\<rparr>)"
    using receipt_okD [OF inv oc] pend by (simp add: receipt_ok_same_attempt)
  have "bounds_ok (set_status i (Running a) s)"
    using inv room pend outstanding_set_status [OF ids oc, of "Running a"]
      active_count_set_status [OF ids oc, of "Running a"]
    by (auto simp: sched_inv_def bounds_ok_def)
  moreover have "overlap_ok (set_status i (Running a) s)"
  proof -
    have live: "live_in (set_status i (Running a) s) j k \<longleftrightarrow> live_in s j k" for j k
      using oc pend by (auto simp: live_in_def get_set_status)
    have act: "active_in (set_status i (Running a) s) j k \<longleftrightarrow>
        active_in s j k \<or> (k = i \<and> j = occ_schedule oc)" for j k
      using oc pend by (auto simp: active_in_def get_set_status)
    have pol: "policy_of (set_status i (Running a) s) = policy_of s"
      by (simp add: policy_of_def fun_eq_iff)
    have o1: "\<And>j k k'. policy_of s j = Some OverlapSkip \<Longrightarrow> live_in s j k \<Longrightarrow> live_in s j k' \<Longrightarrow> k = k'"
      and o2: "\<And>j k k'. policy_of s j \<noteq> Some Concurrent \<Longrightarrow> active_in s j k \<Longrightarrow> active_in s j k' \<Longrightarrow> k = k'"
      using inv unfolding sched_inv_def overlap_ok_def by blast+
    show ?thesis
      unfolding overlap_ok_def live act pol using o1 o2 excl by metis
  qed
  ultimately show ?thesis
    using inv oc rec
    by (simp add: sched_inv_def ids_ok_set_status clock_ok_set_status slots_unique_set_status
        receipts_ok_set_status)
qed

section \<open>Recovery\<close>

lemma interrupt_status_simps [simp]:
  "terminal (interrupt_status why st) = terminal st"
  "active (interrupt_status why st) = active st"
  "attempt (interrupt_status why st) = attempt st"
  by (cases st; simp)+

lemma interrupt_frame [simp]:
  "schedules (interrupt_state why s) = schedules s" "limits_of (interrupt_state why s) = limits_of s"
  "next_id (interrupt_state why s) = next_id s" "watermark (interrupt_state why s) = watermark s"
  "version (interrupt_state why s) = version s"
  by (simp_all add: interrupt_state_def)

lemma get_interrupt:
  "btm_get (occurrences (interrupt_state why s)) k =
     map_option (\<lambda>oc. oc\<lparr>occ_status := interrupt_status why (occ_status oc)\<rparr>) (btm_get (occurrences s) k)"
  by (simp add: interrupt_state_def btm_get_map)

lemma sched_inv_interrupt: "sched_inv s \<Longrightarrow> sched_inv (interrupt_state why s)"
proof -
  assume inv: "sched_inv s"
  have cnt: "outstanding (interrupt_state why s) = outstanding s"
    "active_count (interrupt_state why s) = active_count s"
    "length (occurrences (interrupt_state why s)) = length (occurrences s)"
    by (simp_all add: outstanding_count active_count_count interrupt_state_def btm_count_map)
  have views: "live_in (interrupt_state why s) = live_in s" "active_in (interrupt_state why s) = active_in s"
    "policy_of (interrupt_state why s) = policy_of s"
    by (auto simp: live_in_def active_in_def policy_of_def get_interrupt fun_eq_iff)
  have "ids_ok (interrupt_state why s)" "receipts_ok (interrupt_state why s)"
    "clock_ok (interrupt_state why s)" "slots_unique (interrupt_state why s)"
    using inv unfolding sched_inv_def ids_ok_def receipts_ok_def clock_ok_def slots_unique_def get_interrupt
    by (auto simp: receipt_ok_same_attempt receipt_ok_cong [of "interrupt_state why s" s])
      (simp add: interrupt_state_def)
  then show ?thesis
    using inv by (simp add: sched_inv_def bounds_ok_def overlap_ok_def cnt views)
qed

section \<open>Schedules\<close>

lemma sched_inv_create:
  assumes inv: "sched_inv s" and n: "checked_add (next_id s) 1 = Some n"
    and lim: "well_limited d" and room: "length (schedules s) < lim_schedules (limits_of s)"
    and due: "\<And>m. watermark s = Some m \<Longrightarrow> m < due"
    and sc: "sc = \<lparr>sched_id = next_id s, sched_def = d, enabled = True, deleted = False,
                  next_due = Some due, rejected = 0\<rparr>"
  shows "sched_inv (s\<lparr>next_id := n, schedules := btm_insert (next_id s) sc (schedules s)\<rparr>)"
    (is "sched_inv ?t")
proof -
  have lt: "next_id s < n" using checked_add_Some(2) [OF n] .
  have fresh: "btm_get (schedules s) (next_id s) = None"
    using inv by (cases "btm_get (schedules s) (next_id s)") (auto simp: sched_inv_def ids_ok_def)
  then have fresh': "next_id s \<notin> fst ` set (schedules s)" by (simp add: map_of_eq_None_iff)
  have frame: "occurrences ?t = occurrences s" "limits_of ?t = limits_of s" "watermark ?t = watermark s"
    by simp_all
  have keep: "btm_get (schedules s) k = Some x \<Longrightarrow> btm_get (schedules ?t) k = Some x" for k x
    using fresh by (auto simp: btm_get_insert)
  have "ids_ok ?t"
    using inv lt lim sc unfolding sched_inv_def ids_ok_def
    by (auto simp: btm_get_insert btm_ok_insert intro: less_trans split: if_splits)
      (meson less_trans)+
  moreover have "receipts_ok ?t"
    using inv keep unfolding sched_inv_def receipts_ok_def receipt_ok_def frame
    by (fastforce split: option.splits)
  moreover have "bounds_ok ?t"
    using inv room btm_insert_fresh_length [OF fresh', of sc]
    by (simp add: sched_inv_def bounds_ok_def outstanding_def active_count_def)
  moreover have "overlap_ok ?t"
  proof -
    have ex: "live_in s j k \<Longrightarrow> \<exists>x. btm_get (schedules s) j = Some x"
      "active_in s j k \<Longrightarrow> \<exists>x. btm_get (schedules s) j = Some x" for j k
      using inv unfolding sched_inv_def receipts_ok_def receipt_ok_def live_in_def active_in_def
      by (fastforce split: option.splits)+
    have v: "live_in ?t = live_in s" "active_in ?t = active_in s"
      by (auto simp: live_in_def active_in_def fun_eq_iff)
    have pol: "btm_get (schedules s) j = Some x \<Longrightarrow> policy_of ?t j = policy_of s j" for j x
      using keep by (simp add: policy_of_def)
    show ?thesis
      unfolding overlap_ok_def v using inv ex pol unfolding sched_inv_def overlap_ok_def by metis
  qed
  moreover have "clock_ok ?t"
    using inv due sc by (auto simp: sched_inv_def clock_ok_def btm_get_insert split: if_splits)
  moreover have "slots_unique ?t"
    using inv by (simp add: sched_inv_def slots_unique_def)
  ultimately show ?thesis by (simp add: sched_inv_def)
qed

text \<open>
  Changing a schedule's flags, counter or armed slot keeps the invariant as long as the definition
  is untouched and the armed slot stays after the watermark.
\<close>

lemma base_inv_modify_schedule:
  assumes inv: "base_inv s"
    and keep: "\<And>sc. sched_id (f sc) = sched_id sc" "\<And>sc. sched_def (f sc) = sched_def sc"
  shows "base_inv (s\<lparr>schedules := btm_modify i f (schedules s)\<rparr>)" (is "base_inv ?t")
proof -
  have pol: "policy_of ?t = policy_of s" "live_in ?t = live_in s" "active_in ?t = active_in s"
    using keep
    by (auto simp: policy_of_def live_in_def active_in_def btm_get_modify fun_eq_iff option.map_comp comp_def)
  have "ids_ok ?t"
    using inv keep by (auto simp: base_inv_def ids_ok_def btm_get_modify split: if_splits)
  moreover have "receipts_ok ?t"
    using inv keep unfolding base_inv_def receipts_ok_def receipt_ok_def
    by (fastforce simp: btm_get_modify split: option.splits if_splits)
  moreover have "bounds_ok ?t"
    using inv by (simp add: base_inv_def bounds_ok_def outstanding_def active_count_def)
  moreover have "overlap_ok ?t" using inv by (simp add: base_inv_def overlap_ok_def pol)
  moreover have "slots_unique ?t" using inv by (simp add: base_inv_def slots_unique_def)
  ultimately show ?thesis by (simp add: base_inv_def)
qed

lemma sched_inv_modify_schedule:
  assumes inv: "sched_inv s"
    and keep: "\<And>sc. sched_id (f sc) = sched_id sc" "\<And>sc. sched_def (f sc) = sched_def sc"
      "\<And>sc. next_due (f sc) = next_due sc"
  shows "sched_inv (s\<lparr>schedules := btm_modify i f (schedules s)\<rparr>)"
proof -
  have "clock_ok (s\<lparr>schedules := btm_modify i f (schedules s)\<rparr>)"
    using inv keep by (auto simp: sched_inv_def clock_ok_def btm_get_modify split: if_splits)
  with base_inv_modify_schedule [of s f i] inv keep show ?thesis by (simp add: sched_inv_iff)
qed

section \<open>Admission\<close>

lemma base_inv_remove:
  assumes inv: "base_inv s"
  shows "base_inv (s\<lparr>occurrences := btm_remove k (occurrences s)\<rparr>)" (is "base_inv ?t")
proof -
  have sub: "btm_get (occurrences ?t) j = Some oc \<Longrightarrow> btm_get (occurrences s) j = Some oc" for j oc
    by (simp add: btm_get_remove split: if_splits)
  have views: "live_in ?t j l \<Longrightarrow> live_in s j l" "active_in ?t j l \<Longrightarrow> active_in s j l" for j l
    using sub by (auto simp: live_in_def active_in_def)
  have pol: "policy_of ?t = policy_of s" by (simp add: policy_of_def fun_eq_iff)
  have "ids_ok ?t" using inv sub by (auto simp: base_inv_def ids_ok_def btm_ok_remove)
  moreover have "receipts_ok ?t"
    using inv sub by (auto simp: base_inv_def receipts_ok_def receipt_ok_def)
  moreover have "bounds_ok ?t"
    using inv btm_count_remove [of "\<lambda>oc. \<not> terminal (occ_status oc)" k "occurrences s"]
      btm_count_remove [of "\<lambda>oc. active (occ_status oc)" k "occurrences s"]
      le_trans [OF btm_length_remove_le, of "occurrences s" _ k]
    by (simp add: base_inv_def bounds_ok_def outstanding_count active_count_count)
  moreover have "overlap_ok ?t"
    using inv views unfolding base_inv_def overlap_ok_def pol by metis
  moreover have "slots_unique ?t"
    using inv sub unfolding base_inv_def slots_unique_def by blast
  ultimately show ?thesis by (simp add: base_inv_def)
qed

lemma evict_cases:
  assumes "evict s = Some t" and ids: "ids_ok s"
  obtains "t = s" "length (occurrences s) < lim_records (limits_of s)"
  | k oc where "length (occurrences s) \<ge> lim_records (limits_of s)"
      "btm_get (occurrences s) k = Some oc" "terminal (occ_status oc)"
      "\<And>k' oc'. btm_get (occurrences s) k' = Some oc' \<Longrightarrow> terminal (occ_status oc') \<Longrightarrow> k \<le> k'"
      "t = s\<lparr>occurrences := btm_remove k (occurrences s)\<rparr>"
proof (cases "length (occurrences s) \<ge> lim_records (limits_of s)")
  case False
  with assms that(1) show thesis by (simp add: evict_def)
next
  case True
  with assms(1) obtain k oc where f: "find (\<lambda>e. terminal (occ_status (snd e))) (occurrences s) = Some (k, oc)"
    and t: "t = s\<lparr>occurrences := btm_remove k (occurrences s)\<rparr>"
    by (auto simp: evict_def split: option.splits)
  have ok: "btm_ok (occurrences s)" using ids by (simp add: ids_ok_def)
  show thesis
    using that(2) [OF True _ _ _ t] btm_find_get [OF ok f] by blast
qed

lemma evict_room:
  assumes "evict s = Some t" and ids: "ids_ok s"
    and len: "length (occurrences s) \<le> lim_records (limits_of s)"
  shows "length (occurrences t) < lim_records (limits_of s)"
  using assms(1,2)
proof (cases rule: evict_cases)
  case (2 k oc)
  from btm_length_remove [OF btm_get_mem [OF 2(2)]] len 2(5) show ?thesis by simp
qed simp

lemma base_inv_insert:
  assumes inv: "base_inv s" and n: "checked_add (next_id s) 1 = Some n"
    and sc: "btm_get (schedules s) i = Some sc"
    and out: "outstanding s < lim_outstanding (limits_of s)"
    and rec: "length (occurrences s) < lim_records (limits_of s)"
    and skip: "policy_of s i = Some OverlapSkip \<Longrightarrow> (\<forall>k. \<not> live_in s i k)"
    and new: "\<And>k oc. btm_get (occurrences s) k = Some oc \<Longrightarrow> occ_schedule oc = i \<Longrightarrow> due_at oc \<noteq> due"
    and oc: "oc = \<lparr>occ_id = next_id s, occ_schedule = i, due_at = due, occ_status = Pending 1 now\<rparr>"
  shows "base_inv (s\<lparr>next_id := n, occurrences := btm_insert (next_id s) oc (occurrences s)\<rparr>)"
    (is "base_inv ?t")
proof -
  have lt: "next_id s < n" using checked_add_Some(2) [OF n] .
  have fresh: "btm_get (occurrences s) (next_id s) = None"
    using inv by (cases "btm_get (occurrences s) (next_id s)") (auto simp: base_inv_def ids_ok_def)
  then have fresh': "next_id s \<notin> fst ` set (occurrences s)" by (simp add: map_of_eq_None_iff)
  have "ids_ok ?t"
    using inv lt oc unfolding base_inv_def ids_ok_def
    by (auto simp: btm_get_insert btm_ok_insert split: if_splits) (meson less_trans)+
  moreover have "receipt_ok s oc" using sc oc by (simp add: receipt_ok_def)
  then have "receipts_ok ?t"
    using inv by (auto simp: base_inv_def receipts_ok_def btm_get_insert receipt_ok_cong [of ?t s])
  moreover have "bounds_ok ?t"
    using inv out rec btm_insert_fresh_length [OF fresh', of oc] oc
      btm_count_insert [OF fresh', of "\<lambda>oc. \<not> terminal (occ_status oc)" oc]
      btm_count_insert [OF fresh', of "\<lambda>oc. active (occ_status oc)" oc]
    by (simp add: base_inv_def bounds_ok_def outstanding_count active_count_count)
  moreover have "overlap_ok ?t"
  proof -
    have pol: "policy_of ?t = policy_of s" by (simp add: policy_of_def fun_eq_iff)
    have act: "active_in ?t = active_in s"
      using fresh oc by (auto simp: active_in_def btm_get_insert fun_eq_iff)
    have live: "live_in ?t j k \<longleftrightarrow> live_in s j k \<or> (j = i \<and> k = next_id s)" for j k
      using fresh oc by (auto simp: live_in_def btm_get_insert)
    show ?thesis
      unfolding overlap_ok_def pol act live using inv skip unfolding base_inv_def overlap_ok_def by metis
  qed
  moreover have "slots_unique ?t"
    using inv new oc fresh unfolding base_inv_def slots_unique_def
    by (auto simp: btm_get_insert split: if_splits)
  ultimately show ?thesis by (simp add: base_inv_def)
qed

text \<open>What admission may do to the state besides adding a receipt: count rejections.\<close>

definition same_schedules :: "sched_state \<Rightarrow> sched_state \<Rightarrow> bool" where
  "same_schedules s t \<longleftrightarrow> limits_of t = limits_of s \<and> watermark t = watermark s \<and> version t = version s
     \<and> map fst (schedules t) = map fst (schedules s)
     \<and> (\<forall>k sc. btm_get (schedules s) k = Some sc \<longrightarrow>
           (\<exists>r. btm_get (schedules t) k = Some (sc\<lparr>rejected := r\<rparr>)))"

lemma rejected_self: "\<exists>r. sc = sc\<lparr>rejected := r\<rparr>"
  by (rule exI [of _ "rejected sc"]) simp

lemma same_schedules_refl [simp]: "same_schedules s s"
  unfolding same_schedules_def using rejected_self by auto

lemma same_schedules_trans:
  "same_schedules s t \<Longrightarrow> same_schedules t u \<Longrightarrow> same_schedules s u"
  unfolding same_schedules_def by (fastforce)

lemma same_schedules_get:
  assumes "same_schedules s t" "btm_get (schedules t) k = Some sc"
  shows "\<exists>sc0. btm_get (schedules s) k = Some sc0 \<and> sched_def sc = sched_def sc0
    \<and> next_due sc = next_due sc0 \<and> sched_id sc = sched_id sc0 \<and> enabled sc = enabled sc0"
proof (cases "btm_get (schedules s) k")
  case None
  then have "k \<notin> set (map fst (schedules s))" by (simp add: map_of_eq_None_iff)
  with assms have "k \<notin> fst ` set (schedules t)" by (metis list.set_map same_schedules_def)
  then show ?thesis using assms(2) by (simp add: map_of_eq_None_iff [symmetric])
next
  case (Some sc0)
  with assms show ?thesis by (fastforce simp: same_schedules_def)
qed

lemma same_schedules_policy: "same_schedules s t \<Longrightarrow> policy_of t k = policy_of s k"
proof (cases "btm_get (schedules t) k")
  case None
  assume ss: "same_schedules s t"
  then have "btm_get (schedules s) k = None"
    using None by (metis map_of_eq_None_iff list.set_map same_schedules_def)
  with None show ?thesis by (simp add: policy_of_def)
next
  case (Some sc)
  assume "same_schedules s t"
  from same_schedules_get [OF this Some] Some show ?thesis by (auto simp: policy_of_def)
qed

text \<open>The due instants recorded for a schedule.\<close>

definition dues :: "sched_state \<Rightarrow> u64 \<Rightarrow> time set" where
  "dues s i = {due_at oc | k oc. btm_get (occurrences s) k = Some oc \<and> occ_schedule oc = i}"

lemma duesI: "btm_get (occurrences s) k = Some oc \<Longrightarrow> due_at oc \<in> dues s (occ_schedule oc)"
  by (auto simp: dues_def)

lemma bump_rejected_inv:
  "base_inv s \<Longrightarrow> base_inv (bump_rejected i s)"
  "same_schedules s (bump_rejected i s)"
  "dues (bump_rejected i s) = dues s"
proof -
  show "base_inv s \<Longrightarrow> base_inv (bump_rejected i s)"
    unfolding bump_rejected_def by (rule base_inv_modify_schedule) simp_all
  show "same_schedules s (bump_rejected i s)"
    using rejected_self by (auto simp: bump_rejected_def same_schedules_def btm_get_modify)
  show "dues (bump_rejected i s) = dues s"
    by (simp add: bump_rejected_def dues_def fun_eq_iff)
qed

lemma admit_slot_inv:
  assumes inv: "base_inv s" and adm: "admit_slot now i ov due s = Inr t"
    and pol: "policy_of s i = Some ov" and new: "due \<notin> dues s i"
  shows "base_inv t" and "same_schedules s t"
    and "dues t j \<subseteq> dues s j \<union> (if j = i then {due} else {})"
proof -
  have ids: "ids_ok s" and len: "length (occurrences s) \<le> lim_records (limits_of s)"
    using inv by (simp_all add: base_inv_def bounds_ok_def)
  consider (rejected) "t = bump_rejected i s"
    | (admitted) s' n where "\<not> (ov = OverlapSkip \<and> occupied s i)" "outstanding s < lim_outstanding (limits_of s)"
        "evict s = Some s'" "checked_add (next_id s') 1 = Some n"
        "t = s'\<lparr>next_id := n, occurrences := btm_insert (next_id s')
           \<lparr>occ_id = next_id s', occ_schedule = i, due_at = due, occ_status = Pending 1 now\<rparr> (occurrences s')\<rparr>"
    using adm by (auto simp: admit_slot_def not_le split: if_splits option.splits)
  then have "base_inv t \<and> same_schedules s t \<and> dues t j \<subseteq> dues s j \<union> (if j = i then {due} else {})"
  proof cases
    case rejected
    then show ?thesis using bump_rejected_inv inv by auto
  next
    case admitted
    have s': "base_inv s' \<and> schedules s' = schedules s \<and> limits_of s' = limits_of s
        \<and> watermark s' = watermark s \<and> version s' = version s \<and> next_id s' = next_id s
        \<and> outstanding s' \<le> outstanding s
        \<and> (\<forall>k oc. btm_get (occurrences s') k = Some oc \<longrightarrow> btm_get (occurrences s) k = Some oc)"
      using admitted(3) ids
    proof (cases rule: evict_cases)
      case 1
      with inv show ?thesis by simp
    next
      case (2 k oc)
      with base_inv_remove [OF inv, of k] show ?thesis
        by (auto simp: btm_get_remove outstanding_count btm_count_remove split: if_splits)
    qed
    have d': "dues s' l \<subseteq> dues s l" for l using s' by (auto simp: dues_def)
    have "base_inv t"
      unfolding admitted(5)
    proof (rule base_inv_insert [where i = i and due = due and now = now])
      show "base_inv s'" "checked_add (next_id s') 1 = Some n" using s' admitted by simp_all
      show "btm_get (schedules s') i = Some (the (btm_get (schedules s) i))"
        using pol s' by (auto simp: policy_of_def)
      show "outstanding s' < lim_outstanding (limits_of s')" using s' admitted(2) by simp
      show "length (occurrences s') < lim_records (limits_of s')"
        using evict_room [OF admitted(3) ids len] s' by simp
      show "\<forall>k. \<not> live_in s' i k" if "policy_of s' i = Some OverlapSkip"
      proof -
        have "ov = OverlapSkip" using that pol s' by (auto simp: policy_of_def)
        with admitted(1) have "\<forall>k. \<not> live_in s i k" by (simp add: occupied_iff [OF ids])
        with s' show ?thesis by (auto simp: live_in_def)
      qed
      show "due_at oc \<noteq> due" if "btm_get (occurrences s') k = Some oc" "occ_schedule oc = i" for k oc
        using new d' [of i] that duesI [OF that(1)] by auto
    qed simp
    moreover have "same_schedules s t"
      using s' admitted(5) rejected_self by (auto simp: same_schedules_def)
    moreover have "dues t j \<subseteq> dues s j \<union> (if j = i then {due} else {})"
      using s' admitted(5) by (fastforce simp: dues_def btm_get_insert split: if_splits)
    ultimately show ?thesis by blast
  qed
  then show "base_inv t" "same_schedules s t"
    "dues t j \<subseteq> dues s j \<union> (if j = i then {due} else {})" by blast+
qed

lemma admit_slots_inv:
  assumes "fold_res (admit_slot now i ov) ds s = Inr t"
    and "base_inv s" "policy_of s i = Some ov" "sorted_wrt (<) ds" "\<And>d. d \<in> set ds \<Longrightarrow> d \<notin> dues s i"
  shows "base_inv t \<and> same_schedules s t \<and> (\<forall>j. dues t j \<subseteq> dues s j \<union> (if j = i then set ds else {}))"
  using assms
proof (induction ds arbitrary: s)
  case Nil
  then show ?case by simp
next
  case (Cons d ds)
  from Cons.prems(1) obtain s1 where s1: "admit_slot now i ov d s = Inr s1"
    and rest: "fold_res (admit_slot now i ov) ds s1 = Inr t"
    by (auto split: sum.splits)
  note a = admit_slot_inv [OF Cons.prems(2) s1 Cons.prems(3)]
  have new: "d \<notin> dues s i" using Cons.prems(5) by simp
  have "base_inv t \<and> same_schedules s1 t \<and> (\<forall>j. dues t j \<subseteq> dues s1 j \<union> (if j = i then set ds else {}))"
  proof (rule Cons.IH [OF rest])
    show "base_inv s1" using a(1) [OF new] .
    show "policy_of s1 i = Some ov" using a(2) [OF new] Cons.prems(3) by (simp add: same_schedules_policy)
    show "sorted_wrt (<) ds" using Cons.prems(4) by simp
    show "d' \<notin> dues s1 i" if "d' \<in> set ds" for d'
      using a(3) [OF new, of i] Cons.prems(4,5) that by auto
  qed
  note step = this
  have "same_schedules s s1" using a(2) [OF new] .
  moreover note step
  ultimately have "same_schedules s t" "base_inv t" by (blast intro: same_schedules_trans)+
  moreover have "dues t j \<subseteq> dues s j \<union> (if j = i then set (d # ds) else {})" for j
  proof -
    have "dues t j \<subseteq> dues s1 j \<union> (if j = i then set ds else {})" using step by blast
    also have "\<dots> \<subseteq> dues s j \<union> (if j = i then set (d # ds) else {})"
      using a(3) [OF new, of j] by auto
    finally show ?thesis .
  qed
  ultimately show ?case by blast
qed

section \<open>Observation\<close>

text \<open>The selected slots: newest first, all between the armed slot and the observation.\<close>

lemma select_slots_sound:
  assumes "calendar_ok cal" and "select_slots cal cron tz skip g now lo n b cursor = Inr ds"
  shows "sorted_wrt (>) ds \<and> (\<forall>d \<in> set ds. lo \<le> d \<and> d \<le> cursor \<and> (\<not> b \<longrightarrow> d < cursor))"
  using assms(2)
proof (induction n arbitrary: b cursor ds)
  case (Suc n)
  show ?case
  proof (cases "find_previous_occurrence cal cron tz cursor b")
    case (Inl e)
    with Suc.prems show ?thesis by (simp add: map_err_def)
  next
    case (Inr due)
    then have le: "due \<le> cursor \<and> (\<not> b \<longrightarrow> due < cursor)"
      using assms(1) by (simp add: calendar_ok_def)
    show ?thesis
    proof (cases "ds = []")
      case False
      with Suc.prems Inr obtain rest where "select_slots cal cron tz skip g now lo n False due = Inr rest"
        and "ds = due # rest" and "lo \<le> due"
        by (auto simp: map_err_def split: if_splits sum.splits)
      with Suc.IH [of False due rest] le show ?thesis by fastforce
    qed simp
  qed
qed simp

text \<open>
  The loop invariant of an observation: \<open>done\<close> are the schedules already visited. Receipts are not
  after the observation, and those of a schedule are before its armed slot.
\<close>

definition observing :: "time \<Rightarrow> u64 set \<Rightarrow> sched_state \<Rightarrow> bool" where
  "observing now visited s \<longleftrightarrow> base_inv s
     \<and> (\<forall>i. \<forall>d \<in> dues s i. d \<le> now)
     \<and> (\<forall>i sc t. btm_get (schedules s) i = Some sc \<longrightarrow> next_due sc = Some t \<longrightarrow>
          (i \<in> visited \<longrightarrow> now < t) \<and> (\<forall>d \<in> dues s i. d < t))"

lemma observing_start:
  assumes "sched_inv s" "\<And>m. watermark s = Some m \<Longrightarrow> m < now"
  shows "observing now {} s"
  using assms unfolding observing_def sched_inv_iff clock_ok_def dues_def
  by (auto intro: order.strict_implies_order order.trans) (fastforce intro: order.strict_trans1)+

lemma observing_end:
  assumes "observing now (set (btm_keys (schedules s))) s"
  shows "sched_inv (s\<lparr>watermark := Some now\<rparr>)"
proof -
  have eq: "base_inv (s\<lparr>watermark := Some now\<rparr>) = base_inv s"
    by (simp add: base_inv_def inv_defs outstanding_def active_count_def)
  have "clock_ok (s\<lparr>watermark := Some now\<rparr>)"
    using assms duesI [of s] btm_get_mem [of "schedules s"] unfolding observing_def clock_ok_def
    by (simp, blast)
  with assms eq show ?thesis by (simp add: observing_def sched_inv_iff)
qed

lemma observing_rearm:
  assumes obs: "observing now v s" and nxt: "now < nxt" and lt: "\<And>d. d \<in> dues s i \<Longrightarrow> d < nxt"
  defines "s1 \<equiv> s\<lparr>schedules := btm_modify i (\<lambda>x. x\<lparr>next_due := Some nxt\<rparr>) (schedules s)\<rparr>"
  shows "observing now (insert i v) s1"
proof -
  have "dues s1 = dues s" by (simp add: s1_def dues_def fun_eq_iff)
  moreover have "base_inv s1"
    unfolding s1_def by (rule base_inv_modify_schedule) (use obs in \<open>simp_all add: observing_def\<close>)
  ultimately show ?thesis
    using obs nxt lt by (auto simp: observing_def s1_def btm_get_modify split: if_splits)
qed

lemma observing_admit:
  assumes obs: "observing now v s" and i: "i \<in> v"
    and fold: "fold_res (admit_slot now i ov) ds s = Inr t" and pol: "policy_of s i = Some ov"
    and ds: "sorted_wrt (<) ds" "\<And>d. d \<in> set ds \<Longrightarrow> d \<le> now \<and> d \<notin> dues s i"
  shows "observing now v t" and "same_schedules s t"
proof -
  have a: "base_inv t \<and> same_schedules s t \<and> (\<forall>j. dues t j \<subseteq> dues s j \<union> (if j = i then set ds else {}))"
    using admit_slots_inv [OF fold _ pol ds(1)] obs ds(2) by (auto simp: observing_def)
  then show "same_schedules s t" by blast
  have le: "d \<le> now" if "d \<in> dues t j" for d j
    using a obs ds(2) that by (fastforce simp: observing_def split: if_splits)
  have lt: "d < u" if d: "d \<in> dues t j" and sc: "btm_get (schedules t) j = Some sc"
    and u: "next_due sc = Some u" for d j sc u
  proof -
    obtain sc0 where sc0: "btm_get (schedules s) j = Some sc0" "next_due sc0 = Some u"
      using same_schedules_get [of s t j sc] a sc u by metis
    show ?thesis
    proof (cases "j = i")
      case True
      with obs sc0 i have "now < u" by (auto simp: observing_def)
      with le [OF d] show ?thesis by simp
    next
      case False
      with conjunct2 [OF conjunct2 [OF a], rule_format, of j] d have "d \<in> dues s j" by auto
      with obs sc0 show ?thesis by (auto simp: observing_def)
    qed
  qed
  have "now < u" if "j \<in> v" "btm_get (schedules t) j = Some sc" "next_due sc = Some u" for j sc u
    using same_schedules_get [of s t j sc] a obs that by (auto simp: observing_def)
  with a le lt show "observing now v t" by (auto simp: observing_def)
qed

lemma observe_schedule_cases:
  assumes step: "observe_schedule cal now i s = Inr t"
  obtains (idle) sc where "btm_get (schedules s) i = Some sc" "t = s"
      "\<And>u. next_due sc = Some u \<Longrightarrow> now < u"
  | (stopped) sc lo cron tz nxt where "btm_get (schedules s) i = Some sc" "next_due sc = Some lo"
      "lo \<le> now" "parsed cal (sched_def sc) = Inr (cron, tz)"
      "next_slot cal cron tz now = Inr nxt" "\<not> enabled sc"
      "t = s\<lparr>schedules := btm_modify i (\<lambda>x. x\<lparr>next_due := Some nxt\<rparr>) (schedules s)\<rparr>"
  | (live) sc lo cron tz nxt ds where "btm_get (schedules s) i = Some sc" "next_due sc = Some lo"
      "lo \<le> now" "parsed cal (sched_def sc) = Inr (cron, tz)"
      "next_slot cal cron tz now = Inr nxt" "enabled sc"
      "select_slots cal cron tz (missed (def_policy (sched_def sc)) = MissedSkip)
         (grace_seconds (limits_of s)) now lo
         (case missed (def_policy (sched_def sc)) of CatchUp n \<Rightarrow> n | _ \<Rightarrow> 1) True now = Inr ds"
      "fold_res (admit_slot now i (overlap_policy (def_policy (sched_def sc)))) (rev ds)
         (s\<lparr>schedules := btm_modify i (\<lambda>x. x\<lparr>next_due := Some nxt\<rparr>) (schedules s)\<rparr>) = Inr t"
proof -
  obtain sc where sc: "btm_get (schedules s) i = Some sc"
    using step by (auto simp: observe_schedule_def split: option.splits)
  show thesis
  proof (cases "\<exists>lo. next_due sc = Some lo \<and> lo \<le> now")
    case False
    then have "t = s" "\<And>u. next_due sc = Some u \<Longrightarrow> now < u"
      using step sc by (auto simp: observe_schedule_def split: option.splits if_splits)
    with sc idle show thesis by blast
  next
    case True
    then obtain lo where lo: "next_due sc = Some lo" "lo \<le> now" by blast
    from step sc lo obtain cron tz nxt where p: "parsed cal (sched_def sc) = Inr (cron, tz)"
      "next_slot cal cron tz now = Inr nxt"
      by (auto simp: observe_schedule_def split: sum.splits)
    show thesis
    proof (cases "enabled sc")
      case False
      have "t = s\<lparr>schedules := btm_modify i (\<lambda>x. x\<lparr>next_due := Some nxt\<rparr>) (schedules s)\<rparr>"
        using step sc lo p False by (simp add: observe_schedule_def Let_def)
      then show thesis by (rule stopped [OF sc lo p False])
    next
      case True
      from step sc lo p True obtain ds where "select_slots cal cron tz (missed (def_policy (sched_def sc)) = MissedSkip)
         (grace_seconds (limits_of s)) now lo
         (case missed (def_policy (sched_def sc)) of CatchUp n \<Rightarrow> n | _ \<Rightarrow> 1) True now = Inr ds"
        "fold_res (admit_slot now i (overlap_policy (def_policy (sched_def sc)))) (rev ds)
         (s\<lparr>schedules := btm_modify i (\<lambda>x. x\<lparr>next_due := Some nxt\<rparr>) (schedules s)\<rparr>) = Inr t"
        by (simp add: observe_schedule_def Let_def split: sum.splits)
      then show thesis by (rule live [OF sc lo p True])
    qed
  qed
qed

lemma observe_schedule_inv:
  assumes cal: "calendar_ok cal" and obs: "observing now v s"
    and step: "observe_schedule cal now i s = Inr t"
  shows "observing now (insert i v) t \<and> btm_keys (schedules t) = btm_keys (schedules s)
    \<and> limits_of t = limits_of s \<and> version t = version s"
proof -
  have rearmed: "observing now (insert i v) s1" "dues s1 = dues s" "\<And>d. d \<in> dues s i \<Longrightarrow> d < lo"
    "btm_keys (schedules s1) = btm_keys (schedules s) \<and> limits_of s1 = limits_of s \<and> version s1 = version s"
    if "btm_get (schedules s) i = Some sc" "next_due sc = Some lo" "lo \<le> now"
      "next_slot cal cron tz now = Inr nxt"
      "s1 = s\<lparr>schedules := btm_modify i (\<lambda>x. x\<lparr>next_due := Some nxt\<rparr>) (schedules s)\<rparr>"
    for sc lo cron tz nxt s1
  proof -
    show old: "d < lo" if "d \<in> dues s i" for d
      using obs \<open>btm_get (schedules s) i = Some sc\<close> \<open>next_due sc = Some lo\<close> that
      by (auto simp: observing_def)
    have nxt: "now < nxt" using next_slot_after [OF cal that(4)] .
    show "observing now (insert i v) s1"
      unfolding that(5) by (rule observing_rearm [OF obs nxt]) (use old nxt that(3) in force)
    show "dues s1 = dues s" by (simp add: that(5) dues_def fun_eq_iff)
    show "btm_keys (schedules s1) = btm_keys (schedules s) \<and> limits_of s1 = limits_of s \<and> version s1 = version s"
      by (simp add: that(5))
  qed
  from step show ?thesis
  proof (cases rule: observe_schedule_cases)
    case (idle sc)
    with obs show ?thesis by (auto simp: observing_def)
  next
    case (stopped sc lo cron tz nxt)
    from rearmed [OF stopped(1-3,5,7)] show ?thesis by blast
  next
    case (live sc lo cron tz nxt ds)
    let ?s1 = "s\<lparr>schedules := btm_modify i (\<lambda>x. x\<lparr>next_due := Some nxt\<rparr>) (schedules s)\<rparr>"
    note s1 = rearmed [OF live(1-3,5) refl]
    note ds = select_slots_sound [OF cal live(7)]
    have pol: "policy_of ?s1 i = Some (overlap_policy (def_policy (sched_def sc)))"
      using live(1) by (simp add: policy_of_def btm_get_modify)
    have srt: "sorted_wrt (<) (rev ds)" using ds by (simp add: sorted_wrt_rev)
    have new: "d \<le> now \<and> d \<notin> dues ?s1 i" if "d \<in> set (rev ds)" for d
      using ds s1(2,3) that by fastforce
    have "observing now (insert i v) t" "same_schedules ?s1 t"
      using observing_admit [OF s1(1) insertI1 live(8) pol srt new] by blast+
    with s1(4) show ?thesis by (auto simp: same_schedules_def)
  qed
qed

lemma observe_all_inv:
  assumes cal: "calendar_ok cal"
    and "observing now v s" "fold_res (observe_schedule cal now) is s = Inr t"
  shows "observing now (v \<union> set is) t \<and> btm_keys (schedules t) = btm_keys (schedules s)
    \<and> limits_of t = limits_of s \<and> version t = version s"
  using assms(2,3)
proof (induction "is" arbitrary: s v)
  case (Cons i ids)
  from Cons.prems(2) obtain s1 where s1: "observe_schedule cal now i s = Inr s1"
    and rest: "fold_res (observe_schedule cal now) ids s1 = Inr t"
    by (auto split: sum.splits)
  note a = observe_schedule_inv [OF cal Cons.prems(1) s1]
  from Cons.IH [OF conjunct1 [OF a] rest] a show ?case by simp
qed simp

end
