(* ===== verification/Sched_Steps.thy ===== *)
theory Sched_Steps
  imports Sched_Inv
begin

text \<open>
  The abstract transition relation of the scheduler state, \<open>sched_step\<close>, and the refinement: every
  operation of the core either leaves the committed state alone or makes one abstract step,
  whatever the store answered. Invariants and the no-replay argument are proved on the abstract
  steps once.
\<close>

section \<open>Abstract steps\<close>

fun is_pending :: "status \<Rightarrow> bool" where
  "is_pending (Pending _ _) = True"
| "is_pending _ = False"

inductive sched_step ::
  "('cron, 'tz) calendar \<Rightarrow> sched_state \<Rightarrow> invocation option \<Rightarrow> sched_state \<Rightarrow> bool"
  for cal where
  step_create:
    "checked_add (next_id s) 1 = Some n \<Longrightarrow> well_limited d \<Longrightarrow>
     length (schedules s) < lim_schedules (limits_of s) \<Longrightarrow>
     (\<And>m. watermark s = Some m \<Longrightarrow> m < due) \<Longrightarrow>
     sched_step cal s None (s\<lparr>next_id := n, schedules := btm_insert (next_id s)
        \<lparr>sched_id = next_id s, sched_def = d, enabled = True, deleted = False,
         next_due = Some due, rejected = 0\<rparr> (schedules s)\<rparr>)"
| step_stop:
    "sched_step cal s None (s\<lparr>schedules :=
       btm_modify i (\<lambda>sc. sc\<lparr>enabled := False, deleted := deleted sc \<or> del\<rparr>) (schedules s)\<rparr>)"
| step_settle:
    "btm_get (occurrences s) i = Some oc \<Longrightarrow> \<not> terminal (occ_status oc) \<Longrightarrow>
     attempt st = attempt (occ_status oc) \<Longrightarrow> \<not> is_pending st \<Longrightarrow>
     (active st \<Longrightarrow> active (occ_status oc)) \<Longrightarrow>
     sched_step cal s None (set_status i st s)"
| step_retry:
    "btm_get (occurrences s) i = Some oc \<Longrightarrow> occ_status oc = Running a \<Longrightarrow>
     btm_get (schedules s) (occ_schedule oc) = Some sc \<Longrightarrow>
     a \<le> max_retries (retry_policy (def_policy (sched_def sc))) \<Longrightarrow>
     sched_step cal s None (set_status i (Pending (a + 1) t) s)"
| step_claim:
    "btm_get (occurrences s) i = Some oc \<Longrightarrow> occ_status oc = Pending a r \<Longrightarrow> r \<le> now \<Longrightarrow>
     active_count s < lim_running (limits_of s) \<Longrightarrow>
     btm_get (schedules s) (occ_schedule oc) = Some sc \<Longrightarrow>
     (overlap_policy (def_policy (sched_def sc)) \<noteq> Concurrent \<Longrightarrow> \<not> blocked s oc) \<Longrightarrow>
     sched_step cal s
       (Some \<lparr>inv_occurrence = i, inv_schedule = occ_schedule oc, inv_due = due_at oc,
          inv_attempt = a, inv_code = def_code (sched_def sc)\<rparr>)
       (set_status i (Running a) s)"
| step_interrupt: "sched_step cal s None (interrupt_state why s)"
| step_observe:
    "(\<And>m. watermark s = Some m \<Longrightarrow> m < now) \<Longrightarrow>
     fold_res (observe_schedule cal now) (btm_keys (schedules s)) s = Inr t \<Longrightarrow>
     sched_step cal s None (t\<lparr>watermark := Some now\<rparr>)"

inductive_cases sched_step_SomeE: "sched_step cal s (Some iv) t"

section \<open>The invariant is kept\<close>

lemma retry_budget:
  assumes inv: "sched_inv s" and oc: "btm_get (occurrences s) i = Some oc"
    and sc: "btm_get (schedules s) (occ_schedule oc) = Some sc"
  shows "unat (attempt (occ_status oc)) \<le> unat (max_retries (retry_policy (def_policy (sched_def sc)))) + 1"
    and "unat (max_retries (retry_policy (def_policy (sched_def sc)))) \<le> 100"
proof -
  show "unat (attempt (occ_status oc)) \<le> unat (max_retries (retry_policy (def_policy (sched_def sc)))) + 1"
    using receipt_okD [OF inv oc] sc by (simp add: receipt_ok_def)
  have "max_retries (retry_policy (def_policy (sched_def sc))) \<le> 100"
    using inv sc by (auto simp: sched_inv_def ids_ok_def well_limited_def)
  then show "unat (max_retries (retry_policy (def_policy (sched_def sc)))) \<le> 100"
    by (simp add: word_le_nat_alt)
qed

lemma retry_attempt:
  fixes a m :: u32
  assumes "a \<le> m" "unat m \<le> 100"
  shows "unat (a + 1) = unat a + 1" and "unat a \<le> 100"
proof -
  from assms show le: "unat a \<le> 100" by (simp add: word_le_nat_alt)
  then show "unat (a + 1) = unat a + 1" by (intro unat_succ_u32) simp
qed

lemma blocked_iff:
  "ids_ok s \<Longrightarrow> blocked s oc \<longleftrightarrow>
     (\<exists>k x. btm_get (occurrences s) k = Some x \<and> occ_schedule x = occ_schedule oc \<and> k \<noteq> occ_id oc
        \<and> \<not> terminal (occ_status x) \<and> (active (occ_status x) \<or> k < occ_id oc))"
  unfolding blocked_def by (subst btm_list_ex) (auto simp: ids_ok_def, blast+)

lemma blocked_active:
  assumes ids: "ids_ok s" and oc: "btm_get (occurrences s) i = Some oc"
    and act: "active_in s (occ_schedule oc) k" and ne: "k \<noteq> i"
  shows "blocked s oc"
proof -
  have "occ_id oc = i" using ids oc by (auto simp: ids_ok_def)
  with act ne show ?thesis
    unfolding blocked_iff [OF ids] active_in_def by (auto dest: active_not_terminal)
qed

lemma sched_step_inv:
  assumes cal: "calendar_ok cal" and step: "sched_step cal s l t" and inv: "sched_inv s"
  shows "sched_inv t"
  using step inv
proof (induction rule: sched_step.induct)
  case (step_create s n d due)
  show ?case by (rule sched_inv_create [OF step_create(5,1,2,3,4) refl])
next
  case (step_stop s i del)
  then show ?case by (rule sched_inv_modify_schedule) simp_all
next
  case (step_settle s i oc st)
  show ?case
  proof (rule sched_inv_set_status [OF step_settle(6,1)])
    show "receipt_ok s (oc\<lparr>occ_status := st\<rparr>)"
      using receipt_okD [OF step_settle(6,1)] step_settle(3) by (simp add: receipt_ok_same_attempt)
  qed (use step_settle in auto)
next
  case (step_retry s i oc a sc u)
  have b: "unat (max_retries (retry_policy (def_policy (sched_def sc)))) \<le> 100"
    using retry_budget(2) [OF step_retry(5,1,3)] .
  have "receipt_ok s (oc\<lparr>occ_status := Pending (a + 1) u\<rparr>)"
    using step_retry(3,4) retry_attempt [OF step_retry(4) b]
    by (simp add: receipt_ok_def word_le_nat_alt)
  then show ?case
    by (rule sched_inv_set_status [OF step_retry(5,1)]) (use step_retry(2) in auto)
next
  case (step_claim s i oc a r now sc)
  have ids: "ids_ok s" using step_claim(7) by (simp add: sched_inv_def)
  show ?case
    by (rule sched_inv_activate [OF step_claim(7,1,2,4)])
      (use step_claim(5,6) blocked_active [OF ids step_claim(1)] in \<open>auto simp: policy_of_def\<close>)
next
  case (step_interrupt s why)
  then show ?case by (rule sched_inv_interrupt)
next
  case (step_observe s now t)
  have "observing now {} s" by (rule observing_start [OF step_observe(3,1)])
  from observe_all_inv [OF cal this step_observe(2)]
  have "observing now (set (btm_keys (schedules t))) t" by simp
  then show ?case by (rule observing_end)
qed

section \<open>No attempt is consumed twice\<close>

text \<open>
  An attempt is consumed when its receipt has moved on: it is past the attempt, or at it and no
  longer pending, or evicted. Consumption is permanent, since identities are never reused.
\<close>

definition consumed :: "sched_state \<Rightarrow> u64 \<times> u32 \<Rightarrow> bool" where
  "consumed s p \<longleftrightarrow> fst p < next_id s
     \<and> (\<forall>oc. btm_get (occurrences s) (fst p) = Some oc \<longrightarrow>
           snd p < attempt (occ_status oc)
         \<or> (attempt (occ_status oc) = snd p \<and> \<not> is_pending (occ_status oc)))"

definition older_kept :: "sched_state \<Rightarrow> sched_state \<Rightarrow> bool" where
  "older_kept s t \<longleftrightarrow> next_id s \<le> next_id t
     \<and> (\<forall>k oc. k < next_id s \<longrightarrow> btm_get (occurrences t) k = Some oc \<longrightarrow> btm_get (occurrences s) k = Some oc)"

lemma older_kept_refl [simp]: "older_kept s s"
  by (simp add: older_kept_def)

lemma older_kept_trans: "older_kept s t \<Longrightarrow> older_kept t u \<Longrightarrow> older_kept s u"
  by (auto simp: older_kept_def)

lemma older_kept_fields:
  "next_id t = next_id s \<Longrightarrow> occurrences t = occurrences s \<Longrightarrow> older_kept s t"
  by (simp add: older_kept_def)

lemma older_kept_evict: "evict s = Some t \<Longrightarrow> older_kept s t \<and> next_id t = next_id s"
  by (auto simp: evict_def older_kept_def btm_get_remove split: if_splits option.splits)

lemma older_kept_admit:
  assumes "admit_slot now i ov due s = Inr t"
  shows "older_kept s t"
proof -
  consider (bump) "t = bump_rejected i s"
    | (add) s' n oc where "evict s = Some s'" "checked_add (next_id s') 1 = Some n"
        "t = s'\<lparr>next_id := n, occurrences := btm_insert (next_id s') oc (occurrences s')\<rparr>"
    using assms by (auto simp: admit_slot_def split: if_splits option.splits)
  then show ?thesis
  proof cases
    case bump
    then show ?thesis by (simp add: older_kept_fields bump_rejected_def)
  next
    case add
    have "older_kept s' t"
      using checked_add_Some(2) [OF add(2)] add(3) by (auto simp: older_kept_def btm_get_insert)
    with older_kept_evict [OF add(1)] show ?thesis by (blast intro: older_kept_trans)
  qed
qed

lemma older_kept_fold:
  "fold_res f xs s = Inr t \<Longrightarrow> (\<And>x s t. f x s = Inr t \<Longrightarrow> older_kept s t) \<Longrightarrow> older_kept s t"
  by (rule fold_res_invariant [where I = "older_kept s"]) (auto intro: older_kept_trans)

lemma older_kept_observe:
  assumes "observe_schedule cal now i s = Inr t"
  shows "older_kept s t"
  using assms
proof (cases rule: observe_schedule_cases)
  case (live sc lo cron tz nxt ds)
  have "older_kept (s\<lparr>schedules := btm_modify i (\<lambda>x. x\<lparr>next_due := Some nxt\<rparr>) (schedules s)\<rparr>) t"
    using live(8) by (rule older_kept_fold) (rule older_kept_admit)
  moreover have "older_kept s (s\<lparr>schedules := btm_modify i (\<lambda>x. x\<lparr>next_due := Some nxt\<rparr>) (schedules s)\<rparr>)"
    by (simp add: older_kept_fields)
  ultimately show ?thesis by (blast intro: older_kept_trans)
qed (simp_all add: older_kept_fields)

lemma consumed_older: "older_kept s t \<Longrightarrow> consumed s p \<Longrightarrow> consumed t p"
  by (auto simp: older_kept_def consumed_def)

lemma consumed_set_status:
  assumes "consumed s p" and "btm_get (occurrences s) i = Some oc"
    and "attempt (occ_status oc) \<le> attempt st"
    and "\<not> is_pending (occ_status oc) \<Longrightarrow> is_pending st \<Longrightarrow> attempt (occ_status oc) < attempt st"
  shows "consumed (set_status i st s) p"
  using assms by (auto simp: consumed_def get_set_status)

lemma sched_step_consumed:
  assumes "sched_step cal s l t" and "sched_inv s" and "consumed s p"
  shows "consumed t p"
  using assms
proof (induction rule: sched_step.induct)
  case (step_create s n d due)
  then show ?case using checked_add_Some(2) [OF step_create(1)] by (auto simp: consumed_def)
next
  case (step_settle s i oc st)
  show ?case
    by (rule consumed_set_status [OF step_settle(7,1)]) (use step_settle in auto)
next
  case (step_retry s i oc a sc u)
  have "unat (a + 1) = unat a + 1"
    using retry_attempt(1) [OF step_retry(4)] retry_budget(2) [OF step_retry(5,1,3)] .
  then have "a < a + 1" by (simp add: word_less_nat_alt)
  then show ?case
    by (intro consumed_set_status [OF step_retry(6,1)]) (use step_retry(2) in auto)
next
  case (step_claim s i oc a r now sc)
  show ?case
    by (rule consumed_set_status [OF step_claim(8,1)]) (use step_claim(2) in auto)
next
  case (step_interrupt s why)
  then show ?case
    by (auto simp: consumed_def get_interrupt elim!: interrupt_status.elims is_pending.elims)
next
  case (step_observe s now t)
  have "older_kept s t" using step_observe(2) by (rule older_kept_fold) (rule older_kept_observe)
  with step_observe(4) have "consumed t p" by (rule consumed_older [rotated])
  then show ?case by (simp add: consumed_def)
qed (simp add: consumed_def)

lemma sched_step_claims:
  assumes "sched_step cal s (Some iv) t" and "sched_inv s"
  shows "\<not> consumed s (inv_occurrence iv, inv_attempt iv)"
    and "consumed t (inv_occurrence iv, inv_attempt iv)"
  using assms
  by (auto elim!: sched_step_SomeE simp: consumed_def get_set_status sched_inv_def ids_ok_def)

section \<open>The operations refine the abstract steps\<close>

datatype sched_op =
    Create sched_definition time
  | Disable u64
  | Delete u64
  | Cancel u64
  | Observe time
  | Claim time
  | Finish invocation outcome time
  | Acknowledge u64
  | Reject u64 u32
  | Interrupt

text \<open>One call of the core: the invocation it hands out, if any, and the core after it.\<close>

fun apply_op ::
  "('cron, 'tz) calendar \<Rightarrow> codec \<Rightarrow> sched_op \<Rightarrow> store_answer \<Rightarrow> core \<Rightarrow> invocation option \<times> core" where
  "apply_op cal cd (Create d now) w c = (None, snd (create cal cd w c d now))"
| "apply_op cal cd (Disable i) w c = (None, snd (disable cd w c i))"
| "apply_op cal cd (Delete i) w c = (None, snd (delete cd w c i))"
| "apply_op cal cd (Cancel i) w c = (None, snd (request_cancel cd w c i))"
| "apply_op cal cd (Observe now) w c = (None, snd (observe cal cd w c now))"
| "apply_op cal cd (Claim now) w c =
     (case claim cd w c now of
        (Inr (Some iv), c') \<Rightarrow> (Some iv, c')
      | (_, c') \<Rightarrow> (None, c'))"
| "apply_op cal cd (Finish iv out now) w c = (None, snd (finish cal cd w c iv out now))"
| "apply_op cal cd (Acknowledge i) w c = (None, snd (acknowledge_stopped cd w c i))"
| "apply_op cal cd (Reject i a) w c = (None, snd (reject_unadmitted cd w c i a))"
| "apply_op cal cd Interrupt w c = (None, snd (interrupt_running cd w c))"

lemma commit_cases:
  assumes "commit cd w c s = (r, c')"
  obtains (stored) p where "r = Inr ()" "c' = c\<lparr>persisted := p, state := s\<rparr>" "\<not> poisoned c"
  | (kept) e b where "r = Inl e" "c' = c\<lparr>poisoned := b\<rparr>" "poisoned c \<Longrightarrow> b"
proof (cases "poisoned c")
  case True
  with assms have "r = Inl (Err ''store is poisoned; reopen before continuing'')" "c' = c"
    by (simp_all add: commit_def)
  then show thesis using kept [of _ "poisoned c"] True by simp
next
  case np: False
  show thesis
  proof (cases "durable c")
    case False
    with assms np have "r = Inr ()" "c' = c\<lparr>state := s\<rparr>" by (simp_all add: commit_def)
    then show thesis using stored [of "persisted c"] np by simp
  next
    case True
    show thesis
    proof (cases "to_json cd s")
      case (Inl e)
      with assms np True have "r = Inl (Err e)" "c' = c" by (simp_all add: commit_def map_err_def)
      then show thesis using kept [of _ "poisoned c"] by simp
    next
      case (Inr b)
      with assms np True have *: "(case w of
          SwapConflict \<Rightarrow> (Inl (Err ''scheduler state changed outside this owner; reopen before continuing''), c\<lparr>poisoned := True\<rparr>)
        | SwapError e \<Rightarrow> (Inl (Err (''sled write failed; no further dispatch permitted: '' @ e)), c\<lparr>poisoned := True\<rparr>)
        | FlushError e \<Rightarrow> (Inl (Err (''sled flush failed; no further dispatch permitted: '' @ e)), c\<lparr>poisoned := True\<rparr>)
        | Flushed \<Rightarrow> (Inr (), c\<lparr>persisted := Some b, state := s\<rparr>)) = (r, c')"
        by (simp add: commit_def map_err_def)
      then show thesis
        by (cases w) (use stored [of "Some b"] kept [of _ True] np in auto)
    qed
  qed
qed

lemma commit_state: "state (snd (commit cd w c s)) \<in> {state c, s}"
  by (cases "commit cd w c s" rule: prod.exhaust) (auto elim: commit_cases)

text \<open>A step of the abstract relation, or none.\<close>

definition steps_to :: "('cron, 'tz) calendar \<Rightarrow> sched_state \<Rightarrow> invocation option \<Rightarrow> sched_state \<Rightarrow> bool" where
  "steps_to cal s l t \<longleftrightarrow> (t = s \<and> l = None) \<or> sched_step cal s l t"

lemma steps_to_commit:
  "sched_step cal (state c) None s \<Longrightarrow> steps_to cal (state c) None (state (snd (commit cd w c s)))"
  using commit_state [of cd w c s] by (auto simp: steps_to_def)

lemma steps_to_refl [simp]: "steps_to cal s None s"
  by (simp add: steps_to_def)

lemma snd_after_commit [simp]:
  "snd (case p of (Inl e, c) \<Rightarrow> (Inl e, c) | (Inr u, c) \<Rightarrow> (Inr (f u), c)) = snd p"
  by (auto split: prod.splits sum.splits)

lemma refine_create:
  assumes cal: "calendar_ok cal"
  shows "steps_to cal (state c) None (state (snd (create cal cd w c d now)))"
proof -
  have "sched_step cal (state c) None ((state c)\<lparr>next_id := n, schedules := btm_insert (next_id (state c))
         \<lparr>sched_id = next_id (state c), sched_def = d, enabled = True, deleted = False,
          next_due = Some due, rejected = 0\<rparr> (schedules (state c))\<rparr>)"
    if "parsed cal d = Inr (cron, tz)" "next_slot cal cron tz now = Inr due"
       "\<And>m. watermark (state c) = Some m \<Longrightarrow> \<not> now < m"
       "\<not> lim_schedules (limits_of (state c)) \<le> length (schedules (state c))"
       "checked_add (next_id (state c)) 1 = Some n" for n cron tz due
    using that parsed_limited [OF that(1)] next_slot_after [OF cal that(2)]
    by (intro step_create) force+
  then show ?thesis
    unfolding create_def Let_def
    by (auto split: sum.splits if_splits option.splits intro!: steps_to_commit)
qed

lemma steps_to_settle:
  assumes "btm_get (occurrences (state c)) i = Some oc" "\<not> terminal (occ_status oc)"
    "attempt st = attempt (occ_status oc)" "\<not> is_pending st" "active st \<Longrightarrow> active (occ_status oc)"
  shows "steps_to cal (state c) None (state (snd (commit cd w c (set_status i st (state c)))))"
  using assms by (intro steps_to_commit step_settle)

lemma refine_stop: "steps_to cal (state c) None (state (snd (stop_schedule cd w c i del)))"
  unfolding stop_schedule_def by (auto split: option.splits intro: steps_to_commit step_stop)

lemma refine_request_cancel: "steps_to cal (state c) None (state (snd (request_cancel cd w c i)))"
  unfolding request_cancel_def by (auto split: option.splits status.splits intro: steps_to_settle)

lemma refine_acknowledge: "steps_to cal (state c) None (state (snd (acknowledge_stopped cd w c i)))"
  unfolding acknowledge_stopped_def Let_def
  by (auto split: option.splits status.splits intro: steps_to_settle)

lemma refine_reject: "steps_to cal (state c) None (state (snd (reject_unadmitted cd w c i a)))"
  unfolding reject_unadmitted_def Let_def
  by (auto split: option.splits status.splits intro: steps_to_settle)

lemma refine_interrupt: "steps_to cal (state c) None (state (snd (interrupt_running cd w c)))"
  unfolding interrupt_running_def by (intro steps_to_commit step_interrupt)

lemma refine_observe: "steps_to cal (state c) None (state (snd (observe cal cd w c now)))"
  unfolding observe_def
  by (auto split: option.splits sum.splits intro!: steps_to_commit step_observe)

lemma finish_status_cases:
  assumes "finish_status cal r cn a out now = Inr st"
  obtains (again) t where "st = Pending (a + 1) t" "\<not> cn" "a \<le> max_retries r"
  | (settled) "\<not> is_pending st" "attempt st = a"
  using assms by (auto simp: finish_status_def split: outcome.splits if_splits option.splits)

lemma refine_finish: "steps_to cal (state c) None (state (snd (finish cal cd w c iv out now)))"
proof -
  let ?i = "inv_occurrence iv" and ?a = "inv_attempt iv"
  have "steps_to cal (state c) None (state (snd (commit cd w c (set_status ?i st (state c)))))"
    if oc: "btm_get (occurrences (state c)) ?i = Some oc"
      and run: "occ_status oc = Running ?a \<or> occ_status oc = Cancelling ?a"
      and sc: "btm_get (schedules (state c)) (occ_schedule oc) = Some sc"
      and st: "finish_status cal (retry_policy (def_policy (sched_def sc)))
            (occ_status oc = Cancelling ?a) ?a out now = Inr st" for oc sc st
    using st
  proof (cases rule: finish_status_cases)
    case (again t)
    then show ?thesis
      using run unfolding again(1) by (intro steps_to_commit step_retry [OF oc _ sc]) auto
  next
    case settled
    then show ?thesis using run by (intro steps_to_settle [OF oc]) auto
  qed
  then show ?thesis
    unfolding finish_def by (auto split: option.splits sum.splits)
qed

section \<open>Dispatch\<close>

text \<open>An occurrence \<open>claim\<close> may take at \<open>now\<close>.\<close>

definition eligible :: "sched_state \<Rightarrow> time \<Rightarrow> occurrence \<Rightarrow> bool" where
  "eligible s now oc \<longleftrightarrow> is_pending (occ_status oc) \<and> ready_at (occ_status oc) \<le> now
     \<and> (case btm_get (schedules s) (occ_schedule oc) of
          None \<Rightarrow> False
        | Some sc \<Rightarrow> overlap_policy (def_policy (sched_def sc)) = Concurrent \<or> \<not> blocked s oc)"

lemma find_candidate_find:
  assumes "\<forall>oc \<in> set ocs. btm_get (schedules s) (occ_schedule oc) \<noteq> None"
  shows "find_candidate s now ocs
    = Inr (map_option (\<lambda>oc. (occ_id oc, attempt (occ_status oc))) (find (eligible s now) ocs))"
  using assms by (induction ocs) (auto simp: eligible_def split: status.splits option.splits)

lemma find_candidate_Some:
  assumes "find_candidate s now ocs = Inr (Some (i, a))"
  obtains oc where "oc \<in> set ocs" "eligible s now oc" "occ_id oc = i" "attempt (occ_status oc) = a"
proof -
  have "\<exists>oc \<in> set ocs. eligible s now oc \<and> occ_id oc = i \<and> attempt (occ_status oc) = a"
    using assms
    by (induction ocs) (auto simp: eligible_def split: status.splits option.splits if_splits)
  with that show thesis by blast
qed

lemma refine_claim:
  assumes ids: "ids_ok (state c)" and "claim cd w c now = (r, c')"
  shows "steps_to cal (state c) (case r of Inr iv \<Rightarrow> iv | Inl _ \<Rightarrow> None) (state c')"
proof -
  let ?s = "state c"
  have "steps_to cal ?s (case r of Inr iv \<Rightarrow> iv | Inl _ \<Rightarrow> None) (state c')"
    if room: "\<not> lim_running (limits_of ?s) \<le> active_count ?s"
      and cand: "find_candidate ?s now (btm_values (occurrences ?s)) = Inr (Some (i, a))"
      and oc: "btm_get (occurrences ?s) i = Some oc"
      and sc: "btm_get (schedules ?s) (occ_schedule oc) = Some sc"
      and r: "(case commit cd w c (set_status i (Running a) ?s) of
          (Inl e, c') \<Rightarrow> (Inl e, c')
        | (Inr _, c') \<Rightarrow> (Inr (Some \<lparr>inv_occurrence = i, inv_schedule = occ_schedule oc,
              inv_due = due_at oc, inv_attempt = a, inv_code = def_code (sched_def sc)\<rparr>), c')) = (r, c')"
    for i a oc sc
  proof -
    from cand obtain oc' where mem: "oc' \<in> set (btm_values (occurrences ?s))" and el: "eligible ?s now oc'"
      and i: "occ_id oc' = i" and a: "attempt (occ_status oc') = a"
      by (rule find_candidate_Some)
    obtain k where "btm_get (occurrences ?s) k = Some oc'"
      using mem ids by (auto simp only: ids_ok_def btm_values_get)
    with i oc ids have "oc' = oc" by (auto simp: ids_ok_def)
    with el a sc have pend: "occ_status oc = Pending a (ready_at (occ_status oc))"
      and ready: "ready_at (occ_status oc) \<le> now"
      and free: "overlap_policy (def_policy (sched_def sc)) \<noteq> Concurrent \<Longrightarrow> \<not> blocked ?s oc"
      by (auto simp: eligible_def elim: is_pending.elims)
    have step: "sched_step cal ?s (Some \<lparr>inv_occurrence = i, inv_schedule = occ_schedule oc,
        inv_due = due_at oc, inv_attempt = a, inv_code = def_code (sched_def sc)\<rparr>)
        (set_status i (Running a) ?s)"
      using room by (intro step_claim [OF oc pend ready _ sc free]) simp_all
    obtain q c1 where cm: "commit cd w c (set_status i (Running a) ?s) = (q, c1)" by fastforce
    then show ?thesis
    proof (cases rule: commit_cases)
      case (stored p)
      with r cm step show ?thesis by (auto simp: steps_to_def)
    next
      case (kept e b)
      with r cm show ?thesis by auto
    qed
  qed
  with assms(2) show ?thesis
    unfolding claim_def Let_def by (auto split: if_splits sum.splits option.splits)
qed

theorem apply_op_refines:
  assumes cal: "calendar_ok cal" and inv: "sched_inv (state c)"
    and call: "apply_op cal cd op w c = (l, c')"
  shows "steps_to cal (state c) l (state c')"
  using call
proof (cases op)
  case (Claim now)
  obtain r c1 where cl: "claim cd w c now = (r, c1)" by fastforce
  have "ids_ok (state c)" using inv by (simp add: sched_inv_def)
  from refine_claim [OF this cl, of cal] cl call Claim show ?thesis
    by (auto split: sum.splits option.splits)
qed (auto simp: disable_def delete_def cal refine_create refine_stop refine_request_cancel
    refine_acknowledge refine_reject refine_interrupt refine_observe refine_finish)

end
