(* ===== verification/Sched_System.thy ===== *)
theory Sched_System
  imports Sched_Steps
begin

text \<open>
  The core on its store, across crashes. A system is a core (or none, after a crash), the bytes
  that are certainly on disk, the bytes of a commit whose outcome is unknown, and the invocations
  handed to the executor so far. Events are calls with any answer of the store, crashes, and
  reopenings through \<open>from_config\<close> in which an uncertain write has or has not reached the disk.
\<close>

section \<open>The system\<close>

record sys =
  running :: "core option"
  disk :: "string option"
  limbo :: "string option"
  handed :: "invocation list"

datatype event = Call sched_op store_answer | Crash | Reopen bool store_answer

definition initial_sys :: sys where
  "initial_sys = \<lparr>running = None, disk = None, limbo = None, handed = []\<rparr>"

text \<open>The bytes a commit was writing, when its answer leaves open whether they are on disk.\<close>

fun uncertain :: "store_answer \<Rightarrow> bool" where
  "uncertain (SwapError _) = True"
| "uncertain (FlushError _) = True"
| "uncertain _ = False"

definition written :: "core \<Rightarrow> core \<Rightarrow> string option" where
  "written before after =
     (if poisoned before \<or> persisted after = persisted before then None else persisted after)"

fun sys_step ::
  "('cron, 'tz) calendar \<Rightarrow> codec \<Rightarrow> limits \<Rightarrow> event \<Rightarrow> sys \<Rightarrow> sys" where
  "sys_step cal cd l (Call op w) y =
     (case running y of None \<Rightarrow> y
      | Some c \<Rightarrow>
         (case apply_op cal cd op w c of
            (iv, c') \<Rightarrow>
              y\<lparr>running := Some c', disk := persisted c',
                limbo := (if uncertain w \<and> \<not> poisoned c
                          then written c (snd (apply_op cal cd op Flushed c)) else limbo y),
                handed := (case iv of None \<Rightarrow> handed y | Some v \<Rightarrow> handed y @ [v])\<rparr>))"
| "sys_step cal cd l Crash y = y\<lparr>running := None\<rparr>"
| "sys_step cal cd l (Reopen reached w) y =
     (case running y of Some _ \<Rightarrow> y
      | None \<Rightarrow>
         (let d = (if reached \<and> limbo y \<noteq> None then limbo y else disk y) in
          case from_config cd w False (Inr d) l of
            Inr c \<Rightarrow> y\<lparr>running := Some c, disk := persisted c, limbo := None\<rparr>
          | Inl _ \<Rightarrow>
              y\<lparr>disk := d,
                limbo := (if uncertain w
                          then (case from_config cd Flushed False (Inr d) l of
                                  Inr c \<Rightarrow> persisted c | Inl _ \<Rightarrow> None)
                          else None)\<rparr>))"

section \<open>One call is one commit\<close>

text \<open>
  Every operation either does not write, or makes exactly one commit of a state that does not
  depend on the store's answer, and hands out an invocation only when that commit succeeded.
\<close>

definition after_commit :: "invocation option \<Rightarrow> unit result \<times> core \<Rightarrow> invocation option \<times> core" where
  "after_commit l p = (case p of (Inl _, c) \<Rightarrow> (None, c) | (Inr _, c) \<Rightarrow> (l, c))"

definition one_commit ::
  "('cron, 'tz) calendar \<Rightarrow> codec \<Rightarrow> sched_op \<Rightarrow> core \<Rightarrow> store_answer \<Rightarrow> store_answer \<Rightarrow> bool" where
  "one_commit cal cd op c w w' \<longleftrightarrow>
     (apply_op cal cd op w c = (None, c) \<and> apply_op cal cd op w' c = (None, c))
   \<or> (\<exists>s l. apply_op cal cd op w c = after_commit l (commit cd w c s)
          \<and> apply_op cal cd op w' c = after_commit l (commit cd w' c s))"

lemma after_commit_None [simp]: "(None, snd p) = after_commit None p"
  by (auto simp: after_commit_def split: prod.splits sum.splits)

lemma after_commit_claim [simp]:
  "(case (case p of (Inl e, c) \<Rightarrow> (Inl e, c) | (Inr u, c) \<Rightarrow> (Inr (Some iv), c)) of
      (Inr (Some v), c') \<Rightarrow> (Some v, c') | (_, c') \<Rightarrow> (None, c')) = after_commit (Some iv) p"
  by (auto simp: after_commit_def split: prod.splits sum.splits)

lemma one_commit_claim: "one_commit cal cd (Claim now) c w w'"
  unfolding one_commit_def apply_op.simps claim_def Let_def
  by (auto split: sum.splits option.splits)

definition committing :: "codec \<Rightarrow> core \<Rightarrow> store_answer \<Rightarrow> store_answer \<Rightarrow> core \<Rightarrow> core \<Rightarrow> bool" where
  "committing cd c w w' d d' \<longleftrightarrow>
     (d = c \<and> d' = c) \<or> (\<exists>s. d = snd (commit cd w c s) \<and> d' = snd (commit cd w' c s))"

lemma committing_none [simp]: "committing cd c w w' c c"
  by (simp add: committing_def)

lemma committing_commit [simp]:
  "committing cd c w w' (snd (commit cd w c s)) (snd (commit cd w' c s))"
  by (auto simp: committing_def)

lemma one_commit_committing:
  assumes "apply_op cal cd op w c = (None, d)" and "apply_op cal cd op w' c = (None, d')"
    and "committing cd c w w' d d'"
  shows "one_commit cal cd op c w w'"
  using assms unfolding committing_def one_commit_def by (metis after_commit_None)

lemma committing_create:
  "committing cd c w w' (snd (create cal cd w c d now)) (snd (create cal cd w' c d now))"
  unfolding create_def Let_def by (simp split: sum.split option.split)

lemma committing_observe:
  "committing cd c w w' (snd (observe cal cd w c now)) (snd (observe cal cd w' c now))"
  unfolding observe_def by (simp split: sum.split)

lemma committing_finish:
  "committing cd c w w' (snd (finish cal cd w c iv out now)) (snd (finish cal cd w' c iv out now))"
  unfolding finish_def by (simp split: sum.split option.split)

lemma committing_stop:
  "committing cd c w w' (snd (stop_schedule cd w c i del)) (snd (stop_schedule cd w' c i del))"
  unfolding stop_schedule_def by (simp split: option.split)

lemma committing_cancel:
  "committing cd c w w' (snd (request_cancel cd w c i)) (snd (request_cancel cd w' c i))"
  unfolding request_cancel_def by (simp split: option.split status.split)

lemma committing_acknowledge:
  "committing cd c w w' (snd (acknowledge_stopped cd w c i)) (snd (acknowledge_stopped cd w' c i))"
  unfolding acknowledge_stopped_def Let_def by (simp split: option.split status.split)

lemma committing_reject:
  "committing cd c w w' (snd (reject_unadmitted cd w c i a)) (snd (reject_unadmitted cd w' c i a))"
  unfolding reject_unadmitted_def Let_def by (simp split: option.split status.split)

lemma apply_op_one_commit: "one_commit cal cd op c w w'"
proof (cases op)
  case (Claim now)
  then show ?thesis by (simp add: one_commit_claim)
qed (auto intro!: one_commit_committing simp del: after_commit_None
    simp: disable_def delete_def interrupt_running_def committing_create committing_observe
      committing_finish committing_stop committing_cancel committing_acknowledge committing_reject)+

section \<open>Recovery keeps what was handed out\<close>

definition attempt_key :: "invocation \<Rightarrow> u64 \<times> u32" where
  "attempt_key iv = (inv_occurrence iv, inv_attempt iv)"

text \<open>A state that accounts for every invocation handed out so far.\<close>

definition accounts :: "limits \<Rightarrow> invocation list \<Rightarrow> sched_state \<Rightarrow> bool" where
  "accounts l hs s \<longleftrightarrow> sched_inv s \<and> version s = 1 \<and> limits_of s = l
     \<and> (\<forall>iv \<in> set hs. consumed s (attempt_key iv))"

definition codec_ok :: "codec \<Rightarrow> bool" where
  "codec_ok cd \<longleftrightarrow> (\<forall>s b. to_json cd s = Inr b \<longrightarrow> from_json cd b = Inr s)"

definition bytes_account :: "codec \<Rightarrow> limits \<Rightarrow> invocation list \<Rightarrow> string \<Rightarrow> bool" where
  "bytes_account cd l hs b \<longleftrightarrow> (\<exists>s. from_json cd b = Inr s \<and> accounts l hs s)"

definition disk_account :: "codec \<Rightarrow> limits \<Rightarrow> invocation list \<Rightarrow> string option \<Rightarrow> bool" where
  "disk_account cd l hs d = (case d of None \<Rightarrow> hs = [] | Some b \<Rightarrow> bytes_account cd l hs b)"

lemma disk_account_Some [simp]: "disk_account cd l hs (Some b) = bytes_account cd l hs b"
  by (simp add: disk_account_def)

definition core_ok :: "codec \<Rightarrow> limits \<Rightarrow> sys \<Rightarrow> core \<Rightarrow> bool" where
  "core_ok cd l y c \<longleftrightarrow> durable c \<and> disk y = persisted c \<and> (limbo y \<noteq> None \<longrightarrow> poisoned c)
     \<and> (\<exists>b. persisted c = Some b \<and> from_json cd b = Inr (state c)) \<and> accounts l (handed y) (state c)"

definition sys_inv :: "codec \<Rightarrow> limits \<Rightarrow> sys \<Rightarrow> bool" where
  "sys_inv cd l y \<longleftrightarrow> distinct (map attempt_key (handed y))
     \<and> disk_account cd l (handed y) (disk y)
     \<and> (\<forall>b. limbo y = Some b \<longrightarrow> bytes_account cd l (handed y) b)
     \<and> (\<forall>c. running y = Some c \<longrightarrow> core_ok cd l y c)"

definition handed_next :: "invocation list \<Rightarrow> invocation option \<Rightarrow> invocation list" where
  "handed_next hs l = (case l of None \<Rightarrow> hs | Some iv \<Rightarrow> hs @ [iv])"

lemma sched_step_config:
  assumes "calendar_ok cal" and "sched_step cal s l t" and "sched_inv s"
  shows "version t = version s \<and> limits_of t = limits_of s"
  using assms(2,3)
proof (induction rule: sched_step.induct)
  case (step_observe s now t)
  have "observing now {} s" by (rule observing_start [OF step_observe(3,1)])
  from observe_all_inv [OF assms(1) this step_observe(2)] show ?case by simp
qed simp_all

lemma accounts_step:
  assumes cal: "calendar_ok cal" and step: "sched_step cal s l t" and acc: "accounts lim hs s"
  shows "accounts lim (handed_next hs l) t" and "accounts lim hs t"
    and "distinct (map attempt_key hs) \<Longrightarrow> distinct (map attempt_key (handed_next hs l))"
proof -
  have inv: "sched_inv s" and old: "\<And>iv. iv \<in> set hs \<Longrightarrow> consumed s (attempt_key iv)"
    using acc by (auto simp: accounts_def)
  have kept: "\<And>iv. iv \<in> set hs \<Longrightarrow> consumed t (attempt_key iv)"
    using sched_step_consumed [OF step inv] old by blast
  with sched_step_inv [OF cal step inv] sched_step_config [OF cal step inv] acc
  show hs: "accounts lim hs t" by (simp add: accounts_def)
  with sched_step_claims [of cal s _ t] step inv
  show "accounts lim (handed_next hs l) t"
    by (auto simp: accounts_def handed_next_def attempt_key_def split: option.splits)
  show "distinct (map attempt_key (handed_next hs l))" if "distinct (map attempt_key hs)"
    using that old sched_step_claims(1) [of cal s _ t] step inv
    by (fastforce simp: handed_next_def attempt_key_def split: option.splits)
qed

lemma accounts_steps_to:
  assumes "calendar_ok cal" and "steps_to cal s l t" and "accounts lim hs s"
  shows "accounts lim (handed_next hs l) t" and "accounts lim hs t"
    and "distinct (map attempt_key hs) \<Longrightarrow> distinct (map attempt_key (handed_next hs l))"
  using assms accounts_step [OF assms(1) _ assms(3)]
  by (auto simp: steps_to_def handed_next_def)

lemma accounts_empty: "limits_validate l = Inr () \<Longrightarrow> accounts l [] (empty_state l)"
  by (auto simp: accounts_def empty_state_def sched_inv_def inv_defs outstanding_def active_count_def
      btm_ok_def)

text \<open>What a call of a healthy core does, by the store's answer.\<close>

lemma call_cases:
  assumes call: "apply_op cal cd op w c = (iv, c')" and up: "durable c" "\<not> poisoned c"
    and cal: "calendar_ok cal" and inv: "sched_inv (state c)"
  obtains (nothing) "iv = None" "c' = c" "snd (apply_op cal cd op Flushed c) = c"
  | (refused) "iv = None" "c' = c\<lparr>poisoned := True\<rparr>" "w = SwapConflict"
  | (unsure) s b l where "iv = None" "c' = c\<lparr>poisoned := True\<rparr>" "uncertain w"
      "to_json cd s = Inr b" "steps_to cal (state c) l s"
      "snd (apply_op cal cd op Flushed c) = c\<lparr>persisted := Some b, state := s\<rparr>"
  | (stored) s b where "w = Flushed" "c' = c\<lparr>persisted := Some b, state := s\<rparr>"
      "to_json cd s = Inr b" "steps_to cal (state c) iv s"
proof -
  have "one_commit cal cd op c w Flushed" by (rule apply_op_one_commit)
  then consider "apply_op cal cd op w c = (None, c)" "apply_op cal cd op Flushed c = (None, c)"
    | s l where "apply_op cal cd op w c = after_commit l (commit cd w c s)"
        "apply_op cal cd op Flushed c = after_commit l (commit cd Flushed c s)"
    unfolding one_commit_def by blast
  then show thesis
  proof cases
    case 1
    with call have "iv = None" "c' = c" by simp_all
    moreover have "snd (apply_op cal cd op Flushed c) = c" using 1(2) by simp
    ultimately show thesis by (rule nothing)
  next
    case (2 s l)
    show thesis
    proof (cases "to_json cd s")
      case (Inl e)
      then have "commit cd v c s = (Inl (Err e), c)" for v
        using up by (simp add: commit_def map_err_def)
      with 2 call have "iv = None" "c' = c" "snd (apply_op cal cd op Flushed c) = c"
        by (simp_all add: after_commit_def)
      then show thesis by (rule nothing)
    next
      case (Inr b)
      have flushed: "apply_op cal cd op Flushed c = (l, c\<lparr>persisted := Some b, state := s\<rparr>)"
        using 2(2) Inr up by (simp add: commit_def map_err_def after_commit_def)
      from apply_op_refines [OF cal inv flushed] have st: "steps_to cal (state c) l s" by simp
      show thesis
      proof (cases "w = Flushed")
        case True
        with flushed call have "iv = l" "c' = c\<lparr>persisted := Some b, state := s\<rparr>" by simp_all
        with st stored [OF True _ Inr] show thesis by simp
      next
        case False
        then have "commit cd w c s = (fst (commit cd w c s), c\<lparr>poisoned := True\<rparr>)"
          "\<exists>e. fst (commit cd w c s) = Inl e"
          using Inr up by (auto simp: commit_def map_err_def split: store_answer.splits)
        with 2(1) call have "iv = None" "c' = c\<lparr>poisoned := True\<rparr>"
          by (auto simp: after_commit_def split: prod.splits)
        with False show thesis
          using refused unsure [OF _ _ _ Inr st] flushed by (cases w) auto
      qed
    qed
  qed
qed

lemma call_poisoned:
  assumes "poisoned c"
  shows "apply_op cal cd op w c = (None, c)"
proof -
  have "commit cd v c s = (Inl (Err ''store is poisoned; reopen before continuing''), c)" for v s
    using assms by (simp add: commit_def)
  moreover have "one_commit cal cd op c w w" by (rule apply_op_one_commit)
  ultimately show ?thesis by (auto simp: one_commit_def after_commit_def)
qed

text \<open>Reopening loads the bytes, interrupts what was running and commits that.\<close>

lemma from_config_cases:
  assumes "codec_ok cd" and "limits_validate l = Inr ()" and start: "disk_account cd l hs bytes"
    and res: "from_config cd w False (Inr bytes) l = Inr c"
  shows "durable c \<and> \<not> poisoned c \<and> (\<exists>b. persisted c = Some b \<and> from_json cd b = Inr (state c))"
    and "accounts l hs (state c)"
proof -
  obtain s where s: "(case bytes of Some b \<Rightarrow> map_err (from_json cd b) | None \<Rightarrow> Inr (empty_state l)) = Inr s"
    and cm: "commit cd w \<lparr>durable = True, persisted = bytes, state = s, poisoned = False, runner_active = False\<rparr>
        (interrupt_state ''interrupted before durable completion'' s) = (Inr (), c)"
    using res by (auto simp: from_config_def map_err_def split: sum.splits if_splits prod.splits)
  have acc: "accounts l hs s"
    using s start accounts_empty [OF assms(2)] by (auto simp: bytes_account_def disk_account_def split: option.splits)
  have "accounts l hs (interrupt_state ''interrupted before durable completion'' s)"
    using acc sched_inv_interrupt sched_step_consumed [OF step_interrupt]
    by (auto simp: accounts_def)
  then show "accounts l hs (state c)"
    using cm by (auto simp: commit_def map_err_def split: sum.splits store_answer.splits)
  show "durable c \<and> \<not> poisoned c \<and> (\<exists>b. persisted c = Some b \<and> from_json cd b = Inr (state c))"
    using cm assms(1)
    by (auto simp: commit_def map_err_def codec_ok_def split: sum.splits store_answer.splits)
qed

lemma sys_inv_disk:
  "sys_inv cd l y \<Longrightarrow> disk_account cd l (handed y) (if r \<and> limbo y \<noteq> None then limbo y else disk y)"
  by (auto simp: sys_inv_def)

lemma sys_inv_reopen:
  assumes cd: "codec_ok cd" and lim: "limits_validate l = Inr ()" and inv: "sys_inv cd l y"
    and down: "running y = None"
  shows "sys_inv cd l (sys_step cal cd l (Reopen r w) y)"
proof -
  define d where "d = (if r \<and> limbo y \<noteq> None then limbo y else disk y)"
  have start: "disk_account cd l (handed y) d"
    unfolding d_def by (rule sys_inv_disk [OF inv])
  note loaded = from_config_cases [OF cd lim start]
  have good: "\<exists>b. persisted c = Some b \<and> bytes_account cd l (handed y) b"
    if "from_config cd v False (Inr d) l = Inr c" for v c
    using loaded [OF that] by (auto simp: bytes_account_def)
  have dist: "distinct (map attempt_key (handed y))" using inv by (simp add: sys_inv_def)
  show ?thesis
  proof (cases "from_config cd w False (Inr d) l")
    case (Inl e)
    then have "sys_step cal cd l (Reopen r w) y = y\<lparr>disk := d, limbo := (if uncertain w
        then (case from_config cd Flushed False (Inr d) l of Inr c \<Rightarrow> persisted c | Inl _ \<Rightarrow> None)
        else None)\<rparr>"
      using down by (simp add: d_def Let_def)
    then show ?thesis
      using start dist down good [of Flushed] by (auto simp: sys_inv_def split: sum.splits)
  next
    case (Inr c)
    then have "sys_step cal cd l (Reopen r w) y = y\<lparr>running := Some c, disk := persisted c, limbo := None\<rparr>"
      using down by (simp add: d_def Let_def)
    then show ?thesis
      using loaded [OF Inr] good [OF Inr] dist by (auto simp: sys_inv_def core_ok_def)
  qed
qed

lemma sys_inv_call:
  assumes cal: "calendar_ok cal" and cd: "codec_ok cd" and inv: "sys_inv cd l y"
    and up: "running y = Some c"
  shows "sys_inv cd l (sys_step cal cd l (Call op w) y)"
proof (cases "poisoned c")
  case True
  have "disk y = persisted c" using inv up by (simp add: sys_inv_def core_ok_def)
  then have "sys_step cal cd l (Call op w) y = y"
    using up True by (simp add: call_poisoned)
  with inv show ?thesis by simp
next
  case False
  obtain iv c' where call: "apply_op cal cd op w c = (iv, c')" by fastforce
  have ok: "core_ok cd l y c" and dist: "distinct (map attempt_key (handed y))"
    using inv up by (simp_all add: sys_inv_def)
  then have dur: "durable c" and pd: "disk y = persisted c" and nl: "limbo y = None"
    and acc: "accounts l (handed y) (state c)" and si: "sched_inv (state c)"
    using False by (auto simp: core_ok_def accounts_def)
  have json: "from_json cd b = Inr s" if "to_json cd s = Inr b" for s b
    using cd that by (simp add: codec_ok_def)
  have "sys_step cal cd l (Call op w) y = y\<lparr>running := Some c', disk := persisted c',
      limbo := (if uncertain w then written c (snd (apply_op cal cd op Flushed c)) else limbo y),
      handed := handed_next (handed y) iv\<rparr>"
    using up call False by (simp add: handed_next_def)
  moreover from call dur False cal si
  have "sys_inv cd l (y\<lparr>running := Some c', disk := persisted c',
      limbo := (if uncertain w then written c (snd (apply_op cal cd op Flushed c)) else limbo y),
      handed := handed_next (handed y) iv\<rparr>)"
  proof (cases rule: call_cases)
    case nothing
    with inv up pd nl show ?thesis
      by (auto simp: sys_inv_def core_ok_def handed_next_def written_def)
  next
    case refused
    with inv up pd nl show ?thesis by (auto simp: sys_inv_def core_ok_def handed_next_def)
  next
    case (unsure s b lab)
    have "bytes_account cd l (handed y) b"
      using json [OF unsure(4)] accounts_steps_to(2) [OF cal unsure(5) acc] by (auto simp: bytes_account_def)
    with unsure inv up pd nl show ?thesis
      by (auto simp: sys_inv_def core_ok_def handed_next_def written_def)
  next
    case (stored s b)
    note a = accounts_steps_to [OF cal stored(4) acc]
    show ?thesis
      using stored a(1) a(3) [OF dist] json [OF stored(3)] dur nl
      by (auto simp: sys_inv_def core_ok_def bytes_account_def)
  qed
  ultimately show ?thesis by simp
qed

lemma sys_inv_step:
  assumes "calendar_ok cal" and "codec_ok cd" and "limits_validate l = Inr ()" and inv: "sys_inv cd l y"
  shows "sys_inv cd l (sys_step cal cd l e y)"
proof (cases e)
  case (Call op w)
  show ?thesis
  proof (cases "running y")
    case None
    with inv Call show ?thesis by simp
  next
    case (Some c)
    show ?thesis unfolding Call by (rule sys_inv_call [OF assms(1,2,4) Some])
  qed
next
  case Crash
  with inv show ?thesis by (auto simp: sys_inv_def split: option.splits)
next
  case (Reopen r w)
  show ?thesis
  proof (cases "running y")
    case None
    show ?thesis unfolding Reopen by (rule sys_inv_reopen [OF assms(2,3,4) None])
  next
    case (Some c)
    with inv Reopen show ?thesis by simp
  qed
qed

lemma sys_inv_initial: "sys_inv cd l initial_sys"
  by (simp add: sys_inv_def initial_sys_def disk_account_def)

end
