(* ===== verification/Sched_Props.thy ===== *)
theory Sched_Props
  imports Sched_System
begin

text \<open>
  The properties of the scheduling core: at-most-once dispatch across crashes, the bounds and
  overlap guarantees on every reachable state, recovery, slot selection, dispatch order and
  progress, retries and eviction; each with a concrete run as its witness.
\<close>

section \<open>Reachable systems\<close>

interpretation sched_sys: invariant_machine "sys_step cal cd l"
  "\<lambda>y. calendar_ok cal \<and> codec_ok cd \<and> limits_validate l = Inr () \<longrightarrow> sys_inv cd l y"
  for cal :: "('cron, 'tz) calendar" and cd l
  by unfold_locales (auto intro: sys_inv_step)

definition sys_run :: "('cron, 'tz) calendar \<Rightarrow> codec \<Rightarrow> limits \<Rightarrow> event list \<Rightarrow> sys" where
  "sys_run cal cd l es = fold (sys_step cal cd l) es initial_sys"

lemma sys_run_inv:
  "calendar_ok cal \<Longrightarrow> codec_ok cd \<Longrightarrow> limits_validate l = Inr () \<Longrightarrow> sys_inv cd l (sys_run cal cd l es)"
  unfolding sys_run_def using sched_sys.run_inv sys_inv_initial by blast

lemma running_inv:
  assumes "calendar_ok cal" "codec_ok cd" "limits_validate l = Inr ()"
    and "running (sys_run cal cd l es) = Some c"
  shows "sched_inv (state c)" and "limits_of (state c) = l" and "version (state c) = 1"
  using sys_run_inv [OF assms(1-3), of es] assms(4)
  by (auto simp: sys_inv_def core_ok_def accounts_def)

section \<open>A concrete calendar and codec\<close>

text \<open>Every minute, in UTC.\<close>

definition minute :: int where
  "minute = 60000000000"

definition minute_calendar :: "(unit, unit) calendar" where
  "minute_calendar = \<lparr>cron_parse = (\<lambda>_. Inr ()), tz_parse = (\<lambda>_. Inr ()),
     find_next_occurrence = (\<lambda>_ _ t incl. Inr (if incl \<and> t mod minute = 0 then t else (t div minute + 1) * minute)),
     find_previous_occurrence = (\<lambda>_ _ t incl. Inr (if incl then t div minute * minute else (t - 1) div minute * minute)),
     checked_add_signed = (\<lambda>t d. Some (t + d))\<rparr>"

lemma minute_next: "t < (t div minute + 1) * minute"
proof -
  have "t mod minute < minute" by (simp add: minute_def)
  then show ?thesis using div_mult_mod_eq [of t minute] by (simp only: distrib_right)
qed

lemma minute_prev: "t div minute * minute \<le> t"
proof -
  have "0 \<le> t mod minute" by (simp add: minute_def)
  then show ?thesis using div_mult_mod_eq [of t minute] by linarith
qed

lemma minute_calendar_ok: "calendar_ok minute_calendar"
proof -
  have "(t - 1) div minute * minute < t" for t
    using minute_prev [of "t - 1"] by linarith
  then show ?thesis
    using minute_next minute_prev by (auto simp: calendar_ok_def minute_calendar_def less_imp_le)
qed

text \<open>A codec for finitely many states: a state is written as a string of its position.\<close>

definition table_codec :: "sched_state list \<Rightarrow> codec" where
  "table_codec ss = \<lparr>
     to_json = (\<lambda>s. case find (\<lambda>i. ss ! i = s) [0..<length ss] of
        None \<Rightarrow> Inl ''unsupported'' | Some i \<Rightarrow> Inr (replicate i (CHR ''x''))),
     from_json = (\<lambda>b. if length b < length ss then Inr (ss ! length b) else Inl ''malformed'')\<rparr>"

lemma table_codec_ok: "codec_ok (table_codec ss)"
  by (auto simp: codec_ok_def table_codec_def find_Some_iff split: option.splits)

definition demo_def :: "overlap \<Rightarrow> missed_runs \<Rightarrow> sched_definition" where
  "demo_def ov ms = \<lparr>def_name = Some ''demo'', def_code = ''run()'', def_cron = ''* * * * *'',
     def_timezone = ''UTC'', def_policy = \<lparr>missed = ms, overlap_policy = ov,
       retry_policy = \<lparr>max_retries = 2, delay_seconds = 30\<rparr>\<rparr>\<rparr>"

definition demo_schedule :: "overlap \<Rightarrow> missed_runs \<Rightarrow> time \<Rightarrow> schedule" where
  "demo_schedule ov ms due = \<lparr>sched_id = 1, sched_def = demo_def ov ms, enabled = True,
     deleted = False, next_due = Some due, rejected = 0\<rparr>"

definition demo_state :: "schedule \<Rightarrow> time option \<Rightarrow> u64 \<Rightarrow> occurrence list \<Rightarrow> sched_state" where
  "demo_state sc wm n ocs = \<lparr>version = 1, limits_of = default_limits, next_id = n, watermark = wm,
     schedules = [(1, sc)], occurrences = map (\<lambda>oc. (occ_id oc, oc)) ocs\<rparr>"

definition demo_receipt :: "status \<Rightarrow> occurrence" where
  "demo_receipt st = \<lparr>occ_id = 2, occ_schedule = 1, due_at = minute, occ_status = st\<rparr>"

definition demo_created :: sched_state where
  "demo_created = demo_state (demo_schedule Queue RunOnce minute) None 2 []"

definition demo_with :: "status \<Rightarrow> sched_state" where
  "demo_with st = demo_state (demo_schedule Queue RunOnce (2 * minute)) (Some minute) 3 [demo_receipt st]"

definition demo_why :: string where
  "demo_why = ''interrupted before durable completion''"

definition demo_codec :: codec where
  "demo_codec = table_codec [empty_state default_limits, demo_created,
     demo_with (Pending 1 minute), demo_with (Running 1), demo_with (Unknown 1 demo_why),
     demo_with (Pending 2 (minute + seconds 30))]"

definition demo_core :: "string \<Rightarrow> sched_state \<Rightarrow> core" where
  "demo_core b s = \<lparr>durable = True, persisted = Some b, state = s,
     poisoned = False, runner_active = False\<rparr>"

definition demo_events :: "event list" where
  "demo_events = [Reopen False Flushed, Call (Create (demo_def Queue RunOnce) 0) Flushed,
     Call (Observe minute) Flushed, Call (Claim minute) Flushed, Crash, Reopen False Flushed,
     Call (Claim minute) Flushed]"

lemmas demo_state_defs = demo_created_def demo_with_def demo_def_def demo_schedule_def
  demo_state_def demo_receipt_def empty_state_def default_limits_def

lemma demo_parsed [simp]: "parsed minute_calendar (demo_def ov ms) = Inr ((), ())"
  by (simp add: parsed_def demo_def_def minute_calendar_def map_err_def is_space_def cron_char_def)

lemma demo_with_eq [simp]: "demo_with st = demo_with st' \<longleftrightarrow> st = st'"
  by (simp add: demo_state_defs)

lemma demo_states_distinct [simp]:
  "empty_state l \<noteq> demo_with st" "demo_created \<noteq> demo_with st" "empty_state l \<noteq> demo_created"
  by (simp_all add: demo_state_defs)

lemma demo_json:
  "to_json demo_codec (empty_state default_limits) = Inr []"
  "to_json demo_codec demo_created = Inr ''x''"
  "to_json demo_codec (demo_with (Pending 1 minute)) = Inr ''xx''"
  "to_json demo_codec (demo_with (Running 1)) = Inr ''xxx''"
  "to_json demo_codec (demo_with (Unknown 1 demo_why)) = Inr ''xxxx''"
  "from_json demo_codec ''xxx'' = Inr (demo_with (Running 1))"
  "to_json demo_codec (demo_with (Pending 2 (minute + seconds 30))) = Inr ''xxxxx''"
  by (simp_all add: demo_codec_def table_codec_def upt_rec)

lemma demo_commit:
  "to_json demo_codec s' = Inr b' \<Longrightarrow>
   commit demo_codec Flushed (demo_core b s) s' = (Inr (), demo_core b' s')"
  by (simp add: commit_def demo_core_def map_err_def)

lemma demo_core_simps [simp]:
  "state (demo_core b s) = s" "persisted (demo_core b s) = Some b" "\<not> poisoned (demo_core b s)"
  by (simp_all add: demo_core_def)

lemma demo_interrupted [simp]:
  "interrupt_state w (empty_state l) = empty_state l"
  "interrupt_state w (demo_with (Running a)) = demo_with (Unknown a w)"
  by (simp_all add: interrupt_state_def btm_map_def demo_state_defs)

lemma demo_limits [simp]: "limits_validate default_limits = Inr ()"
  by (simp add: limits_validate_def default_limits_def)

lemma demo_config [simp]:
  "version (demo_with st) = 1" "limits_of (demo_with st) = default_limits"
  "version (empty_state l) = 1" "limits_of (empty_state l) = l"
  by (simp_all add: demo_state_defs)

lemma demo_open:
  "from_config demo_codec Flushed False (Inr None) default_limits
     = Inr (demo_core [] (empty_state default_limits))"
  "from_config demo_codec Flushed False (Inr (Some ''xxx'')) default_limits
     = Inr (demo_core ''xxxx'' (demo_with (Unknown 1 demo_why)))"
  by (simp_all add: from_config_def map_err_def demo_json commit_def demo_core_def
      flip: demo_why_def)

lemma demo_fields [simp]:
  "missed (def_policy (demo_def ov ms)) = ms"
  "overlap_policy (def_policy (demo_def ov ms)) = ov"
  "retry_policy (def_policy (demo_def ov ms)) = \<lparr>max_retries = 2, delay_seconds = 30\<rparr>"
  "next_slot minute_calendar cron tz t = Inr ((t div minute + 1) * minute)"
  "find_previous_occurrence minute_calendar cron tz t incl
     = Inr (if incl then t div minute * minute else (t - 1) div minute * minute)"
  "lim_schedules default_limits = 64" "lim_records default_limits = 4096"
  "lim_outstanding default_limits = 128" "lim_running default_limits = 16"
  "grace_seconds default_limits = 5"
  by (simp_all add: demo_def_def next_slot_def minute_calendar_def map_err_def default_limits_def)

lemma minute_div [simp]: "minute div minute = 1" "0 div minute = 0" "minute - 1 < minute" "0 < minute" "minute \<noteq> 0"
  by (simp_all add: minute_def)

lemma empty_fields [simp]:
  "next_id (empty_state l) = 1" "watermark (empty_state l) = None" "schedules (empty_state l) = []"
  "occurrences (empty_state l) = []"
  by (simp_all add: empty_state_def)

lemma demo_created_eq:
  "(empty_state default_limits)\<lparr>next_id := 2, schedules := [(1, \<lparr>sched_id = 1, sched_def = demo_def Queue RunOnce,
     enabled = True, deleted = False, next_due = Some minute, rejected = 0\<rparr>)]\<rparr> = demo_created"
  by (simp add: demo_created_def demo_schedule_def demo_state_def empty_state_def)

lemma demo_create:
  "create minute_calendar demo_codec Flushed (demo_core [] (empty_state default_limits))
     (demo_def Queue RunOnce) 0 = (Inr 1, demo_core ''x'' demo_created)"
  by (simp add: create_def checked_add_def demo_commit demo_json demo_created_eq)

lemma demo_observed:
  "fold_res (observe_schedule minute_calendar minute) (btm_keys (schedules demo_created)) demo_created
     = Inr ((demo_with (Pending 1 minute))\<lparr>watermark := None\<rparr>)"
  by (simp add: observe_schedule_def demo_created_def demo_with_def demo_schedule_def demo_state_def
      demo_receipt_def admit_slot_def checked_add_def outstanding_def evict_def btm_modify_def Let_def map_err_def)

lemma demo_watermark: "watermark demo_created = None" "(demo_with st)\<lparr>watermark := Some minute\<rparr> = demo_with st"
  by (simp_all add: demo_state_defs)

lemma demo_observe:
  "observe minute_calendar demo_codec Flushed (demo_core ''x'' demo_created) minute
     = (Inr (), demo_core ''xx'' (demo_with (Pending 1 minute)))"
  by (simp add: observe_def demo_commit demo_json demo_observed demo_watermark)

lemma demo_candidate:
  "active_count (demo_with (Pending 1 minute)) = 0" "active_count (demo_with (Unknown 1 demo_why)) = 1"
  "find_candidate (demo_with (Pending 1 minute)) minute (btm_values (occurrences (demo_with (Pending 1 minute)))) = Inr (Some (2, 1))"
  "find_candidate (demo_with (Unknown 1 demo_why)) minute (btm_values (occurrences (demo_with (Unknown 1 demo_why)))) = Inr None"
  "btm_get (occurrences (demo_with st)) 2 = Some (demo_receipt st)"
  "btm_get (schedules (demo_with st)) 1 = Some (demo_schedule Queue RunOnce (2 * minute))"
  "set_status 2 st' (demo_with st) = demo_with st'"
  by (simp_all add: active_count_def blocked_def set_status_def demo_with_def demo_state_def demo_receipt_def
      demo_schedule_def btm_modify_def)

lemma demo_claim:
  "claim demo_codec Flushed (demo_core ''xx'' (demo_with (Pending 1 minute))) minute
     = (Inr (Some \<lparr>inv_occurrence = 2, inv_schedule = 1, inv_due = minute, inv_attempt = 1, inv_code = ''run()''\<rparr>),
        demo_core ''xxx'' (demo_with (Running 1)))"
  "claim demo_codec Flushed (demo_core ''xxxx'' (demo_with (Unknown 1 demo_why))) minute
     = (Inr None, demo_core ''xxxx'' (demo_with (Unknown 1 demo_why)))"
  by (simp_all add: claim_def demo_candidate demo_receipt_def demo_schedule_def demo_def_def demo_commit demo_json)

lemma demo_run:
  "sys_run minute_calendar demo_codec default_limits demo_events =
     \<lparr>running = Some (demo_core ''xxxx'' (demo_with (Unknown 1 demo_why))), disk = Some ''xxxx'', limbo = None,
      handed = [\<lparr>inv_occurrence = 2, inv_schedule = 1, inv_due = minute, inv_attempt = 1, inv_code = ''run()''\<rparr>]\<rparr>"
  by (simp add: sys_run_def demo_events_def initial_sys_def demo_open demo_create demo_observe demo_claim)

lemma demo_codec_ok: "codec_ok demo_codec"
  by (simp add: demo_codec_def table_codec_ok)

lemmas demo_ok = minute_calendar_ok demo_codec_ok demo_limits

section \<open>Dispatch across crashes\<close>

text \<open>C8. No attempt of an occurrence is handed to the executor twice, over any sequence of calls
  with any answers of the store, crashes, and reopenings in which an uncertain write did or did not
  reach the disk.\<close>

theorem dispatch_at_most_once:
  assumes "calendar_ok cal" "codec_ok cd" "limits_validate l = Inr ()"
  shows "distinct (map attempt_key (handed (sys_run cal cd l es)))"
  using sys_run_inv [OF assms, of es] by (simp add: sys_inv_def)

theorem dispatch_at_most_once_witness:
  "map attempt_key (handed (sys_run minute_calendar demo_codec default_limits demo_events)) = [(2, 1)]
   \<and> distinct (map attempt_key (handed (sys_run minute_calendar demo_codec default_limits demo_events)))"
  using dispatch_at_most_once [OF demo_ok, of demo_events] by (simp add: demo_run attempt_key_def)

section \<open>Reachable states\<close>

text \<open>C16. In every reachable state the configured bounds hold: schedules, stored receipts, unresolved
  receipts and attempts in flight never exceed the limits the core was opened with.\<close>

theorem reachable_bounds:
  assumes "calendar_ok cal" "codec_ok cd" "limits_validate l = Inr ()"
    and "running (sys_run cal cd l es) = Some c"
  shows "length (schedules (state c)) \<le> lim_schedules l
    \<and> length (occurrences (state c)) \<le> lim_records l
    \<and> outstanding (state c) \<le> lim_outstanding l
    \<and> active_count (state c) \<le> lim_running l"
  using running_inv [OF assms] by (auto simp: sched_inv_def bounds_ok_def)

lemma demo_running:
  "running (sys_run minute_calendar demo_codec default_limits demo_events)
     = Some (demo_core ''xxxx'' (demo_with (Unknown 1 demo_why)))"
  by (simp add: demo_run)

theorem reachable_bounds_witness:
  "active_count (demo_with (Unknown 1 demo_why)) = 1 \<and> active_count (demo_with (Unknown 1 demo_why)) \<le> 16"
  using reachable_bounds [OF demo_ok demo_running]
  by (simp add: active_count_def demo_with_def demo_state_def demo_receipt_def)

text \<open>C15. Overlap policies hold in every reachable state: a schedule that skips overlaps has at most
  one unresolved receipt, and one that skips or queues has at most one receipt whose attempt may
  still be executing (running, unknown or cancelling).\<close>

theorem reachable_overlap:
  assumes "calendar_ok cal" "codec_ok cd" "limits_validate l = Inr ()"
    and "running (sys_run cal cd l es) = Some c"
    and "btm_get (schedules (state c)) i = Some sc"
    and "btm_get (occurrences (state c)) k = Some oc" "occ_schedule oc = i"
    and "btm_get (occurrences (state c)) k' = Some oc'" "occ_schedule oc' = i"
  shows "(overlap_policy (def_policy (sched_def sc)) = OverlapSkip \<longrightarrow>
            \<not> terminal (occ_status oc) \<longrightarrow> \<not> terminal (occ_status oc') \<longrightarrow> k = k')
       \<and> (overlap_policy (def_policy (sched_def sc)) \<noteq> Concurrent \<longrightarrow>
            active (occ_status oc) \<longrightarrow> active (occ_status oc') \<longrightarrow> k = k')"
proof -
  have "overlap_ok (state c)" using running_inv(1) [OF assms(1-4)] by (simp add: sched_inv_def)
  moreover have "policy_of (state c) i = Some (overlap_policy (def_policy (sched_def sc)))"
    using assms(5) by (simp add: policy_of_def)
  moreover have "live_in (state c) i k" if "\<not> terminal (occ_status oc)"
    using that assms(6,7) by (auto simp: live_in_def)
  moreover have "live_in (state c) i k'" if "\<not> terminal (occ_status oc')"
    using that assms(8,9) by (auto simp: live_in_def)
  moreover have "active_in (state c) i k" if "active (occ_status oc)"
    using that assms(6,7) by (auto simp: active_in_def)
  moreover have "active_in (state c) i k'" if "active (occ_status oc')"
    using that assms(8,9) by (auto simp: active_in_def)
  ultimately show ?thesis unfolding overlap_ok_def by (metis option.inject)
qed

lemma demo_gets [simp]:
  "btm_get (schedules (demo_with st)) 1 = Some (demo_schedule Queue RunOnce (2 * minute))"
  "btm_get (occurrences (demo_with st)) 2 = Some (demo_receipt st)"
  "occ_schedule (demo_receipt st) = 1" "occ_status (demo_receipt st) = st"
  "sched_def (demo_schedule ov ms d) = demo_def ov ms"
  by (simp_all add: demo_with_def demo_state_def demo_receipt_def demo_schedule_def)

theorem reachable_overlap_witness:
  "active (occ_status (demo_receipt (Unknown 1 demo_why))) \<and> (2::u64) = 2"
  using reachable_overlap [OF demo_ok demo_running, of 1 "demo_schedule Queue RunOnce (2 * minute)" 2
      "demo_receipt (Unknown 1 demo_why)" 2 "demo_receipt (Unknown 1 demo_why)"]
  by simp

text \<open>A due slot of a schedule never has two receipts: in a reachable state, receipts of the same
  schedule and due instant are the same receipt.\<close>

theorem reachable_slots_unique:
  assumes "calendar_ok cal" "codec_ok cd" "limits_validate l = Inr ()"
    and "running (sys_run cal cd l es) = Some c"
    and "btm_get (occurrences (state c)) k = Some oc" "btm_get (occurrences (state c)) k' = Some oc'"
    and "occ_schedule oc = occ_schedule oc'" "due_at oc = due_at oc'"
  shows "k = k'"
proof -
  have "slots_unique (state c)" using running_inv(1) [OF assms(1-4)] by (simp add: sched_inv_def)
  with assms(5-8) show ?thesis unfolding slots_unique_def by blast
qed

lemma commit_no_panic: "fst (commit cd w c s) \<noteq> Inl (Panic m)"
  by (auto simp: commit_def map_err_def split: sum.splits store_answer.splits)

lemma commit_no_panic_pair: "commit cd w c s \<noteq> (Inl (Panic m), c')"
  using commit_no_panic [of cd w c s m] by force

lemma parsed_no_panic: "parsed cal d \<noteq> Inl (Panic m)"
  by (auto simp: parsed_def map_err_def split: sum.splits)

lemma next_slot_no_panic: "next_slot cal cron tz t \<noteq> Inl (Panic m)"
  by (auto simp: next_slot_def map_err_def split: sum.splits)

lemma select_slots_no_panic: "select_slots cal cron tz sk g now lo n incl cur \<noteq> Inl (Panic m)"
proof (induction n arbitrary: incl cur)
  case (Suc n)
  then show ?case by (auto simp: map_err_def split: sum.splits if_splits)
qed simp

lemma admit_slot_no_panic: "admit_slot now i ov due s \<noteq> Inl (Panic m)"
  by (auto simp: admit_slot_def split: option.splits)

lemma fold_res_no_panic:
  "(\<And>x s. f x s \<noteq> Inl (Panic m)) \<Longrightarrow> fold_res f xs s \<noteq> Inl (Panic m)"
  by (induction xs arbitrary: s) (auto split: sum.splits)

lemma observe_schedule_no_panic:
  "btm_get (schedules s) i \<noteq> None \<Longrightarrow> observe_schedule cal now i s \<noteq> Inl (Panic m)"
  by (auto simp: observe_schedule_def Let_def parsed_no_panic next_slot_no_panic select_slots_no_panic
      fold_res_no_panic admit_slot_no_panic split: option.splits sum.splits)

lemma observe_all_no_panic:
  assumes cal: "calendar_ok cal" and "observing now v s" and "set is \<subseteq> set (btm_keys (schedules s))"
  shows "fold_res (observe_schedule cal now) is s \<noteq> Inl (Panic m)"
  using assms(2,3)
proof (induction "is" arbitrary: s v)
  case (Cons i ids)
  have "btm_get (schedules s) i \<noteq> None" using Cons.prems(2) by (simp add: map_of_eq_None_iff)
  note np = observe_schedule_no_panic [OF this, of cal now m]
  show ?case
  proof (cases "observe_schedule cal now i s")
    case (Inl e)
    with np show ?thesis by simp
  next
    case (Inr s1)
    from observe_schedule_inv [OF cal Cons.prems(1) Inr] Cons.IH [of "insert i v" s1] Cons.prems(2) Inr
    show ?thesis by simp
  qed
qed simp

text \<open>What \<open>claim\<close> does on a state that satisfies the invariant.\<close>

definition invocation_of :: "sched_state \<Rightarrow> occurrence \<Rightarrow> invocation" where
  "invocation_of s oc = \<lparr>inv_occurrence = occ_id oc, inv_schedule = occ_schedule oc, inv_due = due_at oc,
     inv_attempt = attempt (occ_status oc),
     inv_code = (case btm_get (schedules s) (occ_schedule oc) of Some sc \<Rightarrow> def_code (sched_def sc) | None \<Rightarrow> [])\<rparr>"

lemma receipt_has_schedule:
  "sched_inv s \<Longrightarrow> btm_get (occurrences s) k = Some oc \<Longrightarrow> btm_get (schedules s) (occ_schedule oc) \<noteq> None"
  using receipt_okD [of s k oc] by (auto simp: receipt_ok_def split: option.splits)

lemma receipt_values:
  assumes inv: "sched_inv s" and mem: "oc \<in> set (btm_values (occurrences s))"
  shows "btm_get (schedules s) (occ_schedule oc) \<noteq> None" and "btm_get (occurrences s) (occ_id oc) = Some oc"
proof -
  have ids: "ids_ok s" using inv by (simp add: sched_inv_def)
  obtain k where k: "btm_get (occurrences s) k = Some oc"
    using mem ids by (auto simp only: ids_ok_def btm_values_get)
  with ids show "btm_get (occurrences s) (occ_id oc) = Some oc" by (auto simp: ids_ok_def)
  show "btm_get (schedules s) (occ_schedule oc) \<noteq> None" by (rule receipt_has_schedule [OF inv k])
qed

lemma claim_eq:
  assumes inv: "sched_inv (state c)"
  shows "claim cd w c now =
    (if poisoned c then (Inl (Err ''store is poisoned''), c)
     else if active_count (state c) \<ge> lim_running (limits_of (state c)) then (Inr None, c)
     else case find (eligible (state c) now) (btm_values (occurrences (state c))) of
       None \<Rightarrow> (Inr None, c)
     | Some oc \<Rightarrow>
         (case commit cd w c (set_status (occ_id oc) (Running (attempt (occ_status oc))) (state c)) of
            (Inl e, c') \<Rightarrow> (Inl e, c')
          | (Inr _, c') \<Rightarrow> (Inr (Some (invocation_of (state c) oc)), c')))"
proof -
  let ?f = "find (eligible (state c) now) (btm_values (occurrences (state c)))"
  have cand: "find_candidate (state c) now (btm_values (occurrences (state c))) =
      Inr (map_option (\<lambda>oc. (occ_id oc, attempt (occ_status oc))) ?f)"
    using receipt_values(1) [OF inv] by (intro find_candidate_find) blast
  show ?thesis
  proof (cases ?f)
    case None
    then show ?thesis by (simp add: claim_def Let_def cand)
  next
    case (Some oc)
    then have "oc \<in> set (btm_values (occurrences (state c)))" by (auto simp: find_Some_iff)
    from receipt_values [OF inv this] obtain sc where "btm_get (schedules (state c)) (occ_schedule oc) = Some sc"
      "btm_get (occurrences (state c)) (occ_id oc) = Some oc" by auto
    with Some show ?thesis
      by (simp add: claim_def Let_def cand invocation_of_def cong: sum.case_cong prod.case_cong)
  qed
qed

lemma claimed:
  assumes inv: "sched_inv (state c)" and "claim cd w c now = (Inr (Some iv), c')"
  obtains oc where "btm_get (occurrences (state c)) (occ_id oc) = Some oc" "eligible (state c) now oc"
    "iv = invocation_of (state c) oc"
    "state c' = set_status (occ_id oc) (Running (attempt (occ_status oc))) (state c)"
proof -
  from assms(2) obtain oc where f: "find (eligible (state c) now) (btm_values (occurrences (state c))) = Some oc"
    and r: "(case commit cd w c (set_status (occ_id oc) (Running (attempt (occ_status oc))) (state c)) of
            (Inl e, c') \<Rightarrow> (Inl e, c')
          | (Inr _, c') \<Rightarrow> (Inr (Some (invocation_of (state c) oc)), c')) = (Inr (Some iv), c')"
    unfolding claim_eq [OF inv] by (auto split: if_splits option.splits)
  from f have el: "eligible (state c) now oc" and mem: "oc \<in> set (btm_values (occurrences (state c)))"
    by (auto simp: find_Some_iff)
  obtain q c1 where cm: "commit cd w c (set_status (occ_id oc) (Running (attempt (occ_status oc))) (state c)) = (q, c1)"
    by fastforce
  with r have "iv = invocation_of (state c) oc" "c1 = c'" "\<exists>u. q = Inr u" by (auto split: sum.splits)
  moreover from cm this have "state c' = set_status (occ_id oc) (Running (attempt (occ_status oc))) (state c)"
    by (auto elim!: commit_cases)
  ultimately show thesis using receipt_values(2) [OF inv mem] el that by blast
qed

subsection \<open>Index expressions do not fail\<close>

text \<open>C27. On reachable states no operation of the core reaches an index expression or unwrap that
  fails: observe, claim and finish never panic, whatever they are called with.\<close>

theorem reachable_no_panic:
  assumes cal: "calendar_ok cal" and "codec_ok cd" "limits_validate l = Inr ()"
    and run: "running (sys_run cal cd l es) = Some c"
  shows "fst (observe cal cd w c now) \<noteq> Inl (Panic m) \<and> fst (claim cd w c now) \<noteq> Inl (Panic m)
    \<and> fst (finish cal cd w c iv out now) \<noteq> Inl (Panic m)"
proof -
  have inv: "sched_inv (state c)" by (rule running_inv(1) [OF assms])
  have obs: "fst (observe cal cd w c now) \<noteq> Inl (Panic m)"
  proof (cases "\<exists>k. watermark (state c) = Some k \<and> now \<le> k")
    case True
    then show ?thesis by (auto simp: observe_def)
  next
    case False
    then have "observing now {} (state c)" by (intro observing_start [OF inv]) force
    from observe_all_no_panic [OF cal this subset_refl]
    show ?thesis using commit_no_panic by (auto simp: observe_def split: sum.splits option.splits)
  qed
  have "fst (claim cd w c now) \<noteq> Inl (Panic m)"
    unfolding claim_eq [OF inv]
    by (auto simp: commit_no_panic_pair split: option.splits prod.splits sum.splits)
  moreover have "fst (finish cal cd w c iv out now) \<noteq> Inl (Panic m)"
    using receipt_has_schedule [OF inv, of "inv_occurrence iv"] commit_no_panic [of cd w c _ m]
    by (auto simp: finish_def finish_status_def split: option.splits sum.splits outcome.splits if_splits)
  ultimately show ?thesis using obs by blast
qed

theorem reachable_no_panic_witness:
  "fst (claim demo_codec Flushed (demo_core ''xxxx'' (demo_with (Unknown 1 demo_why))) minute) = Inr None
   \<and> fst (observe minute_calendar demo_codec Flushed (demo_core ''xxxx'' (demo_with (Unknown 1 demo_why))) minute)
      \<noteq> Inl (Panic [])"
  using reachable_no_panic [OF demo_ok demo_running, of Flushed minute "[]"] by (simp add: demo_claim)

section \<open>Recovery\<close>

text \<open>Reopening a store turns every attempt that was running into one of unknown outcome and
  changes nothing else: no receipt is running afterwards, none becomes pending again, and the
  interrupted state is what is committed.\<close>

theorem recovery_interrupts:
  assumes "from_config cd w False (Inr (Some b)) l = Inr c" and "from_json cd b = Inr s"
  shows "btm_get (occurrences (state c)) k =
      map_option (\<lambda>oc. case occ_status oc of
          Running a \<Rightarrow> oc\<lparr>occ_status := Unknown a ''interrupted before durable completion''\<rparr>
        | _ \<Rightarrow> oc) (btm_get (occurrences s) k)
    \<and> schedules (state c) = schedules s \<and> watermark (state c) = watermark s \<and> next_id (state c) = next_id s
    \<and> to_json cd (state c) = Inr (the (persisted c))"
proof -
  have st: "state c = interrupt_state ''interrupted before durable completion'' s"
    and js: "to_json cd (state c) = Inr (the (persisted c))"
    using assms
    by (auto simp: from_config_def map_err_def commit_def split: sum.splits if_splits store_answer.splits)
  have "oc\<lparr>occ_status := interrupt_status ''interrupted before durable completion'' (occ_status oc)\<rparr> =
      (case occ_status oc of
         Running a \<Rightarrow> oc\<lparr>occ_status := Unknown a ''interrupted before durable completion''\<rparr>
       | _ \<Rightarrow> oc)" for oc
    by (cases "occ_status oc") simp_all
  then have "map_option (\<lambda>oc. oc\<lparr>occ_status := interrupt_status ''interrupted before durable completion'' (occ_status oc)\<rparr>) m = map_option (\<lambda>oc. case occ_status oc of
         Running a \<Rightarrow> oc\<lparr>occ_status := Unknown a ''interrupted before durable completion''\<rparr> | _ \<Rightarrow> oc) m" for m
    by (intro option.map_cong refl)
  then show ?thesis using js unfolding st by (simp add: get_interrupt)
qed

text \<open>Once a commit has left the store in doubt the instance is frozen: every further call hands
  out nothing and changes nothing, so dispatch stops until the store is reopened.\<close>

theorem poisoned_frozen:
  assumes "poisoned c"
  shows "apply_op cal cd op w c = (None, c) \<and> fst (commit cd w c s) = Inl (Err ''store is poisoned; reopen before continuing'')
    \<and> checkpoint cd c = Inl (Err ''store poisoned'')"
  using assms by (simp add: call_poisoned commit_def checkpoint_def)

section \<open>Slot selection\<close>

text \<open>The previous-occurrence search of a calendar whose slots are the set \<open>S\<close>.\<close>

definition walks :: "('cron, 'tz) calendar \<Rightarrow> 'cron \<Rightarrow> 'tz \<Rightarrow> time set \<Rightarrow> bool" where
  "walks cal cron tz S \<longleftrightarrow> (\<forall>t b u. find_previous_occurrence cal cron tz t b = Inr u \<longrightarrow>
     u \<in> S \<and> (u < t \<or> b \<and> u = t) \<and> (\<forall>x \<in> S. x < t \<or> b \<and> x = t \<longrightarrow> x \<le> u))"

definition wanted :: "time set \<Rightarrow> bool \<Rightarrow> nat \<Rightarrow> time \<Rightarrow> time \<Rightarrow> time set" where
  "wanted S skip grace now lo = {x \<in> S. lo \<le> x \<and> (skip \<longrightarrow> now - x \<le> seconds grace)}"

text \<open>\<open>ds\<close> is the newest part of \<open>D\<close>, of at most \<open>n\<close> elements, newest first.\<close>

definition newest :: "nat \<Rightarrow> time set \<Rightarrow> time list \<Rightarrow> bool" where
  "newest n D ds \<longleftrightarrow> sorted_wrt (>) ds \<and> set ds \<subseteq> D \<and> length ds \<le> n
     \<and> (\<forall>x \<in> D. x \<notin> set ds \<longrightarrow> length ds = n \<and> (\<forall>d \<in> set ds. x < d))"

lemma newest_Nil: "D = {} \<Longrightarrow> newest n D []"
  by (simp add: newest_def)

lemma newest_Cons:
  assumes "newest n {x \<in> D. x < d} ds" and "d \<in> D" and "\<And>x. x \<in> D \<Longrightarrow> x \<le> d"
  shows "newest (Suc n) D (d # ds)"
  using assms by (fastforce simp: newest_def)

lemma select_slots_newest:
  assumes w: "walks cal cron tz S"
    and "select_slots cal cron tz skip grace now lo n b t = Inr ds"
  shows "newest n {x \<in> wanted S skip grace now lo. x < t \<or> b \<and> x = t} ds"
  using assms(2)
proof (induction n arbitrary: b t ds)
  case 0
  then show ?case by (simp add: newest_def)
next
  case (Suc n)
  let ?W = "wanted S skip grace now lo"
  obtain d where d: "find_previous_occurrence cal cron tz t b = Inr d"
    using Suc.prems by (auto split: sum.splits)
  have dS: "d \<in> S" "d < t \<or> b \<and> d = t" and top: "\<And>x. x \<in> S \<Longrightarrow> x < t \<or> b \<and> x = t \<Longrightarrow> x \<le> d"
    using w d unfolding walks_def by blast+
  show ?case
  proof (cases "d < lo \<or> skip \<and> now - d > seconds grace")
    case True
    then have "ds = []" using Suc.prems d by (auto simp: map_err_def split: if_splits)
    moreover have "{x \<in> ?W. x < t \<or> b \<and> x = t} = {}"
      using True top by (fastforce simp: wanted_def)
    ultimately show ?thesis by (simp add: newest_Nil)
  next
    case False
    with Suc.prems d obtain rest where rest: "select_slots cal cron tz skip grace now lo n False d = Inr rest"
      and ds: "ds = d # rest"
      by (auto simp: map_err_def split: if_splits sum.splits)
    have sub: "{x \<in> {x \<in> ?W. x < t \<or> b \<and> x = t}. x < d} = {x \<in> ?W. x < d}" using dS(2) by auto
    show ?thesis
      unfolding ds
    proof (rule newest_Cons)
      show "newest n {x \<in> {x \<in> ?W. x < t \<or> b \<and> x = t}. x < d} rest"
        unfolding sub using Suc.IH [OF rest] by simp
    qed (use False dS top in \<open>auto simp: wanted_def\<close>)
  qed
qed

text \<open>C28. The slots admitted for a schedule are exactly the newest ones that are due: going back from
  the observation, at most as many as the policy's cap, none before the armed slot and, when missed
  runs are skipped, none older than the grace period; a due slot is left out only when the cap is
  used up by newer ones.\<close>

theorem select_slots_exact:
  assumes "walks cal cron tz S" and "select_slots cal cron tz skip grace now lo cap True now = Inr ds"
  shows "newest cap {x \<in> S. lo \<le> x \<and> x \<le> now \<and> (skip \<longrightarrow> now - x \<le> seconds grace)} ds"
proof -
  have "{x \<in> wanted S skip grace now lo. x < now \<or> True \<and> x = now}
      = {x \<in> S. lo \<le> x \<and> x \<le> now \<and> (skip \<longrightarrow> now - x \<le> seconds grace)}"
    by (auto simp: wanted_def)
  with select_slots_newest [OF assms] show ?thesis by simp
qed

lemma minute_walks: "walks minute_calendar () () {x. minute dvd x}"
proof -
  have *: "x \<le> t div minute * minute" if mult: "minute dvd x" and le: "x \<le> t" for x t
  proof -
    obtain k where x: "x = minute * k" using mult by (rule dvdE)
    then have "k \<le> t div minute"
      using le zdiv_mono1 [of x t minute] by simp
    then show ?thesis by (simp add: x mult.commute)
  qed
  have "(t - 1) div minute * minute < t" for t
    using minute_prev [of "t - 1"] by linarith
  moreover have "x \<le> (t - 1) div minute * minute" if "minute dvd x" "x < t" for x t
    using * [of x "t - 1"] that by linarith
  ultimately show ?thesis
    using minute_prev * by (auto simp: walks_def le_less split: if_splits)
qed

theorem select_slots_exact_witness:
  "select_slots minute_calendar () () False 5 (10 * minute) (7 * minute) 3 True (10 * minute)
     = Inr [10 * minute, 9 * minute, 8 * minute]
   \<and> newest 3 {x \<in> {x. minute dvd x}. 7 * minute \<le> x \<and> x \<le> 10 * minute \<and> (False \<longrightarrow> 10 * minute - x \<le> seconds 5)}
       [10 * minute, 9 * minute, 8 * minute]"
proof -
  have sel: "select_slots minute_calendar () () False 5 (10 * minute) (7 * minute) 3 True (10 * minute)
     = Inr [10 * minute, 9 * minute, 8 * minute]"
    by (simp add: numeral_3_eq_3 map_err_def minute_def)
  from select_slots_exact [OF minute_walks this] show ?thesis using sel by blast
qed

text \<open>Observing is idempotent and monotone in time: after an observation at an instant has been
  stored, observing again at the same or an earlier instant succeeds and changes nothing.\<close>

theorem observe_idempotent:
  assumes "observe cal cd w c now = (Inr (), c')" and "now' \<le> now"
  shows "observe cal cd w' c' now' = (Inr (), c')"
proof -
  have "\<not> poisoned c' \<and> (\<exists>m. watermark (state c') = Some m \<and> now \<le> m)"
    using assms(1)
    by (auto simp: observe_def split: if_splits option.splits sum.splits elim: commit_cases)
  with assms(2) show ?thesis by (auto simp: observe_def)
qed

section \<open>Dispatch order and progress\<close>

text \<open>Dispatch respects the queue: when a claim of a schedule that does not allow concurrent runs
  succeeds, every other unresolved receipt of that schedule is a later one, and none of them may be
  executing; the claimed receipt was pending and ready.\<close>

theorem claim_in_order:
  assumes "calendar_ok cal" "codec_ok cd" "limits_validate l = Inr ()"
    and "running (sys_run cal cd l es) = Some c"
    and "claim cd w c now = (Inr (Some iv), c')"
    and "btm_get (schedules (state c)) (inv_schedule iv) = Some sc"
    and "overlap_policy (def_policy (sched_def sc)) \<noteq> Concurrent"
    and "btm_get (occurrences (state c)) k = Some oc" "occ_schedule oc = inv_schedule iv"
    and "\<not> terminal (occ_status oc)" "k \<noteq> inv_occurrence iv"
  shows "inv_occurrence iv < k \<and> \<not> active (occ_status oc)
    \<and> (\<exists>mine. btm_get (occurrences (state c)) (inv_occurrence iv) = Some mine
          \<and> occ_status mine = Pending (inv_attempt iv) (ready_at (occ_status mine))
          \<and> ready_at (occ_status mine) \<le> now)"
proof -
  note inv = running_inv(1) [OF assms(1-4)]
  then have ids: "ids_ok (state c)" by (simp add: sched_inv_def)
  from inv assms(5) obtain mine where
    mine: "btm_get (occurrences (state c)) (occ_id mine) = Some mine"
    and el: "eligible (state c) now mine" and iv: "iv = invocation_of (state c) mine"
    by (rule claimed)
  have "inv_occurrence iv < k \<and> \<not> active (occ_status oc)"
    using el assms(6-11) unfolding iv eligible_def blocked_iff [OF ids] invocation_of_def
    by (auto split: option.splits) (metis linorder_neqE)
  with mine el show ?thesis by (auto simp: iv invocation_of_def eligible_def elim: is_pending.elims)
qed

text \<open>Two receipts of a queueing schedule: the run that claims the older one.\<close>

definition pair_receipt :: "u64 \<Rightarrow> time \<Rightarrow> status \<Rightarrow> occurrence" where
  "pair_receipt i due st = \<lparr>occ_id = i, occ_schedule = 1, due_at = due, occ_status = st\<rparr>"

definition pair_state :: "status \<Rightarrow> sched_state" where
  "pair_state st = demo_state (demo_schedule Queue (CatchUp 2) (3 * minute)) (Some (2 * minute)) 4
     [pair_receipt 2 minute st, pair_receipt 3 (2 * minute) (Pending 1 (2 * minute))]"

definition pair_created :: sched_state where
  "pair_created = demo_state (demo_schedule Queue (CatchUp 2) minute) None 2 []"

definition pair_codec :: codec where
  "pair_codec = table_codec [empty_state default_limits, pair_created,
     pair_state (Pending 1 (2 * minute)), pair_state (Running 1)]"

definition pair_events :: "event list" where
  "pair_events = [Reopen False Flushed, Call (Create (demo_def Queue (CatchUp 2)) 0) Flushed,
     Call (Observe (2 * minute)) Flushed]"

lemma pair_json:
  "to_json pair_codec (empty_state default_limits) = Inr []"
  "to_json pair_codec pair_created = Inr ''x''"
  "to_json pair_codec (pair_state (Pending 1 (2 * minute))) = Inr ''xx''"
  "to_json pair_codec (pair_state (Running 1)) = Inr ''xxx''"
  by (simp_all add: pair_codec_def table_codec_def upt_rec pair_created_def pair_state_def pair_receipt_def
      demo_state_def empty_state_def)

lemma pair_commit:
  "to_json pair_codec s' = Inr b' \<Longrightarrow>
   commit pair_codec Flushed (demo_core b s) s' = (Inr (), demo_core b' s')"
  by (simp add: commit_def demo_core_def map_err_def)

lemma pair_open:
  "from_config pair_codec Flushed False (Inr None) default_limits = Inr (demo_core [] (empty_state default_limits))"
  by (simp add: from_config_def map_err_def pair_json commit_def demo_core_def)

lemma pair_create:
  "create minute_calendar pair_codec Flushed (demo_core [] (empty_state default_limits))
     (demo_def Queue (CatchUp 2)) 0 = (Inr 1, demo_core ''x'' pair_created)"
proof -
  have "(empty_state default_limits)\<lparr>next_id := 2, schedules := [(1, \<lparr>sched_id = 1, sched_def = demo_def Queue (CatchUp 2),
           enabled = True, deleted = False, next_due = Some minute, rejected = 0\<rparr>)]\<rparr> = pair_created"
    by (simp add: pair_created_def demo_schedule_def demo_state_def empty_state_def)
  then show ?thesis by (simp add: create_def checked_add_def pair_commit pair_json)
qed

lemma pair_slots:
  "select_slots minute_calendar () () False 5 (2 * minute) minute 2 True (2 * minute) = Inr [2 * minute, minute]"
  by (simp add: numeral_2_eq_2 map_err_def minute_def)

lemma pair_observe:
  "observe minute_calendar pair_codec Flushed (demo_core ''x'' pair_created) (2 * minute)
     = (Inr (), demo_core ''xx'' (pair_state (Pending 1 (2 * minute))))"
proof -
  have "fold_res (observe_schedule minute_calendar (2 * minute)) (btm_keys (schedules pair_created)) pair_created
      = Inr ((pair_state (Pending 1 (2 * minute)))\<lparr>watermark := None\<rparr>)"
    by (simp add: observe_schedule_def pair_created_def pair_state_def demo_schedule_def demo_state_def
        pair_receipt_def admit_slot_def checked_add_def outstanding_def evict_def btm_modify_def Let_def
        pair_slots)
  moreover have "watermark pair_created = None" "(pair_state st)\<lparr>watermark := Some (2 * minute)\<rparr> = pair_state st" for st
    by (simp_all add: pair_created_def pair_state_def demo_state_def)
  ultimately show ?thesis by (simp add: observe_def pair_commit pair_json)
qed

lemma pair_running:
  "running (sys_run minute_calendar pair_codec default_limits pair_events)
     = Some (demo_core ''xx'' (pair_state (Pending 1 (2 * minute))))"
  by (simp add: sys_run_def pair_events_def initial_sys_def pair_open pair_create pair_observe)

lemma pair_codec_ok: "codec_ok pair_codec"
  by (simp add: pair_codec_def table_codec_ok)

lemmas pair_ok = minute_calendar_ok pair_codec_ok demo_limits

lemma pair_find:
  "find (eligible (pair_state (Pending 1 (2 * minute))) (2 * minute)) (btm_values (occurrences (pair_state (Pending 1 (2 * minute)))))
     = Some (pair_receipt 2 minute (Pending 1 (2 * minute)))"
  "active_count (pair_state (Pending 1 (2 * minute))) = 0"
  "set_status 2 st' (pair_state st) = pair_state st'"
  "limits_of (pair_state st) = default_limits"
  "btm_get (schedules (pair_state st)) 1 = Some (demo_schedule Queue (CatchUp 2) (3 * minute))"
  "btm_get (occurrences (pair_state st)) 3 = Some (pair_receipt 3 (2 * minute) (Pending 1 (2 * minute)))"
  by (simp_all add: pair_state_def demo_state_def pair_receipt_def eligible_def demo_schedule_def blocked_def
      active_count_def set_status_def btm_modify_def)

lemma pair_inv: "sched_inv (pair_state (Pending 1 (2 * minute)))"
  using running_inv(1) [OF pair_ok pair_running] by simp

lemma pair_invocation:
  "invocation_of (pair_state st) (pair_receipt 2 minute (Pending 1 (2 * minute)))
     = \<lparr>inv_occurrence = 2, inv_schedule = 1, inv_due = minute, inv_attempt = 1, inv_code = ''run()''\<rparr>"
  by (simp add: invocation_of_def pair_receipt_def pair_find) (simp add: demo_def_def)

lemma pair_claim:
  "claim pair_codec Flushed (demo_core ''xx'' (pair_state (Pending 1 (2 * minute)))) (2 * minute)
     = (Inr (Some \<lparr>inv_occurrence = 2, inv_schedule = 1, inv_due = minute, inv_attempt = 1, inv_code = ''run()''\<rparr>),
        demo_core ''xxx'' (pair_state (Running 1)))"
proof -
  have "occ_id (pair_receipt 2 minute st) = 2" "occ_status (pair_receipt 2 minute st) = st" for st
    by (simp_all add: pair_receipt_def)
  then show ?thesis
    by (simp add: claim_eq pair_inv pair_find pair_invocation pair_commit pair_json)
qed

text \<open>C29. Dispatch makes progress: when a receipt is ready and allowed to run, a slot of the running
  limit is free and the store accepts the commit, a claim hands out the first such receipt in
  identity order and records it as running.\<close>

theorem claim_progress:
  assumes "calendar_ok cal" "codec_ok cd" "limits_validate l = Inr ()"
    and "running (sys_run cal cd l es) = Some c" and healthy: "\<not> poisoned c"
    and room: "active_count (state c) < lim_running l"
    and oc: "btm_get (occurrences (state c)) k = Some oc" and ready: "eligible (state c) now oc"
    and json: "\<And>k' oc'. btm_get (occurrences (state c)) k' = Some oc' \<Longrightarrow> eligible (state c) now oc' \<Longrightarrow>
        \<exists>b. to_json cd (set_status k' (Running (attempt (occ_status oc'))) (state c)) = Inr b"
  shows "\<exists>iv c'. claim cd Flushed c now = (Inr (Some iv), c') \<and> inv_occurrence iv \<le> k
    \<and> (\<forall>k' oc'. btm_get (occurrences (state c)) k' = Some oc' \<longrightarrow> eligible (state c) now oc' \<longrightarrow>
          inv_occurrence iv \<le> k')
    \<and> map_option occ_status (btm_get (occurrences (state c')) (inv_occurrence iv)) = Some (Running (inv_attempt iv))"
proof -
  note inv = running_inv [OF assms(1-4)]
  then have ok: "btm_ok (occurrences (state c))" and ids: "ids_ok (state c)"
    by (auto simp: sched_inv_def ids_ok_def)
  obtain first where f: "find (eligible (state c) now) (btm_values (occurrences (state c))) = Some first"
    using oc ready btm_values_get [OF ok] by (cases "find (eligible (state c) now) (btm_values (occurrences (state c)))")
      (auto simp: find_None_iff)
  then have mem: "first \<in> set (btm_values (occurrences (state c)))" by (auto simp: find_Some_iff)
  note own = receipt_values(2) [OF inv(1) mem]
  have least: "occ_id first \<le> k'" if "btm_get (occurrences (state c)) k' = Some oc'" "eligible (state c) now oc'" for k' oc'
  proof -
    have "find (\<lambda>e. eligible (state c) now (snd e)) (occurrences (state c)) = Some (occ_id first, first)"
    proof -
      obtain j where j: "find (\<lambda>e. eligible (state c) now (snd e)) (occurrences (state c)) = Some (j, first)"
        using btm_find_values [OF f] by blast
      with btm_find_get(1) [OF ok j] ids show ?thesis by (auto simp: ids_ok_def)
    qed
    from btm_find_get(3) [OF ok this that] show ?thesis .
  qed
  obtain b where b: "to_json cd (set_status (occ_id first) (Running (attempt (occ_status first))) (state c)) = Inr b"
    using json [OF own] f by (auto simp: find_Some_iff)
  have "\<exists>c'. commit cd Flushed c (set_status (occ_id first) (Running (attempt (occ_status first))) (state c)) = (Inr (), c')
      \<and> state c' = set_status (occ_id first) (Running (attempt (occ_status first))) (state c)"
    using healthy b by (simp add: commit_def map_err_def)
  then obtain c' where c': "claim cd Flushed c now = (Inr (Some (invocation_of (state c) first)), c')"
    "state c' = set_status (occ_id first) (Running (attempt (occ_status first))) (state c)"
    using healthy room f inv(2) by (auto simp: claim_eq [OF inv(1)])
  then show ?thesis
    using own least [OF oc ready] least by (auto simp: invocation_of_def get_set_status)
qed

theorem claim_progress_witness:
  "\<exists>iv c'. claim pair_codec Flushed (demo_core ''xx'' (pair_state (Pending 1 (2 * minute)))) (2 * minute) = (Inr (Some iv), c')
     \<and> inv_occurrence iv \<le> 2"
proof -
  let ?s = "pair_state (Pending 1 (2 * minute))"
  have el: "eligible ?s (2 * minute) oc \<Longrightarrow> btm_get (occurrences ?s) k = Some oc \<Longrightarrow> k = 2 \<and> attempt (occ_status oc) = 1" for k oc
    by (auto simp: pair_state_def demo_state_def pair_receipt_def eligible_def demo_schedule_def blocked_def split: if_splits)
  have g: "btm_get (occurrences (state (demo_core ''xx'' ?s))) 2 = Some (pair_receipt 2 minute (Pending 1 (2 * minute)))"
    by (simp add: pair_state_def demo_state_def pair_receipt_def)
  have e: "eligible (state (demo_core ''xx'' ?s)) (2 * minute) (pair_receipt 2 minute (Pending 1 (2 * minute)))"
    using pair_find(1) by (auto simp: find_Some_iff)
  have js: "\<exists>b. to_json pair_codec (set_status k' (Running (attempt (occ_status oc'))) (state (demo_core ''xx'' ?s))) = Inr b"
    if "btm_get (occurrences (state (demo_core ''xx'' ?s))) k' = Some oc'" "eligible (state (demo_core ''xx'' ?s)) (2 * minute) oc'" for k' oc'
    using el [of oc' k'] that by (simp add: pair_find pair_json)
  have "active_count (state (demo_core ''xx'' ?s)) < lim_running default_limits" by (simp add: pair_find)
  from claim_progress [OF pair_ok pair_running _ this g e js] show ?thesis by fastforce
qed

section \<open>Retries\<close>

text \<open>A failed attempt is retried within the schedule's budget and never beyond it: the receipt of
  a running attempt goes back to pending under the next attempt number (which does not wrap and is at
  most 101) when the number is within the retry limit, due after the retry delay, and is failed with
  a truncated detail otherwise.\<close>

theorem finish_failed_retries:
  assumes "calendar_ok cal" "codec_ok cd" "limits_validate l = Inr ()"
    and "running (sys_run cal cd l es) = Some c"
    and oc: "btm_get (occurrences (state c)) (inv_occurrence iv) = Some oc"
    and run: "occ_status oc = Running (inv_attempt iv)"
    and "occ_schedule oc = inv_schedule iv" "due_at oc = inv_due iv"
    and sc: "btm_get (schedules (state c)) (inv_schedule iv) = Some sc"
    and fin: "finish cal cd w c iv (OFailed m) now = (Inr (), c')"
  shows "if inv_attempt iv \<le> max_retries (retry_policy (def_policy (sched_def sc)))
     then unat (inv_attempt iv + 1) = unat (inv_attempt iv) + 1 \<and> unat (inv_attempt iv + 1) \<le> 101
       \<and> (\<exists>t. checked_add_signed cal now (seconds (unat (delay_seconds (retry_policy (def_policy (sched_def sc)))))) = Some t
            \<and> btm_get (occurrences (state c')) (inv_occurrence iv) = Some (oc\<lparr>occ_status := Pending (inv_attempt iv + 1) t\<rparr>))
     else btm_get (occurrences (state c')) (inv_occurrence iv) = Some (oc\<lparr>occ_status := Failed (inv_attempt iv) (detail m)\<rparr>)
       \<and> chars_count (detail m) \<le> 1024"
proof -
  let ?r = "retry_policy (def_policy (sched_def sc))"
  note inv = running_inv(1) [OF assms(1-4)]
  from fin oc run sc assms(7,8) obtain st where st: "finish_status cal ?r False (inv_attempt iv) (OFailed m) now = Inr st"
    and cm: "commit cd w c (set_status (inv_occurrence iv) st (state c)) = (Inr (), c')"
    by (auto simp: finish_def split: sum.splits)
  from cm have "state c' = set_status (inv_occurrence iv) st (state c)" by (auto elim: commit_cases)
  then have get: "btm_get (occurrences (state c')) (inv_occurrence iv) = Some (oc\<lparr>occ_status := st\<rparr>)"
    using oc by (simp add: get_set_status)
  have "unat (max_retries ?r) \<le> 100"
    using retry_budget(2) [OF inv oc] sc assms(7) by simp
  with retry_attempt [of "inv_attempt iv" "max_retries ?r"]
  have "inv_attempt iv \<le> max_retries ?r \<Longrightarrow> unat (inv_attempt iv + 1) = unat (inv_attempt iv) + 1 \<and> unat (inv_attempt iv + 1) \<le> 101"
    by simp
  with st get show ?thesis
    by (auto simp: finish_status_def detail_def chars_take_bound split: if_splits option.splits)
qed

definition demo_failing_events :: "event list" where
  "demo_failing_events = take 4 demo_events"

lemma demo_failing_running:
  "running (sys_run minute_calendar demo_codec default_limits demo_failing_events)
     = Some (demo_core ''xxx'' (demo_with (Running 1)))"
  by (simp add: demo_failing_events_def sys_run_def demo_events_def initial_sys_def demo_open demo_create
      demo_observe demo_claim)

definition demo_invocation :: invocation where
  "demo_invocation = \<lparr>inv_occurrence = 2, inv_schedule = 1, inv_due = minute, inv_attempt = 1, inv_code = ''run()''\<rparr>"

lemma demo_finish:
  "finish minute_calendar demo_codec Flushed (demo_core ''xxx'' (demo_with (Running 1))) demo_invocation (OFailed ''e'') minute
     = (Inr (), demo_core ''xxxxx'' (demo_with (Pending 2 (minute + seconds 30))))"
proof -
  have "set_status 2 st' (demo_with st) = demo_with st'" for st st'
    by (simp add: set_status_def demo_with_def demo_state_def demo_receipt_def btm_modify_def)
  moreover have "finish_status minute_calendar \<lparr>max_retries = 2, delay_seconds = 30\<rparr> False 1 (OFailed ''e'') minute
      = Inr (Pending 2 (minute + seconds 30))"
    by (simp add: finish_status_def minute_calendar_def)
  moreover have "due_at (demo_receipt st) = minute" for st by (simp add: demo_receipt_def)
  ultimately show ?thesis
    by (simp add: finish_def demo_invocation_def demo_commit demo_json)
qed

section \<open>Receipts are kept\<close>

definition fresh_ids :: "sched_state \<Rightarrow> bool" where
  "fresh_ids s \<longleftrightarrow> btm_ok (occurrences s) \<and> (\<forall>k oc. btm_get (occurrences s) k = Some oc \<longrightarrow> k < next_id s)"

definition keeps_unresolved :: "sched_state \<Rightarrow> sched_state \<Rightarrow> bool" where
  "keeps_unresolved s t \<longleftrightarrow> (fresh_ids s \<longrightarrow> fresh_ids t
     \<and> (\<forall>k oc. btm_get (occurrences s) k = Some oc \<longrightarrow> \<not> terminal (occ_status oc) \<longrightarrow>
          btm_get (occurrences t) k = Some oc))"

lemma keeps_trans: "keeps_unresolved s t \<Longrightarrow> keeps_unresolved t u \<Longrightarrow> keeps_unresolved s u"
  by (auto simp: keeps_unresolved_def)

lemma keeps_frame:
  "occurrences t = occurrences s \<Longrightarrow> next_id t = next_id s \<Longrightarrow> keeps_unresolved s t"
  by (auto simp: keeps_unresolved_def fresh_ids_def)

lemma keeps_evict:
  assumes "evict s = Some t"
  shows "keeps_unresolved s t"
proof -
  have "terminal (occ_status oc)" if "fresh_ids s" "btm_get (occurrences s) k = Some oc"
    "find (\<lambda>e. terminal (occ_status (snd e))) (occurrences s) = Some (k, x)" for k oc x
    using that btm_find_get(1,2) [of "occurrences s" "\<lambda>oc. terminal (occ_status oc)" k x]
    by (simp add: fresh_ids_def)
  with assms show ?thesis
    by (auto simp: evict_def keeps_unresolved_def btm_get_remove split: if_splits option.splits)
      (auto simp: fresh_ids_def btm_ok_remove btm_get_remove)
qed

lemma keeps_record:
  assumes "checked_add (next_id s) 1 = Some n"
  shows "keeps_unresolved s (s\<lparr>next_id := n, occurrences := btm_insert (next_id s) oc (occurrences s)\<rparr>)"
  using checked_add_Some(2) [OF assms]
  by (auto simp: keeps_unresolved_def fresh_ids_def btm_get_insert btm_ok_insert dest: order.strict_trans)

lemma keeps_admit:
  assumes "admit_slot now i ov due s = Inr t"
  shows "keeps_unresolved s t"
  using assms
  by (auto simp: admit_slot_def bump_rejected_def intro: keeps_frame keeps_trans [OF keeps_evict keeps_record]
      split: if_splits option.splits)

lemma keeps_fold:
  "fold_res f xs s = Inr t \<Longrightarrow> (\<And>x s t. f x s = Inr t \<Longrightarrow> keeps_unresolved s t) \<Longrightarrow> keeps_unresolved s t"
  by (rule fold_res_invariant [where I = "keeps_unresolved s"]) (auto intro: keeps_trans keeps_frame)

lemma keeps_observe:
  assumes "observe_schedule cal now i s = Inr t"
  shows "keeps_unresolved s t"
  using assms
proof (cases rule: observe_schedule_cases)
  case (live sc lo cron tz nxt ds)
  have "keeps_unresolved (s\<lparr>schedules := btm_modify i (\<lambda>x. x\<lparr>next_due := Some nxt\<rparr>) (schedules s)\<rparr>) t"
    using live(8) by (rule keeps_fold) (rule keeps_admit)
  then show ?thesis by (rule keeps_trans [rotated]) (simp add: keeps_frame)
qed (simp_all add: keeps_frame)

text \<open>Observing never loses work: whatever an observation admits, rejects or evicts, a receipt that
  is not resolved yet is still there afterwards, unchanged; only terminal receipts are evicted.\<close>

theorem observe_keeps_unresolved:
  assumes "calendar_ok cal" "codec_ok cd" "limits_validate l = Inr ()"
    and "running (sys_run cal cd l es) = Some c"
    and oc: "btm_get (occurrences (state c)) k = Some oc" "\<not> terminal (occ_status oc)"
  shows "btm_get (occurrences (state (snd (observe cal cd w c now)))) k = Some oc"
proof -
  have "fresh_ids (state c)"
    using running_inv(1) [OF assms(1-4)] by (auto simp: sched_inv_def ids_ok_def fresh_ids_def)
  moreover have "keeps_unresolved (state c) t"
    if "fold_res (observe_schedule cal now) (btm_keys (schedules (state c))) (state c) = Inr t" for t
    using that by (rule keeps_fold) (rule keeps_observe)
  ultimately have "btm_get (occurrences t) k = Some oc"
    if "fold_res (observe_schedule cal now) (btm_keys (schedules (state c))) (state c) = Inr t" for t
    using that oc by (auto simp: keeps_unresolved_def)
  moreover have "btm_get (occurrences (state (snd (commit cd w c s)))) k = Some oc"
    if "btm_get (occurrences s) k = Some oc" for s
    using that oc(1) commit_state [of cd w c s] by auto
  ultimately show ?thesis
    using oc by (auto simp: observe_def split: sum.splits option.splits)
qed

text \<open>A checkpoint restores the state it was taken from: loading what \<open>checkpoint\<close> returned, under
  the same limits, gives an instance with the same schedules, receipts, clock and counter, or with
  its running attempts marked as interrupted when asked to recover.\<close>

theorem checkpoint_round_trip:
  assumes "calendar_ok cal" "codec_ok cd" "limits_validate l = Inr ()"
    and "running (sys_run cal cd l es) = Some c" and "checkpoint cd c = Inr text"
  shows "\<exists>c'. from_checkpoint cd w (Some text) l recover = Inr c' \<and> \<not> poisoned c'
    \<and> state c' = (if recover then interrupt_state ''runner interrupted before durable completion'' (state c) else state c)"
proof -
  have "from_json cd text = Inr (state c)"
    using assms(2,5) by (auto simp: checkpoint_def codec_ok_def split: if_splits)
  with running_inv(2,3) [OF assms(1-4)] assms(3) show ?thesis
    by (simp add: from_checkpoint_def Let_def map_err_def commit_def interrupt_running_def)
qed

end
