(* ===== verification/Fs_Tree.thy ===== *)
theory Fs_Tree
  imports BTree_Map "HOL-Library.Char_ord" "HOL-Library.List_Lexorder"
begin

text \<open>
  The data of the snapshottable filesystem (\<open>src/server/src/engine/fs_tree.rs\<close> and the data types of
  \<open>fs_store.rs\<close>): paths and their components, file entries, directory nodes, and the names under
  which blobs are stored. A \<open>Path\<close> is the sequence of its components, which is what equality,
  ordering and hashing of paths in the standard library are about.
\<close>

section \<open>Paths\<close>

datatype component = RootDir | CurDir | ParentDir | Normal string

type_synonym path = "component list"

fun component_rank :: "component \<Rightarrow> nat" where
  "component_rank RootDir = 0"
| "component_rank CurDir = 1"
| "component_rank ParentDir = 2"
| "component_rank (Normal _) = 3"

instantiation component :: linorder
begin

fun less_eq_component :: "component \<Rightarrow> component \<Rightarrow> bool" where
  "Normal a \<le> Normal b \<longleftrightarrow> a \<le> b"
| "a \<le> b \<longleftrightarrow> component_rank a \<le> component_rank b"

definition less_component :: "component \<Rightarrow> component \<Rightarrow> bool" where
  "less_component a b \<longleftrightarrow> a \<le> b \<and> \<not> b \<le> a"

instance
proof
  fix a b c :: component
  show "a < b \<longleftrightarrow> a \<le> b \<and> \<not> b \<le> a" by (simp add: less_component_def)
  show "a \<le> a" by (cases a) simp_all
  show "a \<le> c" if "a \<le> b" "b \<le> c" using that by (cases a; cases b; cases c) auto
  show "a = b" if "a \<le> b" "b \<le> a" using that by (cases a; cases b) auto
  show "a \<le> b \<or> b \<le> a" by (cases a; cases b) auto
qed

end

text \<open>A path's component names: \<open>..\<close> pops, everything else that is not a name is skipped.\<close>

fun push_component :: "component \<Rightarrow> string list \<Rightarrow> string list" where
  "push_component (Normal s) acc = acc @ [s]"
| "push_component ParentDir acc = butlast acc"
| "push_component CurDir acc = acc"
| "push_component RootDir acc = acc"

definition components_of :: "path \<Rightarrow> string list" where
  "components_of p = fold push_component p []"

definition path_of :: "string list \<Rightarrow> path" where
  "path_of comps = fold (\<lambda>c p. p @ [Normal c]) comps []"

lemma path_of_map: "path_of cs = map Normal cs"
proof -
  have "fold (\<lambda>c p. p @ [Normal c]) cs acc = acc @ map Normal cs" for acc
    by (induction cs arbitrary: acc) simp_all
  then show ?thesis by (simp add: path_of_def)
qed

lemma components_of_path_of [simp]: "components_of (path_of cs) = cs"
proof -
  have "fold push_component (map Normal cs) acc = acc @ cs" for acc
    by (induction cs arbitrary: acc) simp_all
  then show ?thesis by (simp add: components_of_def path_of_map)
qed

lemma path_of_eq_iff [simp]: "path_of a = path_of b \<longleftrightarrow> a = b"
  by (metis components_of_path_of)

lemma path_of_Nil [simp]: "path_of [] = []" and path_of_eq_Nil [simp]: "path_of cs = [] \<longleftrightarrow> cs = []"
  by (simp_all add: path_of_map)

lemma path_of_append: "path_of (a @ b) = path_of a @ path_of b"
  by (simp add: path_of_map)

definition component_text :: "component \<Rightarrow> string" where
  "component_text c = (case c of Normal s \<Rightarrow> s | ParentDir \<Rightarrow> ''..'' | CurDir \<Rightarrow> ''.'' | RootDir \<Rightarrow> ''/'')"

fun join_components :: "path \<Rightarrow> string" where
  "join_components [] = []"
| "join_components [c] = component_text c"
| "join_components (c # cs) = component_text c @ ''/'' @ join_components cs"

text \<open>\<open>Path::display\<close>, for a path in normal form.\<close>

definition path_display :: "path \<Rightarrow> string" where
  "path_display p = (case p of RootDir # q \<Rightarrow> ''/'' @ join_components q | _ \<Rightarrow> join_components p)"

section \<open>Entries and nodes\<close>

type_synonym bytes = "byte list"
type_synonym hash = "byte list"

datatype content = Inline bytes | Chunks "hash list"

record entry =
  mode_of :: u32
  size_of :: u64
  content_of :: content
  symlink_of :: "path option"

record tree_child =
  tc_file :: "entry option"
  tc_dir :: "hash option"

definition no_child :: tree_child where
  "no_child = \<lparr>tc_file = None, tc_dir = None\<rparr>"

definition child_is_empty :: "tree_child \<Rightarrow> bool" where
  "child_is_empty c \<longleftrightarrow> tc_file c = None \<and> tc_dir c = None"

record tree_node =
  children :: "(string, tree_child) btm"

definition empty_node :: tree_node where
  "empty_node = \<lparr>children = []\<rparr>"

section \<open>Blob names\<close>

definition hex_digit :: "nat \<Rightarrow> char" where
  "hex_digit n = (''0123456789abcdef'' ! n)"

fun hex :: "bytes \<Rightarrow> string" where
  "hex [] = []"
| "hex (b # bs) = hex_digit (unat b div 16) # hex_digit (unat b mod 16) # hex bs"

definition tree_key :: "hash \<Rightarrow> string" where
  "tree_key h = ''fstree:'' @ hex h"

definition chunk_key :: "hash \<Rightarrow> string" where
  "chunk_key h = ''fschunk:'' @ hex h"

lemma byte_less: "unat (b :: byte) < 256"
  using unsigned_less [of b] by simp

lemma hex_digit_inj: "m < 16 \<Longrightarrow> n < 16 \<Longrightarrow> hex_digit m = hex_digit n \<Longrightarrow> m = n"
  unfolding hex_digit_def by (subst (asm) nth_eq_iff_index_eq) simp_all

lemma hex_inject [simp]: "hex a = hex b \<longleftrightarrow> a = b"
proof
  show "a = b" if "hex a = hex b"
    using that
  proof (induction a arbitrary: b)
    case Nil
    then show ?case by (cases b) simp_all
  next
    case (Cons x a)
    from Cons.prems obtain y b' where b: "b = y # b'" by (cases b) simp_all
    have "unat x div 16 = unat y div 16" "unat x mod 16 = unat y mod 16"
      using Cons.prems byte_less [of x] byte_less [of y] unfolding b
      by (auto intro!: hex_digit_inj)
    then have "unat x = unat y" by (metis div_mult_mod_eq)
    then have "x = y" by (simp add: word_unat_eq_iff)
    with Cons b show ?case by simp
  qed
qed simp

lemma tree_key_inject [simp]: "tree_key a = tree_key b \<longleftrightarrow> a = b"
  and chunk_key_inject [simp]: "chunk_key a = chunk_key b \<longleftrightarrow> a = b"
  and tree_chunk_key [simp]: "tree_key a \<noteq> chunk_key b" "chunk_key b \<noteq> tree_key a"
  by (simp_all add: tree_key_def chunk_key_def)

end
