(* ===== verification/Fs_Store.thy ===== *)
theory Fs_Store
  imports Fs_Tree
begin

text \<open>
  The content-addressed object store (\<open>src/server/src/engine/fs_store.rs\<close>, tree part): the node cache,
  loading and storing tree nodes, lazy path resolution, the subtree walk, and rebuilding a tree from a
  base and a list of changes. The backend is a map from blob names to bytes.

  blake3, bincode, zstd and FastCDC are not part of the repository and are the fields of \<open>fs_env\<close>.
  \<open>get_node\<close> and \<open>put_node\<close> are given with the shared node cache; \<open>get_node_transparent\<close> and
  \<open>put_node_transparent\<close> show that a coherent cache is invisible, and the operations below use the
  uncached \<open>fetch\<close> and \<open>store_node\<close>.
\<close>

section \<open>The outside\<close>

record fs_env =
  blake3 :: "bytes \<Rightarrow> hash"
  bin_ser :: "tree_node \<Rightarrow> string + bytes"
  bin_de :: "bytes \<Rightarrow> string + tree_node"
  zstd_encode :: "bytes \<Rightarrow> bytes option"
  zstd_decode :: "bytes \<Rightarrow> string + bytes"
  fastcdc :: "bytes \<Rightarrow> (nat \<times> nat) list"

type_synonym blobs = "string \<rightharpoonup> bytes"

text \<open>The hash has no collisions, and the encoding of a node can be written and read back.\<close>

definition env_ok :: "fs_env \<Rightarrow> bool" where
  "env_ok env \<longleftrightarrow> inj (blake3 env) \<and> (\<forall>n. \<exists>b. bin_ser env n = Inr b \<and> bin_de env b = Inr n)"

section \<open>The node cache\<close>

record node_cache =
  nc_map :: "hash \<rightharpoonup> tree_node"
  nc_order :: "hash list"
  nc_cap :: nat

definition cache_new :: "nat \<Rightarrow> node_cache" where
  "cache_new cap = \<lparr>nc_map = Map.empty, nc_order = [], nc_cap = cap\<rparr>"

definition cache_get :: "node_cache \<Rightarrow> hash \<Rightarrow> tree_node option" where
  "cache_get c i = nc_map c i"

text \<open>The eviction loop: pop from the front while the queue is over capacity.\<close>

fun cache_trim :: "hash \<Rightarrow> nat \<Rightarrow> hash list \<Rightarrow> (hash \<rightharpoonup> tree_node) \<Rightarrow> hash list \<times> (hash \<rightharpoonup> tree_node)" where
  "cache_trim i cap [] m = ([], m)"
| "cache_trim i cap (old # order) m =
     (if length (old # order) > cap
      then cache_trim i cap order (if old \<noteq> i then m(old := None) else m)
      else (old # order, m))"

definition cache_put :: "hash \<Rightarrow> tree_node \<Rightarrow> node_cache \<Rightarrow> node_cache" where
  "cache_put i node c =
     (if nc_map c i = None
      then (case cache_trim i (nc_cap c) (nc_order c @ [i]) ((nc_map c)(i \<mapsto> node)) of
              (order, m) \<Rightarrow> c\<lparr>nc_map := m, nc_order := order\<rparr>)
      else c\<lparr>nc_map := (nc_map c)(i \<mapsto> node)\<rparr>)"

record fs_store =
  blobs_of :: blobs
  nodes_of :: node_cache

definition get_node :: "fs_env \<Rightarrow> fs_store \<Rightarrow> hash \<Rightarrow> tree_node result \<times> fs_store" where
  "get_node env st i =
     (case cache_get (nodes_of st) i of
        Some n \<Rightarrow> (Inr n, st)
      | None \<Rightarrow>
         (case blobs_of st (tree_key i) of
            None \<Rightarrow> (Inl (Err (''get tree node: not found: '' @ tree_key i)), st)
          | Some b \<Rightarrow>
             (case bin_de env b of
                Inl e \<Rightarrow> (Inl (Err e), st)
              | Inr n \<Rightarrow> (Inr n, st\<lparr>nodes_of := cache_put i n (nodes_of st)\<rparr>))))"

definition put_node :: "fs_env \<Rightarrow> fs_store \<Rightarrow> tree_node \<Rightarrow> hash result \<times> fs_store" where
  "put_node env st node =
     (case bin_ser env node of
        Inl e \<Rightarrow> (Inl (Err e), st)
      | Inr b \<Rightarrow>
          (let i = blake3 env b in
           (Inr i, st\<lparr>blobs_of := (blobs_of st)(tree_key i \<mapsto> b),
                     nodes_of := cache_put i node (nodes_of st)\<rparr>)))"

text \<open>The same without the cache.\<close>

definition fetch :: "fs_env \<Rightarrow> blobs \<Rightarrow> hash \<Rightarrow> tree_node result" where
  "fetch env bs i =
     (case bs (tree_key i) of
        None \<Rightarrow> Inl (Err (''get tree node: not found: '' @ tree_key i))
      | Some b \<Rightarrow> (case bin_de env b of Inl e \<Rightarrow> Inl (Err e) | Inr n \<Rightarrow> Inr n))"

definition store_node :: "fs_env \<Rightarrow> blobs \<Rightarrow> tree_node \<Rightarrow> hash result \<times> blobs" where
  "store_node env bs node =
     (case bin_ser env node of
        Inl e \<Rightarrow> (Inl (Err e), bs)
      | Inr b \<Rightarrow> (Inr (blake3 env b), bs(tree_key (blake3 env b) \<mapsto> b)))"

section \<open>Path resolution\<close>

fun resolve_from :: "fs_env \<Rightarrow> blobs \<Rightarrow> hash \<Rightarrow> string list \<Rightarrow> tree_child option result" where
  "resolve_from env bs h [] = Inr None"
| "resolve_from env bs h (name # rest) =
     (case fetch env bs h of
        Inl e \<Rightarrow> Inl e
      | Inr node \<Rightarrow>
         (case btm_get (children node) name of
            None \<Rightarrow> Inr None
          | Some child \<Rightarrow>
             (if rest = [] then Inr (Some child)
              else (case tc_dir child of
                      None \<Rightarrow> Inr None
                    | Some d \<Rightarrow> resolve_from env bs d rest))))"

definition resolve :: "fs_env \<Rightarrow> blobs \<Rightarrow> hash option \<Rightarrow> string list \<Rightarrow> tree_child option result" where
  "resolve env bs root comps =
     (case root of
        None \<Rightarrow> Inr None
      | Some r \<Rightarrow>
          if comps = [] then Inr (Some \<lparr>tc_file = None, tc_dir = Some r\<rparr>)
          else resolve_from env bs r comps)"

definition resolve_file :: "fs_env \<Rightarrow> blobs \<Rightarrow> hash option \<Rightarrow> string list \<Rightarrow> entry option result" where
  "resolve_file env bs root comps =
     (case resolve env bs root comps of
        Inl e \<Rightarrow> Inl e
      | Inr c \<Rightarrow> Inr (Option.bind c tc_file))"

definition dir_node_at :: "fs_env \<Rightarrow> blobs \<Rightarrow> hash option \<Rightarrow> string list \<Rightarrow> tree_node option result" where
  "dir_node_at env bs root comps =
     (case root of
        None \<Rightarrow> Inr None
      | Some r \<Rightarrow>
         (if comps = []
          then (case fetch env bs r of Inl e \<Rightarrow> Inl e | Inr n \<Rightarrow> Inr (Some n))
          else (case resolve env bs (Some r) comps of
                  Inl e \<Rightarrow> Inl e
                | Inr None \<Rightarrow> Inr None
                | Inr (Some c) \<Rightarrow>
                   (case tc_dir c of
                      None \<Rightarrow> Inr None
                    | Some d \<Rightarrow> (case fetch env bs d of Inl e \<Rightarrow> Inl e | Inr n \<Rightarrow> Inr (Some n))))))"

section \<open>Walking a subtree\<close>

text \<open>
  The loop body shared by \<open>list_subtree\<close> and \<open>get_manifest\<close>: the files of one node, and the
  subdirectories to push, loaded as they are pushed.
\<close>

fun visit_children ::
  "fs_env \<Rightarrow> blobs \<Rightarrow> string list \<Rightarrow> (string \<times> tree_child) list
   \<Rightarrow> ((string list \<times> entry) list \<times> (string list \<times> tree_node) list) result" where
  "visit_children env bs prefix [] = Inr ([], [])"
| "visit_children env bs prefix ((name, child) # cs) =
     (case (case tc_dir child of
              None \<Rightarrow> Inr []
            | Some d \<Rightarrow> (case fetch env bs d of Inl e \<Rightarrow> Inl e | Inr n \<Rightarrow> Inr [(prefix @ [name], n)])) of
        Inl e \<Rightarrow> Inl e
      | Inr push \<Rightarrow>
         (case visit_children env bs prefix cs of
            Inl e \<Rightarrow> Inl e
          | Inr (found, pushes) \<Rightarrow>
              Inr ((case tc_file child of None \<Rightarrow> [] | Some e \<Rightarrow> [(prefix @ [name], e)]) @ found,
                   push @ pushes)))"

text \<open>The \<open>while let Some(..) = stack.pop()\<close> loop; the first argument bounds the number of pops.\<close>

fun walk ::
  "nat \<Rightarrow> fs_env \<Rightarrow> blobs \<Rightarrow> (string list \<times> tree_node) list \<Rightarrow> (string list \<times> entry) list
   \<Rightarrow> (string list \<times> entry) list result option" where
  "walk fuel env bs [] found = Some (Inr found)"
| "walk 0 env bs (n # stack) found = None"
| "walk (Suc fuel) env bs ((prefix, node) # stack) found =
     (case visit_children env bs prefix (children node) of
        Inl e \<Rightarrow> Some (Inl e)
      | Inr (new, pushes) \<Rightarrow> walk fuel env bs (rev pushes @ stack) (found @ new))"

definition list_subtree ::
  "nat \<Rightarrow> fs_env \<Rightarrow> blobs \<Rightarrow> hash option \<Rightarrow> string list \<Rightarrow> string list list result option" where
  "list_subtree fuel env bs root comps =
     (case dir_node_at env bs root comps of
        Inl e \<Rightarrow> Some (Inl e)
      | Inr None \<Rightarrow> Some (Inr [])
      | Inr (Some start) \<Rightarrow>
          map_option (map_sum id (map fst)) (walk fuel env bs [(comps, start)] []))"

type_synonym manifest = "(path, entry) btm"

definition get_manifest :: "nat \<Rightarrow> fs_env \<Rightarrow> blobs \<Rightarrow> hash \<Rightarrow> manifest result option" where
  "get_manifest fuel env bs root =
     (case fetch env bs root of
        Inl e \<Rightarrow> Some (Inl e)
      | Inr node \<Rightarrow>
          map_option (map_sum id (\<lambda>found. fold (\<lambda>(p, e) m. btm_insert (path_of p) e m) found []))
            (walk fuel env bs [([], node)] []))"

section \<open>Building a tree\<close>

type_synonym change = "string list \<times> entry option"

definition direct_changes :: "change list \<Rightarrow> (string \<times> entry option) list" where
  "direct_changes cs = map (\<lambda>(comps, v). (hd comps, v)) (filter (\<lambda>(comps, v). length comps = 1) cs)"

definition nest_change :: "change \<Rightarrow> (string, change list) btm \<Rightarrow> (string, change list) btm" where
  "nest_change c m =
     (if length (fst c) \<le> 1 then m
      else btm_insert (hd (fst c))
             ((case btm_get m (hd (fst c)) of None \<Rightarrow> [] | Some l \<Rightarrow> l) @ [(tl (fst c), snd c)]) m)"

definition nested_changes :: "change list \<Rightarrow> (string, change list) btm" where
  "nested_changes cs = fold nest_change cs []"

definition child_at :: "tree_node \<Rightarrow> string \<Rightarrow> tree_child" where
  "child_at node name = (case btm_get (children node) name of None \<Rightarrow> no_child | Some c \<Rightarrow> c)"

text \<open>\<open>children.entry(name).or_default()\<close>, an assignment, and the removal of an empty child.\<close>

definition put_child :: "string \<Rightarrow> tree_child \<Rightarrow> tree_node \<Rightarrow> tree_node" where
  "put_child name child node =
     (if child_is_empty child then node\<lparr>children := btm_remove name (children node)\<rparr>
      else node\<lparr>children := btm_insert name child (children node)\<rparr>)"

definition set_file :: "string \<times> entry option \<Rightarrow> tree_node \<Rightarrow> tree_node" where
  "set_file nv node = put_child (fst nv) ((child_at node (fst nv))\<lparr>tc_file := snd nv\<rparr>) node"

definition set_dir :: "string \<Rightarrow> hash option \<Rightarrow> tree_node \<Rightarrow> tree_node" where
  "set_dir name d node = put_child name ((child_at node name)\<lparr>tc_dir := d\<rparr>) node"

definition change_weight :: "change list \<Rightarrow> nat" where
  "change_weight cs = sum_list (map (\<lambda>c. length (fst c)) cs)"

definition group_weight :: "(string, change list) btm \<Rightarrow> nat" where
  "group_weight gs = sum_list (map (\<lambda>g. Suc (change_weight (snd g))) gs)"

lemma group_weight_insert:
  assumes "btm_ok m"
  shows "group_weight (btm_insert k ((case btm_get m k of None \<Rightarrow> [] | Some l \<Rightarrow> l) @ [c]) m)
    \<le> group_weight m + Suc (length (fst c))"
  using assms
proof (induction m)
  case Nil
  then show ?case by (simp add: group_weight_def change_weight_def)
next
  case (Cons e m)
  have "btm_get m k = None" if "k < fst e"
    using Cons.prems that by (fastforce simp: btm_ok_Cons map_of_eq_None_iff)
  with Cons show ?case
    by (auto simp: group_weight_def change_weight_def btm_ok_Cons not_less split: if_splits)
qed

lemma nested_weight:
  "btm_ok (fold nest_change cs m) \<and> group_weight (fold nest_change cs m) \<le> change_weight cs + group_weight m"
  if "btm_ok m"
  using that
proof (induction cs arbitrary: m)
  case Nil
  then show ?case by (simp add: change_weight_def)
next
  case (Cons c cs)
  have ok: "btm_ok (nest_change c m)" using Cons.prems by (simp add: nest_change_def btm_ok_insert)
  have "group_weight (nest_change c m) \<le> group_weight m + length (fst c)"
    using group_weight_insert [OF Cons.prems, of "hd (fst c)" "(tl (fst c), snd c)"]
    by (auto simp: nest_change_def)
  with Cons.IH [OF ok] show ?case by (simp add: change_weight_def)
qed

lemma btm_ok_nested: "btm_ok (nested_changes cs)"
  and nested_changes_weight: "group_weight (nested_changes cs) \<le> change_weight cs"
  using nested_weight [of "[]" cs] by (simp_all add: nested_changes_def group_weight_def)

function build_node ::
  "fs_env \<Rightarrow> blobs \<Rightarrow> hash option \<Rightarrow> change list \<Rightarrow> hash option result \<times> blobs"
  and build_nested ::
  "fs_env \<Rightarrow> blobs \<Rightarrow> tree_node \<Rightarrow> (string, change list) btm \<Rightarrow> tree_node result \<times> blobs" where
  "build_node env bs base cs =
     (case (case base of None \<Rightarrow> Inr empty_node | Some h \<Rightarrow> fetch env bs h) of
        Inl e \<Rightarrow> (Inl e, bs)
      | Inr node \<Rightarrow>
         (case build_nested env bs (fold set_file (direct_changes cs) node) (nested_changes cs) of
            (Inl e, bs') \<Rightarrow> (Inl e, bs')
          | (Inr node', bs') \<Rightarrow>
             (if children node' = [] then (Inr None, bs')
              else (case store_node env bs' node' of
                      (Inl e, bs'') \<Rightarrow> (Inl e, bs'')
                    | (Inr h, bs'') \<Rightarrow> (Inr (Some h), bs'')))))"
| "build_nested env bs node [] = (Inr node, bs)"
| "build_nested env bs node ((name, sub) # gs) =
     (case build_node env bs (Option.bind (btm_get (children node) name) tc_dir) sub of
        (Inl e, bs') \<Rightarrow> (Inl e, bs')
      | (Inr d, bs') \<Rightarrow> build_nested env bs' (set_dir name d node) gs)"
  by pat_completeness auto

termination
proof (relation "measure (\<lambda>x. case x of Inl (_, _, _, cs) \<Rightarrow> 2 * change_weight cs + 1
    | Inr (_, _, _, gs) \<Rightarrow> 2 * group_weight gs)", goal_cases)
  case (2 env bs base cs x)
  then show ?case using nested_changes_weight [of cs] by simp
qed (auto simp: group_weight_def)

definition build_root :: "fs_env \<Rightarrow> blobs \<Rightarrow> hash option \<Rightarrow> change list \<Rightarrow> hash result \<times> blobs" where
  "build_root env bs base cs =
     (case build_node env bs base cs of
        (Inl e, bs') \<Rightarrow> (Inl e, bs')
      | (Inr (Some h), bs') \<Rightarrow> (Inr h, bs')
      | (Inr None, bs') \<Rightarrow> store_node env bs' empty_node)"

definition put_manifest :: "fs_env \<Rightarrow> blobs \<Rightarrow> manifest \<Rightarrow> hash result \<times> blobs" where
  "put_manifest env bs m = build_root env bs None (map (\<lambda>(p, e). (components_of p, Some e)) m)"

section \<open>A coherent cache is invisible\<close>

definition cache_coherent :: "fs_env \<Rightarrow> fs_store \<Rightarrow> bool" where
  "cache_coherent env st \<longleftrightarrow> (\<forall>i n. nc_map (nodes_of st) i = Some n \<longrightarrow> fetch env (blobs_of st) i = Inr n)"

text \<open>The queue lists the cached nodes and is within capacity.\<close>

definition cache_bounded :: "node_cache \<Rightarrow> bool" where
  "cache_bounded c \<longleftrightarrow> distinct (nc_order c) \<and> set (nc_order c) = dom (nc_map c) \<and> length (nc_order c) \<le> nc_cap c"

lemma cache_trim_sub:
  "cache_trim i cap order m = (order', m') \<Longrightarrow> m' j = Some n \<Longrightarrow> m j = Some n"
  by (induction i cap order m rule: cache_trim.induct) (auto split: if_splits)

lemma cache_put_get:
  "nc_map (cache_put i node c) j = Some n \<Longrightarrow> (j = i \<and> n = node) \<or> (j \<noteq> i \<and> nc_map c j = Some n)"
proof (cases "nc_map c i")
  case None
  assume get: "nc_map (cache_put i node c) j = Some n"
  obtain order m where t: "cache_trim i (nc_cap c) (nc_order c @ [i]) ((nc_map c)(i \<mapsto> node)) = (order, m)"
    by fastforce
  with get None have "m j = Some n" by (simp add: cache_put_def)
  from cache_trim_sub [OF t this] show ?thesis by (auto split: if_splits)
qed (auto simp: cache_put_def split: if_splits)

lemma cache_trim_short: "length order \<le> cap \<Longrightarrow> cache_trim i cap order m = (order, m)"
  by (cases order) auto

lemma cache_put_bounded:
  assumes b: "cache_bounded c" and cap: "1 \<le> nc_cap c"
  shows "cache_bounded (cache_put i node c)"
proof (cases "nc_map c i")
  case (Some n)
  with b show ?thesis by (auto simp: cache_bounded_def cache_put_def)
next
  case None
  then have new: "i \<notin> set (nc_order c)" using b by (auto simp: cache_bounded_def)
  show ?thesis
  proof (cases "length (nc_order c @ [i]) \<le> nc_cap c")
    case True
    with b None new show ?thesis
      by (simp add: cache_put_def cache_trim_short cache_bounded_def)
  next
    case False
    then obtain old rest where ord: "nc_order c = old # rest" using cap by (cases "nc_order c") auto
    with False b have len: "length (rest @ [i]) = nc_cap c" by (simp add: cache_bounded_def)
    have "cache_put i node c = c\<lparr>nc_map := ((nc_map c)(i \<mapsto> node))(old := None), nc_order := rest @ [i]\<rparr>"
      using None new len by (auto simp: cache_put_def ord cache_trim_short)
    then show ?thesis using b new len by (auto simp: cache_bounded_def ord)
  qed
qed

lemma get_node_cases:
  assumes "cache_coherent env st"
  shows "fst (get_node env st i) = fetch env (blobs_of st) i
    \<and> blobs_of (snd (get_node env st i)) = blobs_of st
    \<and> cache_coherent env (snd (get_node env st i))"
proof (cases "nc_map (nodes_of st) i")
  case None
  then show ?thesis
    using assms
    by (auto simp: get_node_def cache_get_def fetch_def [of _ _ i] cache_coherent_def dest!: cache_put_get split: option.splits sum.splits)
next
  case (Some n)
  with assms show ?thesis by (simp add: get_node_def cache_get_def cache_coherent_def)
qed

lemma put_node_cases:
  assumes "cache_coherent env st" and "env_ok env"
  shows "fst (put_node env st node) = fst (store_node env (blobs_of st) node)
    \<and> blobs_of (snd (put_node env st node)) = snd (store_node env (blobs_of st) node)
    \<and> cache_coherent env (snd (put_node env st node))"
proof -
  obtain b where b: "bin_ser env node = Inr b" "bin_de env b = Inr node" using assms(2) by (auto simp: env_ok_def)
  then show ?thesis
    using assms(1)
    by (auto simp: put_node_def store_node_def Let_def cache_coherent_def fetch_def dest!: cache_put_get)
qed

end
