(* ===== verification/Fs_View.thy ===== *)
theory Fs_View
  imports Fs_Store
begin

text \<open>
  What a stored tree means: the file entry at each path. \<open>solid\<close> says that every node below a root
  is present, and that no child and no subdirectory is empty. On solid trees path resolution reads
  this view, the walks list it exactly, and \<open>build_node\<close> updates it.
\<close>

section \<open>The view\<close>

fun look :: "fs_env \<Rightarrow> blobs \<Rightarrow> hash option \<Rightarrow> string list \<Rightarrow> entry option" where
  "look env bs None p = None"
| "look env bs (Some h) [] = None"
| "look env bs (Some h) (name # rest) =
     (case fetch env bs h of
        Inl _ \<Rightarrow> None
      | Inr node \<Rightarrow>
         (case btm_get (children node) name of
            None \<Rightarrow> None
          | Some c \<Rightarrow> if rest = [] then tc_file c else look env bs (tc_dir c) rest))"

definition node_look :: "fs_env \<Rightarrow> blobs \<Rightarrow> tree_node \<Rightarrow> string list \<Rightarrow> entry option" where
  "node_look env bs node p =
     (case p of
        [] \<Rightarrow> None
      | name # rest \<Rightarrow>
         (case btm_get (children node) name of
            None \<Rightarrow> None
          | Some c \<Rightarrow> if rest = [] then tc_file c else look env bs (tc_dir c) rest))"

lemma look_Nil [simp]: "look env bs r [] = None"
  by (cases r) simp_all

lemma node_look_Nil [simp]: "node_look env bs node [] = None"
  by (simp add: node_look_def)

lemma look_node: "fetch env bs h = Inr node \<Longrightarrow> look env bs (Some h) p = node_look env bs node p"
  by (cases p) (simp_all add: node_look_def)

lemma node_look_Cons:
  "node_look env bs node (name # rest) =
     (if rest = [] then tc_file (child_at node name) else look env bs (tc_dir (child_at node name)) rest)"
  by (auto simp: node_look_def child_at_def no_child_def split: option.splits)

inductive solid :: "fs_env \<Rightarrow> blobs \<Rightarrow> hash \<Rightarrow> bool" for env bs where
  solidI: "fetch env bs h = Inr node \<Longrightarrow> btm_ok (children node) \<Longrightarrow>
     (\<And>name c. btm_get (children node) name = Some c \<Longrightarrow> \<not> child_is_empty c) \<Longrightarrow>
     (\<And>name c d. btm_get (children node) name = Some c \<Longrightarrow> tc_dir c = Some d \<Longrightarrow>
        solid env bs d \<and> fetch env bs d \<noteq> Inr empty_node) \<Longrightarrow>
     solid env bs h"

text \<open>The same for a node that need not be stored yet.\<close>

definition node_solid :: "fs_env \<Rightarrow> blobs \<Rightarrow> tree_node \<Rightarrow> bool" where
  "node_solid env bs node \<longleftrightarrow> btm_ok (children node)
     \<and> (\<forall>name c. btm_get (children node) name = Some c \<longrightarrow> \<not> child_is_empty c)
     \<and> (\<forall>name c d. btm_get (children node) name = Some c \<longrightarrow> tc_dir c = Some d \<longrightarrow>
          solid env bs d \<and> fetch env bs d \<noteq> Inr empty_node)"

definition root_solid :: "fs_env \<Rightarrow> blobs \<Rightarrow> hash option \<Rightarrow> bool" where
  "root_solid env bs r = (case r of None \<Rightarrow> True | Some h \<Rightarrow> solid env bs h)"

text \<open>A subdirectory hash: absent, or a solid node that is not empty.\<close>

definition dir_solid :: "fs_env \<Rightarrow> blobs \<Rightarrow> hash option \<Rightarrow> bool" where
  "dir_solid env bs r = (case r of None \<Rightarrow> True | Some h \<Rightarrow> solid env bs h \<and> fetch env bs h \<noteq> Inr empty_node)"

lemma dir_root_solid: "dir_solid env bs r \<Longrightarrow> root_solid env bs r"
  by (simp add: dir_solid_def root_solid_def split: option.splits)

lemma solid_node: "solid env bs h \<longleftrightarrow> (\<exists>node. fetch env bs h = Inr node \<and> node_solid env bs node)"
  by (subst solid.simps) (auto simp: node_solid_def)

lemma node_solid_child:
  "node_solid env bs node \<Longrightarrow> dir_solid env bs (tc_dir (child_at node name))"
  by (auto simp: node_solid_def dir_solid_def child_at_def no_child_def split: option.splits)

lemma node_solid_empty [simp]: "node_solid env bs empty_node"
  by (simp add: node_solid_def empty_node_def)

lemma btm_get_put_child:
  "btm_get (children (put_child name c node)) k
     = (if k = name then (if child_is_empty c then None else Some c) else btm_get (children node) k)"
  by (simp add: put_child_def btm_get_insert btm_get_remove)

lemma child_at_put_child:
  "child_at (put_child name c node) k = (if k = name then c else child_at node k)"
proof -
  have "child_is_empty c \<Longrightarrow> c = no_child" by (cases c) (simp add: child_is_empty_def no_child_def)
  then show ?thesis by (auto simp: child_at_def btm_get_put_child)
qed

lemma node_solid_put_child:
  assumes "node_solid env bs node" and "dir_solid env bs (tc_dir c)"
  shows "node_solid env bs (put_child name c node)"
proof -
  have "btm_ok (children (put_child name c node))"
    using assms(1) by (simp add: node_solid_def put_child_def btm_ok_insert btm_ok_remove)
  with assms show ?thesis
    by (auto simp: node_solid_def btm_get_put_child dir_solid_def split: if_splits)
qed

section \<open>Content addressing\<close>

definition addressed :: "fs_env \<Rightarrow> blobs \<Rightarrow> bool" where
  "addressed env bs \<longleftrightarrow> (\<forall>h b. bs (tree_key h) = Some b \<longrightarrow> blake3 env b = h)"

lemma fetch_mono: "fetch env bs h = Inr n \<Longrightarrow> bs \<subseteq>\<^sub>m bs' \<Longrightarrow> fetch env bs' h = Inr n"
  by (auto simp: fetch_def map_le_def dom_def split: option.splits sum.splits)

lemma solid_mono:
  assumes "solid env bs h" and le: "bs \<subseteq>\<^sub>m bs'"
  shows "solid env bs' h \<and> fetch env bs' h = fetch env bs h"
  using assms(1)
proof induction
  case (solidI h node)
  then have "fetch env bs' h = Inr node" using fetch_mono [OF solidI(1) le] by simp
  moreover from this solidI have "solid env bs' h" by (intro solid.solidI [of env bs' h node]) metis+
  ultimately show ?case using solidI(1) by simp
qed

lemma dir_solid_mono: "dir_solid env bs r \<Longrightarrow> bs \<subseteq>\<^sub>m bs' \<Longrightarrow> dir_solid env bs' r"
  by (auto simp: dir_solid_def split: option.splits dest: solid_mono)

lemma root_solid_mono: "root_solid env bs r \<Longrightarrow> bs \<subseteq>\<^sub>m bs' \<Longrightarrow> root_solid env bs' r"
  by (auto simp: root_solid_def split: option.splits dest: solid_mono)

lemma node_solid_mono: "node_solid env bs node \<Longrightarrow> bs \<subseteq>\<^sub>m bs' \<Longrightarrow> node_solid env bs' node"
  unfolding node_solid_def by (metis solid_mono)

lemma look_mono:
  assumes "root_solid env bs r" and le: "bs \<subseteq>\<^sub>m bs'"
  shows "look env bs' r p = look env bs r p"
  using assms(1)
proof (induction p arbitrary: r)
  case (Cons name rest)
  show ?case
  proof (cases r)
    case (Some h)
    with Cons.prems obtain node where f: "fetch env bs h = Inr node" and ok: "node_solid env bs node"
      by (auto simp: root_solid_def solid_node)
    have "fetch env bs' h = Inr node" using fetch_mono [OF f le] .
    moreover have "look env bs' (tc_dir (child_at node name)) rest = look env bs (tc_dir (child_at node name)) rest"
      by (rule Cons.IH) (rule dir_root_solid [OF node_solid_child [OF ok]])
    ultimately show ?thesis using f Some by (simp only: look_node node_look_Cons)
  qed simp
qed simp

lemma node_look_mono:
  assumes "node_solid env bs node" and le: "bs \<subseteq>\<^sub>m bs'"
  shows "node_look env bs' node p = node_look env bs node p"
proof (cases p)
  case (Cons name rest)
  have "root_solid env bs (tc_dir (child_at node name))"
    by (rule dir_root_solid [OF node_solid_child [OF assms(1)]])
  then show ?thesis using look_mono [OF _ le] by (simp add: Cons node_look_Cons)
qed simp

lemma store_node_ok:
  assumes env: "env_ok env" and a: "addressed env bs"
  obtains h bs' where "store_node env bs node = (Inr h, bs')" "bs \<subseteq>\<^sub>m bs'" "addressed env bs'"
    "fetch env bs' h = Inr node"
proof -
  obtain b where b: "bin_ser env node = Inr b" "bin_de env b = Inr node" using env by (auto simp: env_ok_def)
  define h where "h = blake3 env b"
  have inj: "blake3 env x = blake3 env y \<Longrightarrow> x = y" for x y using env by (auto simp: env_ok_def dest: injD)
  have "bs \<subseteq>\<^sub>m bs(tree_key h \<mapsto> b)"
    using a inj by (auto simp: map_le_def addressed_def h_def)
  moreover have "addressed env (bs(tree_key h \<mapsto> b))" using a by (auto simp: addressed_def h_def)
  moreover have "fetch env (bs(tree_key h \<mapsto> b)) h = Inr node" using b by (simp add: fetch_def)
  moreover have "store_node env bs node = (Inr h, bs(tree_key h \<mapsto> b))" using b by (simp add: store_node_def h_def)
  ultimately show thesis using that by blast
qed

section \<open>Resolution reads the view\<close>

lemma resolve_from_view:
  assumes "solid env bs h" and "p \<noteq> []"
  shows "\<exists>c. resolve_from env bs h p = Inr c \<and> Option.bind c tc_file = look env bs (Some h) p
    \<and> dir_solid env bs (Option.bind c tc_dir)
    \<and> (\<forall>q. q \<noteq> [] \<longrightarrow> look env bs (Option.bind c tc_dir) q = look env bs (Some h) (p @ q))"
  using assms
proof (induction p arbitrary: h)
  case (Cons name rest)
  from Cons.prems obtain node where f: "fetch env bs h = Inr node" and ok: "node_solid env bs node"
    by (auto simp: solid_node)
  note ds = node_solid_child [OF ok, of name]
  show ?case
  proof (cases "rest = []")
    case True
    with f ds show ?thesis
      by (auto simp: child_at_def no_child_def dir_solid_def split: option.splits)
  next
    case False
    show ?thesis
    proof (cases "tc_dir (child_at node name)")
      case None
      with f False show ?thesis
        by (auto simp: child_at_def no_child_def dir_solid_def split: option.splits)
    next
      case (Some d)
      with ds have "solid env bs d" by (simp add: dir_solid_def)
      from Cons.IH [OF this False] Some f False show ?thesis
        by (auto simp: child_at_def no_child_def split: option.splits)
    qed
  qed
qed simp

lemma resolve_file_view:
  "root_solid env bs r \<Longrightarrow> resolve_file env bs r p = Inr (look env bs r p)"
proof (cases r)
  case (Some h)
  assume "root_solid env bs r"
  with Some resolve_from_view [of env bs h p] show ?thesis
    by (cases "p = []") (auto simp: resolve_file_def resolve_def root_solid_def split: sum.splits)
qed (simp add: resolve_file_def resolve_def)

section \<open>Building updates the view\<close>

text \<open>A list of changes applied to a view; the last change of a path wins.\<close>

definition updated :: "change list \<Rightarrow> (string list \<Rightarrow> entry option) \<Rightarrow> string list \<Rightarrow> entry option" where
  "updated cs f p = (case rev (filter (\<lambda>c. fst c = p) cs) of [] \<Rightarrow> f p | c # _ \<Rightarrow> snd c)"

lemma updated_Nil [simp]: "updated [] f p = f p"
  by (simp add: updated_def)

lemma set_files_child:
  "child_at (fold set_file ds node) name = (child_at node name)\<lparr>tc_file :=
     (case rev (filter (\<lambda>d. fst d = name) ds) of [] \<Rightarrow> tc_file (child_at node name) | d # _ \<Rightarrow> snd d)\<rparr>"
proof (induction ds rule: rev_induct)
  case (snoc d ds)
  then show ?case by (auto simp: set_file_def child_at_put_child)
qed simp

lemma set_file_solid: "node_solid env bs node \<Longrightarrow> node_solid env bs (set_file d node)"
  unfolding set_file_def by (rule node_solid_put_child) (simp_all add: node_solid_child)

lemma set_files_solid:
  "node_solid env bs node \<Longrightarrow> node_solid env bs (fold set_file ds node)"
  by (induction ds arbitrary: node) (simp_all add: set_file_solid)

lemma direct_file:
  "tc_file (child_at (fold set_file (direct_changes cs) node) name) = updated cs (node_look env bs node) [name]"
proof -
  have "filter (\<lambda>d. fst d = name) (direct_changes cs) = map (\<lambda>c. (name, snd c)) (filter (\<lambda>c. fst c = [name]) cs)"
    unfolding direct_changes_def by (induction cs) (auto simp: length_Suc_conv)
  then have "rev (filter (\<lambda>d. fst d = name) (direct_changes cs)) = map (\<lambda>c. (name, snd c)) (rev (filter (\<lambda>c. fst c = [name]) cs))"
    by (simp add: rev_map)
  then show ?thesis
    by (simp add: set_files_child updated_def node_look_Cons split: list.splits)
qed

lemma direct_dir: "tc_dir (child_at (fold set_file ds node) name) = tc_dir (child_at node name)"
  by (simp add: set_files_child)

lemma nested_get:
  "btm_get (nested_changes cs) name =
     (let l = filter (\<lambda>c. 1 < length (fst c) \<and> hd (fst c) = name) cs
      in if l = [] then None else Some (map (\<lambda>c. (tl (fst c), snd c)) l))"
proof (induction cs rule: rev_induct)
  case (snoc c cs)
  then show ?case
    by (auto simp: nested_changes_def nest_change_def btm_get_insert Let_def)
qed (simp add: nested_changes_def)

lemma nested_updated:
  assumes "rest \<noteq> []"
  shows "(case btm_get (nested_changes cs) name of None \<Rightarrow> f rest | Some sub \<Rightarrow> updated sub f rest)
    = updated cs (\<lambda>p. case p of [] \<Rightarrow> None | n # q \<Rightarrow> f q) (name # rest)"
proof -
  let ?l = "filter (\<lambda>c. 1 < length (fst c) \<and> hd (fst c) = name) cs"
  have key: "fst c = name # rest \<longleftrightarrow> 1 < length (fst c) \<and> hd (fst c) = name \<and> tl (fst c) = rest" for c :: change
    using assms by (cases "fst c") auto
  have "filter (\<lambda>c. fst c = name # rest) cs = filter (\<lambda>c. tl (fst c) = rest) ?l"
    unfolding key filter_filter by (rule filter_cong) auto
  moreover have "filter (\<lambda>c. fst c = rest) (map (\<lambda>c. (tl (fst c), snd c)) ?l)
      = map (\<lambda>c. (tl (fst c), snd c)) (filter (\<lambda>c. tl (fst c) = rest) ?l)"
    by (simp add: filter_map comp_def)
  ultimately show ?thesis
    by (auto simp: nested_get Let_def updated_def rev_map split: list.splits)
qed

lemma updated_cong: "f p = g p \<Longrightarrow> updated cs f p = updated cs g p"
  by (simp add: updated_def split: list.splits)

lemma bind_child_dir: "Option.bind (btm_get (children node) name) tc_dir = tc_dir (child_at node name)"
  by (simp add: child_at_def no_child_def split: option.splits)

definition built :: "fs_env \<Rightarrow> blobs \<Rightarrow> hash option \<Rightarrow> change list \<Rightarrow> hash option \<Rightarrow> blobs \<Rightarrow> bool" where
  "built env bs base cs r bs' \<longleftrightarrow> bs \<subseteq>\<^sub>m bs' \<and> addressed env bs' \<and> dir_solid env bs' r
     \<and> (\<forall>p. p \<noteq> [] \<longrightarrow> look env bs' r p = updated cs (look env bs base) p)"

definition built_nested :: "fs_env \<Rightarrow> blobs \<Rightarrow> tree_node \<Rightarrow> (string, change list) btm \<Rightarrow> tree_node \<Rightarrow> blobs \<Rightarrow> bool" where
  "built_nested env bs node gs node' bs' \<longleftrightarrow> bs \<subseteq>\<^sub>m bs' \<and> addressed env bs' \<and> node_solid env bs' node'
     \<and> (\<forall>name. tc_file (child_at node' name) = tc_file (child_at node name))
     \<and> (\<forall>name q. q \<noteq> [] \<longrightarrow> look env bs' (tc_dir (child_at node' name)) q =
          (case btm_get gs name of
             None \<Rightarrow> look env bs (tc_dir (child_at node name)) q
           | Some sub \<Rightarrow> updated sub (look env bs (tc_dir (child_at node name))) q))"

lemma built_nested_step:
  assumes one: "built env bs (tc_dir (child_at node name)) sub d bs1" and ok: "node_solid env bs node"
    and rest: "built_nested env bs1 (set_dir name d node) gs node' bs'"
    and gs: "btm_get gs name = None"
  shows "built_nested env bs node ((name, sub) # gs) node' bs'"
proof -
  have le: "bs \<subseteq>\<^sub>m bs1" "bs1 \<subseteq>\<^sub>m bs'" and d: "dir_solid env bs1 d"
    using one rest by (auto simp: built_def built_nested_def)
  have child: "child_at (set_dir name d node) k = (if k = name then (child_at node name)\<lparr>tc_dir := d\<rparr> else child_at node k)" for k
    by (simp add: set_dir_def child_at_put_child)
  have same: "look env bs1 (tc_dir (child_at node k)) q = look env bs (tc_dir (child_at node k)) q" for k q
    by (rule look_mono [OF dir_root_solid [OF node_solid_child [OF ok]] le(1)])
  show ?thesis
    unfolding built_nested_def
  proof (intro conjI allI impI)
    show "bs \<subseteq>\<^sub>m bs'" using le by (rule map_le_trans)
    show "addressed env bs'" "node_solid env bs' node'" using rest by (auto simp: built_nested_def)
    show "tc_file (child_at node' k) = tc_file (child_at node k)" for k
      using rest by (auto simp: built_nested_def child)
    show "look env bs' (tc_dir (child_at node' k)) q =
        (case btm_get ((name, sub) # gs) k of
           None \<Rightarrow> look env bs (tc_dir (child_at node k)) q
         | Some sub \<Rightarrow> updated sub (look env bs (tc_dir (child_at node k))) q)" if "q \<noteq> []" for k q
      using rest gs one that
      by (auto simp: built_nested_def built_def child same split: option.splits intro: updated_cong)
  qed
qed

lemma build_node_built:
  "env_ok env \<Longrightarrow> addressed env bs \<Longrightarrow> root_solid env bs base \<Longrightarrow>
     \<exists>r bs'. build_node env bs base cs = (Inr r, bs') \<and> built env bs base cs r bs'"
  "env_ok env \<Longrightarrow> addressed env bs \<Longrightarrow> node_solid env bs node \<Longrightarrow> btm_ok gs \<Longrightarrow>
     \<exists>node' bs'. build_nested env bs node gs = (Inr node', bs') \<and> built_nested env bs node gs node' bs'"
proof (induction env bs base cs and env bs node gs rule: build_node_build_nested.induct)
  case (1 env bs base cs)
  obtain node where node: "(case base of None \<Rightarrow> Inr empty_node | Some h \<Rightarrow> fetch env bs h) = Inr node"
    and ok: "node_solid env bs node" and base: "\<And>p. look env bs base p = node_look env bs node p"
  proof (cases base)
    case None
    have "look env bs None p = node_look env bs empty_node p" for p
      by (cases p) (simp_all add: node_look_def empty_node_def)
    with None that show thesis by simp
  next
    case (Some h)
    with 1(4) obtain n where "fetch env bs h = Inr n" "node_solid env bs n" by (auto simp: root_solid_def solid_node)
    with Some that look_node show thesis by simp
  qed
  let ?n1 = "fold set_file (direct_changes cs) node"
  from 1(1) [OF node 1(2,3) set_files_solid [OF ok] btm_ok_nested]
  obtain node' bs1 where nest: "build_nested env bs ?n1 (nested_changes cs) = (Inr node', bs1)"
    and bn: "built_nested env bs ?n1 (nested_changes cs) node' bs1" by blast
  then have le: "bs \<subseteq>\<^sub>m bs1" and ad: "addressed env bs1" and ok': "node_solid env bs1 node'"
    by (auto simp: built_nested_def)
  have view: "node_look env bs1 node' p = updated cs (look env bs base) p" if p: "p \<noteq> []" for p
  proof -
    obtain name rest where p: "p = name # rest" using p by (cases p) auto
    show ?thesis
    proof (cases "rest = []")
      case True
      have "node_look env bs1 node' p = updated cs (node_look env bs node) [name]"
        using bn direct_file [of cs node name env bs] by (simp add: p True node_look_Cons built_nested_def)
      moreover have "look env bs base = node_look env bs node" using base by (rule ext)
      ultimately show ?thesis using p True by simp
    next
      case False
      have "node_look env bs1 node' p = (case btm_get (nested_changes cs) name of
          None \<Rightarrow> look env bs (tc_dir (child_at node name)) rest
        | Some sub \<Rightarrow> updated sub (look env bs (tc_dir (child_at node name))) rest)"
        using bn [unfolded built_nested_def direct_dir] False by (simp add: p node_look_Cons)
      also have "\<dots> = updated cs (look env bs base) p"
        unfolding nested_updated [OF False] p by (rule updated_cong) (simp add: base node_look_Cons False)
      finally show ?thesis .
    qed
  qed
  show ?case
  proof (cases "children node' = []")
    case True
    then have "look env bs1 None p = node_look env bs1 node' p" for p by (cases p) (simp_all add: node_look_def)
    with view le ad have "built env bs base cs None bs1" by (simp add: built_def dir_solid_def)
    with node nest True show ?thesis by simp
  next
    case False
    obtain h bs2 where st: "store_node env bs1 node' = (Inr h, bs2)" "bs1 \<subseteq>\<^sub>m bs2" "addressed env bs2"
      "fetch env bs2 h = Inr node'" using store_node_ok [OF 1(2) ad] .
    have ok2: "node_solid env bs2 node'" by (rule node_solid_mono [OF ok' st(2)])
    have "dir_solid env bs2 (Some h)"
      using ok2 st(4) False by (auto simp: dir_solid_def solid_node empty_node_def)
    moreover have "look env bs2 (Some h) p = updated cs (look env bs base) p" if "p \<noteq> []" for p
      using view [OF that] node_look_mono [OF ok' st(2)] by (simp add: look_node [OF st(4)])
    ultimately have "built env bs base cs (Some h) bs2"
      using le st(2,3) by (auto simp: built_def intro: map_le_trans)
    with node nest False st(1) show ?thesis by simp
  qed
next
  case (2 env bs node)
  then show ?case by (simp add: built_nested_def)
next
  case (3 env bs node name sub gs)
  note ok = 3(5)
  have "root_solid env bs (tc_dir (child_at node name))" by (rule dir_root_solid [OF node_solid_child [OF ok]])
  with 3(1) [OF 3(3,4)] obtain d bs1 where
    b1: "build_node env bs (Option.bind (btm_get (children node) name) tc_dir) sub = (Inr d, bs1)"
    and one: "built env bs (tc_dir (child_at node name)) sub d bs1"
    by (auto simp: bind_child_dir)
  then have le: "bs \<subseteq>\<^sub>m bs1" and ad: "addressed env bs1" and d: "dir_solid env bs1 d" by (auto simp: built_def)
  have "node_solid env bs1 (set_dir name d node)"
    unfolding set_dir_def by (rule node_solid_put_child [OF node_solid_mono [OF ok le]]) (simp add: d)
  with 3(2) [OF b1 [symmetric] refl 3(3) ad] 3(6) obtain node' bs' where
    b2: "build_nested env bs1 (set_dir name d node) gs = (Inr node', bs')"
    and rest: "built_nested env bs1 (set_dir name d node) gs node' bs'"
    by (auto simp: btm_ok_Cons)
  have "btm_get gs name = None" using 3(6) by (auto simp: btm_ok_Cons map_of_eq_None_iff)
  from built_nested_step [OF one ok rest this] b1 b2 show ?case by simp
qed

section \<open>The walk lists the view\<close>

definition node_files :: "fs_env \<Rightarrow> blobs \<Rightarrow> string list \<Rightarrow> tree_node \<Rightarrow> (string list \<times> entry) set" where
  "node_files env bs prefix node = {(prefix @ p, e) |p e. node_look env bs node p = Some e}"

text \<open>Popping one entry and everything it pushes takes \<open>k\<close> iterations and appends \<open>out\<close>.\<close>

definition walks_to ::
  "fs_env \<Rightarrow> blobs \<Rightarrow> string list \<times> tree_node \<Rightarrow> nat \<Rightarrow> (string list \<times> entry) list \<Rightarrow> bool" where
  "walks_to env bs item k out \<longleftrightarrow>
     (\<forall>fuel stack found. walk (k + fuel) env bs (item # stack) found = walk fuel env bs stack (found @ out))"

text \<open>The files of a list of children, and the subdirectories.\<close>

definition file_items :: "string list \<Rightarrow> (string \<times> tree_child) list \<Rightarrow> (string list \<times> entry) set" where
  "file_items prefix cs = {(prefix @ [name], e) |name c e. (name, c) \<in> set cs \<and> tc_file c = Some e}"

definition dir_items :: "fs_env \<Rightarrow> blobs \<Rightarrow> string list \<Rightarrow> (string \<times> tree_child) list \<Rightarrow> (string list \<times> tree_node) set" where
  "dir_items env bs prefix cs =
     {(prefix @ [name], n) |name c d n. (name, c) \<in> set cs \<and> tc_dir c = Some d \<and> fetch env bs d = Inr n}"

lemma file_items_Nil [simp]: "file_items prefix [] = {}" and dir_items_Nil [simp]: "dir_items env bs prefix [] = {}"
  by (simp_all add: file_items_def dir_items_def)

lemma file_items_Cons:
  "file_items prefix ((name, c) # cs) = {(prefix @ [name], e) |e. tc_file c = Some e} \<union> file_items prefix cs"
  by (auto simp: file_items_def)

lemma dir_items_Cons:
  "dir_items env bs prefix ((name, c) # cs)
     = {(prefix @ [name], n) |d n. tc_dir c = Some d \<and> fetch env bs d = Inr n} \<union> dir_items env bs prefix cs"
  by (auto simp: dir_items_def)

lemma visit_children_ok:
  assumes "\<And>name c d. (name, c) \<in> set cs \<Longrightarrow> tc_dir c = Some d \<Longrightarrow> \<exists>n. fetch env bs d = Inr n"
  shows "\<exists>found pushes. visit_children env bs prefix cs = Inr (found, pushes)
    \<and> set found = file_items prefix cs
    \<and> set pushes = dir_items env bs prefix cs"
  using assms
proof (induction cs)
  case (Cons x cs)
  obtain name c where x: "x = (name, c)" by fastforce
  have sub: "\<exists>n. fetch env bs d = Inr n" if "(k, y) \<in> set cs" "tc_dir y = Some d" for k y d
    using Cons.prems [of k y d] that by simp
  have "\<exists>found pushes. visit_children env bs prefix cs = Inr (found, pushes)
    \<and> set found = file_items prefix cs
    \<and> set pushes = dir_items env bs prefix cs"
    by (rule Cons.IH) (rule sub)
  then obtain found pushes where rec: "visit_children env bs prefix cs = Inr (found, pushes)"
    "set found = file_items prefix cs"
    "set pushes = dir_items env bs prefix cs"
    by blast
  have "\<exists>push. (case tc_dir c of None \<Rightarrow> Inr []
      | Some d \<Rightarrow> (case fetch env bs d of Inl e \<Rightarrow> Inl e | Inr n \<Rightarrow> Inr [(prefix @ [name], n)])) = Inr push
    \<and> set push = {(prefix @ [name], n) |d n. tc_dir c = Some d \<and> fetch env bs d = Inr n}"
    using Cons.prems [of name c] by (cases "tc_dir c") (force simp: x)+
  then obtain push where p: "(case tc_dir c of None \<Rightarrow> Inr []
      | Some d \<Rightarrow> (case fetch env bs d of Inl e \<Rightarrow> Inl e | Inr n \<Rightarrow> Inr [(prefix @ [name], n)])) = Inr push"
    "set push = {(prefix @ [name], n) |d n. tc_dir c = Some d \<and> fetch env bs d = Inr n}" by blast
  then have v: "visit_children env bs prefix (x # cs)
      = Inr ((case tc_file c of None \<Rightarrow> [] | Some e \<Rightarrow> [(prefix @ [name], e)]) @ found, push @ pushes)"
    using rec by (simp add: x)
  have "set (case tc_file c of None \<Rightarrow> [] | Some e \<Rightarrow> [(prefix @ [name], e)]) = {(prefix @ [name], e) |e. tc_file c = Some e}"
    by (cases "tc_file c") auto
  then have "set ((case tc_file c of None \<Rightarrow> [] | Some e \<Rightarrow> [(prefix @ [name], e)]) @ found)
      = file_items prefix (x # cs)"
    unfolding set_append rec(2) x file_items_Cons by simp
  moreover have "set (push @ pushes)
      = dir_items env bs prefix (x # cs)"
    unfolding set_append rec(3) p(2) x dir_items_Cons by simp
  ultimately show ?case using v by blast
qed simp

lemma walks_stack:
  assumes "\<And>item. item \<in> set items \<Longrightarrow> \<exists>k out. walks_to env bs item k out \<and> set out = F item"
  shows "\<exists>k out. (\<forall>fuel stack found. walk (k + fuel) env bs (items @ stack) found = walk fuel env bs stack (found @ out))
    \<and> set out = (\<Union>item \<in> set items. F item)"
  using assms
proof (induction items)
  case Nil
  have "\<forall>fuel stack found. walk (0 + fuel) env bs ([] @ stack) found = walk fuel env bs stack (found @ [])" by simp
  then show ?case by (metis UN_empty list.set(1))
next
  case (Cons item items)
  then obtain k out where one: "walks_to env bs item k out" "set out = F item" by (meson list.set_intros(1))
  from Cons obtain k' out' where rest:
    "\<And>fuel stack found. walk (k' + fuel) env bs (items @ stack) found = walk fuel env bs stack (found @ out')"
    "set out' = (\<Union>item \<in> set items. F item)" by (metis list.set_intros(2))
  have "walk ((k + k') + fuel) env bs ((item # items) @ stack) found = walk fuel env bs stack (found @ (out @ out'))"
    for fuel stack found
    using one(1) rest(1) by (simp add: walks_to_def add.assoc)
  moreover have "set (out @ out') = (\<Union>item \<in> set (item # items). F item)" using one(2) rest(2) by simp
  ultimately show ?case by blast
qed

lemma node_look_Some:
  "node_look env bs node p = Some e \<longleftrightarrow> (\<exists>name c rest. p = name # rest \<and> btm_get (children node) name = Some c
     \<and> (if rest = [] then tc_file c = Some e else look env bs (tc_dir c) rest = Some e))"
  by (cases p) (auto simp: node_look_def split: option.splits)

lemma node_files_children:
  assumes ok: "node_solid env bs node"
  shows "node_files env bs prefix node =
    file_items prefix (children node)
    \<union> (\<Union>(p, n) \<in> dir_items env bs prefix (children node). node_files env bs p n)"
    (is "_ = ?files \<union> ?subs")
proof -
  have get: "(name, c) \<in> set (children node) \<longleftrightarrow> btm_get (children node) name = Some c" for name c
    using ok by (intro btm_get_iff) (simp add: node_solid_def)
  have look: "look env bs (tc_dir c) q = Some e \<longleftrightarrow> (\<exists>d n. tc_dir c = Some d \<and> fetch env bs d = Inr n \<and> node_look env bs n q = Some e)"
    if c: "btm_get (children node) name = Some c" for name c q e
  proof (cases "tc_dir c")
    case (Some d)
    with ok c obtain n where "fetch env bs d = Inr n" unfolding node_solid_def by (metis solid_node)
    with Some show ?thesis by (simp add: look_node)
  qed simp
  have all: "(q, e) \<in> node_files env bs prefix node \<longleftrightarrow> (\<exists>name c rest. q = prefix @ name # rest
      \<and> btm_get (children node) name = Some c
      \<and> (if rest = [] then tc_file c = Some e else look env bs (tc_dir c) rest = Some e))" for q e
    unfolding node_files_def node_look_Some by auto
  have subs: "(q, e) \<in> ?subs \<longleftrightarrow> (\<exists>name c d n rest. q = prefix @ name # rest \<and> btm_get (children node) name = Some c
      \<and> tc_dir c = Some d \<and> fetch env bs d = Inr n \<and> node_look env bs n rest = Some e)" for q e
    unfolding dir_items_def get node_files_def by auto (metis append.assoc append_Cons append_Nil)
  have files: "(q, e) \<in> ?files \<longleftrightarrow> (\<exists>name c. q = prefix @ [name] \<and> btm_get (children node) name = Some c \<and> tc_file c = Some e)" for q e
    unfolding file_items_def get by auto
  have "(q, e) \<in> node_files env bs prefix node \<longleftrightarrow> (q, e) \<in> ?files \<union> ?subs" for q e
  proof
    assume "(q, e) \<in> node_files env bs prefix node"
    then obtain name c rest where h: "q = prefix @ name # rest" "btm_get (children node) name = Some c"
      "if rest = [] then tc_file c = Some e else look env bs (tc_dir c) rest = Some e" unfolding all by blast
    show "(q, e) \<in> ?files \<union> ?subs"
    proof (cases "rest = []")
      case True
      with h have "(q, e) \<in> ?files" unfolding files by simp
      then show ?thesis by (rule UnI1)
    next
      case False
      with h(3) obtain d n where "tc_dir c = Some d" "fetch env bs d = Inr n" "node_look env bs n rest = Some e"
        by (auto simp: look [OF h(2)])
      with h(1,2) have "(q, e) \<in> ?subs" unfolding subs by blast
      then show ?thesis by (rule UnI2)
    qed
  next
    assume "(q, e) \<in> ?files \<union> ?subs"
    then consider "(q, e) \<in> ?files" | "(q, e) \<in> ?subs" by blast
    then show "(q, e) \<in> node_files env bs prefix node"
    proof cases
      case 1
      then obtain name c where "q = prefix @ name # []" "btm_get (children node) name = Some c" "tc_file c = Some e"
        unfolding files by blast
      then show ?thesis unfolding all by (intro exI [of _ name] exI [of _ c] exI [of _ "[]"]) simp
    next
      case 2
      then obtain name c d n rest where h: "q = prefix @ name # rest" "btm_get (children node) name = Some c"
        "tc_dir c = Some d" "fetch env bs d = Inr n" "node_look env bs n rest = Some e" unfolding subs by blast
      then have "rest \<noteq> []" "look env bs (tc_dir c) rest = Some e" by (auto simp: look_node)
      with h(1,2) show ?thesis unfolding all by auto
    qed
  qed
  then show ?thesis by (intro set_eqI) (metis surj_pair)
qed

lemma solid_walks:
  assumes "solid env bs h"
  shows "\<forall>node prefix. fetch env bs h = Inr node \<longrightarrow>
    (\<exists>k out. walks_to env bs (prefix, node) k out \<and> set out = node_files env bs prefix node)"
  using assms
proof induction
  case (solidI h node)
  have ok: "node_solid env bs node" using solidI(2-4) by (auto simp: node_solid_def)
  have get: "(name, c) \<in> set (children node) \<longleftrightarrow> btm_get (children node) name = Some c" for name c
    using solidI(2) by (rule btm_get_iff)
  have sub: "\<exists>n. fetch env bs d = Inr n" if "(name, c) \<in> set (children node)" "tc_dir c = Some d" for name c d
    using solidI(4) [of name c d] that by (auto simp: get solid_node)
  have vis: "\<exists>found pushes. visit_children env bs prefix (children node) = Inr (found, pushes)
    \<and> set found = file_items prefix (children node)
    \<and> set pushes = dir_items env bs prefix (children node)"
    for prefix by (rule visit_children_ok) (rule sub)
  show ?case
  proof (intro allI impI)
    fix node' prefix
    assume "fetch env bs h = Inr node'"
    with solidI(1) have n: "node' = node" by simp
    from vis obtain found pushes where v: "visit_children env bs prefix (children node) = Inr (found, pushes)"
      and f: "set found = file_items prefix (children node)"
      and p: "set pushes = dir_items env bs prefix (children node)"
      by blast
    have "\<exists>k out. walks_to env bs item k out \<and> set out = (case item of (q, n) \<Rightarrow> node_files env bs q n)"
      if item: "item \<in> set (rev pushes)" for item
    proof -
      from item obtain name c d n where it: "item = (prefix @ [name], n)" "tc_dir c = Some d" "fetch env bs d = Inr n"
        and c: "btm_get (children node) name = Some c"
        by (auto simp: p dir_items_def get)
      from solidI(4) [OF c it(2)] it show ?thesis by simp
    qed
    then have "\<exists>k out. (\<forall>fuel stack found. walk (k + fuel) env bs (rev pushes @ stack) found = walk fuel env bs stack (found @ out))
        \<and> set out = (\<Union>item \<in> set (rev pushes). case item of (q, n) \<Rightarrow> node_files env bs q n)"
      by (rule walks_stack)
    then obtain k out where
      w: "\<And>fuel stack found. walk (k + fuel) env bs (rev pushes @ stack) found = walk fuel env bs stack (found @ out)"
      and out: "set out = (\<Union>(q, n) \<in> set (rev pushes). node_files env bs q n)" by blast
    have "walks_to env bs (prefix, node) (Suc k) (found @ out)"
      using v w by (simp add: walks_to_def)
    moreover have "set (found @ out) = node_files env bs prefix node"
      unfolding node_files_children [OF ok] by (simp add: f out p)
    ultimately show "\<exists>k out. walks_to env bs (prefix, node') k out \<and> set out = node_files env bs prefix node'"
      unfolding n by blast
  qed
qed

lemma walks_to_enough:
  "walks_to env bs item k out \<Longrightarrow> k \<le> fuel \<Longrightarrow> walk fuel env bs [item] [] = Some (Inr out)"
  unfolding walks_to_def by (metis append_Nil le_Suc_ex walk.simps(1))

lemma walk_solid:
  assumes "solid env bs h" and "fetch env bs h = Inr node"
  obtains k out where "\<And>fuel. k \<le> fuel \<Longrightarrow> walk fuel env bs [(prefix, node)] [] = Some (Inr out)"
    "set out = node_files env bs prefix node"
  using solid_walks [OF assms(1)] assms(2) walks_to_enough by metis

section \<open>Directories and manifests\<close>

lemma dir_node_at_view:
  assumes "root_solid env bs r"
  obtains (none) "dir_node_at env bs r comps = Inr None" "\<And>q. q \<noteq> [] \<Longrightarrow> look env bs r (comps @ q) = None"
  | (some) d node where "dir_node_at env bs r comps = Inr (Some node)" "solid env bs d" "fetch env bs d = Inr node"
      "\<And>q. q \<noteq> [] \<Longrightarrow> look env bs r (comps @ q) = node_look env bs node q"
      "comps \<noteq> [] \<Longrightarrow> node \<noteq> empty_node"
proof (cases r)
  case None
  then show thesis using none by (simp add: dir_node_at_def)
next
  case (Some h)
  with assms have sh: "solid env bs h" by (simp add: root_solid_def)
  show thesis
  proof (cases "comps = []")
    case True
    from sh obtain node where "fetch env bs h = Inr node" by (auto simp: solid_node)
    with sh True Some show thesis by (intro some) (auto simp: dir_node_at_def look_node)
  next
    case False
    from resolve_from_view [OF sh False] obtain c where c: "resolve_from env bs h comps = Inr c"
      "dir_solid env bs (Option.bind c tc_dir)"
      "\<And>q. q \<noteq> [] \<Longrightarrow> look env bs (Option.bind c tc_dir) q = look env bs r (comps @ q)"
      unfolding Some by blast
    have res: "dir_node_at env bs r comps = (case Option.bind c tc_dir of None \<Rightarrow> Inr None
        | Some d \<Rightarrow> (case fetch env bs d of Inl e \<Rightarrow> Inl e | Inr n \<Rightarrow> Inr (Some n)))"
      using c(1) False by (simp add: dir_node_at_def resolve_def Some split: option.splits)
    show thesis
    proof (cases "Option.bind c tc_dir")
      case None
      with res c(3) show thesis by (intro none) simp_all
    next
      case d: (Some d)
      with c(2) obtain node where "solid env bs d" "fetch env bs d = Inr node" "node \<noteq> empty_node"
        by (auto simp: dir_solid_def solid_node)
      with res d c(3) show thesis by (intro some [of node d]) (simp_all add: look_node)
    qed
  qed
qed

lemma list_subtree_view:
  assumes "root_solid env bs r"
  obtains k ps where "\<And>fuel. k \<le> fuel \<Longrightarrow> list_subtree fuel env bs r comps = Some (Inr ps)"
    "set ps = {comps @ q |q. q \<noteq> [] \<and> look env bs r (comps @ q) \<noteq> None}"
  using assms
proof (cases rule: dir_node_at_view [where comps = comps])
  case none
  then have "list_subtree fuel env bs r comps = Some (Inr [])" for fuel by (simp add: list_subtree_def)
  moreover have "set [] = {comps @ q |q. q \<noteq> [] \<and> look env bs r (comps @ q) \<noteq> None}" using none(2) by (auto; force)
  ultimately show thesis by (rule that)
next
  case (some d node)
  from walk_solid [OF some(2,3), of comps] obtain k out where
    w: "\<And>fuel. k \<le> fuel \<Longrightarrow> walk fuel env bs [(comps, node)] [] = Some (Inr out)"
    and out: "set out = node_files env bs comps node" by blast
  have "list_subtree fuel env bs r comps = Some (Inr (map fst out))" if "k \<le> fuel" for fuel
    using w [OF that] some(1) by (simp add: list_subtree_def)
  moreover have "set (map fst out) = {comps @ q |q. q \<noteq> [] \<and> look env bs r (comps @ q) \<noteq> None}"
  proof -
    have "q \<in> set (map fst out) \<longleftrightarrow> (\<exists>p. q = comps @ p \<and> node_look env bs node p \<noteq> None)" for q
      by (force simp: out node_files_def)
    moreover have "node_look env bs node p \<noteq> None \<longleftrightarrow> p \<noteq> [] \<and> look env bs r (comps @ p) \<noteq> None" for p
      using some(4) by (cases "p = []") auto
    ultimately show ?thesis by auto
  qed
  ultimately show thesis by (rule that)
qed

lemma fold_insert_view:
  assumes "btm_ok m" and "\<And>p e p' e'. (p, e) \<in> set xs \<Longrightarrow> (p', e') \<in> set xs \<Longrightarrow> p = p' \<Longrightarrow> e = e'"
    and "\<And>p e. (p, e) \<in> set xs \<Longrightarrow> btm_get m (path_of p) = None \<or> btm_get m (path_of p) = Some e"
  shows "btm_ok (fold (\<lambda>(p, e) m. btm_insert (path_of p) e m) xs m)
    \<and> (\<forall>k e. btm_get (fold (\<lambda>(p, e) m. btm_insert (path_of p) e m) xs m) k = Some e
          \<longleftrightarrow> btm_get m k = Some e \<or> (\<exists>p. k = path_of p \<and> (p, e) \<in> set xs))"
  using assms
proof (induction xs arbitrary: m)
  case (Cons x xs)
  obtain p e where x: "x = (p, e)" by fastforce
  let ?m = "btm_insert (path_of p) e m"
  have "btm_ok ?m" using Cons.prems(1) by (rule btm_ok_insert)
  moreover have "e1 = e2" if "(q1, e1) \<in> set xs" "(q2, e2) \<in> set xs" "q1 = q2" for q1 e1 q2 e2
    using Cons.prems(2) that by auto
  moreover have "btm_get ?m (path_of q) = None \<or> btm_get ?m (path_of q) = Some e'" if "(q, e') \<in> set xs" for q e'
    using Cons.prems(2) [of p e q e'] Cons.prems(3) [of q e'] that by (auto simp: x btm_get_insert)
  ultimately have IH: "btm_ok (fold (\<lambda>(p, e) m. btm_insert (path_of p) e m) xs ?m)
    \<and> (\<forall>k e'. btm_get (fold (\<lambda>(p, e) m. btm_insert (path_of p) e m) xs ?m) k = Some e'
          \<longleftrightarrow> btm_get ?m k = Some e' \<or> (\<exists>p. k = path_of p \<and> (p, e') \<in> set xs))"
    by (rule Cons.IH)
  have "btm_get m (path_of p) = Some e' \<Longrightarrow> e' = e" for e' using Cons.prems(3) [of p e] by (auto simp: x)
  with IH show ?case by (auto simp: x btm_get_insert)
qed simp

lemma get_manifest_view:
  assumes "solid env bs h"
  obtains k m where "\<And>fuel. k \<le> fuel \<Longrightarrow> get_manifest fuel env bs h = Some (Inr m)" "btm_ok m"
    "\<And>key e. btm_get m key = Some e \<longleftrightarrow> (\<exists>p. key = path_of p \<and> look env bs (Some h) p = Some e)"
proof -
  from assms obtain node where f: "fetch env bs h = Inr node" by (auto simp: solid_node)
  from walk_solid [OF assms f, of "[]"] obtain k out where
    w: "\<And>fuel. k \<le> fuel \<Longrightarrow> walk fuel env bs [([], node)] [] = Some (Inr out)"
    and out: "set out = node_files env bs [] node" by blast
  have mem: "(p, e) \<in> set out \<longleftrightarrow> look env bs (Some h) p = Some e" for p e
    by (auto simp: out node_files_def look_node [OF f])
  let ?m = "fold (\<lambda>(p, e) m. btm_insert (path_of p) e m) out []"
  have "btm_ok ?m \<and> (\<forall>k e. btm_get ?m k = Some e \<longleftrightarrow> btm_get [] k = Some e \<or> (\<exists>p. k = path_of p \<and> (p, e) \<in> set out))"
    by (rule fold_insert_view) (auto simp: mem)
  moreover have "get_manifest fuel env bs h = Some (Inr ?m)" if "k \<le> fuel" for fuel
    using w [OF that] f by (simp add: get_manifest_def)
  ultimately show thesis using that [of k ?m] by (simp add: mem)
qed

lemma build_root_view:
  assumes env: "env_ok env" and ad: "addressed env bs" and base: "root_solid env bs base"
  obtains h bs' where "build_root env bs base cs = (Inr h, bs')" "bs \<subseteq>\<^sub>m bs'" "addressed env bs'" "solid env bs' h"
    "\<And>p. p \<noteq> [] \<Longrightarrow> look env bs' (Some h) p = updated cs (look env bs base) p"
proof -
  from build_node_built(1) [OF assms] obtain r bs1 where b: "build_node env bs base cs = (Inr r, bs1)"
    and bt: "built env bs base cs r bs1" by blast
  show thesis
  proof (cases r)
    case (Some h)
    with b bt that [of h bs1] show thesis by (auto simp: build_root_def built_def dir_solid_def)
  next
    case None
    from bt have le: "bs \<subseteq>\<^sub>m bs1" and ad1: "addressed env bs1"
      and view: "\<And>p. p \<noteq> [] \<Longrightarrow> updated cs (look env bs base) p = None" by (auto simp: built_def None)
    obtain h bs2 where st: "store_node env bs1 empty_node = (Inr h, bs2)" "bs1 \<subseteq>\<^sub>m bs2" "addressed env bs2"
      "fetch env bs2 h = Inr empty_node" using store_node_ok [OF env ad1] .
    have "solid env bs2 h" using st(4) by (auto simp: solid_node)
    moreover have "look env bs2 (Some h) p = None" for p
      by (cases p) (simp_all add: st(4) empty_node_def)
    ultimately show thesis
      using that [of h bs2] b st None le view by (simp add: build_root_def map_le_trans)
  qed
qed

text \<open>The same facts as existential statements.\<close>

lemma list_subtree_ex:
  assumes "root_solid env bs r"
  shows "\<exists>k ps. (\<forall>fuel \<ge> k. list_subtree fuel env bs r comps = Some (Inr ps))
    \<and> set ps = {comps @ q |q. q \<noteq> [] \<and> look env bs r (comps @ q) \<noteq> None}"
proof (rule list_subtree_view [OF assms, of comps])
  fix k ps
  assume "\<And>fuel. k \<le> fuel \<Longrightarrow> list_subtree fuel env bs r comps = Some (Inr ps)"
    "set ps = {comps @ q |q. q \<noteq> [] \<and> look env bs r (comps @ q) \<noteq> None}"
  then show ?thesis by (intro exI [of _ k] exI [of _ ps]) simp
qed

lemma build_root_ex:
  assumes "env_ok env" and "addressed env bs" and "root_solid env bs base"
  shows "\<exists>h bs'. build_root env bs base cs = (Inr h, bs') \<and> bs \<subseteq>\<^sub>m bs' \<and> addressed env bs' \<and> solid env bs' h
    \<and> (\<forall>p. p \<noteq> [] \<longrightarrow> look env bs' (Some h) p = updated cs (look env bs base) p)"
proof (rule build_root_view [OF assms, of cs])
  fix h bs'
  assume "build_root env bs base cs = (Inr h, bs')" "bs \<subseteq>\<^sub>m bs'" "addressed env bs'" "solid env bs' h"
    "\<And>p. p \<noteq> [] \<Longrightarrow> look env bs' (Some h) p = updated cs (look env bs base) p"
  then show ?thesis by (intro exI [of _ h] exI [of _ bs']) simp
qed

lemma get_manifest_ex:
  assumes "solid env bs h"
  shows "\<exists>k m. (\<forall>fuel \<ge> k. get_manifest fuel env bs h = Some (Inr m)) \<and> btm_ok m
    \<and> (\<forall>key e. btm_get m key = Some e \<longleftrightarrow> (\<exists>p. key = path_of p \<and> look env bs (Some h) p = Some e))"
proof (rule get_manifest_view [OF assms])
  fix k m
  assume "\<And>fuel. k \<le> fuel \<Longrightarrow> get_manifest fuel env bs h = Some (Inr m)" "btm_ok m"
    "\<And>key e. btm_get m key = Some e \<longleftrightarrow> (\<exists>p. key = path_of p \<and> look env bs (Some h) p = Some e)"
  then show ?thesis by (intro exI [of _ k] exI [of _ m]) simp
qed

end
