(* ===== verification/Fs_Files.thy ===== *)
theory Fs_Files
  imports Fs_View
begin

text \<open>
  File contents (\<open>src/server/src/engine/fs_chunker.rs\<close> and the writer and reader of
  \<open>fs_store.rs\<close>): tagged compression, content-defined chunks, the push-based \<open>FileWriter\<close>, and
  \<open>read_file\<close>. FastCDC and zstd are fields of \<open>fs_env\<close>.
\<close>

section \<open>Chunker\<close>

definition SMALL_FILE_MAX :: nat where "SMALL_FILE_MAX = 64 * 1024"
definition MAX_CHUNK :: nat where "MAX_CHUNK = 4 * 1024 * 1024"
definition FLUSH_THRESHOLD :: nat where "FLUSH_THRESHOLD = 2 * MAX_CHUNK"

definition maybe_compress :: "fs_env \<Rightarrow> bytes \<Rightarrow> bytes" where
  "maybe_compress env chunk =
     (case zstd_encode env chunk of
        Some z \<Rightarrow> if length z < length chunk then 1 # z else 0 # chunk
      | None \<Rightarrow> 0 # chunk)"

definition decompress :: "fs_env \<Rightarrow> bytes \<Rightarrow> bytes result" where
  "decompress env stored =
     (case stored of
        [] \<Rightarrow> Inl (Err ''corrupt chunk blob: missing compression tag'')
      | tag # rest \<Rightarrow>
          if tag = 0 then Inr rest
          else if tag = 1
          then (case zstd_decode env rest of Inl e \<Rightarrow> Inl (Err (''zstd decode: '' @ e)) | Inr b \<Rightarrow> Inr b)
          else Inl (Err ''corrupt chunk blob: missing compression tag''))"

record chunk_ref =
  cr_hash :: hash
  cr_offset :: nat
  cr_length :: nat

definition byte_slice :: "bytes \<Rightarrow> nat \<Rightarrow> nat \<Rightarrow> bytes" where
  "byte_slice data off len = take len (drop off data)"

definition chunk_refs :: "fs_env \<Rightarrow> bytes \<Rightarrow> chunk_ref list" where
  "chunk_refs env data =
     (if length data \<le> SMALL_FILE_MAX then []
      else map (\<lambda>(off, len). \<lparr>cr_hash = blake3 env (byte_slice data off len), cr_offset = off, cr_length = len\<rparr>)
             (fastcdc env data))"

datatype chunked = ChunkedInline bytes | ChunkedRefs "hash list"

definition chunk_bytes :: "fs_env \<Rightarrow> bytes \<Rightarrow> chunked" where
  "chunk_bytes env data =
     (if length data \<le> SMALL_FILE_MAX then ChunkedInline data
      else ChunkedRefs (map cr_hash (chunk_refs env data)))"

section \<open>Writing and reading files\<close>

record file_writer =
  fw_buf :: bytes
  fw_hashes :: "hash list"
  fw_total :: u64
  fw_chunked :: bool

definition writer_new :: file_writer where
  "writer_new = \<lparr>fw_buf = [], fw_hashes = [], fw_total = 0, fw_chunked = False\<rparr>"

definition put_chunk :: "fs_env \<Rightarrow> hash \<times> bytes \<Rightarrow> blobs \<times> file_writer \<Rightarrow> blobs \<times> file_writer" where
  "put_chunk env c s =
     ((fst s)(chunk_key (fst c) \<mapsto> maybe_compress env (snd c)),
      (snd s)\<lparr>fw_hashes := fw_hashes (snd s) @ [fst c]\<rparr>)"

definition emit :: "bytes \<Rightarrow> chunk_ref list \<Rightarrow> (hash \<times> bytes) list" where
  "emit buf refs = map (\<lambda>c. (cr_hash c, byte_slice buf (cr_offset c) (cr_length c))) refs"

definition feed :: "fs_env \<Rightarrow> bytes \<Rightarrow> blobs \<times> file_writer \<Rightarrow> blobs \<times> file_writer" where
  "feed env data s =
     (let w = (snd s)\<lparr>fw_total := fw_total (snd s) + of_nat (length data), fw_buf := fw_buf (snd s) @ data\<rparr> in
      if length (fw_buf w) > FLUSH_THRESHOLD
      then (let w1 = w\<lparr>fw_chunked := True\<rparr>; refs = chunk_refs env (fw_buf w1) in
            if length refs > 1
            then (case fold (put_chunk env) (emit (fw_buf w1) (butlast refs)) (fst s, w1) of
                    (bs, w2) \<Rightarrow> (bs, w2\<lparr>fw_buf := drop (cr_offset (last refs)) (fw_buf w2)\<rparr>))
            else (fst s, w1))
      else (fst s, w))"

definition finish_file :: "fs_env \<Rightarrow> blobs \<times> file_writer \<Rightarrow> entry \<times> blobs" where
  "finish_file env s =
     (let w = snd s in
      if \<not> fw_chunked w \<and> length (fw_buf w) \<le> SMALL_FILE_MAX
      then (\<lparr>mode_of = 420, size_of = fw_total w, content_of = Inline (fw_buf w), symlink_of = None\<rparr>, fst s)
      else (let refs = chunk_refs env (fw_buf w);
                s' = (if refs = []
                      then (if fw_buf w \<noteq> []
                            then put_chunk env (blake3 env (fw_buf w), fw_buf w) (fst s, w\<lparr>fw_buf := []\<rparr>)
                            else s)
                      else fold (put_chunk env) (emit (fw_buf w) refs) s)
            in (\<lparr>mode_of = 420, size_of = fw_total (snd s'), content_of = Chunks (fw_hashes (snd s')),
                 symlink_of = None\<rparr>, fst s')))"

definition put_file :: "fs_env \<Rightarrow> blobs \<Rightarrow> bytes \<Rightarrow> entry \<times> blobs" where
  "put_file env bs data = finish_file env (feed env data (bs, writer_new))"

text \<open>\<open>put_file_stream\<close> on a reader that returns the given blocks.\<close>

definition put_file_stream :: "fs_env \<Rightarrow> blobs \<Rightarrow> bytes list \<Rightarrow> entry \<times> blobs" where
  "put_file_stream env bs blocks = finish_file env (fold (feed env) blocks (bs, writer_new))"

fun read_chunks :: "fs_env \<Rightarrow> blobs \<Rightarrow> hash list \<Rightarrow> bytes result" where
  "read_chunks env bs [] = Inr []"
| "read_chunks env bs (h # hs) =
     (case bs (chunk_key h) of
        None \<Rightarrow> Inl (Err (''get chunk: not found: '' @ chunk_key h))
      | Some stored \<Rightarrow>
         (case decompress env stored of
            Inl e \<Rightarrow> Inl e
          | Inr b \<Rightarrow> (case read_chunks env bs hs of Inl e \<Rightarrow> Inl e | Inr rest \<Rightarrow> Inr (b @ rest))))"

definition read_file :: "fs_env \<Rightarrow> blobs \<Rightarrow> entry \<Rightarrow> bytes result" where
  "read_file env bs e =
     (case content_of e of
        Inline b \<Rightarrow> Inr b
      | Chunks hashes \<Rightarrow> read_chunks env bs hashes)"

section \<open>What the libraries promise\<close>

text \<open>zstd decodes what it encoded; FastCDC's chunks tile the buffer in order.\<close>

fun tiles :: "nat \<Rightarrow> (nat \<times> nat) list \<Rightarrow> nat \<Rightarrow> bool" where
  "tiles start [] n = (start = n)"
| "tiles start ((off, len) # rs) n = (off = start \<and> tiles (start + len) rs n)"

definition content_env_ok :: "fs_env \<Rightarrow> bool" where
  "content_env_ok env \<longleftrightarrow> inj (blake3 env)
     \<and> (\<forall>b z. zstd_encode env b = Some z \<longrightarrow> zstd_decode env z = Inr b)
     \<and> (\<forall>data. tiles 0 (fastcdc env data) (length data))"

text \<open>Chunk blobs hold what their name says.\<close>

definition chunks_addressed :: "fs_env \<Rightarrow> blobs \<Rightarrow> bool" where
  "chunks_addressed env bs \<longleftrightarrow>
     (\<forall>h s. bs (chunk_key h) = Some s \<longrightarrow> (\<exists>b. s = maybe_compress env b \<and> blake3 env b = h))"

lemma decompress_maybe_compress:
  "content_env_ok env \<Longrightarrow> decompress env (maybe_compress env b) = Inr b"
  by (auto simp: content_env_ok_def maybe_compress_def decompress_def split: option.splits)

lemma tiles_le: "tiles start rs n \<Longrightarrow> start \<le> n"
  by (induction start rs n rule: tiles.induct) auto

lemma tiles_slices:
  "tiles start rs n \<Longrightarrow> n \<le> start + length data \<Longrightarrow> length pre = start \<Longrightarrow>
   concat (map (\<lambda>(off, len). byte_slice (pre @ data) off len) rs) = take (n - start) data"
proof (induction rs arbitrary: start pre data)
  case (Cons r rs)
  obtain off len where r: "r = (off, len)" by fastforce
  have t: "off = start" "tiles (start + len) rs n" using Cons.prems r by simp_all
  have bound: "start + len \<le> n" using tiles_le [OF t(2)] .
  let ?a = "take len data" and ?b = "drop len data"
  have len: "length (pre @ ?a) = start + len" using bound Cons.prems by simp
  have "concat (map (\<lambda>(off, len). byte_slice ((pre @ ?a) @ ?b) off len) rs) = take (n - (start + len)) ?b"
    by (rule Cons.IH [OF t(2) _ len]) (use bound Cons.prems in simp)
  moreover have "?a @ take (n - (start + len)) ?b = take (n - start) data"
  proof -
    have "n - start = len + (n - (start + len))" using bound by simp
    then show ?thesis by (simp only: take_add)
  qed
  ultimately show ?case using t(1) Cons.prems by (simp add: r byte_slice_def)
qed simp

lemma tiles_butlast: "tiles start rs n \<Longrightarrow> rs \<noteq> [] \<Longrightarrow> tiles start (butlast rs) (fst (last rs)) \<and> fst (last rs) \<le> n"
proof (induction start rs n rule: tiles.induct)
  case (2 start off len rs n)
  then show ?case by (cases rs) (auto dest: tiles_le)
qed simp

lemma chunk_refs_tile:
  assumes "content_env_ok env" and "chunk_refs env data \<noteq> []"
  shows "concat (map snd (emit data (chunk_refs env data))) = data"
    and "\<forall>c \<in> set (emit data (chunk_refs env data)). fst c = blake3 env (snd c)"
proof -
  have "tiles 0 (fastcdc env data) (length data)" using assms(1) by (simp add: content_env_ok_def)
  from tiles_slices [OF this, of data "[]"]
  have "concat (map (\<lambda>(off, len). byte_slice data off len) (fastcdc env data)) = data" by simp
  moreover have "map snd (emit data (chunk_refs env data)) = map (\<lambda>(off, len). byte_slice data off len) (fastcdc env data)"
    using assms(2) by (auto simp: emit_def chunk_refs_def split: if_splits)
  ultimately show "concat (map snd (emit data (chunk_refs env data))) = data" by simp
  show "\<forall>c \<in> set (emit data (chunk_refs env data)). fst c = blake3 env (snd c)"
    by (auto simp: emit_def chunk_refs_def split: if_splits)
qed

lemma emit_butlast:
  assumes "content_env_ok env" and "chunk_refs env data \<noteq> []"
  shows "concat (map snd (emit data (butlast (chunk_refs env data))))
     @ drop (cr_offset (last (chunk_refs env data))) data = data"
proof -
  let ?rs = "fastcdc env data"
  have refs: "chunk_refs env data = map (\<lambda>(off, len). \<lparr>cr_hash = blake3 env (byte_slice data off len), cr_offset = off, cr_length = len\<rparr>) ?rs"
    using assms(2) by (auto simp: chunk_refs_def split: if_splits)
  with assms(2) have ne: "?rs \<noteq> []" by auto
  have "tiles 0 ?rs (length data)" using assms(1) by (simp add: content_env_ok_def)
  from tiles_butlast [OF this ne] have t: "tiles 0 (butlast ?rs) (fst (last ?rs))" "fst (last ?rs) \<le> length data" by simp_all
  have "concat (map (\<lambda>(off, len). byte_slice ([] @ data) off len) (butlast ?rs)) = take (fst (last ?rs) - 0) data"
    by (rule tiles_slices [OF t(1)]) (simp_all add: t(2))
  moreover have "map snd (emit data (butlast (chunk_refs env data))) = map (\<lambda>(off, len). byte_slice data off len) (butlast ?rs)"
    unfolding emit_def refs map_butlast map_map by (rule arg_cong [where f = butlast]) (auto simp: comp_def)
  moreover have "cr_offset (last (chunk_refs env data)) = fst (last ?rs)"
    using ne by (simp add: refs last_map split: prod.splits)
  ultimately show ?thesis by simp
qed

section \<open>The writer stores what it was fed\<close>

definition stored_as :: "fs_env \<Rightarrow> blobs \<Rightarrow> hash list \<Rightarrow> bytes list \<Rightarrow> bool" where
  "stored_as env bs hs bss \<longleftrightarrow> list_all2 (\<lambda>h b. bs (chunk_key h) = Some (maybe_compress env b)) hs bss"

lemma stored_as_mono: "stored_as env bs hs bss \<Longrightarrow> bs \<subseteq>\<^sub>m bs' \<Longrightarrow> stored_as env bs' hs bss"
  unfolding stored_as_def by (erule list_all2_mono) (metis domI map_le_def)

lemma stored_as_read:
  "content_env_ok env \<Longrightarrow> stored_as env bs hs bss \<Longrightarrow> read_chunks env bs hs = Inr (concat bss)"
  unfolding stored_as_def
proof (induction hs arbitrary: bss)
  case (Cons h hs)
  then show ?case by (auto simp: list_all2_Cons1 decompress_maybe_compress)
qed simp

text \<open>What writing chunks does to the backend: it only adds chunk blobs, under their hashes.\<close>

definition chunks_added :: "fs_env \<Rightarrow> blobs \<Rightarrow> blobs \<Rightarrow> bool" where
  "chunks_added env bs bs' \<longleftrightarrow> bs \<subseteq>\<^sub>m bs' \<and> chunks_addressed env bs' \<and> (\<forall>h. bs' (tree_key h) = bs (tree_key h))"

lemma chunks_added_refl: "chunks_addressed env bs \<Longrightarrow> chunks_added env bs bs"
  by (simp add: chunks_added_def)

lemma chunks_added_trans: "chunks_added env a b \<Longrightarrow> chunks_added env b c \<Longrightarrow> chunks_added env a c"
  by (auto simp: chunks_added_def intro: map_le_trans)

lemma put_chunk_added:
  assumes "content_env_ok env" and "chunks_addressed env bs" and "fst c = blake3 env (snd c)"
  shows "chunks_added env bs (fst (put_chunk env c (bs, w)))"
proof -
  have "inj (blake3 env)" using assms(1) by (simp add: content_env_ok_def)
  then have "s = maybe_compress env (snd c)" if "bs (chunk_key (fst c)) = Some s" for s
    using assms(2,3) that by (auto simp: chunks_addressed_def dest: injD)
  then show ?thesis
    using assms(2,3) by (auto simp: chunks_added_def put_chunk_def map_le_def chunks_addressed_def)
qed

lemma put_chunks_added:
  assumes env: "content_env_ok env"
  shows "chunks_addressed env bs \<Longrightarrow> \<forall>c \<in> set cs. fst c = blake3 env (snd c) \<Longrightarrow>
    \<exists>bs'. fold (put_chunk env) cs (bs, w) = (bs', w\<lparr>fw_hashes := fw_hashes w @ map fst cs\<rparr>)
      \<and> chunks_added env bs bs' \<and> stored_as env bs' (map fst cs) (map snd cs)"
proof (induction cs arbitrary: bs w)
  case Nil
  then show ?case by (simp add: chunks_added_refl stored_as_def)
next
  case (Cons c cs)
  let ?bs = "bs(chunk_key (fst c) \<mapsto> maybe_compress env (snd c))"
  have added: "chunks_added env bs ?bs"
    using put_chunk_added [OF env Cons.prems(1), of c w] Cons.prems(2) by (simp add: put_chunk_def)
  then have ad: "chunks_addressed env ?bs" by (simp add: chunks_added_def)
  have cs: "\<forall>c \<in> set cs. fst c = blake3 env (snd c)" using Cons.prems(2) by simp
  from Cons.IH [OF ad cs, of "w\<lparr>fw_hashes := fw_hashes w @ [fst c]\<rparr>"]
  obtain bs' where rest: "fold (put_chunk env) cs (?bs, w\<lparr>fw_hashes := fw_hashes w @ [fst c]\<rparr>)
      = (bs', w\<lparr>fw_hashes := fw_hashes w @ [fst c] @ map fst cs\<rparr>)"
    "chunks_added env ?bs bs'" "stored_as env bs' (map fst cs) (map snd cs)"
    by (auto simp del: fun_upd_apply)
  have "bs' (chunk_key (fst c)) = Some (maybe_compress env (snd c))"
    using rest(2) by (auto simp: chunks_added_def map_le_def)
  with rest(3) have "stored_as env bs' (map fst (c # cs)) (map snd (c # cs))" by (simp add: stored_as_def)
  moreover have "put_chunk env c (bs, w) = (?bs, w\<lparr>fw_hashes := fw_hashes w @ [fst c]\<rparr>)" by (simp add: put_chunk_def)
  ultimately show ?case using rest(1) chunks_added_trans [OF added rest(2)] by simp
qed

definition writer_inv :: "fs_env \<Rightarrow> blobs \<Rightarrow> bytes \<Rightarrow> blobs \<times> file_writer \<Rightarrow> bool" where
  "writer_inv env bs0 data s \<longleftrightarrow> chunks_added env bs0 (fst s)
     \<and> (\<exists>bss. stored_as env (fst s) (fw_hashes (snd s)) bss \<and> concat bss @ fw_buf (snd s) = data)
     \<and> fw_total (snd s) = of_nat (length data)
     \<and> (\<not> fw_chunked (snd s) \<longrightarrow> fw_hashes (snd s) = [])"

lemma stored_as_append:
  "stored_as env bs hs bss \<Longrightarrow> stored_as env bs hs' bss' \<Longrightarrow> stored_as env bs (hs @ hs') (bss @ bss')"
  unfolding stored_as_def by (rule list_all2_appendI)

lemma writer_flush:
  assumes env: "content_env_ok env" and inv: "writer_inv env bs0 data (bs, w)"
    and cs: "\<forall>c \<in> set cs. fst c = blake3 env (snd c)" and buf: "concat (map snd cs) @ rest = fw_buf w"
  obtains bs' where "fold (put_chunk env) cs (bs, w) = (bs', w\<lparr>fw_hashes := fw_hashes w @ map fst cs\<rparr>)"
    "chunks_added env bs0 bs'"
    "\<exists>bss. stored_as env bs' (fw_hashes w @ map fst cs) bss \<and> concat bss @ rest = data"
proof -
  have a0: "chunks_added env bs0 bs" and "chunks_addressed env bs" using inv by (auto simp: writer_inv_def chunks_added_def)
  from put_chunks_added [OF env this(2) cs] obtain bs' where f:
    "fold (put_chunk env) cs (bs, w) = (bs', w\<lparr>fw_hashes := fw_hashes w @ map fst cs\<rparr>)"
    "chunks_added env bs bs'" "stored_as env bs' (map fst cs) (map snd cs)" by blast
  obtain bss where bss: "stored_as env bs (fw_hashes w) bss" "concat bss @ fw_buf w = data"
    using inv by (auto simp: writer_inv_def)
  have "stored_as env bs' (fw_hashes w @ map fst cs) (bss @ map snd cs)"
    using f(2,3) stored_as_mono [OF bss(1)] by (intro stored_as_append) (auto simp: chunks_added_def)
  moreover have "concat (bss @ map snd cs) @ rest = data" using bss(2) buf by simp
  ultimately show thesis using that f(1) chunks_added_trans [OF a0 f(2)] by blast
qed

lemma feed_inv:
  assumes env: "content_env_ok env" and inv: "writer_inv env bs0 data s"
  shows "writer_inv env bs0 (data @ blk) (feed env blk s)"
proof -
  obtain bs w where s: "s = (bs, w)" by fastforce
  define w1 where "w1 = w\<lparr>fw_total := fw_total w + of_nat (length blk), fw_buf := fw_buf w @ blk\<rparr>"
  have inv1: "writer_inv env bs0 (data @ blk) (bs, w1)"
    using inv by (auto simp: writer_inv_def s w1_def)
  then have inv2: "writer_inv env bs0 (data @ blk) (bs, w1\<lparr>fw_chunked := True\<rparr>)" by (auto simp: writer_inv_def)
  let ?refs = "chunk_refs env (fw_buf w1)"
  show ?thesis
  proof (cases "length (fw_buf w1) > FLUSH_THRESHOLD \<and> length ?refs > 1")
    case False
    then have "feed env blk s = (bs, w1) \<or> feed env blk s = (bs, w1\<lparr>fw_chunked := True\<rparr>)"
      by (auto simp: feed_def Let_def s w1_def)
    with inv1 inv2 show ?thesis by auto
  next
    case True
    then have ne: "?refs \<noteq> []" by auto
    let ?cs = "emit (fw_buf w1) (butlast ?refs)"
    have hashes: "\<forall>c \<in> set ?cs. fst c = blake3 env (snd c)"
      using chunk_refs_tile(2) [OF env ne] by (auto simp: emit_def dest: in_set_butlastD)
    have "concat (map snd ?cs) @ drop (cr_offset (last ?refs)) (fw_buf w1) = fw_buf (w1\<lparr>fw_chunked := True\<rparr>)"
      using emit_butlast [OF env ne] by simp
    from writer_flush [OF env inv2 hashes this] obtain bs' where
      f: "fold (put_chunk env) ?cs (bs, w1\<lparr>fw_chunked := True\<rparr>)
          = (bs', w1\<lparr>fw_chunked := True, fw_hashes := fw_hashes w1 @ map fst ?cs\<rparr>)"
      and a: "chunks_added env bs0 bs'"
      and st: "\<exists>bss. stored_as env bs' (fw_hashes w1 @ map fst ?cs) bss
         \<and> concat bss @ drop (cr_offset (last ?refs)) (fw_buf w1) = data @ blk"
      by auto
    have "feed env blk s = (bs', w1\<lparr>fw_chunked := True, fw_hashes := fw_hashes w1 @ map fst ?cs,
        fw_buf := drop (cr_offset (last ?refs)) (fw_buf w1)\<rparr>)"
      using True f by (simp add: feed_def Let_def s w1_def)
    with a st inv1 show ?thesis by (simp add: writer_inv_def)
  qed
qed

lemma feeds_inv:
  "content_env_ok env \<Longrightarrow> writer_inv env bs0 data s \<Longrightarrow>
   writer_inv env bs0 (data @ concat blocks) (fold (feed env) blocks s)"
proof (induction blocks arbitrary: data s)
  case (Cons b blocks)
  from Cons.IH [OF Cons.prems(1) feed_inv [OF Cons.prems]] show ?case by simp
qed simp

lemma writer_new_inv: "chunks_addressed env bs \<Longrightarrow> writer_inv env bs [] (bs, writer_new)"
  by (simp add: writer_inv_def writer_new_def chunks_added_refl stored_as_def)

lemma finish_file_inv:
  assumes env: "content_env_ok env" and inv: "writer_inv env bs0 data s" and fin: "finish_file env s = (e, bs')"
  shows "chunks_added env bs0 bs' \<and> read_file env bs' e = Inr data \<and> size_of e = of_nat (length data)"
proof -
  obtain bs w where s: "s = (bs, w)" by fastforce
  have total: "fw_total w = of_nat (length data)" and a0: "chunks_added env bs0 bs" using inv by (auto simp: writer_inv_def s)
  show ?thesis
  proof (cases "\<not> fw_chunked w \<and> length (fw_buf w) \<le> SMALL_FILE_MAX")
    case True
    then have "fw_buf w = data" using inv by (auto simp: writer_inv_def s stored_as_def)
    with True fin total a0 show ?thesis by (auto simp: finish_file_def s read_file_def Let_def)
  next
    case False
    define cs where "cs = (if chunk_refs env (fw_buf w) = []
      then (if fw_buf w \<noteq> [] then [(blake3 env (fw_buf w), fw_buf w)] else [])
      else emit (fw_buf w) (chunk_refs env (fw_buf w)))"
    have hashes: "\<forall>c \<in> set cs. fst c = blake3 env (snd c)"
      using chunk_refs_tile(2) [OF env] by (auto simp: cs_def)
    have "concat (map snd cs) @ [] = fw_buf w" using chunk_refs_tile(1) [OF env] by (auto simp: cs_def)
    from writer_flush [OF env inv [unfolded s] hashes this] obtain bs1 where
      f: "fold (put_chunk env) cs (bs, w) = (bs1, w\<lparr>fw_hashes := fw_hashes w @ map fst cs\<rparr>)"
      and a: "chunks_added env bs0 bs1"
      and "\<exists>bss. stored_as env bs1 (fw_hashes w @ map fst cs) bss \<and> concat bss @ [] = data" .
    then obtain bss where st: "stored_as env bs1 (fw_hashes w @ map fst cs) bss" "concat bss = data" by auto
    have "e = \<lparr>mode_of = 420, size_of = fw_total w, content_of = Chunks (fw_hashes w @ map fst cs), symlink_of = None\<rparr>
        \<and> bs' = bs1"
      using fin False f by (auto simp: finish_file_def s Let_def cs_def put_chunk_def split: if_splits)
    with a st total stored_as_read [OF env st(1)] show ?thesis by (simp add: read_file_def)
  qed
qed

lemma put_file_ok:
  assumes "content_env_ok env" and "chunks_addressed env bs" and "put_file env bs b = (e, bs')"
  shows "chunks_added env bs bs' \<and> read_file env bs' e = Inr b \<and> size_of e = of_nat (length b) \<and> symlink_of e = None"
proof -
  have "writer_inv env bs b (feed env b (bs, writer_new))"
    using feeds_inv [OF assms(1) writer_new_inv [OF assms(2)], of "[b]"] by simp
  moreover have "finish_file env (feed env b (bs, writer_new)) = (e, bs')" using assms(3) by (simp add: put_file_def)
  moreover from this have "symlink_of e = None"
    by (auto simp: finish_file_def Let_def split: prod.splits if_splits)
  ultimately show ?thesis using finish_file_inv [OF assms(1)] by blast
qed

end
