(* ===== verification/Fs_Merge.thy ===== *)
theory Fs_Merge
  imports Fs_View
begin

text \<open>
  Three-way merges (\<open>src/server/src/engine/fs_merge.rs\<close>): the flat merge of manifests, and the lazy
  merge of stored trees that prunes equal subtrees by hash. Both decide every path by the same rule.
\<close>

section \<open>The flat merge\<close>

datatype preference = PreferNone | PreferOurs | PreferTheirs

definition prefer_parse :: "string option \<Rightarrow> string + preference" where
  "prefer_parse s =
     (case map_option (\<lambda>v. ascii_lower (trim v)) s of
        None \<Rightarrow> Inr PreferNone
      | Some v \<Rightarrow>
          if v = '''' \<or> v = ''none'' then Inr PreferNone
          else if v = ''ours'' then Inr PreferOurs
          else if v = ''theirs'' then Inr PreferTheirs
          else Inl (''invalid prefer '' @ [CHR 0x27] @ v @ [CHR 0x27] @ '': expected ours|theirs|none''))"

record merge_conflict =
  mc_path :: path
  mc_base :: "entry option"
  mc_ours :: "entry option"
  mc_theirs :: "entry option"

text \<open>The per-path rule; \<open>None\<close> is a conflict, \<open>Some None\<close> a deletion.\<close>

definition chosen :: "preference \<Rightarrow> entry option \<Rightarrow> entry option \<Rightarrow> entry option \<Rightarrow> entry option option" where
  "chosen pref b ours theirs =
     (if ours = theirs then Some ours
      else if ours = b then Some theirs
      else if theirs = b then Some ours
      else (case pref of PreferOurs \<Rightarrow> Some ours | PreferTheirs \<Rightarrow> Some theirs | PreferNone \<Rightarrow> None))"

definition merge_path ::
  "preference \<Rightarrow> manifest option \<Rightarrow> manifest \<Rightarrow> manifest \<Rightarrow> path \<Rightarrow> manifest \<times> merge_conflict list
   \<Rightarrow> manifest \<times> merge_conflict list" where
  "merge_path pref base ours theirs p acc =
     (let b = Option.bind base (\<lambda>m. btm_get m p); ent = btm_get ours p; t = btm_get theirs p in
      case chosen pref b ent t of
        Some (Some e) \<Rightarrow> (btm_insert p e (fst acc), snd acc)
      | Some None \<Rightarrow> acc
      | None \<Rightarrow> (fst acc, snd acc @ [\<lparr>mc_path = p, mc_base = b, mc_ours = ent, mc_theirs = t\<rparr>]))"

text \<open>A \<open>BTreeSet\<close> filled from lists of keys, in iteration order.\<close>

definition key_union :: "'k::linorder list \<Rightarrow> 'k list" where
  "key_union ks = sort (remdups ks)"

definition merge_manifests ::
  "manifest option \<Rightarrow> manifest \<Rightarrow> manifest \<Rightarrow> preference \<Rightarrow> manifest \<times> merge_conflict list" where
  "merge_manifests base ours theirs pref =
     fold (merge_path pref base ours theirs)
       (key_union ((case base of None \<Rightarrow> [] | Some b \<Rightarrow> btm_keys b) @ btm_keys ours @ btm_keys theirs))
       ([], [])"

section \<open>The tree merge\<close>

datatype file_decision = Take "entry option" | Conflict

definition decide_file :: "entry option \<Rightarrow> entry option \<Rightarrow> entry option \<Rightarrow> preference \<Rightarrow> file_decision" where
  "decide_file b ours theirs pref =
     (if ours = theirs then Take ours
      else if ours = b then Take theirs
      else if theirs = b then Take ours
      else (case pref of
              PreferOurs \<Rightarrow> Take ours
            | PreferTheirs \<Rightarrow> Take theirs
            | PreferNone \<Rightarrow> Conflict))"

definition load_opt :: "fs_env \<Rightarrow> blobs \<Rightarrow> hash option \<Rightarrow> tree_node option result" where
  "load_opt env bs r =
     (case r of
        None \<Rightarrow> Inr None
      | Some h \<Rightarrow> (case fetch env bs h of Inl e \<Rightarrow> Inl e | Inr n \<Rightarrow> Inr (Some n)))"

definition child_of :: "tree_node option \<Rightarrow> string \<Rightarrow> tree_child" where
  "child_of node name =
     (case node of
        None \<Rightarrow> no_child
      | Some n \<Rightarrow> (case btm_get (children n) name of None \<Rightarrow> no_child | Some c \<Rightarrow> c))"

definition node_names :: "tree_node option \<Rightarrow> string list" where
  "node_names node = (case node of None \<Rightarrow> [] | Some n \<Rightarrow> btm_keys (children n))"

type_synonym merge_rec =
  "blobs \<Rightarrow> hash option \<Rightarrow> hash option \<Rightarrow> hash option \<Rightarrow> string list
   \<Rightarrow> ((hash option \<times> merge_conflict list) result \<times> blobs) option"

text \<open>The loop over the names of a directory; \<open>rec\<close> is the recursive call.\<close>

fun merge_names ::
  "merge_rec \<Rightarrow> preference \<Rightarrow> string list \<Rightarrow> tree_node option \<Rightarrow> tree_node option \<Rightarrow> tree_node option
   \<Rightarrow> string list \<Rightarrow> blobs \<Rightarrow> tree_node \<Rightarrow> merge_conflict list
   \<Rightarrow> ((tree_node \<times> merge_conflict list) result \<times> blobs) option" where
  "merge_names rec pref prefix bn on tn [] bs out conflicts = Some (Inr (out, conflicts), bs)"
| "merge_names rec pref prefix bn on tn (name # names) bs out conflicts =
     (let bc = child_of bn name; oc = child_of on name; tc = child_of tn name;
          decision = decide_file (tc_file bc) (tc_file oc) (tc_file tc) pref;
          conflicts' = (case decision of
             Take _ \<Rightarrow> conflicts
           | Conflict \<Rightarrow> conflicts @ [\<lparr>mc_path = path_of (prefix @ [name]), mc_base = tc_file bc,
                mc_ours = tc_file oc, mc_theirs = tc_file tc\<rparr>]);
          merged = (if tc_dir oc = tc_dir tc then Some (Inr (tc_dir oc, []), bs)
                    else if tc_dir bc = tc_dir oc then Some (Inr (tc_dir tc, []), bs)
                    else if tc_dir bc = tc_dir tc then Some (Inr (tc_dir oc, []), bs)
                    else rec bs (tc_dir bc) (tc_dir oc) (tc_dir tc) (prefix @ [name]))
      in case merged of
           None \<Rightarrow> None
         | Some (Inl e, bs') \<Rightarrow> Some (Inl e, bs')
         | Some (Inr (d, sub), bs') \<Rightarrow>
             merge_names rec pref prefix bn on tn names bs'
               (let child = \<lparr>tc_file = (case decision of Take f \<Rightarrow> f | Conflict \<Rightarrow> None), tc_dir = d\<rparr>
                in if child_is_empty child then out
                   else out\<lparr>children := btm_insert name child (children out)\<rparr>)
               (conflicts' @ sub))"

fun merge_node :: "nat \<Rightarrow> fs_env \<Rightarrow> preference \<Rightarrow> merge_rec" where
  "merge_node 0 env pref bs base ours theirs prefix = None"
| "merge_node (Suc fuel) env pref bs base ours theirs prefix =
     (if ours = theirs then Some (Inr (ours, []), bs)
      else if base = ours then Some (Inr (theirs, []), bs)
      else if base = theirs then Some (Inr (ours, []), bs)
      else case load_opt env bs base of
        Inl e \<Rightarrow> Some (Inl e, bs)
      | Inr bn \<Rightarrow>
       (case load_opt env bs ours of
          Inl e \<Rightarrow> Some (Inl e, bs)
        | Inr on \<Rightarrow>
         (case load_opt env bs theirs of
            Inl e \<Rightarrow> Some (Inl e, bs)
          | Inr tn \<Rightarrow>
             (case merge_names (merge_node fuel env pref) pref prefix bn on tn
                     (key_union (node_names bn @ node_names on @ node_names tn)) bs empty_node [] of
                None \<Rightarrow> None
              | Some (Inl e, bs') \<Rightarrow> Some (Inl e, bs')
              | Some (Inr (out, conflicts), bs') \<Rightarrow>
                 (if children out = [] then Some (Inr (None, conflicts), bs')
                  else (case store_node env bs' out of
                          (Inl e, bs'') \<Rightarrow> Some (Inl e, bs'')
                        | (Inr h, bs'') \<Rightarrow> Some (Inr (Some h, conflicts), bs'')))))))"

definition merge_trees ::
  "nat \<Rightarrow> fs_env \<Rightarrow> blobs \<Rightarrow> hash option \<Rightarrow> hash option \<Rightarrow> hash option \<Rightarrow> preference
   \<Rightarrow> ((hash \<times> merge_conflict list) result \<times> blobs) option" where
  "merge_trees fuel env bs base ours theirs pref =
     (case merge_node fuel env pref bs base ours theirs [] of
        None \<Rightarrow> None
      | Some (Inl e, bs') \<Rightarrow> Some (Inl e, bs')
      | Some (Inr (Some h, conflicts), bs') \<Rightarrow> Some (Inr (h, conflicts), bs')
      | Some (Inr (None, conflicts), bs') \<Rightarrow>
         (case store_node env bs' empty_node of
            (Inl e, bs'') \<Rightarrow> Some (Inl e, bs'')
          | (Inr h, bs'') \<Rightarrow> Some (Inr (h, conflicts), bs'')))"

section \<open>The per-path rule\<close>

definition taken :: "preference \<Rightarrow> entry option \<Rightarrow> entry option \<Rightarrow> entry option \<Rightarrow> entry option" where
  "taken pref b ours theirs = (case decide_file b ours theirs pref of Take f \<Rightarrow> f | Conflict \<Rightarrow> None)"

lemma decide_file_chosen:
  "decide_file b ours theirs pref = (case chosen pref b ours theirs of None \<Rightarrow> Conflict | Some f \<Rightarrow> Take f)"
  by (simp add: decide_file_def chosen_def split: preference.splits)

lemma decide_same [simp]: "decide_file b f f pref = Take f" "decide_file f f g pref = Take g" "decide_file f g f pref = Take g"
  by (simp_all add: decide_file_def)

lemma taken_same [simp]: "taken pref b f f = f" "taken pref f f g = g" "taken pref f g f = g"
  by (simp_all add: taken_def)

definition conflicts_of ::
  "preference \<Rightarrow> string list \<Rightarrow> (string list \<Rightarrow> entry option) \<Rightarrow> (string list \<Rightarrow> entry option)
   \<Rightarrow> (string list \<Rightarrow> entry option) \<Rightarrow> merge_conflict set" where
  "conflicts_of pref prefix fb fo ft =
     {\<lparr>mc_path = path_of (prefix @ p), mc_base = fb p, mc_ours = fo p, mc_theirs = ft p\<rparr> |p.
        decide_file (fb p) (fo p) (ft p) pref = Conflict}"

text \<open>
  The outcome of a merge below \<open>prefix\<close>: every path decided by the rule, and the conflicts exactly
  the undecided paths, in path order.
\<close>

definition merged_as ::
  "fs_env \<Rightarrow> preference \<Rightarrow> string list \<Rightarrow> (string list \<Rightarrow> entry option) \<Rightarrow> (string list \<Rightarrow> entry option)
   \<Rightarrow> (string list \<Rightarrow> entry option) \<Rightarrow> hash option \<Rightarrow> merge_conflict list \<Rightarrow> blobs \<Rightarrow> bool" where
  "merged_as env pref prefix fb fo ft r cs bs \<longleftrightarrow>
     (\<forall>p. p \<noteq> [] \<longrightarrow> look env bs r p = taken pref (fb p) (fo p) (ft p))
   \<and> set cs = conflicts_of pref prefix fb fo ft
   \<and> sorted_wrt (<) (map mc_path cs)"

lemma conflicts_of_none: "(\<And>p. decide_file (fb p) (fo p) (ft p) pref \<noteq> Conflict) \<Longrightarrow> conflicts_of pref prefix fb fo ft = {}"
  by (simp add: conflicts_of_def)

lemma merged_pruned:
  "ours = theirs \<Longrightarrow> merged_as env pref prefix (look env bs base) (look env bs ours) (look env bs theirs) ours [] bs"
  "base = ours \<Longrightarrow> merged_as env pref prefix (look env bs base) (look env bs ours) (look env bs theirs) theirs [] bs"
  "base = theirs \<Longrightarrow> merged_as env pref prefix (look env bs base) (look env bs ours) (look env bs theirs) ours [] bs"
  by (simp_all add: merged_as_def conflicts_of_none)

lemma merged_as_cong:
  assumes "merged_as env pref prefix fb fo ft r cs bs"
    and "\<And>p. fb p = fb' p" "\<And>p. fo p = fo' p" "\<And>p. ft p = ft' p"
  shows "merged_as env pref prefix fb' fo' ft' r cs bs"
proof -
  have "fb = fb'" "fo = fo'" "ft = ft'" using assms(2-) by auto
  with assms(1) show ?thesis by simp
qed

section \<open>Bounded depth\<close>

fun deep :: "fs_env \<Rightarrow> blobs \<Rightarrow> nat \<Rightarrow> hash option \<Rightarrow> bool" where
  "deep env bs n None = True"
| "deep env bs 0 (Some h) = False"
| "deep env bs (Suc n) (Some h) =
     (\<exists>node. fetch env bs h = Inr node \<and> (\<forall>name. deep env bs n (tc_dir (child_at node name))))"

lemma deep_step: "deep env bs n r \<Longrightarrow> deep env bs (Suc n) r"
proof (induction n arbitrary: r)
  case 0
  then show ?case by (cases r) simp_all
next
  case (Suc n)
  then show ?case by (cases r) auto
qed

lemma deep_le: "deep env bs n r \<Longrightarrow> n \<le> m \<Longrightarrow> deep env bs m r"
  using lift_Suc_mono_le [of "\<lambda>n. deep env bs n r" n m] deep_step by (auto simp: le_fun_def le_bool_def)

lemma deep_mono: "deep env bs n r \<Longrightarrow> bs \<subseteq>\<^sub>m bs' \<Longrightarrow> deep env bs' n r"
proof (induction n arbitrary: r)
  case 0
  then show ?case by (cases r) simp_all
next
  case (Suc n)
  then show ?case by (cases r) (auto dest: fetch_mono)
qed

lemma solid_deep:
  assumes "solid env bs h"
  shows "\<exists>n. deep env bs n (Some h)"
  using assms
proof induction
  case (solidI h node)
  have "\<exists>n. deep env bs n (tc_dir (child_at node name))" for name
    using solidI(4) [of name]
    by (cases "tc_dir (child_at node name)") (auto simp: child_at_def no_child_def split: option.splits intro: deep.simps(1))
  then obtain f where f: "\<And>name. deep env bs (f name) (tc_dir (child_at node name))" by metis
  define n where "n = Max (insert 0 (f ` set (btm_keys (children node))))"
  have "deep env bs n (tc_dir (child_at node name))" for name
  proof (cases "btm_get (children node) name")
    case None
    then show ?thesis by (simp add: child_at_def no_child_def)
  next
    case (Some c)
    then have "f name \<le> n" by (auto simp: n_def intro!: Max_ge dest: btm_get_mem)
    with f show ?thesis by (rule deep_le)
  qed
  with solidI(1) have "deep env bs (Suc n) (Some h)" by auto
  then show ?case ..
qed

lemma root_deep: "root_solid env bs r \<Longrightarrow> \<exists>n. deep env bs n r"
  by (cases r) (auto simp: root_solid_def dest: solid_deep intro: deep.simps(1))

section \<open>Path order\<close>

lemma append_less: "(xs :: 'a::linorder list) @ ys < xs @ zs \<longleftrightarrow> ys < zs"
  by (induction xs) simp_all

lemma Normal_less: "Normal a < Normal b \<longleftrightarrow> a < b"
  by (auto simp: less_component_def)

lemma path_less_name: "n < m \<Longrightarrow> path_of (prefix @ n # x) < path_of (prefix @ m # y)"
  by (simp add: path_of_map append_less Normal_less)

lemma path_less_below: "q \<noteq> [] \<Longrightarrow> path_of (prefix @ [n]) < path_of (prefix @ n # q)"
  by (cases q) (simp_all add: path_of_map append_less)

section \<open>The tree merge decides every path\<close>

definition node_or :: "tree_node option \<Rightarrow> tree_node" where
  "node_or n = (case n of None \<Rightarrow> empty_node | Some x \<Rightarrow> x)"

lemma child_of_at: "child_of n name = child_at (node_or n) name"
  by (simp add: child_of_def child_at_def node_or_def empty_node_def split: option.splits)

definition opens :: "fs_env \<Rightarrow> blobs \<Rightarrow> hash option \<Rightarrow> tree_node option \<Rightarrow> bool" where
  "opens env bs r n \<longleftrightarrow> load_opt env bs r = Inr n \<and> node_solid env bs (node_or n)
     \<and> look env bs r = node_look env bs (node_or n)
     \<and> (\<forall>name. name \<notin> set (node_names n) \<longrightarrow> btm_get (children (node_or n)) name = None)"

lemma load_opt_ok:
  assumes "root_solid env bs r"
  shows "\<exists>n. opens env bs r n"
proof (cases r)
  case None
  have "look env bs None = node_look env bs empty_node"
    by (rule ext, rename_tac p, case_tac p) (simp_all add: node_look_def empty_node_def)
  with None have "opens env bs r None"
    by (simp add: opens_def load_opt_def node_or_def) (simp add: empty_node_def)
  then show ?thesis ..
next
  case (Some h)
  with assms obtain node where f: "fetch env bs h = Inr node" and ok: "node_solid env bs node"
    by (auto simp: root_solid_def solid_node)
  have "look env bs (Some h) = node_look env bs node" using look_node [OF f] by (rule ext)
  with f ok Some have "opens env bs r (Some node)"
    by (simp add: opens_def load_opt_def node_or_def node_names_def map_of_eq_None_iff)
  then show ?thesis ..
qed

definition rec_ok ::
  "fs_env \<Rightarrow> preference \<Rightarrow> merge_rec \<Rightarrow> blobs \<Rightarrow> string list \<Rightarrow> tree_node \<Rightarrow> tree_node \<Rightarrow> tree_node \<Rightarrow> bool" where
  "rec_ok env pref rec bs0 prefix B Y T \<longleftrightarrow>
     (\<forall>bs name. bs0 \<subseteq>\<^sub>m bs \<longrightarrow> addressed env bs \<longrightarrow>
        (\<exists>d cs bs'. rec bs (tc_dir (child_at B name)) (tc_dir (child_at Y name)) (tc_dir (child_at T name)) (prefix @ [name])
            = Some (Inr (d, cs), bs')
          \<and> bs \<subseteq>\<^sub>m bs' \<and> addressed env bs' \<and> dir_solid env bs' d
          \<and> merged_as env pref (prefix @ [name]) (look env bs0 (tc_dir (child_at B name)))
              (look env bs0 (tc_dir (child_at Y name))) (look env bs0 (tc_dir (child_at T name))) d cs bs'))"

lemma merge_child_dir:
  assumes rec: "rec_ok env pref rec bs0 prefix B Y T" and le: "bs0 \<subseteq>\<^sub>m bs" and ad: "addressed env bs"
    and ok: "node_solid env bs0 B" "node_solid env bs0 Y" "node_solid env bs0 T"
  obtains d cs bs' where
    "(if tc_dir (child_at Y name) = tc_dir (child_at T name) then Some (Inr (tc_dir (child_at Y name), []), bs)
      else if tc_dir (child_at B name) = tc_dir (child_at Y name) then Some (Inr (tc_dir (child_at T name), []), bs)
      else if tc_dir (child_at B name) = tc_dir (child_at T name) then Some (Inr (tc_dir (child_at Y name), []), bs)
      else rec bs (tc_dir (child_at B name)) (tc_dir (child_at Y name)) (tc_dir (child_at T name)) (prefix @ [name]))
     = Some (Inr (d, cs), bs')"
    "bs \<subseteq>\<^sub>m bs'" "addressed env bs'" "dir_solid env bs' d"
    "merged_as env pref (prefix @ [name]) (look env bs0 (tc_dir (child_at B name)))
       (look env bs0 (tc_dir (child_at Y name))) (look env bs0 (tc_dir (child_at T name))) d cs bs'"
proof -
  let ?b = "tc_dir (child_at B name)" and ?y = "tc_dir (child_at Y name)" and ?t = "tc_dir (child_at T name)"
  have same: "look env bs ?b q = look env bs0 ?b q" "look env bs ?y q = look env bs0 ?y q"
    "look env bs ?t q = look env bs0 ?t q" for q
    by (simp_all add: look_mono [OF dir_root_solid [OF node_solid_child [OF ok(1)]] le]
        look_mono [OF dir_root_solid [OF node_solid_child [OF ok(2)]] le]
        look_mono [OF dir_root_solid [OF node_solid_child [OF ok(3)]] le])
  have ds: "dir_solid env bs ?y" "dir_solid env bs ?t"
    using node_solid_child [OF ok(2)] node_solid_child [OF ok(3)] dir_solid_mono [OF _ le] by blast+
  consider "?y = ?t" | "?y \<noteq> ?t" "?b = ?y" | "?y \<noteq> ?t" "?b \<noteq> ?y" "?b = ?t" | "?y \<noteq> ?t" "?b \<noteq> ?y" "?b \<noteq> ?t" by blast
  then show thesis
  proof cases
    case 1
    with that [of ?y "[]" bs] ad ds merged_pruned(1) [OF 1, THEN merged_as_cong, OF same] show thesis by simp
  next
    case 2
    with that [of ?t "[]" bs] ad ds merged_pruned(2) [OF 2(2), THEN merged_as_cong, OF same] show thesis by simp
  next
    case 3
    with that [of ?y "[]" bs] ad ds merged_pruned(3) [OF 3(3), THEN merged_as_cong, OF same] show thesis by simp
  next
    case 4
    from rec le ad obtain d cs bs' where "rec bs ?b ?y ?t (prefix @ [name]) = Some (Inr (d, cs), bs')"
      "bs \<subseteq>\<^sub>m bs'" "addressed env bs'" "dir_solid env bs' d"
      "merged_as env pref (prefix @ [name]) (look env bs0 ?b) (look env bs0 ?y) (look env bs0 ?t) d cs bs'"
      unfolding rec_ok_def by blast
    with 4 that show thesis by simp
  qed
qed

text \<open>The conflicts at and below one name, and below several.\<close>

definition conflicts_in ::
  "preference \<Rightarrow> string list \<Rightarrow> string set \<Rightarrow> (string list \<Rightarrow> entry option) \<Rightarrow> (string list \<Rightarrow> entry option)
   \<Rightarrow> (string list \<Rightarrow> entry option) \<Rightarrow> merge_conflict set" where
  "conflicts_in pref prefix names fb fo ft =
     {\<lparr>mc_path = path_of (prefix @ n # q), mc_base = fb (n # q), mc_ours = fo (n # q), mc_theirs = ft (n # q)\<rparr> |n q.
        n \<in> names \<and> decide_file (fb (n # q)) (fo (n # q)) (ft (n # q)) pref = Conflict}"

lemma conflicts_in_insert:
  "conflicts_in pref prefix (insert n ns) fb fo ft = conflicts_in pref prefix {n} fb fo ft \<union> conflicts_in pref prefix ns fb fo ft"
  unfolding conflicts_in_def by blast

lemma conflicts_in_one:
  "conflicts_in pref prefix {n} (node_look env bs B) (node_look env bs Y) (node_look env bs T) =
     (case decide_file (tc_file (child_at B n)) (tc_file (child_at Y n)) (tc_file (child_at T n)) pref of
        Take _ \<Rightarrow> {}
      | Conflict \<Rightarrow> {\<lparr>mc_path = path_of (prefix @ [n]), mc_base = tc_file (child_at B n),
            mc_ours = tc_file (child_at Y n), mc_theirs = tc_file (child_at T n)\<rparr>})
     \<union> conflicts_of pref (prefix @ [n]) (look env bs (tc_dir (child_at B n))) (look env bs (tc_dir (child_at Y n)))
         (look env bs (tc_dir (child_at T n)))" (is "?l = ?here \<union> ?below")
proof (intro set_eqI iffI)
  fix c assume "c \<in> ?l"
  then obtain q where c: "c = \<lparr>mc_path = path_of (prefix @ n # q), mc_base = node_look env bs B (n # q),
      mc_ours = node_look env bs Y (n # q), mc_theirs = node_look env bs T (n # q)\<rparr>"
    and d: "decide_file (node_look env bs B (n # q)) (node_look env bs Y (n # q)) (node_look env bs T (n # q)) pref = Conflict"
    unfolding conflicts_in_def by blast
  show "c \<in> ?here \<union> ?below"
  proof (cases "q = []")
    case True
    with c d have "c \<in> ?here" by (simp add: node_look_Cons)
    then show ?thesis ..
  next
    case False
    with c d have "c \<in> ?below" by (auto simp: node_look_Cons conflicts_of_def)
    then show ?thesis ..
  qed
next
  fix c assume "c \<in> ?here \<union> ?below"
  then consider "c \<in> ?here" | "c \<in> ?below" by blast
  then show "c \<in> ?l"
  proof cases
    case 1
    then have "c = \<lparr>mc_path = path_of (prefix @ n # []), mc_base = node_look env bs B (n # []),
      mc_ours = node_look env bs Y (n # []), mc_theirs = node_look env bs T (n # [])\<rparr>
      \<and> decide_file (node_look env bs B (n # [])) (node_look env bs Y (n # [])) (node_look env bs T (n # [])) pref = Conflict"
      by (auto simp: node_look_Cons split: file_decision.splits)
    then show ?thesis unfolding conflicts_in_def by blast
  next
    case 2
    then obtain q where q: "c = \<lparr>mc_path = path_of ((prefix @ [n]) @ q), mc_base = look env bs (tc_dir (child_at B n)) q,
        mc_ours = look env bs (tc_dir (child_at Y n)) q, mc_theirs = look env bs (tc_dir (child_at T n)) q\<rparr>"
      "decide_file (look env bs (tc_dir (child_at B n)) q) (look env bs (tc_dir (child_at Y n)) q)
        (look env bs (tc_dir (child_at T n)) q) pref = Conflict" unfolding conflicts_of_def by blast
    then have "q \<noteq> []" by auto
    with q have "c = \<lparr>mc_path = path_of (prefix @ n # q), mc_base = node_look env bs B (n # q),
      mc_ours = node_look env bs Y (n # q), mc_theirs = node_look env bs T (n # q)\<rparr>
      \<and> decide_file (node_look env bs B (n # q)) (node_look env bs Y (n # q)) (node_look env bs T (n # q)) pref = Conflict"
      by (simp add: node_look_Cons)
    then show ?thesis unfolding conflicts_in_def by blast
  qed
qed

lemma conflicts_in_path: "c \<in> conflicts_in pref prefix {n} fb fo ft \<Longrightarrow> \<exists>q. mc_path c = path_of (prefix @ n # q)"
  by (auto simp: conflicts_in_def)

lemma conflicts_of_path:
  "c \<in> conflicts_of pref (prefix @ [n]) (look env bs b) (look env bs y) (look env bs t) \<Longrightarrow>
   \<exists>q. q \<noteq> [] \<and> mc_path c = path_of (prefix @ n # q)"
  by (auto simp: conflicts_of_def)

definition names_merged ::
  "fs_env \<Rightarrow> preference \<Rightarrow> string list \<Rightarrow> string set \<Rightarrow> (string list \<Rightarrow> entry option) \<Rightarrow> (string list \<Rightarrow> entry option)
   \<Rightarrow> (string list \<Rightarrow> entry option) \<Rightarrow> blobs \<Rightarrow> tree_node \<Rightarrow> blobs \<Rightarrow> tree_node \<Rightarrow> merge_conflict list \<Rightarrow> bool" where
  "names_merged env pref prefix names fb fo ft bs out bs' out' cs \<longleftrightarrow>
     bs \<subseteq>\<^sub>m bs' \<and> addressed env bs' \<and> node_solid env bs' out'
   \<and> (\<forall>n q. node_look env bs' out' (n # q) =
        (if n \<in> names then taken pref (fb (n # q)) (fo (n # q)) (ft (n # q)) else node_look env bs out (n # q)))
   \<and> (\<forall>n. n \<notin> names \<longrightarrow> child_at out' n = child_at out n)
   \<and> set cs = conflicts_in pref prefix names fb fo ft \<and> sorted_wrt (<) (map mc_path cs)"

lemma names_merged_Nil:
  "addressed env bs \<Longrightarrow> node_solid env bs out \<Longrightarrow> names_merged env pref prefix {} fb fo ft bs out bs out []"
  by (simp add: names_merged_def conflicts_in_def)

lemma names_merged_Cons:
  assumes one: "names_merged env pref prefix {n} fb fo ft bs out bs1 out1 cs1"
    and rest: "names_merged env pref prefix ns fb fo ft bs1 out1 bs2 out2 cs2"
    and lt: "\<And>m. m \<in> ns \<Longrightarrow> n < m" and ok: "node_solid env bs out"
  shows "names_merged env pref prefix (insert n ns) fb fo ft bs out bs2 out2 (cs1 @ cs2)"
proof -
  have le: "bs1 \<subseteq>\<^sub>m bs2" and ok1: "node_solid env bs1 out1" using one rest by (auto simp: names_merged_def)
  have notin: "n \<notin> ns" using lt by force
  have "x < y" if "x \<in> mc_path ` set cs1" "y \<in> mc_path ` set cs2" for x y
  proof -
    from that(1) one obtain q where x: "x = path_of (prefix @ n # q)"
      by (auto simp: names_merged_def dest!: conflicts_in_path)
    from that(2) rest obtain m q' where "m \<in> ns" "y = path_of (prefix @ m # q')"
      by (auto simp: names_merged_def conflicts_in_def)
    with x lt show ?thesis by (simp add: path_less_name)
  qed
  then have srt: "sorted_wrt (<) (map mc_path (cs1 @ cs2))"
    using one rest by (auto simp: names_merged_def sorted_wrt_append)
  show ?thesis
    unfolding names_merged_def
  proof (intro conjI allI impI)
    show "bs \<subseteq>\<^sub>m bs2" using one rest by (auto simp: names_merged_def intro: map_le_trans)
    show "addressed env bs2" "node_solid env bs2 out2" using rest by (simp_all add: names_merged_def)
    show "node_look env bs2 out2 (k # q) = (if k \<in> insert n ns then taken pref (fb (k # q)) (fo (k # q)) (ft (k # q))
        else node_look env bs out (k # q))" for k q
      using one rest notin by (auto simp: names_merged_def)
    show "child_at out2 k = child_at out k" if "k \<notin> insert n ns" for k
      using one rest that by (simp add: names_merged_def)
    show "set (cs1 @ cs2) = conflicts_in pref prefix (insert n ns) fb fo ft"
      using one rest by (simp add: names_merged_def conflicts_in_insert [of _ _ n ns])
  qed (rule srt)
qed

text \<open>One iteration of the loop.\<close>

lemma put_child_fresh:
  assumes "node_solid env bs out" and "child_at out name = no_child"
  shows "(if child_is_empty c then out else out\<lparr>children := btm_insert name c (children out)\<rparr>) = put_child name c out"
proof -
  have "btm_get (children out) name = None"
    using assms by (force simp: node_solid_def child_at_def no_child_def child_is_empty_def split: option.splits)
  then have "btm_remove name (children out) = children out"
    by (auto simp: btm_remove_def map_of_eq_None_iff intro!: filter_True)
  then show ?thesis by (simp add: put_child_def)
qed

lemma merge_one_name:
  assumes ok: "node_solid env bs0 B" "node_solid env bs0 Y" "node_solid env bs0 T"
    and le0: "bs0 \<subseteq>\<^sub>m bs" and le: "bs \<subseteq>\<^sub>m bs1" and ad: "addressed env bs1" and out: "node_solid env bs out"
    and d: "dir_solid env bs1 d"
    and m: "merged_as env pref (prefix @ [name]) (look env bs0 (tc_dir (child_at B name)))
       (look env bs0 (tc_dir (child_at Y name))) (look env bs0 (tc_dir (child_at T name))) d sub bs1"
    and dec: "decision = decide_file (tc_file (child_at B name)) (tc_file (child_at Y name)) (tc_file (child_at T name)) pref"
  shows "names_merged env pref prefix {name} (node_look env bs0 B) (node_look env bs0 Y) (node_look env bs0 T) bs out bs1
     (put_child name \<lparr>tc_file = (case decision of Take f \<Rightarrow> f | Conflict \<Rightarrow> None), tc_dir = d\<rparr> out)
     ((case decision of Take _ \<Rightarrow> [] | Conflict \<Rightarrow> [\<lparr>mc_path = path_of (prefix @ [name]),
        mc_base = tc_file (child_at B name), mc_ours = tc_file (child_at Y name), mc_theirs = tc_file (child_at T name)\<rparr>]) @ sub)"
    (is "names_merged _ _ _ _ _ _ _ _ _ _ (put_child _ ?c _) (?here @ sub)")
proof -
  have out1: "node_solid env bs1 out" by (rule node_solid_mono [OF out le])
  have look: "node_look env bs1 (put_child name ?c out) (n # q) =
      (if n \<in> {name} then taken pref (node_look env bs0 B (n # q)) (node_look env bs0 Y (n # q)) (node_look env bs0 T (n # q))
       else node_look env bs out (n # q))" for n q
  proof (cases "n = name")
    case True
    with m show ?thesis by (simp add: node_look_Cons child_at_put_child dec taken_def merged_as_def)
  next
    case False
    then have "node_look env bs1 (put_child name ?c out) (n # q) = node_look env bs1 out (n # q)"
      by (simp add: node_look_Cons child_at_put_child)
    with False node_look_mono [OF out le] show ?thesis by simp
  qed
  have sets: "set (?here @ sub) = conflicts_in pref prefix {name} (node_look env bs0 B) (node_look env bs0 Y) (node_look env bs0 T)"
    using m unfolding conflicts_in_one by (auto simp: merged_as_def dec [symmetric] split: file_decision.splits)
  have "path_of (prefix @ [name]) < mc_path c" if "c \<in> set sub" for c
    using m that by (auto simp: merged_as_def dest!: conflicts_of_path intro: path_less_below)
  then have srt: "sorted_wrt (<) (map mc_path (?here @ sub))"
    using m by (auto simp: merged_as_def split: file_decision.splits)
  show ?thesis
    unfolding names_merged_def
    using le ad node_solid_put_child [OF out1, of ?c name] d look sets srt by (simp add: child_at_put_child)
qed

lemma merge_names_ok:
  assumes rec: "rec_ok env pref rec bs0 prefix (node_or bn) (node_or on) (node_or tn)"
    and ok: "node_solid env bs0 (node_or bn)" "node_solid env bs0 (node_or on)" "node_solid env bs0 (node_or tn)"
  shows "bs0 \<subseteq>\<^sub>m bs \<Longrightarrow> addressed env bs \<Longrightarrow> node_solid env bs out \<Longrightarrow> sorted_wrt (<) names \<Longrightarrow>
    (\<And>n. n \<in> set names \<Longrightarrow> child_at out n = no_child) \<Longrightarrow>
    \<exists>out' cs' bs'. merge_names rec pref prefix bn on tn names bs out cs = Some (Inr (out', cs @ cs'), bs')
      \<and> names_merged env pref prefix (set names) (node_look env bs0 (node_or bn)) (node_look env bs0 (node_or on))
          (node_look env bs0 (node_or tn)) bs out bs' out' cs'"
proof (induction names arbitrary: bs out cs)
  case Nil
  then show ?case by (auto intro: names_merged_Nil)
next
  case (Cons name names)
  let ?B = "node_or bn" and ?Y = "node_or on" and ?T = "node_or tn"
  define decision where "decision = decide_file (tc_file (child_at ?B name)) (tc_file (child_at ?Y name)) (tc_file (child_at ?T name)) pref"
  define here where "here = (case decision of Take _ \<Rightarrow> [] | Conflict \<Rightarrow> [\<lparr>mc_path = path_of (prefix @ [name]),
        mc_base = tc_file (child_at ?B name), mc_ours = tc_file (child_at ?Y name), mc_theirs = tc_file (child_at ?T name)\<rparr>])"
  obtain d sub bs1 where dir:
    "(if tc_dir (child_at ?Y name) = tc_dir (child_at ?T name) then Some (Inr (tc_dir (child_at ?Y name), []), bs)
      else if tc_dir (child_at ?B name) = tc_dir (child_at ?Y name) then Some (Inr (tc_dir (child_at ?T name), []), bs)
      else if tc_dir (child_at ?B name) = tc_dir (child_at ?T name) then Some (Inr (tc_dir (child_at ?Y name), []), bs)
      else rec bs (tc_dir (child_at ?B name)) (tc_dir (child_at ?Y name)) (tc_dir (child_at ?T name)) (prefix @ [name]))
     = Some (Inr (d, sub), bs1)"
    and le: "bs \<subseteq>\<^sub>m bs1" and ad: "addressed env bs1" and ds: "dir_solid env bs1 d"
    and m: "merged_as env pref (prefix @ [name]) (look env bs0 (tc_dir (child_at ?B name)))
       (look env bs0 (tc_dir (child_at ?Y name))) (look env bs0 (tc_dir (child_at ?T name))) d sub bs1"
    by (rule merge_child_dir [OF rec Cons.prems(1,2) ok])
  let ?c = "\<lparr>tc_file = (case decision of Take f \<Rightarrow> f | Conflict \<Rightarrow> None), tc_dir = d\<rparr>"
  let ?out = "put_child name ?c out"
  have one: "names_merged env pref prefix {name} (node_look env bs0 ?B) (node_look env bs0 ?Y) (node_look env bs0 ?T) bs out bs1
     ?out (here @ sub)"
    unfolding here_def by (rule merge_one_name [OF ok Cons.prems(1) le ad Cons.prems(3) ds m decision_def])
  have "bs0 \<subseteq>\<^sub>m bs1" using Cons.prems(1) le by (rule map_le_trans)
  moreover have "node_solid env bs1 ?out" using one by (simp add: names_merged_def)
  moreover have "sorted_wrt (<) names" "\<And>k. k \<in> set names \<Longrightarrow> name < k" using Cons.prems(4) by simp_all
  moreover have "child_at ?out k = no_child" if "k \<in> set names" for k
    using Cons.prems(5) [of k] that calculation(4) [OF that] by (auto simp: child_at_put_child)
  ultimately obtain out' cs' bs' where rest:
    "merge_names rec pref prefix bn on tn names bs1 ?out (cs @ here @ sub) = Some (Inr (out', (cs @ here @ sub) @ cs'), bs')"
    "names_merged env pref prefix (set names) (node_look env bs0 ?B) (node_look env bs0 ?Y) (node_look env bs0 ?T) bs1 ?out bs' out' cs'"
    using Cons.IH [OF _ ad, of ?out "cs @ here @ sub"] by blast
  have "names_merged env pref prefix (set (name # names)) (node_look env bs0 ?B) (node_look env bs0 ?Y) (node_look env bs0 ?T)
      bs out bs' out' ((here @ sub) @ cs')"
    using names_merged_Cons [OF one rest(2) _ Cons.prems(3)] Cons.prems(4) by simp
  moreover have "merge_names rec pref prefix bn on tn (name # names) bs out cs
      = merge_names rec pref prefix bn on tn names bs1 ?out (cs @ here @ sub)"
  proof -
    have "(case decision of Take _ \<Rightarrow> cs | Conflict \<Rightarrow> cs @ [\<lparr>mc_path = path_of (prefix @ [name]),
        mc_base = tc_file (child_at ?B name), mc_ours = tc_file (child_at ?Y name), mc_theirs = tc_file (child_at ?T name)\<rparr>]) = cs @ here"
      by (simp add: here_def split: file_decision.splits)
    moreover have "(if child_is_empty ?c then out else out\<lparr>children := btm_insert name ?c (children out)\<rparr>) = ?out"
      by (rule put_child_fresh [OF Cons.prems(3)]) (simp add: Cons.prems(5))
    ultimately show ?thesis
      by (simp only: merge_names.simps Let_def child_of_at dir decision_def [symmetric] option.case sum.case prod.case append_assoc)
  qed
  ultimately show ?case using rest(1) by (auto simp: append_assoc)
qed

definition merge_result ::
  "fs_env \<Rightarrow> preference \<Rightarrow> string list \<Rightarrow> blobs \<Rightarrow> hash option \<Rightarrow> hash option \<Rightarrow> hash option
   \<Rightarrow> hash option \<Rightarrow> merge_conflict list \<Rightarrow> blobs \<Rightarrow> bool" where
  "merge_result env pref prefix bs base ours theirs r cs bs' \<longleftrightarrow>
     bs \<subseteq>\<^sub>m bs' \<and> addressed env bs' \<and> root_solid env bs' r \<and> (r = ours \<or> r = theirs \<or> dir_solid env bs' r)
   \<and> merged_as env pref prefix (look env bs base) (look env bs ours) (look env bs theirs) r cs bs'"

lemma deep_child:
  "deep env bs (Suc n) r \<Longrightarrow> load_opt env bs r = Inr x \<Longrightarrow> deep env bs n (tc_dir (child_at (node_or x) name))"
  by (cases r) (auto simp: load_opt_def node_or_def child_at_def empty_node_def no_child_def split: sum.splits)

lemma rec_ok_merge_node:
  assumes IH: "\<And>bs b y t prefix. addressed env bs \<Longrightarrow> root_solid env bs b \<Longrightarrow> root_solid env bs y \<Longrightarrow> root_solid env bs t \<Longrightarrow>
      deep env bs n b \<Longrightarrow> deep env bs n y \<Longrightarrow> deep env bs n t \<Longrightarrow>
      \<exists>r cs bs'. merge_node fuel env pref bs b y t prefix = Some (Inr (r, cs), bs') \<and> merge_result env pref prefix bs b y t r cs bs'"
    and ok: "node_solid env bs0 B" "node_solid env bs0 Y" "node_solid env bs0 T"
    and deep: "\<And>name. deep env bs0 n (tc_dir (child_at B name))" "\<And>name. deep env bs0 n (tc_dir (child_at Y name))"
      "\<And>name. deep env bs0 n (tc_dir (child_at T name))"
  shows "rec_ok env pref (merge_node fuel env pref) bs0 prefix B Y T"
  unfolding rec_ok_def
proof (intro allI impI)
  fix bs name
  assume le: "bs0 \<subseteq>\<^sub>m bs" and ad: "addressed env bs"
  let ?b = "tc_dir (child_at B name)" and ?y = "tc_dir (child_at Y name)" and ?t = "tc_dir (child_at T name)"
  have ds: "dir_solid env bs0 ?b" "dir_solid env bs0 ?y" "dir_solid env bs0 ?t" by (simp_all add: node_solid_child ok)
  have rs: "root_solid env bs ?b" "root_solid env bs ?y" "root_solid env bs ?t"
    using ds by (auto intro: dir_root_solid dir_solid_mono [OF _ le])
  have same: "look env bs ?b q = look env bs0 ?b q" "look env bs ?y q = look env bs0 ?y q"
    "look env bs ?t q = look env bs0 ?t q" for q
    using ds by (simp_all add: look_mono [OF dir_root_solid le])
  from IH [OF ad rs] deep_mono [OF deep(1) le] deep_mono [OF deep(2) le] deep_mono [OF deep(3) le]
  obtain r cs bs' where m: "merge_node fuel env pref bs ?b ?y ?t (prefix @ [name]) = Some (Inr (r, cs), bs')"
    and res: "merge_result env pref (prefix @ [name]) bs ?b ?y ?t r cs bs'" by blast
  have "dir_solid env bs' r"
    using res ds dir_solid_mono [OF _ map_le_trans [OF le]] by (auto simp: merge_result_def)
  moreover have "merged_as env pref (prefix @ [name]) (look env bs0 ?b) (look env bs0 ?y) (look env bs0 ?t) r cs bs'"
    using res by (auto simp: merge_result_def intro: merged_as_cong [OF _ same])
  ultimately show "\<exists>d cs bs'. merge_node fuel env pref bs ?b ?y ?t (prefix @ [name]) = Some (Inr (d, cs), bs')
      \<and> bs \<subseteq>\<^sub>m bs' \<and> addressed env bs' \<and> dir_solid env bs' d
      \<and> merged_as env pref (prefix @ [name]) (look env bs0 ?b) (look env bs0 ?y) (look env bs0 ?t) d cs bs'"
    using m res by (auto simp: merge_result_def)
qed

lemma conflicts_in_all:
  assumes "\<And>n q. n \<notin> names \<Longrightarrow> fb (n # q) = None \<and> fo (n # q) = None \<and> ft (n # q) = None"
    and "fo [] = ft []"
  shows "conflicts_in pref prefix names fb fo ft = conflicts_of pref prefix fb fo ft"
proof -
  have "n \<in> names" if "decide_file (fb (n # q)) (fo (n # q)) (ft (n # q)) pref = Conflict" for n q
    using assms(1) [of n q] that by fastforce
  moreover have "p \<noteq> []" if "decide_file (fb p) (fo p) (ft p) pref = Conflict" for p
    using that assms(2) by auto
  ultimately have iff: "(\<exists>n q. p = n # q \<and> n \<in> names) \<and> decide_file (fb p) (fo p) (ft p) pref = Conflict
      \<longleftrightarrow> decide_file (fb p) (fo p) (ft p) pref = Conflict" for p
    by (cases p) auto
  show ?thesis
    unfolding conflicts_in_def conflicts_of_def
    by (rule Collect_cong) (metis iff)
qed

lemma key_union_sorted: "sorted_wrt (<) (key_union ks)" and key_union_set [simp]: "set (key_union ks) = set ks"
  by (simp_all add: key_union_def strict_sorted_iff)

lemma merge_node_ok:
  assumes env: "env_ok env"
  shows "n < fuel \<Longrightarrow> addressed env bs \<Longrightarrow> root_solid env bs base \<Longrightarrow> root_solid env bs ours \<Longrightarrow> root_solid env bs theirs \<Longrightarrow>
    deep env bs n base \<Longrightarrow> deep env bs n ours \<Longrightarrow> deep env bs n theirs \<Longrightarrow>
    \<exists>r cs bs'. merge_node fuel env pref bs base ours theirs prefix = Some (Inr (r, cs), bs')
      \<and> merge_result env pref prefix bs base ours theirs r cs bs'"
proof (induction n arbitrary: fuel bs base ours theirs prefix)
  case 0
  then obtain f where f: "fuel = Suc f" by (cases fuel) simp_all
  from 0 have "base = None" "ours = None" "theirs = None" by (metis deep.simps(2) option.exhaust)+
  with 0 show ?case
    by (simp add: f merge_result_def merged_as_def conflicts_of_none)
next
  case (Suc n)
  then obtain f where f: "fuel = Suc f" "n < f" by (cases fuel) simp_all
  consider "ours = theirs" | "ours \<noteq> theirs" "base = ours" | "ours \<noteq> theirs" "base \<noteq> ours" "base = theirs"
    | "ours \<noteq> theirs" "base \<noteq> ours" "base \<noteq> theirs" by blast
  then show ?case
  proof cases
    case 1
    with Suc.prems merged_pruned(1) [OF 1] show ?thesis by (simp add: f merge_result_def)
  next
    case 2
    with Suc.prems merged_pruned(2) [OF 2(2)] show ?thesis by (simp add: f merge_result_def)
  next
    case 3
    with Suc.prems merged_pruned(3) [OF 3(3)] show ?thesis by (simp add: f merge_result_def)
  next
    case 4
    obtain bn yn tn where op: "opens env bs base bn" "opens env bs ours yn" "opens env bs theirs tn"
      using load_opt_ok [OF Suc.prems(3)] load_opt_ok [OF Suc.prems(4)] load_opt_ok [OF Suc.prems(5)] by blast
    then have bn: "load_opt env bs base = Inr bn" "node_solid env bs (node_or bn)" "look env bs base = node_look env bs (node_or bn)"
      and yn: "load_opt env bs ours = Inr yn" "node_solid env bs (node_or yn)" "look env bs ours = node_look env bs (node_or yn)"
      and tn: "load_opt env bs theirs = Inr tn" "node_solid env bs (node_or tn)" "look env bs theirs = node_look env bs (node_or tn)"
      by (simp_all add: opens_def)
    let ?names = "key_union (node_names bn @ node_names yn @ node_names tn)"
    have rec: "rec_ok env pref (merge_node f env pref) bs prefix (node_or bn) (node_or yn) (node_or tn)"
      by (rule rec_ok_merge_node [where n = n, OF Suc.IH [OF f(2)] bn(2) yn(2) tn(2)])
        (simp_all add: deep_child [OF Suc.prems(6) bn(1)] deep_child [OF Suc.prems(7) yn(1)] deep_child [OF Suc.prems(8) tn(1)])
    have "child_at empty_node k = no_child" for k by (simp add: child_at_def empty_node_def)
    from merge_names_ok [OF rec bn(2) yn(2) tn(2) map_le_refl Suc.prems(2) node_solid_empty
      key_union_sorted [of "node_names bn @ node_names yn @ node_names tn"] this, where cs = "[]"]
    obtain out cs bs1 where names: "merge_names (merge_node f env pref) pref prefix bn yn tn ?names bs empty_node [] = Some (Inr (out, cs), bs1)"
      and nm: "names_merged env pref prefix (set ?names) (node_look env bs (node_or bn)) (node_look env bs (node_or yn))
          (node_look env bs (node_or tn)) bs empty_node bs1 out cs"
      unfolding append_Nil by blast
    then have le: "bs \<subseteq>\<^sub>m bs1" and ad: "addressed env bs1" and ok: "node_solid env bs1 out" by (auto simp: names_merged_def)
    have absent: "look env bs base (k # q) = None \<and> look env bs ours (k # q) = None \<and> look env bs theirs (k # q) = None"
      if "k \<notin> set ?names" for k q
      using that op by (simp add: opens_def node_look_def)
    have view: "node_look env bs1 out p = taken pref (look env bs base p) (look env bs ours p) (look env bs theirs p)" if "p \<noteq> []" for p
    proof -
      obtain k q where p: "p = k # q" using \<open>p \<noteq> []\<close> by (cases p) auto
      have "node_look env bs empty_node (k # q) = None" by (simp add: node_look_def empty_node_def)
      with nm absent [of k q] show ?thesis
        by (cases "k \<in> set ?names") (auto simp: names_merged_def p bn(3) yn(3) tn(3) simp del: key_union_set)
    qed
    have "conflicts_in pref prefix (set ?names) (look env bs base) (look env bs ours) (look env bs theirs)
        = conflicts_of pref prefix (look env bs base) (look env bs ours) (look env bs theirs)"
      by (rule conflicts_in_all) (use absent in \<open>simp_all del: key_union_set\<close>)
    then have confl: "set cs = conflicts_of pref prefix (look env bs base) (look env bs ours) (look env bs theirs)"
      "sorted_wrt (<) (map mc_path cs)"
      using nm unfolding names_merged_def bn(3) yn(3) tn(3) by simp_all
    show ?thesis
    proof (cases "children out = []")
      case True
      then have "node_look env bs1 out p = None" for p by (cases p) (simp_all add: node_look_def)
      with view confl le ad have "merge_result env pref prefix bs base ours theirs None cs bs1"
        by (simp add: merge_result_def merged_as_def dir_solid_def root_solid_def)
      moreover have "merge_node fuel env pref bs base ours theirs prefix = Some (Inr (None, cs), bs1)"
        using 4 bn(1) yn(1) tn(1) names True by (simp add: f)
      ultimately show ?thesis by blast
    next
      case False
      obtain h bs2 where st: "store_node env bs1 out = (Inr h, bs2)" "bs1 \<subseteq>\<^sub>m bs2" "addressed env bs2"
        "fetch env bs2 h = Inr out" using store_node_ok [OF env ad] .
      have "dir_solid env bs2 (Some h)"
        using node_solid_mono [OF ok st(2)] st(4) False by (auto simp: dir_solid_def solid_node empty_node_def)
      moreover have "look env bs2 (Some h) p = node_look env bs1 out p" for p
        using node_look_mono [OF ok st(2)] by (simp add: look_node [OF st(4)])
      ultimately have "merge_result env pref prefix bs base ours theirs (Some h) cs bs2"
        using view confl map_le_trans [OF le st(2)] st(3) by (simp add: merge_result_def merged_as_def dir_root_solid)
      moreover have "merge_node fuel env pref bs base ours theirs prefix = Some (Inr (Some h, cs), bs2)"
        using 4 bn(1) yn(1) tn(1) names False st(1) by (simp add: f)
      ultimately show ?thesis by blast
    qed
  qed
qed

lemma merge_trees_ok:
  assumes env: "env_ok env" and ad: "addressed env bs"
    and ok: "root_solid env bs base" "root_solid env bs ours" "root_solid env bs theirs"
  shows "\<exists>n. \<forall>fuel > n. \<exists>h cs bs'. merge_trees fuel env bs base ours theirs pref = Some (Inr (h, cs), bs')
    \<and> bs \<subseteq>\<^sub>m bs' \<and> addressed env bs' \<and> solid env bs' h
    \<and> merged_as env pref [] (look env bs base) (look env bs ours) (look env bs theirs) (Some h) cs bs'"
proof -
  obtain n1 n2 n3 where "deep env bs n1 base" "deep env bs n2 ours" "deep env bs n3 theirs"
    using ok root_deep by meson
  then have deep: "deep env bs (n1 + n2 + n3) base" "deep env bs (n1 + n2 + n3) ours" "deep env bs (n1 + n2 + n3) theirs"
    by (auto elim!: deep_le)
  have "\<exists>h cs bs'. merge_trees fuel env bs base ours theirs pref = Some (Inr (h, cs), bs')
    \<and> bs \<subseteq>\<^sub>m bs' \<and> addressed env bs' \<and> solid env bs' h
    \<and> merged_as env pref [] (look env bs base) (look env bs ours) (look env bs theirs) (Some h) cs bs'"
    if fuel: "n1 + n2 + n3 < fuel" for fuel
  proof -
    from merge_node_ok [OF env fuel ad ok deep, of pref "[]"] obtain r cs bs1 where
      m: "merge_node fuel env pref bs base ours theirs [] = Some (Inr (r, cs), bs1)"
      and res: "merge_result env pref [] bs base ours theirs r cs bs1" by blast
    show ?thesis
    proof (cases r)
      case (Some h)
      with m res show ?thesis by (auto simp: merge_trees_def merge_result_def root_solid_def)
    next
      case None
      from res have le: "bs \<subseteq>\<^sub>m bs1" and ad1: "addressed env bs1" by (simp_all add: merge_result_def)
      obtain h bs2 where st: "store_node env bs1 empty_node = (Inr h, bs2)" "bs1 \<subseteq>\<^sub>m bs2" "addressed env bs2"
        "fetch env bs2 h = Inr empty_node" using store_node_ok [OF env ad1] .
      have "solid env bs2 h" using st(4) by (auto simp: solid_node)
      moreover have "look env bs2 (Some h) p = look env bs1 None p" for p
        by (cases p) (simp_all add: st(4) empty_node_def)
      ultimately show ?thesis
        using m res st None map_le_trans [OF le st(2)]
        by (auto simp: merge_trees_def merge_result_def merged_as_def)
    qed
  qed
  then show ?thesis by blast
qed

section \<open>The flat merge decides every path\<close>

definition flat_conflict :: "(path \<Rightarrow> entry option) \<Rightarrow> (path \<Rightarrow> entry option) \<Rightarrow> (path \<Rightarrow> entry option) \<Rightarrow> path \<Rightarrow> merge_conflict" where
  "flat_conflict fb fo ft p = \<lparr>mc_path = p, mc_base = fb p, mc_ours = fo p, mc_theirs = ft p\<rparr>"

lemma merge_path_cases:
  "merge_path pref base ours theirs p acc =
     (case decide_file (Option.bind base (\<lambda>m. btm_get m p)) (btm_get ours p) (btm_get theirs p) pref of
        Take (Some e) \<Rightarrow> (btm_insert p e (fst acc), snd acc)
      | Take None \<Rightarrow> acc
      | Conflict \<Rightarrow> (fst acc, snd acc @ [flat_conflict (\<lambda>p. Option.bind base (\<lambda>m. btm_get m p)) (btm_get ours) (btm_get theirs) p]))"
  unfolding merge_path_def Let_def decide_file_chosen flat_conflict_def by (simp split: option.splits)

lemma merge_paths_ok:
  fixes base ours theirs pref
  defines "fb \<equiv> (\<lambda>p. Option.bind base (\<lambda>m. btm_get m p))"
  assumes "fold (merge_path pref base ours theirs) ps (m, cs) = (m', cs')" and "distinct ps"
    and "\<And>p. p \<in> set ps \<Longrightarrow> btm_get m p = None" and "btm_ok m"
  shows "btm_ok m' \<and> (\<forall>p. btm_get m' p = (if p \<in> set ps then taken pref (fb p) (btm_get ours p) (btm_get theirs p) else btm_get m p))
    \<and> cs' = cs @ map (flat_conflict fb (btm_get ours) (btm_get theirs))
        (filter (\<lambda>p. decide_file (fb p) (btm_get ours p) (btm_get theirs p) pref = Conflict) ps)"
  using assms(2-)
proof (induction ps arbitrary: m cs)
  case (Cons p ps)
  let ?d = "decide_file (fb p) (btm_get ours p) (btm_get theirs p) pref"
  let ?m1 = "case ?d of Take (Some e) \<Rightarrow> btm_insert p e m | _ \<Rightarrow> m"
  let ?c1 = "case ?d of Conflict \<Rightarrow> cs @ [flat_conflict fb (btm_get ours) (btm_get theirs) p] | _ \<Rightarrow> cs"
  have step: "merge_path pref base ours theirs p (m, cs) = (?m1, ?c1)"
    by (simp add: merge_path_cases fb_def split: file_decision.splits option.splits)
  have get: "btm_get ?m1 q = (if q = p then taken pref (fb p) (btm_get ours p) (btm_get theirs p) else btm_get m q)" for q
    using Cons.prems(3) [of p] by (auto simp: taken_def btm_get_insert split: file_decision.splits option.splits)
  have ok: "btm_ok ?m1" using Cons.prems(4) by (auto simp: btm_ok_insert split: file_decision.splits option.splits)
  have "fold (merge_path pref base ours theirs) ps (?m1, ?c1) = (m', cs')" using Cons.prems(1) step by simp
  moreover have "btm_get ?m1 q = None" if "q \<in> set ps" for q
    using Cons.prems(2,3) that by (subst get) auto
  ultimately have IH: "btm_ok m' \<and> (\<forall>q. btm_get m' q = (if q \<in> set ps then taken pref (fb q) (btm_get ours q) (btm_get theirs q) else btm_get ?m1 q))
    \<and> cs' = ?c1 @ map (flat_conflict fb (btm_get ours) (btm_get theirs))
        (filter (\<lambda>p. decide_file (fb p) (btm_get ours p) (btm_get theirs p) pref = Conflict) ps)"
    using Cons.prems(2) ok by (intro Cons.IH) simp_all
  then have "btm_get m' q = (if q \<in> set (p # ps) then taken pref (fb q) (btm_get ours q) (btm_get theirs q) else btm_get m q)" for q
    using Cons.prems(2) by (auto simp: get)
  moreover have "cs' = cs @ map (flat_conflict fb (btm_get ours) (btm_get theirs))
        (filter (\<lambda>p. decide_file (fb p) (btm_get ours p) (btm_get theirs p) pref = Conflict) (p # ps))"
    using IH by (auto split: file_decision.splits)
  ultimately show ?case using IH by blast
qed simp

lemma merge_manifests_ok:
  fixes base ours theirs pref
  defines "fb \<equiv> (\<lambda>p. Option.bind base (\<lambda>m. btm_get m p))"
  assumes "merge_manifests base ours theirs pref = (m, cs)"
  shows "btm_ok m" and "btm_get m p = taken pref (fb p) (btm_get ours p) (btm_get theirs p)"
    and "set cs = flat_conflict fb (btm_get ours) (btm_get theirs) `
      {p. decide_file (fb p) (btm_get ours p) (btm_get theirs p) pref = Conflict}"
    and "sorted_wrt (<) (map mc_path cs)"
proof -
  define ps where "ps = key_union ((case base of None \<Rightarrow> [] | Some b \<Rightarrow> btm_keys b) @ btm_keys ours @ btm_keys theirs)"
  have srt: "sorted_wrt (<) ps" unfolding ps_def by (rule key_union_sorted)
  then have dist: "distinct ps" by (simp add: strict_sorted_iff)
  have absent: "fb q = None \<and> btm_get ours q = None \<and> btm_get theirs q = None" if "q \<notin> set ps" for q
    using that unfolding ps_def key_union_set fb_def
    by (auto simp: map_of_eq_None_iff split: option.splits bind_splits)
  from assms(2) have "fold (merge_path pref base ours theirs) ps ([], []) = (m, cs)"
    by (simp add: merge_manifests_def ps_def)
  from merge_paths_ok [OF this dist] have r: "btm_ok m"
    "\<And>p. btm_get m p = (if p \<in> set ps then taken pref (fb p) (btm_get ours p) (btm_get theirs p) else None)"
    "cs = map (flat_conflict fb (btm_get ours) (btm_get theirs))
        (filter (\<lambda>p. decide_file (fb p) (btm_get ours p) (btm_get theirs p) pref = Conflict) ps)"
    by (simp_all add: fb_def)
  show "btm_ok m" by (rule r(1))
  show "btm_get m p = taken pref (fb p) (btm_get ours p) (btm_get theirs p)"
    using r(2) [of p] absent [of p] by auto
  have "p \<in> set ps" if "decide_file (fb p) (btm_get ours p) (btm_get theirs p) pref = Conflict" for p
    using absent [of p] that by force
  then show "set cs = flat_conflict fb (btm_get ours) (btm_get theirs) `
      {p. decide_file (fb p) (btm_get ours p) (btm_get theirs p) pref = Conflict}"
    unfolding r(3) by auto
  have "map mc_path cs = filter (\<lambda>p. decide_file (fb p) (btm_get ours p) (btm_get theirs p) pref = Conflict) ps"
    unfolding r(3) by (simp add: flat_conflict_def comp_def)
  then show "sorted_wrt (<) (map mc_path cs)" using srt by (simp add: sorted_wrt_filter)
qed

section \<open>The two merges agree\<close>

text \<open>A manifest that lists the files of a tree.\<close>

definition manifest_of :: "(string list \<Rightarrow> entry option) \<Rightarrow> manifest \<Rightarrow> bool" where
  "manifest_of f m \<longleftrightarrow> btm_ok m \<and> (\<forall>key e. btm_get m key = Some e \<longleftrightarrow> (\<exists>p. key = path_of p \<and> f p = Some e))"

lemma manifest_of_get: "manifest_of f m \<Longrightarrow> btm_get m (path_of p) = f p"
  unfolding manifest_of_def by (metis option.exhaust path_of_eq_iff)

lemma manifest_of_outside: "manifest_of f m \<Longrightarrow> (\<And>p. key \<noteq> path_of p) \<Longrightarrow> btm_get m key = None"
  unfolding manifest_of_def by (metis option.exhaust)

lemma merge_agrees:
  assumes m: "manifest_of fo mo" "manifest_of ft mt" "manifest_of r m"
    and b: "case mb of None \<Rightarrow> fb = (\<lambda>_. None) | Some x \<Rightarrow> manifest_of fb x"
    and nil: "fb [] = None" "fo [] = None" "ft [] = None" "r [] = None"
    and r: "\<And>p. p \<noteq> [] \<Longrightarrow> r p = taken pref (fb p) (fo p) (ft p)"
    and cs: "set cs = conflicts_of pref [] fb fo ft" "sorted_wrt (<) (map mc_path cs)"
  shows "merge_manifests mb mo mt pref = (m, cs)"
proof -
  obtain m' cs' where flat: "merge_manifests mb mo mt pref = (m', cs')" by fastforce
  define gb where "gb = (\<lambda>p. Option.bind mb (\<lambda>x. btm_get x p))"
  have ok: "btm_ok m'" "\<And>p. btm_get m' p = taken pref (gb p) (btm_get mo p) (btm_get mt p)"
    "set cs' = flat_conflict gb (btm_get mo) (btm_get mt) ` {p. decide_file (gb p) (btm_get mo p) (btm_get mt p) pref = Conflict}"
    "sorted_wrt (<) (map mc_path cs')"
    unfolding gb_def by (fact merge_manifests_ok [OF flat])+
  have gb: "gb (path_of p) = fb p" for p
    using b by (cases mb) (auto simp: gb_def manifest_of_get)
  have gb_out: "gb key = None" if "\<And>p. key \<noteq> path_of p" for key
    using b that by (cases mb) (auto simp: gb_def intro: manifest_of_outside)
  note inside = gb manifest_of_get [OF m(1)] manifest_of_get [OF m(2)] manifest_of_get [OF m(3)]
  have "btm_get m' key = btm_get m key" for key
  proof (cases "\<exists>p. key = path_of p")
    case True
    then obtain p where p: "key = path_of p" ..
    show ?thesis unfolding p ok(2) inside using r nil by (cases "p = []") simp_all
  next
    case False
    then show ?thesis
      using manifest_of_outside [OF m(1)] manifest_of_outside [OF m(2)] manifest_of_outside [OF m(3)] gb_out
      by (simp add: ok(2))
  qed
  then have "m' = m" using ok(1) m(3) by (intro btm_ext) (simp_all add: manifest_of_def)
  moreover have "set cs' = set cs"
  proof -
    have "decide_file (gb key) (btm_get mo key) (btm_get mt key) pref = Conflict \<longleftrightarrow>
        (\<exists>p. key = path_of p \<and> decide_file (fb p) (fo p) (ft p) pref = Conflict)" for key
    proof (cases "\<exists>p. key = path_of p")
      case True
      then obtain p where p: "key = path_of p" ..
      show ?thesis unfolding p inside by auto
    next
      case False
      then show ?thesis
        using manifest_of_outside [OF m(1)] manifest_of_outside [OF m(2)] gb_out by simp
    qed
    then have "set cs' = {flat_conflict gb (btm_get mo) (btm_get mt) (path_of p) |p. decide_file (fb p) (fo p) (ft p) pref = Conflict}"
      unfolding ok(3) by auto
    also have "\<dots> = set cs" unfolding cs(1) conflicts_of_def flat_conflict_def inside append_Nil by simp
    finally show ?thesis .
  qed
  then have "cs' = cs" by (rule sorted_key_unique [OF ok(4) cs(2)])
  ultimately show ?thesis using flat by simp
qed

end
