(* ===== verification/Fs_Mount.thy ===== *)
theory Fs_Mount
  imports Fs_Files Fs_Merge "HOL-Library.AList"
begin

text \<open>
  The overlay mount of a session (\<open>src/server/src/engine/fs_mount.rs\<close>): a pinned base snapshot and an
  upper layer of writes and whiteouts. The upper \<open>HashMap\<close> is a list of its entries in the order it
  is iterated; nothing proved here depends on that order.
\<close>

section \<open>The mount\<close>

datatype pending = Data entry | Whiteout

record mount =
  base_id :: "hash option"
  upper :: "(path \<times> pending) list"

record stat =
  st_mode :: u32
  st_size :: u64
  st_is_dir :: bool
  st_symlink :: "path option"

definition pull :: "hash \<Rightarrow> mount" where
  "pull i = \<lparr>base_id = Some i, upper = []\<rparr>"

definition empty_mount :: mount where
  "empty_mount = \<lparr>base_id = None, upper = []\<rparr>"

definition insert_upper :: "path \<Rightarrow> pending \<Rightarrow> mount \<Rightarrow> mount" where
  "insert_upper p w m = m\<lparr>upper := AList.update p w (upper m)\<rparr>"

definition put_entry :: "path \<Rightarrow> entry \<Rightarrow> mount \<Rightarrow> mount" where
  "put_entry p e m = insert_upper (path_of (components_of p)) (Data e) m"

text \<open>If \<open>p\<close> lives strictly under \<open>d\<close>, the rest of it.\<close>

definition child_suffix :: "path \<Rightarrow> path \<Rightarrow> path option" where
  "child_suffix d p =
     (if d = [] then (if p = [] then None else Some p)
      else if take (length d) p = d
      then (if drop (length d) p = [] then None else Some (drop (length d) p))
      else None)"

definition effective :: "fs_env \<Rightarrow> blobs \<Rightarrow> mount \<Rightarrow> string list \<Rightarrow> path \<Rightarrow> entry option result" where
  "effective env bs m comps key =
     (case map_of (upper m) key of
        Some Whiteout \<Rightarrow> Inr None
      | Some (Data e) \<Rightarrow> Inr (Some e)
      | None \<Rightarrow> resolve_file env bs (base_id m) comps)"

definition enoent :: "path \<Rightarrow> rerr" where
  "enoent key = Err (''ENOENT: '' @ path_display key)"

definition mount_read :: "fs_env \<Rightarrow> blobs \<Rightarrow> mount \<Rightarrow> path \<Rightarrow> bytes result" where
  "mount_read env bs m p =
     (let comps = components_of p; key = path_of comps in
      case effective env bs m comps key of
        Inl e \<Rightarrow> Inl e
      | Inr (Some e) \<Rightarrow> read_file env bs e
      | Inr None \<Rightarrow> Inl (enoent key))"

definition read_opt :: "fs_env \<Rightarrow> blobs \<Rightarrow> mount \<Rightarrow> path \<Rightarrow> bytes option result" where
  "read_opt env bs m p =
     (let comps = components_of p; key = path_of comps in
      case effective env bs m comps key of
        Inl e \<Rightarrow> Inl e
      | Inr (Some e) \<Rightarrow> (case read_file env bs e of Inl x \<Rightarrow> Inl x | Inr b \<Rightarrow> Inr (Some b))
      | Inr None \<Rightarrow> Inr None)"

definition mount_write :: "fs_env \<Rightarrow> blobs \<Rightarrow> mount \<Rightarrow> path \<Rightarrow> bytes \<Rightarrow> blobs \<times> mount" where
  "mount_write env bs m p b =
     (case put_file env bs b of
        (e, bs') \<Rightarrow> (bs', insert_upper (path_of (components_of p)) (Data e) m))"

definition copy :: "fs_env \<Rightarrow> blobs \<Rightarrow> mount \<Rightarrow> path \<Rightarrow> path \<Rightarrow> unit result \<times> mount" where
  "copy env bs m from_p to_p =
     (let from_c = components_of from_p; from_k = path_of from_c in
      case effective env bs m from_c from_k of
        Inl e \<Rightarrow> (Inl e, m)
      | Inr (Some e) \<Rightarrow> (Inr (), insert_upper (path_of (components_of to_p)) (Data e) m)
      | Inr None \<Rightarrow> (Inl (enoent from_k), m))"

definition unlink :: "fs_env \<Rightarrow> blobs \<Rightarrow> mount \<Rightarrow> path \<Rightarrow> unit result \<times> mount" where
  "unlink env bs m p =
     (let comps = components_of p; key = path_of comps in
      case effective env bs m comps key of
        Inl e \<Rightarrow> (Inl e, m)
      | Inr None \<Rightarrow> (Inl (enoent key), m)
      | Inr (Some _) \<Rightarrow> (Inr (), insert_upper key Whiteout m))"

definition is_data :: "pending \<Rightarrow> bool" where
  "is_data w = (case w of Data _ \<Rightarrow> True | Whiteout \<Rightarrow> False)"

definition is_implicit_dir :: "nat \<Rightarrow> fs_env \<Rightarrow> blobs \<Rightarrow> mount \<Rightarrow> string list \<Rightarrow> path \<Rightarrow> bool result option" where
  "is_implicit_dir fuel env bs m comps key =
     (if list_ex (\<lambda>(k, w). is_data w \<and> child_suffix key k \<noteq> None) (upper m) then Some (Inr True)
      else if \<not> list_ex (\<lambda>(k, w). w = Whiteout \<and> child_suffix key k \<noteq> None) (upper m)
      then (case dir_node_at env bs (base_id m) comps of
              Inl e \<Rightarrow> Some (Inl e)
            | Inr None \<Rightarrow> Some (Inr False)
            | Inr (Some n) \<Rightarrow> Some (Inr (children n \<noteq> [])))
      else (case list_subtree fuel env bs (base_id m) comps of
              None \<Rightarrow> None
            | Some (Inl e) \<Rightarrow> Some (Inl e)
            | Some (Inr ps) \<Rightarrow> Some (Inr (list_ex (\<lambda>bp. map_of (upper m) (path_of bp) \<noteq> Some Whiteout) ps))))"

definition live_descendants :: "nat \<Rightarrow> fs_env \<Rightarrow> blobs \<Rightarrow> mount \<Rightarrow> string list \<Rightarrow> path \<Rightarrow> path list result option" where
  "live_descendants fuel env bs m comps key =
     (case list_subtree fuel env bs (base_id m) comps of
        None \<Rightarrow> None
      | Some (Inl e) \<Rightarrow> Some (Inl e)
      | Some (Inr ps) \<Rightarrow>
          Some (Inr (key_union
            (filter (\<lambda>k. map_of (upper m) k \<noteq> Some Whiteout) (map path_of ps)
             @ map fst (filter (\<lambda>(k, w). is_data w \<and> child_suffix key k \<noteq> None) (upper m))))))"

definition mount_exists :: "nat \<Rightarrow> fs_env \<Rightarrow> blobs \<Rightarrow> mount \<Rightarrow> path \<Rightarrow> bool option" where
  "mount_exists fuel env bs m p =
     (let comps = components_of p; key = path_of comps in
      case effective env bs m comps key of
        Inr (Some _) \<Rightarrow> Some True
      | _ \<Rightarrow>
         (case is_implicit_dir fuel env bs m comps key of
            None \<Rightarrow> None
          | Some (Inl _) \<Rightarrow> Some False
          | Some (Inr b) \<Rightarrow> Some b))"

definition mount_remove :: "nat \<Rightarrow> fs_env \<Rightarrow> blobs \<Rightarrow> mount \<Rightarrow> path \<Rightarrow> bool \<Rightarrow> (unit result \<times> mount) option" where
  "mount_remove fuel env bs m p recursive =
     (let comps = components_of p; key = path_of comps in
      case effective env bs m comps key of
        Inl e \<Rightarrow> Some (Inl e, m)
      | Inr (Some _) \<Rightarrow> Some (Inr (), insert_upper key Whiteout m)
      | Inr None \<Rightarrow>
         (case live_descendants fuel env bs m comps key of
            None \<Rightarrow> None
          | Some (Inl e) \<Rightarrow> Some (Inl e, m)
          | Some (Inr ds) \<Rightarrow>
             (if ds = [] then Some (Inl (enoent key), m)
              else if \<not> recursive then Some (Inl (Err (''ENOTEMPTY: '' @ path_display key)), m)
              else Some (Inr (), fold (\<lambda>d. insert_upper d Whiteout) ds m))))"

definition mount_stat :: "nat \<Rightarrow> fs_env \<Rightarrow> blobs \<Rightarrow> mount \<Rightarrow> path \<Rightarrow> stat result option" where
  "mount_stat fuel env bs m p =
     (let comps = components_of p; key = path_of comps in
      case effective env bs m comps key of
        Inl e \<Rightarrow> Some (Inl e)
      | Inr (Some e) \<Rightarrow>
          Some (Inr \<lparr>st_mode = mode_of e, st_size = size_of e, st_is_dir = False, st_symlink = symlink_of e\<rparr>)
      | Inr None \<Rightarrow>
         (case is_implicit_dir fuel env bs m comps key of
            None \<Rightarrow> None
          | Some (Inl e) \<Rightarrow> Some (Inl e)
          | Some (Inr True) \<Rightarrow> Some (Inr \<lparr>st_mode = 493, st_size = 0, st_is_dir = True, st_symlink = None\<rparr>)
          | Some (Inr False) \<Rightarrow> Some (Inl (enoent key))))"

definition mkdir :: "mount \<Rightarrow> path \<Rightarrow> unit result \<times> mount" where
  "mkdir m p = (Inr (), m)"

text \<open>\<open>target_bytes\<close> is the target path as the bytes of its string form.\<close>

definition mount_symlink ::
  "nat \<Rightarrow> fs_env \<Rightarrow> blobs \<Rightarrow> mount \<Rightarrow> path \<Rightarrow> bytes \<Rightarrow> path \<Rightarrow> (unit result \<times> mount) option" where
  "mount_symlink fuel env bs m target target_bytes link =
     (case mount_exists fuel env bs m link of
        None \<Rightarrow> None
      | Some True \<Rightarrow> Some (Inl (Err (''EEXIST: '' @ path_display link)), m)
      | Some False \<Rightarrow>
          Some (Inr (), insert_upper (path_of (components_of link))
            (Data \<lparr>mode_of = 41471, size_of = of_nat (length target_bytes), content_of = Inline target_bytes,
               symlink_of = Some target\<rparr>) m))"

definition readlink :: "fs_env \<Rightarrow> blobs \<Rightarrow> mount \<Rightarrow> path \<Rightarrow> path result" where
  "readlink env bs m p =
     (let comps = components_of p; key = path_of comps in
      case effective env bs m comps key of
        Inl e \<Rightarrow> Inl e
      | Inr (Some e) \<Rightarrow> (case symlink_of e of Some t \<Rightarrow> Inr t | None \<Rightarrow> Inl (Err (''EINVAL: '' @ path_display key @ '' is not a symlink'')))
      | Inr None \<Rightarrow> Inl (enoent key))"

text \<open>The loop that moves the descendants of a directory.\<close>

fun move_all :: "fs_env \<Rightarrow> blobs \<Rightarrow> path \<Rightarrow> path \<Rightarrow> path list \<Rightarrow> mount \<Rightarrow> unit result \<times> mount" where
  "move_all env bs from_k to_k [] m = (Inr (), m)"
| "move_all env bs from_k to_k (d # ds) m =
     (case child_suffix from_k d of
        None \<Rightarrow> move_all env bs from_k to_k ds m
      | Some rest \<Rightarrow>
         (case effective env bs m (components_of d) d of
            Inl e \<Rightarrow> (Inl e, m)
          | Inr (Some e) \<Rightarrow>
              move_all env bs from_k to_k ds (insert_upper d Whiteout (insert_upper (to_k @ rest) (Data e) m))
          | Inr None \<Rightarrow> move_all env bs from_k to_k ds m))"

definition rename :: "nat \<Rightarrow> fs_env \<Rightarrow> blobs \<Rightarrow> mount \<Rightarrow> path \<Rightarrow> path \<Rightarrow> (unit result \<times> mount) option" where
  "rename fuel env bs m from_p to_p =
     (let from_c = components_of from_p; from_k = path_of from_c;
          to_c = components_of to_p; to_k = path_of to_c in
      if from_k = to_k then Some (Inr (), m)
      else case effective env bs m from_c from_k of
        Inl e \<Rightarrow> Some (Inl e, m)
      | Inr (Some e) \<Rightarrow> Some (Inr (), insert_upper from_k Whiteout (insert_upper to_k (Data e) m))
      | Inr None \<Rightarrow>
         (if child_suffix from_k to_k \<noteq> None then Some (Inl (Err (''EINVAL: cannot rename '' @ path_display from_k @ '' into its own subtree'')), m)
          else if child_suffix to_k from_k \<noteq> None then Some (Inl (Err (''ENOTEMPTY: cannot rename '' @ path_display from_k @ '' onto its ancestor '' @ path_display to_k)), m)
          else (case live_descendants fuel env bs m from_c from_k of
                  None \<Rightarrow> None
                | Some (Inl e) \<Rightarrow> Some (Inl e, m)
                | Some (Inr srcs) \<Rightarrow>
                    if srcs = [] then Some (Inl (enoent from_k), m)
                    else Some (move_all env bs from_k to_k srcs m))))"

text \<open>The base children of a directory that still have something live.\<close>

fun live_names :: "nat \<Rightarrow> fs_env \<Rightarrow> blobs \<Rightarrow> mount \<Rightarrow> string list \<Rightarrow> string list \<Rightarrow> string list result option" where
  "live_names fuel env bs m dir_c [] = Some (Inr [])"
| "live_names fuel env bs m dir_c (name # names) =
     (let child_c = dir_c @ [name]; child_k = path_of child_c;
          live = (case effective env bs m child_c child_k of
                    Inl e \<Rightarrow> Some (Inl e)
                  | Inr (Some _) \<Rightarrow> Some (Inr True)
                  | Inr None \<Rightarrow> is_implicit_dir fuel env bs m child_c child_k)
      in case live of
           None \<Rightarrow> None
         | Some (Inl e) \<Rightarrow> Some (Inl e)
         | Some (Inr b) \<Rightarrow>
            (case live_names fuel env bs m dir_c names of
               None \<Rightarrow> None
             | Some (Inl e) \<Rightarrow> Some (Inl e)
             | Some (Inr ns) \<Rightarrow> Some (Inr (if b then name # ns else ns))))"

definition readdir :: "nat \<Rightarrow> fs_env \<Rightarrow> blobs \<Rightarrow> mount \<Rightarrow> path \<Rightarrow> string list result option" where
  "readdir fuel env bs m d =
     (let dir_c = components_of d; dir_k = path_of dir_c;
          based = (case dir_node_at env bs (base_id m) dir_c of
                     Inl e \<Rightarrow> Some (Inl e)
                   | Inr None \<Rightarrow> Some (Inr [])
                   | Inr (Some node) \<Rightarrow> live_names fuel env bs m dir_c (btm_keys (children node)))
      in case based of
           None \<Rightarrow> None
         | Some (Inl e) \<Rightarrow> Some (Inl e)
         | Some (Inr ns) \<Rightarrow>
            (let added = List.map_filter (\<lambda>(k, w). if is_data w
                           then (case child_suffix dir_k k of
                                   Some (c # _) \<Rightarrow> Some (component_text c) | _ \<Rightarrow> None)
                           else None) (upper m);
                 names = key_union (ns @ added)
             in if names = []
                then (if dir_c = [] then Some (Inr []) else Some (Inl (enoent dir_k)))
                else Some (Inr names)))"

definition push :: "fs_env \<Rightarrow> blobs \<Rightarrow> mount \<Rightarrow> hash result \<times> blobs" where
  "push env bs m =
     build_root env bs (base_id m)
       (map (\<lambda>(p, w). (components_of p, case w of Data e \<Rightarrow> Some e | Whiteout \<Rightarrow> None)) (upper m))"

section \<open>The view of a mount\<close>

definition mview :: "fs_env \<Rightarrow> blobs \<Rightarrow> mount \<Rightarrow> string list \<Rightarrow> entry option" where
  "mview env bs m p =
     (case map_of (upper m) (path_of p) of
        Some Whiteout \<Rightarrow> None
      | Some (Data e) \<Rightarrow> Some e
      | None \<Rightarrow> look env bs (base_id m) p)"

definition mount_ok :: "fs_env \<Rightarrow> blobs \<Rightarrow> mount \<Rightarrow> bool" where
  "mount_ok env bs m \<longleftrightarrow> root_solid env bs (base_id m) \<and> distinct (map fst (upper m))
     \<and> (\<forall>k w. (k, w) \<in> set (upper m) \<longrightarrow> (\<exists>p. k = path_of p))"

lemma map_of_insert_upper [simp]:
  "map_of (upper (insert_upper k w m)) = (map_of (upper m))(k \<mapsto> w)" "base_id (insert_upper k w m) = base_id m"
  by (simp_all add: insert_upper_def update_conv')

lemma set_update: "set (AList.update k w xs) \<subseteq> insert (k, w) (set xs)"
  by (induction xs) auto

lemma mount_ok_insert: "mount_ok env bs m \<Longrightarrow> mount_ok env bs (insert_upper (path_of p) w m)"
  using set_update [of "path_of p" w "upper m"]
  by (auto simp: mount_ok_def insert_upper_def distinct_update)

lemma mview_insert:
  "mview env bs (insert_upper (path_of p) w m) q =
     (if q = p then (case w of Data e \<Rightarrow> Some e | Whiteout \<Rightarrow> None) else mview env bs m q)"
  by (simp add: mview_def split: pending.splits option.splits)

lemma effective_view:
  "mount_ok env bs m \<Longrightarrow> effective env bs m p (path_of p) = Inr (mview env bs m p)"
  by (simp add: effective_def mview_def mount_ok_def resolve_file_view split: option.splits pending.splits)

lemma child_suffix_path:
  "child_suffix (path_of a) (path_of b) = Some r \<longleftrightarrow> (\<exists>q. q \<noteq> [] \<and> b = a @ q \<and> r = path_of q)"
proof -
  have "take (length a) b = a \<longleftrightarrow> (\<exists>q. b = a @ q)" by (metis append_eq_conv_conj append_take_drop_id)
  moreover have "take (length a) (map Normal b) = map Normal a \<longleftrightarrow> take (length a) b = a"
    by (simp add: take_map inj_map_eq_map inj_def)
  ultimately show ?thesis by (auto simp: child_suffix_def path_of_map drop_map)
qed

lemma child_suffix_some: "child_suffix (path_of a) (path_of b) \<noteq> None \<longleftrightarrow> (\<exists>q. q \<noteq> [] \<and> b = a @ q)"
  using child_suffix_path by (metis not_None_eq)

lemma upper_mem: "mount_ok env bs m \<Longrightarrow> (k, w) \<in> set (upper m) \<longleftrightarrow> map_of (upper m) k = Some w"
  by (simp add: mount_ok_def)

lemma upper_key: "mount_ok env bs m \<Longrightarrow> map_of (upper m) k = Some w \<Longrightarrow> \<exists>p. k = path_of p"
  by (metis mount_ok_def map_of_SomeD)

text \<open>Whether some upper entry below a directory satisfies a condition.\<close>

lemma upper_below:
  assumes "mount_ok env bs m"
  shows "list_ex (\<lambda>(k, w). P w \<and> child_suffix (path_of d) k \<noteq> None) (upper m) \<longleftrightarrow>
    (\<exists>q w. q \<noteq> [] \<and> map_of (upper m) (path_of (d @ q)) = Some w \<and> P w)"
proof -
  have "list_ex (\<lambda>(k, w). P w \<and> child_suffix (path_of d) k \<noteq> None) (upper m) \<longleftrightarrow>
      (\<exists>k w. map_of (upper m) k = Some w \<and> P w \<and> child_suffix (path_of d) k \<noteq> None)"
    unfolding list_ex_iff using upper_mem [OF assms] by fast
  also have "\<dots> \<longleftrightarrow> (\<exists>p w. map_of (upper m) (path_of p) = Some w \<and> P w \<and> child_suffix (path_of d) (path_of p) \<noteq> None)"
    using upper_key [OF assms] by metis
  finally show ?thesis unfolding child_suffix_some by blast
qed

lemma solid_has_file:
  assumes "solid env bs h"
  shows "fetch env bs h \<noteq> Inr empty_node \<longrightarrow> (\<exists>p. p \<noteq> [] \<and> look env bs (Some h) p \<noteq> None)"
  using assms
proof induction
  case (solidI h node)
  show ?case
  proof
    assume "fetch env bs h \<noteq> Inr empty_node"
    with solidI(1) have "children node \<noteq> []" by (cases node) (auto simp: empty_node_def)
    then obtain name c where mem: "(name, c) \<in> set (children node)" by (cases "children node") auto
    then have get: "btm_get (children node) name = Some c" using btm_get_iff [OF solidI(2)] by blast
    show "\<exists>p. p \<noteq> [] \<and> look env bs (Some h) p \<noteq> None"
    proof (cases "tc_dir c")
      case None
      with solidI(3) [OF get] have "tc_file c \<noteq> None" by (simp add: child_is_empty_def)
      with solidI(1) get show ?thesis by (intro exI [of _ "[name]"]) simp
    next
      case (Some d)
      with solidI(4) [OF get Some] obtain p where "p \<noteq> []" "look env bs (Some d) p \<noteq> None" by blast
      with solidI(1) get Some show ?thesis by (intro exI [of _ "name # p"]) simp
    qed
  qed
qed

definition live_below :: "fs_env \<Rightarrow> blobs \<Rightarrow> mount \<Rightarrow> string list \<Rightarrow> bool" where
  "live_below env bs m d \<longleftrightarrow> (\<exists>q. q \<noteq> [] \<and> mview env bs m (d @ q) \<noteq> None)"

lemma node_has_file:
  assumes "node_solid env bs node" and "children node \<noteq> []"
  shows "\<exists>p. p \<noteq> [] \<and> node_look env bs node p \<noteq> None"
proof -
  obtain name c where mem: "(name, c) \<in> set (children node)" using assms(2) by (cases "children node") auto
  then have get: "btm_get (children node) name = Some c"
    using assms(1) btm_get_iff [of "children node" name c] by (auto simp: node_solid_def)
  show ?thesis
  proof (cases "tc_dir c")
    case None
    with assms(1) get have "tc_file c \<noteq> None" unfolding node_solid_def child_is_empty_def by metis
    with get show ?thesis by (intro exI [of _ "[name]"]) (simp add: node_look_def)
  next
    case (Some d)
    with assms(1) get have "solid env bs d" "fetch env bs d \<noteq> Inr empty_node" unfolding node_solid_def by metis+
    with solid_has_file obtain p where "p \<noteq> []" "look env bs (Some d) p \<noteq> None" by blast
    with get Some show ?thesis by (intro exI [of _ "name # p"]) (simp add: node_look_def)
  qed
qed

lemma is_implicit_dir_ok:
  assumes ok: "mount_ok env bs m"
  shows "\<exists>k. \<forall>fuel \<ge> k. is_implicit_dir fuel env bs m d (path_of d) = Some (Inr (live_below env bs m d))"
proof -
  have root: "root_solid env bs (base_id m)" using ok by (simp add: mount_ok_def)
  define data where "data \<longleftrightarrow> list_ex (\<lambda>(k, w). is_data w \<and> child_suffix (path_of d) k \<noteq> None) (upper m)"
  define white where "white \<longleftrightarrow> list_ex (\<lambda>(k, w). w = Whiteout \<and> child_suffix (path_of d) k \<noteq> None) (upper m)"
  have data: "data \<longleftrightarrow> (\<exists>q w. q \<noteq> [] \<and> map_of (upper m) (path_of (d @ q)) = Some w \<and> is_data w)"
    unfolding data_def by (rule upper_below [OF ok])
  have white: "white \<longleftrightarrow> (\<exists>q. q \<noteq> [] \<and> map_of (upper m) (path_of (d @ q)) = Some Whiteout)"
    unfolding white_def using upper_below [OF ok, of "\<lambda>w. w = Whiteout" d] by simp
  have live: "live_below env bs m d \<longleftrightarrow> (\<exists>q. q \<noteq> [] \<and> map_of (upper m) (path_of (d @ q)) \<noteq> Some Whiteout
      \<and> look env bs (base_id m) (d @ q) \<noteq> None)" if "\<not> data"
    using that unfolding data live_below_def mview_def is_data_def
    by (auto split: option.splits pending.splits) (metis pending.exhaust pending.simps(5))+
  show ?thesis
  proof (cases data)
    case True
    then have "live_below env bs m d"
      unfolding data live_below_def mview_def is_data_def by (force split: pending.splits)
    with True show ?thesis unfolding is_implicit_dir_def data_def [symmetric] by simp
  next
    case nd: False
    show ?thesis
    proof (cases white)
      case True
      obtain k ps where ls: "\<And>fuel. k \<le> fuel \<Longrightarrow> list_subtree fuel env bs (base_id m) d = Some (Inr ps)"
        and ps: "set ps = {d @ q |q. q \<noteq> [] \<and> look env bs (base_id m) (d @ q) \<noteq> None}"
        using list_subtree_ex [OF root, of d] by auto
      have "list_ex (\<lambda>bp. map_of (upper m) (path_of bp) \<noteq> Some Whiteout) ps \<longleftrightarrow> live_below env bs m d"
        unfolding live [OF nd] list_ex_iff ps by blast
      then have "is_implicit_dir fuel env bs m d (path_of d) = Some (Inr (live_below env bs m d))" if "k \<le> fuel" for fuel
        using ls [OF that] nd True
        unfolding is_implicit_dir_def data_def [symmetric] white_def [symmetric] by simp
      then show ?thesis by blast
    next
      case False
      have "is_implicit_dir fuel env bs m d (path_of d) = Some (Inr (live_below env bs m d))" for fuel
        using root
      proof (cases rule: dir_node_at_view [where comps = d])
        case none
        have "\<not> live_below env bs m d" unfolding live [OF nd] using none(2) by metis
        with none nd False show ?thesis
          unfolding is_implicit_dir_def data_def [symmetric] white_def [symmetric] by simp
      next
        case (some h node)
        have "node_solid env bs node" using some(2,3) by (auto simp: solid_node)
        moreover have "node_look env bs node q = None" if "children node = []" for q
          using that by (cases q) (simp_all add: node_look_def)
        ultimately have "children node \<noteq> [] \<longleftrightarrow> (\<exists>q. q \<noteq> [] \<and> look env bs (base_id m) (d @ q) \<noteq> None)"
          using node_has_file some(4) by metis
        moreover have "map_of (upper m) (path_of (d @ q)) \<noteq> Some Whiteout" if "q \<noteq> []" for q
          using False that unfolding white by blast
        ultimately have "live_below env bs m d \<longleftrightarrow> children node \<noteq> []" unfolding live [OF nd] by blast
        with some(1) nd False show ?thesis
          unfolding is_implicit_dir_def data_def [symmetric] white_def [symmetric] by simp
      qed
      then show ?thesis by blast
    qed
  qed
qed

section \<open>Descendants\<close>

lemma sorted_key_union: "sorted_wrt (<) xs \<Longrightarrow> set xs = set ks \<Longrightarrow> key_union ks = xs"
  by (rule sorted_key_unique [where f = "\<lambda>x. x"]) (simp_all add: key_union_sorted)

lemma live_descendants_ok:
  assumes ok: "mount_ok env bs m"
  shows "\<exists>k ds. (\<forall>fuel \<ge> k. live_descendants fuel env bs m d (path_of d) = Some (Inr ds)) \<and> sorted_wrt (<) ds
    \<and> set ds = {path_of (d @ q) |q. q \<noteq> [] \<and> mview env bs m (d @ q) \<noteq> None}"
proof -
  have root: "root_solid env bs (base_id m)" using ok by (simp add: mount_ok_def)
  obtain k ps where ls: "\<And>fuel. k \<le> fuel \<Longrightarrow> list_subtree fuel env bs (base_id m) d = Some (Inr ps)"
    and ps: "set ps = {d @ q |q. q \<noteq> [] \<and> look env bs (base_id m) (d @ q) \<noteq> None}"
    using list_subtree_ex [OF root, of d] by auto
  have base: "k \<in> set (filter (\<lambda>k. map_of (upper m) k \<noteq> Some Whiteout) (map path_of ps)) \<longleftrightarrow>
      (\<exists>q. k = path_of (d @ q) \<and> q \<noteq> [] \<and> look env bs (base_id m) (d @ q) \<noteq> None \<and> map_of (upper m) (path_of (d @ q)) \<noteq> Some Whiteout)" for k
    unfolding set_filter set_map ps by blast
  define above where "above = map fst (filter (\<lambda>(k, w). is_data w \<and> child_suffix (path_of d) k \<noteq> None) (upper m))"
  have "k \<in> set above \<longleftrightarrow> (\<exists>w. (k, w) \<in> set (upper m) \<and> is_data w \<and> child_suffix (path_of d) k \<noteq> None)" for k
    unfolding above_def by force
  then have mem: "k \<in> set above \<longleftrightarrow>
      (\<exists>w. map_of (upper m) k = Some w \<and> is_data w \<and> child_suffix (path_of d) k \<noteq> None)" for k
    unfolding upper_mem [OF ok] .
  have up: "k \<in> set above \<longleftrightarrow>
      (\<exists>q e. k = path_of (d @ q) \<and> q \<noteq> [] \<and> map_of (upper m) (path_of (d @ q)) = Some (Data e))" for k
  proof
    assume "k \<in> set above"
    then obtain w where w: "map_of (upper m) k = Some w" "is_data w" "child_suffix (path_of d) k \<noteq> None"
      unfolding mem by blast
    obtain p where p: "k = path_of p" using upper_key [OF ok w(1)] by blast
    obtain q where "q \<noteq> []" "p = d @ q" using w(3) unfolding p child_suffix_some by blast
    with w(1,2) p show "\<exists>q e. k = path_of (d @ q) \<and> q \<noteq> [] \<and> map_of (upper m) (path_of (d @ q)) = Some (Data e)"
      by (cases w) (auto simp: is_data_def)
  next
    assume "\<exists>q e. k = path_of (d @ q) \<and> q \<noteq> [] \<and> map_of (upper m) (path_of (d @ q)) = Some (Data e)"
    then obtain q e where q: "k = path_of (d @ q)" "q \<noteq> []" "map_of (upper m) (path_of (d @ q)) = Some (Data e)" by blast
    then have "child_suffix (path_of d) k \<noteq> None" unfolding q(1) child_suffix_some by blast
    with q show "k \<in> set above" unfolding mem by (auto simp: is_data_def)
  qed
  have view: "mview env bs m (d @ q) \<noteq> None \<longleftrightarrow> (\<exists>e. map_of (upper m) (path_of (d @ q)) = Some (Data e))
      \<or> (look env bs (base_id m) (d @ q) \<noteq> None \<and> map_of (upper m) (path_of (d @ q)) \<noteq> Some Whiteout)" for q
    unfolding mview_def by (auto split: option.splits pending.splits)
  define ks where "ks = filter (\<lambda>k. map_of (upper m) k \<noteq> Some Whiteout) (map path_of ps) @ above"
  have "set ks = {path_of (d @ q) |q. q \<noteq> [] \<and> mview env bs m (d @ q) \<noteq> None}"
  proof (rule set_eqI)
    fix k
    have "k \<in> set ks \<longleftrightarrow> (\<exists>q. k = path_of (d @ q) \<and> q \<noteq> [] \<and> mview env bs m (d @ q) \<noteq> None)"
      unfolding ks_def set_append Un_iff base up view by metis
    then show "k \<in> set ks \<longleftrightarrow> k \<in> {path_of (d @ q) |q. q \<noteq> [] \<and> mview env bs m (d @ q) \<noteq> None}" by blast
  qed
  moreover have "live_descendants fuel env bs m d (path_of d) = Some (Inr (key_union ks))" if "k \<le> fuel" for fuel
    using ls [OF that] by (simp add: live_descendants_def ks_def above_def)
  moreover have "set (key_union ks) = set ks" "sorted_wrt (<) (key_union ks)" by (simp_all add: key_union_sorted)
  ultimately show ?thesis by metis
qed

section \<open>Removal and renaming\<close>

lemma whiteout_all:
  assumes "mount_ok env bs m" and "\<And>k. k \<in> set ds \<Longrightarrow> \<exists>p. k = path_of p"
  shows "mount_ok env bs (fold (\<lambda>d. insert_upper d Whiteout) ds m)
    \<and> (\<forall>p. mview env bs (fold (\<lambda>d. insert_upper d Whiteout) ds m) p = (if path_of p \<in> set ds then None else mview env bs m p))"
  using assms
proof (induction ds arbitrary: m)
  case (Cons k ds)
  obtain p where k: "k = path_of p" using Cons.prems(2) [of k] by auto
  have "mount_ok env bs (insert_upper k Whiteout m)" unfolding k by (rule mount_ok_insert [OF Cons.prems(1)])
  from Cons.IH [OF this] Cons.prems(2) show ?case by (auto simp: k mview_insert)
qed simp

text \<open>One iteration of the move moves one file.\<close>

definition moved :: "string list \<Rightarrow> string list \<Rightarrow> string list set \<Rightarrow> (string list \<Rightarrow> entry option) \<Rightarrow> string list \<Rightarrow> entry option" where
  "moved a b qs f p =
     (if \<exists>q \<in> qs. p = a @ q then None
      else if \<exists>q \<in> qs. p = b @ q then f (a @ drop (length b) p)
      else f p)"

lemma move_all_ok:
  assumes ok: "mount_ok env bs m" and apart: "\<And>q q'. a @ q \<noteq> b @ q'"
    and qs: "distinct qs" "\<And>q. q \<in> set qs \<Longrightarrow> q \<noteq> [] \<and> mview env bs m (a @ q) \<noteq> None"
  shows "\<exists>m'. move_all env bs (path_of a) (path_of b) (map (\<lambda>q. path_of (a @ q)) qs) m = (Inr (), m')
    \<and> mount_ok env bs m' \<and> (\<forall>p. mview env bs m' p = moved a b (set qs) (mview env bs m) p)"
  using ok qs
proof (induction qs arbitrary: m)
  case Nil
  then show ?case by (simp add: moved_def)
next
  case (Cons q qs)
  obtain e where e: "mview env bs m (a @ q) = Some e" and q: "q \<noteq> []" using Cons.prems(3) [of q] by auto
  let ?m = "insert_upper (path_of (a @ q)) Whiteout (insert_upper (path_of (b @ q)) (Data e) m)"
  have ok1: "mount_ok env bs ?m" by (intro mount_ok_insert Cons.prems(1))
  have view: "mview env bs ?m p = (if p = a @ q then None else if p = b @ q then Some e else mview env bs m p)" for p
    by (simp add: mview_insert)
  have "q' \<noteq> [] \<and> mview env bs ?m (a @ q') \<noteq> None" if "q' \<in> set qs" for q'
    using Cons.prems(2,3) that apart by (auto simp: view)
  with Cons.IH [OF ok1] Cons.prems(2) obtain m' where m':
    "move_all env bs (path_of a) (path_of b) (map (\<lambda>q. path_of (a @ q)) qs) ?m = (Inr (), m')"
    "mount_ok env bs m'" "\<And>p. mview env bs m' p = moved a b (set qs) (mview env bs ?m) p" by auto
  have "child_suffix (path_of a) (path_of (a @ q)) = Some (path_of q)" using q by (simp add: child_suffix_path)
  then have "move_all env bs (path_of a) (path_of b) (map (\<lambda>q. path_of (a @ q)) (q # qs)) m = (Inr (), m')"
    using effective_view [OF Cons.prems(1), of "a @ q"] e m'(1) by (simp add: path_of_append [symmetric])
  moreover have "mview env bs m' p = moved a b (set (q # qs)) (mview env bs m) p" for p
    unfolding m'(3) using Cons.prems(2) e apart [of _ _] apart [symmetric] by (auto simp: moved_def view)
  ultimately show ?case using m'(2) by blast
qed

section \<open>Listing\<close>

lemma live_names_ok:
  assumes ok: "mount_ok env bs m"
  shows "\<exists>k. \<forall>fuel \<ge> k. live_names fuel env bs m d names
    = Some (Inr (filter (\<lambda>n. \<exists>q. mview env bs m (d @ n # q) \<noteq> None) names))"
proof (induction names)
  case (Cons name names)
  then obtain k1 where k1: "\<And>fuel. fuel \<ge> k1 \<Longrightarrow> live_names fuel env bs m d names
      = Some (Inr (filter (\<lambda>n. \<exists>q. mview env bs m (d @ n # q) \<noteq> None) names))" by blast
  obtain k2 where k2: "\<And>fuel. fuel \<ge> k2 \<Longrightarrow> is_implicit_dir fuel env bs m (d @ [name]) (path_of (d @ [name]))
      = Some (Inr (live_below env bs m (d @ [name])))" using is_implicit_dir_ok [OF ok] by blast
  have live: "(\<exists>q. mview env bs m (d @ name # q) \<noteq> None) \<longleftrightarrow> mview env bs m (d @ [name]) \<noteq> None \<or> live_below env bs m (d @ [name])"
    unfolding live_below_def by (metis append.assoc append_Cons append_Nil)
  have "live_names fuel env bs m d (name # names)
      = Some (Inr (filter (\<lambda>n. \<exists>q. mview env bs m (d @ n # q) \<noteq> None) (name # names)))" if "k1 + k2 \<le> fuel" for fuel
    using k1 [of fuel] k2 [of fuel] that live effective_view [OF ok, of "d @ [name]"]
    by (auto simp: Let_def split: option.splits)
  then show ?case by blast
qed simp

end
