(* ===== verification/Fs_Props.thy ===== *)
theory Fs_Props
  imports Fs_Merge Fs_Files "HOL-Library.Countable"
begin

text \<open>
  The properties of the object store: the node cache is invisible, rebuilding a tree changes exactly
  the paths it is told to, manifests and files survive storage, walks list exactly what is there, and
  the tree merge refines the flat merge. The section on an environment gives the functions that stand
  for the crates concrete values that satisfy the hypotheses.
\<close>

section \<open>An environment\<close>

instance component :: countable
  by countable_datatype

instance content :: countable
  by countable_datatype

instance entry_ext :: (countable) countable
  by (rule countable_classI [of "\<lambda>r. to_nat (mode_of r, size_of r, content_of r, symlink_of r, entry.more r)"]) simp

instance tree_child_ext :: (countable) countable
  by (rule countable_classI [of "\<lambda>r. to_nat (tc_file r, tc_dir r, tree_child.more r)"]) simp

instance tree_node_ext :: (countable) countable
  by (rule countable_classI [of "\<lambda>r. to_nat (children r, tree_node.more r)"]) simp

text \<open>Nodes are written in unary, the hash is the identity, nothing is compressed, one chunk per buffer.\<close>

definition plain_env :: fs_env where
  "plain_env = \<lparr>blake3 = (\<lambda>b. b), bin_ser = (\<lambda>n. Inr (replicate (to_nat n) 0)),
     bin_de = (\<lambda>b. Inr (from_nat (length b))), zstd_encode = (\<lambda>_. None), zstd_decode = (\<lambda>b. Inr b),
     fastcdc = (\<lambda>data. [(0, length data)])\<rparr>"

lemma plain_env_ok: "env_ok plain_env" "content_env_ok plain_env"
  by (auto simp: env_ok_def content_env_ok_def plain_env_def inj_def)

lemma empty_addressed: "addressed env Map.empty" "chunks_addressed env Map.empty" "root_solid env bs None"
  by (simp_all add: addressed_def chunks_addressed_def root_solid_def)

definition note_entry :: "bytes \<Rightarrow> entry" where
  "note_entry b = \<lparr>mode_of = 420, size_of = of_nat (length b), content_of = Inline b, symlink_of = None\<rparr>"

text \<open>A snapshot with one file \<open>d/a\<close>, and one made from it that changes the file.\<close>

definition first_build :: "hash result \<times> blobs" where
  "first_build = build_root plain_env Map.empty None [([''d'', ''a''], Some (note_entry [1]))]"

definition first_root :: hash where "first_root = projr (fst first_build)"
definition first_blobs :: blobs where "first_blobs = snd first_build"

lemma first_built: "addressed plain_env first_blobs" "solid plain_env first_blobs first_root"
    "p \<noteq> [] \<Longrightarrow> look plain_env first_blobs (Some first_root) p = (if p = [''d'', ''a''] then Some (note_entry [1]) else None)"
proof -
  obtain h bs' where b: "build_root plain_env Map.empty None [([''d'', ''a''], Some (note_entry [1]))] = (Inr h, bs')"
    "addressed plain_env bs'" "solid plain_env bs' h"
    "\<And>p. p \<noteq> [] \<Longrightarrow> look plain_env bs' (Some h) p = updated [([''d'', ''a''], Some (note_entry [1]))] (look plain_env Map.empty None) p"
    using build_root_ex [OF plain_env_ok(1) empty_addressed(1,3), of "[([''d'', ''a''], Some (note_entry [1]))]"] by blast
  then have "first_blobs = bs'" "first_root = h" by (simp_all add: first_blobs_def first_root_def first_build_def)
  with b show "addressed plain_env first_blobs" "solid plain_env first_blobs first_root"
    "p \<noteq> [] \<Longrightarrow> look plain_env first_blobs (Some first_root) p = (if p = [''d'', ''a''] then Some (note_entry [1]) else None)"
    by (auto simp: updated_def)
qed

lemma first_root_solid: "root_solid plain_env first_blobs (Some first_root)"
  using first_built(2) by (simp add: root_solid_def)

section \<open>The node cache\<close>

text \<open>With a cache whose entries are what the backend holds, loading and storing nodes through the
  shared node cache give the answers and the backend they would give without it, and leave such a
  cache; a bounded cache stays within its capacity.\<close>

theorem node_cache_transparent:
  assumes "cache_coherent env st" and "env_ok env" and "1 \<le> nc_cap (nodes_of st)" and "cache_bounded (nodes_of st)"
  shows "fst (get_node env st i) = fetch env (blobs_of st) i \<and> blobs_of (snd (get_node env st i)) = blobs_of st
    \<and> cache_coherent env (snd (get_node env st i)) \<and> cache_bounded (nodes_of (snd (get_node env st i)))
    \<and> fst (put_node env st node) = fst (store_node env (blobs_of st) node)
    \<and> blobs_of (snd (put_node env st node)) = snd (store_node env (blobs_of st) node)
    \<and> cache_coherent env (snd (put_node env st node)) \<and> cache_bounded (nodes_of (snd (put_node env st node)))"
proof -
  have "cache_bounded (nodes_of (snd (get_node env st i)))"
    using assms(3,4) by (auto simp: get_node_def cache_put_bounded split: option.splits sum.splits)
  moreover have "cache_bounded (nodes_of (snd (put_node env st node)))"
    using assms(3,4) by (auto simp: put_node_def Let_def cache_put_bounded split: sum.splits)
  ultimately show ?thesis
    using get_node_cases [OF assms(1), of i] put_node_cases [OF assms(1,2), of node] by simp
qed

section \<open>Building trees\<close>

text \<open>Building a tree from a base snapshot and a list of changes succeeds; the new snapshot shows the
  last change of every changed path and the base everywhere else, for every path but the root; and every
  blob that was stored is still stored, so every older snapshot reads as before.\<close>

theorem build_root_updates:
  assumes "env_ok env" and "addressed env bs" and "root_solid env bs base" and "root_solid env bs old"
  shows "\<exists>h bs'. build_root env bs base changes = (Inr h, bs') \<and> bs \<subseteq>\<^sub>m bs' \<and> solid env bs' h
    \<and> (\<forall>p. p \<noteq> [] \<longrightarrow> look env bs' (Some h) p = updated changes (look env bs base) p)
    \<and> (\<forall>p. look env bs' old p = look env bs old p)"
proof -
  obtain h bs' where b: "build_root env bs base changes = (Inr h, bs')" "bs \<subseteq>\<^sub>m bs'" "solid env bs' h"
    "\<And>p. p \<noteq> [] \<Longrightarrow> look env bs' (Some h) p = updated changes (look env bs base) p"
    using build_root_ex [OF assms(1-3), of changes] by blast
  with look_mono [OF assms(4) b(2)] show ?thesis by blast
qed

section \<open>Manifests\<close>

text \<open>A manifest whose keys are the normal forms of paths below the root.\<close>

definition manifest_normal :: "manifest \<Rightarrow> bool" where
  "manifest_normal m \<longleftrightarrow> btm_ok m \<and> (\<forall>k e. (k, e) \<in> set m \<longrightarrow> (\<exists>p. p \<noteq> [] \<and> k = path_of p))"

lemma manifest_changes:
  assumes "manifest_normal m" and "p \<noteq> []"
  shows "updated (map (\<lambda>(k, e). (components_of k, Some e)) m) f p = (case btm_get m (path_of p) of None \<Rightarrow> f p | Some e \<Rightarrow> Some e)"
proof -
  have key: "components_of k = p \<longleftrightarrow> k = path_of p" if "(k, e) \<in> set m" for k e
    using assms(1) that by (auto simp: manifest_normal_def)
  have "filter (\<lambda>c. fst c = p) (map (\<lambda>(k, e). (components_of k, Some e)) m)
      = map (\<lambda>(k, e). (components_of k, Some e)) (filter (\<lambda>x. fst x = path_of p) m)"
  proof -
    have "fst ((\<lambda>(k, e). (components_of k, Some e)) x) = p \<longleftrightarrow> fst x = path_of p" if "x \<in> set m" for x
      using key [of "fst x" "snd x"] that by (simp add: case_prod_unfold)
    then show ?thesis unfolding filter_map by (auto simp: comp_def cong: filter_cong)
  qed
  moreover have "filter (\<lambda>x. fst x = k) m = (case btm_get m k of None \<Rightarrow> [] | Some e \<Rightarrow> [(k, e)])" for k
  proof -
    have "btm_ok m" using assms(1) by (simp add: manifest_normal_def)
    then show ?thesis
      by (induction m) (auto simp: btm_ok_Cons filter_empty_conv map_of_eq_None_iff dest!: map_of_SomeD split: option.splits)
  qed
  ultimately show ?thesis by (simp add: updated_def split: option.splits)
qed

text \<open>Storing a manifest and reading it back returns it: with enough fuel the walk ends and finds
  every entry under its path and nothing else.\<close>

theorem manifest_round_trip:
  assumes "env_ok env" and "addressed env bs" and "manifest_normal m"
  shows "\<exists>h bs' k. put_manifest env bs m = (Inr h, bs') \<and> (\<forall>fuel \<ge> k. get_manifest fuel env bs' h = Some (Inr m))"
proof -
  have none: "root_solid env bs None" by (simp add: root_solid_def)
  from build_root_ex [OF assms(1,2) none, of "map (\<lambda>(k, e). (components_of k, Some e)) m"] obtain h bs' where
    b: "put_manifest env bs m = (Inr h, bs')" "solid env bs' h"
    "\<And>p. p \<noteq> [] \<Longrightarrow> look env bs' (Some h) p = updated (map (\<lambda>(k, e). (components_of k, Some e)) m) (look env bs None) p"
    unfolding put_manifest_def by blast
  from get_manifest_ex [OF b(2)] obtain k m' where g: "\<And>fuel. k \<le> fuel \<Longrightarrow> get_manifest fuel env bs' h = Some (Inr m')" "btm_ok m'"
    "\<And>key e. btm_get m' key = Some e \<longleftrightarrow> (\<exists>p. key = path_of p \<and> look env bs' (Some h) p = Some e)" by blast
  have look: "look env bs' (Some h) p = btm_get m (path_of p)" for p
  proof (cases "p = []")
    case True
    have "btm_get m [] = None"
      using assms(3) unfolding manifest_normal_def by (metis map_of_SomeD not_None_eq path_of_eq_Nil)
    with True show ?thesis by simp
  next
    case False
    then show ?thesis using b(3) manifest_changes [OF assms(3) False] by (simp split: option.splits)
  qed
  have "btm_get m' key = btm_get m key" for key
  proof (cases "\<exists>p. key = path_of p")
    case True
    then obtain p where p: "key = path_of p" ..
    have "btm_get m' key = Some e \<longleftrightarrow> btm_get m key = Some e" for e unfolding g(3) p look by simp
    then show ?thesis by (metis option.exhaust)
  next
    case False
    then have "btm_get m' key = None" using g(3) by (metis option.exhaust)
    moreover have "btm_get m key = None"
      using False assms(3) unfolding manifest_normal_def by (metis map_of_SomeD option.exhaust)
    ultimately show ?thesis by simp
  qed
  then have "m' = m" using g(2) assms(3) by (intro btm_ext) (simp_all add: manifest_normal_def)
  with b(1) g(1) show ?thesis by blast
qed

section \<open>Walks\<close>

text \<open>Listing the subtree of a directory ends, and lists exactly the paths below it that hold a file.\<close>

theorem list_subtree_exact:
  assumes "root_solid env bs root"
  shows "\<exists>k ps. (\<forall>fuel \<ge> k. list_subtree fuel env bs root comps = Some (Inr ps))
    \<and> (\<forall>p. p \<in> set ps \<longleftrightarrow> (\<exists>q. q \<noteq> [] \<and> p = comps @ q \<and> look env bs root p \<noteq> None))"
proof -
  obtain k ps where l: "\<forall>fuel \<ge> k. list_subtree fuel env bs root comps = Some (Inr ps)"
    and ps: "set ps = {comps @ q |q. q \<noteq> [] \<and> look env bs root (comps @ q) \<noteq> None}"
    using list_subtree_ex [OF assms, of comps] by (elim exE conjE)
  have "p \<in> set ps \<longleftrightarrow> (\<exists>q. q \<noteq> [] \<and> p = comps @ q \<and> look env bs root p \<noteq> None)" for p
    unfolding ps by auto
  with l show ?thesis by (intro exI [of _ k] exI [of _ ps] conjI) simp_all
qed

section \<open>Files\<close>

text \<open>A file written as a stream of blocks of any sizes reads back as the blocks' concatenation, and
  its entry has that size modulo 2^64: small files are inlined, large ones are cut into chunks, compressed
  when that is shorter, and stored under the hash of their bytes. No stored blob changes.\<close>

theorem file_round_trip:
  assumes "content_env_ok env" and "chunks_addressed env bs" and "put_file_stream env bs blocks = (e, bs')"
  shows "read_file env bs' e = Inr (concat blocks) \<and> size_of e = of_nat (length (concat blocks))
    \<and> bs \<subseteq>\<^sub>m bs' \<and> chunks_addressed env bs'"
proof -
  have "writer_inv env bs (concat blocks) (fold (feed env) blocks (bs, writer_new))"
    using feeds_inv [OF assms(1) writer_new_inv [OF assms(2)], of blocks] by simp
  from finish_file_inv [OF assms(1) this] assms(3) show ?thesis
    unfolding put_file_stream_def chunks_added_def by blast
qed

section \<open>Merging\<close>

text \<open>C11. The tree merge refines the flat merge: with enough fuel it succeeds, and the manifest of its
  result and its conflicts, in order, are what the flat three-way merge computes from the manifests of
  the base and of the two sides, for every preference; subtrees pruned by hash make no difference.\<close>

theorem merge_trees_refines:
  assumes env: "env_ok env" and ad: "addressed env bs"
    and solid: "solid env bs ho" "solid env bs ht" "root_solid env bs hb"
  shows "\<exists>k mo mt mb. \<forall>fuel \<ge> k. get_manifest fuel env bs ho = Some (Inr mo) \<and> get_manifest fuel env bs ht = Some (Inr mt)
    \<and> (case hb of None \<Rightarrow> mb = None | Some h \<Rightarrow> map_option (\<lambda>m. Some (Inr m)) mb = Some (get_manifest fuel env bs h))
    \<and> (\<exists>h cs bs' m. merge_trees fuel env bs hb (Some ho) (Some ht) pref = Some (Inr (h, cs), bs')
        \<and> (\<exists>k'. \<forall>f \<ge> k'. get_manifest f env bs' h = Some (Inr m)) \<and> merge_manifests mb mo mt pref = (m, cs))"
proof -
  have man: "\<exists>k m. (\<forall>fuel \<ge> k. get_manifest fuel env bs h = Some (Inr m)) \<and> manifest_of (look env bs (Some h)) m" if "solid env bs h" for bs h
    using get_manifest_ex [OF that] unfolding manifest_of_def by blast
  obtain ko mo where mo: "\<forall>fuel \<ge> ko. get_manifest fuel env bs ho = Some (Inr mo)" "manifest_of (look env bs (Some ho)) mo"
    using man [OF solid(1)] by blast
  obtain kt mt where mt: "\<forall>fuel \<ge> kt. get_manifest fuel env bs ht = Some (Inr mt)" "manifest_of (look env bs (Some ht)) mt"
    using man [OF solid(2)] by blast
  obtain kb mb where mb: "\<forall>fuel \<ge> kb. case hb of None \<Rightarrow> mb = None | Some h \<Rightarrow> map_option (\<lambda>m. Some (Inr m)) mb = Some (get_manifest fuel env bs h)"
    "case mb of None \<Rightarrow> look env bs hb = (\<lambda>_. None) | Some x \<Rightarrow> manifest_of (look env bs hb) x"
  proof (cases hb)
    case None
    then show thesis using that [of 0 None] by (simp add: fun_eq_iff)
  next
    case (Some h)
    with solid(3) have "solid env bs h" by (simp add: root_solid_def)
    from man [OF this] obtain k m where "\<forall>fuel \<ge> k. get_manifest fuel env bs h = Some (Inr m)" "manifest_of (look env bs (Some h)) m" by blast
    with Some that [of k "Some m"] show thesis by simp
  qed
  have roots: "root_solid env bs (Some ho)" "root_solid env bs (Some ht)" using solid by (simp_all add: root_solid_def)
  obtain n where n: "\<And>fuel. fuel > n \<Longrightarrow> \<exists>h cs bs'. merge_trees fuel env bs hb (Some ho) (Some ht) pref = Some (Inr (h, cs), bs')
    \<and> bs \<subseteq>\<^sub>m bs' \<and> addressed env bs' \<and> solid env bs' h
    \<and> merged_as env pref [] (look env bs hb) (look env bs (Some ho)) (look env bs (Some ht)) (Some h) cs bs'"
    using merge_trees_ok [OF env ad solid(3) roots, of pref] by blast
  have "\<exists>h cs bs' m. merge_trees fuel env bs hb (Some ho) (Some ht) pref = Some (Inr (h, cs), bs')
      \<and> (\<exists>k'. \<forall>f \<ge> k'. get_manifest f env bs' h = Some (Inr m)) \<and> merge_manifests mb mo mt pref = (m, cs)" if "n < fuel" for fuel
  proof -
    from n [OF that] obtain h cs bs' where r: "merge_trees fuel env bs hb (Some ho) (Some ht) pref = Some (Inr (h, cs), bs')"
      "solid env bs' h" "merged_as env pref [] (look env bs hb) (look env bs (Some ho)) (look env bs (Some ht)) (Some h) cs bs'" by blast
    from man [OF r(2)] obtain k' m where m: "\<forall>f \<ge> k'. get_manifest f env bs' h = Some (Inr m)" "manifest_of (look env bs' (Some h)) m" by blast
    have "merge_manifests mb mo mt pref = (m, cs)"
      by (rule merge_agrees [OF mo(2) mt(2) m(2) mb(2)]) (use r(3) in \<open>simp_all add: merged_as_def\<close>)
    with r(1) m(1) show ?thesis by blast
  qed
  with mo(1) mt(1) mb(1) show ?thesis
    by (intro exI [of _ "ko + kt + kb + n + 1"] exI [of _ mo] exI [of _ mt] exI [of _ mb]) auto
qed

theorem merge_trees_refines_witness:
  "\<exists>fuel h cs bs'. merge_trees fuel plain_env first_blobs None (Some first_root) (Some first_root) PreferNone = Some (Inr (h, cs), bs')"
  using merge_trees_refines [OF plain_env_ok(1) first_built(1,2) first_built(2) empty_addressed(3), of PreferNone] by blast

end
