(* ===== verification/Mount_Props.thy ===== *)
theory Mount_Props
  imports Fs_Mount Fs_Props
begin

text \<open>
  The properties of the overlay mount. \<open>mview\<close> is what a mount shows at a path; every operation is
  stated as its effect on that view.
\<close>

section \<open>Pushing\<close>

lemma upper_changes:
  assumes ok: "mount_ok env bs m" and p: "p \<noteq> []"
  shows "updated (map (\<lambda>(k, w). (components_of k, case w of Data e \<Rightarrow> Some e | Whiteout \<Rightarrow> None)) (upper m)) f p
    = (case map_of (upper m) (path_of p) of None \<Rightarrow> f p | Some (Data e) \<Rightarrow> Some e | Some Whiteout \<Rightarrow> None)"
proof -
  let ?g = "\<lambda>w. case w of Data e \<Rightarrow> Some e | Whiteout \<Rightarrow> None"
  have key: "components_of k = p \<longleftrightarrow> k = path_of p" if "(k, w) \<in> set (upper m)" for k w
    using ok that by (auto simp: mount_ok_def)
  have "updated (map (\<lambda>(k, w). (components_of k, ?g w)) us) f p
      = (case map_of us (path_of p) of None \<Rightarrow> f p | Some w \<Rightarrow> ?g w)"
    if "set us \<subseteq> set (upper m)" "distinct (map fst us)" for us
    using that
  proof (induction us)
    case (Cons u us)
    obtain k w where u: "u = (k, w)" by fastforce
    have k: "components_of k = p \<longleftrightarrow> k = path_of p" by (rule key [of k w]) (use Cons.prems(1) u in simp)
    have rest: "filter (\<lambda>c. fst c = p) (map (\<lambda>(k, w). (components_of k, ?g w)) us) = []" if "k = path_of p"
      using Cons.prems key that u by (force simp: filter_empty_conv)
    show ?case
    proof (cases "k = path_of p")
      case True
      with k rest u show ?thesis by (simp add: updated_def)
    next
      case False
      with k u have "updated (map (\<lambda>(k, w). (components_of k, ?g w)) (u # us)) f p
          = updated (map (\<lambda>(k, w). (components_of k, ?g w)) us) f p" by (simp add: updated_def)
      with Cons False u show ?thesis by simp
    qed
  qed simp
  from this [of "upper m"] ok show ?thesis
    by (simp add: mount_ok_def split: option.splits pending.splits)
qed

text \<open>C12. Pushing a mount succeeds and stores a snapshot that shows, at every path but the root, exactly
  what the mount shows, so a mount pulled from it reads the same; no stored blob changes.\<close>

theorem push_keeps_view:
  assumes "env_ok env" and "addressed env bs" and "mount_ok env bs m"
  shows "\<exists>h bs'. push env bs m = (Inr h, bs') \<and> bs \<subseteq>\<^sub>m bs' \<and> mount_ok env bs' (pull h)
    \<and> (\<forall>p. p \<noteq> [] \<longrightarrow> mview env bs' (pull h) p = mview env bs m p)"
proof -
  have root: "root_solid env bs (base_id m)" using assms(3) by (simp add: mount_ok_def)
  let ?cs = "map (\<lambda>(k, w). (components_of k, case w of Data e \<Rightarrow> Some e | Whiteout \<Rightarrow> None)) (upper m)"
  obtain h bs' where b: "push env bs m = (Inr h, bs')" "bs \<subseteq>\<^sub>m bs'" "solid env bs' h"
    "\<forall>p. p \<noteq> [] \<longrightarrow> look env bs' (Some h) p = updated ?cs (look env bs (base_id m)) p"
    using build_root_ex [OF assms(1,2) root, of ?cs] unfolding push_def by blast
  have "mview env bs' (pull h) p = mview env bs m p" if "p \<noteq> []" for p
  proof -
    have "mview env bs' (pull h) p = look env bs' (Some h) p" by (simp add: mview_def pull_def)
    also have "\<dots> = updated ?cs (look env bs (base_id m)) p" using b(4) that by blast
    also have "\<dots> = mview env bs m p"
      unfolding upper_changes [OF assms(3) that] mview_def by (simp split: option.splits pending.splits)
    finally show ?thesis .
  qed
  moreover have "mount_ok env bs' (pull h)" using b(3) by (simp add: mount_ok_def pull_def root_solid_def)
  ultimately show ?thesis using b(1,2) by blast
qed

definition edited :: mount where
  "edited = insert_upper (path_of [''d'', ''a'']) Whiteout (insert_upper (path_of [''e'']) (Data (note_entry [2])) (pull first_root))"

lemma edited_ok: "mount_ok plain_env first_blobs edited"
proof -
  have "mount_ok plain_env first_blobs (pull first_root)" using first_root_solid by (simp add: mount_ok_def pull_def)
  then show ?thesis unfolding edited_def by (intro mount_ok_insert)
qed

lemma edited_view: "mview plain_env first_blobs edited p = (if p = [''e''] then Some (note_entry [2]) else None)"
proof (cases "p = []")
  case False
  then show ?thesis
    unfolding edited_def mview_insert by (simp add: mview_def pull_def first_built(3) del: look.simps)
qed (simp add: edited_def mview_insert, simp add: mview_def pull_def)

theorem push_keeps_view_witness:
  "\<exists>h bs'. push plain_env first_blobs edited = (Inr h, bs') \<and> mview plain_env bs' (pull h) [''e''] = Some (note_entry [2])
    \<and> mview plain_env bs' (pull h) [''d'', ''a''] = None"
  using push_keeps_view [OF plain_env_ok(1) first_built(1) edited_ok] by (auto simp: edited_view)

section \<open>Writing and reading\<close>

text \<open>After writing bytes to a path the mount reads those bytes there, and every other path shows what
  it showed; writing never fails and changes no stored blob.\<close>

theorem write_then_read:
  assumes env: "content_env_ok env" and ad: "chunks_addressed env bs" and ok: "mount_ok env bs m"
    and w: "mount_write env bs m p b = (bs', m')"
  shows "mount_read env bs' m' p = Inr b \<and> mount_ok env bs' m' \<and> bs \<subseteq>\<^sub>m bs'
    \<and> (\<forall>q. q \<noteq> components_of p \<longrightarrow> mview env bs' m' q = mview env bs m q)"
proof -
  obtain e where put: "put_file env bs b = (e, bs')" and m': "m' = insert_upper (path_of (components_of p)) (Data e) m"
    using w by (auto simp: mount_write_def split: prod.splits)
  note f = put_file_ok [OF env ad put]
  have le: "bs \<subseteq>\<^sub>m bs'" using f by (simp add: chunks_added_def)
  have root: "root_solid env bs (base_id m)" using ok by (simp add: mount_ok_def)
  have ok1: "mount_ok env bs' m" using ok root_solid_mono [OF root le] by (simp add: mount_ok_def)
  then have ok2: "mount_ok env bs' m'" unfolding m' by (rule mount_ok_insert)
  have same: "mview env bs' m q = mview env bs m q" for q
    unfolding mview_def look_mono [OF root le] ..
  have "mount_read env bs' m' p = Inr b"
    using effective_view [OF ok2, of "components_of p"] f by (simp add: mount_read_def Let_def m' mview_insert)
  with ok2 le same show ?thesis by (simp add: m' mview_insert)
qed

section \<open>Removing\<close>

text \<open>Removing a path, with enough fuel: a file disappears alone; a directory that still has files is
  refused unless the removal is recursive, which then removes exactly the files at and below it; what does
  not exist is an error. Refused removals change nothing.\<close>

theorem remove_effect:
  assumes ok: "mount_ok env bs m" and c: "components_of p = c"
  shows "\<exists>k. \<forall>fuel \<ge> k. \<exists>r m'. mount_remove fuel env bs m p recursive = Some (r, m') \<and> mount_ok env bs m' \<and>
    (if mview env bs m c \<noteq> None then r = Inr () \<and> (\<forall>q. mview env bs m' q = (if q = c then None else mview env bs m q))
     else if \<not> live_below env bs m c then r = Inl (enoent (path_of c)) \<and> m' = m
     else if \<not> recursive then r = Inl (Err (''ENOTEMPTY: '' @ path_display (path_of c))) \<and> m' = m
     else r = Inr () \<and> (\<forall>q. mview env bs m' q = (if \<exists>s. q = c @ s then None else mview env bs m q)))"
proof -
  note eff = effective_view [OF ok, of c]
  show ?thesis
  proof (cases "mview env bs m c")
    case (Some e)
    with eff ok mount_ok_insert [OF ok, of c Whiteout] show ?thesis
      by (simp add: mount_remove_def Let_def c mview_insert)
  next
    case None
    obtain k ds where d: "\<forall>fuel \<ge> k. live_descendants fuel env bs m c (path_of c) = Some (Inr ds)"
      and ds: "set ds = {path_of (c @ q) |q. q \<noteq> [] \<and> mview env bs m (c @ q) \<noteq> None}"
      using live_descendants_ok [OF ok, of c] by (elim exE conjE)
    have empty: "ds = [] \<longleftrightarrow> \<not> live_below env bs m c"
    proof -
      have "ds = [] \<longleftrightarrow> set ds = {}" by simp
      then show ?thesis unfolding ds live_below_def by blast
    qed
    let ?m = "fold (\<lambda>d. insert_upper d Whiteout) ds m"
    have w: "mount_ok env bs ?m" "\<And>q. mview env bs ?m q = (if path_of q \<in> set ds then None else mview env bs m q)"
    proof -
      have "\<exists>p. k = path_of p" if "k \<in> set ds" for k using that unfolding ds by blast
      from whiteout_all [OF ok this] show "mount_ok env bs ?m"
        "\<And>q. mview env bs ?m q = (if path_of q \<in> set ds then None else mview env bs m q)" by blast+
    qed
    have "mview env bs ?m q = (if \<exists>s. q = c @ s then None else mview env bs m q)" for q
    proof (cases "\<exists>s. q = c @ s")
      case True
      then obtain s where q: "q = c @ s" ..
      show ?thesis
      proof (cases "s = [] \<or> mview env bs m q = None")
        case True
        with q None show ?thesis by (auto simp: w(2))
      next
        case False
        with q have "path_of q \<in> set ds" unfolding ds by blast
        with q show ?thesis by (simp add: w(2))
      qed
    next
      case False
      then have "path_of q \<notin> set ds" unfolding ds by auto
      with False show ?thesis by (simp add: w(2))
    qed
    with w(1) have "\<exists>r m'. mount_remove fuel env bs m p recursive = Some (r, m') \<and> mount_ok env bs m' \<and>
      (if \<not> live_below env bs m c then r = Inl (enoent (path_of c)) \<and> m' = m
       else if \<not> recursive then r = Inl (Err (''ENOTEMPTY: '' @ path_display (path_of c))) \<and> m' = m
       else r = Inr () \<and> (\<forall>q. mview env bs m' q = (if \<exists>s. q = c @ s then None else mview env bs m q)))" if "k \<le> fuel" for fuel
      using d that eff None ok empty by (simp add: mount_remove_def Let_def c)
    then show ?thesis unfolding None by (intro exI [of _ k] allI impI) (simp only: simp_thms if_False)
  qed
qed

section \<open>Renaming\<close>

lemma not_below: "child_suffix (path_of a) (path_of b) = None \<longleftrightarrow> (\<forall>q. b = a @ q \<longrightarrow> q = [])"
  using child_suffix_some [of a b] by auto

text \<open>C33. Renaming, with enough fuel: a file moves alone; a directory moves with exactly the files below
  it, each to the same place below the new name, and nothing else changes. A missing source, a move
  into the own subtree and a move onto an ancestor are refused and change nothing.\<close>

theorem rename_effect:
  assumes ok: "mount_ok env bs m" and a: "components_of from_p = a" and b: "components_of to_p = b"
  shows "\<exists>k. \<forall>fuel \<ge> k. \<exists>r m'. rename fuel env bs m from_p to_p = Some (r, m') \<and> mount_ok env bs m' \<and>
    (if a = b then r = Inr () \<and> m' = m
     else if mview env bs m a \<noteq> None
     then r = Inr () \<and> (\<forall>q. mview env bs m' q = (if q = a then None else if q = b then mview env bs m a else mview env bs m q))
     else if (\<exists>q. b = a @ q) \<or> (\<exists>q. a = b @ q) \<or> \<not> live_below env bs m a then (\<exists>e. r = Inl e) \<and> m' = m
     else r = Inr () \<and> (\<forall>p. mview env bs m' p = moved a b {q. q \<noteq> [] \<and> mview env bs m (a @ q) \<noteq> None} (mview env bs m) p))"
proof -
  note eff = effective_view [OF ok, of a]
  show ?thesis
  proof (cases "a = b")
    case True
    with ok a b show ?thesis by (simp add: rename_def Let_def)
  next
    case ab: False
    show ?thesis
    proof (cases "mview env bs m a")
      case (Some e)
      have "mount_ok env bs (insert_upper (path_of a) Whiteout (insert_upper (path_of b) (Data e) m))"
        by (intro mount_ok_insert ok)
      with Some ab eff a b show ?thesis by (simp add: rename_def Let_def mview_insert)
    next
      case None
      show ?thesis
      proof (cases "(\<exists>q. b = a @ q) \<or> (\<exists>q. a = b @ q)")
        case True
        with ab have "child_suffix (path_of a) (path_of b) \<noteq> None \<or> child_suffix (path_of b) (path_of a) \<noteq> None"
          unfolding child_suffix_some by force
        then have "\<exists>e. rename fuel env bs m from_p to_p = Some (Inl e, m)" for fuel
          using None ab eff a b by (simp add: rename_def Let_def del: not_None_eq)
        moreover have "((\<exists>q. b = a @ q) \<or> (\<exists>q. a = b @ q) \<or> \<not> live_below env bs m a) = True" using True by blast
        ultimately show ?thesis using ok ab unfolding None by (simp only: simp_thms if_False if_True) blast
      next
        case apart: False
        then have suf: "child_suffix (path_of a) (path_of b) = None" "child_suffix (path_of b) (path_of a) = None"
          unfolding not_below by blast+
        obtain k ds where d: "\<forall>fuel \<ge> k. live_descendants fuel env bs m a (path_of a) = Some (Inr ds)" and srt: "sorted_wrt (<) ds"
          and ds: "set ds = {path_of (a @ q) |q. q \<noteq> [] \<and> mview env bs m (a @ q) \<noteq> None}"
          using live_descendants_ok [OF ok, of a] by (elim exE conjE)
        have empty: "ds = [] \<longleftrightarrow> \<not> live_below env bs m a"
        proof -
          have "ds = [] \<longleftrightarrow> set ds = {}" by simp
          then show ?thesis unfolding ds live_below_def by blast
        qed
        show ?thesis
        proof (cases "live_below env bs m a")
          case False
          have "rename fuel env bs m from_p to_p = Some (Inl (enoent (path_of a)), m)" if "k \<le> fuel" for fuel
            using False that empty d suf None ab eff a b by (simp add: rename_def Let_def)
          with False ok ab show ?thesis unfolding None by (simp only: simp_thms if_False if_True) blast
        next
          case True
          have "\<exists>qs. ds = map (\<lambda>q. path_of (a @ q)) qs"
            unfolding ex_map_conv using ds by blast
          then obtain qs where qs: "ds = map (\<lambda>q. path_of (a @ q)) qs" ..
          have "distinct ds" using srt by (simp add: strict_sorted_iff)
          then have dq: "distinct qs" unfolding qs by (simp add: distinct_map)
          have "(\<lambda>q. path_of (a @ q)) ` set qs = (\<lambda>q. path_of (a @ q)) ` {q. q \<noteq> [] \<and> mview env bs m (a @ q) \<noteq> None}"
            using ds unfolding qs by auto
          moreover have "inj (\<lambda>q. path_of (a @ q))" by (rule injI) simp
          ultimately have setq: "set qs = {q. q \<noteq> [] \<and> mview env bs m (a @ q) \<noteq> None}" by (simp add: inj_image_eq_iff)
          have disjoint: "a @ q \<noteq> b @ q'" for q q'
            using apart unfolding append_eq_append_conv2 by metis
          obtain m' where mv: "move_all env bs (path_of a) (path_of b) ds m = (Inr (), m')" "mount_ok env bs m'"
            "\<forall>p. mview env bs m' p = moved a b (set qs) (mview env bs m) p"
            using move_all_ok [OF ok disjoint dq] setq unfolding qs by blast
          have "rename fuel env bs m from_p to_p = Some (Inr (), m')" if "k \<le> fuel" for fuel
            using d that True empty suf None ab eff a b mv(1) by (simp add: rename_def Let_def)
          moreover have "((\<exists>q. b = a @ q) \<or> (\<exists>q. a = b @ q) \<or> \<not> live_below env bs m a) = False" using apart True by blast
          ultimately show ?thesis
            using mv(2,3) ab unfolding None setq
            by (intro exI [of _ k] allI impI exI [of _ "Inr ()"] exI [of _ m']) (simp only: simp_thms if_False)
        qed
      qed
    qed
  qed
qed

theorem rename_effect_witness:
  "\<exists>fuel m'. rename fuel plain_env first_blobs (pull first_root) [Normal ''d''] [Normal ''e''] = Some (Inr (), m')
    \<and> mview plain_env first_blobs m' [''e'', ''a''] = Some (note_entry [1]) \<and> mview plain_env first_blobs m' [''d'', ''a''] = None"
proof -
  have ok: "mount_ok plain_env first_blobs (pull first_root)" using first_root_solid by (simp add: mount_ok_def pull_def)
  have c: "components_of [Normal ''d''] = [''d'']" "components_of [Normal ''e''] = [''e'']" by (simp_all add: components_of_def)
  have v: "mview plain_env first_blobs (pull first_root) p = look plain_env first_blobs (Some first_root) p" for p
    by (simp add: mview_def pull_def)
  have none: "mview plain_env first_blobs (pull first_root) [''d''] = None" unfolding v by (simp add: first_built(3) del: look.simps)
  have a: "mview plain_env first_blobs (pull first_root) ([''d''] @ [''a'']) = Some (note_entry [1])"
    unfolding v by (simp add: first_built(3) del: look.simps)
  then have live: "live_below plain_env first_blobs (pull first_root) [''d'']" unfolding live_below_def by blast
  have ne: "([''d''] = [''e'']) = False" "(\<exists>q. [''e''] = [''d''] @ q) = False" "(\<exists>q. [''d''] = [''e''] @ q) = False" by simp_all
  let ?qs = "{q. q \<noteq> [] \<and> mview plain_env first_blobs (pull first_root) ([''d''] @ q) \<noteq> None}"
  obtain k where "\<forall>fuel \<ge> k. \<exists>r m'. rename fuel plain_env first_blobs (pull first_root) [Normal ''d''] [Normal ''e''] = Some (r, m')
      \<and> mount_ok plain_env first_blobs m' \<and> r = Inr ()
      \<and> (\<forall>p. mview plain_env first_blobs m' p = moved [''d''] [''e''] ?qs (mview plain_env first_blobs (pull first_root)) p)"
    using rename_effect [OF ok c] by (simp only: ne none live not_True_eq_False if_True if_False simp_thms) blast
  then obtain m' where m': "rename k plain_env first_blobs (pull first_root) [Normal ''d''] [Normal ''e''] = Some (Inr (), m')"
    "\<forall>p. mview plain_env first_blobs m' p = moved [''d''] [''e''] ?qs (mview plain_env first_blobs (pull first_root)) p" by blast
  have q: "[''a''] \<in> ?qs" using a by blast
  have "mview plain_env first_blobs m' [''e'', ''a''] = Some (note_entry [1])" "mview plain_env first_blobs m' [''d'', ''a''] = None"
    unfolding m'(2) [rule_format] moved_def using q a by auto
  with m'(1) show ?thesis by blast
qed

section \<open>Listing\<close>

text \<open>The names a mount shows in a directory.\<close>

definition shown :: "fs_env \<Rightarrow> blobs \<Rightarrow> mount \<Rightarrow> string list \<Rightarrow> string \<Rightarrow> bool" where
  "shown env bs m d n \<longleftrightarrow> (\<exists>q. mview env bs m (d @ n # q) \<noteq> None)"

lemma added_names:
  assumes ok: "mount_ok env bs m"
  shows "n \<in> set (List.map_filter (\<lambda>(k, w). if is_data w
       then (case child_suffix (path_of d) k of Some (c # _) \<Rightarrow> Some (component_text c) | _ \<Rightarrow> None) else None) (upper m))
    \<longleftrightarrow> (\<exists>q e. map_of (upper m) (path_of (d @ n # q)) = Some (Data e))" (is "?l \<longleftrightarrow> ?r")
proof
  assume ?l
  then obtain k w c r where kw: "(k, w) \<in> set (upper m)" "is_data w" "child_suffix (path_of d) k = Some (c # r)" "component_text c = n"
    by (auto simp: List.map_filter_def split: if_splits option.splits list.splits)
  obtain p where p: "k = path_of p" using kw(1) ok by (auto simp: mount_ok_def)
  obtain q where q: "q \<noteq> []" "p = d @ q" "c # r = path_of q" using kw(3) unfolding p child_suffix_path by blast
  then obtain x q' where "q = x # q'" by (cases q) auto
  with q kw(4) have "p = d @ n # q'" by (simp add: path_of_map component_text_def)
  moreover obtain e where "w = Data e" using kw(2) by (cases w) (auto simp: is_data_def)
  ultimately show ?r using kw(1) upper_mem [OF ok] p by blast
next
  assume ?r
  then obtain q e where "map_of (upper m) (path_of (d @ n # q)) = Some (Data e)" by blast
  then have "(path_of (d @ n # q), Data e) \<in> set (upper m)" using upper_mem [OF ok] by blast
  moreover have "child_suffix (path_of d) (path_of (d @ n # q)) = Some (Normal n # path_of q)"
    unfolding child_suffix_path by (simp add: path_of_map)
  ultimately show ?l
    by (force simp: List.map_filter_def is_data_def component_text_def intro!: image_eqI [where x = "(path_of (d @ n # q), Data e)"])
qed

text \<open>Listing a directory, with enough fuel, returns in order and without repetition exactly the names
  under which the mount shows a file at any depth; a directory that shows nothing is reported as missing,
  except the root, which is then empty.\<close>

theorem readdir_exact:
  assumes ok: "mount_ok env bs m" and d: "components_of dir = d"
  shows "\<exists>k. \<forall>fuel \<ge> k. \<exists>r. readdir fuel env bs m dir = Some r \<and>
    (if \<exists>n. shown env bs m d n then (\<exists>names. r = Inr names \<and> sorted_wrt (<) names \<and> (\<forall>n. n \<in> set names \<longleftrightarrow> shown env bs m d n))
     else r = (if d = [] then Inr [] else Inl (enoent (path_of d))))"
proof -
  have root: "root_solid env bs (base_id m)" using ok by (simp add: mount_ok_def)
  define added where "added = List.map_filter (\<lambda>(k, w). if is_data w
       then (case child_suffix (path_of d) k of Some (c # _) \<Rightarrow> Some (component_text c) | _ \<Rightarrow> None) else None) (upper m)"
  define based where "based fuel = (case dir_node_at env bs (base_id m) d of
       Inl e \<Rightarrow> Some (Inl e) | Inr None \<Rightarrow> Some (Inr [])
     | Inr (Some node) \<Rightarrow> live_names fuel env bs m d (btm_keys (children node)))" for fuel
  have "\<exists>k ns. (\<forall>fuel \<ge> k. based fuel = Some (Inr ns)) \<and> (\<forall>n. n \<in> set ns \<longrightarrow> shown env bs m d n)
      \<and> (\<forall>n q. look env bs (base_id m) (d @ n # q) \<noteq> None \<longrightarrow> shown env bs m d n \<longrightarrow> n \<in> set ns)"
    using root
  proof (cases rule: dir_node_at_view [where comps = d])
    case none
    then have "look env bs (base_id m) (d @ n # q) = None" for n q by (metis list.distinct(1))
    with none(1) show ?thesis by (intro exI [of _ 0] exI [of _ "[]"]) (simp add: based_def)
  next
    case (some h node)
    from live_names_ok [OF ok, of d "btm_keys (children node)"] obtain k where
      k: "\<forall>fuel \<ge> k. live_names fuel env bs m d (btm_keys (children node))
        = Some (Inr (filter (\<lambda>n. \<exists>q. mview env bs m (d @ n # q) \<noteq> None) (btm_keys (children node))))" by blast
    have key: "n \<in> set (btm_keys (children node))" if "look env bs (base_id m) (d @ n # q) \<noteq> None" for n q
    proof -
      have "node_look env bs node (n # q) \<noteq> None" using that some(4) [of "n # q"] by simp
      then have "btm_get (children node) n \<noteq> None" by (auto simp: node_look_def split: option.splits)
      then show ?thesis unfolding map_of_eq_None_iff by (simp add: image_iff)
    qed
    have "based fuel = Some (Inr (filter (shown env bs m d) (btm_keys (children node))))" if "k \<le> fuel" for fuel
      using k that some(1) by (simp add: based_def shown_def [abs_def])
    with key show ?thesis by (intro exI [of _ k] exI [of _ "filter (shown env bs m d) (btm_keys (children node))"]) auto
  qed
  then obtain k ns where based: "\<And>fuel. k \<le> fuel \<Longrightarrow> based fuel = Some (Inr ns)"
    and sub: "\<And>n. n \<in> set ns \<Longrightarrow> shown env bs m d n"
    and sup: "\<And>n q. look env bs (base_id m) (d @ n # q) \<noteq> None \<Longrightarrow> shown env bs m d n \<Longrightarrow> n \<in> set ns" by blast
  have added: "n \<in> set added \<longleftrightarrow> (\<exists>q e. map_of (upper m) (path_of (d @ n # q)) = Some (Data e))" for n
    unfolding added_def by (rule added_names [OF ok])
  have names: "n \<in> set (key_union (ns @ added)) \<longleftrightarrow> shown env bs m d n" for n
  proof
    assume "n \<in> set (key_union (ns @ added))"
    then consider "n \<in> set ns" | "n \<in> set added" by auto
    then show "shown env bs m d n"
    proof cases
      case 2
      then obtain q e where "map_of (upper m) (path_of (d @ n # q)) = Some (Data e)" using added by blast
      then have "mview env bs m (d @ n # q) \<noteq> None" by (simp add: mview_def)
      then show ?thesis unfolding shown_def by blast
    qed (rule sub)
  next
    assume s: "shown env bs m d n"
    then obtain q where "mview env bs m (d @ n # q) \<noteq> None" by (auto simp: shown_def)
    then have "(\<exists>e. map_of (upper m) (path_of (d @ n # q)) = Some (Data e)) \<or> look env bs (base_id m) (d @ n # q) \<noteq> None"
      by (auto simp: mview_def split: option.splits pending.splits)
    then show "n \<in> set (key_union (ns @ added))" using sup s added by auto
  qed
  have "readdir fuel env bs m dir = (if key_union (ns @ added) = [] then (if d = [] then Some (Inr []) else Some (Inl (enoent (path_of d))))
      else Some (Inr (key_union (ns @ added))))" if "k \<le> fuel" for fuel
    using based [OF that] unfolding readdir_def d Let_def based_def added_def by simp
  moreover have "key_union (ns @ added) = [] \<longleftrightarrow> \<not> (\<exists>n. shown env bs m d n)" using names by (metis empty_iff empty_set last_in_set)
  ultimately show ?thesis
    using names key_union_sorted [of "ns @ added"]
    by (intro exI [of _ k] allI impI) (cases "\<exists>n. shown env bs m d n"; simp)
qed

section \<open>The root as a file\<close>

text \<open>C34. A write to the root path is accepted and read back from the mount, but the next push silently
  leaves it out: the snapshot shows no file at the root.\<close>

theorem root_write_lost:
  assumes "env_ok env" and "content_env_ok env" and "addressed env bs" and "chunks_addressed env bs" and "mount_ok env bs m"
    and "components_of p = []" and w: "mount_write env bs m p b = (bs1, m1)"
  shows "mount_read env bs1 m1 p = Inr b
    \<and> (\<exists>h bs2. push env bs1 m1 = (Inr h, bs2) \<and> mount_read env bs2 (pull h) p = Inl (enoent []))"
proof -
  obtain e where put: "put_file env bs b = (e, bs1)" and m1: "m1 = insert_upper [] (Data e) m"
    using w assms(6) by (auto simp: mount_write_def split: prod.splits)
  note f = put_file_ok [OF assms(2,4) put]
  have le: "bs \<subseteq>\<^sub>m bs1" and ad: "addressed env bs1" using f assms(3) by (auto simp: chunks_added_def addressed_def)
  have root: "root_solid env bs (base_id m)" using assms(5) by (simp add: mount_ok_def)
  have "mount_ok env bs1 m" using assms(5) root_solid_mono [OF root le] by (simp add: mount_ok_def)
  then have ok: "mount_ok env bs1 m1" unfolding m1 using mount_ok_insert [of env bs1 m "[]"] by simp
  have "mount_read env bs1 m1 p = Inr b"
    using effective_view [OF ok, of "[]"] f assms(6) mview_insert [of env bs1 "[]" "Data e" m "[]"]
    by (simp add: mount_read_def Let_def m1)
  moreover have "root_solid env bs1 (base_id m1)" using ok by (simp add: mount_ok_def)
  from build_root_ex [OF assms(1) ad this] obtain h bs2 where "push env bs1 m1 = (Inr h, bs2)" "solid env bs2 h"
    unfolding push_def by blast
  moreover from this have "mount_read env bs2 (pull h) p = Inl (enoent [])"
    using effective_view [of env bs2 "pull h" "[]"] assms(6)
    by (simp add: mount_read_def Let_def mount_ok_def pull_def root_solid_def mview_def)
  ultimately show ?thesis by blast
qed

theorem root_write_lost_witness:
  "mount_read plain_env (fst (mount_write plain_env Map.empty empty_mount [RootDir] [7]))
     (snd (mount_write plain_env Map.empty empty_mount [RootDir] [7])) [RootDir] = Inr [7]"
proof -
  have ok: "mount_ok plain_env Map.empty empty_mount" by (simp add: mount_ok_def empty_mount_def root_solid_def)
  have c: "components_of [RootDir] = []" by (simp add: components_of_def)
  show ?thesis
    using root_write_lost [OF plain_env_ok empty_addressed(1,2) ok c, of "[7]"] by simp
qed

end
