(* ===== verification/Fs_Content.thy ===== *)
theory Fs_Content
  imports Fs_Files
begin

text \<open>
  Content merging of conflicting files (\<open>src/server/src/engine/fs_content_merge.rs\<close>): the kind of a file is
  sniffed from its bytes and a per-kind merger gets a try. The line merge itself is the crate
  \<open>diffy\<close>, which is the record \<open>diffy\<close> here.
\<close>

section \<open>Kinds of content\<close>

datatype content_kind = Text | Sqlite | Binary

fun kind_str :: "content_kind \<Rightarrow> string" where
  "kind_str Text = ''text''"
| "kind_str Sqlite = ''sqlite''"
| "kind_str Binary = ''binary''"

text \<open>\<open>std::str::from_utf8\<close>: shortest form, no surrogates, at most U+10FFFF.\<close>

definition utf8_cont :: "byte \<Rightarrow> bool" where
  "utf8_cont b \<longleftrightarrow> 128 \<le> unat b \<and> unat b \<le> 191"

fun utf8_valid :: "bytes \<Rightarrow> bool" where
  "utf8_valid [] = True"
| "utf8_valid (b # bs) =
     (if unat b < 128 then utf8_valid bs
      else if 194 \<le> unat b \<and> unat b \<le> 223
      then (case bs of c1 # rest \<Rightarrow> utf8_cont c1 \<and> utf8_valid rest | _ \<Rightarrow> False)
      else if 224 \<le> unat b \<and> unat b \<le> 239
      then (case bs of
              c1 # c2 # rest \<Rightarrow>
                (if unat b = 224 then 160 \<le> unat c1 \<and> unat c1 \<le> 191
                 else if unat b = 237 then 128 \<le> unat c1 \<and> unat c1 \<le> 159
                 else utf8_cont c1) \<and> utf8_cont c2 \<and> utf8_valid rest
            | _ \<Rightarrow> False)
      else if 240 \<le> unat b \<and> unat b \<le> 244
      then (case bs of
              c1 # c2 # c3 # rest \<Rightarrow>
                (if unat b = 240 then 144 \<le> unat c1 \<and> unat c1 \<le> 191
                 else if unat b = 244 then 128 \<le> unat c1 \<and> unat c1 \<le> 143
                 else utf8_cont c1) \<and> utf8_cont c2 \<and> utf8_cont c3 \<and> utf8_valid rest
            | _ \<Rightarrow> False)
      else False)"

definition byte_text :: "bytes \<Rightarrow> string" where
  "byte_text bs = map (\<lambda>b. char_of (unat b)) bs"

definition text_bytes :: "string \<Rightarrow> bytes" where
  "text_bytes s = map (\<lambda>c. of_nat (of_char c)) s"

definition sqlite_magic :: bytes where
  "sqlite_magic = text_bytes ''SQLite format 3'' @ [0]"

definition is_textual :: "bytes \<Rightarrow> bool" where
  "is_textual b \<longleftrightarrow> (if b = [] then True else if 0 \<in> set b then False else utf8_valid b)"

definition detect_kind :: "bytes \<Rightarrow> content_kind" where
  "detect_kind b =
     (if take (length sqlite_magic) b = sqlite_magic then Sqlite
      else if is_textual b then Text else Binary)"

section \<open>Mergers\<close>

record content_conflict =
  cc_kind :: content_kind
  cc_markers :: "string option"
  cc_diff_ours :: "string option"
  cc_diff_theirs :: "string option"

datatype content_merge_result = Clean bytes | ContentConflict content_conflict

record content_merger =
  cm_handles :: "content_kind \<Rightarrow> bool"
  cm_merge :: "bytes option \<Rightarrow> bytes \<Rightarrow> bytes \<Rightarrow> content_merge_result"

record diffy =
  diffy_merge :: "string \<Rightarrow> string \<Rightarrow> string \<Rightarrow> string + string"
  diffy_patch :: "string \<Rightarrow> string \<Rightarrow> string"

definition binary_conflict :: "content_kind \<Rightarrow> content_conflict" where
  "binary_conflict kind = \<lparr>cc_kind = kind, cc_markers = None, cc_diff_ours = None, cc_diff_theirs = None\<rparr>"

definition text_merge :: "diffy \<Rightarrow> bytes option \<Rightarrow> bytes \<Rightarrow> bytes \<Rightarrow> content_merge_result" where
  "text_merge dy base ours theirs =
     (if \<not> (utf8_valid ours \<and> utf8_valid theirs) then ContentConflict (binary_conflict Binary)
      else let base_s = (case base of
                           Some b \<Rightarrow> if utf8_valid b then byte_text b else []
                         | None \<Rightarrow> []);
               ours_s = byte_text ours; theirs_s = byte_text theirs
           in case diffy_merge dy base_s ours_s theirs_s of
                Inr merged \<Rightarrow> Clean (text_bytes merged)
              | Inl conflicted \<Rightarrow> ContentConflict \<lparr>cc_kind = Text, cc_markers = Some conflicted,
                  cc_diff_ours = Some (diffy_patch dy base_s ours_s),
                  cc_diff_theirs = Some (diffy_patch dy base_s theirs_s)\<rparr>)"

definition text_merger :: "diffy \<Rightarrow> content_merger" where
  "text_merger dy = \<lparr>cm_handles = (\<lambda>kind. kind = Text), cm_merge = text_merge dy\<rparr>"

definition default_mergers :: "diffy \<Rightarrow> content_merger list" where
  "default_mergers dy = [text_merger dy]"

definition merge_content :: "content_merger list \<Rightarrow> bytes option \<Rightarrow> bytes \<Rightarrow> bytes \<Rightarrow> content_merge_result" where
  "merge_content mergers base ours theirs =
     (let kind = detect_kind ours; theirs_kind = detect_kind theirs in
      if kind \<noteq> theirs_kind then ContentConflict (binary_conflict Binary)
      else case find (\<lambda>m. cm_handles m kind) mergers of
             Some m \<Rightarrow> cm_merge m base ours theirs
           | None \<Rightarrow> ContentConflict (binary_conflict kind))"

section \<open>What is merged\<close>

lemma detect_text:
  "detect_kind b = Text \<Longrightarrow> utf8_valid b \<and> 0 \<notin> set b"
  by (auto simp: detect_kind_def is_textual_def split: if_splits)

lemma byte_text_bytes [simp]: "text_bytes (byte_text b) = b"
  using byte_less by (auto simp: text_bytes_def byte_text_def comp_def intro!: nth_equalityI)

lemma merge_content_clean:
  assumes "merge_content (default_mergers dy) base ours theirs = Clean b"
  shows "detect_kind ours = Text \<and> detect_kind theirs = Text \<and>
    (\<exists>merged. diffy_merge dy (case base of Some x \<Rightarrow> if utf8_valid x then byte_text x else [] | None \<Rightarrow> [])
       (byte_text ours) (byte_text theirs) = Inr merged \<and> b = text_bytes merged)"
proof -
  have k: "detect_kind ours = detect_kind theirs" "detect_kind ours = Text"
    using assms by (auto simp: merge_content_def default_mergers_def text_merger_def Let_def split: if_splits)
  then have "text_merge dy base ours theirs = Clean b"
    using assms by (simp add: merge_content_def default_mergers_def text_merger_def)
  with k show ?thesis by (auto simp: text_merge_def Let_def split: if_splits sum.splits)
qed

end
