(* ===== verification/Meta_Store.thy ===== *)
theory Meta_Store
  imports BTree_Map
begin

text \<open>
  The metadata plane (\<open>src/server/metadata-store/src/lib.rs\<close>, \<open>sled_store.rs\<close>): the \<open>MetadataStore\<close>
  trait as a record of state-passing operations, its documented contract as the locale
  \<open>metadata_store\<close>, and the sled backend as an instance of it. sled is not part of the repository: it is
  the record \<open>sled\<close>, and what its documentation promises is the locale \<open>sled_db\<close>.

  Keys and values are byte strings, so the order on \<open>string\<close> is the byte-lexicographic order of the
  trait. An operation that reports an error may or may not have taken effect.
\<close>

section \<open>The trait\<close>

type_synonym row = "string \<times> string"

record write_op =
  w_tree :: string
  w_key :: string
  w_value :: string

definition write_new :: "string \<Rightarrow> string \<Rightarrow> string \<Rightarrow> write_op" where
  "write_new tree key value = \<lparr>w_tree = tree, w_key = key, w_value = value\<rparr>"

record 's meta_ops =
  ms_get :: "string \<Rightarrow> string \<Rightarrow> 's \<Rightarrow> string option result \<times> 's"
  ms_put :: "write_op \<Rightarrow> 's \<Rightarrow> unit result \<times> 's"
  ms_scan :: "string \<Rightarrow> string \<Rightarrow> bool \<Rightarrow> nat option \<Rightarrow> 's \<Rightarrow> row list result \<times> 's"
  ms_cas :: "write_op \<Rightarrow> string option \<Rightarrow> write_op list \<Rightarrow> 's \<Rightarrow> bool result \<times> 's"
  ms_generate_id :: "'s \<Rightarrow> u64 result \<times> 's"
  ms_tree_names :: "'s \<Rightarrow> string list result \<times> 's"
  ms_flush :: "'s \<Rightarrow> unit result \<times> 's"

type_synonym meta_view = "string \<Rightarrow> string \<Rightarrow> string option"

definition apply_write :: "write_op \<Rightarrow> meta_view \<Rightarrow> meta_view" where
  "apply_write w v = v(w_tree w := (v (w_tree w))(w_key w \<mapsto> w_value w))"

text \<open>The rows of one tree under a prefix, in key order.\<close>

definition rows_of :: "meta_view \<Rightarrow> string \<Rightarrow> string \<Rightarrow> row list \<Rightarrow> bool" where
  "rows_of v tree prefix rows \<longleftrightarrow> sorted_wrt (<) (map fst rows)
     \<and> set rows = {(k, x). v tree k = Some x \<and> starts_with k prefix}"

definition cut :: "bool \<Rightarrow> nat option \<Rightarrow> 'a list \<Rightarrow> 'a list" where
  "cut reverse limit xs =
     (let ys = (if reverse then rev xs else xs) in case limit of None \<Rightarrow> ys | Some n \<Rightarrow> take n ys)"

locale metadata_store =
  fixes db :: "'s meta_ops"
    and ok :: "'s \<Rightarrow> bool"
    and view :: "'s \<Rightarrow> meta_view"
    and issued :: "'s \<Rightarrow> nat"
  assumes get_law: "ok s \<Longrightarrow> ms_get db tree key s = (r, s') \<Longrightarrow>
      ok s' \<and> view s' = view s \<and> issued s' = issued s \<and> (\<forall>v. r = Inr v \<longrightarrow> v = view s tree key)"
    and put_law: "ok s \<Longrightarrow> ms_put db w s = (rp, s') \<Longrightarrow>
      ok s' \<and> issued s' = issued s \<and> (rp = Inr () \<longrightarrow> view s' = apply_write w (view s))
      \<and> (view s' = view s \<or> view s' = apply_write w (view s))"
    and scan_law: "ok s \<Longrightarrow> ms_scan db tree prefix reverse limit s = (rs, s') \<Longrightarrow>
      ok s' \<and> view s' = view s \<and> issued s' = issued s
      \<and> (\<forall>rows. rs = Inr rows \<longrightarrow> (\<exists>all. rows_of (view s) tree prefix all \<and> rows = cut reverse limit all))"
    and cas_law: "ok s \<Longrightarrow> ms_cas db w expected ws s = (rc, s') \<Longrightarrow>
      ok s' \<and> issued s' = issued s
      \<and> (rc = Inr True \<longrightarrow> view s (w_tree w) (w_key w) = expected \<and> view s' = fold apply_write (w # ws) (view s))
      \<and> (rc = Inr False \<longrightarrow> view s (w_tree w) (w_key w) \<noteq> expected \<and> view s' = view s)
      \<and> (view s' = view s \<or> view s (w_tree w) (w_key w) = expected \<and> view s' = fold apply_write (w # ws) (view s))"
    and id_law: "ok s \<Longrightarrow> ms_generate_id db s = (ri, s') \<Longrightarrow>
      ok s' \<and> view s' = view s \<and> issued s \<le> issued s' \<and> (\<forall>i. ri = Inr i \<longrightarrow> issued s \<le> unat i \<and> unat i < issued s')"

section \<open>sled\<close>

datatype tx_result = TxDone | TxAbort | TxStorage string

record 's sled =
  sled_open_tree :: "string \<Rightarrow> 's \<Rightarrow> unit result \<times> 's"
  sled_get :: "string \<Rightarrow> string \<Rightarrow> 's \<Rightarrow> string option result"
  sled_insert :: "string \<Rightarrow> string \<Rightarrow> string \<Rightarrow> 's \<Rightarrow> string option result \<times> 's"
  sled_scan_prefix :: "string \<Rightarrow> string \<Rightarrow> 's \<Rightarrow> row result list"
  sled_transaction :: "string list \<Rightarrow> ((nat \<Rightarrow> string \<Rightarrow> string option) \<Rightarrow> (nat \<times> row) list option) \<Rightarrow> 's \<Rightarrow> tx_result \<times> 's"
  sled_generate_id :: "'s \<Rightarrow> u64 result \<times> 's"
  sled_tree_names :: "'s \<Rightarrow> string list"
  sled_flush :: "'s \<Rightarrow> unit result \<times> 's"

fun collect_results :: "'a result list \<Rightarrow> 'a list result" where
  "collect_results [] = Inr []"
| "collect_results (Inl e # xs) = Inl e"
| "collect_results (Inr x # xs) = (case collect_results xs of Inl e \<Rightarrow> Inl e | Inr ys \<Rightarrow> Inr (x # ys))"

definition sled_store_get :: "'s sled \<Rightarrow> string \<Rightarrow> string \<Rightarrow> 's \<Rightarrow> string option result \<times> 's" where
  "sled_store_get S tree key s =
     (case sled_open_tree S tree s of
        (Inl e, s') \<Rightarrow> (Inl e, s')
      | (Inr _, s') \<Rightarrow> (sled_get S tree key s', s'))"

definition sled_store_put :: "'s sled \<Rightarrow> write_op \<Rightarrow> 's \<Rightarrow> unit result \<times> 's" where
  "sled_store_put S w s =
     (case sled_open_tree S (w_tree w) s of
        (Inl e, s') \<Rightarrow> (Inl e, s')
      | (Inr _, s') \<Rightarrow>
         (case sled_insert S (w_tree w) (w_key w) (w_value w) s' of
            (Inl e, s'') \<Rightarrow> (Inl e, s'')
          | (Inr _, s'') \<Rightarrow> (Inr (), s'')))"

text \<open>\<open>usize::MAX\<close> takes everything: no iterator of this program is that long.\<close>

definition sled_store_scan :: "'s sled \<Rightarrow> string \<Rightarrow> string \<Rightarrow> bool \<Rightarrow> nat option \<Rightarrow> 's \<Rightarrow> row list result \<times> 's" where
  "sled_store_scan S tree prefix reverse limit s =
     (case sled_open_tree S tree s of
        (Inl e, s') \<Rightarrow> (Inl e, s')
      | (Inr _, s') \<Rightarrow>
         (let it = sled_scan_prefix S tree prefix s';
              it' = (if reverse then rev it else it)
          in (collect_results (case limit of None \<Rightarrow> it' | Some n \<Rightarrow> take n it'), s')))"

fun open_trees :: "'s sled \<Rightarrow> string list \<Rightarrow> 's \<Rightarrow> unit result \<times> 's" where
  "open_trees S [] s = (Inr (), s)"
| "open_trees S (t # ts) s =
     (case sled_open_tree S t s of (Inl e, s') \<Rightarrow> (Inl e, s') | (Inr _, s') \<Rightarrow> open_trees S ts s')"

text \<open>The closure of the transaction: compare the first key, then the inserts, tree by tree.\<close>

definition cas_body :: "write_op list \<Rightarrow> string option \<Rightarrow> (nat \<Rightarrow> string \<Rightarrow> string option) \<Rightarrow> (nat \<times> row) list option" where
  "cas_body ws expected tx =
     (if tx 0 (w_key (hd ws)) \<noteq> expected then None
      else Some (map (\<lambda>(i, w). (i, (w_key w, w_value w))) (List.enumerate 0 ws)))"

definition sled_store_cas :: "'s sled \<Rightarrow> write_op \<Rightarrow> string option \<Rightarrow> write_op list \<Rightarrow> 's \<Rightarrow> bool result \<times> 's" where
  "sled_store_cas S primary expected companions s =
     (let ws = primary # companions in
      if \<not> distinct (map (\<lambda>w. (w_tree w, w_key w)) ws) then (Inl (Err ''duplicate transaction key''), s)
      else case open_trees S (map w_tree ws) s of
        (Inl e, s') \<Rightarrow> (Inl e, s')
      | (Inr _, s') \<Rightarrow>
         (case sled_transaction S (map w_tree ws) (cas_body ws expected) s' of
            (TxDone, s'') \<Rightarrow> (Inr True, s'')
          | (TxAbort, s'') \<Rightarrow> (Inr False, s'')
          | (TxStorage e, s'') \<Rightarrow> (Inl (Err e), s'')))"

definition sled_store_tree_names :: "'s sled \<Rightarrow> 's \<Rightarrow> string list result \<times> 's" where
  "sled_store_tree_names S s = (Inr (filter (\<lambda>n. n \<noteq> ''__sled__default'') (sled_tree_names S s)), s)"

definition sled_store :: "'s sled \<Rightarrow> 's meta_ops" where
  "sled_store S = \<lparr>ms_get = sled_store_get S, ms_put = sled_store_put S, ms_scan = sled_store_scan S,
     ms_cas = sled_store_cas S, ms_generate_id = sled_generate_id S,
     ms_tree_names = sled_store_tree_names S, ms_flush = sled_flush S\<rparr>"

text \<open>Inserts of a transaction, each into the tree at its position.\<close>

definition apply_tx :: "string list \<Rightarrow> (nat \<times> row) list \<Rightarrow> meta_view \<Rightarrow> meta_view" where
  "apply_tx trees ins v = fold (\<lambda>(i, k, x). apply_write (write_new (trees ! i) k x)) ins v"

locale sled_db =
  fixes S :: "'s sled"
    and ok :: "'s \<Rightarrow> bool"
    and view :: "'s \<Rightarrow> meta_view"
    and issued :: "'s \<Rightarrow> nat"
  assumes open_law: "ok s \<Longrightarrow> sled_open_tree S tree s = (r, s') \<Longrightarrow> ok s' \<and> view s' = view s \<and> issued s' = issued s"
    and sled_get_law: "ok s \<Longrightarrow> sled_get S tree key s = Inr v \<Longrightarrow> v = view s tree key"
    and insert_law: "ok s \<Longrightarrow> sled_insert S tree key x s = (rw, s') \<Longrightarrow>
      ok s' \<and> issued s' = issued s
      \<and> ((\<exists>old. rw = Inr old) \<longrightarrow> view s' = apply_write (write_new tree key x) (view s))
      \<and> (view s' = view s \<or> view s' = apply_write (write_new tree key x) (view s))"
    and scan_prefix_law: "ok s \<Longrightarrow> \<exists>rows. rows_of (view s) tree prefix rows
      \<and> list_all2 (\<lambda>item row. item = Inr row \<or> (\<exists>e. item = Inl e)) (sled_scan_prefix S tree prefix s) rows"
    and transaction_law: "ok s \<Longrightarrow> sled_transaction S trees body s = (rt, s') \<Longrightarrow>
      ok s' \<and> issued s' = issued s
      \<and> (case body (\<lambda>i. view s (trees ! i)) of
           None \<Rightarrow> rt \<noteq> TxDone \<and> view s' = view s
         | Some ins \<Rightarrow> rt \<noteq> TxAbort \<and> (rt = TxDone \<longrightarrow> view s' = apply_tx trees ins (view s))
             \<and> (view s' = view s \<or> view s' = apply_tx trees ins (view s)))"
    and generate_id_law: "ok s \<Longrightarrow> sled_generate_id S s = (ri, s') \<Longrightarrow>
      ok s' \<and> view s' = view s \<and> issued s \<le> issued s' \<and> (\<forall>i. ri = Inr i \<longrightarrow> issued s \<le> unat i \<and> unat i < issued s')"

lemma collect_results_ok:
  "list_all2 (\<lambda>item row. item = Inr row \<or> (\<exists>e. item = Inl e)) items rows \<Longrightarrow>
   collect_results items = Inr ys \<Longrightarrow> ys = rows"
proof (induction items rows arbitrary: ys rule: list_all2_induct)
  case (Cons item items row rows)
  then show ?case by (auto split: sum.splits)
qed simp

lemma cut_results:
  assumes "list_all2 P items rows"
  shows "list_all2 P (cut reverse limit items) (cut reverse limit rows)"
  using assms by (auto simp: cut_def list_all2_rev split: option.splits)

lemma cas_writes:
  "apply_tx (map w_tree ws) (map (\<lambda>(i, w). (i, (w_key w, w_value w))) (List.enumerate 0 ws)) v = fold apply_write ws v"
proof -
  have "fold (\<lambda>(i, k, x). apply_write (write_new ((map w_tree us @ map w_tree ws) ! i) k x))
      (map (\<lambda>(i, w). (i, (w_key w, w_value w))) (List.enumerate (length us) ws)) v = fold apply_write ws v" for us :: "write_op list"
  proof (induction ws arbitrary: us v)
    case (Cons w ws)
    have "write_new (w_tree w) (w_key w) (w_value w) = w" by (simp add: write_new_def)
    moreover have "(map w_tree us @ w_tree w # map w_tree ws) ! length us = w_tree w"
      by (simp add: nth_append)
    ultimately show ?case using Cons.IH [of "us @ [w]" "apply_write w v"] by simp
  qed simp
  from this [of "[]"] show ?thesis by (simp add: apply_tx_def)
qed

context sled_db
begin

lemma open_trees_law:
  "ok s \<Longrightarrow> open_trees S ts s = (r, s') \<Longrightarrow> ok s' \<and> view s' = view s \<and> issued s' = issued s"
proof (induction ts arbitrary: s)
  case (Cons t ts)
  obtain r1 s1 where o1: "sled_open_tree S t s = (r1, s1)" by fastforce
  have s1: "ok s1 \<and> view s1 = view s \<and> issued s1 = issued s" by (rule open_law [OF Cons.prems(1) o1])
  show ?case
  proof (cases r1)
    case (Inr u)
    then have "open_trees S ts s1 = (r, s')" using Cons.prems(2) by (simp add: o1)
    from Cons.IH [OF _ this] s1 show ?thesis by simp
  qed (use Cons.prems(2) o1 s1 in simp)
qed simp

end

sublocale sled_db \<subseteq> metadata_store "sled_store S" ok view issued
proof
  fix s s' tree key r
  assume ok: "ok s" and g: "ms_get (sled_store S) tree key s = (r, s')"
  obtain r1 s1 where o1: "sled_open_tree S tree s = (r1, s1)" by fastforce
  have s1: "ok s1" "view s1 = view s" "issued s1 = issued s" using open_law [OF ok o1] by simp_all
  show "ok s' \<and> view s' = view s \<and> issued s' = issued s \<and> (\<forall>v. r = Inr v \<longrightarrow> v = view s tree key)"
    using g s1 sled_get_law [OF s1(1), of tree key] by (auto simp: sled_store_def sled_store_get_def o1 split: sum.splits)
next
  fix s s' w and r :: "unit result"
  assume ok: "ok s" and p: "ms_put (sled_store S) w s = (r, s')"
  obtain r1 s1 where o1: "sled_open_tree S (w_tree w) s = (r1, s1)" by fastforce
  obtain r2 s2 where i: "sled_insert S (w_tree w) (w_key w) (w_value w) s1 = (r2, s2)" by fastforce
  have s1: "ok s1" "view s1 = view s" "issued s1 = issued s" using open_law [OF ok o1] by simp_all
  have w: "write_new (w_tree w) (w_key w) (w_value w) = w" by (simp add: write_new_def)
  show "ok s' \<and> issued s' = issued s \<and> (r = Inr () \<longrightarrow> view s' = apply_write w (view s))
      \<and> (view s' = view s \<or> view s' = apply_write w (view s))"
    using p s1 insert_law [OF s1(1) i] unfolding w
    by (auto simp: sled_store_def sled_store_put_def o1 i split: sum.splits)
next
  fix s s' tree prefix reverse limit r
  assume ok: "ok s" and sc: "ms_scan (sled_store S) tree prefix reverse limit s = (r, s')"
  obtain r1 s1 where o1: "sled_open_tree S tree s = (r1, s1)" by fastforce
  have s1: "ok s1" "view s1 = view s" "issued s1 = issued s" using open_law [OF ok o1] by simp_all
  from scan_prefix_law [OF s1(1), of tree prefix] obtain rows where rows: "rows_of (view s) tree prefix rows"
    "list_all2 (\<lambda>item row. item = Inr row \<or> (\<exists>e. item = Inl e)) (sled_scan_prefix S tree prefix s1) rows"
    unfolding s1(2) by blast
  from sc have "s' = s1" and "r1 = Inr () \<Longrightarrow> r = collect_results (cut reverse limit (sled_scan_prefix S tree prefix s1))"
    and "r1 \<noteq> Inr () \<Longrightarrow> \<exists>e. r = Inl e"
    by (auto simp: sled_store_def sled_store_scan_def o1 cut_def Let_def split: sum.splits)
  then show "ok s' \<and> view s' = view s \<and> issued s' = issued s
      \<and> (\<forall>rows. r = Inr rows \<longrightarrow> (\<exists>all. rows_of (view s) tree prefix all \<and> rows = cut reverse limit all))"
    using s1 rows(1) collect_results_ok [OF cut_results [OF rows(2)]] by (metis Inl_Inr_False)
next
  fix s s' w expected ws and r :: "bool result"
  assume ok: "ok s" and c: "ms_cas (sled_store S) w expected ws s = (r, s')"
  let ?ws = "w # ws"
  obtain r1 s1 where o1: "open_trees S (map w_tree ?ws) s = (r1, s1)" by fastforce
  have s1: "ok s1" "view s1 = view s" "issued s1 = issued s" using open_trees_law [OF ok o1] by simp_all
  obtain r2 s2 where t: "sled_transaction S (map w_tree ?ws) (cas_body ?ws expected) s1 = (r2, s2)" by fastforce
  note law = transaction_law [OF s1(1) t, unfolded s1]
  show "ok s' \<and> issued s' = issued s
      \<and> (r = Inr True \<longrightarrow> view s (w_tree w) (w_key w) = expected \<and> view s' = fold apply_write (w # ws) (view s))
      \<and> (r = Inr False \<longrightarrow> view s (w_tree w) (w_key w) \<noteq> expected \<and> view s' = view s)
      \<and> (view s' = view s \<or> view s (w_tree w) (w_key w) = expected \<and> view s' = fold apply_write (w # ws) (view s))"
  proof (cases "distinct (map (\<lambda>w. (w_tree w, w_key w)) ?ws) \<and> r1 = Inr ()")
    case False
    with c o1 have "(s' = s \<or> s' = s1) \<and> (\<exists>e. r = Inl e)"
      by (auto simp: sled_store_def sled_store_cas_def Let_def simp del: list.map open_trees.simps split: sum.splits if_splits)
    with ok s1 show ?thesis by auto
  next
    case True
    with c o1 t have r: "s' = s2" "r = (case r2 of TxDone \<Rightarrow> Inr True | TxAbort \<Rightarrow> Inr False | TxStorage e \<Rightarrow> Inl (Err e))"
      by (auto simp: sled_store_def sled_store_cas_def Let_def simp del: list.map open_trees.simps split: tx_result.splits)
    show ?thesis
    proof (cases "view s (w_tree w) (w_key w) = expected")
      case True
      define ins where "ins = map (\<lambda>(i, w). (i, (w_key w, w_value w))) (List.enumerate 0 ?ws)"
      have "cas_body ?ws expected (\<lambda>i. view s (map w_tree ?ws ! i)) = Some ins"
        using True by (simp add: cas_body_def ins_def)
      moreover have "apply_tx (map w_tree ?ws) ins (view s) = fold apply_write ?ws (view s)"
        unfolding ins_def by (rule cas_writes)
      ultimately show ?thesis
        using law r True by (auto simp del: list.map fold.simps split: tx_result.splits)
    next
      case False
      then have "cas_body ?ws expected (\<lambda>i. view s (map w_tree ?ws ! i)) = None" by (simp add: cas_body_def)
      with law r False show ?thesis by (auto split: tx_result.splits)
    qed
  qed
next
  fix s s' and r :: "u64 result"
  assume "ok s" and "ms_generate_id (sled_store S) s = (r, s')"
  then show "ok s' \<and> view s' = view s \<and> issued s \<le> issued s' \<and> (\<forall>i. r = Inr i \<longrightarrow> issued s \<le> unat i \<and> unat i < issued s')"
    using generate_id_law by (simp add: sled_store_def)
qed

section \<open>The replicated store, as its clients call it\<close>

text \<open>
  The operations of \<open>ClusterNode\<close> that the label, tag and session stores call
  (\<open>get\<close>, \<open>scan_prefix\<close>, \<open>cas_with_or_forward\<close>, \<open>put_with_or_forward\<close>), over a state that holds the cluster.
\<close>

record 's cluster_ops =
  cl_get :: "string \<Rightarrow> 's \<Rightarrow> string option result \<times> 's"
  cl_scan_prefix :: "string \<Rightarrow> 's \<Rightarrow> row list result \<times> 's"
  cl_cas_with_or_forward :: "string \<Rightarrow> string option \<Rightarrow> string \<Rightarrow> row list \<Rightarrow> 's \<Rightarrow> bool result \<times> 's"
  cl_put_with_or_forward :: "string \<Rightarrow> string \<Rightarrow> row list \<Rightarrow> 's \<Rightarrow> unit result \<times> 's"

section \<open>A store in memory\<close>

text \<open>What sled documents, on ordered maps in memory: the store of a temporary database.\<close>

record mem_db =
  md_trees :: "string \<Rightarrow> (string, string) btm"
  md_next :: nat

definition mem_new :: mem_db where
  "mem_new = \<lparr>md_trees = (\<lambda>_. []), md_next = 0\<rparr>"

definition mem_insert :: "string \<Rightarrow> string \<Rightarrow> string \<Rightarrow> mem_db \<Rightarrow> mem_db" where
  "mem_insert tree k x s = s\<lparr>md_trees := (md_trees s)(tree := btm_insert k x (md_trees s tree))\<rparr>"

definition mem_sled :: "mem_db sled" where
  "mem_sled = \<lparr>
     sled_open_tree = (\<lambda>tree s. (Inr (), s)),
     sled_get = (\<lambda>tree k s. Inr (btm_get (md_trees s tree) k)),
     sled_insert = (\<lambda>tree k x s. (Inr (btm_get (md_trees s tree) k), mem_insert tree k x s)),
     sled_scan_prefix = (\<lambda>tree prefix s. map Inr (filter (\<lambda>r. starts_with (fst r) prefix) (md_trees s tree))),
     sled_transaction = (\<lambda>trees body s.
       case body (\<lambda>i. btm_get (md_trees s (trees ! i))) of
         None \<Rightarrow> (TxAbort, s)
       | Some ins \<Rightarrow> (TxDone, fold (\<lambda>(i, k, x). mem_insert (trees ! i) k x) ins s)),
     sled_generate_id = (\<lambda>s. if md_next s < 2 ^ 64 then (Inr (of_nat (md_next s)), s\<lparr>md_next := md_next s + 1\<rparr>)
       else (Inl (Err ''ids exhausted''), s)),
     sled_tree_names = (\<lambda>s. []),
     sled_flush = (\<lambda>s. (Inr (), s))\<rparr>"

definition mem_ok :: "mem_db \<Rightarrow> bool" where
  "mem_ok s \<longleftrightarrow> (\<forall>tree. btm_ok (md_trees s tree))"

definition mem_view :: "mem_db \<Rightarrow> meta_view" where
  "mem_view s = (\<lambda>tree. btm_get (md_trees s tree))"

lemma mem_insert_ok:
  "mem_ok s \<Longrightarrow> mem_ok (mem_insert tree k x s)"
  "mem_view (mem_insert tree k x s) = apply_write (write_new tree k x) (mem_view s)"
  "md_next (mem_insert tree k x s) = md_next s"
  by (auto simp: mem_ok_def mem_insert_def mem_view_def apply_write_def write_new_def btm_ok_insert btm_get_insert fun_eq_iff)

lemma mem_tx_ok:
  "mem_ok s \<Longrightarrow> mem_ok (fold (\<lambda>(i, k, x). mem_insert (trees ! i) k x) ins s)
     \<and> mem_view (fold (\<lambda>(i, k, x). mem_insert (trees ! i) k x) ins s) = apply_tx trees ins (mem_view s)
     \<and> md_next (fold (\<lambda>(i, k, x). mem_insert (trees ! i) k x) ins s) = md_next s"
proof (induction ins arbitrary: s)
  case (Cons a ins)
  obtain i k x where a: "a = (i, k, x)" by (cases a)
  from Cons.IH [OF mem_insert_ok(1) [OF Cons.prems, of "trees ! i" k x]] show ?case
    by (simp add: a apply_tx_def mem_insert_ok)
qed (simp add: apply_tx_def)

interpretation mem: sled_db mem_sled mem_ok mem_view md_next
proof
  fix s tree prefix
  assume ok: "mem_ok s"
  let ?rows = "filter (\<lambda>r. starts_with (fst r) prefix) (md_trees s tree)"
  have "btm_ok (md_trees s tree)" using ok by (simp add: mem_ok_def)
  then have "rows_of (mem_view s) tree prefix ?rows"
    by (auto simp: rows_of_def mem_view_def btm_ok_def btm_get_iff sorted_wrt_map sorted_wrt_filter)
  moreover have "list_all2 (\<lambda>item row. item = Inr row \<or> (\<exists>e. item = Inl e)) (sled_scan_prefix mem_sled tree prefix s) ?rows"
    by (simp add: mem_sled_def list_all2_map1 list.rel_refl)
  ultimately show "\<exists>rows. rows_of (mem_view s) tree prefix rows
      \<and> list_all2 (\<lambda>item row. item = Inr row \<or> (\<exists>e. item = Inl e)) (sled_scan_prefix mem_sled tree prefix s) rows" by blast
next
  fix s trees body rt s'
  assume ok: "mem_ok s" and t: "sled_transaction mem_sled trees body s = (rt, s')"
  show "mem_ok s' \<and> md_next s' = md_next s
      \<and> (case body (\<lambda>i. mem_view s (trees ! i)) of
           None \<Rightarrow> rt \<noteq> TxDone \<and> mem_view s' = mem_view s
         | Some ins \<Rightarrow> rt \<noteq> TxAbort \<and> (rt = TxDone \<longrightarrow> mem_view s' = apply_tx trees ins (mem_view s))
             \<and> (mem_view s' = mem_view s \<or> mem_view s' = apply_tx trees ins (mem_view s)))"
  proof -
    have v: "(\<lambda>i. btm_get (md_trees s (trees ! i))) = (\<lambda>i. mem_view s (trees ! i))" by (simp add: mem_view_def)
    show ?thesis using t ok mem_tx_ok [OF ok, of trees] by (auto simp: mem_sled_def v split: option.splits)
  qed
next
  fix s :: mem_db and ri s'
  assume "mem_ok s" and "sled_generate_id mem_sled s = (ri, s')"
  then show "mem_ok s' \<and> mem_view s' = mem_view s \<and> md_next s \<le> md_next s'
      \<and> (\<forall>i. ri = Inr i \<longrightarrow> md_next s \<le> unat i \<and> unat i < md_next s')"
    by (auto simp: mem_sled_def mem_ok_def mem_view_def unsigned_of_nat take_bit_nat_eq_self split: if_splits)
qed (auto simp: mem_sled_def mem_insert_ok, auto simp: mem_view_def)

lemma mem_ok_new [simp]: "mem_ok mem_new" and mem_view_new: "mem_view mem_new = (\<lambda>_ _. None)"
  by (simp_all add: mem_ok_def mem_view_def mem_new_def btm_ok_def)

end
