(* ===== verification/Fs_Labels.thy ===== *)
theory Fs_Labels
  imports Meta_Store Fs_Tree
begin

text \<open>
  The mutable pointer plane (\<open>src/server/src/engine/fs_labels.rs\<close>): labels that name a snapshot, moved by
  compare-and-swap together with an append to a reflog. The clock and the random suffix of a cluster
  log key are arguments; serde_json is the record \<open>ref_json\<close>.
\<close>

section \<open>Messages and identifiers\<close>

definition MAX_MESSAGE_LEN :: nat where "MAX_MESSAGE_LEN = 4096"

text \<open>\<open>Display\<close> of an unsigned integer, and \<open>{:020}\<close>.\<close>

fun decimal :: "nat \<Rightarrow> string" where
  "decimal n = (if n < 10 then [hex_digit n] else decimal (n div 10) @ [hex_digit (n mod 10)])"

declare decimal.simps [simp del]

definition decimal20 :: "nat \<Rightarrow> string" where
  "decimal20 n = replicate (20 - length (decimal n)) (hex_digit 0) @ decimal n"

definition check_message :: "string option \<Rightarrow> string option result" where
  "check_message message =
     (case message of
        Some m \<Rightarrow>
          (if length m > MAX_MESSAGE_LEN
           then Inl (Err (''label message too long: '' @ decimal (length m) @ '' bytes (max '' @ decimal MAX_MESSAGE_LEN @ '')''))
           else Inr message)
      | None \<Rightarrow> Inr message)"

definition to_hex :: "hash \<Rightarrow> string" where
  "to_hex i = hex i"

text \<open>One byte of hex, as \<open>u8::from_str_radix\<close> reads it: two digits, or a sign and one digit.\<close>

definition digit_value :: "char \<Rightarrow> nat option" where
  "digit_value c =
     (let n = (of_char c :: nat) in
      if 48 \<le> n \<and> n \<le> 57 then Some (n - 48)
      else if 97 \<le> n \<and> n \<le> 102 then Some (n - 87)
      else if 65 \<le> n \<and> n \<le> 70 then Some (n - 55)
      else None)"

definition radix16 :: "char \<Rightarrow> char \<Rightarrow> byte option" where
  "radix16 a b =
     (case digit_value b of
        None \<Rightarrow> None
      | Some y \<Rightarrow> (if a = CHR ''+'' then Some (of_nat y)
                  else (case digit_value a of None \<Rightarrow> None | Some x \<Rightarrow> Some (of_nat (16 * x + y)))))"

text \<open>Slicing a \<open>str\<close> inside a character panics.\<close>

fun from_hex_bytes :: "string \<Rightarrow> hash result" where
  "from_hex_bytes (a # b # s) =
     (if utf8_continuation a \<or> (s \<noteq> [] \<and> utf8_continuation (hd s)) then Inl (Panic ''byte index is not a char boundary'')
      else case radix16 a b of
        None \<Rightarrow> Inl (Err ''invalid CA id hex'')
      | Some x \<Rightarrow> (case from_hex_bytes s of Inl e \<Rightarrow> Inl e | Inr xs \<Rightarrow> Inr (x # xs)))"
| "from_hex_bytes s = Inr []"

definition from_hex :: "string \<Rightarrow> hash result" where
  "from_hex s =
     (if length s \<noteq> 64 then Inl (Err (''invalid CA id hex length: '' @ decimal (length s))) else from_hex_bytes s)"

text \<open>The bytes of an identifier as a metadata value and back.\<close>

definition caid_text :: "hash \<Rightarrow> string" where
  "caid_text i = map (\<lambda>b. char_of (unat b)) i"

definition to_caid :: "string \<Rightarrow> hash result" where
  "to_caid s =
     (if length s = 32 then Inr (map (\<lambda>c. of_nat (of_char c)) s)
      else Inl (Err (''invalid CA id length: '' @ decimal (length s))))"

datatype ref_op = Create | Push | Reset | Force

record ref_log_entry =
  rl_at :: int
  rl_from :: "hash option"
  rl_to :: hash
  rl_op :: ref_op
  rl_message :: "string option"

record ref_json =
  ref_ser :: "ref_log_entry \<Rightarrow> string + string"
  ref_de :: "string \<Rightarrow> string + ref_log_entry"

definition HEAD_TREE :: string where "HEAD_TREE = ''fs_label_heads''"
definition LOG_TREE :: string where "LOG_TREE = ''fs_label_log''"
definition CL_HEAD_PREFIX :: string where "CL_HEAD_PREFIX = ''fl:head:''"
definition CL_LOG_PREFIX :: string where "CL_LOG_PREFIX = ''fl:log:''"

definition log_prefix :: "string \<Rightarrow> string" where
  "log_prefix label = label @ [char_of (0::nat)]"

definition log_key :: "string \<Rightarrow> u64 \<Rightarrow> string" where
  "log_key label i = log_prefix label @ decimal20 (unat i)"

definition cl_head_key :: "string \<Rightarrow> string" where
  "cl_head_key label = CL_HEAD_PREFIX @ label"

definition cl_log_prefix :: "string \<Rightarrow> string" where
  "cl_log_prefix label = CL_LOG_PREFIX @ label @ [char_of (0::nat)]"

definition cl_log_key :: "string \<Rightarrow> int \<Rightarrow> string \<Rightarrow> string" where
  "cl_log_key label at uuid = CL_LOG_PREFIX @ label @ [char_of (0::nat)] @ decimal20 (nat (max at 0)) @ ''-'' @ uuid"

section \<open>The store\<close>

record 's label_store =
  ls_db :: "'s meta_ops"
  ls_cluster :: "'s cluster_ops option"
  ls_json :: ref_json

text \<open>What one call reads from outside: the clock and a fresh uuid.\<close>

record call_env =
  ce_now :: int
  ce_uuid :: string

definition ser_entry :: "ref_json \<Rightarrow> ref_log_entry \<Rightarrow> string result" where
  "ser_entry j e = (case ref_ser j e of Inl m \<Rightarrow> Inl (Err m) | Inr v \<Rightarrow> Inr v)"

definition de_entry :: "ref_json \<Rightarrow> string \<Rightarrow> ref_log_entry result" where
  "de_entry j v = (case ref_de j v of Inl m \<Rightarrow> Inl (Err m) | Inr e \<Rightarrow> Inr e)"

definition cl_log_kv :: "ref_json \<Rightarrow> call_env \<Rightarrow> string \<Rightarrow> ref_log_entry \<Rightarrow> row result" where
  "cl_log_kv j c label e =
     (case ser_entry j e of Inl m \<Rightarrow> Inl m | Inr v \<Rightarrow> Inr (cl_log_key label (rl_at e) (ce_uuid c), v))"

definition read_head :: "'s label_store \<Rightarrow> string \<Rightarrow> 's \<Rightarrow> hash option result \<times> 's" where
  "read_head ls label s =
     bind_st (ms_get (ls_db ls) HEAD_TREE label s)
       (\<lambda>v s. (case v of
                 None \<Rightarrow> (Inr None, s)
               | Some x \<Rightarrow> (case to_caid x of Inl e \<Rightarrow> (Inl e, s) | Inr i \<Rightarrow> (Inr (Some i), s))))"

definition move_head ::
  "'s label_store \<Rightarrow> call_env \<Rightarrow> string \<Rightarrow> hash option \<Rightarrow> hash \<Rightarrow> ref_op \<Rightarrow> string option \<Rightarrow> 's \<Rightarrow> bool result \<times> 's" where
  "move_head ls c label expected target op message s =
     bind_st (ms_generate_id (ls_db ls) s)
       (\<lambda>i s. let e = \<lparr>rl_at = ce_now c, rl_from = expected, rl_to = target, rl_op = op, rl_message = message\<rparr> in
          case ser_entry (ls_json ls) e of
            Inl m \<Rightarrow> (Inl m, s)
          | Inr v \<Rightarrow>
             ms_cas (ls_db ls) (write_new HEAD_TREE label (caid_text target)) (map_option caid_text expected)
               [write_new LOG_TREE (log_key label i) v] s)"

definition label_create :: "'s label_store \<Rightarrow> call_env \<Rightarrow> string \<Rightarrow> hash \<Rightarrow> string option \<Rightarrow> 's \<Rightarrow> unit result \<times> 's" where
  "label_create ls c label head message s =
     (case check_message message of
        Inl e \<Rightarrow> (Inl e, s)
      | Inr message \<Rightarrow>
         (case ls_cluster ls of
            Some cl \<Rightarrow>
             (let e = \<lparr>rl_at = ce_now c, rl_from = None, rl_to = head, rl_op = Create, rl_message = message\<rparr> in
              case cl_log_kv (ls_json ls) c label e of
                Inl x \<Rightarrow> (Inl x, s)
              | Inr kv \<Rightarrow>
                 bind_st (cl_cas_with_or_forward cl (cl_head_key label) None (to_hex head) [kv] s)
                   (\<lambda>applied s. if applied then (Inr (), s) else (Inl (Err (''label already exists: '' @ label)), s)))
          | None \<Rightarrow>
             bind_st (move_head ls c label None head Create message s)
               (\<lambda>moved s. if moved then (Inr (), s) else (Inl (Err (''label already exists: '' @ label)), s))))"

definition label_resolve :: "'s label_store \<Rightarrow> string \<Rightarrow> 's \<Rightarrow> hash option result \<times> 's" where
  "label_resolve ls label s =
     (case ls_cluster ls of
        Some cl \<Rightarrow>
          bind_st (cl_get cl (cl_head_key label) s)
            (\<lambda>v s. (case v of
                      None \<Rightarrow> (Inr None, s)
                    | Some x \<Rightarrow> (case from_hex x of Inl e \<Rightarrow> (Inl e, s) | Inr i \<Rightarrow> (Inr (Some i), s))))
      | None \<Rightarrow> read_head ls label s)"

definition label_cas ::
  "'s label_store \<Rightarrow> call_env \<Rightarrow> string \<Rightarrow> hash option \<Rightarrow> hash \<Rightarrow> string option \<Rightarrow> 's \<Rightarrow> bool result \<times> 's" where
  "label_cas ls c label expect new message s =
     (case check_message message of
        Inl e \<Rightarrow> (Inl e, s)
      | Inr message \<Rightarrow>
         (case ls_cluster ls of
            Some cl \<Rightarrow>
             (let e = \<lparr>rl_at = ce_now c, rl_from = expect, rl_to = new, rl_op = Push, rl_message = message\<rparr> in
              case cl_log_kv (ls_json ls) c label e of
                Inl x \<Rightarrow> (Inl x, s)
              | Inr kv \<Rightarrow> cl_cas_with_or_forward cl (cl_head_key label) (map_option to_hex expect) (to_hex new) [kv] s)
          | None \<Rightarrow> move_head ls c label expect new Push message s))"

text \<open>The retry loop of \<open>force\<close>: at most \<open>n\<close> attempts, each with its own clock reading.\<close>

fun force_loop :: "nat \<Rightarrow> 's label_store \<Rightarrow> call_env list \<Rightarrow> string \<Rightarrow> hash \<Rightarrow> string option \<Rightarrow> 's \<Rightarrow> unit result \<times> 's" where
  "force_loop 0 ls cs label target message s = (Inl (Err ''label contention: retry force''), s)"
| "force_loop (Suc n) ls cs label target message s =
     bind_st (read_head ls label s)
       (\<lambda>current s. bind_st (move_head ls (hd cs) label current target Reset message s)
          (\<lambda>moved s. if moved then (Inr (), s) else force_loop n ls (tl cs) label target message s))"

definition force :: "'s label_store \<Rightarrow> call_env list \<Rightarrow> string \<Rightarrow> hash \<Rightarrow> string option \<Rightarrow> 's \<Rightarrow> unit result \<times> 's" where
  "force ls cs label target message s =
     (case check_message message of
        Inl e \<Rightarrow> (Inl e, s)
      | Inr message \<Rightarrow>
         (case ls_cluster ls of
            Some cl \<Rightarrow>
              bind_st (label_resolve ls label s)
                (\<lambda>current s.
                  let e = \<lparr>rl_at = ce_now (hd cs), rl_from = current, rl_to = target, rl_op = Reset, rl_message = message\<rparr> in
                  case cl_log_kv (ls_json ls) (hd cs) label e of
                    Inl x \<Rightarrow> (Inl x, s)
                  | Inr kv \<Rightarrow> cl_put_with_or_forward cl (cl_head_key label) (to_hex target) [kv] s)
          | None \<Rightarrow> force_loop 64 ls cs label target message s))"

text \<open>\<open>into_iter().map(f).collect()\<close> into a \<open>Result\<close>.\<close>

fun map_res :: "('a \<Rightarrow> 'b result) \<Rightarrow> 'a list \<Rightarrow> 'b list result" where
  "map_res f [] = Inr []"
| "map_res f (x # xs) =
     (case f x of Inl e \<Rightarrow> Inl e | Inr y \<Rightarrow> (case map_res f xs of Inl e \<Rightarrow> Inl e | Inr ys \<Rightarrow> Inr (y # ys)))"

definition label_log :: "'s label_store \<Rightarrow> string \<Rightarrow> 's \<Rightarrow> ref_log_entry list result \<times> 's" where
  "label_log ls label s =
     (case ls_cluster ls of
        Some cl \<Rightarrow> bind_st (cl_scan_prefix cl (cl_log_prefix label) s)
                     (\<lambda>rows s. (map_res (\<lambda>r. de_entry (ls_json ls) (snd r)) rows, s))
      | None \<Rightarrow> bind_st (ms_scan (ls_db ls) LOG_TREE (log_prefix label) False None s)
                  (\<lambda>rows s. (map_res (\<lambda>r. de_entry (ls_json ls) (snd r)) rows, s)))"

definition log_recent :: "'s label_store \<Rightarrow> string \<Rightarrow> nat \<Rightarrow> 's \<Rightarrow> ref_log_entry list result \<times> 's" where
  "log_recent ls label limit s =
     (if limit = 0 then (Inr [], s)
      else case ls_cluster ls of
        Some cl \<Rightarrow> bind_st (cl_scan_prefix cl (cl_log_prefix label) s)
                     (\<lambda>rows s. (map_res (\<lambda>r. de_entry (ls_json ls) (snd r)) (drop (length rows - limit) rows), s))
      | None \<Rightarrow> bind_st (ms_scan (ls_db ls) LOG_TREE (log_prefix label) True (Some limit) s)
                  (\<lambda>rows s. (case map_res (\<lambda>r. de_entry (ls_json ls) (snd r)) rows of
                               Inl e \<Rightarrow> Inl e | Inr es \<Rightarrow> Inr (rev es), s)))"

text \<open>Label names are UTF-8, as every Rust \<open>String\<close> a label was created from is.\<close>

definition label_list :: "'s label_store \<Rightarrow> 's \<Rightarrow> (string \<times> hash) list result \<times> 's" where
  "label_list ls s =
     (case ls_cluster ls of
        Some cl \<Rightarrow> bind_st (cl_scan_prefix cl CL_HEAD_PREFIX s)
                     (\<lambda>rows s. (map_res (\<lambda>r. case from_hex (snd r) of
                          Inl e \<Rightarrow> Inl e | Inr i \<Rightarrow> Inr (drop (length CL_HEAD_PREFIX) (fst r), i)) rows, s))
      | None \<Rightarrow> bind_st (ms_scan (ls_db ls) HEAD_TREE [] False None s)
                  (\<lambda>rows s. (map_res (\<lambda>r. case to_caid (snd r) of
                          Inl e \<Rightarrow> Inl e | Inr i \<Rightarrow> Inr (fst r, i)) rows, s)))"

section \<open>Log keys\<close>

fun num :: "string \<Rightarrow> nat" where
  "num [] = 0"
| "num (c # cs) = (of_char c - 48) * 10 ^ length cs + num cs"

definition digits :: "string \<Rightarrow> bool" where
  "digits s \<longleftrightarrow> (\<forall>c \<in> set s. 48 \<le> (of_char c :: nat) \<and> (of_char c :: nat) \<le> 57)"

lemma digits_simps [simp]: "digits []" "digits (c # cs) \<longleftrightarrow> 48 \<le> (of_char c :: nat) \<and> (of_char c :: nat) \<le> 57 \<and> digits cs"
    "digits (xs @ ys) \<longleftrightarrow> digits xs \<and> digits ys"
  by (auto simp: digits_def)

lemma num_less: "digits s \<Longrightarrow> num s < 10 ^ length s"
proof (induction s)
  case (Cons c cs)
  then have "of_char c - 48 \<le> (9::nat)" "num cs < 10 ^ length cs" by auto
  then have "(of_char c - 48) * 10 ^ length cs + num cs < 9 * 10 ^ length cs + 10 ^ length cs"
    by (intro add_le_less_mono mult_le_mono1)
  then show ?case by simp
qed simp

lemma num_order: "digits xs \<Longrightarrow> digits ys \<Longrightarrow> length xs = length ys \<Longrightarrow> xs < ys \<longleftrightarrow> num xs < num ys"
proof (induction xs arbitrary: ys)
  case (Cons x xs)
  then obtain y ys' where ys: "ys = y # ys'" by (cases ys) auto
  have l: "num xs < 10 ^ length xs" "num ys' < 10 ^ length xs"
    using num_less [of xs] num_less [of ys'] Cons.prems ys by auto
  let ?a = "of_char x - 48 :: nat" and ?b = "of_char y - 48 :: nat"
  have lt: "i * 10 ^ length xs + m < j * 10 ^ length xs + n" if "i < j" "m < 10 ^ length xs" for i j m n :: nat
  proof -
    have "i * 10 ^ length xs + m < Suc i * 10 ^ length xs" using that by simp
    also have "\<dots> \<le> j * 10 ^ length xs" using that by (intro mult_le_mono1) simp
    finally show ?thesis by simp
  qed
  have "x < y \<longleftrightarrow> ?a < ?b" "x = y \<longleftrightarrow> ?a = ?b"
    using Cons.prems ys by (auto simp: less_char_def of_char_eq_iff [symmetric, where ?'a = nat] simp del: of_char_eq_iff)
  then show ?case
    using Cons.IH [of ys'] Cons.prems ys l lt [of ?a ?b "num xs" "num ys'"] lt [of ?b ?a "num ys'" "num xs"]
    by (cases ?a ?b rule: linorder_cases) auto
qed simp

lemma num_append: "num (xs @ ys) = num xs * 10 ^ length ys + num ys"
  by (induction xs) (simp_all add: power_add algebra_simps)

lemma hex_digit_code: "n < 10 \<Longrightarrow> of_char (hex_digit n) = 48 + n"
  by (auto simp: hex_digit_def less_Suc_eq numeral_eq_Suc)

lemma decimal_ok: "digits (decimal n) \<and> num (decimal n) = n \<and> (n < 10 ^ k \<longrightarrow> 0 < k \<longrightarrow> length (decimal n) \<le> k)"
proof (induction n arbitrary: k rule: decimal.induct)
  case (1 n)
  show ?case
  proof (cases "n < 10")
    case True
    then show ?thesis by (simp add: decimal.simps [of n] hex_digit_code)
  next
    case False
    have "length (decimal (n div 10)) + 1 \<le> k" if n: "n < 10 ^ k" "0 < k"
    proof -
      from n(2) obtain m where k: "k = Suc m" by (cases k) auto
      have "n div 10 < 10 ^ m" using n(1) unfolding k by (simp add: less_mult_imp_div_less)
      moreover have "0 < m" using n(1) False k by (cases m) auto
      ultimately show ?thesis using 1 [OF False, of m] k by simp
    qed
    with 1 [OF False, of k] False show ?thesis
      by (simp add: decimal.simps [of n] num_append hex_digit_code)
  qed
qed

lemma decimal20_ok:
  assumes "n < 10 ^ 20"
  shows "digits (decimal20 n) \<and> length (decimal20 n) = 20 \<and> num (decimal20 n) = n"
proof -
  have "num (replicate k (hex_digit 0) @ s) = num s" for k s
    by (induction k) (simp_all add: hex_digit_code)
  moreover have "digits (replicate k (hex_digit 0))" for k by (induction k) (simp_all add: hex_digit_code)
  ultimately show ?thesis using decimal_ok [of n 20] assms by (simp add: decimal20_def)
qed

lemma decimal20_less: "m < 10 ^ 20 \<Longrightarrow> n < 10 ^ 20 \<Longrightarrow> decimal20 m < decimal20 n \<longleftrightarrow> m < n"
  using decimal20_ok [of m] decimal20_ok [of n] num_order [of "decimal20 m" "decimal20 n"] by simp

lemma append_less_cancel: "xs @ ys < xs @ zs \<longleftrightarrow> ys < (zs :: string)"
  by (induction xs) simp_all

lemma u64_bound: "unat (i :: u64) < 10 ^ 20"
proof -
  have "unat i < 2 ^ LENGTH(64)" by (rule unsigned_less)
  then show ?thesis by simp
qed

lemma log_key_less: "log_key l i < log_key l j \<longleftrightarrow> unat i < unat j"
  by (simp add: log_key_def append_less_cancel decimal20_less [OF u64_bound u64_bound])

lemma log_key_inject: "log_key l i = log_key l j \<longleftrightarrow> i = j"
  by (metis log_key_less less_irrefl linorder_neqE_nat word_unat_eq_iff)

text \<open>Names without a NUL keep the labels' logs apart.\<close>

definition plain :: "string \<Rightarrow> bool" where
  "plain l \<longleftrightarrow> char_of (0::nat) \<notin> set l"

lemma log_prefix_apart:
  assumes "plain a" and "plain b"
  shows "starts_with (log_prefix b @ s) (log_prefix a) \<longleftrightarrow> a = b"
  using assms
proof (induction a arbitrary: b)
  case Nil
  then show ?case by (cases b) (auto simp: starts_with_def log_prefix_def plain_def)
next
  case (Cons x a)
  then show ?case by (cases b) (auto simp: starts_with_def log_prefix_def plain_def)
qed

lemma log_key_apart: "plain a \<Longrightarrow> plain b \<Longrightarrow> starts_with (log_key b i) (log_prefix a) \<longleftrightarrow> a = b"
  unfolding log_key_def by (rule log_prefix_apart)

lemma caid_text_inject [simp]: "caid_text a = caid_text b \<longleftrightarrow> a = b"
proof -
  have "inj (\<lambda>b :: byte. char_of (unat b) :: char)"
    by (rule injI) (metis byte_less char_of_eq_iff of_char_of mod_less word_unat_eq_iff)
  then show ?thesis unfolding caid_text_def by (simp add: inj_map_eq_map)
qed

lemma to_caid_text: "length h = 32 \<Longrightarrow> to_caid (caid_text h) = Inr h"
  using byte_less by (auto simp: to_caid_def caid_text_def comp_def intro!: nth_equalityI)

section \<open>Heads and reflogs\<close>

text \<open>A reflog as a chain of moves from one head to another.\<close>

fun chain :: "hash option \<Rightarrow> ref_log_entry list \<Rightarrow> hash option \<Rightarrow> bool" where
  "chain h [] h' \<longleftrightarrow> h' = h"
| "chain h (e # es) h' \<longleftrightarrow> rl_from e = h \<and> chain (Some (rl_to e)) es h'"

lemma chain_append: "chain h (es @ [e]) h' \<longleftrightarrow> (\<exists>h1. chain h es h1 \<and> rl_from e = h1 \<and> h' = Some (rl_to e))"
  by (induction es arbitrary: h) auto

definition json_ok :: "ref_json \<Rightarrow> bool" where
  "json_ok j \<longleftrightarrow> (\<forall>e. \<exists>x. ref_ser j e = Inr x \<and> ref_de j x = Inr e)"

text \<open>\<open>logged j v l ies\<close>: the log of label \<open>l\<close> holds exactly the entries \<open>ies\<close>, in the order of their ids.\<close>

definition logged :: "ref_json \<Rightarrow> meta_view \<Rightarrow> string \<Rightarrow> (u64 \<times> ref_log_entry) list \<Rightarrow> bool" where
  "logged j v l ies \<longleftrightarrow> sorted_wrt (\<lambda>a b. unat (fst a) < unat (fst b)) ies
     \<and> (\<forall>k x. v LOG_TREE k = Some x \<and> starts_with k (log_prefix l)
          \<longleftrightarrow> (\<exists>i e. (i, e) \<in> set ies \<and> k = log_key l i \<and> ref_ser j e = Inr x))"

definition label_inv :: "ref_json \<Rightarrow> meta_view \<Rightarrow> nat \<Rightarrow> bool" where
  "label_inv j v n \<longleftrightarrow> (\<forall>l. plain l \<longrightarrow> (\<exists>ies h. logged j v l ies \<and> (\<forall>i e. (i, e) \<in> set ies \<longrightarrow> unat i < n)
     \<and> chain None (map snd ies) h \<and> v HEAD_TREE l = map_option caid_text h \<and> (\<forall>x. h = Some x \<longrightarrow> length x = 32)))"

lemma label_inv_empty: "label_inv j (\<lambda>_ _. None) n"
  unfolding label_inv_def by (auto intro!: exI [of _ "[]"] simp: logged_def)

lemma label_inv_mono: "label_inv j v n \<Longrightarrow> n \<le> n' \<Longrightarrow> label_inv j v n'"
  unfolding label_inv_def by (meson less_le_trans)

lemma trees_differ [simp]: "HEAD_TREE \<noteq> LOG_TREE" "LOG_TREE \<noteq> HEAD_TREE"
  by (simp_all add: HEAD_TREE_def LOG_TREE_def)

lemma logged_other:
  assumes "logged j v m ies" and "plain l" "plain m" "m \<noteq> l"
  shows "logged j (v(HEAD_TREE := f, LOG_TREE := (v LOG_TREE)(log_key l i \<mapsto> x))) m ies"
proof -
  have "\<not> starts_with (log_key l i) (log_prefix m)" using log_key_apart [OF assms(3,2), of i] assms(4) by simp
  with assms(1) show ?thesis unfolding logged_def by (auto simp: fun_upd_apply)
qed

lemma logged_append:
  assumes "logged j v l ies" and "plain l" and new: "\<And>k e. (k, e) \<in> set ies \<Longrightarrow> unat k < unat i"
    and ser: "ref_ser j e = Inr x" and j: "json_ok j"
  shows "logged j (v(HEAD_TREE := f, LOG_TREE := (v LOG_TREE)(log_key l i \<mapsto> x))) l (ies @ [(i, e)])"
proof -
  have pre: "starts_with (log_key l i) (log_prefix l)" using log_key_apart [OF assms(2,2)] by simp
  have fresh: "log_key l k \<noteq> log_key l i" if "(k, e') \<in> set ies" for k e'
    using new [OF that] by (auto simp: log_key_inject)
  show ?thesis
    using assms(1) pre new ser fresh unfolding logged_def
    by (auto simp: sorted_wrt_append fun_upd_apply split: if_splits; metis)
qed

text \<open>The write of one successful move.\<close>

lemma label_inv_move:
  assumes inv: "label_inv j v n" and j: "json_ok j" and l: "plain l" and i: "n \<le> unat i" "unat i < n'"
    and head: "v HEAD_TREE l = map_option caid_text expected"
    and e: "rl_from e = expected" "rl_to e = target" "length target = 32" and ser: "ref_ser j e = Inr x"
  shows "label_inv j (fold apply_write [write_new HEAD_TREE l (caid_text target), write_new LOG_TREE (log_key l i) x] v) n'"
proof -
  let ?v = "v(HEAD_TREE := (v HEAD_TREE)(l \<mapsto> caid_text target), LOG_TREE := (v LOG_TREE)(log_key l i \<mapsto> x))"
  have v: "fold apply_write [write_new HEAD_TREE l (caid_text target), write_new LOG_TREE (log_key l i) x] v = ?v"
    by (auto simp: apply_write_def write_new_def fun_upd_twist)
  have "\<exists>ies h. logged j ?v m ies \<and> (\<forall>k e. (k, e) \<in> set ies \<longrightarrow> unat k < n') \<and> chain None (map snd ies) h
      \<and> ?v HEAD_TREE m = map_option caid_text h \<and> (\<forall>x. h = Some x \<longrightarrow> length x = 32)" if m: "plain m" for m
  proof -
    obtain ies h where old: "logged j v m ies" "\<And>k e. (k, e) \<in> set ies \<Longrightarrow> unat k < n" "chain None (map snd ies) h"
      "v HEAD_TREE m = map_option caid_text h" "\<forall>x. h = Some x \<longrightarrow> length x = 32" using inv m unfolding label_inv_def by metis
    show ?thesis
    proof (cases "m = l")
      case False
      from old(2) i have "unat k < n'" if "(k, e) \<in> set ies" for k e using that by force
      with logged_other [OF old(1) l m False] old(3,4,5) False show ?thesis
        by (intro exI [of _ ies] exI [of _ h]) simp
    next
      case True
      have "h = expected" using old(4) head unfolding True by (cases h; cases expected) auto
      moreover have "logged j ?v l (ies @ [(i, e)])"
        by (rule logged_append [OF old(1) [unfolded True] l _ ser j]) (use old(2) i in force)
      ultimately show ?thesis using old(2,3) i e True
        by (intro exI [of _ "ies @ [(i, e)]"] exI [of _ "Some target"]) (force simp: chain_append)
    qed
  qed
  then show ?thesis unfolding v label_inv_def by blast
qed

definition standalone :: "'s label_store \<Rightarrow> 's meta_ops \<Rightarrow> bool" where
  "standalone ls db \<longleftrightarrow> ls_cluster ls = None \<and> ls_db ls = db \<and> json_ok (ls_json ls)"

context metadata_store
begin

lemma read_head_ok:
  assumes "ls_db ls = db" and "ok s" and "read_head ls l s = (r, s')"
  shows "ok s' \<and> view s' = view s \<and> issued s' = issued s
    \<and> (\<forall>h. r = Inr h \<longrightarrow> (case view s HEAD_TREE l of None \<Rightarrow> h = None | Some x \<Rightarrow> map_option Inr h = Some (to_caid x)))"
proof -
  obtain r1 s1 where g: "ms_get db HEAD_TREE l s = (r1, s1)" by fastforce
  note law = get_law [OF assms(2) g]
  from assms(1,3) g have "s' = s1" by (auto simp: read_head_def bind_st_def split: sum.splits option.splits)
  moreover have "case view s HEAD_TREE l of None \<Rightarrow> h = None | Some x \<Rightarrow> map_option Inr h = Some (to_caid x)" if "r = Inr h" for h
    using that assms(1,3) g law by (auto simp: read_head_def bind_st_def split: sum.splits option.splits)
  ultimately show ?thesis using law by simp
qed

lemma move_head_ok:
  assumes ls: "standalone ls db" and ok: "ok s" and m: "move_head ls c l expected target op msg s = (r, s')"
  obtains i x where "ok s'" "issued s \<le> issued s'"
    "ref_ser (ls_json ls) \<lparr>rl_at = ce_now c, rl_from = expected, rl_to = target, rl_op = op, rl_message = msg\<rparr> = Inr x"
    "issued s \<le> unat i \<and> unat i < issued s' \<and> view s HEAD_TREE l = map_option caid_text expected
       \<and> view s' = fold apply_write [write_new HEAD_TREE l (caid_text target), write_new LOG_TREE (log_key l i) x] (view s)
     \<or> view s' = view s"
    "r = Inr True \<Longrightarrow> view s HEAD_TREE l = map_option caid_text expected
       \<and> view s' = fold apply_write [write_new HEAD_TREE l (caid_text target), write_new LOG_TREE (log_key l i) x] (view s)"
    "r = Inr False \<Longrightarrow> view s HEAD_TREE l \<noteq> map_option caid_text expected \<and> view s' = view s"
proof -
  let ?e = "\<lparr>rl_at = ce_now c, rl_from = expected, rl_to = target, rl_op = op, rl_message = msg\<rparr>"
  obtain x where x: "ref_ser (ls_json ls) ?e = Inr x" using ls by (auto simp: standalone_def json_ok_def)
  obtain r1 s1 where g: "ms_generate_id db s = (r1, s1)" by fastforce
  note law = id_law [OF ok g]
  show thesis
  proof (cases r1)
    case (Inl e)
    with m g ls have "r = Inl e" "s' = s1" by (simp_all add: move_head_def standalone_def)
    with law x that [of x 0] show thesis by simp
  next
    case (Inr i)
    let ?w = "write_new HEAD_TREE l (caid_text target)" and ?ws = "[write_new LOG_TREE (log_key l i) x]"
    from m g ls Inr x have c: "ms_cas db ?w (map_option caid_text expected) ?ws s1 = (r, s')"
      by (simp add: move_head_def standalone_def ser_entry_def Let_def)
    have "w_tree ?w = HEAD_TREE" "w_key ?w = l" by (simp_all add: write_new_def)
    with cas_law [OF _ c] law Inr have "ok s'" "issued s' = issued s1"
      "r = Inr True \<longrightarrow> view s HEAD_TREE l = map_option caid_text expected \<and> view s' = fold apply_write (?w # ?ws) (view s)"
      "r = Inr False \<longrightarrow> view s HEAD_TREE l \<noteq> map_option caid_text expected \<and> view s' = view s"
      "view s' = view s \<or> view s HEAD_TREE l = map_option caid_text expected \<and> view s' = fold apply_write (?w # ?ws) (view s)"
      by simp_all
    moreover have "issued s \<le> unat i" "unat i < issued s1" "issued s \<le> issued s1" using law Inr by simp_all
    ultimately show thesis using x that [of x i] by (auto simp del: fold.simps)
  qed
qed

lemma move_head_inv:
  assumes ls: "standalone ls db" and ok: "ok s" and inv: "label_inv (ls_json ls) (view s) (issued s)"
    and l: "plain l" "length target = 32" and m: "move_head ls c l expected target op msg s = (r, s')"
  shows "ok s' \<and> label_inv (ls_json ls) (view s') (issued s')"
proof -
  from move_head_ok [OF ls ok m] obtain i x where c: "ok s'" "issued s \<le> issued s'"
    "ref_ser (ls_json ls) \<lparr>rl_at = ce_now c, rl_from = expected, rl_to = target, rl_op = op, rl_message = msg\<rparr> = Inr x"
    "issued s \<le> unat i \<and> unat i < issued s' \<and> view s HEAD_TREE l = map_option caid_text expected
       \<and> view s' = fold apply_write [write_new HEAD_TREE l (caid_text target), write_new LOG_TREE (log_key l i) x] (view s)
     \<or> view s' = view s" by metis
  from c(4) show ?thesis
  proof
    assume "view s' = view s"
    with inv c label_inv_mono show ?thesis by metis
  next
    assume w: "issued s \<le> unat i \<and> unat i < issued s' \<and> view s HEAD_TREE l = map_option caid_text expected
       \<and> view s' = fold apply_write [write_new HEAD_TREE l (caid_text target), write_new LOG_TREE (log_key l i) x] (view s)"
    have "json_ok (ls_json ls)" using ls by (simp add: standalone_def)
    from label_inv_move [OF inv this l(1) _ _ _ _ _ l(2) c(3), of i "issued s'" expected] w c(1) show ?thesis by simp
  qed
qed

end

context metadata_store
begin

text \<open>The retry loop of \<open>force\<close> moves the head or leaves it; the log follows.\<close>

lemma force_loop_inv:
  assumes ls: "standalone ls db" and l: "plain l" "length target = 32"
  shows "ok s \<Longrightarrow> label_inv (ls_json ls) (view s) (issued s) \<Longrightarrow> force_loop n ls cs l target msg s = (r, s') \<Longrightarrow>
    ok s' \<and> label_inv (ls_json ls) (view s') (issued s')"
proof (induction n arbitrary: cs s)
  case (Suc n)
  obtain r1 s1 where rd: "read_head ls l s = (r1, s1)" by fastforce
  have s1: "ok s1" "view s1 = view s" "issued s1 = issued s"
    using read_head_ok [OF _ Suc.prems(1) rd] ls by (simp_all add: standalone_def)
  show ?case
  proof (cases r1)
    case (Inl e)
    with Suc.prems rd s1 show ?thesis by simp
  next
    case (Inr current)
    obtain r2 s2 where m: "move_head ls (hd cs) l current target Reset msg s1 = (r2, s2)" by fastforce
    have s2: "ok s2 \<and> label_inv (ls_json ls) (view s2) (issued s2)"
      using move_head_inv [OF ls s1(1) _ l m] Suc.prems(2) s1 by simp
    show ?thesis
    proof (cases r2)
      case (Inr moved)
      with Suc.prems(3) rd \<open>r1 = Inr current\<close> m s2 Suc.IH [of s2 "tl cs"] show ?thesis by (cases moved) simp_all
    qed (use Suc.prems(3) rd Inr m s2 in simp)
  qed
qed simp

end

section \<open>Runs of the label store\<close>

datatype label_call =
    CallCreate string hash "string option"
  | CallCas string "hash option" hash "string option"
  | CallForce string hash "string option"

fun call_ok :: "label_call \<Rightarrow> bool" where
  "call_ok (CallCreate l h m) \<longleftrightarrow> plain l \<and> length h = 32"
| "call_ok (CallCas l x h m) \<longleftrightarrow> plain l \<and> length h = 32"
| "call_ok (CallForce l h m) \<longleftrightarrow> plain l \<and> length h = 32"

text \<open>One call, with what it reads from outside; answers are dropped, also errors.\<close>

fun run_call :: "'s label_store \<Rightarrow> call_env list \<Rightarrow> label_call \<Rightarrow> 's \<Rightarrow> 's" where
  "run_call ls cs (CallCreate l h m) s = snd (label_create ls (hd cs) l h m s)"
| "run_call ls cs (CallCas l x h m) s = snd (label_cas ls (hd cs) l x h m s)"
| "run_call ls cs (CallForce l h m) s = snd (force ls cs l h m s)"

definition run_calls :: "'s label_store \<Rightarrow> (call_env list \<times> label_call) list \<Rightarrow> 's \<Rightarrow> 's" where
  "run_calls ls calls s = fold (\<lambda>(cs, c). run_call ls cs c) calls s"

lemma check_message_same: "check_message m = Inr m' \<Longrightarrow> m' = m"
  by (auto simp: check_message_def split: option.splits if_splits)

context metadata_store
begin

lemma run_call_inv:
  assumes ls: "standalone ls db" and c: "call_ok c" and ok: "ok s" and inv: "label_inv (ls_json ls) (view s) (issued s)"
  shows "ok (run_call ls cs c s) \<and> label_inv (ls_json ls) (view (run_call ls cs c s)) (issued (run_call ls cs c s))"
proof (cases c)
  case (CallCreate l h m)
  obtain r s' where mv: "move_head ls (hd cs) l None h Create m s = (r, s')" by fastforce
  have "ok s' \<and> label_inv (ls_json ls) (view s') (issued s')"
    by (rule move_head_inv [OF ls ok inv _ _ mv]) (use c CallCreate in simp_all)
  with ok inv ls mv CallCreate show ?thesis
    by (auto simp: label_create_def standalone_def bind_st_def dest!: check_message_same split: sum.splits)
next
  case (CallCas l x h m)
  obtain r s' where mv: "move_head ls (hd cs) l x h Push m s = (r, s')" by fastforce
  have "ok s' \<and> label_inv (ls_json ls) (view s') (issued s')"
    by (rule move_head_inv [OF ls ok inv _ _ mv]) (use c CallCas in simp_all)
  with ok inv ls mv CallCas show ?thesis
    by (auto simp: label_cas_def standalone_def dest!: check_message_same split: sum.splits)
next
  case (CallForce l h m)
  obtain r s' where mv: "force_loop 64 ls cs l h m s = (r, s')" by fastforce
  have "ok s' \<and> label_inv (ls_json ls) (view s') (issued s')"
    by (rule force_loop_inv [OF ls _ _ ok inv mv]) (use c CallForce in simp_all)
  with ok inv ls mv CallForce show ?thesis
    by (auto simp: force_def standalone_def dest!: check_message_same split: sum.splits)
qed

lemma run_calls_inv:
  assumes ls: "standalone ls db"
  shows "\<forall>x \<in> set calls. call_ok (snd x) \<Longrightarrow> ok s \<Longrightarrow> label_inv (ls_json ls) (view s) (issued s) \<Longrightarrow>
    ok (run_calls ls calls s) \<and> label_inv (ls_json ls) (view (run_calls ls calls s)) (issued (run_calls ls calls s))"
proof (induction calls arbitrary: s)
  case (Cons x calls)
  obtain cs c where x: "x = (cs, c)" by fastforce
  have "ok (run_call ls cs c s) \<and> label_inv (ls_json ls) (view (run_call ls cs c s)) (issued (run_call ls cs c s))"
    by (rule run_call_inv [OF ls _ Cons.prems(2,3)]) (use Cons.prems(1) x in simp)
  with Cons.IH [of "run_call ls cs c s"] Cons.prems(1) show ?case by (simp add: run_calls_def x)
qed (simp add: run_calls_def)

end

text \<open>The rows of a label's log are its entries, in order.\<close>

lemma logged_rows:
  assumes j: "json_ok j" and lg: "logged j v l ies" and rows: "rows_of v LOG_TREE (log_prefix l) rows"
  shows "map_res (\<lambda>r. de_entry j (snd r)) rows = Inr (map snd ies)"
proof -
  define ser where "ser e = projr (ref_ser j e)" for e
  have ser: "ref_ser j e = Inr (ser e)" "ref_de j (ser e) = Inr e" for e
    using j unfolding json_ok_def ser_def by (metis sum.sel(2))+
  define row where "row = (\<lambda>(i, e). (log_key l i, ser e))"
  have "set rows = set (map row ies)"
  proof -
    have "(k, x) \<in> set rows \<longleftrightarrow> (\<exists>i e. (i, e) \<in> set ies \<and> k = log_key l i \<and> ser e = x)" for k x
      using rows lg unfolding rows_of_def logged_def ser by simp
    then show ?thesis unfolding row_def by (auto simp: image_iff) (metis case_prod_conv)
  qed
  moreover have "sorted_wrt (<) (map fst rows)" using rows by (simp add: rows_of_def)
  moreover have "sorted_wrt (<) (map fst (map row ies))"
    using lg unfolding logged_def row_def by (simp add: sorted_wrt_map log_key_less case_prod_unfold)
  ultimately have "rows = map row ies" by (intro sorted_key_unique [where f = fst]) simp_all
  moreover have "map_res (\<lambda>r. de_entry j (snd r)) (map row es) = Inr (map snd es)" for es
    by (induction es) (auto simp: row_def de_entry_def ser)
  ultimately show ?thesis by simp
qed

context metadata_store
begin

lemma label_log_ok:
  assumes ls: "standalone ls db" and ok: "ok s" and lg: "logged (ls_json ls) (view s) l ies"
    and log: "label_log ls l s = (Inr es, s')"
  shows "es = map snd ies \<and> ok s' \<and> view s' = view s"
proof -
  obtain r1 s1 where sc: "ms_scan db LOG_TREE (log_prefix l) False None s = (r1, s1)" by fastforce
  note law = scan_law [OF ok sc]
  from log ls sc obtain rows where r1: "r1 = Inr rows" "s' = s1" "map_res (\<lambda>r. de_entry (ls_json ls) (snd r)) rows = Inr es"
    by (cases r1) (auto simp: label_log_def standalone_def)
  with law have "rows_of (view s) LOG_TREE (log_prefix l) rows" by (auto simp: cut_def)
  from logged_rows [OF _ lg this] ls r1 law show ?thesis by (simp add: standalone_def)
qed

lemma log_recent_ok:
  assumes ls: "standalone ls db" and ok: "ok s" and lg: "logged (ls_json ls) (view s) l ies"
    and log: "log_recent ls l n s = (Inr es, s')"
  shows "es = drop (length ies - n) (map snd ies)"
proof (cases n)
  case 0
  with log show ?thesis by (simp add: log_recent_def)
next
  case (Suc k)
  obtain r1 s1 where sc: "ms_scan db LOG_TREE (log_prefix l) True (Some n) s = (r1, s1)" by fastforce
  note law = scan_law [OF ok sc]
  from log ls sc Suc obtain rows es' where r1: "r1 = Inr rows" "map_res (\<lambda>r. de_entry (ls_json ls) (snd r)) rows = Inr es'" "es = rev es'"
    by (cases r1) (auto simp: log_recent_def standalone_def split: sum.splits)
  with law obtain all where all: "rows_of (view s) LOG_TREE (log_prefix l) all" "rows = take n (rev all)"
    by (auto simp: cut_def)
  have m: "map_res f (xs @ ys) = Inr zs \<Longrightarrow> map_res f xs = Inr (take (length xs) zs)" for f :: "row \<Rightarrow> ref_log_entry result" and xs ys zs
    by (induction xs arbitrary: zs) (auto split: sum.splits)
  have rv: "map_res f xs = Inr zs \<Longrightarrow> map_res f (rev xs) = Inr (rev zs)" for f :: "row \<Rightarrow> ref_log_entry result" and xs zs
  proof -
    have ap: "map_res f (xs @ [x]) = (case map_res f xs of Inl e \<Rightarrow> Inl e | Inr ys \<Rightarrow> (case f x of Inl e \<Rightarrow> Inl e | Inr y \<Rightarrow> Inr (ys @ [y])))" for x xs
      by (induction xs) (auto split: sum.splits)
    show "map_res f xs = Inr zs \<Longrightarrow> map_res f (rev xs) = Inr (rev zs)"
      by (induction xs arbitrary: zs) (auto simp: ap split: sum.splits)
  qed
  have "map_res (\<lambda>r. de_entry (ls_json ls) (snd r)) (take n (rev all) @ drop n (rev all)) = Inr (rev (map snd ies))"
    using rv [OF logged_rows [OF _ lg all(1)]] ls by (simp add: standalone_def)
  from m [OF this] r1(2) all(2) have "es' = take (length (take n (rev all))) (rev (map snd ies))" by simp
  moreover have "length all = length ies"
  proof -
    have "map_res f xs = Inr ys \<Longrightarrow> length ys = length xs" for f :: "row \<Rightarrow> ref_log_entry result" and xs ys
      by (induction xs arbitrary: ys) (auto split: sum.splits)
    from this [OF logged_rows [OF _ lg all(1)]] ls show ?thesis by (simp add: standalone_def)
  qed
  ultimately show ?thesis using r1(3) by (simp add: rev_take take_rev min_def)
qed

end

end
