(* ===== verification/Fs_Snapshots.thy ===== *)
theory Fs_Snapshots
  imports Fs_Merge Fs_Content Fs_Labels
begin

text \<open>
  The snapshot verbs of the engine (\<open>src/server/src/engine/ffi.rs\<close>, \<open>mod.rs\<close>): naming snapshots by hex ids,
  moving labels, rolling back, and merging two snapshots, structurally first and then by content. The
  policy hook that may veto a verb is the field \<open>sn_gate\<close>.
\<close>

section \<open>Identifiers as text\<close>

definition ca_to_hex :: "hash \<Rightarrow> string" where
  "ca_to_hex i = hex i"

definition is_hexdigit :: "char \<Rightarrow> bool" where
  "is_hexdigit c \<longleftrightarrow> digit_value c \<noteq> None"

fun hex_pairs :: "string \<Rightarrow> hash option" where
  "hex_pairs (a # b # s) =
     (case radix16 a b of
        None \<Rightarrow> None
      | Some x \<Rightarrow> (case hex_pairs s of None \<Rightarrow> None | Some xs \<Rightarrow> Some (x # xs)))"
| "hex_pairs s = Some []"

definition parse_ca_hex :: "string \<Rightarrow> hash option" where
  "parse_ca_hex s = (if length s \<noteq> 64 \<or> \<not> list_all is_hexdigit s then None else hex_pairs s)"

fun refop_str :: "ref_op \<Rightarrow> string" where
  "refop_str Create = ''create''"
| "refop_str Push = ''push''"
| "refop_str Reset = ''reset''"
| "refop_str Force = ''force''"

section \<open>Labels\<close>

record 's snapshots =
  sn_labels :: "'s label_store option"
  sn_has_store :: bool
  sn_gate :: "string \<Rightarrow> string option \<Rightarrow> string option \<Rightarrow> unit result"

definition labels_or_err :: "'s snapshots \<Rightarrow> 's label_store result" where
  "labels_or_err sn =
     (case sn_labels sn of Some ls \<Rightarrow> Inr ls | None \<Rightarrow> Inl (Err ''fs labels are not configured on this server''))"

record label_view =
  lv_name :: string
  lv_ca_id :: string

definition fs_list_labels :: "'s snapshots \<Rightarrow> 's \<Rightarrow> label_view list result \<times> 's" where
  "fs_list_labels sn s =
     (case labels_or_err sn of
        Inl e \<Rightarrow> (Inl e, s)
      | Inr ls \<Rightarrow> bind_st (label_list ls s)
          (\<lambda>xs s. (Inr (map (\<lambda>(name, i). \<lparr>lv_name = name, lv_ca_id = ca_to_hex i\<rparr>) xs), s)))"

definition fs_resolve_label :: "'s snapshots \<Rightarrow> string \<Rightarrow> 's \<Rightarrow> string option result \<times> 's" where
  "fs_resolve_label sn name s =
     (case labels_or_err sn of
        Inl e \<Rightarrow> (Inl e, s)
      | Inr ls \<Rightarrow> bind_st (label_resolve ls name s) (\<lambda>h s. (Inr (map_option ca_to_hex h), s)))"

definition parse_or :: "string \<Rightarrow> string \<Rightarrow> hash result" where
  "parse_or what ca_id = (case parse_ca_hex ca_id of None \<Rightarrow> Inl (Err (what @ ca_id)) | Some i \<Rightarrow> Inr i)"

definition fs_set_label ::
  "'s snapshots \<Rightarrow> call_env list \<Rightarrow> string \<Rightarrow> string \<Rightarrow> string option \<Rightarrow> 's \<Rightarrow> unit result \<times> 's" where
  "fs_set_label sn cs name ca_id message s =
     (case sn_gate sn ''label'' (Some name) (Some ca_id) of
        Inl e \<Rightarrow> (Inl e, s)
      | Inr _ \<Rightarrow>
         (case labels_or_err sn of
            Inl e \<Rightarrow> (Inl e, s)
          | Inr ls \<Rightarrow>
             (case parse_or ''invalid CA id: '' ca_id of
                Inl e \<Rightarrow> (Inl e, s)
              | Inr i \<Rightarrow>
                 bind_st (label_resolve ls name s)
                   (\<lambda>h s. (case h of
                             Some _ \<Rightarrow> force ls cs name i message s
                           | None \<Rightarrow> label_create ls (hd cs) name i message s)))))"

record ref_log_view =
  rv_at :: int
  rv_from :: "string option"
  rv_to :: string
  rv_op :: string
  rv_message :: "string option"

definition fs_label_log :: "'s snapshots \<Rightarrow> string \<Rightarrow> nat option \<Rightarrow> 's \<Rightarrow> ref_log_view list result \<times> 's" where
  "fs_label_log sn name limit s =
     (case labels_or_err sn of
        Inl e \<Rightarrow> (Inl e, s)
      | Inr ls \<Rightarrow>
          bind_st (case limit of Some n \<Rightarrow> log_recent ls name n s | None \<Rightarrow> label_log ls name s)
            (\<lambda>es s. (Inr (map (\<lambda>e. \<lparr>rv_at = rl_at e, rv_from = map_option ca_to_hex (rl_from e),
                rv_to = ca_to_hex (rl_to e), rv_op = refop_str (rl_op e), rv_message = rl_message e\<rparr>) es), s)))"

datatype push_outcome = Advanced string string | Rejected string "string option"

definition fs_push ::
  "'s snapshots \<Rightarrow> call_env list \<Rightarrow> string \<Rightarrow> string \<Rightarrow> string option \<Rightarrow> bool \<Rightarrow> string option \<Rightarrow> 's
   \<Rightarrow> push_outcome result \<times> 's" where
  "fs_push sn cs label ca_id expected forced message s =
     (case sn_gate sn ''push'' (Some label) (Some ca_id) of
        Inl e \<Rightarrow> (Inl e, s)
      | Inr _ \<Rightarrow>
         (case labels_or_err sn of
            Inl e \<Rightarrow> (Inl e, s)
          | Inr ls \<Rightarrow>
             (case parse_or ''invalid CA id: '' ca_id of
                Inl e \<Rightarrow> (Inl e, s)
              | Inr new \<Rightarrow>
                 (if forced then bind_st (force ls cs label new message s) (\<lambda>_ s. (Inr (Advanced label ca_id), s))
                  else (case (case expected of
                                Some h \<Rightarrow> (case parse_or ''invalid expected CA id: '' h of Inl e \<Rightarrow> Inl e | Inr x \<Rightarrow> Inr (Some x))
                              | None \<Rightarrow> Inr None) of
                          Inl e \<Rightarrow> (Inl e, s)
                        | Inr want \<Rightarrow>
                           bind_st (label_resolve ls label s)
                             (\<lambda>current s.
                               bind_st (if current = None \<and> want = None
                                        then bind_st (label_create ls (hd cs) label new message s) (\<lambda>_ s. (Inr True, s))
                                        else label_cas ls (hd cs) label want new message s)
                                 (\<lambda>advanced s.
                                   (Inr (if advanced then Advanced label ca_id
                                         else Rejected label (map_option ca_to_hex current)), s))))))))"

definition fs_reset ::
  "'s snapshots \<Rightarrow> call_env list \<Rightarrow> string \<Rightarrow> string \<Rightarrow> bool \<Rightarrow> string option \<Rightarrow> 's \<Rightarrow> unit result \<times> 's" where
  "fs_reset sn cs label ca_id allow_unlogged message s =
     (case sn_gate sn ''reset'' (Some label) (Some ca_id) of
        Inl e \<Rightarrow> (Inl e, s)
      | Inr _ \<Rightarrow>
         (case labels_or_err sn of
            Inl e \<Rightarrow> (Inl e, s)
          | Inr ls \<Rightarrow>
             (case parse_or ''invalid CA id: '' ca_id of
                Inl e \<Rightarrow> (Inl e, s)
              | Inr target \<Rightarrow>
                 bind_st (if allow_unlogged then (Inr (), s)
                          else bind_st (label_log ls label s)
                            (\<lambda>log s. if list_ex (\<lambda>e. rl_to e = target \<or> rl_from e = Some target) log then (Inr (), s)
                                     else (Inl (Err (''CA id '' @ ca_id @ '' is not in the reflog for label '' @ [CHR 0x27]
                                       @ label @ [CHR 0x27] @ ''; pass allow_unlogged to reset anyway'')), s)))
                   (\<lambda>_ s. force ls cs label target message s))))"

section \<open>Merging\<close>

record conflict_view =
  cv_path :: string
  cv_base :: "string option"
  cv_ours :: "string option"
  cv_theirs :: "string option"
  cv_kind :: string
  cv_markers :: "string option"
  cv_diff_ours :: "string option"
  cv_diff_theirs :: "string option"

datatype merge_answer = Merged string | MergeConflicts "conflict_view list"

text \<open>\<open>ser\<close> is bincode on an entry.\<close>

definition entry_content_id :: "fs_env \<Rightarrow> (entry \<Rightarrow> bytes option) \<Rightarrow> entry \<Rightarrow> string" where
  "entry_content_id env ser e = ca_to_hex (blake3 env (case ser e of Some b \<Rightarrow> b | None \<Rightarrow> []))"

definition with_context :: "string \<Rightarrow> rerr \<Rightarrow> rerr" where
  "with_context msg e = (case e of Err m \<Rightarrow> Err (msg @ m) | Panic m \<Rightarrow> Panic m)"

definition read_side :: "fs_env \<Rightarrow> blobs \<Rightarrow> string \<Rightarrow> path \<Rightarrow> entry \<Rightarrow> bytes result" where
  "read_side env bs side p e =
     (case read_file env bs e of
        Inl x \<Rightarrow> Inl (with_context (''fs_merge: read '' @ side @ '' '' @ path_display p @ '': '') x)
      | Inr b \<Rightarrow> Inr b)"

definition view_of :: "fs_env \<Rightarrow> (entry \<Rightarrow> bytes option) \<Rightarrow> merge_conflict \<Rightarrow> string \<Rightarrow> content_conflict \<Rightarrow> conflict_view" where
  "view_of env ser c kind cc =
     \<lparr>cv_path = path_display (mc_path c), cv_base = map_option (entry_content_id env ser) (mc_base c),
      cv_ours = map_option (entry_content_id env ser) (mc_ours c),
      cv_theirs = map_option (entry_content_id env ser) (mc_theirs c), cv_kind = kind,
      cv_markers = cc_markers cc, cv_diff_ours = cc_diff_ours cc, cv_diff_theirs = cc_diff_theirs cc\<rparr>"

text \<open>The bytes of both sides and of the base, for the content merge.\<close>

definition read_sides :: "fs_env \<Rightarrow> blobs \<Rightarrow> merge_conflict \<Rightarrow> entry \<Rightarrow> entry \<Rightarrow> (bytes option \<times> bytes \<times> bytes) result" where
  "read_sides env bs c oe te =
     (case read_side env bs ''ours'' (mc_path c) oe of
        Inl e \<Rightarrow> Inl e
      | Inr ours_b \<Rightarrow>
         (case read_side env bs ''theirs'' (mc_path c) te of
            Inl e \<Rightarrow> Inl e
          | Inr theirs_b \<Rightarrow>
             (case mc_base c of
                None \<Rightarrow> Inr (None, ours_b, theirs_b)
              | Some be \<Rightarrow>
                 (case read_side env bs ''base'' (mc_path c) be of
                    Inl e \<Rightarrow> Inl e
                  | Inr base_b \<Rightarrow> Inr (Some base_b, ours_b, theirs_b)))))"

fun reconcile ::
  "fs_env \<Rightarrow> (entry \<Rightarrow> bytes option) \<Rightarrow> content_merger list \<Rightarrow> merge_conflict list \<Rightarrow> conflict_view list \<Rightarrow> change list
   \<Rightarrow> blobs \<Rightarrow> (conflict_view list \<times> change list) result \<times> blobs" where
  "reconcile env ser mergers [] views resolved bs = (Inr (views, resolved), bs)"
| "reconcile env ser mergers (c # cs) views resolved bs =
     (case (mc_ours c, mc_theirs c) of
        (Some oe, Some te) \<Rightarrow>
          (case read_sides env bs c oe te of
             Inl e \<Rightarrow> (Inl e, bs)
           | Inr (base_b, ours_b, theirs_b) \<Rightarrow>
              (case merge_content mergers base_b ours_b theirs_b of
                 Clean b \<Rightarrow>
                   (case put_file env bs b of
                      (e, bs') \<Rightarrow> reconcile env ser mergers cs views
                        (resolved @ [(components_of (mc_path c), Some e)]) bs')
               | ContentConflict cc \<Rightarrow>
                   reconcile env ser mergers cs (views @ [view_of env ser c (kind_str (cc_kind cc)) cc]) resolved bs))
      | _ \<Rightarrow> reconcile env ser mergers cs
               (views @ [view_of env ser c ''modify/delete'' (binary_conflict Binary)]) resolved bs)"

definition load_id :: "string \<Rightarrow> hash result" where
  "load_id h = parse_or ''invalid CA id: '' h"

definition fs_merge ::
  "nat \<Rightarrow> fs_env \<Rightarrow> (entry \<Rightarrow> bytes option) \<Rightarrow> diffy \<Rightarrow> 's snapshots \<Rightarrow> string \<Rightarrow> string \<Rightarrow> string option \<Rightarrow> preference \<Rightarrow> blobs
   \<Rightarrow> (merge_answer result \<times> blobs) option" where
  "fs_merge fuel env ser dy sn ours theirs base pref bs =
     (case sn_gate sn ''merge'' None None of
        Inl e \<Rightarrow> Some (Inl e, bs)
      | Inr _ \<Rightarrow>
       if \<not> sn_has_store sn then Some (Inl (Err ''fs snapshots are not configured on this server''), bs)
       else (case (case base of None \<Rightarrow> Inr None | Some b \<Rightarrow> (case load_id b of Inl e \<Rightarrow> Inl e | Inr h \<Rightarrow> Inr (Some h))) of
          Inl e \<Rightarrow> Some (Inl e, bs)
        | Inr base_root \<Rightarrow>
         (case load_id ours of
            Inl e \<Rightarrow> Some (Inl e, bs)
          | Inr our_root \<Rightarrow>
           (case load_id theirs of
              Inl e \<Rightarrow> Some (Inl e, bs)
            | Inr their_root \<Rightarrow>
             (case merge_trees fuel env bs base_root (Some our_root) (Some their_root) pref of
                None \<Rightarrow> None
              | Some (Inl e, bs1) \<Rightarrow> Some (Inl (with_context ''fs_merge: '' e), bs1)
              | Some (Inr (merged_root, conflicts), bs1) \<Rightarrow>
                 (case reconcile env ser (default_mergers dy) conflicts [] [] bs1 of
                    (Inl e, bs2) \<Rightarrow> Some (Inl e, bs2)
                  | (Inr (views, resolved), bs2) \<Rightarrow>
                     (if views \<noteq> [] then Some (Inr (MergeConflicts views), bs2)
                      else if resolved = [] then Some (Inr (Merged (ca_to_hex merged_root)), bs2)
                      else (case build_root env bs2 (Some merged_root) resolved of
                              (Inl e, bs3) \<Rightarrow> Some (Inl (with_context ''fs_merge: store result: '' e), bs3)
                            | (Inr final_root, bs3) \<Rightarrow> Some (Inr (Merged (ca_to_hex final_root)), bs3)))))))))"

section \<open>Hex\<close>

lemma radix16_digits: "a < 16 \<Longrightarrow> b < 16 \<Longrightarrow> radix16 (hex_digit a) (hex_digit b) = Some (of_nat (16 * a + b)) \<and> is_hexdigit (hex_digit a)"
proof -
  assume ab: "a < 16" "b < 16"
  have d: "digit_value (hex_digit n) = Some n \<and> hex_digit n \<noteq> CHR ''+''" if "n < 16" for n
  proof -
    from that have "n \<in> {0,1,2,3,4,5,6,7,8,9,10,11,12,13,14,15}" by (auto simp: less_Suc_eq numeral_eq_Suc)
    then show ?thesis by (auto simp: hex_digit_def digit_value_def)
  qed
  from d [OF ab(1)] d [OF ab(2)] show ?thesis by (simp add: radix16_def is_hexdigit_def)
qed

lemma hex_length [simp]: "length (hex bs) = 2 * length bs"
  by (induction bs) simp_all

lemma hex_pairs_hex: "hex_pairs (hex bs) = Some bs \<and> list_all is_hexdigit (hex bs)"
proof (induction bs)
  case (Cons b bs)
  have r: "unat b div 16 < 16" "unat b mod 16 < 16" using byte_less [of b] by (simp_all add: less_mult_imp_div_less)
  have "16 * (unat b div 16) + unat b mod 16 = unat b" by simp
  with radix16_digits [OF r] radix16_digits [OF r(2,2)] Cons show ?case by simp
qed simp

section \<open>Reconciliation\<close>

lemma read_chunks_mono: "read_chunks env bs hs = Inr b \<Longrightarrow> bs \<subseteq>\<^sub>m bs' \<Longrightarrow> read_chunks env bs' hs = Inr b"
proof (induction hs arbitrary: b)
  case (Cons h hs)
  then obtain x where x: "bs (chunk_key h) = Some x" by (auto split: option.splits)
  with Cons.prems(2) have "bs' (chunk_key h) = Some x" unfolding map_le_def by (metis domI)
  with Cons x show ?case by (auto split: sum.splits)
qed simp

lemma read_file_mono: "read_file env bs e = Inr b \<Longrightarrow> bs \<subseteq>\<^sub>m bs' \<Longrightarrow> read_file env bs' e = Inr b"
  by (cases "content_of e") (simp_all add: read_file_def read_chunks_mono [of env bs _ b bs'])

lemma read_base_mono:
  assumes "case be of None \<Rightarrow> base_b = None | Some be \<Rightarrow> map_option Inr base_b = Some (read_file env bs be)" and "bs \<subseteq>\<^sub>m bs'"
  shows "case be of None \<Rightarrow> base_b = None | Some be \<Rightarrow> map_option Inr base_b = Some (read_file env bs' be)"
proof (cases be)
  case (Some x)
  with assms(1) obtain b where b: "base_b = Some b" "read_file env bs x = Inr b" by (cases base_b) auto
  from read_file_mono [OF b(2) assms(2)] Some b(1) show ?thesis by simp
qed (use assms(1) in simp)

text \<open>A conflict that the content merge resolved, and the entry that stands for it.\<close>

definition reconciled :: "fs_env \<Rightarrow> content_merger list \<Rightarrow> blobs \<Rightarrow> merge_conflict \<Rightarrow> change \<Rightarrow> bool" where
  "reconciled env mergers bs c ch \<longleftrightarrow>
     (\<exists>oe te base_b ours_b theirs_b b e. mc_ours c = Some oe \<and> mc_theirs c = Some te
        \<and> read_file env bs oe = Inr ours_b \<and> read_file env bs te = Inr theirs_b
        \<and> (case mc_base c of None \<Rightarrow> base_b = None | Some be \<Rightarrow> map_option Inr base_b = Some (read_file env bs be))
        \<and> merge_content mergers base_b ours_b theirs_b = Clean b
        \<and> ch = (components_of (mc_path c), Some e) \<and> read_file env bs e = Inr b)"

lemma reconciled_mono:
  assumes "reconciled env ms bs c ch" and le: "bs \<subseteq>\<^sub>m bs'"
  shows "reconciled env ms bs' c ch"
proof -
  from assms(1) obtain oe te base_b ours_b theirs_b b e where *: "mc_ours c = Some oe" "mc_theirs c = Some te"
    "read_file env bs oe = Inr ours_b" "read_file env bs te = Inr theirs_b"
    "case mc_base c of None \<Rightarrow> base_b = None | Some be \<Rightarrow> map_option Inr base_b = Some (read_file env bs be)"
    "merge_content ms base_b ours_b theirs_b = Clean b" "ch = (components_of (mc_path c), Some e)" "read_file env bs e = Inr b"
    unfolding reconciled_def by blast
  have "case mc_base c of None \<Rightarrow> base_b = None | Some be \<Rightarrow> map_option Inr base_b = Some (read_file env bs' be)"
    by (rule read_base_mono [OF *(5) le])
  with * read_file_mono [OF _ le] show ?thesis unfolding reconciled_def by blast
qed

lemma read_sides_ok:
  assumes "read_sides env bs c oe te = Inr (base_b, ours_b, theirs_b)"
  shows "read_file env bs oe = Inr ours_b" "read_file env bs te = Inr theirs_b"
    "case mc_base c of None \<Rightarrow> base_b = None | Some be \<Rightarrow> map_option Inr base_b = Some (read_file env bs be)"
  using assms by (auto simp: read_sides_def read_side_def split: sum.splits option.splits)

lemma reconcile_ok:
  assumes env: "content_env_ok env"
  shows "chunks_addressed env bs \<Longrightarrow> reconcile env ser ms cs views resolved bs = (Inr (views', resolved'), bs') \<Longrightarrow>
    chunks_added env bs bs' \<and> (views' = [] \<longrightarrow> views = []
      \<and> (\<exists>chs. resolved' = resolved @ chs \<and> list_all2 (reconciled env ms bs') cs chs))"
proof (induction cs arbitrary: views resolved bs)
  case Nil
  then show ?case by (simp add: chunks_added_refl)
next
  case (Cons c cs)
  have skip: ?case if "reconcile env ser ms cs (views @ [v]) resolved bs = (Inr (views', resolved'), bs')" for v
    using Cons.IH [OF Cons.prems(1) that] by auto
  show ?case
  proof (cases "\<exists>oe te. mc_ours c = Some oe \<and> mc_theirs c = Some te")
    case False
    then have "reconcile env ser ms cs (views @ [view_of env ser c ''modify/delete'' (binary_conflict Binary)]) resolved bs
        = (Inr (views', resolved'), bs')"
      using Cons.prems(2) by (auto split: option.splits)
    then show ?thesis by (rule skip)
  next
    case True
    then obtain oe te where side: "mc_ours c = Some oe" "mc_theirs c = Some te" by blast
    obtain base_b ours_b theirs_b where rs: "read_sides env bs c oe te = Inr (base_b, ours_b, theirs_b)"
      using Cons.prems(2) side by (auto split: sum.splits)
    show ?thesis
    proof (cases "merge_content ms base_b ours_b theirs_b")
      case (ContentConflict cc)
      then have "reconcile env ser ms cs (views @ [view_of env ser c (kind_str (cc_kind cc)) cc]) resolved bs
          = (Inr (views', resolved'), bs')"
        using Cons.prems(2) side rs by simp
      then show ?thesis by (rule skip)
    next
      case (Clean b)
      obtain e bs1 where put: "put_file env bs b = (e, bs1)" by fastforce
      note p = put_file_ok [OF env Cons.prems(1) put]
      have rest: "reconcile env ser ms cs views (resolved @ [(components_of (mc_path c), Some e)]) bs1 = (Inr (views', resolved'), bs')"
        using Cons.prems(2) side rs Clean put by simp
      have "chunks_addressed env bs1" using p by (simp add: chunks_added_def)
      note IH = Cons.IH [OF this rest]
      have le: "bs \<subseteq>\<^sub>m bs1" "bs1 \<subseteq>\<^sub>m bs'" using p IH by (simp_all add: chunks_added_def)
      have "reconciled env ms bs1 c (components_of (mc_path c), Some e)"
      proof -
        have "read_file env bs1 oe = Inr ours_b" "read_file env bs1 te = Inr theirs_b"
          using read_sides_ok(1,2) [OF rs] read_file_mono [OF _ le(1)] by blast+
        moreover have "case mc_base c of None \<Rightarrow> base_b = None | Some be \<Rightarrow> map_option Inr base_b = Some (read_file env bs1 be)"
          by (rule read_base_mono [OF read_sides_ok(3) [OF rs] le(1)])
        ultimately show ?thesis unfolding reconciled_def using side Clean p by blast
      qed
      from reconciled_mono [OF this le(2)] IH chunks_added_trans [of env bs bs1 bs'] p show ?thesis by auto
    qed
  qed
qed

section \<open>Chunks under a merge of trees\<close>

text \<open>Merging trees writes tree nodes only.\<close>

lemma store_node_chunks: "store_node env bs n = (r, bs') \<Longrightarrow> bs' (chunk_key h) = bs (chunk_key h)"
  by (auto simp: store_node_def split: sum.splits)

lemma merge_names_chunks:
  assumes "\<And>bs b ours theirs prefix r bs'. rec bs b ours theirs prefix = Some (r, bs') \<Longrightarrow> bs' (chunk_key h) = bs (chunk_key h)"
  shows "merge_names rec pref prefix bn yn tn names bs out cs = Some (r, bs') \<Longrightarrow> bs' (chunk_key h) = bs (chunk_key h)"
proof (induction names arbitrary: bs out cs)
  case (Cons name names)
  define merged where "merged = (if tc_dir (child_of yn name) = tc_dir (child_of tn name) then Some (Inr (tc_dir (child_of yn name), []), bs)
     else if tc_dir (child_of bn name) = tc_dir (child_of yn name) then Some (Inr (tc_dir (child_of tn name), []), bs)
     else if tc_dir (child_of bn name) = tc_dir (child_of tn name) then Some (Inr (tc_dir (child_of yn name), []), bs)
     else rec bs (tc_dir (child_of bn name)) (tc_dir (child_of yn name)) (tc_dir (child_of tn name)) (prefix @ [name]))"
  have step: "bs1 (chunk_key h) = bs (chunk_key h)" if "merged = Some (x, bs1)" for x bs1
    using that assms unfolding merged_def by (auto split: if_splits)
  show ?case
    using Cons step unfolding merge_names.simps Let_def merged_def [symmetric]
    by (auto split: option.splits sum.splits prod.splits)
qed simp

lemma merge_node_chunks:
  "merge_node fuel env pref bs base ours theirs prefix = Some (r, bs') \<Longrightarrow> bs' (chunk_key h) = bs (chunk_key h)"
proof (induction fuel arbitrary: bs base ours theirs prefix r bs')
  case (Suc fuel)
  have names: "bs' (chunk_key h) = bs (chunk_key h)"
    if "merge_names (merge_node fuel env pref) pref prefix bn yn tn ns bs out cs = Some (r, bs')" for bn yn tn ns bs out cs r bs' prefix
    by (rule merge_names_chunks [OF _ that]) (rule Suc.IH)
  from Suc.prems show ?case
    by (auto dest!: names store_node_chunks [where h = h] split: if_splits sum.splits option.splits prod.splits)
qed simp

lemma merge_trees_chunks:
  "merge_trees fuel env bs base ours theirs pref = Some (r, bs') \<Longrightarrow> bs' (chunk_key h) = bs (chunk_key h)"
  by (auto simp: merge_trees_def dest!: merge_node_chunks [where h = h] store_node_chunks [where h = h]
      split: option.splits sum.splits prod.splits)

section \<open>The merge of two snapshots\<close>

lemma updated_map:
  "distinct (map fst chs) \<Longrightarrow> updated chs f p = (case map_of chs p of None \<Rightarrow> f p | Some v \<Rightarrow> v)"
proof (induction chs)
  case (Cons ch chs)
  have "updated (ch # chs) f p = (if filter (\<lambda>c. fst c = p) chs = [] then (if fst ch = p then snd ch else f p) else updated chs f p)"
    by (auto simp: updated_def split: list.splits)
  moreover have "filter (\<lambda>c. fst c = p) chs = [] \<longleftrightarrow> map_of chs p = None"
    by (force simp: filter_empty_conv map_of_eq_None_iff)
  moreover have "fst ch = p \<Longrightarrow> map_of chs p = None" using Cons.prems by (auto simp: map_of_eq_None_iff)
  ultimately show ?case using Cons.IH Cons.prems by (cases ch) (cases "map_of chs p"; auto)
qed simp

text \<open>
  \<open>merged_view\<close>: every path decided by the rule, and an undecided one by the content merge of the
  two sides, whose bytes are what the new entry reads as.
\<close>

definition merged_view ::
  "fs_env \<Rightarrow> content_merger list \<Rightarrow> preference \<Rightarrow> (string list \<Rightarrow> entry option) \<Rightarrow> (string list \<Rightarrow> entry option)
   \<Rightarrow> (string list \<Rightarrow> entry option) \<Rightarrow> blobs \<Rightarrow> hash \<Rightarrow> bool" where
  "merged_view env ms pref fb fo ft bs h \<longleftrightarrow> (\<forall>p. p \<noteq> [] \<longrightarrow>
     (case decide_file (fb p) (fo p) (ft p) pref of
        Take f \<Rightarrow> look env bs (Some h) p = f
      | Conflict \<Rightarrow> (\<exists>e. look env bs (Some h) p = Some e
          \<and> reconciled env ms bs \<lparr>mc_path = path_of p, mc_base = fb p, mc_ours = fo p, mc_theirs = ft p\<rparr> (p, Some e))))"

lemma reconciled_fst: "reconciled env ms bs c ch \<Longrightarrow> fst ch = components_of (mc_path c)"
  by (auto simp: reconciled_def)

lemma reconciled_all:
  assumes chs: "list_all2 (reconciled env ms bs) cs chs"
    and cs: "set cs = conflicts_of pref [] fb fo ft" "sorted_wrt (<) (map mc_path cs)"
  shows "distinct (map fst chs)"
    and "decide_file (fb p) (fo p) (ft p) pref = Conflict \<Longrightarrow> \<exists>e. map_of chs p = Some (Some e)
      \<and> reconciled env ms bs \<lparr>mc_path = path_of p, mc_base = fb p, mc_ours = fo p, mc_theirs = ft p\<rparr> (p, Some e)"
    and "decide_file (fb p) (fo p) (ft p) pref \<noteq> Conflict \<Longrightarrow> map_of chs p = None"
proof -
  have paths: "map fst chs = map (\<lambda>c. components_of (mc_path c)) cs"
    using chs by (induction rule: list_all2_induct) (simp_all add: reconciled_fst)
  have in_cs: "\<exists>q. mc_path c = path_of q \<and> decide_file (fb q) (fo q) (ft q) pref = Conflict" if "c \<in> set cs" for c
    using that unfolding cs(1) conflicts_of_def by force
  have "distinct (map mc_path cs)" using cs(2) by (simp add: strict_sorted_iff)
  moreover have "inj_on components_of (mc_path ` set cs)"
  proof (rule inj_onI)
    fix x y
    assume "x \<in> mc_path ` set cs" "y \<in> mc_path ` set cs" "components_of x = components_of y"
    then show "x = y" using in_cs by (metis (no_types, lifting) components_of_path_of imageE)
  qed
  ultimately show d: "distinct (map fst chs)"
    unfolding paths by (auto simp: distinct_map comp_def inj_on_def)
  show "map_of chs p = None" if "decide_file (fb p) (fo p) (ft p) pref \<noteq> Conflict"
  proof -
    have "p \<notin> set (map fst chs)" unfolding paths using in_cs that by force
    then show ?thesis by (simp add: map_of_eq_None_iff)
  qed
  show "\<exists>e. map_of chs p = Some (Some e)
      \<and> reconciled env ms bs \<lparr>mc_path = path_of p, mc_base = fb p, mc_ours = fo p, mc_theirs = ft p\<rparr> (p, Some e)"
    if "decide_file (fb p) (fo p) (ft p) pref = Conflict"
  proof -
    let ?c = "\<lparr>mc_path = path_of p, mc_base = fb p, mc_ours = fo p, mc_theirs = ft p\<rparr>"
    have "?c \<in> set cs" using that unfolding cs(1) conflicts_of_def by auto
    then obtain i where i: "i < length cs" "cs ! i = ?c" by (auto simp: in_set_conv_nth)
    with chs have r: "reconciled env ms bs ?c (chs ! i)" "i < length chs" by (auto simp: list_all2_conv_all_nth)
    from r(1) obtain e where e: "chs ! i = (p, Some e)" by (auto simp: reconciled_def)
    with r(2) have "(p, Some e) \<in> set chs" by (metis nth_mem)
    with d have "map_of chs p = Some (Some e)" by simp
    with r e show ?thesis by auto
  qed
qed

lemma fs_merge_done:
  assumes env: "env_ok env" "content_env_ok env" and ad: "chunks_addressed env bs"
    and ids: "parse_ca_hex ours = Some ho" "parse_ca_hex theirs = Some ht"
      "case base of None \<Rightarrow> hb = None | Some b \<Rightarrow> hb = parse_ca_hex b \<and> hb \<noteq> None"
    and mt: "merge_trees fuel env bs hb (Some ho) (Some ht) pref = Some (Inr (mr, cs), bs1)"
    and m: "bs \<subseteq>\<^sub>m bs1" "addressed env bs1" "solid env bs1 mr"
      "merged_as env pref [] (look env bs hb) (look env bs (Some ho)) (look env bs (Some ht)) (Some mr) cs bs1"
    and merged: "fs_merge fuel env ser dy sn ours theirs base pref bs = Some (Inr (Merged x), bs')"
  shows "\<exists>h. x = ca_to_hex h \<and> solid env bs' h
    \<and> merged_view env (default_mergers dy) pref (look env bs hb) (look env bs (Some ho)) (look env bs (Some ht)) bs' h"
proof -
  let ?ms = "default_mergers dy" and ?fb = "look env bs hb" and ?fo = "look env bs (Some ho)" and ?ft = "look env bs (Some ht)"
  have load: "load_id ours = Inr ho" "load_id theirs = Inr ht"
    "(case base of None \<Rightarrow> Inr None | Some b \<Rightarrow> (case load_id b of Inl e \<Rightarrow> Inl e | Inr h \<Rightarrow> Inr (Some h))) = Inr hb"
    using ids by (auto simp: load_id_def parse_or_def split: option.splits)
  have ca1: "chunks_addressed env bs1" using ad merge_trees_chunks [OF mt] by (simp add: chunks_addressed_def)
  from merged load mt obtain views resolved bs2 where rc: "reconcile env ser ?ms cs [] [] bs1 = (Inr (views, resolved), bs2)"
    by (auto simp: fs_merge_def split: sum.splits if_splits option.splits prod.splits)
  have views: "views = []" using merged load mt rc by (auto simp: fs_merge_def split: sum.splits if_splits)
  from reconcile_ok [OF env(2) ca1 rc] views obtain chs where ch: "chunks_added env bs1 bs2" "resolved = chs"
    "list_all2 (reconciled env ?ms bs2) cs chs" by auto
  have le2: "bs1 \<subseteq>\<^sub>m bs2" and ad2: "addressed env bs2" using ch(1) m(2) by (auto simp: chunks_added_def addressed_def)
  have s2: "solid env bs2 mr" using solid_mono [OF m(3) le2] by simp
  have look2: "look env bs2 (Some mr) p = taken pref (?fb p) (?fo p) (?ft p)" if "p \<noteq> []" for p
    using that m(3,4) look_mono [of env bs1 "Some mr" bs2 p] le2 by (simp add: merged_as_def root_solid_def)
  have ma: "set cs = conflicts_of pref [] ?fb ?fo ?ft" "sorted_wrt (<) (map mc_path cs)" using m(4) by (simp_all add: merged_as_def)
  note all = reconciled_all [OF ch(3) ma]
  have "merged_view env ?ms pref ?fb ?fo ?ft bs3 h" if h: "\<And>p. p \<noteq> [] \<Longrightarrow> look env bs3 (Some h) p = updated chs (look env bs2 (Some mr)) p"
    and le: "bs2 \<subseteq>\<^sub>m bs3" for bs3 h
    unfolding merged_view_def
  proof (intro allI impI)
    fix p :: "string list"
    assume p: "p \<noteq> []"
    note upd = h [OF p] updated_map [OF all(1)]
    show "case decide_file (?fb p) (?fo p) (?ft p) pref of
        Take f \<Rightarrow> look env bs3 (Some h) p = f
      | Conflict \<Rightarrow> (\<exists>e. look env bs3 (Some h) p = Some e
          \<and> reconciled env ?ms bs3 \<lparr>mc_path = path_of p, mc_base = ?fb p, mc_ours = ?fo p, mc_theirs = ?ft p\<rparr> (p, Some e))"
    proof (cases "decide_file (?fb p) (?fo p) (?ft p) pref")
      case (Take f)
      with all(3) [of p] upd look2 [OF p] show ?thesis by (simp add: taken_def)
    next
      case Conflict
      with all(2) [of p] upd reconciled_mono [OF _ le] show ?thesis by fastforce
    qed
  qed
  note view = this
  show ?thesis
  proof (cases "resolved = []")
    case True
    then have "x = ca_to_hex mr" "bs' = bs2" using merged load mt rc views by (auto simp: fs_merge_def split: sum.splits if_splits)
    with view [of bs2 mr] True ch(2) s2 show ?thesis by auto
  next
    case False
    have "root_solid env bs2 (Some mr)" using s2 by (simp add: root_solid_def)
    from build_root_ex [OF env(1) ad2 this, of resolved] obtain h bs3 where b:
      "build_root env bs2 (Some mr) resolved = (Inr h, bs3)" "bs2 \<subseteq>\<^sub>m bs3" "addressed env bs3" "solid env bs3 h"
      "\<And>p. p \<noteq> [] \<Longrightarrow> look env bs3 (Some h) p = updated resolved (look env bs2 (Some mr)) p" by blast
    with merged load mt rc views False have "x = ca_to_hex h" "bs' = bs3" by (auto simp: fs_merge_def split: sum.splits if_splits)
    with view [of bs3 h] b ch(2) show ?thesis by auto
  qed
qed

lemma fs_merge_ok:
  assumes env: "env_ok env" "content_env_ok env" and ad: "addressed env bs" "chunks_addressed env bs"
    and ids: "parse_ca_hex ours = Some ho" "parse_ca_hex theirs = Some ht"
      "case base of None \<Rightarrow> hb = None | Some b \<Rightarrow> hb = parse_ca_hex b \<and> hb \<noteq> None"
    and solid: "solid env bs ho" "solid env bs ht" "root_solid env bs hb"
  shows "\<exists>n. \<forall>fuel > n. fs_merge fuel env ser dy sn ours theirs base pref bs \<noteq> None
    \<and> (\<forall>x bs'. fs_merge fuel env ser dy sn ours theirs base pref bs = Some (Inr (Merged x), bs') \<longrightarrow>
        (\<exists>h. x = ca_to_hex h \<and> solid env bs' h
          \<and> merged_view env (default_mergers dy) pref (look env bs hb) (look env bs (Some ho)) (look env bs (Some ht)) bs' h))"
proof -
  have roots: "root_solid env bs (Some ho)" "root_solid env bs (Some ht)" using solid by (simp_all add: root_solid_def)
  from merge_trees_ok [OF env(1) ad(1) solid(3) roots, of pref] obtain n where n: "\<And>fuel. fuel > n \<Longrightarrow>
      \<exists>h cs bs'. merge_trees fuel env bs hb (Some ho) (Some ht) pref = Some (Inr (h, cs), bs')
    \<and> bs \<subseteq>\<^sub>m bs' \<and> addressed env bs' \<and> solid env bs' h
    \<and> merged_as env pref [] (look env bs hb) (look env bs (Some ho)) (look env bs (Some ht)) (Some h) cs bs'" by blast
  have load: "load_id ours = Inr ho" "load_id theirs = Inr ht"
    "(case base of None \<Rightarrow> Inr None | Some b \<Rightarrow> (case load_id b of Inl e \<Rightarrow> Inl e | Inr h \<Rightarrow> Inr (Some h))) = Inr hb"
    using ids by (auto simp: load_id_def parse_or_def split: option.splits)
  show ?thesis
  proof (intro exI [of _ n] allI impI)
    fix fuel
    assume "n < fuel"
    from n [OF this] obtain mr cs bs1 where mt: "merge_trees fuel env bs hb (Some ho) (Some ht) pref = Some (Inr (mr, cs), bs1)"
      and m: "bs \<subseteq>\<^sub>m bs1" "addressed env bs1" "solid env bs1 mr"
        "merged_as env pref [] (look env bs hb) (look env bs (Some ho)) (look env bs (Some ht)) (Some mr) cs bs1" by blast
    have "fs_merge fuel env ser dy sn ours theirs base pref bs \<noteq> None"
      using load mt by (auto simp: fs_merge_def split: sum.splits prod.splits)
    with fs_merge_done [OF env ad(2) ids mt m] show "fs_merge fuel env ser dy sn ours theirs base pref bs \<noteq> None
      \<and> (\<forall>x bs'. fs_merge fuel env ser dy sn ours theirs base pref bs = Some (Inr (Merged x), bs') \<longrightarrow>
        (\<exists>h. x = ca_to_hex h \<and> solid env bs' h
          \<and> merged_view env (default_mergers dy) pref (look env bs hb) (look env bs (Some ho)) (look env bs (Some ht)) bs' h))" by blast
  qed
qed

end
