(* ===== verification/Fs_Gc.thy ===== *)
theory Fs_Gc
  imports Fs_View Fs_Files Fs_Labels
begin

text \<open>
  Mark-and-sweep garbage collection (\<open>src/server/src/engine/fs_gc.rs\<close>): the roots are the heads of all
  labels and the retained reflog entries, marking walks the trees from them, and sweeping deletes the
  filesystem blobs that were not marked. The \<open>HashSet\<close>s are lists; what the backend's \<open>list\<close> and
  \<open>delete\<close> answer is the record \<open>blob_backend\<close>.
\<close>

section \<open>Collection\<close>

datatype reflog_retention = KeepAll | KeepLast nat

record gc_stats =
  gc_roots :: nat
  gc_marked :: nat
  gc_deleted :: nat

record blob_backend =
  be_list :: "string list result"
  be_delete_error :: "string \<Rightarrow> string option"

definition is_fs_blob :: "string \<Rightarrow> bool" where
  "is_fs_blob key \<longleftrightarrow> starts_with key ''fschunk:'' \<or> starts_with key ''fstree:'' \<or> starts_with key ''fsmanifest:''"

text \<open>The body of the loop over the children of a node.\<close>

definition mark_child :: "tree_child \<Rightarrow> hash list \<times> string list \<Rightarrow> hash list \<times> string list" where
  "mark_child child acc =
     (let marked = (case tc_file child of
                      None \<Rightarrow> snd acc
                    | Some e \<Rightarrow> (case content_of e of
                                   Inline _ \<Rightarrow> snd acc
                                 | Chunks hs \<Rightarrow> fold (\<lambda>h. List.insert (chunk_key h)) hs (snd acc)));
          stack = (case tc_dir child of None \<Rightarrow> fst acc | Some d \<Rightarrow> d # fst acc)
      in (stack, marked))"

fun mark_loop :: "nat \<Rightarrow> fs_env \<Rightarrow> blobs \<Rightarrow> hash list \<Rightarrow> string list \<Rightarrow> string list option" where
  "mark_loop fuel env bs [] marked = Some marked"
| "mark_loop 0 env bs (h # stack) marked = None"
| "mark_loop (Suc fuel) env bs (h # stack) marked =
     (if tree_key h \<in> set marked then mark_loop fuel env bs stack marked
      else case fetch env bs h of
             Inl _ \<Rightarrow> mark_loop fuel env bs stack (List.insert (tree_key h) marked)
           | Inr node \<Rightarrow>
               (case fold mark_child (btm_values (children node)) (stack, List.insert (tree_key h) marked) of
                  (stack', marked') \<Rightarrow> mark_loop fuel env bs stack' marked'))"

definition mark_tree :: "nat \<Rightarrow> fs_env \<Rightarrow> blobs \<Rightarrow> hash \<Rightarrow> string list \<Rightarrow> string list option" where
  "mark_tree fuel env bs i marked = mark_loop fuel env bs [i] marked"

fun mark_roots :: "nat \<Rightarrow> fs_env \<Rightarrow> blobs \<Rightarrow> hash list \<Rightarrow> string list \<Rightarrow> string list option" where
  "mark_roots fuel env bs [] marked = Some marked"
| "mark_roots fuel env bs (r # rs) marked =
     (case mark_tree fuel env bs r marked of None \<Rightarrow> None | Some marked' \<Rightarrow> mark_roots fuel env bs rs marked')"

definition retained :: "reflog_retention \<Rightarrow> 'a list \<Rightarrow> 'a list" where
  "retained r log = (case r of KeepAll \<Rightarrow> log | KeepLast n \<Rightarrow> drop (length log - n) log)"

text \<open>The roots: every head, and every retained entry's resulting snapshot.\<close>

fun gather_roots ::
  "'s label_store \<Rightarrow> reflog_retention \<Rightarrow> (string \<times> hash) list \<Rightarrow> hash list \<Rightarrow> 's \<Rightarrow> hash list result \<times> 's" where
  "gather_roots ls r [] roots s = (Inr roots, s)"
| "gather_roots ls r ((name, head) # rest) roots s =
     bind_st (label_log ls name s)
       (\<lambda>log s. gather_roots ls r rest
          (fold (\<lambda>e. List.insert (rl_to e)) (retained r log) (List.insert head roots)) s)"

text \<open>The sweep; the count of the deleted blobs, and the backend after it.\<close>

fun sweep :: "blob_backend \<Rightarrow> string list \<Rightarrow> string list \<Rightarrow> nat \<Rightarrow> blobs \<Rightarrow> nat result \<times> blobs" where
  "sweep be marked [] deleted bs = (Inr deleted, bs)"
| "sweep be marked (key # keys) deleted bs =
     (if \<not> is_fs_blob key then sweep be marked keys deleted bs
      else if key \<notin> set marked
      then (case be_delete_error be key of
              Some e \<Rightarrow> (Inl (Err (''gc delete '' @ key @ '': '' @ e)), bs)
            | None \<Rightarrow> sweep be marked keys (deleted + 1) (bs(key := None)))
      else sweep be marked keys deleted bs)"

definition collect ::
  "nat \<Rightarrow> fs_env \<Rightarrow> blob_backend \<Rightarrow> 's label_store \<Rightarrow> reflog_retention \<Rightarrow> blobs \<Rightarrow> 's
   \<Rightarrow> (gc_stats result \<times> blobs \<times> 's) option" where
  "collect fuel env be ls r bs s =
     (case label_list ls s of
        (Inl e, s1) \<Rightarrow> Some (Inl e, bs, s1)
      | (Inr heads, s1) \<Rightarrow>
         (case gather_roots ls r heads [] s1 of
            (Inl e, s2) \<Rightarrow> Some (Inl e, bs, s2)
          | (Inr roots, s2) \<Rightarrow>
             (case mark_roots fuel env bs roots [] of
                None \<Rightarrow> None
              | Some marked \<Rightarrow>
                 (case be_list be of
                    Inl e \<Rightarrow> Some (Inl e, bs, s2)
                  | Inr keys \<Rightarrow>
                     (case sweep be marked keys 0 bs of
                        (Inl e, bs') \<Rightarrow> Some (Inl e, bs', s2)
                      | (Inr n, bs') \<Rightarrow>
                          Some (Inr \<lparr>gc_roots = length roots, gc_marked = length marked, gc_deleted = n\<rparr>, bs', s2))))))"

section \<open>Reachability\<close>

inductive reach :: "fs_env \<Rightarrow> blobs \<Rightarrow> hash set \<Rightarrow> hash \<Rightarrow> bool" for env bs roots where
  reach_root: "h \<in> roots \<Longrightarrow> reach env bs roots h"
| reach_dir: "reach env bs roots h \<Longrightarrow> fetch env bs h = Inr node \<Longrightarrow> (name, c) \<in> set (children node)
    \<Longrightarrow> tc_dir c = Some d \<Longrightarrow> reach env bs roots d"

text \<open>The chunks of the files of a node.\<close>

definition node_chunks :: "tree_node \<Rightarrow> hash set" where
  "node_chunks node = {h. \<exists>name c e hs. (name, c) \<in> set (children node) \<and> tc_file c = Some e
     \<and> content_of e = Chunks hs \<and> h \<in> set hs}"

definition node_dirs :: "tree_node \<Rightarrow> hash set" where
  "node_dirs node = {d. \<exists>name c. (name, c) \<in> set (children node) \<and> tc_dir c = Some d}"

definition live_keys :: "fs_env \<Rightarrow> blobs \<Rightarrow> hash set \<Rightarrow> string set" where
  "live_keys env bs roots = tree_key ` {h. reach env bs roots h}
     \<union> chunk_key ` {h. \<exists>t node. reach env bs roots t \<and> fetch env bs t = Inr node \<and> h \<in> node_chunks node}"

section \<open>Marking\<close>

lemma set_fold_insert: "set (fold (\<lambda>h. List.insert (f h)) hs xs) = set xs \<union> f ` set hs"
  by (induction hs arbitrary: xs) auto

definition child_chunks :: "tree_child \<Rightarrow> hash set" where
  "child_chunks c = (case tc_file c of None \<Rightarrow> {} | Some e \<Rightarrow> (case content_of e of Inline _ \<Rightarrow> {} | Chunks hs \<Rightarrow> set hs))"

lemma mark_children:
  "fold mark_child cs (stack, marked) = (stack', marked') \<Longrightarrow>
   set stack' = set stack \<union> (\<Union>c \<in> set cs. set_option (tc_dir c))
   \<and> set marked' = set marked \<union> chunk_key ` (\<Union>c \<in> set cs. child_chunks c)"
proof (induction cs arbitrary: stack marked)
  case (Cons c cs)
  obtain stack1 marked1 where m: "mark_child c (stack, marked) = (stack1, marked1)" by fastforce
  then have "set stack1 = set stack \<union> set_option (tc_dir c)" "set marked1 = set marked \<union> chunk_key ` child_chunks c"
    by (auto simp: mark_child_def Let_def child_chunks_def set_fold_insert split: option.splits content.splits)
  with Cons m show ?case by (auto simp: image_Un)
qed simp

lemma node_marks:
  "(\<Union>c \<in> set (btm_values (children node)). set_option (tc_dir c)) = node_dirs node"
  "(\<Union>c \<in> set (btm_values (children node)). child_chunks c) = node_chunks node"
  unfolding node_dirs_def node_chunks_def child_chunks_def
  by (force split: option.splits content.splits)+

text \<open>The loop keeps: a marked node has its chunks marked and its directories marked or on the stack.\<close>

definition mark_inv :: "fs_env \<Rightarrow> blobs \<Rightarrow> hash set \<Rightarrow> hash list \<Rightarrow> string list \<Rightarrow> bool" where
  "mark_inv env bs roots stack marked \<longleftrightarrow>
     (\<forall>h node. tree_key h \<in> set marked \<longrightarrow> fetch env bs h = Inr node \<longrightarrow>
        chunk_key ` node_chunks node \<subseteq> set marked \<and> (\<forall>d \<in> node_dirs node. tree_key d \<in> set marked \<or> d \<in> set stack))
   \<and> set marked \<subseteq> live_keys env bs roots \<and> (\<forall>h \<in> set stack. reach env bs roots h)"

lemma mark_loop_inv:
  "mark_loop fuel env bs stack marked = Some marked' \<Longrightarrow> mark_inv env bs roots stack marked \<Longrightarrow>
   mark_inv env bs roots [] marked' \<and> set marked \<subseteq> set marked' \<and> tree_key ` set stack \<subseteq> set marked'"
proof (induction fuel env bs stack marked rule: mark_loop.induct)
  case (3 fuel env bs h stack marked)
  show ?case
  proof (cases "tree_key h \<in> set marked")
    case True
    moreover from this have "mark_inv env bs roots stack marked"
      using "3.prems"(2) unfolding mark_inv_def by (auto; metis)
    ultimately show ?thesis using "3.IH"(1) "3.prems"(1) by auto
  next
    case new: False
    have live: "tree_key h \<in> live_keys env bs roots" using "3.prems"(2) by (auto simp: mark_inv_def live_keys_def)
    show ?thesis
    proof (cases "fetch env bs h")
      case (Inl e)
      have "mark_inv env bs roots stack (List.insert (tree_key h) marked)"
        using "3.prems"(2) live Inl unfolding mark_inv_def by (auto; metis)
      with "3.IH"(2) [OF new Inl] "3.prems"(1) new Inl show ?thesis by auto
    next
      case (Inr node)
      obtain stack1 marked1 where m: "fold mark_child (btm_values (children node)) (stack, List.insert (tree_key h) marked) = (stack1, marked1)"
        by fastforce
      from mark_children [OF m] have sets: "set stack1 = set stack \<union> node_dirs node"
        "set marked1 = insert (tree_key h) (set marked) \<union> chunk_key ` node_chunks node"
        by (simp_all only: node_marks set_insert)
      have h: "reach env bs roots h" using "3.prems"(2) by (auto simp: mark_inv_def)
      then have "\<forall>d \<in> node_dirs node. reach env bs roots d"
        using Inr by (auto simp: node_dirs_def intro: reach_dir)
      moreover have "chunk_key ` node_chunks node \<subseteq> live_keys env bs roots"
        using h Inr by (auto simp: live_keys_def)
      ultimately have "mark_inv env bs roots stack1 marked1"
        using "3.prems"(2) live Inr unfolding mark_inv_def sets by (auto; (metis | blast))
      with "3.IH"(3) [OF new Inr m [symmetric]] "3.prems"(1) new Inr m sets show ?thesis by auto
    qed
  qed
qed auto

text \<open>Marking ends: every step pops a node, and pushes only when it marks a stored node for the first time.\<close>

lemma mark_loop_more:
  "mark_loop fuel env bs stack marked = Some marked' \<Longrightarrow> fuel \<le> fuel' \<Longrightarrow> mark_loop fuel' env bs stack marked = Some marked'"
proof (induction fuel env bs stack marked arbitrary: fuel' rule: mark_loop.induct)
  case (3 fuel env bs h stack marked)
  from "3.prems"(2) obtain f where f: "fuel' = Suc f" "fuel \<le> f" by (cases fuel') auto
  with 3 show ?case by (auto split: if_splits sum.splits prod.splits)
qed simp_all

definition unmarked :: "blobs \<Rightarrow> string list \<Rightarrow> string set" where
  "unmarked bs marked = dom bs - set marked"

lemma mark_loop_ends:
  assumes "finite (dom bs)"
  shows "card (unmarked bs marked) \<le> n \<Longrightarrow> \<exists>fuel marked'. mark_loop fuel env bs stack marked = Some marked'"
proof (induction n arbitrary: stack marked rule: less_induct)
  case (less n)
  from less.prems show ?case
  proof (induction stack arbitrary: marked)
    case Nil
    then show ?case by (intro exI [of _ 0]) simp
  next
    case (Cons h stack)
    show ?case
    proof (cases "tree_key h \<in> set marked")
      case True
      from Cons.IH [OF Cons.prems] obtain fuel marked' where "mark_loop fuel env bs stack marked = Some marked'" by blast
      with True show ?thesis by (intro exI [of _ "Suc fuel"]) simp
    next
      case new: False
      show ?thesis
      proof (cases "fetch env bs h")
        case (Inl e)
        have "card (unmarked bs (List.insert (tree_key h) marked)) \<le> card (unmarked bs marked)"
          using assms by (intro card_mono) (auto simp: unmarked_def)
        with Cons obtain fuel marked' where "mark_loop fuel env bs stack (List.insert (tree_key h) marked) = Some marked'"
          by (meson le_trans)
        with new Inl show ?thesis by (intro exI [of _ "Suc fuel"]) simp
      next
        case (Inr node)
        obtain stack1 marked1 where m: "fold mark_child (btm_values (children node)) (stack, List.insert (tree_key h) marked) = (stack1, marked1)"
          by fastforce
        have "tree_key h \<in> dom bs" using Inr by (auto simp: fetch_def split: option.splits)
        moreover have "insert (tree_key h) (set marked) \<subseteq> set marked1" using mark_children [OF m] by auto
        ultimately have "unmarked bs marked1 \<subset> unmarked bs marked" using new by (auto simp: unmarked_def)
        then have "card (unmarked bs marked1) < card (unmarked bs marked)"
          using assms by (intro psubset_card_mono) (auto simp: unmarked_def)
        with Cons.prems have "card (unmarked bs marked1) < n" by simp
        from less.IH [OF this order_refl] obtain fuel marked' where "mark_loop fuel env bs stack1 marked1 = Some marked'" by blast
        with new Inr m show ?thesis by (intro exI [of _ "Suc fuel"]) simp
      qed
    qed
  qed
qed

lemma mark_roots_ok:
  assumes fin: "finite (dom bs)"
  shows "\<exists>k. \<forall>fuel \<ge> k. \<exists>marked'. mark_roots fuel env bs rs marked = Some marked'"
proof (induction rs arbitrary: marked)
  case (Cons r rs)
  from mark_loop_ends [OF fin order_refl, of env "[r]" marked] obtain k1 marked1
    where m1: "mark_loop k1 env bs [r] marked = Some marked1" by blast
  from Cons.IH [of marked1] obtain k2 where k2: "\<And>fuel. k2 \<le> fuel \<Longrightarrow> \<exists>m. mark_roots fuel env bs rs marked1 = Some m" by blast
  have "\<exists>m. mark_roots fuel env bs (r # rs) marked = Some m" if "k1 + k2 \<le> fuel" for fuel
    using mark_loop_more [OF m1, of fuel] k2 [of fuel] that by (simp add: mark_tree_def)
  then show ?case by blast
qed simp

lemma mark_roots_inv:
  "mark_roots fuel env bs rs marked = Some marked' \<Longrightarrow> mark_inv env bs roots [] marked \<Longrightarrow> set rs \<subseteq> roots \<Longrightarrow>
   mark_inv env bs roots [] marked' \<and> set marked \<subseteq> set marked' \<and> tree_key ` set rs \<subseteq> set marked'"
proof (induction rs arbitrary: marked)
  case (Cons r rs)
  then obtain marked1 where m1: "mark_loop fuel env bs [r] marked = Some marked1"
    and rest: "mark_roots fuel env bs rs marked1 = Some marked'" by (auto simp: mark_tree_def split: option.splits)
  have "mark_inv env bs roots [r] marked"
    using Cons.prems(2,3) by (auto simp: mark_inv_def intro: reach_root)
  from mark_loop_inv [OF m1 this] Cons.IH [OF rest] Cons.prems(3) show ?case by auto
qed simp

text \<open>The marked keys are exactly the live ones.\<close>

lemma mark_exact:
  assumes "mark_roots fuel env bs rs [] = Some marked"
  shows "set marked = live_keys env bs (set rs)"
proof -
  have "mark_inv env bs (set rs) [] []" by (simp add: mark_inv_def)
  from mark_roots_inv [OF assms this order_refl] have i: "mark_inv env bs (set rs) [] marked"
    "tree_key ` set rs \<subseteq> set marked" by simp_all
  have tree: "tree_key h \<in> set marked" if "reach env bs (set rs) h" for h
    using that
  proof induction
    case (reach_dir h node name c d)
    then have "d \<in> node_dirs node" by (auto simp: node_dirs_def)
    with i(1) reach_dir show ?case by (auto simp: mark_inv_def)
  qed (use i(2) in auto)
  moreover have "chunk_key h \<in> set marked" if "reach env bs (set rs) t" "fetch env bs t = Inr node" "h \<in> node_chunks node" for h t node
    using i(1) tree [OF that(1)] that(2,3) by (auto simp: mark_inv_def)
  ultimately have "live_keys env bs (set rs) \<subseteq> set marked" by (auto simp: live_keys_def)
  with i(1) show ?thesis by (auto simp: mark_inv_def)
qed

section \<open>Sweeping\<close>

lemma sweep_ok:
  assumes "sweep be marked keys n bs = (r, bs')"
  shows "(\<forall>k. bs' k = bs k \<or> bs' k = None \<and> is_fs_blob k \<and> k \<notin> set marked)
    \<and> (\<forall>d. r = Inr d \<longrightarrow> (\<forall>k \<in> set keys. is_fs_blob k \<and> k \<notin> set marked \<longrightarrow> bs' k = None))"
  using assms
proof (induction be marked keys n bs rule: sweep.induct)
  case (2 be marked key keys deleted bs)
  have mono: "bs'' k = None" if "bs k = None" "sweep be marked keys n bs = (r, bs'')" for r keys n bs bs'' k
    using that by (induction be marked keys n bs rule: sweep.induct) (auto split: if_splits option.splits)
  show ?case
  proof (cases "is_fs_blob key \<and> key \<notin> set marked")
    case True
    show ?thesis
    proof (cases "be_delete_error be key")
      case None
      with True "2.prems" have s: "sweep be marked keys (deleted + 1) (bs(key := None)) = (r, bs')" by simp
      from "2.IH"(2) [OF _ _ None s] True mono [OF _ s, of key] show ?thesis
        by (auto simp: fun_upd_apply split: if_splits; metis)
    qed (use True "2.prems" in auto)
  next
    case False
    with "2.prems" "2.IH"(1,3) show ?thesis by (auto split: if_splits)
  qed
qed auto

lemma sweep_outside: "sweep be marked keys n bs = (r, bs') \<Longrightarrow> k \<notin> set keys \<Longrightarrow> bs' k = bs k"
  by (induction be marked keys n bs rule: sweep.induct) (auto split: if_splits option.splits)

lemma sweep_total: "\<forall>k. be_delete_error be k = None \<Longrightarrow> \<exists>d bs'. sweep be marked keys n bs = (Inr d, bs')"
  by (induction be marked keys n bs rule: sweep.induct) auto

section \<open>Snapshots survive\<close>

text \<open>Two backends that agree on the live keys give the same trees and the same files.\<close>

lemma live_tree: "reach env bs roots h \<Longrightarrow> tree_key h \<in> live_keys env bs roots"
  by (auto simp: live_keys_def)

lemma kept_fetch:
  "(\<And>k. k \<in> live_keys env bs roots \<Longrightarrow> bs' k = bs k) \<Longrightarrow> reach env bs roots h \<Longrightarrow> fetch env bs' h = fetch env bs h"
  by (simp add: fetch_def live_tree)

lemma kept_look:
  assumes kept: "\<And>k. k \<in> live_keys env bs roots \<Longrightarrow> bs' k = bs k"
  shows "reach env bs roots h \<Longrightarrow> look env bs' (Some h) p = look env bs (Some h) p"
proof (induction p arbitrary: h)
  case (Cons name p)
  note f = kept_fetch [OF kept Cons.prems]
  show ?case
  proof (cases "fetch env bs h")
    case (Inr node)
    have "look env bs' (tc_dir c) p = look env bs (tc_dir c) p" if "btm_get (children node) name = Some c" for c
    proof (cases "tc_dir c")
      case (Some d)
      show ?thesis unfolding Some
        by (rule Cons.IH, rule reach_dir [OF Cons.prems Inr map_of_SomeD [OF that] Some])
    qed simp
    with f Inr show ?thesis by (auto split: option.splits)
  qed (simp add: f)
qed simp

lemma look_chunks_live:
  "reach env bs roots h \<Longrightarrow> look env bs (Some h) p = Some e \<Longrightarrow> content_of e = Chunks hs \<Longrightarrow> c \<in> set hs
   \<Longrightarrow> chunk_key c \<in> live_keys env bs roots"
proof (induction p arbitrary: h)
  case (Cons name p)
  from Cons.prems(2) obtain node where f: "fetch env bs h = Inr node" by (auto split: sum.splits)
  then obtain child where child: "btm_get (children node) name = Some child"
    using Cons.prems(2) by (auto split: option.splits)
  note mem = map_of_SomeD [OF child]
  show ?case
  proof (cases "p = []")
    case True
    with Cons.prems(2) f child have "tc_file child = Some e" by simp
    with mem Cons.prems(3,4) have "c \<in> node_chunks node" by (auto simp: node_chunks_def)
    with Cons.prems(1) f show ?thesis by (auto simp: live_keys_def)
  next
    case False
    with Cons.prems(2) f child have l: "look env bs (tc_dir child) p = Some e" by simp
    then obtain d where d: "tc_dir child = Some d" by (cases "tc_dir child") auto
    note d = d l [unfolded d]
    from Cons.IH [OF reach_dir [OF Cons.prems(1) f mem d(1)] d(2) Cons.prems(3,4)] show ?thesis .
  qed
qed simp

lemma kept_read:
  assumes "\<And>hs c. content_of e = Chunks hs \<Longrightarrow> c \<in> set hs \<Longrightarrow> bs' (chunk_key c) = bs (chunk_key c)"
  shows "read_file env bs' e = read_file env bs e"
proof (cases "content_of e")
  case (Chunks hs)
  have "read_chunks env bs' xs = read_chunks env bs xs" if "set xs \<subseteq> set hs" for xs
    using that assms [OF Chunks] by (induction xs) (simp_all cong: sum.case_cong option.case_cong)
  with Chunks show ?thesis by (simp add: read_file_def)
qed (simp add: read_file_def)

end
