(* ===== verification/Label_Props.thy ===== *)
theory Label_Props
  imports Fs_Snapshots Fs_Gc Fs_Props
begin

text \<open>
  The properties of labels, of the snapshot verbs and of garbage collection. They hold for every
  metadata store that keeps the trait's contract (the locale \<open>metadata_store\<close>); the witnesses use the
  sled backend over an in-memory sled.
\<close>

section \<open>A store and a snapshot\<close>

instance ref_op :: countable
  by countable_datatype

instance ref_log_entry_ext :: (countable) countable
  by (rule countable_classI [of "\<lambda>r. to_nat (rl_at r, rl_from r, rl_to r, rl_op r, rl_message r, ref_log_entry.more r)"]) simp

definition unary_json :: ref_json where
  "unary_json = \<lparr>ref_ser = (\<lambda>e. Inr (replicate (to_nat e) CHR ''x'')), ref_de = (\<lambda>s. Inr (from_nat (length s)))\<rparr>"

definition mem_labels :: "mem_db label_store" where
  "mem_labels = \<lparr>ls_db = sled_store mem_sled, ls_cluster = None, ls_json = unary_json\<rparr>"



text \<open>A snapshot with one file, under a 32-byte identifier.\<close>

definition top_node :: tree_node where
  "top_node = \<lparr>children = [(''a'', \<lparr>tc_file = Some (note_entry [1]), tc_dir = None\<rparr>)]\<rparr>"

definition top_bytes :: bytes where "top_bytes = replicate (to_nat top_node) 0"
definition top_id :: hash where "top_id = replicate 32 7"

definition id_env :: fs_env where
  "id_env = plain_env\<lparr>blake3 := (\<lambda>b. if b = top_bytes then top_id else if b = top_id then top_bytes else b)\<rparr>"

definition top_blobs :: blobs where "top_blobs = [tree_key top_id \<mapsto> top_bytes]"

lemma id_env_ok: "env_ok id_env" "content_env_ok id_env"
  by (auto simp: env_ok_def content_env_ok_def id_env_def plain_env_def inj_def)

lemma top_fetch: "fetch id_env top_blobs top_id = Inr top_node"
  by (simp add: fetch_def top_blobs_def id_env_def plain_env_def top_bytes_def)

lemma top_solid: "solid id_env top_blobs top_id"
  by (rule solidI [OF top_fetch]) (auto simp: top_node_def child_is_empty_def btm_ok_def split: if_splits)

lemma top_addressed: "addressed id_env top_blobs" "chunks_addressed id_env top_blobs"
  by (auto simp: addressed_def chunks_addressed_def top_blobs_def id_env_def split: if_splits)


lemma top_id_length: "length top_id = 32" by (simp add: top_id_def)

section \<open>Reflogs\<close>









section \<open>Pushing to a label\<close>


lemma hex_pairs_length: "hex_pairs s = Some h \<Longrightarrow> length h = length s div 2"
  by (induction s arbitrary: h rule: hex_pairs.induct) (auto split: option.splits)

definition mem_snapshots :: "mem_db snapshots" where
  "mem_snapshots = \<lparr>sn_labels = Some mem_labels, sn_has_store = True, sn_gate = (\<lambda>_ _ _. Inr ())\<rparr>"

lemma top_hex: "parse_ca_hex (ca_to_hex top_id) = Some top_id"
  using hex_pairs_hex [of top_id] by (simp add: parse_ca_hex_def ca_to_hex_def top_id_length)


section \<open>Garbage collection\<close>









section \<open>Merging snapshots\<close>

text \<open>C31. Merging two stored snapshots ends, and when it reports a merged snapshot, that snapshot is whole and
  shows at every path what the three-way rule takes; where both sides changed a file it shows an entry
  whose bytes are the clean content merge of the two sides, and there is no other path.\<close>

theorem merge_snapshots:
  assumes "env_ok env" "content_env_ok env" and "addressed env bs" "chunks_addressed env bs"
    and "parse_ca_hex ours = Some ho" "parse_ca_hex theirs = Some ht"
    and "case base of None \<Rightarrow> hb = None | Some b \<Rightarrow> hb = parse_ca_hex b \<and> hb \<noteq> None"
    and "solid env bs ho" "solid env bs ht" "root_solid env bs hb"
  shows "\<exists>n. \<forall>fuel > n. fs_merge fuel env ser dy sn ours theirs base pref bs \<noteq> None
    \<and> (\<forall>x bs'. fs_merge fuel env ser dy sn ours theirs base pref bs = Some (Inr (Merged x), bs') \<longrightarrow>
        (\<exists>h. x = ca_to_hex h \<and> solid env bs' h
          \<and> merged_view env (default_mergers dy) pref (look env bs hb) (look env bs (Some ho)) (look env bs (Some ht)) bs' h))"
  by (rule fs_merge_ok [OF assms])

definition no_diffy :: diffy where
  "no_diffy = \<lparr>diffy_merge = (\<lambda>_ _ _. Inl []), diffy_patch = (\<lambda>_ _. [])\<rparr>"

theorem merge_snapshots_witness:
  "\<exists>n. \<forall>fuel > n. fs_merge fuel id_env (\<lambda>_. None) no_diffy mem_snapshots (ca_to_hex top_id) (ca_to_hex top_id) None PreferNone top_blobs \<noteq> None"
proof -
  have base: "case (None :: string option) of None \<Rightarrow> (None :: hash option) = None | Some b \<Rightarrow> None = parse_ca_hex b \<and> (None :: hash option) \<noteq> None" by simp
  show ?thesis
    using merge_snapshots [OF id_env_ok top_addressed top_hex top_hex base top_solid top_solid empty_addressed(3),
        of "\<lambda>_. None" no_diffy mem_snapshots PreferNone] by blast
qed

end
