(* ===== verification/Heap_Tags.thy ===== *)
theory Heap_Tags
  imports Fs_Labels
begin

text \<open>
  Tags of heap snapshots (\<open>src/server/src/engine/heap_tags.rs\<close>). A \<open>HashMap\<close> of tags is kept as an ordered map,
  its canonical form; the order in which \<open>serde_json\<close> writes its entries is not observed, because
  \<open>tag_json_ok\<close> only asks that a map reads back as itself.
\<close>

section \<open>The store\<close>

type_synonym tags = "(string, string) btm"

definition HT_PREFIX :: string where "HT_PREFIX = ''ht:''"
definition HT_TREE :: string where "HT_TREE = ''heap_tags''"

record heap_tag_entry =
  hte_heap :: string
  hte_tags :: tags

record tag_json =
  tag_ser :: "tags \<Rightarrow> string + string"
  tag_de :: "string \<Rightarrow> string + tags"

record 's heap_tag_store =
  ht_db :: "'s meta_ops"
  ht_cluster :: "'s cluster_ops option"
  ht_json :: tag_json

definition make_key :: "string \<Rightarrow> string" where
  "make_key heap = HT_PREFIX @ heap"

definition set_tags :: "'s heap_tag_store \<Rightarrow> string \<Rightarrow> tags \<Rightarrow> 's \<Rightarrow> unit result \<times> 's" where
  "set_tags ht heap tags s =
     (case tag_ser (ht_json ht) tags of
        Inl e \<Rightarrow> (Inl (Err (''Failed to serialize tags: '' @ e)), s)
      | Inr value \<Rightarrow>
         (case ht_cluster ht of
            Some cl \<Rightarrow> cl_put_with_or_forward cl (make_key heap) value [] s
          | None \<Rightarrow> ms_put (ht_db ht) (write_new HT_TREE (make_key heap) value) s))"

definition get_tags :: "'s heap_tag_store \<Rightarrow> string \<Rightarrow> 's \<Rightarrow> tags result \<times> 's" where
  "get_tags ht heap s =
     (case ht_cluster ht of
        Some cl \<Rightarrow>
          bind_st (cl_scan_prefix cl (make_key heap) s)
            (\<lambda>pairs s. (case List.find (\<lambda>p. fst p = make_key heap) pairs of
                          None \<Rightarrow> Inr []
                        | Some p \<Rightarrow> (case tag_de (ht_json ht) (snd p) of
                                      Inl e \<Rightarrow> Inl (Err (''Failed to deserialize tags: '' @ e))
                                    | Inr t \<Rightarrow> Inr t), s))
      | None \<Rightarrow>
          bind_st (ms_get (ht_db ht) HT_TREE (make_key heap) s)
            (\<lambda>v s. (case v of
                      None \<Rightarrow> Inr []
                    | Some x \<Rightarrow> (case tag_de (ht_json ht) x of Inl e \<Rightarrow> Inl (Err e) | Inr t \<Rightarrow> Inr t), s)))"

text \<open>\<open>HashMap::extend\<close>.\<close>

definition extend_tags :: "tags \<Rightarrow> tags \<Rightarrow> tags" where
  "extend_tags old new = fold (\<lambda>(k, v). btm_insert k v) new old"

text \<open>The value that one attempt of \<open>merge_tags\<close> writes over the value it read.\<close>

definition merged_value :: "tag_json \<Rightarrow> tags \<Rightarrow> string option \<Rightarrow> string result" where
  "merged_value j tags old =
     bind_res (case old of
                 None \<Rightarrow> Inr []
               | Some v \<Rightarrow> (case tag_de j v of Inl e \<Rightarrow> Inl (Err e) | Inr t \<Rightarrow> Inr t))
       (\<lambda>existing. case tag_ser j (extend_tags existing tags) of Inl e \<Rightarrow> Inl (Err e) | Inr v \<Rightarrow> Inr v)"

fun merge_loop :: "nat \<Rightarrow> 's heap_tag_store \<Rightarrow> string \<Rightarrow> tags \<Rightarrow> 's \<Rightarrow> unit result \<times> 's" where
  "merge_loop 0 ht heap tags s = (Inl (Err ''heap tag contention: retry merge''), s)"
| "merge_loop (Suc n) ht heap tags s =
     bind_st (ms_get (ht_db ht) HT_TREE (make_key heap) s)
       (\<lambda>old s. case merged_value (ht_json ht) tags old of
          Inl e \<Rightarrow> (Inl e, s)
        | Inr value \<Rightarrow>
           bind_st (ms_cas (ht_db ht) (write_new HT_TREE (make_key heap) value) old [] s)
             (\<lambda>swapped s. if swapped then (Inr (), s) else merge_loop n ht heap tags s))"

definition merge_tags :: "'s heap_tag_store \<Rightarrow> string \<Rightarrow> tags \<Rightarrow> 's \<Rightarrow> unit result \<times> 's" where
  "merge_tags ht heap tags s =
     (case ht_cluster ht of
        Some cl \<Rightarrow>
          bind_st (get_tags ht heap s)
            (\<lambda>existing s. case tag_ser (ht_json ht) (extend_tags existing tags) of
               Inl e \<Rightarrow> (Inl (Err (''Failed to serialize tags: '' @ e)), s)
             | Inr value \<Rightarrow> cl_put_with_or_forward cl (make_key heap) value [] s)
      | None \<Rightarrow> merge_loop 64 ht heap tags s)"

definition delete_tags :: "'s heap_tag_store \<Rightarrow> string \<Rightarrow> string list option \<Rightarrow> 's \<Rightarrow> unit result \<times> 's" where
  "delete_tags ht heap keys s =
     (case keys of
        None \<Rightarrow> set_tags ht heap [] s
      | Some ks \<Rightarrow> bind_st (get_tags ht heap s) (\<lambda>tags s. set_tags ht heap (fold btm_remove ks tags) s))"

text \<open>One row of a query: \<open>None\<close> when the heap does not match the filter.\<close>

definition matching :: "tag_json \<Rightarrow> tags \<Rightarrow> row \<Rightarrow> heap_tag_entry option result" where
  "matching j filter_by kv =
     (case tag_de j (snd kv) of
        Inl e \<Rightarrow> Inl (Err (''Failed to deserialize tags: '' @ e))
      | Inr t \<Rightarrow>
         Inr (if t \<noteq> [] \<and> list_all (\<lambda>(k, v). btm_get t k = Some v) filter_by
              then Some \<lparr>hte_heap = drop (length HT_PREFIX) (fst kv), hte_tags = t\<rparr> else None))"

definition query_rows :: "tag_json \<Rightarrow> tags \<Rightarrow> row list \<Rightarrow> heap_tag_entry list result" where
  "query_rows j filter_by rows =
     bind_res (map_res (matching j filter_by) rows) (\<lambda>xs. Inr (List.map_filter id xs))"

definition query_by_tags :: "'s heap_tag_store \<Rightarrow> tags \<Rightarrow> 's \<Rightarrow> heap_tag_entry list result \<times> 's" where
  "query_by_tags ht filter_by s =
     (case ht_cluster ht of
        Some cl \<Rightarrow> bind_st (cl_scan_prefix cl HT_PREFIX s) (\<lambda>rows s. (query_rows (ht_json ht) filter_by rows, s))
      | None \<Rightarrow> bind_st (ms_scan (ht_db ht) HT_TREE HT_PREFIX False None s)
                  (\<lambda>rows s. (query_rows (ht_json ht) filter_by rows, s)))"

section \<open>What the tags of a heap are\<close>

text \<open>Tag maps written by \<open>serde_json\<close> read back as themselves, and what is read is a map.\<close>

definition tag_json_ok :: "tag_json \<Rightarrow> bool" where
  "tag_json_ok j \<longleftrightarrow> (\<forall>t. btm_ok t \<longrightarrow> (\<exists>x. tag_ser j t = Inr x \<and> tag_de j x = Inr t))
     \<and> (\<forall>x t. tag_de j x = Inr t \<longrightarrow> btm_ok t)"

text \<open>The abstract state: a map of tags for every heap, empty where nothing is stored.\<close>

definition tags_in :: "tag_json \<Rightarrow> meta_view \<Rightarrow> string \<Rightarrow> string \<Rightarrow> string option" where
  "tags_in j v heap =
     (case v HT_TREE (make_key heap) of
        None \<Rightarrow> Map.empty
      | Some x \<Rightarrow> (case tag_de j x of Inl _ \<Rightarrow> Map.empty | Inr t \<Rightarrow> btm_get t))"

definition tags_inv :: "tag_json \<Rightarrow> meta_view \<Rightarrow> bool" where
  "tags_inv j v \<longleftrightarrow> (\<forall>k x. v HT_TREE k = Some x \<longrightarrow> starts_with k HT_PREFIX \<and> (\<exists>t. tag_de j x = Inr t))"

datatype tag_call = SetTags string tags | MergeTags string tags | DeleteTags string "string list option"

fun tag_call_ok :: "tag_call \<Rightarrow> bool" where
  "tag_call_ok (SetTags h t) \<longleftrightarrow> btm_ok t"
| "tag_call_ok (MergeTags h t) \<longleftrightarrow> btm_ok t"
| "tag_call_ok (DeleteTags h ks) \<longleftrightarrow> True"

fun run_tag :: "'s heap_tag_store \<Rightarrow> tag_call \<Rightarrow> 's \<Rightarrow> unit result \<times> 's" where
  "run_tag ht (SetTags h t) s = set_tags ht h t s"
| "run_tag ht (MergeTags h t) s = merge_tags ht h t s"
| "run_tag ht (DeleteTags h ks) s = delete_tags ht h ks s"

fun tag_spec :: "tag_call \<Rightarrow> (string \<Rightarrow> string \<Rightarrow> string option) \<Rightarrow> (string \<Rightarrow> string \<Rightarrow> string option)" where
  "tag_spec (SetTags h t) T = T(h := btm_get t)"
| "tag_spec (MergeTags h t) T = T(h := T h ++ btm_get t)"
| "tag_spec (DeleteTags h None) T = T(h := Map.empty)"
| "tag_spec (DeleteTags h (Some ks)) T = T(h := T h |` (- set ks))"

lemma extend_ok: "btm_ok t \<Longrightarrow> btm_ok (extend_tags t u)"
  unfolding extend_tags_def by (induction u arbitrary: t) (auto simp: btm_ok_insert)

lemma extend_get: "btm_ok u \<Longrightarrow> btm_get (extend_tags t u) = btm_get t ++ btm_get u"
proof (induction u arbitrary: t)
  case (Cons e u)
  then have "fst e \<notin> dom (btm_get u)" by (auto simp: btm_ok_Cons dom_map_of_conv_image_fst)
  with Cons show ?case
    by (cases e) (auto simp: extend_tags_def btm_ok_Cons fun_eq_iff map_add_def btm_get_insert domIff split: option.splits)
qed (simp add: extend_tags_def)

lemma remove_all_ok: "btm_ok t \<Longrightarrow> btm_ok (fold btm_remove ks t) \<and> btm_get (fold btm_remove ks t) = btm_get t |` (- set ks)"
  by (induction ks arbitrary: t) (auto simp: btm_ok_remove restrict_map_def btm_get_remove fun_eq_iff)

lemma make_key_simps [simp]: "make_key a = make_key b \<longleftrightarrow> a = b" "starts_with (make_key a) HT_PREFIX"
  "drop (length HT_PREFIX) (make_key a) = a"
  by (simp_all add: make_key_def starts_with_def)

text \<open>Writing the tags \<open>t\<close> of one heap.\<close>

lemma tags_written:
  assumes "tag_json_ok j" "tags_inv j v" "btm_ok t" "tag_ser j t = Inr x"
  shows "tags_in j (apply_write (write_new HT_TREE (make_key h) x) v) = (tags_in j v)(h := btm_get t)"
    and "tags_inv j (apply_write (write_new HT_TREE (make_key h) x) v)"
proof -
  have de: "tag_de j x = Inr t" using assms unfolding tag_json_ok_def by (metis sum.inject(2))
  show "tags_in j (apply_write (write_new HT_TREE (make_key h) x) v) = (tags_in j v)(h := btm_get t)"
    by (auto simp: fun_eq_iff tags_in_def apply_write_def write_new_def de)
  show "tags_inv j (apply_write (write_new HT_TREE (make_key h) x) v)"
    using assms(2) by (auto simp: tags_inv_def apply_write_def write_new_def de)
qed

text \<open>What one attempt of a merge writes, over the value it found.\<close>

lemma merged_value_ok:
  assumes j: "tag_json_ok j" and inv: "tags_inv j v" and t: "btm_ok tags"
    and x: "merged_value j tags (v HT_TREE (make_key h)) = Inr x"
  shows "\<exists>t. btm_ok t \<and> tag_ser j t = Inr x \<and> btm_get t = tags_in j v h ++ btm_get tags"
proof -
  obtain ex where ex: "btm_ok ex" "btm_get ex = tags_in j v h" "tag_ser j (extend_tags ex tags) = Inr x"
  proof (cases "v HT_TREE (make_key h)")
    case None
    with x that [of "[]"] show ?thesis by (auto simp: merged_value_def tags_in_def fun_eq_iff split: sum.splits)
  next
    case (Some y)
    with inv obtain u where u: "tag_de j y = Inr u" unfolding tags_inv_def by blast
    with j have "btm_ok u" unfolding tag_json_ok_def by blast
    with u x Some that [of u] show ?thesis by (auto simp: merged_value_def tags_in_def split: sum.splits)
  qed
  then show ?thesis using extend_ok extend_get [OF t] by metis
qed

definition tag_standalone :: "'s heap_tag_store \<Rightarrow> 's meta_ops \<Rightarrow> bool" where
  "tag_standalone ht db \<longleftrightarrow> ht_cluster ht = None \<and> ht_db ht = db \<and> tag_json_ok (ht_json ht)"

text \<open>The outcome of a call with respect to the abstract operation \<open>f\<close>: an acknowledged call performed it, one
  that failed performed it or did nothing.\<close>

definition tag_outcome ::
  "('s \<Rightarrow> bool) \<Rightarrow> ('s \<Rightarrow> meta_view) \<Rightarrow> tag_json
   \<Rightarrow> ((string \<Rightarrow> string \<Rightarrow> string option) \<Rightarrow> (string \<Rightarrow> string \<Rightarrow> string option)) \<Rightarrow> 's \<Rightarrow> unit result \<Rightarrow> 's \<Rightarrow> bool" where
  "tag_outcome ok view j f s r s' \<longleftrightarrow> ok s' \<and> tags_inv j (view s')
     \<and> (r = Inr () \<longrightarrow> tags_in j (view s') = f (tags_in j (view s)))
     \<and> (tags_in j (view s') = tags_in j (view s) \<or> tags_in j (view s') = f (tags_in j (view s)))"

context metadata_store
begin

lemma set_tags_ok:
  assumes ht: "tag_standalone ht db" and ok: "ok s" and inv: "tags_inv (ht_json ht) (view s)" and t: "btm_ok t"
    and c: "set_tags ht h t s = (r, s')"
  shows "tag_outcome ok view (ht_json ht) (\<lambda>T. T(h := btm_get t)) s r s'"
proof -
  have j: "tag_json_ok (ht_json ht)" using ht by (simp add: tag_standalone_def)
  with t obtain x where x: "tag_ser (ht_json ht) t = Inr x" unfolding tag_json_ok_def by blast
  with ht c have p: "ms_put db (write_new HT_TREE (make_key h) x) s = (r, s')"
    by (simp add: set_tags_def tag_standalone_def)
  note w = tags_written [OF j inv t x, of h]
  show ?thesis using put_law [OF ok p] w inv unfolding tag_outcome_def by auto
qed

lemma get_tags_ok:
  assumes ht: "tag_standalone ht db" and ok: "ok s" and inv: "tags_inv (ht_json ht) (view s)" and c: "get_tags ht h s = (r, s')"
  shows "ok s' \<and> view s' = view s \<and> (\<forall>t. r = Inr t \<longrightarrow> btm_ok t \<and> btm_get t = tags_in (ht_json ht) (view s) h)"
proof -
  obtain r1 s1 where g: "ms_get db HT_TREE (make_key h) s = (r1, s1)" by fastforce
  note law = get_law [OF ok g]
  have "btm_ok t" if "tag_de (ht_json ht) x = Inr t" for x t
    using ht that unfolding tag_standalone_def tag_json_ok_def by blast
  with c g ht law show ?thesis
    by (cases r1) (auto simp: get_tags_def tag_standalone_def tags_in_def fun_eq_iff split: option.splits sum.splits)
qed

text \<open>The swap of a merge is safe whatever happened since the value was read: a swap that succeeds merges into the
  tags that are stored at that moment.\<close>

lemma merge_attempt_ok:
  assumes ht: "tag_standalone ht db" and ok: "ok s" and inv: "tags_inv (ht_json ht) (view s)" and t: "btm_ok tags"
    and v: "merged_value (ht_json ht) tags old = Inr x"
    and c: "ms_cas db (write_new HT_TREE (make_key h) x) old [] s = (r, s')"
  shows "tag_outcome ok view (ht_json ht) (\<lambda>T. T(h := T h ++ btm_get tags)) s (if r = Inr True then Inr () else Inl (Err [])) s'
    \<and> (r = Inr False \<longrightarrow> view s' = view s)"
proof -
  let ?w = "write_new HT_TREE (make_key h) x"
  have j: "tag_json_ok (ht_json ht)" using ht by (simp add: tag_standalone_def)
  have w: "w_tree ?w = HT_TREE" "w_key ?w = make_key h" by (simp_all add: write_new_def)
  have new: "tags_in (ht_json ht) (apply_write ?w (view s)) = (tags_in (ht_json ht) (view s))(h := tags_in (ht_json ht) (view s) h ++ btm_get tags)"
      "tags_inv (ht_json ht) (apply_write ?w (view s))" if "view s HT_TREE (make_key h) = old"
  proof -
    from merged_value_ok [OF j inv t] v that obtain t'
      where t': "btm_ok t'" "tag_ser (ht_json ht) t' = Inr x" "btm_get t' = tags_in (ht_json ht) (view s) h ++ btm_get tags" by metis
    from tags_written [OF j inv t'(1,2), of h] t'(3)
    show "tags_in (ht_json ht) (apply_write ?w (view s)) = (tags_in (ht_json ht) (view s))(h := tags_in (ht_json ht) (view s) h ++ btm_get tags)"
      "tags_inv (ht_json ht) (apply_write ?w (view s))" by simp_all
  qed
  from cas_law [OF ok c] w have law: "ok s'"
    "r = Inr True \<longrightarrow> view s HT_TREE (make_key h) = old \<and> view s' = apply_write ?w (view s)"
    "r = Inr False \<longrightarrow> view s' = view s"
    "view s' = view s \<or> view s HT_TREE (make_key h) = old \<and> view s' = apply_write ?w (view s)" by simp_all
  from law(1,2,4) new inv show ?thesis unfolding tag_outcome_def using law(3) by (auto split: if_splits)
qed

lemma merge_loop_ok:
  assumes ht: "tag_standalone ht db" and t: "btm_ok tags"
  shows "ok s \<Longrightarrow> tags_inv (ht_json ht) (view s) \<Longrightarrow> merge_loop n ht h tags s = (r, s') \<Longrightarrow>
    tag_outcome ok view (ht_json ht) (\<lambda>T. T(h := T h ++ btm_get tags)) s r s'"
proof (induction n arbitrary: s)
  case 0
  then show ?case by (auto simp: tag_outcome_def)
next
  case (Suc n)
  obtain r1 s1 where g: "ms_get db HT_TREE (make_key h) s = (r1, s1)" by fastforce
  have s1: "ok s1" "view s1 = view s" using get_law [OF Suc.prems(1) g] by simp_all
  have same: "tag_outcome ok view (ht_json ht) f s1 r s' \<Longrightarrow> tag_outcome ok view (ht_json ht) f s r s'" for f
    using s1(2) by (simp add: tag_outcome_def)
  have stop: "tag_outcome ok view (ht_json ht) f s (Inl e) s1" for f e
    using s1 Suc.prems(2) by (simp add: tag_outcome_def)
  show ?case
  proof (cases "\<exists>old x. r1 = Inr old \<and> merged_value (ht_json ht) tags old = Inr x")
    case False
    with Suc.prems(3) g ht stop show ?thesis
      by (cases r1) (auto simp: tag_standalone_def split: sum.splits)
  next
    case True
    then obtain old x where x: "r1 = Inr old" "merged_value (ht_json ht) tags old = Inr x" by blast
    obtain r2 s2 where c: "ms_cas db (write_new HT_TREE (make_key h) x) old [] s1 = (r2, s2)" by fastforce
    note a = merge_attempt_ok [OF ht s1(1) _ t x(2) c, unfolded s1(2), OF Suc.prems(2)]
    have run: "bind_st (r2, s2) (\<lambda>swapped s. if swapped then (Inr (), s) else merge_loop n ht h tags s) = (r, s')"
      using Suc.prems(3) g ht x c by (simp add: tag_standalone_def)
    show ?thesis
    proof (cases "r2 = Inr False")
      case True
      with a s1(2) have v: "view s2 = view s" "ok s2" by (simp_all add: tag_outcome_def)
      from run True have "merge_loop n ht h tags s2 = (r, s')" by simp
      from Suc.IH [OF v(2) _ this] Suc.prems(2) v(1)
      have "tag_outcome ok view (ht_json ht) (\<lambda>T. T(h := T h ++ btm_get tags)) s2 r s'" by (simp only:)
      then show ?thesis unfolding tag_outcome_def v(1) .
    next
      case False
      with run have "s' = s2" "r = Inr () \<longrightarrow> r2 = Inr True"
        by (cases r2; auto split: if_splits)+
      with a show ?thesis unfolding tag_outcome_def s1(2) by presburger
    qed
  qed
qed

lemma run_tag_ok:
  assumes ht: "tag_standalone ht db" and ok: "ok s" and inv: "tags_inv (ht_json ht) (view s)"
    and c: "tag_call_ok c" and run: "run_tag ht c s = (r, s')"
  shows "tag_outcome ok view (ht_json ht) (tag_spec c) s r s'"
proof (cases c)
  case (SetTags h t)
  with set_tags_ok [OF ht ok inv, of t h r s'] c run show ?thesis by (simp add: tag_outcome_def)
next
  case (MergeTags h t)
  with merge_loop_ok [OF ht _ ok inv, of t 64 h r s'] c run ht show ?thesis
    by (simp add: merge_tags_def tag_standalone_def tag_outcome_def)
next
  case (DeleteTags h ks)
  show ?thesis
  proof (cases ks)
    case None
    with set_tags_ok [OF ht ok inv, of "[]" h r s'] DeleteTags run show ?thesis by (simp add: delete_tags_def tag_outcome_def)
  next
    case (Some kl)
    obtain r1 s1 where g: "get_tags ht h s = (r1, s1)" by fastforce
    note s1 = get_tags_ok [OF ht ok inv g]
    show ?thesis
    proof (cases r1)
      case (Inl e)
      with run g DeleteTags Some s1 inv show ?thesis by (auto simp: delete_tags_def tag_outcome_def)
    next
      case (Inr t)
      let ?t = "fold btm_remove kl t"
      have t: "btm_ok ?t" "btm_get ?t = tags_in (ht_json ht) (view s) h |` (- set kl)" using remove_all_ok [of t kl] s1 Inr by simp_all
      from run g Inr DeleteTags Some have "set_tags ht h ?t s1 = (r, s')" by (simp add: delete_tags_def)
      from set_tags_ok [OF ht _ _ t(1) this] s1 inv t(2) DeleteTags Some show ?thesis by (simp add: tag_outcome_def)
    qed
  qed
qed

end

text \<open>The answer of a query: every heap with tags that match, in the order of the heaps.\<close>

lemma query_rows_Cons:
  "query_rows j f (kv # rows) = Inr es \<Longrightarrow>
    \<exists>m es'. matching j f kv = Inr m \<and> query_rows j f rows = Inr es' \<and> es = (case m of None \<Rightarrow> es' | Some e \<Rightarrow> e # es')"
  by (auto simp: query_rows_def List.map_filter_def bind_res_def split: sum.splits option.splits)

lemma query_rows_set: "query_rows j f rows = Inr es \<Longrightarrow> set es = {e. \<exists>kv \<in> set rows. matching j f kv = Inr (Some e)}"
proof (induction rows arbitrary: es)
  case (Cons kv rows)
  from query_rows_Cons [OF Cons.prems] Cons.IH show ?case by (auto split: option.splits)
qed (simp add: query_rows_def List.map_filter_def)

lemma prefix_less: "starts_with a p \<Longrightarrow> starts_with b p \<Longrightarrow> a < b \<Longrightarrow> drop (length p) a < drop (length p) b"
  unfolding starts_with_def by (metis append_less_cancel append_take_drop_id)

lemma query_rows_sorted:
  "query_rows j f rows = Inr es \<Longrightarrow> sorted_wrt (<) (map fst rows) \<Longrightarrow> \<forall>kv \<in> set rows. starts_with (fst kv) HT_PREFIX \<Longrightarrow>
    sorted_wrt (<) (map hte_heap es)"
proof (induction rows arbitrary: es)
  case (Cons kv rows)
  from query_rows_Cons [OF Cons.prems(1)] obtain m es' where m: "matching j f kv = Inr m" "query_rows j f rows = Inr es'"
    "es = (case m of None \<Rightarrow> es' | Some e \<Rightarrow> e # es')" by blast
  have heap: "hte_heap e = drop (length HT_PREFIX) (fst kv')" if "matching j f kv' = Inr (Some e)" for kv' e
    using that by (auto simp: matching_def split: sum.splits if_splits)
  have "hte_heap e < hte_heap e'" if e: "m = Some e" "e' \<in> set es'" for e e'
  proof -
    from e(2) query_rows_set [OF m(2)] obtain kv' where kv': "kv' \<in> set rows" "matching j f kv' = Inr (Some e')" by blast
    with Cons.prems(2,3) have "drop (length HT_PREFIX) (fst kv) < drop (length HT_PREFIX) (fst kv')" by (intro prefix_less) auto
    with heap [OF kv'(2)] heap [of kv e] m(1) e(1) show ?thesis by simp
  qed
  with Cons.IH [OF m(2)] Cons.prems(2,3) m(3) show ?case by (cases m) auto
qed (simp add: query_rows_def List.map_filter_def)

lemma query_rows_ok:
  assumes q: "query_rows j f rows = Inr es" and rows: "rows_of v HT_TREE HT_PREFIX rows"
  shows "sorted_wrt (<) (map hte_heap es)
    \<and> (\<forall>h. h \<in> hte_heap ` set es \<longleftrightarrow> tags_in j v h \<noteq> Map.empty \<and> (\<forall>(k, x) \<in> set f. tags_in j v h k = Some x))
    \<and> (\<forall>e \<in> set es. btm_get (hte_tags e) = tags_in j v (hte_heap e))"
proof -
  have keys: "\<exists>h. k = make_key h" if "starts_with k HT_PREFIX" for k
    using that unfolding make_key_def starts_with_def by (metis append_take_drop_id)
  have dec: "\<exists>t. tag_de j x = Inr t" if "kv \<in> set rows" "snd kv = x" for kv x
  proof -
    have "map_res g xs = Inr ys \<Longrightarrow> kv \<in> set xs \<Longrightarrow> \<exists>y. g kv = Inr y" for g :: "row \<Rightarrow> heap_tag_entry option result" and xs ys
      by (induction xs arbitrary: ys) (auto split: sum.splits)
    with q that show ?thesis by (fastforce simp: query_rows_def bind_res_def matching_def split: sum.splits)
  qed
  have row: "(make_key h, x) \<in> set rows \<longleftrightarrow> v HT_TREE (make_key h) = Some x" for h x
    using rows by (simp add: rows_of_def)
  have m: "matching j f (make_key h, x) = Inr (Some e) \<longleftrightarrow> (\<exists>t. tag_de j x = Inr t \<and> t \<noteq> [] \<and> (\<forall>(k, y) \<in> set f. btm_get t k = Some y)
      \<and> e = \<lparr>hte_heap = h, hte_tags = t\<rparr>)" for h x e
    by (auto simp: matching_def list_all_iff split: sum.splits if_splits)
  have es: "e \<in> set es \<longleftrightarrow> (\<exists>h x. v HT_TREE (make_key h) = Some x \<and> matching j f (make_key h, x) = Inr (Some e))" for e
  proof -
    have "e \<in> set es \<longleftrightarrow> (\<exists>k x. (k, x) \<in> set rows \<and> matching j f (k, x) = Inr (Some e))"
      using query_rows_set [OF q] by auto
    also have "\<dots> \<longleftrightarrow> (\<exists>h x. (make_key h, x) \<in> set rows \<and> matching j f (make_key h, x) = Inr (Some e))"
      using rows keys by (fastforce simp: rows_of_def)
    finally show ?thesis using row by simp
  qed
  have empty: "btm_get t = Map.empty \<longleftrightarrow> t = []" for t :: tags
    by (cases t) (auto simp: fun_eq_iff)
  have "h \<in> hte_heap ` set es \<longleftrightarrow> tags_in j v h \<noteq> Map.empty \<and> (\<forall>(k, x) \<in> set f. tags_in j v h k = Some x)" for h
  proof -
    have "h \<in> hte_heap ` set es \<longleftrightarrow> (\<exists>x t. v HT_TREE (make_key h) = Some x \<and> tag_de j x = Inr t \<and> t \<noteq> []
        \<and> (\<forall>(k, y) \<in> set f. btm_get t k = Some y))"
      unfolding image_iff Bex_def es m by fastforce
    also have "\<dots> \<longleftrightarrow> tags_in j v h \<noteq> Map.empty \<and> (\<forall>(k, x) \<in> set f. tags_in j v h k = Some x)"
      by (auto simp: tags_in_def empty split: option.splits sum.splits)
    finally show ?thesis .
  qed
  moreover have "\<forall>e \<in> set es. btm_get (hte_tags e) = tags_in j v (hte_heap e)"
    unfolding Ball_def es m by (auto simp: tags_in_def)
  ultimately show ?thesis
    using query_rows_sorted [OF q] rows by (auto simp: rows_of_def)
qed

end
