(* ===== verification/Session_Log.thy ===== *)
theory Session_Log
  imports Fs_Labels "HOL-Library.Sublist"
begin

text \<open>
  The session log (\<open>src/server/src/engine/session_log.rs\<close>): one tree per session, with a row for every execution
  under a big-endian sequence number; in a cluster, keys with a prefix per session in the replicated tree.
  \<open>serde_json\<close> on an entry is the record \<open>session_json\<close>; the clock is an argument of the calls that read it.
\<close>

section \<open>Sequence numbers as keys\<close>

fun be_digits :: "nat \<Rightarrow> nat \<Rightarrow> string" where
  "be_digits 0 n = []"
| "be_digits (Suc k) n = be_digits k (n div 256) @ [char_of (n mod 256)]"

fun be_val :: "string \<Rightarrow> nat" where
  "be_val [] = 0"
| "be_val (c # cs) = of_char c * 256 ^ length cs + be_val cs"

definition to_be_bytes :: "u64 \<Rightarrow> string" where
  "to_be_bytes x = be_digits 8 (unat x)"

definition from_be_bytes :: "string \<Rightarrow> u64" where
  "from_be_bytes s = of_nat (be_val s)"

section \<open>The log\<close>

record session_log_entry =
  se_input_heap :: "string option"
  se_output_heap :: string
  se_output_fs :: "string option"
  se_code :: string
  se_timestamp :: string

record session_snapshot_view =
  sv_index :: u64
  sv_input_heap :: "string option"
  sv_output_heap :: string
  sv_output_fs :: "string option"
  sv_code :: string
  sv_timestamp :: string

definition snapshot_view :: "u64 \<Rightarrow> session_log_entry \<Rightarrow> session_snapshot_view" where
  "snapshot_view i e = \<lparr>sv_index = i, sv_input_heap = se_input_heap e, sv_output_heap = se_output_heap e,
     sv_output_fs = se_output_fs e, sv_code = se_code e, sv_timestamp = se_timestamp e\<rparr>"

datatype fork_outcome = Forked string "string option" | TargetExists | SourceEmpty

record session_json =
  sj_ser :: "session_log_entry \<Rightarrow> string + string"
  sj_de :: "string \<Rightarrow> string + session_log_entry"

record 's session_log =
  sl_db :: "'s meta_ops"
  sl_cluster :: "'s cluster_ops option"
  sl_json :: session_json

definition SL_SESSION_PREFIX :: string where "SL_SESSION_PREFIX = ''sl:s:''"
definition SL_ENTRY_PREFIX :: string where "SL_ENTRY_PREFIX = ''sl:e:''"

definition make_session_key :: "string \<Rightarrow> string" where
  "make_session_key session = SL_SESSION_PREFIX @ session"

definition make_entry_key :: "nat \<Rightarrow> string \<Rightarrow> string" where
  "make_entry_key nanos session = SL_ENTRY_PREFIX @ session @ '':'' @ decimal20 nanos"

definition entry_prefix_for_session :: "string \<Rightarrow> string" where
  "entry_prefix_for_session session = SL_ENTRY_PREFIX @ session @ '':''"

definition append_entry :: "'s session_log \<Rightarrow> nat \<Rightarrow> string \<Rightarrow> session_log_entry \<Rightarrow> 's \<Rightarrow> u64 result \<times> 's" where
  "append_entry sl nanos session e s =
     (case sl_cluster sl of
        Some cl \<Rightarrow>
         (case sj_ser (sl_json sl) e of
            Inl m \<Rightarrow> (Inl (Err (''Failed to serialize entry: '' @ m)), s)
          | Inr value \<Rightarrow>
             bind_st (cl_put_with_or_forward cl (make_session_key session) ''1'' [] s)
               (\<lambda>_ s. bind_st (cl_put_with_or_forward cl (make_entry_key nanos session) value [] s)
                  (\<lambda>_ s. (Inr 0, s))))
      | None \<Rightarrow>
         (case sj_ser (sl_json sl) e of
            Inl m \<Rightarrow> (Inl (Err m), s)
          | Inr value \<Rightarrow>
             bind_st (ms_generate_id (sl_db sl) s)
               (\<lambda>seq s. bind_st (ms_put (sl_db sl) (write_new session (to_be_bytes seq) value) s)
                  (\<lambda>_ s. (Inr seq, s)))))"

definition list_sessions :: "'s session_log \<Rightarrow> 's \<Rightarrow> string list result \<times> 's" where
  "list_sessions sl s =
     (case sl_cluster sl of
        Some cl \<Rightarrow> bind_st (cl_scan_prefix cl SL_SESSION_PREFIX s)
                     (\<lambda>pairs s. (Inr (map (\<lambda>p. drop (length SL_SESSION_PREFIX) (fst p)) pairs), s))
      | None \<Rightarrow> ms_tree_names (sl_db sl) s)"

text \<open>One row of a standalone log, and one of a replicated log with its position.\<close>

definition row_view :: "session_json \<Rightarrow> row \<Rightarrow> session_snapshot_view result" where
  "row_view j kv =
     (if length (fst kv) \<noteq> 8 then Inl (Err ''Invalid key length'')
      else case sj_de j (snd kv) of Inl m \<Rightarrow> Inl (Err m) | Inr e \<Rightarrow> Inr (snapshot_view (from_be_bytes (fst kv)) e))"

definition pair_view :: "session_json \<Rightarrow> nat \<times> row \<Rightarrow> session_snapshot_view result" where
  "pair_view j p =
     (case sj_de j (snd (snd p)) of
        Inl m \<Rightarrow> Inl (Err (''Failed to deserialize entry: '' @ m))
      | Inr e \<Rightarrow> Inr (snapshot_view (of_nat (fst p)) e))"

definition list_entries :: "'s session_log \<Rightarrow> string \<Rightarrow> 's \<Rightarrow> session_snapshot_view list result \<times> 's" where
  "list_entries sl session s =
     (case sl_cluster sl of
        Some cl \<Rightarrow> bind_st (cl_scan_prefix cl (entry_prefix_for_session session) s)
                     (\<lambda>pairs s. (map_res (pair_view (sl_json sl)) (List.enumerate 0 pairs), s))
      | None \<Rightarrow> bind_st (ms_scan (sl_db sl) session [] False None s)
                  (\<lambda>rows s. (map_res (row_view (sl_json sl)) rows, s)))"

definition get_latest :: "'s session_log \<Rightarrow> string \<Rightarrow> 's \<Rightarrow> session_log_entry option result \<times> 's" where
  "get_latest sl session s =
     (case sl_cluster sl of
        Some cl \<Rightarrow> bind_st (cl_scan_prefix cl (entry_prefix_for_session session) s)
                     (\<lambda>pairs s. (if pairs = [] then Inr None
                        else case sj_de (sl_json sl) (snd (last pairs)) of
                          Inl m \<Rightarrow> Inl (Err (''Failed to deserialize entry: '' @ m)) | Inr e \<Rightarrow> Inr (Some e), s))
      | None \<Rightarrow> bind_st (ms_scan (sl_db sl) session [] True (Some 1) s)
                  (\<lambda>rows s. (if rows = [] then Inr None
                     else case sj_de (sl_json sl) (snd (hd rows)) of Inl m \<Rightarrow> Inl (Err m) | Inr e \<Rightarrow> Inr (Some e), s)))"

definition fork_entry :: "string \<Rightarrow> string \<Rightarrow> session_log_entry \<Rightarrow> session_log_entry" where
  "fork_entry from now src = \<lparr>se_input_heap = Some (se_output_heap src), se_output_heap = se_output_heap src,
     se_output_fs = se_output_fs src, se_code = ''// forked from session '' @ from, se_timestamp = now\<rparr>"

definition fork :: "'s session_log \<Rightarrow> nat \<Rightarrow> string \<Rightarrow> string \<Rightarrow> string \<Rightarrow> 's \<Rightarrow> fork_outcome result \<times> 's" where
  "fork sl nanos now from to s =
     bind_st (get_latest sl to s)
       (\<lambda>latest s. if latest \<noteq> None then (Inr TargetExists, s)
          else bind_st (get_latest sl from s)
            (\<lambda>src s. case src of
               None \<Rightarrow> (Inr SourceEmpty, s)
             | Some e \<Rightarrow>
                bind_st (append_entry sl nanos to (fork_entry from now e) s)
                  (\<lambda>_ s. (Inr (Forked (se_output_heap e) (se_output_fs e)), s))))"

definition flush_log :: "'s session_log \<Rightarrow> 's \<Rightarrow> unit result \<times> 's" where
  "flush_log sl s = ms_flush (sl_db sl) s"

section \<open>Keys in order\<close>

lemma be_digits_length [simp]: "length (be_digits k n) = k"
  by (induction k arbitrary: n) simp_all

lemma char_code_less: "(of_char c :: nat) < 256"
  using of_char_mod_256 [of c, where ?'a = nat] by (metis mod_less_divisor zero_less_numeral)

lemma be_val_less: "be_val s < 256 ^ length s"
proof (induction s)
  case (Cons c cs)
  have "of_char c * 256 ^ length cs + be_val cs < of_char c * 256 ^ length cs + 256 ^ length cs" using Cons by simp
  also have "\<dots> = (of_char c + 1) * 256 ^ length cs" by simp
  also have "\<dots> \<le> 256 * 256 ^ length cs" using char_code_less [of c] by (intro mult_le_mono1) linarith
  finally show ?case by simp
qed simp

lemma be_val_append: "be_val (xs @ ys) = be_val xs * 256 ^ length ys + be_val ys"
  by (induction xs) (simp_all add: power_add algebra_simps)

lemma be_val_digits: "n < 256 ^ k \<Longrightarrow> be_val (be_digits k n) = n"
proof (induction k arbitrary: n)
  case (Suc k)
  then have "n div 256 < 256 ^ k" by (simp add: less_mult_imp_div_less)
  with Suc.IH [of "n div 256"] show ?case by (simp add: be_val_append)
qed simp

lemma be_val_order: "length xs = length ys \<Longrightarrow> xs < ys \<longleftrightarrow> be_val xs < be_val ys"
proof (induction xs arbitrary: ys)
  case (Cons x xs)
  then obtain y ys' where ys: "ys = y # ys'" "length ys' = length xs" by (cases ys) auto
  have l: "be_val xs < 256 ^ length xs" "be_val ys' < 256 ^ length xs" using be_val_less [of xs] be_val_less [of ys'] ys(2) by simp_all
  have lt: "i * 256 ^ length xs + m < j * 256 ^ length xs + n" if "i < j" "m < 256 ^ length xs" for i j m n :: nat
  proof -
    have "i * 256 ^ length xs + m < Suc i * 256 ^ length xs" using that by simp
    also have "\<dots> \<le> j * 256 ^ length xs" using that by (intro mult_le_mono1) simp
    finally show ?thesis by simp
  qed
  let ?a = "of_char x :: nat" and ?b = "of_char y :: nat"
  have "x < y \<longleftrightarrow> ?a < ?b" "x = y \<longleftrightarrow> ?a = ?b" by (simp_all add: less_char_def)
  then show ?case
    using Cons.IH [of ys'] ys l lt [of ?a ?b "be_val xs" "be_val ys'"] lt [of ?b ?a "be_val ys'" "be_val xs"]
    by (cases ?a ?b rule: linorder_cases) auto
qed simp

lemma unat_be: "unat (x :: u64) < 256 ^ 8"
proof -
  have "unat x < 2 ^ LENGTH(64)" by (rule unsigned_less)
  then show ?thesis by simp
qed

lemma to_be_bytes_simps [simp]: "length (to_be_bytes x) = 8" "from_be_bytes (to_be_bytes x) = x"
    "to_be_bytes x = to_be_bytes y \<longleftrightarrow> x = y" "to_be_bytes x < to_be_bytes y \<longleftrightarrow> unat x < unat y"
proof -
  show "length (to_be_bytes x) = 8" by (simp add: to_be_bytes_def)
  show f: "from_be_bytes (to_be_bytes x) = x" for x
    using be_val_digits [OF unat_be] by (simp add: from_be_bytes_def to_be_bytes_def)
  show "to_be_bytes x = to_be_bytes y \<longleftrightarrow> x = y" by (metis f)
  show "to_be_bytes x < to_be_bytes y \<longleftrightarrow> unat x < unat y"
    using be_val_order [of "to_be_bytes x" "to_be_bytes y"] be_val_digits [OF unat_be] by (simp add: to_be_bytes_def)
qed

section \<open>Histories\<close>

definition session_json_ok :: "session_json \<Rightarrow> bool" where
  "session_json_ok j \<longleftrightarrow> (\<forall>e. \<exists>x. sj_ser j e = Inr x \<and> sj_de j x = Inr e)"

text \<open>\<open>history j v a h\<close>: the tree of session \<open>a\<close> holds exactly the entries \<open>h\<close>, in the order of their numbers.\<close>

definition history :: "session_json \<Rightarrow> meta_view \<Rightarrow> string \<Rightarrow> (u64 \<times> session_log_entry) list \<Rightarrow> bool" where
  "history j v a h \<longleftrightarrow> sorted_wrt (\<lambda>x y. unat (fst x) < unat (fst y)) h
     \<and> (\<forall>k x. v a k = Some x \<longleftrightarrow> (\<exists>i e. (i, e) \<in> set h \<and> k = to_be_bytes i \<and> sj_ser j e = Inr x))"

definition bounded_by :: "nat \<Rightarrow> (u64 \<times> 'e) list \<Rightarrow> bool" where
  "bounded_by n h \<longleftrightarrow> (\<forall>i e. (i, e) \<in> set h \<longrightarrow> unat i < n)"

lemma bounded_mono: "bounded_by n h \<Longrightarrow> n \<le> m \<Longrightarrow> bounded_by m h"
  unfolding bounded_by_def by (meson less_le_trans)

lemma history_other: "history j v a h \<Longrightarrow> a \<noteq> b \<Longrightarrow> history j (apply_write (write_new b k x) v) a h"
  by (simp add: history_def apply_write_def write_new_def)

lemma history_append:
  assumes "history j v a h" and "bounded_by n h" "n \<le> unat i" and ser: "sj_ser j e = Inr x"
  shows "history j (apply_write (write_new a (to_be_bytes i) x) v) a (h @ [(i, e)])"
proof -
  have fresh: "(i, e') \<notin> set h" for e' using assms(2,3) unfolding bounded_by_def by (meson leD)
  have "sorted_wrt (\<lambda>x y. unat (fst x) < unat (fst y)) (h @ [(i, e)])"
    using assms(1,2,3) unfolding history_def bounded_by_def by (fastforce simp: sorted_wrt_append)
  moreover have "apply_write (write_new a (to_be_bytes i) x) v a k = Some y
      \<longleftrightarrow> (\<exists>i' e'. (i', e') \<in> set (h @ [(i, e)]) \<and> k = to_be_bytes i' \<and> sj_ser j e' = Inr y)" for k y
    using assms(1) fresh ser unfolding history_def
    by (cases "k = to_be_bytes i") (auto simp: apply_write_def write_new_def)
  ultimately show ?thesis unfolding history_def by blast
qed

lemma history_empty:
  assumes "session_json_ok j" "history j v a []" "history j v a h"
  shows "h = []"
proof (rule ccontr)
  assume "h \<noteq> []"
  then obtain i e where "(i, e) \<in> set h" by (cases h) auto
  moreover obtain x where "sj_ser j e = Inr x" using assms(1) unfolding session_json_ok_def by blast
  ultimately have "v a (to_be_bytes i) = Some x" using assms(3) unfolding history_def by blast
  with assms(2) show False by (simp add: history_def)
qed

text \<open>The rows of a history.\<close>

lemma history_rows:
  assumes j: "session_json_ok j" and h: "history j v a h" and rows: "rows_of v a [] rows"
  shows "\<exists>ser. rows = map (\<lambda>(i, e). (to_be_bytes i, ser e)) h \<and> (\<forall>e. sj_de j (ser e) = Inr e)"
proof -
  define ser where "ser e = projr (sj_ser j e)" for e
  have ser: "sj_ser j e = Inr (ser e)" "sj_de j (ser e) = Inr e" for e
    using j unfolding session_json_ok_def ser_def by (metis sum.sel(2))+
  define row where "row = (\<lambda>(i, e). (to_be_bytes i, ser e))"
  have "set rows = set (map row h)"
  proof -
    have "(k, x) \<in> set rows \<longleftrightarrow> (\<exists>i e. (i, e) \<in> set h \<and> k = to_be_bytes i \<and> ser e = x)" for k x
      using rows h unfolding rows_of_def history_def ser by (simp add: starts_with_def)
    then show ?thesis unfolding row_def by (auto simp: image_iff) (metis case_prod_conv)
  qed
  moreover have "sorted_wrt (<) (map fst rows)" using rows by (simp add: rows_of_def)
  moreover have "sorted_wrt (<) (map fst (map row h))"
    using h unfolding history_def row_def by (simp add: sorted_wrt_map case_prod_unfold)
  ultimately have "rows = map row h" by (intro sorted_key_unique [where f = fst]) simp_all
  with ser(2) show ?thesis unfolding row_def by blast
qed

definition session_standalone :: "'s session_log \<Rightarrow> 's meta_ops \<Rightarrow> bool" where
  "session_standalone sl db \<longleftrightarrow> sl_cluster sl = None \<and> sl_db sl = db \<and> session_json_ok (sl_json sl)"

context metadata_store
begin

text \<open>The write of one append, with the number \<open>i\<close>.\<close>

definition appended :: "session_json \<Rightarrow> 's \<Rightarrow> string \<Rightarrow> session_log_entry \<Rightarrow> u64 \<Rightarrow> 's \<Rightarrow> bool" where
  "appended j s a e i s' \<longleftrightarrow> issued s \<le> unat i \<and> unat i < issued s'
     \<and> (\<exists>x. sj_ser j e = Inr x \<and> view s' = apply_write (write_new a (to_be_bytes i) x) (view s))"

lemma append_entry_ok:
  assumes sl: "session_standalone sl db" and ok: "ok s" and c: "append_entry sl nanos a e s = (r, s')"
  shows "ok s' \<and> issued s \<le> issued s' \<and> (\<forall>i. r = Inr i \<longrightarrow> appended (sl_json sl) s a e i s')
    \<and> (view s' = view s \<or> (\<exists>i. appended (sl_json sl) s a e i s'))"
proof -
  obtain x where x: "sj_ser (sl_json sl) e = Inr x" using sl unfolding session_standalone_def session_json_ok_def by blast
  obtain r1 s1 where g: "ms_generate_id db s = (r1, s1)" by fastforce
  note law = id_law [OF ok g]
  show ?thesis
  proof (cases r1)
    case (Inl m)
    with c g sl x have "r = Inl m" "s' = s1" by (simp_all add: append_entry_def session_standalone_def)
    with law show ?thesis by simp
  next
    case (Inr i)
    obtain r2 s2 where p: "ms_put db (write_new a (to_be_bytes i) x) s1 = (r2, s2)" by fastforce
    have "ok s1" using law by simp
    note law2 = put_law [OF this p]
    from c g sl x Inr p have "s' = s2" "r = (case r2 of Inl m \<Rightarrow> Inl m | Inr _ \<Rightarrow> Inr i)"
      by (auto simp: append_entry_def session_standalone_def bind_st_def split: sum.splits)
    with law law2 Inr x show ?thesis by (cases r2) (auto simp: appended_def)
  qed
qed

lemma appended_history:
  assumes "appended j s a e i s'" and "history j (view s) b h" and "bounded_by (issued s) h"
  shows "history j (view s') b (if b = a then h @ [(i, e)] else h) \<and> bounded_by (issued s') (if b = a then h @ [(i, e)] else h)"
proof -
  from assms(1) obtain x where x: "issued s \<le> unat i" "unat i < issued s'" "sj_ser j e = Inr x"
    "view s' = apply_write (write_new a (to_be_bytes i) x) (view s)" unfolding appended_def by blast
  have "bounded_by (issued s') h" using bounded_mono [OF assms(3)] x(1,2) by simp
  with x history_append [OF assms(2,3) x(1,3)] history_other [OF assms(2), of a] show ?thesis
    by (auto simp: bounded_by_def)
qed

lemma list_entries_ok:
  assumes sl: "session_standalone sl db" and ok: "ok s" and h: "history (sl_json sl) (view s) a h"
    and c: "list_entries sl a s = (Inr vs, s')"
  shows "vs = map (\<lambda>(i, e). snapshot_view i e) h"
proof -
  obtain r1 s1 where sc: "ms_scan db a [] False None s = (r1, s1)" by fastforce
  from c sl sc obtain rows where rows: "r1 = Inr rows" "map_res (row_view (sl_json sl)) rows = Inr vs"
    by (cases r1) (auto simp: list_entries_def session_standalone_def)
  have "rows_of (view s) a [] rows" using scan_law [OF ok sc] rows(1) by (auto simp: cut_def)
  from history_rows [OF _ h this] sl obtain ser where ser: "rows = map (\<lambda>(i, e). (to_be_bytes i, ser e)) h" "\<And>e. sj_de (sl_json sl) (ser e) = Inr e"
    unfolding session_standalone_def by blast
  have "map_res (row_view (sl_json sl)) (map (\<lambda>(i, e). (to_be_bytes i, ser e)) es) = Inr (map (\<lambda>(i, e). snapshot_view i e) es)" for es
    by (induction es) (auto simp: row_view_def ser(2))
  with rows(2) ser(1) show ?thesis by simp
qed

lemma get_latest_ok:
  assumes sl: "session_standalone sl db" and ok: "ok s" and h: "history (sl_json sl) (view s) a h"
    and c: "get_latest sl a s = (r, s')"
  shows "ok s' \<and> view s' = view s \<and> issued s' = issued s
    \<and> (\<forall>l. r = Inr l \<longrightarrow> l = (if h = [] then None else Some (snd (last h))))"
proof -
  obtain r1 s1 where sc: "ms_scan db a [] True (Some 1) s = (r1, s1)" by fastforce
  note law = scan_law [OF ok sc]
  from c sl sc have "s' = s1" by (cases r1) (auto simp: get_latest_def session_standalone_def)
  moreover have "l = (if h = [] then None else Some (snd (last h)))" if l: "r = Inr l" for l
  proof -
    from c sl sc l obtain rows where rows: "r1 = Inr rows" "(if rows = [] then Inr None
        else case sj_de (sl_json sl) (snd (hd rows)) of Inl m \<Rightarrow> Inl (Err m) | Inr e \<Rightarrow> Inr (Some e)) = Inr l"
      by (cases r1) (auto simp: get_latest_def session_standalone_def)
    with law obtain all where all: "rows_of (view s) a [] all" "rows = take 1 (rev all)" by (auto simp: cut_def)
    from history_rows [OF _ h all(1)] sl obtain ser where ser: "all = map (\<lambda>(i, e). (to_be_bytes i, ser e)) h" "\<And>e. sj_de (sl_json sl) (ser e) = Inr e"
      unfolding session_standalone_def by blast
    show ?thesis using rows(2) all(2) ser by (cases h rule: rev_cases) (auto split: prod.splits)
  qed
  ultimately show ?thesis using law by simp
qed

end

section \<open>Runs\<close>

text \<open>A sequence of appends to any sessions, with the answers.\<close>

fun run_appends :: "'s session_log \<Rightarrow> (nat \<times> string \<times> session_log_entry) list \<Rightarrow> 's \<Rightarrow> u64 result list \<times> 's" where
  "run_appends sl [] s = ([], s)"
| "run_appends sl ((nanos, a, e) # cs) s =
     (case append_entry sl nanos a e s of (r, s1) \<Rightarrow> (case run_appends sl cs s1 of (rs, s2) \<Rightarrow> (r # rs, s2)))"

text \<open>The entries sent to session \<open>a\<close>, and those whose append was acknowledged.\<close>

definition attempted :: "string \<Rightarrow> (nat \<times> string \<times> session_log_entry) list \<Rightarrow> session_log_entry list" where
  "attempted a cs = map (\<lambda>c. snd (snd c)) (filter (\<lambda>c. fst (snd c) = a) cs)"

definition acknowledged :: "string \<Rightarrow> (nat \<times> string \<times> session_log_entry) list \<Rightarrow> u64 result list \<Rightarrow> session_log_entry list" where
  "acknowledged a cs rs = map (\<lambda>(c, r). snd (snd c)) (filter (\<lambda>(c, r). fst (snd c) = a \<and> (\<exists>i. r = Inr i)) (zip cs rs))"

context metadata_store
begin

lemma run_appends_ok:
  assumes sl: "session_standalone sl db"
  shows "ok s \<Longrightarrow> history (sl_json sl) (view s) a h \<Longrightarrow> bounded_by (issued s) h \<Longrightarrow> run_appends sl cs s = (rs, s') \<Longrightarrow>
    \<exists>new. ok s' \<and> history (sl_json sl) (view s') a (h @ new) \<and> bounded_by (issued s') (h @ new)
      \<and> subseq (acknowledged a cs rs) (map snd new) \<and> subseq (map snd new) (attempted a cs)"
proof (induction cs arbitrary: s h rs)
  case Nil
  then show ?case by (auto simp: acknowledged_def attempted_def intro!: exI [of _ "[]"])
next
  case (Cons c cs)
  obtain nanos b e where b: "c = (nanos, b, e)" by (cases c)
  obtain r s1 where ap: "append_entry sl nanos b e s = (r, s1)" by fastforce
  obtain rs2 where rs: "run_appends sl cs s1 = (rs2, s')" "rs = r # rs2"
    using Cons.prems(4) b ap by (auto split: prod.splits)
  note law = append_entry_ok [OF sl Cons.prems(1) ap]
  have "\<exists>h1. history (sl_json sl) (view s1) a (h @ h1) \<and> bounded_by (issued s1) (h @ h1)
     \<and> (h1 = [] \<and> (a = b \<longrightarrow> (\<forall>i. r \<noteq> Inr i)) \<or> a = b \<and> map snd h1 = [e])"
  proof (cases "view s1 = view s \<and> (\<forall>i. r \<noteq> Inr i)")
    case True
    with Cons.prems(2,3) law bounded_mono [OF Cons.prems(3)] show ?thesis by (intro exI [of _ "[]"]) simp
  next
    case False
    with law obtain i where "appended (sl_json sl) s b e i s1" by blast
    from appended_history [OF this Cons.prems(2,3)] show ?thesis
      by (intro exI [of _ "if a = b then [(i, e)] else []"]) (simp split: if_splits)
  qed
  then obtain h1 where h1: "history (sl_json sl) (view s1) a (h @ h1)" "bounded_by (issued s1) (h @ h1)"
    "h1 = [] \<and> (a = b \<longrightarrow> (\<forall>i. r \<noteq> Inr i)) \<or> a = b \<and> map snd h1 = [e]" by (elim exE conjE)
  from Cons.IH [OF _ h1(1,2) rs(1)] law obtain new where new: "ok s'" "history (sl_json sl) (view s') a ((h @ h1) @ new)"
    "bounded_by (issued s') ((h @ h1) @ new)" "subseq (acknowledged a cs rs2) (map snd new)" "subseq (map snd new) (attempted a cs)" by blast
  have "subseq (acknowledged a (c # cs) rs) (map snd (h1 @ new)) \<and> subseq (map snd (h1 @ new)) (attempted a (c # cs))"
    using h1(3) new(4,5) b rs(2) by (auto simp: acknowledged_def attempted_def)
  with new(1,2,3) show ?case by (intro exI [of _ "h1 @ new"]) simp
qed

lemma fork_ok:
  assumes sl: "session_standalone sl db" and ok: "ok s"
    and hs: "history (sl_json sl) (view s) src hs" "bounded_by (issued s) hs"
    and ht: "history (sl_json sl) (view s) target ht" "bounded_by (issued s) ht"
    and c: "fork sl nanos now src target s = (Inr out, s')"
  shows "(ht \<noteq> [] \<longrightarrow> out = TargetExists \<and> view s' = view s)
    \<and> (ht = [] \<and> hs = [] \<longrightarrow> out = SourceEmpty \<and> view s' = view s)
    \<and> (ht = [] \<and> hs \<noteq> [] \<longrightarrow> out = Forked (se_output_heap (snd (last hs))) (se_output_fs (snd (last hs)))
         \<and> (\<exists>i. history (sl_json sl) (view s') target [(i, fork_entry src now (snd (last hs)))])
         \<and> history (sl_json sl) (view s') src hs)"
proof -
  obtain r1 s1 where g1: "get_latest sl target s = (r1, s1)" by fastforce
  note l1 = get_latest_ok [OF sl ok ht(1) g1]
  from c g1 obtain x1 where r1: "r1 = Inr x1" by (cases r1) (auto simp: fork_def)
  obtain r2 s2 where g2: "get_latest sl src s1 = (r2, s2)" by fastforce
  note l2 = get_latest_ok [OF sl _ _ g2, of hs]
  show ?thesis
  proof (cases "ht = []")
    case False
    with c g1 r1 l1 show ?thesis by (auto simp: fork_def)
  next
    case True
    with c g1 r1 l1 g2 obtain x2 where r2: "r2 = Inr x2" by (cases r2) (auto simp: fork_def)
    with l2 l1 hs(1) have s2: "ok s2" "view s2 = view s" "issued s2 = issued s" "x2 = (if hs = [] then None else Some (snd (last hs)))" by simp_all
    show ?thesis
    proof (cases "hs = []")
      case empty: True
      with True c g1 r1 l1 g2 r2 s2 show ?thesis by (simp add: fork_def)
    next
      case ne: False
      let ?e = "snd (last hs)"
      obtain r3 s3 where ap: "append_entry sl nanos target (fork_entry src now ?e) s2 = (r3, s3)" by fastforce
      from True ne c g1 r1 l1 g2 r2 s2(4) ap obtain i where r3: "r3 = Inr i" "s' = s3" "out = Forked (se_output_heap ?e) (se_output_fs ?e)"
        by (cases r3) (auto simp: fork_def)
      with append_entry_ok [OF sl s2(1) ap] have "appended (sl_json sl) s2 target (fork_entry src now ?e) i s'" by simp
      from appended_history [OF this, of target ht] appended_history [OF this, of src hs] hs ht s2
      have "history (sl_json sl) (view s') target (ht @ [(i, fork_entry src now ?e)])"
        "src \<noteq> target \<longrightarrow> history (sl_json sl) (view s') src hs" by (simp_all split: if_splits)
      moreover have "src \<noteq> target" using history_empty [of "sl_json sl" "view s" target] hs(1) ht(1) sl True ne by (auto simp: session_standalone_def)
      ultimately show ?thesis using True ne r3(3) by auto
    qed
  qed
qed

end

end
