(* ===== verification/Store_Props.thy ===== *)
theory Store_Props
  imports Heap_Tags Session_Log "HOL-Library.Countable"
begin

text \<open>
  The properties of the heap tags and of the session log, on every metadata store that keeps the trait's
  contract. The witnesses use the sled backend over an in-memory sled.
\<close>

section \<open>Tags\<close>




definition one_tag :: tags where "one_tag = [(''env'', ''prod'')]"



lemma btm_ok_one_tag [simp]: "btm_ok one_tag" by (simp add: one_tag_def btm_ok_def)





section \<open>Sessions\<close>

text \<open>After any sequence of appends to any sessions, on a log that was empty, the entries of a session are listed in
  the order in which they were appended, under strictly increasing numbers: every acknowledged append is there, once,
  and nothing that was not sent to that session. The latest entry is the last of the list.\<close>

theorem session_history:
  assumes "metadata_store db ok view issued" and "session_standalone sl db" and "ok s" and "view s = (\<lambda>_ _. None)"
    and "run_appends sl cs s = (rs, s1)"
    and "list_entries sl a s1 = (Inr vs, s2)" and "get_latest sl a s1 = (Inr latest, s3)"
  shows "\<exists>es. vs = map2 snapshot_view (map sv_index vs) es
      \<and> sorted_wrt (<) (map (\<lambda>v. unat (sv_index v)) vs)
      \<and> subseq (acknowledged a cs rs) es \<and> subseq es (attempted a cs)
      \<and> latest = (if es = [] then None else Some (last es))"
proof -
  note store = assms(1)
  have "history (sl_json sl) (view s) a []" "bounded_by (issued s) []"
    by (simp_all add: history_def bounded_by_def assms(4))
  from metadata_store.run_appends_ok [OF store assms(2,3) this assms(5)] obtain h
    where h: "ok s1" "history (sl_json sl) (view s1) a h" "subseq (acknowledged a cs rs) (map snd h)" "subseq (map snd h) (attempted a cs)"
    unfolding append_Nil by blast
  have vs: "vs = map (\<lambda>(i, e). snapshot_view i e) h"
    by (rule metadata_store.list_entries_ok [OF store assms(2) h(1,2) assms(6)])
  have idx: "map sv_index vs = map fst h" unfolding vs by (simp add: snapshot_view_def case_prod_unfold)
  have "vs = map2 snapshot_view (map sv_index vs) (map snd h)" unfolding idx unfolding vs by (simp add: zip_map_fst_snd)
  moreover have "sorted_wrt (<) (map (\<lambda>v. unat (sv_index v)) vs)"
  proof -
    have "map (\<lambda>v. unat (sv_index v)) vs = map (\<lambda>p. unat (fst p)) h" by (simp add: vs snapshot_view_def case_prod_unfold)
    with h(2) show ?thesis by (simp add: history_def sorted_wrt_map)
  qed
  moreover have "latest = (if map snd h = [] then None else Some (last (map snd h)))"
    using metadata_store.get_latest_ok [OF store assms(2) h(1,2) assms(7)] by (simp add: last_map)
  ultimately show ?thesis using h(3,4) by blast
qed

instance session_log_entry_ext :: (countable) countable
  by (rule countable_classI [of "\<lambda>r. to_nat (se_input_heap r, se_output_heap r, se_output_fs r, se_code r, se_timestamp r, session_log_entry.more r)"]) simp

definition unary_session :: session_json where
  "unary_session = \<lparr>sj_ser = (\<lambda>e. Inr (replicate (to_nat e) CHR ''x'')), sj_de = (\<lambda>s. Inr (from_nat (length s)))\<rparr>"

definition mem_log :: "mem_db session_log" where
  "mem_log = \<lparr>sl_db = sled_store mem_sled, sl_cluster = None, sl_json = unary_session\<rparr>"

lemma mem_session_standalone: "session_standalone mem_log (sled_store mem_sled)"
  by (auto simp: session_standalone_def mem_log_def session_json_ok_def unary_session_def)

definition run_entry :: session_log_entry where
  "run_entry = \<lparr>se_input_heap = None, se_output_heap = ''heap1'', se_output_fs = None, se_code = ''run'', se_timestamp = ''t''\<rparr>"

definition logged_once :: mem_db where
  "logged_once = \<lparr>md_trees = (\<lambda>_. [])(''p'' := [(to_be_bytes 0, replicate (to_nat run_entry) CHR ''x'')]), md_next = 1\<rparr>"

lemma run_logged_once: "run_appends mem_log [(0, ''p'', run_entry)] mem_new = ([Inr 0], logged_once)"
  by (simp add: append_entry_def mem_log_def sled_store_def sled_store_put_def mem_sled_def mem_new_def mem_insert_def write_new_def
      unary_session_def logged_once_def fun_eq_iff)

lemma read_logged_once:
  "list_entries mem_log ''p'' logged_once = (Inr [snapshot_view 0 run_entry], logged_once)"
  "get_latest mem_log ''p'' logged_once = (Inr (Some run_entry), logged_once)"
  by (simp_all add: list_entries_def get_latest_def mem_log_def sled_store_def sled_store_scan_def mem_sled_def logged_once_def
      starts_with_def row_view_def unary_session_def)

text \<open>A fork never overwrites a session that has entries, does nothing when there is nothing to fork from, and
  otherwise gives the new session exactly one entry, which starts from the source's latest heap and file system; the
  source keeps its entries.\<close>

theorem fork_effect:
  assumes "metadata_store db ok view issued" and "session_standalone sl db" and "ok s"
    and "history (sl_json sl) (view s) src hs" "bounded_by (issued s) hs"
    and "history (sl_json sl) (view s) target ht" "bounded_by (issued s) ht"
    and "fork sl nanos now src target s = (Inr out, s')"
  shows "(case out of
      TargetExists \<Rightarrow> ht \<noteq> [] \<and> view s' = view s
    | SourceEmpty \<Rightarrow> ht = [] \<and> hs = [] \<and> view s' = view s
    | Forked heap fs \<Rightarrow> ht = [] \<and> hs \<noteq> [] \<and> heap = se_output_heap (snd (last hs)) \<and> fs = se_output_fs (snd (last hs))
        \<and> history (sl_json sl) (view s') src hs
        \<and> (\<exists>i e. history (sl_json sl) (view s') target [(i, e)]
             \<and> se_input_heap e = Some heap \<and> se_output_heap e = heap \<and> se_output_fs e = fs))"
proof -
  have "se_input_heap (fork_entry src now e) = Some (se_output_heap e)" "se_output_heap (fork_entry src now e) = se_output_heap e"
    "se_output_fs (fork_entry src now e) = se_output_fs e" for e by (simp_all add: fork_entry_def)
  with metadata_store.fork_ok [OF assms(1-8)] show ?thesis
    by (cases "ht = []"; cases "hs = []") (fastforce, fastforce, fastforce, fastforce)
qed

lemma history_once:
  "history unary_session (mem_view logged_once) ''p'' [(0, run_entry)]" "bounded_by (md_next logged_once) [(0, run_entry)]"
  "history unary_session (mem_view logged_once) ''q'' []" "bounded_by (md_next logged_once) []"
  by (auto simp: history_def bounded_by_def mem_view_def logged_once_def unary_session_def)

lemma fork_once:
  "\<exists>s'. fork mem_log 0 ''now'' ''p'' ''q'' logged_once = (Inr (Forked ''heap1'' None), s')"
proof -
  have q: "get_latest mem_log ''q'' logged_once = (Inr None, logged_once)"
    by (simp add: get_latest_def mem_log_def sled_store_def sled_store_scan_def mem_sled_def logged_once_def)
  show ?thesis
    unfolding fork_def q read_logged_once(2) bind_st_simps
    by (simp add: append_entry_def) (simp add: mem_log_def sled_store_def sled_store_put_def mem_sled_def logged_once_def
        unary_session_def run_entry_def write_new_def)
qed

text \<open>C36. In a cluster the entries of a session are found by the key prefix of its name and a colon, which is also a prefix
  of the keys of every session whose name continues with a colon: an entry appended to session \<open>a:b\<close> is returned as
  the latest entry of session \<open>a\<close>, to which nothing was appended.\<close>

theorem session_prefix_leak:
  assumes "sl_cluster sl = Some cl" and "session_json_ok (sl_json sl)"
    and scan: "\<And>p s. cl_scan_prefix cl p s = (Inr (filter (\<lambda>r. starts_with (fst r) p) (data s)), s)"
    and put: "\<And>k v s. \<exists>s'. cl_put_with_or_forward cl k v [] s = (Inr (), s') \<and> data s' = btm_insert k v (data s)"
    and "data s = []" and "append_entry sl nanos (a @ '':'' @ b) e s = (r, s')"
  shows "r = Inr 0 \<and> get_latest sl a s' = (Inr (Some e), s')"
proof -
  let ?n = "a @ '':'' @ b" and ?p = "entry_prefix_for_session a"
  obtain x where x: "sj_ser (sl_json sl) e = Inr x" "sj_de (sl_json sl) x = Inr e" using assms(2) unfolding session_json_ok_def by blast
  obtain s1 where s1: "cl_put_with_or_forward cl (make_session_key ?n) ''1'' [] s = (Inr (), s1)" "data s1 = [(make_session_key ?n, ''1'')]"
    using put [of "make_session_key ?n" "''1''" s] assms(5) by auto
  obtain s2 where s2: "cl_put_with_or_forward cl (make_entry_key nanos ?n) x [] s1 = (Inr (), s2)"
    "data s2 = btm_insert (make_entry_key nanos ?n) x [(make_session_key ?n, ''1'')]"
    using put [of "make_entry_key nanos ?n" x s1] s1(2) by auto
  have r: "r = Inr 0" "s' = s2" using assms(1,6) x s1(1) s2(1) by (simp_all add: append_entry_def)
  have "starts_with (make_entry_key nanos ?n) ?p" "\<not> starts_with (make_session_key ?n) ?p" "make_entry_key nanos ?n \<noteq> make_session_key ?n"
    by (simp_all add: starts_with_def make_entry_key_def make_session_key_def entry_prefix_for_session_def SL_ENTRY_PREFIX_def SL_SESSION_PREFIX_def)
  then have "filter (\<lambda>r. starts_with (fst r) ?p) (data s2) = [(make_entry_key nanos ?n, x)]" unfolding s2(2) by auto
  with r assms(1) x show ?thesis by (simp add: get_latest_def scan)
qed

definition map_cluster :: "(string, string) btm cluster_ops" where
  "map_cluster = \<lparr>cl_get = (\<lambda>k s. (Inr (btm_get s k), s)),
     cl_scan_prefix = (\<lambda>p s. (Inr (filter (\<lambda>r. starts_with (fst r) p) s), s)),
     cl_cas_with_or_forward = (\<lambda>k x v ws s. (if btm_get s k = x then (Inr True, fold (\<lambda>(k, v). btm_insert k v) ((k, v) # ws) s) else (Inr False, s))),
     cl_put_with_or_forward = (\<lambda>k v ws s. (Inr (), fold (\<lambda>(k, v). btm_insert k v) ((k, v) # ws) s))\<rparr>"

definition map_log :: "(string, string) btm session_log" where
  "map_log = \<lparr>sl_db = undefined, sl_cluster = Some map_cluster, sl_json = unary_session\<rparr>"

theorem session_prefix_leak_witness:
  "\<exists>s'. append_entry map_log 7 ''a:b'' run_entry [] = (Inr 0, s') \<and> get_latest map_log ''a'' s' = (Inr (Some run_entry), s')"
proof -
  obtain r s' where ap: "append_entry map_log 7 (''a'' @ '':'' @ ''b'') run_entry [] = (r, s')" by fastforce
  have "r = Inr 0 \<and> get_latest map_log ''a'' s' = (Inr (Some run_entry), s')"
    by (rule session_prefix_leak [where cl = map_cluster and data = "\<lambda>s. s", OF _ _ _ _ _ ap])
      (simp_all add: map_log_def map_cluster_def session_json_ok_def unary_session_def)
  with ap show ?thesis by simp
qed

end
