(* ===== verification/Cluster_Node.thy ===== *)
theory Cluster_Node
  imports BTree_Map
begin

text \<open>
  One node of the cluster (\<open>src/server/src/cluster.rs\<close>): the Raft state, what it keeps on disk, the handlers of its
  RPCs, elections, replication, proposals and membership. Every section of the code that holds the state lock is one
  function from nodes to nodes; what runs between two such sections is in \<open>Cluster_System\<close>.

  Terms and indices are natural numbers: terms are kept at or below \<open>MAX_RAFT_TERM\<close> by explicit checks, which are
  modelled, and an index is a position in a log held in memory. The values that \<open>serde_json\<close> writes and reads back
  are kept decoded on the modelled disk, except in the tree of user data, where the marker of the last
  applied entry is a row like the others (\<open>cj_marker\<close>). \<open>cn_io\<close> lists the outcomes of the disk writes to come.
  Times of heartbeats are not modelled: a timer may fire at any moment.
\<close>

section \<open>Types\<close>

datatype role = Leader | Follower | Candidate

record log_entry =
  le_term :: nat
  le_index :: nat
  le_key :: string
  le_value :: string
  le_extra :: "(string \<times> string) list"

record append_request =
  ar_term :: nat
  ar_leader_id :: string
  ar_prev_log_index :: nat
  ar_prev_log_term :: nat
  ar_entries :: "log_entry list"
  ar_leader_commit :: nat
  ar_peer_addrs :: "(string, string) btm option"
  ar_learner_addrs :: "string list option"

record append_response =
  as_term :: nat
  as_success :: bool

record vote_request =
  vr_term :: nat
  vr_candidate_id :: string
  vr_last_log_index :: nat
  vr_last_log_term :: nat

record vote_response =
  vs_term :: nat
  vs_granted :: bool

record cluster_status =
  ks_node_id :: string
  ks_role :: role
  ks_term :: nat
  ks_leader_id :: "string option"
  ks_commit_index :: nat
  ks_last_applied :: nat
  ks_log_length :: nat
  ks_peers :: "string list"
  ks_peer_addrs :: "(string, string) btm"
  ks_learners :: "string list"
  ks_is_learner :: bool

record cluster_config =
  cc_node_id :: string
  cc_peers :: "string list"
  cc_peer_addrs :: "(string, string) btm"
  cc_cluster_port :: nat
  cc_advertise_addr :: "string option"
  cc_heartbeat_interval :: nat
  cc_election_timeout_min :: nat
  cc_election_timeout_max :: nat
  cc_learner :: bool

definition MAX_APPEND_BYTES :: nat where "MAX_APPEND_BYTES = 12 * 1024 * 1024"
definition MAX_RAFT_BODY_BYTES :: nat where "MAX_RAFT_BODY_BYTES = 16 * 1024 * 1024"
definition MAX_APPEND_ENTRIES :: nat where "MAX_APPEND_ENTRIES = 32"
definition MAX_RAFT_TERM :: nat where "MAX_RAFT_TERM = 2 ^ 63 - 1"
definition APPLIED_KEY :: string where "APPLIED_KEY = char_of (0::nat) # ''raft_applied''"

text \<open>\<open>split_once('@')\<close>.\<close>

fun split_at :: "string \<Rightarrow> (string \<times> string) option" where
  "split_at [] = None"
| "split_at (c # cs) = (if c = CHR ''@'' then Some ([], cs) else map_option (\<lambda>(a, b). (c # a, b)) (split_at cs))"

definition parse_peers :: "string list \<Rightarrow> string list \<times> (string, string) btm" where
  "parse_peers raw =
     fold (\<lambda>ent (peers, addrs). case split_at ent of
             Some (i, addr) \<Rightarrow> (peers @ [addr], btm_insert i addr addrs)
           | None \<Rightarrow> (peers @ [ent], addrs)) raw ([], [])"

definition default_config :: cluster_config where
  "default_config = \<lparr>cc_node_id = ''node1'', cc_peers = [], cc_peer_addrs = [], cc_cluster_port = 4000, cc_advertise_addr = None,
     cc_heartbeat_interval = 100, cc_election_timeout_min = 300, cc_election_timeout_max = 500, cc_learner = False\<rparr>"

section \<open>State\<close>

record raft_state =
  role_of :: role
  current_term :: nat
  voted_for :: "string option"
  leader_id :: "string option"
  raft_log :: "log_entry list"
  commit_index :: nat
  last_applied :: nat
  next_index :: "string \<Rightarrow> nat option"
  match_index :: "string \<Rightarrow> nat option"
  raft_peers :: "string list"
  peer_addrs :: "(string, string) btm"
  learners :: "string list"

definition raft_state_new :: raft_state where
  "raft_state_new = \<lparr>role_of = Follower, current_term = 0, voted_for = None, leader_id = None, raft_log = [], commit_index = 0,
     last_applied = 0, next_index = Map.empty, match_index = Map.empty, raft_peers = [], peer_addrs = [], learners = []\<rparr>"

definition last_log_index :: "raft_state \<Rightarrow> nat" where
  "last_log_index st = (if raft_log st = [] then 0 else le_index (last (raft_log st)))"

definition last_log_term :: "raft_state \<Rightarrow> nat" where
  "last_log_term st = (if raft_log st = [] then 0 else le_term (last (raft_log st)))"

definition voter_peers :: "raft_state \<Rightarrow> string list" where
  "voter_peers st = filter (\<lambda>p. p \<notin> set (learners st)) (raft_peers st)"

text \<open>The disk: the keys of the default tree, the tree of log entries by index, and the tree of data.\<close>

record node_disk =
  nd_meta :: "(nat \<times> string option) option"
  nd_fixed_voters :: "(string, string) btm option"
  nd_peers :: "(string, string) btm option"
  nd_learners :: "string list option"
  nd_log :: "(nat, log_entry) btm"
  nd_data :: "(string, string) btm"

definition fresh_disk :: node_disk where
  "fresh_disk = \<lparr>nd_meta = None, nd_fixed_voters = None, nd_peers = None, nd_learners = None, nd_log = [], nd_data = []\<rparr>"

text \<open>The outcome of a write and its flush: done, failed and not on disk, or failed although it is on disk.\<close>

datatype io_outcome = IoOk | IoLost | IoKept

record cluster_node =
  cn_config :: cluster_config
  cn_state :: raft_state
  cn_disk :: node_disk
  cn_fixed :: "(string, string) btm option"
  cn_bearer :: "string option"
  cn_stopped :: bool
  cn_io :: "io_outcome list"

text \<open>\<open>serde_json\<close>: the encoded size of a log entry, and the marker of the last applied entry.\<close>

record cluster_json =
  cj_size :: "log_entry \<Rightarrow> nat option"
  cj_marker :: "nat \<times> nat \<Rightarrow> string"
  cj_unmarker :: "string \<Rightarrow> (nat \<times> nat) option"

definition nth_opt :: "'a list \<Rightarrow> nat \<Rightarrow> 'a option" where
  "nth_opt xs i = (if i < length xs then Some (xs ! i) else None)"

definition set_state :: "raft_state \<Rightarrow> cluster_node \<Rightarrow> cluster_node" where
  "set_state st n = n\<lparr>cn_state := st\<rparr>"

section \<open>Persistence\<close>

definition healthy :: "cluster_node \<Rightarrow> unit result" where
  "healthy n = (if cn_stopped n then Inl (Err ''cluster stopped or storage failed; outcome may be unknown'') else Inr ())"

definition durable :: "(node_disk \<Rightarrow> node_disk) \<Rightarrow> cluster_node \<Rightarrow> unit result \<times> cluster_node" where
  "durable f n =
     (case cn_io n of
        [] \<Rightarrow> (Inr (), n\<lparr>cn_disk := f (cn_disk n)\<rparr>)
      | IoOk # io \<Rightarrow> (Inr (), n\<lparr>cn_disk := f (cn_disk n), cn_io := io\<rparr>)
      | IoLost # io \<Rightarrow> (Inl (Err ''Raft storage failed''), n\<lparr>cn_stopped := True, cn_io := io\<rparr>)
      | IoKept # io \<Rightarrow> (Inl (Err ''Raft storage failed''), n\<lparr>cn_disk := f (cn_disk n), cn_stopped := True, cn_io := io\<rparr>))"

definition persist_peers :: "cluster_node \<Rightarrow> unit result \<times> cluster_node" where
  "persist_peers n =
     durable (\<lambda>d. d\<lparr>nd_peers := Some (peer_addrs (cn_state n)), nd_learners := Some (learners (cn_state n))\<rparr>) n"

definition persist_meta :: "cluster_node \<Rightarrow> unit result \<times> cluster_node" where
  "persist_meta n = durable (\<lambda>d. d\<lparr>nd_meta := Some (current_term (cn_state n), voted_for (cn_state n))\<rparr>) n"

definition too_big :: "cluster_json \<Rightarrow> log_entry \<Rightarrow> bool" where
  "too_big J e = (case cj_size J e of None \<Rightarrow> True | Some b \<Rightarrow> b > MAX_APPEND_BYTES)"

definition persist_log_entry :: "cluster_json \<Rightarrow> log_entry \<Rightarrow> cluster_node \<Rightarrow> unit result \<times> cluster_node" where
  "persist_log_entry J e n =
     (if too_big J e then (Inl (Err ''Raft entry exceeds replication budget''), n)
      else durable (\<lambda>d. d\<lparr>nd_log := btm_insert (le_index e) e (nd_log d)\<rparr>) n)"

definition truncate_log_from :: "nat \<Rightarrow> cluster_node \<Rightarrow> unit result \<times> cluster_node" where
  "truncate_log_from i n = durable (\<lambda>d. d\<lparr>nd_log := btm_retain (\<lambda>k _. k < i) (nd_log d)\<rparr>) n"

definition reserved :: "string \<Rightarrow> bool" where
  "reserved key = starts_with key [char_of (0::nat)]"

definition valid_keys :: "string \<Rightarrow> (string \<times> string) list \<Rightarrow> bool" where
  "valid_keys key extra \<longleftrightarrow> \<not> reserved key \<and> list_all (\<lambda>kv. \<not> reserved (fst kv)) extra"

section \<open>Applying entries\<close>

definition apply_entry :: "cluster_json \<Rightarrow> log_entry \<Rightarrow> (string, string) btm \<Rightarrow> (string, string) btm" where
  "apply_entry J e m =
     btm_insert APPLIED_KEY (cj_marker J (le_index e, le_term e))
       (fold (\<lambda>(k, v). btm_insert k v) ((le_key e, le_value e) # le_extra e) m)"

definition apply_log_entry :: "cluster_json \<Rightarrow> log_entry \<Rightarrow> cluster_node \<Rightarrow> unit result \<times> cluster_node" where
  "apply_log_entry J e n = durable (\<lambda>d. d\<lparr>nd_data := apply_entry J e (nd_data d)\<rparr>) n"

text \<open>\<open>k\<close> rounds of the loop of \<open>apply_committed\<close>.\<close>

fun apply_rounds :: "cluster_json \<Rightarrow> nat \<Rightarrow> cluster_node \<Rightarrow> unit result \<times> cluster_node" where
  "apply_rounds J 0 n = (Inr (), n)"
| "apply_rounds J (Suc k) n =
     (case nth_opt (raft_log (cn_state n)) (last_applied (cn_state n)) of
        None \<Rightarrow> (Inl (Panic ''index out of bounds''), n)
      | Some e \<Rightarrow>
         (case apply_log_entry J e n of
            (Inl x, n') \<Rightarrow> (Inl x, n')
          | (Inr _, n') \<Rightarrow>
              apply_rounds J k (set_state ((cn_state n')\<lparr>last_applied := last_applied (cn_state n') + 1\<rparr>) n')))"

definition apply_committed :: "cluster_json \<Rightarrow> cluster_node \<Rightarrow> unit result \<times> cluster_node" where
  "apply_committed J n = apply_rounds J (commit_index (cn_state n) - last_applied (cn_state n)) n"

section \<open>Replication: the follower\<close>

definition append_reject :: "cluster_node \<Rightarrow> append_response result \<times> cluster_node" where
  "append_reject n = (Inr \<lparr>as_term = current_term (cn_state n), as_success = False\<rparr>, n)"

text \<open>A node with sealed voters accepts a leader that is a voter and a membership with exactly those voters.\<close>

definition membership_ok :: "cluster_node \<Rightarrow> append_request \<Rightarrow> bool" where
  "membership_ok n req =
     (case cn_fixed n of
        None \<Rightarrow> True
      | Some voters \<Rightarrow>
         btm_get voters (ar_leader_id req) \<noteq> None
         \<and> (case ar_peer_addrs req of
              None \<Rightarrow> True
            | Some peers \<Rightarrow>
               (let ls = (case ar_learner_addrs req of None \<Rightarrow> [] | Some l \<Rightarrow> l)
                in btm_retain (\<lambda>_ addr. addr \<notin> set ls) peers = voters)))"

definition prev_ok :: "raft_state \<Rightarrow> append_request \<Rightarrow> bool" where
  "prev_ok st req \<longleftrightarrow> \<not> ((ar_prev_log_index req = 0 \<and> ar_prev_log_term req \<noteq> 0)
     \<or> (ar_prev_log_index req > 0
        \<and> \<not> (case nth_opt (raft_log st) (ar_prev_log_index req - 1) of
               None \<Rightarrow> False | Some e \<Rightarrow> le_term e = ar_prev_log_term req)))"

text \<open>The checks on the entry at \<open>offset\<close>; \<open>checked_add\<close> is the bound on its index.\<close>

definition entry_ok :: "raft_state \<Rightarrow> append_request \<Rightarrow> nat \<times> log_entry \<Rightarrow> bool" where
  "entry_ok st req oe \<longleftrightarrow>
     (let offset = fst oe; e = snd oe in
      ar_prev_log_index req + (offset + 1) < 2 ^ 64 \<and> le_index e = ar_prev_log_index req + (offset + 1)
      \<and> le_term e \<le> ar_term req \<and> le_term e \<noteq> 0 \<and> valid_keys (le_key e) (le_extra e)
      \<and> \<not> (case nth_opt (raft_log st) (le_index e - 1) of
             None \<Rightarrow> False
           | Some old \<Rightarrow> old \<noteq> e \<and> (le_index e \<le> commit_index st \<or> le_term old = le_term e)))"

definition entries_ok :: "raft_state \<Rightarrow> append_request \<Rightarrow> bool" where
  "entries_ok st req = list_all (entry_ok st req) (List.enumerate 0 (ar_entries req))"

definition push_entry :: "cluster_json \<Rightarrow> log_entry \<Rightarrow> cluster_node \<Rightarrow> unit result \<times> cluster_node" where
  "push_entry J e n =
     (case persist_log_entry J e n of
        (Inl x, n') \<Rightarrow> (Inl x, n')
      | (Inr _, n') \<Rightarrow> (Inr (), set_state ((cn_state n')\<lparr>raft_log := raft_log (cn_state n') @ [e]\<rparr>) n'))"

text \<open>A conflicting suffix is cut off before the entry is stored.\<close>

definition cut_conflict :: "log_entry \<Rightarrow> cluster_node \<Rightarrow> unit result \<times> cluster_node" where
  "cut_conflict e n =
     (let index = le_index e - 1 in
      case nth_opt (raft_log (cn_state n)) index of
        None \<Rightarrow> (Inr (), n)
      | Some old \<Rightarrow>
         if le_term old \<noteq> le_term e
         then (case truncate_log_from (le_index e) n of
                 (Inl x, n') \<Rightarrow> (Inl x, n')
               | (Inr _, n') \<Rightarrow> (Inr (), set_state ((cn_state n')\<lparr>raft_log := take index (raft_log (cn_state n'))\<rparr>) n'))
         else (Inr (), n))"

fun append_entries :: "cluster_json \<Rightarrow> log_entry list \<Rightarrow> cluster_node \<Rightarrow> unit result \<times> cluster_node" where
  "append_entries J [] n = (Inr (), n)"
| "append_entries J (e # es) n =
     (case cut_conflict e n of
        (Inl x, n1) \<Rightarrow> (Inl x, n1)
      | (Inr _, n1) \<Rightarrow>
         if le_index e - 1 = length (raft_log (cn_state n1))
         then (case push_entry J e n1 of (Inl x, n2) \<Rightarrow> (Inl x, n2) | (Inr _, n2) \<Rightarrow> append_entries J es n2)
         else append_entries J es n1)"

text \<open>The members other than the node itself, each once.\<close>

definition other_addrs :: "string \<Rightarrow> (string, string) btm \<Rightarrow> string list" where
  "other_addrs node_id addrs = map snd (filter (\<lambda>e. fst e \<noteq> node_id) addrs)"

definition sort_dedup :: "string list \<Rightarrow> string list" where
  "sort_dedup xs = remdups_adj (sort xs)"

definition adopt_peers :: "append_request \<Rightarrow> (string, string) btm \<Rightarrow> cluster_node \<Rightarrow> cluster_node" where
  "adopt_peers req peers n =
     set_state ((cn_state n)\<lparr>peer_addrs := peers, raft_peers := sort_dedup (other_addrs (cc_node_id (cn_config n)) peers),
        learners := (case ar_learner_addrs req of None \<Rightarrow> learners (cn_state n) | Some l \<Rightarrow> remdups l)\<rparr>) n"

definition follow :: "append_request \<Rightarrow> raft_state \<Rightarrow> raft_state" where
  "follow req st =
     (if ar_term req > current_term st then st\<lparr>current_term := ar_term req, voted_for := None\<rparr> else st)
       \<lparr>role_of := Follower, leader_id := Some (ar_leader_id req)\<rparr>"

definition advance_commit :: "append_request \<Rightarrow> raft_state \<Rightarrow> raft_state" where
  "advance_commit req st =
     st\<lparr>commit_index := max (commit_index st) (min (ar_leader_commit req) (ar_prev_log_index req + length (ar_entries req)))\<rparr>"

definition handle_append_entries :: "cluster_json \<Rightarrow> append_request \<Rightarrow> cluster_node \<Rightarrow> append_response result \<times> cluster_node" where
  "handle_append_entries J req n =
     (if cn_stopped n \<or> ar_term req > MAX_RAFT_TERM \<or> ar_term req < current_term (cn_state n)
         \<or> list_ex (too_big J) (ar_entries req)
      then append_reject n
      else if \<not> membership_ok n req then append_reject n
      else case persist_meta (set_state (follow req (cn_state n)) n) of
        (Inl _, n1) \<Rightarrow> append_reject n1
      | (Inr _, n1) \<Rightarrow>
         if \<not> prev_ok (cn_state n1) req \<or> \<not> entries_ok (cn_state n1) req then append_reject n1
         else case append_entries J (ar_entries req) n1 of
           (Inl _, n2) \<Rightarrow> append_reject n2
         | (Inr _, n2) \<Rightarrow>
            (case apply_committed J (set_state (advance_commit req (cn_state n2)) n2) of
               (Inl (Panic m), n3) \<Rightarrow> (Inl (Panic m), n3)
             | (Inl (Err _), n3) \<Rightarrow> append_reject n3
             | (Inr _, n3) \<Rightarrow>
                (case ar_peer_addrs req of
                   None \<Rightarrow> (Inr \<lparr>as_term = current_term (cn_state n3), as_success = True\<rparr>, n3)
                 | Some peers \<Rightarrow>
                    (case persist_peers (adopt_peers req peers n3) of
                       (Inl _, n4) \<Rightarrow> append_reject n4
                     | (Inr _, n4) \<Rightarrow> (Inr \<lparr>as_term = current_term (cn_state n4), as_success = True\<rparr>, n4)))))"

section \<open>Votes\<close>

definition vote_answer :: "bool \<Rightarrow> cluster_node \<Rightarrow> vote_response \<times> cluster_node" where
  "vote_answer granted n = (\<lparr>vs_term = current_term (cn_state n), vs_granted = granted\<rparr>, n)"

definition log_up_to_date :: "vote_request \<Rightarrow> raft_state \<Rightarrow> bool" where
  "log_up_to_date req st \<longleftrightarrow> vr_last_log_term req > last_log_term st
     \<or> (vr_last_log_term req = last_log_term st \<and> vr_last_log_index req \<ge> last_log_index st)"

definition step_down :: "nat \<Rightarrow> raft_state \<Rightarrow> raft_state" where
  "step_down term st = st\<lparr>current_term := term, role_of := Follower, voted_for := None, leader_id := None\<rparr>"

definition handle_request_vote :: "vote_request \<Rightarrow> cluster_node \<Rightarrow> vote_response \<times> cluster_node" where
  "handle_request_vote req n =
     (let st = cn_state n in
      if cn_stopped n \<or> vr_term req > MAX_RAFT_TERM \<or> vr_last_log_term req > vr_term req
         \<or> (case cn_fixed n of None \<Rightarrow> False | Some voters \<Rightarrow> btm_get voters (vr_candidate_id req) = None)
      then vote_answer False n
      else if cc_learner (cn_config n)
      then (if vr_term req > current_term st
            then vote_answer False (snd (persist_meta (set_state (st\<lparr>current_term := vr_term req, voted_for := None\<rparr>) n)))
            else vote_answer False n)
      else if vr_term req < current_term st then vote_answer False n
      else
       (let st1 = (if vr_term req > current_term st then step_down (vr_term req) st else st) in
        if (voted_for st1 = None \<or> voted_for st1 = Some (vr_candidate_id req)) \<and> log_up_to_date req st1
        then (case persist_meta (set_state (st1\<lparr>voted_for := Some (vr_candidate_id req)\<rparr>) n) of
                (Inl _, n') \<Rightarrow> vote_answer False n'
              | (Inr _, n') \<Rightarrow> vote_answer True n')
        else vote_answer False (snd (persist_meta (set_state st1 n)))))"

section \<open>Elections\<close>

text \<open>What \<open>start_election\<close> keeps between two sections: its term, the peers that have not answered, and the tally.\<close>

record election =
  el_term :: nat
  el_last_index :: nat
  el_last_term :: nat
  el_waiting :: "string list"
  el_votes :: nat
  el_majority :: nat

definition begin_election :: "cluster_node \<Rightarrow> election option \<times> cluster_node" where
  "begin_election n =
     (let st = cn_state n in
      if \<not> (current_term st + 1 < 2 ^ 64 \<and> current_term st + 1 \<le> MAX_RAFT_TERM) then (None, n\<lparr>cn_stopped := True\<rparr>)
      else
       (let st1 = st\<lparr>current_term := current_term st + 1, role_of := Candidate, voted_for := Some (cc_node_id (cn_config n)),
              leader_id := None\<rparr>;
            n1 = set_state st1 n
        in if cn_stopped n then (None, n1)
           else case persist_meta n1 of
             (Inl _, n2) \<Rightarrow> (None, n2)
           | (Inr _, n2) \<Rightarrow>
              (Some \<lparr>el_term = current_term st1, el_last_index = last_log_index st1, el_last_term = last_log_term st1,
                 el_waiting = voter_peers st1, el_votes = 1, el_majority = (length (voter_peers st1) + 1) div 2 + 1\<rparr>, n2)))"

definition election_request :: "string \<Rightarrow> election \<Rightarrow> vote_request" where
  "election_request node_id el = \<lparr>vr_term = el_term el, vr_candidate_id = node_id, vr_last_log_index = el_last_index el,
     vr_last_log_term = el_last_term el\<rparr>"

text \<open>The request to \<open>peer\<close> has completed, with an answer or without; no election left means that the call returned.\<close>

definition election_reply :: "string \<Rightarrow> vote_response option \<Rightarrow> election \<Rightarrow> cluster_node \<Rightarrow> election option \<times> cluster_node" where
  "election_reply peer answer el n =
     (let el1 = el\<lparr>el_waiting := remove1 peer (el_waiting el)\<rparr>; st = cn_state n in
      case answer of
        None \<Rightarrow> (Some el1, n)
      | Some resp \<Rightarrow>
         if vs_term resp > MAX_RAFT_TERM then (Some el1, n)
         else if vs_term resp > current_term st then (None, snd (persist_meta (set_state (step_down (vs_term resp) st) n)))
         else if cn_stopped n \<or> current_term st \<noteq> el_term el \<or> role_of st \<noteq> Candidate then (None, n)
         else if vs_term resp = el_term el \<and> vs_granted resp then (Some (el1\<lparr>el_votes := el_votes el1 + 1\<rparr>), n)
         else (Some el1, n))"

definition reset_peers :: "string list \<Rightarrow> nat \<Rightarrow> raft_state \<Rightarrow> raft_state" where
  "reset_peers peers last_index st =
     fold (\<lambda>p st. st\<lparr>next_index := (next_index st)(p \<mapsto> last_index + 1), match_index := (match_index st)(p \<mapsto> 0)\<rparr>) peers st"

definition finish_election :: "election \<Rightarrow> cluster_node \<Rightarrow> cluster_node" where
  "finish_election el n =
     (let st = cn_state n in
      if el_votes el \<ge> el_majority el \<and> \<not> cn_stopped n \<and> current_term st = el_term el \<and> role_of st = Candidate
      then snd (persist_meta (set_state (reset_peers (raft_peers st) (last_log_index st)
             (st\<lparr>role_of := Leader, leader_id := Some (cc_node_id (cn_config n))\<rparr>)) n))
      else n)"

section \<open>Replication: the leader\<close>

text \<open>Entries from an index on, at most \<open>MAX_APPEND_ENTRIES\<close> and within the byte budget.\<close>

fun within_budget :: "cluster_json \<Rightarrow> nat \<Rightarrow> log_entry list \<Rightarrow> log_entry list" where
  "within_budget J bytes [] = []"
| "within_budget J bytes (e # es) =
     (let size = (case cj_size J e of None \<Rightarrow> MAX_RAFT_BODY_BYTES | Some b \<Rightarrow> b) in
      if bytes + size > MAX_APPEND_BYTES then [] else e # within_budget J (bytes + size) es)"

definition append_request_to :: "cluster_json \<Rightarrow> string \<Rightarrow> cluster_node \<Rightarrow> append_request option" where
  "append_request_to J peer n =
     (let st = cn_state n in
      if role_of st \<noteq> Leader then None
      else
       (let next_idx = (case next_index st peer of None \<Rightarrow> 1 | Some i \<Rightarrow> i);
            prev_idx = (if next_idx > 0 then next_idx - 1 else 0);
            prev_term = (if prev_idx > 0
                         then (case nth_opt (raft_log st) (prev_idx - 1) of None \<Rightarrow> 0 | Some e \<Rightarrow> le_term e) else 0)
        in Some \<lparr>ar_term = current_term st, ar_leader_id = cc_node_id (cn_config n), ar_prev_log_index = prev_idx,
             ar_prev_log_term = prev_term,
             ar_entries = within_budget J 0 (take MAX_APPEND_ENTRIES (filter (\<lambda>e. le_index e \<ge> next_idx) (raft_log st))),
             ar_leader_commit = commit_index st, ar_peer_addrs = Some (peer_addrs st), ar_learner_addrs = Some (learners st)\<rparr>))"

text \<open>The index that a successful answer to a request confirms.\<close>

definition matched_index :: "append_request \<Rightarrow> nat" where
  "matched_index req = (if ar_entries req = [] then ar_prev_log_index req else le_index (last (ar_entries req)))"

definition accept_append_response ::
  "string \<Rightarrow> nat \<Rightarrow> nat \<Rightarrow> nat \<Rightarrow> append_response \<Rightarrow> cluster_node \<Rightarrow> cluster_node" where
  "accept_append_response peer term prev_log_index matched resp n =
     (let st = cn_state n in
      if as_term resp > MAX_RAFT_TERM then n
      else if as_term resp > current_term st then snd (persist_meta (set_state (step_down (as_term resp) st) n))
      else if cn_stopped n \<or> role_of st \<noteq> Leader \<or> current_term st \<noteq> term \<or> as_term resp \<noteq> term then n
      else
       (let next = (case next_index st peer of None \<Rightarrow> 1 | Some i \<Rightarrow> i);
            old = (case match_index st peer of None \<Rightarrow> 0 | Some i \<Rightarrow> i)
        in if as_success resp
           then set_state (st\<lparr>match_index := (match_index st)(peer \<mapsto> max old matched),
                  next_index := (next_index st)(peer \<mapsto> max next (matched + 1))\<rparr>) n
           else if next = prev_log_index + 1 \<and> next > 1
           then set_state (st\<lparr>next_index := (next_index st)(peer \<mapsto> max (next div 2) 1)\<rparr>) n
           else n))"

text \<open>A quorum of voters, the leader among them, has the entry at \<open>i\<close>, and it is of the current term.\<close>

definition replication_count :: "raft_state \<Rightarrow> nat \<Rightarrow> nat" where
  "replication_count st i =
     1 + length (filter (\<lambda>p. (case match_index st p of None \<Rightarrow> 0 | Some m \<Rightarrow> m) \<ge> i) (voter_peers st))"

definition committable :: "raft_state \<Rightarrow> nat \<Rightarrow> bool" where
  "committable st i \<longleftrightarrow> replication_count st i \<ge> (length (voter_peers st) + 1) div 2 + 1
     \<and> (case nth_opt (raft_log st) (i - 1) of None \<Rightarrow> False | Some e \<Rightarrow> le_term e = current_term st)"

definition highest_committable :: "raft_state \<Rightarrow> nat" where
  "highest_committable st =
     (case List.find (committable st) (rev [Suc (commit_index st)..<Suc (last_log_index st)]) of
        None \<Rightarrow> commit_index st | Some i \<Rightarrow> i)"

definition update_commit_index :: "cluster_json \<Rightarrow> cluster_node \<Rightarrow> unit result \<times> cluster_node" where
  "update_commit_index J n =
     (if cn_stopped n \<or> role_of (cn_state n) \<noteq> Leader then (Inr (), n)
      else apply_committed J (set_state ((cn_state n)\<lparr>commit_index := highest_committable (cn_state n)\<rparr>) n))"

section \<open>Proposals\<close>

definition scheduler_key :: "string \<Rightarrow> bool" where
  "scheduler_key key = starts_with key ''scheduler/''"

definition client_keys :: "string \<Rightarrow> (string \<times> string) list \<Rightarrow> bool" where
  "client_keys key extra \<longleftrightarrow> valid_keys key extra \<and> \<not> scheduler_key key \<and> \<not> list_ex (\<lambda>kv. scheduler_key (fst kv)) extra"

definition not_leader :: "raft_state \<Rightarrow> 'a result" where
  "not_leader st = Inl (Err (''not the leader; current leader: '' @ (case leader_id st of None \<Rightarrow> ''None'' | Some i \<Rightarrow> ''Some('' @ [char_of (34::nat)] @ i @ [char_of (34::nat)] @ '')'')))"

text \<open>The leader stores an entry of its own: metadata, then the entry, then the log in memory.\<close>

definition propose :: "cluster_json \<Rightarrow> string \<Rightarrow> string \<Rightarrow> (string \<times> string) list \<Rightarrow> cluster_node \<Rightarrow> log_entry result \<times> cluster_node" where
  "propose J key value extra n =
     (let st = cn_state n;
          e = \<lparr>le_term = current_term st, le_index = last_log_index st + 1, le_key = key, le_value = value, le_extra = extra\<rparr>
      in case persist_meta n of
           (Inl x, n1) \<Rightarrow> (Inl x, n1)
         | (Inr _, n1) \<Rightarrow> (case push_entry J e n1 of (Inl x, n2) \<Rightarrow> (Inl x, n2) | (Inr _, n2) \<Rightarrow> (Inr e, n2)))"

definition put_with :: "cluster_json \<Rightarrow> string \<Rightarrow> string \<Rightarrow> (string \<times> string) list \<Rightarrow> cluster_node \<Rightarrow> log_entry result \<times> cluster_node" where
  "put_with J key value extra n =
     (case healthy n of
        Inl x \<Rightarrow> (Inl x, n)
      | Inr _ \<Rightarrow>
         if \<not> client_keys key extra then (Inl (Err ''reserved consensus key''), n)
         else if role_of (cn_state n) \<noteq> Leader then (not_leader (cn_state n), n)
         else propose J key value extra n)"

text \<open>The latest value that the log gives a key: the last entry that writes it, and in it the last companion write.\<close>

definition entry_value :: "string \<Rightarrow> log_entry \<Rightarrow> string option" where
  "entry_value key e =
     (case List.find (\<lambda>kv. fst kv = key) (rev (le_extra e)) of
        Some kv \<Rightarrow> Some (snd kv)
      | None \<Rightarrow> if le_key e = key then Some (le_value e) else None)"

fun find_value :: "string \<Rightarrow> log_entry list \<Rightarrow> string option" where
  "find_value key [] = None"
| "find_value key (e # es) = (case entry_value key e of Some v \<Rightarrow> Some v | None \<Rightarrow> find_value key es)"

definition read_applied :: "string \<Rightarrow> cluster_node \<Rightarrow> string option" where
  "read_applied key n = btm_get (nd_data (cn_disk n)) key"

definition pending_value :: "string \<Rightarrow> cluster_node \<Rightarrow> string option" where
  "pending_value key n =
     (case find_value key (rev (raft_log (cn_state n))) of Some v \<Rightarrow> Some v | None \<Rightarrow> read_applied key n)"

text \<open>\<open>None\<close>: the compare did not match.\<close>

definition cas_internal ::
  "cluster_json \<Rightarrow> string \<Rightarrow> string option \<Rightarrow> string \<Rightarrow> (string \<times> string) list \<Rightarrow> nat option \<Rightarrow> cluster_node
   \<Rightarrow> log_entry option result \<times> cluster_node" where
  "cas_internal J key expected new extra expected_term n =
     (case healthy n of
        Inl x \<Rightarrow> (Inl x, n)
      | Inr _ \<Rightarrow>
         if role_of (cn_state n) \<noteq> Leader
            \<or> (case expected_term of None \<Rightarrow> False | Some t \<Rightarrow> t \<noteq> current_term (cn_state n))
         then (not_leader (cn_state n), n)
         else if pending_value key n \<noteq> expected then (Inr None, n)
         else (case propose J key new extra n of (Inl x, n') \<Rightarrow> (Inl x, n') | (Inr e, n') \<Rightarrow> (Inr (Some e), n')))"

definition cas_with ::
  "cluster_json \<Rightarrow> string \<Rightarrow> string option \<Rightarrow> string \<Rightarrow> (string \<times> string) list \<Rightarrow> cluster_node \<Rightarrow> log_entry option result \<times> cluster_node" where
  "cas_with J key expected new extra n =
     (case healthy n of
        Inl x \<Rightarrow> (Inl x, n)
      | Inr _ \<Rightarrow>
         if \<not> client_keys key extra then (Inl (Err ''reserved consensus key''), n)
         else cas_internal J key expected new extra None n)"

definition scheduler_cas ::
  "cluster_json \<Rightarrow> nat \<Rightarrow> string \<Rightarrow> string option \<Rightarrow> string \<Rightarrow> cluster_node \<Rightarrow> log_entry option result \<times> cluster_node" where
  "scheduler_cas J expected_term key expected new n =
     (if cn_fixed n = None \<or> \<not> scheduler_key key then (Inl (Err ''fixed-voter scheduler namespace required''), n)
      else cas_internal J key expected new [] (Some expected_term) n)"

fun decimal_text :: "nat \<Rightarrow> string" where
  "decimal_text n = (if n < 10 then [char_of (48 + n)] else decimal_text (n div 10) @ [char_of (48 + n mod 10)])"

declare decimal_text.simps [simp del]

definition scheduler_barrier :: "cluster_json \<Rightarrow> nat \<Rightarrow> cluster_node \<Rightarrow> log_entry result \<times> cluster_node" where
  "scheduler_barrier J expected_term n =
     (case healthy n of
        Inl x \<Rightarrow> (Inl x, n)
      | Inr _ \<Rightarrow>
         if cn_fixed n = None \<or> role_of (cn_state n) \<noteq> Leader \<or> current_term (cn_state n) \<noteq> expected_term
         then (Inl (Err ''scheduler leadership changed''), n)
         else propose J ''scheduler/barrier'' (decimal_text expected_term) [] n)"

text \<open>One round of \<open>await_commit\<close>; \<open>None\<close> is another round.\<close>

definition await_poll :: "log_entry \<Rightarrow> cluster_node \<Rightarrow> unit result option" where
  "await_poll e n =
     (let st = cn_state n in
      case healthy n of
        Inl x \<Rightarrow> Some (Inl x)
      | Inr _ \<Rightarrow>
         if role_of st \<noteq> Leader \<or> current_term st \<noteq> le_term e
         then Some (Inl (Err ''lost proposal leadership; outcome may be unknown''))
         else if nth_opt (raft_log st) (le_index e - 1) \<noteq> Some e then Some (Inl (Err ''proposal replaced''))
         else if last_applied st \<ge> le_index e then Some (Inr ())
         else None)"

text \<open>\<open>await_commit\<close> on the nodes that its rounds see, at most a hundred.\<close>

fun await_rounds :: "log_entry \<Rightarrow> cluster_node list \<Rightarrow> unit result" where
  "await_rounds e [] = Inl (Err ''timeout waiting for durable commit; outcome may be unknown'')"
| "await_rounds e (n # ns) = (case await_poll e n of Some r \<Rightarrow> r | None \<Rightarrow> await_rounds e ns)"

definition await_commit :: "log_entry \<Rightarrow> cluster_node list \<Rightarrow> unit result" where
  "await_commit e ns = await_rounds e (take 100 ns)"

text \<open>Where a write goes: it is refused, proposed here, or sent to the leader's address.\<close>

datatype write_route = RouteErr string | RouteLocal | RouteTo string

definition forward_route :: "string \<Rightarrow> cluster_node \<Rightarrow> write_route" where
  "forward_route path n =
     (let st = cn_state n in
      if role_of st = Leader then RouteLocal
      else case leader_id st of
        None \<Rightarrow> RouteErr ''no leader elected yet''
      | Some i \<Rightarrow>
         (case btm_get (peer_addrs st) i of
            None \<Rightarrow> RouteErr (''unknown leader address for node '' @ [char_of (39::nat)] @ i @ [char_of (39::nat)])
          | Some addr \<Rightarrow> RouteTo (''http://'' @ addr @ path)))"

definition write_or_forward :: "string \<Rightarrow> string \<Rightarrow> (string \<times> string) list \<Rightarrow> cluster_node \<Rightarrow> write_route" where
  "write_or_forward path key extra n =
     (case healthy n of
        Inl (Err x) \<Rightarrow> RouteErr x
      | Inl (Panic x) \<Rightarrow> RouteErr x
      | Inr _ \<Rightarrow> if \<not> client_keys key extra then RouteErr ''reserved consensus key'' else forward_route path n)"

abbreviation put_with_or_forward :: "string \<Rightarrow> (string \<times> string) list \<Rightarrow> cluster_node \<Rightarrow> write_route" where
  "put_with_or_forward \<equiv> write_or_forward ''/data/put''"

abbreviation cas_with_or_forward :: "string \<Rightarrow> (string \<times> string) list \<Rightarrow> cluster_node \<Rightarrow> write_route" where
  "cas_with_or_forward \<equiv> write_or_forward ''/data/cas''"

section \<open>Membership\<close>

definition add_peer :: "string \<Rightarrow> string \<Rightarrow> bool \<Rightarrow> cluster_node \<Rightarrow> unit result \<times> cluster_node" where
  "add_peer node_id addr as_learner n =
     (let st = cn_state n in
      case healthy n of
        Inl x \<Rightarrow> (Inl x, n)
      | Inr _ \<Rightarrow>
         if role_of st \<noteq> Leader then (not_leader st, n)
         else if node_id = cc_node_id (cn_config n) \<or> list_ex (\<lambda>e. fst e \<noteq> node_id \<and> snd e = addr) (peer_addrs st)
         then (Inl (Err ''duplicate peer identity/address''), n)
         else if cn_fixed n \<noteq> None \<and> \<not> as_learner then (Inl (Err ''fixed voter membership; only learner joins allowed''), n)
         else if btm_get (peer_addrs st) node_id \<noteq> None then (Inr (), n)
         else persist_peers (set_state (st\<lparr>raft_peers := raft_peers st @ [addr], peer_addrs := btm_insert node_id addr (peer_addrs st),
                learners := (if as_learner then List.insert addr (learners st) else learners st),
                next_index := (next_index st)(addr \<mapsto> last_log_index st + 1),
                match_index := (match_index st)(addr \<mapsto> 0)\<rparr>) n))"

definition remove_peer :: "string \<Rightarrow> cluster_node \<Rightarrow> unit result \<times> cluster_node" where
  "remove_peer node_id n =
     (let st = cn_state n in
      case healthy n of
        Inl x \<Rightarrow> (Inl x, n)
      | Inr _ \<Rightarrow>
         if role_of st \<noteq> Leader then (not_leader st, n)
         else if (case cn_fixed n of None \<Rightarrow> False | Some voters \<Rightarrow> btm_get voters node_id \<noteq> None)
         then (Inl (Err ''cannot remove a fixed voter''), n)
         else case btm_get (peer_addrs st) node_id of
           None \<Rightarrow> (Inl (Err (''peer '' @ [char_of (39::nat)] @ node_id @ [char_of (39::nat)] @ '' not found'')), n)
         | Some addr \<Rightarrow>
            persist_peers (set_state (st\<lparr>peer_addrs := btm_remove node_id (peer_addrs st),
              raft_peers := filter (\<lambda>p. p \<noteq> addr) (raft_peers st), learners := removeAll addr (learners st),
              next_index := (next_index st)(addr := None), match_index := (match_index st)(addr := None)\<rparr>) n))"

text \<open>A join or leave request is served by the leader and forwarded to it by the others.\<close>

definition handle_join :: "string \<Rightarrow> string \<Rightarrow> bool \<Rightarrow> cluster_node \<Rightarrow> (write_route + unit result) \<times> cluster_node" where
  "handle_join node_id addr as_learner n =
     (case healthy n of
        Inl x \<Rightarrow> (Inr (Inl x), n)
      | Inr _ \<Rightarrow>
         if role_of (cn_state n) = Leader then (case add_peer node_id addr as_learner n of (r, n') \<Rightarrow> (Inr r, n'))
         else (Inl (case Option.bind (leader_id (cn_state n)) (btm_get (peer_addrs (cn_state n))) of
                 None \<Rightarrow> RouteErr ''no leader elected yet''
               | Some a \<Rightarrow> RouteTo (''http://'' @ a @ ''/raft/join'')), n))"

definition handle_leave :: "string \<Rightarrow> cluster_node \<Rightarrow> (write_route + unit result) \<times> cluster_node" where
  "handle_leave node_id n =
     (case healthy n of
        Inl x \<Rightarrow> (Inr (Inl x), n)
      | Inr _ \<Rightarrow>
         if role_of (cn_state n) = Leader then (case remove_peer node_id n of (r, n') \<Rightarrow> (Inr r, n'))
         else (Inl (case Option.bind (leader_id (cn_state n)) (btm_get (peer_addrs (cn_state n))) of
                 None \<Rightarrow> RouteErr ''no leader elected yet''
               | Some a \<Rightarrow> RouteTo (''http://'' @ a @ ''/raft/leave'')), n))"

section \<open>Reads\<close>

definition cluster_get :: "string \<Rightarrow> cluster_node \<Rightarrow> string option" where
  "cluster_get key n = btm_get (nd_data (cn_disk n)) key"

definition cluster_scan_prefix :: "string \<Rightarrow> cluster_node \<Rightarrow> (string \<times> string) list" where
  "cluster_scan_prefix prefix n = filter (\<lambda>r. starts_with (fst r) prefix) (nd_data (cn_disk n))"

definition node_status :: "cluster_node \<Rightarrow> cluster_status" where
  "node_status n =
     (let st = cn_state n in
      \<lparr>ks_node_id = cc_node_id (cn_config n), ks_role = role_of st, ks_term = current_term st, ks_leader_id = leader_id st,
       ks_commit_index = commit_index st, ks_last_applied = last_applied st, ks_log_length = length (raft_log st),
       ks_peers = raft_peers st, ks_peer_addrs = peer_addrs st, ks_learners = learners st, ks_is_learner = cc_learner (cn_config n)\<rparr>)"

text \<open>The guard of every request: \<open>None\<close> lets it through, \<open>Some status\<close> answers it.\<close>

definition bearer_matches :: "string option \<Rightarrow> string \<Rightarrow> bool" where
  "bearer_matches header token =
     (case header of None \<Rightarrow> False | Some h \<Rightarrow> starts_with h ''Bearer '' \<and> drop (length ''Bearer '') h = token)"

definition route_guard :: "string option \<Rightarrow> nat option \<Rightarrow> cluster_node \<Rightarrow> nat option" where
  "route_guard authorization content_length n =
     (let rest = (case content_length of
                    Some l \<Rightarrow> if l > MAX_RAFT_BODY_BYTES then Some 413 else if cn_stopped n then Some 503 else None
                  | None \<Rightarrow> if cn_stopped n then Some 503 else None)
      in case cn_bearer n of
           Some token \<Rightarrow> if \<not> bearer_matches authorization token then Some 401 else rest
         | None \<Rightarrow> if cn_fixed n \<noteq> None then Some 503 else rest)"

section \<open>Starting a node\<close>

definition advertised :: "cluster_config \<Rightarrow> string" where
  "advertised cfg = (case cc_advertise_addr cfg of Some a \<Rightarrow> a | None \<Rightarrow> ''127.0.0.1:'' @ decimal_text (cc_cluster_port cfg))"

text \<open>The log on disk, in the order of its keys, with the assertions of the loader.\<close>

fun load_log :: "nat \<Rightarrow> (nat, log_entry) btm \<Rightarrow> log_entry list \<Rightarrow> log_entry list result" where
  "load_log term [] log = Inr log"
| "load_log term ((k, e) # rest) log =
     (if le_index e \<noteq> length log + 1 then Inl (Panic ''noncontiguous Raft log'')
      else if k \<noteq> le_index e then Inl (Panic ''invalid Raft log key'')
      else if \<not> le_term e \<le> term then Inl (Panic ''log exceeds durable term'')
      else load_log term rest (log @ [e]))"

definition load_marker :: "cluster_json \<Rightarrow> node_disk \<Rightarrow> log_entry list \<Rightarrow> nat result" where
  "load_marker J d log =
     (case btm_get (nd_data d) APPLIED_KEY of
        None \<Rightarrow> Inr 0
      | Some m \<Rightarrow>
         (case cj_unmarker J m of
            None \<Rightarrow> Inl (Panic ''decode applied marker'')
          | Some (index, term) \<Rightarrow>
             if index > 0 \<and> (case nth_opt log (index - 1) of None \<Rightarrow> False | Some e \<Rightarrow> le_term e = term)
             then Inr index else Inl (Panic ''applied marker missing from log'')))"

definition load_addrs :: "cluster_config \<Rightarrow> node_disk \<Rightarrow> (string, string) btm" where
  "load_addrs cfg d =
     (let own = btm_insert (cc_node_id cfg) (advertised cfg) (cc_peer_addrs cfg) in
      case nd_peers d of
        None \<Rightarrow> own
      | Some ps \<Rightarrow> fold (\<lambda>(i, a) m. if btm_get m i = None then btm_insert i a m else m) ps own)"

text \<open>The members that vote, as the sealed configuration must name them.\<close>

definition active_voters :: "cluster_config \<Rightarrow> string list \<Rightarrow> (string, string) btm \<Rightarrow> (string, string) btm" where
  "active_voters cfg ls addrs = btm_retain (\<lambda>i a. \<not> (a \<in> set ls \<or> (cc_learner cfg \<and> i = cc_node_id cfg))) addrs"

definition check_sealed :: "cluster_config \<Rightarrow> string list \<Rightarrow> (string, string) btm \<Rightarrow> (string, string) btm option \<Rightarrow> unit result" where
  "check_sealed cfg ls addrs fixed =
     (case fixed of
        None \<Rightarrow> Inr ()
      | Some voters \<Rightarrow>
         if active_voters cfg ls addrs \<noteq> voters then Inl (Panic ''configured membership differs from sealed voters'')
         else if (btm_get voters (cc_node_id cfg) \<noteq> None) \<noteq> (\<not> cc_learner cfg) then Inl (Panic ''cannot change voter role'')
         else if \<not> list_all (\<lambda>a. a \<in> snd ` set addrs) (cc_peers cfg) then Inl (Panic ''unknown address in sealed configuration'')
         else Inr ())"

definition initial_peers :: "cluster_config \<Rightarrow> (string, string) btm \<Rightarrow> (string, string) btm option \<Rightarrow> string list" where
  "initial_peers cfg addrs fixed =
     (let seeds = (if fixed \<noteq> None then [] else cc_peers cfg);
          own = the (btm_get addrs (cc_node_id cfg))
      in sort_dedup (filter (\<lambda>a. a \<noteq> own) (seeds @ other_addrs (cc_node_id cfg) addrs)))"

definition cluster_new :: "cluster_json \<Rightarrow> cluster_config \<Rightarrow> io_outcome list \<Rightarrow> node_disk \<Rightarrow> cluster_node result" where
  "cluster_new J cfg io d =
     (let meta = (case nd_meta d of None \<Rightarrow> (0, None) | Some m \<Rightarrow> m);
          addrs = load_addrs cfg d;
          ls = (case nd_learners d of None \<Rightarrow> [] | Some l \<Rightarrow> l)
      in bind_res (load_log (fst meta) (nd_log d) [])
           (\<lambda>log. bind_res (load_marker J d log)
             (\<lambda>applied. bind_res (check_sealed cfg ls addrs (nd_fixed_voters d))
               (\<lambda>_. Inr \<lparr>cn_config = cfg,
                    cn_state = raft_state_new\<lparr>current_term := fst meta, voted_for := snd meta, raft_log := log,
                      commit_index := applied, last_applied := applied,
                      raft_peers := initial_peers cfg addrs (nd_fixed_voters d), peer_addrs := addrs, learners := ls\<rparr>,
                    cn_disk = d, cn_fixed = nd_fixed_voters d, cn_bearer = None, cn_stopped = False, cn_io = io\<rparr>))))"

text \<open>Sealing: the voters of the configuration, checked against the seal on disk, or a fresh store.\<close>

definition config_voters :: "cluster_config \<Rightarrow> (string, string) btm result" where
  "config_voters cfg =
     (let peers = cc_peer_addrs cfg in
      if length (cc_peers cfg) \<noteq> length peers \<or> list_ex (\<lambda>a. a \<notin> snd ` set peers) (cc_peers cfg)
      then Inl (Err ''fixed voters require unique id@address peers'')
      else if \<not> cc_learner cfg \<and> btm_get peers (cc_node_id cfg) \<noteq> None then Inl (Err ''self must not appear in peers'')
      else
       (let voters = (if cc_learner cfg then peers else btm_insert (cc_node_id cfg) (advertised cfg) peers) in
        if length (remdups (map snd voters)) \<noteq> length voters \<or> voters = []
        then Inl (Err ''voter addresses must be unique and nonempty'') else Inr voters))"

definition new_fixed :: "cluster_json \<Rightarrow> cluster_config \<Rightarrow> io_outcome list \<Rightarrow> node_disk \<Rightarrow> cluster_node result" where
  "new_fixed J cfg io d =
     bind_res (config_voters cfg)
       (\<lambda>voters. bind_res
          (case nd_fixed_voters d of
             Some old \<Rightarrow> if old \<noteq> voters then Inl (Err ''cannot change sealed voters'') else Inr ()
           | None \<Rightarrow> if d \<noteq> fresh_disk then Inl (Err ''fixed-voter mode requires a fresh consensus store'') else Inr ())
          (\<lambda>_. cluster_new J cfg io (d\<lparr>nd_fixed_voters := Some voters\<rparr>)))"

text \<open>\<open>header_ok\<close>: whether \<open>HeaderValue::from_str\<close> accepts the text.\<close>

definition new_fixed_authenticated ::
  "(string \<Rightarrow> bool) \<Rightarrow> cluster_json \<Rightarrow> cluster_config \<Rightarrow> string \<Rightarrow> io_outcome list \<Rightarrow> node_disk \<Rightarrow> cluster_node result" where
  "new_fixed_authenticated header_ok J cfg token io d =
     (if token = [] then Inl (Err ''empty cluster credential'')
      else if \<not> header_ok (''Bearer '' @ token) then Inl (Err ''invalid cluster credential'')
      else bind_res (new_fixed J cfg io d) (\<lambda>n. Inr (n\<lparr>cn_bearer := Some token\<rparr>)))"

end
