(* ===== verification/Cluster_Inv.thy ===== *)
theory Cluster_Inv
  imports Cluster_Node "HOL-Library.Sublist"
begin

text \<open>
  The invariant of a node: what is on disk is always a well-formed log together with the data that results from
  applying a prefix of it, and a node that is running agrees with its disk. Every section of the code keeps it, for
  any request, any order and any outcome of the disk writes, and the applied prefix only grows.
\<close>

section \<open>Invariants\<close>

definition keyed :: "log_entry list \<Rightarrow> (nat, log_entry) btm" where
  "keyed log = map (\<lambda>e. (le_index e, e)) log"

definition replay :: "cluster_json \<Rightarrow> log_entry list \<Rightarrow> (string, string) btm" where
  "replay J log = fold (apply_entry J) log []"

definition wf_entry :: "nat \<Rightarrow> nat \<Rightarrow> log_entry \<Rightarrow> bool" where
  "wf_entry term i e \<longleftrightarrow> le_index e = i + 1 \<and> 0 < le_term e \<and> le_term e \<le> term \<and> valid_keys (le_key e) (le_extra e)"

definition wf_log :: "nat \<Rightarrow> log_entry list \<Rightarrow> bool" where
  "wf_log term log \<longleftrightarrow> (\<forall>i < length log. wf_entry term i (log ! i))"

definition meta_of :: "node_disk \<Rightarrow> nat \<times> string option" where
  "meta_of d = (case nd_meta d of None \<Rightarrow> (0, None) | Some m \<Rightarrow> m)"

definition mem_meta :: "raft_state \<Rightarrow> nat \<times> string option" where
  "mem_meta st = (current_term st, voted_for st)"

text \<open>Terms grow, and a vote stays for the rest of its term.\<close>

definition meta_le :: "nat \<times> string option \<Rightarrow> nat \<times> string option \<Rightarrow> bool" where
  "meta_le m m' \<longleftrightarrow> fst m < fst m' \<or> fst m = fst m' \<and> (snd m = None \<or> snd m = snd m')"

lemma meta_le_refl [simp]: "meta_le m m"
  by (simp add: meta_le_def)

lemma meta_le_trans: "meta_le a b \<Longrightarrow> meta_le b c \<Longrightarrow> meta_le a c"
  by (auto simp: meta_le_def)

lemma meta_le_fst: "meta_le a b \<Longrightarrow> fst a \<le> fst b"
  by (auto simp: meta_le_def)

definition disk_inv :: "cluster_json \<Rightarrow> node_disk \<Rightarrow> bool" where
  "disk_inv J d \<longleftrightarrow> (\<exists>log a. nd_log d = keyed log \<and> wf_log (fst (meta_of d)) log \<and> a \<le> length log \<and> nd_data d = replay J (take a log))"

text \<open>Memory and disk agree on the log and the data; \<open>in_sync\<close> adds the term and the vote.\<close>

definition log_sync :: "cluster_json \<Rightarrow> cluster_node \<Rightarrow> bool" where
  "log_sync J n \<longleftrightarrow> (let st = cn_state n; d = cn_disk n in
     nd_log d = keyed (raft_log st) \<and> wf_log (fst (meta_of d)) (raft_log st) \<and> last_applied st \<le> commit_index st
     \<and> commit_index st \<le> length (raft_log st) \<and> nd_data d = replay J (take (last_applied st) (raft_log st)))"

definition in_sync :: "cluster_json \<Rightarrow> cluster_node \<Rightarrow> bool" where
  "in_sync J n \<longleftrightarrow> log_sync J n \<and> meta_of (cn_disk n) = mem_meta (cn_state n)"

definition node_inv :: "cluster_json \<Rightarrow> cluster_node \<Rightarrow> bool" where
  "node_inv J n \<longleftrightarrow> disk_inv J (cn_disk n) \<and> meta_le (meta_of (cn_disk n)) (mem_meta (cn_state n)) \<and> (\<not> cn_stopped n \<longrightarrow> in_sync J n)"

definition marker_ok :: "cluster_json \<Rightarrow> bool" where
  "marker_ok J \<longleftrightarrow> (\<forall>p. cj_unmarker J (cj_marker J p) = Some p)"

text \<open>The entries that have been applied, as the marker on disk tells.\<close>

definition applied_len :: "cluster_json \<Rightarrow> node_disk \<Rightarrow> nat" where
  "applied_len J d =
     (case btm_get (nd_data d) APPLIED_KEY of None \<Rightarrow> 0 | Some m \<Rightarrow> (case cj_unmarker J m of None \<Rightarrow> 0 | Some p \<Rightarrow> fst p))"

definition applied_log :: "cluster_json \<Rightarrow> node_disk \<Rightarrow> log_entry list" where
  "applied_log J d = take (applied_len J d) (map snd (nd_log d))"

definition grows :: "cluster_json \<Rightarrow> cluster_node \<Rightarrow> cluster_node \<Rightarrow> bool" where
  "grows J n n' \<longleftrightarrow> prefix (applied_log J (cn_disk n)) (applied_log J (cn_disk n'))"

lemma grows_refl [simp]: "grows J n n"
  by (simp add: grows_def)

lemma grows_trans: "grows J a b \<Longrightarrow> grows J b c \<Longrightarrow> grows J a c"
  unfolding grows_def by (rule prefix_order.trans)

lemma nth_opt_eq: "nth_opt xs i = Some x \<longleftrightarrow> i < length xs \<and> xs ! i = x" "nth_opt xs i = None \<longleftrightarrow> length xs \<le> i"
  by (auto simp: nth_opt_def)

lemma keyed_snoc: "keyed (log @ [e]) = keyed log @ [(le_index e, e)]"
  by (simp add: keyed_def)

lemma map_snd_keyed [simp]: "map snd (keyed log) = log"
  by (simp add: keyed_def comp_def)

lemma length_keyed [simp]: "length (keyed log) = length log"
  by (simp add: keyed_def)

lemma replay_snoc: "replay J (log @ [e]) = apply_entry J e (replay J log)"
  by (simp add: replay_def)

lemma wf_log_Nil [simp]: "wf_log t []"
  by (simp add: wf_log_def)

lemma wf_log_snoc: "wf_log t (log @ [e]) \<longleftrightarrow> wf_log t log \<and> wf_entry t (length log) e"
  by (auto simp: wf_log_def nth_append less_Suc_eq)

lemma wf_log_take: "wf_log t log \<Longrightarrow> wf_log t (take k log)"
  by (auto simp: wf_log_def)

lemma wf_log_mono: "wf_log t log \<Longrightarrow> t \<le> t' \<Longrightarrow> wf_log t' log"
  by (auto simp: wf_log_def wf_entry_def)

lemma wf_last_index: "wf_log t (raft_log st) \<Longrightarrow> last_log_index st = length (raft_log st)"
  by (auto simp: last_log_index_def wf_log_def wf_entry_def last_conv_nth)

text \<open>Storing the next entry and cutting a suffix, on the tree of log entries.\<close>

lemma keyed_keys:
  assumes "wf_log t log"
  shows "k \<in> fst ` set (keyed log) \<longleftrightarrow> 0 < k \<and> k \<le> length log"
proof -
  have "map fst (keyed log) = map Suc [0..<length log]"
    using assms by (intro nth_equalityI) (simp_all add: keyed_def wf_log_def wf_entry_def)
  then have "fst ` set (keyed log) = Suc ` {0..<length log}" by (metis list.set_map set_upt)
  also have "\<dots> = {1..<Suc (length log)}" by (simp add: image_Suc_atLeastLessThan)
  finally show ?thesis by auto
qed

lemma keyed_insert:
  assumes "wf_log t log" and "le_index e = length log + 1"
  shows "btm_insert (le_index e) e (keyed log) = keyed (log @ [e])"
proof -
  have "\<forall>k \<in> fst ` set (keyed log). k < le_index e" using keyed_keys [OF assms(1)] assms(2) by auto
  then show ?thesis by (simp add: btm_insert_last keyed_snoc)
qed

lemma keyed_cut:
  assumes "wf_log t log" and "0 < i"
  shows "btm_retain (\<lambda>k _. k < i) (keyed log) = keyed (take (i - 1) log)"
  using assms(1)
proof (induction log rule: rev_induct)
  case (snoc e log)
  then have e: "wf_log t log" "le_index e = length log + 1" by (auto simp: wf_log_snoc wf_entry_def)
  from snoc.IH [OF e(1)] e(2) assms(2) show ?case
    by (cases "length log + 1 < i") (simp_all add: keyed_snoc btm_retain_def keyed_def)
qed (simp add: keyed_def btm_retain_def)

text \<open>The marker of replayed data.\<close>

lemma replay_marker:
  assumes "wf_log t log" and "a \<le> length log" and "marker_ok J" and "nd_data d = replay J (take a log)" and "nd_log d = keyed log"
  shows "applied_len J d = a" and "applied_log J d = take a log"
proof -
  show len: "applied_len J d = a"
  proof (cases a)
    case 0
    then show ?thesis by (simp add: applied_len_def assms(4) replay_def)
  next
    case (Suc b)
    with assms(2) have "take a log = take b log @ [log ! b]" by (simp add: take_Suc_conv_app_nth)
    moreover have "le_index (log ! b) = a" using assms(1,2) Suc by (simp add: wf_log_def wf_entry_def)
    ultimately show ?thesis using assms(3)
      by (simp add: applied_len_def assms(4) replay_snoc apply_entry_def btm_get_insert marker_ok_def)
  qed
  then show "applied_log J d = take a log" by (simp add: applied_log_def assms(5))
qed

lemma sync_applied:
  assumes "log_sync J n" and "marker_ok J"
  shows "applied_log J (cn_disk n) = take (last_applied (cn_state n)) (raft_log (cn_state n))"
  using assms by (intro replay_marker(2)) (auto simp: log_sync_def Let_def)

lemma in_sync_disk: "log_sync J n \<Longrightarrow> disk_inv J (cn_disk n)"
  unfolding disk_inv_def log_sync_def Let_def by (meson order_trans)

lemma in_sync_node: "in_sync J n \<Longrightarrow> node_inv J n"
  by (simp add: node_inv_def in_sync_def in_sync_disk)

lemma running_sync: "node_inv J n \<Longrightarrow> \<not> cn_stopped n \<Longrightarrow> in_sync J n"
  by (simp add: node_inv_def)

section \<open>Disk writes\<close>

text \<open>What a section may change of a node besides its state, disk and health: nothing.\<close>

definition same_identity :: "cluster_node \<Rightarrow> cluster_node \<Rightarrow> bool" where
  "same_identity n n' \<longleftrightarrow> cn_config n' = cn_config n \<and> cn_fixed n' = cn_fixed n \<and> cn_bearer n' = cn_bearer n \<and> (cn_stopped n \<longrightarrow> cn_stopped n')"

lemma same_identity_refl [simp]: "same_identity n n"
  by (simp add: same_identity_def)

lemma same_identity_trans: "same_identity a b \<Longrightarrow> same_identity b c \<Longrightarrow> same_identity a c"
  by (auto simp: same_identity_def)

lemma durable_cases:
  assumes "durable f n = (r, n')"
  obtains (stored) "r = Inr ()" "cn_disk n' = f (cn_disk n)" "cn_stopped n' = cn_stopped n" "cn_state n' = cn_state n" "same_identity n n'"
  | (failed) x where "r = Inl (Err x)" "cn_stopped n'" "cn_disk n' = cn_disk n \<or> cn_disk n' = f (cn_disk n)"
      "cn_state n' = cn_state n" "same_identity n n'"
  using assms by (auto simp: durable_def same_identity_def split: list.splits io_outcome.splits)

lemma applied_log_cong: "nd_log d' = nd_log d \<Longrightarrow> nd_data d' = nd_data d \<Longrightarrow> applied_log J d' = applied_log J d"
  by (simp add: applied_log_def applied_len_def)

lemma disk_inv_cong:
  "disk_inv J d \<Longrightarrow> nd_log d' = nd_log d \<Longrightarrow> nd_data d' = nd_data d \<Longrightarrow> fst (meta_of d) \<le> fst (meta_of d') \<Longrightarrow> disk_inv J d'"
  unfolding disk_inv_def by (metis wf_log_mono)

lemma set_state_simps [simp]:
  "cn_state (set_state st n) = st" "cn_disk (set_state st n) = cn_disk n" "cn_config (set_state st n) = cn_config n"
  "cn_fixed (set_state st n) = cn_fixed n" "cn_stopped (set_state st n) = cn_stopped n" "cn_bearer (set_state st n) = cn_bearer n"
  "same_identity (set_state st n) n' = same_identity n n'" "same_identity n' (set_state st n) = same_identity n' n"
  "grows J (set_state st n) n' = grows J n n'" "grows J n' (set_state st n) = grows J n' n"
  by (simp_all add: set_state_def same_identity_def grows_def)

text \<open>A step of the node keeps the invariant, its identity and what was applied, and never takes back a term or a vote.\<close>

definition good_step :: "cluster_json \<Rightarrow> cluster_node \<Rightarrow> cluster_node \<Rightarrow> bool" where
  "good_step J n n' \<longleftrightarrow> node_inv J n' \<and> grows J n n' \<and> same_identity n n'
     \<and> meta_le (mem_meta (cn_state n)) (mem_meta (cn_state n')) \<and> meta_le (meta_of (cn_disk n)) (meta_of (cn_disk n'))"

lemma good_step_refl: "node_inv J n \<Longrightarrow> good_step J n n"
  by (simp add: good_step_def)

lemma good_step_trans: "good_step J a b \<Longrightarrow> good_step J b c \<Longrightarrow> good_step J a c"
  unfolding good_step_def using grows_trans same_identity_trans meta_le_trans by metis

lemma persist_meta_ok:
  assumes inv: "node_inv J n" and st: "raft_log st = raft_log (cn_state n)" "commit_index st = commit_index (cn_state n)"
      "last_applied st = last_applied (cn_state n)" "meta_le (mem_meta (cn_state n)) (mem_meta st)"
    and p: "persist_meta (set_state st n) = (r, n')"
  shows "good_step J n n' \<and> cn_state n' = st
    \<and> (if r = Inr () then cn_stopped n' = cn_stopped n \<and> meta_of (cn_disk n') = mem_meta st
       else cn_stopped n' \<and> (\<exists>x. r = Inl (Err x)))"
proof -
  let ?d = "(cn_disk n)\<lparr>nd_meta := Some (current_term st, voted_for st)\<rparr>"
  have m: "meta_of ?d = mem_meta st" by (simp add: meta_of_def mem_meta_def)
  have old: "disk_inv J (cn_disk n)" "meta_le (meta_of (cn_disk n)) (mem_meta st)"
    using inv meta_le_trans [OF _ st(4)] by (auto simp: node_inv_def)
  note le = meta_le_fst [OF old(2)]
  have new: "disk_inv J ?d" by (rule disk_inv_cong [OF old(1)]) (use m le in simp_all)
  have al: "applied_log J ?d = applied_log J (cn_disk n)" by (rule applied_log_cong) simp_all
  from p have "durable (\<lambda>d. d\<lparr>nd_meta := Some (current_term st, voted_for st)\<rparr>) (set_state st n) = (r, n')"
    by (simp add: persist_meta_def)
  then show ?thesis
  proof (cases rule: durable_cases)
    case stored
    have "in_sync J n'" if "\<not> cn_stopped n"
    proof -
      have "log_sync J n" using inv that by (simp add: node_inv_def in_sync_def)
      with stored m st le show ?thesis by (auto simp: log_sync_def in_sync_def Let_def intro: wf_log_mono)
    qed
    with stored new m al st old show ?thesis by (simp add: good_step_def node_inv_def grows_def)
  next
    case (failed x)
    with new m al st old show ?thesis by (auto simp: good_step_def node_inv_def grows_def)
  qed
qed

text \<open>Membership and replication bookkeeping: neither the log nor the term changes.\<close>

lemma mem_meta_simps [simp]:
  "mem_meta (st\<lparr>raft_log := l\<rparr>) = mem_meta st" "mem_meta (st\<lparr>last_applied := a\<rparr>) = mem_meta st"
  "mem_meta (st\<lparr>commit_index := c\<rparr>) = mem_meta st" "fst (mem_meta st) = current_term st" "snd (mem_meta st) = voted_for st"
  by (simp_all add: mem_meta_def)

definition same_log :: "raft_state \<Rightarrow> raft_state \<Rightarrow> bool" where
  "same_log st st' \<longleftrightarrow> raft_log st' = raft_log st \<and> commit_index st' = commit_index st \<and> last_applied st' = last_applied st
     \<and> mem_meta st' = mem_meta st"

lemma same_log_inv: "node_inv J n \<Longrightarrow> same_log (cn_state n) st \<Longrightarrow> good_step J n (set_state st n)"
  by (auto simp: good_step_def node_inv_def in_sync_def log_sync_def same_log_def Let_def)

lemma persist_peers_ok:
  assumes inv: "node_inv J n" and st: "same_log (cn_state n) st" and p: "persist_peers (set_state st n) = (r, n')"
  shows "good_step J n n' \<and> cn_state n' = st \<and> (r \<noteq> Inr () \<longrightarrow> cn_stopped n')"
proof -
  let ?f = "\<lambda>d. d\<lparr>nd_peers := Some (peer_addrs st), nd_learners := Some (learners st)\<rparr>"
  have m: "meta_of (?f d) = meta_of d" for d by (simp add: meta_of_def)
  have di: "disk_inv J (?f (cn_disk n))"
    by (rule disk_inv_cong [of J "cn_disk n"]) (use inv m in \<open>simp_all add: node_inv_def\<close>)
  have al: "applied_log J (?f (cn_disk n)) = applied_log J (cn_disk n)" by (rule applied_log_cong) simp_all
  from p have "durable ?f (set_state st n) = (r, n')" by (simp add: persist_peers_def)
  then show ?thesis
  proof (cases rule: durable_cases)
    case stored
    have "in_sync J n'" if "\<not> cn_stopped n"
      using inv that stored st m by (auto simp: node_inv_def in_sync_def log_sync_def same_log_def Let_def)
    with inv stored di m al st show ?thesis by (simp add: good_step_def node_inv_def grows_def same_log_def)
  next
    case (failed x)
    with inv di m al st show ?thesis by (auto simp: good_step_def node_inv_def grows_def same_log_def)
  qed
qed

text \<open>A node whose running state agrees with its disk, with a new disk of known log and data.\<close>

lemma sync_step:
  assumes run: "in_sync J n" "marker_ok J"
    and d: "nd_log d = keyed log" "wf_log (fst (meta_of d)) log" "meta_of d = meta_of (cn_disk n)"
      "a \<le> length log" "nd_data d = replay J (take a log)"
    and a: "last_applied (cn_state n) \<le> a" "take (last_applied (cn_state n)) log = take (last_applied (cn_state n)) (raft_log (cn_state n))"
    and n': "cn_disk n' = d" "same_identity n n'" "mem_meta (cn_state n') = mem_meta (cn_state n)"
    and up: "\<not> cn_stopped n' \<Longrightarrow> raft_log (cn_state n') = log \<and> last_applied (cn_state n') = a \<and> a \<le> commit_index (cn_state n')
      \<and> commit_index (cn_state n') \<le> length log"
  shows "good_step J n n'"
proof -
  have "disk_inv J d" unfolding disk_inv_def using d by blast
  moreover have "applied_log J d = take a log" by (rule replay_marker(2) [OF d(2,4) run(2) d(5,1)])
  moreover have "applied_log J (cn_disk n) = take (last_applied (cn_state n)) (raft_log (cn_state n))"
    using sync_applied run by (simp add: in_sync_def)
  moreover have "prefix (take (last_applied (cn_state n)) log) (take a log)" using a(1) by (metis min.absorb1 take_is_prefix take_take)
  moreover have "in_sync J n'" if "\<not> cn_stopped n'"
    using up [OF that] d n' run(1) by (auto simp: in_sync_def log_sync_def Let_def)
  ultimately show ?thesis using a(2) n' d(3) run(1)
    by (auto simp: good_step_def node_inv_def grows_def in_sync_def)
qed

lemma push_entry_ok:
  assumes run: "in_sync J n" "\<not> cn_stopped n" "marker_ok J" and e: "wf_entry (current_term (cn_state n)) (length (raft_log (cn_state n))) e"
    and p: "push_entry J e n = (r, n')"
  shows "good_step J n n'
    \<and> (if r = Inr () then \<not> cn_stopped n' \<and> cn_state n' = (cn_state n)\<lparr>raft_log := raft_log (cn_state n) @ [e]\<rparr>
       else cn_state n' = cn_state n \<and> (\<exists>x. r = Inl (Err x)))"
proof (cases "too_big J e")
  case True
  with p run good_step_refl [of J n] show ?thesis by (auto simp: push_entry_def persist_log_entry_def node_inv_def in_sync_disk in_sync_def)
next
  case False
  let ?log = "raft_log (cn_state n)"
  let ?f = "\<lambda>d. d\<lparr>nd_log := btm_insert (le_index e) e (nd_log d)\<rparr>"
  obtain r1 n1 where pe: "durable ?f n = (r1, n1)" by fastforce
  have s: "log_sync J n" "meta_of (cn_disk n) = mem_meta (cn_state n)" "fst (mem_meta (cn_state n)) = current_term (cn_state n)" using run(1) by (simp_all add: in_sync_def mem_meta_def)
  have wf: "wf_log (current_term (cn_state n)) (?log @ [e])" using s e by (simp add: log_sync_def Let_def wf_log_snoc)
  have fd: "nd_log (?f (cn_disk n)) = keyed (?log @ [e])" "meta_of (?f (cn_disk n)) = meta_of (cn_disk n)" "nd_data (?f (cn_disk n)) = nd_data (cn_disk n)"
    using keyed_insert [of "current_term (cn_state n)" ?log e] wf s e
    by (simp_all add: log_sync_def Let_def wf_entry_def wf_log_snoc meta_of_def)
  have b: "last_applied (cn_state n) \<le> commit_index (cn_state n)" "commit_index (cn_state n) \<le> length ?log"
    "nd_log (cn_disk n) = keyed ?log" "nd_data (cn_disk n) = replay J (take (last_applied (cn_state n)) ?log)" "wf_log (current_term (cn_state n)) ?log"
    using s by (simp_all add: log_sync_def Let_def)
  from pe show ?thesis
  proof (cases rule: durable_cases)
    case stored
    let ?n = "set_state ((cn_state n1)\<lparr>raft_log := raft_log (cn_state n1) @ [e]\<rparr>) n1"
    from p False pe stored have n': "r = Inr ()" "n' = ?n" by (simp_all add: push_entry_def persist_log_entry_def)
    have "good_step J n ?n"
      by (rule sync_step [OF run(1,3), where d = "?f (cn_disk n)" and log = "?log @ [e]" and a = "last_applied (cn_state n)"])
        (use stored fd wf b s in auto)
    with n' stored run(2) show ?thesis by simp
  next
    case (failed x)
    from p False pe failed have n': "r = Inl (Err x)" "n' = n1" by (simp_all add: push_entry_def persist_log_entry_def)
    from failed(3) have "good_step J n n1"
    proof
      assume "cn_disk n1 = cn_disk n"
      with failed b s show ?thesis by (intro sync_step [OF run(1,3), where d = "cn_disk n" and log = ?log and a = "last_applied (cn_state n)"]) auto
    next
      assume "cn_disk n1 = ?f (cn_disk n)"
      with failed fd wf b s show ?thesis
        by (intro sync_step [OF run(1,3), where d = "?f (cn_disk n)" and log = "?log @ [e]" and a = "last_applied (cn_state n)"]) auto
    qed
    with n' failed show ?thesis by simp
  qed
qed

text \<open>The log after the conflict check for \<open>e\<close>.\<close>

definition cut_log :: "log_entry \<Rightarrow> log_entry list \<Rightarrow> log_entry list" where
  "cut_log e log =
     (case nth_opt log (le_index e - 1) of
        None \<Rightarrow> log | Some old \<Rightarrow> if le_term old \<noteq> le_term e then take (le_index e - 1) log else log)"

text \<open>The entry agrees with the log or conflicts with an entry that is not committed.\<close>

definition may_store :: "nat \<Rightarrow> log_entry \<Rightarrow> log_entry list \<Rightarrow> bool" where
  "may_store commit e log \<longleftrightarrow>
     (\<forall>old. nth_opt log (le_index e - 1) = Some old \<longrightarrow> old = e \<or> commit < le_index e \<and> le_term old \<noteq> le_term e)"

lemma cut_conflict_cut:
  assumes run: "in_sync J n" "\<not> cn_stopped n" "marker_ok J" and e: "0 < le_index e"
      "may_store (commit_index (cn_state n)) e (raft_log (cn_state n))"
    and old: "nth_opt (raft_log (cn_state n)) (le_index e - 1) = Some old" "le_term old \<noteq> le_term e"
    and p: "cut_conflict e n = (r, n')"
  shows "good_step J n n'
    \<and> (if r = Inr () then \<not> cn_stopped n' \<and> cn_state n' = (cn_state n)\<lparr>raft_log := cut_log e (raft_log (cn_state n))\<rparr>
       else cn_state n' = cn_state n \<and> (\<exists>x. r = Inl (Err x)))"
proof -
  let ?log = "raft_log (cn_state n)"
  define cut where "cut = take (le_index e - 1) (raft_log (cn_state n))"
  let ?f = "\<lambda>d. d\<lparr>nd_log := btm_retain (\<lambda>k _. k < le_index e) (nd_log d)\<rparr>"
  from old e(2) have c: "commit_index (cn_state n) < le_index e" unfolding may_store_def by auto
  have log: "cut_log e ?log = cut" using old by (simp add: cut_log_def cut_def)
  obtain r1 n1 where pe: "durable ?f n = (r1, n1)" by fastforce
  have s: "log_sync J n" "meta_of (cn_disk n) = mem_meta (cn_state n)" "fst (mem_meta (cn_state n)) = current_term (cn_state n)" using run(1) by (simp_all add: in_sync_def mem_meta_def)
  have b: "last_applied (cn_state n) \<le> commit_index (cn_state n)" "commit_index (cn_state n) \<le> length ?log"
    "nd_log (cn_disk n) = keyed ?log" "nd_data (cn_disk n) = replay J (take (last_applied (cn_state n)) ?log)" "wf_log (current_term (cn_state n)) ?log"
    using s by (simp_all add: log_sync_def Let_def)
  have wf: "wf_log (current_term (cn_state n)) cut" unfolding cut_def using b(5) by (rule wf_log_take)
  have fd: "nd_log (?f (cn_disk n)) = keyed cut" "meta_of (?f (cn_disk n)) = meta_of (cn_disk n)" "nd_data (?f (cn_disk n)) = nd_data (cn_disk n)"
    using keyed_cut [OF b(5) e(1)] b(3) by (simp_all add: meta_of_def cut_def)
  have len: "commit_index (cn_state n) \<le> length cut" using c b(2) by (simp add: cut_def)
  have tk: "take (last_applied (cn_state n)) cut = take (last_applied (cn_state n)) ?log" using c b(1) by (simp add: cut_def min_absorb1)
  from pe show ?thesis
  proof (cases rule: durable_cases)
    case stored
    let ?n = "set_state ((cn_state n1)\<lparr>raft_log := take (le_index e - 1) (raft_log (cn_state n1))\<rparr>) n1"
    from p old pe stored have n': "r = Inr ()" "n' = ?n" by (simp_all add: cut_conflict_def truncate_log_from_def Let_def)
    have "good_step J n ?n"
      by (rule sync_step [OF run(1,3), where d = "?f (cn_disk n)" and log = cut and a = "last_applied (cn_state n)"])
        (use stored fd wf b s len tk cut_def in auto)
    with n' stored run(2) log show ?thesis by (simp add: cut_def)
  next
    case (failed x)
    from p old pe failed have n': "r = Inl (Err x)" "n' = n1" by (simp_all add: cut_conflict_def truncate_log_from_def Let_def)
    from failed(3) have "good_step J n n1"
    proof
      assume "cn_disk n1 = cn_disk n"
      with failed b s show ?thesis by (intro sync_step [OF run(1,3), where d = "cn_disk n" and log = ?log and a = "last_applied (cn_state n)"]) auto
    next
      assume "cn_disk n1 = ?f (cn_disk n)"
      with failed fd wf b s len tk show ?thesis
        by (intro sync_step [OF run(1,3), where d = "?f (cn_disk n)" and log = cut and a = "last_applied (cn_state n)"]) auto
    qed
    with n' failed show ?thesis by simp
  qed
qed

lemma cut_conflict_ok:
  assumes run: "in_sync J n" "\<not> cn_stopped n" "marker_ok J" and e: "0 < le_index e"
      "may_store (commit_index (cn_state n)) e (raft_log (cn_state n))"
    and p: "cut_conflict e n = (r, n')"
  shows "good_step J n n'
    \<and> (if r = Inr () then \<not> cn_stopped n' \<and> cn_state n' = (cn_state n)\<lparr>raft_log := cut_log e (raft_log (cn_state n))\<rparr>
       else cn_state n' = cn_state n \<and> (\<exists>x. r = Inl (Err x)))"
proof -
  let ?goal = "good_step J n n'
    \<and> (if r = Inr () then \<not> cn_stopped n' \<and> cn_state n' = (cn_state n)\<lparr>raft_log := cut_log e (raft_log (cn_state n))\<rparr>
       else cn_state n' = cn_state n \<and> (\<exists>x. r = Inl (Err x)))"
  have same: ?goal if "cut_log e (raft_log (cn_state n)) = raft_log (cn_state n)" "r = Inr ()" "n' = n"
    using that run(2) good_step_refl [OF in_sync_node [OF run(1)]] by simp
  show ?goal
  proof (cases "nth_opt (raft_log (cn_state n)) (le_index e - 1)")
    case None
    with p show ?thesis by (intro same) (simp_all add: cut_log_def cut_conflict_def Let_def)
  next
    case (Some old)
    show ?thesis
    proof (cases "le_term old = le_term e")
      case True
      with Some p show ?thesis by (intro same) (simp_all add: cut_log_def cut_conflict_def Let_def)
    next
      case False
      with cut_conflict_cut [OF assms(1-4) e(2) Some False p] show ?thesis by simp
    qed
  qed
qed

text \<open>The log after storing the entries of a request, and the conditions under which they may be stored.\<close>

fun stored_log :: "log_entry list \<Rightarrow> log_entry list \<Rightarrow> log_entry list" where
  "stored_log [] log = log"
| "stored_log (e # es) log =
     (let log1 = cut_log e log in stored_log es (if le_index e - 1 = length log1 then log1 @ [e] else log1))"

fun storable :: "nat \<Rightarrow> nat \<Rightarrow> nat \<Rightarrow> log_entry list \<Rightarrow> log_entry list \<Rightarrow> bool" where
  "storable term commit i [] log \<longleftrightarrow> i \<le> length log"
| "storable term commit i (e # es) log \<longleftrightarrow> i \<le> length log \<and> wf_entry term i e \<and> may_store commit e log
     \<and> (let log1 = cut_log e log in storable term commit (Suc i) es (if le_index e - 1 = length log1 then log1 @ [e] else log1))"

lemma good_step_sync: "good_step J n n' \<Longrightarrow> \<not> cn_stopped n' \<Longrightarrow> in_sync J n'"
  by (simp add: good_step_def node_inv_def)

lemma append_entries_ok:
  assumes "in_sync J n" "\<not> cn_stopped n" "marker_ok J"
    and "storable (current_term (cn_state n)) (commit_index (cn_state n)) i es (raft_log (cn_state n))"
    and "append_entries J es n = (r, n')"
  shows "good_step J n n'
    \<and> (if r = Inr () then \<not> cn_stopped n' \<and> cn_state n' = (cn_state n)\<lparr>raft_log := stored_log es (raft_log (cn_state n))\<rparr>
         \<and> i + length es \<le> length (stored_log es (raft_log (cn_state n)))
       else \<exists>x. r = Inl (Err x))"
  using assms
proof (induction es arbitrary: i n)
  case Nil
  then show ?case by (auto intro: good_step_refl simp: node_inv_def in_sync_disk in_sync_def)
next
  case (Cons e es)
  let ?log = "raft_log (cn_state n)"
  from Cons.prems(4) have e: "i \<le> length ?log" "wf_entry (current_term (cn_state n)) i e" "may_store (commit_index (cn_state n)) e ?log"
    by (simp_all add: Let_def)
  have idx: "le_index e = i + 1" using e(2) by (simp add: wf_entry_def)
  obtain r1 n1 where c: "cut_conflict e n = (r1, n1)" by fastforce
  have "0 < le_index e" using idx by simp
  note n1 = cut_conflict_ok [OF Cons.prems(1-3) this e(3) c]
  show ?case
  proof (cases "r1 = Inr ()")
    case False
    with n1 obtain x where "r1 = Inl (Err x)" by auto
    with c n1 Cons.prems(5) show ?thesis by auto
  next
    case True
    let ?cut = "cut_log e ?log"
    from True n1 have s1: "good_step J n n1" "\<not> cn_stopped n1" "cn_state n1 = (cn_state n)\<lparr>raft_log := ?cut\<rparr>" by simp_all
    show ?thesis
    proof (cases "le_index e - 1 = length ?cut")
      case at_end: True
      obtain r2 n2 where p: "push_entry J e n1 = (r2, n2)" by fastforce
      have w: "wf_entry (current_term (cn_state n1)) (length (raft_log (cn_state n1))) e" using e(2) at_end idx s1(3) by simp
      note n2 = push_entry_ok [OF good_step_sync [OF s1(1,2)] s1(2) Cons.prems(3) w p]
      show ?thesis
      proof (cases "r2 = Inr ()")
        case False
        with n2 obtain x where "r2 = Inl (Err x)" by auto
        with n2 s1 at_end p c True Cons.prems(5) good_step_trans [OF s1(1)] show ?thesis by auto
      next
        case ok: True
        with n2 s1 have s2: "good_step J n1 n2" "\<not> cn_stopped n2" "cn_state n2 = (cn_state n)\<lparr>raft_log := ?cut @ [e]\<rparr>" by simp_all
        have st: "storable (current_term (cn_state n2)) (commit_index (cn_state n2)) (Suc i) es (raft_log (cn_state n2))"
          using Cons.prems(4) at_end s2(3) by (simp add: Let_def)
        have ap: "append_entries J es n2 = (r, n')" using Cons.prems(5) c True s1(3) at_end p ok by simp
        from Cons.IH [OF good_step_sync [OF s2(1,2)] s2(2) Cons.prems(3) st ap] s2 at_end good_step_trans [OF s1(1) s2(1)] good_step_trans
        show ?thesis by (auto simp: Let_def)
      qed
    next
      case inner: False
      have st: "storable (current_term (cn_state n1)) (commit_index (cn_state n1)) (Suc i) es (raft_log (cn_state n1))"
        using Cons.prems(4) inner s1(3) by (simp add: Let_def)
      have ap: "append_entries J es n1 = (r, n')" using Cons.prems(5) c True s1(3) inner by simp
      from Cons.IH [OF good_step_sync [OF s1(1,2)] s1(2) Cons.prems(3) st ap] s1 inner good_step_trans [OF s1(1)]
      show ?thesis by (auto simp: Let_def)
    qed
  qed
qed

text \<open>The log after one entry: unchanged when it was there, otherwise cut and extended.\<close>

lemma store_one:
  assumes "i \<le> length log" and "wf_entry t i e" and "may_store commit e log"
  shows "(let log1 = cut_log e log in if le_index e - 1 = length log1 then log1 @ [e] else log1)
    = (if nth_opt log i = Some e then log else take i log @ [e])"
proof -
  have idx: "le_index e = i + 1" using assms(2) by (simp add: wf_entry_def)
  show ?thesis
  proof (cases "nth_opt log i")
    case None
    with assms(1) have "length log = i" by (simp add: nth_opt_eq)
    with None idx show ?thesis by (simp add: cut_log_def)
  next
    case (Some old)
    then have l: "i < length log" by (simp add: nth_opt_eq)
    from assms(3) Some idx have "old = e \<or> le_term old \<noteq> le_term e" by (auto simp: may_store_def)
    with Some l idx show ?thesis by (auto simp: cut_log_def min_absorb2)
  qed
qed

lemma storableI:
  assumes "i \<le> length log" and "\<forall>k < length es. wf_entry t (i + k) (es ! k) \<and> may_store commit (es ! k) log"
  shows "storable t commit i es log"
  using assms
proof (induction es arbitrary: i log)
  case (Cons e es)
  from Cons.prems(2) have e: "wf_entry t i e" "may_store commit e log" by (force dest: spec [of _ 0])+
  let ?log = "if nth_opt log i = Some e then log else take i log @ [e]"
  have l: "Suc i \<le> length ?log" using Cons.prems(1) by (auto simp: nth_opt_eq)
  have "wf_entry t (Suc i + k) (es ! k) \<and> may_store commit (es ! k) ?log" if k: "k < length es" for k
  proof -
    from Cons.prems(2) k have w: "wf_entry t (Suc i + k) (es ! k)" "may_store commit (es ! k) log"
      by (force dest: spec [of _ "Suc k"])+
    then have "le_index (es ! k) - 1 = Suc i + k" by (simp add: wf_entry_def)
    with w show ?thesis using Cons.prems(1) by (auto simp: may_store_def nth_opt_eq split: if_splits)
  qed
  then have "storable t commit (Suc i) es ?log" using Cons.IH [OF l] by simp
  with e Cons.prems(1) store_one [OF Cons.prems(1) e] show ?case by (simp add: Let_def)
qed simp

lemma entries_storable:
  assumes "wf_log (current_term st) (raft_log st)" and "prev_ok st req" "entries_ok st req" and "ar_term req \<le> current_term st"
  shows "storable (current_term st) (commit_index st) (ar_prev_log_index req) (ar_entries req) (raft_log st)"
proof (rule storableI)
  show "ar_prev_log_index req \<le> length (raft_log st)"
  proof (cases "ar_prev_log_index req")
    case (Suc p)
    with assms(2) obtain e where "nth_opt (raft_log st) p = Some e" by (auto simp: prev_ok_def split: option.splits)
    with Suc show ?thesis by (simp add: nth_opt_eq)
  qed simp
  show "\<forall>k < length (ar_entries req). wf_entry (current_term st) (ar_prev_log_index req + k) (ar_entries req ! k)
      \<and> may_store (commit_index st) (ar_entries req ! k) (raft_log st)"
  proof (intro allI impI)
    fix k assume k: "k < length (ar_entries req)"
    then have "(k, ar_entries req ! k) \<in> set (List.enumerate 0 (ar_entries req))"
      by (simp add: in_set_enumerate_eq)
    with assms(3) have "entry_ok st req (k, ar_entries req ! k)" by (auto simp: entries_ok_def list_all_iff)
    with assms(4) show "wf_entry (current_term st) (ar_prev_log_index req + k) (ar_entries req ! k)
      \<and> may_store (commit_index st) (ar_entries req ! k) (raft_log st)"
      by (auto simp: entry_ok_def Let_def wf_entry_def may_store_def not_le split: option.splits)
  qed
qed

section \<open>Applying\<close>

lemma apply_rounds_ok:
  assumes "in_sync J n" "\<not> cn_stopped n" "marker_ok J" and "last_applied (cn_state n) + k \<le> commit_index (cn_state n)"
    and "apply_rounds J k n = (r, n')"
  shows "good_step J n n' \<and> (if r = Inr () then \<not> cn_stopped n' \<and> cn_state n' = (cn_state n)\<lparr>last_applied := last_applied (cn_state n) + k\<rparr>
    else \<exists>x. r = Inl (Err x))"
  using assms
proof (induction k arbitrary: n)
  case 0
  then show ?case by (auto intro: good_step_refl in_sync_node)
next
  case (Suc k)
  let ?st = "cn_state n" and ?a = "last_applied (cn_state n)" and ?log = "raft_log (cn_state n)"
  let ?e = "?log ! ?a"
  let ?f = "\<lambda>d. d\<lparr>nd_data := apply_entry J ?e (nd_data d)\<rparr>"
  have b: "?a \<le> commit_index ?st" "commit_index ?st \<le> length ?log" "nd_log (cn_disk n) = keyed ?log"
    "nd_data (cn_disk n) = replay J (take ?a ?log)" "wf_log (current_term ?st) ?log" "meta_of (cn_disk n) = mem_meta ?st"
    using Suc.prems(1) by (auto simp: in_sync_def log_sync_def Let_def)
  have lt: "?a < length ?log" using Suc.prems(4) b(2) by simp
  then have nth: "nth_opt ?log ?a = Some ?e" by (simp add: nth_opt_eq)
  have fd: "nd_log (?f (cn_disk n)) = keyed ?log" "meta_of (?f (cn_disk n)) = meta_of (cn_disk n)"
    "nd_data (?f (cn_disk n)) = replay J (take (?a + 1) ?log)"
    using b lt by (simp_all add: meta_of_def replay_snoc [symmetric] take_Suc_conv_app_nth)
  obtain r1 n1 where p: "durable ?f n = (r1, n1)" by fastforce
  from p show ?case
  proof (cases rule: durable_cases)
    case stored
    let ?n = "set_state ((cn_state n1)\<lparr>last_applied := last_applied (cn_state n1) + 1\<rparr>) n1"
    have g: "good_step J n ?n"
      by (rule sync_step [OF Suc.prems(1,3), where d = "?f (cn_disk n)" and log = ?log and a = "?a + 1"])
        (use stored fd b lt Suc.prems(4) in auto)
    have up: "\<not> cn_stopped ?n" using stored Suc.prems(2) by simp
    have ap: "apply_rounds J k ?n = (r, n')" using Suc.prems(5) nth p stored by (simp add: apply_log_entry_def)
    from Suc.IH [OF good_step_sync [OF g up] up Suc.prems(3) _ ap] stored Suc.prems(4) good_step_trans [OF g]
    show ?thesis by (auto simp: set_state_def)
  next
    case (failed x)
    from Suc.prems(5) nth p failed have n': "r = Inl (Err x)" "n' = n1" by (simp_all add: apply_log_entry_def)
    from failed(3) have "good_step J n n1"
    proof
      assume "cn_disk n1 = cn_disk n"
      with failed b show ?thesis by (intro sync_step [OF Suc.prems(1,3), where d = "cn_disk n" and log = ?log and a = ?a]) auto
    next
      assume "cn_disk n1 = ?f (cn_disk n)"
      with failed fd b lt show ?thesis
        by (intro sync_step [OF Suc.prems(1,3), where d = "?f (cn_disk n)" and log = ?log and a = "?a + 1"]) auto
    qed
    with n' show ?thesis by simp
  qed
qed

text \<open>Committing up to an index within the log, and applying.\<close>

lemma commit_and_apply:
  assumes run: "in_sync J n" "\<not> cn_stopped n" "marker_ok J"
    and c: "commit_index (cn_state n) \<le> c" "c \<le> length (raft_log (cn_state n))"
    and ap: "apply_committed J (set_state ((cn_state n)\<lparr>commit_index := c\<rparr>) n) = (r, n')"
  shows "good_step J n n' \<and> (if r = Inr () then \<not> cn_stopped n' \<and> cn_state n' = (cn_state n)\<lparr>commit_index := c, last_applied := c\<rparr>
    else \<exists>x. r = Inl (Err x))"
proof -
  let ?n = "set_state ((cn_state n)\<lparr>commit_index := c\<rparr>) n"
  have s: "in_sync J ?n" using run(1) c by (auto simp: in_sync_def log_sync_def Let_def)
  have le: "last_applied (cn_state n) \<le> c" using run(1) c by (auto simp: in_sync_def log_sync_def Let_def)
  have g: "good_step J n ?n" using in_sync_node [OF s] by (simp add: good_step_def)
  have up: "\<not> cn_stopped ?n" using run(2) by simp
  have rounds: "apply_rounds J (c - last_applied (cn_state n)) ?n = (r, n')" using ap by (simp add: apply_committed_def)
  from apply_rounds_ok [OF s up run(3) _ rounds] le good_step_trans [OF g] show ?thesis by auto
qed

end
