(* ===== verification/Cluster_Steps.thy ===== *)
theory Cluster_Steps
  imports Cluster_Inv
begin

text \<open>
  Every section of a node, from the RPC handlers to a restart, keeps the invariant of \<open>Cluster_Inv\<close>: \<open>good_step\<close>
  for each, no panic, and what an answer promises.
\<close>

section \<open>Replication\<close>

lemma good_stepD: "good_step J n n' \<Longrightarrow> node_inv J n'"
  by (simp add: good_step_def)

lemma persist_peers_running: "persist_peers n = (r, n') \<Longrightarrow> r = Inr u \<Longrightarrow> cn_stopped n' = cn_stopped n"
  by (auto simp: persist_peers_def elim!: durable_cases)

text \<open>Applying changes nothing of the state but the count of applied entries.\<close>

lemma apply_rounds_state: "apply_rounds J k n = (r, n') \<Longrightarrow> \<exists>a. cn_state n' = (cn_state n)\<lparr>last_applied := a\<rparr>"
proof (induction k arbitrary: n)
  case 0
  then show ?case by (auto intro!: exI [of _ "last_applied (cn_state n)"])
next
  case (Suc k)
  show ?case
  proof (cases "nth_opt (raft_log (cn_state n)) (last_applied (cn_state n))")
    case None
    with Suc.prems show ?thesis by (auto intro!: exI [of _ "last_applied (cn_state n)"])
  next
    case (Some e)
    obtain r1 n1 where a: "apply_log_entry J e n = (r1, n1)" by fastforce
    then have s: "cn_state n1 = cn_state n" by (auto simp: apply_log_entry_def elim!: durable_cases)
    show ?thesis
    proof (cases r1)
      case (Inl x)
      with Suc.prems Some a s show ?thesis by (auto intro!: exI [of _ "last_applied (cn_state n)"])
    next
      case (Inr u)
      with Suc.prems Some a have "apply_rounds J k (set_state ((cn_state n1)\<lparr>last_applied := last_applied (cn_state n1) + 1\<rparr>) n1) = (r, n')" by simp
      from Suc.IH [OF this] s show ?thesis by simp
    qed
  qed
qed

lemma apply_committed_state: "apply_committed J n = (r, n') \<Longrightarrow> \<exists>a. cn_state n' = (cn_state n)\<lparr>last_applied := a\<rparr>"
  unfolding apply_committed_def by (rule apply_rounds_state)

lemma follow_simps [simp]:
  "raft_log (follow req st) = raft_log st" "commit_index (follow req st) = commit_index st" "last_applied (follow req st) = last_applied st"
  "role_of (follow req st) = Follower" "leader_id (follow req st) = Some (ar_leader_id req)"
  "peer_addrs (follow req st) = peer_addrs st" "raft_peers (follow req st) = raft_peers st" "learners (follow req st) = learners st"
  by (simp_all add: follow_def)

lemma follow_term: "current_term st \<le> ar_term req \<Longrightarrow> current_term (follow req st) = ar_term req"
  by (simp add: follow_def)

lemma follow_meta: "current_term st \<le> ar_term req \<Longrightarrow> meta_le (mem_meta st) (mem_meta (follow req st))"
  by (auto simp: follow_def meta_le_def)

text \<open>What a successful answer to a request means for the node that gave it.\<close>

definition replicated :: "append_request \<Rightarrow> raft_state \<Rightarrow> raft_state \<Rightarrow> bool" where
  "replicated req st st' \<longleftrightarrow> current_term st \<le> ar_term req \<and> current_term st' = ar_term req \<and> role_of st' = Follower
     \<and> prev_ok st req \<and> entries_ok st req \<and> raft_log st' = stored_log (ar_entries req) (raft_log st)
     \<and> ar_prev_log_index req + length (ar_entries req) \<le> length (raft_log st')
     \<and> commit_index st' = max (commit_index st) (min (ar_leader_commit req) (ar_prev_log_index req + length (ar_entries req)))
     \<and> last_applied st' = commit_index st'"

lemma prev_entries_cong:
  assumes "raft_log st' = raft_log st" "commit_index st' = commit_index st"
  shows "prev_ok st' req = prev_ok st req \<and> entries_ok st' req = entries_ok st req"
proof -
  have "entry_ok st' req oe = entry_ok st req oe" for oe unfolding entry_ok_def assms ..
  with assms show ?thesis by (simp add: prev_ok_def entries_ok_def list_all_iff)
qed

lemma append_reject_ok: "append_reject n' = (r, n'') \<Longrightarrow> n'' = n' \<and> r = Inr \<lparr>as_term = current_term (cn_state n'), as_success = False\<rparr>"
  by (auto simp: append_reject_def)

text \<open>The part of the handler after the metadata has been stored.\<close>

lemma append_tail_ok:
  assumes run: "in_sync J n1" "\<not> cn_stopped n1" "marker_ok J" and t: "current_term (cn_state n1) = ar_term req" "role_of (cn_state n1) = Follower"
    and pe: "prev_ok (cn_state n1) req" "entries_ok (cn_state n1) req"
    and ap: "append_entries J (ar_entries req) n1 = (r2, n2)"
  shows "good_step J n1 n2 \<and> (\<exists>x. r2 = Inl (Err x)) \<or> (r2 = Inr () \<and> good_step J n1 n2
     \<and> (case apply_committed J (set_state (advance_commit req (cn_state n2)) n2) of (r3, n3) \<Rightarrow>
          good_step J n1 n3 \<and> (if r3 = Inr () then \<not> cn_stopped n3 \<and> replicated req (cn_state n1) (cn_state n3)
             \<and> same_identity n1 n3 else \<exists>x. r3 = Inl (Err x))))"
proof -
  let ?st = "cn_state n1" and ?p = "ar_prev_log_index req" and ?es = "ar_entries req"
  have wf: "wf_log (current_term ?st) (raft_log ?st)" using run(1) by (auto simp: in_sync_def log_sync_def Let_def)
  have "storable (current_term ?st) (commit_index ?st) ?p ?es (raft_log ?st)"
    by (rule entries_storable [OF wf pe]) (use t in simp)
  note a = append_entries_ok [OF run this ap]
  show ?thesis
  proof (cases "r2 = Inr ()")
    case False
    with a show ?thesis by auto
  next
    case True
    with a have n2: "good_step J n1 n2" "\<not> cn_stopped n2" "cn_state n2 = ?st\<lparr>raft_log := stored_log ?es (raft_log ?st)\<rparr>"
      "?p + length ?es \<le> length (raft_log (cn_state n2))" by simp_all
    have s2: "in_sync J n2" by (rule good_step_sync [OF n2(1,2)])
    let ?c = "max (commit_index ?st) (min (ar_leader_commit req) (?p + length ?es))"
    have c: "commit_index (cn_state n2) \<le> ?c" "?c \<le> length (raft_log (cn_state n2))"
      using n2(3,4) s2 by (auto simp: in_sync_def log_sync_def Let_def)
    obtain r3 n3 where ac: "apply_committed J (set_state (advance_commit req (cn_state n2)) n2) = (r3, n3)" by fastforce
    have "advance_commit req (cn_state n2) = (cn_state n2)\<lparr>commit_index := ?c\<rparr>" by (simp add: advance_commit_def n2(3))
    with ac have "apply_committed J (set_state ((cn_state n2)\<lparr>commit_index := ?c\<rparr>) n2) = (r3, n3)" by simp
    note f = commit_and_apply [OF s2 n2(2) run(3) c this]
    have g: "good_step J n1 n3" using good_step_trans [OF n2(1)] f by blast
    with f True n2 ac t pe show ?thesis by (auto simp: replicated_def good_step_def)
  qed
qed

lemma handle_append_ok:
  assumes inv: "node_inv J n" and m: "marker_ok J" and h: "handle_append_entries J req n = (r, n')"
  shows "good_step J n n' \<and> (\<exists>resp. r = Inr resp \<and> as_term resp = current_term (cn_state n')
    \<and> (as_success resp \<longrightarrow> \<not> cn_stopped n' \<and> membership_ok n req \<and> replicated req (cn_state n) (cn_state n')))"
proof (cases "cn_stopped n \<or> ar_term req > MAX_RAFT_TERM \<or> ar_term req < current_term (cn_state n)
    \<or> list_ex (too_big J) (ar_entries req) \<or> \<not> membership_ok n req")
  case True
  then have "append_reject n = (r, n')" using h by (auto simp: handle_append_entries_def split: if_splits)
  from append_reject_ok [OF this] show ?thesis using good_step_refl [OF inv] by simp
next
  case False
  then have le: "current_term (cn_state n) \<le> ar_term req" and mem: "membership_ok n req" by auto
  obtain r1 n1 where p: "persist_meta (set_state (follow req (cn_state n)) n) = (r1, n1)" by fastforce
  have t: "current_term (follow req (cn_state n)) = ar_term req" by (rule follow_term [OF le])
  have g1: "good_step J n n1 \<and> cn_state n1 = follow req (cn_state n)
    \<and> (if r1 = Inr () then cn_stopped n1 = cn_stopped n \<and> meta_of (cn_disk n1) = mem_meta (follow req (cn_state n))
       else cn_stopped n1 \<and> (\<exists>x. r1 = Inl (Err x)))"
    by (rule persist_meta_ok [OF inv _ _ _ follow_meta [OF le] p]) simp_all
  have h1: "(case (r1, n1) of (Inl _, n1) \<Rightarrow> append_reject n1 | (Inr _, n1) \<Rightarrow>
      if \<not> prev_ok (cn_state n1) req \<or> \<not> entries_ok (cn_state n1) req then append_reject n1
         else case append_entries J (ar_entries req) n1 of
           (Inl _, n2) \<Rightarrow> append_reject n2
         | (Inr _, n2) \<Rightarrow>
            (case apply_committed J (set_state (advance_commit req (cn_state n2)) n2) of
               (Inl (Panic m), n3) \<Rightarrow> (Inl (Panic m), n3)
             | (Inl (Err _), n3) \<Rightarrow> append_reject n3
             | (Inr _, n3) \<Rightarrow>
                (case ar_peer_addrs req of
                   None \<Rightarrow> (Inr \<lparr>as_term = current_term (cn_state n3), as_success = True\<rparr>, n3)
                 | Some peers \<Rightarrow>
                    (case persist_peers (adopt_peers req peers n3) of
                       (Inl _, n4) \<Rightarrow> append_reject n4
                     | (Inr _, n4) \<Rightarrow> (Inr \<lparr>as_term = current_term (cn_state n4), as_success = True\<rparr>, n4))))) = (r, n')"
    using h False unfolding handle_append_entries_def p by simp
  have rej: ?thesis if "append_reject nx = (r, n')" "good_step J n nx" for nx
    using append_reject_ok [OF that(1)] that(2) by simp
  show ?thesis
  proof (cases "r1 = Inr () \<and> prev_ok (cn_state n1) req \<and> entries_ok (cn_state n1) req")
    case False
    with h1 g1 have "append_reject n1 = (r, n')" by (cases r1) (auto split: if_splits)
    then show ?thesis by (rule rej) (use g1 in simp)
  next
    case True
    then have up: "\<not> cn_stopped n1" "in_sync J n1" using g1 False good_step_sync by auto
    have st1: "cn_state n1 = follow req (cn_state n)" using g1 by simp
    obtain r2 n2 where ap: "append_entries J (ar_entries req) n1 = (r2, n2)" by fastforce
    have rep: "replicated req (cn_state n1) st' \<Longrightarrow> replicated req (cn_state n) st'" for st'
      using st1 le prev_entries_cong [of "cn_state n1" "cn_state n" req] by (auto simp: replicated_def)
    obtain r3 n3 where ac: "apply_committed J (set_state (advance_commit req (cn_state n2)) n2) = (r3, n3)" by fastforce
    have "current_term (cn_state n1) = ar_term req" "role_of (cn_state n1) = Follower" using st1 t by simp_all
    note tail = append_tail_ok [OF up(2,1) m this conjunct1 [OF conjunct2 [OF True]] conjunct2 [OF conjunct2 [OF True]] ap, unfolded ac prod.case]
    show ?thesis
    proof (cases "r2 = Inr ()")
      case False
      with tail have bad: "good_step J n1 n2" "\<exists>x. r2 = Inl (Err x)" by auto
      with h1 True ap have "append_reject n2 = (r, n')" by auto
      then show ?thesis by (rule rej) (use bad g1 good_step_trans in blast)
    next
      case r2: True
      with tail have applies: "r2 = Inr ()" "apply_committed J (set_state (advance_commit req (cn_state n2)) n2) = (r3, n3)"
        "good_step J n1 n3" "if r3 = Inr () then \<not> cn_stopped n3 \<and> replicated req (cn_state n1) (cn_state n3) else \<exists>x. r3 = Inl (Err x)"
        using ac by (auto split: if_splits)
      have g3: "good_step J n n3" using good_step_trans g1 applies(3) by blast
      show ?thesis
      proof (cases "r3 = Inr ()")
        case False
        with applies(4) obtain x where "r3 = Inl (Err x)" by auto
        with h1 True ap applies(1,2) have "append_reject n3 = (r, n')" by simp
        then show ?thesis by (rule rej) (rule g3)
      next
        case ok: True
        with applies(4) have n3: "\<not> cn_stopped n3" "replicated req (cn_state n1) (cn_state n3)" by simp_all
        show ?thesis
        proof (cases "ar_peer_addrs req")
          case None
          with h1 True ap applies(1,2) ok have "r = Inr \<lparr>as_term = current_term (cn_state n3), as_success = True\<rparr>" "n' = n3" by auto
          with g3 n3 rep mem show ?thesis by simp
        next
          case (Some peers)
          obtain r4 n4 where pp: "persist_peers (adopt_peers req peers n3) = (r4, n4)" by fastforce
          have g4: "good_step J n3 n4 \<and> cn_state n4 = cn_state (adopt_peers req peers n3) \<and> (r4 \<noteq> Inr () \<longrightarrow> cn_stopped n4)"
            using persist_peers_ok [OF good_stepD [OF g3] _ pp [unfolded adopt_peers_def]] by (simp add: same_log_def adopt_peers_def mem_meta_def)
          have g: "good_step J n n4" using good_step_trans g3 g4 by blast
          show ?thesis
          proof (cases r4)
            case (Inl x)
            with h1 True ap applies(1,2) ok Some pp have "append_reject n4 = (r, n')" by simp
            then show ?thesis by (rule rej) (rule g)
          next
            case (Inr u)
            with h1 True ap applies(1,2) ok Some pp have e: "r = Inr \<lparr>as_term = current_term (cn_state n4), as_success = True\<rparr>" "n' = n4" by auto
            have "\<not> cn_stopped n4" using persist_peers_running [OF pp Inr] n3(1) by (simp add: adopt_peers_def)
            moreover have "replicated req (cn_state n1) (cn_state n4)" using n3(2) g4 by (auto simp: replicated_def adopt_peers_def)
            ultimately show ?thesis using e g rep mem by simp
          qed
        qed
      qed
    qed
  qed
qed

section \<open>Votes and elections\<close>

lemma step_down_simps [simp]:
  "raft_log (step_down t st) = raft_log st" "commit_index (step_down t st) = commit_index st" "last_applied (step_down t st) = last_applied st"
  "current_term (step_down t st) = t" "voted_for (step_down t st) = None" "role_of (step_down t st) = Follower"
  by (simp_all add: step_down_def)

text \<open>A new term, role or vote, stored.\<close>

lemma persist_meta_step:
  assumes "node_inv J n" and "raft_log st = raft_log (cn_state n)" "commit_index st = commit_index (cn_state n)"
      "last_applied st = last_applied (cn_state n)" "meta_le (mem_meta (cn_state n)) (mem_meta st)"
  shows "good_step J n (snd (persist_meta (set_state st n))) \<and> cn_state (snd (persist_meta (set_state st n))) = st"
  using persist_meta_ok [OF assms, of "fst (persist_meta (set_state st n))" "snd (persist_meta (set_state st n))"] by simp

lemma vote_answer_simps [simp]: "snd (vote_answer g n) = n" "vs_term (fst (vote_answer g n)) = current_term (cn_state n)"
    "vs_granted (fst (vote_answer g n)) = g"
  by (simp_all add: vote_answer_def)

text \<open>A granted vote is the voter's only one in its term, and it is on disk when the answer leaves.\<close>

lemma handle_request_vote_ok:
  assumes inv: "node_inv J n" and h: "handle_request_vote req n = (resp, n')"
  shows "good_step J n n' \<and> vs_term resp = current_term (cn_state n') \<and> raft_log (cn_state n') = raft_log (cn_state n)
    \<and> (vs_granted resp \<longrightarrow> \<not> cn_stopped n' \<and> vr_term req = current_term (cn_state n')
         \<and> voted_for (cn_state n') = Some (vr_candidate_id req)
         \<and> (current_term (cn_state n) = vr_term req \<longrightarrow> voted_for (cn_state n) \<in> {None, Some (vr_candidate_id req)})
         \<and> log_up_to_date req (cn_state n))
    \<and> (\<not> vs_granted resp \<longrightarrow> current_term (cn_state n') = current_term (cn_state n) \<longrightarrow>
         voted_for (cn_state n') = voted_for (cn_state n) \<or> cn_stopped n')"
proof -
  let ?st = "cn_state n"
  let ?st1 = "if vr_term req > current_term ?st then step_down (vr_term req) ?st else ?st"
  have log1: "raft_log ?st1 = raft_log ?st" "commit_index ?st1 = commit_index ?st" "last_applied ?st1 = last_applied ?st"
    "current_term ?st \<le> current_term ?st1" "log_up_to_date req ?st1 = log_up_to_date req ?st"
    by (simp_all add: log_up_to_date_def last_log_term_def last_log_index_def)
  consider (refuse) "vote_answer False n = (resp, n')"
    | (learner) "vr_term req > current_term ?st"
        "vote_answer False (snd (persist_meta (set_state (?st\<lparr>current_term := vr_term req, voted_for := None\<rparr>) n))) = (resp, n')"
    | (vote) "\<not> cn_stopped n" "\<not> vr_term req < current_term ?st" "voted_for ?st1 = None \<or> voted_for ?st1 = Some (vr_candidate_id req)" "log_up_to_date req ?st1"
        "(case persist_meta (set_state (?st1\<lparr>voted_for := Some (vr_candidate_id req)\<rparr>) n) of
            (Inl _, n') \<Rightarrow> vote_answer False n' | (Inr _, n') \<Rightarrow> vote_answer True n') = (resp, n')"
    | (other) "\<not> vr_term req < current_term ?st" "vote_answer False (snd (persist_meta (set_state ?st1 n))) = (resp, n')"
    using h unfolding handle_request_vote_def Let_def by (auto split: if_splits)
  then show ?thesis
  proof cases
    case refuse
    then show ?thesis using good_step_refl [OF inv] by (auto simp: vote_answer_def)
  next
    case learner
    let ?s = "?st\<lparr>current_term := vr_term req, voted_for := None\<rparr>"
    have "good_step J n (snd (persist_meta (set_state ?s n))) \<and> cn_state (snd (persist_meta (set_state ?s n))) = ?s"
      by (rule persist_meta_step [OF inv]) (use learner(1) in \<open>simp_all add: meta_le_def\<close>)
    with learner show ?thesis by (auto simp: vote_answer_def)
  next
    case vote
    let ?s = "?st1\<lparr>voted_for := Some (vr_candidate_id req)\<rparr>"
    obtain r1 n1 where p: "persist_meta (set_state ?s n) = (r1, n1)" by fastforce
    have g: "good_step J n n1 \<and> cn_state n1 = ?s \<and> (if r1 = Inr () then cn_stopped n1 = cn_stopped n
        \<and> meta_of (cn_disk n1) = mem_meta ?s else cn_stopped n1 \<and> (\<exists>x. r1 = Inl (Err x)))"
      by (rule persist_meta_ok [OF inv _ _ _ _ p]) (use log1 vote(2,3) in \<open>auto simp: meta_le_def\<close>)
    have t: "current_term ?s = vr_term req" using vote(2) by simp
    show ?thesis
    proof (cases "r1 = Inr ()")
      case True
      with vote(5) p have "resp = \<lparr>vs_term = current_term (cn_state n1), vs_granted = True\<rparr>" "n' = n1" by (auto simp: vote_answer_def)
      with g True vote(1,3,4) t log1 show ?thesis by (auto simp: vote_answer_def)
    next
      case False
      with g obtain x where "r1 = Inl (Err x)" by auto
      with vote(5) p have "resp = \<lparr>vs_term = current_term (cn_state n1), vs_granted = False\<rparr>" "n' = n1" by (auto simp: vote_answer_def)
      with g False log1 show ?thesis by auto
    qed
  next
    case other
    have "good_step J n (snd (persist_meta (set_state ?st1 n))) \<and> cn_state (snd (persist_meta (set_state ?st1 n))) = ?st1"
      by (rule persist_meta_step [OF inv]) (use log1 in \<open>simp_all add: meta_le_def\<close>)
    with other log1 show ?thesis by (auto simp: vote_answer_def)
  qed
qed

text \<open>An election starts in a new term with the node's own vote on disk.\<close>

lemma begin_election_ok:
  assumes inv: "node_inv J n" and h: "begin_election n = (el, n')"
  shows "good_step J n n' \<and> raft_log (cn_state n') = raft_log (cn_state n)
    \<and> (case el of
         None \<Rightarrow> cn_stopped n'
       | Some e \<Rightarrow> \<not> cn_stopped n' \<and> el_term e = current_term (cn_state n') \<and> current_term (cn_state n') = current_term (cn_state n) + 1
           \<and> voted_for (cn_state n') = Some (cc_node_id (cn_config n)) \<and> role_of (cn_state n') = Candidate
           \<and> el_votes e = 1 \<and> el_waiting e = voter_peers (cn_state n) \<and> el_majority e = (length (voter_peers (cn_state n)) + 1) div 2 + 1
           \<and> el_last_index e = last_log_index (cn_state n) \<and> el_last_term e = last_log_term (cn_state n))"
proof -
  let ?st = "cn_state n"
  let ?s = "?st\<lparr>current_term := current_term ?st + 1, role_of := Candidate, voted_for := Some (cc_node_id (cn_config n)), leader_id := None\<rparr>"
  have lg: "voter_peers ?s = voter_peers ?st" "last_log_index ?s = last_log_index ?st" "last_log_term ?s = last_log_term ?st"
    by (simp_all add: voter_peers_def last_log_index_def last_log_term_def)
  show ?thesis
  proof (cases "current_term ?st + 1 < 2 ^ 64 \<and> current_term ?st + 1 \<le> MAX_RAFT_TERM")
    case False
    then have "el = None" "n' = n\<lparr>cn_stopped := True\<rparr>" using h by (auto simp: begin_election_def Let_def)
    with inv show ?thesis by (simp add: good_step_def node_inv_def grows_def same_identity_def)
  next
    case True
    show ?thesis
    proof (cases "cn_stopped n")
      case stopped: True
      with h True have "el = None" "n' = set_state ?s n" by (simp_all add: begin_election_def Let_def)
      moreover have "meta_le (mem_meta ?st) (mem_meta ?s)" by (simp add: meta_le_def)
      moreover have "meta_le (meta_of (cn_disk n)) (mem_meta ?s)"
        using meta_le_trans [OF _ calculation(3)] inv by (simp add: node_inv_def)
      ultimately show ?thesis using inv stopped by (simp add: good_step_def node_inv_def)
    next
      case running: False
      obtain r1 n1 where p: "persist_meta (set_state ?s n) = (r1, n1)" by fastforce
      have g: "good_step J n n1 \<and> cn_state n1 = ?s \<and> (if r1 = Inr () then cn_stopped n1 = cn_stopped n
          \<and> meta_of (cn_disk n1) = mem_meta ?s else cn_stopped n1 \<and> (\<exists>x. r1 = Inl (Err x)))"
        by (rule persist_meta_ok [OF inv _ _ _ _ p]) (simp_all add: meta_le_def)
      show ?thesis
      proof (cases "r1 = Inr ()")
        case ok: True
        have "(el, n') = (Some \<lparr>el_term = current_term ?s, el_last_index = last_log_index ?s, el_last_term = last_log_term ?s,
                 el_waiting = voter_peers ?s, el_votes = 1, el_majority = (length (voter_peers ?s) + 1) div 2 + 1\<rparr>, n1)"
          unfolding h [symmetric] begin_election_def Let_def using True running p ok by simp
        with g ok running lg show ?thesis by simp
      next
        case False
        with g obtain x where "r1 = Inl (Err x)" by auto
        then have "(el, n') = (None, n1)"
          unfolding h [symmetric] begin_election_def Let_def using True running p by simp
        with g False show ?thesis by simp
      qed
    qed
  qed
qed

lemma election_reply_ok:
  assumes inv: "node_inv J n" and h: "election_reply peer answer el n = (el', n')"
  shows "good_step J n n' \<and> raft_log (cn_state n') = raft_log (cn_state n)
    \<and> (n' = n \<or> role_of (cn_state n') = Follower \<and> current_term (cn_state n) < current_term (cn_state n') \<and> el' = None)
    \<and> (\<forall>e. el' = Some e \<longrightarrow> e = el\<lparr>el_waiting := remove1 peer (el_waiting el), el_votes := el_votes e\<rparr>
         \<and> (el_votes e = el_votes el
            \<or> el_votes e = el_votes el + 1 \<and> (\<exists>resp. answer = Some resp \<and> vs_granted resp \<and> vs_term resp = el_term el)))"
proof (cases "\<exists>resp. answer = Some resp \<and> \<not> vs_term resp > MAX_RAFT_TERM \<and> vs_term resp > current_term (cn_state n)")
  case True
  then obtain resp where resp: "answer = Some resp" "\<not> vs_term resp > MAX_RAFT_TERM" "vs_term resp > current_term (cn_state n)" by blast
  with h have "el' = None" "n' = snd (persist_meta (set_state (step_down (vs_term resp) (cn_state n)) n))"
    by (simp_all add: election_reply_def Let_def)
  moreover have "good_step J n (snd (persist_meta (set_state (step_down (vs_term resp) (cn_state n)) n)))
      \<and> cn_state (snd (persist_meta (set_state (step_down (vs_term resp) (cn_state n)) n))) = step_down (vs_term resp) (cn_state n)"
    by (rule persist_meta_step [OF inv]) (use resp in \<open>simp_all add: meta_le_def\<close>)
  ultimately show ?thesis using resp by simp
next
  case False
  with h have "n' = n" by (auto simp: election_reply_def Let_def split: option.splits if_splits)
  with h False good_step_refl [OF inv] show ?thesis
    by (auto simp: election_reply_def Let_def split: option.splits if_splits)
qed

lemma reset_peers_simps [simp]:
  "raft_log (reset_peers ps i st) = raft_log st" "commit_index (reset_peers ps i st) = commit_index st"
  "last_applied (reset_peers ps i st) = last_applied st" "current_term (reset_peers ps i st) = current_term st"
  "voted_for (reset_peers ps i st) = voted_for st" "role_of (reset_peers ps i st) = role_of st"
  "peer_addrs (reset_peers ps i st) = peer_addrs st" "raft_peers (reset_peers ps i st) = raft_peers st" "learners (reset_peers ps i st) = learners st"
  unfolding reset_peers_def by (induction ps arbitrary: st; simp)+

lemma finish_election_ok:
  assumes inv: "node_inv J n"
  shows "good_step J n (finish_election el n) \<and> raft_log (cn_state (finish_election el n)) = raft_log (cn_state n)
    \<and> current_term (cn_state (finish_election el n)) = current_term (cn_state n) \<and> voted_for (cn_state (finish_election el n)) = voted_for (cn_state n)
    \<and> (finish_election el n = n \<or> el_majority el \<le> el_votes el \<and> el_term el = current_term (cn_state n) \<and> role_of (cn_state (finish_election el n)) = Leader)"
proof (cases "el_votes el \<ge> el_majority el \<and> \<not> cn_stopped n \<and> current_term (cn_state n) = el_term el \<and> role_of (cn_state n) = Candidate")
  case True
  let ?s = "reset_peers (raft_peers (cn_state n)) (last_log_index (cn_state n)) ((cn_state n)\<lparr>role_of := Leader, leader_id := Some (cc_node_id (cn_config n))\<rparr>)"
  have "good_step J n (snd (persist_meta (set_state ?s n))) \<and> cn_state (snd (persist_meta (set_state ?s n))) = ?s"
    by (rule persist_meta_step [OF inv]) (simp_all add: meta_le_def)
  with True show ?thesis by (simp add: finish_election_def Let_def)
next
  case False
  then have "finish_election el n = n" by (auto simp: finish_election_def Let_def)
  with good_step_refl [OF inv] show ?thesis by simp
qed

section \<open>The leader\<close>

lemma accept_append_response_ok:
  assumes inv: "node_inv J n" and h: "accept_append_response peer term prev matched resp n = n'"
  shows "good_step J n n' \<and> raft_log (cn_state n') = raft_log (cn_state n)
    \<and> (role_of (cn_state n') = role_of (cn_state n) \<and> current_term (cn_state n') = current_term (cn_state n) \<and> voted_for (cn_state n') = voted_for (cn_state n)
       \<or> role_of (cn_state n') = Follower \<and> current_term (cn_state n) < current_term (cn_state n'))"
proof (cases "\<not> as_term resp > MAX_RAFT_TERM \<and> as_term resp > current_term (cn_state n)")
  case True
  let ?s = "step_down (as_term resp) (cn_state n)"
  have "good_step J n (snd (persist_meta (set_state ?s n))) \<and> cn_state (snd (persist_meta (set_state ?s n))) = ?s"
    by (rule persist_meta_step [OF inv]) (use True in \<open>simp_all add: meta_le_def\<close>)
  with True h show ?thesis by (auto simp: accept_append_response_def Let_def)
next
  case False
  consider "n' = n" | st where "n' = set_state st n" "same_log (cn_state n) st" "role_of st = role_of (cn_state n)"
    using h False by (auto simp: accept_append_response_def Let_def same_log_def mem_meta_def split: if_splits)
  then show ?thesis
  proof cases
    case 1
    with good_step_refl [OF inv] show ?thesis by simp
  next
    case 2
    with same_log_inv [OF inv 2(2)] show ?thesis by (simp add: same_log_def mem_meta_def)
  qed
qed

text \<open>The index that a leader commits: a quorum has it, it is of the current term, and it is the highest one.\<close>

lemma highest_committable_ok:
  assumes "highest_committable st = c"
  shows "(c = commit_index st \<or> commit_index st < c \<and> c \<le> last_log_index st \<and> committable st c)
    \<and> (\<forall>i. c < i \<and> i \<le> last_log_index st \<longrightarrow> \<not> committable st i)"
proof (cases "List.find (committable st) (rev [Suc (commit_index st)..<Suc (last_log_index st)])")
  case None
  with assms have "c = commit_index st" by (simp add: highest_committable_def)
  moreover have "\<not> committable st i" if "i \<in> {Suc (commit_index st)..<Suc (last_log_index st)}" for i
    using None that by (simp only: find_None_iff set_rev set_upt) blast
  ultimately show ?thesis by simp
next
  case (Some i)
  with assms have c: "c = i" by (simp add: highest_committable_def)
  let ?xs = "rev [Suc (commit_index st)..<Suc (last_log_index st)]"
  from Some obtain k where k: "k < length ?xs" "committable st (?xs ! k)" "i = ?xs ! k" "\<forall>j < k. \<not> committable st (?xs ! j)"
    by (auto simp: find_Some_iff)
  have nth: "?xs ! j = last_log_index st - j" if "j < length ?xs" for j
    using that by (simp add: rev_nth del: upt_Suc)
  have len: "length ?xs = last_log_index st - commit_index st" by (simp del: upt_Suc)
  have kl: "k < last_log_index st - commit_index st" using k(1) unfolding len .
  have ck: "c = last_log_index st - k" using nth [OF k(1)] k(3) c by simp
  have "\<not> committable st m" if m: "c < m" "m \<le> last_log_index st" for m
  proof -
    let ?j = "last_log_index st - m"
    have j: "?j < k" using m ck kl by linarith
    have "?xs ! ?j = last_log_index st - ?j" by (rule nth) (use j kl len in linarith)
    with m j k(4) show ?thesis by (metis diff_diff_cancel)
  qed
  moreover have "commit_index st < c \<and> c \<le> last_log_index st" using ck kl by linarith
  moreover have "committable st c" using k(2,3) c by (simp only:)
  ultimately show ?thesis by blast
qed

lemma update_commit_index_ok:
  assumes inv: "node_inv J n" and m: "marker_ok J" and h: "update_commit_index J n = (r, n')"
  shows "good_step J n n' \<and> (\<forall>p. r \<noteq> Inl (Panic p)) \<and> raft_log (cn_state n') = raft_log (cn_state n)
    \<and> role_of (cn_state n') = role_of (cn_state n) \<and> current_term (cn_state n') = current_term (cn_state n) \<and> voted_for (cn_state n') = voted_for (cn_state n)"
proof (cases "cn_stopped n \<or> role_of (cn_state n) \<noteq> Leader")
  case True
  with h good_step_refl [OF inv] show ?thesis by (auto simp: update_commit_index_def)
next
  case False
  let ?c = "highest_committable (cn_state n)"
  have s: "in_sync J n" using running_sync inv False by blast
  have "last_log_index (cn_state n) = length (raft_log (cn_state n))" using s by (auto simp: in_sync_def log_sync_def Let_def intro: wf_last_index)
  with highest_committable_ok [OF refl, of "cn_state n"] s have c: "commit_index (cn_state n) \<le> ?c" "?c \<le> length (raft_log (cn_state n))"
    by (auto simp: in_sync_def log_sync_def Let_def)
  have ap: "apply_committed J (set_state ((cn_state n)\<lparr>commit_index := ?c\<rparr>) n) = (r, n')" using h False by (simp add: update_commit_index_def)
  have up: "\<not> cn_stopped n" using False by simp
  from commit_and_apply [OF s up m c ap] apply_committed_state [OF ap] show ?thesis by (auto split: if_splits)
qed

section \<open>Proposals\<close>

text \<open>A proposal appends exactly one entry of the current term, or leaves the log in memory as it was.\<close>

lemma propose_ok:
  assumes inv: "node_inv J n" and m: "marker_ok J" and up: "\<not> cn_stopped n" and t: "0 < current_term (cn_state n)"
    and k: "valid_keys key extra" and p: "propose J key value extra n = (r, n')"
  shows "good_step J n n' \<and> current_term (cn_state n') = current_term (cn_state n) \<and> voted_for (cn_state n') = voted_for (cn_state n)
    \<and> role_of (cn_state n') = role_of (cn_state n)
    \<and> (case r of
         Inl x \<Rightarrow> raft_log (cn_state n') = raft_log (cn_state n) \<and> (\<exists>s. x = Err s)
       | Inr e \<Rightarrow> \<not> cn_stopped n' \<and> cn_state n' = (cn_state n)\<lparr>raft_log := raft_log (cn_state n) @ [e]\<rparr>
           \<and> e = \<lparr>le_term = current_term (cn_state n), le_index = length (raft_log (cn_state n)) + 1, le_key = key, le_value = value, le_extra = extra\<rparr>)"
proof -
  let ?st = "cn_state n"
  let ?e = "\<lparr>le_term = current_term ?st, le_index = last_log_index ?st + 1, le_key = key, le_value = value, le_extra = extra\<rparr>"
  have s: "in_sync J n" using running_sync [OF inv up] .
  then have idx: "last_log_index ?st = length (raft_log ?st)" by (auto simp: in_sync_def log_sync_def Let_def intro: wf_last_index)
  obtain r1 n1 where pm: "persist_meta (set_state ?st n) = (r1, n1)" by fastforce
  have g1: "good_step J n n1 \<and> cn_state n1 = ?st \<and> (if r1 = Inr () then cn_stopped n1 = cn_stopped n
      \<and> meta_of (cn_disk n1) = mem_meta ?st else cn_stopped n1 \<and> (\<exists>x. r1 = Inl (Err x)))"
    by (rule persist_meta_ok [OF inv _ _ _ _ pm]) simp_all
  have pm': "persist_meta n = (r1, n1)" using pm by (simp add: set_state_def)
  show ?thesis
  proof (cases "r1 = Inr ()")
    case False
    with g1 obtain x where "r1 = Inl (Err x)" by auto
    with p pm' have "r = Inl (Err x)" "n' = n1" by (simp_all add: propose_def Let_def)
    with g1 show ?thesis by simp
  next
    case True
    with g1 up have n1: "\<not> cn_stopped n1" "in_sync J n1" using good_step_sync by auto
    obtain r2 n2 where pu: "push_entry J ?e n1 = (r2, n2)" by fastforce
    have w: "wf_entry (current_term (cn_state n1)) (length (raft_log (cn_state n1))) ?e"
      using g1 idx t k by (simp add: wf_entry_def)
    note g2 = push_entry_ok [OF n1(2,1) m w pu]
    have g: "good_step J n n2" using good_step_trans g1 g2 by blast
    show ?thesis
    proof (cases "r2 = Inr ()")
      case ok: True
      have "(r, n') = (Inr ?e, n2)" unfolding p [symmetric] propose_def Let_def pm' using True ok pu by simp
      with g g1 g2 ok idx show ?thesis by simp
    next
      case False
      with g2 obtain x where x: "r2 = Inl (Err x)" by auto
      have "(r, n') = (Inl (Err x), n2)" unfolding p [symmetric] propose_def Let_def pm' using True x pu by simp
      with g g1 g2 False show ?thesis by simp
    qed
  qed
qed

section \<open>Membership\<close>

lemma add_peer_ok:
  assumes inv: "node_inv J n" and h: "add_peer i a l n = (r, n')"
  shows "good_step J n n' \<and> same_log (cn_state n) (cn_state n') \<and> role_of (cn_state n') = role_of (cn_state n)"
proof -
  let ?st = "cn_state n"
  let ?s = "?st\<lparr>raft_peers := raft_peers ?st @ [a], peer_addrs := btm_insert i a (peer_addrs ?st),
    learners := (if l then List.insert a (learners ?st) else learners ?st),
    next_index := (next_index ?st)(a \<mapsto> last_log_index ?st + 1), match_index := (match_index ?st)(a \<mapsto> 0)\<rparr>"
  consider "n' = n" | "persist_peers (set_state ?s n) = (r, n')"
    using h unfolding add_peer_def Let_def by (auto simp: healthy_def not_leader_def split: if_splits)
  then show ?thesis
  proof cases
    case 1
    with good_step_refl [OF inv] show ?thesis by (simp add: same_log_def)
  next
    case 2
    have "same_log ?st ?s" by (simp add: same_log_def mem_meta_def)
    from persist_peers_ok [OF inv this 2] this show ?thesis by simp
  qed
qed

lemma remove_peer_ok:
  assumes inv: "node_inv J n" and h: "remove_peer i n = (r, n')"
  shows "good_step J n n' \<and> same_log (cn_state n) (cn_state n') \<and> role_of (cn_state n') = role_of (cn_state n)"
proof -
  let ?st = "cn_state n"
  let ?s = "\<lambda>a. ?st\<lparr>peer_addrs := btm_remove i (peer_addrs ?st), raft_peers := filter (\<lambda>p. p \<noteq> a) (raft_peers ?st),
    learners := removeAll a (learners ?st), next_index := (next_index ?st)(a := None), match_index := (match_index ?st)(a := None)\<rparr>"
  consider "n' = n" | a where "persist_peers (set_state (?s a) n) = (r, n')"
    using h unfolding remove_peer_def Let_def by (auto simp: healthy_def not_leader_def split: if_splits option.splits)
  then show ?thesis
  proof cases
    case 1
    with good_step_refl [OF inv] show ?thesis by (simp add: same_log_def)
  next
    case (2 a)
    have "same_log ?st (?s a)" by (simp add: same_log_def mem_meta_def)
    from persist_peers_ok [OF inv this 2] this show ?thesis by simp
  qed
qed

section \<open>Restarts\<close>

lemma load_log_ok:
  "wf_log t (log @ rest) \<Longrightarrow> load_log t (keyed rest) log = Inr (log @ rest)"
proof (induction rest arbitrary: log)
  case (Cons e rest)
  have "wf_log t ((log @ [e]) @ rest)" using Cons.prems by simp
  note ih = Cons.IH [OF this]
  have "wf_entry t (length log) e" using Cons.prems by (auto simp: wf_log_def nth_append dest: spec [of _ "length log"])
  with ih show ?case by (simp add: keyed_def wf_entry_def)
qed (simp add: keyed_def)

lemma load_marker_ok:
  assumes "wf_log t log" and "a \<le> length log" and "marker_ok J" and "nd_data d = replay J (take a log)"
  shows "load_marker J d log = Inr a"
proof (cases a)
  case 0
  then show ?thesis by (simp add: load_marker_def assms(4) replay_def)
next
  case (Suc b)
  with assms(2) have "take a log = take b log @ [log ! b]" by (simp add: take_Suc_conv_app_nth)
  moreover have "le_index (log ! b) = a" using assms(1,2) Suc by (simp add: wf_log_def wf_entry_def)
  moreover have "nth_opt log b = Some (log ! b)" using assms(2) Suc by (simp add: nth_opt_def)
  ultimately show ?thesis using assms(3) Suc
    by (simp add: load_marker_def assms(4) replay_snoc apply_entry_def btm_get_insert marker_ok_def)
qed

text \<open>A node restarts from its disk with exactly the log and the data that are there.\<close>

lemma cluster_new_ok:
  assumes d: "disk_inv J d" and m: "marker_ok J"
    and c: "check_sealed cfg (case nd_learners d of None \<Rightarrow> [] | Some l \<Rightarrow> l) (load_addrs cfg d) (nd_fixed_voters d) = Inr ()"
  shows "\<exists>n. cluster_new J cfg io d = Inr n \<and> cn_disk n = d \<and> node_inv J n \<and> \<not> cn_stopped n \<and> cn_config n = cfg
    \<and> cn_fixed n = nd_fixed_voters d \<and> role_of (cn_state n) = Follower \<and> mem_meta (cn_state n) = meta_of d
    \<and> raft_peers (cn_state n) = initial_peers cfg (load_addrs cfg d) (nd_fixed_voters d) \<and> peer_addrs (cn_state n) = load_addrs cfg d
    \<and> learners (cn_state n) = (case nd_learners d of None \<Rightarrow> [] | Some l \<Rightarrow> l)"
proof -
  from d obtain log a where l: "nd_log d = keyed log" "wf_log (fst (meta_of d)) log" "a \<le> length log" "nd_data d = replay J (take a log)"
    unfolding disk_inv_def by blast
  have ll: "load_log (fst (meta_of d)) (nd_log d) [] = Inr log" using load_log_ok [of _ "[]" log] l(1,2) by simp
  have lm: "load_marker J d log = Inr a" by (rule load_marker_ok [OF l(2,3) m l(4)])
  show ?thesis
    unfolding cluster_new_def Let_def using ll lm c l
    by (auto simp: meta_of_def [symmetric] node_inv_def in_sync_def log_sync_def Let_def raft_state_new_def mem_meta_def d)
qed

end
