(* ===== verification/Cluster_Members.thy ===== *)
theory Cluster_Members
  imports Cluster_Steps
begin

text \<open>
  Membership with sealed voters: on every voter the members that are not learners are exactly the sealed voters, in
  memory and on disk, so every voter computes the same quorum size, and a restart passes the checks of the loader.
\<close>

section \<open>Members of a node\<close>

definition disk_members :: "node_disk \<Rightarrow> (string, string) btm option \<times> string list option \<times> (string, string) btm option" where
  "disk_members d = (nd_peers d, nd_learners d, nd_fixed_voters d)"

definition mem_members :: "raft_state \<Rightarrow> string list \<times> (string, string) btm \<times> string list" where
  "mem_members st = (raft_peers st, peer_addrs st, learners st)"

definition same_members :: "cluster_node \<Rightarrow> cluster_node \<Rightarrow> bool" where
  "same_members n n' \<longleftrightarrow> disk_members (cn_disk n') = disk_members (cn_disk n) \<and> mem_members (cn_state n') = mem_members (cn_state n)"

lemma same_members_refl [simp]: "same_members n n"
  by (simp add: same_members_def)

lemma same_members_trans: "same_members a b \<Longrightarrow> same_members b c \<Longrightarrow> same_members a c"
  by (simp add: same_members_def)

lemma same_members_set_state [simp]:
  "mem_members st = mem_members (cn_state n) \<Longrightarrow> same_members n (set_state st n)"
  "mem_members st = mem_members (cn_state n) \<Longrightarrow> same_members (set_state st n) n' = same_members n n'"
  by (simp_all add: same_members_def)

lemma durable_members:
  assumes "durable f n = (r, n')" and "\<And>d. disk_members (f d) = disk_members d"
  shows "same_members n n'"
  using assms(1) by (cases rule: durable_cases) (auto simp: same_members_def assms(2))

lemma mem_members_simps [simp]:
  "mem_members (st\<lparr>raft_log := l\<rparr>) = mem_members st" "mem_members (st\<lparr>last_applied := a\<rparr>) = mem_members st"
  "mem_members (st\<lparr>commit_index := c\<rparr>) = mem_members st" "mem_members (st\<lparr>voted_for := v\<rparr>) = mem_members st"
  "mem_members (st\<lparr>current_term := t\<rparr>) = mem_members st" "mem_members (st\<lparr>role_of := ro\<rparr>) = mem_members st"
  "mem_members (st\<lparr>leader_id := li\<rparr>) = mem_members st"
  "mem_members (st\<lparr>match_index := mi\<rparr>) = mem_members st" "mem_members (st\<lparr>next_index := ni\<rparr>) = mem_members st"
  "mem_members (follow req st) = mem_members st" "mem_members (step_down t st) = mem_members st"
  "mem_members (advance_commit req st) = mem_members st" "mem_members (reset_peers ps i st) = mem_members st"
  by (simp_all add: mem_members_def advance_commit_def step_down_def)

lemma persist_meta_members: "persist_meta n = (r, n') \<Longrightarrow> same_members n n'"
  unfolding persist_meta_def by (erule durable_members) (simp add: disk_members_def)

lemma persist_meta_members_snd: "mem_members st = mem_members (cn_state n) \<Longrightarrow> same_members n (snd (persist_meta (set_state st n)))"
  using persist_meta_members [of "set_state st n"] by (metis prod.collapse same_members_set_state(2))

lemma push_entry_members: "push_entry J e n = (r, n') \<Longrightarrow> same_members n n'"
proof -
  assume p: "push_entry J e n = (r, n')"
  obtain r1 n1 where d: "persist_log_entry J e n = (r1, n1)" by fastforce
  have "same_members n n1"
  proof (cases "too_big J e")
    case False
    then show ?thesis using d unfolding persist_log_entry_def
      by (auto elim!: durable_members simp: disk_members_def)
  qed (use d in \<open>simp add: persist_log_entry_def\<close>)
  with p d show ?thesis by (auto simp: push_entry_def same_members_def split: sum.splits)
qed

lemma cut_conflict_members: "cut_conflict e n = (r, n') \<Longrightarrow> same_members n n'"
proof -
  assume p: "cut_conflict e n = (r, n')"
  obtain r1 n1 where d: "truncate_log_from (le_index e) n = (r1, n1)" by fastforce
  then have "same_members n n1" unfolding truncate_log_from_def by (rule durable_members) (simp add: disk_members_def)
  with p d show ?thesis by (auto simp: cut_conflict_def Let_def same_members_def split: sum.splits option.splits if_splits)
qed

lemma append_entries_members: "append_entries J es n = (r, n') \<Longrightarrow> same_members n n'"
proof (induction es arbitrary: n)
  case (Cons e es)
  obtain r1 n1 where c: "cut_conflict e n = (r1, n1)" by fastforce
  obtain r2 n2 where p: "push_entry J e n1 = (r2, n2)" by fastforce
  note m = cut_conflict_members [OF c] push_entry_members [OF p]
  show ?case
  proof (cases r1)
    case (Inl x)
    with Cons.prems c m show ?thesis by simp
  next
    case (Inr u)
    show ?thesis
    proof (cases "le_index e - 1 = length (raft_log (cn_state n1))")
      case True
      show ?thesis
      proof (cases r2)
        case (Inl x)
        with Cons.prems c \<open>r1 = Inr u\<close> True p m same_members_trans show ?thesis by auto
      next
        case (Inr v)
        with Cons.prems c \<open>r1 = Inr u\<close> True p have "append_entries J es n2 = (r, n')" by simp
        from Cons.IH [OF this] m same_members_trans show ?thesis by blast
      qed
    next
      case False
      with Cons.prems c Inr have "append_entries J es n1 = (r, n')" by simp
      from Cons.IH [OF this] m same_members_trans show ?thesis by blast
    qed
  qed
qed simp

lemma apply_rounds_members: "apply_rounds J k n = (r, n') \<Longrightarrow> same_members n n'"
proof (induction k arbitrary: n)
  case (Suc k)
  show ?case
  proof (cases "nth_opt (raft_log (cn_state n)) (last_applied (cn_state n))")
    case (Some e)
    obtain r1 n1 where a: "apply_log_entry J e n = (r1, n1)" by fastforce
    then have m: "same_members n n1" unfolding apply_log_entry_def by (rule durable_members) (simp add: disk_members_def)
    show ?thesis
    proof (cases r1)
      case (Inr u)
      with Suc.prems Some a have "apply_rounds J k (set_state ((cn_state n1)\<lparr>last_applied := last_applied (cn_state n1) + 1\<rparr>) n1) = (r, n')" by simp
      from Suc.IH [OF this] m same_members_trans show ?thesis by simp
    qed (use Suc.prems Some a m in simp)
  qed (use Suc.prems in simp)
qed simp

lemma apply_committed_members: "apply_committed J n = (r, n') \<Longrightarrow> same_members n n'"
  unfolding apply_committed_def by (rule apply_rounds_members)

lemma handle_request_vote_members: "handle_request_vote req n = (resp, n') \<Longrightarrow> same_members n n'"
  by (auto simp: handle_request_vote_def Let_def vote_answer_def persist_meta_members_snd
      dest!: persist_meta_members split: if_splits sum.splits prod.splits)

lemma begin_election_members: "begin_election n = (el, n') \<Longrightarrow> same_members n n'"
proof -
  have st: "same_members n (n\<lparr>cn_stopped := True\<rparr>)" by (simp add: same_members_def)
  show "begin_election n = (el, n') \<Longrightarrow> same_members n n'"
    using st by (auto simp: begin_election_def Let_def dest!: persist_meta_members split: if_splits sum.splits prod.splits)
qed

lemma election_reply_members: "election_reply peer answer el n = (el', n') \<Longrightarrow> same_members n n'"
  by (auto simp: election_reply_def Let_def persist_meta_members_snd split: if_splits option.splits)

lemma finish_election_members: "same_members n (finish_election el n)"
  by (auto simp: finish_election_def Let_def persist_meta_members_snd)

lemma accept_append_response_members: "same_members n (accept_append_response peer t p m resp n)"
  by (auto simp: accept_append_response_def Let_def persist_meta_members_snd)

lemma update_commit_index_members: "update_commit_index J n = (r, n') \<Longrightarrow> same_members n n'"
  by (auto simp: update_commit_index_def dest!: apply_committed_members split: if_splits)

lemma propose_members: "propose J key value extra n = (r, n') \<Longrightarrow> same_members n n'"
proof -
  assume p: "propose J key value extra n = (r, n')"
  let ?e = "\<lparr>le_term = current_term (cn_state n), le_index = last_log_index (cn_state n) + 1, le_key = key, le_value = value, le_extra = extra\<rparr>"
  obtain r1 n1 where m: "persist_meta n = (r1, n1)" by fastforce
  obtain r2 n2 where q: "push_entry J ?e n1 = (r2, n2)" by fastforce
  have "n' = n1 \<or> n' = n2" using p m q by (auto simp: propose_def Let_def split: sum.splits)
  with persist_meta_members [OF m] push_entry_members [OF q] same_members_trans show ?thesis by blast
qed

lemma durable_config: "durable f n = (r, n') \<Longrightarrow> cn_config n' = cn_config n"
  by (erule durable_cases) (simp_all add: same_identity_def)

text \<open>The handler adopts the leader's members as a whole or not at all.\<close>

lemma handle_append_members:
  assumes inv: "node_inv J n" and mk: "marker_ok J" and h: "handle_append_entries J req n = (r, n')"
  shows "same_members n n' \<or> (\<exists>peers. membership_ok n req \<and> ar_peer_addrs req = Some peers
    \<and> mem_members (cn_state n') = mem_members (cn_state (adopt_peers req peers n))
    \<and> (disk_members (cn_disk n') = disk_members (cn_disk n)
       \<or> disk_members (cn_disk n') = (Some peers, Some (learners (cn_state n')), nd_fixed_voters (cn_disk n))))"
proof (cases "cn_stopped n \<or> ar_term req > MAX_RAFT_TERM \<or> ar_term req < current_term (cn_state n)
    \<or> list_ex (too_big J) (ar_entries req) \<or> \<not> membership_ok n req")
  case True
  then show ?thesis using h by (auto simp: handle_append_entries_def append_reject_def split: if_splits)
next
  case False
  obtain r1 n1 where p1: "persist_meta (set_state (follow req (cn_state n)) n) = (r1, n1)" by fastforce
  obtain r2 n2 where p2: "append_entries J (ar_entries req) n1 = (r2, n2)" by fastforce
  obtain r3 n3 where p3: "apply_committed J (set_state (advance_commit req (cn_state n2)) n2) = (r3, n3)" by fastforce
  have s1: "same_members n n1" using persist_meta_members [OF p1] by simp
  have s2: "same_members n n2" using append_entries_members [OF p2] s1 same_members_trans by blast
  have s3: "same_members n n3" using apply_committed_members [OF p3] s2 same_members_trans by simp
  show ?thesis
  proof (cases "\<exists>u v w peers. r1 = Inr u \<and> prev_ok (cn_state n1) req \<and> entries_ok (cn_state n1) req \<and> r2 = Inr v \<and> r3 = Inr w \<and> ar_peer_addrs req = Some peers")
    case stop: False
    have "n' \<in> {n1, n2, n3}"
      using h False stop unfolding handle_append_entries_def p1
      by (cases r1; cases r2; cases r3) (auto simp: p2 p3 append_reject_def split: if_splits option.splits rerr.splits)
    with s1 s2 s3 show ?thesis by auto
  next
    case True
    then obtain u v w peers where ok: "r1 = Inr u" "prev_ok (cn_state n1) req" "entries_ok (cn_state n1) req" "r2 = Inr v" "r3 = Inr w" "ar_peer_addrs req = Some peers" by blast
    obtain r4 n4 where p4: "persist_peers (adopt_peers req peers n3) = (r4, n4)" by fastforce
    have n': "n' = n4"
      using h False unfolding handle_append_entries_def p1 by (cases r4) (auto simp: ok p2 p3 p4 append_reject_def)
    have cfg: "cn_config n3 = cn_config n"
    proof -
      have le: "current_term (cn_state n) \<le> ar_term req" using False by simp
      note g1 = persist_meta_ok [OF inv _ _ _ follow_meta [OF le] p1, simplified]
      have run: "in_sync J n1" "\<not> cn_stopped n1" using g1 ok(1) False good_step_sync by auto
      have t: "current_term (cn_state n1) = ar_term req" "role_of (cn_state n1) = Follower" using g1 follow_term [OF le] by simp_all
      from append_tail_ok [OF run mk t ok(2,3) p2, unfolded p3 prod.case] ok(4,5) have "same_identity n1 n3" by (auto simp: good_step_def)
      moreover have "same_identity n n1" using g1 by (simp add: good_step_def)
      ultimately show ?thesis by (simp add: same_identity_def)
    qed
    have a: "cn_state (adopt_peers req peers n3) = (cn_state n3)\<lparr>peer_addrs := peers, raft_peers := sort_dedup (other_addrs (cc_node_id (cn_config n)) peers),
        learners := (case ar_learner_addrs req of None \<Rightarrow> learners (cn_state n3) | Some l \<Rightarrow> remdups l)\<rparr>"
      "cn_disk (adopt_peers req peers n3) = cn_disk n3" using cfg by (simp_all add: adopt_peers_def)
    have l: "learners (cn_state n3) = learners (cn_state n)" using s3 by (simp add: same_members_def mem_members_def)
    from p4 have d: "cn_state n4 = cn_state (adopt_peers req peers n3)"
      "cn_disk n4 = cn_disk n3 \<or> cn_disk n4 = (cn_disk n3)\<lparr>nd_peers := Some peers, nd_learners := Some (learners (cn_state n4))\<rparr>"
      unfolding persist_peers_def by (cases rule: durable_cases; simp add: a)+
    have "mem_members (cn_state n') = mem_members (cn_state (adopt_peers req peers n))"
      unfolding n' d(1) a(1) using l by (simp add: mem_members_def adopt_peers_def split: option.split)
    moreover have "disk_members (cn_disk n') = disk_members (cn_disk n)
       \<or> disk_members (cn_disk n') = (Some peers, Some (learners (cn_state n')), nd_fixed_voters (cn_disk n))"
      using d(2) s3 n' by (auto simp: disk_members_def same_members_def)
    ultimately show ?thesis using False ok(6) by blast
  qed
qed

section \<open>Sealed voters\<close>

text \<open>A member list with the sealed voters: addresses are unique, and the members that are not learners are the voters.\<close>

definition members_ok :: "(string, string) btm \<Rightarrow> (string, string) btm \<Rightarrow> string list \<Rightarrow> bool" where
  "members_ok V ps ls \<longleftrightarrow> btm_ok ps \<and> distinct (map snd ps) \<and> btm_retain (\<lambda>_ a. a \<notin> set ls) ps = V"

definition peers_of :: "string \<Rightarrow> (string, string) btm \<Rightarrow> string set" where
  "peers_of i ps = {a. \<exists>j. j \<noteq> i \<and> btm_get ps j = Some a}"

definition mem_ok :: "(string, string) btm \<Rightarrow> string \<Rightarrow> raft_state \<Rightarrow> bool" where
  "mem_ok V i st \<longleftrightarrow> members_ok V (peer_addrs st) (learners st) \<and> distinct (raft_peers st) \<and> set (raft_peers st) = peers_of i (peer_addrs st)"

definition disk_ok :: "(string, string) btm \<Rightarrow> node_disk \<Rightarrow> bool" where
  "disk_ok V d \<longleftrightarrow> nd_fixed_voters d = Some V
     \<and> (case nd_peers d of None \<Rightarrow> nd_learners d = None | Some ps \<Rightarrow> (\<exists>ls. nd_learners d = Some ls \<and> members_ok V ps ls))"

definition voter_config :: "(string, string) btm \<Rightarrow> string \<Rightarrow> cluster_config \<Rightarrow> bool" where
  "voter_config V i cfg \<longleftrightarrow> cc_node_id cfg = i \<and> \<not> cc_learner cfg \<and> btm_ok (cc_peer_addrs cfg) \<and> config_voters cfg = Inr V"

lemma mem_ok_cong: "mem_members st' = mem_members st \<Longrightarrow> mem_ok V i st' = mem_ok V i st"
  by (simp add: mem_ok_def mem_members_def)

lemma disk_ok_cong: "disk_members d' = disk_members d \<Longrightarrow> disk_ok V d' = disk_ok V d"
  by (simp add: disk_ok_def disk_members_def split: option.split)

lemma voter_get:
  assumes "members_ok V ps ls"
  shows "btm_get V i = Some a \<longleftrightarrow> btm_get ps i = Some a \<and> a \<notin> set ls"
  using assms btm_get_retain [of ps "\<lambda>_ a. a \<notin> set ls" i] by (auto simp: members_ok_def split: option.splits if_splits)

lemma members_inj:
  assumes "btm_ok ps" "distinct (map snd ps)" "btm_get ps i = Some a" "btm_get ps j = Some a"
  shows "i = j"
proof -
  have "(i, a) \<in> set ps" "(j, a) \<in> set ps" using assms(1,3,4) by (simp_all add: map_of_SomeD)
  then obtain k l where "k < length ps" "l < length ps" "ps ! k = (i, a)" "ps ! l = (j, a)" by (auto simp: in_set_conv_nth)
  moreover have "k = l" using calculation assms(2) nth_eq_iff_index_eq [of "map snd ps" k l] by simp
  ultimately show ?thesis by simp
qed

lemma config_voters_ok:
  assumes "voter_config V i cfg"
  shows "V = btm_insert i (advertised cfg) (cc_peer_addrs cfg) \<and> btm_ok V \<and> distinct (map snd V) \<and> btm_get V i = Some (advertised cfg)
    \<and> set (cc_peers cfg) \<subseteq> snd ` set V \<and> V \<noteq> []"
proof -
  from assms have c: "config_voters cfg = Inr V" "cc_node_id cfg = i" "\<not> cc_learner cfg" "btm_ok (cc_peer_addrs cfg)" by (simp_all add: voter_config_def)
  then have V: "V = btm_insert i (advertised cfg) (cc_peer_addrs cfg)" "length (remdups (map snd V)) = length V" "V \<noteq> []"
    "\<not> list_ex (\<lambda>a. a \<notin> snd ` set (cc_peer_addrs cfg)) (cc_peers cfg)" "btm_get (cc_peer_addrs cfg) i = None"
    by (auto simp: config_voters_def Let_def split: if_splits)
  have ok: "btm_ok V" unfolding V(1) by (rule btm_ok_insert [OF c(4)])
  have "distinct (map snd V)" using V(2) by (metis length_map length_remdups_eq remdups_id_iff_distinct)
  moreover have "snd ` set (cc_peer_addrs cfg) \<subseteq> snd ` set V"
  proof -
    have "{e \<in> set (cc_peer_addrs cfg). fst e \<noteq> i} = set (cc_peer_addrs cfg)" using V(5) by (auto simp: map_of_eq_None_iff)
    then show ?thesis unfolding V(1) set_btm_insert [OF c(4)] by auto
  qed
  ultimately show ?thesis using V ok by (auto simp: list_ex_iff btm_get_insert)
qed

lemma members_initial:
  assumes "btm_ok V" and "distinct (map snd V)"
  shows "members_ok V V []"
  using assms by (simp add: members_ok_def btm_retain_def)

lemma map_ext: "btm_ok m \<Longrightarrow> btm_ok m' \<Longrightarrow> btm_get m = btm_get m' \<Longrightarrow> m = m'"
  by (rule btree.entries_ext)

text \<open>The members that a restart loads are the persisted ones, or the voters when none were persisted.\<close>

lemma add_missing:
  assumes "btm_ok m"
  shows "btm_ok (fold (\<lambda>(i, a) m. if btm_get m i = None then btm_insert i a m else m) ps m)
    \<and> btm_get (fold (\<lambda>(i, a) m. if btm_get m i = None then btm_insert i a m else m) ps m) = btm_get ps ++ btm_get m"
  using assms
proof (induction ps arbitrary: m)
  case (Cons e ps)
  obtain i a where e: "e = (i, a)" by (cases e)
  let ?m = "if btm_get m i = None then btm_insert i a m else m"
  have "btm_ok ?m" using Cons.prems by (simp add: btm_ok_insert)
  moreover have "btm_get ps ++ btm_get ?m = btm_get ((i, a) # ps) ++ btm_get m"
    by (auto simp: fun_eq_iff map_add_def btm_get_insert split: option.splits)
  ultimately show ?case unfolding e using Cons.IH [of ?m] by (simp del: map_of.simps)
qed simp

lemma load_addrs_ok:
  assumes "voter_config V i cfg" and "disk_ok V d"
  shows "members_ok V (load_addrs cfg d) (case nd_learners d of None \<Rightarrow> [] | Some l \<Rightarrow> l)"
proof -
  note c = config_voters_ok [OF assms(1)]
  have id: "cc_node_id cfg = i" using assms(1) by (simp add: voter_config_def)
  have V: "btm_insert (cc_node_id cfg) (advertised cfg) (cc_peer_addrs cfg) = V" using c id by simp
  show ?thesis
  proof (cases "nd_peers d")
    case None
    with assms(2) have "nd_learners d = None" by (simp add: disk_ok_def)
    moreover have "members_ok V V []" by (rule members_initial) (use conjunct2 [OF c] in simp_all)
    ultimately show ?thesis using None unfolding load_addrs_def V Let_def by simp
  next
    case (Some ps)
    with assms(2) obtain ls where ls: "nd_learners d = Some ls" "members_ok V ps ls" by (auto simp: disk_ok_def)
    have "btm_get ps ++ btm_get V = btm_get ps"
      using voter_get [OF ls(2)] by (auto simp: fun_eq_iff map_add_def split: option.splits)
    moreover have "btm_ok ps" using ls(2) by (simp add: members_ok_def)
    ultimately have "load_addrs cfg d = ps"
      unfolding load_addrs_def V Let_def using Some conjunct2 [OF c] add_missing [of V ps] by (simp add: map_ext)
    with ls show ?thesis by simp
  qed
qed

lemma sorted_distinct_adj: "sorted (xs :: string list) \<Longrightarrow> distinct (remdups_adj xs)"
  by (induction xs rule: remdups_adj.induct) (auto simp: less_le)

lemma sort_dedup_ok: "distinct (sort_dedup xs) \<and> set (sort_dedup xs) = set xs"
  unfolding sort_dedup_def using sorted_distinct_adj [of "sort xs"] by simp

lemma other_addrs_ok: "btm_ok ps \<Longrightarrow> set (other_addrs i ps) = peers_of i ps"
  unfolding other_addrs_def peers_of_def by (force simp: btm_ok_distinct)

lemma restart_ok:
  assumes d: "disk_inv J d" and m: "marker_ok J" and c: "voter_config V i cfg" and ok: "disk_ok V d"
  shows "\<exists>n. cluster_new J cfg io d = Inr n \<and> cn_disk n = d \<and> node_inv J n \<and> \<not> cn_stopped n \<and> cn_config n = cfg \<and> cn_fixed n = Some V
    \<and> role_of (cn_state n) = Follower \<and> mem_meta (cn_state n) = meta_of d \<and> mem_ok V i (cn_state n)"
proof -
  let ?ls = "case nd_learners d of None \<Rightarrow> [] | Some l \<Rightarrow> l" and ?ps = "load_addrs cfg d"
  note cv = config_voters_ok [OF c]
  have id: "cc_node_id cfg = i" "\<not> cc_learner cfg" using c by (simp_all add: voter_config_def)
  have mem: "members_ok V ?ps ?ls" by (rule load_addrs_ok [OF c ok])
  then have ps: "btm_ok ?ps" "distinct (map snd ?ps)" by (simp_all add: members_ok_def)
  have fx: "nd_fixed_voters d = Some V" using ok by (simp add: disk_ok_def)
  have own: "btm_get ?ps i = Some (advertised cfg)" using voter_get [OF mem] cv by blast
  have "snd ` set V \<subseteq> snd ` set ?ps" using mem by (auto simp: members_ok_def btm_retain_def)
  then have "list_all (\<lambda>a. a \<in> snd ` set ?ps) (cc_peers cfg)" using cv by (auto simp: list_all_iff)
  moreover have "active_voters cfg ?ls ?ps = V" using mem id by (simp add: active_voters_def members_ok_def)
  moreover have "btm_get V (cc_node_id cfg) \<noteq> None" using conjunct2 [OF cv] id(1) by simp
  ultimately have "check_sealed cfg ?ls ?ps (nd_fixed_voters d) = Inr ()"
    unfolding check_sealed_def fx option.case using id(2) by (simp only: simp_thms if_False)
  from cluster_new_ok [OF d m this, of io] obtain n where n: "cluster_new J cfg io d = Inr n" "cn_disk n = d" "node_inv J n" "\<not> cn_stopped n"
    "cn_config n = cfg" "cn_fixed n = nd_fixed_voters d" "role_of (cn_state n) = Follower" "mem_meta (cn_state n) = meta_of d"
    "raft_peers (cn_state n) = initial_peers cfg ?ps (nd_fixed_voters d)" "peer_addrs (cn_state n) = ?ps" "learners (cn_state n) = ?ls" by blast
  have "filter (\<lambda>a. a \<noteq> advertised cfg) (other_addrs i ?ps) = other_addrs i ?ps"
  proof -
    have "a \<noteq> advertised cfg" if "a \<in> set (other_addrs i ?ps)" for a
      using that members_inj [OF ps] own unfolding other_addrs_ok [OF ps(1)] peers_of_def by blast
    then show ?thesis by (simp add: filter_id_conv)
  qed
  then have "initial_peers cfg ?ps (Some V) = sort_dedup (other_addrs i ?ps)" using own id by (simp add: initial_peers_def Let_def)
  with n fx mem sort_dedup_ok other_addrs_ok [OF ps(1)] have "mem_ok V i (cn_state n)" by (simp add: mem_ok_def)
  with n fx show ?thesis by auto
qed

text \<open>The voters a candidate asks and a leader counts: every other sealed voter, once.\<close>

lemma voter_peers_ok:
  assumes "mem_ok V i st"
  shows "distinct (voter_peers st) \<and> set (voter_peers st) = peers_of i V"
proof -
  have m: "members_ok V (peer_addrs st) (learners st)" using assms by (simp add: mem_ok_def)
  have "a \<in> peers_of i (peer_addrs st) \<and> a \<notin> set (learners st) \<longleftrightarrow> a \<in> peers_of i V" for a
    unfolding peers_of_def using voter_get [OF m] by blast
  with assms show ?thesis unfolding voter_peers_def by (auto simp: mem_ok_def)
qed

lemma card_peers_of:
  assumes "btm_ok V" "distinct (map snd V)" "btm_get V i = Some b"
  shows "card (peers_of i V) + 1 = length V"
proof -
  have get: "btm_get V j = Some a \<longleftrightarrow> (j, a) \<in> set V" for j a using btm_ok_distinct [OF assms(1)] by simp
  have p: "peers_of i V = snd ` set V - {b}"
  proof (intro set_eqI iffI)
    fix a assume "a \<in> peers_of i V"
    then obtain j where j: "j \<noteq> i" "btm_get V j = Some a" by (auto simp: peers_of_def)
    then have "a \<noteq> b" using members_inj [OF assms(1,2) j(2)] assms(3) by blast
    moreover have "a \<in> snd ` set V" using get j(2) by (metis image_eqI snd_conv)
    ultimately show "a \<in> snd ` set V - {b}" by simp
  next
    fix a assume "a \<in> snd ` set V - {b}"
    then obtain j where "(j, a) \<in> set V" "a \<noteq> b" by auto
    then have "btm_get V j = Some a" using get by blast
    moreover have "j \<noteq> i" using calculation assms(3) \<open>a \<noteq> b\<close> by force
    ultimately show "a \<in> peers_of i V" by (auto simp: peers_of_def)
  qed
  have "card (snd ` set V) = length V" using assms(2) distinct_card [of "map snd V"] by simp
  moreover have "b \<in> snd ` set V" using assms(3) by (force dest: map_of_SomeD)
  moreover have "length V > 0" using assms(3) by (cases V) auto
  ultimately show ?thesis unfolding p by (simp add: card_Diff_singleton)
qed

lemma distinct_addrs: "btm_ok ps \<Longrightarrow> distinct (map snd ps) \<longleftrightarrow> inj_on snd (set ps)"
  using btm_ok_distinct [of ps] by (simp add: distinct_map)

lemma members_okI:
  assumes "btm_ok ps" "inj_on snd (set ps)" "btm_ok V"
    and "\<And>k a. btm_get V k = Some a \<longleftrightarrow> btm_get ps k = Some a \<and> a \<notin> set ls"
  shows "members_ok V ps ls"
proof -
  have "btm_get (btm_retain (\<lambda>_ a. a \<notin> set ls) ps) k = btm_get V k" for k
  proof (rule option.expand)
    note r = btm_get_retain [OF assms(1), of "\<lambda>_ a. a \<notin> set ls" k]
    have get: "btm_get (btm_retain (\<lambda>_ a. a \<notin> set ls) ps) k = Some b \<longleftrightarrow> btm_get V k = Some b" for b
      unfolding assms(4) r by (cases "btm_get ps k") auto
    show "(btm_get (btm_retain (\<lambda>_ a. a \<notin> set ls) ps) k = None) = (btm_get V k = None)" using get by (metis not_None_eq)
    show "the (btm_get (btm_retain (\<lambda>_ a. a \<notin> set ls) ps) k) = the (btm_get V k)" if "btm_get V k \<noteq> None"
      using get that by (metis not_None_eq)
  qed
  then have "btm_retain (\<lambda>_ a. a \<notin> set ls) ps = V" using map_ext [OF btm_ok_retain [OF assms(1)] assms(3)] by blast
  with assms(1,2) show ?thesis by (simp add: members_ok_def distinct_addrs)
qed

lemma adopt_mem_ok:
  assumes "members_ok V peers l" "ar_learner_addrs req = Some l" "cc_node_id (cn_config n) = i"
  shows "mem_ok V i (cn_state (adopt_peers req peers n))"
proof -
  have "btm_ok peers" using assms(1) by (simp add: members_ok_def)
  moreover have "members_ok V peers (remdups l)" using assms(1) by (simp add: members_ok_def)
  ultimately show ?thesis using assms(2,3) sort_dedup_ok other_addrs_ok by (simp add: mem_ok_def adopt_peers_def)
qed

lemma add_members:
  assumes m: "members_ok V ps ls" and V: "btm_ok V" and j: "btm_get ps j = None" and a: "a \<notin> snd ` set ps"
  shows "members_ok V (btm_insert j a ps) (List.insert a ls)"
proof (rule members_okI [OF _ _ V])
  have ps: "btm_ok ps" "inj_on snd (set ps)" using m by (auto simp: members_ok_def distinct_map)
  show "btm_ok (btm_insert j a ps)" by (rule btm_ok_insert [OF ps(1)])
  have s: "set (btm_insert j a ps) \<subseteq> insert (j, a) (set ps)" by (auto simp: set_btm_insert [OF ps(1)])
  show "inj_on snd (set (btm_insert j a ps))" by (rule inj_on_subset [OF _ s]) (use ps(2) a in \<open>auto simp: inj_on_def image_iff\<close>)
  fix k b
  have "b \<noteq> a" if "btm_get ps k = Some b" using that a by (force dest: map_of_SomeD)
  then show "btm_get V k = Some b \<longleftrightarrow> btm_get (btm_insert j a ps) k = Some b \<and> b \<notin> set (List.insert a ls)"
    using voter_get [OF m, of k b] j by (auto simp: btm_get_insert)
qed

lemma remove_members:
  assumes m: "members_ok V ps ls" and V: "btm_ok V" and j: "btm_get ps j = Some a" "btm_get V j = None"
  shows "members_ok V (btm_remove j ps) (removeAll a ls)"
proof (rule members_okI [OF _ _ V])
  have ps: "btm_ok ps" "distinct (map snd ps)" using m by (simp_all add: members_ok_def)
  show "btm_ok (btm_remove j ps)" by (rule btm_ok_remove [OF ps(1)])
  show "inj_on snd (set (btm_remove j ps))"
    by (rule inj_on_subset [of _ "set ps"]) (use ps in \<open>auto simp: distinct_addrs btm_remove_def\<close>)
  fix k b
  have "b \<noteq> a" if "btm_get ps k = Some b" "k \<noteq> j" using that members_inj [OF ps j(1)] by blast
  then show "btm_get V k = Some b \<longleftrightarrow> btm_get (btm_remove j ps) k = Some b \<and> b \<notin> set (removeAll a ls)"
    using voter_get [OF m, of k b] j by (auto simp: btm_get_remove)
qed

section \<open>Voters\<close>

definition voter_node :: "cluster_json \<Rightarrow> (string, string) btm \<Rightarrow> string \<Rightarrow> cluster_node \<Rightarrow> bool" where
  "voter_node J V i n \<longleftrightarrow> node_inv J n \<and> voter_config V i (cn_config n) \<and> cn_fixed n = Some V
     \<and> mem_ok V i (cn_state n) \<and> disk_ok V (cn_disk n) \<and> (role_of (cn_state n) \<noteq> Follower \<longrightarrow> 0 < current_term (cn_state n))"

lemma voter_node_step:
  assumes "voter_node J V i n" and "good_step J n n'" "same_members n n'"
    and "role_of (cn_state n') \<noteq> Follower \<longrightarrow> role_of (cn_state n) \<noteq> Follower \<or> 0 < current_term (cn_state n')"
  shows "voter_node J V i n'"
proof -
  have "meta_le (mem_meta (cn_state n)) (mem_meta (cn_state n'))" using assms(2) by (simp add: good_step_def)
  from meta_le_fst [OF this] have "current_term (cn_state n) \<le> current_term (cn_state n')" by (simp add: mem_meta_def)
  moreover have "mem_ok V i (cn_state n') = mem_ok V i (cn_state n)" "disk_ok V (cn_disk n') = disk_ok V (cn_disk n)"
    using assms(3) by (auto simp: same_members_def intro!: mem_ok_cong disk_ok_cong)
  moreover have "cn_config n' = cn_config n" "cn_fixed n' = cn_fixed n" "node_inv J n'"
    using assms(2) by (simp_all add: good_step_def same_identity_def)
  ultimately show ?thesis using assms(1,4) by (auto simp: voter_node_def)
qed

lemma persist_peers_disk:
  assumes "persist_peers n = (r, n')"
  shows "cn_state n' = cn_state n \<and> (disk_members (cn_disk n') = disk_members (cn_disk n)
    \<or> disk_members (cn_disk n') = (Some (peer_addrs (cn_state n)), Some (learners (cn_state n)), nd_fixed_voters (cn_disk n)))"
  using assms unfolding persist_peers_def by (cases rule: durable_cases) (auto simp: disk_members_def)

lemma disk_ok_peers: "disk_ok V d \<Longrightarrow> members_ok V ps ls \<Longrightarrow>
    disk_members d' = (Some ps, Some ls, nd_fixed_voters d) \<Longrightarrow> disk_ok V d'"
  by (simp add: disk_ok_def disk_members_def)

lemma voter_distinct: "voter_config V i cfg \<Longrightarrow> btm_ok V \<and> distinct (map snd V) \<and> btm_get V i \<noteq> None"
  using config_voters_ok by fastforce

lemma add_peer_voter:
  assumes v: "voter_node J V i n" and h: "add_peer j a l n = (r, n')"
  shows "voter_node J V i n'"
proof -
  let ?st = "cn_state n"
  let ?s = "?st\<lparr>raft_peers := raft_peers ?st @ [a], peer_addrs := btm_insert j a (peer_addrs ?st),
    learners := (if l then List.insert a (learners ?st) else learners ?st),
    next_index := (next_index ?st)(a \<mapsto> last_log_index ?st + 1), match_index := (match_index ?st)(a \<mapsto> 0)\<rparr>"
  have inv: "node_inv J n" "cn_fixed n = Some V" "mem_ok V i ?st" "disk_ok V (cn_disk n)" "voter_config V i (cn_config n)"
    using v by (simp_all add: voter_node_def)
  have V: "btm_ok V" using voter_distinct [OF inv(5)] by simp
  note g = add_peer_ok [OF inv(1) h]
  consider "n' = n" | "persist_peers (set_state ?s n) = (r, n')" "j \<noteq> cc_node_id (cn_config n)" "l"
      "\<not> list_ex (\<lambda>e. fst e \<noteq> j \<and> snd e = a) (peer_addrs ?st)" "btm_get (peer_addrs ?st) j = None"
    using h inv(2) unfolding add_peer_def Let_def by (auto simp: healthy_def not_leader_def split: if_splits)
  then show ?thesis
  proof cases
    case 1
    with v show ?thesis by simp
  next
    case 2
    have m: "members_ok V (peer_addrs ?st) (learners ?st)" "distinct (raft_peers ?st)" "set (raft_peers ?st) = peers_of i (peer_addrs ?st)"
      using inv(3) by (simp_all add: mem_ok_def)
    have a: "a \<notin> snd ` set (peer_addrs ?st)" using 2(4,5) by (auto simp: list_ex_iff map_of_eq_None_iff)
    note new = add_members [OF m(1) V 2(5) a]
    have ji: "j \<noteq> i" using 2(2) inv(5) by (simp add: voter_config_def)
    have "a \<notin> peers_of i (peer_addrs ?st)" using a by (force simp: peers_of_def dest: map_of_SomeD)
    moreover have "peers_of i (btm_insert j a (peer_addrs ?st)) = insert a (peers_of i (peer_addrs ?st))"
    proof (intro set_eqI iffI)
      fix b assume "b \<in> insert a (peers_of i (peer_addrs ?st))"
      then show "b \<in> peers_of i (btm_insert j a (peer_addrs ?st))"
      proof
        assume "b = a"
        with ji show ?thesis unfolding peers_of_def by (auto simp: btm_get_insert intro!: exI [of _ j])
      next
        assume "b \<in> peers_of i (peer_addrs ?st)"
        then obtain k where k: "k \<noteq> i" "btm_get (peer_addrs ?st) k = Some b" by (auto simp: peers_of_def)
        with 2(5) have "k \<noteq> j" by auto
        with k show ?thesis unfolding peers_of_def by (auto simp: btm_get_insert intro!: exI [of _ k])
      qed
    qed (auto simp: peers_of_def btm_get_insert split: if_splits)
    ultimately have mem: "mem_ok V i ?s" using m new 2(3) by (simp add: mem_ok_def)
    note d = persist_peers_disk [OF 2(1), simplified]
    from conjunct2 [OF d] have "disk_ok V (cn_disk n')"
    proof
      assume "disk_members (cn_disk n') = disk_members (cn_disk n)"
      with disk_ok_cong inv(4) show ?thesis by blast
    qed (rule disk_ok_peers [OF inv(4) new], use 2(3) in simp)
    with d mem g v show ?thesis by (simp add: voter_node_def good_step_def same_identity_def)
  qed
qed

lemma remove_peer_voter:
  assumes v: "voter_node J V i n" and h: "remove_peer j n = (r, n')"
  shows "voter_node J V i n'"
proof -
  let ?st = "cn_state n"
  let ?s = "\<lambda>a. ?st\<lparr>peer_addrs := btm_remove j (peer_addrs ?st), raft_peers := filter (\<lambda>p. p \<noteq> a) (raft_peers ?st),
    learners := removeAll a (learners ?st), next_index := (next_index ?st)(a := None), match_index := (match_index ?st)(a := None)\<rparr>"
  have inv: "node_inv J n" "cn_fixed n = Some V" "mem_ok V i ?st" "disk_ok V (cn_disk n)" "voter_config V i (cn_config n)"
    using v by (simp_all add: voter_node_def)
  have V: "btm_ok V" "btm_get V i \<noteq> None" using voter_distinct [OF inv(5)] by simp_all
  note g = remove_peer_ok [OF inv(1) h]
  consider "n' = n" | a where "persist_peers (set_state (?s a) n) = (r, n')" "btm_get V j = None" "btm_get (peer_addrs ?st) j = Some a"
    using h inv(2) unfolding remove_peer_def Let_def by (auto simp: healthy_def not_leader_def split: if_splits option.splits)
  then show ?thesis
  proof cases
    case 1
    with v show ?thesis by simp
  next
    case (2 a)
    have m: "members_ok V (peer_addrs ?st) (learners ?st)" "distinct (raft_peers ?st)" "set (raft_peers ?st) = peers_of i (peer_addrs ?st)"
      using inv(3) by (simp_all add: mem_ok_def)
    have ps: "btm_ok (peer_addrs ?st)" "distinct (map snd (peer_addrs ?st))" using m(1) by (simp_all add: members_ok_def)
    note new = remove_members [OF m(1) V(1) 2(3,2)]
    have ji: "j \<noteq> i" using 2(2) V(2) by auto
    have uniq: "k = j" if "btm_get (peer_addrs ?st) k = Some a" for k using that members_inj [OF ps 2(3)] by blast
    have "peers_of i (btm_remove j (peer_addrs ?st)) = peers_of i (peer_addrs ?st) - {a}"
    proof (intro set_eqI iffI)
      fix b assume "b \<in> peers_of i (btm_remove j (peer_addrs ?st))"
      then obtain k where k: "k \<noteq> i" "k \<noteq> j" "btm_get (peer_addrs ?st) k = Some b" by (auto simp: peers_of_def btm_get_remove split: if_splits)
      then show "b \<in> peers_of i (peer_addrs ?st) - {a}" using uniq [of k] by (auto simp: peers_of_def)
    next
      fix b assume "b \<in> peers_of i (peer_addrs ?st) - {a}"
      then obtain k where k: "k \<noteq> i" "btm_get (peer_addrs ?st) k = Some b" "b \<noteq> a" by (auto simp: peers_of_def)
      then have "k \<noteq> j" using 2(3) by auto
      with k show "b \<in> peers_of i (btm_remove j (peer_addrs ?st))" by (auto simp: peers_of_def btm_get_remove)
    qed
    then have mem: "mem_ok V i (?s a)" using m new by (auto simp: mem_ok_def)
    note d = persist_peers_disk [OF 2(1), simplified]
    from conjunct2 [OF d] have "disk_ok V (cn_disk n')"
    proof
      assume "disk_members (cn_disk n') = disk_members (cn_disk n)"
      with disk_ok_cong inv(4) show ?thesis by blast
    qed (rule disk_ok_peers [OF inv(4) new])
    with d mem g v show ?thesis by (simp add: voter_node_def good_step_def same_identity_def)
  qed
qed

end
