(* ===== verification/Cluster_System.thy ===== *)
theory Cluster_System
  imports Cluster_Members
begin

text \<open>
  The voters of a sealed cluster and the messages between them. A step is one section of one node that holds its
  state lock, with the messages it sends; messages may be lost, delayed and duplicated, a node may stop and start
  again from its disk at any moment, and any write to a disk may fail. On every run, a term has at most one leader,
  and what a node has applied is never taken back.
\<close>

section \<open>The system\<close>

record cluster_sys =
  cs_nodes :: "string \<Rightarrow> cluster_node"
  cs_elections :: "string \<Rightarrow> election option"
  cs_asked :: "vote_request set"
  cs_votes :: "(string \<times> vote_request \<times> vote_response) set"
  cs_appends :: "(string \<times> append_request) set"
  cs_acks :: "(string \<times> append_request \<times> append_response) set"

definition set_node :: "string \<Rightarrow> cluster_node \<Rightarrow> cluster_sys \<Rightarrow> cluster_sys" where
  "set_node i n s = s\<lparr>cs_nodes := (cs_nodes s)(i := n)\<rparr>"

definition set_election :: "string \<Rightarrow> election option \<Rightarrow> cluster_sys \<Rightarrow> cluster_sys" where
  "set_election i el s = s\<lparr>cs_elections := (cs_elections s)(i := el)\<rparr>"

text \<open>What a node does on its own, for a client, an operator, its heartbeat timer or an answer of a learner.\<close>

datatype local_op =
    PutOp string string "(string \<times> string) list"
  | CasOp string "string option" string "(string \<times> string) list"
  | SchedulerCasOp nat string "string option" string
  | BarrierOp nat
  | JoinOp string string bool
  | LeaveOp string
  | CommitOp
  | LearnerAckOp string nat nat nat append_response
  | StopOp

fun run_local :: "cluster_json \<Rightarrow> local_op \<Rightarrow> cluster_node \<Rightarrow> cluster_node" where
  "run_local J (PutOp key value extra) n = snd (put_with J key value extra n)"
| "run_local J (CasOp key expected new extra) n = snd (cas_with J key expected new extra n)"
| "run_local J (SchedulerCasOp t key expected new) n = snd (scheduler_cas J t key expected new n)"
| "run_local J (BarrierOp t) n = snd (scheduler_barrier J t n)"
| "run_local J (JoinOp i a l) n = snd (handle_join i a l n)"
| "run_local J (LeaveOp i) n = snd (handle_leave i n)"
| "run_local J CommitOp n = snd (update_commit_index J n)"
| "run_local J (LearnerAckOp peer t prev matched resp) n = accept_append_response peer t prev matched resp n"
| "run_local J StopOp n = n\<lparr>cn_stopped := True\<rparr>"

text \<open>Answers from the addresses of voters are messages of the system.\<close>

fun local_ok :: "(string, string) btm \<Rightarrow> local_op \<Rightarrow> bool" where
  "local_ok V (LearnerAckOp peer _ _ _ _) \<longleftrightarrow> peer \<notin> snd ` set V"
| "local_ok V _ \<longleftrightarrow> True"

inductive cluster_step :: "cluster_json \<Rightarrow> (string, string) btm \<Rightarrow> cluster_sys \<Rightarrow> cluster_sys \<Rightarrow> bool" for J V where
  local: "btm_get V i \<noteq> None \<Longrightarrow> local_ok V act \<Longrightarrow>
    cluster_step J V s (set_node i (run_local J act (cs_nodes s i)) s)"
| restart: "btm_get V i \<noteq> None \<Longrightarrow> voter_config V i cfg \<Longrightarrow> new_fixed J cfg io (cn_disk (cs_nodes s i)) = Inr n \<Longrightarrow>
    cluster_step J V s (set_election i None (set_node i n s))"
| campaign_lost: "btm_get V i \<noteq> None \<Longrightarrow> role_of (cn_state (cs_nodes s i)) \<noteq> Leader \<Longrightarrow> cs_elections s i = None \<Longrightarrow>
    begin_election (cs_nodes s i) = (None, n) \<Longrightarrow> cluster_step J V s (set_node i n s)"
| campaign: "btm_get V i \<noteq> None \<Longrightarrow> role_of (cn_state (cs_nodes s i)) \<noteq> Leader \<Longrightarrow> cs_elections s i = None \<Longrightarrow>
    begin_election (cs_nodes s i) = (Some el, n) \<Longrightarrow>
    cluster_step J V s (set_election i (Some el) (set_node i n (s\<lparr>cs_asked := insert (election_request i el) (cs_asked s)\<rparr>)))"
| vote: "btm_get V i \<noteq> None \<Longrightarrow> req \<in> cs_asked s \<Longrightarrow> handle_request_vote req (cs_nodes s i) = (resp, n) \<Longrightarrow>
    cluster_step J V s (set_node i n (s\<lparr>cs_votes := insert (i, req, resp) (cs_votes s)\<rparr>))"
| reply: "btm_get V i \<noteq> None \<Longrightarrow> cs_elections s i = Some el \<Longrightarrow> el_votes el < el_majority el \<Longrightarrow> peer \<in> set (el_waiting el) \<Longrightarrow>
    btm_get V j = Some peer \<Longrightarrow> (case answer of None \<Rightarrow> True | Some resp \<Rightarrow> (j, election_request i el, resp) \<in> cs_votes s) \<Longrightarrow>
    election_reply peer answer el (cs_nodes s i) = (el', n) \<Longrightarrow> cluster_step J V s (set_election i el' (set_node i n s))"
| finish: "btm_get V i \<noteq> None \<Longrightarrow> cs_elections s i = Some el \<Longrightarrow> el_votes el \<ge> el_majority el \<or> el_waiting el = [] \<Longrightarrow>
    cluster_step J V s (set_election i None (set_node i (finish_election el (cs_nodes s i)) s))"
| abandon: "btm_get V i \<noteq> None \<Longrightarrow> cluster_step J V s (set_election i None s)"
| send: "btm_get V i \<noteq> None \<Longrightarrow> append_request_to J peer (cs_nodes s i) = Some req \<Longrightarrow>
    cluster_step J V s (s\<lparr>cs_appends := insert (peer, req) (cs_appends s)\<rparr>)"
| receive: "btm_get V i = Some addr \<Longrightarrow> (addr, req) \<in> cs_appends s \<Longrightarrow>
    handle_append_entries J req (cs_nodes s i) = (Inr resp, n) \<Longrightarrow>
    cluster_step J V s (set_node i n (s\<lparr>cs_acks := insert (addr, req, resp) (cs_acks s)\<rparr>))"
| ack: "btm_get V i \<noteq> None \<Longrightarrow> (addr, req, resp) \<in> cs_acks s \<Longrightarrow> ar_leader_id req = i \<Longrightarrow>
    cluster_step J V s (set_node i (accept_append_response addr (ar_term req) (ar_prev_log_index req) (matched_index req) resp (cs_nodes s i)) s)"

definition cluster_start :: "cluster_json \<Rightarrow> (string, string) btm \<Rightarrow> cluster_sys \<Rightarrow> bool" where
  "cluster_start J V s \<longleftrightarrow> cs_elections s = Map.empty \<and> cs_asked s = {} \<and> cs_votes s = {} \<and> cs_appends s = {} \<and> cs_acks s = {}
     \<and> (\<forall>i. btm_get V i \<noteq> None \<longrightarrow> (\<exists>cfg io. voter_config V i cfg \<and> new_fixed J cfg io fresh_disk = Inr (cs_nodes s i)))"

inductive cluster_reach :: "cluster_json \<Rightarrow> (string, string) btm \<Rightarrow> cluster_sys \<Rightarrow> cluster_sys \<Rightarrow> bool" for J V where
  refl: "cluster_reach J V s s"
| step: "cluster_reach J V s t \<Longrightarrow> cluster_step J V t u \<Longrightarrow> cluster_reach J V s u"

lemma set_node_simps [simp]:
  "cs_nodes (set_node i n s) = (cs_nodes s)(i := n)" "cs_elections (set_node i n s) = cs_elections s" "cs_asked (set_node i n s) = cs_asked s"
  "cs_votes (set_node i n s) = cs_votes s" "cs_appends (set_node i n s) = cs_appends s" "cs_acks (set_node i n s) = cs_acks s"
  by (simp_all add: set_node_def)

lemma set_election_simps [simp]:
  "cs_nodes (set_election i el s) = cs_nodes s" "cs_elections (set_election i el s) = (cs_elections s)(i := el)"
  "cs_asked (set_election i el s) = cs_asked s"
  "cs_votes (set_election i el s) = cs_votes s" "cs_appends (set_election i el s) = cs_appends s" "cs_acks (set_election i el s) = cs_acks s"
  by (simp_all add: set_election_def)

section \<open>One voter\<close>

text \<open>A step of a voter keeps it a voter, and makes it the leader of no term that it did not lead before.\<close>

definition voter_move :: "cluster_json \<Rightarrow> (string, string) btm \<Rightarrow> string \<Rightarrow> cluster_node \<Rightarrow> cluster_node \<Rightarrow> bool" where
  "voter_move J V i n n' \<longleftrightarrow> voter_node J V i n' \<and> grows J n n' \<and> meta_le (meta_of (cn_disk n)) (meta_of (cn_disk n'))"

definition no_new_leader :: "cluster_node \<Rightarrow> cluster_node \<Rightarrow> bool" where
  "no_new_leader n n' \<longleftrightarrow> (role_of (cn_state n') = Leader \<longrightarrow> role_of (cn_state n) = Leader \<and> current_term (cn_state n') = current_term (cn_state n))"

lemma voter_nodeD: "voter_node J V i n \<Longrightarrow> node_inv J n"
  by (simp add: voter_node_def)

lemma move_same:
  assumes "voter_node J V i n" "good_step J n n'" "same_members n n'"
    and "role_of (cn_state n') = role_of (cn_state n) \<and> current_term (cn_state n') = current_term (cn_state n)
      \<or> role_of (cn_state n') = Follower"
  shows "voter_move J V i n n' \<and> no_new_leader n n'"
proof -
  have "voter_node J V i n'" by (rule voter_node_step [OF assms(1-3)]) (use assms(4) in auto)
  with assms show ?thesis by (auto simp: voter_move_def no_new_leader_def good_step_def)
qed

lemma move_refl: "voter_node J V i n \<Longrightarrow> voter_move J V i n n \<and> no_new_leader n n"
  by (simp add: voter_move_def no_new_leader_def)

lemma propose_move:
  assumes "voter_node J V i n" "marker_ok J" "\<not> cn_stopped n" "role_of (cn_state n) = Leader" "valid_keys key extra"
  shows "voter_move J V i n (snd (propose J key value extra n)) \<and> no_new_leader n (snd (propose J key value extra n))"
proof -
  obtain r n' where p: "propose J key value extra n = (r, n')" by fastforce
  have "0 < current_term (cn_state n)" using assms(1,4) by (simp add: voter_node_def)
  note ok = propose_ok [OF voter_nodeD [OF assms(1)] assms(2,3) this assms(5) p]
  show ?thesis unfolding p snd_conv
    by (rule move_same [OF assms(1) conjunct1 [OF ok] propose_members [OF p]]) (use ok in simp)
qed

lemma scheduler_keys: "scheduler_key key \<Longrightarrow> valid_keys key []"
proof -
  have "CHR ''s'' \<noteq> char_of (0::nat)" by code_simp
  then show "scheduler_key key \<Longrightarrow> valid_keys key []"
    by (cases key) (auto simp: scheduler_key_def valid_keys_def reserved_def starts_with_def)
qed

lemma cas_internal_move:
  assumes "voter_node J V i n" "marker_ok J" "valid_keys key extra"
  shows "voter_move J V i n (snd (cas_internal J key expected new extra t n)) \<and> no_new_leader n (snd (cas_internal J key expected new extra t n))"
proof (cases "\<not> cn_stopped n \<and> role_of (cn_state n) = Leader")
  case True
  note p = propose_move [OF assms(1,2) _ _ assms(3), of new]
  have "snd (cas_internal J key expected new extra t n) \<in> {n, snd (propose J key new extra n)}"
    by (auto simp: cas_internal_def healthy_def split: prod.splits sum.splits)
  with p True move_refl [OF assms(1)] show ?thesis by auto
next
  case False
  then have "snd (cas_internal J key expected new extra t n) = n" by (auto simp: cas_internal_def healthy_def)
  with move_refl [OF assms(1)] show ?thesis by simp
qed

lemma accept_move:
  assumes "voter_node J V i n"
  shows "voter_move J V i n (accept_append_response peer t p m resp n) \<and> no_new_leader n (accept_append_response peer t p m resp n)"
proof -
  note ok = accept_append_response_ok [OF voter_nodeD [OF assms] HOL.refl, of peer t p m resp]
  show ?thesis by (rule move_same [OF assms conjunct1 [OF ok] accept_append_response_members]) (use ok in blast)
qed

lemma join_move:
  assumes "voter_node J V i n"
  shows "voter_move J V i n (snd (handle_join j a l n)) \<and> no_new_leader n (snd (handle_join j a l n))"
proof -
  obtain r n' where h: "add_peer j a l n = (r, n')" by fastforce
  note ok = add_peer_ok [OF voter_nodeD [OF assms] h] add_peer_voter [OF assms h]
  then have "voter_move J V i n n' \<and> no_new_leader n n'" by (auto simp: voter_move_def no_new_leader_def good_step_def same_log_def mem_meta_def)
  moreover have "snd (handle_join j a l n) \<in> {n, n'}" by (simp add: handle_join_def h split: sum.split)
  ultimately show ?thesis using move_refl [OF assms] by auto
qed

lemma leave_move:
  assumes "voter_node J V i n"
  shows "voter_move J V i n (snd (handle_leave j n)) \<and> no_new_leader n (snd (handle_leave j n))"
proof -
  obtain r n' where h: "remove_peer j n = (r, n')" by fastforce
  note ok = remove_peer_ok [OF voter_nodeD [OF assms] h] remove_peer_voter [OF assms h]
  then have "voter_move J V i n n' \<and> no_new_leader n n'" by (auto simp: voter_move_def no_new_leader_def good_step_def same_log_def mem_meta_def)
  moreover have "snd (handle_leave j n) \<in> {n, n'}" by (simp add: handle_leave_def h split: sum.split)
  ultimately show ?thesis using move_refl [OF assms] by auto
qed

lemma commit_move:
  assumes "voter_node J V i n" "marker_ok J"
  shows "voter_move J V i n (snd (update_commit_index J n)) \<and> no_new_leader n (snd (update_commit_index J n))"
proof -
  obtain r n' where h: "update_commit_index J n = (r, n')" by fastforce
  note ok = update_commit_index_ok [OF voter_nodeD [OF assms(1)] assms(2) h]
  show ?thesis unfolding h snd_conv
    by (rule move_same [OF assms(1) conjunct1 [OF ok] update_commit_index_members [OF h]]) (use ok in simp)
qed

lemma stop_move:
  assumes "voter_node J V i n"
  shows "voter_move J V i n (n\<lparr>cn_stopped := True\<rparr>) \<and> no_new_leader n (n\<lparr>cn_stopped := True\<rparr>)"
  using assms by (simp add: voter_move_def no_new_leader_def voter_node_def node_inv_def grows_def)

lemma put_move:
  assumes "voter_node J V i n" "marker_ok J"
  shows "voter_move J V i n (snd (put_with J key value extra n)) \<and> no_new_leader n (snd (put_with J key value extra n))"
proof (cases "\<not> cn_stopped n \<and> role_of (cn_state n) = Leader \<and> client_keys key extra")
  case True
  then have "valid_keys key extra" by (simp add: client_keys_def)
  from propose_move [OF assms _ _ this] True show ?thesis by (simp add: put_with_def healthy_def)
next
  case False
  then have "snd (put_with J key value extra n) = n" by (auto simp: put_with_def healthy_def)
  with move_refl [OF assms(1)] show ?thesis by simp
qed

lemma barrier_move:
  assumes "voter_node J V i n" "marker_ok J"
  shows "voter_move J V i n (snd (scheduler_barrier J t n)) \<and> no_new_leader n (snd (scheduler_barrier J t n))"
proof (cases "\<not> cn_stopped n \<and> role_of (cn_state n) = Leader")
  case True
  have "valid_keys ''scheduler/barrier'' []" by (rule scheduler_keys) (simp add: scheduler_key_def starts_with_def)
  from propose_move [OF assms _ _ this] True move_refl [OF assms(1)] show ?thesis by (simp add: scheduler_barrier_def healthy_def)
next
  case False
  then have "snd (scheduler_barrier J t n) = n" by (auto simp: scheduler_barrier_def healthy_def)
  with move_refl [OF assms(1)] show ?thesis by simp
qed

lemma local_move:
  assumes "voter_node J V i n" "marker_ok J"
  shows "voter_move J V i n (run_local J act n) \<and> no_new_leader n (run_local J act n)"
proof (cases act)
  case (CasOp key e new extra)
  show ?thesis
  proof (cases "client_keys key extra")
    case True
    then have "valid_keys key extra" by (simp add: client_keys_def)
    from cas_internal_move [OF assms this] move_refl [OF assms(1)] True CasOp show ?thesis by (simp add: cas_with_def split: sum.split)
  qed (use CasOp move_refl [OF assms(1)] in \<open>simp add: cas_with_def split: sum.split\<close>)
next
  case (SchedulerCasOp t key e new)
  show ?thesis
  proof (cases "scheduler_key key")
    case True
    from cas_internal_move [OF assms scheduler_keys [OF True]] move_refl [OF assms(1)] SchedulerCasOp show ?thesis by (simp add: scheduler_cas_def)
  qed (use SchedulerCasOp move_refl [OF assms(1)] in \<open>simp add: scheduler_cas_def\<close>)
qed (use assms put_move barrier_move join_move leave_move commit_move accept_move stop_move in simp_all)

lemma vote_move:
  assumes "voter_node J V i n" "handle_request_vote req n = (resp, n')"
  shows "voter_move J V i n n' \<and> no_new_leader n n'"
proof -
  note ok = handle_request_vote_ok [OF voter_nodeD [OF assms(1)] assms(2)]
  have "role_of (cn_state n') = role_of (cn_state n) \<and> current_term (cn_state n') = current_term (cn_state n) \<or> role_of (cn_state n') = Follower"
    using assms(2) assms(1)
    by (auto simp: handle_request_vote_def Let_def vote_answer_def voter_node_def voter_config_def persist_meta_def durable_def
        split: if_splits sum.splits prod.splits list.splits io_outcome.splits)
  then show ?thesis by (rule move_same [OF assms(1) conjunct1 [OF ok] handle_request_vote_members [OF assms(2)]])
qed
lemma push_entry_state: "push_entry J e n = (r, n') \<Longrightarrow> \<exists>l. cn_state n' = (cn_state n)\<lparr>raft_log := l\<rparr>"
proof -
  assume p: "push_entry J e n = (r, n')"
  obtain r1 n1 where d: "persist_log_entry J e n = (r1, n1)" by fastforce
  then have "cn_state n1 = cn_state n" by (auto simp: persist_log_entry_def elim!: durable_cases split: if_splits)
  with p d show ?thesis by (cases r1) (auto simp: push_entry_def intro: exI [of _ "raft_log (cn_state n)"])
qed

lemma cut_conflict_state: "cut_conflict e n = (r, n') \<Longrightarrow> \<exists>l. cn_state n' = (cn_state n)\<lparr>raft_log := l\<rparr>"
proof -
  assume p: "cut_conflict e n = (r, n')"
  obtain r1 n1 where d: "truncate_log_from (le_index e) n = (r1, n1)" by fastforce
  then have "cn_state n1 = cn_state n" by (auto simp: truncate_log_from_def elim!: durable_cases)
  with p d show ?thesis by (cases r1) (auto simp: cut_conflict_def Let_def intro: exI [of _ "raft_log (cn_state n)"] split: option.splits if_splits)
qed

lemma append_entries_state: "append_entries J es n = (r, n') \<Longrightarrow> \<exists>l. cn_state n' = (cn_state n)\<lparr>raft_log := l\<rparr>"
proof (induction es arbitrary: n)
  case Nil
  then show ?case by (auto intro: exI [of _ "raft_log (cn_state n)"])
next
  case (Cons e es)
  obtain r1 n1 where c: "cut_conflict e n = (r1, n1)" by fastforce
  obtain r2 n2 where p: "push_entry J e n1 = (r2, n2)" by fastforce
  obtain l1 where l1: "cn_state n1 = (cn_state n)\<lparr>raft_log := l1\<rparr>" using cut_conflict_state [OF c] by blast
  obtain l2 where l2: "cn_state n2 = (cn_state n)\<lparr>raft_log := l2\<rparr>" using push_entry_state [OF p] l1 by auto
  consider "n' = n1" | "n' = n2" | "append_entries J es n1 = (r, n')" | "append_entries J es n2 = (r, n')"
    using Cons.prems c p by (cases r1; cases r2) (auto split: if_splits)
  then show ?case
  proof cases
    case 3
    from Cons.IH [OF 3] l1 show ?thesis by auto
  next
    case 4
    from Cons.IH [OF 4] l2 show ?thesis by auto
  qed (use l1 l2 in auto)
qed

lemma handle_append_role:
  assumes h: "handle_append_entries J req n = (r, n')"
  shows "n' = n \<or> role_of (cn_state n') = Follower"
proof (cases "cn_stopped n \<or> ar_term req > MAX_RAFT_TERM \<or> ar_term req < current_term (cn_state n)
    \<or> list_ex (too_big J) (ar_entries req) \<or> \<not> membership_ok n req")
  case True
  then show ?thesis using h by (auto simp: handle_append_entries_def append_reject_def split: if_splits)
next
  case False
  obtain r1 n1 where p1: "persist_meta (set_state (follow req (cn_state n)) n) = (r1, n1)" by fastforce
  obtain r2 n2 where p2: "append_entries J (ar_entries req) n1 = (r2, n2)" by fastforce
  obtain r3 n3 where p3: "apply_committed J (set_state (advance_commit req (cn_state n2)) n2) = (r3, n3)" by fastforce
  have f1: "role_of (cn_state n1) = Follower" using p1 unfolding persist_meta_def by (cases rule: durable_cases) simp_all
  have f2: "role_of (cn_state n2) = Follower" using append_entries_state [OF p2] f1 by auto
  have f3: "role_of (cn_state n3) = Follower" using apply_committed_state [OF p3] f2 by (auto simp: advance_commit_def)
  have f4: "role_of (cn_state n4) = Follower" if "persist_peers (adopt_peers req peers n3) = (r4, n4)" for peers r4 n4
    using persist_peers_disk [OF that] f3 by (simp add: adopt_peers_def)
  have "n' \<in> {n1, n2, n3} \<or> (\<exists>peers r4. persist_peers (adopt_peers req peers n3) = (r4, n'))"
    using h False unfolding handle_append_entries_def p1
    by (cases r1; cases r2; cases r3) (auto simp: p2 p3 append_reject_def split: if_splits option.splits rerr.splits prod.splits sum.splits)
  with f1 f2 f3 f4 show ?thesis by blast
qed

text \<open>Requests carry the members of a leader, which are those of a voter.\<close>

definition request_ok :: "(string, string) btm \<Rightarrow> append_request \<Rightarrow> bool" where
  "request_ok V req \<longleftrightarrow> (\<exists>ps ls. ar_peer_addrs req = Some ps \<and> ar_learner_addrs req = Some ls \<and> members_ok V ps ls)"

lemma append_move:
  assumes v: "voter_node J V i n" and m: "marker_ok J" and q: "request_ok V req" and h: "handle_append_entries J req n = (r, n')"
  shows "voter_move J V i n n' \<and> no_new_leader n n'"
proof -
  have inv: "node_inv J n" "cc_node_id (cn_config n) = i" using v by (simp_all add: voter_node_def voter_config_def)
  note ok = handle_append_ok [OF inv(1) m h]
  obtain ps ls where req: "ar_peer_addrs req = Some ps" "ar_learner_addrs req = Some ls" "members_ok V ps ls"
    using q by (auto simp: request_ok_def)
  have role: "n' = n \<or> role_of (cn_state n') = Follower" by (rule handle_append_role [OF h])
  have "voter_node J V i n'"
  proof (cases "same_members n n'")
    case True
    show ?thesis by (rule voter_node_step [OF v conjunct1 [OF ok] True]) (use role in auto)
  next
    case False
    with handle_append_members [OF inv(1) m h] req(1) have a: "mem_members (cn_state n') = mem_members (cn_state (adopt_peers req ps n))"
      and d: "disk_members (cn_disk n') = disk_members (cn_disk n)
         \<or> disk_members (cn_disk n') = (Some ps, Some (learners (cn_state n')), nd_fixed_voters (cn_disk n))" by auto
    have mem: "mem_ok V i (cn_state n')" using adopt_mem_ok [OF req(3,2) inv(2)] mem_ok_cong [OF a] by simp
    have l: "learners (cn_state n') = remdups ls" using a req(2) by (simp add: mem_members_def adopt_peers_def)
    have ml: "members_ok V ps (learners (cn_state n'))" using req(3) l by (simp add: members_ok_def)
    have old: "disk_ok V (cn_disk n)" using v by (simp add: voter_node_def)
    from d have "disk_ok V (cn_disk n')"
    proof
      assume "disk_members (cn_disk n') = disk_members (cn_disk n)"
      with disk_ok_cong old show ?thesis by blast
    qed (rule disk_ok_peers [OF old ml])
    moreover have "role_of (cn_state n') = Follower" using role False by auto
    ultimately show ?thesis using v mem ok by (simp add: voter_node_def good_step_def same_identity_def)
  qed
  with ok role show ?thesis by (auto simp: voter_move_def no_new_leader_def good_step_def)
qed

lemma send_ok:
  assumes "voter_node J V i n" "append_request_to J peer n = Some req"
  shows "request_ok V req \<and> ar_leader_id req = i"
  using assms by (auto simp: append_request_to_def Let_def request_ok_def voter_node_def mem_ok_def voter_config_def split: if_splits)

text \<open>A restart always succeeds, whatever the crash left on disk.\<close>

lemma restart_move:
  assumes v: "voter_node J V i n" and m: "marker_ok J" and c: "voter_config V i cfg"
  shows "\<exists>n'. new_fixed J cfg io (cn_disk n) = Inr n' \<and> voter_move J V i n n' \<and> no_new_leader n n' \<and> \<not> cn_stopped n'"
proof -
  have d: "disk_inv J (cn_disk n)" "disk_ok V (cn_disk n)" using v by (simp_all add: voter_node_def node_inv_def)
  from restart_ok [OF d(1) m c d(2), of io] obtain n' where n': "cluster_new J cfg io (cn_disk n) = Inr n'" "cn_disk n' = cn_disk n" "node_inv J n'"
    "\<not> cn_stopped n'" "cn_config n' = cfg" "cn_fixed n' = Some V" "role_of (cn_state n') = Follower" "mem_ok V i (cn_state n')" by blast
  have fx: "nd_fixed_voters (cn_disk n) = Some V" using d(2) by (simp add: disk_ok_def)
  then have eq: "(cn_disk n)\<lparr>nd_fixed_voters := Some V\<rparr> = cn_disk n" by (cases "cn_disk n") simp
  have "new_fixed J cfg io (cn_disk n) = cluster_new J cfg io ((cn_disk n)\<lparr>nd_fixed_voters := Some V\<rparr>)"
    using fx c by (simp add: new_fixed_def voter_config_def)
  with n'(1) have "new_fixed J cfg io (cn_disk n) = Inr n'" unfolding eq by simp
  with n' d c show ?thesis by (auto simp: voter_move_def no_new_leader_def voter_node_def grows_def)
qed

lemma start_voter:
  assumes m: "marker_ok J" and c: "voter_config V i cfg"
  shows "\<exists>n. new_fixed J cfg io fresh_disk = Inr n \<and> voter_node J V i n \<and> \<not> cn_stopped n \<and> role_of (cn_state n) = Follower
    \<and> applied_log J (cn_disk n) = []"
proof -
  let ?d = "fresh_disk\<lparr>nd_fixed_voters := Some V\<rparr>"
  have d: "disk_inv J ?d" "disk_ok V ?d" by (auto simp: disk_inv_def disk_ok_def fresh_disk_def keyed_def replay_def intro!: exI [of _ "[]"])
  from restart_ok [OF d(1) m c d(2), of io] obtain n' where n': "cluster_new J cfg io ?d = Inr n'" "cn_disk n' = ?d" "node_inv J n'"
    "\<not> cn_stopped n'" "cn_config n' = cfg" "cn_fixed n' = Some V" "role_of (cn_state n') = Follower" "mem_ok V i (cn_state n')" by blast
  have "nd_fixed_voters fresh_disk = None" by (simp add: fresh_disk_def)
  with n'(1) c have "new_fixed J cfg io fresh_disk = Inr n'" by (simp add: new_fixed_def voter_config_def)
  with n' d c show ?thesis by (auto simp: voter_node_def applied_log_def fresh_disk_def)
qed

lemma campaign_move:
  assumes "voter_node J V i n" "begin_election n = (el, n')"
  shows "voter_move J V i n n' \<and> no_new_leader n n'"
proof -
  note ok = begin_election_ok [OF voter_nodeD [OF assms(1)] assms(2)]
  have role: "role_of (cn_state n') = Candidate \<and> 0 < current_term (cn_state n') \<or> cn_state n' = cn_state n"
    using assms(2) by (auto simp: begin_election_def Let_def persist_meta_def durable_def split: if_splits sum.splits prod.splits list.splits io_outcome.splits)
  have "voter_node J V i n'" by (rule voter_node_step [OF assms(1) conjunct1 [OF ok] begin_election_members [OF assms(2)]]) (use role in auto)
  with ok role show ?thesis by (auto simp: voter_move_def no_new_leader_def good_step_def)
qed

lemma reply_move:
  assumes "voter_node J V i n" "election_reply peer answer el n = (el', n')"
  shows "voter_move J V i n n' \<and> no_new_leader n n'"
proof -
  note ok = election_reply_ok [OF voter_nodeD [OF assms(1)] assms(2)]
  show ?thesis by (rule move_same [OF assms(1) conjunct1 [OF ok] election_reply_members [OF assms(2)]]) (use ok in auto)
qed

lemma finish_move:
  assumes "voter_node J V i n"
  shows "voter_move J V i n (finish_election el n)
    \<and> (no_new_leader n (finish_election el n) \<or> el_majority el \<le> el_votes el \<and> el_term el = current_term (cn_state (finish_election el n)))"
proof -
  note ok = finish_election_ok [OF voter_nodeD [OF assms], of el]
  have role: "role_of (cn_state n) = Candidate" if "finish_election el n \<noteq> n" using that by (auto simp: finish_election_def Let_def split: if_splits)
  have "voter_node J V i (finish_election el n)"
    by (rule voter_node_step [OF assms conjunct1 [OF ok] finish_election_members]) (use role in \<open>cases "finish_election el n = n"; auto\<close>)
  with ok show ?thesis by (auto simp: voter_move_def no_new_leader_def good_step_def)
qed

section \<open>Votes\<close>

text \<open>\<open>j\<close> has voted for \<open>c\<close> in term \<open>t\<close>: it campaigned itself, or it answered a request.\<close>

definition supports :: "cluster_sys \<Rightarrow> nat \<Rightarrow> string \<Rightarrow> string \<Rightarrow> bool" where
  "supports s t c j \<longleftrightarrow> (\<exists>req. vr_term req = t \<and> vr_candidate_id req = c
     \<and> (j = c \<and> req \<in> cs_asked s \<or> (\<exists>resp. vs_granted resp \<and> (j, req, resp) \<in> cs_votes s)))"

definition voters :: "(string, string) btm \<Rightarrow> string set" where
  "voters V = {i. btm_get V i \<noteq> None}"

definition tally_ok :: "(string, string) btm \<Rightarrow> cluster_sys \<Rightarrow> string \<Rightarrow> election \<Rightarrow> bool" where
  "tally_ok V s i el \<longleftrightarrow> el_majority el = length V div 2 + 1 \<and> distinct (el_waiting el) \<and> set (el_waiting el) \<subseteq> peers_of i V
     \<and> election_request i el \<in> cs_asked s
     \<and> (\<exists>Q \<subseteq> voters V. card Q = el_votes el \<and> (\<forall>j \<in> Q. supports s (el_term el) i j \<and> the (btm_get V j) \<notin> set (el_waiting el)))"

definition elected :: "(string, string) btm \<Rightarrow> cluster_sys \<Rightarrow> nat \<Rightarrow> string \<Rightarrow> bool" where
  "elected V s t c \<longleftrightarrow> (\<exists>Q \<subseteq> voters V. card Q \<ge> length V div 2 + 1 \<and> (\<forall>j \<in> Q. supports s t c j))"

definition leads :: "cluster_sys \<Rightarrow> string \<Rightarrow> nat \<Rightarrow> bool" where
  "leads s i t \<longleftrightarrow> role_of (cn_state (cs_nodes s i)) = Leader \<and> current_term (cn_state (cs_nodes s i)) = t"

text \<open>A vote is on the voter's disk, or a later term is.\<close>

definition sys_inv :: "cluster_json \<Rightarrow> (string, string) btm \<Rightarrow> cluster_sys \<Rightarrow> bool" where
  "sys_inv J V s \<longleftrightarrow> (\<forall>i \<in> voters V. voter_node J V i (cs_nodes s i))
     \<and> (\<forall>(a, req) \<in> cs_appends s. request_ok V req)
     \<and> (\<forall>t c j. supports s t c j \<longrightarrow> j \<in> voters V \<and> meta_le (t, Some c) (meta_of (cn_disk (cs_nodes s j))))
     \<and> (\<forall>t c d j. supports s t c j \<and> supports s t d j \<longrightarrow> c = d)
     \<and> (\<forall>i \<in> voters V. \<forall>el. cs_elections s i = Some el \<longrightarrow> tally_ok V s i el)
     \<and> (\<forall>i \<in> voters V. \<forall>t. leads s i t \<longrightarrow> elected V s t i)"
lemma supports_mono: "supports s t c j \<Longrightarrow> cs_asked s \<subseteq> cs_asked s' \<Longrightarrow> cs_votes s \<subseteq> cs_votes s' \<Longrightarrow> supports s' t c j"
  unfolding supports_def by blast

lemma elected_mono: "elected V s t c \<Longrightarrow> cs_asked s \<subseteq> cs_asked s' \<Longrightarrow> cs_votes s \<subseteq> cs_votes s' \<Longrightarrow> elected V s' t c"
  unfolding elected_def using supports_mono by metis

lemma tally_mono: "tally_ok V s i el \<Longrightarrow> cs_asked s \<subseteq> cs_asked s' \<Longrightarrow> cs_votes s \<subseteq> cs_votes s' \<Longrightarrow> tally_ok V s' i el"
  unfolding tally_ok_def using supports_mono by (metis subsetD)

lemma vote_once:
  assumes "meta_le (t, Some d) m" "meta_le m (t, Some c)"
  shows "c = d"
  using assms by (auto simp: meta_le_def)

text \<open>A step of one voter, with what it may send: requests of leaders, and votes that are on its disk.\<close>

lemma sys_inv_move:
  assumes inv: "sys_inv J V s" and i: "i \<in> voters V" and mv: "voter_move J V i (cs_nodes s i) n'"
    and s': "cs_nodes s' = (cs_nodes s)(i := n')" "cs_asked s \<subseteq> cs_asked s'" "cs_votes s \<subseteq> cs_votes s'"
    and app: "\<And>a req. (a, req) \<in> cs_appends s' \<Longrightarrow> (a, req) \<in> cs_appends s \<or> request_ok V req"
    and sup: "\<And>t c j. supports s' t c j \<Longrightarrow> supports s t c j \<or> j = i \<and> meta_of (cn_disk n') = (t, Some c)"
    and el: "\<And>k el. k \<in> voters V \<Longrightarrow> cs_elections s' k = Some el \<Longrightarrow> cs_elections s k = Some el \<or> tally_ok V s' k el"
    and lead: "no_new_leader (cs_nodes s i) n' \<or> elected V s' (current_term (cn_state n')) i"
  shows "sys_inv J V s'"
proof -
  have grow: "meta_le (meta_of (cn_disk (cs_nodes s i))) (meta_of (cn_disk n'))" using mv by (simp add: voter_move_def)
  have old: "meta_le (t, Some c) (meta_of (cn_disk (cs_nodes s' j)))" if "supports s t c j" for t c j
    using that inv meta_le_trans [OF _ grow] s'(1) by (auto simp: sys_inv_def)
  have nodes: "\<forall>k \<in> voters V. voter_node J V k (cs_nodes s' k)" using inv mv s'(1) by (simp add: sys_inv_def voter_move_def)
  have reqs: "\<forall>(a, req) \<in> cs_appends s'. request_ok V req" using inv app by (fastforce simp: sys_inv_def)
  have promises: "j \<in> voters V \<and> meta_le (t, Some c) (meta_of (cn_disk (cs_nodes s' j)))" if "supports s' t c j" for t c j
    using sup [OF that]
  proof
    assume "supports s t c j"
    with old [OF this] inv show ?thesis unfolding sys_inv_def by blast
  qed (use i s'(1) in simp)
  have one: "c = d" if "supports s' t c j" "supports s' t d j" for t c d j
  proof (cases "supports s t c j \<and> supports s t d j")
    case True
    then show ?thesis using inv unfolding sys_inv_def by blast
  next
    case False
    with sup [OF that(1)] sup [OF that(2)] have j: "j = i" "meta_of (cn_disk n') = (t, Some c) \<or> meta_of (cn_disk n') = (t, Some d)" by auto
    have "meta_le (t, Some c) (meta_of (cn_disk n'))" "meta_le (t, Some d) (meta_of (cn_disk n'))"
      using promises [OF that(1)] promises [OF that(2)] j(1) s'(1) by simp_all
    with j(2) show ?thesis by (elim disjE) (simp_all add: meta_le_def)
  qed
  have tallies: "tally_ok V s' k e" if "k \<in> voters V" "cs_elections s' k = Some e" for k e
    using el [OF that] tally_mono [OF _ s'(2,3)] inv that(1) by (auto simp: sys_inv_def)
  have leaders: "elected V s' t k" if "k \<in> voters V" "leads s' k t" for k t
  proof (cases "k = i \<and> \<not> no_new_leader (cs_nodes s i) n'")
    case True
    then show ?thesis using lead that(2) s'(1) by (simp add: leads_def)
  next
    case False
    then have "leads s k t" using that(2) s'(1) by (cases "k = i") (auto simp: leads_def no_new_leader_def)
    then show ?thesis using inv that(1) elected_mono [OF _ s'(2,3)] by (auto simp: sys_inv_def)
  qed
  show ?thesis unfolding sys_inv_def using nodes reqs promises one tallies leaders by blast
qed

text \<open>A step that sends no vote and starts no election.\<close>

lemma sys_inv_plain:
  assumes "sys_inv J V s" "i \<in> voters V" "voter_move J V i (cs_nodes s i) n' \<and> no_new_leader (cs_nodes s i) n'"
    and "cs_nodes s' = (cs_nodes s)(i := n')" "cs_asked s' = cs_asked s" "cs_votes s' = cs_votes s"
    and "\<And>a req. (a, req) \<in> cs_appends s' \<Longrightarrow> (a, req) \<in> cs_appends s \<or> request_ok V req"
    and "\<And>k el. k \<in> voters V \<Longrightarrow> cs_elections s' k = Some el \<Longrightarrow> cs_elections s k = Some el"
  shows "sys_inv J V s'"
  by (rule sys_inv_move [OF assms(1,2) conjunct1 [OF assms(3)] assms(4)]) (use assms in \<open>auto simp: supports_def\<close>)

lemma voters_iff: "i \<in> voters V \<longleftrightarrow> btm_get V i \<noteq> None"
  by (simp add: voters_def)

lemma sys_inv_node: "sys_inv J V s \<Longrightarrow> i \<in> voters V \<Longrightarrow> voter_node J V i (cs_nodes s i)"
  by (simp add: sys_inv_def)

lemma sys_inv_self:
  assumes "sys_inv J V s" "i \<in> voters V"
  shows "voter_move J V i (cs_nodes s i) (cs_nodes s i) \<and> no_new_leader (cs_nodes s i) (cs_nodes s i)"
  using move_refl [OF sys_inv_node [OF assms]] by simp
lemma finite_voters: "finite (voters V)"
  using finite_dom_map_of [of V] by (simp add: voters_def dom_def)

lemma granted_on_disk:
  assumes v: "voter_node J V i n" and h: "handle_request_vote req n = (resp, n')" and g: "vs_granted resp"
  shows "meta_of (cn_disk n') = (vr_term req, Some (vr_candidate_id req))"
proof -
  note ok = handle_request_vote_ok [OF voter_nodeD [OF v] h]
  with g have "in_sync J n'" using good_step_sync by blast
  with ok g show ?thesis by (simp add: in_sync_def mem_meta_def)
qed

lemma campaign_tally:
  assumes v: "voter_node J V i n" and h: "begin_election n = (Some el, n')" and s: "election_request i el \<in> cs_asked s"
  shows "tally_ok V s i el \<and> meta_of (cn_disk n') = (el_term el, Some i)"
proof -
  note ok = begin_election_ok [OF voter_nodeD [OF v] h, simplified]
  have c: "voter_config V i (cn_config n)" "mem_ok V i (cn_state n)" "cc_node_id (cn_config n) = i"
    using v by (simp_all add: voter_node_def voter_config_def)
  note cv = config_voters_ok [OF c(1)] and vp = voter_peers_ok [OF c(2)]
  have V: "btm_ok V" "distinct (map snd V)" "btm_get V i = Some (advertised (cn_config n))" using conjunct2 [OF cv] by simp_all
  have len: "length (voter_peers (cn_state n)) + 1 = length V" using card_peers_of [OF V] vp distinct_card [of "voter_peers (cn_state n)"] by simp
  have "supports s (el_term el) i i" unfolding supports_def using s by (auto simp: election_request_def intro!: exI [of _ "election_request i el"])
  moreover have "the (btm_get V i) \<notin> peers_of i V" using V members_inj [OF V(1,2)] by (auto simp: peers_of_def)
  ultimately have "\<exists>Q \<subseteq> voters V. card Q = el_votes el \<and> (\<forall>j \<in> Q. supports s (el_term el) i j \<and> the (btm_get V j) \<notin> set (el_waiting el))"
    using V(3) ok vp by (intro exI [of _ "{i}"]) (auto simp: voters_iff)
  then have "tally_ok V s i el" using ok len vp s by (simp add: tally_ok_def)
  moreover have "in_sync J n'" using ok good_step_sync by blast
  ultimately show ?thesis using ok c(3) by (simp add: in_sync_def mem_meta_def)
qed

lemma reply_tally:
  assumes t: "tally_ok V s i el" and v: "voter_node J V i n" and h: "election_reply peer answer el n = (Some el', n')"
    and p: "peer \<in> set (el_waiting el)" "btm_get V j = Some peer"
    and ans: "case answer of None \<Rightarrow> True | Some resp \<Rightarrow> (j, election_request i el, resp) \<in> cs_votes s"
    and V: "btm_ok V" "distinct (map snd V)"
  shows "tally_ok V s i el'"
proof -
  note ok = election_reply_ok [OF voter_nodeD [OF v] h, simplified]
  obtain Q where Q: "Q \<subseteq> voters V" "card Q = el_votes el" "\<forall>k \<in> Q. supports s (el_term el) i k \<and> the (btm_get V k) \<notin> set (el_waiting el)"
    using t by (auto simp: tally_ok_def)
  have e: "el_term el' = el_term el" "el_majority el' = el_majority el" "election_request i el' = election_request i el"
      "el_waiting el' = remove1 peer (el_waiting el)" using ok by (auto simp: election_request_def)
  have w: "set (el_waiting el') = set (el_waiting el) - {peer}" "distinct (el_waiting el')" using t e(4) by (simp_all add: tally_ok_def)
  have "\<exists>Q \<subseteq> voters V. card Q = el_votes el' \<and> (\<forall>k \<in> Q. supports s (el_term el') i k \<and> the (btm_get V k) \<notin> set (el_waiting el'))"
  proof (cases "el_votes el' = el_votes el")
    case True
    with Q w e show ?thesis by (intro exI [of _ Q]) auto
  next
    case False
    with ok obtain resp where r: "el_votes el' = el_votes el + 1" "answer = Some resp" "vs_granted resp" by auto
    have "supports s (el_term el) i j" unfolding supports_def
      by (rule exI [of _ "election_request i el"]) (use ans r in \<open>auto simp: election_request_def\<close>)
    moreover have "finite Q" by (rule finite_subset [OF Q(1) finite_voters])
    moreover have "j \<notin> Q" using Q(3) p by auto
    ultimately show ?thesis using Q r w e p by (intro exI [of _ "insert j Q"]) (auto simp: voters_iff)
  qed
  with t e w show ?thesis by (auto simp: tally_ok_def)
qed

lemma finish_elected:
  assumes "tally_ok V s i el" "el_majority el \<le> el_votes el"
  shows "elected V s (el_term el) i"
  using assms unfolding tally_ok_def elected_def by (metis (no_types))
section \<open>Runs\<close>

text \<open>Majorities: two candidates that a majority voted for in the same term are one.\<close>

locale majority_vote =
  fixes fine :: "'s \<Rightarrow> bool" and electorate :: "'s \<Rightarrow> 'v set" and votes_for :: "'s \<Rightarrow> 't \<Rightarrow> 'c \<Rightarrow> 'v \<Rightarrow> bool"
  assumes finite_electorate: "finite (electorate s)"
    and one_vote: "fine s \<Longrightarrow> votes_for s t c v \<Longrightarrow> votes_for s t d v \<Longrightarrow> c = d"
begin

lemma majorities_meet:
  assumes "A \<subseteq> electorate s" "B \<subseteq> electorate s" "card (electorate s) < card A + card B"
  shows "A \<inter> B \<noteq> {}"
proof
  have fin: "finite A" "finite B" using assms(1,2) finite_electorate finite_subset by blast+
  assume "A \<inter> B = {}"
  with fin have "card A + card B = card (A \<union> B)" by (simp add: card_Un_disjoint)
  also have "\<dots> \<le> card (electorate s)" using assms(1,2) by (intro card_mono finite_electorate) simp
  finally show False using assms(3) by simp
qed

lemma majority_unique:
  assumes "fine s" "A \<subseteq> electorate s" "B \<subseteq> electorate s" "card (electorate s) < card A + card B"
    and "\<forall>v \<in> A. votes_for s t c v" "\<forall>v \<in> B. votes_for s t d v"
  shows "c = d"
  using majorities_meet [OF assms(2-4)] one_vote [OF assms(1)] assms(5,6) by blast

end

lemma card_voters: "card (voters V) \<le> length V"
proof -
  have "voters V = fst ` set V" by (auto simp: voters_def map_of_eq_None_iff)
  then show ?thesis by (metis card_image_le card_length list.set_map length_map)
qed

interpretation cluster_vote: majority_vote "\<lambda>(J, V, s). sys_inv J V s" "\<lambda>(J, V, s). voters V" "\<lambda>(J, V, s). supports s"
proof
  fix w :: "cluster_json \<times> (string, string) btm \<times> cluster_sys"
  show "finite (case w of (J, V, s) \<Rightarrow> voters V)" by (cases w) (simp add: finite_voters)
next
  fix w :: "cluster_json \<times> (string, string) btm \<times> cluster_sys" and t c v d
  show "case w of (J, V, s) \<Rightarrow> sys_inv J V s \<Longrightarrow> (case w of (J, V, s) \<Rightarrow> supports s) t c v \<Longrightarrow> (case w of (J, V, s) \<Rightarrow> supports s) t d v \<Longrightarrow> c = d"
    by (cases w) (simp add: sys_inv_def, blast)
qed

lemma elected_unique:
  assumes inv: "sys_inv J V s" and c: "elected V s t c" and d: "elected V s t d"
  shows "c = d"
proof -
  obtain A B where q: "A \<subseteq> voters V" "card A \<ge> length V div 2 + 1" "\<forall>j \<in> A. supports s t c j"
    "B \<subseteq> voters V" "card B \<ge> length V div 2 + 1" "\<forall>j \<in> B. supports s t d j" using c d unfolding elected_def by metis
  have "card (voters V) < card A + card B" using card_voters [of V] q(2,5) by linarith
  with cluster_vote.majority_unique [of "(J, V, s)" A B t c d] inv q show ?thesis by simp
qed

lemma step_inv:
  assumes st: "cluster_step J V s s'" and inv: "sys_inv J V s" and m: "marker_ok J"
  shows "sys_inv J V s'"
  using st
proof (cases rule: cluster_step.cases)
  case (local i act)
  then have i: "i \<in> voters V" by (simp add: voters_iff)
  show ?thesis by (rule sys_inv_plain [OF inv i local_move [OF sys_inv_node [OF inv i] m, of act]]) (use local in simp_all)
next
  case (restart i cfg io n)
  then have i: "i \<in> voters V" by (simp add: voters_iff)
  have "voter_move J V i (cs_nodes s i) n \<and> no_new_leader (cs_nodes s i) n"
    using restart_move [OF sys_inv_node [OF inv i] m restart(3), of io] restart(4) by auto
  then show ?thesis by (rule sys_inv_plain [OF inv i]) (use restart in \<open>simp_all split: if_splits\<close>)
next
  case (campaign_lost i n)
  then have i: "i \<in> voters V" by (simp add: voters_iff)
  show ?thesis by (rule sys_inv_plain [OF inv i campaign_move [OF sys_inv_node [OF inv i] campaign_lost(5)]]) (use campaign_lost in simp_all)
next
  case (campaign i el n)
  then have i: "i \<in> voters V" by (simp add: voters_iff)
  note v = sys_inv_node [OF inv i]
  have asked: "election_request i el \<in> cs_asked s'" using campaign(1) by simp
  note ta = campaign_tally [OF v campaign(5) asked] and mv = campaign_move [OF v campaign(5)]
  show ?thesis
  proof (rule sys_inv_move [OF inv i conjunct1 [OF mv]])
    fix t c j assume "supports s' t c j"
    then show "supports s t c j \<or> j = i \<and> meta_of (cn_disk n) = (t, Some c)"
      using ta campaign(1) by (auto simp: supports_def election_request_def)
  next
    fix k e assume "cs_elections s' k = Some e"
    then show "cs_elections s k = Some e \<or> tally_ok V s' k e" using ta campaign(1) by (auto split: if_splits)
  qed (use campaign mv in auto)
next
  case (vote i req resp n)
  then have i: "i \<in> voters V" by (simp add: voters_iff)
  note v = sys_inv_node [OF inv i]
  note mv = vote_move [OF v vote(4)]
  show ?thesis
  proof (rule sys_inv_move [OF inv i conjunct1 [OF mv]])
    fix t c j assume "supports s' t c j"
    then show "supports s t c j \<or> j = i \<and> meta_of (cn_disk n) = (t, Some c)"
      using granted_on_disk [OF v vote(4)] vote(1) by (auto simp: supports_def)
  qed (use vote mv in auto)
next
  case (reply i el peer j answer el' n)
  then have i: "i \<in> voters V" by (simp add: voters_iff)
  note v = sys_inv_node [OF inv i]
  note mv = reply_move [OF v reply(8)]
  have V: "btm_ok V" "distinct (map snd V)" using v voter_distinct by (auto simp: voter_node_def)
  have sup: "supports s' = supports s" using reply(1) by (simp add: supports_def fun_eq_iff)
  have t: "tally_ok V s' i el" using inv i reply(1,3) sup by (simp add: sys_inv_def tally_ok_def)
  show ?thesis
  proof (rule sys_inv_move [OF inv i conjunct1 [OF mv]])
    fix k e assume k: "cs_elections s' k = Some e"
    show "cs_elections s k = Some e \<or> tally_ok V s' k e"
    proof (cases "k = i")
      case True
      with k reply(1) have "el' = Some e" by simp
      with reply(8) have "election_reply peer answer el (cs_nodes s i) = (Some e, n)" by simp
      moreover have "case answer of None \<Rightarrow> True | Some resp \<Rightarrow> (j, election_request i el, resp) \<in> cs_votes s'" using reply(1,7) by (simp split: option.splits)
      ultimately show ?thesis using True reply_tally [OF t v _ reply(5,6) _ V] by blast
    qed (use k reply(1) in simp)
  qed (use reply(1) sup mv in auto)
next
  case (finish i el)
  then have i: "i \<in> voters V" by (simp add: voters_iff)
  note v = sys_inv_node [OF inv i]
  note mv = finish_move [OF v, of el]
  have sup: "supports s' = supports s" using finish(1) by (simp add: supports_def fun_eq_iff)
  have t: "tally_ok V s' i el" using inv i finish(1,3) sup by (simp add: sys_inv_def tally_ok_def)
  show ?thesis
  proof (rule sys_inv_move [OF inv i conjunct1 [OF mv]])
    show "no_new_leader (cs_nodes s i) (finish_election el (cs_nodes s i))
      \<or> elected V s' (current_term (cn_state (finish_election el (cs_nodes s i)))) i"
      using mv finish_elected [OF t] by auto
  qed (use finish(1) sup in \<open>auto split: if_splits\<close>)
next
  case (abandon i)
  then have i: "i \<in> voters V" by (simp add: voters_iff)
  show ?thesis by (rule sys_inv_plain [OF inv i sys_inv_self [OF inv i]]) (use abandon in \<open>simp_all split: if_splits\<close>)
next
  case (send i peer req)
  then have i: "i \<in> voters V" by (simp add: voters_iff)
  from send_ok [OF sys_inv_node [OF inv i] send(3)]
  show ?thesis by (intro sys_inv_plain [OF inv i sys_inv_self [OF inv i]]) (use send in auto)
next
  case (receive i addr req resp n)
  then have i: "i \<in> voters V" by (simp add: voters_iff)
  have q: "request_ok V req" using inv receive(3) by (auto simp: sys_inv_def)
  show ?thesis by (rule sys_inv_plain [OF inv i append_move [OF sys_inv_node [OF inv i] m q receive(4)]]) (use receive in simp_all)
next
  case (ack i addr req resp)
  then have i: "i \<in> voters V" by (simp add: voters_iff)
  show ?thesis by (rule sys_inv_plain [OF inv i accept_move [OF sys_inv_node [OF inv i]]]) (use ack in simp_all)
qed
lemma start_inv:
  assumes "cluster_start J V s" "marker_ok J"
  shows "sys_inv J V s"
proof -
  have v: "voter_node J V i (cs_nodes s i) \<and> role_of (cn_state (cs_nodes s i)) = Follower" if i: "i \<in> voters V" for i
  proof -
    obtain cfg io where c: "voter_config V i cfg" "new_fixed J cfg io fresh_disk = Inr (cs_nodes s i)"
      using assms(1) i by (auto simp: cluster_start_def voters_iff)
    from start_voter [OF assms(2) c(1), of io] c(2) show ?thesis by auto
  qed
  have "\<not> supports s t c j" for t c j using assms(1) by (auto simp: supports_def cluster_start_def)
  with v assms(1) show ?thesis by (auto simp: sys_inv_def leads_def cluster_start_def)
qed

lemma reach_inv: "cluster_reach J V s s' \<Longrightarrow> sys_inv J V s \<Longrightarrow> marker_ok J \<Longrightarrow> sys_inv J V s'"
  by (induction rule: cluster_reach.induct) (use step_inv in blast)+

lemma cluster_reach_trans: "cluster_reach J V s t \<Longrightarrow> cluster_reach J V t u \<Longrightarrow> cluster_reach J V s u"
  by (rotate_tac, induction rule: cluster_reach.induct) (use cluster_reach.intros in blast)+

lemma step_mono: "cluster_step J V s s' \<Longrightarrow> cs_asked s \<subseteq> cs_asked s' \<and> cs_votes s \<subseteq> cs_votes s'"
  by (cases rule: cluster_step.cases) auto

lemma reach_mono: "cluster_reach J V s s' \<Longrightarrow> cs_asked s \<subseteq> cs_asked s' \<and> cs_votes s \<subseteq> cs_votes s'"
  by (induction rule: cluster_reach.induct) (use step_mono in blast)+

lemma step_grows:
  assumes st: "cluster_step J V s s'" and inv: "sys_inv J V s" and m: "marker_ok J" and k: "k \<in> voters V"
  shows "grows J (cs_nodes s k) (cs_nodes s' k)"
proof -
  have gr: "grows J (cs_nodes s k) (((cs_nodes s)(i := n)) k)" if "i \<in> voters V" "voter_move J V i (cs_nodes s i) n" for i n
    using that by (cases "k = i") (simp_all add: voter_move_def)
  note v = sys_inv_node [OF inv]
  show ?thesis using st
  proof (cases rule: cluster_step.cases)
    case (local i act)
    with gr [of i] local_move [OF v m, of i act] show ?thesis by (simp add: voters_iff)
  next
    case (restart i cfg io n)
    with gr [of i] restart_move [OF v m restart(3), of io] show ?thesis by (simp add: voters_iff)
  next
    case (campaign_lost i n)
    with gr [of i] campaign_move [OF v campaign_lost(5)] show ?thesis by (simp add: voters_iff)
  next
    case (campaign i el n)
    with gr [of i] campaign_move [OF v campaign(5)] show ?thesis by (simp add: voters_iff)
  next
    case (vote i req resp n)
    with gr [of i] vote_move [OF v vote(4)] show ?thesis by (simp add: voters_iff)
  next
    case (reply i el peer j answer el' n)
    with gr [of i] reply_move [OF v reply(8)] show ?thesis by (simp add: voters_iff)
  next
    case (finish i el)
    with gr [of i] finish_move [OF v, of i el] show ?thesis by (simp add: voters_iff)
  next
    case (receive i addr req resp n)
    then have "request_ok V req" using inv by (auto simp: sys_inv_def)
    with receive gr [of i] append_move [OF v m _ receive(4)] show ?thesis by (simp add: voters_iff)
  next
    case (ack i addr req resp)
    with gr [of i] accept_move [OF v] show ?thesis by (simp add: voters_iff)
  qed simp_all
qed

lemma reach_grows:
  "cluster_reach J V s s' \<Longrightarrow> sys_inv J V s \<Longrightarrow> marker_ok J \<Longrightarrow> k \<in> voters V \<Longrightarrow> grows J (cs_nodes s k) (cs_nodes s' k)"
proof (induction rule: cluster_reach.induct)
  case (step s t u)
  from step_grows [OF step(2) reach_inv [OF step(1,4,5)] step(5,6)] step grows_trans show ?case by blast
qed simp

lemma disk_replay:
  assumes "disk_inv J d" "marker_ok J"
  shows "nd_data d = replay J (applied_log J d)"
proof -
  obtain log a where l: "nd_log d = keyed log" "wf_log (fst (meta_of d)) log" "a \<le> length log" "nd_data d = replay J (take a log)"
    using assms(1) unfolding disk_inv_def by blast
  from replay_marker(2) [OF l(2,3) assms(2) l(4,1)] l(4) show ?thesis by simp
qed

end
