(* ===== verification/Raft_Logs.thy ===== *)
theory Raft_Logs
  imports Cluster_System
begin

text \<open>
  Logs across the cluster. \<open>g t\<close> is the log of the leader of term \<open>t\<close>, and every log of every voter is built from such
  logs: up to an entry of term \<open>u\<close> it is \<open>g u\<close>. This theory has the notions of the safety argument and what the sections of
  one node do to its log, on disk and in memory.
\<close>

section \<open>Logs on disk\<close>

definition disk_log :: "cluster_node \<Rightarrow> log_entry list" where
  "disk_log n = map snd (nd_log (cn_disk n))"

definition disk_term :: "cluster_node \<Rightarrow> nat" where
  "disk_term n = fst (meta_of (cn_disk n))"

text \<open>Steps that touch neither the log nor the data, in memory and on disk.\<close>

definition quiet :: "cluster_node \<Rightarrow> cluster_node \<Rightarrow> bool" where
  "quiet n n' \<longleftrightarrow> nd_log (cn_disk n') = nd_log (cn_disk n) \<and> nd_data (cn_disk n') = nd_data (cn_disk n)
     \<and> raft_log (cn_state n') = raft_log (cn_state n) \<and> commit_index (cn_state n') = commit_index (cn_state n)"

lemma quiet_refl [simp]: "quiet n n"
  by (simp add: quiet_def)

lemma quiet_trans: "quiet a b \<Longrightarrow> quiet b c \<Longrightarrow> quiet a c"
  by (simp add: quiet_def)

lemma quiet_set_state [simp]:
  "raft_log st = raft_log (cn_state n) \<Longrightarrow> commit_index st = commit_index (cn_state n) \<Longrightarrow> quiet (set_state st n) n' = quiet n n'"
  "raft_log st = raft_log (cn_state n) \<Longrightarrow> commit_index st = commit_index (cn_state n) \<Longrightarrow> quiet n (set_state st n)"
  by (simp_all add: quiet_def)

lemma quiet_disk: "quiet n n' \<Longrightarrow> disk_log n' = disk_log n \<and> applied_log J (cn_disk n') = applied_log J (cn_disk n)"
  by (simp add: quiet_def disk_log_def applied_log_def applied_len_def)

lemma persist_meta_quiet: "persist_meta n = (r, n') \<Longrightarrow> quiet n n'"
  unfolding persist_meta_def by (erule durable_cases) (auto simp: quiet_def)

lemma persist_meta_quiet_snd:
  "raft_log st = raft_log (cn_state n) \<Longrightarrow> commit_index st = commit_index (cn_state n) \<Longrightarrow> quiet n (snd (persist_meta (set_state st n)))"
  using persist_meta_quiet [of "set_state st n"] by (metis prod.collapse quiet_set_state(1))

lemma persist_peers_quiet: "persist_peers n = (r, n') \<Longrightarrow> quiet n n'"
  unfolding persist_peers_def by (erule durable_cases) (auto simp: quiet_def)

lemma vote_quiet: "handle_request_vote req n = (resp, n') \<Longrightarrow> quiet n n'"
  by (auto simp: handle_request_vote_def Let_def vote_answer_def persist_meta_quiet_snd
      dest!: persist_meta_quiet split: if_splits sum.splits prod.splits)

lemma begin_quiet: "begin_election n = (el, n') \<Longrightarrow> quiet n n'"
proof -
  have st: "quiet n (n\<lparr>cn_stopped := True\<rparr>)" by (simp add: quiet_def)
  show "begin_election n = (el, n') \<Longrightarrow> quiet n n'"
    using st by (auto simp: begin_election_def Let_def dest!: persist_meta_quiet split: if_splits sum.splits prod.splits)
qed

lemma reply_quiet: "election_reply peer answer el n = (el', n') \<Longrightarrow> quiet n n'"
  by (auto simp: election_reply_def Let_def persist_meta_quiet_snd split: if_splits option.splits)

lemma finish_quiet: "quiet n (finish_election el n)"
  by (auto simp: finish_election_def Let_def persist_meta_quiet_snd)

lemma accept_quiet: "quiet n (accept_append_response peer t p m resp n)"
  by (auto simp: accept_append_response_def Let_def persist_meta_quiet_snd)

lemma add_peer_quiet: "add_peer j a l n = (r, n') \<Longrightarrow> quiet n n'"
  by (auto simp: add_peer_def Let_def not_leader_def dest!: persist_peers_quiet split: sum.splits if_splits)

lemma remove_peer_quiet: "remove_peer j n = (r, n') \<Longrightarrow> quiet n n'"
  by (auto simp: remove_peer_def Let_def not_leader_def dest!: persist_peers_quiet split: sum.splits if_splits option.splits)

lemma join_quiet: "quiet n (snd (handle_join j a l n))"
  by (auto simp: handle_join_def split: sum.splits prod.splits dest!: add_peer_quiet)

lemma leave_quiet: "quiet n (snd (handle_leave j n))"
  by (auto simp: handle_leave_def split: sum.splits prod.splits dest!: remove_peer_quiet)

lemma running_disk:
  assumes "in_sync J n"
  shows "disk_log n = raft_log (cn_state n)" "disk_term n = current_term (cn_state n)"
  using assms by (simp_all add: in_sync_def log_sync_def Let_def disk_log_def disk_term_def mem_meta_def)

lemma sync_log:
  assumes "in_sync J n"
  shows "nd_log (cn_disk n) = keyed (raft_log (cn_state n))" "wf_log (current_term (cn_state n)) (raft_log (cn_state n))"
    "commit_index (cn_state n) \<le> length (raft_log (cn_state n))"
  using assms by (auto simp: in_sync_def log_sync_def Let_def)

section \<open>Leader logs\<close>

type_synonym term_logs = "nat \<Rightarrow> log_entry list"
type_synonym term_leaders = "nat \<Rightarrow> string option"

text \<open>A log that is built from leader logs: up to an entry of term \<open>u\<close> it is the log of the leader of \<open>u\<close>.\<close>

definition consistent :: "term_logs \<Rightarrow> term_leaders \<Rightarrow> log_entry list \<Rightarrow> bool" where
  "consistent g L l \<longleftrightarrow> (\<forall>k < length l. L (le_term (l ! k)) \<noteq> None \<and> k < length (g (le_term (l ! k)))
     \<and> take (Suc k) l = take (Suc k) (g (le_term (l ! k))))"

lemma consistent_Nil [simp]: "consistent g L []"
  by (simp add: consistent_def)

lemma consistent_take: "consistent g L l \<Longrightarrow> consistent g L (take k l)"
  unfolding consistent_def by (auto simp: min_def)

lemma consistent_prefix: "consistent g L l \<Longrightarrow> prefix p l \<Longrightarrow> consistent g L p"
  using consistent_take [of g L l "length p"] by (auto simp: prefix_def)

lemma consistent_same:
  assumes "consistent g L l" "consistent g L m" "k < length l" "k < length m" "le_term (l ! k) = le_term (m ! k)"
  shows "take (Suc k) l = take (Suc k) m"
  using assms unfolding consistent_def by metis

text \<open>Extending the leader logs keeps what is built from them.\<close>

definition extends :: "term_logs \<Rightarrow> term_leaders \<Rightarrow> term_logs \<Rightarrow> term_leaders \<Rightarrow> bool" where
  "extends g L g' L' \<longleftrightarrow> (\<forall>t. prefix (g t) (g' t)) \<and> (\<forall>t i. L t = Some i \<longrightarrow> L' t = Some i)"

lemma extends_refl [simp]: "extends g L g L"
  by (simp add: extends_def)

lemma extends_trans: "extends a A b B \<Longrightarrow> extends b B c C \<Longrightarrow> extends a A c C"
  unfolding extends_def using prefix_order.trans by blast

lemma extends_take: "extends g L g' L' \<Longrightarrow> k \<le> length (g t) \<Longrightarrow> take k (g' t) = take k (g t)"
  unfolding extends_def prefix_def by (metis append_take_drop_id take_append diff_is_0_eq' take0 append_Nil2)

lemma extends_length: "extends g L g' L' \<Longrightarrow> length (g t) \<le> length (g' t)"
  unfolding extends_def using prefix_length_le by blast

lemma extends_nth: "extends g L g' L' \<Longrightarrow> k < length (g t) \<Longrightarrow> g' t ! k = g t ! k"
  using extends_take [of g L g' L' "Suc k" t] by (metis Suc_leI lessI nth_take)

lemma extends_leader: "extends g L g' L' \<Longrightarrow> L t = Some i \<Longrightarrow> L' t = Some i"
  by (simp add: extends_def)

lemma consistent_mono: "consistent g L l \<Longrightarrow> extends g L g' L' \<Longrightarrow> consistent g' L' l"
proof -
  assume c: "consistent g L l" and e: "extends g L g' L'"
  have "L' (le_term (l ! k)) \<noteq> None \<and> k < length (g' (le_term (l ! k))) \<and> take (Suc k) l = take (Suc k) (g' (le_term (l ! k)))"
    if "k < length l" for k
  proof -
    have o: "L (le_term (l ! k)) \<noteq> None" "k < length (g (le_term (l ! k)))" "take (Suc k) l = take (Suc k) (g (le_term (l ! k)))"
      using c that by (auto simp: consistent_def)
    moreover have "take (Suc k) (g' (le_term (l ! k))) = take (Suc k) (g (le_term (l ! k)))" using extends_take [OF e] o(2) by simp
    ultimately show ?thesis using extends_leader [OF e] extends_length [OF e, of "le_term (l ! k)"] by fastforce
  qed
  then show ?thesis by (simp add: consistent_def)
qed
section \<open>Storing entries of a leader\<close>

lemma cut_conflict_logs:
  assumes s: "in_sync J n" and e: "0 < le_index e" and p: "cut_conflict e n = (r, n')"
  shows "{raft_log (cn_state n'), disk_log n'} \<subseteq> {raft_log (cn_state n), cut_log e (raft_log (cn_state n))}
    \<and> nd_data (cn_disk n') = nd_data (cn_disk n)"
proof (cases "\<exists>old. nth_opt (raft_log (cn_state n)) (le_index e - 1) = Some old \<and> le_term old \<noteq> le_term e")
  case False
  then have "n' = n" using p by (auto simp: cut_conflict_def Let_def split: option.splits if_splits)
  then show ?thesis using running_disk(1) [OF s] by simp
next
  case True
  then obtain old where old: "nth_opt (raft_log (cn_state n)) (le_index e - 1) = Some old" "le_term old \<noteq> le_term e" by blast
  let ?f = "\<lambda>d. d\<lparr>nd_log := btm_retain (\<lambda>k _. k < le_index e) (nd_log d)\<rparr>" and ?log = "raft_log (cn_state n)"
  obtain r1 n1 where t: "truncate_log_from (le_index e) n = (r1, n1)" by fastforce
  note k = sync_log [OF s]
  have c: "cut_log e ?log = take (le_index e - 1) ?log" using old by (simp add: cut_log_def)
  have "disk_log n1 \<in> {?log, cut_log e ?log} \<and> cn_state n1 = cn_state n \<and> nd_data (cn_disk n1) = nd_data (cn_disk n)"
    using t unfolding truncate_log_from_def
    by (cases rule: durable_cases) (auto simp: disk_log_def k keyed_cut [OF k(2) e] c)
  then show ?thesis using p t old c by (cases r1) (auto simp: cut_conflict_def Let_def disk_log_def)
qed

lemma push_entry_logs:
  assumes s: "in_sync J n" and e: "le_index e = length (raft_log (cn_state n)) + 1" and p: "push_entry J e n = (r, n')"
  shows "{raft_log (cn_state n'), disk_log n'} \<subseteq> {raft_log (cn_state n), raft_log (cn_state n) @ [e]}
    \<and> nd_data (cn_disk n') = nd_data (cn_disk n)"
proof -
  let ?log = "raft_log (cn_state n)"
  obtain r1 n1 where t: "persist_log_entry J e n = (r1, n1)" by fastforce
  note k = sync_log [OF s]
  have "disk_log n1 \<in> {?log, ?log @ [e]} \<and> cn_state n1 = cn_state n \<and> nd_data (cn_disk n1) = nd_data (cn_disk n)"
  proof (cases "too_big J e")
    case False
    then have "durable (\<lambda>d. d\<lparr>nd_log := btm_insert (le_index e) e (nd_log d)\<rparr>) n = (r1, n1)" using t by (simp add: persist_log_entry_def)
    then show ?thesis by (cases rule: durable_cases) (auto simp: disk_log_def k keyed_insert [OF k(2) e])
  qed (use t running_disk(1) [OF s] in \<open>simp add: persist_log_entry_def\<close>)
  then show ?thesis using p t by (cases r1) (auto simp: push_entry_def disk_log_def)
qed

text \<open>From \<open>l\<close> to \<open>m\<close>, what \<open>l\<close> shares with the leader's log and what is committed stays.\<close>

definition keeps :: "log_entry list \<Rightarrow> nat \<Rightarrow> log_entry list \<Rightarrow> log_entry list \<Rightarrow> bool" where
  "keeps lead c l m \<longleftrightarrow> (\<forall>p. prefix p l \<and> (prefix p lead \<or> length p \<le> c) \<longrightarrow> prefix p m)"

lemma keeps_refl [simp]: "keeps lead c l l"
  by (simp add: keeps_def)

lemma keeps_both: "keeps lead c a b \<Longrightarrow> keeps lead c b d \<Longrightarrow> keeps lead c a d"
  by (simp add: keeps_def)

lemma keeps_append: "keeps lead c l (l @ m)"
  unfolding keeps_def using prefix_append by blast

lemma cut_keeps:
  assumes "le_index e = Suc i" "i < length lead" "lead ! i = e" "may_store c e l"
  shows "keeps lead c l (cut_log e l)"
proof (cases "\<exists>old. nth_opt l i = Some old \<and> le_term old \<noteq> le_term e")
  case True
  then obtain old where old: "i < length l" "l ! i = old" "le_term old \<noteq> le_term e" by (auto simp: nth_opt_eq)
  have cut: "cut_log e l = take i l" using True assms(1) by (auto simp: cut_log_def)
  have c: "c < Suc i" using assms(1,4) old by (auto simp: may_store_def nth_opt_eq)
  have l: "length p \<le> i" if "prefix p l" "prefix p lead" for p
  proof (rule ccontr)
    assume "\<not> length p \<le> i"
    then have "p ! i = l ! i" "p ! i = lead ! i" using that by (auto simp: prefix_def nth_append)
    with old assms(3) show False by simp
  qed
  have "length p \<le> i" if "prefix p l" "prefix p lead \<or> length p \<le> c" for p
    using that(2)
  proof
    assume "prefix p lead"
    then show ?thesis by (rule l [OF that(1)])
  qed (use c in simp)
  moreover have "prefix p (take i l)" if "prefix p l" "length p \<le> i" for p
    by (rule prefix_length_prefix [OF that(1) take_is_prefix]) (use that old in simp)
  ultimately show ?thesis unfolding keeps_def cut by blast
next
  case False
  have "cut_log e l = l"
  proof (cases "nth_opt l i")
    case (Some old)
    with False have "le_term old = le_term e" by blast
    with Some assms(1) show ?thesis by (simp add: cut_log_def)
  qed (use assms(1) in \<open>simp add: cut_log_def\<close>)
  then show ?thesis by simp
qed

lemma cut_consistent: "consistent g L l \<Longrightarrow> consistent g L (cut_log e l)"
  by (auto simp: cut_log_def consistent_take split: option.split)

lemma cut_take:
  assumes "le_index e = Suc i" "take i l = take i lead"
  shows "take i (cut_log e l) = take i lead"
  using assms by (auto simp: cut_log_def split: option.split)
text \<open>The loop over the entries, for entries that are the leader's from index \<open>i\<close> on.\<close>

lemma append_entries_logs:
  assumes "in_sync J n" "\<not> cn_stopped n" "marker_ok J" and "append_entries J es n = (r, n')"
    and "storable (current_term (cn_state n)) (commit_index (cn_state n)) i es (raft_log (cn_state n))"
    and "i + length es \<le> length lead" "es = take (length es) (drop i lead)" "take i (raft_log (cn_state n)) = take i lead"
    and "consistent g L (raft_log (cn_state n))" "consistent g L lead"
  shows "\<forall>m \<in> {raft_log (cn_state n'), disk_log n'}. consistent g L m \<and> keeps lead (commit_index (cn_state n)) (raft_log (cn_state n)) m"
    and "nd_data (cn_disk n') = nd_data (cn_disk n)"
    and "r = Inr () \<Longrightarrow> take (i + length es) (raft_log (cn_state n')) = take (i + length es) lead"
proof -
  let ?goal = "\<lambda>n r n' i es. (\<forall>m \<in> {raft_log (cn_state n'), disk_log n'}. consistent g L m
      \<and> keeps lead (commit_index (cn_state n)) (raft_log (cn_state n)) m) \<and> nd_data (cn_disk n') = nd_data (cn_disk n)
      \<and> (r = Inr () \<longrightarrow> take (i + length es) (raft_log (cn_state n')) = take (i + length es) lead)"
  have "?goal n r n' i es" using assms
  proof (induction es arbitrary: i n)
    case Nil
    then show ?case using running_disk(1) [OF Nil(1)] by simp
  next
    case (Cons e es)
    let ?log = "raft_log (cn_state n)" and ?c = "commit_index (cn_state n)"
    from Cons.prems(5) have e: "i \<le> length ?log" "wf_entry (current_term (cn_state n)) i e" "may_store ?c e ?log" by (simp_all add: Let_def)
    have idx: "le_index e = Suc i" using e(2) by (simp add: wf_entry_def)
    have il: "i < length lead" using Cons.prems(6) by simp
    have d: "drop i lead = lead ! i # drop (Suc i) lead" using il by (simp add: Cons_nth_drop_Suc)
    have le: "lead ! i = e" and es: "es = take (length es) (drop (Suc i) lead)" using Cons.prems(7) unfolding d by simp_all
    have len: "Suc i + length es \<le> length lead" using Cons.prems(6) by simp
    obtain r1 n1 where c: "cut_conflict e n = (r1, n1)" by fastforce
    have e0: "0 < le_index e" using idx by simp
    note ok1 = cut_conflict_ok [OF Cons.prems(1-3) e0 e(3) c] and lg1 = cut_conflict_logs [OF Cons.prems(1) e0 c]
    have k1: "keeps lead ?c ?log (cut_log e ?log)" by (rule cut_keeps [OF idx il le e(3)])
    have c1: "consistent g L (cut_log e ?log)" by (rule cut_consistent [OF Cons.prems(9)])
    show ?case
    proof (cases "r1 = Inr ()")
      case False
      with ok1 c Cons.prems(4) have "n' = n1" "r \<noteq> Inr ()" by auto
      with lg1 k1 c1 Cons.prems(9) show ?thesis by auto
    next
      case True
      let ?cut = "cut_log e ?log"
      from True ok1 have s1: "good_step J n n1" "\<not> cn_stopped n1" "cn_state n1 = (cn_state n)\<lparr>raft_log := ?cut\<rparr>" by simp_all
      note y1 = good_step_sync [OF s1(1,2)]
      have t1: "take i ?cut = take i lead" by (rule cut_take [OF idx Cons.prems(8)])
      show ?thesis
      proof (cases "le_index e - 1 = length ?cut")
        case at_end: True
        obtain r2 n2 where p: "push_entry J e n1 = (r2, n2)" by fastforce
        have w: "wf_entry (current_term (cn_state n1)) (length (raft_log (cn_state n1))) e" using e(2) at_end idx s1(3) by simp
        have w': "le_index e = length (raft_log (cn_state n1)) + 1" using at_end idx s1(3) by simp
        note ok2 = push_entry_ok [OF y1 s1(2) Cons.prems(3) w p] and lg2 = push_entry_logs [OF y1 w' p]
        have new: "?cut @ [e] = take (Suc i) lead" using t1 at_end idx le il by (simp add: take_Suc_conv_app_nth)
        have c2: "consistent g L (?cut @ [e])" unfolding new by (rule consistent_take [OF Cons.prems(10)])
        have k2: "keeps lead ?c ?log (?cut @ [e])" by (rule keeps_both [OF k1 keeps_append])
        show ?thesis
        proof (cases "r2 = Inr ()")
          case False
          with ok2 s1 at_end p c True Cons.prems(4) have "n' = n2" "r \<noteq> Inr ()" by auto
          with lg1 lg2 s1(3) k1 c1 k2 c2 show ?thesis by auto
        next
          case ok: True
          with ok2 s1 have s2: "good_step J n1 n2" "\<not> cn_stopped n2" "cn_state n2 = (cn_state n)\<lparr>raft_log := ?cut @ [e]\<rparr>" by simp_all
          have st: "storable (current_term (cn_state n2)) (commit_index (cn_state n2)) (Suc i) es (raft_log (cn_state n2))"
            using Cons.prems(5) at_end s2(3) by (simp add: Let_def)
          have ap: "append_entries J es n2 = (r, n')" using Cons.prems(4) c True s1(3) at_end p ok by simp
          have t2: "take (Suc i) (raft_log (cn_state n2)) = take (Suc i) lead" unfolding s2(3) using new by simp
          have cs: "consistent g L (raft_log (cn_state n2))" using c2 s2(3) by simp
          from Cons.IH [OF good_step_sync [OF s2(1,2)] s2(2) Cons.prems(3) ap st len es t2 cs Cons.prems(10)] s2(3) lg1 lg2 k2 keeps_both
          show ?thesis by auto
        qed
      next
        case inner: False
        have st: "storable (current_term (cn_state n1)) (commit_index (cn_state n1)) (Suc i) es (raft_log (cn_state n1))"
          using Cons.prems(5) inner s1(3) by (simp add: Let_def)
        have ap: "append_entries J es n1 = (r, n')" using Cons.prems(4) c True s1(3) inner by simp
        have il': "i < length ?cut" "le_term (?cut ! i) = le_term (lead ! i)"
          using inner idx e(1) le by (auto simp: cut_log_def nth_opt_def split: option.splits if_splits)
        have t2: "take (Suc i) (raft_log (cn_state n1)) = take (Suc i) lead"
          unfolding s1(3) using consistent_same [OF c1 Cons.prems(10) il'(1) il il'(2)] by simp
        have cs: "consistent g L (raft_log (cn_state n1))" using c1 s1(3) by simp
        from Cons.IH [OF y1 s1(2) Cons.prems(3) ap st len es t2 cs Cons.prems(10)] s1(3) lg1 k1 keeps_both
        show ?thesis by auto
      qed
    qed
  qed
  then show "\<forall>m \<in> {raft_log (cn_state n'), disk_log n'}. consistent g L m \<and> keeps lead (commit_index (cn_state n)) (raft_log (cn_state n)) m"
    "nd_data (cn_disk n') = nd_data (cn_disk n)"
    "r = Inr () \<Longrightarrow> take (i + length es) (raft_log (cn_state n')) = take (i + length es) lead" by blast+
qed
text \<open>Applying: the log stays, and the data is that of a prefix of the committed entries.\<close>

lemma apply_rounds_logs:
  assumes "in_sync J n" "\<not> cn_stopped n" "marker_ok J" and "last_applied (cn_state n) + k \<le> commit_index (cn_state n)"
    and "apply_rounds J k n = (r, n')"
  shows "nd_log (cn_disk n') = nd_log (cn_disk n) \<and> raft_log (cn_state n') = raft_log (cn_state n) \<and> commit_index (cn_state n') = commit_index (cn_state n)
    \<and> (\<exists>a \<le> commit_index (cn_state n). nd_data (cn_disk n') = replay J (take a (raft_log (cn_state n))))"
  using assms
proof (induction k arbitrary: n)
  case 0
  then show ?case by (auto simp: in_sync_def log_sync_def Let_def)
next
  case (Suc k)
  let ?a = "last_applied (cn_state n)" and ?log = "raft_log (cn_state n)"
  have lt: "?a < length ?log" using Suc.prems(4) sync_log(3) [OF Suc.prems(1)] by simp
  have dt: "nd_data (cn_disk n) = replay J (take ?a ?log)" using Suc.prems(1) by (simp add: in_sync_def log_sync_def Let_def)
  have nx: "apply_entry J (?log ! ?a) (nd_data (cn_disk n)) = replay J (take (Suc ?a) ?log)"
    unfolding dt using lt by (simp add: take_Suc_conv_app_nth replay_snoc)
  obtain r1 n1 where p: "apply_log_entry J (?log ! ?a) n = (r1, n1)" by fastforce
  have one: "apply_rounds J 1 n = (map_sum id (\<lambda>_. ()) r1,
      if isl r1 then n1 else set_state ((cn_state n1)\<lparr>last_applied := last_applied (cn_state n1) + 1\<rparr>) n1)"
    using p lt by (cases r1) (simp_all add: nth_opt_def)
  have pre: "?a + 1 \<le> commit_index (cn_state n)" using Suc.prems(4) by simp
  note ok = apply_rounds_ok [OF Suc.prems(1-3) pre one]
  have d: "nd_log (cn_disk n1) = nd_log (cn_disk n) \<and> cn_state n1 = cn_state n
      \<and> nd_data (cn_disk n1) \<in> {replay J (take ?a ?log), replay J (take (Suc ?a) ?log)}"
    using p unfolding apply_log_entry_def by (cases rule: durable_cases) (auto simp: dt nx [unfolded dt])
  show ?case
  proof (cases r1)
    case (Inl x)
    with Suc.prems(5) p lt have "n' = n1" by (simp add: nth_opt_def)
    with d Suc.prems(4) show ?thesis by (auto intro: exI [of _ ?a] exI [of _ "Suc ?a"])
  next
    case (Inr u)
    let ?n = "set_state ((cn_state n1)\<lparr>last_applied := last_applied (cn_state n1) + 1\<rparr>) n1"
    have g: "good_step J n ?n" "\<not> cn_stopped ?n" using ok Inr d by simp_all
    have ap: "apply_rounds J k ?n = (r, n')" using Suc.prems(5) p Inr lt by (simp add: nth_opt_def)
    have "last_applied (cn_state ?n) + k \<le> commit_index (cn_state ?n)" using Suc.prems(4) d by simp
    from Suc.IH [OF good_step_sync [OF g] g(2) Suc.prems(3) this ap] d show ?thesis by simp
  qed
qed

lemma applied_prefix:
  assumes "wf_log t log" "nd_log d = keyed log" "a \<le> length log" "nd_data d = replay J (take a log)" "marker_ok J" "a \<le> c"
  shows "prefix (applied_log J d) (take c log)"
proof -
  have "applied_log J d = take a log" by (rule replay_marker(2) [OF assms(1,3,5,4,2)])
  with assms(6) show ?thesis by (metis min.absorb1 take_is_prefix take_take)
qed

lemma commit_logs:
  assumes run: "in_sync J n" "\<not> cn_stopped n" "marker_ok J" and c: "commit_index (cn_state n) \<le> c" "c \<le> length (raft_log (cn_state n))"
    and ap: "apply_committed J (set_state ((cn_state n)\<lparr>commit_index := c\<rparr>) n) = (r, n')"
  shows "disk_log n' = disk_log n \<and> raft_log (cn_state n') = raft_log (cn_state n) \<and> commit_index (cn_state n') = c
    \<and> prefix (applied_log J (cn_disk n')) (take c (raft_log (cn_state n)))"
proof -
  let ?n = "set_state ((cn_state n)\<lparr>commit_index := c\<rparr>) n"
  have s: "in_sync J ?n" using run(1) c by (auto simp: in_sync_def log_sync_def Let_def)
  have le: "last_applied (cn_state n) \<le> c" using run(1) c by (auto simp: in_sync_def log_sync_def Let_def)
  have rounds: "apply_rounds J (c - last_applied (cn_state n)) ?n = (r, n')" using ap by (simp add: apply_committed_def)
  have up: "\<not> cn_stopped ?n" "last_applied (cn_state ?n) + (c - last_applied (cn_state n)) \<le> commit_index (cn_state ?n)" using run(2) le by simp_all
  note ok = apply_rounds_logs [OF s up(1) run(3) up(2) rounds]
  then obtain a where a: "a \<le> c" "nd_data (cn_disk n') = replay J (take a (raft_log (cn_state n)))" by auto
  have nl: "nd_log (cn_disk n') = keyed (raft_log (cn_state n))" using ok sync_log(1) [OF run(1)] by simp
  have "prefix (applied_log J (cn_disk n')) (take c (raft_log (cn_state n)))"
    by (rule applied_prefix [OF sync_log(2) [OF run(1)] nl _ a(2) run(3) a(1)]) (use a c in simp)
  with ok show ?thesis by (simp add: disk_log_def)
qed
section \<open>Requests of a leader\<close>

text \<open>A request carries entries of the leader's log, with the term of the entry before them; a leader that has lost track
  of a follower may name a position that its log does not have, which no follower accepts.\<close>

definition request_raft :: "term_logs \<Rightarrow> term_leaders \<Rightarrow> append_request \<Rightarrow> bool" where
  "request_raft g L req \<longleftrightarrow> L (ar_term req) = Some (ar_leader_id req)
     \<and> (let p = ar_prev_log_index req; es = ar_entries req; lead = g (ar_term req) in
        (0 < p \<and> ar_prev_log_term req = 0)
        \<or> (p + length es \<le> length lead \<and> es = take (length es) (drop p lead) \<and> (0 < p \<longrightarrow> ar_prev_log_term req = le_term (lead ! (p - 1)))))"

definition matched_end :: "append_request \<Rightarrow> nat" where
  "matched_end req = ar_prev_log_index req + length (ar_entries req)"

lemma request_prev:
  assumes q: "request_raft g L req" and p: "prev_ok st req" and wf: "wf_log t (raft_log st)"
    and c: "consistent g L (raft_log st)" "consistent g L (g (ar_term req))"
  shows "matched_end req \<le> length (g (ar_term req)) \<and> ar_entries req = take (length (ar_entries req)) (drop (ar_prev_log_index req) (g (ar_term req)))
    \<and> take (ar_prev_log_index req) (raft_log st) = take (ar_prev_log_index req) (g (ar_term req))"
proof (cases "ar_prev_log_index req")
  case 0
  with q show ?thesis by (simp add: request_raft_def matched_end_def Let_def)
next
  case (Suc k)
  with p have e: "k < length (raft_log st)" "le_term (raft_log st ! k) = ar_prev_log_term req"
    by (auto simp: prev_ok_def nth_opt_def split: if_splits)
  moreover have "le_term (raft_log st ! k) \<noteq> 0" using wf e(1) by (auto simp: wf_log_def wf_entry_def)
  ultimately have q': "ar_prev_log_index req + length (ar_entries req) \<le> length (g (ar_term req))"
    "ar_entries req = take (length (ar_entries req)) (drop (ar_prev_log_index req) (g (ar_term req)))"
    "ar_prev_log_term req = le_term (g (ar_term req) ! k)" using q Suc unfolding request_raft_def Let_def by auto
  have "take (Suc k) (raft_log st) = take (Suc k) (g (ar_term req))"
    by (rule consistent_same [OF c e(1)]) (use q' Suc e(2) in auto)
  with q' Suc show ?thesis by (simp add: matched_end_def)
qed

text \<open>What the handler does to the logs of a running voter.\<close>

definition follower_logs :: "cluster_json \<Rightarrow> term_logs \<Rightarrow> term_leaders \<Rightarrow> append_request \<Rightarrow> cluster_node \<Rightarrow> cluster_node \<Rightarrow> bool" where
  "follower_logs J g L req n n' \<longleftrightarrow>
     (let lead = g (ar_term req); c = commit_index (cn_state n); l = raft_log (cn_state n); c' = commit_index (cn_state n'); l' = raft_log (cn_state n') in
      (\<forall>m \<in> {l', disk_log n'}. consistent g L m \<and> keeps lead c l m)
      \<and> c' \<le> length l' \<and> take c' l' \<in> {take c l, take (min (ar_leader_commit req) (matched_end req)) lead}
      \<and> (applied_log J (cn_disk n') = applied_log J (cn_disk n) \<or> prefix (applied_log J (cn_disk n')) (take c' l')))"

lemma follower_quiet:
  assumes "in_sync J n" "consistent g L (raft_log (cn_state n))" "quiet n n'"
  shows "follower_logs J g L req n n'"
  using assms quiet_disk [OF assms(3), of J] running_disk(1) [OF assms(1)] sync_log(3) [OF assms(1)]
  by (simp add: follower_logs_def Let_def quiet_def)

lemma follower_quiet_after:
  assumes "follower_logs J g L req n n1" "quiet n1 n'"
  shows "follower_logs J g L req n n'"
  using assms quiet_disk [OF assms(2), of J] by (simp add: follower_logs_def Let_def quiet_def)

lemma follower_stored:
  assumes run: "in_sync J n" "\<not> cn_stopped n" "marker_ok J" and t: "current_term (cn_state n) = ar_term req"
    and pe: "prev_ok (cn_state n) req" "entries_ok (cn_state n) req"
    and q: "request_raft g L req" and c: "consistent g L (raft_log (cn_state n))" "consistent g L (g (ar_term req))"
    and p: "append_entries J (ar_entries req) n = (r, n')"
  shows "follower_logs J g L req n n' \<and> commit_index (cn_state n') = commit_index (cn_state n)
    \<and> (r = Inr () \<longrightarrow> take (matched_end req) (raft_log (cn_state n')) = take (matched_end req) (g (ar_term req)))"
proof -
  let ?lead = "g (ar_term req)" and ?l = "raft_log (cn_state n)" and ?c = "commit_index (cn_state n)"
  note wf = sync_log [OF run(1)]
  note rp = request_prev [OF q pe(1) wf(2) c]
  have st: "storable (current_term (cn_state n)) ?c (ar_prev_log_index req) (ar_entries req) ?l"
    by (rule entries_storable [OF wf(2) pe]) (use t in simp)
  have en: "ar_prev_log_index req + length (ar_entries req) \<le> length ?lead" using rp by (simp add: matched_end_def)
  note lg = append_entries_logs [OF run p st en conjunct1 [OF conjunct2 [OF rp]] conjunct2 [OF conjunct2 [OF rp]] c]
  have ci: "commit_index (cn_state n') = ?c" using append_entries_state [OF p] by auto
  have keep: "take k m = take k ?l" if "m \<in> {raft_log (cn_state n'), disk_log n'}" "k \<le> ?c" for m k
  proof -
    have k: "length (take k ?l) = k" using that(2) wf(3) by simp
    have "prefix (take k ?l) m" using lg(1) that k unfolding keeps_def by (metis take_is_prefix)
    then show ?thesis using k by (metis append_eq_conv_conj prefix_def)
  qed
  have "applied_log J (cn_disk n') = applied_log J (cn_disk n)"
  proof -
    have len: "applied_len J (cn_disk n') = applied_len J (cn_disk n)" using lg(2) by (simp add: applied_len_def)
    have a: "applied_log J (cn_disk n) = take (last_applied (cn_state n)) ?l" using sync_applied run by (simp add: in_sync_def)
    have la: "last_applied (cn_state n) \<le> ?c" using run(1) by (auto simp: in_sync_def log_sync_def Let_def)
    have al: "applied_len J (cn_disk n) = last_applied (cn_state n)"
      using run(1) replay_marker(1) [OF wf(2) _ run(3) _ wf(1)] la wf(3) by (simp add: in_sync_def log_sync_def Let_def)
    have "applied_log J (cn_disk n') = take (last_applied (cn_state n)) (disk_log n')" by (simp add: applied_log_def len al disk_log_def)
    with a keep [of "disk_log n'", OF _ la] show ?thesis by simp
  qed
  moreover have "?c \<le> length (raft_log (cn_state n'))"
    using keep [of "raft_log (cn_state n')" ?c] wf(3) by (metis insertI1 length_take min.absorb2 min.cobounded1 order_refl)
  ultimately show ?thesis using lg keep [of "raft_log (cn_state n')" ?c] ci by (simp add: follower_logs_def Let_def matched_end_def)
qed
lemma follower_committed:
  assumes f: "follower_logs J g L req n n1" "commit_index (cn_state n1) = commit_index (cn_state n)"
    and run: "in_sync J n1" "\<not> cn_stopped n1" "marker_ok J"
    and t: "take (matched_end req) (raft_log (cn_state n1)) = take (matched_end req) (g (ar_term req))"
      "matched_end req \<le> length (raft_log (cn_state n1))"
    and ap: "apply_committed J (set_state (advance_commit req (cn_state n1)) n1) = (r, n')"
  shows "follower_logs J g L req n n' \<and> disk_log n' = disk_log n1 \<and> raft_log (cn_state n') = raft_log (cn_state n1)"
proof -
  let ?c = "commit_index (cn_state n1)" and ?m = "min (ar_leader_commit req) (matched_end req)"
  have ac: "advance_commit req (cn_state n1) = (cn_state n1)\<lparr>commit_index := max ?c ?m\<rparr>" by (simp add: advance_commit_def matched_end_def)
  have b: "?c \<le> max ?c ?m" "max ?c ?m \<le> length (raft_log (cn_state n1))" using sync_log(3) [OF run(1)] t(2) by auto
  note ok = commit_logs [OF run b ap [unfolded ac]]
  have "take (max ?c ?m) (raft_log (cn_state n1)) \<in> {take ?c (raft_log (cn_state n1)), take ?m (g (ar_term req))}"
  proof (cases "?m \<le> ?c")
    case True
    then have "max ?c ?m = ?c" by simp
    then show ?thesis by simp
  next
    case False
    then have mx: "max ?c ?m = ?m" by linarith
    have "take (max ?c ?m) (raft_log (cn_state n1)) = take ?m (take (matched_end req) (raft_log (cn_state n1)))" unfolding mx by simp
    also have "\<dots> = take ?m (g (ar_term req))" unfolding t(1) by simp
    finally show ?thesis by simp
  qed
  with ok f b(2) show ?thesis by (auto simp: follower_logs_def Let_def)
qed

lemma handle_append_logs:
  assumes inv: "node_inv J n" and up: "\<not> cn_stopped n" and mk: "marker_ok J" and q: "request_raft g L req"
    and c: "consistent g L (raft_log (cn_state n))" "consistent g L (g (ar_term req))"
    and h: "handle_append_entries J req n = (r, n')"
  shows "follower_logs J g L req n n'
    \<and> (\<forall>resp. r = Inr resp \<and> as_success resp \<longrightarrow> take (matched_end req) (disk_log n') = take (matched_end req) (g (ar_term req)))"
proof -
  have s: "in_sync J n" using running_sync inv up by blast
  have rejected: ?thesis if "follower_logs J g L req n m" "append_reject m = (r, n')" for m
    using that by (auto simp: append_reject_def)
  show ?thesis
  proof (cases "ar_term req > MAX_RAFT_TERM \<or> ar_term req < current_term (cn_state n) \<or> list_ex (too_big J) (ar_entries req) \<or> \<not> membership_ok n req")
    case True
    then have "append_reject n = (r, n')" using h by (auto simp: handle_append_entries_def split: if_splits)
    then show ?thesis by (intro rejected [OF follower_quiet [OF s c(1) quiet_refl]])
  next
    case False
    have le: "current_term (cn_state n) \<le> ar_term req" using False by simp
    obtain r1 n1 where p1: "persist_meta (set_state (follow req (cn_state n)) n) = (r1, n1)" by fastforce
    obtain r2 n2 where p2: "append_entries J (ar_entries req) n1 = (r2, n2)" by fastforce
    obtain r3 n3 where p3: "apply_committed J (set_state (advance_commit req (cn_state n2)) n2) = (r3, n3)" by fastforce
    note g1 = persist_meta_ok [OF inv _ _ _ follow_meta [OF le] p1, simplified]
    have q1: "quiet n n1" using persist_meta_quiet [OF p1] by simp
    have f1: "follower_logs J g L req n n1" by (rule follower_quiet [OF s c(1) q1])
    note body = h [unfolded handle_append_entries_def p1]
    show ?thesis
    proof (cases "r1 = Inr () \<and> prev_ok (cn_state n1) req \<and> entries_ok (cn_state n1) req")
      case stop: False
      then have "append_reject n1 = (r, n')" using body False up by (auto split: sum.splits if_splits)
      then show ?thesis by (intro rejected [OF f1])
    next
      case ok1: True
      have run: "in_sync J n1" "\<not> cn_stopped n1" using g1 ok1 up good_step_sync by auto
      have t: "current_term (cn_state n1) = ar_term req" "role_of (cn_state n1) = Follower" using g1 follow_term [OF le] by simp_all
      have pe: "prev_ok (cn_state n1) req" "entries_ok (cn_state n1) req" using ok1 by simp_all
      have l1: "raft_log (cn_state n1) = raft_log (cn_state n)" "commit_index (cn_state n1) = commit_index (cn_state n)"
          "applied_log J (cn_disk n1) = applied_log J (cn_disk n)" using q1 quiet_disk [OF q1] by (simp_all add: quiet_def)
      have c1: "consistent g L (raft_log (cn_state n1))" using c(1) l1 by simp
      note st = follower_stored [OF run mk t(1) pe q c1 c(2) p2]
      have f2: "follower_logs J g L req n n2" using conjunct1 [OF st] unfolding follower_logs_def Let_def l1 .
      note tail = append_tail_ok [OF run mk t pe p2, unfolded p3 prod.case]
      show ?thesis
      proof (cases "r2 = Inr ()")
        case False
        then obtain x where "r2 = Inl x" by (cases r2) auto
        then have "append_reject n2 = (r, n')" using body \<open>\<not> (ar_term req > MAX_RAFT_TERM \<or> _)\<close> up ok1 p2 by simp
        then show ?thesis by (intro rejected [OF f2])
      next
        case ok2: True
        have run2: "in_sync J n2" "\<not> cn_stopped n2"
        proof -
          have "storable (current_term (cn_state n1)) (commit_index (cn_state n1)) (ar_prev_log_index req) (ar_entries req) (raft_log (cn_state n1))"
            by (rule entries_storable [OF sync_log(2) [OF run(1)] pe]) (use t in simp)
          from append_entries_ok [OF run mk this p2] ok2 show "in_sync J n2" "\<not> cn_stopped n2" using good_step_sync by auto
        qed
        have me: "matched_end req \<le> length (raft_log (cn_state n2))"
        proof -
          have "storable (current_term (cn_state n1)) (commit_index (cn_state n1)) (ar_prev_log_index req) (ar_entries req) (raft_log (cn_state n1))"
            by (rule entries_storable [OF sync_log(2) [OF run(1)] pe]) (use t in simp)
          from append_entries_ok [OF run mk this p2] ok2 show ?thesis by (simp add: matched_end_def)
        qed
        have ci: "commit_index (cn_state n2) = commit_index (cn_state n)" using st l1 by simp
        have te: "take (matched_end req) (raft_log (cn_state n2)) = take (matched_end req) (g (ar_term req))" using st ok2 by simp
        note f3 = follower_committed [OF f2 ci run2 mk te me p3]
        have d2: "disk_log n2 = raft_log (cn_state n2)" by (rule running_disk(1) [OF run2(1)])
        show ?thesis
        proof (cases "\<exists>peers. r3 = Inr () \<and> ar_peer_addrs req = Some peers")
          case True
          then obtain peers where pr: "r3 = Inr ()" "ar_peer_addrs req = Some peers" by blast
          obtain r4 n4 where p4: "persist_peers (adopt_peers req peers n3) = (r4, n4)" by fastforce
          have "n' = n4" using body False up ok1 p2 ok2 p3 pr p4 by (cases r4) (auto simp: append_reject_def)
          moreover have q4: "quiet n3 n4" using persist_peers_quiet [OF p4] by (simp add: adopt_peers_def)
          ultimately show ?thesis using follower_quiet_after [OF conjunct1 [OF f3]] quiet_disk [OF q4] f3 d2 te by simp
        next
          case nop: False
          have "n' = n3" using body False up ok1 p2 ok2 p3 nop tail
            by (cases r3) (auto simp: append_reject_def split: option.splits rerr.splits)
          then show ?thesis using f3 d2 te by simp
        qed
      qed
    qed
  qed
qed

end
