(* ===== verification/Raft_Safety.thy ===== *)
theory Raft_Safety
  imports Raft_Logs
begin

text \<open>
  The safety of replication. An entry of a leader's own term is \<^emph>\<open>committed\<close> once a majority has acknowledged the leader's log up
  to it; it is \<^emph>\<open>barred\<close> once a majority has moved to a later term without acknowledging it. The invariant says that each
  later leader has the entry or the entry is barred; so later leaders have every committed entry, and what
  two voters commit never differs.
\<close>

section \<open>Acknowledged, barred and committed entries\<close>

definition own_entry :: "term_logs \<Rightarrow> nat \<Rightarrow> nat \<Rightarrow> bool" where
  "own_entry g t k \<longleftrightarrow> 0 < k \<and> k \<le> length (g t) \<and> le_term (g t ! (k - 1)) = t"

definition majority :: "(string, string) btm \<Rightarrow> string set \<Rightarrow> bool" where
  "majority V Q \<longleftrightarrow> Q \<subseteq> voters V \<and> length V < 2 * card Q"

definition acked :: "(string, string) btm \<Rightarrow> cluster_sys \<Rightarrow> term_logs \<Rightarrow> term_leaders \<Rightarrow> string \<Rightarrow> nat \<Rightarrow> nat \<Rightarrow> bool" where
  "acked V s g L j t k \<longleftrightarrow> k \<le> length (g t) \<and> (L t = Some j
     \<or> (\<exists>a req resp. btm_get V j = Some a \<and> (a, req, resp) \<in> cs_acks s \<and> as_success resp \<and> ar_term req = t \<and> k \<le> matched_end req))"

definition barred :: "(string, string) btm \<Rightarrow> cluster_sys \<Rightarrow> term_logs \<Rightarrow> term_leaders \<Rightarrow> nat \<Rightarrow> nat \<Rightarrow> bool" where
  "barred V s g L t k \<longleftrightarrow> (\<exists>Q. majority V Q \<and> (\<forall>j \<in> Q. t < disk_term (cs_nodes s j) \<and> \<not> acked V s g L j t k))"

definition committed :: "(string, string) btm \<Rightarrow> cluster_sys \<Rightarrow> term_logs \<Rightarrow> term_leaders \<Rightarrow> nat \<Rightarrow> nat \<Rightarrow> bool" where
  "committed V s g L t k \<longleftrightarrow> own_entry g t k \<and> (\<exists>Q. majority V Q \<and> (\<forall>j \<in> Q. acked V s g L j t k))"

definition safe_log :: "(string, string) btm \<Rightarrow> cluster_sys \<Rightarrow> term_logs \<Rightarrow> term_leaders \<Rightarrow> log_entry list \<Rightarrow> bool" where
  "safe_log V s g L l \<longleftrightarrow> l = [] \<or> (\<exists>t k. committed V s g L t k \<and> prefix l (take k (g t)))"

text \<open>The log that a candidate asked votes for.\<close>

definition asked_log :: "term_logs \<Rightarrow> vote_request \<Rightarrow> log_entry list" where
  "asked_log g req = take (vr_last_log_index req) (g (vr_last_log_term req))"

definition voted :: "cluster_sys \<Rightarrow> vote_request \<Rightarrow> string \<Rightarrow> bool" where
  "voted s req j \<longleftrightarrow> j = vr_candidate_id req \<or> (\<exists>resp. vs_granted resp \<and> (j, req, resp) \<in> cs_votes s)"

section \<open>The invariant\<close>

definition node_raft :: "cluster_json \<Rightarrow> (string, string) btm \<Rightarrow> cluster_sys \<Rightarrow> term_logs \<Rightarrow> term_leaders \<Rightarrow> string \<Rightarrow> cluster_node \<Rightarrow> bool" where
  "node_raft J V s g L i n \<longleftrightarrow> consistent g L (disk_log n)
     \<and> (role_of (cn_state n) = Leader \<longrightarrow> L (current_term (cn_state n)) = Some i \<and> prefix (raft_log (cn_state n)) (g (current_term (cn_state n)))
          \<and> (\<not> cn_stopped n \<longrightarrow> raft_log (cn_state n) = g (current_term (cn_state n))))
     \<and> (\<forall>t. L t = Some i \<longrightarrow> t \<le> disk_term n \<and> \<not> (role_of (cn_state n) = Candidate \<and> current_term (cn_state n) = t))
     \<and> commit_index (cn_state n) \<le> length (raft_log (cn_state n))
     \<and> safe_log V s g L (take (commit_index (cn_state n)) (raft_log (cn_state n))) \<and> safe_log V s g L (applied_log J (cn_disk n))"

definition holds_acks :: "(string, string) btm \<Rightarrow> cluster_sys \<Rightarrow> term_logs \<Rightarrow> term_leaders \<Rightarrow> string \<Rightarrow> cluster_node \<Rightarrow> bool" where
  "holds_acks V s g L i n \<longleftrightarrow>
     (\<forall>t k. own_entry g t k \<and> acked V s g L i t k \<longrightarrow> prefix (take k (g t)) (disk_log n) \<or> barred V s g L t k)"

definition match_ok :: "(string, string) btm \<Rightarrow> cluster_sys \<Rightarrow> string \<Rightarrow> cluster_node \<Rightarrow> bool" where
  "match_ok V s i n \<longleftrightarrow> (role_of (cn_state n) = Leader \<longrightarrow>
     (\<forall>j a m. btm_get V j = Some a \<and> j \<noteq> i \<and> match_index (cn_state n) a = Some m \<and> 0 < m \<longrightarrow>
        (\<exists>req resp. (a, req, resp) \<in> cs_acks s \<and> as_success resp \<and> ar_term req = current_term (cn_state n) \<and> matched_index req = m)))"

definition asked_ok :: "term_logs \<Rightarrow> term_leaders \<Rightarrow> vote_request \<Rightarrow> bool" where
  "asked_ok g L req \<longleftrightarrow> vr_last_log_index req \<le> length (g (vr_last_log_term req))
     \<and> (if vr_last_log_index req = 0 then vr_last_log_term req = 0
        else L (vr_last_log_term req) \<noteq> None \<and> le_term (asked_log g req ! (vr_last_log_index req - 1)) = vr_last_log_term req
          \<and> vr_last_log_term req < vr_term req)"

definition votes_ok :: "(string, string) btm \<Rightarrow> cluster_sys \<Rightarrow> term_logs \<Rightarrow> term_leaders \<Rightarrow> vote_request \<Rightarrow> string \<Rightarrow> bool" where
  "votes_ok V s g L req j \<longleftrightarrow> (\<forall>t k. t < vr_term req \<and> own_entry g t k \<and> acked V s g L j t k \<longrightarrow>
     prefix (take k (g t)) (asked_log g req) \<or> barred V s g L t k)"

definition ack_ok :: "term_logs \<Rightarrow> term_leaders \<Rightarrow> append_request \<Rightarrow> bool" where
  "ack_ok g L req \<longleftrightarrow> matched_end req \<le> length (g (ar_term req)) \<and> matched_index req = matched_end req \<and> L (ar_term req) \<noteq> None"

definition tally_raft :: "cluster_sys \<Rightarrow> string \<Rightarrow> election \<Rightarrow> cluster_node \<Rightarrow> bool" where
  "tally_raft s i el n \<longleftrightarrow> (role_of (cn_state n) = Candidate \<and> current_term (cn_state n) = el_term el \<longrightarrow>
     el_last_index el = last_log_index (cn_state n) \<and> el_last_term el = last_log_term (cn_state n))"

definition append_ok :: "(string, string) btm \<Rightarrow> cluster_sys \<Rightarrow> term_logs \<Rightarrow> term_leaders \<Rightarrow> append_request \<Rightarrow> bool" where
  "append_ok V s g L req \<longleftrightarrow> request_raft g L req \<and> min (ar_leader_commit req) (matched_end req) \<le> length (g (ar_term req))
     \<and> safe_log V s g L (take (min (ar_leader_commit req) (matched_end req)) (g (ar_term req)))"

definition ghost_ok :: "(string, string) btm \<Rightarrow> cluster_sys \<Rightarrow> term_logs \<Rightarrow> term_leaders \<Rightarrow> bool" where
  "ghost_ok V s g L \<longleftrightarrow> (\<forall>t. L t = None \<longrightarrow> g t = []) \<and> (\<forall>t. wf_log t (g t) \<and> consistent g L (g t))
     \<and> (\<forall>t i. L t = Some i \<longrightarrow> i \<in> voters V \<and> elected V s t i)"

definition asks_ok :: "cluster_sys \<Rightarrow> term_logs \<Rightarrow> term_leaders \<Rightarrow> bool" where
  "asks_ok s g L \<longleftrightarrow> (\<forall>req \<in> cs_asked s. asked_ok g L req)
     \<and> (\<forall>req \<in> cs_asked s. \<forall>req' \<in> cs_asked s. vr_candidate_id req = vr_candidate_id req' \<and> vr_term req = vr_term req' \<longrightarrow> req = req')
     \<and> (\<forall>j req resp. (j, req, resp) \<in> cs_votes s \<longrightarrow> req \<in> cs_asked s)"

definition complete :: "(string, string) btm \<Rightarrow> cluster_sys \<Rightarrow> term_logs \<Rightarrow> term_leaders \<Rightarrow> bool" where
  "complete V s g L \<longleftrightarrow> (\<forall>t t' k. L t' \<noteq> None \<and> t < t' \<and> own_entry g t k \<longrightarrow> prefix (take k (g t)) (g t') \<or> barred V s g L t k)"

definition raft_inv :: "cluster_json \<Rightarrow> (string, string) btm \<Rightarrow> cluster_sys \<Rightarrow> term_logs \<Rightarrow> term_leaders \<Rightarrow> bool" where
  "raft_inv J V s g L \<longleftrightarrow> ghost_ok V s g L \<and> asks_ok s g L \<and> complete V s g L
     \<and> (\<forall>i \<in> voters V. node_raft J V s g L i (cs_nodes s i) \<and> holds_acks V s g L i (cs_nodes s i) \<and> match_ok V s i (cs_nodes s i)
          \<and> (\<forall>el. cs_elections s i = Some el \<longrightarrow> tally_raft s i el (cs_nodes s i)))
     \<and> (\<forall>a req. (a, req) \<in> cs_appends s \<longrightarrow> append_ok V s g L req)
     \<and> (\<forall>a req resp. (a, req, resp) \<in> cs_acks s \<and> as_success resp \<longrightarrow> ack_ok g L req)
     \<and> (\<forall>req \<in> cs_asked s. \<forall>j. voted s req j \<longrightarrow> votes_ok V s g L req j)"

section \<open>Growing\<close>

text \<open>A step of \<open>i\<close>: logs, leaders and messages grow, and the only new acknowledgements are those of \<open>i\<close> in its term.\<close>

definition raft_grows ::
  "(string, string) btm \<Rightarrow> string \<Rightarrow> cluster_sys \<Rightarrow> term_logs \<Rightarrow> term_leaders \<Rightarrow> cluster_sys \<Rightarrow> term_logs \<Rightarrow> term_leaders \<Rightarrow> bool" where
  "raft_grows V i s g L s' g' L' \<longleftrightarrow> extends g L g' L' \<and> cs_asked s \<subseteq> cs_asked s' \<and> cs_votes s \<subseteq> cs_votes s' \<and> cs_acks s \<subseteq> cs_acks s'
     \<and> (\<forall>j \<in> voters V. disk_term (cs_nodes s j) \<le> disk_term (cs_nodes s' j))
     \<and> (\<forall>j t k. own_entry g' t k \<and> acked V s' g' L' j t k \<longrightarrow>
          own_entry g t k \<and> acked V s g L j t k \<or> j = i \<and> disk_term (cs_nodes s' i) = t)"

lemma own_entry_mono: "own_entry g t k \<Longrightarrow> extends g L g' L' \<Longrightarrow> own_entry g' t k"
  using extends_nth [of g L g' L' "k - 1" t] extends_length [of g L g' L' t] by (auto simp: own_entry_def)

lemma own_entry_old: "own_entry g' t k \<Longrightarrow> extends g L g' L' \<Longrightarrow> k \<le> length (g t) \<Longrightarrow> own_entry g t k"
  using extends_nth [of g L g' L' "k - 1" t] by (auto simp: own_entry_def)

lemma own_take: "own_entry g t k \<Longrightarrow> extends g L g' L' \<Longrightarrow> take k (g' t) = take k (g t)"
  using extends_take [of g L g' L' k t] by (simp add: own_entry_def)

lemma acked_mono:
  assumes "acked V s g L j t k" "extends g L g' L'" "cs_acks s \<subseteq> cs_acks s'"
  shows "acked V s' g' L' j t k"
proof -
  have "k \<le> length (g' t)" using assms(1) extends_length [OF assms(2), of t] by (auto simp: acked_def)
  with assms(1,3) extends_leader [OF assms(2), of t] show ?thesis unfolding acked_def by blast
qed

lemma committed_mono:
  assumes "committed V s g L t k" "extends g L g' L'" "cs_acks s \<subseteq> cs_acks s'"
  shows "committed V s' g' L' t k"
  using assms acked_mono [OF _ assms(2,3)] own_entry_mono unfolding committed_def by metis

lemma safe_log_mono:
  assumes "safe_log V s g L l" "extends g L g' L'" "cs_acks s \<subseteq> cs_acks s'"
  shows "safe_log V s' g' L' l"
proof (cases "l = []")
  case False
  with assms(1) obtain t k where c: "committed V s g L t k" "prefix l (take k (g t))" by (auto simp: safe_log_def)
  then have "take k (g' t) = take k (g t)" using own_take [OF _ assms(2)] by (auto simp: committed_def)
  with c committed_mono [OF c(1) assms(2,3)] show ?thesis unfolding safe_log_def by metis
qed (simp add: safe_log_def)

lemma safe_log_prefix: "safe_log V s g L l \<Longrightarrow> prefix p l \<Longrightarrow> safe_log V s g L p"
  unfolding safe_log_def using prefix_order.trans by (metis prefix_bot.bot_unique)

lemma barred_mono:
  assumes "barred V s g L t k" "own_entry g t k" "raft_grows V i s g L s' g' L'"
  shows "barred V s' g' L' t k"
proof -
  obtain Q where Q: "majority V Q" "\<forall>j \<in> Q. t < disk_term (cs_nodes s j) \<and> \<not> acked V s g L j t k" using assms(1) by (auto simp: barred_def)
  have "t < disk_term (cs_nodes s' j) \<and> \<not> acked V s' g' L' j t k" if j: "j \<in> Q" for j
  proof -
    have "j \<in> voters V" using Q(1) j by (auto simp: majority_def)
    then have d: "t < disk_term (cs_nodes s' j)" using Q(2) j assms(3) by (fastforce simp: raft_grows_def)
    have "own_entry g' t k" using own_entry_mono assms(2,3) by (auto simp: raft_grows_def)
    with d Q(2) j assms(3) show ?thesis unfolding raft_grows_def by blast
  qed
  with Q(1) show ?thesis unfolding barred_def by blast
qed
lemma support_term:
  assumes "sys_inv J V s" "supports s t c j"
  shows "j \<in> voters V \<and> t \<le> disk_term (cs_nodes s j)"
proof -
  have "j \<in> voters V" "meta_le (t, Some c) (meta_of (cn_disk (cs_nodes s j)))" using assms unfolding sys_inv_def by blast+
  with meta_le_fst [OF this(2)] show ?thesis by (simp add: disk_term_def)
qed

lemma voted_supports: "voted s req j \<Longrightarrow> req \<in> cs_asked s \<Longrightarrow> supports s (vr_term req) (vr_candidate_id req) j"
  unfolding voted_def supports_def by blast

lemma elected_majority:
  assumes "elected V s t c"
  obtains Q where "majority V Q" "\<forall>j \<in> Q. supports s t c j"
proof -
  obtain Q where Q: "Q \<subseteq> voters V" "length V div 2 + 1 \<le> card Q" "\<forall>j \<in> Q. supports s t c j" using assms unfolding elected_def by metis
  then have "majority V Q" by (simp add: majority_def)
  with Q(3) show thesis using that by blast
qed

lemma node_raft_mono:
  assumes n: "node_raft J V s g L j n" and gr: "raft_grows V i s g L s' g' L'" and lead: "\<And>t. L' t = Some j \<Longrightarrow> L t = Some j"
    and run: "role_of (cn_state n) = Leader \<Longrightarrow> \<not> cn_stopped n \<Longrightarrow> g' (current_term (cn_state n)) = g (current_term (cn_state n))"
  shows "node_raft J V s' g' L' j n"
proof -
  have e: "extends g L g' L'" "cs_acks s \<subseteq> cs_acks s'" using gr by (simp_all add: raft_grows_def)
  have "L' (current_term (cn_state n)) = Some j \<and> prefix (raft_log (cn_state n)) (g' (current_term (cn_state n)))
      \<and> (\<not> cn_stopped n \<longrightarrow> raft_log (cn_state n) = g' (current_term (cn_state n)))" if "role_of (cn_state n) = Leader"
    using n that run extends_leader [OF e(1)] e(1) prefix_order.trans by (simp add: node_raft_def extends_def) blast
  with n lead safe_log_mono [OF _ e] consistent_mono [OF _ e(1)] show ?thesis by (auto simp: node_raft_def)
qed

lemma holds_acks_mono:
  assumes h: "holds_acks V s g L j n" and gr: "raft_grows V i s g L s' g' L'" and j: "j \<noteq> i"
  shows "holds_acks V s' g' L' j n"
  unfolding holds_acks_def
proof (intro allI impI, elim conjE)
  fix t k assume a: "own_entry g' t k" "acked V s' g' L' j t k"
  with gr j have o: "own_entry g t k" "acked V s g L j t k" unfolding raft_grows_def by blast+
  have e: "extends g L g' L'" using gr by (simp add: raft_grows_def)
  have "take k (g' t) = take k (g t)" by (rule own_take [OF o(1) e])
  with h o barred_mono [OF _ o(1) gr] show "prefix (take k (g' t)) (disk_log n) \<or> barred V s' g' L' t k" by (auto simp: holds_acks_def)
qed

lemma asked_log_mono: "asked_ok g L req \<Longrightarrow> extends g L g' L' \<Longrightarrow> asked_log g' req = asked_log g req"
  by (simp add: asked_ok_def asked_log_def extends_take)

lemma asked_ok_mono: "asked_ok g L req \<Longrightarrow> extends g L g' L' \<Longrightarrow> asked_ok g' L' req"
  using asked_log_mono [of g L req g' L'] extends_length [of g L g' L' "vr_last_log_term req"] extends_leader [of g L g' L' "vr_last_log_term req"]
  by (auto simp: asked_ok_def)

lemma request_raft_mono: "request_raft g L req \<Longrightarrow> extends g L g' L' \<Longrightarrow> request_raft g' L' req"
proof -
  assume r: "request_raft g L req" and e: "extends g L g' L'"
  let ?p = "ar_prev_log_index req" and ?es = "ar_entries req" and ?t = "ar_term req"
  have new: "?es = take (length ?es) (drop ?p (g' ?t))" "0 < ?p \<longrightarrow> ar_prev_log_term req = le_term (g' ?t ! (?p - 1))"
      "?p + length ?es \<le> length (g' ?t)" if o: "?p + length ?es \<le> length (g ?t)" "?es = take (length ?es) (drop ?p (g ?t))"
      "0 < ?p \<longrightarrow> ar_prev_log_term req = le_term (g ?t ! (?p - 1))"
  proof -
    have tk: "take (length ?es) (drop ?p (g' ?t)) = take (length ?es) (drop ?p (g ?t))"
      unfolding take_drop using extends_take [OF e o(1)] by (simp add: add.commute)
    show "?es = take (length ?es) (drop ?p (g' ?t))" unfolding tk by (rule o(2))
    show "0 < ?p \<longrightarrow> ar_prev_log_term req = le_term (g' ?t ! (?p - 1))" using o(1,3) extends_nth [OF e, of "?p - 1" ?t] by auto
    show "?p + length ?es \<le> length (g' ?t)" using o(1) extends_length [OF e, of ?t] by simp
  qed
  have lead: "L' ?t = Some (ar_leader_id req)" using r extends_leader [OF e, of ?t] by (simp add: request_raft_def)
  show ?thesis
  proof (cases "0 < ?p \<and> ar_prev_log_term req = 0")
    case True
    then show ?thesis using lead by (simp add: request_raft_def)
  next
    case False
    have o: "?p + length ?es \<le> length (g ?t)" "?es = take (length ?es) (drop ?p (g ?t))" "0 < ?p \<longrightarrow> ar_prev_log_term req = le_term (g ?t ! (?p - 1))"
      using r False unfolding request_raft_def Let_def by argo+
    show ?thesis unfolding request_raft_def Let_def by (intro conjI disjI2 lead new [OF o])
  qed
qed

lemma append_ok_mono:
  assumes "append_ok V s g L req" and e: "extends g L g' L'" "cs_acks s \<subseteq> cs_acks s'"
  shows "append_ok V s' g' L' req"
proof -
  have "take (min (ar_leader_commit req) (matched_end req)) (g' (ar_term req)) = take (min (ar_leader_commit req) (matched_end req)) (g (ar_term req))"
    by (rule extends_take [OF e(1)]) (use assms(1) in \<open>simp add: append_ok_def\<close>)
  with assms(1) request_raft_mono [OF _ e(1)] safe_log_mono [OF _ e] extends_length [OF e(1), of "ar_term req"] show ?thesis
    unfolding append_ok_def by (metis order_trans)
qed

lemma ack_ok_mono: "ack_ok g L req \<Longrightarrow> extends g L g' L' \<Longrightarrow> ack_ok g' L' req"
  using extends_length [of g L g' L' "ar_term req"] extends_leader [of g L g' L' "ar_term req"] by (auto simp: ack_ok_def)
section \<open>Steps\<close>

text \<open>What a step of \<open>i\<close> must establish anew; everything else is kept.\<close>

lemma raft_step:
  assumes sys: "sys_inv J V s'" and inv: "raft_inv J V s g L" and gr: "raft_grows V i s g L s' g' L'"
    and nodes: "cs_nodes s' = (cs_nodes s)(i := n')"
    and gh: "\<And>t. L' t = None \<Longrightarrow> g' t = []" "\<And>t. wf_log t (g' t)" "\<And>t. consistent g' L' (g' t)"
      "\<And>t j. L' t = Some j \<Longrightarrow> L t = Some j \<or> j = i \<and> i \<in> voters V \<and> elected V s' t i"
    and same: "\<And>j. j \<noteq> i \<Longrightarrow> role_of (cn_state (cs_nodes s j)) = Leader \<Longrightarrow> j \<in> voters V \<Longrightarrow>
      g' (current_term (cn_state (cs_nodes s j))) = g (current_term (cn_state (cs_nodes s j)))"
    and node: "i \<in> voters V \<Longrightarrow> node_raft J V s' g' L' i n' \<and> match_ok V s' i n' \<and> (\<forall>el. cs_elections s' i = Some el \<longrightarrow> tally_raft s' i el n')"
    and els: "\<And>j. j \<noteq> i \<Longrightarrow> cs_elections s' j = cs_elections s j"
    and keep: "\<And>t k. i \<in> voters V \<Longrightarrow> own_entry g t k \<Longrightarrow> acked V s g L i t k \<Longrightarrow> prefix (take k (g t)) (disk_log (cs_nodes s i)) \<Longrightarrow>
      prefix (take k (g t)) (disk_log n') \<or> barred V s' g' L' t k"
    and fresh: "\<And>t k. i \<in> voters V \<Longrightarrow> own_entry g' t k \<Longrightarrow> acked V s' g' L' i t k \<Longrightarrow> \<not> (own_entry g t k \<and> acked V s g L i t k) \<Longrightarrow>
      prefix (take k (g' t)) (disk_log n')"
    and app: "\<And>a req. (a, req) \<in> cs_appends s' \<Longrightarrow> (a, req) \<in> cs_appends s \<or> append_ok V s' g' L' req"
    and acks: "\<And>a req resp. (a, req, resp) \<in> cs_acks s' \<Longrightarrow> as_success resp \<Longrightarrow> (a, req, resp) \<in> cs_acks s \<or> ack_ok g' L' req"
    and asks: "asks_ok s' g' L'"
    and votes: "\<And>req j. req \<in> cs_asked s' \<Longrightarrow> voted s' req j \<Longrightarrow> req \<in> cs_asked s \<and> voted s req j \<or> votes_ok V s' g' L' req j"
    and new: "\<And>t t' k. L t' = None \<Longrightarrow> L' t' \<noteq> None \<Longrightarrow> t < t' \<Longrightarrow> own_entry g t k \<Longrightarrow> own_entry g' t k \<Longrightarrow>
      prefix (take k (g t)) (g' t') \<or> barred V s' g' L' t k"
  shows "raft_inv J V s' g' L'"
proof -
  have e: "extends g L g' L'" "cs_asked s \<subseteq> cs_asked s'" "cs_votes s \<subseteq> cs_votes s'" "cs_acks s \<subseteq> cs_acks s'"
    using gr by (simp_all add: raft_grows_def)
  have acked_new: "own_entry g t k \<and> acked V s g L j t k \<or> j = i \<and> disk_term (cs_nodes s' i) = t"
    if "own_entry g' t k" "acked V s' g' L' j t k" for j t k using gr that by (simp add: raft_grows_def)
  note bm = barred_mono [OF _ _ gr]
  have ghost: "ghost_ok V s' g' L'"
  proof -
    have "i \<in> voters V \<and> elected V s' t i" if "L t = Some i" for t i using inv that elected_mono [OF _ e(2,3)] by (auto simp: raft_inv_def ghost_ok_def)
    with gh show ?thesis unfolding ghost_ok_def by blast
  qed
  have comp: "complete V s' g' L'" unfolding complete_def
  proof (intro allI impI, elim conjE)
    fix t t' k assume a: "L' t' \<noteq> None" "t < t'" "own_entry g' t k"
    show "prefix (take k (g' t)) (g' t') \<or> barred V s' g' L' t k"
    proof (cases "own_entry g t k")
      case True
      have tk: "take k (g' t) = take k (g t)" by (rule own_take [OF True e(1)])
      show ?thesis
      proof (cases "L t'")
        case None
        with new a True tk show ?thesis by simp
      next
        case (Some j)
        then have "prefix (take k (g t)) (g t') \<or> barred V s g L t k" using inv a(2) True by (auto simp: raft_inv_def complete_def)
        moreover have "prefix (g t') (g' t')" using e(1) by (simp add: extends_def)
        ultimately show ?thesis using bm [OF _ True] tk prefix_order.trans by metis
      qed
    next
      case False
      obtain j where "L' t' = Some j" using a(1) by blast
      with ghost have "elected V s' t' j" by (simp add: ghost_ok_def)
      then obtain Q where Q: "majority V Q" "\<forall>v \<in> Q. supports s' t' j v" by (rule elected_majority)
      have "t < disk_term (cs_nodes s' v) \<and> \<not> acked V s' g' L' v t k" if "v \<in> Q" for v
        using support_term [OF sys] Q(2) that a(2) acked_new [OF a(3)] False by fastforce
      with Q(1) show ?thesis unfolding barred_def by blast
    qed
  qed
  have hold: "holds_acks V s' g' L' i n'" if i: "i \<in> voters V" unfolding holds_acks_def
  proof (intro allI impI, elim conjE)
    fix t k assume a: "own_entry g' t k" "acked V s' g' L' i t k"
    show "prefix (take k (g' t)) (disk_log n') \<or> barred V s' g' L' t k"
    proof (cases "own_entry g t k \<and> acked V s g L i t k")
      case True
      then have "prefix (take k (g t)) (disk_log (cs_nodes s i)) \<or> barred V s g L t k" using inv i by (auto simp: raft_inv_def holds_acks_def)
      with True keep [OF i] bm own_take [OF _ e(1)] show ?thesis by auto
    qed (use fresh [OF i a] in simp)
  qed
  have voter: "node_raft J V s' g' L' j (cs_nodes s' j) \<and> holds_acks V s' g' L' j (cs_nodes s' j) \<and> match_ok V s' j (cs_nodes s' j)
      \<and> (\<forall>el. cs_elections s' j = Some el \<longrightarrow> tally_raft s' j el (cs_nodes s' j))" if j: "j \<in> voters V" for j
  proof (cases "j = i")
    case True
    then show ?thesis using node hold nodes j by simp
  next
    case False
    have o: "node_raft J V s g L j (cs_nodes s j)" "holds_acks V s g L j (cs_nodes s j)" "match_ok V s j (cs_nodes s j)"
      "\<forall>el. cs_elections s j = Some el \<longrightarrow> tally_raft s j el (cs_nodes s j)" using inv j by (simp_all add: raft_inv_def)
    have "node_raft J V s' g' L' j (cs_nodes s j)"
      by (rule node_raft_mono [OF o(1) gr]) (use gh(4) False same [OF False _ j] in blast)+
    moreover have "match_ok V s' j (cs_nodes s j)" using o(3) e(4) unfolding match_ok_def by blast
    moreover have "\<forall>el. cs_elections s' j = Some el \<longrightarrow> tally_raft s' j el (cs_nodes s j)" using o(4) els [OF False] by (simp add: tally_raft_def)
    ultimately show ?thesis using holds_acks_mono [OF o(2) gr False] nodes False by simp
  qed
  have vote: "votes_ok V s' g' L' req j" if r: "req \<in> cs_asked s'" "voted s' req j" for req j
  proof (cases "req \<in> cs_asked s \<and> voted s req j")
    case True
    then have o: "votes_ok V s g L req j" "asked_ok g L req" using inv by (auto simp: raft_inv_def asks_ok_def)
    show ?thesis unfolding votes_ok_def
    proof (intro allI impI, elim conjE)
      fix t k assume a: "t < vr_term req" "own_entry g' t k" "acked V s' g' L' j t k"
      have "vr_term req \<le> disk_term (cs_nodes s' j)" using support_term [OF sys voted_supports [OF r(2,1)]] by simp
      then have old: "own_entry g t k" "acked V s g L j t k" using acked_new [OF a(2,3)] a(1) by auto
      then have "prefix (take k (g t)) (asked_log g req) \<or> barred V s g L t k" using o(1) a(1) by (simp add: votes_ok_def)
      then show "prefix (take k (g' t)) (asked_log g' req) \<or> barred V s' g' L' t k"
        using bm [OF _ old(1)] own_take [OF old(1) e(1)] asked_log_mono [OF o(2) e(1)] by auto
    qed
  qed (use votes [OF r] in blast)
  have "append_ok V s' g' L' req" if "(a, req) \<in> cs_appends s'" for a req
    using app [OF that] inv append_ok_mono [OF _ e(1,4)] by (auto simp: raft_inv_def)
  moreover have "ack_ok g' L' req" if "(a, req, resp) \<in> cs_acks s'" "as_success resp" for a req resp
    using acks [OF that] inv ack_ok_mono [OF _ e(1)] that(2) unfolding raft_inv_def by blast
  ultimately show ?thesis unfolding raft_inv_def using ghost asks comp voter vote by blast
qed

end
