(* ===== verification/Raft_Steps.thy ===== *)
theory Raft_Steps
  imports Raft_Safety
begin

text \<open>Every step of the cluster keeps the invariant of replication, with leader logs that only grow.\<close>

section \<open>Steps that touch no log\<close>

lemma acked_same: "cs_acks s' = cs_acks s \<Longrightarrow> acked V s' g L = acked V s g L"
  by (intro ext) (simp add: acked_def)

lemma safe_same: "cs_acks s' = cs_acks s \<Longrightarrow> safe_log V s' g L = safe_log V s g L"
  using acked_same [of s' s V g L] by (intro ext) (simp add: safe_log_def committed_def)

text \<open>A leader that is still one has kept its term, its health and the indices of its followers.\<close>

definition calm :: "cluster_node \<Rightarrow> cluster_node \<Rightarrow> bool" where
  "calm n n' \<longleftrightarrow> (role_of (cn_state n') = Leader \<longrightarrow> role_of (cn_state n) = Leader \<and> current_term (cn_state n') = current_term (cn_state n)
     \<and> (cn_stopped n \<longrightarrow> cn_stopped n') \<and> (\<forall>a m. match_index (cn_state n') a = Some m \<and> 0 < m \<longrightarrow> match_index (cn_state n) a = Some m))"

lemma calm_refl [simp]: "calm n n"
  by (simp add: calm_def)

lemma move_disk_term: "voter_move J V i n n' \<Longrightarrow> disk_term n \<le> disk_term n'"
  by (simp add: voter_move_def disk_term_def meta_le_fst)

lemma move_grows:
  assumes "voter_move J V i (cs_nodes s i) n'" "cs_nodes s' = (cs_nodes s)(i := n')" "cs_asked s \<subseteq> cs_asked s'" "cs_votes s \<subseteq> cs_votes s'"
    and "cs_acks s' = cs_acks s"
  shows "raft_grows V i s g L s' g L"
  using assms move_disk_term [OF assms(1)] acked_same [OF assms(5)] by (auto simp: raft_grows_def)

lemma raft_quiet:
  assumes sys: "sys_inv J V s'" and inv: "raft_inv J V s g L" and i: "i \<in> voters V"
    and mv: "voter_move J V i (cs_nodes s i) n'" and q: "quiet (cs_nodes s i) n'"
    and role: "role_of (cn_state n') = Leader \<Longrightarrow> role_of (cn_state (cs_nodes s i)) = Leader
      \<and> current_term (cn_state n') = current_term (cn_state (cs_nodes s i)) \<and> (cn_stopped (cs_nodes s i) \<longrightarrow> cn_stopped n')"
    and cand: "role_of (cn_state n') = Candidate \<Longrightarrow> role_of (cn_state (cs_nodes s i)) = Candidate
      \<and> current_term (cn_state n') = current_term (cn_state (cs_nodes s i)) \<or> disk_term (cs_nodes s i) < current_term (cn_state n')"
    and match: "match_ok V s' i n'" and el: "\<And>el. cs_elections s' i = Some el \<Longrightarrow> tally_raft s' i el n'"
    and s': "cs_nodes s' = (cs_nodes s)(i := n')" "cs_asked s \<subseteq> cs_asked s'" "cs_votes s \<subseteq> cs_votes s'" "cs_acks s' = cs_acks s"
      "\<And>j. j \<noteq> i \<Longrightarrow> cs_elections s' j = cs_elections s j"
    and app: "\<And>a req. (a, req) \<in> cs_appends s' \<Longrightarrow> (a, req) \<in> cs_appends s \<or> append_ok V s g L req"
    and asks: "asks_ok s' g L"
    and votes: "\<And>req j. req \<in> cs_asked s' \<Longrightarrow> voted s' req j \<Longrightarrow> req \<in> cs_asked s \<and> voted s req j \<or> votes_ok V s' g L req j"
  shows "raft_inv J V s' g L"
proof -
  have gr: "raft_grows V i s g L s' g L" by (rule move_grows [OF mv s'(1-4)])
  have gh: "\<And>t. L t = None \<Longrightarrow> g t = []" "\<And>t. wf_log t (g t)" "\<And>t. consistent g L (g t)" using inv by (auto simp: raft_inv_def ghost_ok_def)
  have o: "node_raft J V s g L i (cs_nodes s i)" using inv i by (simp add: raft_inv_def)
  have n: "node_raft J V s' g L i n'"
  proof -
    have "t \<le> disk_term n' \<and> \<not> (role_of (cn_state n') = Candidate \<and> current_term (cn_state n') = t)" if "L t = Some i" for t
      using o that move_disk_term [OF mv] cand by (fastforce simp: node_raft_def)
    with o q role quiet_disk [OF q, of J] safe_same [OF s'(4)] show ?thesis by (auto simp: node_raft_def quiet_def)
  qed
  show ?thesis
  proof (rule raft_step [OF sys inv gr s'(1) gh])
    fix a req assume "(a, req) \<in> cs_appends s'"
    then show "(a, req) \<in> cs_appends s \<or> append_ok V s' g L req" using app safe_same [OF s'(4)] by (auto simp: append_ok_def)
  qed (use n match el s' asks votes quiet_disk [OF q] acked_same [OF s'(4)] in auto)
qed
lemma last_log_cong: "raft_log st' = raft_log st \<Longrightarrow> last_log_index st' = last_log_index st \<and> last_log_term st' = last_log_term st"
  by (simp add: last_log_index_def last_log_term_def)

lemma asks_same: "cs_asked s' = cs_asked s \<Longrightarrow> cs_votes s' = cs_votes s \<Longrightarrow> asks_ok s' g L = asks_ok s g L"
  by (simp add: asks_ok_def)

lemma voted_same: "cs_votes s' = cs_votes s \<Longrightarrow> voted s' req j = voted s req j"
  by (simp add: voted_def)

text \<open>The elections that go on are those of before.\<close>

definition same_election :: "election \<Rightarrow> election \<Rightarrow> bool" where
  "same_election el el' \<longleftrightarrow> el_term el' = el_term el \<and> el_last_index el' = el_last_index el \<and> el_last_term el' = el_last_term el"

definition no_candidate :: "cluster_node \<Rightarrow> cluster_node \<Rightarrow> bool" where
  "no_candidate n n' \<longleftrightarrow> (role_of (cn_state n') = Candidate \<longrightarrow> role_of (cn_state n) = Candidate \<and> current_term (cn_state n') = current_term (cn_state n))"

lemma tally_kept:
  assumes "tally_raft s i el n" "same_election el el'" "no_candidate n n'" "raft_log (cn_state n') = raft_log (cn_state n)"
  shows "tally_raft s' i el' n'"
  using assms last_log_cong [OF assms(4)] by (auto simp: tally_raft_def same_election_def no_candidate_def)

lemma raft_calm:
  assumes sys: "sys_inv J V s'" and inv: "raft_inv J V s g L" and i: "i \<in> voters V"
    and mv: "voter_move J V i (cs_nodes s i) n'" and q: "quiet (cs_nodes s i) n'" and c: "calm (cs_nodes s i) n'" "no_candidate (cs_nodes s i) n'"
    and s': "cs_nodes s' = (cs_nodes s)(i := n')" "cs_asked s' = cs_asked s" "cs_votes s' = cs_votes s" "cs_acks s' = cs_acks s" "cs_appends s' = cs_appends s"
      "\<And>j. j \<noteq> i \<Longrightarrow> cs_elections s' j = cs_elections s j"
      "\<And>el'. cs_elections s' i = Some el' \<Longrightarrow> \<exists>el. cs_elections s i = Some el \<and> same_election el el'"
  shows "raft_inv J V s' g L"
proof (rule raft_quiet [OF sys inv i mv q _ _ _ _ s'(1) _ _ s'(4) s'(6)])
  have o: "match_ok V s i (cs_nodes s i)" "\<forall>el. cs_elections s i = Some el \<longrightarrow> tally_raft s i el (cs_nodes s i)"
    using inv i by (simp_all add: raft_inv_def)
  show "match_ok V s' i n'" unfolding match_ok_def
  proof (intro impI allI, elim conjE)
    fix j a m assume l: "role_of (cn_state n') = Leader" and j: "btm_get V j = Some a" "j \<noteq> i" "match_index (cn_state n') a = Some m" "0 < m"
    with c(1) have h: "match_index (cn_state (cs_nodes s i)) a = Some m" "role_of (cn_state (cs_nodes s i)) = Leader"
      and t: "current_term (cn_state n') = current_term (cn_state (cs_nodes s i))" by (auto simp: calm_def)
    from o(1) j h show "\<exists>req resp. (a, req, resp) \<in> cs_acks s' \<and> as_success resp \<and> ar_term req = current_term (cn_state n') \<and> matched_index req = m"
      unfolding s'(4) t match_ok_def by blast
  qed
  show "tally_raft s' i el' n'" if el: "cs_elections s' i = Some el'" for el'
    using s'(7) [OF el] o(2) tally_kept [OF _ _ c(2)] q by (auto simp: quiet_def)
  show "asks_ok s' g L" using asks_same [OF s'(2,3)] inv by (simp add: raft_inv_def)
qed (use c s' voted_same [OF s'(3)] in \<open>auto simp: calm_def no_candidate_def\<close>)

lemma vote_calm: "voter_node J V i n \<Longrightarrow> handle_request_vote req n = (resp, n') \<Longrightarrow> calm n n' \<and> no_candidate n n'"
  by (auto simp: handle_request_vote_def Let_def vote_answer_def voter_node_def voter_config_def persist_meta_def durable_def step_down_def
      calm_def no_candidate_def split: if_splits sum.splits prod.splits list.splits io_outcome.splits)

lemma reply_calm:
  assumes "node_inv J n" "election_reply peer answer el n = (el', n')"
  shows "calm n n' \<and> no_candidate n n' \<and> (\<forall>e. el' = Some e \<longrightarrow> same_election el e)"
proof -
  note ok = election_reply_ok [OF assms]
  have "n' = n \<or> role_of (cn_state n') = Follower" using ok by blast
  then have "calm n n' \<and> no_candidate n n'" by (auto simp: calm_def no_candidate_def)
  moreover have "same_election el e" if "el' = Some e" for e
  proof -
    have "e = el\<lparr>el_waiting := remove1 peer (el_waiting el), el_votes := el_votes e\<rparr>" using ok that by blast
    then show ?thesis by (cases el, cases e) (auto simp: same_election_def)
  qed
  ultimately show ?thesis by blast
qed

lemma accept_calm:
  "no_candidate n (accept_append_response peer t p m resp n)"
  "calm n (accept_append_response peer t p m resp n) \<or>
     (let n' = accept_append_response peer t p m resp n in role_of (cn_state n) = Leader \<and> role_of (cn_state n') = Leader \<and> current_term (cn_state n) = t
        \<and> current_term (cn_state n') = t \<and> cn_stopped n' = cn_stopped n \<and> as_success resp
        \<and> (\<forall>a. match_index (cn_state n') a = match_index (cn_state n) a \<or> a = peer \<and> match_index (cn_state n') a = Some m))"
  by (auto simp: no_candidate_def calm_def accept_append_response_def Let_def persist_meta_def durable_def step_down_def set_state_def max_def
      split: list.splits io_outcome.splits option.splits)
section \<open>Votes\<close>

text \<open>The log of a running voter, by its last entry.\<close>

lemma log_from_last:
  assumes "consistent g L l" "wf_log t l" "raft_log st = l" "l \<noteq> []"
  shows "last_log_index st = length l \<and> L (last_log_term st) \<noteq> None \<and> length l \<le> length (g (last_log_term st))
    \<and> l = take (length l) (g (last_log_term st)) \<and> le_term (l ! (length l - 1)) = last_log_term st"
proof -
  have lt: "last_log_term st = le_term (l ! (length l - 1))" using assms(3,4) by (simp add: last_log_term_def last_conv_nth)
  have k: "length l - 1 < length l" "Suc (length l - 1) = length l" using assms(4) by (simp_all add: Suc_leI)
  from assms(1) k(1) have "L (le_term (l ! (length l - 1))) \<noteq> None" "length l - 1 < length (g (le_term (l ! (length l - 1))))"
    "take (Suc (length l - 1)) l = take (Suc (length l - 1)) (g (le_term (l ! (length l - 1))))" unfolding consistent_def by blast+
  moreover have "last_log_index st = length l" using wf_last_index [of t st] assms(2,3) by simp
  ultimately show ?thesis unfolding lt k(2) by auto
qed

text \<open>Terms grow along a log.\<close>

lemma consistent_terms:
  assumes "consistent g L l" "\<And>t. wf_log t (g t)" "a \<le> b" "b < length l"
  shows "le_term (l ! a) \<le> le_term (l ! b)"
proof -
  let ?u = "le_term (l ! b)"
  from assms(1,4) have "b < length (g ?u)" "take (Suc b) l = take (Suc b) (g ?u)" unfolding consistent_def by blast+
  then have "l ! a = g ?u ! a" "a < length (g ?u)" using assms(3) by (metis le_imp_less_Suc nth_take, linarith)
  with assms(2) [of ?u] show ?thesis by (auto simp: wf_log_def wf_entry_def)
qed

lemma asked_of:
  assumes c: "consistent g L (raft_log st)" and wf: "wf_log t (raft_log st)" and t: "t < u"
    and req: "vr_last_log_index req = last_log_index st" "vr_last_log_term req = last_log_term st" "vr_term req = u"
  shows "asked_ok g L req \<and> asked_log g req = raft_log st"
proof (cases "raft_log st = []")
  case True
  with req show ?thesis by (simp add: asked_ok_def asked_log_def last_log_index_def last_log_term_def)
next
  case False
  note l = log_from_last [OF c wf HOL.refl False]
  have len: "0 < length (raft_log st)" using False by simp
  have "le_term (raft_log st ! (length (raft_log st) - 1)) \<le> t" using wf len by (auto simp: wf_log_def wf_entry_def)
  with l req t False show ?thesis by (simp add: asked_ok_def asked_log_def)
qed

text \<open>A voter that grants a vote holds no acknowledged entry that the candidate's log lacks, unless it is barred.\<close>

lemma up_to_date_prefix:
  assumes inv: "complete V s g L" and gh: "\<And>t. wf_log t (g t)" "\<And>t. consistent g L (g t)"
    and l: "consistent g L (raft_log st)" "wf_log u (raft_log st)" and up: "log_up_to_date req st" and ask: "asked_ok g L req"
    and own: "own_entry g t k" and p: "prefix (take k (g t)) (raft_log st)"
  shows "prefix (take k (g t)) (asked_log g req) \<or> barred V s g L t k"
proof -
  let ?l = "raft_log st" and ?u = "vr_last_log_term req" and ?m = "vr_last_log_index req"
  have k: "0 < k" "k \<le> length (g t)" "le_term (g t ! (k - 1)) = t" using own by (simp_all add: own_entry_def)
  have tl: "take k ?l = take k (g t)" using p k(2) by (metis append_eq_conv_conj length_take min.absorb2 prefix_def)
  have kl: "k \<le> length ?l" using p prefix_length_le k(2) by fastforce
  then have ne: "?l \<noteq> []" using k(1) by auto
  note last = log_from_last [OF l HOL.refl ne]
  have "?l ! (k - 1) = g t ! (k - 1)" using tl k(1) by (metis diff_less less_one nth_take)
  moreover have "le_term (?l ! (k - 1)) \<le> le_term (?l ! (length ?l - 1))" by (rule consistent_terms [OF l(1) gh(1)]) (use kl ne in auto)
  ultimately have lt: "t \<le> last_log_term st" using k(3) last by simp
  have "k - 1 < length (g t)" using k(1,2) by simp
  then have "0 < le_term (g t ! (k - 1))" using gh(1) [of t] unfolding wf_log_def wf_entry_def by blast
  then have t0: "0 < t" using k(3) by simp
  have "0 < ?u" using up lt t0 by (auto simp: log_up_to_date_def)
  then have m0: "?m \<noteq> 0" using ask by (auto simp: asked_ok_def split: if_splits)
  have ak: "?m \<le> length (g ?u)" "L ?u \<noteq> None" "le_term (asked_log g req ! (?m - 1)) = ?u" using ask m0 by (simp_all add: asked_ok_def)
  show ?thesis
  proof (cases "?u = last_log_term st")
    case True
    then have "length ?l \<le> ?m" using up last by (auto simp: log_up_to_date_def)
    then have "prefix (take k (g t)) (take ?m (g ?u))"
      using last True p by (metis min.absorb1 prefix_order.trans take_is_prefix take_take)
    then show ?thesis by (simp add: asked_log_def)
  next
    case False
    then have "t < ?u" using up lt by (auto simp: log_up_to_date_def)
    then have "prefix (take k (g t)) (g ?u) \<or> barred V s g L t k" using inv ak(2) own unfolding complete_def by blast
    then show ?thesis
    proof
      assume pu: "prefix (take k (g t)) (g ?u)"
      have "k \<le> ?m"
      proof (rule ccontr)
        assume "\<not> k \<le> ?m"
        then have "?m - 1 < k" by simp
        then have "g ?u ! (?m - 1) = g t ! (?m - 1)" using pu k(2) by (auto simp: prefix_def nth_append dest: arg_cong [where f = "\<lambda>x. x ! (?m - 1)"])
        moreover have "asked_log g req ! (?m - 1) = g ?u ! (?m - 1)" using m0 by (simp add: asked_log_def)
        moreover have "le_term (g t ! (?m - 1)) \<le> t" using gh(1) [of t] \<open>?m - 1 < k\<close> k(2) by (auto simp: wf_log_def wf_entry_def)
        ultimately show False using ak(3) \<open>t < ?u\<close> by simp
      qed
      then have "prefix (take k (g t)) (take ?m (g ?u))" using pu k(2) ak(1) by (intro prefix_length_prefix [OF pu take_is_prefix]) simp
      then show ?thesis by (simp add: asked_log_def)
    qed simp
  qed
qed
lemma raft_invD:
  assumes "raft_inv J V s g L"
  shows "ghost_ok V s g L" "asks_ok s g L" "complete V s g L"
    "i \<in> voters V \<Longrightarrow> node_raft J V s g L i (cs_nodes s i)" "i \<in> voters V \<Longrightarrow> holds_acks V s g L i (cs_nodes s i)"
    "i \<in> voters V \<Longrightarrow> match_ok V s i (cs_nodes s i)"
    "i \<in> voters V \<Longrightarrow> cs_elections s i = Some el \<Longrightarrow> tally_raft s i el (cs_nodes s i)"
    "(a, req) \<in> cs_appends s \<Longrightarrow> append_ok V s g L req"
    "(a, req, resp) \<in> cs_acks s \<Longrightarrow> as_success resp \<Longrightarrow> ack_ok g L req"
    "ask \<in> cs_asked s \<Longrightarrow> voted s ask j \<Longrightarrow> votes_ok V s g L ask j"
    "wf_log t (g t)" "consistent g L (g t)" "L t = None \<Longrightarrow> g t = []" "L t = Some i \<Longrightarrow> i \<in> voters V \<and> elected V s t i"
  using assms unfolding raft_inv_def ghost_ok_def by blast+

lemma barred_same:
  assumes "cs_acks s' = cs_acks s" "\<And>j. j \<in> voters V \<Longrightarrow> disk_term (cs_nodes s j) \<le> disk_term (cs_nodes s' j)" "barred V s g L t k"
  shows "barred V s' g L t k"
proof -
  obtain Q where Q: "majority V Q" "\<forall>j \<in> Q. t < disk_term (cs_nodes s j) \<and> \<not> acked V s g L j t k" using assms(3) by (auto simp: barred_def)
  then have "\<forall>j \<in> Q. t < disk_term (cs_nodes s' j) \<and> \<not> acked V s' g L j t k"
    using assms(2) unfolding acked_same [OF assms(1)] majority_def by (meson order_less_le_trans subsetD)
  with Q(1) show ?thesis unfolding barred_def by blast
qed

lemma voter_running:
  assumes "voter_node J V i n" "\<not> cn_stopped n"
  shows "in_sync J n"
  using running_sync voter_nodeD [OF assms(1)] assms(2) by blast

lemma vote_raft:
  assumes sys: "sys_inv J V s" "sys_inv J V s'" and inv: "raft_inv J V s g L" and i: "i \<in> voters V"
    and r: "req \<in> cs_asked s" and h: "handle_request_vote req (cs_nodes s i) = (resp, n')"
    and s': "s' = set_node i n' (s\<lparr>cs_votes := insert (i, req, resp) (cs_votes s)\<rparr>)"
  shows "raft_inv J V s' g L"
proof -
  let ?n = "cs_nodes s i"
  have v: "voter_node J V i ?n" by (rule sys_inv_node [OF sys(1) i])
  note mv = conjunct1 [OF vote_move [OF v h]] and q = vote_quiet [OF h] and c = vote_calm [OF v h]
  have cs: "cs_nodes s' = (cs_nodes s)(i := n')" "cs_asked s' = cs_asked s" "cs_acks s' = cs_acks s" "cs_elections s' = cs_elections s"
      "cs_appends s' = cs_appends s" "cs_votes s' = insert (i, req, resp) (cs_votes s)" using s' by simp_all
  have dt: "disk_term (cs_nodes s j) \<le> disk_term (cs_nodes s' j)" for j using move_disk_term [OF mv] cs(1) by simp
  show ?thesis
  proof (rule raft_quiet [OF sys(2) inv i mv q _ _ _ _ cs(1)])
    show "match_ok V s' i n'" using raft_invD(6) [OF inv i] c unfolding match_ok_def calm_def cs(3) by metis
    show "tally_raft s' i el n'" if "cs_elections s' i = Some el" for el
      using raft_invD(7) [OF inv i] that cs(4) c q tally_kept [of s i el ?n el n'] by (simp add: quiet_def same_election_def)
    show "asks_ok s' g L" using raft_invD(2) [OF inv] r unfolding asks_ok_def cs by auto
  next
    fix ask j assume a: "ask \<in> cs_asked s'" "voted s' ask j"
    show "ask \<in> cs_asked s \<and> voted s ask j \<or> votes_ok V s' g L ask j"
    proof (cases "voted s ask j")
      case True
      with a cs(2) show ?thesis by simp
    next
      case False
      with a(2) cs(6) have e: "ask = req" "j = i" "vs_granted resp" by (auto simp: voted_def)
      note ok = handle_request_vote_ok [OF voter_nodeD [OF v] h]
      have up: "\<not> cn_stopped ?n" using ok e(3) by (auto simp: good_step_def same_identity_def)
      note y = voter_running [OF v up]
      have own: "prefix (take k (g t)) (asked_log g req) \<or> barred V s g L t k" if "t < vr_term req" "own_entry g t k" "acked V s g L i t k" for t k
      proof -
        have "prefix (take k (g t)) (disk_log ?n) \<or> barred V s g L t k" using raft_invD(5) [OF inv i] that by (simp add: holds_acks_def)
        moreover have "consistent g L (raft_log (cn_state ?n))" using raft_invD(4) [OF inv i] running_disk(1) [OF y] by (simp add: node_raft_def)
        moreover have "asked_ok g L req" using raft_invD(2) [OF inv] r by (simp add: asks_ok_def)
        ultimately show ?thesis
          using up_to_date_prefix [OF raft_invD(3) [OF inv] raft_invD(11,12) [OF inv] _ sync_log(2) [OF y] _ _ that(2)] ok e(3) running_disk(1) [OF y] by auto
      qed
      have "votes_ok V s' g L req i" unfolding votes_ok_def acked_same [OF cs(3)] using own barred_same [OF cs(3) dt] by blast
      with e show ?thesis by simp
    qed
  qed (use c cs in \<open>auto simp: calm_def no_candidate_def\<close>)
qed
text \<open>A campaign: the request names the candidate's log, and its own vote is the first.\<close>

lemma campaign_raft:
  assumes sys: "sys_inv J V s" "sys_inv J V s'" and inv: "raft_inv J V s g L" and i: "i \<in> voters V"
    and h: "begin_election (cs_nodes s i) = (Some el, n')"
    and s': "s' = set_election i (Some el) (set_node i n' (s\<lparr>cs_asked := insert (election_request i el) (cs_asked s)\<rparr>))"
  shows "raft_inv J V s' g L"
proof -
  let ?n = "cs_nodes s i" and ?r = "election_request i el"
  have v: "voter_node J V i ?n" by (rule sys_inv_node [OF sys(1) i])
  note mv = conjunct1 [OF campaign_move [OF v h]] and q = begin_quiet [OF h]
  note ok = begin_election_ok [OF voter_nodeD [OF v] h, simplified]
  have up: "\<not> cn_stopped ?n" using ok by (auto simp: good_step_def same_identity_def)
  note y = voter_running [OF v up]
  have cs: "cs_nodes s' = (cs_nodes s)(i := n')" "cs_asked s' = insert ?r (cs_asked s)" "cs_acks s' = cs_acks s" "cs_elections s' = (cs_elections s)(i := Some el)"
      "cs_appends s' = cs_appends s" "cs_votes s' = cs_votes s" using s' by simp_all
  have dt: "disk_term (cs_nodes s j) \<le> disk_term (cs_nodes s' j)" for j using move_disk_term [OF mv] cs(1) by simp
  have t: "vr_term ?r = current_term (cn_state ?n) + 1" "disk_term ?n = current_term (cn_state ?n)" "vr_candidate_id ?r = i"
    using ok running_disk(2) [OF y] by (simp_all add: election_request_def)
  have l: "consistent g L (raft_log (cn_state ?n))" using raft_invD(4) [OF inv i] running_disk(1) [OF y] by (simp add: node_raft_def)
  have ask: "asked_ok g L ?r" "asked_log g ?r = raft_log (cn_state ?n)"
    using asked_of [OF l sync_log(2) [OF y], of "vr_term ?r" ?r] ok t by (simp_all add: election_request_def)
  have late: "vr_term req < vr_term ?r" if "req \<in> cs_asked s" "vr_candidate_id req = i" for req
  proof -
    have "supports s (vr_term req) i i" using that unfolding supports_def by blast
    from support_term [OF sys(1) this] t show ?thesis by simp
  qed
  show ?thesis
  proof (rule raft_quiet [OF sys(2) inv i mv q _ _ _ _ cs(1)])
    show "match_ok V s' i n'" using ok by (simp add: match_ok_def)
    show "tally_raft s' i e n'" if "cs_elections s' i = Some e" for e
      using that cs(4) ok last_log_cong [of "cn_state n'" "cn_state ?n"] by (simp add: tally_raft_def)
    show "asks_ok s' g L" using raft_invD(2) [OF inv] ask(1) late t(3) unfolding asks_ok_def cs by fastforce
  next
    fix req j assume a: "req \<in> cs_asked s'" "voted s' req j"
    show "req \<in> cs_asked s \<and> voted s req j \<or> votes_ok V s' g L req j"
    proof (cases "req \<in> cs_asked s")
      case True
      with a(2) voted_same [OF cs(6)] show ?thesis by simp
    next
      case False
      with a(1) cs(2) have e: "req = ?r" by simp
      have "(j, req, resp) \<notin> cs_votes s" for resp using raft_invD(2) [OF inv] False unfolding asks_ok_def by blast
      with a(2) e t(3) cs(6) have j: "j = i" by (auto simp: voted_def)
      have "prefix (take k (g t)) (asked_log g ?r) \<or> barred V s g L t k" if "own_entry g t k" "acked V s g L i t k" for t k
        using raft_invD(5) [OF inv i] that ask(2) running_disk(1) [OF y] by (simp add: holds_acks_def)
      then have "votes_ok V s' g L ?r i" unfolding votes_ok_def acked_same [OF cs(3)] using barred_same [OF cs(3) dt] by blast
      with e j show ?thesis by simp
    qed
  qed (use ok t cs in auto)
qed

text \<open>Steps that send nothing.\<close>

lemma reply_raft:
  assumes sys: "sys_inv J V s" "sys_inv J V s'" and inv: "raft_inv J V s g L" and i: "i \<in> voters V" and el: "cs_elections s i = Some el"
    and h: "election_reply peer answer el (cs_nodes s i) = (el', n')" and s': "s' = set_election i el' (set_node i n' s)"
  shows "raft_inv J V s' g L"
proof -
  have v: "voter_node J V i (cs_nodes s i)" by (rule sys_inv_node [OF sys(1) i])
  note c = reply_calm [OF voter_nodeD [OF v] h]
  show ?thesis
    by (rule raft_calm [OF sys(2) inv i conjunct1 [OF reply_move [OF v h]] reply_quiet [OF h]]) (use c s' el in auto)
qed

lemma campaign_lost_raft:
  assumes sys: "sys_inv J V s" "sys_inv J V s'" and inv: "raft_inv J V s g L" and i: "i \<in> voters V" and el: "cs_elections s i = None"
    and h: "begin_election (cs_nodes s i) = (None, n')" and s': "s' = set_node i n' s"
  shows "raft_inv J V s' g L"
proof -
  let ?n = "cs_nodes s i"
  have v: "voter_node J V i ?n" by (rule sys_inv_node [OF sys(1) i])
  have dt: "disk_term ?n \<le> current_term (cn_state ?n)"
    using voter_nodeD [OF v] meta_le_fst by (fastforce simp: node_inv_def disk_term_def mem_meta_def)
  have st: "role_of (cn_state n') = Candidate \<and> current_term (cn_state n') = current_term (cn_state ?n) + 1 \<or> cn_state n' = cn_state ?n"
    using h by (auto simp: begin_election_def Let_def persist_meta_def durable_def split: if_splits sum.splits prod.splits list.splits io_outcome.splits)
  have stop: "cn_stopped n'" using begin_election_ok [OF voter_nodeD [OF v] h] by simp
  show ?thesis
  proof (rule raft_quiet [OF sys(2) inv i conjunct1 [OF campaign_move [OF v h]] begin_quiet [OF h]])
    show "match_ok V s' i n'" using raft_invD(6) [OF inv i] st s' by (auto simp: match_ok_def)
    show "asks_ok s' g L" using raft_invD(2) [OF inv] s' by (simp add: asks_ok_def)
  qed (use st s' el dt stop voted_same [of s' s] in auto)
qed

end
