(* ===== verification/Raft_Lead.thy ===== *)
theory Raft_Lead
  imports Raft_Steps
begin

text \<open>A candidate that wins, and what a leader does: it stores entries, sends them, counts answers and commits.\<close>

section \<open>Winning an election\<close>

lemma reset_match: "match_index (reset_peers ps l st) a = (if a \<in> set ps then Some 0 else match_index st a)"
  unfolding reset_peers_def by (induction ps arbitrary: st) auto

lemma voter_is_peer:
  assumes "voter_node J V i n" "btm_get V j = Some a" "j \<noteq> i"
  shows "a \<in> set (raft_peers (cn_state n)) \<and> a \<in> set (voter_peers (cn_state n))"
proof -
  have m: "mem_ok V i (cn_state n)" using assms(1) by (simp add: voter_node_def)
  then have "members_ok V (peer_addrs (cn_state n)) (learners (cn_state n))" by (simp add: mem_ok_def)
  from voter_get [OF this] assms(2,3) m have "a \<in> set (raft_peers (cn_state n))" by (auto simp: mem_ok_def peers_of_def)
  with voter_peers_ok [OF m] assms(2,3) show ?thesis by (auto simp: peers_of_def)
qed

lemma asked_is_log:
  assumes "consistent g L (raft_log st)" "wf_log t (raft_log st)" "vr_last_log_index req = last_log_index st" "vr_last_log_term req = last_log_term st"
  shows "asked_log g req = raft_log st"
proof (cases "raft_log st = []")
  case True
  with assms(3) show ?thesis by (simp add: asked_log_def last_log_index_def)
next
  case False
  have "raft_log st = take (length (raft_log st)) (g (last_log_term st))" "last_log_index st = length (raft_log st)"
    using log_from_last [OF assms(1,2) HOL.refl False] by blast+
  with assms(3,4) show ?thesis unfolding asked_log_def by metis
qed

text \<open>What a winner's log lacks of an earlier term is barred, by the votes.\<close>

lemma winner_complete:
  assumes sys: "sys_inv J V s" and inv: "raft_inv J V s g L" and i: "i \<in> voters V" and el: "cs_elections s i = Some el"
    and win: "el_majority el \<le> el_votes el" and up: "\<not> cn_stopped (cs_nodes s i)" and c: "role_of (cn_state (cs_nodes s i)) = Candidate"
    and t: "current_term (cn_state (cs_nodes s i)) = el_term el" and u: "u < el_term el" "own_entry g u k"
  shows "prefix (take k (g u)) (raft_log (cn_state (cs_nodes s i))) \<or> barred V s g L u k"
proof -
  let ?n = "cs_nodes s i" and ?r = "election_request i el"
  note y = voter_running [OF sys_inv_node [OF sys i] up]
  have l: "consistent g L (raft_log (cn_state ?n))" using raft_invD(4) [OF inv i] running_disk(1) [OF y] by (simp add: node_raft_def)
  have tl: "tally_ok V s i el" using sys i el by (simp add: sys_inv_def)
  have al: "asked_log g ?r = raft_log (cn_state ?n)"
    by (rule asked_is_log [OF l sync_log(2) [OF y]]) (use raft_invD(7) [OF inv i el] c t in \<open>simp_all add: tally_raft_def election_request_def\<close>)
  obtain Q where Q: "majority V Q" "\<forall>v \<in> Q. supports s (el_term el) i v" using finish_elected [OF tl win] by (rule elected_majority)
  show ?thesis
  proof (cases "\<exists>v \<in> Q. acked V s g L v u k")
    case True
    then obtain v where v: "v \<in> Q" "acked V s g L v u k" by blast
    then obtain req where q: "vr_term req = el_term el" "vr_candidate_id req = i" "req \<in> cs_asked s" "voted s req v"
      using Q(2) raft_invD(2) [OF inv] unfolding supports_def asks_ok_def voted_def by blast
    have "?r \<in> cs_asked s" using tl by (simp add: tally_ok_def)
    then have "req = ?r" using raft_invD(2) [OF inv] q unfolding asks_ok_def by (simp add: election_request_def)
    with raft_invD(10) [OF inv q(3,4)] v(2) u q(1) al show ?thesis unfolding votes_ok_def by auto
  next
    case False
    have "u < disk_term (cs_nodes s v)" if "v \<in> Q" for v using support_term [OF sys] Q(2) that u(1) by fastforce
    with False Q(1) show ?thesis unfolding barred_def by blast
  qed
qed

text \<open>The log of a new term: no entry is of that term yet.\<close>

lemma no_own_yet:
  assumes "consistent g L l" "L t = None" "own_entry (g(t := l)) u k"
  shows "u \<noteq> t \<and> own_entry g u k"
proof (cases "u = t")
  case True
  then have "0 < k" "k \<le> length l" "le_term (l ! (k - 1)) = t" using assms(3) by (simp_all add: own_entry_def)
  then have "k - 1 < length l" by simp
  then have "L (le_term (l ! (k - 1))) \<noteq> None" using assms(1) unfolding consistent_def by blast
  with assms(2) \<open>le_term (l ! (k - 1)) = t\<close> show ?thesis by simp
qed (use assms(3) in \<open>simp add: own_entry_def\<close>)

lemma acked_other: "u \<noteq> t \<Longrightarrow> cs_acks s' = cs_acks s \<Longrightarrow> acked V s' (g(t := l)) (L(t \<mapsto> i)) j u k = acked V s g L j u k"
  by (simp add: acked_def)

lemma win_raft:
  assumes sys: "sys_inv J V s" "sys_inv J V s'" and inv: "raft_inv J V s g L" and i: "i \<in> voters V" and el: "cs_elections s i = Some el"
    and win: "el_majority el \<le> el_votes el" and up: "\<not> cn_stopped (cs_nodes s i)" and c: "role_of (cn_state (cs_nodes s i)) = Candidate"
    and t: "current_term (cn_state (cs_nodes s i)) = el_term el"
    and s': "s' = set_election i None (set_node i (finish_election el (cs_nodes s i)) s)"
  shows "raft_inv J V s' (g(el_term el := raft_log (cn_state (cs_nodes s i)))) (L(el_term el \<mapsto> i))
    \<and> extends g L (g(el_term el := raft_log (cn_state (cs_nodes s i)))) (L(el_term el \<mapsto> i))"
proof -
  let ?n = "cs_nodes s i" and ?t = "el_term el"
  let ?n' = "finish_election el ?n" and ?l = "raft_log (cn_state (cs_nodes s i))"
  let ?g = "g(?t := ?l)" and ?L = "L(?t \<mapsto> i)"
  have v: "voter_node J V i ?n" by (rule sys_inv_node [OF sys(1) i])
  note y = voter_running [OF v up] and mv = conjunct1 [OF finish_move [OF v, of el]] and q = finish_quiet [of ?n el]
  have st: "cn_state ?n' = reset_peers (raft_peers (cn_state ?n)) (last_log_index (cn_state ?n))
      ((cn_state ?n)\<lparr>role_of := Leader, leader_id := Some (cc_node_id (cn_config ?n))\<rparr>)"
    using win up c t by (auto simp: finish_election_def Let_def persist_meta_def durable_def split: list.split io_outcome.split)
  have cs: "cs_nodes s' = (cs_nodes s)(i := ?n')" "cs_asked s' = cs_asked s" "cs_acks s' = cs_acks s" "cs_elections s' = (cs_elections s)(i := None)"
      "cs_appends s' = cs_appends s" "cs_votes s' = cs_votes s" using s' by simp_all
  have tl: "tally_ok V s i el" using sys(1) i el by (simp add: sys_inv_def)
  have none: "L ?t = None"
  proof (rule ccontr)
    assume "L ?t \<noteq> None"
    then obtain j where j: "L ?t = Some j" by blast
    then have "j = i" using raft_invD(14) [OF inv j] elected_unique [OF sys(1) _ finish_elected [OF tl win]] by blast
    with raft_invD(4) [OF inv i] j c t show False unfolding node_raft_def by blast
  qed
  have g0: "g ?t = []" by (rule raft_invD(13) [OF inv none])
  have o: "node_raft J V s g L i ?n" by (rule raft_invD(4) [OF inv i])
  have l: "consistent g L ?l" using o running_disk(1) [OF y] by (simp add: node_raft_def)
  have e: "extends g L ?g ?L" using g0 none by (auto simp: extends_def)
  have own: "u \<noteq> ?t \<and> own_entry g u k" if "own_entry ?g u k" for u k by (rule no_own_yet [OF l none that])
  have gr: "raft_grows V i s g L s' ?g ?L" unfolding raft_grows_def
    using e cs move_disk_term [OF mv] own acked_other [OF _ cs(3), of _ ?t V g ?l L i] by auto
  have dt: "disk_term ?n = ?t" using running_disk(2) [OF y] t by simp
  have n': "node_raft J V s' ?g ?L i ?n'"
  proof -
    have "u \<le> disk_term ?n'" if "?L u = Some i" for u
      using that o move_disk_term [OF mv] dt by (fastforce simp: node_raft_def split: if_splits)
    with o st q quiet_disk [OF q, of J] safe_log_mono [OF _ e, of V s _ s'] consistent_mono [OF _ e] cs(3) t show ?thesis
      by (auto simp: node_raft_def quiet_def)
  qed
  have m': "match_ok V s' i ?n'" unfolding match_ok_def st reset_match using voter_is_peer [OF v] by auto
  have "raft_inv J V s' ?g ?L"
  proof (rule raft_step [OF sys(2) inv gr cs(1)])
    show "?g u = []" if "?L u = None" for u using that raft_invD(13) [OF inv] by (simp split: if_splits)
    show "wf_log u (?g u)" for u using raft_invD(11) [OF inv] sync_log(2) [OF y] t by simp
    show "consistent ?g ?L (?g u)" for u using consistent_mono [OF _ e] l raft_invD(12) [OF inv] by simp
    show "L u = Some j \<or> j = i \<and> i \<in> voters V \<and> elected V s' u i" if "?L u = Some j" for u j
      using that i elected_mono [OF finish_elected [OF tl win]] cs by (auto split: if_splits)
    show "?g (current_term (cn_state (cs_nodes s j))) = g (current_term (cn_state (cs_nodes s j)))"
      if "j \<noteq> i" "role_of (cn_state (cs_nodes s j)) = Leader" "j \<in> voters V" for j
      using raft_invD(4) [OF inv that(3)] that(2) none by (auto simp: node_raft_def)
    show "asks_ok s' ?g ?L" using raft_invD(2) [OF inv] asked_ok_mono [OF _ e] unfolding asks_ok_def cs by blast
    show "prefix (take k (g u)) (?g u') \<or> barred V s' ?g ?L u k"
      if "L u' = None" "?L u' \<noteq> None" "u < u'" "own_entry g u k" "own_entry ?g u k" for u u' k
    proof -
      have u': "u' = ?t" using that by (simp split: if_splits)
      have "prefix (take k (g u)) ?l \<or> barred V s g L u k"
        by (rule winner_complete [OF sys(1) inv i el win up c t]) (use that u' in simp_all)
      with u' barred_mono [OF _ that(4) gr] show ?thesis by auto
    qed
    show "prefix (take k (?g u)) (disk_log ?n')" if "own_entry ?g u k" "acked V s' ?g ?L i u k" "\<not> (own_entry g u k \<and> acked V s g L i u k)" for u k
      using that own acked_other [OF _ cs(3), of u ?t V g ?l L i] by auto
  qed (use n' m' cs voted_same [OF cs(6)] quiet_disk [OF q] in auto)
  with e show ?thesis by blast
qed

lemma finish_raft:
  assumes sys: "sys_inv J V s" "sys_inv J V s'" and inv: "raft_inv J V s g L" and i: "i \<in> voters V" and el: "cs_elections s i = Some el"
    and s': "s' = set_election i None (set_node i (finish_election el (cs_nodes s i)) s)"
  shows "\<exists>g' L'. raft_inv J V s' g' L' \<and> extends g L g' L'"
proof (cases "el_majority el \<le> el_votes el \<and> \<not> cn_stopped (cs_nodes s i) \<and> role_of (cn_state (cs_nodes s i)) = Candidate
    \<and> current_term (cn_state (cs_nodes s i)) = el_term el")
  case True
  then show ?thesis using win_raft [OF sys inv i el _ _ _ _ s'] by blast
next
  case False
  then have "finish_election el (cs_nodes s i) = cs_nodes s i" by (auto simp: finish_election_def Let_def)
  then have "raft_inv J V s' g L"
    by (intro raft_calm [OF sys(2) inv i conjunct1 [OF sys_inv_self [OF sys(1) i]]]) (use s' in \<open>auto simp: no_candidate_def\<close>)
  then show ?thesis using extends_refl by blast
qed
section \<open>Storing an entry\<close>

lemma consistent_lead:
  assumes "consistent g L l" "g t = l" "L t \<noteq> None" "le_term e = t"
  shows "consistent (g(t := l @ [e])) L (l @ [e])"
proof -
  let ?g = "g(t := l @ [e])" and ?m = "l @ [e]"
  have e: "extends g L ?g L" using assms(2) by (auto simp: extends_def)
  have old: "L (le_term (l ! k)) \<noteq> None \<and> k < length (?g (le_term (l ! k))) \<and> take (Suc k) l = take (Suc k) (?g (le_term (l ! k)))"
    if "k < length l" for k using consistent_mono [OF assms(1) e] that unfolding consistent_def by blast
  have "L (le_term (?m ! k)) \<noteq> None \<and> k < length (?g (le_term (?m ! k))) \<and> take (Suc k) ?m = take (Suc k) (?g (le_term (?m ! k)))"
    if "k < length ?m" for k
  proof (cases "k < length l")
    case True
    then have "?m ! k = l ! k" "take (Suc k) ?m = take (Suc k) l" by (simp_all add: nth_append)
    then show ?thesis using old [OF True] by (simp only:) simp
  next
    case False
    with that have "k = length l" by simp
    with assms(3,4) show ?thesis by simp
  qed
  then show ?thesis unfolding consistent_def by blast
qed

text \<open>A running leader stores at most one entry of its term, on disk and then in memory.\<close>

definition stores :: "cluster_json \<Rightarrow> cluster_node \<Rightarrow> cluster_node \<Rightarrow> bool" where
  "stores J n n' \<longleftrightarrow> (\<exists>e. wf_entry (current_term (cn_state n)) (length (raft_log (cn_state n))) e \<and> le_term e = current_term (cn_state n)
       \<and> disk_log n' \<in> {raft_log (cn_state n), raft_log (cn_state n) @ [e]})
     \<and> prefix (raft_log (cn_state n)) (raft_log (cn_state n')) \<and> prefix (raft_log (cn_state n')) (disk_log n')
     \<and> (\<not> cn_stopped n' \<longrightarrow> raft_log (cn_state n') = disk_log n')
     \<and> role_of (cn_state n') = Leader \<and> current_term (cn_state n') = current_term (cn_state n) \<and> commit_index (cn_state n') = commit_index (cn_state n)
     \<and> match_index (cn_state n') = match_index (cn_state n) \<and> applied_log J (cn_disk n') = applied_log J (cn_disk n)"

lemma propose_stores:
  assumes v: "voter_node J V i n" and m: "marker_ok J" and up: "\<not> cn_stopped n" and ld: "role_of (cn_state n) = Leader" and k: "valid_keys key extra"
  shows "stores J n (snd (propose J key value extra n))"
proof -
  let ?l = "raft_log (cn_state n)" and ?t = "current_term (cn_state n)"
  obtain r n' where p: "propose J key value extra n = (r, n')" by fastforce
  have t: "0 < ?t" using v ld by (simp add: voter_node_def)
  have s: "in_sync J n" by (rule voter_running [OF v up])
  let ?e = "\<lparr>le_term = ?t, le_index = last_log_index (cn_state n) + 1, le_key = key, le_value = value, le_extra = extra\<rparr>"
  have idx: "last_log_index (cn_state n) = length ?l" using wf_last_index sync_log(2) [OF s] by blast
  note ok = propose_ok [OF voter_nodeD [OF v] m up t k p]
  obtain r1 n1 where p1: "persist_meta n = (r1, n1)" by fastforce
  obtain r2 n2 where p2: "push_entry J ?e n1 = (r2, n2)" by fastforce
  have p1': "persist_meta (set_state (cn_state n) n) = (r1, n1)" using p1 by (simp add: set_state_def)
  have q1: "quiet n n1" by (rule persist_meta_quiet [OF p1])
  have g1: "good_step J n n1" "cn_state n1 = cn_state n"
    using persist_meta_ok [OF voter_nodeD [OF v] HOL.refl HOL.refl HOL.refl meta_le_refl p1'] by blast+
  have s1: "in_sync J n1" "\<not> cn_stopped n1" if "r1 = Inr ()"
    using persist_meta_ok [OF voter_nodeD [OF v] HOL.refl HOL.refl HOL.refl meta_le_refl p1'] that up good_step_sync by auto
  have logs: "{raft_log (cn_state n'), disk_log n'} \<subseteq> {?l, ?l @ [?e]} \<and> nd_data (cn_disk n') = nd_data (cn_disk n)"
  proof (cases "r1 = Inr ()")
    case True
    have n': "n' = n2" using p p1 p2 True by (cases r2) (simp_all add: propose_def Let_def)
    have "{raft_log (cn_state n2), disk_log n2} \<subseteq> {raft_log (cn_state n1), raft_log (cn_state n1) @ [?e]} \<and> nd_data (cn_disk n2) = nd_data (cn_disk n1)"
      by (rule push_entry_logs [OF s1(1) [OF True] _ p2]) (use g1(2) idx in simp)
    then show ?thesis using n' g1(2) q1 by (simp add: quiet_def)
  next
    case False
    then have "n' = n1" using p p1 by (cases r1) (simp_all add: propose_def Let_def)
    then show ?thesis using q1 quiet_disk [OF q1] running_disk(1) [OF s] by (simp add: quiet_def)
  qed
  have node: "node_inv J n'" using ok by (simp add: good_step_def)
  have sync: "raft_log (cn_state n') = disk_log n'" if "\<not> cn_stopped n'" using running_disk(1) [OF running_sync [OF node that]] by simp
  have mem: "cn_state n' = cn_state n \<or> \<not> cn_stopped n' \<and> cn_state n' = (cn_state n)\<lparr>raft_log := ?l @ [?e]\<rparr>"
  proof (cases r)
    case (Inr e)
    then show ?thesis using ok idx by simp
  next
    case (Inl x)
    have "cn_state n2 = cn_state n1 \<or> r2 = Inr ()" using p2 by (auto simp: push_entry_def persist_log_entry_def durable_def split: sum.splits prod.splits if_splits list.splits io_outcome.splits)
    then show ?thesis using p p1 p2 Inl g1(2) by (cases r1; cases r2) (auto simp: propose_def Let_def)
  qed
  have wf: "wf_entry ?t (length ?l) ?e" using t k idx by (simp add: wf_entry_def)
  have al: "applied_log J (cn_disk n') = applied_log J (cn_disk n)"
  proof -
    have la: "last_applied (cn_state n) \<le> length ?l" using s by (auto simp: in_sync_def log_sync_def Let_def)
    have "applied_len J (cn_disk n) = last_applied (cn_state n)"
      using s replay_marker(1) [OF sync_log(2) [OF s] la m _ sync_log(1) [OF s]] by (simp add: in_sync_def log_sync_def Let_def)
    then show ?thesis using logs la running_disk(1) [OF s] by (auto simp: applied_log_def applied_len_def disk_log_def)
  qed
  have "prefix ?l (raft_log (cn_state n'))" "prefix (raft_log (cn_state n')) (disk_log n')" using mem sync logs by auto
  moreover have "\<exists>e. wf_entry ?t (length ?l) e \<and> le_term e = ?t \<and> disk_log n' \<in> {?l, ?l @ [e]}" using wf logs by (intro exI [of _ ?e]) simp
  ultimately show ?thesis unfolding p snd_conv stores_def using sync mem al ld by auto
qed

lemma acks_known:
  assumes inv: "raft_inv J V s g L" and a: "acked V s g' L j t k" and k: "length (g t) < k"
  shows "L t = Some j"
proof (rule ccontr)
  assume "L t \<noteq> Some j"
  with a obtain a req resp where q: "(a, req, resp) \<in> cs_acks s" "as_success resp" "ar_term req = t" "k \<le> matched_end req"
    unfolding acked_def by blast
  with raft_invD(9) [OF inv q(1,2)] k show False by (simp add: ack_ok_def)
qed

lemma store_raft:
  assumes sys: "sys_inv J V s" "sys_inv J V s'" and inv: "raft_inv J V s g L" and i: "i \<in> voters V"
    and up: "\<not> cn_stopped (cs_nodes s i)" and ld: "role_of (cn_state (cs_nodes s i)) = Leader"
    and mv: "voter_move J V i (cs_nodes s i) n'" and st: "stores J (cs_nodes s i) n'" and s': "s' = set_node i n' s"
  shows "\<exists>g' L'. raft_inv J V s' g' L' \<and> extends g L g' L'"
proof -
  let ?n = "cs_nodes s i"
  let ?l = "raft_log (cn_state ?n)" and ?t = "current_term (cn_state ?n)"
  let ?g = "g(?t := disk_log n')"
  have v: "voter_node J V i ?n" by (rule sys_inv_node [OF sys(1) i])
  note y = voter_running [OF v up]
  have cs: "cs_nodes s' = (cs_nodes s)(i := n')" "cs_asked s' = cs_asked s" "cs_acks s' = cs_acks s" "cs_elections s' = cs_elections s"
      "cs_appends s' = cs_appends s" "cs_votes s' = cs_votes s" using s' by simp_all
  have o: "node_raft J V s g L i ?n" by (rule raft_invD(4) [OF inv i])
  have lead: "L ?t = Some i" "g ?t = ?l" using o ld up by (simp_all add: node_raft_def)
  have st': "prefix ?l (raft_log (cn_state n'))" "prefix (raft_log (cn_state n')) (disk_log n')" "\<not> cn_stopped n' \<Longrightarrow> raft_log (cn_state n') = disk_log n'"
      "role_of (cn_state n') = Leader" "current_term (cn_state n') = ?t" "commit_index (cn_state n') = commit_index (cn_state ?n)"
      "match_index (cn_state n') = match_index (cn_state ?n)" "applied_log J (cn_disk n') = applied_log J (cn_disk ?n)"
    using st by (simp_all add: stores_def)
  obtain e where e: "wf_entry ?t (length ?l) e" "le_term e = ?t" "disk_log n' \<in> {?l, ?l @ [e]}" using st by (auto simp: stores_def)
  have ld': "prefix ?l (disk_log n')" using e(3) by auto
  have ex: "extends g L ?g L" using ld' lead(2) by (simp add: extends_def)
  have c: "consistent g L ?l" using o running_disk(1) [OF y] by (simp add: node_raft_def)
  have c': "consistent ?g L (disk_log n')"
  proof (cases "disk_log n' = ?l")
    case True
    then show ?thesis using consistent_mono [OF c ex] by simp
  next
    case False
    then have "disk_log n' = ?l @ [e]" using e(3) by simp
    moreover have "consistent (g(?t := ?l @ [e])) L (?l @ [e])" by (rule consistent_lead [OF c lead(2) _ e(2)]) (use lead(1) in simp)
    ultimately show ?thesis by simp
  qed
  have dt: "disk_term n' = ?t"
  proof -
    have "?t \<le> disk_term n'" using move_disk_term [OF mv] running_disk(2) [OF y] by simp
    moreover have "node_inv J n'" using mv by (simp add: voter_move_def voter_node_def)
    then have "disk_term n' \<le> ?t" using st'(5) meta_le_fst by (fastforce simp: node_inv_def disk_term_def mem_meta_def)
    ultimately show ?thesis by simp
  qed
  have old: "own_entry g u k \<and> acked V s g L j u k \<or> j = i \<and> u = ?t" if "own_entry ?g u k" "acked V s' ?g L j u k" for j u k
  proof (cases "k \<le> length (g u)")
    case True
    have "acked V s g L j u k" using that(2) True unfolding acked_def cs(3) by blast
    with own_entry_old [OF that(1) ex True] show ?thesis by blast
  next
    case False
    then have u: "u = ?t" using that(1) by (auto simp: own_entry_def split: if_splits)
    have "L u = Some j" by (rule acks_known [OF inv, of ?g]) (use that(2) False acked_same [OF cs(3)] in auto)
    with u lead(1) show ?thesis by simp
  qed
  have gr: "raft_grows V i s g L s' ?g L"
  proof -
    have "own_entry g u k \<and> acked V s g L j u k \<or> j = i \<and> disk_term (cs_nodes s' i) = u" if "own_entry ?g u k \<and> acked V s' ?g L j u k" for j u k
      using old that dt cs(1) by fastforce
    moreover have "disk_term (cs_nodes s j) \<le> disk_term (cs_nodes s' j)" for j using move_disk_term [OF mv] cs(1) by simp
    ultimately show ?thesis unfolding raft_grows_def cs(2,3,6) using ex by blast
  qed
  have n': "node_raft J V s' ?g L i n'"
  proof -
    have tk: "take (commit_index (cn_state ?n)) (raft_log (cn_state n')) = take (commit_index (cn_state ?n)) ?l"
      using st'(1) sync_log(3) [OF y] by (auto simp: prefix_def)
    have le: "commit_index (cn_state ?n) \<le> length (raft_log (cn_state n'))" using st'(1) sync_log(3) [OF y] prefix_length_le by fastforce
    have "safe_log V s' ?g L (take (commit_index (cn_state ?n)) ?l)" "safe_log V s' ?g L (applied_log J (cn_disk ?n))"
      using o safe_log_mono [OF _ ex] cs(3) by (auto simp: node_raft_def)
    moreover have "u \<le> disk_term n'" if "L u = Some i" for u using o that move_disk_term [OF mv] by (fastforce simp: node_raft_def)
    ultimately show ?thesis unfolding node_raft_def st'(5,6,8) tk using c' st' le lead(1) by simp
  qed
  have "raft_inv J V s' ?g L"
  proof (rule raft_step [OF sys(2) inv gr cs(1)])
    show "?g u = []" if "L u = None" for u using that raft_invD(13) [OF inv] lead(1) by auto
    show "wf_log u (?g u)" for u using raft_invD(11) [OF inv] sync_log(2) [OF y] e by (auto simp: wf_log_snoc)
    show "consistent ?g L (?g u)" for u using consistent_mono [OF _ ex] c' raft_invD(12) [OF inv] by simp
    show "?g (current_term (cn_state (cs_nodes s j))) = g (current_term (cn_state (cs_nodes s j)))"
      if "j \<noteq> i" "role_of (cn_state (cs_nodes s j)) = Leader" "j \<in> voters V" for j
      using raft_invD(4) [OF inv that(3)] that(1,2) lead(1) by (auto simp: node_raft_def)
    show "asks_ok s' ?g L" using raft_invD(2) [OF inv] asked_ok_mono [OF _ ex] unfolding asks_ok_def cs by blast
    show "node_raft J V s' ?g L i n' \<and> match_ok V s' i n' \<and> (\<forall>el. cs_elections s' i = Some el \<longrightarrow> tally_raft s' i el n')"
      using n' raft_invD(6) [OF inv i] st' cs(3) ld by (auto simp: match_ok_def tally_raft_def)
    show "prefix (take k (g u)) (disk_log n') \<or> barred V s' ?g L u k" if "prefix (take k (g u)) (disk_log ?n)" for u k
      using that ld' running_disk(1) [OF y] prefix_order.trans by metis
    show "prefix (take k (?g u)) (disk_log n')" if "own_entry ?g u k" "acked V s' ?g L i u k" "\<not> (own_entry g u k \<and> acked V s g L i u k)" for u k
      using old [OF that(1,2)] that(3) take_is_prefix by auto
  qed (use cs voted_same [OF cs(6)] in auto)
  with ex show ?thesis by blast
qed
section \<open>Committing\<close>

text \<open>The followers that a leader counts have acknowledged its log.\<close>

lemma counted_majority:
  assumes sys: "sys_inv J V s" and inv: "raft_inv J V s g L" and i: "i \<in> voters V"
    and ld: "role_of (cn_state (cs_nodes s i)) = Leader" and up: "\<not> cn_stopped (cs_nodes s i)" and c: "0 < c" "committable (cn_state (cs_nodes s i)) c"
  shows "committed V s g L (current_term (cn_state (cs_nodes s i))) c"
proof -
  let ?st = "cn_state (cs_nodes s i)"
  let ?t = "current_term ?st" and ?l = "raft_log ?st"
  let ?A = "{a \<in> set (voter_peers ?st). c \<le> (case match_index ?st a of None \<Rightarrow> 0 | Some m \<Rightarrow> m)}"
  let ?Q = "{j. j \<noteq> i \<and> (\<exists>a \<in> ?A. btm_get V j = Some a)}"
  have v: "voter_node J V i (cs_nodes s i)" by (rule sys_inv_node [OF sys i])
  then have vc: "voter_config V i (cn_config (cs_nodes s i))" and mem: "mem_ok V i ?st" by (simp_all add: voter_node_def)
  note vp = voter_peers_ok [OF mem] and V = conjunct2 [OF config_voters_ok [OF vc]]
  have lead: "L ?t = Some i" "g ?t = ?l" using raft_invD(4) [OF inv i] ld up by (simp_all add: node_raft_def)
  have cl: "c \<le> length ?l" "le_term (?l ! (c - 1)) = ?t" using c by (auto simp: committable_def nth_opt_def split: if_splits)
  have own: "own_entry g ?t c" using lead(2) cl c(1) by (simp add: own_entry_def)
  have QV: "?Q \<subseteq> voters V" by (auto simp: voters_iff)
  have fin: "finite ?Q" by (rule finite_subset [OF QV finite_voters])
  have "?A \<subseteq> (\<lambda>j. the (btm_get V j)) ` ?Q"
  proof
    fix a assume a: "a \<in> ?A"
    then obtain j where j: "j \<noteq> i" "btm_get V j = Some a" using vp by (auto simp: peers_of_def)
    have "j \<in> ?Q" using a j by blast
    moreover have "a = the (btm_get V j)" using j(2) by simp
    ultimately show "a \<in> (\<lambda>j. the (btm_get V j)) ` ?Q" by (rule rev_image_eqI)
  qed
  then have "card ?A \<le> card ?Q" by (rule surj_card_le [OF fin])
  moreover have "length (filter (\<lambda>p. c \<le> (case match_index ?st p of None \<Rightarrow> 0 | Some m \<Rightarrow> m)) (voter_peers ?st)) = card ?A"
    using vp distinct_card [of "filter (\<lambda>p. c \<le> (case match_index ?st p of None \<Rightarrow> 0 | Some m \<Rightarrow> m)) (voter_peers ?st)"] by simp
  moreover have "length (voter_peers ?st) + 1 = length V"
  proof -
    have "card (set (voter_peers ?st)) = length (voter_peers ?st)" by (rule distinct_card) (use vp in blast)
    moreover have "btm_ok V" "distinct (map snd V)" "btm_get V i = Some (advertised (cn_config (cs_nodes s i)))" using V by blast+
    note card_peers_of [OF this]
    ultimately show ?thesis using vp by argo
  qed
  ultimately have "length V div 2 + 1 \<le> 1 + card ?Q" using c(2) by (simp add: committable_def replication_count_def)
  then have "length V < 2 * card (insert i ?Q)" using fin by simp
  then have maj: "majority V (insert i ?Q)" using QV i by (simp add: majority_def)
  have "acked V s g L j ?t c" if j: "j \<in> insert i ?Q" for j
  proof (cases "j = i")
    case True
    with lead cl show ?thesis by (simp add: acked_def)
  next
    case False
    with j obtain a where a: "btm_get V j = Some a" "c \<le> (case match_index ?st a of None \<Rightarrow> 0 | Some m \<Rightarrow> m)" by blast
    then obtain m where m: "match_index ?st a = Some m" "c \<le> m" using c(1) by (auto split: option.splits)
    then obtain req resp where q: "(a, req, resp) \<in> cs_acks s" "as_success resp" "ar_term req = ?t" "matched_index req = m"
      using raft_invD(6) [OF inv i] ld a(1) False c(1) unfolding match_ok_def by (metis less_le_trans)
    have "c \<le> matched_end req" using raft_invD(9) [OF inv q(1,2)] q(4) m(2) by (simp add: ack_ok_def)
    with q a(1) lead cl show ?thesis unfolding acked_def by auto
  qed
  with own maj show ?thesis unfolding committed_def by blast
qed

lemma commit_raft:
  assumes sys: "sys_inv J V s" "sys_inv J V s'" and inv: "raft_inv J V s g L" and i: "i \<in> voters V" and mk: "marker_ok J"
    and s': "s' = set_node i (snd (update_commit_index J (cs_nodes s i))) s"
  shows "raft_inv J V s' g L"
proof (cases "cn_stopped (cs_nodes s i) \<or> role_of (cn_state (cs_nodes s i)) \<noteq> Leader")
  case True
  then have "snd (update_commit_index J (cs_nodes s i)) = cs_nodes s i" by (auto simp: update_commit_index_def)
  then show ?thesis
    by (intro raft_calm [OF sys(2) inv i conjunct1 [OF sys_inv_self [OF sys(1) i]]]) (use s' in \<open>auto simp: no_candidate_def same_election_def\<close>)
next
  case False
  let ?n = "cs_nodes s i"
  let ?c = "highest_committable (cn_state ?n)" and ?l = "raft_log (cn_state ?n)"
  have v: "voter_node J V i ?n" by (rule sys_inv_node [OF sys(1) i])
  have up: "\<not> cn_stopped ?n" and ld: "role_of (cn_state ?n) = Leader" using False by auto
  note y = voter_running [OF v up]
  obtain r n' where h: "update_commit_index J ?n = (r, n')" by fastforce
  have ap: "apply_committed J (set_state ((cn_state ?n)\<lparr>commit_index := ?c\<rparr>) ?n) = (r, n')" using h False by (simp add: update_commit_index_def)
  have mv: "voter_move J V i ?n n'" using commit_move [OF v mk] h by simp
  have cs: "cs_nodes s' = (cs_nodes s)(i := n')" "cs_asked s' = cs_asked s" "cs_acks s' = cs_acks s" "cs_elections s' = cs_elections s"
      "cs_appends s' = cs_appends s" "cs_votes s' = cs_votes s" using s' h by simp_all
  note hc = conjunct1 [OF highest_committable_ok [OF HOL.refl, of "cn_state ?n"]]
  have idx: "last_log_index (cn_state ?n) = length ?l" using wf_last_index sync_log(2) [OF y] by blast
  have b: "commit_index (cn_state ?n) \<le> ?c" "?c \<le> length ?l" using hc idx sync_log(3) [OF y] by auto
  note cl = commit_logs [OF y up mk b ap]
  obtain a where a: "cn_state n' = (cn_state ?n)\<lparr>commit_index := ?c, last_applied := a\<rparr>" using apply_committed_state [OF ap] by auto
  have o: "node_raft J V s g L i ?n" by (rule raft_invD(4) [OF inv i])
  have lead: "g (current_term (cn_state ?n)) = ?l" using o ld up by (simp add: node_raft_def)
  have safe: "safe_log V s g L (take ?c ?l)"
  proof (cases "?c = commit_index (cn_state ?n)")
    case True
    then show ?thesis using o by (simp add: node_raft_def)
  next
    case False
    then have "0 < ?c" "committable (cn_state ?n) ?c" using hc by auto
    from counted_majority [OF sys(1) inv i ld up this] lead show ?thesis unfolding safe_log_def by (metis prefix_order.refl)
  qed
  have gr: "raft_grows V i s g L s' g L" by (rule move_grows [OF mv cs(1)]) (use cs in simp_all)
  have st: "cn_stopped ?n \<longrightarrow> cn_stopped n'" using up by simp
  have n': "node_raft J V s' g L i n'"
  proof -
    have "u \<le> disk_term n'" if "L u = Some i" for u using o that move_disk_term [OF mv] by (fastforce simp: node_raft_def)
    moreover have "safe_log V s g L (applied_log J (cn_disk n'))" using safe_log_prefix [OF safe] cl by blast
    ultimately show ?thesis unfolding node_raft_def safe_same [OF cs(3)] using o a cl b safe ld up by (auto simp: node_raft_def)
  qed
  show ?thesis
  proof (rule raft_step [OF sys(2) inv gr cs(1) raft_invD(13,11,12) [OF inv]])
    show "node_raft J V s' g L i n' \<and> match_ok V s' i n' \<and> (\<forall>el. cs_elections s' i = Some el \<longrightarrow> tally_raft s' i el n')"
      using n' raft_invD(6) [OF inv i] a cs(3) ld by (auto simp: match_ok_def tally_raft_def)
    show "asks_ok s' g L" using raft_invD(2) [OF inv] asks_same [OF cs(2,6)] by simp
  qed (use cs cl voted_same [OF cs(6)] acked_same [OF cs(3)] in auto)
qed
section \<open>Messages to and from the followers\<close>

lemma within_budget_prefix: "prefix (within_budget J b es) es"
  by (induction J b es rule: within_budget.induct) (auto simp: Let_def)

lemma wf_from:
  assumes "wf_log t l"
  shows "filter (\<lambda>e. k \<le> le_index e) l = drop (k - 1) l"
  using assms
proof (induction l rule: rev_induct)
  case (snoc e l)
  then have "le_index e = length l + 1" "wf_log t l" by (simp_all add: wf_log_snoc wf_entry_def)
  with snoc.IH show ?case by (auto simp: le_diff_conv)
qed simp

lemma wf_log_prefix: "wf_log t l \<Longrightarrow> prefix p l \<Longrightarrow> wf_log t p"
  using wf_log_take [of t l "length p"] by (auto simp: prefix_def)

lemma send_raft:
  assumes v: "voter_node J V i n" and o: "node_raft J V s g L i n" and wf: "\<And>t. wf_log t (g t)" and h: "append_request_to J peer n = Some req"
  shows "append_ok V s g L req"
proof -
  let ?st = "cn_state n"
  let ?l = "raft_log ?st" and ?t = "current_term ?st" and ?p = "ar_prev_log_index req" and ?es = "ar_entries req"
  have ld: "role_of ?st = Leader" using h by (auto simp: append_request_to_def Let_def split: if_splits)
  let ?nx = "case next_index ?st peer of None \<Rightarrow> 1 | Some k \<Rightarrow> k"
  obtain nx where nx: "?p = nx - 1" "?es = within_budget J 0 (take MAX_APPEND_ENTRIES (filter (\<lambda>e. nx \<le> le_index e) ?l))"
      "ar_prev_log_term req = (if ?p > 0 then (case nth_opt ?l (?p - 1) of None \<Rightarrow> 0 | Some e \<Rightarrow> le_term e) else 0)"
      and req: "ar_term req = ?t" "ar_leader_commit req = commit_index ?st"
  proof (rule that [of ?nx])
    show "?p = ?nx - 1" using h by (auto simp: append_request_to_def Let_def split: if_splits)
  qed (use h in \<open>auto simp: append_request_to_def Let_def split: if_splits\<close>)
  have lead: "L ?t = Some i" "prefix ?l (g ?t)" "commit_index ?st \<le> length ?l" "safe_log V s g L (take (commit_index ?st) ?l)"
    using o ld by (simp_all add: node_raft_def)
  have "prefix ?es (take MAX_APPEND_ENTRIES (filter (\<lambda>e. nx \<le> le_index e) ?l))" unfolding nx(2) by (rule within_budget_prefix)
  then have es: "prefix ?es (drop ?p ?l)" using wf_from [OF wf_log_prefix [OF wf lead(2)], of nx] nx(1) prefix_order.trans take_is_prefix by metis
  have len: "length ?l \<le> length (g ?t)" using lead(2) by (rule prefix_length_le)
  have "0 < ?p \<and> ar_prev_log_term req = 0 \<or> ?p + length ?es \<le> length (g ?t) \<and> ?es = take (length ?es) (drop ?p (g ?t))
      \<and> (0 < ?p \<longrightarrow> ar_prev_log_term req = le_term (g ?t ! (?p - 1)))"
  proof (cases "?p \<le> length ?l")
    case False
    then have "0 < ?p" "nth_opt ?l (?p - 1) = None" by (auto simp: nth_opt_def)
    with nx(3) show ?thesis by simp
  next
    case True
    have "prefix ?es (drop ?p (g ?t))" using es lead(2) True by (auto simp: prefix_def)
    then have a: "?es = take (length ?es) (drop ?p (g ?t))" by (metis append_eq_conv_conj prefix_def)
    have "length ?es \<le> length ?l - ?p" using prefix_length_le [OF es] by simp
    then have b: "?p + length ?es \<le> length (g ?t)" using True len by linarith
    have c: "ar_prev_log_term req = le_term (g ?t ! (?p - 1))" if "0 < ?p"
    proof -
      have "?p - 1 < length ?l" using True that by linarith
      then show ?thesis using nx(3) that lead(2) by (auto simp: nth_opt_def prefix_def nth_append)
    qed
    from a b c show ?thesis by (intro disjI2 conjI impI)
  qed
  moreover have "ar_leader_id req = i" using send_ok [OF v h] by simp
  ultimately have "request_raft g L req" unfolding request_raft_def Let_def req(1) using lead(1) by blast
  moreover have "take (min (commit_index ?st) (matched_end req)) (g ?t) = take (min (commit_index ?st) (matched_end req)) ?l"
    using lead(2,3) by (auto simp: prefix_def)
  moreover have "prefix (take (min (commit_index ?st) (matched_end req)) ?l) (take (commit_index ?st) ?l)" by (metis take_is_prefix take_take min.commute)
  ultimately show ?thesis unfolding append_ok_def req using safe_log_prefix [OF lead(4)] lead(3) len by auto
qed

lemma ack_raft:
  assumes sys: "sys_inv J V s" "sys_inv J V s'" and inv: "raft_inv J V s g L" and i: "i \<in> voters V"
    and from_: "peer \<notin> snd ` set V \<or> (\<exists>req. (peer, req, resp) \<in> cs_acks s \<and> t = ar_term req \<and> m = matched_index req)"
    and s': "s' = set_node i (accept_append_response peer t p m resp (cs_nodes s i)) s"
  shows "raft_inv J V s' g L"
proof -
  let ?n = "cs_nodes s i" and ?n' = "accept_append_response peer t p m resp (cs_nodes s i)"
  have v: "voter_node J V i ?n" by (rule sys_inv_node [OF sys(1) i])
  note mv = conjunct1 [OF accept_move [OF v, of peer t p m resp]] and q = accept_quiet [of ?n peer t p m resp]
  have cs: "cs_nodes s' = (cs_nodes s)(i := ?n')" "cs_asked s' = cs_asked s" "cs_acks s' = cs_acks s" "cs_elections s' = cs_elections s"
      "cs_appends s' = cs_appends s" "cs_votes s' = cs_votes s" using s' by simp_all
  show ?thesis
  proof (cases "calm ?n ?n'")
    case True
    then show ?thesis by (intro raft_calm [OF sys(2) inv i mv q True accept_calm(1)]) (use cs in \<open>auto simp: same_election_def\<close>)
  next
    case False
    then have c: "role_of (cn_state ?n) = Leader" "role_of (cn_state ?n') = Leader" "current_term (cn_state ?n) = t" "current_term (cn_state ?n') = t"
        "cn_stopped ?n' = cn_stopped ?n" "as_success resp"
        "\<And>a. match_index (cn_state ?n') a = match_index (cn_state ?n) a \<or> a = peer \<and> match_index (cn_state ?n') a = Some m"
      using accept_calm(2) [of ?n peer t p m resp] unfolding Let_def by blast+
    have match: "match_ok V s' i ?n'" unfolding match_ok_def
    proof (intro impI allI, elim conjE)
      fix j a k assume j: "btm_get V j = Some a" "j \<noteq> i" "match_index (cn_state ?n') a = Some k" "0 < k"
      show "\<exists>req resp. (a, req, resp) \<in> cs_acks s' \<and> as_success resp \<and> ar_term req = current_term (cn_state ?n') \<and> matched_index req = k"
      proof (cases "match_index (cn_state ?n) a = Some k")
        case True
        then show ?thesis using raft_invD(6) [OF inv i] j c(1,3,4) unfolding match_ok_def cs(3) by auto
      next
        case False
        then have a: "a = peer" "k = m" using c(7) [of a] j(3) by auto
        have "a \<in> snd ` set V" using j(1) by (metis image_eqI map_of_SomeD snd_conv)
        then show ?thesis using from_ c(6) unfolding cs(3) c(4) a by blast
      qed
    qed
    show ?thesis
    proof (rule raft_quiet [OF sys(2) inv i mv q _ _ match _ cs(1)])
      show "tally_raft s' i el ?n'" for el using c(2) by (simp add: tally_raft_def)
      show "asks_ok s' g L" using raft_invD(2) [OF inv] asks_same [OF cs(2,6)] by simp
    qed (use c cs voted_same [OF cs(6)] in auto)
  qed
qed
section \<open>What a node does on its own\<close>

text \<open>The writes of a client and of the scheduler: nothing, or one proposal of a running leader.\<close>

definition proposes :: "cluster_json \<Rightarrow> cluster_node \<Rightarrow> cluster_node \<Rightarrow> bool" where
  "proposes J n n' \<longleftrightarrow> n' = n \<or> \<not> cn_stopped n \<and> role_of (cn_state n) = Leader
     \<and> (\<exists>key value extra. valid_keys key extra \<and> n' = snd (propose J key value extra n))"

lemma cas_proposes: "valid_keys key extra \<Longrightarrow> proposes J n (snd (cas_internal J key expected new extra t n))"
  by (auto simp: proposes_def cas_internal_def healthy_def split: prod.splits sum.splits) (metis prod.sel(2))+

lemma local_proposes:
  "proposes J n (snd (put_with J key value extra n))"
  "proposes J n (snd (cas_with J key expected new extra n))"
  "proposes J n (snd (scheduler_cas J t key expected new n))"
  "proposes J n (snd (scheduler_barrier J t n))"
proof -
  show "proposes J n (snd (put_with J key value extra n))" by (auto simp: proposes_def put_with_def healthy_def client_keys_def)
  show "proposes J n (snd (cas_with J key expected new extra n))"
    using cas_proposes [of key extra J n expected new None] by (auto simp: cas_with_def healthy_def client_keys_def) (simp_all add: proposes_def)
  show "proposes J n (snd (scheduler_cas J t key expected new n))"
    using cas_proposes [OF scheduler_keys, of key J n expected new "Some t"] by (auto simp: scheduler_cas_def) (simp_all add: proposes_def)
  have "valid_keys ''scheduler/barrier'' []" by (rule scheduler_keys) (simp add: scheduler_key_def starts_with_def)
  then show "proposes J n (snd (scheduler_barrier J t n))" by (auto simp: proposes_def scheduler_barrier_def healthy_def)
qed

lemma same_raft:
  assumes "sys_inv J V s" "raft_inv J V s g L" "i \<in> voters V"
  shows "raft_inv J V (set_node i (cs_nodes s i) s) g L"
proof -
  have e: "set_node i (cs_nodes s i) s = s" by (simp add: set_node_def)
  show ?thesis unfolding e by (rule assms(2))
qed

lemma proposes_raft:
  assumes sys: "sys_inv J V s" "sys_inv J V (set_node i n' s)" and inv: "raft_inv J V s g L" and i: "i \<in> voters V" and mk: "marker_ok J"
    and p: "proposes J (cs_nodes s i) n'"
  shows "\<exists>g' L'. raft_inv J V (set_node i n' s) g' L' \<and> extends g L g' L'"
proof (cases "n' = cs_nodes s i")
  case True
  with same_raft [OF sys(1) inv i] show ?thesis using extends_refl by blast
next
  case False
  with p obtain key val extra where n: "\<not> cn_stopped (cs_nodes s i)" "role_of (cn_state (cs_nodes s i)) = Leader" "valid_keys key extra"
    "n' = snd (propose J key val extra (cs_nodes s i))" unfolding proposes_def by blast
  note v = sys_inv_node [OF sys(1) i]
  show ?thesis unfolding n(4)
    by (rule store_raft [OF sys(1) _ inv i n(1,2) conjunct1 [OF propose_move [OF v mk n(1-3)]] propose_stores [OF v mk n(1-3)] HOL.refl])
      (use sys(2) n(4) in simp)
qed

lemma members_calm:
  "calm n (snd (handle_join j a l n)) \<and> no_candidate n (snd (handle_join j a l n))"
  "calm n (snd (handle_leave j n)) \<and> no_candidate n (snd (handle_leave j n))"
  "calm n (n\<lparr>cn_stopped := True\<rparr>) \<and> no_candidate n (n\<lparr>cn_stopped := True\<rparr>)"
  by (auto simp: calm_def no_candidate_def handle_join_def handle_leave_def add_peer_def remove_peer_def persist_peers_def durable_def Let_def healthy_def
      split: sum.splits prod.splits if_splits option.splits list.splits io_outcome.splits)

lemma local_raft:
  assumes sys: "sys_inv J V s" "sys_inv J V s'" and inv: "raft_inv J V s g L" and i: "i \<in> voters V" and mk: "marker_ok J" and ok: "local_ok V act"
    and s': "s' = set_node i (run_local J act (cs_nodes s i)) s"
  shows "\<exists>g' L'. raft_inv J V s' g' L' \<and> extends g L g' L'"
proof -
  note v = sys_inv_node [OF sys(1) i]
  have calm: "raft_inv J V s' g L" if "calm (cs_nodes s i) n' \<and> no_candidate (cs_nodes s i) n'" "quiet (cs_nodes s i) n'" "run_local J act (cs_nodes s i) = n'" for n'
    by (rule raft_calm [OF sys(2) inv i conjunct1 [OF local_move [OF v mk, of act]]]) (use that s' in \<open>auto simp: same_election_def\<close>)
  note pr = proposes_raft [OF sys(1) sys(2) [unfolded s'] inv i mk, folded s']
  have "proposes J (cs_nodes s i) (run_local J act (cs_nodes s i)) \<or> raft_inv J V s' g L"
  proof (cases act)
    case (JoinOp j a l)
    then show ?thesis using calm [OF members_calm(1) join_quiet] by simp
  next
    case (LeaveOp j)
    then show ?thesis using calm [OF members_calm(2) leave_quiet] by simp
  next
    case StopOp
    then show ?thesis using calm [OF members_calm(3)] by (simp add: quiet_def)
  next
    case CommitOp
    then show ?thesis using commit_raft [OF sys inv i mk] s' by simp
  next
    case (LearnerAckOp peer t p m resp)
    then show ?thesis using ack_raft [OF sys inv i, of peer resp t m p] s' ok by simp
  qed (simp_all add: local_proposes)
  then show ?thesis using pr extends_refl by blast
qed

end
