(* ===== verification/Raft_Follow.thy ===== *)
theory Raft_Follow
  imports Raft_Lead
begin

text \<open>A follower that receives entries, a node that starts again from its disk, and whole runs.\<close>

section \<open>Receiving entries\<close>

lemma append_refused: "cn_stopped n \<or> ar_term req < current_term (cn_state n) \<Longrightarrow> handle_append_entries J req n = append_reject n"
  by (auto simp: handle_append_entries_def)

lemma matched_ends:
  assumes "wf_log t lead" "ar_entries req = take (length (ar_entries req)) (drop (ar_prev_log_index req) lead)" "matched_end req \<le> length lead"
  shows "matched_index req = matched_end req"
proof (cases "ar_entries req = []")
  case False
  let ?k = "length (ar_entries req) - 1" and ?p = "ar_prev_log_index req"
  have k: "?k < length (ar_entries req)" "?p + ?k < length lead"
    using assms(3) length_greater_0_conv [of "ar_entries req"] False unfolding matched_end_def by linarith+
  have "last (ar_entries req) = ar_entries req ! ?k" using False by (rule last_conv_nth)
  also have "\<dots> = take (length (ar_entries req)) (drop ?p lead) ! ?k" by (rule arg_cong [OF assms(2), of "\<lambda>x. x ! ?k"])
  also have "\<dots> = lead ! (?p + ?k)" using k by simp
  finally have "le_index (last (ar_entries req)) = ?p + ?k + 1" using assms(1) k(2) by (simp add: wf_log_def wf_entry_def)
  then show ?thesis using False k(1) by (simp add: matched_index_def matched_end_def)
qed (simp add: matched_index_def matched_end_def)

text \<open>What a success of the handler promises.\<close>

lemma receive_success:
  assumes v: "voter_node J V i n" and mk: "marker_ok J" and inv: "raft_inv J V s g L" and o: "node_raft J V s g L i n" and q: "request_raft g L req"
    and h: "handle_append_entries J req n = (Inr resp, n')" and ok: "as_success resp"
  shows "ack_ok g L req \<and> disk_term n' = ar_term req \<and> take (matched_end req) (disk_log n') = take (matched_end req) (g (ar_term req))"
proof -
  have up: "\<not> cn_stopped n" using h ok append_refused [of n req J] by (auto simp: append_reject_def)
  note y = voter_running [OF v up]
  have c: "consistent g L (raft_log (cn_state n))" using o running_disk(1) [OF y] by (simp add: node_raft_def)
  note a = handle_append_ok [OF voter_nodeD [OF v] mk h]
  have a': "\<not> cn_stopped n'" "prev_ok (cn_state n) req" "current_term (cn_state n') = ar_term req" "node_inv J n'"
    using a ok by (auto simp: replicated_def good_step_def)
  note rp = request_prev [OF q a'(2) sync_log(2) [OF y] c raft_invD(12) [OF inv]]
  have me: "matched_index req = matched_end req" using matched_ends [OF raft_invD(11) [OF inv]] rp by blast
  have "L (ar_term req) \<noteq> None" using q by (simp add: request_raft_def)
  with rp me have "ack_ok g L req" by (simp add: ack_ok_def)
  moreover have "disk_term n' = ar_term req" using running_disk(2) [OF running_sync [OF a'(4,1)]] a'(3) by simp
  moreover have "take (matched_end req) (disk_log n') = take (matched_end req) (g (ar_term req))"
    using handle_append_logs [OF voter_nodeD [OF v] up mk q c raft_invD(12) [OF inv] h] ok by blast
  ultimately show ?thesis by blast
qed

text \<open>Acknowledged entries stay, unless they are barred.\<close>

lemma receive_keep:
  assumes v: "voter_node J V i n" and mk: "marker_ok J" and inv: "raft_inv J V s g L" and o: "node_raft J V s g L i n" and q: "request_raft g L req"
    and h: "handle_append_entries J req n = (r, n')" and own: "own_entry g u k" and p: "prefix (take k (g u)) (disk_log n)"
  shows "prefix (take k (g u)) (disk_log n') \<or> barred V s g L u k"
proof (cases "cn_stopped n \<or> ar_term req < current_term (cn_state n)")
  case True
  then have "n' = n" using h append_refused [OF True, of J] by (simp add: append_reject_def)
  with p show ?thesis by simp
next
  case False
  then have up: "\<not> cn_stopped n" and le: "current_term (cn_state n) \<le> ar_term req" by auto
  note y = voter_running [OF v up]
  have c: "consistent g L (raft_log (cn_state n))" using o running_disk(1) [OF y] by (simp add: node_raft_def)
  note f = conjunct1 [OF handle_append_logs [OF voter_nodeD [OF v] up mk q c raft_invD(12) [OF inv] h]]
  have k: "keeps (g (ar_term req)) (commit_index (cn_state n)) (raft_log (cn_state n)) (disk_log n')" using f by (simp add: follower_logs_def Let_def)
  have pl: "prefix (take k (g u)) (raft_log (cn_state n))" using p running_disk(1) [OF y] by simp
  have "u \<le> current_term (cn_state n)"
  proof -
    have kk: "0 < k" "k \<le> length (g u)" "le_term (g u ! (k - 1)) = u" using own by (simp_all add: own_entry_def)
    have "wf_log (current_term (cn_state n)) (take k (g u))" by (rule wf_log_prefix [OF sync_log(2) [OF y] pl])
    moreover have "k - 1 < length (take k (g u))" using kk by simp
    ultimately have "le_term (take k (g u) ! (k - 1)) \<le> current_term (cn_state n)" unfolding wf_log_def wf_entry_def by blast
    with kk show ?thesis by simp
  qed
  with le have u: "u \<le> ar_term req" by simp
  have "prefix (take k (g u)) (g (ar_term req)) \<or> barred V s g L u k"
  proof (cases "u = ar_term req")
    case True
    then show ?thesis using take_is_prefix by blast
  next
    case False
    with u have "u < ar_term req" by simp
    moreover have "L (ar_term req) \<noteq> None" using q by (simp add: request_raft_def)
    ultimately show ?thesis using raft_invD(3) [OF inv] own unfolding complete_def by blast
  qed
  with k pl show ?thesis unfolding keeps_def by blast
qed

lemma receive_node:
  assumes v: "voter_node J V i n" and mk: "marker_ok J" and inv: "raft_inv J V s g L" and o: "node_raft J V s g L i n" and q: "append_ok V s g L req"
    and h: "handle_append_entries J req n = (r, n')" and mv: "voter_move J V i n n'"
  shows "node_raft J V s g L i n'"
proof (cases "cn_stopped n \<or> ar_term req < current_term (cn_state n)")
  case True
  then have "n' = n" using h append_refused [OF True, of J] by (simp add: append_reject_def)
  with o show ?thesis by simp
next
  case False
  then have up: "\<not> cn_stopped n" by simp
  have q': "request_raft g L req" using q by (simp add: append_ok_def)
  note y = voter_running [OF v up]
  have c: "consistent g L (raft_log (cn_state n))" using o running_disk(1) [OF y] by (simp add: node_raft_def)
  let ?c' = "commit_index (cn_state n')" and ?l' = "raft_log (cn_state n')"
  have f: "consistent g L (disk_log n')" "?c' \<le> length ?l'"
      "take ?c' ?l' \<in> {take (commit_index (cn_state n)) (raft_log (cn_state n)), take (min (ar_leader_commit req) (matched_end req)) (g (ar_term req))}"
      "applied_log J (cn_disk n') = applied_log J (cn_disk n) \<or> prefix (applied_log J (cn_disk n')) (take ?c' ?l')"
    using conjunct1 [OF handle_append_logs [OF voter_nodeD [OF v] up mk q' c raft_invD(12) [OF inv] h]]
    unfolding follower_logs_def Let_def by blast+
  have "safe_log V s g L (take ?c' ?l')"
  proof -
    have "safe_log V s g L (take (commit_index (cn_state n)) (raft_log (cn_state n)))" using o unfolding node_raft_def by blast
    moreover have "safe_log V s g L (take (min (ar_leader_commit req) (matched_end req)) (g (ar_term req)))" using q by (simp add: append_ok_def)
    ultimately show ?thesis using f(3) by (elim insertE emptyE) (simp_all only:)
  qed
  moreover have "safe_log V s g L (applied_log J (cn_disk n'))" using f(4) o calculation safe_log_prefix unfolding node_raft_def by metis
  moreover have "u \<le> disk_term n'" if "L u = Some i" for u using o that move_disk_term [OF mv] by (fastforce simp: node_raft_def)
  ultimately show ?thesis using f(1,2) handle_append_role [OF h] o unfolding node_raft_def by auto
qed

lemma receive_raft:
  assumes sys: "sys_inv J V s" "sys_inv J V s'" and inv: "raft_inv J V s g L" and addr: "btm_get V i = Some addr" and mk: "marker_ok J"
    and req: "(addr, req) \<in> cs_appends s" and h: "handle_append_entries J req (cs_nodes s i) = (Inr resp, n')"
    and s': "s' = set_node i n' (s\<lparr>cs_acks := insert (addr, req, resp) (cs_acks s)\<rparr>)"
  shows "raft_inv J V s' g L"
proof -
  let ?n = "cs_nodes s i"
  have i: "i \<in> voters V" using addr by (simp add: voters_iff)
  have v: "voter_node J V i ?n" by (rule sys_inv_node [OF sys(1) i])
  have ro: "request_ok V req" using sys(1) req by (auto simp: sys_inv_def)
  have mv: "voter_move J V i ?n n'" using append_move [OF v mk ro h] by blast
  have q: "append_ok V s g L req" by (rule raft_invD(8) [OF inv req])
  then have q': "request_raft g L req" by (simp add: append_ok_def)
  note o = raft_invD(4) [OF inv i]
  have cs: "cs_nodes s' = (cs_nodes s)(i := n')" "cs_asked s' = cs_asked s" "cs_acks s' = insert (addr, req, resp) (cs_acks s)"
      "cs_elections s' = cs_elections s" "cs_appends s' = cs_appends s" "cs_votes s' = cs_votes s" using s' by simp_all
  have sub: "cs_acks s \<subseteq> cs_acks s'" using cs(3) by blast
  note ok = receive_success [OF v mk inv o q' h]
  have V: "btm_ok V" "distinct (map snd V)" using v voter_distinct by (auto simp: voter_node_def)
  have new: "acked V s g L j u k \<or> j = i \<and> as_success resp \<and> u = ar_term req \<and> k \<le> matched_end req" if "acked V s' g L j u k" for j u k
    using that members_inj [OF V addr] unfolding acked_def cs(3) by blast
  have gr: "raft_grows V i s g L s' g L"
  proof -
    have "own_entry g u k \<and> acked V s g L j u k \<or> j = i \<and> disk_term (cs_nodes s' i) = u" if "own_entry g u k \<and> acked V s' g L j u k" for j u k
      using new [of j u k] that ok cs(1) by auto
    moreover have "disk_term (cs_nodes s j) \<le> disk_term (cs_nodes s' j)" for j using move_disk_term [OF mv] cs(1) by simp
    ultimately show ?thesis unfolding raft_grows_def cs(2,6) using sub by simp
  qed
  have n': "node_raft J V s' g L i n'"
    using receive_node [OF v mk inv o q h mv] safe_log_mono [OF _ extends_refl sub] unfolding node_raft_def by blast
  show ?thesis
  proof (rule raft_step [OF sys(2) inv gr cs(1) raft_invD(13,11,12) [OF inv]])
    have m: "match_ok V s i n'" and e: "\<forall>el. cs_elections s' i = Some el \<longrightarrow> tally_raft s' i el n'"
      using handle_append_role [OF h] raft_invD(6,7) [OF inv i] cs(4) by (auto simp: match_ok_def tally_raft_def)
    have "match_ok V s' i n'" using m sub unfolding match_ok_def by blast
    with n' e show "node_raft J V s' g L i n' \<and> match_ok V s' i n' \<and> (\<forall>el. cs_elections s' i = Some el \<longrightarrow> tally_raft s' i el n')" by blast
    show "prefix (take k (g u)) (disk_log n') \<or> barred V s' g L u k" if "own_entry g u k" "prefix (take k (g u)) (disk_log ?n)" for u k
      using receive_keep [OF v mk inv o q' h that] barred_mono [OF _ that(1) gr] by blast
    show "prefix (take k (g u)) (disk_log n')" if a: "own_entry g u k" "acked V s' g L i u k" "\<not> (own_entry g u k \<and> acked V s g L i u k)" for u k
    proof -
      have n: "as_success resp" "u = ar_term req" "k \<le> matched_end req" using new [OF a(2)] a(1,3) by blast+
      have "take k (g u) = take k (take (matched_end req) (g (ar_term req)))" using n(2,3) by (simp add: min_def)
      also have "\<dots> = take k (take (matched_end req) (disk_log n'))" using ok [OF n(1)] by simp
      also have "\<dots> = take k (disk_log n')" using n(3) by (simp add: min_def)
      finally show ?thesis using take_is_prefix by metis
    qed
    show "asks_ok s' g L" using raft_invD(2) [OF inv] asks_same [OF cs(2,6)] by simp
  qed (use cs voted_same [OF cs(6)] ok in auto)
qed
section \<open>Restarts\<close>

lemma new_fixed_start:
  assumes "new_fixed J cfg io d = Inr n"
  shows "commit_index (cn_state n) = last_applied (cn_state n) \<and> role_of (cn_state n) = Follower \<and> \<not> cn_stopped n
    \<and> nd_log (cn_disk n) = nd_log d \<and> nd_data (cn_disk n) = nd_data d"
  using assms by (auto simp: new_fixed_def cluster_new_def Let_def raft_state_new_def bind_res_def split: sum.splits if_splits option.splits)

lemma restart_raft:
  assumes sys: "sys_inv J V s" "sys_inv J V s'" and inv: "raft_inv J V s g L" and i: "i \<in> voters V" and mk: "marker_ok J"
    and c: "voter_config V i cfg" and h: "new_fixed J cfg io (cn_disk (cs_nodes s i)) = Inr n'" and s': "s' = set_election i None (set_node i n' s)"
  shows "raft_inv J V s' g L"
proof -
  let ?n = "cs_nodes s i"
  have v: "voter_node J V i ?n" by (rule sys_inv_node [OF sys(1) i])
  have mv: "voter_move J V i ?n n'" using restart_move [OF v mk c, of io] h by auto
  note st = new_fixed_start [OF h]
  have v': "voter_node J V i n'" using mv by (simp add: voter_move_def)
  note y = voter_running [OF v' conjunct1 [OF conjunct2 [OF conjunct2 [OF st]]]]
  have cs: "cs_nodes s' = (cs_nodes s)(i := n')" "cs_asked s' = cs_asked s" "cs_acks s' = cs_acks s" "cs_elections s' = (cs_elections s)(i := None)"
      "cs_appends s' = cs_appends s" "cs_votes s' = cs_votes s" using s' by simp_all
  have d: "disk_log n' = disk_log ?n" "applied_log J (cn_disk n') = applied_log J (cn_disk ?n)"
    using st by (simp_all add: disk_log_def applied_log_def applied_len_def)
  have "applied_log J (cn_disk n') = take (commit_index (cn_state n')) (raft_log (cn_state n'))"
    using sync_applied y mk st by (simp add: in_sync_def)
  note al = this [symmetric]
  note o = raft_invD(4) [OF inv i]
  have n': "node_raft J V s' g L i n'"
  proof -
    have "u \<le> disk_term n'" if "L u = Some i" for u using o that move_disk_term [OF mv] by (fastforce simp: node_raft_def)
    moreover have "role_of (cn_state n') = Follower" using st by blast
    ultimately show ?thesis unfolding node_raft_def al d safe_same [OF cs(3)] using o sync_log(3) [OF y] by (simp add: node_raft_def)
  qed
  have gr: "raft_grows V i s g L s' g L" by (rule move_grows [OF mv cs(1)]) (use cs in simp_all)
  show ?thesis
  proof (rule raft_step [OF sys(2) inv gr cs(1) raft_invD(13,11,12) [OF inv]])
    show "node_raft J V s' g L i n' \<and> match_ok V s' i n' \<and> (\<forall>el. cs_elections s' i = Some el \<longrightarrow> tally_raft s' i el n')"
      using n' st cs(4) by (simp add: match_ok_def)
    show "asks_ok s' g L" using raft_invD(2) [OF inv] asks_same [OF cs(2,6)] by simp
  qed (use cs d voted_same [OF cs(6)] acked_same [OF cs(3)] in auto)
qed

section \<open>Runs\<close>

lemma step_raft:
  assumes st: "cluster_step J V s s'" and sys: "sys_inv J V s" and inv: "raft_inv J V s g L" and mk: "marker_ok J"
  shows "\<exists>g' L'. raft_inv J V s' g' L' \<and> extends g L g' L'"
proof -
  have sys': "sys_inv J V s'" by (rule step_inv [OF st sys mk])
  have same: ?thesis if "raft_inv J V s' g L" using that extends_refl by blast
  show ?thesis using st
  proof (cases rule: cluster_step.cases)
    case (local i act)
    then show ?thesis using local_raft [OF sys sys' inv _ mk local(3,1)] by (simp add: voters_iff)
  next
    case (restart i cfg io n)
    then show ?thesis using restart_raft [OF sys sys' inv _ mk restart(3,4,1)] same by (simp add: voters_iff)
  next
    case (campaign_lost i n)
    then show ?thesis using campaign_lost_raft [OF sys sys' inv _ campaign_lost(4,5,1)] same by (simp add: voters_iff)
  next
    case (campaign i el n)
    then show ?thesis using campaign_raft [OF sys sys' inv _ campaign(5,1)] same by (simp add: voters_iff)
  next
    case (vote i req resp n)
    then show ?thesis using vote_raft [OF sys sys' inv _ vote(3,4,1)] same by (simp add: voters_iff)
  next
    case (reply i el peer j answer el' n)
    then show ?thesis using reply_raft [OF sys sys' inv _ reply(3,8,1)] same by (simp add: voters_iff)
  next
    case (finish i el)
    then show ?thesis using finish_raft [OF sys sys' inv _ finish(3,1)] by (simp add: voters_iff)
  next
    case (abandon i)
    then have i: "i \<in> voters V" by (simp add: voters_iff)
    have "raft_inv J V s' g L"
      by (rule raft_calm [OF sys' inv i conjunct1 [OF sys_inv_self [OF sys i]] quiet_refl calm_refl]) (use abandon in \<open>auto simp: no_candidate_def\<close>)
    then show ?thesis by (rule same)
  next
    case (send i peer req)
    then have i: "i \<in> voters V" by (simp add: voters_iff)
    note ok = send_raft [OF sys_inv_node [OF sys i] raft_invD(4) [OF inv i] raft_invD(11) [OF inv] send(3)]
    have "raft_inv J V s' g L"
      by (rule raft_quiet [OF sys' inv i conjunct1 [OF sys_inv_self [OF sys i]] quiet_refl])
        (use send(1) ok raft_invD(2,6,7) [OF inv] i in \<open>auto simp: match_ok_def tally_raft_def asks_ok_def voted_def\<close>)
    then show ?thesis by (rule same)
  next
    case (receive i addr req resp n)
    then show ?thesis using receive_raft [OF sys sys' inv receive(2) mk receive(3,4,1)] same by blast
  next
    case (ack i addr req resp)
    then have i: "i \<in> voters V" by (simp add: voters_iff)
    have "raft_inv J V s' g L" by (rule ack_raft [OF sys sys' inv i _ ack(1)]) (use ack(3) in blast)
    then show ?thesis by (rule same)
  qed
qed

lemma start_raft:
  assumes "cluster_start J V s" and mk: "marker_ok J"
  shows "raft_inv J V s (\<lambda>_. []) Map.empty"
proof -
  have sys: "sys_inv J V s" by (rule start_inv [OF assms])
  have n: "disk_log (cs_nodes s i) = [] \<and> role_of (cn_state (cs_nodes s i)) = Follower \<and> commit_index (cn_state (cs_nodes s i)) = 0
      \<and> applied_log J (cn_disk (cs_nodes s i)) = []" if i: "i \<in> voters V" for i
  proof -
    obtain cfg io where c: "voter_config V i cfg" "new_fixed J cfg io fresh_disk = Inr (cs_nodes s i)"
      using assms(1) i by (auto simp: cluster_start_def voters_iff)
    note st = new_fixed_start [OF c(2)]
    have d: "disk_log (cs_nodes s i) = []" using st by (simp add: disk_log_def fresh_disk_def)
    have y: "in_sync J (cs_nodes s i)" by (rule voter_running [OF sys_inv_node [OF sys i]]) (use st in blast)
    have "commit_index (cn_state (cs_nodes s i)) = 0" using sync_log(3) [OF y] running_disk(1) [OF y] d by simp
    with st d show ?thesis by (simp add: applied_log_def disk_log_def)
  qed
  have ms: "cs_elections s = Map.empty" "cs_asked s = {}" "cs_votes s = {}" "cs_appends s = {}" "cs_acks s = {}"
    using assms(1) by (simp_all add: cluster_start_def)
  show ?thesis unfolding raft_inv_def
    using n ms by (auto simp: ghost_ok_def asks_ok_def complete_def own_entry_def node_raft_def holds_acks_def match_ok_def safe_log_def)
qed

lemma step_acks: "cluster_step J V s s' \<Longrightarrow> cs_acks s \<subseteq> cs_acks s'"
  by (cases rule: cluster_step.cases) auto

lemma reach_raft:
  assumes "cluster_reach J V s s'" "sys_inv J V s" "marker_ok J" "raft_inv J V s g L"
  shows "\<exists>g' L'. raft_inv J V s' g' L' \<and> extends g L g' L' \<and> cs_acks s \<subseteq> cs_acks s'"
  using assms
proof (induction rule: cluster_reach.induct)
  case refl
  then show ?case using extends_refl by blast
next
  case (step s t u)
  then obtain g1 L1 where 1: "raft_inv J V t g1 L1" "extends g L g1 L1" "cs_acks s \<subseteq> cs_acks t" by blast
  have "sys_inv J V t" by (rule reach_inv [OF step(1) step.prems(1,2)])
  from step_raft [OF step(2) this 1(1) step.prems(2)] obtain g2 L2 where "raft_inv J V u g2 L2" "extends g1 L1 g2 L2" by blast
  with 1 step_acks [OF step(2)] extends_trans [OF 1(2)] show ?case by blast
qed

section \<open>Committed entries\<close>

lemma majorities_share:
  assumes "majority V A" "majority V B"
  shows "\<exists>j. j \<in> A \<and> j \<in> B"
proof -
  have "A \<inter> B \<noteq> {}"
    using cluster_vote.majorities_meet [of A "(undefined, V, undefined)" B] assms card_voters [of V] by (simp add: majority_def)
  then show ?thesis by blast
qed

lemma committed_not_barred: "committed V s g L t k \<Longrightarrow> \<not> barred V s g L t k"
  unfolding committed_def barred_def using majorities_share by metis

lemma committed_stays:
  assumes inv: "raft_inv J V s g L" and c: "committed V s g L t k" and t: "t \<le> t'" "L t' \<noteq> None"
  shows "prefix (take k (g t)) (g t')"
proof (cases "t = t'")
  case True
  then show ?thesis by (simp add: take_is_prefix)
next
  case False
  then have "t < t'" using t by simp
  then have "prefix (take k (g t)) (g t') \<or> barred V s g L t k" using raft_invD(3) [OF inv] t(2) c unfolding complete_def committed_def by blast
  with committed_not_barred [OF c] show ?thesis by blast
qed

lemma own_led: "raft_inv J V s g L \<Longrightarrow> own_entry g t k \<Longrightarrow> L t \<noteq> None"
  using raft_invD(13) [of J V s g L t] by (cases "L t") (auto simp: own_entry_def)

lemma safe_logs_agree:
  assumes inv: "raft_inv J V s g L" and l: "safe_log V s g L l" "safe_log V s g L m"
  shows "prefix l m \<or> prefix m l"
proof (cases "l = [] \<or> m = []")
  case False
  obtain t k where t: "committed V s g L t k" "prefix l (take k (g t))" using l(1) False unfolding safe_log_def by blast
  obtain u h where u: "committed V s g L u h" "prefix m (take h (g u))" using l(2) False unfolding safe_log_def by blast
  have led: "L t \<noteq> None" "L u \<noteq> None" using t(1) u(1) own_led [OF inv] by (auto simp: committed_def)
  have "\<exists>x. prefix l x \<and> prefix m x"
  proof (cases "t \<le> u")
    case True
    from committed_stays [OF inv t(1) True led(2)] t(2) u(2) take_is_prefix show ?thesis by (meson prefix_order.trans)
  next
    case False
    then have "u \<le> t" by simp
    from committed_stays [OF inv u(1) this led(1)] t(2) u(2) take_is_prefix show ?thesis by (meson prefix_order.trans)
  qed
  then show ?thesis using prefix_same_cases by blast
qed auto

end
