(* ===== verification/Cluster_Props.thy ===== *)
theory Cluster_Props
  imports Cluster_System
begin

text \<open>
  The properties of the cluster: one leader for each term, durable application of the log, restarts, the commit rule,
  and compare-and-swap on the latest proposed value. The witnesses run a cluster of two voters.
\<close>

section \<open>Values of the log\<close>

lemma fold_insert_get:
  "btm_get (fold (\<lambda>(k, v). btm_insert k v) ws m) key
    = (case List.find (\<lambda>kv. fst kv = key) (rev ws) of Some kv \<Rightarrow> Some (snd kv) | None \<Rightarrow> btm_get m key)"
proof (induction ws rule: rev_induct)
  case (snoc w ws)
  then show ?case by (cases w) (auto simp: btm_get_insert)
qed simp

lemma find_append: "List.find P (xs @ ys) = (case List.find P xs of Some x \<Rightarrow> Some x | None \<Rightarrow> List.find P ys)"
  by (induction xs) auto

lemma find_map_of: "List.find (\<lambda>kv. fst kv = key) ws = map_option (Pair key) (map_of ws key)"
  by (induction ws) auto

lemma apply_entry_get:
  assumes "key \<noteq> APPLIED_KEY"
  shows "btm_get (apply_entry J e m) key = (case entry_value key e of Some v \<Rightarrow> Some v | None \<Rightarrow> btm_get m key)"
proof -
  have "btm_get (apply_entry J e m) key = btm_get (fold (\<lambda>(k, v). btm_insert k v) ((le_key e, le_value e) # le_extra e) m) key"
    using assms by (simp add: apply_entry_def btm_get_insert)
  then show ?thesis unfolding fold_insert_get by (simp add: entry_value_def find_append split: option.split)
qed

lemma replay_get: "key \<noteq> APPLIED_KEY \<Longrightarrow> btm_get (replay J log) key = find_value key (rev log)"
proof (induction log rule: rev_induct)
  case (snoc e log)
  then show ?case by (simp add: replay_snoc apply_entry_get split: option.split)
qed (simp add: replay_def)

lemma find_value_append: "find_value key (xs @ ys) = (case find_value key xs of Some v \<Rightarrow> Some v | None \<Rightarrow> find_value key ys)"
  by (induction xs) (auto split: option.split)

lemma unreserved: "\<not> reserved key \<Longrightarrow> key \<noteq> APPLIED_KEY"
  by (auto simp: reserved_def APPLIED_KEY_def starts_with_def)

text \<open>The value that a compare sees is the value after the whole log.\<close>

lemma pending_value_replay:
  assumes "log_sync J n" "\<not> reserved key"
  shows "pending_value key n = btm_get (replay J (raft_log (cn_state n))) key"
proof -
  let ?log = "raft_log (cn_state n)" and ?a = "last_applied (cn_state n)"
  have d: "nd_data (cn_disk n) = replay J (take ?a ?log)" using assms(1) by (simp add: log_sync_def Let_def)
  have "find_value key (rev ?log) = find_value key (rev (drop ?a ?log) @ rev (take ?a ?log))" by (simp flip: rev_append)
  then show ?thesis unfolding pending_value_def read_applied_def d replay_get [OF unreserved [OF assms(2)]]
    by (auto simp: find_value_append split: option.splits)
qed
text \<open>The voters behind a committable index.\<close>

lemma commit_quorum:
  assumes v: "voter_node J V i n" and a: "btm_get V i = Some addr" and c: "committable (cn_state n) c" "0 < c"
  shows "(\<exists>e. nth_opt (raft_log (cn_state n)) (c - 1) = Some e \<and> le_term e = current_term (cn_state n))
    \<and> (\<exists>Q \<subseteq> snd ` set V. addr \<in> Q \<and> 2 * card Q > length V \<and> (\<forall>a \<in> Q - {addr}. \<exists>m. match_index (cn_state n) a = Some m \<and> c \<le> m))"
proof -
  let ?has = "\<lambda>p. (case match_index (cn_state n) p of None \<Rightarrow> 0 | Some m \<Rightarrow> m) \<ge> c"
  let ?Q = "insert addr (set (filter ?has (voter_peers (cn_state n))))"
  have vp: "distinct (voter_peers (cn_state n))" "set (voter_peers (cn_state n)) = peers_of i V"
    using v voter_peers_ok by (auto simp: voter_node_def)
  have V: "btm_ok V" "distinct (map snd V)" using v voter_distinct by (auto simp: voter_node_def)
  have len: "length (voter_peers (cn_state n)) + 1 = length V" using card_peers_of [OF V a] vp distinct_card [OF vp(1)] by simp
  have sub: "peers_of i V \<subseteq> snd ` set V" by (force simp: peers_of_def dest: map_of_SomeD)
  have na: "addr \<notin> peers_of i V" using members_inj [OF V a] by (auto simp: peers_of_def)
  have "card ?Q = Suc (card (set (filter ?has (voter_peers (cn_state n)))))"
    by (rule card_insert_disjoint [OF finite_set]) (use na vp in simp)
  then have "card ?Q = replication_count (cn_state n) c"
    using distinct_card [OF distinct_filter [OF vp(1)], of ?has] by (simp add: replication_count_def)
  then have "2 * card ?Q > length V" using c(1) len by (simp add: committable_def) linarith
  moreover have "addr \<in> snd ` set V" by (rule image_eqI [OF _ map_of_SomeD [OF a]]) simp
  moreover from this have "?Q \<subseteq> snd ` set V" using sub vp(2) by auto
  moreover have "\<forall>a \<in> ?Q - {addr}. \<exists>m. match_index (cn_state n) a = Some m \<and> c \<le> m" using c(2) by (auto split: option.splits)
  moreover have "addr \<in> ?Q" by simp
  moreover have "\<exists>e. nth_opt (raft_log (cn_state n)) (c - 1) = Some e \<and> le_term e = current_term (cn_state n)"
    using c(1) by (auto simp: committable_def split: option.splits)
  ultimately show ?thesis by blast
qed

section \<open>A cluster of two voters\<close>

text \<open>Inputs of the witnesses: markers in unary, two voters, and the run in which the first one is elected.\<close>

definition duo_json :: cluster_json where
  "duo_json = \<lparr>cj_size = (\<lambda>e. Some 1),
     cj_marker = (\<lambda>(i, t). replicate i CHR ''x'' @ CHR ''/'' # replicate t CHR ''x''),
     cj_unmarker = (\<lambda>m. Some (length (takeWhile (\<lambda>c. c = CHR ''x'') m), length m - Suc (length (takeWhile (\<lambda>c. c = CHR ''x'') m))))\<rparr>"

definition duo_voters :: "(string, string) btm" where
  "duo_voters = [(''a'', ''h:1''), (''b'', ''h:2'')]"

definition duo_config :: "string \<Rightarrow> cluster_config" where
  "duo_config i = default_config\<lparr>cc_node_id := i,
     cc_peers := (if i = ''a'' then [''h:2''] else [''h:1'']),
     cc_peer_addrs := (if i = ''a'' then [(''b'', ''h:2'')] else [(''a'', ''h:1'')]),
     cc_advertise_addr := Some (if i = ''a'' then ''h:1'' else ''h:2'')\<rparr>"

definition duo_node :: "string \<Rightarrow> cluster_node" where
  "duo_node i = projr (new_fixed duo_json (duo_config i) [] fresh_disk)"

definition duo_start :: cluster_sys where
  "duo_start = \<lparr>cs_nodes = duo_node, cs_elections = Map.empty, cs_asked = {}, cs_votes = {}, cs_appends = {}, cs_acks = {}\<rparr>"

definition duo_election :: election where
  "duo_election = the (fst (begin_election (duo_node ''a'')))"

definition duo_answer :: vote_response where
  "duo_answer = fst (handle_request_vote (election_request ''a'' duo_election) (duo_node ''b''))"

definition duo_counted :: election where
  "duo_counted = the (fst (election_reply ''h:2'' (Some duo_answer) duo_election (snd (begin_election (duo_node ''a'')))))"

definition duo_campaign :: cluster_sys where
  "duo_campaign = set_election ''a'' (Some duo_election) (set_node ''a'' (snd (begin_election (duo_node ''a'')))
     (duo_start\<lparr>cs_asked := insert (election_request ''a'' duo_election) (cs_asked duo_start)\<rparr>))"

definition duo_vote :: cluster_sys where
  "duo_vote = set_node ''b'' (snd (handle_request_vote (election_request ''a'' duo_election) (duo_node ''b'')))
     (duo_campaign\<lparr>cs_votes := insert (''b'', election_request ''a'' duo_election, duo_answer) (cs_votes duo_campaign)\<rparr>)"

definition duo_reply :: cluster_sys where
  "duo_reply = set_election ''a'' (Some duo_counted)
     (set_node ''a'' (snd (election_reply ''h:2'' (Some duo_answer) duo_election (snd (begin_election (duo_node ''a''))))) duo_vote)"

definition duo_leader :: cluster_sys where
  "duo_leader = set_election ''a'' None (set_node ''a'' (finish_election duo_counted (cs_nodes duo_reply ''a'')) duo_reply)"

lemma duo_marker: "marker_ok duo_json"
  by (simp add: marker_ok_def duo_json_def takeWhile_tail)

lemma duo_voter_config: "i \<in> {''a'', ''b''} \<Longrightarrow> voter_config duo_voters i (duo_config i)"
proof -
  have "voter_config duo_voters ''a'' (duo_config ''a'')" "voter_config duo_voters ''b'' (duo_config ''b'')" by code_simp+
  then show "i \<in> {''a'', ''b''} \<Longrightarrow> voter_config duo_voters i (duo_config i)" by auto
qed

lemma duo_get: "btm_get duo_voters i \<noteq> None \<longleftrightarrow> i \<in> {''a'', ''b''}"
  by (auto simp: duo_voters_def)

lemma duo_started: "cluster_start duo_json duo_voters duo_start"
proof -
  have "\<exists>cfg io. voter_config duo_voters i cfg \<and> new_fixed duo_json cfg io fresh_disk = Inr (duo_node i)" if i: "i \<in> {''a'', ''b''}" for i
  proof -
    obtain n where n: "new_fixed duo_json (duo_config i) [] fresh_disk = Inr n"
      using start_voter [OF duo_marker duo_voter_config [OF i], of "[]"] by blast
    then have "duo_node i = n" by (simp add: duo_node_def)
    with n duo_voter_config [OF i] show ?thesis by blast
  qed
  then show ?thesis by (auto simp: cluster_start_def duo_start_def duo_voters_def split: if_splits)
qed
lemma duo_initial:
  assumes "i \<in> {''a'', ''b''}"
  shows "duo_node i = \<lparr>cn_config = duo_config i,
    cn_state = raft_state_new\<lparr>raft_peers := cc_peers (duo_config i), peer_addrs := duo_voters\<rparr>,
    cn_disk = fresh_disk\<lparr>nd_fixed_voters := Some duo_voters\<rparr>, cn_fixed = Some duo_voters, cn_bearer = None, cn_stopped = False, cn_io = []\<rparr>"
proof -
  have c: "config_voters (duo_config i) = Inr duo_voters" using duo_voter_config [OF assms] by (simp add: voter_config_def)
  have l: "load_addrs (duo_config i) (fresh_disk\<lparr>nd_fixed_voters := Some duo_voters\<rparr>) = duo_voters" using assms by (elim insertE emptyE; hypsubst) code_simp+
  have k: "check_sealed (duo_config i) [] duo_voters (Some duo_voters) = Inr ()" using assms by (elim insertE emptyE; hypsubst) code_simp+
  have p: "initial_peers (duo_config i) duo_voters (Some duo_voters) = cc_peers (duo_config i)" using assms by (elim insertE emptyE; hypsubst) code_simp+
  have d: "nd_fixed_voters fresh_disk = None" "nd_learners fresh_disk = None" "nd_log fresh_disk = []" "nd_data fresh_disk = []" "nd_meta fresh_disk = None"
    by (simp_all add: fresh_disk_def)
  show ?thesis unfolding duo_node_def new_fixed_def c bind_res_simps d option.case
    using k p l by (simp add: cluster_new_def Let_def d load_marker_def raft_state_new_def)
qed
lemma duo_begin:
  "begin_election (duo_node ''a'') = (Some duo_election, snd (begin_election (duo_node ''a'')))"
  "duo_election = \<lparr>el_term = 1, el_last_index = 0, el_last_term = 0, el_waiting = [''h:2''], el_votes = 1, el_majority = 2\<rparr>"
  "role_of (cn_state (snd (begin_election (duo_node ''a'')))) = Candidate"
  "current_term (cn_state (snd (begin_election (duo_node ''a'')))) = 1"
  "\<not> cn_stopped (snd (begin_election (duo_node ''a'')))" "cn_io (snd (begin_election (duo_node ''a''))) = []"
  by (simp_all add: duo_initial duo_election_def begin_election_def Let_def persist_meta_def durable_def set_state_def raft_state_new_def
      MAX_RAFT_TERM_def last_log_index_def last_log_term_def voter_peers_def duo_config_def default_config_def)

lemma duo_granted: "vs_granted duo_answer" "vs_term duo_answer = 1"
  by (simp_all add: duo_answer_def duo_begin(2) election_request_def duo_initial handle_request_vote_def Let_def raft_state_new_def MAX_RAFT_TERM_def
      duo_voters_def duo_config_def default_config_def step_down_def log_up_to_date_def last_log_index_def last_log_term_def persist_meta_def
      durable_def set_state_def vote_answer_def)

lemma duo_count:
  "election_reply ''h:2'' (Some duo_answer) duo_election (snd (begin_election (duo_node ''a''))) = (Some duo_counted, snd (begin_election (duo_node ''a'')))"
  "duo_counted = \<lparr>el_term = 1, el_last_index = 0, el_last_term = 0, el_waiting = [], el_votes = 2, el_majority = 2\<rparr>"
  by (simp_all add: duo_counted_def election_reply_def Let_def duo_granted duo_begin(2-5) MAX_RAFT_TERM_def)

lemma duo_run: "cluster_reach duo_json duo_voters duo_start duo_leader"
proof -
  have a: "btm_get duo_voters ''a'' \<noteq> None" and b: "btm_get duo_voters ''b'' \<noteq> None" by (simp_all add: duo_voters_def)
  have r: "role_of (cn_state (duo_node ''a'')) \<noteq> Leader" by (simp add: duo_initial raft_state_new_def)
  have "cluster_step duo_json duo_voters duo_start duo_campaign"
  proof -
    have s: "cs_nodes duo_start = duo_node" "cs_elections duo_start ''a'' = None" by (simp_all add: duo_start_def)
    show ?thesis unfolding duo_campaign_def by (rule cluster_step.campaign [OF a _ s(2)]) (unfold s(1), rule r, rule duo_begin(1))
  qed
  moreover have "cluster_step duo_json duo_voters duo_campaign duo_vote"
  proof -
    have s: "cs_nodes duo_campaign ''b'' = duo_node ''b''" "election_request ''a'' duo_election \<in> cs_asked duo_campaign"
      by (simp_all add: duo_campaign_def duo_start_def)
    show ?thesis unfolding duo_vote_def duo_answer_def by (rule cluster_step.vote [OF b s(2)]) (unfold s(1), rule prod.collapse [symmetric])
  qed
  moreover have "cluster_step duo_json duo_voters duo_vote duo_reply"
  proof -
    have s: "cs_nodes duo_vote ''a'' = snd (begin_election (duo_node ''a''))" "cs_elections duo_vote ''a'' = Some duo_election"
      "(''b'', election_request ''a'' duo_election, duo_answer) \<in> cs_votes duo_vote" by (simp_all add: duo_vote_def duo_campaign_def)
    have e: "el_votes duo_election < el_majority duo_election" "''h:2'' \<in> set (el_waiting duo_election)"
      "btm_get duo_voters ''b'' = Some ''h:2''" by (simp_all add: duo_begin(2) duo_voters_def)
    have ans: "case Some duo_answer of None \<Rightarrow> True | Some resp \<Rightarrow> (''b'', election_request ''a'' duo_election, resp) \<in> cs_votes duo_vote"
      using s(3) by simp
    show ?thesis unfolding duo_reply_def
      by (rule cluster_step.reply [OF a s(2) e ans]) (unfold s(1) duo_count(1), simp)
  qed
  moreover have "cluster_step duo_json duo_voters duo_reply duo_leader"
  proof -
    have s: "cs_elections duo_reply ''a'' = Some duo_counted" by (simp add: duo_reply_def)
    show ?thesis unfolding duo_leader_def by (rule cluster_step.finish [OF a s]) (simp add: duo_count(2))
  qed
  ultimately show ?thesis using cluster_reach.intros by meson
qed

lemma duo_leads: "leads duo_leader ''a'' 1"
proof -
  let ?n = "snd (begin_election (duo_node ''a''))"
  have "role_of (cn_state (finish_election duo_counted ?n)) = Leader" "current_term (cn_state (finish_election duo_counted ?n)) = 1"
    unfolding duo_count(2) finish_election_def Let_def persist_meta_def durable_def using duo_begin(3-6) by (simp_all add: set_state_def)
  moreover have "cs_nodes duo_leader ''a'' = finish_election duo_counted ?n"
    unfolding duo_leader_def duo_reply_def duo_count(1) by simp
  ultimately show ?thesis by (simp add: leads_def)
qed

section \<open>A cluster of one voter\<close>

text \<open>The run of the witnesses below: the only voter is elected, a client writes a key, and the entry is committed.\<close>

definition solo_voters :: "(string, string) btm" where
  "solo_voters = [(''a'', ''h:1'')]"

definition solo_config :: cluster_config where
  "solo_config = default_config\<lparr>cc_node_id := ''a'', cc_advertise_addr := Some ''h:1''\<rparr>"

definition solo_node :: cluster_node where
  "solo_node = \<lparr>cn_config = solo_config, cn_state = raft_state_new\<lparr>peer_addrs := solo_voters\<rparr>,
    cn_disk = fresh_disk\<lparr>nd_fixed_voters := Some solo_voters\<rparr>, cn_fixed = Some solo_voters, cn_bearer = None, cn_stopped = False, cn_io = []\<rparr>"

definition solo_election :: election where
  "solo_election = \<lparr>el_term = 1, el_last_index = 0, el_last_term = 0, el_waiting = [], el_votes = 1, el_majority = 1\<rparr>"

definition solo_candidate :: cluster_node where
  "solo_candidate = snd (begin_election solo_node)"

definition solo_leader :: cluster_node where
  "solo_leader = finish_election solo_election solo_candidate"

definition solo_proposed :: cluster_node where
  "solo_proposed = run_local duo_json (PutOp ''k'' ''v'' []) solo_leader"

definition solo_committed :: cluster_node where
  "solo_committed = run_local duo_json CommitOp solo_proposed"






lemma solo_leader_eq:
  "solo_leader = solo_node\<lparr>cn_state := raft_state_new\<lparr>peer_addrs := solo_voters, current_term := 1, voted_for := Some ''a'', role_of := Leader, leader_id := Some ''a''\<rparr>,
     cn_disk := fresh_disk\<lparr>nd_fixed_voters := Some solo_voters, nd_meta := Some (1, Some ''a'')\<rparr>\<rparr>"
  by (simp add: solo_leader_def solo_candidate_def solo_node_def begin_election_def Let_def persist_meta_def durable_def set_state_def raft_state_new_def
      MAX_RAFT_TERM_def last_log_index_def last_log_term_def voter_peers_def solo_config_def default_config_def solo_election_def finish_election_def
      reset_peers_def fresh_disk_def)

definition solo_entry :: log_entry where
  "solo_entry = \<lparr>le_term = 1, le_index = 1, le_key = ''k'', le_value = ''v'', le_extra = []\<rparr>"

lemma solo_put:
  "put_with duo_json ''k'' ''v'' [] solo_leader = (Inr solo_entry, solo_leader\<lparr>cn_state := (cn_state solo_leader)\<lparr>raft_log := [solo_entry]\<rparr>,
     cn_disk := (cn_disk solo_leader)\<lparr>nd_log := [(1, solo_entry)]\<rparr>\<rparr>)"
proof -
  have k: "client_keys ''k'' []" by code_simp
  show ?thesis unfolding put_with_def using k
    by (simp add: solo_leader_eq healthy_def solo_node_def propose_def Let_def persist_meta_def durable_def push_entry_def persist_log_entry_def
        too_big_def duo_json_def MAX_APPEND_BYTES_def set_state_def last_log_index_def raft_state_new_def fresh_disk_def solo_entry_def)
qed
lemma solo_proposed_eq:
  "solo_proposed = solo_leader\<lparr>cn_state := (cn_state solo_leader)\<lparr>raft_log := [solo_entry]\<rparr>, cn_disk := (cn_disk solo_leader)\<lparr>nd_log := [(1, solo_entry)]\<rparr>\<rparr>"
  unfolding solo_proposed_def run_local.simps solo_put by simp

lemma solo_highest: "highest_committable (cn_state solo_proposed) = 1"
  by (simp add: highest_committable_def committable_def replication_count_def solo_proposed_eq solo_leader_eq raft_state_new_def voter_peers_def
      last_log_index_def nth_opt_def solo_entry_def)

lemma solo_commit:
  "update_commit_index duo_json solo_proposed = (Inr (), solo_committed)"
  "solo_committed = solo_proposed\<lparr>cn_state := (cn_state solo_proposed)\<lparr>commit_index := 1, last_applied := 1\<rparr>,
     cn_disk := (cn_disk solo_proposed)\<lparr>nd_data := apply_entry duo_json solo_entry []\<rparr>\<rparr>"
  unfolding solo_committed_def run_local.simps update_commit_index_def solo_highest apply_committed_def
  by (simp_all add: solo_proposed_eq solo_leader_eq raft_state_new_def solo_node_def set_state_def nth_opt_def apply_log_entry_def durable_def fresh_disk_def)

lemma solo_applied: "applied_log duo_json (cn_disk solo_committed) = [solo_entry]"
proof -
  have "btm_get (apply_entry duo_json solo_entry []) APPLIED_KEY = Some (cj_marker duo_json (1, 1))" by (simp add: apply_entry_def btm_get_insert solo_entry_def)
  then show ?thesis using duo_marker
    by (simp add: applied_log_def applied_len_def solo_commit(2) solo_proposed_eq marker_ok_def)
qed


section \<open>Properties\<close>

text \<open>C6. A term has at most one leader, at any two moments of a run of the voters, whatever messages are lost, delayed
  or repeated, whatever disk writes fail and whenever nodes stop and start again.\<close>

theorem election_safety:
  assumes "marker_ok J" and "cluster_start J V s0" and "cluster_reach J V s0 s" and "cluster_reach J V s s'"
    and "btm_get V i \<noteq> None" and "btm_get V j \<noteq> None" and "leads s i t" and "leads s' j t"
  shows "i = j"
proof -
  have inv: "sys_inv J V s" by (rule reach_inv [OF assms(3) start_inv [OF assms(2,1)] assms(1)])
  have inv': "sys_inv J V s'" by (rule reach_inv [OF assms(4) inv assms(1)])
  have "elected V s t i" "elected V s' t j" using inv inv' assms(5-8) by (auto simp: sys_inv_def voters_iff)
  moreover from this(1) have "elected V s' t i" by (rule elected_mono) (use reach_mono [OF assms(4)] in simp_all)
  ultimately show ?thesis using elected_unique [OF inv'] by blast
qed

theorem election_safety_witness: "leads duo_leader ''a'' 1 \<and> \<not> leads duo_leader ''b'' 1"
  using election_safety [OF duo_marker duo_started duo_run cluster_reach.refl, of "''a''" "''b''" 1] duo_leads by (auto simp: duo_voters_def)

text \<open>What a voter has applied is never taken back or changed: at a later moment of the run, after any messages, storage
  failures and restarts, the earlier applied entries are a prefix of the applied ones, and the data on disk is exactly the
  result of applying them in order.\<close>

theorem applied_durable:
  assumes "marker_ok J" and "cluster_start J V s0" and "cluster_reach J V s0 s" and "cluster_reach J V s s'" and "btm_get V i \<noteq> None"
  shows "prefix (applied_log J (cn_disk (cs_nodes s i))) (applied_log J (cn_disk (cs_nodes s' i)))
    \<and> nd_data (cn_disk (cs_nodes s' i)) = replay J (applied_log J (cn_disk (cs_nodes s' i)))"
proof -
  have i: "i \<in> voters V" using assms(5) by (simp add: voters_iff)
  have inv: "sys_inv J V s" by (rule reach_inv [OF assms(3) start_inv [OF assms(2,1)] assms(1)])
  have inv': "sys_inv J V s'" by (rule reach_inv [OF assms(4) inv assms(1)])
  have "disk_inv J (cn_disk (cs_nodes s' i))" using sys_inv_node [OF inv' i] by (simp add: voter_node_def node_inv_def)
  with reach_grows [OF assms(4) inv assms(1) i] disk_replay [OF _ assms(1)] show ?thesis by (simp add: grows_def)
qed



text \<open>The commit rule of a leader, at any moment of a run: when its commit index advances, the entry there is of its current
  term and a majority of the voters, itself included, has acknowledged the log up to it; the answer is never a panic, the
  log stays as it is, and when the step succeeds everything committed has been applied.\<close>

theorem commit_rule:
  assumes "marker_ok J" and "cluster_start J V s0" and "cluster_reach J V s0 s" and "btm_get V i = Some addr"
    and "n = cs_nodes s i" and "update_commit_index J n = (r, n')"
  shows "(\<forall>p. r \<noteq> Inl (Panic p)) \<and> raft_log (cn_state n') = raft_log (cn_state n) \<and> commit_index (cn_state n) \<le> commit_index (cn_state n')
    \<and> (commit_index (cn_state n) < commit_index (cn_state n') \<longrightarrow>
        role_of (cn_state n) = Leader \<and> \<not> cn_stopped n
        \<and> (\<exists>e. nth_opt (raft_log (cn_state n)) (commit_index (cn_state n') - 1) = Some e \<and> le_term e = current_term (cn_state n))
        \<and> (\<exists>Q \<subseteq> snd ` set V. addr \<in> Q \<and> 2 * card Q > length V
             \<and> (\<forall>a \<in> Q - {addr}. \<exists>m. match_index (cn_state n) a = Some m \<and> commit_index (cn_state n') \<le> m)))
    \<and> (r = Inr () \<and> role_of (cn_state n) = Leader \<and> \<not> cn_stopped n \<longrightarrow> last_applied (cn_state n') = commit_index (cn_state n')
        \<and> nd_data (cn_disk n') = replay J (take (commit_index (cn_state n')) (raft_log (cn_state n'))))"
proof -
  have i: "i \<in> voters V" using assms(4) by (simp add: voters_iff)
  have "sys_inv J V s" by (rule reach_inv [OF assms(3) start_inv [OF assms(2,1)] assms(1)])
  from sys_inv_node [OF this i] have v: "voter_node J V i n" using assms(5) by simp
  note ok = update_commit_index_ok [OF voter_nodeD [OF v] assms(1,6)]
  show ?thesis
  proof (cases "cn_stopped n \<or> role_of (cn_state n) \<noteq> Leader")
    case True
    with assms(6) show ?thesis by (auto simp: update_commit_index_def)
  next
    case False
    let ?c = "highest_committable (cn_state n)"
    have ap: "apply_committed J (set_state ((cn_state n)\<lparr>commit_index := ?c\<rparr>) n) = (r, n')" using assms(6) False by (simp add: update_commit_index_def)
    have c': "commit_index (cn_state n') = ?c" using apply_committed_state [OF ap] by auto
    have s: "in_sync J n" using running_sync voter_nodeD [OF v] False by blast
    then have ll: "last_log_index (cn_state n) = length (raft_log (cn_state n))" by (auto simp: in_sync_def log_sync_def Let_def intro: wf_last_index)
    note hc = highest_committable_ok [OF HOL.refl, of "cn_state n"]
    with s ll have c: "commit_index (cn_state n) \<le> ?c" "?c \<le> length (raft_log (cn_state n))" by (auto simp: in_sync_def log_sync_def Let_def)
    have up: "\<not> cn_stopped n" using False by simp
    note ca = commit_and_apply [OF s up assms(1) c ap]
    have "in_sync J n'" if "r = Inr ()" using ca that good_step_sync by auto
    then have last: "last_applied (cn_state n') = ?c \<and> nd_data (cn_disk n') = replay J (take ?c (raft_log (cn_state n')))" if "r = Inr ()"
      using that ca by (auto simp: in_sync_def log_sync_def Let_def)
    have quorum: "(\<exists>e. nth_opt (raft_log (cn_state n)) (?c - 1) = Some e \<and> le_term e = current_term (cn_state n))
        \<and> (\<exists>Q \<subseteq> snd ` set V. addr \<in> Q \<and> 2 * card Q > length V \<and> (\<forall>a \<in> Q - {addr}. \<exists>m. match_index (cn_state n) a = Some m \<and> ?c \<le> m))"
      if "commit_index (cn_state n) < ?c"
      by (rule commit_quorum [OF v assms(4)]) (use hc that in auto)
    show ?thesis using ok False c c' last quorum by auto
  qed
qed

text \<open>Compare-and-swap on a running leader, at any moment of a run: the compared value is the one after every entry of the
  log, committed or not. When it differs from the expected value nothing changes; otherwise the call fails
  with an error and leaves the log in memory as it was, or it appends exactly one entry of the current term, and the
  next compare of the key sees the new value.\<close>

theorem cas_serial:
  assumes "marker_ok J" and "cluster_start J V s0" and "cluster_reach J V s0 s" and "btm_get V i \<noteq> None"
    and "n = cs_nodes s i" and "role_of (cn_state n) = Leader" and "\<not> cn_stopped n" and "client_keys key extra"
    and "cas_with J key expected new extra n = (r, n')"
  shows "if btm_get (replay J (raft_log (cn_state n))) key \<noteq> expected then r = Inr None \<and> n' = n
    else (\<exists>x. r = Inl (Err x)) \<and> raft_log (cn_state n') = raft_log (cn_state n)
      \<or> (\<exists>e. r = Inr (Some e) \<and> raft_log (cn_state n') = raft_log (cn_state n) @ [e]
          \<and> le_term e = current_term (cn_state n) \<and> le_index e = length (raft_log (cn_state n)) + 1
          \<and> pending_value key n' = (case map_of (rev extra) key of None \<Rightarrow> Some new | Some v \<Rightarrow> Some v))"
proof -
  have i: "i \<in> voters V" using assms(4) by (simp add: voters_iff)
  have "sys_inv J V s" by (rule reach_inv [OF assms(3) start_inv [OF assms(2,1)] assms(1)])
  from sys_inv_node [OF this i] have v: "voter_node J V i n" using assms(5) by simp
  have s: "in_sync J n" using running_sync voter_nodeD [OF v] assms(7) by blast
  have keys: "valid_keys key extra" "\<not> reserved key" using assms(8) by (auto simp: client_keys_def valid_keys_def)
  have pv: "pending_value key n = btm_get (replay J (raft_log (cn_state n))) key"
    using pending_value_replay [OF _ keys(2)] s by (simp add: in_sync_def)
  have cas: "cas_internal J key expected new extra None n = (r, n')" using assms(7-9) by (simp add: cas_with_def healthy_def)
  show ?thesis
  proof (cases "btm_get (replay J (raft_log (cn_state n))) key \<noteq> expected")
    case True
    then show ?thesis using cas assms(6,7) pv by (simp add: cas_internal_def healthy_def)
  next
    case False
    obtain r1 n1 where p: "propose J key new extra n = (r1, n1)" by fastforce
    have t: "0 < current_term (cn_state n)" using v assms(6) by (simp add: voter_node_def)
    note ok = propose_ok [OF voter_nodeD [OF v] assms(1,7) t keys(1) p]
    have n': "n' = n1" "r = (case r1 of Inl x \<Rightarrow> Inl x | Inr e \<Rightarrow> Inr (Some e))"
      using cas False assms(6,7) pv p by (auto simp: cas_internal_def healthy_def split: sum.splits)
    show ?thesis
    proof (cases r1)
      case (Inl x)
      with ok n' False show ?thesis by auto
    next
      case (Inr e)
      with ok have e: "\<not> cn_stopped n1" "cn_state n1 = (cn_state n)\<lparr>raft_log := raft_log (cn_state n) @ [e]\<rparr>"
        "e = \<lparr>le_term = current_term (cn_state n), le_index = length (raft_log (cn_state n)) + 1, le_key = key, le_value = new, le_extra = extra\<rparr>" by simp_all
      have "entry_value key e = (case map_of (rev extra) key of None \<Rightarrow> Some new | Some v \<Rightarrow> Some v)"
        unfolding entry_value_def e(3) by (simp add: find_map_of split: option.split)
      moreover have "pending_value key n1 = entry_value key e"
        using calculation e(2) by (simp add: pending_value_def split: option.split)
      ultimately show ?thesis using Inr n' False e by simp
    qed
  qed
qed

end
