(* ===== verification/Raft_Props.thy ===== *)
theory Raft_Props
  imports Raft_Follow Cluster_Props
begin

text \<open>What replication guarantees: voters never disagree on what they have applied, a new leader has all of it, and a write
  that was reported as committed is never lost.\<close>

section \<open>A run with a replicated write\<close>

text \<open>The run of the witnesses: the leader of two voters stores an entry, sends it, counts the answer and commits, and the
  follower learns that it is committed.\<close>

definition duo_lead :: "log_entry list \<Rightarrow> nat \<Rightarrow> nat \<Rightarrow> nat \<Rightarrow> cluster_node" where
  "duo_lead l c nx m = (duo_node ''a'')\<lparr>
     cn_state := raft_state_new\<lparr>raft_peers := [''h:2''], peer_addrs := duo_voters, role_of := Leader, current_term := 1, voted_for := Some ''a'',
       leader_id := Some ''a'', raft_log := l, commit_index := c, last_applied := c, next_index := [''h:2'' \<mapsto> nx], match_index := [''h:2'' \<mapsto> m]\<rparr>,
     cn_disk := fresh_disk\<lparr>nd_fixed_voters := Some duo_voters, nd_meta := Some (1, Some ''a''), nd_log := keyed l, nd_data := replay duo_json (take c l)\<rparr>\<rparr>"

definition duo_follow :: "log_entry list \<Rightarrow> nat \<Rightarrow> string option \<Rightarrow> bool \<Rightarrow> cluster_node" where
  "duo_follow l c ld known = (duo_node ''b'')\<lparr>
     cn_state := raft_state_new\<lparr>raft_peers := [''h:1''], peer_addrs := duo_voters, current_term := 1, voted_for := Some ''a'',
       leader_id := ld, raft_log := l, commit_index := c, last_applied := c\<rparr>,
     cn_disk := fresh_disk\<lparr>nd_fixed_voters := Some duo_voters, nd_meta := Some (1, Some ''a''), nd_log := keyed l, nd_data := replay duo_json (take c l),
       nd_peers := (if known then Some duo_voters else None), nd_learners := (if known then Some [] else None)\<rparr>\<rparr>"

definition duo_request :: "log_entry list \<Rightarrow> nat \<Rightarrow> nat \<Rightarrow> append_request" where
  "duo_request es prev c = \<lparr>ar_term = 1, ar_leader_id = ''a'', ar_prev_log_index = prev, ar_prev_log_term = min prev 1, ar_entries = es,
     ar_leader_commit = c, ar_peer_addrs = Some duo_voters, ar_learner_addrs = Some []\<rparr>"

definition duo_ok :: append_response where
  "duo_ok = \<lparr>as_term = 1, as_success = True\<rparr>"

lemmas duo_run_defs = duo_initial raft_state_new_def fresh_disk_def duo_config_def default_config_def set_state_def persist_meta_def durable_def

lemma duo_led:
  "cs_nodes duo_leader ''a'' = duo_lead [] 0 1 0" "cs_nodes duo_leader ''b'' = duo_follow [] 0 None False"
proof -
  have a: "cs_nodes duo_leader ''a'' = finish_election duo_counted (snd (begin_election (duo_node ''a'')))"
    unfolding duo_leader_def duo_reply_def duo_count(1) by simp
  show "cs_nodes duo_leader ''a'' = duo_lead [] 0 1 0"
    unfolding a duo_count(2)
    by (simp add: duo_run_defs duo_lead_def begin_election_def Let_def MAX_RAFT_TERM_def finish_election_def reset_peers_def last_log_index_def keyed_def replay_def)
  have b: "cs_nodes duo_leader ''b'' = snd (handle_request_vote (election_request ''a'' duo_election) (duo_node ''b''))"
    unfolding duo_leader_def duo_reply_def duo_vote_def by simp
  show "cs_nodes duo_leader ''b'' = duo_follow [] 0 None False"
    unfolding b duo_begin(2)
    by (simp add: duo_run_defs duo_follow_def handle_request_vote_def election_request_def Let_def MAX_RAFT_TERM_def duo_voters_def step_down_def
        log_up_to_date_def last_log_index_def last_log_term_def vote_answer_def keyed_def replay_def)
qed

lemma duo_put: "put_with duo_json ''k'' ''v'' [] (duo_lead [] 0 1 0) = (Inr solo_entry, duo_lead [solo_entry] 0 1 0)"
proof -
  have k: "client_keys ''k'' []" by code_simp
  show ?thesis unfolding put_with_def using k
    by (simp add: duo_lead_def duo_run_defs healthy_def propose_def Let_def push_entry_def persist_log_entry_def
        too_big_def duo_json_def MAX_APPEND_BYTES_def last_log_index_def solo_entry_def keyed_def replay_def)
qed

lemma duo_send:
  "append_request_to duo_json ''h:2'' (duo_lead [solo_entry] 0 1 0) = Some (duo_request [solo_entry] 0 0)"
  "append_request_to duo_json ''h:2'' (duo_lead [solo_entry] 1 2 1) = Some (duo_request [] 1 1)"
  by (simp_all add: duo_lead_def duo_run_defs append_request_to_def Let_def duo_request_def duo_json_def MAX_APPEND_BYTES_def MAX_APPEND_ENTRIES_def
      solo_entry_def nth_opt_def)

lemma duo_count_ack:
  "accept_append_response ''h:2'' 1 0 1 duo_ok (duo_lead [solo_entry] 0 1 0) = duo_lead [solo_entry] 0 2 1"
proof -
  have t: "\<not> 1 > MAX_RAFT_TERM" by (simp add: MAX_RAFT_TERM_def)
  show ?thesis using t by (simp add: duo_lead_def duo_run_defs accept_append_response_def Let_def duo_ok_def numeral_2_eq_2)
qed

lemma duo_commit: "update_commit_index duo_json (duo_lead [solo_entry] 0 2 1) = (Inr (), duo_lead [solo_entry] 1 2 1)"
proof -
  have h: "highest_committable (cn_state (duo_lead [solo_entry] 0 2 1)) = 1"
    by (simp add: highest_committable_def committable_def replication_count_def duo_lead_def raft_state_new_def voter_peers_def
        last_log_index_def nth_opt_def solo_entry_def)
  show ?thesis unfolding update_commit_index_def h apply_committed_def
    by (simp add: duo_lead_def duo_run_defs nth_opt_def apply_log_entry_def replay_def)
qed

lemma duo_receive:
  "handle_append_entries duo_json (duo_request [solo_entry] 0 0) (duo_follow [] 0 None False) = (Inr duo_ok, duo_follow [solo_entry] 0 (Some ''a'') True)"
  "handle_append_entries duo_json (duo_request [] 1 1) (duo_follow [solo_entry] 0 (Some ''a'') True) = (Inr duo_ok, duo_follow [solo_entry] 1 (Some ''a'') True)"
proof -
  have k: "valid_keys ''k'' []" by code_simp
  have o: "sort_dedup (other_addrs ''b'' duo_voters) = [''h:1'']" by code_simp
  have m: "membership_ok (duo_follow l c ld kn) (duo_request es p cc)" for l c ld kn es p cc
    by (simp add: membership_ok_def duo_follow_def duo_request_def duo_run_defs duo_voters_def btm_retain_def)
  show "handle_append_entries duo_json (duo_request [solo_entry] 0 0) (duo_follow [] 0 None False) = (Inr duo_ok, duo_follow [solo_entry] 0 (Some ''a'') True)"
    unfolding handle_append_entries_def using k o
    by (simp only: m simp_thms if_False) (simp add: duo_follow_def duo_run_defs duo_request_def MAX_RAFT_TERM_def too_big_def duo_json_def MAX_APPEND_BYTES_def follow_def prev_ok_def
        entries_ok_def entry_ok_def Let_def solo_entry_def nth_opt_def cut_conflict_def push_entry_def persist_log_entry_def apply_committed_def
        advance_commit_def persist_peers_def adopt_peers_def keyed_def replay_def duo_ok_def)
  show "handle_append_entries duo_json (duo_request [] 1 1) (duo_follow [solo_entry] 0 (Some ''a'') True) = (Inr duo_ok, duo_follow [solo_entry] 1 (Some ''a'') True)"
    unfolding handle_append_entries_def using o
    by (simp only: m simp_thms if_False) (simp add: duo_follow_def duo_run_defs duo_request_def MAX_RAFT_TERM_def too_big_def follow_def prev_ok_def
        entries_ok_def Let_def solo_entry_def nth_opt_def apply_committed_def apply_log_entry_def
        advance_commit_def persist_peers_def adopt_peers_def keyed_def replay_def duo_ok_def)
qed

text \<open>The steps of the run after the election.\<close>

definition duo_sys :: "cluster_node \<Rightarrow> cluster_node \<Rightarrow> (string \<times> append_request) set \<Rightarrow> (string \<times> append_request \<times> append_response) set \<Rightarrow> cluster_sys" where
  "duo_sys a b appends acks = (set_node ''b'' b (set_node ''a'' a duo_leader))\<lparr>cs_appends := appends, cs_acks := acks\<rparr>"

lemma duo_sys_simps [simp]:
  "cs_nodes (duo_sys a b p k) ''a'' = a" "cs_nodes (duo_sys a b p k) ''b'' = b" "cs_appends (duo_sys a b p k) = p" "cs_acks (duo_sys a b p k) = k"
  "set_node ''a'' a' (duo_sys a b p k) = duo_sys a' b p k" "set_node ''b'' b' (duo_sys a b p k) = duo_sys a b' p k"
  "(duo_sys a b p k)\<lparr>cs_appends := p'\<rparr> = duo_sys a b p' k" "(duo_sys a b p k)\<lparr>cs_acks := k'\<rparr> = duo_sys a b p k'"
  by (simp_all add: duo_sys_def set_node_def fun_upd_twist)

abbreviation duo_first :: "string \<times> append_request" where "duo_first \<equiv> (''h:2'', duo_request [solo_entry] 0 0)"
abbreviation duo_second :: "string \<times> append_request" where "duo_second \<equiv> (''h:2'', duo_request [] 1 1)"
abbreviation duo_acks :: "(string \<times> append_request \<times> append_response) set" where "duo_acks \<equiv> {(''h:2'', duo_request [solo_entry] 0 0, duo_ok)}"

definition duo_committed :: cluster_sys where
  "duo_committed = duo_sys (duo_lead [solo_entry] 1 2 1) (duo_follow [solo_entry] 0 (Some ''a'') True) {duo_first} duo_acks"

definition duo_applied :: cluster_sys where
  "duo_applied = duo_sys (duo_lead [solo_entry] 1 2 1) (duo_follow [solo_entry] 1 (Some ''a'') True) {duo_second, duo_first}
     (insert (''h:2'', duo_request [] 1 1, duo_ok) duo_acks)"

lemma duo_replicated:
  "cluster_reach duo_json duo_voters duo_leader duo_committed" "cluster_reach duo_json duo_voters duo_committed duo_applied"
proof -
  have a: "btm_get duo_voters ''a'' \<noteq> None" and b: "btm_get duo_voters ''b'' = Some ''h:2''" by (simp_all add: duo_voters_def)
  let ?e = "[solo_entry]"
  let ?b0 = "duo_follow [] 0 None False" and ?b1 = "duo_follow ?e 0 (Some ''a'') True"
  have 0: "duo_leader = duo_sys (duo_lead [] 0 1 0) ?b0 {} {}"
  proof -
    have n: "set_node ''b'' ?b0 (set_node ''a'' (duo_lead [] 0 1 0) duo_leader) = duo_leader"
      unfolding set_node_def duo_led [symmetric] by simp
    have "cs_appends duo_leader = {}" "cs_acks duo_leader = {}"
      by (simp_all add: duo_leader_def duo_reply_def duo_vote_def duo_campaign_def duo_start_def)
    then show ?thesis unfolding duo_sys_def n by simp
  qed
  have 1: "cluster_step duo_json duo_voters (duo_sys (duo_lead [] 0 1 0) ?b0 {} {}) (duo_sys (duo_lead ?e 0 1 0) ?b0 {} {})"
    using cluster_step.local [OF a, of "PutOp ''k'' ''v'' []" duo_json "duo_sys (duo_lead [] 0 1 0) ?b0 {} {}"] by (simp add: duo_put [unfolded One_nat_def])
  have 2: "cluster_step duo_json duo_voters (duo_sys (duo_lead ?e 0 1 0) ?b0 {} {}) (duo_sys (duo_lead ?e 0 1 0) ?b0 {duo_first} {})"
    using cluster_step.send [OF a, of duo_json "''h:2''" "duo_sys (duo_lead ?e 0 1 0) ?b0 {} {}"] by (simp add: duo_send [unfolded One_nat_def])
  have 3: "cluster_step duo_json duo_voters (duo_sys (duo_lead ?e 0 1 0) ?b0 {duo_first} {}) (duo_sys (duo_lead ?e 0 1 0) ?b1 {duo_first} duo_acks)"
    using cluster_step.receive [OF b, of "duo_request ?e 0 0" "duo_sys (duo_lead ?e 0 1 0) ?b0 {duo_first} {}" duo_json] by (simp add: duo_receive [unfolded One_nat_def])
  have 4: "cluster_step duo_json duo_voters (duo_sys (duo_lead ?e 0 1 0) ?b1 {duo_first} duo_acks) (duo_sys (duo_lead ?e 0 2 1) ?b1 {duo_first} duo_acks)"
  proof -
    have r: "ar_term (duo_request ?e 0 0) = 1" "ar_prev_log_index (duo_request ?e 0 0) = 0" "matched_index (duo_request ?e 0 0) = 1" "ar_leader_id (duo_request ?e 0 0) = ''a''"
      by (simp_all add: duo_request_def matched_index_def solo_entry_def)
    show ?thesis using cluster_step.ack [OF a, of "''h:2''" "duo_request ?e 0 0" duo_ok "duo_sys (duo_lead ?e 0 1 0) ?b1 {duo_first} duo_acks" duo_json]
      unfolding r by (simp add: duo_count_ack [unfolded One_nat_def])
  qed
  have 5: "cluster_step duo_json duo_voters (duo_sys (duo_lead ?e 0 2 1) ?b1 {duo_first} duo_acks) duo_committed"
    using cluster_step.local [OF a, of CommitOp duo_json "duo_sys (duo_lead ?e 0 2 1) ?b1 {duo_first} duo_acks"] unfolding duo_committed_def
    by (simp add: duo_commit [unfolded One_nat_def])
  show "cluster_reach duo_json duo_voters duo_leader duo_committed" unfolding 0 using 1 2 3 4 5 cluster_reach.intros by meson
  have 6: "cluster_step duo_json duo_voters duo_committed (duo_sys (duo_lead ?e 1 2 1) ?b1 {duo_second, duo_first} duo_acks)"
    using cluster_step.send [OF a, of duo_json "''h:2''" duo_committed] unfolding duo_committed_def by (simp add: duo_send [unfolded One_nat_def])
  have 7: "cluster_step duo_json duo_voters (duo_sys (duo_lead ?e 1 2 1) ?b1 {duo_second, duo_first} duo_acks) duo_applied"
    using cluster_step.receive [OF b, of "duo_request [] 1 1" "duo_sys (duo_lead ?e 1 2 1) ?b1 {duo_second, duo_first} duo_acks" duo_json]
    unfolding duo_applied_def by (simp add: duo_receive [unfolded One_nat_def])
  show "cluster_reach duo_json duo_voters duo_committed duo_applied" using 6 7 cluster_reach.intros by meson
qed

lemma duo_data:
  "applied_log duo_json (cn_disk (duo_lead [solo_entry] 1 2 1)) = [solo_entry]"
  "applied_log duo_json (cn_disk (duo_follow [solo_entry] 1 ld kn)) = [solo_entry]"
proof -
  have wf: "wf_log 1 [solo_entry]"
  proof -
    have "valid_keys ''k'' []" by code_simp
    then show ?thesis by (simp add: wf_log_def wf_entry_def solo_entry_def)
  qed
  have r: "nd_data (cn_disk (duo_lead [solo_entry] 1 2 1)) = replay duo_json (take 1 [solo_entry])" "nd_log (cn_disk (duo_lead [solo_entry] 1 2 1)) = keyed [solo_entry]"
    "nd_data (cn_disk (duo_follow [solo_entry] 1 ld kn)) = replay duo_json (take 1 [solo_entry])" "nd_log (cn_disk (duo_follow [solo_entry] 1 ld kn)) = keyed [solo_entry]"
    by (simp_all add: duo_lead_def duo_follow_def)
  show "applied_log duo_json (cn_disk (duo_lead [solo_entry] 1 2 1)) = [solo_entry]" using replay_marker(2) [OF wf _ duo_marker r(1,2)] by simp
  show "applied_log duo_json (cn_disk (duo_follow [solo_entry] 1 ld kn)) = [solo_entry]" using replay_marker(2) [OF wf _ duo_marker r(3,4)] by simp
qed

lemma duo_whole: "cluster_reach duo_json duo_voters duo_start duo_committed"
  by (rule cluster_reach_trans [OF duo_run duo_replicated(1)])

section \<open>Properties\<close>

text \<open>What two moments of a run know of committed entries, in the terms of the later one.\<close>

lemma run_raft:
  assumes "marker_ok J" "cluster_start J V s0" "cluster_reach J V s0 s" "cluster_reach J V s s'" "btm_get V i \<noteq> None"
  obtains g L where "sys_inv J V s'" "raft_inv J V s' g L" "safe_log V s' g L (applied_log J (cn_disk (cs_nodes s i)))"
    "\<And>j. j \<in> voters V \<Longrightarrow> safe_log V s' g L (applied_log J (cn_disk (cs_nodes s' j)))"
    "applied_log J (cn_disk (cs_nodes s i)) = [] \<or> (\<exists>t k x. committed V s' g L t k \<and> prefix (applied_log J (cn_disk (cs_nodes s i))) (take k (g t))
       \<and> x \<in> voters V \<and> t \<le> disk_term (cs_nodes s x))"
proof -
  let ?a = "applied_log J (cn_disk (cs_nodes s i))"
  have i: "i \<in> voters V" using assms(5) by (simp add: voters_iff)
  have sys: "sys_inv J V s" by (rule reach_inv [OF assms(3) start_inv [OF assms(2,1)] assms(1)])
  obtain g L where 1: "raft_inv J V s g L" using reach_raft [OF assms(3) start_inv [OF assms(2,1)] assms(1) start_raft [OF assms(2,1)]] by blast
  obtain g' L' where 2: "raft_inv J V s' g' L'" "extends g L g' L'" "cs_acks s \<subseteq> cs_acks s'" using reach_raft [OF assms(4) sys assms(1) 1] by blast
  have a: "safe_log V s g L ?a" using raft_invD(4) [OF 1 i] unfolding node_raft_def by blast
  have "?a = [] \<or> (\<exists>t k x. committed V s' g' L' t k \<and> prefix ?a (take k (g' t)) \<and> x \<in> voters V \<and> t \<le> disk_term (cs_nodes s x))"
  proof (cases "?a = []")
    case False
    then obtain t k where c: "committed V s g L t k" "prefix ?a (take k (g t))" using a unfolding safe_log_def by blast
    have own: "own_entry g t k" using c(1) by (simp add: committed_def)
    obtain x where x: "L t = Some x" using own_led [OF 1 own] by blast
    have xv: "x \<in> voters V" using raft_invD(14) [OF 1 x] by blast
    have "t \<le> disk_term (cs_nodes s x)" using raft_invD(4) [OF 1 xv] x unfolding node_raft_def by blast
    with xv c(2) committed_mono [OF c(1) 2(2,3)] own_take [OF own 2(2)] show ?thesis by metis
  qed simp
  moreover have "safe_log V s' g' L' (applied_log J (cn_disk (cs_nodes s' j)))" if "j \<in> voters V" for j
    using raft_invD(4) [OF 2(1) that] unfolding node_raft_def by blast
  ultimately show thesis using that [OF reach_inv [OF assms(4) sys assms(1)] 2(1) safe_log_mono [OF a 2(2,3)]] by blast
qed

text \<open>C3. State machine safety. Of what two voters have applied at any two moments of a run, one is a prefix of the other,
  whatever messages are lost, delayed or repeated, whatever disk writes fail and whenever nodes stop and start again; and
  the data of a voter is the result of what it has applied, so two voters that have applied equally many entries hold the same data.\<close>

theorem state_machine_safety:
  assumes "marker_ok J" and "cluster_start J V s0" and "cluster_reach J V s0 s" and "cluster_reach J V s s'"
    and "btm_get V i \<noteq> None" and "btm_get V j \<noteq> None"
  shows "(prefix (applied_log J (cn_disk (cs_nodes s i))) (applied_log J (cn_disk (cs_nodes s' j)))
      \<or> prefix (applied_log J (cn_disk (cs_nodes s' j))) (applied_log J (cn_disk (cs_nodes s i))))
    \<and> (length (applied_log J (cn_disk (cs_nodes s i))) = length (applied_log J (cn_disk (cs_nodes s' j))) \<longrightarrow>
        nd_data (cn_disk (cs_nodes s i)) = nd_data (cn_disk (cs_nodes s' j)))"
proof -
  let ?a = "applied_log J (cn_disk (cs_nodes s i))" and ?b = "applied_log J (cn_disk (cs_nodes s' j))"
  have v: "i \<in> voters V" "j \<in> voters V" using assms(5,6) by (simp_all add: voters_iff)
  obtain g L where r: "sys_inv J V s'" "raft_inv J V s' g L" "safe_log V s' g L ?a" "safe_log V s' g L ?b"
    using run_raft [OF assms(1-5)] v(2) by metis
  have sys: "sys_inv J V s" by (rule reach_inv [OF assms(3) start_inv [OF assms(2,1)] assms(1)])
  have p: "prefix ?a ?b \<or> prefix ?b ?a" by (rule safe_logs_agree [OF r(2-4)])
  have "disk_inv J (cn_disk (cs_nodes s i))" "disk_inv J (cn_disk (cs_nodes s' j))"
    using sys_inv_node [OF sys v(1)] sys_inv_node [OF r(1) v(2)] by (simp_all add: voter_node_def node_inv_def)
  then have d: "nd_data (cn_disk (cs_nodes s i)) = replay J ?a" "nd_data (cn_disk (cs_nodes s' j)) = replay J ?b" using disk_replay assms(1) by blast+
  have "?a = ?b" if "length ?a = length ?b" using p that by (auto simp: prefix_def)
  with p d show ?thesis by metis
qed

theorem state_machine_safety_witness:
  "applied_log duo_json (cn_disk (cs_nodes duo_committed ''a'')) = [solo_entry] \<and> applied_log duo_json (cn_disk (cs_nodes duo_applied ''b'')) = [solo_entry]
    \<and> nd_data (cn_disk (cs_nodes duo_committed ''a'')) = nd_data (cn_disk (cs_nodes duo_applied ''b''))"
proof -
  have l: "applied_log duo_json (cn_disk (cs_nodes duo_committed ''a'')) = [solo_entry]" "applied_log duo_json (cn_disk (cs_nodes duo_applied ''b'')) = [solo_entry]"
    unfolding duo_committed_def duo_applied_def duo_sys_simps duo_data by simp_all
  have b: "btm_get duo_voters ''a'' \<noteq> None" "btm_get duo_voters ''b'' \<noteq> None" by (simp_all add: duo_voters_def)
  from state_machine_safety [OF duo_marker duo_started duo_whole duo_replicated(2) b] l show ?thesis by simp
qed

text \<open>C5. Leader completeness. A running leader whose term is at least every term that the voters had on disk at an earlier
  moment of the run has, in its log, everything that any voter had applied at that moment.\<close>

theorem leader_completeness:
  assumes "marker_ok J" and "cluster_start J V s0" and "cluster_reach J V s0 s" and "cluster_reach J V s s'"
    and "btm_get V i \<noteq> None" and "btm_get V j \<noteq> None" and "leads s' j t" and "\<not> cn_stopped (cs_nodes s' j)"
    and "\<forall>v. btm_get V v \<noteq> None \<longrightarrow> fst (meta_of (cn_disk (cs_nodes s v))) \<le> t"
  shows "prefix (applied_log J (cn_disk (cs_nodes s i))) (raft_log (cn_state (cs_nodes s' j)))"
proof -
  let ?a = "applied_log J (cn_disk (cs_nodes s i))"
  have v: "i \<in> voters V" "j \<in> voters V" using assms(5,6) by (simp_all add: voters_iff)
  obtain g L where r: "sys_inv J V s'" "raft_inv J V s' g L" and
    a: "?a = [] \<or> (\<exists>u k x. committed V s' g L u k \<and> prefix ?a (take k (g u)) \<and> x \<in> voters V \<and> u \<le> disk_term (cs_nodes s x))"
    using run_raft [OF assms(1-5)] by metis
  have lead: "L t = Some j" "raft_log (cn_state (cs_nodes s' j)) = g t"
    using raft_invD(4) [OF r(2) v(2)] assms(7,8) unfolding node_raft_def leads_def by auto
  show ?thesis
  proof (cases "?a = []")
    case False
    then obtain u k x where c: "committed V s' g L u k" "prefix ?a (take k (g u))" "x \<in> voters V" "u \<le> disk_term (cs_nodes s x)" using a by blast
    have "disk_term (cs_nodes s x) \<le> t" using assms(9) c(3) by (simp add: voters_iff disk_term_def)
    then have "u \<le> t" using c(4) by simp
    from committed_stays [OF r(2) c(1) this] lead c(2) show ?thesis using prefix_order.trans by (metis option.distinct(1))
  qed simp
qed

theorem leader_completeness_witness:
  "applied_log duo_json (cn_disk (cs_nodes duo_committed ''a'')) = [solo_entry] \<and> leads duo_applied ''a'' 1
    \<and> prefix (applied_log duo_json (cn_disk (cs_nodes duo_committed ''a''))) (raft_log (cn_state (cs_nodes duo_applied ''a'')))"
proof -
  have l: "applied_log duo_json (cn_disk (cs_nodes duo_committed ''a'')) = [solo_entry]" unfolding duo_committed_def duo_sys_simps duo_data by simp
  have ld: "leads duo_applied ''a'' 1" "\<not> cn_stopped (cs_nodes duo_applied ''a'')"
    unfolding leads_def duo_applied_def duo_sys_simps by (simp_all add: duo_lead_def duo_initial)
  have t: "\<forall>v. btm_get duo_voters v \<noteq> None \<longrightarrow> fst (meta_of (cn_disk (cs_nodes duo_committed v))) \<le> 1"
    using duo_get unfolding duo_committed_def by (auto simp: duo_lead_def duo_follow_def meta_of_def)
  have b: "btm_get duo_voters ''a'' \<noteq> None" by (simp add: duo_voters_def)
  from leader_completeness [OF duo_marker duo_started duo_whole duo_replicated(2) b b ld t] l ld show ?thesis by simp
qed

text \<open>C4. A write that was reported as committed is never lost: once \<open>await_commit\<close> has returned for an entry on some voter, the
  entry is at its index in what any voter has applied up to that index at any later moment of the run.\<close>

theorem acknowledged_write:
  assumes "marker_ok J" and "cluster_start J V s0" and "cluster_reach J V s0 s" and "cluster_reach J V s s'"
    and "btm_get V i \<noteq> None" and "btm_get V j \<noteq> None" and "await_poll e (cs_nodes s i) = Some (Inr ())"
  shows "(le_index e \<le> length (applied_log J (cn_disk (cs_nodes s' j))) \<longrightarrow> applied_log J (cn_disk (cs_nodes s' j)) ! (le_index e - 1) = e)
    \<and> le_index e \<le> length (applied_log J (cn_disk (cs_nodes s' i)))"
proof -
  let ?a = "applied_log J (cn_disk (cs_nodes s i))" and ?b = "applied_log J (cn_disk (cs_nodes s' j))"
  let ?st = "cn_state (cs_nodes s i)"
  have v: "i \<in> voters V" "j \<in> voters V" using assms(5,6) by (simp_all add: voters_iff)
  have sys: "sys_inv J V s" by (rule reach_inv [OF assms(3) start_inv [OF assms(2,1)] assms(1)])
  have w: "\<not> cn_stopped (cs_nodes s i)" "nth_opt (raft_log ?st) (le_index e - 1) = Some e" "le_index e \<le> last_applied ?st"
    using assms(7) by (auto simp: await_poll_def healthy_def Let_def split: if_splits)
  note y = voter_running [OF sys_inv_node [OF sys v(1)] w(1)]
  have a: "?a = take (last_applied ?st) (raft_log ?st)" using sync_applied y assms(1) by (simp add: in_sync_def)
  have la: "last_applied ?st \<le> length (raft_log ?st)" using y by (auto simp: in_sync_def log_sync_def Let_def)
  have e: "le_index e - 1 < length (raft_log ?st)" "raft_log ?st ! (le_index e - 1) = e" using w(2) by (auto simp: nth_opt_eq)
  have "wf_entry (current_term ?st) (le_index e - 1) e" using sync_log(2) [OF y] e unfolding wf_log_def by metis
  then have pos: "0 < le_index e" by (simp add: wf_entry_def)
  have ea: "le_index e \<le> length ?a" "?a ! (le_index e - 1) = e" using a la w(3) e pos by simp_all
  obtain g L where r: "raft_inv J V s' g L" "safe_log V s' g L ?a" "safe_log V s' g L ?b" using run_raft [OF assms(1-5)] v(2) by metis
  have "?b ! (le_index e - 1) = e" if "le_index e \<le> length ?b"
    using safe_logs_agree [OF r] ea that pos by (auto simp: prefix_def nth_append split: if_splits)
  moreover have "prefix ?a (applied_log J (cn_disk (cs_nodes s' i)))" using reach_grows [OF assms(4) sys assms(1) v(1)] by (simp add: grows_def)
  ultimately show ?thesis using ea(1) prefix_length_le le_trans by blast
qed

theorem acknowledged_write_witness:
  "await_poll solo_entry (cs_nodes duo_committed ''a'') = Some (Inr ()) \<and> applied_log duo_json (cn_disk (cs_nodes duo_applied ''b'')) ! 0 = solo_entry"
proof -
  have w: "await_poll solo_entry (cs_nodes duo_committed ''a'') = Some (Inr ())"
    unfolding duo_committed_def duo_sys_simps by (simp add: duo_lead_def duo_initial await_poll_def healthy_def Let_def solo_entry_def nth_opt_def)
  have l: "length (applied_log duo_json (cn_disk (cs_nodes duo_applied ''b''))) = 1" unfolding duo_applied_def duo_sys_simps duo_data by simp
  have b: "btm_get duo_voters ''a'' \<noteq> None" "btm_get duo_voters ''b'' \<noteq> None" by (simp_all add: duo_voters_def)
  from acknowledged_write [OF duo_marker duo_started duo_whole duo_replicated(2) b w] l w show ?thesis by (simp add: solo_entry_def)
qed

end
