(* ===== verification/Sched_Protocol.thy ===== *)
theory Sched_Protocol
  imports Sched_Core
begin

text \<open>
  The protocol between the scheduler and its workers (\<open>src/server/src/scheduled_protocol.rs\<close>): dispatches, admissions and
  permits. What serde and SHA-256 compute is the parameter \<open>wire\<close>.
\<close>

record payload =
  pl_code :: string
  pl_session :: string
  pl_timeout_seconds :: u64
  pl_heap_mb :: u64
  pl_expires_at :: time

record dispatch =
  dp_version :: u32
  dp_namespace :: string
  dp_schedule_id :: u64
  dp_occurrence_id :: u64
  dp_attempt :: u32
  dp_owner :: string
  dp_epoch :: u64
  dp_worker_id :: string
  dp_authority :: string
  dp_payload_digest :: string
  dp_payload :: payload

record admission =
  ad_dispatch :: dispatch
  ad_worker_incarnation :: string

record permit =
  pm_invocation :: string
  pm_epoch :: u64
  pm_worker_id :: string
  pm_worker_incarnation :: string
  pm_payload_digest :: string
  pm_authority :: string

text \<open>The encodings: the key of an invocation, digests, and the values that the worker stores.\<close>

record wire =
  wr_key :: "string \<times> u64 \<times> u64 \<times> u32 \<Rightarrow> string"
  wr_payload_digest :: "payload \<Rightarrow> string"
  wr_text_digest :: "string \<Rightarrow> string"
  wr_admission :: "admission \<Rightarrow> string"
  wr_dispatch :: "dispatch \<Rightarrow> string"
  wr_receipt :: "string \<times> string \<Rightarrow> string"
  wr_unreceipt :: "string \<Rightarrow> (string \<times> string) option"
  wr_binding :: "nat \<times> string \<times> string \<Rightarrow> string"

definition dispatch_key :: "wire \<Rightarrow> dispatch \<Rightarrow> string" where
  "dispatch_key W d = wr_key W (dp_namespace d, dp_schedule_id d, dp_occurrence_id d, dp_attempt d)"

definition validate_dispatch :: "wire \<Rightarrow> dispatch \<Rightarrow> unit result" where
  "validate_dispatch W d =
     (if length (pl_code (dp_payload d)) > 65536
         \<or> dp_version d \<noteq> 1
         \<or> dp_namespace d = []
         \<or> dp_worker_id d = []
         \<or> dp_owner d = []
         \<or> dp_epoch d = 0
         \<or> dp_authority d = []
         \<or> dp_payload_digest d \<noteq> wr_payload_digest W (dp_payload d)
         \<or> pl_session (dp_payload d) = []
         \<or> pl_timeout_seconds (dp_payload d) = 0
         \<or> pl_timeout_seconds (dp_payload d) > 300
         \<or> \<not> (16 \<le> pl_heap_mb (dp_payload d) \<and> pl_heap_mb (dp_payload d) \<le> 4096)
      then Inl (Err ''invalid scheduled protocol or payload binding'') else Inr ())"

definition admission_permit :: "wire \<Rightarrow> admission \<Rightarrow> permit" where
  "admission_permit W a =
     (let d = ad_dispatch a in
      \<lparr>pm_invocation = dispatch_key W d, pm_epoch = dp_epoch d, pm_worker_id = dp_worker_id d,
       pm_worker_incarnation = ad_worker_incarnation a, pm_payload_digest = dp_payload_digest d, pm_authority = dp_authority d\<rparr>)"

text \<open>What an invocation is identified by; the epoch is not part of it.\<close>

definition dispatch_identity :: "dispatch \<Rightarrow> string \<times> u64 \<times> u64 \<times> u32" where
  "dispatch_identity d = (dp_namespace d, dp_schedule_id d, dp_occurrence_id d, dp_attempt d)"

lemma dispatch_key_identity: "dispatch_key W d = wr_key W (dispatch_identity d)"
  by (simp add: dispatch_key_def dispatch_identity_def)

text \<open>What is relied on: the encoding of an admission is not the text that marks a consumed one.\<close>

definition wire_ok :: "wire \<Rightarrow> bool" where
  "wire_ok W \<longleftrightarrow> (\<forall>a. wr_admission W a \<noteq> ''consumed'')"

end
