(* ===== verification/Sched_Worker.thy ===== *)
theory Sched_Worker
  imports Sched_Protocol "HOL-Library.Sublist"
begin

text \<open>
  The scheduled worker (\<open>src/server/src/scheduled_worker.rs\<close>): it reserves an invocation in its store before it asks
  the scheduler to admit it, consumes the reservation before it launches, and cancels. \<open>wk_db\<close> is the store as the process
  sees it, \<open>wk_flushed\<close> what is certainly on disk and \<open>wk_unflushed\<close> the writes since then, of which a crash
  keeps any. \<open>wk_io\<close> lists the outcomes of the calls of sled to come. The clock, the network and the runtime are arguments.
\<close>

section \<open>The store\<close>

datatype db_outcome = DbOk | DbLost | DbKept

type_synonym db = "string \<rightharpoonup> string"

record worker_config =
  wc_namespace :: string
  wc_worker_id :: string
  wc_data_dir :: string
  wc_bearer_env :: string
  wc_admission_bearer_env :: string
  wc_admission_urls :: "string list"

record worker =
  wk_config :: worker_config
  wk_incarnation :: string
  wk_bearer :: string
  wk_admission_bearer :: string
  wk_db :: db
  wk_flushed :: db
  wk_unflushed :: "(string \<times> string) list"
  wk_io :: "db_outcome list"

definition next_io :: "worker \<Rightarrow> db_outcome" where
  "next_io w = (case wk_io w of [] \<Rightarrow> DbOk | x # _ \<Rightarrow> x)"

definition used_io :: "worker \<Rightarrow> worker" where
  "used_io w = w\<lparr>wk_io := tl (wk_io w)\<rparr>"

definition db_failure :: "'a result" where
  "db_failure = Inl (Err ''sled error'')"

definition stored :: "string \<Rightarrow> string \<Rightarrow> worker \<Rightarrow> worker" where
  "stored k v w = w\<lparr>wk_db := (wk_db w)(k \<mapsto> v), wk_unflushed := wk_unflushed w @ [(k, v)]\<rparr>"

definition db_get :: "string \<Rightarrow> worker \<Rightarrow> string option result \<times> worker" where
  "db_get k w = (if next_io w = DbOk then (Inr (wk_db w k), used_io w) else (db_failure, used_io w))"

definition db_insert :: "string \<Rightarrow> string \<Rightarrow> worker \<Rightarrow> unit result \<times> worker" where
  "db_insert k v w =
     (case next_io w of
        DbOk \<Rightarrow> (Inr (), used_io (stored k v w))
      | DbLost \<Rightarrow> (db_failure, used_io w)
      | DbKept \<Rightarrow> (db_failure, used_io (stored k v w)))"

text \<open>\<open>compare_and_swap\<close>: \<open>False\<close> when the old value differs.\<close>

definition db_swap :: "string \<Rightarrow> string option \<Rightarrow> string \<Rightarrow> worker \<Rightarrow> bool result \<times> worker" where
  "db_swap k old new w =
     (case next_io w of
        DbOk \<Rightarrow> if wk_db w k = old then (Inr True, used_io (stored k new w)) else (Inr False, used_io w)
      | DbLost \<Rightarrow> (db_failure, used_io w)
      | DbKept \<Rightarrow> (db_failure, used_io (if wk_db w k = old then stored k new w else w)))"

definition flush_worker :: "worker \<Rightarrow> unit result \<times> worker" where
  "flush_worker w =
     (case next_io w of
        DbOk \<Rightarrow> (Inr (), used_io (w\<lparr>wk_flushed := wk_db w, wk_unflushed := []\<rparr>))
      | DbLost \<Rightarrow> (db_failure, used_io w)
      | DbKept \<Rightarrow> (db_failure, used_io (w\<lparr>wk_flushed := wk_db w, wk_unflushed := []\<rparr>)))"

section \<open>Starting a worker\<close>

text \<open>What the URL parser of reqwest makes of an origin.\<close>

record url =
  url_scheme :: string
  url_host :: "string option"
  url_username :: string
  url_password :: "string option"
  url_query :: "string option"
  url_fragment :: "string option"
  url_path :: string

definition validate_origin :: "(string \<Rightarrow> string + url) \<Rightarrow> string \<Rightarrow> unit result" where
  "validate_origin parse origin =
     bind_res (map_err (parse origin))
       (\<lambda>u. if (url_scheme u \<noteq> ''https''
               \<and> \<not> (url_scheme u = ''http'' \<and> url_host u \<in> {Some ''127.0.0.1'', Some ''localhost'', Some ''[::1]''}))
             \<or> url_username u \<noteq> [] \<or> url_password u \<noteq> None \<or> url_query u \<noteq> None \<or> url_fragment u \<noteq> None \<or> url_path u \<noteq> ''/''
           then Inl (Err ''require HTTPS origin or loopback HTTP without credentials'') else Inr ())"

definition secret :: "(string \<rightharpoonup> string) \<Rightarrow> string \<Rightarrow> string result" where
  "secret env reference =
     (case env reference of
        None \<Rightarrow> Inl (Err ''credential reference unavailable'')
      | Some s \<Rightarrow> if s = [] then Inl (Err ''credential reference unavailable'') else Inr s)"

text \<open>The machine a worker starts on: the URL parser, the environment, whether the directory holds other files, whether the
  store has another tree with entries, and the random incarnation.\<close>

record worker_host =
  wh_parse :: "string \<Rightarrow> string + url"
  wh_env :: "string \<rightharpoonup> string"
  wh_foreign_dir :: bool
  wh_other_tree :: bool
  wh_incarnation :: string

definition bind_store :: "wire \<Rightarrow> worker_host \<Rightarrow> worker \<Rightarrow> unit result \<times> worker" where
  "bind_store W H w =
     (let binding = wr_binding W (1, wc_namespace (wk_config w), wc_worker_id (wk_config w)) in
      bind_st (db_get ''binding'' w)
        (\<lambda>old w1. case old of
           Some b \<Rightarrow> if b \<noteq> binding then (Inl (Err ''worker store identity/version mismatch''), w1) else (Inr (), w1)
         | None \<Rightarrow>
            if wh_other_tree H \<or> wk_db w1 \<noteq> Map.empty then (Inl (Err ''worker requires a fresh or bound store''), w1)
            else bind_st (db_insert ''binding'' binding w1) (\<lambda>_ w2. flush_worker w2)))"

text \<open>The answer, and the worker as far as its store was opened.\<close>

definition worker_new :: "wire \<Rightarrow> worker_host \<Rightarrow> worker_config \<Rightarrow> db_outcome list \<Rightarrow> db \<Rightarrow> unit result \<times> worker option" where
  "worker_new W H cfg io disk =
     (if wc_namespace cfg = [] \<or> wc_worker_id cfg = [] \<or> wc_admission_urls cfg = []
      then (Inl (Err ''worker identity, namespace and admission endpoints required''), None)
      else case fold_res (\<lambda>u _. validate_origin (wh_parse H) u) (wc_admission_urls cfg) () of
        Inl e \<Rightarrow> (Inl e, None)
      | Inr _ \<Rightarrow>
         (case secret (wh_env H) (wc_bearer_env cfg) of
            Inl e \<Rightarrow> (Inl e, None)
          | Inr bearer \<Rightarrow>
             (case secret (wh_env H) (wc_admission_bearer_env cfg) of
                Inl e \<Rightarrow> (Inl e, None)
              | Inr admission_bearer \<Rightarrow>
                 if wh_foreign_dir H then (Inl (Err ''worker requires a fresh directory or bound sled store''), None)
                 else
                  (case bind_store W H \<lparr>wk_config = cfg, wk_incarnation = wh_incarnation H, wk_bearer = bearer,
                          wk_admission_bearer = admission_bearer, wk_db = disk, wk_flushed = disk, wk_unflushed = [], wk_io = io\<rparr> of
                     (r, w) \<Rightarrow> (r, Some w)))))"

section \<open>Reserving, admitting, consuming\<close>

abbreviation invocation_row :: "wire \<Rightarrow> dispatch \<Rightarrow> string" where "invocation_row W d \<equiv> ''invocation/'' @ dispatch_key W d"
abbreviation dispatch_row :: "wire \<Rightarrow> dispatch \<Rightarrow> string" where "dispatch_row W d \<equiv> ''dispatch/'' @ dispatch_key W d"
abbreviation cancel_row :: "wire \<Rightarrow> dispatch \<Rightarrow> string" where "cancel_row W d \<equiv> ''cancel/'' @ dispatch_key W d"
abbreviation execution_row :: "wire \<Rightarrow> dispatch \<Rightarrow> string" where "execution_row W d \<equiv> ''execution/'' @ dispatch_key W d"

definition reserve :: "wire \<Rightarrow> time \<Rightarrow> dispatch \<Rightarrow> worker \<Rightarrow> admission result \<times> worker" where
  "reserve W now d w =
     (case validate_dispatch W d of
        Inl e \<Rightarrow> (Inl e, w)
      | Inr _ \<Rightarrow>
         if dp_namespace d \<noteq> wc_namespace (wk_config w) \<or> dp_worker_id d \<noteq> wc_worker_id (wk_config w) \<or> now \<ge> pl_expires_at (dp_payload d)
         then (Inl (Err ''wrong worker/namespace or expired authority''), w)
         else
          (let a = \<lparr>ad_dispatch = d, ad_worker_incarnation = wk_incarnation w\<rparr> in
           bind_st (db_swap (invocation_row W d) None (wr_admission W a) w)
             (\<lambda>swapped w1. if \<not> swapped then (Inl (Err ''invocation already reserved; no replay''), w1)
               else bind_st (db_insert (dispatch_row W d) (wr_dispatch W d) w1)
                 (\<lambda>_ w2. bind_st (flush_worker w2) (\<lambda>_ w3. (Inr a, w3))))))"

text \<open>What an admission endpoint answered: it was not reached, the send failed otherwise, or it answered with a status;
  a body that does not parse is \<open>None\<close>.\<close>

datatype net_answer =
    NotReached
  | SendFailed
  | Conflict
  | Gone "(bool \<times> string) option"
  | Created "permit option"
  | OtherStatus

fun ask_origins :: "wire \<Rightarrow> admission \<Rightarrow> (string \<Rightarrow> net_answer) \<Rightarrow> string list \<Rightarrow> permit option result" where
  "ask_origins W a net [] = Inl (Err ''no current owner admitted invocation'')"
| "ask_origins W a net (u # us) =
     (case net u of
        NotReached \<Rightarrow> ask_origins W a net us
      | SendFailed \<Rightarrow> Inl (Err ''ambiguous admission response'')
      | Conflict \<Rightarrow> ask_origins W a net us
      | Gone None \<Rightarrow> Inl (Err ''invalid rejection ACK'')
      | Gone (Some (not_launched, invocation)) \<Rightarrow>
          if not_launched \<and> invocation = dispatch_key W (ad_dispatch a) then Inr None else Inl (Err ''unbound rejection ACK'')
      | OtherStatus \<Rightarrow> Inl (Err ''admission unavailable or uncertain'')
      | Created None \<Rightarrow> Inl (Err ''invalid admission ACK'')
      | Created (Some p) \<Rightarrow> if p \<noteq> admission_permit W a then Inl (Err ''admission ACK binding mismatch'') else Inr (Some p))"

definition admit_decision :: "wire \<Rightarrow> admission \<Rightarrow> (string \<Rightarrow> net_answer) \<Rightarrow> worker \<Rightarrow> permit option result" where
  "admit_decision W a net w = ask_origins W a net (wc_admission_urls (wk_config w))"

definition admit_worker :: "wire \<Rightarrow> admission \<Rightarrow> (string \<Rightarrow> net_answer) \<Rightarrow> worker \<Rightarrow> permit result" where
  "admit_worker W a net w =
     bind_res (admit_decision W a net w)
       (\<lambda>p. case p of None \<Rightarrow> Inl (Err ''quorum confirmed not launched'') | Some p \<Rightarrow> Inr p)"

text \<open>The permission to launch is the payload.\<close>

definition consume :: "wire \<Rightarrow> admission \<Rightarrow> permit \<Rightarrow> worker \<Rightarrow> payload result \<times> worker" where
  "consume W a p w =
     (let d = ad_dispatch a in
      bind_st (db_get (cancel_row W d) w)
        (\<lambda>c w1. if c \<noteq> None then (Inl (Err ''invocation cancelled before launch''), w1)
          else if p \<noteq> admission_permit W a \<or> ad_worker_incarnation a \<noteq> wk_incarnation w1
          then (Inl (Err ''wrong launch binding/incarnation''), w1)
          else bind_st (db_swap (invocation_row W d) (Some (wr_admission W a)) ''consumed'' w1)
            (\<lambda>swapped w2. if \<not> swapped then (Inl (Err ''launch permission already consumed''), w2)
              else bind_st (flush_worker w2) (\<lambda>_ w3. (Inr (dp_payload d), w3)))))"

section \<open>Requests\<close>

definition authorized :: "(string option \<Rightarrow> string \<Rightarrow> bool) \<Rightarrow> string option \<Rightarrow> worker \<Rightarrow> bool" where
  "authorized bearer_match header w = bearer_match header (wk_bearer w)"

text \<open>The part of \<open>execute\<close> under the gate: consume, submit to the runtime, and store the receipt. The flag tells whether the
  payload was submitted.\<close>

definition store_receipt :: "wire \<Rightarrow> dispatch \<Rightarrow> string \<Rightarrow> worker \<Rightarrow> string option result \<times> worker" where
  "store_receipt W d i w =
     bind_st (db_insert (execution_row W d) (wr_receipt W (wk_incarnation w, i)) w)
       (\<lambda>_ w1. bind_st (flush_worker w1) (\<lambda>_ w2. (Inr (Some i), w2)))"

definition execute_gate :: "wire \<Rightarrow> (payload \<Rightarrow> string + string) \<Rightarrow> admission \<Rightarrow> permit \<Rightarrow> worker \<Rightarrow> bool \<times> string option result \<times> worker" where
  "execute_gate W submit a p w =
     (case consume W a p w of
        (Inl e, w1) \<Rightarrow> (False, Inl e, w1)
      | (Inr pl, w1) \<Rightarrow>
         (case submit pl of
            Inl e \<Rightarrow> (True, Inl (Err e), w1)
          | Inr i \<Rightarrow> (True, store_receipt W (ad_dispatch a) i w1)))"

datatype worker_answer = Unauthorized | GoneNotLaunched string | Accepted string | Unavailable rerr | StatusOk string | NotFound string

text \<open>What \<open>execute\<close> answers for its result.\<close>

definition execute_answer :: "wire \<Rightarrow> dispatch \<Rightarrow> string option result \<Rightarrow> worker_answer" where
  "execute_answer W d r =
     (case r of Inr None \<Rightarrow> GoneNotLaunched (dispatch_key W d) | Inr (Some i) \<Rightarrow> Accepted i | Inl e \<Rightarrow> Unavailable e)"

text \<open>The whole handler, undisturbed: the flag tells whether the payload was submitted.\<close>

definition execute_request ::
  "wire \<Rightarrow> (string option \<Rightarrow> string \<Rightarrow> bool) \<Rightarrow> string option \<Rightarrow> time \<Rightarrow> (string \<Rightarrow> net_answer) \<Rightarrow> (payload \<Rightarrow> string + string) \<Rightarrow> dispatch \<Rightarrow> worker
   \<Rightarrow> bool \<times> worker_answer \<times> worker" where
  "execute_request W bearer_match header now net submit d w =
     (if \<not> authorized bearer_match header w then (False, Unauthorized, w)
      else case reserve W now d w of
        (Inl e, w1) \<Rightarrow> (False, execute_answer W d (Inl e), w1)
      | (Inr a, w1) \<Rightarrow>
         (case admit_decision W a net w1 of
            Inl e \<Rightarrow> (False, execute_answer W d (Inl e), w1)
          | Inr None \<Rightarrow> (False, execute_answer W d (Inr None), w1)
          | Inr (Some p) \<Rightarrow> (case execute_gate W submit a p w1 of (launched, r, w2) \<Rightarrow> (launched, execute_answer W d r, w2))))"

text \<open>A cancellation ends with the status of the runtime, still cancelling, or cancelled before any launch.\<close>

datatype cancel_answer = StillCancelling | RuntimeStatus string | CancelledStopped

text \<open>The runtime: \<open>rt_stopped\<close> reads the field \<open>stopped\<close> of a status.\<close>

record runtime =
  rt_status :: "string \<Rightarrow> string + string"
  rt_stopped :: "string \<Rightarrow> bool"

definition cancel_gate :: "wire \<Rightarrow> runtime \<Rightarrow> dispatch \<Rightarrow> worker \<Rightarrow> cancel_answer result \<times> worker" where
  "cancel_gate W R d w =
     bind_st (db_get (dispatch_row W d) w)
       (\<lambda>bound w1. if bound \<noteq> None \<and> bound \<noteq> Some (wr_dispatch W d) then (Inl (Err ''cancellation dispatch binding mismatch''), w1)
         else bind_st (db_insert (cancel_row W d) ''cancelled'' w1)
           (\<lambda>_ w2. bind_st (flush_worker w2)
             (\<lambda>_ w3. bind_st (db_get (execution_row W d) w3)
               (\<lambda>receipt w4. case receipt of
                  Some r \<Rightarrow>
                   (case wr_unreceipt W r of
                      None \<Rightarrow> (Inl (Err ''invalid receipt''), w4)
                    | Some (incarnation, i) \<Rightarrow>
                       if incarnation \<noteq> wk_incarnation w4 then (Inl (Err ''previous worker execution outcome remains unknown''), w4)
                       else case rt_status R i of
                         Inl e \<Rightarrow> (Inl (Err e), w4)
                       | Inr st \<Rightarrow> (Inr (if rt_stopped R st then RuntimeStatus st else StillCancelling), w4))
                | None \<Rightarrow>
                   bind_st (db_get (invocation_row W d) w4)
                     (\<lambda>rec w5. if rec = Some ''consumed''
                       then (Inl (Err ''launch consumed without durable execution receipt; outcome unknown''), w5)
                       else (Inr CancelledStopped, w5))))))"

definition cancel_request :: "wire \<Rightarrow> runtime \<Rightarrow> dispatch \<Rightarrow> worker \<Rightarrow> cancel_answer result \<times> worker" where
  "cancel_request W R d w =
     (case validate_dispatch W d of
        Inl e \<Rightarrow> (Inl e, w)
      | Inr _ \<Rightarrow>
         if dp_namespace d \<noteq> wc_namespace (wk_config w) \<or> dp_worker_id d \<noteq> wc_worker_id (wk_config w)
         then (Inl (Err ''cancellation worker binding mismatch''), w)
         else cancel_gate W R d w)"

definition cancel_handler ::
  "wire \<Rightarrow> (string option \<Rightarrow> string \<Rightarrow> bool) \<Rightarrow> runtime \<Rightarrow> string option \<Rightarrow> dispatch \<Rightarrow> worker \<Rightarrow> worker_answer \<times> worker" where
  "cancel_handler W bearer_match R header d w =
     (if \<not> authorized bearer_match header w then (Unauthorized, w)
      else case cancel_request W R d w of
        (Inl e, w1) \<Rightarrow> (Unavailable e, w1)
      | (Inr StillCancelling, w1) \<Rightarrow> (StatusOk ''{status: cancelling}'', w1)
      | (Inr (RuntimeStatus st), w1) \<Rightarrow> (StatusOk st, w1)
      | (Inr CancelledStopped, w1) \<Rightarrow> (StatusOk ''{status: cancelled, stopped: true}'', w1))"

definition worker_status :: "(string option \<Rightarrow> string \<Rightarrow> bool) \<Rightarrow> runtime \<Rightarrow> string option \<Rightarrow> string \<Rightarrow> worker \<Rightarrow> worker_answer" where
  "worker_status bearer_match R header i w =
     (if \<not> authorized bearer_match header w then Unauthorized
      else case rt_status R i of Inr st \<Rightarrow> StatusOk st | Inl e \<Rightarrow> NotFound e)"

end
