(* ===== verification/Worker_Props.thy ===== *)
theory Worker_Props
  imports Sched_Worker
begin

text \<open>
  The worker over any sequence of requests, failures of its store, crashes and starts: an invocation is launched at most
  once, and never after a cancellation was reported as complete.
\<close>

section \<open>The system\<close>

record worker_sys =
  ws_worker :: "worker option"
  ws_disk :: db
  ws_launched :: "dispatch list"
  ws_cancelled :: "dispatch list"

definition disk_image :: "db \<Rightarrow> (string \<times> string) list \<Rightarrow> db" where
  "disk_image d ws = foldl (\<lambda>m (k, v). m(k \<mapsto> v)) d ws"

text \<open>A crash keeps any of the writes since the last flush. Launches and cancellations may be asked for at any moment, with any
  admission and permit.\<close>

inductive worker_step :: "wire \<Rightarrow> worker_sys \<Rightarrow> worker_sys \<Rightarrow> bool" for W where
  reserve: "ws_worker s = Some w \<Longrightarrow> reserve W now d w = (r, w') \<Longrightarrow> worker_step W s (s\<lparr>ws_worker := Some w'\<rparr>)"
| execute: "ws_worker s = Some w \<Longrightarrow> execute_gate W submit a p w = (launched, r, w') \<Longrightarrow>
    worker_step W s (s\<lparr>ws_worker := Some w', ws_launched := ws_launched s @ (if launched then [ad_dispatch a] else [])\<rparr>)"
| cancel: "ws_worker s = Some w \<Longrightarrow> cancel_request W R d w = (r, w') \<Longrightarrow>
    worker_step W s (s\<lparr>ws_worker := Some w', ws_cancelled := ws_cancelled s @ (if r = Inr CancelledStopped then [d] else [])\<rparr>)"
| crash: "ws_worker s = Some w \<Longrightarrow> subseq kept (wk_unflushed w) \<Longrightarrow>
    worker_step W s (s\<lparr>ws_worker := None, ws_disk := disk_image (wk_flushed w) kept\<rparr>)"
| start: "ws_worker s = None \<Longrightarrow> worker_new W H cfg io (ws_disk s) = (Inr (), Some w) \<Longrightarrow> worker_step W s (s\<lparr>ws_worker := Some w\<rparr>)"
| start_failed: "ws_worker s = None \<Longrightarrow> worker_new W H cfg io (ws_disk s) = (Inl e, Some w) \<Longrightarrow> subseq kept (wk_unflushed w) \<Longrightarrow>
    worker_step W s (s\<lparr>ws_disk := disk_image (wk_flushed w) kept\<rparr>)"

definition worker_start :: worker_sys where
  "worker_start = \<lparr>ws_worker = None, ws_disk = Map.empty, ws_launched = [], ws_cancelled = []\<rparr>"

abbreviation worker_runs :: "wire \<Rightarrow> worker_sys \<Rightarrow> worker_sys \<Rightarrow> bool" where
  "worker_runs W \<equiv> (worker_step W)\<^sup>*\<^sup>*"

text \<open>The handlers are runs of these steps.\<close>

lemma execute_request_runs:
  assumes "ws_worker s = Some w" and "execute_request W m h now net submit d w = (launched, ans, w')"
  shows "worker_runs W s (s\<lparr>ws_worker := Some w', ws_launched := ws_launched s @ (if launched then [d] else [])\<rparr>)"
proof (cases "authorized m h w")
  case False
  with assms show ?thesis by (cases s) (auto simp: execute_request_def)
next
  case True
  obtain r w1 where rv: "reserve W now d w = (r, w1)" by fastforce
  have one: "worker_step W s (s\<lparr>ws_worker := Some w1\<rparr>)" using worker_step.reserve [OF assms(1) rv] .
  show ?thesis
  proof (cases "\<exists>a p. r = Inr a \<and> admit_decision W a net w1 = Inr (Some p)")
    case False
    with assms(2) True rv have "w' = w1" "\<not> launched"
      by (auto simp: execute_request_def split: sum.splits option.splits)
    with one show ?thesis by auto
  next
    case True
    then obtain a p where a: "r = Inr a" "admit_decision W a net w1 = Inr (Some p)" by blast
    obtain q where g: "execute_gate W submit a p w1 = (launched, q, w')"
      using assms(2) \<open>authorized m h w\<close> rv a by (auto simp: execute_request_def split: prod.splits)
    have "ad_dispatch a = d" using rv a by (auto simp: reserve_def bind_st_def Let_def split: sum.splits if_splits prod.splits)
    then have "worker_step W (s\<lparr>ws_worker := Some w1\<rparr>) (s\<lparr>ws_worker := Some w', ws_launched := ws_launched s @ (if launched then [d] else [])\<rparr>)"
      using worker_step.execute [OF _ g, of "s\<lparr>ws_worker := Some w1\<rparr>"] by (cases launched) simp_all
    with one show ?thesis by (meson converse_rtranclp_into_rtranclp r_into_rtranclp)
  qed
qed

section \<open>The invariant\<close>

abbreviation inv_row :: "string \<Rightarrow> string" where "inv_row k \<equiv> ''invocation/'' @ k"
abbreviation cancelled_row :: "string \<Rightarrow> string" where "cancelled_row k \<equiv> ''cancel/'' @ k"

text \<open>Of the invocations \<open>L\<close> the consumption is on disk, and of those in \<open>C\<close> the cancellation.\<close>

definition marks :: "string set \<Rightarrow> string set \<Rightarrow> db \<Rightarrow> bool" where
  "marks L C d \<longleftrightarrow> (\<forall>k \<in> L. d (inv_row k) = Some ''consumed'') \<and> (\<forall>k \<in> C. d (cancelled_row k) \<noteq> None)"

definition worker_ok :: "string set \<Rightarrow> string set \<Rightarrow> worker \<Rightarrow> bool" where
  "worker_ok L C w \<longleftrightarrow> wk_db w = disk_image (wk_flushed w) (wk_unflushed w) \<and> marks L C (wk_flushed w)
     \<and> (\<forall>k \<in> L. inv_row k \<notin> fst ` set (wk_unflushed w))"

lemma image_snoc [simp]: "disk_image d (ws @ [(k, v)]) = (disk_image d ws)(k \<mapsto> v)"
  by (simp add: disk_image_def)

lemma image_Nil [simp]: "disk_image d [] = d"
  by (simp add: disk_image_def)

lemma image_other: "k \<notin> fst ` set ws \<Longrightarrow> disk_image d ws k = d k"
  by (induction ws rule: rev_induct) auto

lemma image_some: "d k \<noteq> None \<Longrightarrow> disk_image d ws k \<noteq> None"
  by (induction ws rule: rev_induct) auto

lemma marks_image:
  assumes "marks L C d" "\<forall>k \<in> L. inv_row k \<notin> fst ` set ws"
  shows "marks L C (disk_image d ws)"
  using assms image_other [of _ ws d] image_some [of d _ ws] unfolding marks_def by metis

lemma marks_db: "worker_ok L C w \<Longrightarrow> marks L C (wk_db w)"
  by (simp add: worker_ok_def marks_image)

lemma crash_marks: "worker_ok L C w \<Longrightarrow> subseq kept (wk_unflushed w) \<Longrightarrow> marks L C (disk_image (wk_flushed w) kept)"
  by (rule marks_image) (auto simp: worker_ok_def dest: list_emb_set)

lemma used_io_simps [simp]:
  "wk_db (used_io w) = wk_db w" "wk_incarnation (used_io w) = wk_incarnation w" "worker_ok L C (used_io w) = worker_ok L C w"
  "wk_config (used_io w) = wk_config w"
  by (simp_all add: used_io_def worker_ok_def)

lemma stored_simps [simp]:
  "wk_db (stored k v w) = (wk_db w)(k \<mapsto> v)" "wk_incarnation (stored k v w) = wk_incarnation w" "wk_config (stored k v w) = wk_config w"
  by (simp_all add: stored_def)

lemma stored_ok: "worker_ok L C w \<Longrightarrow> \<forall>k \<in> L. x \<noteq> inv_row k \<Longrightarrow> worker_ok L C (stored x v w)"
  by (auto simp: worker_ok_def stored_def)

lemma db_get_ok: "db_get k w = (r, w') \<Longrightarrow> worker_ok L C w \<Longrightarrow> worker_ok L C w' \<and> wk_db w' = wk_db w \<and> wk_incarnation w' = wk_incarnation w
    \<and> (\<forall>x. r = Inr x \<longrightarrow> x = wk_db w k)"
  by (auto simp: db_get_def db_failure_def split: if_splits)

lemma db_insert_ok:
  "db_insert x v w = (r, w') \<Longrightarrow> worker_ok L C w \<Longrightarrow> \<forall>k \<in> L. x \<noteq> inv_row k \<Longrightarrow>
    worker_ok L C w' \<and> wk_incarnation w' = wk_incarnation w \<and> wk_db w' \<in> {wk_db w, (wk_db w)(x \<mapsto> v)} \<and> (r = Inr () \<longrightarrow> wk_db w' = (wk_db w)(x \<mapsto> v))"
  by (auto simp: db_insert_def db_failure_def stored_ok split: db_outcome.splits)

lemma flushed_ok: "worker_ok L C w \<Longrightarrow> worker_ok L C (w\<lparr>wk_flushed := wk_db w, wk_unflushed := []\<rparr>)"
  using marks_db [of L C w] by (simp add: worker_ok_def)

lemma flush_ok:
  "flush_worker w = (r, w') \<Longrightarrow> worker_ok L C w \<Longrightarrow> worker_ok L C w' \<and> wk_db w' = wk_db w \<and> wk_incarnation w' = wk_incarnation w
    \<and> (r = Inr () \<longrightarrow> wk_flushed w' = wk_db w \<and> wk_unflushed w' = [])"
  using flushed_ok [of L C w] by (auto simp: flush_worker_def db_failure_def split: db_outcome.splits) (auto simp: used_io_def)

lemma db_swap_ok:
  assumes "db_swap x old new w = (r, w')" "worker_ok L C w" "wk_db w x = old \<longrightarrow> (\<forall>k \<in> L. x \<noteq> inv_row k)"
  shows "worker_ok L C w' \<and> wk_incarnation w' = wk_incarnation w \<and> wk_db w' \<in> {wk_db w, (wk_db w)(x \<mapsto> new)}
    \<and> (r = Inr True \<longrightarrow> wk_db w x = old \<and> wk_db w' = (wk_db w)(x \<mapsto> new))"
  using assms stored_ok [OF assms(2), of x new] by (auto simp: db_swap_def db_failure_def split: db_outcome.splits if_splits)

text \<open>A row that is not marked as consumed belongs to no launched invocation.\<close>

lemma not_consumed: "worker_ok L C w \<Longrightarrow> wk_db w x = old \<Longrightarrow> old \<noteq> Some ''consumed'' \<Longrightarrow> \<forall>k \<in> L. x \<noteq> inv_row k"
  using marks_db [of L C w] by (auto simp: marks_def)

lemma bind_st_cases:
  assumes "bind_st p f = (r, w')"
  obtains e where "p = (Inl e, w')" "r = Inl e" | x w1 where "p = (Inr x, w1)" "f x w1 = (r, w')"
  using assms by (auto simp: bind_st_def split: prod.splits sum.splits)

section \<open>Operations\<close>

lemma reserve_ok:
  assumes "reserve W now d w = (r, w')" "worker_ok L C w"
  shows "worker_ok L C w'"
proof (cases "validate_dispatch W d = Inr () \<and> \<not> (dp_namespace d \<noteq> wc_namespace (wk_config w) \<or> dp_worker_id d \<noteq> wc_worker_id (wk_config w) \<or> now \<ge> pl_expires_at (dp_payload d))")
  case False
  then have "w' = w" using assms(1) by (cases "validate_dispatch W d") (auto simp: reserve_def split: if_splits)
  with assms(2) show ?thesis by simp
next
  case True
  let ?a = "\<lparr>ad_dispatch = d, ad_worker_incarnation = wk_incarnation w\<rparr>"
  have "bind_st (db_swap (invocation_row W d) None (wr_admission W ?a) w)
      (\<lambda>swapped w1. if \<not> swapped then (Inl (Err ''invocation already reserved; no replay''), w1)
        else bind_st (db_insert (dispatch_row W d) (wr_dispatch W d) w1)
          (\<lambda>_ w2. bind_st (flush_worker w2) (\<lambda>_ w3. (Inr ?a, w3)))) = (r, w')"
    using assms(1) True by (simp add: reserve_def Let_def)
  then show ?thesis
  proof (cases rule: bind_st_cases)
    case (1 e)
    from db_swap_ok [OF 1(1) assms(2)] not_consumed [OF assms(2)] show ?thesis by blast
  next
    case (2 sw w1)
    have w1: "worker_ok L C w1" using db_swap_ok [OF 2(1) assms(2)] not_consumed [OF assms(2)] by blast
    show ?thesis
    proof (cases sw)
      case False
      with 2(2) w1 show ?thesis by simp
    next
      case True
      with 2(2) have "bind_st (db_insert (dispatch_row W d) (wr_dispatch W d) w1) (\<lambda>_ w2. bind_st (flush_worker w2) (\<lambda>_ w3. (Inr ?a, w3))) = (r, w')" by simp
      then show ?thesis
      proof (cases rule: bind_st_cases)
        case (1 e)
        from db_insert_ok [OF 1(1) w1] show ?thesis by simp
      next
        case (2 u w2)
        have "worker_ok L C w2" using db_insert_ok [OF 2(1) w1] by simp
        with 2(2) show ?thesis by (cases rule: bind_st_cases) (auto dest: flush_ok)
      qed
    qed
  qed
qed

lemma consume_ok:
  assumes W: "wire_ok W" and c: "consume W a p w = (r, w')" and ok: "worker_ok L C w"
  shows "worker_ok L C w' \<and> (\<forall>pl. r = Inr pl \<longrightarrow> dispatch_key W (ad_dispatch a) \<notin> L \<and> dispatch_key W (ad_dispatch a) \<notin> C
    \<and> worker_ok (insert (dispatch_key W (ad_dispatch a)) L) C w')"
proof -
  let ?d = "ad_dispatch a"
  have nc: "Some (wr_admission W a) \<noteq> Some ''consumed''" using W by (simp add: wire_ok_def)
  from c have "bind_st (db_get (cancel_row W ?d) w)
        (\<lambda>c w1. if c \<noteq> None then (Inl (Err ''invocation cancelled before launch''), w1)
          else if p \<noteq> admission_permit W a \<or> ad_worker_incarnation a \<noteq> wk_incarnation w1
          then (Inl (Err ''wrong launch binding/incarnation''), w1)
          else bind_st (db_swap (invocation_row W ?d) (Some (wr_admission W a)) ''consumed'' w1)
            (\<lambda>swapped w2. if \<not> swapped then (Inl (Err ''launch permission already consumed''), w2)
              else bind_st (flush_worker w2) (\<lambda>_ w3. (Inr (dp_payload ?d), w3)))) = (r, w')" by (simp add: consume_def Let_def)
  then show ?thesis
  proof (cases rule: bind_st_cases)
    case (1 e)
    with db_get_ok [OF 1(1) ok] show ?thesis by simp
  next
    case (2 x w1)
    note g = db_get_ok [OF 2(1) ok]
    then have ok1: "worker_ok L C w1" by blast
    show ?thesis
    proof (cases "x \<noteq> None \<or> p \<noteq> admission_permit W a \<or> ad_worker_incarnation a \<noteq> wk_incarnation w1")
      case True
      then have "w' = w1 \<and> (\<exists>e. r = Inl e)" using 2(2) by (auto split: if_splits)
      with ok1 show ?thesis by auto
    next
      case False
      have nC: "dispatch_key W ?d \<notin> C" using marks_db [OF ok] g False by (auto simp: marks_def)
      from False 2(2) have "bind_st (db_swap (invocation_row W ?d) (Some (wr_admission W a)) ''consumed'' w1)
            (\<lambda>swapped w2. if \<not> swapped then (Inl (Err ''launch permission already consumed''), w2)
              else bind_st (flush_worker w2) (\<lambda>_ w3. (Inr (dp_payload ?d), w3))) = (r, w')" by simp
      then show ?thesis
      proof (cases rule: bind_st_cases)
        case (1 e)
        with db_swap_ok [OF 1(1) ok1] not_consumed [OF ok1 _ nc] show ?thesis by blast
      next
        case (2 sw w2)
        have s: "worker_ok L C w2" "sw \<Longrightarrow> wk_db w1 (invocation_row W ?d) = Some (wr_admission W a) \<and> wk_db w2 = (wk_db w1)(invocation_row W ?d \<mapsto> ''consumed'')"
          using db_swap_ok [OF 2(1) ok1] not_consumed [OF ok1 _ nc] by blast+
        show ?thesis
        proof (cases sw)
          case False
          with 2(2) s(1) show ?thesis by auto
        next
          case True
          note s2 = s(2) [OF True]
          have nL: "dispatch_key W ?d \<notin> L" using not_consumed [OF ok1 conjunct1 [OF s2] nc] by blast
          from True 2(2) have "bind_st (flush_worker w2) (\<lambda>_ w3. (Inr (dp_payload ?d), w3)) = (r, w')" by simp
          then show ?thesis
          proof (cases rule: bind_st_cases)
            case (1 e)
            with flush_ok [OF 1(1) s(1)] show ?thesis by simp
          next
            case (2 u w3)
            then have f: "worker_ok L C w'" "wk_flushed w' = wk_db w2" "wk_unflushed w' = []" using flush_ok [OF 2(1) s(1)] by auto
            have "worker_ok (insert (dispatch_key W ?d) L) C w'" using f s2 by (simp add: worker_ok_def marks_def)
            with f(1) nL nC show ?thesis by blast
          qed
        qed
      qed
    qed
  qed
qed

lemma execute_ok:
  assumes W: "wire_ok W" and e: "execute_gate W submit a p w = (launched, r, w')" and ok: "worker_ok L C w"
  shows "if launched then dispatch_key W (ad_dispatch a) \<notin> L \<and> dispatch_key W (ad_dispatch a) \<notin> C
      \<and> worker_ok (insert (dispatch_key W (ad_dispatch a)) L) C w' else worker_ok L C w'"
proof -
  let ?k = "dispatch_key W (ad_dispatch a)"
  obtain c w1 where c: "consume W a p w = (c, w1)" by fastforce
  note co = consume_ok [OF W c ok]
  have receipt: "worker_ok M C w2" if "store_receipt W (ad_dispatch a) i w1 = (r', w2)" "worker_ok M C w1" for i r' w2 M
    using that(1) unfolding store_receipt_def
  proof (cases rule: bind_st_cases)
    case (1 e)
    from db_insert_ok [OF 1(1) that(2)] show ?thesis by simp
  next
    case (2 u w3)
    have "worker_ok M C w3" using db_insert_ok [OF 2(1) that(2)] by simp
    with 2(2) show ?thesis by (cases rule: bind_st_cases) (auto dest: flush_ok)
  qed
  show ?thesis
  proof (cases c)
    case (Inl x)
    with e c co show ?thesis by (auto simp: execute_gate_def)
  next
    case (Inr pl)
    then have n: "?k \<notin> L" "?k \<notin> C" "worker_ok (insert ?k L) C w1" using co by blast+
    show ?thesis
    proof (cases "submit pl")
      case (Inl x)
      with e c Inr n show ?thesis by (auto simp: execute_gate_def)
    next
      case s: (Inr i)
      obtain r' w2 where st: "store_receipt W (ad_dispatch a) i w1 = (r', w2)" by fastforce
      with e c Inr s receipt [OF st n(3)] n show ?thesis by (auto simp: execute_gate_def)
    qed
  qed
qed

lemma cancel_gate_ok:
  assumes c: "cancel_gate W R d w = (r, w')" and ok: "worker_ok L C w"
  shows "worker_ok L C w' \<and> (r = Inr CancelledStopped \<longrightarrow> dispatch_key W d \<notin> L \<and> worker_ok L (insert (dispatch_key W d) C) w')"
  using c unfolding cancel_gate_def
proof (cases rule: bind_st_cases)
  case (1 e)
  with db_get_ok [OF 1(1) ok] show ?thesis by simp
next
  case (2 bound w1)
  have ok1: "worker_ok L C w1" using db_get_ok [OF 2(1) ok] by blast
  show ?thesis
  proof (cases "bound \<noteq> None \<and> bound \<noteq> Some (wr_dispatch W d)")
    case True
    with 2(2) ok1 show ?thesis by auto
  next
    case False
    note rest = 2(2) [unfolded if_not_P [OF False]]
    from rest show ?thesis
    proof (cases rule: bind_st_cases)
      case (1 e)
      with db_insert_ok [OF 1(1) ok1] show ?thesis by simp
    next
      case (2 u w2)
      have i: "worker_ok L C w2" "wk_db w2 = (wk_db w1)(cancel_row W d \<mapsto> ''cancelled'')" using db_insert_ok [OF 2(1) ok1] by simp_all
      from 2(2) show ?thesis
      proof (cases rule: bind_st_cases)
        case (1 e)
        with flush_ok [OF 1(1) i(1)] show ?thesis by simp
      next
        case (2 u' w3)
        have f: "worker_ok L C w3" "wk_flushed w3 = wk_db w2" "wk_unflushed w3 = []" using flush_ok [OF 2(1) i(1)] by simp_all
        have new: "worker_ok L (insert (dispatch_key W d) C) w3" using f i(2) by (simp add: worker_ok_def marks_def)
        from 2(2) show ?thesis
        proof (cases rule: bind_st_cases)
          case (1 e)
          with db_get_ok [OF 1(1) f(1)] show ?thesis by simp
        next
          case (2 receipt w4)
          have ok4: "worker_ok L C w4" "worker_ok L (insert (dispatch_key W d) C) w4" using db_get_ok [OF 2(1) f(1)] db_get_ok [OF 2(1) new] by simp_all
          show ?thesis
          proof (cases receipt)
            case (Some x)
            then have "w' = w4" "r \<noteq> Inr CancelledStopped" using 2(2) by (auto split: option.splits sum.splits prod.splits if_splits)
            with ok4 show ?thesis by simp
          next
            case None
            note last = 2(2) [unfolded None option.case]
            from last show ?thesis
            proof (cases rule: bind_st_cases)
              case (1 e)
              with db_get_ok [OF 1(1) ok4(1)] show ?thesis by simp
            next
              case (2 rec w5)
              have w5: "w' = w5" "r = Inr CancelledStopped \<Longrightarrow> rec \<noteq> Some ''consumed''" using 2(2) by (auto split: if_splits)
              note g = db_get_ok [OF 2(1) ok4(1)] db_get_ok [OF 2(1) ok4(2)]
              have "dispatch_key W d \<notin> L" if "r = Inr CancelledStopped" using w5(2) [OF that] g(1) marks_db [OF ok4(1)] by (auto simp: marks_def)
              with g w5(1) show ?thesis by blast
            qed
          qed
        qed
      qed
    qed
  qed
qed

lemma cancel_ok:
  assumes "cancel_request W R d w = (r, w')" "worker_ok L C w"
  shows "worker_ok L C w' \<and> (r = Inr CancelledStopped \<longrightarrow> dispatch_key W d \<notin> L \<and> worker_ok L (insert (dispatch_key W d) C) w')"
proof (cases "validate_dispatch W d = Inr () \<and> \<not> (dp_namespace d \<noteq> wc_namespace (wk_config w) \<or> dp_worker_id d \<noteq> wc_worker_id (wk_config w))")
  case True
  then have "cancel_gate W R d w = (r, w')" using assms(1) by (simp add: cancel_request_def)
  from cancel_gate_ok [OF this assms(2)] show ?thesis .
next
  case False
  then have "w' = w \<and> (\<exists>e. r = Inl e)" using assms(1) by (cases "validate_dispatch W d") (auto simp: cancel_request_def split: if_splits)
  with assms(2) show ?thesis by auto
qed

lemma start_ok:
  assumes n: "worker_new W H cfg io disk = (r, Some w)" and m: "marks L C disk"
  shows "worker_ok L C w"
proof -
  obtain t u where b: "bind_store W H \<lparr>wk_config = cfg, wk_incarnation = wh_incarnation H, wk_bearer = t,
      wk_admission_bearer = u, wk_db = disk, wk_flushed = disk, wk_unflushed = [], wk_io = io\<rparr> = (r, w)" (is "bind_store W H ?w = _")
    using n by (auto simp: worker_new_def split: if_splits sum.splits prod.splits)
  define w0 where "w0 = ?w"
  then have w0: "wk_db w0 = disk" "wk_flushed w0 = disk" "wk_unflushed w0 = []" and b: "bind_store W H w0 = (r, w)" using b by simp_all
  have ok: "worker_ok L C w0" using w0 m by (simp add: worker_ok_def)
  from b show ?thesis unfolding bind_store_def Let_def
  proof (cases rule: bind_st_cases)
    case (1 e)
    with db_get_ok [OF 1(1) ok] show ?thesis by simp
  next
    case (2 old w1)
    have ok1: "worker_ok L C w1" using db_get_ok [OF 2(1) ok] by blast
    show ?thesis
    proof (cases "old \<noteq> None \<or> wh_other_tree H \<or> wk_db w1 \<noteq> Map.empty")
      case True
      then have "w = w1" using 2(2) by (auto split: option.splits if_splits)
      with ok1 show ?thesis by simp
    next
      case False
      with 2(2) have "bind_st (db_insert ''binding'' (wr_binding W (1, wc_namespace (wk_config w0), wc_worker_id (wk_config w0))) w1) (\<lambda>_. flush_worker) = (r, w)" by simp
      then show ?thesis
      proof (cases rule: bind_st_cases)
        case (1 e)
        from db_insert_ok [OF 1(1) ok1] show ?thesis by simp
      next
        case (2 u w2)
        have "worker_ok L C w2" using db_insert_ok [OF 2(1) ok1] by simp
        with flush_ok [OF 2(2)] show ?thesis by blast
      qed
    qed
  qed
qed

section \<open>Runs\<close>

definition worker_sys_ok :: "wire \<Rightarrow> worker_sys \<Rightarrow> bool" where
  "worker_sys_ok W s \<longleftrightarrow>
     (let L = dispatch_key W ` set (ws_launched s); C = dispatch_key W ` set (ws_cancelled s) in
      distinct (map (dispatch_key W) (ws_launched s)) \<and> L \<inter> C = {}
      \<and> (case ws_worker s of None \<Rightarrow> marks L C (ws_disk s) | Some w \<Rightarrow> worker_ok L C w))"

lemma worker_step_ok:
  assumes W: "wire_ok W" and st: "worker_step W s s'" and ok: "worker_sys_ok W s"
  shows "worker_sys_ok W s'"
  using st
proof (cases rule: worker_step.cases)
  case (reserve w now d r w')
  with reserve_ok [OF reserve(3)] ok show ?thesis by (auto simp: worker_sys_ok_def Let_def)
next
  case (execute w submit a p launched r w')
  have "worker_ok (dispatch_key W ` set (ws_launched s)) (dispatch_key W ` set (ws_cancelled s)) w" using ok execute(2) by (simp add: worker_sys_ok_def Let_def)
  from execute_ok [OF W execute(3) this] execute(1,2) ok show ?thesis by (auto simp: worker_sys_ok_def Let_def split: if_splits)
next
  case (cancel w R d r w')
  have "worker_ok (dispatch_key W ` set (ws_launched s)) (dispatch_key W ` set (ws_cancelled s)) w" using ok cancel(2) by (simp add: worker_sys_ok_def Let_def)
  from cancel_ok [OF cancel(3) this] cancel(1,2) ok show ?thesis by (auto simp: worker_sys_ok_def Let_def split: if_splits)
next
  case (crash w kept)
  with crash_marks ok show ?thesis by (auto simp: worker_sys_ok_def Let_def)
next
  case (start H cfg io w)
  with start_ok [OF start(3)] ok show ?thesis by (auto simp: worker_sys_ok_def Let_def)
next
  case (start_failed H cfg io e w kept)
  with crash_marks [OF start_ok [OF start_failed(3)] start_failed(4)] ok show ?thesis by (auto simp: worker_sys_ok_def Let_def)
qed

lemma worker_run_ok:
  assumes W: "wire_ok W" and run: "worker_runs W worker_start s"
  shows "worker_sys_ok W s"
  using run
proof (induction rule: rtranclp_induct)
  case base
  show ?case by (simp add: worker_sys_ok_def worker_start_def marks_def)
qed (use worker_step_ok [OF W] in blast)

lemma worker_run_grows: "worker_runs W s s' \<Longrightarrow> set (ws_launched s) \<subseteq> set (ws_launched s') \<and> set (ws_cancelled s) \<subseteq> set (ws_cancelled s')"
  by (induction rule: rtranclp_induct) (auto elim!: worker_step.cases)

section \<open>A run\<close>

text \<open>Inputs of the witnesses: a worker that starts, reserves and launches one invocation, is refused a second launch, and
  cancels another one.\<close>

definition plain_wire :: wire where
  "plain_wire = \<lparr>wr_key = (\<lambda>(n, s, i, a). n @ '':'' @ replicate (unat i) CHR ''i'' @ replicate (unat a) CHR ''a''), wr_payload_digest = (\<lambda>_. ''p''),
     wr_text_digest = (\<lambda>_. ''t''), wr_admission = (\<lambda>a. ''{'' @ ad_worker_incarnation a), wr_dispatch = (\<lambda>_. ''d''),
     wr_receipt = (\<lambda>(i, e). i @ '','' @ e), wr_unreceipt = (\<lambda>_. None), wr_binding = (\<lambda>_. ''b'')\<rparr>"

definition plain_dispatch :: "u64 \<Rightarrow> dispatch" where
  "plain_dispatch i = \<lparr>dp_version = 1, dp_namespace = ''n'', dp_schedule_id = 1, dp_occurrence_id = i, dp_attempt = 1, dp_owner = ''o'', dp_epoch = 1,
     dp_worker_id = ''w'', dp_authority = ''t'', dp_payload_digest = ''p'',
     dp_payload = \<lparr>pl_code = [], pl_session = ''s'', pl_timeout_seconds = 1, pl_heap_mb = 16, pl_expires_at = 10\<rparr>\<rparr>"

definition plain_host :: worker_host where
  "plain_host = \<lparr>wh_parse = (\<lambda>_. Inr \<lparr>url_scheme = ''https'', url_host = None, url_username = [], url_password = None, url_query = None,
     url_fragment = None, url_path = ''/''\<rparr>), wh_env = (\<lambda>_. Some ''x''), wh_foreign_dir = False, wh_other_tree = False, wh_incarnation = ''1''\<rparr>"

definition plain_config :: worker_config where
  "plain_config = \<lparr>wc_namespace = ''n'', wc_worker_id = ''w'', wc_data_dir = ''d'', wc_bearer_env = ''B'', wc_admission_bearer_env = ''A'',
     wc_admission_urls = [''u'']\<rparr>"

definition plain_admission :: "u64 \<Rightarrow> admission" where
  "plain_admission i = \<lparr>ad_dispatch = plain_dispatch i, ad_worker_incarnation = ''1''\<rparr>"

definition plain_runtime :: runtime where
  "plain_runtime = \<lparr>rt_status = (\<lambda>_. Inl ''none''), rt_stopped = (\<lambda>_. False)\<rparr>"

definition plain_worker :: "db \<Rightarrow> worker" where
  "plain_worker d = \<lparr>wk_config = plain_config, wk_incarnation = ''1'', wk_bearer = ''x'', wk_admission_bearer = ''x'', wk_db = d, wk_flushed = d,
     wk_unflushed = [], wk_io = []\<rparr>"

definition plain_rows :: db where
  "plain_rows = [''binding'' \<mapsto> ''b'']"

definition reserved_rows :: db where
  "reserved_rows = plain_rows(''invocation/n:ia'' \<mapsto> ''{1'', ''dispatch/n:ia'' \<mapsto> ''d'')"

definition launched_rows :: db where
  "launched_rows = reserved_rows(''invocation/n:ia'' \<mapsto> ''consumed'', ''execution/n:ia'' \<mapsto> ''1,e'')"

definition cancelled_rows :: db where
  "cancelled_rows = launched_rows(''cancel/n:iia'' \<mapsto> ''cancelled'')"

lemmas plain_defs = plain_wire_def plain_dispatch_def plain_admission_def plain_worker_def dispatch_key_def bind_st_def db_get_def db_insert_def db_swap_def
  flush_worker_def next_io_def used_io_def stored_def

lemma plain_valid: "validate_dispatch plain_wire (plain_dispatch i) = Inr ()"
  by (simp add: validate_dispatch_def plain_wire_def plain_dispatch_def)

lemma plain_started: "worker_new plain_wire plain_host plain_config [] Map.empty = (Inr (), Some (plain_worker plain_rows))"
  by (simp add: worker_new_def plain_host_def plain_config_def validate_origin_def map_err_def secret_def bind_store_def Let_def plain_defs plain_rows_def)

lemma plain_reserved: "reserve plain_wire 0 (plain_dispatch 1) (plain_worker plain_rows) = (Inr (plain_admission 1), plain_worker reserved_rows)"
  unfolding reserve_def plain_valid
  by (simp add: plain_defs plain_config_def plain_rows_def reserved_rows_def)

lemma plain_launched:
  "execute_gate plain_wire (\<lambda>_. Inr ''e'') (plain_admission 1) (admission_permit plain_wire (plain_admission 1)) (plain_worker reserved_rows)
     = (True, Inr (Some ''e''), plain_worker launched_rows)"
  by (simp add: execute_gate_def consume_def store_receipt_def plain_defs plain_rows_def reserved_rows_def launched_rows_def)

lemma plain_cancelled:
  "cancel_request plain_wire plain_runtime (plain_dispatch 2) (plain_worker launched_rows) = (Inr CancelledStopped, plain_worker cancelled_rows)"
proof -
  have r: "replicate 2 CHR ''i'' = ''ii''" by (simp add: numeral_2_eq_2)
  show ?thesis unfolding cancel_request_def plain_valid
    by (simp add: cancel_gate_def plain_defs plain_config_def plain_rows_def reserved_rows_def launched_rows_def cancelled_rows_def r)
qed

definition plain_sys :: "db \<Rightarrow> dispatch list \<Rightarrow> dispatch list \<Rightarrow> worker_sys" where
  "plain_sys rows ls cs = \<lparr>ws_worker = Some (plain_worker rows), ws_disk = Map.empty, ws_launched = ls, ws_cancelled = cs\<rparr>"

lemma plain_run: "worker_runs plain_wire worker_start (plain_sys cancelled_rows [plain_dispatch 1] [plain_dispatch 2])"
proof -
  have up: "ws_worker (plain_sys d ls cs) = Some (plain_worker d)" "(plain_sys d ls cs)\<lparr>ws_worker := Some (plain_worker d')\<rparr> = plain_sys d' ls cs"
    "(plain_sys d ls cs)\<lparr>ws_worker := Some (plain_worker d'), ws_launched := ls'\<rparr> = plain_sys d' ls' cs" "ws_launched (plain_sys d ls cs) = ls"
    "(plain_sys d ls cs)\<lparr>ws_worker := Some (plain_worker d'), ws_cancelled := cs'\<rparr> = plain_sys d' ls cs'" "ws_cancelled (plain_sys d ls cs) = cs"
    for d d' ls cs ls' cs' by (simp_all add: plain_sys_def)
  have 1: "worker_step plain_wire worker_start (plain_sys plain_rows [] [])"
  proof -
    have "worker_step plain_wire worker_start (worker_start\<lparr>ws_worker := Some (plain_worker plain_rows)\<rparr>)"
      by (rule worker_step.start) (use plain_started in \<open>simp_all add: worker_start_def\<close>)
    then show ?thesis by (simp add: worker_start_def plain_sys_def)
  qed
  have 2: "worker_step plain_wire (plain_sys plain_rows [] []) (plain_sys reserved_rows [] [])"
    using worker_step.reserve [OF up(1) plain_reserved, of "[]" "[]"] unfolding up .
  have 3: "worker_step plain_wire (plain_sys reserved_rows [] []) (plain_sys launched_rows [plain_dispatch 1] [])"
    using worker_step.execute [OF up(1) plain_launched, of "[]" "[]"] unfolding up(3,4) by (simp add: plain_admission_def)
  have 4: "worker_step plain_wire (plain_sys launched_rows [plain_dispatch 1] []) (plain_sys cancelled_rows [plain_dispatch 1] [plain_dispatch 2])"
    using worker_step.cancel [OF up(1) plain_cancelled, of "[plain_dispatch 1]" "[]"] unfolding up(5,6) by simp
  from 1 2 3 4 show ?thesis by (meson converse_rtranclp_into_rtranclp rtranclp.rtrancl_refl)
qed

lemma plain_wire_ok: "wire_ok plain_wire"
  by (simp add: wire_ok_def plain_wire_def)

section \<open>Properties\<close>

text \<open>C9. A worker launches an invocation at most once, over any sequence of requests, failed writes and flushes, crashes that
  keep any of the writes since the last flush, and starts: no two launches have the same namespace, schedule, occurrence and attempt.\<close>

theorem launch_at_most_once:
  assumes "wire_ok W" and "worker_runs W worker_start s"
  shows "distinct (map dispatch_identity (ws_launched s))"
proof -
  have "distinct (map (dispatch_key W) (ws_launched s))" using worker_run_ok [OF assms] by (simp add: worker_sys_ok_def Let_def)
  moreover have "map (dispatch_key W) (ws_launched s) = map (wr_key W) (map dispatch_identity (ws_launched s))" by (simp add: dispatch_key_identity)
  ultimately show ?thesis by (simp only: distinct_map)
qed

theorem launch_at_most_once_witness:
  "ws_launched (plain_sys cancelled_rows [plain_dispatch 1] [plain_dispatch 2]) = [plain_dispatch 1]
    \<and> distinct (map dispatch_identity [plain_dispatch 1])"
  using launch_at_most_once [OF plain_wire_ok plain_run] by (simp add: plain_sys_def)

text \<open>C14. A cancellation that was answered as stopped without a launch is final: the invocation was not launched before and is
  never launched later, across failures, crashes and starts.\<close>

theorem cancelled_never_launched:
  assumes "wire_ok W" and "worker_runs W worker_start s" and "worker_runs W s s'"
    and "d \<in> set (ws_cancelled s)"
  shows "dispatch_identity d \<notin> dispatch_identity ` set (ws_launched s')"
proof
  assume "dispatch_identity d \<in> dispatch_identity ` set (ws_launched s')"
  then obtain e where e: "e \<in> set (ws_launched s')" "dispatch_identity d = dispatch_identity e" by blast
  then have "dispatch_key W d \<in> dispatch_key W ` set (ws_launched s')" by (auto simp: dispatch_key_identity)
  moreover have "dispatch_key W d \<in> dispatch_key W ` set (ws_cancelled s')" using worker_run_grows [OF assms(3)] assms(4) by blast
  moreover have "worker_sys_ok W s'" by (rule worker_run_ok [OF assms(1)]) (use assms(2,3) in auto)
  ultimately show False unfolding worker_sys_ok_def Let_def by blast
qed

theorem cancelled_never_launched_witness:
  "dispatch_identity (plain_dispatch 2) \<notin> dispatch_identity ` set (ws_launched (plain_sys cancelled_rows [plain_dispatch 1] [plain_dispatch 2]))"
  by (rule cancelled_never_launched [OF plain_wire_ok plain_run rtranclp.rtrancl_refl]) (simp add: plain_sys_def)

end
