(* ===== verification/Sched_Replicated.thy ===== *)
theory Sched_Replicated
  imports Sched_System Sched_Protocol
begin

text \<open>
  The replicated planner (\<open>src/scheduler-runner/src/replicated.rs\<close>): the scheduler state with its claims and admissions is
  one value of the cluster, and every change is a compare-and-swap of that value by the leader of a term. A call is
  split where the code awaits the cluster: what it computes up to the compare-and-swap, and what it does with the answer.
  \<open>serde_json\<close> on the envelope is the parameter \<open>env_codec\<close>; what the cluster answers is an argument.
\<close>

section \<open>Data\<close>

record envelope =
  en_version :: u32
  en_epoch :: u64
  en_claims :: "(string, dispatch) btm"
  en_admissions :: "(string, permit) btm"
  en_revision :: u64
  en_owner :: string
  en_term :: nat
  en_contract :: string
  en_checkpoint :: string

record env_codec =
  ec_to :: "envelope \<Rightarrow> string + string"
  ec_from :: "string \<Rightarrow> string + envelope"

record ('cron, 'tz) planner =
  pn_cal :: "('cron, 'tz) calendar"
  pn_codec :: codec
  pn_env :: env_codec
  pn_wire :: wire

record remote_config =
  rc_url :: string
  rc_namespace :: string
  rc_worker_id :: string
  rc_bearer_env :: string
  rc_expires_at :: time
  rc_session :: string
  rc_timeout_seconds :: u64
  rc_heap_mb :: u64

text \<open>\<open>ClaimMetadata\<close>: a dispatch without its code, which the core keeps.\<close>

definition claim_metadata :: "dispatch \<Rightarrow> dispatch" where
  "claim_metadata d = d\<lparr>dp_payload := (dp_payload d)\<lparr>pl_code := []\<rparr>\<rparr>"

definition claim_matches :: "dispatch \<Rightarrow> dispatch \<Rightarrow> bool" where
  "claim_matches m d \<longleftrightarrow> m = claim_metadata d"

definition claim_dispatch :: "wire \<Rightarrow> core \<Rightarrow> dispatch \<Rightarrow> dispatch result" where
  "claim_dispatch W c m =
     (case definition_of c (dp_schedule_id m) of
        None \<Rightarrow> Inl (Err ''missing claim definition'')
      | Some df \<Rightarrow>
         (let d = m\<lparr>dp_payload := (dp_payload m)\<lparr>pl_code := def_code df\<rparr>\<rparr>
          in bind_res (validate_dispatch W d) (\<lambda>_. Inr d)))"

definition MAX_CHECKPOINT_BYTES :: nat where "MAX_CHECKPOINT_BYTES = 4 * 1024 * 1024"

definition checked_envelope :: "env_codec \<Rightarrow> envelope \<Rightarrow> string result" where
  "checked_envelope E e =
     bind_res (map_err (ec_to E e))
       (\<lambda>json. if length json > MAX_CHECKPOINT_BYTES then Inl (Err ''scheduler checkpoint exceeds 4 MiB budget'') else Inr json)"

text \<open>Claims of receipts that are gone or past their attempt are dropped, and admissions with them.\<close>

definition prune_receipts :: "core \<Rightarrow> envelope \<Rightarrow> envelope" where
  "prune_receipts c e =
     (let retained = (\<lambda>oc. (occ_id oc, attempt (occ_status oc))) ` set (occurrences_list c);
          claims = btm_retain (\<lambda>_ d. (dp_occurrence_id d, dp_attempt d) \<in> retained) (en_claims e)
      in e\<lparr>en_claims := claims, en_admissions := btm_retain (\<lambda>k _. btm_get claims k \<noteq> None) (en_admissions e)\<rparr>)"

datatype admission_decision = Granted permit | NotLaunched

record replicated =
  rp_expected :: string
  rp_envelope :: envelope
  rp_core :: core
  rp_limits :: limits
  rp_valid :: bool

section \<open>Acquiring the plan\<close>

text \<open>A node of the cluster as \<open>acquire\<close> sees it: whether its voters are fixed, its id, its role and term, and what the barrier and
  the read answered.\<close>

record node_view =
  nv_fixed :: bool
  nv_id :: string
  nv_leader :: bool
  nv_term :: nat
  nv_barrier :: "unit result"
  nv_read :: "string option result"

definition create_all :: "('cron, 'tz) planner \<Rightarrow> sched_definition list \<Rightarrow> time \<Rightarrow> core \<Rightarrow> core result" where
  "create_all P ds now c =
     fold_res (\<lambda>d c. case create (pn_cal P) (pn_codec P) Flushed c d now of (Inl e, _) \<Rightarrow> Inl e | (Inr _, c') \<Rightarrow> Inr c') ds c"

definition next_envelope :: "node_view \<Rightarrow> envelope option \<Rightarrow> string \<Rightarrow> string result \<Rightarrow> envelope result" where
  "next_envelope N old contract check =
     (case (case old of None \<Rightarrow> Some 1 | Some e \<Rightarrow> checked_add (en_epoch e) 1) of
        None \<Rightarrow> Inl (Err ''epoch exhausted'')
      | Some epoch \<Rightarrow>
         (case (case old of None \<Rightarrow> Some 1 | Some e \<Rightarrow> checked_add (en_revision e) 1) of
            None \<Rightarrow> Inl (Err ''revision exhausted'')
          | Some revision \<Rightarrow>
             bind_res check (\<lambda>text. Inr \<lparr>en_version = 2, en_epoch = epoch,
                en_claims = (case old of None \<Rightarrow> [] | Some e \<Rightarrow> en_claims e),
                en_admissions = (case old of None \<Rightarrow> [] | Some e \<Rightarrow> en_admissions e),
                en_revision = revision, en_owner = nv_id N, en_term = nv_term N, en_contract = contract, en_checkpoint = text\<rparr>)))"

text \<open>Up to the compare-and-swap: the value it expects, the new value, and the plan that a success gives.\<close>

definition acquire_prepare ::
  "('cron, 'tz) planner \<Rightarrow> node_view \<Rightarrow> limits \<Rightarrow> sched_definition list \<Rightarrow> string \<Rightarrow> time
   \<Rightarrow> (string option \<times> string \<times> replicated) result" where
  "acquire_prepare P N l defs contract now =
     (if \<not> nv_fixed N then Inl (Err ''scheduler requires fixed voters'')
      else if \<not> nv_leader N then Inl (Err ''not leader'')
      else bind_res (nv_barrier N) (\<lambda>_. bind_res (nv_read N) (\<lambda>expected.
        bind_res (case expected of
                    None \<Rightarrow> Inr None
                  | Some text \<Rightarrow>
                     (case ec_from (pn_env P) text of
                        Inl e \<Rightarrow> Inl (Err (''unsupported scheduler checkpoint; explicit migration required: '' @ e))
                      | Inr old \<Rightarrow> Inr (Some old)))
          (\<lambda>old. if (case old of None \<Rightarrow> False | Some e \<Rightarrow> en_contract e \<noteq> contract)
            then Inl (Err ''persisted execution contract differs; explicit migration required'')
            else bind_res (from_checkpoint (pn_codec P) Flushed (map_option en_checkpoint old) l True)
             (\<lambda>c0. bind_res (if old = None then create_all P defs now c0 else Inr c0)
              (\<lambda>c. if (case old of None \<Rightarrow> False | Some e \<Rightarrow> en_version e \<noteq> 2)
                then Inl (Err ''explicit scheduler schema migration required'')
                else bind_res (next_envelope N old contract (checkpoint (pn_codec P) c))
                  (\<lambda>e0. let e = prune_receipts c e0 in
                    bind_res (checked_envelope (pn_env P) e)
                     (\<lambda>new. Inr (expected, new, \<lparr>rp_expected = new, rp_envelope = e, rp_core = c, rp_limits = l, rp_valid = True\<rparr>)))))))))"

definition acquire ::
  "('cron, 'tz) planner \<Rightarrow> node_view \<Rightarrow> bool result \<Rightarrow> limits \<Rightarrow> sched_definition list \<Rightarrow> string \<Rightarrow> time \<Rightarrow> replicated result" where
  "acquire P N swapped l defs contract now =
     bind_res (acquire_prepare P N l defs contract now)
       (\<lambda>(_, _, r). bind_res swapped (\<lambda>ok. if \<not> ok then Inl (Err ''acquisition raced; reload'') else Inr r))"

section \<open>Transitions\<close>

type_synonym 'a action = "core \<Rightarrow> envelope \<Rightarrow> 'a result \<times> core \<times> envelope"

definition stage_envelope :: "('cron, 'tz) planner \<Rightarrow> replicated \<Rightarrow> core \<Rightarrow> envelope \<Rightarrow> (envelope \<times> string) result" where
  "stage_envelope P r staged nx =
     (case checked_add (en_revision (rp_envelope r)) 1 of
        None \<Rightarrow> Inl (Err ''revision exhausted'')
      | Some revision \<Rightarrow>
         bind_res (checkpoint (pn_codec P) staged)
          (\<lambda>check. let e = prune_receipts staged \<lparr>en_version = 2, en_epoch = en_epoch nx, en_claims = en_claims nx,
                       en_admissions = en_admissions nx, en_revision = revision, en_owner = en_owner (rp_envelope r),
                       en_term = en_term (rp_envelope r), en_contract = en_contract (rp_envelope r), en_checkpoint = check\<rparr>
             in bind_res (checked_envelope (pn_env P) e) (\<lambda>new. Inr (e, new))))"

text \<open>Up to the compare-and-swap. The plan is invalid from then on, until the answer is known.\<close>

definition transition_prepare ::
  "('cron, 'tz) planner \<Rightarrow> bool \<times> nat \<Rightarrow> 'a action \<Rightarrow> replicated \<Rightarrow> ('a \<times> envelope \<times> string \<times> core) result \<times> replicated" where
  "transition_prepare P status act r =
     (if \<not> rp_valid r then (Inl (Err ''owner invalidated; reacquire''), r)
      else if \<not> fst status \<or> snd status \<noteq> en_term (rp_envelope r) then (Inl (Err ''leadership changed''), r\<lparr>rp_valid := False\<rparr>)
      else case from_checkpoint (pn_codec P) Flushed (Some (en_checkpoint (rp_envelope r))) (rp_limits r) False of
        Inl e \<Rightarrow> (Inl e, r)
      | Inr c \<Rightarrow>
         (case map_err (ec_from (pn_env P) (rp_expected r)) of
            Inl e \<Rightarrow> (Inl e, r)
          | Inr nx \<Rightarrow>
             (case act c nx of
                (Inl e, _, _) \<Rightarrow> (Inl e, r)
              | (Inr x, staged, nx') \<Rightarrow>
                 (case stage_envelope P r staged nx' of
                    Inl e \<Rightarrow> (Inl e, r)
                  | Inr (e, new) \<Rightarrow> (Inr (x, e, new, staged), r\<lparr>rp_valid := False\<rparr>)))))"

definition transition_state ::
  "('cron, 'tz) planner \<Rightarrow> bool \<times> nat \<Rightarrow> bool result \<Rightarrow> 'a action \<Rightarrow> replicated \<Rightarrow> 'a result \<times> replicated" where
  "transition_state P status swapped act r =
     (case transition_prepare P status act r of
        (Inl e, r') \<Rightarrow> (Inl e, r')
      | (Inr (x, e, new, staged), r') \<Rightarrow>
         (case swapped of
            Inl err \<Rightarrow> (Inl err, r')
          | Inr ok \<Rightarrow>
             if \<not> ok then (Inl (Err ''ownership compare failed''), r')
             else (Inr x, r'\<lparr>rp_expected := new, rp_envelope := e, rp_core := staged, rp_valid := True\<rparr>)))"

text \<open>An action on the core alone.\<close>

definition on_core :: "(core \<Rightarrow> 'a result \<times> core) \<Rightarrow> 'a action" where
  "on_core f c e = (case f c of (x, c') \<Rightarrow> (x, c', e))"

section \<open>Operations\<close>

definition claimed_dispatch :: "wire \<Rightarrow> remote_config \<Rightarrow> envelope \<Rightarrow> invocation \<Rightarrow> dispatch" where
  "claimed_dispatch W rc e iv =
     (let pl = \<lparr>pl_code = inv_code iv, pl_session = rc_session rc, pl_timeout_seconds = rc_timeout_seconds rc, pl_heap_mb = rc_heap_mb rc,
            pl_expires_at = rc_expires_at rc\<rparr>
      in \<lparr>dp_version = 1, dp_namespace = rc_namespace rc, dp_schedule_id = inv_schedule iv, dp_occurrence_id = inv_occurrence iv,
          dp_attempt = inv_attempt iv, dp_owner = en_owner e, dp_epoch = en_epoch e, dp_worker_id = rc_worker_id rc,
          dp_authority = wr_text_digest W (en_contract e), dp_payload_digest = wr_payload_digest W pl, dp_payload = pl\<rparr>)"

definition claim_action :: "('cron, 'tz) planner \<Rightarrow> time \<Rightarrow> remote_config \<Rightarrow> (invocation \<times> dispatch) option action" where
  "claim_action P now rc c e =
     (case claim (pn_codec P) Flushed c now of
        (Inl x, c') \<Rightarrow> (Inl x, c', e)
      | (Inr None, c') \<Rightarrow> (Inr None, c', e)
      | (Inr (Some iv), c') \<Rightarrow>
         (let d = claimed_dispatch (pn_wire P) rc e iv;
              k = dispatch_key (pn_wire P) d
          in case validate_dispatch (pn_wire P) d of
               Inl x \<Rightarrow> (Inl x, c', e)
             | Inr _ \<Rightarrow>
                if btm_get (en_claims e) k \<noteq> None \<or> btm_get (en_admissions e) k \<noteq> None
                then (Inl (Err ''invocation identity already consumed''), c', e)
                else (Inr (Some (iv, d)), c', e\<lparr>en_claims := btm_insert k (claim_metadata d) (en_claims e)\<rparr>)))"

definition admit_action :: "('cron, 'tz) planner \<Rightarrow> admission \<Rightarrow> time \<Rightarrow> permit action" where
  "admit_action P a now c e =
     (let d = ad_dispatch a; k = dispatch_key (pn_wire P) d in
      case validate_dispatch (pn_wire P) d of
        Inl x \<Rightarrow> (Inl x, c, e)
      | Inr _ \<Rightarrow>
         if \<not> list_ex (\<lambda>oc. occ_id oc = dp_occurrence_id d \<and> occ_schedule oc = dp_schedule_id d \<and> occ_status oc = Running (dp_attempt d))
                (occurrences_list c)
            \<or> ad_worker_incarnation a = []
            \<or> dp_epoch d \<noteq> en_epoch e
            \<or> dp_owner d \<noteq> en_owner e
            \<or> now \<ge> pl_expires_at (dp_payload d)
            \<or> \<not> (case btm_get (en_claims e) k of None \<Rightarrow> False | Some m \<Rightarrow> claim_matches m d)
            \<or> btm_get (en_admissions e) k \<noteq> None
         then (Inl (Err ''stale, duplicate, expired or mismatched admission''), c, e)
         else (let p = admission_permit (pn_wire P) a in (Inr p, c, e\<lparr>en_admissions := btm_insert k p (en_admissions e)\<rparr>)))"

definition reject_action :: "('cron, 'tz) planner \<Rightarrow> admission \<Rightarrow> admission_decision action" where
  "reject_action P a c e =
     (let d = ad_dispatch a; k = dispatch_key (pn_wire P) d in
      case validate_dispatch (pn_wire P) d of
        Inl x \<Rightarrow> (Inl x, c, e)
      | Inr _ \<Rightarrow>
         if ad_worker_incarnation a = [] \<or> btm_get (en_admissions e) k \<noteq> None
            \<or> \<not> (case btm_get (en_claims e) k of None \<Rightarrow> False | Some m \<Rightarrow> claim_matches m d)
         then (Inl (Err ''admission outcome remains uncertain or binding differs''), c, e)
         else (case reject_unadmitted (pn_codec P) Flushed c (dp_occurrence_id d) (dp_attempt d) of
                 (Inl x, c') \<Rightarrow> (Inl x, c', e)
               | (Inr _, c') \<Rightarrow> (Inr NotLaunched, c', e)))"

text \<open>What the cluster tells a call: the role and term of the node, and the answer to the compare-and-swap.\<close>

type_synonym answer = "(bool \<times> nat) \<times> bool result"

abbreviation call_plan :: "('cron, 'tz) planner \<Rightarrow> answer \<Rightarrow> 'a action \<Rightarrow> replicated \<Rightarrow> 'a result \<times> replicated" where
  "call_plan P ans act r \<equiv> transition_state P (fst ans) (snd ans) act r"

definition repl_observe :: "('cron, 'tz) planner \<Rightarrow> answer \<Rightarrow> time \<Rightarrow> replicated \<Rightarrow> unit result \<times> replicated" where
  "repl_observe P ans now r = call_plan P ans (on_core (\<lambda>c. observe (pn_cal P) (pn_codec P) Flushed c now)) r"

definition repl_claim :: "('cron, 'tz) planner \<Rightarrow> answer \<Rightarrow> time \<Rightarrow> replicated \<Rightarrow> invocation option result \<times> replicated" where
  "repl_claim P ans now r = call_plan P ans (on_core (\<lambda>c. claim (pn_codec P) Flushed c now)) r"

definition claim_for_worker ::
  "('cron, 'tz) planner \<Rightarrow> answer \<Rightarrow> time \<Rightarrow> remote_config \<Rightarrow> replicated \<Rightarrow> (invocation \<times> dispatch) option result \<times> replicated" where
  "claim_for_worker P ans now rc r = call_plan P ans (claim_action P now rc) r"

definition admit :: "('cron, 'tz) planner \<Rightarrow> answer \<Rightarrow> admission \<Rightarrow> time \<Rightarrow> replicated \<Rightarrow> permit result \<times> replicated" where
  "admit P ans a now r = call_plan P ans (admit_action P a now) r"

definition admit_classified ::
  "('cron, 'tz) planner \<Rightarrow> answer \<Rightarrow> answer \<Rightarrow> admission \<Rightarrow> time \<Rightarrow> replicated \<Rightarrow> admission_decision result \<times> replicated" where
  "admit_classified P ans ans' a now r =
     (case admit P ans a now r of
        (Inr p, r') \<Rightarrow> (Inr (Granted p), r')
      | (Inl e, r') \<Rightarrow> if \<not> rp_valid r' then (Inl e, r') else call_plan P ans' (reject_action P a) r')"

definition repl_finish ::
  "('cron, 'tz) planner \<Rightarrow> answer \<Rightarrow> invocation \<Rightarrow> outcome \<Rightarrow> time \<Rightarrow> replicated \<Rightarrow> unit result \<times> replicated" where
  "repl_finish P ans iv out now r = call_plan P ans (on_core (\<lambda>c. finish (pn_cal P) (pn_codec P) Flushed c iv out now)) r"

definition repl_create :: "('cron, 'tz) planner \<Rightarrow> answer \<Rightarrow> sched_definition \<Rightarrow> time \<Rightarrow> replicated \<Rightarrow> u64 result \<times> replicated" where
  "repl_create P ans d now r = call_plan P ans (on_core (\<lambda>c. create (pn_cal P) (pn_codec P) Flushed c d now)) r"

definition repl_disable :: "('cron, 'tz) planner \<Rightarrow> answer \<Rightarrow> u64 \<Rightarrow> replicated \<Rightarrow> unit result \<times> replicated" where
  "repl_disable P ans i r = call_plan P ans (on_core (\<lambda>c. disable (pn_codec P) Flushed c i)) r"

definition repl_request_cancel :: "('cron, 'tz) planner \<Rightarrow> answer \<Rightarrow> u64 \<Rightarrow> replicated \<Rightarrow> unit result \<times> replicated" where
  "repl_request_cancel P ans i r = call_plan P ans (on_core (\<lambda>c. request_cancel (pn_codec P) Flushed c i)) r"

definition repl_acknowledge_stopped :: "('cron, 'tz) planner \<Rightarrow> answer \<Rightarrow> u64 \<Rightarrow> replicated \<Rightarrow> unit result \<times> replicated" where
  "repl_acknowledge_stopped P ans i r = call_plan P ans (on_core (\<lambda>c. acknowledge_stopped (pn_codec P) Flushed c i)) r"

definition repl_delete :: "('cron, 'tz) planner \<Rightarrow> answer \<Rightarrow> u64 \<Rightarrow> replicated \<Rightarrow> unit result \<times> replicated" where
  "repl_delete P ans i r = call_plan P ans (on_core (\<lambda>c. delete (pn_codec P) Flushed c i)) r"

text \<open>The dispatches to cancel: of each cancelling receipt the first claim of its attempt, with its code.\<close>

definition cancellation_of :: "('cron, 'tz) planner \<Rightarrow> replicated \<Rightarrow> occurrence \<Rightarrow> dispatch option" where
  "cancellation_of P r oc =
     (case occ_status oc of
        Cancelling a \<Rightarrow>
         (case List.find (\<lambda>d. dp_occurrence_id d = occ_id oc \<and> dp_attempt d = a) (btm_values (en_claims (rp_envelope r))) of
            None \<Rightarrow> None
          | Some m \<Rightarrow> (case claim_dispatch (pn_wire P) (rp_core r) m of Inl _ \<Rightarrow> None | Inr d \<Rightarrow> Some d))
      | _ \<Rightarrow> None)"

definition cancellations :: "('cron, 'tz) planner \<Rightarrow> replicated \<Rightarrow> dispatch list" where
  "cancellations P r = List.map_filter (cancellation_of P r) (occurrences_list (rp_core r))"

definition finish_cancellation ::
  "('cron, 'tz) planner \<Rightarrow> answer \<Rightarrow> dispatch \<Rightarrow> outcome \<Rightarrow> time \<Rightarrow> replicated \<Rightarrow> unit result \<times> replicated" where
  "finish_cancellation P ans d out now r =
     (if \<not> list_ex (\<lambda>oc. occ_id oc = dp_occurrence_id d \<and> occ_status oc = Cancelling (dp_attempt d)) (occurrences_list (rp_core r))
      then (Inr (), r)
      else case List.find (\<lambda>oc. occ_id oc = dp_occurrence_id d) (occurrences_list (rp_core r)) of
        None \<Rightarrow> (Inl (Panic ''called Option::unwrap() on a None value''), r)
      | Some oc \<Rightarrow>
         repl_finish P ans \<lparr>inv_occurrence = dp_occurrence_id d, inv_schedule = dp_schedule_id d, inv_due = due_at oc,
            inv_attempt = dp_attempt d, inv_code = pl_code (dp_payload d)\<rparr> out now r)"

end
