(* ===== verification/Repl_Inv.thy ===== *)
theory Repl_Inv
  imports Sched_Replicated
begin

text \<open>
  The values that the replicated planner writes, one after the other, whoever leads: along such a chain the fate of an
  invocation is decided at most once, by its admission or by the certificate that it was not launched. A \<open>plan_call\<close> is one compare-and-swap that the planner asks for.
\<close>

section \<open>Calls of the planner\<close>

datatype plan_op =
    PObserve time
  | PClaim time
  | PClaimFor time remote_config
  | PAdmit admission time
  | PReject admission
  | PFinish invocation outcome time
  | PCreate sched_definition time
  | PDisable u64
  | PCancel u64
  | PAcknowledge u64
  | PDelete u64

definition proposed :: "('a \<times> envelope \<times> string \<times> core) result \<times> replicated \<Rightarrow> string option" where
  "proposed p = (case fst p of Inl _ \<Rightarrow> None | Inr (_, _, new, _) \<Rightarrow> Some new)"

text \<open>The value that a call proposes.\<close>

fun plan_value :: "('cron, 'tz) planner \<Rightarrow> bool \<times> nat \<Rightarrow> plan_op \<Rightarrow> replicated \<Rightarrow> string option" where
  "plan_value P st (PObserve now) r = proposed (transition_prepare P st (on_core (\<lambda>c. observe (pn_cal P) (pn_codec P) Flushed c now)) r)"
| "plan_value P st (PClaim now) r = proposed (transition_prepare P st (on_core (\<lambda>c. claim (pn_codec P) Flushed c now)) r)"
| "plan_value P st (PClaimFor now rc) r = proposed (transition_prepare P st (claim_action P now rc) r)"
| "plan_value P st (PAdmit a now) r = proposed (transition_prepare P st (admit_action P a now) r)"
| "plan_value P st (PReject a) r = proposed (transition_prepare P st (reject_action P a) r)"
| "plan_value P st (PFinish iv out now) r = proposed (transition_prepare P st (on_core (\<lambda>c. finish (pn_cal P) (pn_codec P) Flushed c iv out now)) r)"
| "plan_value P st (PCreate d now) r = proposed (transition_prepare P st (on_core (\<lambda>c. create (pn_cal P) (pn_codec P) Flushed c d now)) r)"
| "plan_value P st (PDisable i) r = proposed (transition_prepare P st (on_core (\<lambda>c. disable (pn_codec P) Flushed c i)) r)"
| "plan_value P st (PCancel i) r = proposed (transition_prepare P st (on_core (\<lambda>c. request_cancel (pn_codec P) Flushed c i)) r)"
| "plan_value P st (PAcknowledge i) r = proposed (transition_prepare P st (on_core (\<lambda>c. acknowledge_stopped (pn_codec P) Flushed c i)) r)"
| "plan_value P st (PDelete i) r = proposed (transition_prepare P st (on_core (\<lambda>c. delete (pn_codec P) Flushed c i)) r)"

datatype decision = Admitted dispatch | Refused dispatch

fun decided :: "decision \<Rightarrow> dispatch" where
  "decided (Admitted d) = d"
| "decided (Refused d) = d"

fun plan_grant :: "plan_op \<Rightarrow> decision option" where
  "plan_grant (PAdmit a now) = Some (Admitted (ad_dispatch a))"
| "plan_grant (PReject a) = Some (Refused (ad_dispatch a))"
| "plan_grant _ = None"

text \<open>What is relied on: serde reads back what it wrote, and the keys of invocations differ.\<close>

definition stripped :: "envelope \<Rightarrow> bool" where
  "stripped e \<longleftrightarrow> (\<forall>k m. btm_get (en_claims e) k = Some m \<longrightarrow> claim_metadata m = m)"

definition planner_ok :: "('cron, 'tz) planner \<Rightarrow> bool" where
  "planner_ok P \<longleftrightarrow> calendar_ok (pn_cal P) \<and> codec_ok (pn_codec P) \<and> inj (wr_key (pn_wire P))
     \<and> (\<forall>e s. stripped e \<longrightarrow> ec_to (pn_env P) e = Inr s \<longrightarrow> ec_from (pn_env P) s = Inr e)"

text \<open>A plan whose value is the one it last wrote.\<close>

definition owner_ok :: "('cron, 'tz) planner \<Rightarrow> replicated \<Rightarrow> bool" where
  "owner_ok P r \<longleftrightarrow> ec_from (pn_env P) (rp_expected r) = Inr (rp_envelope r)"

text \<open>A compare-and-swap that the planner asks for: the value it expects, the invocation it decides on, and the new value.\<close>

inductive plan_call :: "('cron, 'tz) planner \<Rightarrow> string option \<Rightarrow> decision option \<Rightarrow> string \<Rightarrow> bool" for P where
  acquire: "acquire_prepare P N l defs contract now = Inr (x, y, r) \<Longrightarrow> plan_call P x None y"
| operate: "owner_ok P r \<Longrightarrow> plan_value P st op r = Some y \<Longrightarrow> plan_call P (Some (rp_expected r)) (plan_grant op) y"

text \<open>Values one after the other, newest first, with what each decided.\<close>

inductive plan_chain :: "('cron, 'tz) planner \<Rightarrow> (string \<times> decision option) list \<Rightarrow> bool" for P where
  none: "plan_chain P []"
| some: "plan_chain P h \<Longrightarrow> plan_call P (case h of [] \<Rightarrow> None | v # _ \<Rightarrow> Some (fst v)) g y \<Longrightarrow> plan_chain P ((y, g) # h)"

definition decisions :: "(string \<times> decision option) list \<Rightarrow> decision list" where
  "decisions h = List.map_filter snd h"

section \<open>The invariant\<close>

definition attempt_of :: "dispatch \<Rightarrow> u64 \<times> u32" where
  "attempt_of d = (dp_occurrence_id d, dp_attempt d)"

text \<open>An occurrence whose receipt is terminal, or gone.\<close>

definition settled :: "sched_state \<Rightarrow> u64 \<Rightarrow> bool" where
  "settled s i \<longleftrightarrow> i < next_id s \<and> (\<forall>oc. btm_get (occurrences s) i = Some oc \<longrightarrow> terminal (occ_status oc))"

text \<open>Every claim is of a consumed attempt, an invocation that was admitted still has its permit or has no claim left, and the
  occurrence of one that was refused is settled.\<close>

definition plan_ok :: "('cron, 'tz) planner \<Rightarrow> decision set \<Rightarrow> envelope \<Rightarrow> sched_state \<Rightarrow> bool" where
  "plan_ok P G e s \<longleftrightarrow> sched_inv s \<and> stripped e \<and> btm_ok (en_claims e) \<and> btm_ok (en_admissions e)
     \<and> (\<forall>k m. btm_get (en_claims e) k = Some m \<longrightarrow> dispatch_key (pn_wire P) m = k \<and> consumed s (attempt_of m))
     \<and> (\<forall>d. Admitted d \<in> G \<longrightarrow> consumed s (attempt_of d)
          \<and> (btm_get (en_claims e) (dispatch_key (pn_wire P) d) \<noteq> None \<longrightarrow> btm_get (en_admissions e) (dispatch_key (pn_wire P) d) \<noteq> None))
     \<and> (\<forall>d. Refused d \<in> G \<longrightarrow> settled s (dp_occurrence_id d))"

definition value_ok :: "('cron, 'tz) planner \<Rightarrow> decision set \<Rightarrow> string \<Rightarrow> bool" where
  "value_ok P G v \<longleftrightarrow> (\<exists>e s. ec_from (pn_env P) v = Inr e \<and> from_json (pn_codec P) (en_checkpoint e) = Inr s \<and> plan_ok P G e s)"

text \<open>What an action does: a step of the scheduler, perhaps with a fresh claim, or a decision on an invocation that has a claim
  and no permit.\<close>

definition undecided :: "('cron, 'tz) planner \<Rightarrow> core \<Rightarrow> envelope \<Rightarrow> dispatch \<Rightarrow> bool" where
  "undecided P c e d \<longleftrightarrow> \<not> settled (state c) (dp_occurrence_id d)
     \<and> btm_get (en_claims e) (dispatch_key (pn_wire P) d) = Some (claim_metadata d) \<and> btm_get (en_admissions e) (dispatch_key (pn_wire P) d) = None"

definition plan_effect :: "('cron, 'tz) planner \<Rightarrow> core \<Rightarrow> envelope \<Rightarrow> decision option \<Rightarrow> core \<Rightarrow> envelope \<Rightarrow> bool" where
  "plan_effect P c e g c' e' \<longleftrightarrow>
     (case g of
        None \<Rightarrow> en_admissions e' = en_admissions e
          \<and> (steps_to (pn_cal P) (state c) None (state c') \<and> en_claims e' = en_claims e
             \<or> (\<exists>iv. steps_to (pn_cal P) (state c) (Some iv) (state c')
                 \<and> (en_claims e' = en_claims e
                    \<or> (\<exists>d. attempt_of d = attempt_key iv \<and> en_claims e' = btm_insert (dispatch_key (pn_wire P) d) (claim_metadata d) (en_claims e)))))
      | Some (Admitted d) \<Rightarrow> undecided P c e d \<and> c' = c \<and> en_claims e' = en_claims e
          \<and> (\<exists>p. en_admissions e' = btm_insert (dispatch_key (pn_wire P) d) p (en_admissions e))
      | Some (Refused d) \<Rightarrow> undecided P c e d \<and> en_claims e' = en_claims e \<and> en_admissions e' = en_admissions e
          \<and> steps_to (pn_cal P) (state c) None (state c') \<and> settled (state c') (dp_occurrence_id d))"

lemma metadata_simps [simp]:
  "dispatch_key W (claim_metadata d) = dispatch_key W d" "attempt_of (claim_metadata d) = attempt_of d" "claim_metadata (claim_metadata d) = claim_metadata d"
  by (simp_all add: claim_metadata_def dispatch_key_def attempt_of_def)

lemma key_attempt: "inj (wr_key W) \<Longrightarrow> dispatch_key W d = dispatch_key W d' \<Longrightarrow> attempt_of d = attempt_of d'"
  by (auto simp: dispatch_key_def attempt_of_def dest!: injD)
lemma retained_mono: "btm_ok m \<Longrightarrow> btm_get (btm_retain Q m) k = Some v \<Longrightarrow> btm_get m k = Some v"
  by (auto simp: btm_get_retain split: option.splits if_splits)

text \<open>The invariant reads the claims, the admissions and the scheduler's state only.\<close>

lemma plan_ok_cong: "en_claims e' = en_claims e \<Longrightarrow> en_admissions e' = en_admissions e \<Longrightarrow> plan_ok P G e' s = plan_ok P G e s"
  by (simp add: plan_ok_def stripped_def)

lemma plan_ok_prune:
  assumes "plan_ok P G e s"
  shows "plan_ok P G (prune_receipts c e) s"
proof -
  define cl where "cl = btm_retain (\<lambda>_ d. (dp_occurrence_id d, dp_attempt d)
      \<in> (\<lambda>oc. (occ_id oc, attempt (occ_status oc))) ` set (occurrences_list c)) (en_claims e)"
  have p: "prune_receipts c e = e\<lparr>en_claims := cl, en_admissions := btm_retain (\<lambda>k _. btm_get cl k \<noteq> None) (en_admissions e)\<rparr>"
    by (simp add: prune_receipts_def cl_def Let_def)
  have ok: "btm_ok (en_claims e)" "btm_ok (en_admissions e)" using assms by (simp_all add: plan_ok_def)
  have sub: "btm_get cl k = Some v \<Longrightarrow> btm_get (en_claims e) k = Some v" for k v
    unfolding cl_def by (rule retained_mono [OF ok(1)])
  have "btm_ok cl" unfolding cl_def using ok(1) by (rule btm_ok_retain)
  then show ?thesis using assms ok sub unfolding p plan_ok_def stripped_def
    by (fastforce simp: btm_get_retain btm_ok_retain split: option.splits)
qed

lemma steps_to_kept:
  assumes "calendar_ok cal" and "steps_to cal s l t" and "sched_inv s"
  shows "sched_inv t" and "consumed s p \<Longrightarrow> consumed t p"
  using assms sched_step_inv [of cal s l t] sched_step_consumed [of cal s l t p] by (auto simp: steps_to_def)

lemma steps_to_fresh:
  assumes "steps_to cal s (Some iv) t" and "sched_inv s"
  shows "\<not> consumed s (attempt_key iv)" and "consumed t (attempt_key iv)"
  using assms sched_step_claims [of cal s iv t] by (auto simp: steps_to_def attempt_key_def)

lemma settled_set_status:
  assumes "settled s j" and "btm_get (occurrences s) i = Some oc" and "\<not> terminal (occ_status oc)"
  shows "settled (set_status i st s) j"
  using assms by (auto simp: settled_def get_set_status)

lemma sched_step_settled:
  assumes "sched_step cal s l t" and "settled s j"
  shows "settled t j"
  using assms
proof (induction rule: sched_step.induct)
  case (step_create s n d due)
  then show ?case using checked_add_Some(2) [OF step_create(1)] by (auto simp: settled_def)
next
  case (step_interrupt s why)
  then show ?case by (auto simp: settled_def get_interrupt)
next
  case (step_observe s now t)
  have "older_kept s t" using step_observe(2) by (rule older_kept_fold) (rule older_kept_observe)
  with step_observe(3) show ?case by (auto simp: settled_def older_kept_def)
qed (auto simp: settled_def get_set_status)

lemma steps_to_settled: "steps_to cal s l t \<Longrightarrow> settled s j \<Longrightarrow> settled t j"
  using sched_step_settled by (auto simp: steps_to_def)

lemma plan_ok_step:
  assumes "calendar_ok cal" and "steps_to cal s l t" and "plan_ok P G e s"
  shows "plan_ok P G e t"
  using assms(3) steps_to_kept [OF assms(1,2)] steps_to_settled [OF assms(2)] unfolding plan_ok_def by blast

lemma plan_ok_claim:
  assumes P: "planner_ok P" and st: "steps_to (pn_cal P) s (Some iv) t" and ok: "plan_ok P G e s"
    and d: "attempt_of d = attempt_key iv"
  shows "plan_ok P G (e\<lparr>en_claims := btm_insert (dispatch_key (pn_wire P) d) (claim_metadata d) (en_claims e)\<rparr>) t"
proof -
  have inv: "sched_inv s" using ok by (simp add: plan_ok_def)
  have other: "dispatch_key (pn_wire P) d' \<noteq> dispatch_key (pn_wire P) d" if "Admitted d' \<in> G" for d'
    using that ok d steps_to_fresh(1) [OF st inv] key_attempt [of "pn_wire P" d' d] P
    by (auto simp: plan_ok_def planner_ok_def)
  have "plan_ok P G e t" using plan_ok_step [OF _ st ok] P by (simp add: planner_ok_def)
  then show ?thesis using other d steps_to_fresh(2) [OF st inv]
    unfolding plan_ok_def stripped_def by (simp add: btm_get_insert btm_ok_insert)
qed

lemma plan_ok_admit:
  assumes ok: "plan_ok P G e s" and got: "btm_get (en_claims e) (dispatch_key (pn_wire P) d) = Some (claim_metadata d)"
  shows "plan_ok P (insert (Admitted d) G) (e\<lparr>en_admissions := btm_insert (dispatch_key (pn_wire P) d) p (en_admissions e)\<rparr>) s"
proof -
  have "consumed s (attempt_of d)" using ok got unfolding plan_ok_def by (metis metadata_simps(2))
  with ok show ?thesis unfolding plan_ok_def stripped_def by (simp add: btm_get_insert btm_ok_insert)
qed

lemma plan_ok_effect:
  assumes P: "planner_ok P" and ok: "plan_ok P G e (state c)" and ef: "plan_effect P c e g c' e'"
  shows "plan_ok P (G \<union> set_option g) e' (state c')"
proof (cases g)
  case None
  then consider (plain) l where "steps_to (pn_cal P) (state c) l (state c')" "en_claims e' = en_claims e" "en_admissions e' = en_admissions e"
    | (fresh) iv d where "steps_to (pn_cal P) (state c) (Some iv) (state c')" "attempt_of d = attempt_key iv"
        "en_claims e' = btm_insert (dispatch_key (pn_wire P) d) (claim_metadata d) (en_claims e)" "en_admissions e' = en_admissions e"
    using ef unfolding plan_effect_def by auto
  then have "plan_ok P G e' (state c')"
  proof cases
    case plain
    have "calendar_ok (pn_cal P)" using P by (simp add: planner_ok_def)
    from plan_ok_step [OF this plain(1) ok] show ?thesis by (simp add: plan_ok_cong [OF plain(2,3)])
  next
    case fresh
    from plan_ok_claim [OF P fresh(1) ok fresh(2)] show ?thesis
      by (subst plan_ok_cong [of _ "e\<lparr>en_claims := btm_insert (dispatch_key (pn_wire P) d) (claim_metadata d) (en_claims e)\<rparr>"])
        (simp_all add: fresh)
  qed
  with None show ?thesis by simp
next
  case (Some x)
  show ?thesis
  proof (cases x)
    case (Admitted d)
    with Some obtain p where e': "c' = c" "en_claims e' = en_claims e" "btm_get (en_claims e) (dispatch_key (pn_wire P) d) = Some (claim_metadata d)"
      "en_admissions e' = btm_insert (dispatch_key (pn_wire P) d) p (en_admissions e)"
      using ef by (auto simp: plan_effect_def undecided_def)
    have "plan_ok P (insert x G) e' (state c)"
      by (subst plan_ok_cong [of _ "e\<lparr>en_admissions := btm_insert (dispatch_key (pn_wire P) d) p (en_admissions e)\<rparr>"])
        (simp_all add: Admitted e' plan_ok_admit [OF ok e'(3)])
    with Some e'(1) show ?thesis by simp
  next
    case (Refused d)
    with Some ef have e': "en_claims e' = en_claims e" "en_admissions e' = en_admissions e"
      and st: "steps_to (pn_cal P) (state c) None (state c')" and set: "settled (state c') (dp_occurrence_id d)"
      by (simp_all add: plan_effect_def)
    have "calendar_ok (pn_cal P)" using P by (simp add: planner_ok_def)
    from plan_ok_step [OF this st ok] set have "plan_ok P (insert x G) e (state c')" by (auto simp: plan_ok_def Refused)
    with Some show ?thesis by (simp add: plan_ok_cong [OF e'])
  qed
qed

text \<open>What is decided was not decided before.\<close>

lemma undecided_fresh:
  assumes P: "planner_ok P" and ok: "plan_ok P G e (state c)" and und: "undecided P c e d" and x: "x \<in> G"
  shows "dispatch_identity (decided x) \<noteq> dispatch_identity d"
proof (cases x)
  case (Admitted d')
  with ok und x have "dispatch_key (pn_wire P) d' \<noteq> dispatch_key (pn_wire P) d"
    unfolding plan_ok_def undecided_def by (metis option.distinct(1))
  with Admitted show ?thesis by (auto simp: dispatch_key_identity)
next
  case (Refused d')
  with ok und x have "dp_occurrence_id d' \<noteq> dp_occurrence_id d" unfolding plan_ok_def undecided_def by metis
  with Refused show ?thesis by (auto simp: dispatch_identity_def)
qed

lemma effect_fresh:
  assumes "planner_ok P" and "plan_ok P G e (state c)" and "plan_effect P c e (Some y) c' e'" and "x \<in> G"
  shows "dispatch_identity (decided x) \<noteq> dispatch_identity (decided y)"
  using assms undecided_fresh [OF assms(1,2) _ assms(4)] by (cases y) (simp_all add: plan_effect_def)

section \<open>The actions\<close>

lemma refine_call:
  assumes "planner_ok P" and "sched_inv (state c)"
  shows "apply_op (pn_cal P) cd op w c = (l, c') \<Longrightarrow> steps_to (pn_cal P) (state c) l (state c')"
  using assms apply_op_refines by (auto simp: planner_ok_def)

lemma effect_core:
  assumes "steps_to (pn_cal P) (state c) None (state (snd (f c)))" and "on_core f c e = (Inr x, c', e')"
  shows "plan_effect P c e None c' e'"
  using assms by (auto simp: on_core_def plan_effect_def split: prod.splits)

lemma effect_claim:
  assumes "planner_ok P" and "sched_inv (state c)" and "on_core (\<lambda>c. claim (pn_codec P) Flushed c now) c e = (Inr x, c', e')"
  shows "plan_effect P c e None c' e'"
  using assms refine_call [OF assms(1,2), of "pn_codec P" "Claim now" Flushed]
  by (cases x) (auto simp: on_core_def plan_effect_def split: prod.splits)

lemma effect_claim_action:
  assumes P: "planner_ok P" and inv: "sched_inv (state c)" and act: "claim_action P now rc c e = (Inr x, c', e')"
  shows "plan_effect P c e None c' e'"
proof -
  obtain iv c1 where cl: "claim (pn_codec P) Flushed c now = (Inr iv, c1)"
    using act by (auto simp: claim_action_def split: prod.splits sum.splits)
  have st: "steps_to (pn_cal P) (state c) iv (state c1)"
    using refine_call [OF P inv, of "pn_codec P" "Claim now" Flushed] cl by (cases iv) auto
  show ?thesis
  proof (cases iv)
    case None
    with act st cl show ?thesis by (auto simp: claim_action_def plan_effect_def)
  next
    case (Some v)
    let ?d = "claimed_dispatch (pn_wire P) rc e v"
    have "attempt_of ?d = attempt_key v" by (simp add: claimed_dispatch_def attempt_of_def attempt_key_def Let_def)
    moreover have "c' = c1" "en_admissions e' = en_admissions e"
      "en_claims e' = btm_insert (dispatch_key (pn_wire P) ?d) (claim_metadata ?d) (en_claims e)"
      using act cl Some by (auto simp: claim_action_def Let_def split: sum.splits if_splits)
    ultimately show ?thesis using st Some by (auto simp: plan_effect_def)
  qed
qed

lemma reject_settles:
  assumes ids: "ids_ok (state c)" and rej: "reject_unadmitted cd w c i a = (Inr u, c')"
  shows "\<not> settled (state c) i" and "settled (state c') i"
proof -
  obtain oc where oc: "btm_get (occurrences (state c)) i = Some oc" "\<not> terminal (occ_status oc)"
    and "commit cd w c (set_status i (Failed a ''quorum confirmed attempt was never admitted'') (state c)) = (Inr u, c')
      \<or> commit cd w c (set_status i (Cancelled a) (state c)) = (Inr u, c')"
    using rej by (auto simp: reject_unadmitted_def Let_def split: option.splits status.splits if_splits)
  then obtain st where st: "terminal st" and cm: "commit cd w c (set_status i st (state c)) = (Inr u, c')"
    using terminal.simps(2,4) by blast
  show "\<not> settled (state c) i" using oc by (auto simp: settled_def)
  have "state c' = set_status i st (state c)" using cm by (cases rule: commit_cases) auto
  with oc st ids show "settled (state c') i" by (auto simp: settled_def get_set_status ids_ok_def)
qed

lemma effect_reject_action:
  assumes inv: "sched_inv (state c)" and act: "reject_action P a c e = (Inr x, c', e')"
  shows "plan_effect P c e (Some (Refused (ad_dispatch a))) c' e'"
proof -
  let ?d = "ad_dispatch a"
  obtain u where rej: "reject_unadmitted (pn_codec P) Flushed c (dp_occurrence_id ?d) (dp_attempt ?d) = (Inr u, c')" and e': "e' = e"
    and open_: "btm_get (en_claims e) (dispatch_key (pn_wire P) ?d) = Some (claim_metadata ?d)" "btm_get (en_admissions e) (dispatch_key (pn_wire P) ?d) = None"
    using act by (auto simp: reject_action_def claim_matches_def Let_def split: prod.splits sum.splits if_splits option.splits)
  have "ids_ok (state c)" using inv by (simp add: sched_inv_def)
  from reject_settles [OF this rej] refine_reject [of "pn_cal P" c "pn_codec P" Flushed "dp_occurrence_id ?d" "dp_attempt ?d"] rej
  show ?thesis by (simp add: plan_effect_def undecided_def open_ e')
qed

lemma running_unsettled:
  assumes "sched_inv (state c)" and "list_ex (\<lambda>oc. occ_id oc = i \<and> occ_schedule oc = j \<and> occ_status oc = Running n) (occurrences_list c)"
  shows "\<not> settled (state c) i"
proof -
  obtain oc where oc: "oc \<in> set (btm_values (occurrences (state c)))" "occ_id oc = i" "occ_status oc = Running n"
    using assms(2) by (auto simp: list_ex_iff occurrences_list_def)
  have ids: "ids_ok (state c)" using assms(1) by (simp add: sched_inv_def)
  then obtain k where "btm_get (occurrences (state c)) k = Some oc"
    using oc(1) by (auto simp only: ids_ok_def btm_values_get)
  with ids oc(2,3) show ?thesis by (auto simp: settled_def ids_ok_def)
qed

lemma effect_admit_action:
  assumes inv: "sched_inv (state c)" and act: "admit_action P a now c e = (Inr x, c', e')"
  shows "plan_effect P c e (Some (Admitted (ad_dispatch a))) c' e'"
  using act running_unsettled [OF inv]
  by (auto simp: admit_action_def plan_effect_def undecided_def claim_matches_def Let_def split: sum.splits if_splits option.splits)

section \<open>A call keeps the invariant\<close>

lemma from_checkpoint_state:
  assumes "from_checkpoint cd w (Some b) l rec = Inr c"
  shows "\<exists>s. from_json cd b = Inr s \<and> steps_to cal s None (state c)"
proof -
  obtain s where s: "from_json cd b = Inr s"
    using assms by (auto simp: from_checkpoint_def map_err_def Let_def split: sum.splits)
  define c1 where "c1 = \<lparr>durable = False, persisted = None, state = s, poisoned = False, runner_active = False\<rparr>"
  have st: "state c1 = s" by (simp add: c1_def)
  have c: "(if rec then (case interrupt_running cd w c1 of (Inl e, _) \<Rightarrow> Inl e | (Inr _, c') \<Rightarrow> Inr c') else Inr c1) = Inr c"
    using assms s by (auto simp: from_checkpoint_def commit_def map_err_def Let_def c1_def split: sum.splits if_splits)
  have "steps_to cal s None (state c)"
    using c refine_interrupt [of cal c1 cd w] st by (auto split: if_splits prod.splits sum.splits)
  with s show ?thesis by blast
qed

lemma staged_value:
  assumes P: "planner_ok P" and ok: "plan_ok P G e s" and enc: "checked_envelope (pn_env P) e = Inr v"
    and chk: "to_json (pn_codec P) s = Inr (en_checkpoint e)"
  shows "ec_from (pn_env P) v = Inr e" and "value_ok P G v"
proof -
  show d: "ec_from (pn_env P) v = Inr e"
    using P ok enc by (auto simp: planner_ok_def plan_ok_def checked_envelope_def bind_res_Inr_iff split: if_splits)
  have "from_json (pn_codec P) (en_checkpoint e) = Inr s" using P chk by (auto simp: planner_ok_def codec_ok_def)
  with d ok show "value_ok P G v" unfolding value_ok_def by blast
qed

lemma prune_checkpoint [simp]: "en_checkpoint (prune_receipts c e) = en_checkpoint e"
  by (simp add: prune_receipts_def Let_def)

lemma checkpoint_json: "checkpoint cd c = Inr b \<Longrightarrow> to_json cd (state c) = Inr b"
  by (simp add: checkpoint_def split: if_splits)

lemma stage_value:
  assumes P: "planner_ok P" and ok: "plan_ok P G nx (state staged)" and st: "stage_envelope P r staged nx = Inr (e, new)"
  shows "ec_from (pn_env P) new = Inr e" and "value_ok P G new"
proof -
  obtain b e0 where b: "to_json (pn_codec P) (state staged) = Inr b" and e: "e = prune_receipts staged e0"
    and e0: "en_checkpoint e0 = b" "en_claims e0 = en_claims nx" "en_admissions e0 = en_admissions nx"
    and new: "checked_envelope (pn_env P) e = Inr new"
    using st by (fastforce simp: stage_envelope_def Let_def bind_res_Inr_iff split: option.splits dest!: checkpoint_json)
  have "plan_ok P G e (state staged)" using ok e0 by (simp add: e plan_ok_prune plan_ok_cong [OF e0(2,3)])
  from staged_value [OF P this new] show "ec_from (pn_env P) new = Inr e" and "value_ok P G new" using b e e0 by simp_all
qed

text \<open>A transition, from what its action does.\<close>

definition acts :: "('cron, 'tz) planner \<Rightarrow> decision option \<Rightarrow> 'a action \<Rightarrow> bool" where
  "acts P g act \<longleftrightarrow> (\<forall>c e x c' e'. sched_inv (state c) \<longrightarrow> act c e = (Inr x, c', e') \<longrightarrow> plan_effect P c e g c' e')"

lemma prepare_parts:
  assumes P: "planner_ok P" and act: "acts P g act" and own: "owner_ok P r" and ok: "value_ok P G (rp_expected r)"
    and prep: "transition_prepare P st act r = (Inr (x, e, new, staged), r')"
  obtains c nx where "plan_ok P G (rp_envelope r) (state c)" "plan_effect P c (rp_envelope r) g staged nx" "stage_envelope P r staged nx = Inr (e, new)"
proof -
  obtain s where s: "from_json (pn_codec P) (en_checkpoint (rp_envelope r)) = Inr s" and pl: "plan_ok P G (rp_envelope r) s"
    using ok own by (auto simp: value_ok_def owner_ok_def)
  obtain c nx where c: "from_checkpoint (pn_codec P) Flushed (Some (en_checkpoint (rp_envelope r))) (rp_limits r) False = Inr c"
    and run: "act c (rp_envelope r) = (Inr x, staged, nx)" and stage: "stage_envelope P r staged nx = Inr (e, new)"
    using prep own by (auto simp: transition_prepare_def owner_ok_def split: if_splits sum.splits prod.splits)
  have "steps_to (pn_cal P) s None (state c)" using from_checkpoint_state [OF c] s by auto
  then have base: "plan_ok P G (rp_envelope r) (state c)" using pl P plan_ok_step by (auto simp: planner_ok_def)
  then have "plan_effect P c (rp_envelope r) g staged nx" using act run by (auto simp: acts_def plan_ok_def)
  with base stage show thesis using that by blast
qed

lemma prepare_value:
  assumes "planner_ok P" and "acts P g act" and "owner_ok P r" and "value_ok P G (rp_expected r)"
    and "transition_prepare P st act r = (Inr (x, e, new, staged), r')"
  shows "ec_from (pn_env P) new = Inr e" and "value_ok P (G \<union> set_option g) new"
  by (rule prepare_parts [OF assms], rule stage_value [OF assms(1) plan_ok_effect [OF assms(1)]], assumption+)+

lemma prepare_fresh:
  assumes "planner_ok P" and "acts P (Some z) act" and "owner_ok P r" and "value_ok P G (rp_expected r)"
    and "transition_prepare P st act r = (Inr (x, e, new, staged), r')" and "y \<in> G"
  shows "dispatch_identity (decided y) \<noteq> dispatch_identity (decided z)"
  by (rule prepare_parts [OF assms(1-5)]) (rule effect_fresh [OF assms(1) _ _ assms(6)])

lemma acts_core:
  assumes "\<And>c. sched_inv (state c) \<Longrightarrow> steps_to (pn_cal P) (state c) None (state (snd (f c)))"
  shows "acts P None (on_core f)"
  unfolding acts_def by (intro allI impI) (rule effect_core [OF assms])

lemma acts_claim: "planner_ok P \<Longrightarrow> acts P None (on_core (\<lambda>c. claim (pn_codec P) Flushed c now))"
  using effect_claim unfolding acts_def by blast

lemma acts_claim_action: "planner_ok P \<Longrightarrow> acts P None (claim_action P now rc)"
  using effect_claim_action unfolding acts_def by blast

lemma acts_reject_action: "acts P (Some (Refused (ad_dispatch a))) (reject_action P a)"
  using effect_reject_action unfolding acts_def by blast

lemma acts_admit_action: "acts P (Some (Admitted (ad_dispatch a))) (admit_action P a now)"
  using effect_admit_action unfolding acts_def by blast

lemma proposed_Some: "proposed p = Some y \<longleftrightarrow> (\<exists>x e s r. p = (Inr (x, e, y, s), r))"
  by (cases p) (auto simp: proposed_def split: sum.splits)

lemma proposed_value:
  assumes "planner_ok P" and "owner_ok P r" and "value_ok P G (rp_expected r)" and "acts P g act"
    and "proposed (transition_prepare P st act r) = Some y"
  shows "value_ok P (G \<union> set_option g) y"
proof -
  obtain a e s r' where "transition_prepare P st act r = (Inr (a, e, y, s), r')" using assms(5) by (auto simp: proposed_Some)
  from prepare_value(2) [OF assms(1,4,2,3) this] show ?thesis .
qed

lemma proposed_fresh:
  assumes "planner_ok P" and "owner_ok P r" and "value_ok P G (rp_expected r)" and "acts P (Some z) act"
    and "proposed (transition_prepare P st act r) = Some y" and "x \<in> G"
  shows "dispatch_identity (decided x) \<noteq> dispatch_identity (decided z)"
proof -
  obtain a e s r' where "transition_prepare P st act r = (Inr (a, e, y, s), r')" using assms(5) by (auto simp: proposed_Some)
  from prepare_fresh [OF assms(1,4,2,3) this assms(6)] show ?thesis .
qed

lemma plan_value_ok:
  assumes P: "planner_ok P" and own: "owner_ok P r" and ok: "value_ok P G (rp_expected r)" and v: "plan_value P st op r = Some y"
  shows "value_ok P (G \<union> set_option (plan_grant op)) y"
proof -
  note via = proposed_value [OF P own ok]
  have cal: "calendar_ok (pn_cal P)" using P by (simp add: planner_ok_def)
  note core = via [OF acts_core]
  show ?thesis
  proof (cases op)
    case (PClaim now)
    with v show ?thesis using via [OF acts_claim [OF P]] by simp
  next
    case (PClaimFor now rc)
    with v show ?thesis using via [OF acts_claim_action [OF P]] by simp
  next
    case (PAdmit a now)
    with v show ?thesis using via [OF acts_admit_action] by fastforce
  next
    case (PReject a)
    with v show ?thesis using via [OF acts_reject_action] by fastforce
  next
    case (PObserve now)
    with v show ?thesis using core [OF refine_observe] by simp
  next
    case (PFinish iv out now)
    with v show ?thesis using core [OF refine_finish] by simp
  next
    case (PCreate d now)
    with v show ?thesis using core [OF refine_create [OF cal]] by simp
  next
    case (PDisable i)
    with v show ?thesis using core [OF refine_stop] by (simp add: disable_def)
  next
    case (PCancel i)
    with v show ?thesis using core [OF refine_request_cancel] by simp
  next
    case (PAcknowledge i)
    with v show ?thesis using core [OF refine_acknowledge] by simp
  next
    case (PDelete i)
    with v show ?thesis using core [OF refine_stop] by (simp add: delete_def)
  qed
qed

section \<open>Acquiring keeps the invariant\<close>

lemma create_all_state:
  assumes "planner_ok P"
  shows "create_all P ds now c = Inr c' \<Longrightarrow> sched_inv (state c) \<Longrightarrow> sched_inv (state c')"
proof (induction ds arbitrary: c)
  case Nil
  then show ?case by (simp add: create_all_def)
next
  case (Cons d ds)
  have cal: "calendar_ok (pn_cal P)" using assms by (simp add: planner_ok_def)
  obtain i c1 where cr: "create (pn_cal P) (pn_codec P) Flushed c d now = (Inr i, c1)" and rest: "create_all P ds now c1 = Inr c'"
    using Cons.prems(1) by (auto simp: create_all_def bind_res_Inr_iff split: prod.splits sum.splits)
  have "steps_to (pn_cal P) (state c) None (state c1)"
    using refine_create [OF cal, of c "pn_codec P" Flushed d now] cr by simp
  from Cons.IH [OF rest steps_to_kept(1) [OF cal this Cons.prems(2)]] show ?case .
qed

lemma plan_ok_start: "sched_inv s \<Longrightarrow> en_claims e = [] \<Longrightarrow> en_admissions e = [] \<Longrightarrow> plan_ok P {} e s"
  by (simp add: plan_ok_def stripped_def)

lemma next_envelope_fields:
  assumes "next_envelope N old contract b = Inr e"
  shows "b = Inr (en_checkpoint e)"
    and "en_claims e = (case old of None \<Rightarrow> [] | Some o' \<Rightarrow> en_claims o')"
    and "en_admissions e = (case old of None \<Rightarrow> [] | Some o' \<Rightarrow> en_admissions o')"
  using assms by (auto simp: next_envelope_def bind_res_Inr_iff split: option.splits)

lemma acquired_core:
  assumes P: "planner_ok P" and dec: "map_option (ec_from (pn_env P)) x = map_option Inr old" and v: "x = None \<and> G = {} \<or> (\<exists>t. x = Some t \<and> value_ok P G t)"
    and load: "from_checkpoint (pn_codec P) Flushed (map_option en_checkpoint old) l True = Inr c0"
    and c: "(if old = None then create_all P defs now c0 else Inr c0) = Inr c"
    and e: "en_claims e = (case old of None \<Rightarrow> [] | Some o' \<Rightarrow> en_claims o')" "en_admissions e = (case old of None \<Rightarrow> [] | Some o' \<Rightarrow> en_admissions o')"
  shows "plan_ok P G e (state c)"
proof (cases old)
  case None
  then have "state c0 = interrupt_state ''runner interrupted before durable completion'' (empty_state l)" "limits_validate l = Inr ()" "G = {}" "x = None"
    using load dec v by (auto simp: from_checkpoint_def interrupt_running_def commit_def Let_def split: sum.splits)
  then have "sched_inv (state c)"
    using create_all_state [OF P, of defs now c0 c] c None accounts_empty sched_inv_interrupt by (auto simp: accounts_def)
  with None e \<open>G = {}\<close> show ?thesis by (simp add: plan_ok_start)
next
  case (Some old')
  then obtain t where t: "x = Some t" "ec_from (pn_env P) t = Inr old'" "value_ok P G t"
    using dec v by auto
  then obtain s where s: "from_json (pn_codec P) (en_checkpoint old') = Inr s" "plan_ok P G old' s"
    by (auto simp: value_ok_def)
  have "steps_to (pn_cal P) s None (state c)" using from_checkpoint_state [of "pn_codec P"] load c s Some by fastforce
  with P s(2) have "plan_ok P G old' (state c)" using plan_ok_step by (auto simp: planner_ok_def)
  with e Some show ?thesis by (simp add: plan_ok_cong [of e old'])
qed

lemma acquire_prepare_parts:
  assumes acq: "acquire_prepare P N l defs contract now = Inr (x, y, r)"
  shows "\<exists>old c0 c e0. map_option (ec_from (pn_env P)) x = map_option Inr old
    \<and> from_checkpoint (pn_codec P) Flushed (map_option en_checkpoint old) l True = Inr c0
    \<and> (if old = None then create_all P defs now c0 else Inr c0) = Inr c
    \<and> next_envelope N old contract (checkpoint (pn_codec P) c) = Inr e0
    \<and> checked_envelope (pn_env P) (prune_receipts c e0) = Inr y
    \<and> r = \<lparr>rp_expected = y, rp_envelope = prune_receipts c e0, rp_core = c, rp_limits = l, rp_valid = True\<rparr>" (is "\<exists>old. ?parts old")
proof -
  obtain z where z: "nv_fixed N" "nv_leader N" "nv_barrier N = Inr ()" "nv_read N = Inr z"
    using acq by (auto simp: acquire_prepare_def bind_res_Inr_iff split: if_splits)
  show ?thesis
  proof (cases z)
    case None
    have "?parts None"
      using acq z None by (auto simp: acquire_prepare_def bind_res_Inr_iff Let_def)
    then show ?thesis ..
  next
    case (Some t)
    then obtain old where old: "ec_from (pn_env P) t = Inr old" and "x = Some t"
      using acq z by (auto simp: acquire_prepare_def bind_res_Inr_iff Let_def split: sum.splits if_splits)
    then have "?parts (Some old)"
      using acq z Some by (auto simp: acquire_prepare_def bind_res_Inr_iff Let_def split: if_splits)
    then show ?thesis ..
  qed
qed

lemma acquire_value:
  assumes P: "planner_ok P" and acq: "acquire_prepare P N l defs contract now = Inr (x, y, r)"
    and v: "x = None \<and> G = {} \<or> (\<exists>t. x = Some t \<and> value_ok P G t)"
  shows "value_ok P G y" and "owner_ok P r" and "rp_expected r = y"
proof -
  obtain old c0 c e0 where dec: "map_option (ec_from (pn_env P)) x = map_option Inr old"
    and load: "from_checkpoint (pn_codec P) Flushed (map_option en_checkpoint old) l True = Inr c0"
    and c: "(if old = None then create_all P defs now c0 else Inr c0) = Inr c"
    and e0: "next_envelope N old contract (checkpoint (pn_codec P) c) = Inr e0"
    and new: "checked_envelope (pn_env P) (prune_receipts c e0) = Inr y"
    and r: "r = \<lparr>rp_expected = y, rp_envelope = prune_receipts c e0, rp_core = c, rp_limits = l, rp_valid = True\<rparr>"
    using acquire_prepare_parts [OF acq] by blast
  note f = next_envelope_fields [OF e0]
  have "plan_ok P G (prune_receipts c e0) (state c)"
    using acquired_core [OF P dec v load c f(2,3)] by (rule plan_ok_prune)
  from staged_value [OF P this new] checkpoint_json [OF f(1)]
  show "value_ok P G y" and "owner_ok P r" and "rp_expected r = y" by (simp_all add: owner_ok_def r)
qed

section \<open>Decided at most once\<close>

lemma plan_value_fresh:
  assumes P: "planner_ok P" and own: "owner_ok P r" and ok: "value_ok P G (rp_expected r)" and v: "plan_value P st op r = Some y"
    and g: "plan_grant op = Some z" and x: "x \<in> G"
  shows "dispatch_identity (decided x) \<noteq> dispatch_identity (decided z)"
proof -
  note via = proposed_fresh [OF P own ok _ _ x]
  show ?thesis
  proof (cases op)
    case (PAdmit a now)
    then have "proposed (transition_prepare P st (admit_action P a now) r) = Some y" using v by simp
    from via [OF acts_admit_action this] show ?thesis using PAdmit g by auto
  next
    case (PReject a)
    then have "proposed (transition_prepare P st (reject_action P a) r) = Some y" using v by simp
    from via [OF acts_reject_action this] show ?thesis using PReject g by auto
  qed (use g in simp_all)
qed

definition chain_ok :: "('cron, 'tz) planner \<Rightarrow> (string \<times> decision option) list \<Rightarrow> bool" where
  "chain_ok P h \<longleftrightarrow> (h \<noteq> [] \<longrightarrow> value_ok P (set (decisions h)) (fst (hd h)))"

lemma decisions_simps [simp]:
  "decisions [] = []"
  "decisions ((y, None) # h) = decisions h"
  "decisions ((y, Some d) # h) = d # decisions h"
  by (simp_all add: decisions_def List.map_filter_def)

lemma call_ok:
  assumes P: "planner_ok P" and ok: "chain_ok P h" and call: "plan_call P (case h of [] \<Rightarrow> None | v # _ \<Rightarrow> Some (fst v)) g y"
  shows "value_ok P (set (decisions h) \<union> set_option g) y
    \<and> (\<forall>x \<in> set (decisions h). \<forall>z. g = Some z \<longrightarrow> dispatch_identity (decided x) \<noteq> dispatch_identity (decided z))"
  using call
proof (cases rule: plan_call.cases)
  case (acquire N l defs contract now r)
  have "(case h of [] \<Rightarrow> None | v # _ \<Rightarrow> Some (fst v)) = None \<and> set (decisions h) = {}
      \<or> (\<exists>t. (case h of [] \<Rightarrow> None | v # _ \<Rightarrow> Some (fst v)) = Some t \<and> value_ok P (set (decisions h)) t)"
    using ok by (cases h) (auto simp: chain_ok_def)
  from acquire_value(1) [OF P acquire(2) this] acquire(1)
  show ?thesis by simp
next
  case (operate r st op)
  have ok': "value_ok P (set (decisions h)) (rp_expected r)" using ok operate(1) by (cases h) (auto simp: chain_ok_def)
  from plan_value_ok [OF P operate(3) ok' operate(4)] operate(2)
  have "value_ok P (set (decisions h) \<union> set_option g) y" by simp
  then show ?thesis
    using plan_value_fresh [OF P operate(3) ok' operate(4)] operate(2) by auto
qed

lemma chain_inv:
  assumes P: "planner_ok P" and "plan_chain P h"
  shows "chain_ok P h \<and> distinct (map (dispatch_identity \<circ> decided) (decisions h))"
  using assms(2)
proof (induction rule: plan_chain.induct)
  case none
  then show ?case by (simp add: chain_ok_def)
next
  case (some h g y)
  from some.IH have ok: "chain_ok P h" by blast
  from some.IH call_ok [OF P ok some.hyps(2)] show ?case
    by (cases g) (auto simp: chain_ok_def)
qed

end
