(* ===== verification/Repl_Props.thy ===== *)
theory Repl_Props
  imports Repl_Inv Sched_Props
begin

text \<open>
  Planners of several nodes that share one value of the cluster, over any interleaving of their calls, with swaps that are
  done, refused, lost or done late.
\<close>

section \<open>Planners on a shared value\<close>

text \<open>A call with the cluster's answer: whether it returned a result, and the plan after it.\<close>

definition returned :: "'a result \<times> replicated \<Rightarrow> bool \<times> replicated" where
  "returned p = (case p of (Inl _, r) \<Rightarrow> (False, r) | (Inr _, r) \<Rightarrow> (True, r))"

fun plan_run :: "('cron, 'tz) planner \<Rightarrow> answer \<Rightarrow> plan_op \<Rightarrow> replicated \<Rightarrow> bool \<times> replicated" where
  "plan_run P ans (PObserve now) r = returned (repl_observe P ans now r)"
| "plan_run P ans (PClaim now) r = returned (repl_claim P ans now r)"
| "plan_run P ans (PClaimFor now rc) r = returned (claim_for_worker P ans now rc r)"
| "plan_run P ans (PAdmit a now) r = returned (admit P ans a now r)"
| "plan_run P ans (PReject a) r = returned (call_plan P ans (reject_action P a) r)"
| "plan_run P ans (PFinish iv out now) r = returned (repl_finish P ans iv out now r)"
| "plan_run P ans (PCreate d now) r = returned (repl_create P ans d now r)"
| "plan_run P ans (PDisable i) r = returned (repl_disable P ans i r)"
| "plan_run P ans (PCancel i) r = returned (repl_request_cancel P ans i r)"
| "plan_run P ans (PAcknowledge i) r = returned (repl_acknowledge_stopped P ans i r)"
| "plan_run P ans (PDelete i) r = returned (repl_delete P ans i r)"

text \<open>The values of the cell, newest first, the plans that nodes hold, compare-and-swaps whose answer was lost, and the decisions
  that calls have returned.\<close>

record plan_sys =
  ps_past :: "(string \<times> decision option) list"
  ps_plans :: "replicated list"
  ps_loose :: "(string option \<times> decision option \<times> string) list"
  ps_told :: "decision list"

definition ps_cell :: "plan_sys \<Rightarrow> string option" where
  "ps_cell s = (case ps_past s of [] \<Rightarrow> None | v # _ \<Rightarrow> Some (fst v))"

definition plan_start :: plan_sys where
  "plan_start = \<lparr>ps_past = [], ps_plans = [], ps_loose = [], ps_told = []\<rparr>"

definition tell :: "bool \<Rightarrow> plan_op \<Rightarrow> plan_sys \<Rightarrow> plan_sys" where
  "tell ok op s = (case plan_grant op of Some d \<Rightarrow> if ok then s\<lparr>ps_told := d # ps_told s\<rparr> else s | None \<Rightarrow> s)"

text \<open>A node acquires the plan from a value that the cell has or had, or calls an operation of a plan it holds. The swap is done,
  refused, or its answer is lost; in that case it may still be done later, whenever the cell has the expected value.\<close>

inductive plan_step :: "('cron, 'tz) planner \<Rightarrow> plan_sys \<Rightarrow> plan_sys \<Rightarrow> bool" for P where
  acquired: "acquire_prepare P N l defs contract now = Inr (ps_cell s, y, r) \<Longrightarrow> acquire P N (Inr True) l defs contract now = Inr r'
    \<Longrightarrow> plan_step P s (s\<lparr>ps_past := (y, None) # ps_past s, ps_plans := r' # ps_plans s\<rparr>)"
| acquire_lost: "acquire_prepare P N l defs contract now = Inr (x, y, r) \<Longrightarrow> x = None \<or> the x \<in> fst ` set (ps_past s)
    \<Longrightarrow> plan_step P s (s\<lparr>ps_loose := (x, None, y) # ps_loose s\<rparr>)"
| swapped: "i < length (ps_plans s) \<Longrightarrow> plan_value P st op (ps_plans s ! i) = Some y \<Longrightarrow> ps_cell s = Some (rp_expected (ps_plans s ! i))
    \<Longrightarrow> plan_run P (st, Inr True) op (ps_plans s ! i) = (ok, r)
    \<Longrightarrow> plan_step P s (tell ok op (s\<lparr>ps_past := (y, plan_grant op) # ps_past s, ps_plans := (ps_plans s)[i := r]\<rparr>))"
| refused: "i < length (ps_plans s) \<Longrightarrow> plan_run P (st, Inr False) op (ps_plans s ! i) = (ok, r)
    \<Longrightarrow> plan_step P s (tell ok op (s\<lparr>ps_plans := (ps_plans s)[i := r]\<rparr>))"
| lost: "i < length (ps_plans s) \<Longrightarrow> plan_value P st op (ps_plans s ! i) = Some y \<Longrightarrow> plan_run P (st, Inl err) op (ps_plans s ! i) = (ok, r)
    \<Longrightarrow> plan_step P s (tell ok op (s\<lparr>ps_loose := (Some (rp_expected (ps_plans s ! i)), plan_grant op, y) # ps_loose s,
          ps_plans := (ps_plans s)[i := r]\<rparr>))"
| late: "(ps_cell s, g, y) \<in> set (ps_loose s) \<Longrightarrow> plan_step P s (s\<lparr>ps_past := (y, g) # ps_past s\<rparr>)"

inductive plan_runs :: "('cron, 'tz) planner \<Rightarrow> plan_sys \<Rightarrow> bool" for P where
  start: "plan_runs P plan_start"
| step: "plan_runs P s \<Longrightarrow> plan_step P s s' \<Longrightarrow> plan_runs P s'"

section \<open>What the answer of the swap does to a plan\<close>

lemma transition_answer:
  assumes "transition_state P st a act r = (res, r')"
  shows "case proposed (transition_prepare P st act r) of
      None \<Rightarrow> isl res \<and> rp_expected r' = rp_expected r \<and> rp_envelope r' = rp_envelope r
    | Some y \<Rightarrow> if a = Inr True then \<not> isl res \<and> rp_expected r' = y \<and> (\<exists>x s r1. transition_prepare P st act r = (Inr (x, rp_envelope r', y, s), r1))
        else isl res \<and> rp_expected r' = rp_expected r \<and> rp_envelope r' = rp_envelope r"
proof (cases "transition_prepare P st act r")
  case (Pair p r1)
  have r1: "rp_expected r1 = rp_expected r \<and> rp_envelope r1 = rp_envelope r"
    using Pair by (auto simp: transition_prepare_def split: if_splits sum.splits prod.splits)
  show ?thesis
    using assms Pair r1 by (auto simp: transition_state_def proposed_def split: sum.splits if_splits)
qed

definition run_ok :: "('cron, 'tz) planner \<Rightarrow> bool \<times> nat \<Rightarrow> bool result \<Rightarrow> plan_op \<Rightarrow> replicated \<Rightarrow> bool \<Rightarrow> replicated \<Rightarrow> bool" where
  "run_ok P st a op r ok r' \<longleftrightarrow> (case plan_value P st op r of
      Some y \<Rightarrow> if a = Inr True then ok \<and> rp_expected r' = y \<and> owner_ok P r'
        else \<not> ok \<and> rp_expected r' = rp_expected r \<and> rp_envelope r' = rp_envelope r
    | None \<Rightarrow> \<not> ok \<and> rp_expected r' = rp_expected r \<and> rp_envelope r' = rp_envelope r)"

lemma run_ok_transition:
  assumes P: "planner_ok P" and own: "owner_ok P r" and ok: "value_ok P G (rp_expected r)" and acts: "acts P g act"
    and v: "plan_value P st op r = proposed (transition_prepare P st act r)"
    and run: "returned (transition_state P st a act r) = (good, r')"
  shows "run_ok P st a op r good r'"
proof -
  obtain res where t: "transition_state P st a act r = (res, r')" and g: "good = (\<not> isl res)"
    using run by (auto simp: returned_def split: prod.splits sum.splits)
  have "owner_ok P r'" if "transition_prepare P st act r = (Inr (x, rp_envelope r', rp_expected r', s), r1)" for x s r1
    using prepare_value(1) [OF P acts own ok that] by (simp add: owner_ok_def)
  with transition_answer [OF t] show ?thesis
    unfolding run_ok_def v g by (auto split: option.splits if_splits)
qed

lemma plan_run_ok:
  assumes P: "planner_ok P" and own: "owner_ok P r" and ok: "value_ok P G (rp_expected r)"
    and run: "plan_run P (st, a) op r = (good, r')"
  shows "run_ok P st a op r good r'"
proof -
  note via = run_ok_transition [OF P own ok]
  note core = via [OF acts_core]
  have cal: "calendar_ok (pn_cal P)" using P by (simp add: planner_ok_def)
  show ?thesis
  proof (cases op)
    case (PClaim now)
    with run show ?thesis by (intro via [OF acts_claim [OF P]]) (simp_all add: repl_claim_def)
  next
    case (PClaimFor now rc)
    with run show ?thesis by (intro via [OF acts_claim_action [OF P]]) (simp_all add: claim_for_worker_def)
  next
    case (PAdmit adm now)
    with run show ?thesis by (intro via [OF acts_admit_action]) (simp_all add: admit_def)
  next
    case (PReject adm)
    with run show ?thesis by (intro via [OF acts_reject_action]) simp_all
  next
    case (PObserve now)
    with run show ?thesis by (intro core [OF refine_observe]) (simp_all add: repl_observe_def)
  next
    case (PFinish iv out now)
    with run show ?thesis by (intro core [OF refine_finish]) (simp_all add: repl_finish_def)
  next
    case (PCreate d now)
    with run show ?thesis by (intro core [OF refine_create [OF cal]]) (simp_all add: repl_create_def)
  next
    case (PDisable i)
    with run show ?thesis by (intro via [OF acts_core [where f = "\<lambda>c. disable (pn_codec P) Flushed c i"]]) (simp_all add: repl_disable_def disable_def refine_stop)
  next
    case (PCancel i)
    with run show ?thesis by (intro core [OF refine_request_cancel]) (simp_all add: repl_request_cancel_def)
  next
    case (PAcknowledge i)
    with run show ?thesis by (intro core [OF refine_acknowledge]) (simp_all add: repl_acknowledge_stopped_def)
  next
    case (PDelete i)
    with run show ?thesis by (intro via [OF acts_core [where f = "\<lambda>c. delete (pn_codec P) Flushed c i"]]) (simp_all add: repl_delete_def delete_def refine_stop)
  qed
qed

section \<open>The system keeps the chain\<close>

definition plans_inv :: "('cron, 'tz) planner \<Rightarrow> plan_sys \<Rightarrow> bool" where
  "plans_inv P s \<longleftrightarrow> plan_chain P (ps_past s)
     \<and> (\<forall>r \<in> set (ps_plans s). owner_ok P r \<and> rp_expected r \<in> fst ` set (ps_past s))
     \<and> (\<forall>(x, g, y) \<in> set (ps_loose s). plan_call P x g y)
     \<and> set (ps_told s) \<subseteq> set (decisions (ps_past s))"

lemma chain_values:
  assumes P: "planner_ok P" and "plan_chain P h"
  shows "v \<in> fst ` set h \<Longrightarrow> \<exists>G. value_ok P G v"
  using assms(2)
proof (induction rule: plan_chain.induct)
  case (some h g y)
  have "plan_chain P ((y, g) # h)" using some.hyps by (rule plan_chain.some)
  from chain_inv [OF P this] have "value_ok P (set (decisions ((y, g) # h))) y" by (simp add: chain_ok_def)
  with some show ?case by auto
qed simp

lemma plans_inv_grow:
  assumes "plans_inv P s" and "plan_call P (ps_cell s) g y"
  shows "plan_chain P ((y, g) # ps_past s)" and "set (decisions (ps_past s)) \<subseteq> set (decisions ((y, g) # ps_past s))"
proof -
  show "plan_chain P ((y, g) # ps_past s)"
    using assms by (intro plan_chain.some) (simp_all add: plans_inv_def ps_cell_def)
  show "set (decisions (ps_past s)) \<subseteq> set (decisions ((y, g) # ps_past s))" by (cases g) auto
qed

lemma plans_inv_plan:
  assumes P: "planner_ok P" and inv: "plans_inv P s" and i: "i < length (ps_plans s)"
  obtains G where "owner_ok P (ps_plans s ! i)" "value_ok P G (rp_expected (ps_plans s ! i))" "rp_expected (ps_plans s ! i) \<in> fst ` set (ps_past s)"
proof -
  have *: "owner_ok P (ps_plans s ! i)" "rp_expected (ps_plans s ! i) \<in> fst ` set (ps_past s)"
    using inv i by (auto simp: plans_inv_def)
  have "plan_chain P (ps_past s)" using inv by (simp add: plans_inv_def)
  from chain_values [OF P this *(2)] that * show thesis by blast
qed

lemma tell_simps [simp]:
  "ps_past (tell ok op s) = ps_past s" "ps_plans (tell ok op s) = ps_plans s" "ps_loose (tell ok op s) = ps_loose s" "tell False op s = s"
  "ps_told (tell True op s) = (case plan_grant op of Some d \<Rightarrow> d # ps_told s | None \<Rightarrow> ps_told s)"
  by (simp_all add: tell_def split: option.split)

lemma same_owner: "rp_expected r' = rp_expected r \<Longrightarrow> rp_envelope r' = rp_envelope r \<Longrightarrow> owner_ok P r' = owner_ok P r"
  by (simp add: owner_ok_def)

lemma plans_inv_same:
  assumes "plans_inv P s" and "i < length (ps_plans s)" and "rp_expected r = rp_expected (ps_plans s ! i)" "rp_envelope r = rp_envelope (ps_plans s ! i)"
  shows "plans_inv P (s\<lparr>ps_plans := (ps_plans s)[i := r]\<rparr>)"
  using assms same_owner [OF assms(3,4), of P] unfolding plans_inv_def
  by (auto dest!: set_update_subset_insert [THEN subsetD])

lemma plan_step_inv:
  assumes P: "planner_ok P" and step: "plan_step P s s'" and inv: "plans_inv P s"
  shows "plans_inv P s'"
  using step inv
proof (cases rule: plan_step.cases)
  case (acquired N l defs contract now y r r')
  have r: "r' = r" using acquired(2,3) by (simp add: acquire_def)
  have call: "plan_call P (ps_cell s) None y" using acquired(2) by (rule plan_call.acquire)
  have "ps_cell s = None \<and> {} = {} \<or> (\<exists>t. ps_cell s = Some t \<and> (\<exists>G. value_ok P G t))"
    using chain_values [OF P, of "ps_past s"] inv by (auto simp: ps_cell_def plans_inv_def split: list.splits)
  then have "owner_ok P r \<and> rp_expected r = y"
    using acquire_value [OF P acquired(2), of "{}"] acquire_value [OF P acquired(2)] by blast
  with plans_inv_grow [OF inv call] inv show ?thesis unfolding acquired(1) r by (auto simp: plans_inv_def)
next
  case (acquire_lost N l defs contract now x y r)
  have "plan_call P x None y" using acquire_lost(2) by (rule plan_call.acquire)
  with inv show ?thesis unfolding acquire_lost(1) by (auto simp: plans_inv_def)
next
  case (swapped i st op y ok r)
  obtain G where own: "owner_ok P (ps_plans s ! i)" and v: "value_ok P G (rp_expected (ps_plans s ! i))"
    using plans_inv_plan [OF P inv swapped(2)] by blast
  have call: "plan_call P (ps_cell s) (plan_grant op) y" using plan_call.operate [OF own swapped(3)] swapped(4) by simp
  have "ok" "owner_ok P r" "rp_expected r = y" using plan_run_ok [OF P own v swapped(5)] swapped(3) by (simp_all add: run_ok_def)
  with plans_inv_grow [OF inv call] inv show ?thesis unfolding swapped(1)
    by (auto simp: plans_inv_def split: option.splits dest!: set_update_subset_insert [THEN subsetD])
next
  case (refused i st op ok r)
  obtain G where own: "owner_ok P (ps_plans s ! i)" and v: "value_ok P G (rp_expected (ps_plans s ! i))"
    using plans_inv_plan [OF P inv refused(2)] by blast
  have "\<not> ok" "rp_expected r = rp_expected (ps_plans s ! i)" "rp_envelope r = rp_envelope (ps_plans s ! i)"
    using plan_run_ok [OF P own v refused(3)] by (auto simp: run_ok_def split: option.splits)
  with plans_inv_same [OF inv refused(2)] show ?thesis unfolding refused(1) by simp
next
  case (lost i st op y err ok r)
  obtain G where own: "owner_ok P (ps_plans s ! i)" and v: "value_ok P G (rp_expected (ps_plans s ! i))"
    using plans_inv_plan [OF P inv lost(2)] by blast
  have "\<not> ok" "rp_expected r = rp_expected (ps_plans s ! i)" "rp_envelope r = rp_envelope (ps_plans s ! i)"
    using plan_run_ok [OF P own v lost(4)] by (auto simp: run_ok_def split: option.splits)
  with plans_inv_same [OF inv lost(2)] plan_call.operate [OF own lost(3)] show ?thesis
    unfolding lost(1) by (simp add: plans_inv_def)
next
  case (late g y)
  have "plan_call P (ps_cell s) g y" using late(2) inv by (auto simp: plans_inv_def)
  with plans_inv_grow [OF inv this] inv show ?thesis unfolding late(1) by (auto simp: plans_inv_def)
qed

lemma plan_runs_inv: "planner_ok P \<Longrightarrow> plan_runs P s \<Longrightarrow> plans_inv P s"
proof (rotate_tac 1, induction rule: plan_runs.induct)
  case start
  then show ?case by (simp add: plans_inv_def plan_start_def plan_chain.none)
next
  case (step s s')
  then show ?case using plan_step_inv by blast
qed

section \<open>A run\<close>

definition key_wire :: wire where
  "key_wire = \<lparr>wr_key = (\<lambda>(n, s, i, a). replicate (unat s) (CHR ''x'') @ CHR '':'' # replicate (unat i) (CHR ''x'') @ CHR '':'' #
       replicate (unat a) (CHR ''x'') @ CHR '':'' # n),
     wr_payload_digest = (\<lambda>_. ''p''), wr_text_digest = (\<lambda>_. ''t''), wr_admission = (\<lambda>_. ''a''), wr_dispatch = (\<lambda>_. ''d''), wr_receipt = fst,
     wr_unreceipt = (\<lambda>_. None), wr_binding = (\<lambda>_. ''b'')\<rparr>"

lemma marked_inj: "replicate m x @ y # r = replicate m' x @ y # r' \<Longrightarrow> x \<noteq> y \<Longrightarrow> m = m' \<and> r = r'"
proof (induction m arbitrary: m')
  case 0
  then show ?case by (cases m') auto
next
  case (Suc m)
  then show ?case by (cases m') auto
qed

lemma key_wire_inj: "inj (wr_key key_wire)"
proof (rule injI)
  fix p q
  assume eq: "wr_key key_wire p = wr_key key_wire q"
  obtain n s i a n' s' i' a' where pq: "p = (n, s, i, a)" "q = (n', s', i', a')" by (cases p, cases q) auto
  have "CHR ''x'' \<noteq> CHR '':''" by simp
  note marked = marked_inj [OF _ this]
  from eq have *: "replicate (unat s) (CHR ''x'') @ CHR '':'' # replicate (unat i) (CHR ''x'') @ CHR '':'' # replicate (unat a) (CHR ''x'') @ CHR '':'' # n
      = replicate (unat s') (CHR ''x'') @ CHR '':'' # replicate (unat i') (CHR ''x'') @ CHR '':'' # replicate (unat a') (CHR ''x'') @ CHR '':'' # n'"
    by (simp add: key_wire_def pq)
  from marked [OF *] have s: "unat s = unat s'" and 1: "replicate (unat i) (CHR ''x'') @ CHR '':'' # replicate (unat a) (CHR ''x'') @ CHR '':'' # n
      = replicate (unat i') (CHR ''x'') @ CHR '':'' # replicate (unat a') (CHR ''x'') @ CHR '':'' # n'" by blast+
  from marked [OF 1] have i: "unat i = unat i'" and 2: "replicate (unat a) (CHR ''x'') @ CHR '':'' # n = replicate (unat a') (CHR ''x'') @ CHR '':'' # n'" by blast+
  from marked [OF 2] s i show "p = q" by (simp add: pq word_unat_eq_iff)
qed

text \<open>A codec of envelopes, by their position in a list.\<close>

definition table_env :: "envelope list \<Rightarrow> env_codec" where
  "table_env es = \<lparr>
     ec_to = (\<lambda>e. case find (\<lambda>i. es ! i = e) [0..<length es] of None \<Rightarrow> Inl ''unsupported'' | Some i \<Rightarrow> Inr (replicate i (CHR ''x''))),
     ec_from = (\<lambda>b. if length b < length es then Inr (es ! length b) else Inl ''malformed'')\<rparr>"

lemma table_env_ok: "ec_to (table_env es) e = Inr s \<Longrightarrow> ec_from (table_env es) s = Inr e"
  by (auto simp: table_env_def find_Some_iff split: option.splits)

definition demo_remote :: remote_config where
  "demo_remote = \<lparr>rc_url = ''u'', rc_namespace = ''n'', rc_worker_id = ''w'', rc_bearer_env = ''B'', rc_expires_at = 10 * minute, rc_session = ''s'',
     rc_timeout_seconds = 10, rc_heap_mb = 16\<rparr>"

definition demo_envelope :: "u64 \<Rightarrow> (string, dispatch) btm \<Rightarrow> (string, permit) btm \<Rightarrow> string \<Rightarrow> envelope" where
  "demo_envelope n cl ad b = \<lparr>en_version = 2, en_epoch = 1, en_claims = cl, en_admissions = ad, en_revision = n, en_owner = ''a'', en_term = 5,
     en_contract = ''c'', en_checkpoint = b\<rparr>"

definition claimed_invocation :: invocation where
  "claimed_invocation = \<lparr>inv_occurrence = 2, inv_schedule = 1, inv_due = minute, inv_attempt = 1, inv_code = ''run()''\<rparr>"

definition demo_dispatch :: dispatch where
  "demo_dispatch = claimed_dispatch key_wire demo_remote (demo_envelope 2 [] [] ''xx'') claimed_invocation"

definition demo_key :: string where
  "demo_key = dispatch_key key_wire demo_dispatch"

definition demo_admission :: admission where
  "demo_admission = \<lparr>ad_dispatch = demo_dispatch, ad_worker_incarnation = ''1''\<rparr>"

definition demo_envelopes :: "envelope list" where
  "demo_envelopes = [demo_envelope 1 [] [] ''x'', demo_envelope 2 [] [] ''xx'', demo_envelope 3 [(demo_key, claim_metadata demo_dispatch)] [] ''xxx'',
     demo_envelope 4 [(demo_key, claim_metadata demo_dispatch)] [(demo_key, admission_permit key_wire demo_admission)] ''xxx'']"

definition demo_planner :: "(unit, unit) planner" where
  "demo_planner = \<lparr>pn_cal = minute_calendar, pn_codec = demo_codec, pn_env = table_env demo_envelopes, pn_wire = key_wire\<rparr>"

lemma demo_planner_ok: "planner_ok demo_planner"
  using minute_calendar_ok demo_codec_ok key_wire_inj table_env_ok by (auto simp: planner_ok_def demo_planner_def)

definition plain_core :: "sched_state \<Rightarrow> core" where
  "plain_core s = \<lparr>durable = False, persisted = None, state = s, poisoned = False, runner_active = False\<rparr>"

lemma plain_core_simps [simp]:
  "commit cd w (plain_core s) t = (Inr (), plain_core t)" "state (plain_core s) = s" "\<not> poisoned (plain_core s)"
  by (simp_all add: plain_core_def commit_def)

lemma planner_simps [simp]:
  "pn_cal demo_planner = minute_calendar" "pn_codec demo_planner = demo_codec" "pn_wire demo_planner = key_wire"
  "pn_env demo_planner = table_env demo_envelopes"
  by (simp_all add: demo_planner_def)

lemma demo_envelope_eq [simp]: "demo_envelope n cl ad b = demo_envelope n' cl' ad' b' \<longleftrightarrow> n = n' \<and> cl = cl' \<and> ad = ad' \<and> b = b'"
  by (auto simp: demo_envelope_def)

lemma demo_envelope_simps [simp]:
  "en_claims (demo_envelope n cl ad b) = cl" "en_admissions (demo_envelope n cl ad b) = ad" "en_checkpoint (demo_envelope n cl ad b) = b"
  "en_revision (demo_envelope n cl ad b) = n" "en_epoch (demo_envelope n cl ad b) = 1" "en_owner (demo_envelope n cl ad b) = ''a''"
  "en_term (demo_envelope n cl ad b) = 5" "en_contract (demo_envelope n cl ad b) = ''c''"
  "demo_envelope n cl ad b\<lparr>en_claims := cl', en_admissions := ad'\<rparr> = demo_envelope n cl' ad' b"
  "demo_envelope n cl ad b\<lparr>en_claims := cl'\<rparr> = demo_envelope n cl' ad b"
  "demo_envelope n cl ad b\<lparr>en_admissions := ad'\<rparr> = demo_envelope n cl ad' b"
  by (simp_all add: demo_envelope_def)

lemma demo_checked:
  "checked_envelope (table_env demo_envelopes) (demo_envelope 1 [] [] ''x'') = Inr []"
  "checked_envelope (table_env demo_envelopes) (demo_envelope 2 [] [] ''xx'') = Inr ''x''"
  "checked_envelope (table_env demo_envelopes) (demo_envelope 3 [(demo_key, claim_metadata demo_dispatch)] [] ''xxx'') = Inr ''xx''"
  "checked_envelope (table_env demo_envelopes) (demo_envelope 4 [(demo_key, claim_metadata demo_dispatch)]
     [(demo_key, admission_permit key_wire demo_admission)] ''xxx'') = Inr ''xxx''"
  by (simp_all add: checked_envelope_def table_env_def demo_envelopes_def upt_rec map_err_def MAX_CHECKPOINT_BYTES_def)

lemma demo_decoded:
  "ec_from (table_env demo_envelopes) [] = Inr (demo_envelope 1 [] [] ''x'')"
  "ec_from (table_env demo_envelopes) ''x'' = Inr (demo_envelope 2 [] [] ''xx'')"
  "ec_from (table_env demo_envelopes) ''xx'' = Inr (demo_envelope 3 [(demo_key, claim_metadata demo_dispatch)] [] ''xxx'')"
  by (simp_all add: table_env_def demo_envelopes_def)

definition demo_view :: node_view where
  "demo_view = \<lparr>nv_fixed = True, nv_id = ''a'', nv_leader = True, nv_term = 5, nv_barrier = Inr (), nv_read = Inr None\<rparr>"

definition demo_plan :: "string \<Rightarrow> envelope \<Rightarrow> sched_state \<Rightarrow> replicated" where
  "demo_plan v e s = \<lparr>rp_expected = v, rp_envelope = e, rp_core = plain_core s, rp_limits = default_limits, rp_valid = True\<rparr>"

abbreviation first_plan :: replicated where
  "first_plan \<equiv> demo_plan [] (demo_envelope 1 [] [] ''x'') demo_created"

abbreviation second_plan :: replicated where
  "second_plan \<equiv> demo_plan ''x'' (demo_envelope 2 [] [] ''xx'') (demo_with (Pending 1 minute))"

abbreviation third_plan :: replicated where
  "third_plan \<equiv> demo_plan ''xx'' (demo_envelope 3 [(demo_key, claim_metadata demo_dispatch)] [] ''xxx'') (demo_with (Running 1))"

abbreviation fourth_plan :: replicated where
  "fourth_plan \<equiv> demo_plan ''xxx'' (demo_envelope 4 [(demo_key, claim_metadata demo_dispatch)]
     [(demo_key, admission_permit key_wire demo_admission)] ''xxx'') (demo_with (Running 1))"

lemma plain_loaded:
  assumes "from_json demo_codec b = Inr s" and "version s = 1" and "limits_of s = default_limits"
  shows "from_checkpoint demo_codec Flushed (Some b) default_limits False = Inr (plain_core s)"
  using assms by (simp add: from_checkpoint_def map_err_def Let_def flip: plain_core_def)

lemma demo_created_config [simp]: "version demo_created = 1" "limits_of demo_created = default_limits"
  by (simp_all add: demo_created_def demo_state_def)

lemma demo_unjson:
  "from_json demo_codec ''x'' = Inr demo_created" "from_json demo_codec ''xx'' = Inr (demo_with (Pending 1 minute))"
  by (simp_all add: demo_codec_def table_codec_def)

lemma prune_demo:
  "prune_receipts c (demo_envelope n [] [] b) = demo_envelope n [] [] b"
  "prune_receipts (plain_core (demo_with (Running 1))) (demo_envelope n [(demo_key, claim_metadata demo_dispatch)] [] b)
     = demo_envelope n [(demo_key, claim_metadata demo_dispatch)] [] b"
  "prune_receipts (plain_core (demo_with (Running 1))) (demo_envelope n [(demo_key, claim_metadata demo_dispatch)] [(demo_key, p)] b)
     = demo_envelope n [(demo_key, claim_metadata demo_dispatch)] [(demo_key, p)] b"
  by (simp_all add: prune_receipts_def btm_retain_def occurrences_list_def demo_with_def demo_state_def demo_receipt_def demo_dispatch_def
      claimed_dispatch_def claim_metadata_def claimed_invocation_def Let_def)

lemma demo_acquired:
  "acquire_prepare demo_planner demo_view default_limits [demo_def Queue RunOnce] ''c'' 0 = Inr (None, [], first_plan)"
proof -
  have "from_checkpoint demo_codec Flushed None default_limits True = Inr (plain_core (empty_state default_limits))"
    by (simp add: from_checkpoint_def interrupt_running_def interrupt_state_def btm_map_def empty_state_def flip: plain_core_def)
  moreover have "create_all demo_planner [demo_def Queue RunOnce] 0 (plain_core (empty_state default_limits)) = Inr (plain_core demo_created)"
    by (simp add: create_all_def create_def checked_add_def demo_created_eq)
  moreover have "next_envelope demo_view None ''c'' (checkpoint demo_codec (plain_core demo_created)) = Inr (demo_envelope 1 [] [] ''x'')"
    by (simp add: next_envelope_def checkpoint_def demo_json map_err_def demo_view_def demo_envelope_def)
  ultimately show ?thesis
    by (simp add: acquire_prepare_def demo_view_def prune_demo demo_checked demo_plan_def)
qed

lemma demo_stage:
  assumes "n < 10" and "to_json demo_codec s' = Inr b'" and "prune_receipts (plain_core s') (demo_envelope (n + 1) cl' ad' b') = demo_envelope (n + 1) cl' ad' b'"
    and "checked_envelope (table_env demo_envelopes) (demo_envelope (n + 1) cl' ad' b') = Inr v'"
  shows "stage_envelope demo_planner (demo_plan v (demo_envelope n cl ad b) s) (plain_core s') (demo_envelope n cl' ad' b)
    = Inr (demo_envelope (n + 1) cl' ad' b', v')"
proof -
  have "checked_add n 1 = Some (n + 1)" using assms(1) by (simp add: checked_add_def word_less_nat_alt)
  moreover have "\<lparr>en_version = 2, en_epoch = 1, en_claims = cl', en_admissions = ad', en_revision = n + 1, en_owner = ''a'', en_term = 5,
      en_contract = ''c'', en_checkpoint = b'\<rparr> = demo_envelope (n + 1) cl' ad' b'" by (simp add: demo_envelope_def)
  ultimately show ?thesis
    using assms by (simp add: stage_envelope_def demo_plan_def checkpoint_def map_err_def)
qed

lemma demo_transition:
  assumes dec: "ec_from (table_env demo_envelopes) v = Inr (demo_envelope n cl ad b)"
    and load: "from_json demo_codec b = Inr s" "version s = 1" "limits_of s = default_limits"
    and act: "act (plain_core s) (demo_envelope n cl ad b) = (Inr x, plain_core s', demo_envelope n cl' ad' b)"
    and st: "stage_envelope demo_planner (demo_plan v (demo_envelope n cl ad b) s) (plain_core s') (demo_envelope n cl' ad' b) = Inr (e, v')"
  shows "proposed (transition_prepare demo_planner (True, 5) act (demo_plan v (demo_envelope n cl ad b) s)) = Some v'"
    and "transition_state demo_planner (True, 5) (Inr True) act (demo_plan v (demo_envelope n cl ad b) s) = (Inr x, demo_plan v' e s')"
proof -
  have p: "transition_prepare demo_planner (True, 5) act (demo_plan v (demo_envelope n cl ad b) s)
      = (Inr (x, e, v', plain_core s'), (demo_plan v (demo_envelope n cl ad b) s)\<lparr>rp_valid := False\<rparr>)"
    using st plain_loaded [OF load] dec act by (simp add: transition_prepare_def demo_plan_def map_err_def)
  show "proposed (transition_prepare demo_planner (True, 5) act (demo_plan v (demo_envelope n cl ad b) s)) = Some v'"
    by (simp add: p proposed_def)
  show "transition_state demo_planner (True, 5) (Inr True) act (demo_plan v (demo_envelope n cl ad b) s) = (Inr x, demo_plan v' e s')"
    unfolding transition_state_def p by (simp add: demo_plan_def)
qed

lemma demo_observes:
  "plan_value demo_planner (True, 5) (PObserve minute) first_plan = Some ''x''"
  "plan_run demo_planner ((True, 5), Inr True) (PObserve minute) first_plan = (True, second_plan)"
proof -
  let ?f = "\<lambda>c. observe minute_calendar demo_codec Flushed c minute"
  have act: "on_core ?f (plain_core demo_created) (demo_envelope 1 [] [] ''x'') = (Inr (), plain_core (demo_with (Pending 1 minute)), demo_envelope 1 [] [] ''x'')"
    by (simp add: on_core_def observe_def demo_observed demo_watermark)
  have st: "stage_envelope demo_planner first_plan (plain_core (demo_with (Pending 1 minute))) (demo_envelope 1 [] [] ''x'') = Inr (demo_envelope 2 [] [] ''xx'', ''x'')"
    using demo_stage [of 1 "demo_with (Pending 1 minute)" "''xx''" "[]" "[]"] by (simp add: demo_json prune_demo demo_checked)
  note * = demo_transition [where act = "on_core ?f", OF demo_decoded(1) demo_unjson(1) _ _ act st]
  show "plan_value demo_planner (True, 5) (PObserve minute) first_plan = Some ''x''" using *(1) by simp
  show "plan_run demo_planner ((True, 5), Inr True) (PObserve minute) first_plan = (True, second_plan)"
    using *(2) by (simp add: repl_observe_def returned_def)
qed

lemma demo_valid: "validate_dispatch key_wire demo_dispatch = Inr ()"
  by (simp add: validate_dispatch_def demo_dispatch_def claimed_dispatch_def key_wire_def demo_remote_def claimed_invocation_def)

lemma demo_claims:
  "plan_value demo_planner (True, 5) (PClaimFor minute demo_remote) second_plan = Some ''xx''"
  "plan_run demo_planner ((True, 5), Inr True) (PClaimFor minute demo_remote) second_plan = (True, third_plan)"
proof -
  have cl: "claim demo_codec Flushed (plain_core (demo_with (Pending 1 minute))) minute = (Inr (Some claimed_invocation), plain_core (demo_with (Running 1)))"
    by (simp add: claim_def demo_candidate demo_receipt_def demo_schedule_def demo_def_def claimed_invocation_def)
  have act: "claim_action demo_planner minute demo_remote (plain_core (demo_with (Pending 1 minute))) (demo_envelope 2 [] [] ''xx'')
      = (Inr (Some (claimed_invocation, demo_dispatch)), plain_core (demo_with (Running 1)), demo_envelope 2 [(demo_key, claim_metadata demo_dispatch)] [] ''xx'')"
    by (simp add: claim_action_def cl demo_valid flip: demo_dispatch_def demo_key_def)
  have st: "stage_envelope demo_planner second_plan (plain_core (demo_with (Running 1))) (demo_envelope 2 [(demo_key, claim_metadata demo_dispatch)] [] ''xx'')
      = Inr (demo_envelope 3 [(demo_key, claim_metadata demo_dispatch)] [] ''xxx'', ''xx'')"
    using demo_stage [of 2 "demo_with (Running 1)" "''xxx''" "[(demo_key, claim_metadata demo_dispatch)]" "[]"] by (simp add: demo_json prune_demo demo_checked)
  note * = demo_transition [where act = "claim_action demo_planner minute demo_remote", OF demo_decoded(2) demo_unjson(2) _ _ act st]
  show "plan_value demo_planner (True, 5) (PClaimFor minute demo_remote) second_plan = Some ''xx''" using *(1) by simp
  show "plan_run demo_planner ((True, 5), Inr True) (PClaimFor minute demo_remote) second_plan = (True, third_plan)"
    using *(2) by (simp add: claim_for_worker_def returned_def)
qed

lemma demo_admits:
  "plan_value demo_planner (True, 5) (PAdmit demo_admission minute) third_plan = Some ''xxx''"
  "plan_run demo_planner ((True, 5), Inr True) (PAdmit demo_admission minute) third_plan = (True, fourth_plan)"
proof -
  let ?e = "demo_envelope 3 [(demo_key, claim_metadata demo_dispatch)] [] ''xxx''"
  have act: "admit_action demo_planner demo_admission minute (plain_core (demo_with (Running 1))) ?e
      = (Inr (admission_permit key_wire demo_admission), plain_core (demo_with (Running 1)),
         demo_envelope 3 [(demo_key, claim_metadata demo_dispatch)] [(demo_key, admission_permit key_wire demo_admission)] ''xxx'')"
  proof -
    have "list_ex (\<lambda>oc. occ_id oc = dp_occurrence_id demo_dispatch \<and> occ_schedule oc = dp_schedule_id demo_dispatch
        \<and> occ_status oc = Running (dp_attempt demo_dispatch)) (occurrences_list (plain_core (demo_with (Running 1))))"
      by (simp add: occurrences_list_def demo_with_def demo_state_def demo_receipt_def demo_dispatch_def claimed_dispatch_def claimed_invocation_def Let_def)
    moreover have "dp_epoch demo_dispatch = 1" "dp_owner demo_dispatch = ''a''" "\<not> pl_expires_at (dp_payload demo_dispatch) \<le> minute"
      by (simp_all add: demo_dispatch_def claimed_dispatch_def demo_remote_def minute_def Let_def)
    ultimately show ?thesis
      by (simp add: admit_action_def demo_admission_def demo_valid claim_matches_def Let_def flip: demo_key_def)
  qed
  have st: "stage_envelope demo_planner third_plan (plain_core (demo_with (Running 1)))
        (demo_envelope 3 [(demo_key, claim_metadata demo_dispatch)] [(demo_key, admission_permit key_wire demo_admission)] ''xxx'')
      = Inr (demo_envelope 4 [(demo_key, claim_metadata demo_dispatch)] [(demo_key, admission_permit key_wire demo_admission)] ''xxx'', ''xxx'')"
    using demo_stage [of 3 "demo_with (Running 1)" "''xxx''" "[(demo_key, claim_metadata demo_dispatch)]" "[(demo_key, admission_permit key_wire demo_admission)]"]
    by (simp add: demo_json prune_demo demo_checked)
  note * = demo_transition [where act = "admit_action demo_planner demo_admission minute", OF demo_decoded(3) demo_json(6) _ _ act st]
  show "plan_value demo_planner (True, 5) (PAdmit demo_admission minute) third_plan = Some ''xxx''" using *(1) by simp
  show "plan_run demo_planner ((True, 5), Inr True) (PAdmit demo_admission minute) third_plan = (True, fourth_plan)"
    using *(2) by (simp add: admit_def returned_def)
qed

definition demo_plans :: plan_sys where
  "demo_plans = \<lparr>ps_past = [(''xxx'', Some (Admitted demo_dispatch)), (''xx'', None), (''x'', None), ([], None)], ps_plans = [fourth_plan], ps_loose = [],
     ps_told = [Admitted demo_dispatch]\<rparr>"

lemma demo_plans_run: "plan_runs demo_planner demo_plans"
proof -
  let ?s1 = "\<lparr>ps_past = [([], None)], ps_plans = [first_plan], ps_loose = [], ps_told = []\<rparr>"
  let ?s2 = "\<lparr>ps_past = [(''x'', None), ([], None)], ps_plans = [second_plan], ps_loose = [], ps_told = []\<rparr>"
  let ?s3 = "\<lparr>ps_past = [(''xx'', None), (''x'', None), ([], None)], ps_plans = [third_plan], ps_loose = [], ps_told = []\<rparr>"
  have "plan_step demo_planner plan_start ?s1"
    using plan_step.acquired [of demo_planner demo_view default_limits "[demo_def Queue RunOnce]" "''c''" 0 plan_start "[]" first_plan first_plan]
    by (simp add: acquire_def demo_acquired plan_start_def ps_cell_def)
  moreover have "plan_step demo_planner ?s1 ?s2"
    using plan_step.swapped [of 0 ?s1 demo_planner "(True, 5)" "PObserve minute" "''x''" True second_plan] demo_observes
    by (simp add: ps_cell_def demo_plan_def tell_def)
  moreover have "plan_step demo_planner ?s2 ?s3"
    using plan_step.swapped [of 0 ?s2 demo_planner "(True, 5)" "PClaimFor minute demo_remote" "''xx''" True third_plan] demo_claims
    by (simp add: ps_cell_def demo_plan_def tell_def)
  moreover have "plan_step demo_planner ?s3 demo_plans"
    using plan_step.swapped [of 0 ?s3 demo_planner "(True, 5)" "PAdmit demo_admission minute" "''xxx''" True fourth_plan] demo_admits
    by (simp add: ps_cell_def demo_plan_def tell_def demo_plans_def demo_admission_def)
  ultimately show ?thesis using plan_runs.intros by metis
qed

section \<open>Decided at most once\<close>

text \<open>C7. Whatever nodes acquire the plan and call it, with swaps refused, lost or done late, an invocation is decided at most once: it
  is admitted once, or certified as not launched once, and never both; and what a call returns was decided.\<close>

theorem invocation_decided_once:
  assumes "planner_ok P" and "plan_runs P s"
  shows "distinct (map (dispatch_identity \<circ> decided) (decisions (ps_past s))) \<and> set (ps_told s) \<subseteq> set (decisions (ps_past s))"
  using plan_runs_inv [OF assms] chain_inv [OF assms(1), of "ps_past s"] by (simp add: plans_inv_def)

theorem invocation_decided_once_witness:
  "plan_runs demo_planner demo_plans \<and> decisions (ps_past demo_plans) = [Admitted demo_dispatch]
     \<and> distinct (map (dispatch_identity \<circ> decided) (decisions (ps_past demo_plans)))
     \<and> set (ps_told demo_plans) \<subseteq> set (decisions (ps_past demo_plans))"
  using invocation_decided_once [OF demo_planner_ok demo_plans_run] demo_plans_run by (simp add: demo_plans_def)

end
