(* ===== verification/Sched_Driver.thy ===== *)
theory Sched_Driver
  imports Sched_Props
begin

text \<open>
  The driver of a local core (\<open>run_until\<close> in \<open>src/scheduler-core/src/runner.rs\<close>): it claims until nothing is eligible, executes what it
  claimed, observes at each pulse, and drains when it is stopped. Each function is a part of the loop between two waits. The tasks
  that execute are the list of their invocations, and one that ends is named by its position; \<open>None\<close> as its result is an
  executor that panicked. A poisoned mutex, which a panic of another thread would leave, is not modelled.
\<close>

section \<open>Model\<close>

record driver =
  dv_core :: core
  dv_running :: "invocation list"
  dv_stopping :: bool
  dv_claiming :: bool
  dv_ended :: "unit result option"

text \<open>\<open>start\<close> and \<open>shut\<close> are what the pulse source answered to its start and its shutdown, \<open>stop\<close> whether the stop signal is there already.\<close>

definition driver_begin ::
  "('cron, 'tz) calendar \<Rightarrow> codec \<Rightarrow> unit result \<Rightarrow> bool \<Rightarrow> unit result \<Rightarrow> time \<Rightarrow> store_answer \<Rightarrow> core \<Rightarrow> driver result" where
  "driver_begin cal cd start stop shut now w c =
     (if runner_active c then Inl (Err ''a runner already owns this core'')
      else
       (let d = \<lparr>dv_core = c\<lparr>runner_active := True\<rparr>, dv_running = [], dv_stopping = False, dv_claiming = True, dv_ended = None\<rparr> in
        Inr (case start of
            Inl e \<Rightarrow> d\<lparr>dv_ended := Some (Inl e)\<rparr>
          | Inr _ \<Rightarrow>
             if stop then d\<lparr>dv_ended := Some shut\<rparr>
             else case observe cal cd w (dv_core d) now of
               (Inl e, c') \<Rightarrow> d\<lparr>dv_core := c', dv_ended := Some (Inl e)\<rparr>
             | (Inr _, c') \<Rightarrow> d\<lparr>dv_core := c'\<rparr>)))"

text \<open>One round of the claiming loop.\<close>

definition driver_claim :: "codec \<Rightarrow> bool \<Rightarrow> time \<Rightarrow> store_answer \<Rightarrow> driver \<Rightarrow> driver" where
  "driver_claim cd stop now w d =
     (if stop then d\<lparr>dv_stopping := True, dv_claiming := False\<rparr>
      else case claim cd w (dv_core d) now of
        (Inl e, c) \<Rightarrow> d\<lparr>dv_core := c, dv_ended := Some (Inl e)\<rparr>
      | (Inr None, c) \<Rightarrow> d\<lparr>dv_core := c, dv_claiming := False\<rparr>
      | (Inr (Some iv), c) \<Rightarrow> d\<lparr>dv_core := c, dv_running := dv_running d @ [iv]\<rparr>)"

definition driver_stop :: "driver \<Rightarrow> driver" where
  "driver_stop d = d\<lparr>dv_stopping := True\<rparr>"

definition driver_completed ::
  "('cron, 'tz) calendar \<Rightarrow> codec \<Rightarrow> time \<Rightarrow> store_answer \<Rightarrow> nat \<Rightarrow> outcome option \<Rightarrow> driver \<Rightarrow> driver" where
  "driver_completed cal cd now w i res d =
     (let iv = dv_running d ! i; d1 = d\<lparr>dv_running := without i (dv_running d)\<rparr>;
          out = (case res of Some out \<Rightarrow> out | None \<Rightarrow> OUnknown ''executor panicked'') in
      case finish cal cd w (dv_core d) iv out now of
        (Inl e, c) \<Rightarrow> d1\<lparr>dv_core := c, dv_ended := Some (Inl e)\<rparr>
      | (Inr _, c) \<Rightarrow> d1\<lparr>dv_core := c, dv_claiming := \<not> dv_stopping d\<rparr>)"

definition driver_pulse :: "('cron, 'tz) calendar \<Rightarrow> codec \<Rightarrow> unit result \<Rightarrow> time \<Rightarrow> store_answer \<Rightarrow> driver \<Rightarrow> driver" where
  "driver_pulse cal cd pulse now w d =
     (case pulse of
        Inl e \<Rightarrow> d\<lparr>dv_ended := Some (Inl e)\<rparr>
      | Inr _ \<Rightarrow>
         (case observe cal cd w (dv_core d) now of
            (Inl e, c) \<Rightarrow> d\<lparr>dv_core := c, dv_ended := Some (Inl e)\<rparr>
          | (Inr _, c) \<Rightarrow> d\<lparr>dv_core := c, dv_claiming := True\<rparr>))"

definition driver_drained :: "driver \<Rightarrow> bool" where
  "driver_drained d \<longleftrightarrow> \<not> dv_claiming d \<and> dv_stopping d \<and> dv_running d = []"

definition driver_end :: "unit result \<Rightarrow> driver \<Rightarrow> driver" where
  "driver_end shut d = d\<lparr>dv_ended := Some shut\<rparr>"

text \<open>\<open>Drop for Lease\<close>, when the driver returns or its future is dropped.\<close>

definition lease_drop :: "codec \<Rightarrow> store_answer \<Rightarrow> core \<Rightarrow> core" where
  "lease_drop cd w c = (snd (interrupt_running cd w c))\<lparr>runner_active := False\<rparr>"

text \<open>The loop, with calls of other owners of the core between its steps; none but the driver claims.\<close>

fun is_claim :: "sched_op \<Rightarrow> bool" where
  "is_claim (Claim _) = True"
| "is_claim _ = False"

inductive driver_step :: "('cron, 'tz) calendar \<Rightarrow> codec \<Rightarrow> driver \<Rightarrow> driver \<Rightarrow> bool" for cal cd where
  claimed: "dv_ended d = None \<Longrightarrow> dv_claiming d \<Longrightarrow> driver_step cal cd d (driver_claim cd stop now w d)"
| stopped: "dv_ended d = None \<Longrightarrow> \<not> dv_claiming d \<Longrightarrow> \<not> dv_stopping d \<Longrightarrow> driver_step cal cd d (driver_stop d)"
| completed: "dv_ended d = None \<Longrightarrow> \<not> dv_claiming d \<Longrightarrow> i < length (dv_running d) \<Longrightarrow> driver_step cal cd d (driver_completed cal cd now w i res d)"
| pulsed: "dv_ended d = None \<Longrightarrow> \<not> dv_claiming d \<Longrightarrow> \<not> dv_stopping d \<Longrightarrow> driver_step cal cd d (driver_pulse cal cd pulse now w d)"
| ended: "dv_ended d = None \<Longrightarrow> driver_drained d \<Longrightarrow> driver_step cal cd d (driver_end shut d)"
| called: "\<not> is_claim op \<Longrightarrow> apply_op cal cd op w (dv_core d) = (iv, c) \<Longrightarrow> driver_step cal cd d (d\<lparr>dv_core := c\<rparr>)"

section \<open>Receipts of attempts in execution\<close>

definition in_execution :: "sched_state \<Rightarrow> (u64 \<times> u32) set" where
  "in_execution s = {(k, a). \<exists>oc. btm_get (occurrences s) k = Some oc \<and> occ_status oc = Running a}"

lemma in_execution_frame [simp]:
  "in_execution (s\<lparr>schedules := x\<rparr>) = in_execution s" "in_execution (s\<lparr>next_id := n\<rparr>) = in_execution s"
  "in_execution (s\<lparr>next_id := n, schedules := x\<rparr>) = in_execution s" "in_execution (s\<lparr>watermark := m\<rparr>) = in_execution s"
  by (simp_all add: in_execution_def)

lemma in_execution_set_status:
  "(\<forall>a. st \<noteq> Running a) \<Longrightarrow> in_execution (set_status i st s) \<subseteq> in_execution s - {p. fst p = i}"
  by (auto simp: in_execution_def get_set_status split: if_splits option.splits)

lemma in_execution_claim: "in_execution (set_status i (Running a) s) \<subseteq> insert (i, a) (in_execution s)"
  by (auto simp: in_execution_def get_set_status split: if_splits option.splits)

lemma in_execution_interrupt: "in_execution (interrupt_state why s) = {}"
proof -
  have "interrupt_status why st \<noteq> Running a" for st a by (cases st) simp_all
  then show ?thesis by (auto simp: in_execution_def get_interrupt)
qed

lemma in_execution_evict: "evict s = Some t \<Longrightarrow> in_execution t \<subseteq> in_execution s"
  by (auto simp: evict_def in_execution_def btm_get_remove split: if_splits option.splits)

lemma in_execution_admit:
  assumes "admit_slot now i ov due s = Inr t"
  shows "in_execution t \<subseteq> in_execution s"
proof -
  consider (bump) "t = bump_rejected i s"
    | (add) s' n where "evict s = Some s'"
        "t = s'\<lparr>next_id := n, occurrences := btm_insert (next_id s')
           \<lparr>occ_id = next_id s', occ_schedule = i, due_at = due, occ_status = Pending 1 now\<rparr> (occurrences s')\<rparr>"
    using assms by (auto simp: admit_slot_def split: if_splits option.splits)
  then show ?thesis
  proof cases
    case bump
    then show ?thesis by (simp add: in_execution_def bump_rejected_def)
  next
    case add
    then have "in_execution t \<subseteq> in_execution s'" by (auto simp: in_execution_def btm_get_insert split: if_splits)
    with in_execution_evict [OF add(1)] show ?thesis by blast
  qed
qed

lemma in_execution_observe:
  assumes "observe_schedule cal now i s = Inr t"
  shows "in_execution t \<subseteq> in_execution s"
  using assms
proof (cases rule: observe_schedule_cases)
  case (live sc lo cron tz nxt ds)
  have "in_execution t \<subseteq> in_execution (s\<lparr>schedules := btm_modify i (\<lambda>x. x\<lparr>next_due := Some nxt\<rparr>) (schedules s)\<rparr>)"
    using live(8) by (rule fold_res_invariant [where I = "\<lambda>t. in_execution t \<subseteq> _"]) (use in_execution_admit in blast)+
  then show ?thesis by (simp add: in_execution_def)
qed (simp_all add: in_execution_def)

text \<open>What a commit does to them: at most what the committed state does.\<close>

lemma in_execution_commit:
  "in_execution s \<subseteq> A \<Longrightarrow> in_execution (state c) \<subseteq> A \<Longrightarrow> in_execution (state (snd (commit cd w c s))) \<subseteq> A"
  using commit_state [of cd w c s] by auto

lemma in_execution_observed: "in_execution (state (snd (observe cal cd w c now))) \<subseteq> in_execution (state c)"
proof -
  have "in_execution s \<subseteq> in_execution (state c)" if "fold_res (observe_schedule cal now) (btm_keys (schedules (state c))) (state c) = Inr s" for s
    using that by (rule fold_res_invariant [where I = "\<lambda>t. in_execution t \<subseteq> _"]) (use in_execution_observe in blast)+
  then have "in_execution (s\<lparr>watermark := Some now\<rparr>) \<subseteq> in_execution (state c)"
    if "fold_res (observe_schedule cal now) (btm_keys (schedules (state c))) (state c) = Inr s" for s
    using that by (simp add: in_execution_def)
  then show ?thesis by (simp add: observe_def in_execution_commit split: sum.split)
qed

lemma finish_status_not_running: "finish_status cal r cn a out now = Inr st \<Longrightarrow> st \<noteq> Running b"
  by (auto simp: finish_status_def split: outcome.splits if_splits option.splits)

lemma settle_in_execution:
  "(\<forall>a. st \<noteq> Running a) \<Longrightarrow> in_execution (state (snd (commit cd w c (set_status i st (state c))))) \<subseteq> in_execution (state c)"
  using in_execution_set_status [of st i "state c"] by (intro in_execution_commit) auto

lemma in_execution_finish: "in_execution (state (snd (finish cal cd w c iv out now))) \<subseteq> in_execution (state c)"
  by (auto simp: finish_def settle_in_execution finish_status_not_running split: option.split sum.split)

lemma in_execution_finished:
  assumes "finish cal cd w c iv out now = (Inr u, c')"
  shows "in_execution (state c') \<subseteq> in_execution (state c) - {p. fst p = inv_occurrence iv}"
proof -
  obtain st where "\<forall>a. st \<noteq> Running a" and cm: "commit cd w c (set_status (inv_occurrence iv) st (state c)) = (Inr u, c')"
    using assms by (auto simp: finish_def dest: finish_status_not_running split: option.splits sum.splits if_splits)
  moreover from cm have "state c' = set_status (inv_occurrence iv) st (state c)" by (auto elim: commit_cases)
  ultimately show ?thesis by (simp add: in_execution_set_status)
qed

lemma in_execution_claimed:
  assumes "claim cd w c now = (r, c')"
  shows "in_execution (state c') \<subseteq> (case r of Inr (Some iv) \<Rightarrow> {attempt_key iv} | _ \<Rightarrow> {}) \<union> in_execution (state c)"
proof -
  define Q where "Q \<longleftrightarrow> in_execution (state c') \<subseteq> (case r of Inr (Some iv) \<Rightarrow> {attempt_key iv} | _ \<Rightarrow> {}) \<union> in_execution (state c)"
  have Q if "(case commit cd w c (set_status i (Running a) (state c)) of (Inl e, c') \<Rightarrow> (Inl e, c')
        | (Inr _, c') \<Rightarrow> (Inr (Some \<lparr>inv_occurrence = i, inv_schedule = occ_schedule oc, inv_due = due_at oc, inv_attempt = a,
            inv_code = def_code (sched_def sc)\<rparr>), c')) = (r, c')" for i a oc sc
  proof -
    obtain q c1 where cm: "commit cd w c (set_status i (Running a) (state c)) = (q, c1)" by fastforce
    then show ?thesis
    proof (cases rule: commit_cases)
      case (stored p)
      with that cm show ?thesis using in_execution_claim [of i a "state c"] by (auto simp: Q_def attempt_key_def)
    next
      case (kept e b)
      with that cm show ?thesis by (auto simp: Q_def)
    qed
  qed
  moreover have Q if "c' = c" using that by (auto simp: Q_def)
  ultimately have Q using assms unfolding claim_def Let_def by (auto split: if_splits sum.splits option.splits)
  then show ?thesis by (simp only: Q_def)
qed

lemma in_execution_call:
  assumes "\<not> is_claim op"
  shows "in_execution (state (snd (apply_op cal cd op w c))) \<subseteq> in_execution (state c)"
proof (cases op)
  case (Create d now)
  show ?thesis unfolding Create create_def Let_def apply_op.simps
    by (simp add: in_execution_commit del: after_commit_None split: option.split sum.split prod.split)
next
  case Interrupt
  show ?thesis unfolding Interrupt apply_op.simps snd_conv interrupt_running_def
    by (intro in_execution_commit) (simp_all add: in_execution_interrupt)
next
  case (Cancel i)
  show ?thesis unfolding Cancel by (simp add: request_cancel_def settle_in_execution del: after_commit_None split: option.split status.split)
next
  case (Acknowledge i)
  show ?thesis unfolding Acknowledge by (simp add: acknowledge_stopped_def settle_in_execution Let_def del: after_commit_None split: option.split status.split)
next
  case (Reject i a)
  show ?thesis unfolding Reject by (simp add: reject_unadmitted_def settle_in_execution Let_def del: after_commit_None split: option.split status.split)
qed (use assms in \<open>simp_all add: disable_def delete_def stop_schedule_def in_execution_observed in_execution_finish in_execution_commit del: after_commit_None split: option.split\<close>)

section \<open>Invariants of the driver\<close>

lemma runner_active_commit: "runner_active (snd (commit cd w c s)) = runner_active c"
  by (cases "commit cd w c s" rule: prod.exhaust) (auto elim: commit_cases)

lemma after_commit_snd [simp]: "snd (after_commit l p) = snd p"
  by (auto simp: after_commit_def split: prod.splits sum.splits)

lemma runner_active_call: "runner_active (snd (apply_op cal cd op w c)) = runner_active c"
  using apply_op_one_commit [of cal cd op c w w] by (auto simp: one_commit_def runner_active_commit)

lemma runner_active_ops [simp]:
  "runner_active (snd (observe cal cd w c now)) = runner_active c" "runner_active (snd (finish cal cd w c iv out now)) = runner_active c"
  "runner_active (snd (claim cd w c now)) = runner_active c"
proof -
  show "runner_active (snd (observe cal cd w c now)) = runner_active c" "runner_active (snd (finish cal cd w c iv out now)) = runner_active c"
    using runner_active_call [of cal cd "Observe now" w c] runner_active_call [of cal cd "Finish iv out now" w c] by simp_all
  have "snd (apply_op cal cd (Claim now) w c) = snd (claim cd w c now)" by (auto split: prod.splits sum.splits option.splits)
  with runner_active_call [of cal cd "Claim now" w c] show "runner_active (snd (claim cd w c now)) = runner_active c" by simp
qed

text \<open>What is in execution is what the driver has started, unless it has failed.\<close>

definition driver_ok :: "driver \<Rightarrow> bool" where
  "driver_ok d \<longleftrightarrow> runner_active (dv_core d)
     \<and> ((\<exists>e. dv_ended d = Some (Inl e)) \<or> in_execution (state (dv_core d)) \<subseteq> attempt_key ` set (dv_running d))
     \<and> (dv_ended d = Some (Inr ()) \<longrightarrow> dv_running d = [])"

lemma driver_ok_failed: "runner_active c \<Longrightarrow> driver_ok (d\<lparr>dv_core := c, dv_ended := Some (Inl e)\<rparr>)"
  by (simp add: driver_ok_def)

lemma begin_ok:
  assumes "driver_begin cal cd start stop shut now w c = Inr d" and "in_execution (state c) = {}"
  shows "driver_ok d"
proof -
  let ?c = "c\<lparr>runner_active := True\<rparr>"
  obtain q c' where ob: "observe cal cd w ?c now = (q, c')" by fastforce
  have "runner_active c'" "in_execution (state c') = {}"
    using ob runner_active_ops(1) [of cal cd w ?c now] in_execution_observed [of cal cd w ?c now] assms(2) by simp_all
  with assms ob show ?thesis
    by (cases shut) (auto simp: driver_begin_def driver_ok_def Let_def split: if_splits sum.splits)
qed

lemma claim_ok:
  assumes "driver_ok d" and "dv_ended d = None"
  shows "driver_ok (driver_claim cd stop now w d)"
proof -
  obtain r c where cl: "claim cd w (dv_core d) now = (r, c)" by fastforce
  have act: "runner_active c" using runner_active_ops(3) [of cd w "dv_core d" now] cl assms(1) by (simp add: driver_ok_def)
  show ?thesis
    using in_execution_claimed [OF cl] assms act
    by (auto simp: driver_claim_def cl driver_ok_def split: sum.split option.split)
qed

lemma completed_ok:
  assumes "driver_ok d" and "dv_ended d = None" and "i < length (dv_running d)"
  shows "driver_ok (driver_completed cal cd now w i res d)"
proof -
  let ?iv = "dv_running d ! i" and ?out = "case res of Some out \<Rightarrow> out | None \<Rightarrow> OUnknown ''executor panicked''"
  obtain r c where fin: "finish cal cd w (dv_core d) ?iv ?out now = (r, c)" by fastforce
  have act: "runner_active c" using runner_active_ops(2) [of cal cd w "dv_core d" ?iv ?out now] fin assms(1) by (simp add: driver_ok_def)
  show ?thesis
  proof (cases r)
    case (Inl e)
    with fin act show ?thesis by (simp add: driver_completed_def Let_def driver_ok_def)
  next
    case (Inr u)
    have "set (dv_running d) = insert ?iv (set (without i (dv_running d)))"
      using assms(3) by (metis without_def Cons_nth_drop_Suc append_take_drop_id list.simps(15) set_append Un_insert_right)
    moreover have "in_execution (state (dv_core d)) \<subseteq> attempt_key ` set (dv_running d)" using assms(1,2) by (simp add: driver_ok_def)
    ultimately have all: "in_execution (state (dv_core d)) \<subseteq> insert (attempt_key ?iv) (attempt_key ` set (without i (dv_running d)))" by simp
    have "in_execution (state c) \<subseteq> attempt_key ` set (without i (dv_running d))"
    proof
      fix p assume "p \<in> in_execution (state c)"
      with in_execution_finished [OF fin [unfolded Inr]] have "p \<in> in_execution (state (dv_core d))" "fst p \<noteq> inv_occurrence ?iv" by auto
      moreover from this(2) have "p \<noteq> attempt_key ?iv" by (auto simp: attempt_key_def)
      ultimately show "p \<in> attempt_key ` set (without i (dv_running d))" using all by auto
    qed
    with fin Inr act assms(2) show ?thesis by (simp add: driver_completed_def Let_def driver_ok_def)
  qed
qed

lemma driver_step_ok: "driver_step cal cd d d' \<Longrightarrow> driver_ok d \<Longrightarrow> driver_ok d'"
proof (induction rule: driver_step.induct)
  case (claimed d stop now w)
  then show ?case by (simp add: claim_ok)
next
  case (completed d i now w res)
  then show ?case by (simp add: completed_ok)
next
  case (pulsed d pulse now w)
  then show ?case
    using in_execution_observed [of cal cd w "dv_core d" now] runner_active_ops(1) [of cal cd w "dv_core d" now]
    by (cases "observe cal cd w (dv_core d) now") (auto simp: driver_pulse_def driver_ok_def split: sum.split)
next
  case (called op w d iv c)
  then show ?case
    using in_execution_call [OF called(1), of cal cd w "dv_core d"] runner_active_call [of cal cd op w "dv_core d"]
    by (auto simp: driver_ok_def)
qed (auto simp: driver_ok_def driver_stop_def driver_end_def driver_drained_def)

section \<open>Properties\<close>

text \<open>C21. One driver owns a core at a time, and a driver that was stopped has drained: when it returns without an error no attempt is in
  execution, so that the end of its lease changes no receipt; afterwards another driver may begin.\<close>

theorem driver_drains:
  assumes "driver_begin cal cd start stop shut now w c = Inr d" and "in_execution (state c) = {}" and "(driver_step cal cd)\<^sup>*\<^sup>* d d'"
  shows "driver_begin cal cd start2 stop2 shut2 now2 w2 (dv_core d') = Inl (Err ''a runner already owns this core'')
    \<and> (dv_ended d' = Some (Inr ()) \<longrightarrow> in_execution (state (dv_core d')) = {}
        \<and> (\<forall>k. btm_get (occurrences (state (lease_drop cd w3 (dv_core d')))) k = btm_get (occurrences (state (dv_core d'))) k))
    \<and> (\<exists>e. driver_begin cal cd start2 stop2 shut2 now2 w2 (lease_drop cd w3 (dv_core d')) = Inr e)"
proof -
  have ok: "driver_ok d'" using assms(3)
    by (induction rule: rtranclp_induct) (rule begin_ok [OF assms(1,2)], rule driver_step_ok)
  have free: "\<exists>e. driver_begin cal cd start2 stop2 shut2 now2 w2 (lease_drop cd w3 (dv_core d')) = Inr e"
    by (simp add: driver_begin_def lease_drop_def Let_def)
  have "btm_get (occurrences (state (lease_drop cd w3 (dv_core d')))) k = btm_get (occurrences (state (dv_core d'))) k"
    if none: "in_execution (state (dv_core d')) = {}" for k
  proof -
    have "interrupt_status why (occ_status oc) = occ_status oc" if "btm_get (occurrences (state (dv_core d'))) k = Some oc" for oc why
      using none that by (cases "occ_status oc") (auto simp: in_execution_def)
    then have "btm_get (occurrences (interrupt_state why (state (dv_core d')))) k = btm_get (occurrences (state (dv_core d'))) k" for why
      by (cases "btm_get (occurrences (state (dv_core d'))) k") (simp_all add: get_interrupt)
    then show ?thesis
      using commit_state [of cd w3 "dv_core d'" "interrupt_state ''runner interrupted before durable completion'' (state (dv_core d'))"]
      by (auto simp: lease_drop_def interrupt_running_def)
  qed
  moreover have "dv_ended d' = Some (Inr ()) \<Longrightarrow> in_execution (state (dv_core d')) = {}" using ok by (auto simp: driver_ok_def)
  ultimately show ?thesis using ok free by (auto simp: driver_begin_def driver_ok_def)
qed

text \<open>The witness: a driver of a core in memory observes, claims and executes the first occurrence, is stopped, and ends when it has succeeded.\<close>

definition local_core :: "sched_state \<Rightarrow> core" where
  "local_core s = \<lparr>durable = False, persisted = None, state = s, poisoned = False, runner_active = True\<rparr>"

lemma local_core_simps [simp]:
  "commit cd w (local_core s) t = (Inr (), local_core t)" "state (local_core s) = s" "\<not> poisoned (local_core s)"
  by (simp_all add: local_core_def commit_def)

definition local_driver :: "status \<Rightarrow> invocation list \<Rightarrow> bool \<Rightarrow> bool \<Rightarrow> unit result option \<Rightarrow> driver" where
  "local_driver st ivs stopping claiming e =
     \<lparr>dv_core = local_core (demo_with st), dv_running = ivs, dv_stopping = stopping, dv_claiming = claiming, dv_ended = e\<rparr>"

lemma local_begin:
  "driver_begin minute_calendar demo_codec (Inr ()) False (Inr ()) minute Flushed ((local_core demo_created)\<lparr>runner_active := False\<rparr>)
     = Inr (local_driver (Pending 1 minute) [] False True None)"
proof -
  have "(local_core demo_created)\<lparr>runner_active := True\<rparr> = local_core demo_created" "\<not> runner_active ((local_core demo_created)\<lparr>runner_active := False\<rparr>)"
    by (simp_all add: local_core_def)
  moreover have "observe minute_calendar demo_codec Flushed (local_core demo_created) minute = (Inr (), local_core (demo_with (Pending 1 minute)))"
    by (simp add: observe_def demo_observed demo_watermark)
  ultimately show ?thesis by (simp add: driver_begin_def local_driver_def Let_def)
qed

lemma local_run:
  "(driver_step minute_calendar demo_codec)\<^sup>*\<^sup>* (local_driver (Pending 1 minute) [] False True None) (local_driver (Succeeded 1) [] True False (Some (Inr ())))"
proof -
  let ?step = "driver_step minute_calendar demo_codec"
  have cl: "claim demo_codec Flushed (local_core (demo_with (Pending 1 minute))) minute = (Inr (Some demo_invocation), local_core (demo_with (Running 1)))"
    by (simp add: claim_def demo_candidate demo_receipt_def demo_schedule_def demo_def_def demo_invocation_def)
  have fin: "finish minute_calendar demo_codec Flushed (local_core (demo_with (Running 1))) demo_invocation OSucceeded minute
      = (Inr (), local_core (demo_with (Succeeded 1)))"
    by (simp add: finish_def demo_invocation_def demo_candidate finish_status_def demo_receipt_def)
  note upd = local_driver_def driver_claim_def driver_completed_def driver_end_def driver_drained_def without_def
  have "?step (local_driver (Pending 1 minute) [] False True None) (local_driver (Running 1) [demo_invocation] False True None)"
    using driver_step.claimed [of "local_driver (Pending 1 minute) [] False True None" minute_calendar demo_codec False minute Flushed]
    by (simp add: upd cl)
  moreover have "?step (local_driver (Running 1) [demo_invocation] False True None) (local_driver (Running 1) [demo_invocation] True False None)"
    using driver_step.claimed [of "local_driver (Running 1) [demo_invocation] False True None" minute_calendar demo_codec True minute Flushed]
    by (simp add: upd)
  moreover have "?step (local_driver (Running 1) [demo_invocation] True False None) (local_driver (Succeeded 1) [] True False None)"
    using driver_step.completed [of "local_driver (Running 1) [demo_invocation] True False None" 0 minute_calendar demo_codec minute Flushed "Some OSucceeded"]
    by (simp add: upd fin)
  moreover have "?step (local_driver (Succeeded 1) [] True False None) (local_driver (Succeeded 1) [] True False (Some (Inr ())))"
    using driver_step.ended [of "local_driver (Succeeded 1) [] True False None" minute_calendar demo_codec "Inr ()"] by (simp add: upd)
  ultimately show ?thesis by (meson converse_rtranclp_into_rtranclp rtranclp.rtrancl_refl)
qed

theorem driver_drains_witness:
  "dv_ended (local_driver (Succeeded 1) [] True False (Some (Inr ()))) = Some (Inr ())
    \<and> in_execution (state (dv_core (local_driver (Succeeded 1) [] True False (Some (Inr ()))))) = {}"
proof -
  have "in_execution (state ((local_core demo_created)\<lparr>runner_active := False\<rparr>)) = {}"
    by (simp add: in_execution_def local_core_def demo_created_def demo_state_def)
  from driver_drains [OF local_begin this local_run, of "Inr ()" False "Inr ()" 0 Flushed Flushed] show ?thesis by (simp add: local_driver_def)
qed

end
