(* ===== verification/Json_Value.thy ===== *)
theory Json_Value
  imports BTree_Map
begin

text \<open>
  Values of \<open>serde_json\<close>. An object is the list of its fields in key order, so that two objects are equal when they have the same
  fields.
\<close>

datatype json = JNull | JBool bool | JNum int | JStr string | JArr "json list" | JObj "(string \<times> json) list"

fun as_object :: "json \<Rightarrow> (string \<times> json) list option" where
  "as_object (JObj fs) = Some fs"
| "as_object _ = None"

fun as_str :: "json \<Rightarrow> string option" where
  "as_str (JStr s) = Some s"
| "as_str _ = None"

text \<open>\<open>Value::get\<close>, and the index that gives null for a missing field.\<close>

definition json_get :: "json \<Rightarrow> string \<Rightarrow> json option" where
  "json_get v k = (case as_object v of None \<Rightarrow> None | Some fs \<Rightarrow> map_of fs k)"

definition json_at :: "json \<Rightarrow> string \<Rightarrow> json" where
  "json_at v k = (case json_get v k of None \<Rightarrow> JNull | Some x \<Rightarrow> x)"

fun as_bool :: "json \<Rightarrow> bool option" where
  "as_bool (JBool b) = Some b"
| "as_bool _ = None"

definition is_object :: "json \<Rightarrow> bool" where
  "is_object v \<longleftrightarrow> as_object v \<noteq> None"

text \<open>Assignment through the index: null becomes an object, and any other value panics.\<close>

fun json_set :: "string \<Rightarrow> json \<Rightarrow> json \<Rightarrow> json result" where
  "json_set k x (JObj fs) = Inr (JObj (btm_insert k x fs))"
| "json_set k x JNull = Inr (JObj [(k, x)])"
| "json_set k x _ = Inl (Panic ''cannot access key in a JSON value that is not an object'')"

lemma json_set_get: "json_set k x v = Inr v' \<Longrightarrow> json_get v' k' = (if k' = k then Some x else json_get v k')"
  by (cases v) (auto simp: json_get_def btm_get_insert)

lemma json_set_at: "json_set k x v = Inr v' \<Longrightarrow> json_at v' k' = (if k' = k then x else json_at v k')"
  by (simp add: json_at_def json_set_get)

end
