(* ===== verification/Sched_Manage.thy ===== *)
theory Sched_Manage
  imports Sched_Replicated Sched_Worker Json_Value
begin

text \<open>
  The operator interface of the scheduler runner (\<open>src/scheduler-runner/src/management.rs\<close>): commands over HTTP and MCP, their
  credentials, and what a command does to the plan. Parsing of JSON text and the derived decoder of commands are
  parameters; the digest that credentials are compared by is the parameter \<open>H\<close>.
\<close>

section \<open>Commands\<close>

datatype manage_command =
    MStatus
  | MList
  | MCreate sched_definition
  | MDisable u64
  | MCancel u64
  | MDelete u64
  | MAcknowledge u64 bool

fun recovery_command :: "manage_command \<Rightarrow> bool" where
  "recovery_command (MAcknowledge _ _) = True"
| "recovery_command _ = False"

definition only_keys :: "json \<Rightarrow> string list \<Rightarrow> bool" where
  "only_keys v allowed = (case as_object v of None \<Rightarrow> False | Some fs \<Rightarrow> list_all (\<lambda>f. fst f \<in> set allowed) fs)"

definition allowed_keys :: "string \<Rightarrow> string list option" where
  "allowed_keys action =
     (if action = ''status'' \<or> action = ''list'' then Some [''action'']
      else if action = ''create'' then Some [''action'', ''definition'']
      else if action = ''disable'' \<or> action = ''delete'' then Some [''action'', ''id'']
      else if action = ''cancel'' then Some [''action'', ''occurrence_id'']
      else if action = ''acknowledge_stopped'' then Some [''action'', ''occurrence_id'', ''dispatcher_and_work_quiesced'']
      else None)"

definition definition_keys :: "json \<Rightarrow> bool" where
  "definition_keys d \<longleftrightarrow>
     only_keys d [''name'', ''code'', ''cron'', ''timezone'', ''policy'']
     \<and> only_keys (json_at d ''policy'') [''missed'', ''overlap'', ''retry'']
     \<and> only_keys (json_at (json_at d ''policy'') ''retry'') [''max_retries'', ''delay_seconds'']
     \<and> (case json_get (json_at (json_at d ''policy'') ''missed'') ''CatchUp'' of
          None \<Rightarrow> True
        | Some c \<Rightarrow> only_keys (json_at (json_at d ''policy'') ''missed'') [''CatchUp''] \<and> only_keys c [''cap''])"

definition parse_command :: "(json \<Rightarrow> manage_command option) \<Rightarrow> json \<Rightarrow> manage_command option" where
  "parse_command decode v =
     (case json_get v ''action'' of
        None \<Rightarrow> None
      | Some a \<Rightarrow>
         (case as_str a of
            None \<Rightarrow> None
          | Some action \<Rightarrow>
             (case allowed_keys action of
                None \<Rightarrow> None
              | Some allowed \<Rightarrow>
                 if \<not> only_keys v allowed then None
                 else if action = ''create'' \<and> \<not> definition_keys (json_at v ''definition'') then None
                 else decode v)))"

section \<open>Effects\<close>

datatype manage_value =
    VStatus "bool \<times> nat" bool
  | VList "schedule list" "occurrence list"
  | VId u64
  | VOk
  | VCancellationRequested

abbreviation no_owner :: string where "no_owner \<equiv> ''no acquired leader; send command to current leader''"

definition mapped :: "('a \<Rightarrow> 'b) \<Rightarrow> 'a result \<times> replicated \<Rightarrow> 'b result \<times> replicated option" where
  "mapped f p = (case p of (Inl e, r) \<Rightarrow> (Inl e, Some r) | (Inr x, r) \<Rightarrow> (Inr (f x), Some r))"

definition manage_execute ::
  "('cron, 'tz) planner \<Rightarrow> answer \<Rightarrow> time \<Rightarrow> manage_command \<Rightarrow> replicated option \<Rightarrow> manage_value result \<times> replicated option" where
  "manage_execute P ans now cmd owner =
     (if cmd = MStatus
      then (Inr (VStatus (fst ans)
              (fst (fst ans) \<and> (case owner of None \<Rightarrow> False | Some r \<Rightarrow> rp_valid r \<and> en_term (rp_envelope r) = snd (fst ans)))), owner)
      else case owner of
        None \<Rightarrow> (Inl (Err no_owner), None)
      | Some r \<Rightarrow>
         (case cmd of
            MStatus \<Rightarrow> (Inl (Panic ''unreachable''), Some r)
          | MList \<Rightarrow> (Inr (VList (schedules_list (rp_core r)) (occurrences_list (rp_core r))), Some r)
          | MCreate d \<Rightarrow> mapped VId (repl_create P ans d now r)
          | MDisable i \<Rightarrow> mapped (\<lambda>_. VOk) (repl_disable P ans i r)
          | MCancel i \<Rightarrow> mapped (\<lambda>_. VCancellationRequested) (repl_request_cancel P ans i r)
          | MDelete i \<Rightarrow> mapped (\<lambda>_. VOk) (repl_delete P ans i r)
          | MAcknowledge i quiesced \<Rightarrow>
             if quiesced then mapped (\<lambda>_. VOk) (repl_acknowledge_stopped P ans i r)
             else (Inl (Err ''must establish old dispatcher cannot submit and in-flight work is resolved''), Some r)))"

section \<open>Credentials\<close>

record manage_config =
  mc_loopback :: bool
  mc_bearer_env :: string
  mc_recovery_bearer_env :: "string option"

record transport =
  tr_operator :: string
  tr_recovery :: "string option"

definition same :: "(string \<Rightarrow> 'h) \<Rightarrow> string \<Rightarrow> string \<Rightarrow> bool" where
  "same H a b \<longleftrightarrow> H a = H b"

definition transport_new ::
  "(string \<Rightarrow> 'h) \<Rightarrow> (string \<rightharpoonup> string) \<Rightarrow> manage_config \<Rightarrow> string \<Rightarrow> string \<Rightarrow> string \<Rightarrow> transport result" where
  "transport_new H env cfg admission_token worker_token cluster_token =
     bind_res (secret env (mc_bearer_env cfg))
       (\<lambda>operator. bind_res (case mc_recovery_bearer_env cfg of None \<Rightarrow> Inr None | Some ref \<Rightarrow> bind_res (secret env ref) (\<lambda>s. Inr (Some s)))
         (\<lambda>rec. if same H operator admission_token \<or> same H operator worker_token \<or> same H operator cluster_token
               \<or> (case rec of None \<Rightarrow> False | Some r \<Rightarrow> same H r operator \<or> same H r admission_token \<or> same H r worker_token \<or> same H r cluster_token)
             then Inl (Err ''management credentials must be separate from each other and worker/admission/cluster credentials'')
             else if \<not> mc_loopback cfg then Inl (Err ''management listener must bind a loopback address'')
             else Inr \<lparr>tr_operator = operator, tr_recovery = rec\<rparr>))"

definition bearer_token :: "string option \<Rightarrow> string option" where
  "bearer_token header =
     (case header of None \<Rightarrow> None | Some h \<Rightarrow> if starts_with h ''Bearer '' then Some (drop (length ''Bearer '') h) else None)"

definition transport_authorized :: "(string \<Rightarrow> 'h) \<Rightarrow> transport \<Rightarrow> string option \<Rightarrow> bool \<Rightarrow> bool" where
  "transport_authorized H T header recovery =
     (case bearer_token header of
        None \<Rightarrow> False
      | Some token \<Rightarrow>
         (case tr_recovery T of None \<Rightarrow> False | Some r \<Rightarrow> same H r token) \<or> (\<not> recovery \<and> same H (tr_operator T) token))"

section \<open>Requests\<close>

text \<open>An answer: a value, or a status code with the error.\<close>

type_synonym http = "(nat \<times> string) + manage_value"

text \<open>The command that is put into the queue, if any, and the answer. \<open>room\<close> is whether the queue took it, and \<open>reply\<close> what the runner
  answered, if it did.\<close>

definition transport_call ::
  "(string \<Rightarrow> 'h) \<Rightarrow> transport \<Rightarrow> bool \<Rightarrow> manage_value result option \<Rightarrow> manage_command \<Rightarrow> string option \<Rightarrow> manage_command option \<times> http" where
  "transport_call H T room reply cmd header =
     (if \<not> transport_authorized H T header (recovery_command cmd) then (None, Inl (403, ''recovery_authorization_required''))
      else if (case cmd of MAcknowledge _ quiesced \<Rightarrow> \<not> quiesced | _ \<Rightarrow> False) then (None, Inl (400, ''explicit_quiescence_attestation_required''))
      else if \<not> room then (None, Inl (503, ''management_unavailable''))
      else (Some cmd,
        (case reply of
           Some (Inr v) \<Rightarrow> Inr v
         | Some (Inl e) \<Rightarrow> if e = Err no_owner then Inl (409, ''no_acquired_owner'') else Inl (503, ''operation_failed'')
         | None \<Rightarrow> Inl (503, ''operation_failed''))))"

definition authenticate ::
  "(string \<Rightarrow> 'h) \<Rightarrow> transport \<Rightarrow> string option \<Rightarrow> bool \<Rightarrow> manage_command option \<times> http \<Rightarrow> manage_command option \<times> http" where
  "authenticate H T header has_origin next =
     (if \<not> transport_authorized H T header False then (None, Inl (401, ''unauthorized''))
      else if has_origin then (None, Inl (403, ''origin_not_allowed''))
      else next)"

definition command_route ::
  "(string \<Rightarrow> 'h) \<Rightarrow> (string \<Rightarrow> json option) \<Rightarrow> (json \<Rightarrow> manage_command option) \<Rightarrow> transport \<Rightarrow> bool \<Rightarrow> manage_value result option
   \<Rightarrow> string option \<Rightarrow> bool \<Rightarrow> string \<Rightarrow> manage_command option \<times> http" where
  "command_route H parse decode T room reply header has_origin body =
     authenticate H T header has_origin
       (case parse body of
          None \<Rightarrow> (None, Inl (400, ''invalid_command''))
        | Some v \<Rightarrow>
           (case parse_command decode v of
              None \<Rightarrow> (None, Inl (400, ''invalid_command''))
            | Some cmd \<Rightarrow> transport_call H T room reply cmd header))"

definition status_route ::
  "(string \<Rightarrow> 'h) \<Rightarrow> transport \<Rightarrow> bool \<Rightarrow> manage_value result option \<Rightarrow> string option \<Rightarrow> bool \<Rightarrow> manage_command option \<times> http" where
  "status_route H T room reply header has_origin = authenticate H T header has_origin (transport_call H T room reply MStatus header)"

definition list_route ::
  "(string \<Rightarrow> 'h) \<Rightarrow> transport \<Rightarrow> bool \<Rightarrow> manage_value result option \<Rightarrow> string option \<Rightarrow> bool \<Rightarrow> manage_command option \<times> http" where
  "list_route H T room reply header has_origin = authenticate H T header has_origin (transport_call H T room reply MList header)"

section \<open>Tools\<close>

definition tool_names :: "string list" where
  "tool_names = map (\<lambda>n. ''scheduler_'' @ n) [''status'', ''list'', ''create'', ''disable'', ''cancel'', ''delete'', ''acknowledge_stopped'']"

definition list_tools :: "(string \<Rightarrow> 'h) \<Rightarrow> transport \<Rightarrow> string option \<Rightarrow> string list" where
  "list_tools H T header =
     filter (\<lambda>n. transport_authorized H T header True \<or> n \<noteq> ''scheduler_acknowledge_stopped'') tool_names"

definition call_tool ::
  "(string \<Rightarrow> 'h) \<Rightarrow> (json \<Rightarrow> manage_command option) \<Rightarrow> transport \<Rightarrow> bool \<Rightarrow> manage_value result option
   \<Rightarrow> string option \<Rightarrow> bool \<Rightarrow> string \<Rightarrow> (string \<times> json) list \<Rightarrow> manage_command option \<times> http" where
  "call_tool H decode T room reply header has_origin tool args =
     authenticate H T header has_origin
       (if \<not> starts_with tool ''scheduler_'' \<or> tool \<notin> set tool_names then (None, Inl (0, ''unknown tool''))
        else if map_of args ''action'' \<noteq> None then (None, Inl (0, ''invalid arguments''))
        else case parse_command decode (JObj (btm_insert ''action'' (JStr (drop (length ''scheduler_'') tool)) args)) of
          None \<Rightarrow> (None, Inl (0, ''invalid arguments''))
        | Some cmd \<Rightarrow> transport_call H T room reply cmd header)"

end
