(* ===== verification/Sched_Remote.thy ===== *)
theory Sched_Remote
  imports Sched_Worker Sched_Replicated
begin

text \<open>
  The executor of the scheduler runner (\<open>src/scheduler-runner/src/remote.rs\<close>): it submits a dispatch to its worker once, follows
  the execution by polling, and cancels. What the worker answered over the network is an argument, with a body that does
  not parse as \<open>None\<close>; the polling loop takes the answers in order, each with the flag that its deadline or the grant had passed
  before it was sent.
\<close>

section \<open>Configuration\<close>

definition remote_new :: "(string \<Rightarrow> string + url) \<Rightarrow> remote_config \<Rightarrow> unit result" where
  "remote_new parse cfg =
     bind_res (map_err (parse (rc_url cfg)))
       (\<lambda>u. if url_scheme u \<noteq> ''https''
             \<and> \<not> (url_scheme u = ''http'' \<and> url_host u \<in> {Some ''127.0.0.1'', Some ''localhost'', Some ''[::1]''})
           then Inl (Err ''worker must use HTTPS or loopback HTTP'')
           else if url_username u \<noteq> [] \<or> url_password u \<noteq> None \<or> url_query u \<noteq> None \<or> url_fragment u \<noteq> None \<or> url_path u \<noteq> ''/''
           then Inl (Err ''worker URL must be an origin without credentials'')
           else if rc_namespace cfg = [] \<or> rc_worker_id cfg = [] \<or> rc_bearer_env cfg = [] \<or> rc_session cfg = []
             \<or> rc_timeout_seconds cfg = 0 \<or> rc_timeout_seconds cfg > 300 \<or> rc_heap_mb cfg < 16 \<or> rc_heap_mb cfg > 4096
           then Inl (Err ''invalid execution authority or limits'')
           else Inr ())"

section \<open>Cancelling\<close>

text \<open>The status of an answer: the field \<open>stopped\<close> is true, and the field \<open>status\<close> if it is a string.\<close>

datatype cancel_reply =
    CancelLost
  | CancelRefused
  | CancelReply "(bool \<times> string option) option"

definition remote_cancel :: "(string \<rightharpoonup> string) \<Rightarrow> remote_config \<Rightarrow> cancel_reply \<Rightarrow> outcome" where
  "remote_cancel env cfg reply =
     (case env (rc_bearer_env cfg) of
        None \<Rightarrow> OUnknown ''cancellation credential unavailable''
      | Some _ \<Rightarrow>
         (case reply of
            CancelLost \<Rightarrow> OUnknown ''cancellation unavailable''
          | CancelRefused \<Rightarrow> OUnknown ''cancellation not confirmed''
          | CancelReply None \<Rightarrow> OUnknown ''invalid cancellation response''
          | CancelReply (Some (stopped, st)) \<Rightarrow>
             if \<not> stopped then OUnknown ''cancellation pending''
             else if st = Some ''cancelled'' then OCancelled
             else if st = Some ''completed'' then OSucceeded
             else if st = Some ''failed'' \<or> st = Some ''timed_out'' then OFailed ''worker confirmed stopped execution''
             else OUnknown ''unconfirmed cancellation status''))"

section \<open>Executing\<close>

datatype submit_reply =
    SubmitLost
  | SubmitGone "(bool \<times> string) option"
  | SubmitAccepted "string option"
  | SubmitOther

datatype poll_reply =
    PollLost
  | PollRefused
  | PollReply "(string \<times> string \<times> bool) option"

definition execution_name :: "string \<Rightarrow> bool" where
  "execution_name i \<longleftrightarrow> i \<noteq> [] \<and> list_all (\<lambda>c. (CHR ''0'' \<le> c \<and> c \<le> CHR ''9'') \<or> (CHR ''A'' \<le> c \<and> c \<le> CHR ''Z'')
     \<or> (CHR ''a'' \<le> c \<and> c \<le> CHR ''z'') \<or> c = CHR ''-'') i"

text \<open>\<open>None\<close> is a loop that has not ended yet.\<close>

fun poll_execution :: "string \<Rightarrow> (bool \<times> poll_reply) list \<Rightarrow> outcome option" where
  "poll_execution i [] = None"
| "poll_execution i ((late, reply) # rest) =
     (if late then Some (OUnknown ''observation deadline or grant expiry; execution may continue'')
      else case reply of
        PollLost \<Rightarrow> Some (OUnknown ''execution status unavailable'')
      | PollRefused \<Rightarrow> Some (OUnknown ''execution status lost or access revoked'')
      | PollReply None \<Rightarrow> Some (OUnknown ''invalid execution status'')
      | PollReply (Some (j, st, stopped)) \<Rightarrow>
         if j \<noteq> i then Some (OUnknown ''execution status identity mismatch'')
         else if st = ''completed'' then Some OSucceeded
         else if st = ''failed'' then Some (OFailed ''worker confirmed execution failure'')
         else if st = ''cancelled'' \<and> stopped then Some OCancelled
         else if st = ''running'' \<or> st = ''cancelling'' \<or> st = ''cancelled'' then poll_execution i rest
         else Some (OUnknown ''worker reported an uncertain termination''))"

text \<open>The token, when the dispatch is one that may be submitted now.\<close>

definition may_submit :: "wire \<Rightarrow> (string \<rightharpoonup> string) \<Rightarrow> time \<Rightarrow> remote_config \<Rightarrow> dispatch \<Rightarrow> string + string" where
  "may_submit W env now cfg d =
     (if validate_dispatch W d \<noteq> Inr () \<or> dp_namespace d \<noteq> rc_namespace cfg \<or> dp_worker_id d \<noteq> rc_worker_id cfg
      then Inl ''invalid scheduled dispatch binding''
      else if now \<ge> rc_expires_at cfg then Inl ''operator grant expired before submission''
      else case env (rc_bearer_env cfg) of
        None \<Rightarrow> Inl ''credential reference unavailable before submission''
      | Some token \<Rightarrow> if token = [] then Inl ''credential reference unavailable before submission'' else Inr token)"

definition after_submit :: "wire \<Rightarrow> dispatch \<Rightarrow> submit_reply \<Rightarrow> (bool \<times> poll_reply) list \<Rightarrow> outcome option" where
  "after_submit W d reply polls =
     (case reply of
        SubmitLost \<Rightarrow> Some (OUnknown ''submission response lost'')
      | SubmitGone body \<Rightarrow>
         (if (case body of None \<Rightarrow> False | Some (not_launched, invocation) \<Rightarrow> not_launched \<and> invocation = dispatch_key W d)
          then Some (OFailed ''quorum fenced an attempt that was never admitted'')
          else Some (OUnknown ''unbound no-launch response''))
      | SubmitOther \<Rightarrow> Some (OUnknown ''worker did not acknowledge submission'')
      | SubmitAccepted None \<Rightarrow> Some (OUnknown ''invalid submission acknowledgement'')
      | SubmitAccepted (Some i) \<Rightarrow>
         (if \<not> execution_name i then Some (OUnknown ''invalid execution identity'') else poll_execution i polls))"

text \<open>The outcome, and whether the dispatch was sent.\<close>

definition execute_authorized ::
  "wire \<Rightarrow> (string \<rightharpoonup> string) \<Rightarrow> time \<Rightarrow> remote_config \<Rightarrow> dispatch \<Rightarrow> submit_reply \<Rightarrow> (bool \<times> poll_reply) list \<Rightarrow> bool \<times> outcome option" where
  "execute_authorized W env now cfg d reply polls =
     (case may_submit W env now cfg d of
        Inl why \<Rightarrow> (False, Some (OFailed why))
      | Inr _ \<Rightarrow> (True, after_submit W d reply polls))"

section \<open>What an outcome means\<close>

lemma poll_step: "poll_execution i (p # rest) = None \<Longrightarrow> \<not> fst p \<and> poll_execution i rest = None"
proof (cases p)
  case (Pair late reply)
  assume "poll_execution i (p # rest) = None"
  then show ?thesis unfolding Pair
    by (cases reply) (simp_all split: if_split_asm option.split_asm prod.split_asm)
qed

lemma poll_open: "poll_execution i polls = None \<Longrightarrow> \<forall>p \<in> set polls. \<not> fst p"
proof (induction polls)
  case (Cons p polls)
  with poll_step [OF Cons.prems] show ?case by simp
qed simp

lemma poll_ends: "(True, r) \<in> set polls \<Longrightarrow> poll_execution i polls \<noteq> None"
  using poll_open by fastforce

lemma poll_failed:
  "poll_execution i polls = Some (OFailed why) \<Longrightarrow> \<exists>stopped. (False, PollReply (Some (i, ''failed'', stopped))) \<in> set polls"
  by (induction polls) (auto split: poll_reply.splits option.splits if_splits, blast?)

lemma poll_completed:
  "poll_execution i polls = Some OSucceeded \<Longrightarrow> \<exists>stopped. (False, PollReply (Some (i, ''completed'', stopped))) \<in> set polls"
  by (induction polls) (auto split: poll_reply.splits option.splits if_splits, blast?)

lemma poll_cancelled:
  "poll_execution i polls = Some OCancelled \<Longrightarrow> (False, PollReply (Some (i, ''cancelled'', True))) \<in> set polls"
  by (induction polls) (auto split: poll_reply.splits option.splits if_splits)

text \<open>The answer of the worker as its client reads it.\<close>

fun reply_of :: "worker_answer \<Rightarrow> submit_reply" where
  "reply_of (GoneNotLaunched k) = SubmitGone (Some (True, k))"
| "reply_of (Accepted i) = SubmitAccepted (Some i)"
| "reply_of _ = SubmitOther"

lemma gone_not_launched:
  assumes "execute_request W m h now net submit d w = (launched, GoneNotLaunched k, w')"
  shows "\<not> launched"
proof -
  have gate: "fst (snd (execute_gate W submit a p v)) \<noteq> Inr None" for a p v
    by (auto simp: execute_gate_def store_receipt_def bind_st_def split: sum.splits prod.splits)
  show ?thesis
  proof
    assume launched
    then obtain a p v q where "execute_gate W submit a p v = (True, q, w')" "execute_answer W d q = GoneNotLaunched k"
      using assms by (auto simp: execute_request_def split: if_splits prod.splits sum.splits option.splits)
    with gate [of a p v] show False by (auto simp: execute_answer_def split: sum.splits option.splits)
  qed
qed

end
