(* ===== verification/Sched_Runner.thy ===== *)
theory Sched_Runner
  imports Sched_Manage Sched_Remote
begin

text \<open>
  The loop of the scheduler runner (\<open>src/scheduler-runner/src/main.rs\<close>): one function per branch of its \<open>select!\<close>. The tasks that execute and
  cancel are lists of what they were started with, and a task that ends is named by its position; \<open>None\<close> as its result is a task
  that panicked. What the cluster, the clock and the executor answer are arguments. A line that cannot be read, or a pulse source that has
  stopped, ends the process and is not a step here.
\<close>

record runner =
  rn_owner :: "replicated option"
  rn_running :: "(nat \<times> invocation \<times> dispatch) list"
  rn_cancelling :: "dispatch list"
  rn_cancellation_pending :: "u64 list"
  rn_input_open :: bool
  rn_stopping :: bool

definition runner_start :: runner where
  "runner_start = \<lparr>rn_owner = None, rn_running = [], rn_cancelling = [], rn_cancellation_pending = [], rn_input_open = True, rn_stopping = False\<rparr>"

definition runner_done :: "runner \<Rightarrow> bool" where
  "runner_done n \<longleftrightarrow> rn_stopping n \<and> rn_running n = [] \<and> rn_cancelling n = []"

text \<open>The owner is given up when a transition has failed.\<close>

definition keep_owner :: "'a result \<times> replicated \<Rightarrow> replicated option" where
  "keep_owner p = (case p of (Inl _, _) \<Rightarrow> None | (Inr _, r) \<Rightarrow> Some r)"

section \<open>Branches\<close>

definition cancellation_joined :: "('cron, 'tz) planner \<Rightarrow> answer \<Rightarrow> time \<Rightarrow> nat \<Rightarrow> outcome option \<Rightarrow> runner \<Rightarrow> runner" where
  "cancellation_joined P ans now i res n =
     (let d = rn_cancelling n ! i; n1 = n\<lparr>rn_cancelling := without i (rn_cancelling n)\<rparr> in
      case res of
        None \<Rightarrow> n1
      | Some out \<Rightarrow>
         n1\<lparr>rn_cancellation_pending := removeAll (dp_occurrence_id d) (rn_cancellation_pending n),
            rn_owner := (case rn_owner n of None \<Rightarrow> None | Some r \<Rightarrow> keep_owner (finish_cancellation P ans d out now r))\<rparr>)"

text \<open>The answer of the loop to the admission endpoint; 409 and 503 are its status codes.\<close>

definition admission_received ::
  "('cron, 'tz) planner \<Rightarrow> answer \<Rightarrow> answer \<Rightarrow> time \<Rightarrow> admission \<Rightarrow> runner \<Rightarrow> ((nat \<times> rerr) + admission_decision) \<times> runner" where
  "admission_received P ans ans' now a n =
     (case rn_owner n of
        None \<Rightarrow> (Inl (409, Err ''no acquired owner''), n)
      | Some r \<Rightarrow>
         (case admit_classified P ans ans' a now r of
            (Inl e, r') \<Rightarrow> (Inl (503, e), n\<lparr>rn_owner := Some r'\<rparr>)
          | (Inr dec, r') \<Rightarrow> (Inr dec, n\<lparr>rn_owner := Some r'\<rparr>)))"

definition management_received ::
  "('cron, 'tz) planner \<Rightarrow> answer \<Rightarrow> time \<Rightarrow> manage_command \<Rightarrow> runner \<Rightarrow> manage_value result \<times> runner" where
  "management_received P ans now cmd n =
     (case manage_execute P ans now cmd (rn_owner n) of (res, owner) \<Rightarrow> (res, n\<lparr>rn_owner := owner\<rparr>))"

definition shutdown_received :: "runner \<Rightarrow> runner" where
  "shutdown_received n = n\<lparr>rn_stopping := True\<rparr>"

definition reports_to :: "nat \<Rightarrow> invocation \<Rightarrow> replicated \<Rightarrow> bool" where
  "reports_to term iv r \<longleftrightarrow> en_term (rp_envelope r) = term
     \<and> list_ex (\<lambda>oc. occ_id oc = inv_occurrence iv \<and> (occ_status oc = Running (inv_attempt iv) \<or> occ_status oc = Cancelling (inv_attempt iv)))
         (occurrences_list (rp_core r))"

definition execution_joined :: "('cron, 'tz) planner \<Rightarrow> answer \<Rightarrow> time \<Rightarrow> nat \<Rightarrow> outcome option \<Rightarrow> runner \<Rightarrow> runner" where
  "execution_joined P ans now i res n =
     (case rn_running n ! i of (term, iv, _) \<Rightarrow>
       (let n1 = n\<lparr>rn_running := without i (rn_running n)\<rparr> in
        case (res, rn_owner n) of
          (Some out, Some r) \<Rightarrow>
            if reports_to term iv r then n1\<lparr>rn_owner := keep_owner (repl_finish P ans iv out now r)\<rparr> else n1
        | _ \<Rightarrow> n1))"

definition line_received ::
  "('cron, 'tz) planner \<Rightarrow> (string \<Rightarrow> string + manage_command) \<Rightarrow> answer \<Rightarrow> time \<Rightarrow> string option \<Rightarrow> runner \<Rightarrow> manage_value result option \<times> runner" where
  "line_received P decode ans now line n =
     (case line of
        None \<Rightarrow> (None, n\<lparr>rn_input_open := False\<rparr>)
      | Some text \<Rightarrow>
         (case decode text of
            Inl e \<Rightarrow> (Some (Inl (Err e)), n)
          | Inr cmd \<Rightarrow> (case management_received P ans now cmd n of (res, n') \<Rightarrow> (Some res, n'))))"

section \<open>The pulse\<close>

text \<open>A cancellation is started unless one for the same occurrence is pending.\<close>

fun start_cancellations :: "dispatch list \<Rightarrow> runner \<Rightarrow> runner" where
  "start_cancellations [] n = n"
| "start_cancellations (d # ds) n =
     start_cancellations ds
       (if dp_occurrence_id d \<in> set (rn_cancellation_pending n) then n
        else n\<lparr>rn_cancellation_pending := dp_occurrence_id d # rn_cancellation_pending n, rn_cancelling := rn_cancelling n @ [d]\<rparr>)"

text \<open>Claims until there is none, or one fails; \<open>None\<close> is a loop for which there were too few answers.\<close>

fun claim_loop ::
  "('cron, 'tz) planner \<Rightarrow> remote_config \<Rightarrow> (time \<times> answer) list \<Rightarrow> replicated \<Rightarrow> (nat \<times> invocation \<times> dispatch) list
   \<Rightarrow> (replicated option \<times> (nat \<times> invocation \<times> dispatch) list) option" where
  "claim_loop P rc [] r ts = None"
| "claim_loop P rc ((now, ans) # rest) r ts =
     (case claim_for_worker P ans now rc r of
        (Inr (Some (iv, d)), r') \<Rightarrow> claim_loop P rc rest r' (ts @ [(en_term (rp_envelope r'), iv, d)])
      | (Inr None, r') \<Rightarrow> Some (Some r', ts)
      | (Inl _, _) \<Rightarrow> Some (None, ts))"

record runner_config =
  rf_limits :: limits
  rf_schedules :: "sched_definition list"
  rf_contract :: string
  rf_remote :: remote_config

text \<open>What a pulse meets: the role and term of the node, what an acquisition sees and its swap answers, the clock, the answer to the
  observation, and clock and answers of the claims.\<close>

record pulse =
  pu_status :: "bool \<times> nat"
  pu_node :: node_view
  pu_swapped :: "bool result"
  pu_acquire_now :: time
  pu_now :: time
  pu_observe :: answer
  pu_claims :: "(time \<times> answer) list"

definition pulse_owner :: "('cron, 'tz) planner \<Rightarrow> runner_config \<Rightarrow> pulse \<Rightarrow> replicated option \<Rightarrow> replicated result" where
  "pulse_owner P C u owner =
     (case owner of
        Some r \<Rightarrow>
          if en_term (rp_envelope r) = snd (pu_status u) then Inr r
          else acquire P (pu_node u) (pu_swapped u) (rf_limits C) (rf_schedules C) (rf_contract C) (pu_acquire_now u)
      | None \<Rightarrow> acquire P (pu_node u) (pu_swapped u) (rf_limits C) (rf_schedules C) (rf_contract C) (pu_acquire_now u))"

definition pulse_received :: "('cron, 'tz) planner \<Rightarrow> runner_config \<Rightarrow> pulse \<Rightarrow> runner \<Rightarrow> runner option" where
  "pulse_received P C u n =
     (if \<not> fst (pu_status u) then Some (n\<lparr>rn_owner := None\<rparr>)
      else case pulse_owner P C u (rn_owner n) of
        Inl _ \<Rightarrow> Some n
      | Inr r \<Rightarrow>
         (let n1 = start_cancellations (cancellations P r) (n\<lparr>rn_owner := Some r\<rparr>) in
          if pu_now u \<ge> rc_expires_at (rf_remote C) then Some n1
          else case repl_observe P (pu_observe u) (pu_now u) r of
            (Inl _, _) \<Rightarrow> Some (n1\<lparr>rn_owner := None\<rparr>)
          | (Inr _, r1) \<Rightarrow>
             (case claim_loop P (rf_remote C) (pu_claims u) r1 (rn_running n1) of
                None \<Rightarrow> None
              | Some (owner, tasks) \<Rightarrow> Some (n1\<lparr>rn_owner := owner, rn_running := tasks\<rparr>))))"

section \<open>The admission endpoint\<close>

datatype admission_answer = AdmissionUnauthorized | AdmissionStopped | AdmissionGone string | AdmissionCreated permit | AdmissionError nat rerr | AdmissionUncertain

text \<open>\<open>sent\<close> is whether the loop still listens, \<open>reply\<close> its answer unless it dropped the request.\<close>

definition admission_handler ::
  "wire \<Rightarrow> (string option \<Rightarrow> string \<Rightarrow> bool) \<Rightarrow> string \<Rightarrow> string option \<Rightarrow> bool \<Rightarrow> ((nat \<times> rerr) + admission_decision) option \<Rightarrow> admission
   \<Rightarrow> admission_answer" where
  "admission_handler W bearer_match token header sent reply a =
     (if \<not> bearer_match header token then AdmissionUnauthorized
      else if \<not> sent then AdmissionStopped
      else case reply of
        Some (Inr NotLaunched) \<Rightarrow> AdmissionGone (dispatch_key W (ad_dispatch a))
      | Some (Inr (Granted p)) \<Rightarrow> AdmissionCreated p
      | Some (Inl (code, e)) \<Rightarrow> AdmissionError code e
      | None \<Rightarrow> AdmissionUncertain)"

end
