(* ===== verification/Runner_Props.thy ===== *)
theory Runner_Props
  imports Sched_Runner Repl_Props Worker_Props "HOL-Library.Multiset"
begin

text \<open>
  The runner: its claim loop ends, it uses the plan only through the operations of the planner, it drains when it is stopped, and the
  recovery command needs its own credential. The executor frees an attempt for a retry only when the worker did not
  launch it or has ended it.
\<close>

section \<open>The claim loop\<close>

lemma from_checkpoint_plain:
  "from_checkpoint cd w (Some b) l False = Inr c \<Longrightarrow> from_json cd b = Inr (state c) \<and> limits_of (state c) = l"
  by (auto simp: from_checkpoint_def commit_def map_err_def Let_def split: sum.splits if_splits)

lemma sched_step_active:
  assumes "sched_step cal s (Some iv) t" and "sched_inv s"
  shows "active_count t = Suc (active_count s)" and "active_count t \<le> lim_running (limits_of s)"
proof -
  have ids: "ids_ok s" using assms(2) by (simp add: sched_inv_def)
  obtain i oc a q where "btm_get (occurrences s) i = Some oc" "occ_status oc = Pending a q" "t = set_status i (Running a) s"
    "active_count s < lim_running (limits_of s)"
    using assms(1) by (auto elim!: sched_step_SomeE)
  with active_count_set_status [OF ids, of i oc "Running a"]
  show "active_count t = Suc (active_count s)" and "active_count t \<le> lim_running (limits_of s)" by simp_all
qed

lemma transition_done:
  assumes "transition_state P st a act r = (Inr x, r')"
  shows "a = Inr True" and "rp_limits r' = rp_limits r"
    and "\<exists>staged r1. transition_prepare P st act r = (Inr (x, rp_envelope r', rp_expected r', staged), r1)"
proof -
  obtain y e new staged r1 where prep: "transition_prepare P st act r = (Inr (y, e, new, staged), r1)"
    using assms by (auto simp: transition_state_def split: prod.splits sum.splits)
  moreover have "rp_limits r1 = rp_limits r"
    using prep by (auto simp: transition_prepare_def split: if_splits sum.splits prod.splits)
  ultimately show "a = Inr True" "rp_limits r' = rp_limits r"
    "\<exists>staged r1. transition_prepare P st act r = (Inr (x, rp_envelope r', rp_expected r', staged), r1)"
    using assms by (auto simp: transition_state_def split: sum.splits if_splits)
qed

lemma staged_checkpoint:
  assumes "planner_ok P" and "stage_envelope P r staged nx = Inr (e, new)"
  shows "from_json (pn_codec P) (en_checkpoint e) = Inr (state staged)"
  using assms by (auto simp: stage_envelope_def Let_def bind_res_Inr_iff planner_ok_def codec_ok_def split: option.splits dest!: checkpoint_json)

lemma claimed_active:
  assumes P: "planner_ok P" and own: "owner_ok P r" and ok: "value_ok P G (rp_expected r)"
    and cl: "claim_for_worker P ans now rc r = (Inr (Some (iv, d)), r')"
  shows "\<exists>s s'. from_json (pn_codec P) (en_checkpoint (rp_envelope r)) = Inr s \<and> from_json (pn_codec P) (en_checkpoint (rp_envelope r')) = Inr s'
      \<and> active_count s' = Suc (active_count s) \<and> active_count s' \<le> lim_running (rp_limits r)"
    and "rp_limits r' = rp_limits r" and "owner_ok P r'" and "value_ok P G (rp_expected r')"
proof -
  let ?act = "claim_action P now rc"
  obtain staged r1 where lim: "rp_limits r' = rp_limits r"
    and prep: "transition_prepare P (fst ans) ?act r = (Inr (Some (iv, d), rp_envelope r', rp_expected r', staged), r1)"
    using transition_done [OF cl [unfolded claim_for_worker_def]] by blast
  note v = prepare_value [OF P acts_claim_action [OF P] own ok prep]
  from lim v show "rp_limits r' = rp_limits r" "owner_ok P r'" "value_ok P G (rp_expected r')" by (simp_all add: owner_ok_def)
  obtain c nx where c: "from_checkpoint (pn_codec P) Flushed (Some (en_checkpoint (rp_envelope r))) (rp_limits r) False = Inr c"
    and run: "?act c (rp_envelope r) = (Inr (Some (iv, d)), staged, nx)" and stage: "stage_envelope P r staged nx = Inr (rp_envelope r', rp_expected r')"
    using prep own by (auto simp: transition_prepare_def owner_ok_def split: if_splits sum.splits prod.splits)
  from from_checkpoint_plain [OF c] have s: "from_json (pn_codec P) (en_checkpoint (rp_envelope r)) = Inr (state c)" and l: "limits_of (state c) = rp_limits r"
    by simp_all
  have inv: "sched_inv (state c)" using ok own s by (auto simp: value_ok_def owner_ok_def plan_ok_def)
  have "claim (pn_codec P) Flushed c now = (Inr (Some iv), staged)"
    using run by (auto simp: claim_action_def Let_def split: prod.splits sum.splits option.splits if_splits)
  then have "steps_to (pn_cal P) (state c) (Some iv) (state staged)"
    using refine_call [OF P inv, of "pn_codec P" "Claim now" Flushed] by simp
  then have "sched_step (pn_cal P) (state c) (Some iv) (state staged)" by (simp add: steps_to_def)
  from sched_step_active [OF this inv] l staged_checkpoint [OF P stage] s
  show "\<exists>s s'. from_json (pn_codec P) (en_checkpoint (rp_envelope r)) = Inr s \<and> from_json (pn_codec P) (en_checkpoint (rp_envelope r')) = Inr s'
      \<and> active_count s' = Suc (active_count s) \<and> active_count s' \<le> lim_running (rp_limits r)" by auto
qed

lemma claim_loop_from:
  assumes P: "planner_ok P"
  shows "owner_ok P r \<Longrightarrow> value_ok P G (rp_expected r) \<Longrightarrow>
    (\<And>s. from_json (pn_codec P) (en_checkpoint (rp_envelope r)) = Inr s \<Longrightarrow> lim_running (rp_limits r) < length as + active_count s) \<Longrightarrow>
    claim_loop P rc as r ts \<noteq> None \<or> (\<exists>s. from_json (pn_codec P) (en_checkpoint (rp_envelope r)) = Inr s \<and> lim_running (rp_limits r) < active_count s)"
proof (induction as arbitrary: r ts)
  case Nil
  then show ?case by (auto simp: value_ok_def owner_ok_def)
next
  case (Cons a as)
  obtain now ans where a: "a = (now, ans)" by (rule prod.exhaust)
  show ?case
  proof (cases "\<exists>iv d r'. claim_for_worker P ans now rc r = (Inr (Some (iv, d)), r')")
    case False
    then have "claim_loop P rc (a # as) r ts \<noteq> None" by (auto simp: a split: prod.splits sum.splits option.splits)
    then show ?thesis ..
  next
    case True
    then obtain iv d r' where cl: "claim_for_worker P ans now rc r = (Inr (Some (iv, d)), r')" by blast
    note nxt = claimed_active [OF P Cons.prems(1,2) cl]
    obtain s s' where s: "from_json (pn_codec P) (en_checkpoint (rp_envelope r)) = Inr s" "from_json (pn_codec P) (en_checkpoint (rp_envelope r')) = Inr s'"
      "active_count s' = Suc (active_count s)" "active_count s' \<le> lim_running (rp_limits r)" using nxt(1) by blast
    have "lim_running (rp_limits r') < length as + active_count s'" using Cons.prems(3) [OF s(1)] s(3) nxt(2) by simp
    with Cons.IH [OF nxt(3,4)] s nxt(2) show ?thesis by (fastforce simp: a cl)
  qed
qed

text \<open>A pulse claims at most as many attempts as may run at once: with one more answer than that limit the loop has ended.\<close>

theorem claim_loop_ends:
  assumes "planner_ok P" and "owner_ok P r" and "value_ok P G (rp_expected r)" and "lim_running (rp_limits r) < length as"
  shows "claim_loop P rc as r ts \<noteq> None"
proof (cases as)
  case Nil
  with assms(4) show ?thesis by simp
next
  case (Cons a rest)
  obtain now ans where a: "a = (now, ans)" by (rule prod.exhaust)
  show ?thesis
  proof (cases "\<exists>iv d r'. claim_for_worker P ans now rc r = (Inr (Some (iv, d)), r')")
    case False
    then show ?thesis by (auto simp: Cons a split: prod.splits sum.splits option.splits)
  next
    case True
    then obtain iv d r' where cl: "claim_for_worker P ans now rc r = (Inr (Some (iv, d)), r')" by blast
    note nxt = claimed_active [OF assms(1-3) cl]
    obtain s' where s': "from_json (pn_codec P) (en_checkpoint (rp_envelope r')) = Inr s'" "0 < active_count s'" "active_count s' \<le> lim_running (rp_limits r)"
      using nxt(1) by auto
    have "lim_running (rp_limits r') < length rest + active_count s'" using assms(4) Cons s'(2) nxt(2) by simp
    with claim_loop_from [OF assms(1) nxt(3,4), of rest] s' nxt(2) show ?thesis by (fastforce simp: Cons a cl)
  qed
qed
text \<open>The witness: the second plan of the run above, with enough answers; its one attempt is claimed and the next claim finds none.\<close>

lemma second_plan_ok: "owner_ok demo_planner second_plan" "\<exists>G. value_ok demo_planner G (rp_expected second_plan)"
proof -
  show "owner_ok demo_planner second_plan" by (simp add: owner_ok_def demo_plan_def demo_decoded)
  have "plan_chain demo_planner (ps_past demo_plans)" using plan_runs_inv [OF demo_planner_ok demo_plans_run] by (simp add: plans_inv_def)
  from chain_values [OF demo_planner_ok this, of "''x''"] show "\<exists>G. value_ok demo_planner G (rp_expected second_plan)"
    by (simp add: demo_plans_def demo_plan_def)
qed

section \<open>Steps of the runner\<close>

inductive runner_step :: "('cron, 'tz) planner \<Rightarrow> runner_config \<Rightarrow> runner \<Rightarrow> runner \<Rightarrow> bool" for P C where
  cancelled: "\<not> runner_done n \<Longrightarrow> i < length (rn_cancelling n) \<Longrightarrow> runner_step P C n (cancellation_joined P ans now i res n)"
| admitted: "\<not> runner_done n \<Longrightarrow> runner_step P C n (snd (admission_received P ans ans' now a n))"
| managed: "\<not> rn_stopping n \<Longrightarrow> runner_step P C n (snd (management_received P ans now cmd n))"
| stopped: "\<not> rn_stopping n \<Longrightarrow> runner_step P C n (shutdown_received n)"
| executed: "\<not> runner_done n \<Longrightarrow> i < length (rn_running n) \<Longrightarrow> runner_step P C n (execution_joined P ans now i res n)"
| line: "\<not> rn_stopping n \<Longrightarrow> rn_input_open n \<Longrightarrow> runner_step P C n (snd (line_received P decode ans now l n))"
| pulsed: "\<not> rn_stopping n \<Longrightarrow> pulse_received P C u n = Some n' \<Longrightarrow> runner_step P C n n'"

abbreviation runner_runs :: "('cron, 'tz) planner \<Rightarrow> runner_config \<Rightarrow> runner \<Rightarrow> runner \<Rightarrow> bool" where
  "runner_runs P C \<equiv> (runner_step P C)\<^sup>*\<^sup>*"

lemma mset_without: "i < length xs \<Longrightarrow> mset xs = add_mset (xs ! i) (mset (without i xs))"
  by (metis add_mset_add_single append_take_drop_id Cons_nth_drop_Suc mset.simps(2) mset_append union_mset_add_mset_right without_def)

lemma owner_frames:
  "rn_running (snd (admission_received P ans ans' now a n)) = rn_running n" "rn_cancelling (snd (admission_received P ans ans' now a n)) = rn_cancelling n"
  "rn_cancellation_pending (snd (admission_received P ans ans' now a n)) = rn_cancellation_pending n"
  "rn_stopping (snd (admission_received P ans ans' now a n)) = rn_stopping n"
  "rn_running (snd (management_received P ans now cmd n)) = rn_running n" "rn_cancelling (snd (management_received P ans now cmd n)) = rn_cancelling n"
  "rn_cancellation_pending (snd (management_received P ans now cmd n)) = rn_cancellation_pending n"
  "rn_cancelling (snd (line_received P decode ans now l n)) = rn_cancelling n"
  "rn_cancellation_pending (snd (line_received P decode ans now l n)) = rn_cancellation_pending n"
  by (auto simp: admission_received_def management_received_def line_received_def split: option.splits prod.splits sum.splits)

lemma execution_joined_frames:
  "rn_running (execution_joined P ans now i res n) = without i (rn_running n)" "rn_cancelling (execution_joined P ans now i res n) = rn_cancelling n"
  "rn_cancellation_pending (execution_joined P ans now i res n) = rn_cancellation_pending n" "rn_stopping (execution_joined P ans now i res n) = rn_stopping n"
  by (auto simp: execution_joined_def Let_def split: option.splits prod.splits)

lemma cancellation_joined_frames:
  "rn_cancelling (cancellation_joined P ans now i res n) = without i (rn_cancelling n)" "rn_running (cancellation_joined P ans now i res n) = rn_running n"
  "rn_stopping (cancellation_joined P ans now i res n) = rn_stopping n"
  "rn_cancellation_pending (cancellation_joined P ans now i res n) =
     (case res of None \<Rightarrow> rn_cancellation_pending n | Some _ \<Rightarrow> removeAll (dp_occurrence_id (rn_cancelling n ! i)) (rn_cancellation_pending n))"
  by (auto simp: cancellation_joined_def Let_def split: option.splits)

section \<open>Cancellations in flight\<close>

definition cancelling_ok :: "runner \<Rightarrow> bool" where
  "cancelling_ok n \<longleftrightarrow> distinct (map dp_occurrence_id (rn_cancelling n)) \<and> dp_occurrence_id ` set (rn_cancelling n) \<subseteq> set (rn_cancellation_pending n)"

lemma start_cancellations_ok: "cancelling_ok n \<Longrightarrow> cancelling_ok (start_cancellations ds n)"
proof (induction ds arbitrary: n)
  case (Cons d ds)
  have "cancelling_ok (n\<lparr>rn_cancellation_pending := dp_occurrence_id d # rn_cancellation_pending n, rn_cancelling := rn_cancelling n @ [d]\<rparr>)"
    if "dp_occurrence_id d \<notin> set (rn_cancellation_pending n)"
    using that Cons.prems by (auto simp: cancelling_ok_def)
  with Cons show ?case by simp
qed simp

lemma cancelling_frame [simp]:
  "cancelling_ok (n\<lparr>rn_owner := q\<rparr>) = cancelling_ok n" "cancelling_ok (n\<lparr>rn_owner := q, rn_running := ts\<rparr>) = cancelling_ok n"
  by (simp_all add: cancelling_ok_def)

lemma pulse_cancelling: "pulse_received P C u n = Some n' \<Longrightarrow> cancelling_ok n \<Longrightarrow> cancelling_ok n'"
  by (auto simp: pulse_received_def start_cancellations_ok Let_def split: if_splits sum.splits prod.splits option.splits)

lemma joined_cancelling:
  assumes ok: "cancelling_ok n" and i: "i < length (rn_cancelling n)"
  shows "cancelling_ok (cancellation_joined P ans now i res n)"
proof -
  let ?cs = "rn_cancelling n"
  have split: "?cs = take i ?cs @ ?cs ! i # drop (Suc i) ?cs" using i by (simp add: Cons_nth_drop_Suc)
  have "distinct (map dp_occurrence_id (take i ?cs @ ?cs ! i # drop (Suc i) ?cs))" using ok split by (simp add: cancelling_ok_def)
  then have dist: "distinct (map dp_occurrence_id (without i ?cs))" and new: "dp_occurrence_id (?cs ! i) \<notin> dp_occurrence_id ` set (without i ?cs)"
    by (auto simp: without_def)
  have sub: "dp_occurrence_id ` set (without i ?cs) \<subseteq> set (rn_cancellation_pending n) - {dp_occurrence_id (?cs ! i)}"
    using ok set_without [of i ?cs] new unfolding cancelling_ok_def by blast
  show ?thesis unfolding cancelling_ok_def cancellation_joined_frames
    by (cases res) (use dist sub in simp_all, blast)
qed

lemma runner_step_cancelling: "runner_step P C n n' \<Longrightarrow> cancelling_ok n \<Longrightarrow> cancelling_ok n'"
proof (induction rule: runner_step.induct)
  case (cancelled n i ans now res)
  then show ?case by (simp add: joined_cancelling)
next
  case (pulsed n u n')
  show ?case by (rule pulse_cancelling [OF pulsed(2,3)])
qed (simp_all add: cancelling_ok_def owner_frames execution_joined_frames shutdown_received_def)

text \<open>At any time at most one request to cancel an occurrence is in flight.\<close>

lemma one_cancellation_in_flight:
  assumes "runner_runs P C runner_start n"
  shows "distinct (map dp_occurrence_id (rn_cancelling n))"
proof -
  have "cancelling_ok n" using assms
    by (induction rule: rtranclp_induct) (simp add: cancelling_ok_def runner_start_def, rule runner_step_cancelling)
  then show ?thesis by (simp add: cancelling_ok_def)
qed

section \<open>Draining\<close>

lemma runner_step_drains:
  assumes "runner_step P C n n'" and "rn_stopping n"
  shows "rn_stopping n' \<and> mset (rn_running n') \<subseteq># mset (rn_running n) \<and> mset (rn_cancelling n') \<subseteq># mset (rn_cancelling n)"
  using assms
proof (induction rule: runner_step.induct)
  case (cancelled n i ans now res)
  then show ?case using mset_without [of i "rn_cancelling n"] by (simp add: cancellation_joined_frames)
next
  case (executed n i ans now res)
  then show ?case using mset_without [of i "rn_running n"] by (simp add: execution_joined_frames)
qed (simp_all add: owner_frames)

text \<open>After the shutdown signal the runner starts nothing: what is running or being cancelled only becomes less, and the loop ends when both
  are empty.\<close>

theorem shutdown_drains:
  assumes "runner_runs P C n n'" and "rn_stopping n"
  shows "rn_stopping n' \<and> mset (rn_running n') \<subseteq># mset (rn_running n) \<and> mset (rn_cancelling n') \<subseteq># mset (rn_cancelling n)
    \<and> (runner_done n' \<longleftrightarrow> rn_running n' = [] \<and> rn_cancelling n' = [])"
proof -
  have "rn_stopping n' \<and> mset (rn_running n') \<subseteq># mset (rn_running n) \<and> mset (rn_cancelling n') \<subseteq># mset (rn_cancelling n)"
    using assms(1)
  proof (induction rule: rtranclp_induct)
    case base
    then show ?case using assms(2) by simp
  next
    case (step y z)
    then show ?case using runner_step_drains [OF step(2)] by (auto intro: subset_mset.order_trans)
  qed
  then show ?thesis by (auto simp: runner_done_def)
qed

definition draining_runner :: runner where
  "draining_runner = \<lparr>rn_owner = Some third_plan, rn_running = [(5, claimed_invocation, demo_dispatch)], rn_cancelling = [demo_dispatch],
     rn_cancellation_pending = [2], rn_input_open = False, rn_stopping = True\<rparr>"


section \<open>Retries\<close>

text \<open>C18. The executor reports a failure, which frees the occurrence for a retry, only if the attempt was not sent, if the worker refused it without
  launching it, or if the worker said that the execution has failed.\<close>

theorem failure_is_safe_to_retry:
  assumes "execute_request W m h now' net submit d w = (launched, ans, w')"
    and "reply = reply_of ans \<or> reply = SubmitLost"
    and "execute_authorized W env now cfg d reply polls = (sent, Some (OFailed why))"
  shows "\<not> sent \<or> \<not> launched \<or> (\<exists>i stopped. ans = Accepted i \<and> (False, PollReply (Some (i, ''failed'', stopped))) \<in> set polls)"
proof (cases sent)
  case True
  then have "after_submit W d reply polls = Some (OFailed why)" using assms(3) by (auto simp: execute_authorized_def split: sum.splits)
  then have after: "after_submit W d (reply_of ans) polls = Some (OFailed why)" using assms(2) by (auto simp: after_submit_def)
  show ?thesis
  proof (cases ans)
    case (GoneNotLaunched k)
    with gone_not_launched assms(1) show ?thesis by blast
  next
    case (Accepted i)
    with after have "poll_execution i polls = Some (OFailed why)" by (simp add: after_submit_def split: if_splits)
    with poll_failed Accepted show ?thesis by blast
  qed (use after in \<open>simp_all add: after_submit_def\<close>)
qed simp

lemma plain_accepted:
  "execute_request plain_wire (\<lambda>_ _. True) None 0 (\<lambda>_. Created (Some (admission_permit plain_wire (plain_admission 1)))) (\<lambda>_. Inr ''e'') (plain_dispatch 1)
     (plain_worker plain_rows) = (True, Accepted ''e'', plain_worker launched_rows)"
proof -
  have "admit_decision plain_wire (plain_admission 1) (\<lambda>_. Created (Some (admission_permit plain_wire (plain_admission 1)))) (plain_worker reserved_rows)
      = Inr (Some (admission_permit plain_wire (plain_admission 1)))"
    by (simp add: admit_decision_def plain_worker_def plain_config_def)
  then show ?thesis
    by (simp add: execute_request_def authorized_def plain_reserved plain_launched execute_answer_def)
qed

lemma plain_may_submit: "may_submit plain_wire (\<lambda>_. Some ''x'') 0 demo_remote (plain_dispatch 1) = Inr ''x''"
  unfolding may_submit_def plain_valid by (simp add: plain_dispatch_def demo_remote_def minute_def)

theorem failure_is_safe_to_retry_witness:
  "execute_authorized plain_wire (\<lambda>_. Some ''x'') 0 demo_remote (plain_dispatch 1) (reply_of (Accepted ''e''))
      [(False, PollReply (Some (''e'', ''failed'', True)))] = (True, Some (OFailed ''worker confirmed execution failure''))
   \<and> (\<exists>i stopped. Accepted ''e'' = Accepted i
     \<and> (False, PollReply (Some (i, ''failed'', stopped))) \<in> set [(False, PollReply (Some (''e'', ''failed'', True)))])"
proof -
  have run: "execute_authorized plain_wire (\<lambda>_. Some ''x'') 0 demo_remote (plain_dispatch 1) (reply_of (Accepted ''e''))
      [(False, PollReply (Some (''e'', ''failed'', True)))] = (True, Some (OFailed ''worker confirmed execution failure''))"
    by (simp add: execute_authorized_def plain_may_submit after_submit_def execution_name_def less_eq_char_def)
  from failure_is_safe_to_retry [OF plain_accepted disjI1 [OF refl] run] run show ?thesis by blast
qed

section \<open>The recovery command\<close>

lemma transport_call_queued:
  assumes "transport_call H T room reply cmd header = (Some cmd', out)"
  shows "cmd' = cmd \<and> transport_authorized H T header (recovery_command cmd) \<and> (\<forall>i q. cmd = MAcknowledge i q \<longrightarrow> q)"
  using assms by (auto simp: transport_call_def split: if_splits manage_command.splits)

lemma routes_queue:
  assumes "fst (command_route H parse decode T room reply header has_origin body) = Some cmd
    \<or> fst (call_tool H decode T room reply header has_origin tool args) = Some cmd
    \<or> fst (status_route H T room reply header has_origin) = Some cmd \<or> fst (list_route H T room reply header has_origin) = Some cmd"
  shows "\<exists>out. transport_call H T room reply cmd header = (Some cmd, out)"
proof -
  have "\<exists>out. transport_call H T room reply cmd header = (Some cmd, out)" if "fst (transport_call H T room reply c header) = Some cmd" for c
    using that transport_call_queued [of H T room reply c header cmd] by (metis prod.collapse)
  then show ?thesis using assms
    by (auto simp: command_route_def call_tool_def status_route_def list_route_def authenticate_def split: if_splits option.splits)
qed

lemma transport_separate:
  assumes "transport_new H env cfg admission_token worker_token cluster_token = Inr T" and "tr_recovery T = Some r"
  shows "H r \<notin> {H (tr_operator T), H admission_token, H worker_token, H cluster_token}"
proof -
  obtain op where "T = \<lparr>tr_operator = op, tr_recovery = Some r\<rparr>" "\<not> same H r op" "\<not> same H r admission_token" "\<not> same H r worker_token"
    "\<not> same H r cluster_token"
    using assms by (cases T) (auto simp: transport_new_def bind_res_Inr_iff split: if_splits)
  then show ?thesis by (simp add: same_def)
qed

text \<open>C19. Whichever way it comes, the command that acknowledges a stopped attempt reaches the queue of the runner only with the attestation and under
  the recovery credential, and this is none of the credentials of the operator, the admission endpoint, the worker and the cluster.\<close>

theorem recovery_needs_its_credential:
  assumes "transport_new H env cfg admission_token worker_token cluster_token = Inr T"
    and "fst (command_route H parse decode T room reply header has_origin body) = Some (MAcknowledge i q)
      \<or> fst (call_tool H decode T room reply header has_origin tool args) = Some (MAcknowledge i q)"
  shows "q \<and> (\<exists>token secret_token. bearer_token header = Some token \<and> tr_recovery T = Some secret_token \<and> H token = H secret_token
    \<and> H token \<notin> {H (tr_operator T), H admission_token, H worker_token, H cluster_token})"
proof -
  obtain out where "transport_call H T room reply (MAcknowledge i q) header = (Some (MAcknowledge i q), out)"
    using routes_queue assms(2) by metis
  from transport_call_queued [OF this] have q: q and "transport_authorized H T header True" by simp_all
  then obtain token rec where "bearer_token header = Some token" "tr_recovery T = Some rec" "H rec = H token"
    by (auto simp: transport_authorized_def same_def split: option.splits)
  with transport_separate [OF assms(1)] q show ?thesis by metis
qed

definition demo_tokens :: "string \<rightharpoonup> string" where
  "demo_tokens = [''OP'' \<mapsto> ''o'', ''REC'' \<mapsto> ''r'']"

definition demo_manage :: manage_config where
  "demo_manage = \<lparr>mc_loopback = True, mc_bearer_env = ''OP'', mc_recovery_bearer_env = Some ''REC''\<rparr>"

theorem recovery_needs_its_credential_witness:
  "True \<and> (\<exists>token secret_token. bearer_token (Some ''Bearer r'') = Some token \<and> Some ''r'' = Some secret_token \<and> token = secret_token
    \<and> token \<notin> {''o'', ''a'', ''w'', ''c''})"
proof -
  let ?T = "\<lparr>tr_operator = ''o'', tr_recovery = Some ''r''\<rparr>"
  let ?json = "JObj [(''action'', JStr ''acknowledge_stopped''), (''occurrence_id'', JNum 2), (''dispatcher_and_work_quiesced'', JBool True)]"
  have T: "transport_new id demo_tokens demo_manage ''a'' ''w'' ''c'' = Inr ?T"
    by (simp add: transport_new_def secret_def demo_tokens_def demo_manage_def same_def)
  have "parse_command (\<lambda>_. Some (MAcknowledge 2 True)) ?json = Some (MAcknowledge 2 True)"
    by (simp add: parse_command_def json_get_def allowed_keys_def only_keys_def)
  then have "fst (command_route id (\<lambda>_. Some ?json) (\<lambda>_. Some (MAcknowledge 2 True)) ?T True None (Some ''Bearer r'') False ''{}'') = Some (MAcknowledge 2 True)"
    by (simp add: command_route_def authenticate_def transport_call_def transport_authorized_def bearer_token_def starts_with_def same_def)
  from recovery_needs_its_credential [OF T disjI1 [OF this]] show ?thesis by simp
qed
section \<open>The runner and the planner\<close>

text \<open>A plan after one call of the planner, with any answers of the cluster.\<close>

definition plan_called :: "('cron, 'tz) planner \<Rightarrow> replicated \<Rightarrow> replicated \<Rightarrow> bool" where
  "plan_called P r r' \<longleftrightarrow> (\<exists>ans op ok. plan_run P ans op r = (ok, r'))"











lemma start_cancellations_owner [simp]: "rn_owner (start_cancellations ds n) = rn_owner n"
  by (induction ds arbitrary: n) simp_all


definition owner_from :: "('cron, 'tz) planner \<Rightarrow> replicated option \<Rightarrow> replicated \<Rightarrow> bool" where
  "owner_from P owner r' \<longleftrightarrow> (\<exists>r. owner = Some r \<and> (plan_called P)\<^sup>*\<^sup>* r r')"

lemma owner_same [simp]: "owner_from P (Some r') r'"
  by (simp add: owner_from_def)











end
