(* ===== verification/Exec_Console.thy ===== *)
theory Exec_Console
  imports BTree_Map
begin

text \<open>
  The console output of an execution: the buffered writer of pages (\<open>src/server/src/engine/console.rs\<close>) and the reader that
  returns a page of it by lines or by bytes (\<open>ExecutionRegistry::get_console_output\<close> in
  \<open>src/server/src/engine/execution.rs\<close>). A sled tree is an ordered map from sequence numbers, whose big-endian keys sort as the
  numbers do, to bytes. The writer ignores the answer of an insert, which is \<open>wal_io\<close> here: \<open>False\<close> is a page that was lost.
  \<open>String::from_utf8_lossy\<close> is the parameter \<open>lossy\<close>.
\<close>

section \<open>Writing\<close>

definition PAGE_SIZE :: nat where "PAGE_SIZE = 4096"

type_synonym pages = "(u64, string) btm"

record wal =
  wal_tree :: pages
  wal_seq :: u64
  wal_buffer :: string
  wal_io :: "bool list"

definition wal_new :: "pages \<Rightarrow> bool list \<Rightarrow> wal" where
  "wal_new t io = \<lparr>wal_tree = t, wal_seq = 0, wal_buffer = [], wal_io = io\<rparr>"

text \<open>\<open>fetch_add\<close> on the sequence number and the insert whose answer is dropped.\<close>

definition insert_page :: "string \<Rightarrow> wal \<Rightarrow> wal" where
  "insert_page page w =
     w\<lparr>wal_seq := wal_seq w + 1,
       wal_tree := (if wal_io w \<noteq> [] \<and> \<not> hd (wal_io w) then wal_tree w else btm_insert (wal_seq w) page (wal_tree w)),
       wal_io := tl (wal_io w)\<rparr>"

function write_pages :: "wal \<Rightarrow> wal" where
  "write_pages w =
     (if length (wal_buffer w) \<ge> PAGE_SIZE
      then write_pages (insert_page (take PAGE_SIZE (wal_buffer w)) (w\<lparr>wal_buffer := drop PAGE_SIZE (wal_buffer w)\<rparr>))
      else w)"
  by pat_completeness auto
termination by (relation "measure (\<lambda>w. length (wal_buffer w))") (auto simp: insert_page_def PAGE_SIZE_def)

declare write_pages.simps [simp del]

definition write_buffer :: "string \<Rightarrow> wal \<Rightarrow> wal" where
  "write_buffer bytes w = write_pages (w\<lparr>wal_buffer := wal_buffer w @ bytes\<rparr>)"

definition flush_buffer :: "wal \<Rightarrow> wal" where
  "flush_buffer w = (if wal_buffer w \<noteq> [] then insert_page (wal_buffer w) (w\<lparr>wal_buffer := []\<rparr>) else w)"

text \<open>The two streams; the second exists only where errors are kept apart.\<close>

record console =
  con_out :: wal
  con_err :: "wal option"

definition console_new :: "pages \<Rightarrow> bool list \<Rightarrow> console" where
  "console_new t io = \<lparr>con_out = wal_new t io, con_err = None\<rparr>"

definition new_with_stderr :: "pages \<Rightarrow> bool list \<Rightarrow> pages \<Rightarrow> bool list \<Rightarrow> console" where
  "new_with_stderr t io t' io' = (console_new t io)\<lparr>con_err := Some (wal_new t' io')\<rparr>"

definition console_write :: "string \<Rightarrow> console \<Rightarrow> console" where
  "console_write bytes c = c\<lparr>con_out := write_buffer bytes (con_out c)\<rparr>"

definition write_stderr :: "string \<Rightarrow> console \<Rightarrow> console" where
  "write_stderr bytes c =
     (case con_err c of Some w \<Rightarrow> c\<lparr>con_err := Some (write_buffer bytes w)\<rparr> | None \<Rightarrow> console_write bytes c)"

definition separates_stderr :: "console \<Rightarrow> bool" where
  "separates_stderr c \<longleftrightarrow> con_err c \<noteq> None"

definition console_flush :: "console \<Rightarrow> console" where
  "console_flush c = c\<lparr>con_out := flush_buffer (con_out c), con_err := map_option flush_buffer (con_err c)\<rparr>"

abbreviation newline :: char where "newline \<equiv> CHR 0x0A"

definition op_console_write :: "string \<Rightarrow> int \<Rightarrow> console \<Rightarrow> console" where
  "op_console_write msg level c =
     (if separates_stderr c
      then (if level = 2 \<or> level = 3 then write_stderr (msg @ [newline]) c else console_write (msg @ [newline]) c)
      else console_write
        ((if level = 2 then ''[WARN] '' @ msg else if level = 3 then ''[ERROR] '' @ msg
          else if level = 1 then ''[INFO] '' @ msg else msg) @ [newline]) c)"

section \<open>Reading\<close>

record console_page =
  pg_data :: string
  pg_start_line :: nat
  pg_end_line :: nat
  pg_next_line_offset :: nat
  pg_total_lines :: nat
  pg_start_byte :: nat
  pg_end_byte :: nat
  pg_next_byte_offset :: nat
  pg_total_bytes :: nat
  pg_has_more :: bool

text \<open>\<open>str::split\<close> on the line feed, which gives at least one piece.\<close>

fun split_lines :: "string \<Rightarrow> string list" where
  "split_lines [] = [[]]"
| "split_lines (c # cs) =
     (if c = newline then [] # split_lines cs
      else case split_lines cs of [] \<Rightarrow> [[c]] | l # ls \<Rightarrow> (c # l) # ls)"

definition output_lines :: "string \<Rightarrow> string list" where
  "output_lines s = (let ls = split_lines s in if ls \<noteq> [] \<and> last ls = [] then butlast ls else ls)"

fun join_lines :: "string list \<Rightarrow> string" where
  "join_lines [] = []"
| "join_lines [l] = l"
| "join_lines (l # ls) = l @ newline # join_lines ls"

definition line_feeds :: "string \<Rightarrow> nat" where
  "line_feeds s = length (filter (\<lambda>c. c = newline) s)"

text \<open>The sum \<open>start + limit\<close> is one of \<open>usize\<close>. Where it overflows a checked build panics there, and another one at the slice,
  whose end has wrapped to below its start.\<close>

definition byte_page :: "(string \<Rightarrow> string) \<Rightarrow> string \<Rightarrow> u64 \<Rightarrow> u64 \<Rightarrow> console_page result" where
  "byte_page lossy out off limit =
     (let start = min (unat off) (length out) in
      if start + unat limit \<ge> 2 ^ 64 then Inl (Panic ''slice index starts after its end'')
      else let stop = min (start + unat limit) (length out) in
        Inr \<lparr>pg_data = lossy (take (stop - start) (drop start out)),
          pg_start_line = line_feeds (take start out) + 1,
          pg_end_line = line_feeds (take stop out) + 1,
          pg_next_line_offset = line_feeds (take stop out) + 1,
          pg_total_lines = line_feeds (lossy out),
          pg_start_byte = start, pg_end_byte = stop, pg_next_byte_offset = stop,
          pg_total_bytes = length out, pg_has_more = (stop < length out)\<rparr>)"

definition line_page :: "(string \<Rightarrow> string) \<Rightarrow> string \<Rightarrow> u64 \<Rightarrow> u64 \<Rightarrow> console_page" where
  "line_page lossy out off limit =
     (let ls = output_lines (lossy out);
          start = unat off - 1;
          page = take (unat limit) (drop start ls);
          start_byte = (if start < length ls then sum_list (map (\<lambda>l. length l + 1) (take start ls)) else length out);
          page_bytes = sum_list (map (\<lambda>l. length l + 1) page);
          start_line = (if page = [] then 0 else unat off);
          end_line = (if page = [] then 0 else start_line + length page - 1)
      in \<lparr>pg_data = join_lines page, pg_start_line = start_line, pg_end_line = end_line,
          pg_next_line_offset = (if end_line > 0 then end_line + 1 else 1),
          pg_total_lines = line_feeds (lossy out),
          pg_start_byte = start_byte, pg_end_byte = start_byte + page_bytes, pg_next_byte_offset = start_byte + page_bytes,
          pg_total_bytes = length out, pg_has_more = (start + length page < length ls)\<rparr>)"

definition console_bytes :: "pages \<Rightarrow> string" where
  "console_bytes t = concat (btm_values t)"

definition read_page :: "(string \<Rightarrow> string) \<Rightarrow> pages \<Rightarrow> u64 option \<Rightarrow> u64 option \<Rightarrow> u64 option \<Rightarrow> u64 option \<Rightarrow> console_page result" where
  "read_page lossy t line_offset line_limit byte_offset byte_limit =
     (let out = console_bytes t in
      case byte_offset of
        Some off \<Rightarrow> byte_page lossy out off (case byte_limit of None \<Rightarrow> 4096 | Some n \<Rightarrow> n)
      | None \<Rightarrow> Inr (line_page lossy out (case line_offset of None \<Rightarrow> 1 | Some n \<Rightarrow> n) (case line_limit of None \<Rightarrow> 100 | Some n \<Rightarrow> n)))"

end
