(* ===== verification/Exec_Registry.thy ===== *)
theory Exec_Registry
  imports Exec_Console
begin

text \<open>
  The registry of executions (\<open>src/server/src/engine/execution.rs\<close>). Each method locks one entry of the map and is one step.
  A handle of a V8 isolate is a number, and \<open>rg_terminated\<close> records the calls of \<open>terminate_execution\<close>. The map is kept in key
  order; the source returns its entries in no particular order. The clock and the answers of sled are arguments.
\<close>

section \<open>Records\<close>

datatype execution_status = ExRunning | ExCompleted | ExFailed | ExCancelled | ExTimedOut

definition show_status :: "execution_status \<Rightarrow> string" where
  "show_status st = (case st of ExRunning \<Rightarrow> ''running'' | ExCompleted \<Rightarrow> ''completed'' | ExFailed \<Rightarrow> ''failed''
     | ExCancelled \<Rightarrow> ''cancelled'' | ExTimedOut \<Rightarrow> ''timed_out'')"

record artifact_meta =
  am_key :: string
  am_mime_type :: string
  am_size_bytes :: u64
  am_created_at :: string
  am_execution_id :: "string option"

type_synonym isolate_handle = nat

record execution_record =
  ex_id :: string
  ex_status :: execution_status
  ex_isolate_handle :: "isolate_handle option"
  ex_stopped :: bool
  ex_result :: "string option"
  ex_heap :: "string option"
  ex_fs :: "string option"
  ex_error :: "string option"
  ex_started_at :: string
  ex_completed_at :: "string option"
  ex_artifacts :: "artifact_meta list"

record execution_summary =
  es_id :: string
  es_status :: string
  es_started_at :: string
  es_completed_at :: "string option"

record execution_info =
  ei_id :: string
  ei_status :: string
  ei_result :: "string option"
  ei_heap :: "string option"
  ei_fs :: "string option"
  ei_error :: "string option"
  ei_started_at :: string
  ei_completed_at :: "string option"
  ei_artifacts :: "artifact_meta list"

record registry =
  rg_executions :: "(string, execution_record) btm"
  rg_terminated :: "isolate_handle list"

definition registry_new :: "string \<Rightarrow> string + unit \<Rightarrow> registry result" where
  "registry_new db_path opened =
     (case opened of Inl e \<Rightarrow> Inl (Err (''Failed to open execution db at '' @ db_path @ '': '' @ e))
      | Inr _ \<Rightarrow> Inr \<lparr>rg_executions = [], rg_terminated = []\<rparr>)"

text \<open>\<open>get_mut\<close> and a change of the entry.\<close>

definition alter :: "string \<Rightarrow> (execution_record \<Rightarrow> execution_record) \<Rightarrow> registry \<Rightarrow> registry" where
  "alter i f r = r\<lparr>rg_executions := btm_modify i f (rg_executions r)\<rparr>"

section \<open>Operations\<close>

definition register :: "string + unit \<Rightarrow> string \<Rightarrow> string \<Rightarrow> registry \<Rightarrow> unit result \<times> registry" where
  "register opened now i r =
     (case opened of
        Inl e \<Rightarrow> (Inl (Err (''Failed to open console tree '' @ quoted (''ex:'' @ i) @ '': '' @ e)), r)
      | Inr _ \<Rightarrow> (Inr (), r\<lparr>rg_executions := btm_insert i
          \<lparr>ex_id = i, ex_status = ExRunning, ex_isolate_handle = None, ex_stopped = False, ex_result = None, ex_heap = None,
           ex_fs = None, ex_error = None, ex_started_at = now, ex_completed_at = None, ex_artifacts = []\<rparr> (rg_executions r)\<rparr>))"

definition set_artifacts :: "string \<Rightarrow> artifact_meta list \<Rightarrow> registry \<Rightarrow> registry" where
  "set_artifacts i xs r = alter i (\<lambda>e. e\<lparr>ex_artifacts := xs\<rparr>) r"

definition set_isolate_handle :: "string \<Rightarrow> isolate_handle \<Rightarrow> registry \<Rightarrow> registry" where
  "set_isolate_handle i h r =
     (case btm_get (rg_executions r) i of
        None \<Rightarrow> r
      | Some e \<Rightarrow>
         if ex_status e = ExCancelled then r\<lparr>rg_terminated := h # rg_terminated r\<rparr>
         else if ex_stopped e then r
         else alter i (\<lambda>e. e\<lparr>ex_isolate_handle := Some h\<rparr>) r)"

definition mark_stopped :: "string \<Rightarrow> registry \<Rightarrow> registry" where
  "mark_stopped i r = alter i (\<lambda>e. e\<lparr>ex_stopped := True, ex_isolate_handle := None\<rparr>) r"

definition is_stopped :: "string \<Rightarrow> registry \<Rightarrow> bool" where
  "is_stopped i r = (case btm_get (rg_executions r) i of None \<Rightarrow> False | Some e \<Rightarrow> ex_stopped e)"

definition clear_isolate_handle :: "string \<Rightarrow> registry \<Rightarrow> registry" where
  "clear_isolate_handle i r = alter i (\<lambda>e. e\<lparr>ex_isolate_handle := None\<rparr>) r"

definition complete_execution :: "string \<Rightarrow> string \<Rightarrow> string \<Rightarrow> string option \<Rightarrow> registry \<Rightarrow> registry" where
  "complete_execution now i output heap r =
     alter i (\<lambda>e. if ex_status e \<noteq> ExRunning then e
       else e\<lparr>ex_status := ExCompleted, ex_result := Some output, ex_heap := heap, ex_isolate_handle := None, ex_completed_at := Some now\<rparr>) r"

definition set_fs :: "string \<Rightarrow> string option \<Rightarrow> registry \<Rightarrow> registry" where
  "set_fs i f r = alter i (\<lambda>e. e\<lparr>ex_fs := f\<rparr>) r"

definition fail_execution :: "string \<Rightarrow> string \<Rightarrow> string \<Rightarrow> registry \<Rightarrow> registry" where
  "fail_execution now i err r =
     alter i (\<lambda>e. if ex_status e \<noteq> ExRunning then e
       else e\<lparr>ex_status := ExFailed, ex_error := Some err, ex_isolate_handle := None, ex_completed_at := Some now\<rparr>) r"

definition timed_out :: "string \<Rightarrow> string \<Rightarrow> registry \<Rightarrow> registry" where
  "timed_out now i r =
     alter i (\<lambda>e. if ex_status e \<noteq> ExRunning then e
       else e\<lparr>ex_status := ExTimedOut, ex_error := Some ''Execution timed out'', ex_isolate_handle := None, ex_completed_at := Some now\<rparr>) r"

definition cancel_execution :: "string \<Rightarrow> string \<Rightarrow> registry \<Rightarrow> unit result \<times> registry" where
  "cancel_execution now i r =
     (case btm_get (rg_executions r) i of
        None \<Rightarrow> (Inl (Err (''Execution '' @ quoted i @ '' not found'')), r)
      | Some e \<Rightarrow>
         if ex_status e = ExRunning
         then (Inr (), alter i (\<lambda>e. e\<lparr>ex_status := ExCancelled, ex_error := Some ''Cancelled by user'', ex_isolate_handle := None,
                 ex_completed_at := Some now\<rparr>)
               (r\<lparr>rg_terminated := (case ex_isolate_handle e of None \<Rightarrow> [] | Some h \<Rightarrow> [h]) @ rg_terminated r\<rparr>))
         else (Inl (Err (''Execution '' @ quoted i @ '' is not running (status: '' @ show_status (ex_status e) @ '')'')), r))"

text \<open>The identifiers are collected first; each is then cancelled on its own.\<close>

definition running_ids :: "registry \<Rightarrow> string list" where
  "running_ids r = map fst (filter (\<lambda>(i, e). ex_status e = ExRunning) (rg_executions r))"

fun cancel_each :: "string \<Rightarrow> string list \<Rightarrow> registry \<Rightarrow> nat \<times> registry" where
  "cancel_each now [] r = (0, r)"
| "cancel_each now (i # is) r =
     (case cancel_execution now i r of (ok, r1) \<Rightarrow>
       (case cancel_each now is r1 of (n, r2) \<Rightarrow> ((case ok of Inl _ \<Rightarrow> n | Inr _ \<Rightarrow> n + 1), r2)))"

definition cancel_all :: "string \<Rightarrow> registry \<Rightarrow> nat \<times> registry" where
  "cancel_all now r = cancel_each now (running_ids r) r"

definition execution_info_of :: "execution_record \<Rightarrow> execution_info" where
  "execution_info_of e = \<lparr>ei_id = ex_id e, ei_status = show_status (ex_status e), ei_result = ex_result e, ei_heap = ex_heap e, ei_fs = ex_fs e,
     ei_error = ex_error e, ei_started_at = ex_started_at e, ei_completed_at = ex_completed_at e, ei_artifacts = ex_artifacts e\<rparr>"

definition get_execution :: "string \<Rightarrow> registry \<Rightarrow> execution_info option" where
  "get_execution i r = map_option execution_info_of (btm_get (rg_executions r) i)"

definition list_executions :: "registry \<Rightarrow> execution_summary list" where
  "list_executions r = map (\<lambda>e. \<lparr>es_id = ex_id e, es_status = show_status (ex_status e), es_started_at = ex_started_at e,
     es_completed_at = ex_completed_at e\<rparr>) (btm_values (rg_executions r))"

definition get_status :: "string \<Rightarrow> registry \<Rightarrow> string option" where
  "get_status i r = map_option (\<lambda>e. show_status (ex_status e)) (btm_get (rg_executions r) i)"

text \<open>The tree of the execution, as sled opens it and reads its entries.\<close>

definition get_console_output ::
  "(string \<Rightarrow> string) \<Rightarrow> (string \<Rightarrow> string + (string + pages)) \<Rightarrow> string \<Rightarrow> u64 option \<Rightarrow> u64 option \<Rightarrow> u64 option \<Rightarrow> u64 option \<Rightarrow> console_page result" where
  "get_console_output lossy open_tree i line_offset line_limit byte_offset byte_limit =
     (case open_tree (''ex:'' @ i) of
        Inl e \<Rightarrow> Inl (Err (''Failed to open console tree: '' @ e))
      | Inr (Inl e) \<Rightarrow> Inl (Err (''Failed to read console entry: '' @ e))
      | Inr (Inr t) \<Rightarrow> read_page lossy t line_offset line_limit byte_offset byte_limit)"

end
