(* ===== verification/Exec_Props.thy ===== *)
theory Exec_Props
  imports Exec_Registry
begin

text \<open>
  The console keeps what was written, its pages cover the output, and the record of an execution is final once it has ended.
\<close>

section \<open>The writer\<close>

text \<open>A writer that holds \<open>out\<close>: in the pages, numbered from zero without a gap, and in its buffer.\<close>

definition wal_holds :: "wal \<Rightarrow> string \<Rightarrow> bool" where
  "wal_holds w out \<longleftrightarrow> list_all id (wal_io w) \<and> console_bytes (wal_tree w) @ wal_buffer w = out
     \<and> (\<forall>k \<in> set (btm_keys (wal_tree w)). k < wal_seq w) \<and> unat (wal_seq w) \<le> length (console_bytes (wal_tree w))"

lemma insert_page_holds:
  assumes w: "wal_holds (w\<lparr>wal_buffer := page @ rest\<rparr>) out" and page: "page \<noteq> []" and len: "length out < 2 ^ 64"
  shows "wal_holds (insert_page page (w\<lparr>wal_buffer := rest\<rparr>)) out"
proof -
  have io: "list_all id (wal_io w)" and keys: "\<forall>k \<in> set (btm_keys (wal_tree w)). k < wal_seq w"
    and out: "console_bytes (wal_tree w) @ page @ rest = out" and seq: "unat (wal_seq w) \<le> length (console_bytes (wal_tree w))"
    using w by (simp_all add: wal_holds_def)
  have "length (console_bytes (wal_tree w)) + length page \<le> length out" using out by (auto simp flip: out)
  moreover have "0 < length page" using page by simp
  ultimately have fit: "unat (wal_seq w) + 1 < 2 ^ 64" using seq len by linarith
  then have succ: "unat (wal_seq w + 1) = unat (wal_seq w) + 1" by (simp add: unat_word_ariths)
  have "k < wal_seq w + 1" if "k \<le> wal_seq w" for k using that succ by (simp add: word_less_nat_alt word_le_nat_alt)
  then have "\<forall>k \<in> insert (wal_seq w) (set (btm_keys (wal_tree w))). k < wal_seq w + 1" using keys by (auto simp: less_imp_le)
  moreover have "unat (wal_seq w) < length (concat (btm_values (wal_tree w))) + length page"
    using seq \<open>0 < length page\<close> unfolding console_bytes_def by linarith
  ultimately show ?thesis using io keys out succ
    by (cases "wal_io w") (auto simp: wal_holds_def insert_page_def btm_insert_last console_bytes_def)
qed

lemma write_pages_holds: "wal_holds w out \<Longrightarrow> length out < 2 ^ 64 \<Longrightarrow> wal_holds (write_pages w) out"
proof (induction w rule: write_pages.induct)
  case (1 w)
  show ?case
  proof (cases "length (wal_buffer w) \<ge> PAGE_SIZE")
    case True
    let ?w = "w\<lparr>wal_buffer := drop PAGE_SIZE (wal_buffer w)\<rparr>"
    have "wal_holds (insert_page (take PAGE_SIZE (wal_buffer w)) ?w) out"
      by (rule insert_page_holds) (use 1 True in \<open>auto simp: PAGE_SIZE_def\<close>)
    with 1 True show ?thesis by (subst write_pages.simps) simp
  next
    case False
    with 1 show ?thesis by (subst write_pages.simps) simp
  qed
qed

lemma write_buffer_holds:
  "wal_holds w out \<Longrightarrow> length (out @ bytes) < 2 ^ 64 \<Longrightarrow> wal_holds (write_buffer bytes w) (out @ bytes)"
  unfolding write_buffer_def by (rule write_pages_holds) (auto simp: wal_holds_def)

lemma flush_buffer_holds:
  assumes w: "wal_holds w out" and len: "length out < 2 ^ 64"
  shows "console_bytes (wal_tree (flush_buffer w)) = out"
proof (cases "wal_buffer w = []")
  case True
  with w show ?thesis by (simp add: flush_buffer_def wal_holds_def)
next
  case False
  have "wal_holds (insert_page (wal_buffer w) (w\<lparr>wal_buffer := []\<rparr>)) out"
    by (rule insert_page_holds) (use w False len in auto)
  with False show ?thesis by (simp add: flush_buffer_def wal_holds_def insert_page_def)
qed

text \<open>The text of a call, where errors are not kept apart.\<close>

definition shown :: "string \<times> int \<Rightarrow> string" where
  "shown p = (if snd p = 2 then ''[WARN] '' else if snd p = 3 then ''[ERROR] '' else if snd p = 1 then ''[INFO] '' else []) @ fst p @ [newline]"

abbreviation print_all :: "(string \<times> int) list \<Rightarrow> console \<Rightarrow> console" where
  "print_all ms \<equiv> fold (\<lambda>p. op_console_write (fst p) (snd p)) ms"

lemma print_all_holds:
  assumes "wal_holds (con_out c) out" and "con_err c = None" and "length (out @ concat (map shown ms)) < 2 ^ 64"
  shows "wal_holds (con_out (print_all ms c)) (out @ concat (map shown ms)) \<and> con_err (print_all ms c) = None"
  using assms
proof (induction ms arbitrary: c out)
  case Nil
  then show ?case by simp
next
  case (Cons p ms)
  have w: "con_out (op_console_write (fst p) (snd p) c) = write_buffer (shown p) (con_out c)" "con_err (op_console_write (fst p) (snd p) c) = None"
    using Cons.prems(2) by (auto simp: op_console_write_def separates_stderr_def console_write_def shown_def)
  have "wal_holds (write_buffer (shown p) (con_out c)) (out @ shown p)"
    by (rule write_buffer_holds [OF Cons.prems(1)]) (use Cons.prems(3) in simp)
  with Cons.IH [of "op_console_write (fst p) (snd p) c" "out @ shown p"] w Cons.prems(3) show ?case by simp
qed

text \<open>C37. The pages of an execution's console, in key order, are exactly what was printed, however the writes fell into buffer and
  pages, when every insert succeeded and the output is shorter than \<open>2\<^sup>6\<^sup>4\<close> bytes.\<close>

theorem console_round_trip:
  assumes "list_all id io" and "length (concat (map shown ms)) < 2 ^ 64"
  shows "console_bytes (wal_tree (con_out (console_flush (print_all ms (console_new [] io))))) = concat (map shown ms)"
proof -
  have "wal_holds (con_out (console_new [] io)) []" "con_err (console_new [] io) = None"
    using assms(1) by (simp_all add: console_new_def wal_new_def wal_holds_def console_bytes_def)
  from print_all_holds [OF this] assms(2) have "wal_holds (con_out (print_all ms (console_new [] io))) (concat (map shown ms))" by simp
  from flush_buffer_holds [OF this assms(2)] show ?thesis by (simp add: console_flush_def)
qed

theorem console_round_trip_witness:
  "console_bytes (wal_tree (con_out (console_flush (print_all [(''a'', 0), (''b'', 3)] (console_new [] [True])))))
     = ''a'' @ [newline] @ ''[ERROR] b'' @ [newline]"
  using console_round_trip [of "[True]" "[(''a'', 0), (''b'', 3)]"] by (simp add: shown_def)

section \<open>Pages by bytes\<close>

text \<open>A reader that follows \<open>next_byte_offset\<close> while there is more; \<open>None\<close> is an error or too little fuel.\<close>

fun read_all_bytes :: "nat \<Rightarrow> (string \<Rightarrow> string) \<Rightarrow> string \<Rightarrow> u64 \<Rightarrow> u64 \<Rightarrow> string list option" where
  "read_all_bytes 0 lossy out limit off = None"
| "read_all_bytes (Suc n) lossy out limit off =
     (case byte_page lossy out off limit of
        Inl _ \<Rightarrow> None
      | Inr p \<Rightarrow>
         if pg_has_more p then map_option ((#) (pg_data p)) (read_all_bytes n lossy out limit (of_nat (pg_next_byte_offset p)))
         else Some [pg_data p])"

lemma read_bytes_from:
  assumes limit: "0 < limit" and fit: "length out + unat limit < 2 ^ 64" and valid: "\<And>i n. lossy (take n (drop i out)) = take n (drop i out)"
  shows "unat off \<le> length out \<Longrightarrow> length out - unat off < n \<Longrightarrow> \<exists>ps. read_all_bytes n lossy out limit off = Some ps \<and> concat ps = drop (unat off) out"
proof (induction n arbitrary: off)
  case 0
  then show ?case by simp
next
  case (Suc n)
  let ?stop = "min (unat off + unat limit) (length out)"
  have lim: "0 < unat limit" using limit by (simp add: word_less_nat_alt)
  obtain p where p: "byte_page lossy out off limit = Inr p" "pg_data p = take (?stop - unat off) (drop (unat off) out)"
    "pg_next_byte_offset p = ?stop" "pg_has_more p = (?stop < length out)"
    using Suc.prems(1) fit by (auto simp: byte_page_def Let_def valid)
  show ?case
  proof (cases "?stop < length out")
    case False
    then have "?stop = length out" by linarith
    with p show ?thesis by simp
  next
    case True
    have nxt: "unat (of_nat ?stop :: u64) = ?stop"
      using fit by (simp add: unat_of_nat)
    have le: "?stop \<le> length out" "length out - ?stop < n" using Suc.prems lim True by auto
    from Suc.IH [of "of_nat ?stop"] nxt le obtain ps where "read_all_bytes n lossy out limit (of_nat ?stop) = Some ps" "concat ps = drop ?stop out"
      by auto
    moreover have "take (?stop - unat off) (drop (unat off) out) @ drop ?stop out = drop (unat off) out"
    proof -
      have "?stop = (?stop - unat off) + unat off" using lim True by auto
      then have "drop ?stop out = drop (?stop - unat off) (drop (unat off) out)" by (simp only: drop_drop)
      then show ?thesis by (simp only: append_take_drop_id)
    qed
    ultimately show ?thesis using p True by simp
  qed
qed

text \<open>Following \<open>next_byte_offset\<close> from zero ends, and the pages concatenate to the output, when a page of it is text (the page does not cut
  a character) and the limit does not overflow.\<close>

theorem byte_pages_cover:
  assumes "0 < limit" and "length out + unat limit < 2 ^ 64" and "\<And>i n. lossy (take n (drop i out)) = take n (drop i out)"
  shows "\<exists>ps. read_all_bytes (length out + 1) lossy out limit 0 = Some ps \<and> concat ps = out"
  using read_bytes_from [where off = 0 and n = "length out + 1", OF assms] by simp

section \<open>Pages by lines\<close>

lemma split_lines_nonempty [simp]: "split_lines s \<noteq> []"
  by (cases s) (auto split: list.splits)

lemma join_split: "join_lines (split_lines s) = s"
proof (induction s)
  case (Cons c cs)
  obtain l ls where "split_lines cs = l # ls" by (cases "split_lines cs") auto
  with Cons show ?case by (cases ls) auto
qed simp

lemma last_split: "last (split_lines s) = [] \<longleftrightarrow> s = [] \<or> last s = newline"
proof (induction s)
  case (Cons c cs)
  obtain l ls where l: "split_lines cs = l # ls" by (cases "split_lines cs") auto
  show ?case
  proof (cases ls)
    case Nil
    then have "split_lines cs = [cs]" using l join_split [of cs] by simp
    with Cons.IH show ?thesis by (cases "cs = []") auto
  next
    case (Cons a b)
    moreover have "cs \<noteq> []" using l Cons by auto
    ultimately show ?thesis using \<open>last (split_lines cs) = [] \<longleftrightarrow> cs = [] \<or> last cs = newline\<close> l by simp
  qed
qed simp

lemma length_split: "length (split_lines s) \<le> length s + 1"
  by (induction s) (auto split: list.splits)

lemma join_append: "xs \<noteq> [] \<Longrightarrow> ys \<noteq> [] \<Longrightarrow> join_lines (xs @ ys) = join_lines xs @ newline # join_lines ys"
proof (induction xs)
  case (Cons x xs)
  show ?case
  proof (cases xs)
    case Nil
    obtain y zs where "ys = y # zs" using Cons.prems(2) by (cases ys) auto
    with Nil show ?thesis by simp
  next
    case (Cons a b)
    with Cons.IH Cons.prems show ?thesis by simp
  qed
qed simp

lemma length_output: "length (output_lines s) \<le> length s + 1"
proof -
  have "length (output_lines s) \<le> length (split_lines s)" by (simp add: output_lines_def Let_def)
  with length_split [of s] show ?thesis by linarith
qed

lemma join_output: "join_lines (output_lines s) = (if s \<noteq> [] \<and> last s = newline then butlast s else s)"
proof (cases "last (split_lines s) = []")
  case False
  then have "output_lines s = split_lines s" by (simp add: output_lines_def)
  moreover have "s = [] \<or> last s \<noteq> newline" using False last_split by blast
  ultimately show ?thesis by (auto simp: join_split)
next
  case True
  let ?b = "butlast (split_lines s)"
  have out: "output_lines s = ?b" using True by (simp add: output_lines_def)
  have split: "split_lines s = ?b @ [[]]" using True append_butlast_last_id [of "split_lines s"] by simp
  show ?thesis
  proof (cases "?b = []")
    case b: True
    then have "s = []" using split join_split [of s] by simp
    with out b show ?thesis by simp
  next
    case False
    then have "s = join_lines ?b @ [newline]" using join_append [OF False, of "[[]]"] split join_split [of s] by simp
    then show ?thesis using out by (metis butlast_snoc last_snoc snoc_eq_iff_butlast)
  qed
qed

fun read_lines :: "nat \<Rightarrow> (string \<Rightarrow> string) \<Rightarrow> string \<Rightarrow> u64 \<Rightarrow> u64 \<Rightarrow> string list option" where
  "read_lines 0 lossy out limit off = None"
| "read_lines (Suc n) lossy out limit off =
     (let p = line_page lossy out off limit in
      if pg_has_more p then map_option ((#) (pg_data p)) (read_lines n lossy out limit (of_nat (pg_next_line_offset p)))
      else Some [pg_data p])"

lemma line_page_parts:
  assumes "1 \<le> unat off" and "0 < limit" and "unat off \<le> length (output_lines (lossy out))"
  defines "page \<equiv> take (unat limit) (drop (unat off - 1) (output_lines (lossy out)))"
  shows "page \<noteq> []" and "pg_data (line_page lossy out off limit) = join_lines page"
    and "pg_next_line_offset (line_page lossy out off limit) = unat off + length page"
    and "pg_has_more (line_page lossy out off limit) = (unat off - 1 + length page < length (output_lines (lossy out)))"
proof -
  have "0 < unat limit" using assms(2) by (simp add: word_less_nat_alt)
  then show ne: "page \<noteq> []" using assms(1,3) by (simp add: page_def)
  then have "0 < length page" by simp
  with ne show "pg_data (line_page lossy out off limit) = join_lines page"
    and "pg_next_line_offset (line_page lossy out off limit) = unat off + length page"
    and "pg_has_more (line_page lossy out off limit) = (unat off - 1 + length page < length (output_lines (lossy out)))"
    using assms(1) unfolding line_page_def Let_def page_def [symmetric] by simp_all
qed

lemma read_lines_from:
  assumes limit: "0 < limit" and fit: "length (lossy out) + 2 < 2 ^ 64"
  defines "ls \<equiv> output_lines (lossy out)"
  shows "1 \<le> unat off \<Longrightarrow> unat off \<le> length ls \<Longrightarrow> length ls - unat off < n \<Longrightarrow>
    \<exists>ps. ps \<noteq> [] \<and> read_lines n lossy out limit off = Some ps \<and> join_lines ps = join_lines (drop (unat off - 1) ls)"
proof (induction n arbitrary: off)
  case 0
  then show ?case by simp
next
  case (Suc n)
  define page where "page = take (unat limit) (drop (unat off - 1) ls)"
  note parts = line_page_parts [OF Suc.prems(1) limit, of lossy out, folded ls_def, OF Suc.prems(2), folded page_def]
  have rest: "drop (unat off - 1) ls = page @ drop (unat off - 1 + length page) ls"
  proof -
    have "drop (unat off - 1 + length page) ls = drop (length page) (drop (unat off - 1) ls)" by (simp add: add.commute)
    then show ?thesis by (metis append_take_drop_id page_def take_all_iff append_eq_conv_conj length_take min.cobounded2)
  qed
  show ?case
  proof (cases "unat off - 1 + length page < length ls")
    case False
    then have "drop (unat off - 1) ls = page" using rest by simp
    with False parts show ?thesis by (intro exI [of _ "[join_lines page]"]) (simp add: Let_def)
  next
    case True
    let ?next = "unat off + length page"
    from length_output [of "lossy out", folded ls_def] fit True have "?next < 2 ^ 64" by linarith
    then have nxt: "unat (of_nat ?next :: u64) = ?next" by (simp add: unat_of_nat del: of_nat_add)
    have "0 < length page" using parts(1) by simp
    then have pre: "1 \<le> ?next" "?next \<le> length ls" "length ls - ?next < n" using Suc.prems True by linarith+
    from Suc.IH [of "of_nat ?next", unfolded nxt, OF pre] obtain ps where ps: "ps \<noteq> []"
      "read_lines n lossy out limit (of_nat ?next) = Some ps" "join_lines ps = join_lines (drop (?next - 1) ls)" by blast
    have "?next - 1 = unat off - 1 + length page" using Suc.prems(1) by simp
    then have dr: "drop (unat off - 1) ls = page @ drop (?next - 1) ls" "drop (?next - 1) ls \<noteq> []" using rest True by simp_all
    have "join_lines (join_lines page # ps) = join_lines (drop (unat off - 1) ls)"
      using join_append [of "[join_lines page]" ps] join_append [OF parts(1) dr(2)] ps(1,3) dr(1) by simp
    with ps parts True show ?thesis by (intro exI [of _ "join_lines page # ps"]) (simp add: Let_def)
  qed
qed

text \<open>Following \<open>next_line_offset\<close> from line 1 ends, and the pages joined by line feeds are the output without its final line feed.\<close>

theorem line_pages_cover:
  assumes "0 < limit" and "length (lossy out) + 2 < 2 ^ 64"
  shows "\<exists>ps. read_lines (length (lossy out) + 2) lossy out limit 1 = Some ps
    \<and> join_lines ps = (if lossy out \<noteq> [] \<and> last (lossy out) = newline then butlast (lossy out) else lossy out)"
proof (cases "output_lines (lossy out) = []")
  case True
  then show ?thesis using join_output [of "lossy out"] by (simp add: line_page_def Let_def)
next
  case False
  have "length (output_lines (lossy out)) \<le> length (lossy out) + 1" by (rule length_output)
  moreover have "0 < length (output_lines (lossy out))" using False by simp
  ultimately have "1 \<le> unat (1 :: u64)" "unat (1 :: u64) \<le> length (output_lines (lossy out))"
    "length (output_lines (lossy out)) - unat (1 :: u64) < length (lossy out) + 2" by (simp_all add: Suc_le_eq)
  from read_lines_from [where lossy = lossy and out = out, OF assms this] show ?thesis by (auto simp: join_output)
qed

section \<open>Coordinates\<close>

lemma joined_bytes: "ls \<noteq> [] \<Longrightarrow> sum_list (map (\<lambda>l. length l + 1) ls) = length (join_lines ls) + 1"
  by (induction ls rule: join_lines.induct) auto

text \<open>The last page by lines puts \<open>next_byte_offset\<close> at the end of the output, but one byte past it when the output does not end
  with a line feed: a reader that goes on by bytes from there misses the first byte of what is printed next.\<close>

theorem line_page_byte_offset:
  assumes plain: "lossy out = out" and off: "1 \<le> unat off" "unat off \<le> length (output_lines out)" and limit: "0 < limit"
    and whole: "\<not> pg_has_more (line_page lossy out off limit)"
  shows "pg_next_byte_offset (line_page lossy out off limit) = length out + (if last out = newline then 0 else 1)"
proof -
  define ls where "ls = output_lines out"
  define page where "page = take (unat limit) (drop (unat off - 1) ls)"
  have "page \<noteq> []" and "\<not> unat off - 1 + length page < length ls"
    using line_page_parts(1,4) [OF off(1) limit, of lossy out, unfolded plain, OF off(2)] whole
    unfolding ls_def [symmetric] page_def [symmetric] by blast+
  then have "length page \<ge> length (drop (unat off - 1) ls)" by simp
  then have "page = drop (unat off - 1) ls" unfolding page_def by (simp add: not_le)
  then have ls: "ls = take (unat off - 1) ls @ page" by simp
  have "pg_next_byte_offset (line_page lossy out off limit)
      = sum_list (map (\<lambda>l. length l + 1) (take (unat off - 1) ls)) + sum_list (map (\<lambda>l. length l + 1) page)"
    using off unfolding line_page_def Let_def plain ls_def [symmetric] page_def [symmetric] by auto
  also have "\<dots> = sum_list (map (\<lambda>l. length l + 1) ls)" using arg_cong [OF ls, of "\<lambda>xs. sum_list (map (\<lambda>l. length l + 1) xs)"] by simp
  also have "\<dots> = length (join_lines ls) + 1" using \<open>page \<noteq> []\<close> ls by (intro joined_bytes) auto
  also have "\<dots> = length out + (if last out = newline then 0 else 1)"
  proof -
    have "out \<noteq> []" using off by (auto simp: output_lines_def)
    then show ?thesis using join_output [of out] by (cases out rule: rev_cases) (auto simp: ls_def)
  qed
  finally show ?thesis .
qed

text \<open>A page by bytes panics exactly when the start of the page and the limit of the request overflow \<open>usize\<close>.\<close>

theorem byte_limit_overflow:
  assumes "open_tree (''ex:'' @ i) = Inr (Inr t)"
  shows "(\<exists>m. get_console_output lossy open_tree i line_offset line_limit (Some off) (Some limit) = Inl (Panic m))
    \<longleftrightarrow> 2 ^ 64 \<le> min (unat off) (length (console_bytes t)) + unat limit"
  using assms by (simp add: get_console_output_def read_page_def byte_page_def Let_def)

section \<open>The registry\<close>

datatype reg_op =
    OpRegister string string
  | OpArtifacts string "artifact_meta list"
  | OpHandle string isolate_handle
  | OpStopped string
  | OpClear string
  | OpComplete string string string "string option"
  | OpFs string "string option"
  | OpFail string string string
  | OpTimedOut string string
  | OpCancel string string
  | OpCancelAll string

fun reg_apply :: "reg_op \<Rightarrow> registry \<Rightarrow> registry" where
  "reg_apply (OpRegister now i) r = snd (register (Inr ()) now i r)"
| "reg_apply (OpArtifacts i xs) r = set_artifacts i xs r"
| "reg_apply (OpHandle i h) r = set_isolate_handle i h r"
| "reg_apply (OpStopped i) r = mark_stopped i r"
| "reg_apply (OpClear i) r = clear_isolate_handle i r"
| "reg_apply (OpComplete now i out heap) r = complete_execution now i out heap r"
| "reg_apply (OpFs i f) r = set_fs i f r"
| "reg_apply (OpFail now i err) r = fail_execution now i err r"
| "reg_apply (OpTimedOut now i) r = timed_out now i r"
| "reg_apply (OpCancel now i) r = snd (cancel_execution now i r)"
| "reg_apply (OpCancelAll now) r = snd (cancel_all now r)"

definition registers :: "string \<Rightarrow> reg_op \<Rightarrow> bool" where
  "registers i op \<longleftrightarrow> (\<exists>now. op = OpRegister now i)"

lemma get_alter: "btm_get (rg_executions (alter i f r)) k = (if k = i then map_option f (btm_get (rg_executions r) i) else btm_get (rg_executions r) k)"
  by (simp add: alter_def btm_get_modify)

lemmas reg_defs = set_artifacts_def set_isolate_handle_def mark_stopped_def clear_isolate_handle_def complete_execution_def set_fs_def
  fail_execution_def timed_out_def cancel_execution_def register_def

text \<open>What a caller may rely on once an execution has ended.\<close>

definition ended_as :: "execution_record \<Rightarrow> execution_record option \<Rightarrow> bool" where
  "ended_as e o' \<longleftrightarrow> (case o' of None \<Rightarrow> False | Some e' \<Rightarrow> ex_status e' = ex_status e \<and> ex_result e' = ex_result e \<and> ex_heap e' = ex_heap e
     \<and> ex_error e' = ex_error e \<and> ex_completed_at e' = ex_completed_at e \<and> (ex_stopped e \<longrightarrow> ex_stopped e'))"

lemma ended_cancel:
  "ex_status e \<noteq> ExRunning \<Longrightarrow> ended_as e (btm_get (rg_executions r) i) \<Longrightarrow> ended_as e (btm_get (rg_executions (snd (cancel_execution now k r))) i)"
  by (auto simp: cancel_execution_def ended_as_def get_alter split: option.splits)

lemma ended_cancel_each:
  "ex_status e \<noteq> ExRunning \<Longrightarrow> ended_as e (btm_get (rg_executions r) i) \<Longrightarrow> ended_as e (btm_get (rg_executions (snd (cancel_each now ks r))) i)"
proof (induction ks arbitrary: r)
  case (Cons k ks)
  from Cons.IH [OF Cons.prems(1) ended_cancel [OF Cons.prems]] show ?case by (simp split: prod.splits) (metis snd_conv)
qed simp

lemma ended_step:
  assumes "ex_status e \<noteq> ExRunning" and "ended_as e (btm_get (rg_executions r) i)" and "\<not> registers i op"
  shows "ended_as e (btm_get (rg_executions (reg_apply op r)) i)"
proof (cases op)
  case (OpCancel now k)
  with ended_cancel [OF assms(1,2)] show ?thesis by simp
next
  case (OpCancelAll now)
  with ended_cancel_each [OF assms(1,2)] show ?thesis by (simp add: cancel_all_def)
next
  case (OpRegister now k)
  with assms show ?thesis by (auto simp: registers_def register_def btm_get_insert)
qed (use assms in \<open>auto simp: reg_defs ended_as_def get_alter split: option.splits\<close>)

lemma execution_ended:
  assumes "btm_get (rg_executions r) i = Some e" and "ex_status e \<noteq> ExRunning" and "\<forall>op \<in> set ops. \<not> registers i op"
  shows "ended_as e (btm_get (rg_executions (fold reg_apply ops r)) i)"
proof -
  have "ended_as e (btm_get (rg_executions r) i)" using assms(1) by (simp add: ended_as_def)
  with assms(3) show ?thesis
  proof (induction ops arbitrary: r)
    case (Cons op ops)
    from Cons.IH [OF _ ended_step [OF assms(2) Cons.prems(2)]] Cons.prems(1) show ?case by simp
  qed simp
qed

text \<open>C25. An execution that has ended stays as it ended: whatever calls follow, cancellations and late reports included, its status, result,
  heap, error and time of completion do not change, and once stopped it remains stopped.\<close>

theorem execution_final:
  assumes "btm_get (rg_executions r) i = Some e" and "ex_status e \<noteq> ExRunning" and "\<forall>op \<in> set ops. \<not> registers i op"
  shows "ended_as e (btm_get (rg_executions (fold reg_apply ops r)) i)"
  by (rule execution_ended [OF assms])

definition one_execution :: registry where
  "one_execution = snd (register (Inr ()) ''t'' ''x'' \<lparr>rg_executions = [], rg_terminated = []\<rparr>)"

theorem execution_final_witness:
  "ended_as (the (btm_get (rg_executions (reg_apply (OpCancel ''u'' ''x'') one_execution)) ''x''))
     (btm_get (rg_executions (fold reg_apply [OpComplete ''v'' ''x'' ''late'' None, OpCancelAll ''w''] (reg_apply (OpCancel ''u'' ''x'') one_execution))) ''x'')"
proof -
  have "\<exists>e. btm_get (rg_executions (reg_apply (OpCancel ''u'' ''x'') one_execution)) ''x'' = Some e \<and> ex_status e \<noteq> ExRunning"
    by (simp add: one_execution_def register_def cancel_execution_def get_alter)
  then obtain e where "btm_get (rg_executions (reg_apply (OpCancel ''u'' ''x'') one_execution)) ''x'' = Some e" "ex_status e \<noteq> ExRunning" by blast
  from execution_final [OF this, of "[OpComplete ''v'' ''x'' ''late'' None, OpCancelAll ''w'']"] this show ?thesis
    by (simp add: registers_def)
qed

text \<open>C26. A cancellation reaches the isolate: the handle that was published before is terminated at once, and one that the execution publishes
  later, after any other calls, is terminated instead of stored.\<close>

theorem cancel_reaches_isolate:
  assumes "cancel_execution now i r = (Inr (), r')" and "\<forall>op \<in> set ops. \<not> registers i op"
  shows "(\<forall>e h. btm_get (rg_executions r) i = Some e \<longrightarrow> ex_isolate_handle e = Some h \<longrightarrow> h \<in> set (rg_terminated r'))
    \<and> h \<in> set (rg_terminated (set_isolate_handle i h (fold reg_apply ops r')))"
proof -
  obtain e where e: "btm_get (rg_executions r) i = Some e" "ex_status e = ExRunning"
    using assms(1) by (auto simp: cancel_execution_def split: option.splits if_splits)
  then obtain e' where e': "btm_get (rg_executions r') i = Some e'" "ex_status e' = ExCancelled"
    using assms(1) by (auto simp: cancel_execution_def get_alter)
  have "ended_as e' (btm_get (rg_executions (fold reg_apply ops r')) i)" by (rule execution_ended [OF e'(1) _ assms(2)]) (simp add: e'(2))
  then have "h \<in> set (rg_terminated (set_isolate_handle i h (fold reg_apply ops r')))"
    using e'(2) by (auto simp: ended_as_def set_isolate_handle_def split: option.splits)
  moreover have "h \<in> set (rg_terminated r')" if "ex_isolate_handle e = Some h" for h
    using assms(1) e that by (auto simp: cancel_execution_def alter_def)
  ultimately show ?thesis using e(1) by auto
qed

theorem cancel_reaches_isolate_witness:
  "7 \<in> set (rg_terminated (set_isolate_handle ''x'' 7 (fold reg_apply [OpStopped ''y''] (snd (cancel_execution ''u'' ''x'' one_execution)))))"
proof -
  have "cancel_execution ''u'' ''x'' one_execution = (Inr (), snd (cancel_execution ''u'' ''x'' one_execution))"
    by (simp add: one_execution_def register_def cancel_execution_def)
  from cancel_reaches_isolate [OF this, of "[OpStopped ''y'']" 7] show ?thesis by (simp add: registers_def)
qed

end
