(* ===== verification/Hook_Policy.thy ===== *)
theory Hook_Policy
  imports Json_Value
begin

text \<open>
  Policies (\<open>src/server/src/engine/opa.rs\<close>): evaluators in a row that must all allow an operation, or of which one must. The Rego
  engine and the policy server are arguments that may change the environment, of type \<open>'w\<close>. Messages of errors are shortened where the
  source shows a value in them.
\<close>

section \<open>Evaluators\<close>

text \<open>\<open>None\<close> is an undefined rule.\<close>

type_synonym 'w evaluator = "json \<Rightarrow> 'w \<Rightarrow> json option result \<times> 'w"

text \<open>What came back from the server: nothing, or a status with its text and the body, read as \<open>result\<close> and its \<open>allow\<close>.\<close>

datatype opa_reply =
    OpaLost string
  | OpaReply nat string "string + bool option option"

datatype opa_failure = Transport string | Answer string

definition opa_ask :: "opa_reply \<Rightarrow> opa_failure + bool" where
  "opa_ask reply =
     (case reply of
        OpaLost e \<Rightarrow> Inl (Transport (''OPA request failed: '' @ e))
      | OpaReply status shown body \<Rightarrow>
         if status \<in> {502, 503, 504} then Inl (Transport (''OPA returned HTTP '' @ shown))
         else if \<not> (200 \<le> status \<and> status < 300) then Inl (Answer (''OPA returned HTTP '' @ shown))
         else case body of
           Inl e \<Rightarrow> Inl (Answer (''Failed to parse OPA response: '' @ e))
         | Inr res \<Rightarrow> Inr (case res of Some (Some b) \<Rightarrow> b | _ \<Rightarrow> False))"

text \<open>A request that fails in transport is made once more; an answer is final.\<close>

definition opa_evaluate :: "('w \<Rightarrow> opa_reply \<times> 'w) \<Rightarrow> 'w \<Rightarrow> bool result \<times> 'w" where
  "opa_evaluate send w =
     (case send w of (reply, w1) \<Rightarrow>
       (case opa_ask reply of
          Inr allow \<Rightarrow> (Inr allow, w1)
        | Inl (Answer m) \<Rightarrow> (Inl (Err m), w1)
        | Inl (Transport first) \<Rightarrow>
           (case send w1 of (reply2, w2) \<Rightarrow>
             (case opa_ask reply2 of
                Inr allow \<Rightarrow> (Inr allow, w2)
              | Inl (Answer m) \<Rightarrow> (Inl (Err m), w2)
              | Inl (Transport second) \<Rightarrow> (Inl (Err (first @ '' (and again: '' @ second @ '')'')), w2)))))"

datatype 'w policy_evaluator =
    PolicyRemote "json \<Rightarrow> 'w \<Rightarrow> opa_reply \<times> 'w"
  | PolicyLocal "'w evaluator"

definition evaluate_local :: "'w evaluator \<Rightarrow> json \<Rightarrow> 'w \<Rightarrow> bool result \<times> 'w" where
  "evaluate_local engine input w = bind_st (engine input w) (\<lambda>v w1. (Inr (v = Some (JBool True)), w1))"

definition evaluate_policy :: "'w policy_evaluator \<Rightarrow> json \<Rightarrow> 'w \<Rightarrow> bool result \<times> 'w" where
  "evaluate_policy e input w =
     (case e of PolicyRemote send \<Rightarrow> opa_evaluate (send input) w | PolicyLocal engine \<Rightarrow> evaluate_local engine input w)"

section \<open>Chains\<close>

datatype eval_mode = AllMode | AnyMode

record 'w policy_chain =
  pc_evaluators :: "'w policy_evaluator list"
  pc_mode :: eval_mode

fun evaluate_all :: "'w policy_evaluator list \<Rightarrow> json \<Rightarrow> 'w \<Rightarrow> bool result \<times> 'w" where
  "evaluate_all [] input w = (Inr True, w)"
| "evaluate_all (e # es) input w =
     bind_st (evaluate_policy e input w) (\<lambda>allow w1. if \<not> allow then (Inr False, w1) else evaluate_all es input w1)"

fun evaluate_any :: "'w policy_evaluator list \<Rightarrow> json \<Rightarrow> 'w \<Rightarrow> bool result \<times> 'w" where
  "evaluate_any [] input w = (Inr False, w)"
| "evaluate_any (e # es) input w =
     bind_st (evaluate_policy e input w) (\<lambda>allow w1. if allow then (Inr True, w1) else evaluate_any es input w1)"

definition chain_evaluate :: "'w policy_chain \<Rightarrow> json \<Rightarrow> 'w \<Rightarrow> bool result \<times> 'w" where
  "chain_evaluate c input w =
     (if pc_evaluators c = [] then (Inr True, w)
      else case pc_mode c of AllMode \<Rightarrow> evaluate_all (pc_evaluators c) input w | AnyMode \<Rightarrow> evaluate_any (pc_evaluators c) input w)"

section \<open>Configuration\<close>

record policy_source =
  ps_url :: string
  ps_policy_path :: "string option"
  ps_rule :: "string option"

text \<open>How the sources of policies are opened: a server by its URL and path, and a file or directory of rules, which may fail.\<close>

record 'w policy_loader =
  pl_remote :: "string \<Rightarrow> string \<Rightarrow> json \<Rightarrow> 'w \<Rightarrow> opa_reply \<times> 'w"
  pl_local :: "string \<Rightarrow> string \<Rightarrow> 'w evaluator result"

definition or_default :: "'a \<Rightarrow> 'a option \<Rightarrow> 'a" where
  "or_default d x = (case x of None \<Rightarrow> d | Some v \<Rightarrow> v)"

definition is_http :: "string \<Rightarrow> bool" where
  "is_http url \<longleftrightarrow> starts_with url ''http://'' \<or> starts_with url ''https://''"

definition file_path :: "string \<Rightarrow> string option" where
  "file_path url = (if starts_with url ''file://'' then Some (drop (length ''file://'') url) else None)"

definition build_evaluator :: "'w policy_loader \<Rightarrow> string \<Rightarrow> string \<Rightarrow> policy_source \<Rightarrow> 'w policy_evaluator result" where
  "build_evaluator L default_remote_path default_local_rule src =
     (if is_http (ps_url src) then Inr (PolicyRemote (pl_remote L (ps_url src) (or_default default_remote_path (ps_policy_path src))))
      else case file_path (ps_url src) of
        Some path \<Rightarrow> bind_res (pl_local L path (or_default default_local_rule (ps_rule src))) (\<lambda>e. Inr (PolicyLocal e))
      | None \<Rightarrow> Inl (Err (''Unsupported policy URL scheme: '' @ quoted (ps_url src) @ ''. Use http://, https://, or file://'')))"

fun build_evaluators :: "'w policy_loader \<Rightarrow> string \<Rightarrow> string \<Rightarrow> policy_source list \<Rightarrow> 'w policy_evaluator list result" where
  "build_evaluators L rp lr [] = Inr []"
| "build_evaluators L rp lr (src # srcs) =
     bind_res (build_evaluator L rp lr src) (\<lambda>e. bind_res (build_evaluators L rp lr srcs) (\<lambda>es. Inr (e # es)))"

definition build_policy_chain :: "'w policy_loader \<Rightarrow> eval_mode \<Rightarrow> policy_source list \<Rightarrow> string \<Rightarrow> string \<Rightarrow> 'w policy_chain result" where
  "build_policy_chain L mode policies default_remote_path default_local_rule =
     bind_res (build_evaluators L default_remote_path default_local_rule policies) (\<lambda>es. Inr \<lparr>pc_evaluators = es, pc_mode = mode\<rparr>)"

section \<open>What a chain that allows has asked\<close>

lemma evaluate_all_allows:
  assumes "evaluate_all es input w = (Inr True, w')"
  shows "\<forall>e \<in> set es. \<exists>w1 w2. evaluate_policy e input w1 = (Inr True, w2)"
  using assms
proof (induction es arbitrary: w)
  case (Cons e es)
  then obtain w1 where "evaluate_policy e input w = (Inr True, w1)" "evaluate_all es input w1 = (Inr True, w')"
    by (auto simp: bind_st_eq split: if_splits)
  with Cons.IH show ?case by auto
qed simp

lemma evaluate_any_allows:
  assumes "evaluate_any es input w = (Inr True, w')"
  shows "\<exists>e \<in> set es. \<exists>w1 w2. evaluate_policy e input w1 = (Inr True, w2)"
  using assms
proof (induction es arbitrary: w)
  case (Cons e es)
  then consider w1 where "evaluate_policy e input w = (Inr True, w1)" | w1 where "evaluate_any es input w1 = (Inr True, w')"
    by (auto simp: bind_st_eq split: if_splits)
  then show ?case
  proof cases
    case 2
    with Cons.IH show ?thesis by auto
  qed auto
qed simp

definition allowed_by :: "'w policy_chain \<Rightarrow> json \<Rightarrow> bool" where
  "allowed_by c input \<longleftrightarrow> (let asked = (\<lambda>e. \<exists>w1 w2. evaluate_policy e input w1 = (Inr True, w2)) in
     pc_evaluators c = [] \<or> (case pc_mode c of AllMode \<Rightarrow> \<forall>e \<in> set (pc_evaluators c). asked e | AnyMode \<Rightarrow> \<exists>e \<in> set (pc_evaluators c). asked e))"

lemma chain_allows: "chain_evaluate c input w = (Inr True, w') \<Longrightarrow> allowed_by c input"
  unfolding chain_evaluate_def allowed_by_def Let_def
  by (auto split: if_splits eval_mode.splits dest: evaluate_all_allows evaluate_any_allows)

lemma built_policies:
  assumes "build_policy_chain L mode policies rp lr = Inr c"
  shows "length (pc_evaluators c) = length policies" and "pc_mode c = mode"
proof -
  have "length es = length policies" if "build_evaluators L rp lr policies = Inr es" for es
    using that by (induction policies arbitrary: es) (auto simp: bind_res_Inr_iff)
  with assms show "length (pc_evaluators c) = length policies" "pc_mode c = mode"
    by (auto simp: build_policy_chain_def bind_res_Inr_iff)
qed

end
