(* ===== verification/Fetch_Rules.thy ===== *)
theory Fetch_Rules
  imports Json_Value
begin

text \<open>
  Header rules of \<open>fetch\<close> (\<open>src/server/src/engine/fetch.rs\<close>): the headers, credentials among them, that the server adds to requests
  for the hosts of a rule. The source of dynamic tokens (\<open>fetch_auth.rs\<close>) is an argument that may change the environment, of type
  \<open>'w\<close>. \<open>to_lowercase\<close> and \<open>to_uppercase\<close> are modelled on ASCII, to which the URL parser maps every host; a map of headers is
  kept in key order.
\<close>

section \<open>Rules\<close>

record oauth_config =
  oc_header_name :: string
  oc_token_url :: string
  oc_client_id :: string
  oc_client_secret :: string
  oc_scope :: "string option"
  oc_refresh_buffer_secs :: u64

datatype header_injection =
    StaticHeaders "(string \<times> string) list"
  | OAuthClientCredentials oauth_config

type_synonym 'w token_source = "'w \<Rightarrow> string result \<times> 'w"

record 'w header_rule =
  hr_host :: string
  hr_methods :: "string list"
  hr_injection :: header_injection
  hr_override_existing :: bool
  hr_source :: "'w token_source option"

definition require_non_empty :: "string \<Rightarrow> string \<Rightarrow> string result" where
  "require_non_empty field v =
     (if trim v = [] then Inl (Err (''fetch rule '' @ quoted field @ '' cannot be empty'')) else Inr (trim v))"

fun static_headers_loop :: "(string \<times> string) list \<Rightarrow> (string, string) btm \<Rightarrow> (string \<times> string) list \<Rightarrow> (string \<times> string) list result" where
  "static_headers_loop [] seen acc = Inr acc"
| "static_headers_loop ((k, v) # hs) seen acc =
     bind_res (require_non_empty ''header'' k)
       (\<lambda>k'. bind_res (require_non_empty ''value'' v)
         (\<lambda>v'. if btm_get seen (ascii_lower k') \<noteq> None
           then Inl (Err (''fetch rule duplicate static header name '' @ quoted k' @ '' conflicts with '' @ quoted (the (btm_get seen (ascii_lower k')))))
           else static_headers_loop hs (btm_insert (ascii_lower k') k' seen) (acc @ [(k', v')])))"

definition normalize_static_headers :: "(string \<times> string) list \<Rightarrow> (string \<times> string) list result" where
  "normalize_static_headers hs =
     (if hs = [] then Inl (Err ''fetch rule static headers cannot be empty'') else static_headers_loop hs [] [])"

definition normalize_oauth_config :: "oauth_config \<Rightarrow> oauth_config result" where
  "normalize_oauth_config c =
     bind_res (require_non_empty ''header'' (oc_header_name c))
       (\<lambda>h. bind_res (require_non_empty ''token_url'' (oc_token_url c))
         (\<lambda>u. bind_res (require_non_empty ''client_id'' (oc_client_id c))
           (\<lambda>i. bind_res (require_non_empty ''client_secret'' (oc_client_secret c))
             (\<lambda>s. Inr \<lparr>oc_header_name = h, oc_token_url = u, oc_client_id = i, oc_client_secret = s,
                oc_scope = (case oc_scope c of None \<Rightarrow> None | Some x \<Rightarrow> if trim x = [] then None else Some (trim x)),
                oc_refresh_buffer_secs = oc_refresh_buffer_secs c\<rparr>))))"

definition normalize_injection :: "header_injection \<Rightarrow> header_injection result" where
  "normalize_injection inject =
     (case inject of
        StaticHeaders hs \<Rightarrow> bind_res (normalize_static_headers hs) (\<lambda>hs. Inr (StaticHeaders hs))
      | OAuthClientCredentials c \<Rightarrow> bind_res (normalize_oauth_config c) (\<lambda>c. Inr (OAuthClientCredentials c)))"

definition build_dynamic_auth_source :: "(oauth_config \<Rightarrow> 'w token_source) \<Rightarrow> header_injection \<Rightarrow> 'w token_source option" where
  "build_dynamic_auth_source tokens inject =
     (case inject of StaticHeaders _ \<Rightarrow> None | OAuthClientCredentials c \<Rightarrow> Some (tokens c))"

definition normalize_methods :: "string list \<Rightarrow> string list" where
  "normalize_methods ms = filter (\<lambda>m. m \<noteq> []) (map (\<lambda>m. ascii_upper (trim m)) ms)"

definition header_rule_new :: "(oauth_config \<Rightarrow> 'w token_source) \<Rightarrow> string \<Rightarrow> string list \<Rightarrow> header_injection \<Rightarrow> 'w header_rule result" where
  "header_rule_new tokens host methods inject =
     bind_res (require_non_empty ''host'' host)
       (\<lambda>host. bind_res (normalize_injection inject)
         (\<lambda>inject. Inr \<lparr>hr_host = host, hr_methods = normalize_methods methods, hr_injection = inject, hr_override_existing = True,
            hr_source = build_dynamic_auth_source tokens inject\<rparr>))"

definition with_override_existing :: "bool \<Rightarrow> 'w header_rule \<Rightarrow> 'w header_rule" where
  "with_override_existing b r = r\<lparr>hr_override_existing := b\<rparr>"

definition static_header ::
  "(oauth_config \<Rightarrow> 'w token_source) \<Rightarrow> string \<Rightarrow> string list \<Rightarrow> string \<Rightarrow> string \<Rightarrow> 'w header_rule result" where
  "static_header tokens host methods k v =
     bind_res (require_non_empty ''header'' k)
       (\<lambda>k. bind_res (require_non_empty ''value'' v) (\<lambda>v. header_rule_new tokens host methods (StaticHeaders [(k, v)])))"

definition static_headers :: "'w header_rule \<Rightarrow> (string \<times> string) list option" where
  "static_headers r = (case hr_injection r of StaticHeaders hs \<Rightarrow> Some hs | OAuthClientCredentials _ \<Rightarrow> None)"

definition dynamic_auth :: "'w header_rule \<Rightarrow> oauth_config option" where
  "dynamic_auth r = (case hr_injection r of StaticHeaders _ \<Rightarrow> None | OAuthClientCredentials c \<Rightarrow> Some c)"

section \<open>Matching\<close>

text \<open>The slice \<open>pattern[2..]\<close> panics unless byte 2 starts a character or is the end.\<close>

definition slice_from :: "nat \<Rightarrow> string \<Rightarrow> string result" where
  "slice_from n s =
     (if n < length s \<and> utf8_continuation (s ! n) \<or> length s < n
      then Inl (Panic ''byte index is out of bounds or not a char boundary'') else Inr (drop n s))"

definition ends_with :: "string \<Rightarrow> string \<Rightarrow> bool" where
  "ends_with s suffix \<longleftrightarrow> length suffix \<le> length s \<and> drop (length s - length suffix) s = suffix"

definition rule_matches :: "'w header_rule \<Rightarrow> string \<Rightarrow> string \<Rightarrow> bool result" where
  "rule_matches r request_host request_method =
     (if hr_methods r \<noteq> [] \<and> \<not> list_ex (\<lambda>m. ascii_lower m = ascii_lower (ascii_upper request_method)) (hr_methods r) then Inr False
      else
       (let pattern = ascii_lower (hr_host r); host = ascii_lower request_host in
        if starts_with pattern ''*''
        then bind_res (slice_from 2 pattern) (\<lambda>rest. Inr (host = rest \<or> ends_with host (drop 1 pattern)))
        else Inr (host = pattern)))"

section \<open>Injection\<close>

record injected_header =
  ih_name :: string
  ih_value :: string
  ih_rule :: nat

text \<open>The static headers of one rule, from the front; the source iterates a hash map, whose keys differ in more than case.\<close>

fun inject_static :: "nat \<Rightarrow> bool \<Rightarrow> (string \<times> string) list \<Rightarrow> (string, string) btm \<Rightarrow> injected_header list \<times> (string, string) btm" where
  "inject_static i override [] headers = ([], headers)"
| "inject_static i override ((k, v) # hs) headers =
     (let key = ascii_lower k in
      if \<not> override \<and> btm_get headers key \<noteq> None then inject_static i override hs headers
      else case inject_static i override hs (btm_insert key v headers) of
        (injected, headers') \<Rightarrow> (\<lparr>ih_name = key, ih_value = v, ih_rule = i\<rparr> # injected, headers'))"

definition sanitized_dynamic_auth_error :: "string \<Rightarrow> string \<Rightarrow> string" where
  "sanitized_dynamic_auth_error header_name stage =
     ''dynamic credential injection failed for header '' @ quoted header_name @ '' during '' @ stage"

definition inject_rule ::
  "nat \<Rightarrow> 'w header_rule \<Rightarrow> (string, string) btm \<Rightarrow> 'w \<Rightarrow> (injected_header list \<times> (string, string) btm) result \<times> 'w" where
  "inject_rule i r headers w =
     (case hr_injection r of
        StaticHeaders hs \<Rightarrow> (Inr (inject_static i (hr_override_existing r) hs headers), w)
      | OAuthClientCredentials c \<Rightarrow>
         (let key = ascii_lower (oc_header_name c) in
          if btm_get headers key \<noteq> None then (Inr ([], headers), w)
          else case hr_source r of
            None \<Rightarrow> (Inl (Err (sanitized_dynamic_auth_error (oc_header_name c) ''source initialization'')), w)
          | Some source \<Rightarrow>
             (case source w of
                (Inl _, w1) \<Rightarrow> (Inl (Err (sanitized_dynamic_auth_error (oc_header_name c) ''token acquisition'')), w1)
              | (Inr v, w1) \<Rightarrow> (Inr ([\<lparr>ih_name = key, ih_value = v, ih_rule = i\<rparr>], btm_insert key v headers), w1))))"

fun apply_rules_from ::
  "nat \<Rightarrow> 'w header_rule list \<Rightarrow> string \<Rightarrow> string \<Rightarrow> (string, string) btm \<Rightarrow> 'w \<Rightarrow> (injected_header list \<times> (string, string) btm) result \<times> 'w" where
  "apply_rules_from i [] host method headers w = (Inr ([], headers), w)"
| "apply_rules_from i (r # rs) host method headers w =
     (case rule_matches r host method of
        Inl e \<Rightarrow> (Inl e, w)
      | Inr False \<Rightarrow> apply_rules_from (Suc i) rs host method headers w
      | Inr True \<Rightarrow>
         bind_st (inject_rule i r headers w)
           (\<lambda>(injected, headers1) w1. bind_st (apply_rules_from (Suc i) rs host method headers1 w1)
             (\<lambda>(rest, headers2) w2. (Inr (injected @ rest, headers2), w2))))"

definition apply_header_rules_tracked ::
  "'w header_rule list \<Rightarrow> string \<Rightarrow> string \<Rightarrow> (string, string) btm \<Rightarrow> 'w \<Rightarrow> (injected_header list \<times> (string, string) btm) result \<times> 'w" where
  "apply_header_rules_tracked rules host method headers w = apply_rules_from 0 rules host method headers w"

definition apply_header_rules ::
  "'w header_rule list \<Rightarrow> string \<Rightarrow> string \<Rightarrow> (string, string) btm \<Rightarrow> 'w \<Rightarrow> (string, string) btm result \<times> 'w" where
  "apply_header_rules rules host method headers w =
     bind_st (apply_header_rules_tracked rules host method headers w) (\<lambda>(_, headers') w1. (Inr headers', w1))"

end
