(* ===== verification/Hook_Chain.thy ===== *)
theory Hook_Chain
  imports Hook_Policy Fetch_Rules
begin

text \<open>
  Hooks around an operation (\<open>src/server/src/engine/hooks.rs\<close>): pre hooks, the policy and post hooks in a row, or a stack of layers around
  the executor. Rego rules, remote hooks and JavaScript are arguments that may change the environment. The call of a
  JavaScript layer is a tree: it ends with a value or fails (an exception, or the deadline), or calls \<open>next\<close> and goes on by what it
  got; the deadline makes every call finite. The state around the environment is
  the value that the executor of a gate-only stack captures.
\<close>

section \<open>Data\<close>

record 'w hook_world =
  hw_env :: 'w
  hw_captured :: "json option"

definition in_env :: "('w \<Rightarrow> 'a \<times> 'w) \<Rightarrow> 'w hook_world \<Rightarrow> 'a \<times> 'w hook_world" where
  "in_env f w = (case f (hw_env w) of (x, e) \<Rightarrow> (x, w\<lparr>hw_env := e\<rparr>))"

datatype phase = Pre | Post

definition replacement_key :: "phase \<Rightarrow> string" where
  "replacement_key p = (case p of Pre \<Rightarrow> ''input'' | Post \<Rightarrow> ''output'')"

definition phase_name :: "phase \<Rightarrow> string" where
  "phase_name p = (case p of Pre \<Rightarrow> ''pre hook'' | Post \<Rightarrow> ''post hook'')"

definition wrong_key :: "phase \<Rightarrow> string" where
  "wrong_key p = (case p of Pre \<Rightarrow> ''output'' | Post \<Rightarrow> ''input'')"

record hook_result =
  hk_allow :: bool
  hk_reason :: "string option"
  hk_replacement :: "json option"

text \<open>The fields of a result.\<close>

definition allow_field :: "json option \<Rightarrow> bool result" where
  "allow_field v =
     (case v of None \<Rightarrow> Inr True | Some (JBool b) \<Rightarrow> Inr b | Some _ \<Rightarrow> Inl (Err ''hook result field allow must be a boolean''))"

definition reason_field :: "json option \<Rightarrow> string option result" where
  "reason_field v =
     (case v of None \<Rightarrow> Inr None | Some JNull \<Rightarrow> Inr None | Some (JStr s) \<Rightarrow> Inr (Some s)
      | Some _ \<Rightarrow> Inl (Err ''hook result field reason must be a string''))"

definition replacement_field :: "phase \<Rightarrow> json option \<Rightarrow> json option result" where
  "replacement_field p v =
     (case v of None \<Rightarrow> Inr None | Some JNull \<Rightarrow> Inr None | Some (JObj fs) \<Rightarrow> Inr (Some (JObj fs))
      | Some _ \<Rightarrow> Inl (Err (''hook result field '' @ quoted (replacement_key p) @ '' must be an object'')))"

definition parse_hook_result :: "json \<Rightarrow> phase \<Rightarrow> hook_result result" where
  "parse_hook_result raw p =
     (case raw of
        JBool allow \<Rightarrow> Inr \<lparr>hk_allow = allow, hk_reason = None, hk_replacement = None\<rparr>
      | JObj fs \<Rightarrow>
         bind_res (allow_field (btm_get fs ''allow''))
           (\<lambda>allow. bind_res (reason_field (btm_get fs ''reason''))
             (\<lambda>reason. if btm_get fs (wrong_key p) \<noteq> None
               then Inl (Err (''a '' @ phase_name p @ '' cannot set '' @ quoted (wrong_key p) @ '' (only '' @ quoted (replacement_key p) @ '')''))
               else bind_res (replacement_field p (btm_get fs (replacement_key p)))
                 (\<lambda>rep. Inr \<lparr>hk_allow = allow, hk_reason = reason, hk_replacement = rep\<rparr>)))
      | _ \<Rightarrow> Inl (Err ''hook must evaluate to a boolean or an object''))"

definition verify_operation :: "json \<Rightarrow> string \<Rightarrow> string \<Rightarrow> unit result" where
  "verify_operation effective expected op =
     (if (case json_get effective ''operation'' of None \<Rightarrow> None | Some v \<Rightarrow> as_str v) = Some expected then Inr ()
      else Inl (Err (op @ '': pre hook changed '' @ quoted ''operation'')))"

section \<open>Hooks\<close>

datatype 'w hook =
    HookLocal "'w evaluator"
  | HookJs "json list \<Rightarrow> 'w \<Rightarrow> json option result \<times> 'w"
  | HookRemote "'w evaluator"
  | HookPolicy "'w policy_chain"
  | FetchHeaderInject "'w header_rule list"

text \<open>A map of strings read from JSON, and written back.\<close>

fun string_fields :: "(string \<times> json) list \<Rightarrow> (string, string) btm option" where
  "string_fields [] = Some []"
| "string_fields ((k, v) # fs) =
     (case (as_str v, string_fields fs) of (Some s, Some m) \<Rightarrow> Some ((k, s) # m) | _ \<Rightarrow> None)"

definition string_map :: "json \<Rightarrow> (string, string) btm option" where
  "string_map v = (case as_object v of None \<Rightarrow> None | Some fs \<Rightarrow> string_fields fs)"

definition map_json :: "(string, string) btm \<Rightarrow> json" where
  "map_json m = JObj (map (\<lambda>(k, v). (k, JStr v)) m)"

definition text_at :: "json \<Rightarrow> string" where
  "text_at v = (case as_str v of None \<Rightarrow> [] | Some s \<Rightarrow> s)"

definition run_inject :: "'w header_rule list \<Rightarrow> json \<Rightarrow> json \<Rightarrow> string \<Rightarrow> 'w hook_world \<Rightarrow> (string + json) result \<times> 'w hook_world" where
  "run_inject rules payload current op w =
     (let host = text_at (json_at (json_at payload ''url_parsed'') ''host'');
          method = text_at (json_at payload ''method'') in
      case (case json_get payload ''headers'' of None \<Rightarrow> Some [] | Some v \<Rightarrow> string_map v) of
        None \<Rightarrow> (Inl (Err (op @ '': invalid headers in hook input'')), w)
      | Some headers \<Rightarrow>
         (case in_env (apply_header_rules_tracked rules host method headers) w of
            (Inl (Err e), w1) \<Rightarrow> (Inl (Err (op @ '': credential injection failed for host '' @ quoted host @ '': '' @ e)), w1)
          | (Inl (Panic m), w1) \<Rightarrow> (Inl (Panic m), w1)
          | (Inr (injected, headers1), w1) \<Rightarrow>
             if injected = [] then (Inr (Inr current), w1)
             else (bind_res (json_set ''headers'' (map_json headers1) current) (\<lambda>v. Inr (Inr v)), w1)))"

text \<open>The inner sum is a denial with its message, or the value to go on with.\<close>

definition run_answer :: "phase \<Rightarrow> json \<Rightarrow> string \<Rightarrow> bool \<Rightarrow> json option \<Rightarrow> (string + json) result" where
  "run_answer p current op allow_mutation answer =
     (case answer of
        None \<Rightarrow> Inr (Inr current)
      | Some raw \<Rightarrow>
         bind_res (parse_hook_result raw p)
           (\<lambda>r. if \<not> hk_allow r
             then Inr (Inl (''denied by '' @ phase_name p @ (case hk_reason r of None \<Rightarrow> [] | Some why \<Rightarrow> '' ('' @ why @ '')'')))
             else case hk_replacement r of
               None \<Rightarrow> Inr (Inr current)
             | Some v \<Rightarrow>
                if \<not> allow_mutation
                then Inl (Err (''a '' @ phase_name p @ '' attempted to mutate the '' @ replacement_key p @ '' for '' @ quoted op))
                else Inr (Inr v)))"

definition run_hook :: "'w hook \<Rightarrow> phase \<Rightarrow> json \<Rightarrow> json \<Rightarrow> string \<Rightarrow> bool \<Rightarrow> 'w hook_world \<Rightarrow> (string + json) result \<times> 'w hook_world" where
  "run_hook h p payload current op allow_mutation w =
     (case h of
        HookPolicy chain \<Rightarrow>
          bind_st (in_env (chain_evaluate chain payload) w)
            (\<lambda>allow w1. (Inr (if allow then Inr current else Inl ''denied by policy''), w1))
      | FetchHeaderInject rules \<Rightarrow> run_inject rules payload current op w
      | HookLocal eval \<Rightarrow> bind_st (in_env (eval payload) w) (\<lambda>a w1. (run_answer p current op allow_mutation a, w1))
      | HookJs eval \<Rightarrow>
          bind_st (in_env (eval (case p of Pre \<Rightarrow> [payload] | Post \<Rightarrow> [json_at payload ''input'', json_at payload ''output''])) w)
            (\<lambda>a w1. (run_answer p current op allow_mutation a, w1))
      | HookRemote eval \<Rightarrow> bind_st (in_env (eval payload) w) (\<lambda>a w1. (run_answer p current op allow_mutation a, w1)))"

section \<open>Chains\<close>

datatype 'w js_run =
    JsReturn "json option" 'w
  | JsFail string 'w
  | JsNext json 'w "string + json \<Rightarrow> 'w \<Rightarrow> 'w js_run"

datatype 'w layer =
    Gate "'w hook"
  | JsLayer "json \<Rightarrow> 'w \<Rightarrow> 'w js_run"
  | InjectSlot
  | VirtualJs string "json \<Rightarrow> 'w \<Rightarrow> json option result \<times> 'w"

record 'w hook_chain =
  hc_op :: string
  hc_pre :: "'w hook list"
  hc_post :: "'w hook list"
  hc_input_mutation :: bool
  hc_stack :: "'w layer list"

definition permissive :: "string \<Rightarrow> 'w hook_chain" where
  "permissive op = \<lparr>hc_op = op, hc_pre = [], hc_post = [], hc_input_mutation = False, hc_stack = []\<rparr>"

definition from_policy :: "string \<Rightarrow> 'w policy_chain \<Rightarrow> 'w hook_chain" where
  "from_policy op chain = \<lparr>hc_op = op, hc_pre = [HookPolicy chain], hc_post = [], hc_input_mutation = False, hc_stack = []\<rparr>"

definition has_post :: "'w hook_chain \<Rightarrow> bool" where "has_post c \<longleftrightarrow> hc_post c \<noteq> []"

definition has_stack :: "'w hook_chain \<Rightarrow> bool" where "has_stack c \<longleftrightarrow> hc_stack c \<noteq> []"

fun is_policy :: "'w hook \<Rightarrow> bool" where
  "is_policy (HookPolicy c) = True"
| "is_policy _ = False"

definition insert_pre_before_policy :: "'w hook \<Rightarrow> 'w hook_chain \<Rightarrow> 'w hook_chain" where
  "insert_pre_before_policy h c =
     (if hc_pre c \<noteq> [] \<and> is_policy (last (hc_pre c)) then c\<lparr>hc_pre := butlast (hc_pre c) @ [h, last (hc_pre c)]\<rparr>
      else c\<lparr>hc_pre := hc_pre c @ [h]\<rparr>)"

fun is_policy_gate :: "'w layer \<Rightarrow> bool" where
  "is_policy_gate (Gate h) = is_policy h"
| "is_policy_gate _ = False"

fun fill_slot :: "'w layer \<Rightarrow> 'w layer list \<Rightarrow> 'w layer list" where
  "fill_slot l (InjectSlot # ls) = l # ls"
| "fill_slot l (x # ls) = x # fill_slot l ls"
| "fill_slot l [] = []"

fun is_slot :: "'w layer \<Rightarrow> bool" where
  "is_slot InjectSlot = True"
| "is_slot _ = False"

definition attach_stack_header_rules :: "'w header_rule list \<Rightarrow> 'w hook_chain \<Rightarrow> 'w hook_chain" where
  "attach_stack_header_rules rules c =
     (let l = Gate (FetchHeaderInject rules) in
      if list_ex is_slot (hc_stack c) then c\<lparr>hc_stack := fill_slot l (hc_stack c)\<rparr>
      else c\<lparr>hc_stack := takeWhile (\<lambda>x. \<not> is_policy_gate x) (hc_stack c) @ l # dropWhile (\<lambda>x. \<not> is_policy_gate x) (hc_stack c)\<rparr>)"

subsection \<open>Pre and post hooks\<close>

datatype outcome_of = AllowValue json | DenyWith string

fun run_pre_hooks :: "string \<Rightarrow> bool \<Rightarrow> (json \<Rightarrow> json result) \<Rightarrow> 'w hook list \<Rightarrow> json \<Rightarrow> 'w hook_world \<Rightarrow> outcome_of result \<times> 'w hook_world" where
  "run_pre_hooks op mut normal [] current w = (Inr (AllowValue current), w)"
| "run_pre_hooks op mut normal (h # hs) current w =
     bind_st (run_hook h Pre current current op mut w)
       (\<lambda>res w1. case res of
          Inl deny \<Rightarrow> (Inr (DenyWith deny), w1)
        | Inr v \<Rightarrow> bind_st (if v \<noteq> current then (normal v, w1) else (Inr v, w1)) (\<lambda>v' w2. run_pre_hooks op mut normal hs v' w2))"

definition run_pre_with :: "'w hook_chain \<Rightarrow> json \<Rightarrow> (json \<Rightarrow> json result) \<Rightarrow> 'w hook_world \<Rightarrow> outcome_of result \<times> 'w hook_world" where
  "run_pre_with c input normal w = run_pre_hooks (hc_op c) (hc_input_mutation c) normal (hc_pre c) input w"

definition run_pre :: "'w hook_chain \<Rightarrow> json \<Rightarrow> 'w hook_world \<Rightarrow> outcome_of result \<times> 'w hook_world" where
  "run_pre c input w = run_pre_with c input Inr w"

fun run_post_hooks :: "string \<Rightarrow> json \<Rightarrow> 'w hook list \<Rightarrow> json \<Rightarrow> 'w hook_world \<Rightarrow> outcome_of result \<times> 'w hook_world" where
  "run_post_hooks op input [] current w = (Inr (AllowValue current), w)"
| "run_post_hooks op input (h # hs) current w =
     bind_st (run_hook h Post (JObj [(''input'', input), (''output'', current)]) current op True w)
       (\<lambda>res w1. case res of Inl deny \<Rightarrow> (Inr (DenyWith deny), w1) | Inr v \<Rightarrow> run_post_hooks op input hs v w1)"

definition run_post :: "'w hook_chain \<Rightarrow> json \<Rightarrow> json \<Rightarrow> 'w hook_world \<Rightarrow> outcome_of result \<times> 'w hook_world" where
  "run_post c input out w = run_post_hooks (hc_op c) input (hc_post c) out w"

subsection \<open>Stacks\<close>

text \<open>The loop that serves a JavaScript layer: \<open>descend\<close> calls the layers below.\<close>

definition checked_input :: "(json \<Rightarrow> json result) \<Rightarrow> string \<Rightarrow> string \<Rightarrow> json \<Rightarrow> json result" where
  "checked_input normal identity op v =
     bind_res (normal v) (\<lambda>v'. bind_res (verify_operation v' identity op) (\<lambda>_. Inr v'))"

primrec drive_js :: "(json \<Rightarrow> 'w hook_world \<Rightarrow> json result \<times> 'w hook_world) \<Rightarrow> (json \<Rightarrow> json result) \<Rightarrow> 'w js_run \<Rightarrow> 'w hook_world
   \<Rightarrow> json result \<times> 'w hook_world" where
  "drive_js descend check (JsReturn v e) w = (Inr (or_default JNull v), w\<lparr>hw_env := e\<rparr>)"
| "drive_js descend check (JsFail m e) w = (Inl (Err m), w\<lparr>hw_env := e\<rparr>)"
| "drive_js descend check (JsNext input e k) w =
     (case (case check input of Inl err \<Rightarrow> (Inl err, w\<lparr>hw_env := e\<rparr>) | Inr v \<Rightarrow> descend v (w\<lparr>hw_env := e\<rparr>)) of
        (Inl (Panic m), w1) \<Rightarrow> (Inl (Panic m), w1)
      | (Inl (Err m), w1) \<Rightarrow> drive_js descend check (k (Inl m) (hw_env w1)) w1
      | (Inr v, w1) \<Rightarrow> drive_js descend check (k (Inr v) (hw_env w1)) w1)"

type_synonym 'w executor = "json \<Rightarrow> 'w hook_world \<Rightarrow> json result \<times> 'w hook_world"

primrec call_layer :: "string \<Rightarrow> bool \<Rightarrow> (json \<Rightarrow> json result) \<Rightarrow> 'w executor \<Rightarrow> string \<Rightarrow> 'w layer list \<Rightarrow> json \<Rightarrow> 'w hook_world
   \<Rightarrow> json result \<times> 'w hook_world" where
  "call_layer op mut normal executor identity [] input w = executor input w"
| "call_layer op mut normal executor identity (l # ls) input w =
     (case l of
        InjectSlot \<Rightarrow> call_layer op mut normal executor identity ls input w
      | VirtualJs path eval \<Rightarrow>
          bind_st (in_env (eval input) w)
            (\<lambda>v w1. (case v of
                None \<Rightarrow> Inl (Err (''JS executor '' @ quoted path @ '' returned no output''))
              | Some out \<Rightarrow> if is_object out then Inr out else Inl (Err (op @ '': virtual executor '' @ quoted path @ '' must return an object'')), w1))
      | Gate h \<Rightarrow>
          bind_st (run_hook h Pre input input op mut w)
            (\<lambda>res w1. case res of
               Inl deny \<Rightarrow> (Inl (Err (op @ '': '' @ deny)), w1)
             | Inr v \<Rightarrow>
                bind_st (if v \<noteq> input then (checked_input normal identity op v, w1) else (Inr v, w1))
                  (\<lambda>v' w2. call_layer op mut normal executor identity ls v' w2))
      | JsLayer f \<Rightarrow>
          drive_js (call_layer op mut normal executor identity ls) (checked_input normal identity op) (f input (hw_env w)) w)"

definition operation_of :: "json \<Rightarrow> string" where
  "operation_of input = (case json_get input ''operation'' of None \<Rightarrow> [] | Some v \<Rightarrow> text_at v)"

definition run_stack :: "'w hook_chain \<Rightarrow> json \<Rightarrow> (json \<Rightarrow> json result) \<Rightarrow> 'w executor \<Rightarrow> 'w hook_world \<Rightarrow> json result \<times> 'w hook_world" where
  "run_stack c input normal executor w =
     call_layer (hc_op c) (hc_input_mutation c) normal executor (operation_of input) (hc_stack c) input w"

definition capture :: "string \<Rightarrow> 'w executor" where
  "capture op v w =
     (if hw_captured w \<noteq> None then (Inl (Err (op @ '': gate-only stack, the executor may be reached only once'')), w)
      else (Inr JNull, w\<lparr>hw_captured := Some v\<rparr>))"

definition run_stack_gate :: "'w hook_chain \<Rightarrow> json \<Rightarrow> (json \<Rightarrow> json result) \<Rightarrow> 'w hook_world \<Rightarrow> json result \<times> 'w hook_world" where
  "run_stack_gate c input normal w =
     bind_st (run_stack c input normal (capture (hc_op c)) (w\<lparr>hw_captured := None\<rparr>))
       (\<lambda>out w1. if out \<noteq> JNull then (Inl (Err (hc_op c @ '': gate-only stack, this operation has no layered output'')), w1)
         else case hw_captured w1 of
           None \<Rightarrow> (Inl (Err (hc_op c @ '': stack completed without reaching @execute'')), w1)
         | Some effective \<Rightarrow>
            if \<not> hc_input_mutation c \<and> effective \<noteq> input
            then (Inl (Err (''a layer attempted to mutate the input for '' @ quoted (hc_op c))), w1)
            else (Inr effective, w1))"

definition run_stack_full :: "'w hook_chain \<Rightarrow> json \<Rightarrow> (json \<Rightarrow> json result) \<Rightarrow> 'w executor \<Rightarrow> 'w hook_world \<Rightarrow> json result \<times> 'w hook_world" where
  "run_stack_full c input normal executor w =
     bind_st (run_stack c input normal executor w)
       (\<lambda>out w1. if \<not> is_object out then (Inl (Err (hc_op c @ '': stack produced no output'')), w1) else (Inr out, w1))"

end
