(* ===== verification/Hook_Build.thy ===== *)
theory Hook_Build
  imports Hook_Chain
begin

text \<open>
  How the chain of an operation is built from its configuration (\<open>build_hook_chain\<close> and \<open>build_stack_chain\<close> in
  \<open>src/server/src/engine/hooks.rs\<close>). Reading files and starting the engines are arguments.
\<close>

section \<open>Configuration\<close>

record hook_source =
  hs_url :: string
  hs_policy_path :: "string option"
  hs_rule :: "string option"
  hs_timeout_ms :: "u64 option"
  hs_capabilities :: "string list option"

datatype stack_entry = Builtin string | Execute hook_source | Source hook_source

record hook_caps =
  cp_input_mutation :: bool
  cp_post :: bool

record operation_policies =
  op_mode :: eval_mode
  op_policies :: "policy_source list"
  op_pre :: "hook_source list"
  op_post :: "hook_source list"
  op_stack :: "stack_entry list"

record js_file =
  jf_path :: string
  jf_source :: string
  jf_function :: string
  jf_timeout_ms :: u64
  jf_capabilities :: "string list"

record 'w hook_loader = "'w policy_loader" +
  hl_rego :: "string \<Rightarrow> string \<Rightarrow> 'w evaluator result"
  hl_remote :: "string \<Rightarrow> string \<Rightarrow> 'w evaluator"
  hl_read :: "string \<Rightarrow> string result"
  hl_js :: "js_file \<Rightarrow> json list \<Rightarrow> 'w \<Rightarrow> json option result \<times> 'w"
  hl_layer :: "js_file \<Rightarrow> json \<Rightarrow> 'w \<Rightarrow> 'w js_run"
  hl_executor :: "js_file \<Rightarrow> json \<Rightarrow> 'w \<Rightarrow> json option result \<times> 'w"

abbreviation policies_of :: "'w hook_loader \<Rightarrow> 'w policy_loader" where
  "policies_of L \<equiv> policy_loader.truncate L"

section \<open>Sources\<close>

fun path_pieces :: "string \<Rightarrow> string list" where
  "path_pieces [] = [[]]"
| "path_pieces (c # cs) = (if c = CHR ''/'' then [] # path_pieces cs else case path_pieces cs of [] \<Rightarrow> [[c]] | p # ps \<Rightarrow> (c # p) # ps)"

text \<open>\<open>Path::extension\<close>: what follows the last dot of the file name, if something comes before it.\<close>

definition path_extension :: "string \<Rightarrow> string option" where
  "path_extension path =
     (let names = filter (\<lambda>p. p \<noteq> [] \<and> p \<noteq> ''.'') (path_pieces path) in
      if names = [] \<or> last names = ''..'' then None
      else (let name = last names; ext = rev (takeWhile (\<lambda>c. c \<noteq> CHR ''.'') (rev name)) in
        if CHR ''.'' \<notin> set name \<or> length ext + 1 = length name then None else Some ext))"

definition is_js :: "string \<Rightarrow> bool" where
  "is_js url \<longleftrightarrow> (case file_path url of None \<Rightarrow> False | Some p \<Rightarrow> path_extension p = Some ''js'')"

definition JS_HOOK_CAPABILITIES :: "string list" where
  "JS_HOOK_CAPABILITIES = [''fs'', ''fetch'']"

definition JS_HOOK_DEFAULT_TIMEOUT_MS :: u64 where "JS_HOOK_DEFAULT_TIMEOUT_MS = 5000"

definition JS_LAYER_DEFAULT_TIMEOUT_MS :: u64 where "JS_LAYER_DEFAULT_TIMEOUT_MS = 30000"

definition js_from_file :: "'w hook_loader \<Rightarrow> string \<Rightarrow> string \<Rightarrow> u64 \<Rightarrow> string list \<Rightarrow> js_file result" where
  "js_from_file L path function_name timeout caps =
     (case List.find (\<lambda>c. c \<notin> set JS_HOOK_CAPABILITIES) caps of
        Some c \<Rightarrow> Inl (Err (''JS hook '' @ quoted path @ '': unknown capability '' @ quoted c))
      | None \<Rightarrow> bind_res (hl_read L path)
          (\<lambda>src. Inr \<lparr>jf_path = path, jf_source = src, jf_function = function_name, jf_timeout_ms = timeout, jf_capabilities = caps\<rparr>))"

definition build_hook :: "'w hook_loader \<Rightarrow> hook_source \<Rightarrow> string \<Rightarrow> string \<Rightarrow> phase \<Rightarrow> 'w hook result" where
  "build_hook L src default_remote_path default_local_rule p =
     (if \<not> is_js (hs_url src) \<and> hs_capabilities src \<noteq> None
      then Inl (Err (''Hook '' @ quoted (hs_url src) @ '': capabilities is only supported for JavaScript (file://*.js) hooks''))
      else if is_http (hs_url src) then Inr (HookRemote (hl_remote L (hs_url src) (or_default default_remote_path (hs_policy_path src))))
      else case file_path (hs_url src) of
        Some path \<Rightarrow>
          if is_js (hs_url src)
          then bind_res (js_from_file L path (or_default (case p of Pre \<Rightarrow> ''pre'' | Post \<Rightarrow> ''post'') (hs_rule src))
                 (or_default JS_HOOK_DEFAULT_TIMEOUT_MS (hs_timeout_ms src)) (or_default [] (hs_capabilities src))) (\<lambda>f. Inr (HookJs (hl_js L f)))
          else bind_res (hl_rego L path (or_default default_local_rule (hs_rule src))) (\<lambda>e. Inr (HookLocal e))
      | None \<Rightarrow> Inl (Err (''Unsupported hook URL scheme: '' @ quoted (hs_url src) @ ''. Use http://, https://, or file://'')))"

definition strip_suffix :: "string \<Rightarrow> string \<Rightarrow> string option" where
  "strip_suffix s suffix = (if ends_with s suffix then Some (take (length s - length suffix) s) else None)"

definition phase_defaults :: "string \<Rightarrow> string \<Rightarrow> phase \<Rightarrow> string \<times> string" where
  "phase_defaults default_remote_path default_local_rule p =
     (let suffix = (case p of Pre \<Rightarrow> ''pre'' | Post \<Rightarrow> ''post'') in
      (default_remote_path @ ''/'' @ suffix,
       (case strip_suffix default_local_rule ''.allow'' of Some prefix \<Rightarrow> prefix | None \<Rightarrow> default_local_rule) @ ''.'' @ suffix))"

fun build_hooks :: "'w hook_loader \<Rightarrow> string \<Rightarrow> string \<Rightarrow> phase \<Rightarrow> hook_source list \<Rightarrow> 'w hook list result" where
  "build_hooks L rp lr p [] = Inr []"
| "build_hooks L rp lr p (s # ss) = bind_res (build_hook L s rp lr p) (\<lambda>h. bind_res (build_hooks L rp lr p ss) (\<lambda>hs. Inr (h # hs)))"

section \<open>Stacks\<close>

record 'w stack_state =
  sk_layers :: "'w layer list"
  sk_js_paths :: "string list"
  sk_policy :: bool
  sk_inject :: bool
  sk_execute :: bool

definition stack_error :: "string \<Rightarrow> string \<Rightarrow> 'a result" where
  "stack_error op m = Inl (Err (''stack for '' @ quoted op @ '': '' @ m))"

definition js_layer_file ::
  "'w hook_loader \<Rightarrow> string \<Rightarrow> hook_source \<Rightarrow> string list \<Rightarrow> js_file result" where
  "js_layer_file L op src paths =
     (let path = the (file_path (hs_url src)) in
      if path \<in> set paths then stack_error op (''JS file '' @ quoted path @ '' appears more than once'')
      else js_from_file L path (or_default ''handle'' (hs_rule src)) (or_default JS_LAYER_DEFAULT_TIMEOUT_MS (hs_timeout_ms src))
        (or_default [] (hs_capabilities src)))"

definition add_layer :: "'w layer \<Rightarrow> 'w stack_state \<Rightarrow> 'w stack_state" where
  "add_layer l st = st\<lparr>sk_layers := sk_layers st @ [l]\<rparr>"

definition stack_step ::
  "'w hook_loader \<Rightarrow> string \<Rightarrow> operation_policies \<Rightarrow> string \<Rightarrow> string \<Rightarrow> stack_entry \<Rightarrow> 'w stack_state \<Rightarrow> 'w stack_state result" where
  "stack_step L op cfg default_remote_path default_local_rule entry st =
     (if sk_execute st then stack_error op ''@execute must be the last entry''
      else case entry of
        Execute src \<Rightarrow>
          if op \<notin> {''fetch'', ''subprocess'', ''mcp_tools''} then stack_error op ''a virtual executor requires a layered output document''
          else if \<not> is_js (hs_url src) then stack_error op ''a virtual executor must be a JavaScript (file://*.js) source''
          else bind_res (js_layer_file L op src (sk_js_paths st))
            (\<lambda>f. Inr ((add_layer (VirtualJs (jf_path f) (hl_executor L f)) st)\<lparr>sk_js_paths := sk_js_paths st @ [jf_path f], sk_execute := True\<rparr>))
      | Builtin name \<Rightarrow>
          if name = ''@execute'' then Inr (st\<lparr>sk_execute := True\<rparr>)
          else if name = ''@policy''
          then (if sk_policy st then stack_error op ''duplicate @policy''
            else if op_policies cfg = [] then stack_error op ''@policy requires a non-empty policies list''
            else bind_res (build_policy_chain (policies_of L) (op_mode cfg) (op_policies cfg) default_remote_path default_local_rule)
              (\<lambda>c. Inr ((add_layer (Gate (HookPolicy c)) st)\<lparr>sk_policy := True\<rparr>)))
          else if name = ''@inject''
          then (if op \<noteq> ''fetch'' then stack_error op ''@inject is a fetch built-in (header injection)''
            else if sk_inject st then stack_error op ''duplicate @inject''
            else Inr ((add_layer InjectSlot st)\<lparr>sk_inject := True\<rparr>))
          else stack_error op (''unknown built-in '' @ quoted name)
      | Source src \<Rightarrow>
          if is_js (hs_url src)
          then bind_res (js_layer_file L op src (sk_js_paths st))
            (\<lambda>f. Inr ((add_layer (JsLayer (hl_layer L f)) st)\<lparr>sk_js_paths := sk_js_paths st @ [jf_path f]\<rparr>))
          else (case phase_defaults default_remote_path default_local_rule Pre of (rp, lr) \<Rightarrow>
            bind_res (build_hook L src rp lr Pre) (\<lambda>h. Inr (add_layer (Gate h) st))))"

fun ends_virtual :: "'w layer list \<Rightarrow> bool" where
  "ends_virtual [] = False"
| "ends_virtual [VirtualJs _ _] = True"
| "ends_virtual (_ # ls) = ends_virtual ls"

definition build_stack_chain ::
  "'w hook_loader \<Rightarrow> string \<Rightarrow> operation_policies \<Rightarrow> string \<Rightarrow> string \<Rightarrow> hook_caps \<Rightarrow> 'w hook_chain result" where
  "build_stack_chain L op cfg default_remote_path default_local_rule caps =
     bind_res (fold_res (stack_step L op cfg default_remote_path default_local_rule) (op_stack cfg)
         \<lparr>sk_layers = [], sk_js_paths = [], sk_policy = False, sk_inject = False, sk_execute = False\<rparr>)
       (\<lambda>st. if \<not> sk_execute st then stack_error op ''@execute (or a virtual execute entry) is required as the last entry''
         else bind_res
           (if \<not> sk_policy st \<and> op_policies cfg \<noteq> []
            then bind_res (build_policy_chain (policies_of L) (op_mode cfg) (op_policies cfg) default_remote_path default_local_rule)
              (\<lambda>c. Inr (if ends_virtual (sk_layers st) then butlast (sk_layers st) @ [Gate (HookPolicy c), last (sk_layers st)]
                else sk_layers st @ [Gate (HookPolicy c)]))
            else Inr (sk_layers st))
           (\<lambda>ls. Inr \<lparr>hc_op = op, hc_pre = [], hc_post = [], hc_input_mutation = cp_input_mutation caps, hc_stack = ls\<rparr>))"

definition build_hook_chain ::
  "'w hook_loader \<Rightarrow> string \<Rightarrow> operation_policies \<Rightarrow> string \<Rightarrow> string \<Rightarrow> hook_caps \<Rightarrow> 'w hook_chain result" where
  "build_hook_chain L op cfg default_remote_path default_local_rule caps =
     (if \<not> cp_post caps \<and> op_post cfg \<noteq> [] then Inl (Err (''post hooks are not supported for operation '' @ quoted op))
      else if op_stack cfg \<noteq> []
      then (if op_pre cfg \<noteq> [] \<or> op_post cfg \<noteq> [] then Inl (Err ''stack is mutually exclusive with pre/post'')
        else build_stack_chain L op cfg default_remote_path default_local_rule caps)
      else
       (case (phase_defaults default_remote_path default_local_rule Pre, phase_defaults default_remote_path default_local_rule Post) of
          ((pre_remote, pre_rule), (post_remote, post_rule)) \<Rightarrow>
           bind_res (build_hooks L pre_remote pre_rule Pre (op_pre cfg))
             (\<lambda>pre. bind_res
               (if op_policies cfg \<noteq> []
                then bind_res (build_policy_chain (policies_of L) (op_mode cfg) (op_policies cfg) default_remote_path default_local_rule)
                  (\<lambda>c. Inr (pre @ [HookPolicy c]))
                else Inr pre)
               (\<lambda>pre. bind_res (build_hooks L post_remote post_rule Post (op_post cfg))
                 (\<lambda>post. Inr \<lparr>hc_op = op, hc_pre = pre, hc_post = post, hc_input_mutation = cp_input_mutation caps, hc_stack = []\<rparr>)))))"

end
