(* ===== verification/Base64.thy ===== *)
theory Base64
  imports Prelude
begin

text \<open>
  The base64 codec of request and response bodies (\<open>src/server/src/engine/fetch.rs\<close>). Encoding takes groups of three bytes; decoding
  shifts six bits at a time through a 32-bit buffer, whose upper bits are lost, ends at the padding and skips white space.
\<close>

section \<open>The codec\<close>

definition B64_TABLE :: string where
  "B64_TABLE = ''ABCDEFGHIJKLMNOPQRSTUVWXYZabcdefghijklmnopqrstuvwxyz0123456789+/''"

definition b64_char :: "u32 \<Rightarrow> char" where
  "b64_char v = B64_TABLE ! unat (and v 63)"

definition b64_group :: "byte \<Rightarrow> byte \<Rightarrow> byte \<Rightarrow> u32" where
  "b64_group b0 b1 b2 = or (or (push_bit 16 (ucast b0)) (push_bit 8 (ucast b1))) (ucast b2)"

fun b64_encode :: "byte list \<Rightarrow> string" where
  "b64_encode [] = []"
| "b64_encode [b0] = (let n = b64_group b0 0 0 in [b64_char (drop_bit 18 n), b64_char (drop_bit 12 n), CHR ''='', CHR ''=''])"
| "b64_encode [b0, b1] =
     (let n = b64_group b0 b1 0 in [b64_char (drop_bit 18 n), b64_char (drop_bit 12 n), b64_char (drop_bit 6 n), CHR ''=''])"
| "b64_encode (b0 # b1 # b2 # bs) =
     (let n = b64_group b0 b1 b2 in
      [b64_char (drop_bit 18 n), b64_char (drop_bit 12 n), b64_char (drop_bit 6 n), b64_char n] @ b64_encode bs)"

definition b64_val :: "char \<Rightarrow> u32 option" where
  "b64_val c =
     (let k = (of_char c :: nat) in
      if 65 \<le> k \<and> k \<le> 90 then Some (of_nat (k - 65))
      else if 97 \<le> k \<and> k \<le> 122 then Some (of_nat (k - 97 + 26))
      else if 48 \<le> k \<and> k \<le> 57 then Some (of_nat (k - 48 + 52))
      else if c = CHR ''+'' then Some 62
      else if c = CHR ''/'' then Some 63
      else None)"

fun b64_loop :: "string \<Rightarrow> u32 \<Rightarrow> nat \<Rightarrow> byte list \<Rightarrow> byte list result" where
  "b64_loop [] buf bits out = Inr out"
| "b64_loop (c # cs) buf bits out =
     (if c = CHR ''='' then Inr out
      else if (of_char c :: nat) \<in> {9, 10, 13, 32} then b64_loop cs buf bits out
      else case b64_val c of
        None \<Rightarrow> Inl (Err ''fetch: invalid base64 in body'')
      | Some v \<Rightarrow>
         (let buf = or (push_bit 6 buf) v; bits = bits + 6 in
          if 8 \<le> bits then b64_loop cs buf (bits - 8) (out @ [ucast (drop_bit (bits - 8) buf)])
          else b64_loop cs buf bits out))"

definition b64_decode :: "string \<Rightarrow> byte list result" where
  "b64_decode s = b64_loop s 0 0 []"

section \<open>Round trip\<close>

lemma b64_all: "\<forall>i \<in> set [0..<64]. b64_val (B64_TABLE ! i) = Some (of_nat i) \<and> (of_char (B64_TABLE ! i) :: nat) \<notin> {9, 10, 13, 32, 61}"
  by (simp add: B64_TABLE_def b64_val_def upt_rec)

lemma six_bits: "unat (and v 63 :: u32) < 64"
proof -
  have "and v 63 = take_bit 6 v" by (simp add: take_bit_eq_mask mask_eq_exp_minus_1)
  then show ?thesis using take_bit_nat_less_exp [of 6 "unat v"] by (simp add: unsigned_take_bit_eq)
qed

definition b64_shift :: "u32 \<Rightarrow> u32 \<Rightarrow> u32" where
  "b64_shift buf v = or (push_bit 6 buf) (and v 63)"

lemma b64_step:
  "b64_loop (b64_char v # cs) buf bits out =
     (let buf = b64_shift buf v; bits = bits + 6 in
      if 8 \<le> bits then b64_loop cs buf (bits - 8) (out @ [ucast (drop_bit (bits - 8) buf)]) else b64_loop cs buf bits out)"
proof -
  have "b64_val (b64_char v) = Some (and v 63)" "(of_char (b64_char v) :: nat) \<notin> {9, 10, 13, 32, 61}"
    using b64_all six_bits [of v] by (auto simp: b64_char_def)
  then show ?thesis by (auto simp: Let_def b64_shift_def)
qed

text \<open>A group of four characters gives back its bytes, whatever is left in the buffer.\<close>

lemma low_six: "and v 63 = (take_bit 6 v :: u32)"
  by (simp add: take_bit_eq_mask mask_eq_exp_minus_1)

lemma below8: "k < 8 \<longleftrightarrow> k \<in> {0, 1, 2, 3, 4, 5, 6, 7::nat}"
  by auto

lemma byte_high: "8 \<le> k \<Longrightarrow> \<not> bit (b :: byte) k"
  using bit_imp_le_length [of b k] by auto

lemma group_bytes:
  fixes buf :: u32 and b0 b1 b2 :: byte
  defines "n \<equiv> b64_group b0 b1 b2"
  shows "ucast (drop_bit 4 (b64_shift (b64_shift buf (drop_bit 18 n)) (drop_bit 12 n))) = b0"
    and "ucast (drop_bit 2 (b64_shift (b64_shift buf (drop_bit 12 n)) (drop_bit 6 n))) = b1"
    and "ucast (b64_shift (b64_shift buf (drop_bit 6 n)) n) = b2"
  unfolding n_def b64_group_def b64_shift_def low_six
  by (rule bit_word_eqI, simp add: below8, elim disjE; simp add: bit_simps byte_high)+

lemma b64_pad: "b64_loop (CHR ''='' # cs) buf bits out = Inr out"
  by simp

lemma b64_round_trip_loop: "b64_loop (b64_encode bs) buf 0 out = Inr (out @ bs)"
proof (induction bs arbitrary: buf out rule: b64_encode.induct)
  case (2 b0)
  then show ?case by (simp add: Let_def b64_step b64_pad group_bytes del: b64_loop.simps)
next
  case (3 b0 b1)
  then show ?case by (simp add: Let_def b64_step b64_pad group_bytes del: b64_loop.simps)
next
  case (4 b0 b1 b2 bs)
  then show ?case by (simp add: Let_def b64_step group_bytes del: b64_loop.simps)
qed simp

lemma b64_loop_spaces: "b64_loop (filter (\<lambda>c. (of_char c :: nat) \<notin> {9, 10, 13, 32}) s) buf bits out = b64_loop s buf bits out"
proof (induction s arbitrary: buf bits out)
  case (Cons c cs)
  then show ?case
    by (cases "(of_char c :: nat) \<in> {9, 10, 13, 32}") (auto simp: Let_def split: option.splits)
qed simp

text \<open>C39. A body that is encoded and decoded comes back unchanged, also when white space was put between the characters on the way.\<close>

theorem body_round_trip:
  assumes "filter (\<lambda>c. (of_char c :: nat) \<notin> {9, 10, 13, 32}) s = b64_encode bs"
  shows "b64_decode s = Inr bs"
  using b64_loop_spaces [of s 0 0 "[]"] b64_round_trip_loop [of bs 0 "[]"] unfolding assms b64_decode_def by simp

theorem body_round_trip_witness: "b64_encode [104, 105] = ''aGk='' \<and> b64_decode ''aG k='' = Inr [104, 105]"
proof -
  have enc: "b64_encode [104, 105] = ''aGk=''" by code_simp
  have "filter (\<lambda>c. (of_char c :: nat) \<notin> {9, 10, 13, 32}) ''aG k='' = b64_encode [104, 105]" unfolding enc by simp
  from body_round_trip [OF this] enc show ?thesis by simp
qed

end
