(* ===== verification/Fetch_Op.thy ===== *)
theory Fetch_Op
  imports Hook_Build Base64
begin

text \<open>
  The operation \<open>fetch\<close> (\<open>do_fetch\<close> in \<open>src/server/src/engine/fetch.rs\<close>): the request as the document that hooks and policy see, the chain
  or the stack around it, and the executor that sends the effective request. The URL parser, the decoder of the headers and the
  HTTP client are arguments.
\<close>

record parsed_url =
  ur_scheme :: string
  ur_host :: "string option"
  ur_port :: "nat option"
  ur_path :: string
  ur_query :: "string option"

definition url_json :: "parsed_url \<Rightarrow> json" where
  "url_json u = JObj
     [(''host'', JStr (or_default [] (ur_host u))), (''path'', JStr (ur_path u)),
      (''port'', case ur_port u of None \<Rightarrow> JNull | Some n \<Rightarrow> JNum (int n)),
      (''query'', JStr (or_default [] (ur_query u))), (''scheme'', JStr (ur_scheme u))]"

type_synonym url_parser = "string \<Rightarrow> string + parsed_url"

definition fetch_input :: "string \<Rightarrow> string \<Rightarrow> (string, string) btm \<Rightarrow> parsed_url \<Rightarrow> json" where
  "fetch_input url method headers u = JObj
     [(''headers'', map_json headers), (''method'', JStr method), (''operation'', JStr ''fetch''), (''url'', JStr url), (''url_parsed'', url_json u)]"

definition normalize_fetch_input :: "url_parser \<Rightarrow> json \<Rightarrow> json result" where
  "normalize_fetch_input parse v =
     (case (case json_get v ''url'' of None \<Rightarrow> None | Some x \<Rightarrow> as_str x) of
        None \<Rightarrow> Inl (Err ''fetch: pre hook produced an input without a string url'')
      | Some url \<Rightarrow>
         (case parse url of
            Inl e \<Rightarrow> Inl (Err (''fetch: pre hook produced invalid URL '' @ quoted url @ '': '' @ e))
          | Inr u \<Rightarrow> json_set ''url_parsed'' (url_json u) v))"

text \<open>The request that is sent for an effective input.\<close>

record fetch_request =
  fr_url :: string
  fr_method :: string
  fr_headers :: "(string, string) btm"

definition effective_request :: "json \<Rightarrow> fetch_request option" where
  "effective_request v =
     (case (as_str (json_at v ''url''), as_str (json_at v ''method''), string_map (json_at v ''headers'')) of
        (Some url, Some method, Some headers) \<Rightarrow> Some \<lparr>fr_url = url, fr_method = method, fr_headers = headers\<rparr>
      | _ \<Rightarrow> None)"

text \<open>The HTTP client: what is wrong with a method, if anything, and a request with its body. A header value that is not text counts as empty.\<close>

record http_response =
  hp_status :: nat
  hp_reason :: "string option"
  hp_url :: string
  hp_headers :: "(string \<times> string option) list"
  hp_body :: "string + byte list"

record 'w http_client =
  ht_method_error :: "string \<Rightarrow> string option"
  ht_send :: "fetch_request \<Rightarrow> byte list option \<Rightarrow> 'w \<Rightarrow> (string + http_response) \<times> 'w"

definition response_json :: "http_response \<Rightarrow> byte list \<Rightarrow> json" where
  "response_json resp body = JObj
     [(''body'', JStr (b64_encode body)), (''bodyEncoding'', JStr ''base64''),
      (''headers'', map_json (fold (\<lambda>(k, v). btm_insert k (or_default [] v)) (hp_headers resp) [])), (''redirected'', JBool False),
      (''status'', JNum (int (hp_status resp))), (''statusText'', JStr (or_default [] (hp_reason resp))), (''url'', JStr (hp_url resp))]"

definition execute_fetch_request :: "'w http_client \<Rightarrow> string option \<Rightarrow> json \<Rightarrow> 'w \<Rightarrow> json result \<times> 'w" where
  "execute_fetch_request client body effective e =
     (case effective_request effective of
        None \<Rightarrow> (Inl (Err ''fetch: invalid effective input after pre hooks''), e)
      | Some req \<Rightarrow>
         (case ht_method_error client (fr_method req) of
            Some m \<Rightarrow> (Inl (Err (''fetch: invalid method '' @ quoted (fr_method req) @ '': '' @ m)), e)
          | None \<Rightarrow>
             bind_st (case body of None \<Rightarrow> Inr None | Some b \<Rightarrow> bind_res (b64_decode b) (\<lambda>data. Inr (Some data)), e)
               (\<lambda>data e. case ht_send client req data e of
                  (Inl m, e1) \<Rightarrow> (Inl (Err (''fetch: request failed: '' @ m)), e1)
                | (Inr resp, e1) \<Rightarrow>
                   (case hp_body resp of
                      Inl m \<Rightarrow> (Inl (Err (''fetch: failed to read response body: '' @ m)), e1)
                    | Inr bytes \<Rightarrow> (Inr (response_json resp bytes), e1)))))"

definition fetch_executor :: "'w http_client \<Rightarrow> string option \<Rightarrow> 'w executor" where
  "fetch_executor client body v w = in_env (execute_fetch_request client body v) w"

definition with_header_rules :: "'w header_rule list \<Rightarrow> 'w hook_chain \<Rightarrow> 'w hook_chain" where
  "with_header_rules rules c =
     (if rules = [] then c
      else if has_stack c then attach_stack_header_rules rules c
      else insert_pre_before_policy (FetchHeaderInject rules) c)"

definition do_fetch ::
  "url_parser \<Rightarrow> (string \<Rightarrow> (string, string) btm result) \<Rightarrow> 'w http_client \<Rightarrow> string \<Rightarrow> string \<Rightarrow> string \<Rightarrow> string option \<Rightarrow> 'w hook_chain
   \<Rightarrow> 'w hook_world \<Rightarrow> json result \<times> 'w hook_world" where
  "do_fetch parse read_headers send url method headers_json body hooks w =
     bind_st (read_headers headers_json, w)
       (\<lambda>headers w. bind_st (case parse url of Inl e \<Rightarrow> (Inl (Err (''fetch: invalid URL '' @ quoted url @ '': '' @ e)), w) | Inr u \<Rightarrow> (Inr u, w))
         (\<lambda>u w. let input = fetch_input url method headers u in
           if has_stack hooks then run_stack_full hooks input (normalize_fetch_input parse) (fetch_executor send body) w
           else bind_st (run_pre_with hooks input (normalize_fetch_input parse) w)
             (\<lambda>res w1. case res of
                DenyWith deny \<Rightarrow> (Inl (Err (''fetch '' @ deny @ '': '' @ method @ '' '' @ url @ '' is not allowed'')), w1)
              | AllowValue v \<Rightarrow>
                 bind_st (verify_operation v ''fetch'' ''fetch'', w1)
                   (\<lambda>_ w2. bind_st (fetch_executor send body v w2)
                     (\<lambda>out w3. if has_post hooks
                       then bind_st (run_post hooks v out w3)
                         (\<lambda>res w4. case res of
                            AllowValue out' \<Rightarrow> (Inr out', w4)
                          | DenyWith deny \<Rightarrow> (Inl (Err (''fetch response '' @ deny @ '': '' @ method @ '' '' @ url)), w4))
                       else (Inr out, w3))))))"

end
