(* ===== verification/Hook_Props.thy ===== *)
theory Hook_Props
  imports Fetch_Op
begin

text \<open>
  What hooks and policies guarantee. That an executor is only called with a document that the policy has just allowed is stated without any
  record of calls: two executors that agree on those documents give the same results.
\<close>

section \<open>Checked inputs\<close>

definition pinned :: "string \<Rightarrow> json \<Rightarrow> bool" where
  "pinned identity v \<longleftrightarrow> (case json_get v ''operation'' of None \<Rightarrow> None | Some x \<Rightarrow> as_str x) = Some identity"

lemma verify_operation_pinned [simp]: "verify_operation v identity op = Inr u \<longleftrightarrow> pinned identity v"
  by (simp add: verify_operation_def pinned_def)

text \<open>The chain has just allowed the document, and left the environment as it now is.\<close>

definition just_allowed :: "'w policy_chain \<Rightarrow> json \<Rightarrow> 'w \<Rightarrow> bool" where
  "just_allowed c v e \<longleftrightarrow> (\<exists>e0. chain_evaluate c v e0 = (Inr True, e))"

lemma just_allowed_by: "just_allowed c v e \<Longrightarrow> allowed_by c v"
  unfolding just_allowed_def using chain_allows by auto

lemma in_env_eq: "in_env f w = (x, w') \<longleftrightarrow> (\<exists>e. f (hw_env w) = (x, e) \<and> w' = w\<lparr>hw_env := e\<rparr>)"
  by (auto simp: in_env_def split: prod.splits)

lemma run_policy_allows:
  assumes "run_hook (HookPolicy c) p payload current op mut w = (Inr (Inr v), w1)"
  shows "v = current" and "just_allowed c payload (hw_env w1)"
  using assms by (auto simp: run_hook_def bind_st_eq in_env_eq just_allowed_def split: if_splits)

text \<open>A hook keeps what is captured.\<close>

lemma in_env_captured: "in_env f w = (x, w') \<Longrightarrow> hw_captured w' = hw_captured w"
  by (auto simp: in_env_eq)

lemma run_inject_captured: "run_inject rules payload current op w = (r, w') \<Longrightarrow> hw_captured w' = hw_captured w"
  by (auto simp: run_inject_def Let_def split: option.splits prod.splits sum.splits rerr.splits if_splits dest: in_env_captured)

lemma run_hook_captured: "run_hook h p payload current op mut w = (r, w') \<Longrightarrow> hw_captured w' = hw_captured w"
  by (cases h) (auto simp: run_hook_def bind_st_eq dest: in_env_captured run_inject_captured)

section \<open>Guarded stacks\<close>

text \<open>The executor is behind the policy: the policy is the last layer, or a virtual executor stands in for the real one.\<close>

fun guarded_stack :: "'w policy_chain \<Rightarrow> 'w layer list \<Rightarrow> bool" where
  "guarded_stack c [] = False"
| "guarded_stack c (l # ls) \<longleftrightarrow> (case l of VirtualJs _ _ \<Rightarrow> True | Gate (HookPolicy c') \<Rightarrow> c' = c \<and> ls = [] | _ \<Rightarrow> False) \<or> guarded_stack c ls"

lemma guarded_stack_append: "guarded_stack c ls' \<Longrightarrow> guarded_stack c (ls @ ls')"
  by (induction ls) auto

lemma guarded_stack_policy: "guarded_stack c (ls @ [Gate (HookPolicy c)])"
  by (rule guarded_stack_append) simp

lemma drive_js_cong:
  assumes "\<And>x v w. check x = Inr v \<Longrightarrow> f v w = g v w"
  shows "drive_js f check t w = drive_js g check t w"
proof (induction t arbitrary: w)
  case (JsNext input e k)
  have IH: "drive_js f check (k a b) w = drive_js g check (k a b) w" for a b w
    by (rule JsNext.IH) (auto intro: rangeI)
  show ?case
    by (cases "check input") (auto simp: IH assms split: prod.splits sum.splits rerr.splits)
qed simp_all

lemma drive_js_keeps:
  assumes "\<And>v w. P (hw_captured w) \<Longrightarrow> P (hw_captured (snd (f v w)))" and "P (hw_captured w)"
  shows "P (hw_captured (snd (drive_js f check t w)))"
  using assms(2)
proof (induction t arbitrary: w)
  case (JsNext input e k)
  have IH: "P (hw_captured w) \<Longrightarrow> P (hw_captured (snd (drive_js f check (k a b) w)))" for a b w
    by (rule JsNext.IH) (auto intro: rangeI)
  have "P (hw_captured w1)" if "f v (w\<lparr>hw_env := e\<rparr>) = (r, w1)" for v r w1
    using assms(1) [of "w\<lparr>hw_env := e\<rparr>" v] JsNext.prems that by simp
  then show ?case
    by (cases "check input") (auto simp: IH JsNext.prems split: prod.splits sum.splits rerr.splits)
qed simp_all

lemma call_layer_keeps:
  assumes "\<And>v w. P (hw_captured w) \<Longrightarrow> P (hw_captured (snd (executor v w)))" and "P (hw_captured w)"
  shows "P (hw_captured (snd (call_layer op mut normal executor identity ls input w)))"
  using assms(2)
proof (induction ls arbitrary: input w)
  case Nil
  then show ?case by (simp add: assms(1))
next
  case (Cons l ls)
  show ?case
  proof (cases l)
    case (Gate h)
    show ?thesis
    proof (cases "run_hook h Pre input input op mut w")
      case (Pair r w1)
      with run_hook_captured have w1: "P (hw_captured w1)" using Cons.prems by metis
      then show ?thesis
        using Gate Pair Cons.IH by (auto simp: bind_st_def split: sum.splits prod.splits)
    qed
  next
    case (JsLayer f)
    then show ?thesis by (auto intro!: drive_js_keeps Cons simp del: drive_js.simps)
  next
    case InjectSlot
    then show ?thesis using Cons by simp
  next
    case (VirtualJs path eval)
    then show ?thesis using Cons.prems
      by (auto simp: bind_st_def in_env_def split: prod.splits sum.splits)
  qed
qed

text \<open>What the normalization of an operation promises of every document that it lets through.\<close>

locale checked_documents =
  fixes normal :: "json \<Rightarrow> json result" and well :: "json \<Rightarrow> bool"
  assumes normal_well: "normal v = Inr v' \<Longrightarrow> well v'"
begin

lemma checked_input_well: "checked_input normal identity op v = Inr v' \<Longrightarrow> well v' \<and> pinned identity v'"
  by (auto simp: checked_input_def bind_res_Inr_iff dest: normal_well)

lemma call_layer_guarded:
  assumes "guarded_stack c ls"
    and agree: "\<And>v w. just_allowed c v (hw_env w) \<Longrightarrow> well v \<Longrightarrow> pinned identity v \<Longrightarrow> executor v w = executor' v w"
    and "well input" "pinned identity input"
  shows "call_layer op mut normal executor identity ls input w = call_layer op mut normal executor' identity ls input w"
  using assms(1,3,4)
proof (induction ls arbitrary: input w)
  case (Cons l ls)
  show ?case
  proof (cases l)
    case (Gate h)
    have "call_layer op mut normal executor identity ls v' w1 = call_layer op mut normal executor' identity ls v' w1"
      if run: "run_hook h Pre input input op mut w = (Inr (Inr v), w1)"
        and v': "(if v \<noteq> input then checked_input normal identity op v else Inr v) = Inr v'" for v v' w1
    proof -
      have ok: "well v'" "pinned identity v'"
        using v' Cons.prems checked_input_well by (auto split: if_splits)
      show ?thesis
      proof (cases "guarded_stack c ls")
        case False
        with Cons.prems Gate have "h = HookPolicy c" "ls = []" by (auto split: hook.splits)
        with run run_policy_allows [of c Pre input input op mut w v w1] v' ok show ?thesis
          by (auto intro!: agree)
      qed (use ok Cons.IH in blast)
    qed
    then show ?thesis
      using Gate by (auto intro!: bind_st_cong split: sum.splits)
  next
    case (JsLayer f)
    then have "guarded_stack c ls" using Cons.prems by simp
    with JsLayer show ?thesis
      by (auto intro!: drive_js_cong Cons.IH dest: checked_input_well)
  next
    case InjectSlot
    then show ?thesis using Cons by simp
  qed simp
qed simp

end
section \<open>Chains as they are built\<close>

lemma build_stack_not_placed:
  assumes "fold_res (stack_step L op cfg rp lr) es st = Inr st'" and "Builtin ''@policy'' \<notin> set es"
  shows "sk_policy st' = sk_policy st"
  using assms
proof (induction es arbitrary: st)
  case (Cons e es)
  then obtain st1 where step: "stack_step L op cfg rp lr e st = Inr st1" and rest: "fold_res (stack_step L op cfg rp lr) es st1 = Inr st'"
    by (auto split: sum.splits)
  have "sk_policy st1 = sk_policy st"
    using step Cons.prems(2)
    by (cases e) (auto simp: stack_step_def stack_error_def add_layer_def bind_res_Inr_iff split: if_splits prod.splits)
  with Cons.IH rest Cons.prems(2) show ?case by simp
qed simp

lemma ends_virtual_last: "ends_virtual ls \<Longrightarrow> \<exists>path eval. last ls = VirtualJs path eval"
  by (induction ls rule: ends_virtual.induct) auto

lemma guarded_virtual: "ends_virtual ls \<Longrightarrow> guarded_stack c (butlast ls @ [l, last ls])"
  by (rule guarded_stack_append) (auto dest!: ends_virtual_last)

lemma built_stack_guarded:
  assumes "build_stack_chain L op cfg rp lr caps = Inr hooks"
    and "build_policy_chain (policies_of L) (op_mode cfg) (op_policies cfg) rp lr = Inr c"
    and "op_policies cfg \<noteq> []" and "Builtin ''@policy'' \<notin> set (op_stack cfg)"
  shows "guarded_stack c (hc_stack hooks)"
  using assms build_stack_not_placed [of L op cfg rp lr "op_stack cfg"]
  by (auto simp: build_stack_chain_def bind_res_Inr_iff stack_error_def guarded_virtual guarded_stack_policy split: if_splits)

lemma built_chain_guarded:
  assumes built: "build_hook_chain L op cfg rp lr caps = Inr hooks"
    and pol: "build_policy_chain (policies_of L) (op_mode cfg) (op_policies cfg) rp lr = Inr c"
    and "op_policies cfg \<noteq> []" and "Builtin ''@policy'' \<notin> set (op_stack cfg)"
  shows "if has_stack hooks then guarded_stack c (hc_stack hooks) else \<exists>hs. hc_pre hooks = hs @ [HookPolicy c]"
proof (cases "op_stack cfg = []")
  case True
  with assms show ?thesis
    by (auto simp: build_hook_chain_def bind_res_Inr_iff has_stack_def split: if_splits prod.splits)
next
  case False
  with assms have "build_stack_chain L op cfg rp lr caps = Inr hooks"
    by (auto simp: build_hook_chain_def split: if_splits)
  with assms built_stack_guarded have "guarded_stack c (hc_stack hooks)" by blast
  then show ?thesis by (auto simp: has_stack_def)
qed

text \<open>Header rules are put in front of the policy.\<close>

lemma fill_slot_guarded: "guarded_stack c ls \<Longrightarrow> guarded_stack c (fill_slot l ls)"
  by (induction l ls rule: fill_slot.induct) (auto split: layer.splits hook.splits)

lemma insert_guarded:
  "guarded_stack c ls \<Longrightarrow> guarded_stack c (takeWhile (\<lambda>x. \<not> is_policy_gate x) ls @ l # dropWhile (\<lambda>x. \<not> is_policy_gate x) ls)"
proof (induction ls)
  case (Cons x ls)
  then show ?case by (cases x) (auto split: hook.splits)
qed simp

lemma with_header_rules_guarded:
  fixes rules :: "'w header_rule list"
  assumes "if has_stack hooks then guarded_stack c (hc_stack hooks) else \<exists>hs. hc_pre hooks = hs @ [HookPolicy c]"
  defines "hooks' \<equiv> with_header_rules rules hooks"
  shows "has_stack hooks' = has_stack hooks"
    and "if has_stack hooks' then guarded_stack c (hc_stack hooks') else \<exists>hs. hc_pre hooks' = hs @ [HookPolicy c]"
proof -
  have "hc_stack hooks' = hc_stack hooks \<and> (\<exists>hs. hc_pre hooks' = hs @ [HookPolicy c])" if "\<not> has_stack hooks"
    using that assms(1) by (auto simp: hooks'_def with_header_rules_def insert_pre_before_policy_def)
  moreover have "guarded_stack c (hc_stack hooks')" if "has_stack hooks"
    using that assms(1)
    by (auto simp: hooks'_def with_header_rules_def attach_stack_header_rules_def Let_def fill_slot_guarded insert_guarded)
  ultimately show "has_stack hooks' = has_stack hooks"
    and "if has_stack hooks' then guarded_stack c (hc_stack hooks') else \<exists>hs. hc_pre hooks' = hs @ [HookPolicy c]"
    by (cases "has_stack hooks"; auto simp: has_stack_def)+
qed

section \<open>Pre hooks and gates\<close>

context checked_documents
begin

lemma run_pre_hooks_step:
  assumes "run_pre_hooks op mut normal (h # hs) input w = (Inr (AllowValue v), w')" and "well input"
  obtains x v' w1 where "run_hook h Pre input input op mut w = (Inr (Inr x), w1)"
    and "run_pre_hooks op mut normal hs v' w1 = (Inr (AllowValue v), w')" and "x \<noteq> input \<or> v' = input" and "well v'"
proof -
  obtain y w1 where run: "run_hook h Pre input input op mut w = (Inr y, w1)"
    using assms(1) by (auto simp: bind_st_eq)
  with assms obtain x where "y = Inr x" by (cases y) auto
  with run assms that show thesis
    by (cases "x = input") (auto simp: bind_st_eq dest: normal_well)
qed

lemma run_pre_hooks_allow:
  assumes "run_pre_hooks op mut normal (hs @ [HookPolicy c]) input w = (Inr (AllowValue v), w')" and "well input"
  shows "just_allowed c v (hw_env w') \<and> well v"
  using assms
proof (induction hs arbitrary: input w)
  case Nil
  obtain x v' w1 where run: "run_hook (HookPolicy c) Pre input input op mut w = (Inr (Inr x), w1)"
    and v': "run_pre_hooks op mut normal [] v' w1 = (Inr (AllowValue v), w')" "x \<noteq> input \<or> v' = input" "well v'"
    by (rule run_pre_hooks_step [OF Nil(1) [unfolded append_Nil] Nil(2)])
  with run_policy_allows [OF run] show ?case by auto
next
  case (Cons h hs)
  from run_pre_hooks_step [OF Cons.prems(1) [unfolded append_Cons] Cons.prems(2)] Cons.IH show ?case by metis
qed

lemma run_stack_gate_allow:
  assumes run: "run_stack_gate hooks input normal w = (Inr v, w')"
    and "guarded_stack c (hc_stack hooks)" "well input" "pinned identity input"
  shows "(\<exists>e. just_allowed c v e) \<and> well v \<and> pinned identity v \<and> (hc_input_mutation hooks \<or> v = input)"
proof -
  define ok where "ok v e \<longleftrightarrow> just_allowed c v e \<and> well v \<and> pinned identity v" for v e
  define executor where "executor v w = (if ok v (hw_env w) then capture (hc_op hooks) v w else (Inl (Err []), w))" for v and w :: "'a hook_world"
  have id: "operation_of input = identity"
    using assms(4) by (auto simp: operation_of_def pinned_def text_at_def split: option.splits)
  have "run_stack hooks input normal (capture (hc_op hooks)) (w\<lparr>hw_captured := None\<rparr>)
      = run_stack hooks input normal executor (w\<lparr>hw_captured := None\<rparr>)"
    unfolding run_stack_def id using assms(2-)
    by (intro call_layer_guarded [where c = c]) (simp_all add: executor_def ok_def)
  moreover have "\<forall>v \<in> set_option (hw_captured (snd (run_stack hooks input normal executor (w\<lparr>hw_captured := None\<rparr>)))). \<exists>e. ok v e"
    unfolding run_stack_def
    by (rule call_layer_keeps [where P = "\<lambda>x. \<forall>v \<in> set_option x. \<exists>e. ok v e"]) (auto simp: executor_def capture_def split: if_splits)
  ultimately show ?thesis
    using run by (auto simp: run_stack_gate_def bind_st_eq ok_def split: if_splits option.splits)
qed

end

end
