(* ===== verification/Fetch_Props.thy ===== *)
theory Fetch_Props
  imports Hook_Props
begin

text \<open>
  What \<open>fetch\<close> guarantees: nothing is sent that the policy has not just allowed, under the URL that the policy saw, and
  credentials only go to the hosts of their rules.
\<close>

section \<open>Requests and the policy\<close>

definition url_consistent :: "url_parser \<Rightarrow> json \<Rightarrow> bool" where
  "url_consistent parse v \<longleftrightarrow> (\<exists>url u. json_get v ''url'' = Some (JStr url) \<and> parse url = Inr u \<and> json_get v ''url_parsed'' = Some (url_json u))"

lemma as_str_Some: "as_str v = Some s \<longleftrightarrow> v = JStr s"
  by (cases v) auto

interpretation url_documents: checked_documents "normalize_fetch_input parse" "url_consistent parse" for parse
proof
  fix v v'
  assume norm: "normalize_fetch_input parse v = Inr v'"
  then obtain url u where url: "json_get v ''url'' = Some (JStr url)" "parse url = Inr u" and set: "json_set ''url_parsed'' (url_json u) v = Inr v'"
    by (auto simp: normalize_fetch_input_def as_str_Some split: option.splits sum.splits)
  then show "url_consistent parse v'"
    using json_set_get [OF set] by (auto simp: url_consistent_def)
qed

lemma fetch_input_well:
  assumes "parse url = Inr u"
  shows "url_consistent parse (fetch_input url method headers u)" and "pinned ''fetch'' (fetch_input url method headers u)"
  using assms by (auto simp: url_consistent_def pinned_def fetch_input_def json_get_def)

text \<open>C1. A request of \<open>fetch\<close> is only sent when the policies of the operation have just allowed the document it is made from, after
  all hooks and header rules, and the parts of the URL in that document are those of the URL that is requested. Stated without a record of
  calls: two HTTP clients that agree on such requests cannot be told apart, whatever they do with any other request. The chain is any chain
  that is built from a configuration with policies, pre hooks or a stack, in which the configuration does not place the policy itself.
\<close>

theorem policy_guards_fetch:
  assumes built: "build_hook_chain L ''fetch'' cfg rp lr caps = Inr hooks"
    and policy: "build_policy_chain (policies_of L) (op_mode cfg) (op_policies cfg) rp lr = Inr c"
    and nonempty: "op_policies cfg \<noteq> []" and unplaced: "Builtin ''@policy'' \<notin> set (op_stack cfg)"
    and agree: "\<And>v req data e. just_allowed c v e \<Longrightarrow> url_consistent parse v \<Longrightarrow> pinned ''fetch'' v \<Longrightarrow> effective_request v = Some req \<Longrightarrow>
      ht_send client req data e = ht_send client' req data e"
    and methods: "ht_method_error client = ht_method_error client'"
  shows "do_fetch parse read_headers client url method headers_json body (with_header_rules rules hooks) w
    = do_fetch parse read_headers client' url method headers_json body (with_header_rules rules hooks) w"
proof -
  define hooks' where "hooks' = with_header_rules rules hooks"
  have guarded: "if has_stack hooks' then guarded_stack c (hc_stack hooks') else \<exists>hs. hc_pre hooks' = hs @ [HookPolicy c]"
    unfolding hooks'_def by (rule with_header_rules_guarded(2) [OF built_chain_guarded [OF built policy nonempty unplaced]])
  have exec: "fetch_executor client body v w = fetch_executor client' body v w"
    if "just_allowed c v (hw_env w)" "url_consistent parse v" "pinned ''fetch'' v" for v w
  proof -
    have "execute_fetch_request client body v (hw_env w) = execute_fetch_request client' body v (hw_env w)"
      using that agree methods by (auto simp: execute_fetch_request_def intro!: bind_st_cong split: option.splits)
    then show ?thesis by (simp add: fetch_executor_def in_env_def)
  qed
  have stack: "run_stack_full hooks' (fetch_input url method headers u) (normalize_fetch_input parse) (fetch_executor client body) w
      = run_stack_full hooks' (fetch_input url method headers u) (normalize_fetch_input parse) (fetch_executor client' body) w"
    if "has_stack hooks'" "parse url = Inr u" for headers u w
  proof -
    have "operation_of (fetch_input url method headers u) = ''fetch''"
      by (simp add: operation_of_def fetch_input_def json_get_def text_at_def)
    then show ?thesis
      using url_documents.call_layer_guarded [of c "hc_stack hooks'" parse "''fetch''" "fetch_executor client body" "fetch_executor client' body"]
        that guarded exec fetch_input_well
      by (simp add: run_stack_full_def run_stack_def)
  qed
  have pre: "just_allowed c v (hw_env w') \<and> url_consistent parse v"
    if "\<not> has_stack hooks'" "parse url = Inr u"
      and "run_pre_with hooks' (fetch_input url method headers u) (normalize_fetch_input parse) w = (Inr (AllowValue v), w')" for headers u w v w'
    using that guarded url_documents.run_pre_hooks_allow [OF _ fetch_input_well(1)] unfolding run_pre_with_def by metis
  show ?thesis
    unfolding hooks'_def [symmetric] do_fetch_def Let_def
    by (auto intro!: bind_st_cong simp: stack pre exec verify_operation_pinned split: sum.splits outcome_of.splits)
qed
text \<open>A configuration with a JavaScript layer that turns every request into a \<open>PUT\<close>, and a policy that only allows \<open>GET\<close>.\<close>

definition get_only :: "'w evaluator" where
  "get_only input e = (Inr (Some (JBool (json_at input ''method'' = JStr ''GET''))), e)"

definition put_layer :: "json \<Rightarrow> 'w \<Rightarrow> 'w js_run" where
  "put_layer input e = JsNext (JObj [(''headers'', JObj []), (''method'', JStr ''PUT''), (''operation'', JStr ''fetch''), (''url'', json_at input ''url'')]) e
     (\<lambda>r e1. JsReturn (Some (JObj [(''ok'', JBool (\<exists>v. r = Inr v))])) e1)"

definition sample_loader :: "string list hook_loader" where
  "sample_loader = \<lparr>pl_remote = (\<lambda>url path input e. (OpaLost [], e)), pl_local = (\<lambda>path rule. Inr get_only),
     hl_rego = (\<lambda>path rule. Inl (Err [])), hl_remote = (\<lambda>url path input e. (Inl (Err []), e)), hl_read = (\<lambda>path. Inr []),
     hl_js = (\<lambda>f args e. (Inl (Err []), e)), hl_layer = (\<lambda>f. put_layer), hl_executor = (\<lambda>f input e. (Inl (Err []), e))\<rparr>"

definition sample_policies :: operation_policies where
  "sample_policies = \<lparr>op_mode = AllMode, op_policies = [\<lparr>ps_url = ''file:///p.rego'', ps_policy_path = None, ps_rule = None\<rparr>],
     op_pre = [], op_post = [],
     op_stack = [Source \<lparr>hs_url = ''file:///l.js'', hs_policy_path = None, hs_rule = None, hs_timeout_ms = None, hs_capabilities = None\<rparr>,
       Builtin ''@execute'']\<rparr>"

definition sample_parse :: url_parser where
  "sample_parse url = Inr \<lparr>ur_scheme = ''https'', ur_host = Some ''a.b'', ur_port = None, ur_path = ''/'', ur_query = None\<rparr>"

definition empty_response :: http_response where
  "empty_response = \<lparr>hp_status = 200, hp_reason = None, hp_url = [], hp_headers = [], hp_body = Inr []\<rparr>"

definition logging_client :: "string list http_client" where
  "logging_client = \<lparr>ht_method_error = (\<lambda>_. None), ht_send = (\<lambda>req data e. (Inr empty_response, fr_method req # e))\<rparr>"

definition refusing_client :: "string list http_client" where
  "refusing_client = logging_client\<lparr>ht_send := \<lambda>req data e. if fr_method req = ''GET'' then ht_send logging_client req data e else (Inl ''refused'', e)\<rparr>"

definition sample_stack :: "string list hook_chain" where
  "sample_stack = \<lparr>hc_op = ''fetch'', hc_pre = [], hc_post = [], hc_input_mutation = True,
     hc_stack = [JsLayer put_layer, Gate (HookPolicy \<lparr>pc_evaluators = [PolicyLocal get_only], pc_mode = AllMode\<rparr>)]\<rparr>"

lemmas sample_defs = sample_loader_def sample_policies_def sample_stack_def

lemma sample_built:
  "build_hook_chain sample_loader ''fetch'' sample_policies [] [] \<lparr>cp_input_mutation = True, cp_post = True\<rparr> = Inr sample_stack"
  "build_policy_chain (policies_of sample_loader) (op_mode sample_policies) (op_policies sample_policies) [] []
     = Inr \<lparr>pc_evaluators = [PolicyLocal get_only], pc_mode = AllMode\<rparr>"
  "op_policies sample_policies \<noteq> []" "Builtin ''@policy'' \<notin> set (op_stack sample_policies)"
  by (simp_all add: sample_defs build_hook_chain_def build_stack_chain_def stack_step_def js_layer_file_def js_from_file_def add_layer_def
      is_js_def file_path_def starts_with_def path_extension_def build_policy_chain_def build_evaluator_def is_http_def or_default_def
      phase_defaults_def strip_suffix_def ends_with_def policy_loader.defs)

lemma get_only_allowed: "just_allowed \<lparr>pc_evaluators = [PolicyLocal get_only], pc_mode = AllMode\<rparr> v e \<Longrightarrow> json_at v ''method'' = JStr ''GET''"
  by (auto simp: just_allowed_def chain_evaluate_def evaluate_policy_def evaluate_local_def get_only_def split: if_splits)

theorem policy_guards_fetch_witness:
  "do_fetch sample_parse (\<lambda>s. Inr []) logging_client ''https://a.b/'' ''GET'' [] None (with_header_rules [] sample_stack) \<lparr>hw_env = [], hw_captured = None\<rparr>
   = do_fetch sample_parse (\<lambda>s. Inr []) refusing_client ''https://a.b/'' ''GET'' [] None (with_header_rules [] sample_stack) \<lparr>hw_env = [], hw_captured = None\<rparr>"
proof (rule policy_guards_fetch [OF sample_built])
  fix v :: json and req data and e :: "string list"
  assume "just_allowed \<lparr>pc_evaluators = [PolicyLocal get_only], pc_mode = AllMode\<rparr> v e" and "effective_request v = Some req"
  then have "fr_method req = ''GET''"
    using get_only_allowed [of v e] by (auto simp: effective_request_def split: option.splits)
  then show "ht_send logging_client req data e = ht_send refusing_client req data e"
    by (simp add: refusing_client_def)
qed (simp add: refusing_client_def)

section \<open>Header rules\<close>

text \<open>A host that a pattern means: the host itself, or for a pattern with a wildcard its domain and what lies under it.\<close>

definition covers :: "string \<Rightarrow> string \<Rightarrow> bool" where
  "covers pattern host \<longleftrightarrow>
     (if starts_with pattern ''*.'' then host = drop 2 pattern \<or> (\<exists>sub. host = sub @ ''.'' @ drop 2 pattern) else host = pattern)"

definition proper_pattern :: "string \<Rightarrow> bool" where
  "proper_pattern p \<longleftrightarrow> (starts_with p ''*'' \<longrightarrow> starts_with p ''*.'' \<and> \<not> (2 < length p \<and> utf8_continuation (p ! 2)))"

definition for_method :: "'w header_rule \<Rightarrow> string \<Rightarrow> bool" where
  "for_method r m \<longleftrightarrow> hr_methods r = [] \<or> (\<exists>x \<in> set (hr_methods r). ascii_lower x = ascii_lower (ascii_upper m))"

lemma ends_with_iff: "ends_with s t \<longleftrightarrow> (\<exists>p. s = p @ t)"
  by (metis append_eq_conv_conj append_take_drop_id diff_add_inverse2 ends_with_def le_add2 length_append)

lemma star_dot: "starts_with p ''*.'' \<longleftrightarrow> (\<exists>d. p = ''*.'' @ d)"
  by (metis append_eq_conv_conj append_take_drop_id starts_with_def)

lemma rule_matches_covers:
  assumes "proper_pattern (ascii_lower (hr_host r))"
  shows "rule_matches r host m = Inr (for_method r m \<and> covers (ascii_lower (hr_host r)) (ascii_lower host))"
proof (cases "starts_with (ascii_lower (hr_host r)) ''*''")
  case True
  with assms obtain d where d: "ascii_lower (hr_host r) = ''*.'' @ d" and "\<not> (d \<noteq> [] \<and> utf8_continuation (d ! 0))"
    by (auto simp: proper_pattern_def star_dot)
  then show ?thesis
    by (auto simp: rule_matches_def for_method_def covers_def list_ex_iff Let_def starts_with_def slice_from_def ends_with_iff)
next
  case False
  then have "\<not> starts_with (ascii_lower (hr_host r)) ''*.''" by (auto simp: star_dot) (simp add: starts_with_def)
  with False show ?thesis by (auto simp: rule_matches_def for_method_def covers_def list_ex_iff Let_def)
qed

text \<open>The headers that a rule may add: those it names, and over a header that is there already only static ones of a rule that overrides.\<close>

definition may_inject :: "'w header_rule \<Rightarrow> (string, string) btm \<Rightarrow> injected_header \<Rightarrow> bool" where
  "may_inject r headers ih \<longleftrightarrow>
     (case hr_injection r of
        StaticHeaders hs \<Rightarrow> (\<exists>k. (k, ih_value ih) \<in> set hs \<and> ih_name ih = ascii_lower k) \<and> (hr_override_existing r \<or> btm_get headers (ih_name ih) = None)
      | OAuthClientCredentials c \<Rightarrow> ih_name ih = ascii_lower (oc_header_name c) \<and> btm_get headers (ih_name ih) = None)"

abbreviation put_header :: "injected_header \<Rightarrow> (string, string) btm \<Rightarrow> (string, string) btm" where
  "put_header ih \<equiv> btm_insert (ih_name ih) (ih_value ih)"

lemma inject_static_effect:
  assumes "inject_static i override hs headers = (injected, headers')"
  shows "headers' = fold put_header injected headers"
    and "\<forall>ih \<in> set injected. ih_rule ih = i \<and> (\<exists>k. (k, ih_value ih) \<in> set hs \<and> ih_name ih = ascii_lower k)
      \<and> (override \<or> btm_get headers (ih_name ih) = None)"
proof (atomize (full), use assms in \<open>induction i override hs headers arbitrary: injected headers' rule: inject_static.induct\<close>)
  case (2 i override k v hs headers)
  show ?case
  proof (cases "\<not> override \<and> btm_get headers (ascii_lower k) \<noteq> None")
    case True
    with 2 show ?thesis by fastforce
  next
    case False
    obtain rest where "inject_static i override hs (btm_insert (ascii_lower k) v headers) = (rest, headers')"
      and "injected = \<lparr>ih_name = ascii_lower k, ih_value = v, ih_rule = i\<rparr> # rest"
      using 2(3) False by (auto simp: Let_def split: prod.splits if_splits)
    with False 2(2) [OF refl False] show ?thesis by (fastforce simp: btm_get_insert split: if_splits)
  qed
qed simp

lemma inject_rule_effect:
  assumes "inject_rule i r headers w = (Inr (injected, headers'), w')"
  shows "headers' = fold put_header injected headers \<and> (\<forall>ih \<in> set injected. ih_rule ih = i \<and> may_inject r headers ih)"
proof (cases "hr_injection r")
  case (StaticHeaders hs)
  with assms inject_static_effect [of i "hr_override_existing r" hs headers injected headers'] show ?thesis
    by (auto simp: inject_rule_def may_inject_def)
next
  case (OAuthClientCredentials c)
  with assms show ?thesis
    by (auto simp: inject_rule_def may_inject_def Let_def split: if_splits option.splits prod.splits sum.splits)
qed

lemma put_headers_none: "btm_get (fold put_header injected headers) k = None \<Longrightarrow> btm_get headers k = None"
proof (induction injected arbitrary: headers)
  case (Cons ih rest)
  from Cons.IH [OF Cons.prems [simplified]] show ?case by (simp add: btm_get_insert split: if_splits)
qed simp

lemma may_inject_earlier: "may_inject r (fold put_header injected headers) ih \<Longrightarrow> may_inject r headers ih"
  by (auto simp: may_inject_def dest: put_headers_none split: header_injection.splits)

lemma apply_rules_effect:
  assumes "apply_rules_from i rules host m headers w = (Inr (injected, headers'), w')"
  shows "headers' = fold put_header injected headers \<and>
    (\<forall>ih \<in> set injected. i \<le> ih_rule ih \<and> ih_rule ih < i + length rules \<and> rule_matches (rules ! (ih_rule ih - i)) host m = Inr True
      \<and> may_inject (rules ! (ih_rule ih - i)) headers ih)"
  using assms
proof (induction rules arbitrary: i headers w injected)
  case (Cons r rs)
  have shift: "(r # rs) ! (j - i) = rs ! (j - Suc i)" if "Suc i \<le> j" for j
    using that by (simp add: nth_Cons')
  consider (no) "rule_matches r host m = Inr False" | (yes) "rule_matches r host m = Inr True"
    using Cons.prems by (auto split: sum.splits bool.splits)
  then show ?case
  proof cases
    case no
    with Cons.prems have "apply_rules_from (Suc i) rs host m headers w = (Inr (injected, headers'), w')" by simp
    from Cons.IH [OF this] show ?thesis by (auto simp: shift)
  next
    case yes
    then obtain here h1 w1 rest where here: "inject_rule i r headers w = (Inr (here, h1), w1)"
      and rest: "apply_rules_from (Suc i) rs host m h1 w1 = (Inr (rest, headers'), w')" and "injected = here @ rest"
      using Cons.prems by (auto simp: bind_st_eq)
    with inject_rule_effect [OF here] Cons.IH [OF rest] yes show ?thesis
      by (auto simp: shift intro: may_inject_earlier [of _ here headers])
  qed
qed simp

text \<open>C24. Injected headers go where their rules say. With patterns that are hosts or wildcards \<open>*.domain\<close>, applying header rules to a
  request never panics, adds exactly the headers it reports, and each of them is named by a rule for the method of the request whose pattern
  covers its host; a header that the request has already is only replaced by a static header of a rule that overrides, never
  by a token.
\<close>

theorem header_injection_sound:
  assumes proper: "\<forall>r \<in> set rules. proper_pattern (ascii_lower (hr_host r))"
    and run: "apply_header_rules_tracked rules host m headers w = (res, w')"
  shows "case res of
      Inl e \<Rightarrow> \<forall>msg. e \<noteq> Panic msg
    | Inr (injected, headers') \<Rightarrow> headers' = fold put_header injected headers \<and>
        (\<forall>ih \<in> set injected. ih_rule ih < length rules \<and>
           (let r = rules ! ih_rule ih in for_method r m \<and> covers (ascii_lower (hr_host r)) (ascii_lower host) \<and> may_inject r headers ih))"
proof -
  have no_panic: "\<exists>msg. e = Err msg" if "apply_rules_from i rules host m headers w = (Inl e, w')" for e i headers w
    using that proper
  proof (induction rules arbitrary: i headers w)
    case (Cons r rs)
    then have "rule_matches r host m = Inr (for_method r m \<and> covers (ascii_lower (hr_host r)) (ascii_lower host))"
      by (simp add: rule_matches_covers)
    with Cons show ?case
      by (auto simp: bind_st_eq inject_rule_def Let_def split: bool.splits header_injection.splits if_splits option.splits prod.splits sum.splits)
  qed simp
  show ?thesis
  proof (cases res)
    case (Inl e)
    with run no_panic [of 0] show ?thesis by (auto simp: apply_header_rules_tracked_def)
  next
    case (Inr p)
    with run have "apply_rules_from 0 rules host m headers w = (Inr (fst p, snd p), w')" by (simp add: apply_header_rules_tracked_def)
    from apply_rules_effect [OF this] Inr show ?thesis
      using proper by (fastforce simp: Let_def rule_matches_covers split: prod.splits)
  qed
qed

definition sample_rule :: "nat header_rule" where
  "sample_rule = \<lparr>hr_host = ''*.GitHub.com'', hr_methods = [''GET''], hr_injection = StaticHeaders [(''Authorization'', ''t''), (''X-A'', ''1'')],
     hr_override_existing = False, hr_source = None\<rparr>"

theorem header_injection_sound_witness:
  "apply_header_rules_tracked [sample_rule] ''api.github.com'' ''get'' [(''x-a'', ''0'')] 7
     = (Inr ([\<lparr>ih_name = ''authorization'', ih_value = ''t'', ih_rule = 0\<rparr>], [(''authorization'', ''t''), (''x-a'', ''0'')]), 7)
   \<and> covers ''*.github.com'' ''api.github.com'' \<and> for_method sample_rule ''get''"
proof -
  have run: "apply_header_rules_tracked [sample_rule] ''api.github.com'' ''get'' [(''x-a'', ''0'')] 7
     = (Inr ([\<lparr>ih_name = ''authorization'', ih_value = ''t'', ih_rule = 0\<rparr>], [(''authorization'', ''t''), (''x-a'', ''0'')]), 7)"
    by code_simp
  have lower: "ascii_lower (hr_host sample_rule) = ''*.github.com''" "ascii_lower ''api.github.com'' = ''api.github.com''"
    by code_simp+
  have "proper_pattern ''*.github.com''" by code_simp
  then have "\<forall>r \<in> set [sample_rule]. proper_pattern (ascii_lower (hr_host r))" by (simp add: lower)
  from header_injection_sound [OF this run] run lower show ?thesis by simp
qed

end
