(* ===== verification/Fs_Gate.thy ===== *)
theory Fs_Gate
  imports Hook_Build Fs_Mount Fs_Content
begin

text \<open>
  The gate in front of every filesystem operation (\<open>check_policy\<close> in \<open>src/server/src/engine/fs.rs\<close>): the
  operation as the document that hooks and policy see, and the effective path and destination read back from it. Errors carry a kind
  and the message that the guest sees.
\<close>

section \<open>Errors\<close>

datatype fs_error_kind =
  FsNotFound | FsPermissionDenied | FsAlreadyExists | FsNotDirectory | FsIsDirectory | FsNotEmpty | FsInvalidData | FsNotSupported | FsOther

text \<open>An error of the service, or a panic of the code below it.\<close>

datatype fs_fault = FsError fs_error_kind string | FsPanic string

datatype io_kind =
    IoNotFound | IoPermissionDenied | IoAlreadyExists | IoNotADirectory | IoIsADirectory | IoDirectoryNotEmpty | IoReadOnlyFilesystem
  | IoInvalidData | IoUnsupported | IoOtherKind

record io_error =
  io_kind_of :: io_kind
  io_text :: string

fun io_kind_fs :: "io_kind \<Rightarrow> fs_error_kind" where
  "io_kind_fs IoNotFound = FsNotFound"
| "io_kind_fs IoPermissionDenied = FsPermissionDenied"
| "io_kind_fs IoAlreadyExists = FsAlreadyExists"
| "io_kind_fs IoNotADirectory = FsNotDirectory"
| "io_kind_fs IoIsADirectory = FsIsDirectory"
| "io_kind_fs IoDirectoryNotEmpty = FsNotEmpty"
| "io_kind_fs IoInvalidData = FsInvalidData"
| "io_kind_fs IoUnsupported = FsNotSupported"
| "io_kind_fs IoReadOnlyFilesystem = FsOther"
| "io_kind_fs IoOtherKind = FsOther"

fun io_code :: "io_kind \<Rightarrow> string option" where
  "io_code IoNotFound = Some ''ENOENT''"
| "io_code IoPermissionDenied = Some ''EACCES''"
| "io_code IoAlreadyExists = Some ''EEXIST''"
| "io_code IoNotADirectory = Some ''ENOTDIR''"
| "io_code IoIsADirectory = Some ''EISDIR''"
| "io_code IoDirectoryNotEmpty = Some ''ENOTEMPTY''"
| "io_code IoReadOnlyFilesystem = Some ''EROFS''"
| "io_code IoUnsupported = Some ''ENOSYS''"
| "io_code IoInvalidData = None"
| "io_code IoOtherKind = None"

definition io_err :: "string \<Rightarrow> string \<Rightarrow> io_error \<Rightarrow> string" where
  "io_err op path e =
     ''fs.'' @ op @ '': '' @ path @ '': '' @ (case io_code (io_kind_of e) of None \<Rightarrow> [] | Some code \<Rightarrow> code @ '': '') @ io_text e"

definition io_err2 :: "string \<Rightarrow> string \<Rightarrow> string \<Rightarrow> io_error \<Rightarrow> string" where
  "io_err2 op from_p to_p e =
     ''fs.'' @ op @ '': '' @ from_p @ '' -> '' @ to_p @ '': '' @ (case io_code (io_kind_of e) of None \<Rightarrow> [] | Some code \<Rightarrow> code @ '': '') @ io_text e"

definition fs_io :: "string \<Rightarrow> string \<Rightarrow> io_error \<Rightarrow> fs_fault" where
  "fs_io op path e = FsError (io_kind_fs (io_kind_of e)) (io_err op path e)"

definition fs_io2 :: "string \<Rightarrow> string \<Rightarrow> string \<Rightarrow> io_error \<Rightarrow> fs_fault" where
  "fs_io2 op from_p to_p e = FsError (io_kind_fs (io_kind_of e)) (io_err2 op from_p to_p e)"

definition is_alphanumeric :: "char \<Rightarrow> bool" where
  "is_alphanumeric c \<longleftrightarrow> CHR ''0'' \<le> c \<and> c \<le> CHR ''9'' \<or> CHR ''A'' \<le> c \<and> c \<le> CHR ''Z'' \<or> CHR ''a'' \<le> c \<and> c \<le> CHR ''z''"

text \<open>\<open>str::split\<close> at the characters that are not alphanumeric.\<close>

fun tokens :: "string \<Rightarrow> string list" where
  "tokens [] = [[]]"
| "tokens (c # cs) =
     (if \<not> is_alphanumeric c then [] # tokens cs else case tokens cs of [] \<Rightarrow> [[c]] | t # ts \<Rightarrow> (c # t) # ts)"

definition message_kind :: "string \<Rightarrow> fs_error_kind" where
  "message_kind message =
     (let has = (\<lambda>code. code \<in> set (tokens message)) in
      if has ''ENOENT'' then FsNotFound
      else if has ''EACCES'' \<or> has ''EPERM'' then FsPermissionDenied
      else if has ''EEXIST'' then FsAlreadyExists
      else if has ''ENOTDIR'' then FsNotDirectory
      else if has ''EISDIR'' then FsIsDirectory
      else if has ''ENOTEMPTY'' then FsNotEmpty
      else if has ''ENOSYS'' then FsNotSupported
      else FsOther)"

definition overlay_message :: "string \<Rightarrow> fs_fault" where
  "overlay_message message = FsError (message_kind message) message"

definition fs_overlay :: "string \<Rightarrow> string \<Rightarrow> rerr \<Rightarrow> fs_fault" where
  "fs_overlay op path e = (case e of Panic m \<Rightarrow> FsPanic m | Err m \<Rightarrow> overlay_message (''fs.'' @ op @ '': '' @ path @ '': '' @ m))"

definition fs_overlay2 :: "string \<Rightarrow> string \<Rightarrow> string \<Rightarrow> rerr \<Rightarrow> fs_fault" where
  "fs_overlay2 op from_p to_p e =
     (case e of Panic m \<Rightarrow> FsPanic m | Err m \<Rightarrow> overlay_message (''fs.'' @ op @ '': '' @ from_p @ '' -> '' @ to_p @ '': '' @ m))"

definition fs_not_found :: "string \<Rightarrow> string \<Rightarrow> fs_fault" where
  "fs_not_found op path = FsError FsNotFound (''fs.'' @ op @ '': '' @ path @ '': ENOENT'')"

definition text_contains :: "string \<Rightarrow> string \<Rightarrow> bool" where
  "text_contains s sub \<longleftrightarrow> list_ex (\<lambda>i. starts_with (drop i s) sub) [0..<Suc (length s)]"

definition gate_fault :: "rerr \<Rightarrow> fs_fault" where
  "gate_fault e = (case e of Panic m \<Rightarrow> FsPanic m
     | Err m \<Rightarrow> FsError (if text_contains m '' denied by '' then FsPermissionDenied else FsOther) m)"

section \<open>The gate\<close>

record 'w fs_config =
  fc_hooks :: "'w hook_chain"
  fc_mcp_headers :: "json option"
  fc_passthrough :: bool

definition FS_HOOK_CAPS :: hook_caps where
  "FS_HOOK_CAPS = \<lparr>cp_input_mutation = True, cp_post = False\<rparr>"

definition new_with_hooks :: "'w hook_chain \<Rightarrow> 'w fs_config" where
  "new_with_hooks hooks = \<lparr>fc_hooks = hooks, fc_mcp_headers = None, fc_passthrough = False\<rparr>"

definition opt_field :: "string \<Rightarrow> json option \<Rightarrow> (string \<times> json) list" where
  "opt_field k v = (case v of None \<Rightarrow> [] | Some x \<Rightarrow> [(k, x)])"

text \<open>The fields of the input that are there, in key order.\<close>

definition fs_policy_input :: "string \<Rightarrow> string \<Rightarrow> string option \<Rightarrow> bool option \<Rightarrow> string option \<Rightarrow> json option \<Rightarrow> json" where
  "fs_policy_input op path dest recursive encoding mcp_headers = JObj
     (opt_field ''destination'' (map_option JStr dest) @ opt_field ''encoding'' (map_option JStr encoding)
      @ opt_field ''mcp_headers'' mcp_headers @ [(''operation'', JStr op), (''path'', JStr path)]
      @ opt_field ''recursive'' (map_option JBool recursive))"

record fs_effective =
  fe_path :: string
  fe_destination :: "string option"

text \<open>The effective input read back; a missing or null destination is none.\<close>

definition destination_of :: "json \<Rightarrow> string option option" where
  "destination_of v =
     (case json_get v ''destination'' of None \<Rightarrow> Some None | Some JNull \<Rightarrow> Some None | Some (JStr d) \<Rightarrow> Some (Some d) | Some _ \<Rightarrow> None)"

definition effective_input :: "json \<Rightarrow> fs_effective option" where
  "effective_input v =
     (case (as_str (json_at v ''path''), destination_of v) of
        (Some p, Some d) \<Rightarrow> Some \<lparr>fe_path = p, fe_destination = d\<rparr>
      | _ \<Rightarrow> None)"

definition map_error :: "(string \<Rightarrow> string) \<Rightarrow> 'a result \<times> 's \<Rightarrow> 'a result \<times> 's" where
  "map_error f p = (case p of (Inl (Err m), s) \<Rightarrow> (Inl (Err (f m)), s) | q \<Rightarrow> q)"

definition check_policy ::
  "'w hook_chain \<Rightarrow> string \<Rightarrow> string \<Rightarrow> string option \<Rightarrow> bool option \<Rightarrow> string option \<Rightarrow> json option \<Rightarrow> 'w hook_world
   \<Rightarrow> fs_effective result \<times> 'w hook_world" where
  "check_policy hooks op path dest recursive encoding mcp_headers w =
     (let input = fs_policy_input op path dest recursive encoding mcp_headers in
      bind_st
        (if has_stack hooks then map_error (\<lambda>e. ''fs.'' @ op @ '': '' @ e) (run_stack_gate hooks input Inr w)
         else bind_st (map_error (\<lambda>e. ''fs.'' @ op @ '': hook chain error: '' @ e) (run_pre hooks input w))
           (\<lambda>res w1. case res of
              AllowValue v \<Rightarrow> (Inr v, w1)
            | DenyWith deny \<Rightarrow> (Inl (Err (''fs.'' @ op @ '' '' @ deny @ '': '' @ path @ '' is not allowed'')), w1)))
        (\<lambda>v w1. bind_st (verify_operation v op (''fs.'' @ op), w1)
          (\<lambda>_ w2. case effective_input v of
             None \<Rightarrow> (Inl (Err (''fs.'' @ op @ '': invalid effective input after pre hooks'')), w2)
           | Some eff \<Rightarrow>
              if dest \<noteq> None \<and> fe_destination eff = None
              then (Inl (Err (''fs.'' @ op @ '': pre hook removed '' @ quoted ''destination'' @ '' from the input'')), w2)
              else (Inr eff, w2))))"

end
