(* ===== verification/Fs_Service.thy ===== *)
theory Fs_Service
  imports Fs_Gate
begin

text \<open>
  The filesystem service of a session (\<open>FsService\<close> and the write streams in \<open>src/server/src/engine/fs.rs\<close>): every operation passes the
  gate and then runs on the overlay mount, or on the host filesystem when there is no mount. The host is a record of calls that
  may change the environment. An operation gives \<open>None\<close> only when the fuel of a walk over the mount runs out. Metadata of the host comes
  as the service reads it; a link target is shown in normal form.
\<close>

section \<open>State\<close>

record fs_stat =
  fst_size :: u64
  fst_is_file :: bool
  fst_is_directory :: bool
  fst_is_symlink :: bool
  fst_readonly :: bool
  fst_mode :: u32
  fst_ino :: u64
  fst_dev :: u64
  fst_nlink :: u64
  fst_uid :: u32
  fst_gid :: u32
  fst_times :: "int option list"

text \<open>The four times are those of modification, access, change and birth. Metadata from the mount has none of them.\<close>

definition from_mount :: "stat \<Rightarrow> fs_stat" where
  "from_mount s =
     (let is_symlink = st_symlink s \<noteq> None; bits = and (st_mode s) 0x1FF in
      \<lparr>fst_size = st_size s, fst_is_file = (\<not> st_is_dir s \<and> \<not> is_symlink), fst_is_directory = st_is_dir s, fst_is_symlink = is_symlink,
       fst_readonly = False,
       fst_mode = (if st_is_dir s then or 0x4000 bits else if is_symlink then or 0xA000 bits else or 0x8000 bits),
       fst_ino = 0, fst_dev = 0, fst_nlink = 1, fst_uid = 0, fst_gid = 0, fst_times = [None, None, None, None]\<rparr>)"

type_synonym ('w, 'a) host_call = "'w \<Rightarrow> (io_error + 'a) \<times> 'w"

record 'w host_fs =
  ho_read :: "string \<Rightarrow> ('w, bytes) host_call"
  ho_open :: "string \<Rightarrow> ('w, nat) host_call"
  ho_file_is_dir :: "nat \<Rightarrow> ('w, bool) host_call"
  ho_seek :: "nat \<Rightarrow> u64 \<Rightarrow> ('w, unit) host_call"
  ho_take :: "nat \<Rightarrow> u64 \<Rightarrow> ('w, bytes) host_call"
  ho_canonicalize :: "string \<Rightarrow> ('w, string) host_call"
  ho_write :: "string \<Rightarrow> bytes \<Rightarrow> ('w, unit) host_call"
  ho_open_append :: "string \<Rightarrow> ('w, nat) host_call"
  ho_create :: "string \<Rightarrow> ('w, nat) host_call"
  ho_write_all :: "nat \<Rightarrow> bytes \<Rightarrow> ('w, unit) host_call"
  ho_flush :: "nat \<Rightarrow> ('w, unit) host_call"
  ho_read_dir :: "string \<Rightarrow> ('w, (io_error + string option) list) host_call"
  ho_metadata :: "string \<Rightarrow> ('w, fs_stat) host_call"
  ho_symlink_metadata :: "string \<Rightarrow> ('w, fs_stat) host_call"
  ho_read_link :: "string \<Rightarrow> ('w, string) host_call"
  ho_symlink :: "string \<Rightarrow> string \<Rightarrow> ('w, unit) host_call"
  ho_create_dir :: "string \<Rightarrow> ('w, unit) host_call"
  ho_create_dir_all :: "string \<Rightarrow> ('w, unit) host_call"
  ho_remove_dir :: "string \<Rightarrow> ('w, unit) host_call"
  ho_remove_dir_all :: "string \<Rightarrow> ('w, unit) host_call"
  ho_remove_file :: "string \<Rightarrow> ('w, unit) host_call"
  ho_rename :: "string \<Rightarrow> string \<Rightarrow> ('w, unit) host_call"
  ho_copy :: "string \<Rightarrow> string \<Rightarrow> ('w, u64) host_call"
  ho_try_exists :: "string \<Rightarrow> ('w, bool) host_call"

text \<open>What a service is made of, and the state it works on: the hooks' world with the host in its environment, the blobs, the mount, and the
  open write streams by their handles.\<close>

record 'w fs_service =
  sv_config :: "'w fs_config"
  sv_host :: "'w host_fs"
  sv_env :: fs_env
  sv_fuel :: nat

datatype open_write = OverlayStream string file_writer | HostStream nat

record 'w fs_state =
  fs_world :: "'w hook_world"
  fs_blobs :: blobs
  fs_mount :: "mount option"
  fs_next :: u32
  fs_streams :: "(u32, open_write) btm"

type_synonym ('w, 'a) fs_op = "'w fs_state \<Rightarrow> ((fs_fault + 'a) \<times> 'w fs_state) option"

definition bind_fs :: "('w, 'a) fs_op \<Rightarrow> ('a \<Rightarrow> ('w, 'b) fs_op) \<Rightarrow> ('w, 'b) fs_op" where
  "bind_fs p f s = (case p s of None \<Rightarrow> None | Some (Inl e, s1) \<Rightarrow> Some (Inl e, s1) | Some (Inr x, s1) \<Rightarrow> f x s1)"

definition ok_fs :: "'a \<Rightarrow> ('w, 'a) fs_op" where
  "ok_fs x s = Some (Inr x, s)"

definition fail_fs :: "fs_fault \<Rightarrow> ('w, 'a) fs_op" where
  "fail_fs e s = Some (Inl e, s)"

definition lift_fs :: "(rerr \<Rightarrow> fs_fault) \<Rightarrow> 'a result \<Rightarrow> fs_fault + 'a" where
  "lift_fs g r = (case r of Inl e \<Rightarrow> Inl (g e) | Inr x \<Rightarrow> Inr x)"

definition world_call :: "('w hook_world \<Rightarrow> 'a result \<times> 'w hook_world) \<Rightarrow> (rerr \<Rightarrow> fs_fault) \<Rightarrow> ('w, 'a) fs_op" where
  "world_call f g s = (case f (fs_world s) of (r, w) \<Rightarrow> Some (lift_fs g r, s\<lparr>fs_world := w\<rparr>))"

definition host_call :: "('w, 'a) host_call \<Rightarrow> (io_error \<Rightarrow> fs_fault) \<Rightarrow> ('w, 'a) fs_op" where
  "host_call f g s =
     (case in_env f (fs_world s) of (r, w) \<Rightarrow> Some (case r of Inl e \<Rightarrow> Inl (g e) | Inr x \<Rightarrow> Inr x, s\<lparr>fs_world := w\<rparr>))"

text \<open>A call on the mount: one that reads it, and one that changes it.\<close>

definition mount_query :: "(blobs \<Rightarrow> mount \<Rightarrow> 'a result option) \<Rightarrow> mount \<Rightarrow> (rerr \<Rightarrow> fs_fault) \<Rightarrow> ('w, 'a) fs_op" where
  "mount_query f m g s = (case f (fs_blobs s) m of None \<Rightarrow> None | Some r \<Rightarrow> Some (lift_fs g r, s))"

definition mount_update :: "(blobs \<Rightarrow> mount \<Rightarrow> ('a result \<times> mount) option) \<Rightarrow> mount \<Rightarrow> (rerr \<Rightarrow> fs_fault) \<Rightarrow> ('w, 'a) fs_op" where
  "mount_update f m g s = (case f (fs_blobs s) m of None \<Rightarrow> None | Some (r, m') \<Rightarrow> Some (lift_fs g r, s\<lparr>fs_mount := Some m'\<rparr>))"

definition with_mount :: "(mount \<Rightarrow> ('w, 'a) fs_op) \<Rightarrow> ('w, 'a) fs_op \<Rightarrow> ('w, 'a) fs_op" where
  "with_mount f g s = (case fs_mount s of Some m \<Rightarrow> f m s | None \<Rightarrow> g s)"

text \<open>\<open>Path::new\<close>: the components of a path. A dot only counts at the front of a relative path.\<close>

definition str_path :: "string \<Rightarrow> path" where
  "str_path s =
     (let pieces = path_pieces s;
          part = (\<lambda>p. if p = ''..'' then ParentDir else Normal p) in
      if starts_with s ''/'' then RootDir # map part (filter (\<lambda>p. p \<noteq> [] \<and> p \<noteq> ''.'') pieces)
      else (if hd pieces = ''.'' then [CurDir] else []) @ map part (filter (\<lambda>p. p \<noteq> [] \<and> p \<noteq> ''.'') pieces))"

section \<open>Operations\<close>

definition gate :: "'w fs_service \<Rightarrow> string \<Rightarrow> string \<Rightarrow> string option \<Rightarrow> bool option \<Rightarrow> string option \<Rightarrow> ('w, fs_effective) fs_op" where
  "gate F op path dest recursive encoding =
     world_call (check_policy (fc_hooks (sv_config F)) op path dest recursive encoding (fc_mcp_headers (sv_config F))) gate_fault"

definition gate2 :: "'w fs_service \<Rightarrow> string \<Rightarrow> string \<Rightarrow> string \<Rightarrow> ('w, string \<times> string) fs_op" where
  "gate2 F op from_p to_p =
     bind_fs (gate F op from_p (Some to_p) None None) (\<lambda>eff. ok_fs (fe_path eff, or_default to_p (fe_destination eff)))"

definition read_bytes :: "'w fs_service \<Rightarrow> string \<Rightarrow> string \<Rightarrow> ('w, string \<times> bytes) fs_op" where
  "read_bytes F path0 encoding =
     bind_fs (gate F ''readFile'' path0 None None (Some encoding))
       (\<lambda>eff. let path = fe_path eff;
            from_host = bind_fs (host_call (ho_read (sv_host F) path) (fs_io ''readFile'' path)) (\<lambda>content. ok_fs (path, content)) in
          with_mount
            (\<lambda>m. bind_fs (mount_query (\<lambda>bs m. Some (read_opt (sv_env F) bs m (str_path path))) m (fs_overlay ''readFile'' path))
              (\<lambda>found. case found of
                 Some content \<Rightarrow> ok_fs (path, content)
               | None \<Rightarrow> if \<not> fc_passthrough (sv_config F) then fail_fs (fs_not_found ''readFile'' path) else from_host))
            from_host)"

definition service_read_file :: "'w fs_service \<Rightarrow> string \<Rightarrow> ('w, bytes) fs_op" where
  "service_read_file F path = bind_fs (read_bytes F path ''buffer'') (\<lambda>(_, content). ok_fs content)"

definition read_text :: "'w fs_service \<Rightarrow> string \<Rightarrow> ('w, string) fs_op" where
  "read_text F path0 =
     bind_fs (read_bytes F path0 ''utf8'')
       (\<lambda>(path, content). if utf8_valid content then ok_fs (byte_text content)
         else fail_fs (FsError FsInvalidData (''fs.readFile: invalid UTF-8 in '' @ path)))"

text \<open>A slice of the content; \<open>usize\<close> has 64 bits.\<close>

definition slice_range :: "u64 \<Rightarrow> u64 \<Rightarrow> bytes \<Rightarrow> bytes" where
  "slice_range offset max_bytes content =
     (let start = min (unat offset) (length content);
          stop = min (min (start + unat max_bytes) (2 ^ 64 - 1)) (length content) in
      take (stop - start) (drop start content))"

definition read_range :: "'w fs_service \<Rightarrow> string \<Rightarrow> u64 \<Rightarrow> u64 \<Rightarrow> ('w, bytes) fs_op" where
  "read_range F path0 offset max_bytes =
     bind_fs (gate F ''readFile'' path0 None None (Some ''buffer''))
       (\<lambda>eff. let path = fe_path eff; err = fs_io ''readFile'' path in
          with_mount
            (\<lambda>m. bind_fs (mount_query (\<lambda>bs m. Some (read_opt (sv_env F) bs m (str_path path))) m (fs_overlay ''readFile'' path))
              (\<lambda>found. bind_fs
                 (case found of
                    Some content \<Rightarrow> ok_fs content
                  | None \<Rightarrow> if fc_passthrough (sv_config F) then host_call (ho_read (sv_host F) path) err else fail_fs (fs_not_found ''readFile'' path))
                 (\<lambda>content. ok_fs (slice_range offset max_bytes content))))
            (bind_fs (host_call (ho_open (sv_host F) path) err)
              (\<lambda>fd. bind_fs (host_call (ho_file_is_dir (sv_host F) fd) err)
                (\<lambda>is_dir. if is_dir then fail_fs (err \<lparr>io_kind_of = IoIsADirectory, io_text = ''is a directory''\<rparr>)
                  else bind_fs (host_call (ho_seek (sv_host F) fd offset) err)
                    (\<lambda>_. host_call (ho_take (sv_host F) fd max_bytes) err)))))"

definition canonical_path :: "'w fs_service \<Rightarrow> string \<Rightarrow> ('w, string) fs_op" where
  "canonical_path F path0 =
     bind_fs (gate F ''stat'' path0 None None None)
       (\<lambda>eff. let path = fe_path eff in
          with_mount
            (\<lambda>m. bind_fs (mount_query (\<lambda>bs m. mount_stat (sv_fuel F) (sv_env F) bs m (str_path path)) m (fs_overlay ''stat'' path)) (\<lambda>_. ok_fs path))
            (host_call (ho_canonicalize (sv_host F) path) (fs_io ''stat'' path)))"

definition install_write :: "'w fs_service \<Rightarrow> string \<Rightarrow> bytes \<Rightarrow> mount \<Rightarrow> ('w, unit) fs_op" where
  "install_write F path data m s =
     (case mount_write (sv_env F) (fs_blobs s) m (str_path path) data of (bs', m') \<Rightarrow> Some (Inr (), s\<lparr>fs_blobs := bs', fs_mount := Some m'\<rparr>))"

definition write_file :: "'w fs_service \<Rightarrow> string \<Rightarrow> bytes \<Rightarrow> ('w, unit) fs_op" where
  "write_file F path0 data =
     bind_fs (gate F ''writeFile'' path0 None None None)
       (\<lambda>eff. let path = fe_path eff in
          with_mount (install_write F path data) (host_call (ho_write (sv_host F) path data) (fs_io ''writeFile'' path)))"

text \<open>An append on the mount takes a file that cannot be read as empty.\<close>

definition append_file :: "'w fs_service \<Rightarrow> string \<Rightarrow> bytes \<Rightarrow> ('w, unit) fs_op" where
  "append_file F path0 data =
     bind_fs (gate F ''appendFile'' path0 None None None)
       (\<lambda>eff. let path = fe_path eff; err = fs_io ''appendFile'' path in
          with_mount
            (\<lambda>m s. case mount_read (sv_env F) (fs_blobs s) m (str_path path) of
               Inl (Panic msg) \<Rightarrow> fail_fs (FsPanic msg) s
             | Inl (Err _) \<Rightarrow> install_write F path data m s
             | Inr existing \<Rightarrow> install_write F path (existing @ data) m s)
            (bind_fs (host_call (ho_open_append (sv_host F) path) err)
              (\<lambda>fd. bind_fs (host_call (ho_write_all (sv_host F) fd data) err) (\<lambda>_. host_call (ho_flush (sv_host F) fd) err))))"

fun dir_names :: "(io_error + string option) list \<Rightarrow> io_error + string list" where
  "dir_names [] = Inr []"
| "dir_names (Inl e # es) = Inl e"
| "dir_names (Inr n # es) = (case dir_names es of Inl e \<Rightarrow> Inl e | Inr ns \<Rightarrow> Inr (case n of None \<Rightarrow> ns | Some s \<Rightarrow> s # ns))"

definition service_readdir :: "'w fs_service \<Rightarrow> string \<Rightarrow> ('w, string list) fs_op" where
  "service_readdir F path0 =
     bind_fs (gate F ''readdir'' path0 None None None)
       (\<lambda>eff. let path = fe_path eff in
          with_mount
            (\<lambda>m. mount_query (\<lambda>bs m. readdir (sv_fuel F) (sv_env F) bs m (str_path path)) m (fs_overlay ''readdir'' path))
            (bind_fs (host_call (ho_read_dir (sv_host F) path) (fs_io ''readdir'' path))
              (\<lambda>entries. case dir_names entries of Inl e \<Rightarrow> fail_fs (fs_io ''readdir'' path e) | Inr names \<Rightarrow> ok_fs names)))"

definition service_stat :: "'w fs_service \<Rightarrow> string \<Rightarrow> bool \<Rightarrow> ('w, fs_stat) fs_op" where
  "service_stat F path0 follow =
     (let op = (if follow then ''stat'' else ''lstat'') in
      bind_fs (gate F op path0 None None None)
       (\<lambda>eff. let path = fe_path eff in
          with_mount
            (\<lambda>m. bind_fs (mount_query (\<lambda>bs m. mount_stat (sv_fuel F) (sv_env F) bs m (str_path path)) m (fs_overlay op path)) (\<lambda>s. ok_fs (from_mount s)))
            (host_call (if follow then ho_metadata (sv_host F) path else ho_symlink_metadata (sv_host F) path) (fs_io op path))))"

definition service_readlink :: "'w fs_service \<Rightarrow> string \<Rightarrow> ('w, string) fs_op" where
  "service_readlink F path0 =
     bind_fs (gate F ''readlink'' path0 None None None)
       (\<lambda>eff. let path = fe_path eff in
          with_mount
            (\<lambda>m. bind_fs (mount_query (\<lambda>bs m. Some (readlink (sv_env F) bs m (str_path path))) m (fs_overlay ''readlink'' path))
              (\<lambda>target. ok_fs (path_display target)))
            (host_call (ho_read_link (sv_host F) path) (fs_io ''readlink'' path)))"

definition service_symlink :: "'w fs_service \<Rightarrow> string \<Rightarrow> string \<Rightarrow> ('w, unit) fs_op" where
  "service_symlink F target0 link0 =
     bind_fs (gate2 F ''symlink'' link0 target0)
       (\<lambda>(link, target).
          with_mount
            (\<lambda>m. mount_update (\<lambda>bs m. mount_symlink (sv_fuel F) (sv_env F) bs m (str_path target) (text_bytes target) (str_path link)) m
              (fs_overlay2 ''symlink'' link target))
            (host_call (ho_symlink (sv_host F) target link) (fs_io2 ''symlink'' link target)))"

definition service_mkdir :: "'w fs_service \<Rightarrow> string \<Rightarrow> bool \<Rightarrow> ('w, unit) fs_op" where
  "service_mkdir F path0 recursive =
     bind_fs (gate F ''mkdir'' path0 None (Some recursive) None)
       (\<lambda>eff. let path = fe_path eff in
          with_mount
            (\<lambda>m. mount_update (\<lambda>bs m. Some (mkdir m (str_path path))) m (fs_overlay ''mkdir'' path))
            (host_call (if recursive then ho_create_dir_all (sv_host F) path else ho_create_dir (sv_host F) path) (fs_io ''mkdir'' path)))"

definition service_rm :: "'w fs_service \<Rightarrow> string \<Rightarrow> bool \<Rightarrow> ('w, unit) fs_op" where
  "service_rm F path0 recursive =
     bind_fs (gate F ''rm'' path0 None (Some recursive) None)
       (\<lambda>eff. let path = fe_path eff; err = fs_io ''rm'' path in
          with_mount
            (\<lambda>m. mount_update (\<lambda>bs m. mount_remove (sv_fuel F) (sv_env F) bs m (str_path path) recursive) m (fs_overlay ''rm'' path))
            (bind_fs (host_call (ho_metadata (sv_host F) path) err)
              (\<lambda>md. host_call
                 (if fst_is_directory md then if recursive then ho_remove_dir_all (sv_host F) path else ho_remove_dir (sv_host F) path
                  else ho_remove_file (sv_host F) path) err)))"

definition service_rename :: "'w fs_service \<Rightarrow> string \<Rightarrow> string \<Rightarrow> ('w, unit) fs_op" where
  "service_rename F from0 to0 =
     bind_fs (gate2 F ''rename'' from0 to0)
       (\<lambda>(from_p, to_p).
          with_mount
            (\<lambda>m. mount_update (\<lambda>bs m. rename (sv_fuel F) (sv_env F) bs m (str_path from_p) (str_path to_p)) m (fs_overlay2 ''rename'' from_p to_p))
            (host_call (ho_rename (sv_host F) from_p to_p) (fs_io2 ''rename'' from_p to_p)))"

definition copy_file :: "'w fs_service \<Rightarrow> string \<Rightarrow> string \<Rightarrow> ('w, unit) fs_op" where
  "copy_file F from0 to0 =
     bind_fs (gate2 F ''copyFile'' from0 to0)
       (\<lambda>(from_p, to_p).
          with_mount
            (\<lambda>m. mount_update (\<lambda>bs m. Some (copy (sv_env F) bs m (str_path from_p) (str_path to_p))) m (fs_overlay2 ''copyFile'' from_p to_p))
            (bind_fs (host_call (ho_copy (sv_host F) from_p to_p) (fs_io2 ''copyFile'' from_p to_p)) (\<lambda>_. ok_fs ())))"

definition service_exists :: "'w fs_service \<Rightarrow> string \<Rightarrow> ('w, bool) fs_op" where
  "service_exists F path0 =
     bind_fs (gate F ''exists'' path0 None None None)
       (\<lambda>eff. let path = fe_path eff in
          with_mount
            (\<lambda>m s. case mount_exists (sv_fuel F) (sv_env F) (fs_blobs s) m (str_path path) of None \<Rightarrow> None | Some b \<Rightarrow> Some (Inr b, s))
            (\<lambda>s. case in_env (ho_try_exists (sv_host F) path) (fs_world s) of
                 (r, w) \<Rightarrow> Some (Inr (case r of Inl _ \<Rightarrow> False | Inr b \<Rightarrow> b), s\<lparr>fs_world := w\<rparr>)))"

section \<open>Write streams\<close>

text \<open>An error of a stream has only its message.\<close>

definition plain_fault :: "rerr \<Rightarrow> fs_fault" where
  "plain_fault e = (case e of Panic m \<Rightarrow> FsPanic m | Err m \<Rightarrow> FsError FsOther m)"

definition invalid_handle :: fs_fault where
  "invalid_handle = FsError FsOther ''fs write stream: invalid handle''"

definition register_stream :: "open_write \<Rightarrow> ('w, u32) fs_op" where
  "register_stream ow s = Some (Inr (fs_next s), s\<lparr>fs_next := fs_next s + 1, fs_streams := btm_insert (fs_next s) ow (fs_streams s)\<rparr>)"

definition write_stream_open :: "'w fs_service \<Rightarrow> string \<Rightarrow> ('w, u32) fs_op" where
  "write_stream_open F path0 =
     bind_fs (world_call (check_policy (fc_hooks (sv_config F)) ''writeFile'' path0 None None None (fc_mcp_headers (sv_config F))) plain_fault)
       (\<lambda>eff. let path = fe_path eff in
          with_mount
            (\<lambda>_. register_stream (OverlayStream path writer_new))
            (bind_fs (host_call (ho_create (sv_host F) path) (\<lambda>e. FsError FsOther (io_err ''createWriteStream'' path e)))
              (\<lambda>fd. register_stream (HostStream fd))))"

definition feed_stream :: "'w fs_service \<Rightarrow> u32 \<Rightarrow> bytes \<Rightarrow> ('w, unit) fs_op" where
  "feed_stream F i data s =
     (case btm_get (fs_streams s) i of
        None \<Rightarrow> fail_fs invalid_handle s
      | Some (OverlayStream path w) \<Rightarrow>
         (case feed (sv_env F) data (fs_blobs s, w) of
            (bs', w') \<Rightarrow> Some (Inr (), s\<lparr>fs_blobs := bs', fs_streams := btm_insert i (OverlayStream path w') (fs_streams s)\<rparr>))
      | Some (HostStream fd) \<Rightarrow> host_call (ho_write_all (sv_host F) fd data) (\<lambda>e. FsError FsOther (io_text e)) s)"

definition write_stream_close :: "'w fs_service \<Rightarrow> u32 \<Rightarrow> ('w, unit) fs_op" where
  "write_stream_close F i s =
     (case btm_get (fs_streams s) i of
        None \<Rightarrow> fail_fs invalid_handle s
      | Some ow \<Rightarrow>
         (let s1 = s\<lparr>fs_streams := btm_remove i (fs_streams s)\<rparr> in
          case ow of
            OverlayStream path w \<Rightarrow>
              (case finish_file (sv_env F) (fs_blobs s, w) of
                 (e, bs') \<Rightarrow> Some (Inr (), s1\<lparr>fs_blobs := bs', fs_mount := map_option (put_entry (str_path path) e) (fs_mount s)\<rparr>))
          | HostStream fd \<Rightarrow> host_call (ho_flush (sv_host F) fd) (\<lambda>e. FsError FsOther (io_text e)) s1))"

section \<open>The operations of the guest\<close>

datatype fs_request =
    ReadFile string | ReadText string | ReadRange string u64 u64 | CanonicalPath string | WriteFile string bytes | AppendFile string bytes
  | Readdir string | Stat string bool | Readlink string | Symlink string string | Mkdir string bool | Rm string bool | Rename string string
  | CopyFile string string | Exists string | StreamOpen string

datatype fs_reply = Done | Content bytes | TextContent string | Names "string list" | StatOf fs_stat | Truth bool | Handle u32

definition map_fs :: "('a \<Rightarrow> 'b) \<Rightarrow> ('w, 'a) fs_op \<Rightarrow> ('w, 'b) fs_op" where
  "map_fs f p = bind_fs p (\<lambda>x. ok_fs (f x))"

fun serve :: "'w fs_service \<Rightarrow> fs_request \<Rightarrow> ('w, fs_reply) fs_op" where
  "serve F (ReadFile p) = map_fs Content (service_read_file F p)"
| "serve F (ReadText p) = map_fs TextContent (read_text F p)"
| "serve F (ReadRange p offset n) = map_fs Content (read_range F p offset n)"
| "serve F (CanonicalPath p) = map_fs TextContent (canonical_path F p)"
| "serve F (WriteFile p data) = map_fs (\<lambda>_. Done) (write_file F p data)"
| "serve F (AppendFile p data) = map_fs (\<lambda>_. Done) (append_file F p data)"
| "serve F (Readdir p) = map_fs Names (service_readdir F p)"
| "serve F (Stat p follow) = map_fs StatOf (service_stat F p follow)"
| "serve F (Readlink p) = map_fs TextContent (service_readlink F p)"
| "serve F (Symlink target link) = map_fs (\<lambda>_. Done) (service_symlink F target link)"
| "serve F (Mkdir p rec) = map_fs (\<lambda>_. Done) (service_mkdir F p rec)"
| "serve F (Rm p rec) = map_fs (\<lambda>_. Done) (service_rm F p rec)"
| "serve F (Rename p q) = map_fs (\<lambda>_. Done) (service_rename F p q)"
| "serve F (CopyFile p q) = map_fs (\<lambda>_. Done) (copy_file F p q)"
| "serve F (Exists p) = map_fs Truth (service_exists F p)"
| "serve F (StreamOpen p) = map_fs Handle (write_stream_open F p)"

end
