(* ===== verification/Service_Props.thy ===== *)
theory Service_Props
  imports Fs_Service Hook_Props Mount_Props
begin

text \<open>
  What the filesystem service guarantees: every request is gated, and then is the plain request at the effective paths; contents that are
  written, at once or by a stream, are read back.
\<close>

section \<open>The gate\<close>

lemma bind_fs_Some:
  "bind_fs p f s = Some (r, s') \<longleftrightarrow> (\<exists>e. p s = Some (Inl e, s') \<and> r = Inl e) \<or> (\<exists>x s1. p s = Some (Inr x, s1) \<and> f x s1 = Some (r, s'))"
  by (auto simp: bind_fs_def split: option.splits prod.splits sum.splits)

lemma bind_fs_assoc: "bind_fs (bind_fs p f) g = bind_fs p (\<lambda>x. bind_fs (f x) g)"
  by (rule ext) (auto simp: bind_fs_def split: option.splits prod.splits sum.splits)

lemma bind_ok [simp]: "bind_fs (ok_fs x) f = f x"
  by (rule ext) (simp add: bind_fs_def ok_fs_def)

text \<open>The service without hooks.\<close>

definition open_service :: "'w fs_service \<Rightarrow> 'w fs_service" where
  "open_service F = F\<lparr>sv_config := (sv_config F)\<lparr>fc_hooks := permissive ''filesystem''\<rparr>\<rparr>"

lemma open_service_simps [simp]:
  "sv_host (open_service F) = sv_host F" "sv_env (open_service F) = sv_env F" "sv_fuel (open_service F) = sv_fuel F"
  "fc_passthrough (sv_config (open_service F)) = fc_passthrough (sv_config F)"
  by (simp_all add: open_service_def)

lemma open_install_write [simp]: "install_write (open_service F) = install_write F"
  by (intro ext) (simp add: install_write_def)

lemma policy_input_get:
  "json_get (fs_policy_input op path dest recursive encoding headers) ''operation'' = Some (JStr op)"
  "json_get (fs_policy_input op path dest recursive encoding headers) ''path'' = Some (JStr path)"
  "json_get (fs_policy_input op path dest recursive encoding headers) ''destination'' = map_option JStr dest"
  by (auto simp: fs_policy_input_def json_get_def opt_field_def map_add_def split: option.splits)

lemma effective_policy_input:
  "effective_input (fs_policy_input op path dest recursive encoding headers) = Some \<lparr>fe_path = path, fe_destination = dest\<rparr>"
  by (cases dest) (simp_all add: effective_input_def destination_of_def json_at_def policy_input_get)

lemma pinned_policy_input: "pinned op (fs_policy_input op path dest recursive encoding headers)"
  by (simp add: pinned_def policy_input_get)

lemma permissive_check:
  "check_policy (permissive name) op path dest recursive encoding headers w = (Inr \<lparr>fe_path = path, fe_destination = dest\<rparr>, w)"
  using pinned_policy_input [of op path dest recursive encoding headers]
  by (cases dest) (simp_all add: check_policy_def permissive_def has_stack_def run_pre_def run_pre_with_def map_error_def effective_policy_input
      verify_operation_def pinned_def)

lemma open_gate: "gate (open_service F) op path dest recursive encoding = ok_fs \<lparr>fe_path = path, fe_destination = dest\<rparr>"
  by (rule ext) (simp add: gate_def open_service_def world_call_def permissive_check lift_fs_def ok_fs_def)

definition request_gate :: "fs_request \<Rightarrow> string \<times> string \<times> string option \<times> bool option \<times> string option" where
  "request_gate q = (case q of
     ReadFile p \<Rightarrow> (''readFile'', p, None, None, Some ''buffer'') | ReadText p \<Rightarrow> (''readFile'', p, None, None, Some ''utf8'')
   | ReadRange p _ _ \<Rightarrow> (''readFile'', p, None, None, Some ''buffer'') | CanonicalPath p \<Rightarrow> (''stat'', p, None, None, None)
   | WriteFile p _ \<Rightarrow> (''writeFile'', p, None, None, None) | AppendFile p _ \<Rightarrow> (''appendFile'', p, None, None, None)
   | Readdir p \<Rightarrow> (''readdir'', p, None, None, None) | Stat p follow \<Rightarrow> (if follow then ''stat'' else ''lstat'', p, None, None, None)
   | Readlink p \<Rightarrow> (''readlink'', p, None, None, None) | Symlink target link \<Rightarrow> (''symlink'', link, Some target, None, None)
   | Mkdir p r \<Rightarrow> (''mkdir'', p, None, Some r, None) | Rm p r \<Rightarrow> (''rm'', p, None, Some r, None)
   | Rename p q \<Rightarrow> (''rename'', p, Some q, None, None) | CopyFile p q \<Rightarrow> (''copyFile'', p, Some q, None, None)
   | Exists p \<Rightarrow> (''exists'', p, None, None, None) | StreamOpen p \<Rightarrow> (''writeFile'', p, None, None, None))"

fun redirect :: "fs_effective \<Rightarrow> fs_request \<Rightarrow> fs_request" where
  "redirect eff (ReadFile _) = ReadFile (fe_path eff)"
| "redirect eff (ReadText _) = ReadText (fe_path eff)"
| "redirect eff (ReadRange _ offset n) = ReadRange (fe_path eff) offset n"
| "redirect eff (CanonicalPath _) = CanonicalPath (fe_path eff)"
| "redirect eff (WriteFile _ data) = WriteFile (fe_path eff) data"
| "redirect eff (AppendFile _ data) = AppendFile (fe_path eff) data"
| "redirect eff (Readdir _) = Readdir (fe_path eff)"
| "redirect eff (Stat _ follow) = Stat (fe_path eff) follow"
| "redirect eff (Readlink _) = Readlink (fe_path eff)"
| "redirect eff (Symlink target _) = Symlink (or_default target (fe_destination eff)) (fe_path eff)"
| "redirect eff (Mkdir _ r) = Mkdir (fe_path eff) r"
| "redirect eff (Rm _ r) = Rm (fe_path eff) r"
| "redirect eff (Rename _ q) = Rename (fe_path eff) (or_default q (fe_destination eff))"
| "redirect eff (CopyFile _ q) = CopyFile (fe_path eff) (or_default q (fe_destination eff))"
| "redirect eff (Exists _) = Exists (fe_path eff)"
| "redirect eff (StreamOpen _) = StreamOpen (fe_path eff)"

definition gate_fault_of :: "fs_request \<Rightarrow> rerr \<Rightarrow> fs_fault" where
  "gate_fault_of q = (case q of StreamOpen _ \<Rightarrow> plain_fault | _ \<Rightarrow> gate_fault)"

definition request_check :: "'w fs_service \<Rightarrow> fs_request \<Rightarrow> 'w hook_world \<Rightarrow> fs_effective result \<times> 'w hook_world" where
  "request_check F q = (case request_gate q of (op, p, dest, recursive, encoding) \<Rightarrow>
     check_policy (fc_hooks (sv_config F)) op p dest recursive encoding (fc_mcp_headers (sv_config F)))"

lemma serve_gated:
  "serve F q = bind_fs (world_call (request_check F q) (gate_fault_of q)) (\<lambda>eff. serve (open_service F) (redirect eff q))"
proof (cases q)
  case (StreamOpen p)
  have "world_call (check_policy (fc_hooks (sv_config (open_service F))) op path dest recursive encoding headers) g
      = ok_fs \<lparr>fe_path = path, fe_destination = dest\<rparr>" for op path dest recursive encoding headers g
    by (rule ext) (simp add: open_service_def world_call_def permissive_check lift_fs_def ok_fs_def)
  with StreamOpen show ?thesis
    by (simp add: map_fs_def write_stream_open_def request_check_def request_gate_def gate_fault_of_def bind_fs_assoc)
qed (simp_all add: map_fs_def bind_fs_assoc open_gate request_check_def request_gate_def gate_fault_of_def gate_def [of F] gate2_def Let_def
    service_read_file_def read_text_def read_bytes_def read_range_def canonical_path_def write_file_def append_file_def service_readdir_def
    service_stat_def service_readlink_def service_symlink_def service_mkdir_def service_rm_def service_rename_def copy_file_def service_exists_def
    or_default_def cong: if_cong option.case_cong sum.case_cong rerr.case_cong)

text \<open>A document that passes the check of the filesystem has passed the policy.\<close>

interpretation plain_documents: checked_documents Inr "\<lambda>_. True"
  by unfold_locales simp

lemma map_error_Inr [simp]: "map_error f p = (Inr x, w) \<longleftrightarrow> p = (Inr x, w)"
  by (auto simp: map_error_def split: prod.splits sum.splits rerr.splits)

lemma allow_case:
  "(case res of AllowValue v \<Rightarrow> (Inr v, w1) | DenyWith deny \<Rightarrow> (Inl (f deny), w1)) = (Inr x, w2) \<longleftrightarrow> res = AllowValue x \<and> w1 = w2"
  by (cases res) auto

lemma check_policy_allowed:
  assumes run: "check_policy hooks op path dest recursive encoding headers w = (Inr eff, w')"
    and guarded: "if has_stack hooks then guarded_stack c (hc_stack hooks) else \<exists>hs. hc_pre hooks = hs @ [HookPolicy c]"
  obtains v where "allowed_by c v" and "pinned op v" and "effective_input v = Some eff" and "dest = None \<or> fe_destination eff \<noteq> None"
proof -
  let ?input = "fs_policy_input op path dest recursive encoding headers"
  obtain v w1 where got: "if has_stack hooks then run_stack_gate hooks ?input Inr w = (Inr v, w1) else run_pre hooks ?input w = (Inr (AllowValue v), w1)"
    and rest: "pinned op v" "effective_input v = Some eff" "dest = None \<or> fe_destination eff \<noteq> None"
    using run by (auto simp: check_policy_def Let_def bind_st_eq allow_case split: if_splits option.splits)
  have "\<exists>e. just_allowed c v e"
  proof (cases "has_stack hooks")
    case True
    with got guarded have "run_stack_gate hooks ?input Inr w = (Inr v, w1)" "guarded_stack c (hc_stack hooks)" by simp_all
    from plain_documents.run_stack_gate_allow [OF this TrueI pinned_policy_input] show ?thesis by blast
  next
    case False
    with guarded obtain hs where "hc_pre hooks = hs @ [HookPolicy c]" by auto
    with False got have "run_pre_hooks (hc_op hooks) (hc_input_mutation hooks) Inr (hs @ [HookPolicy c]) ?input w = (Inr (AllowValue v), w1)"
      by (simp add: run_pre_def run_pre_with_def)
    from plain_documents.run_pre_hooks_allow [OF this TrueI] show ?thesis by blast
  qed
  then obtain e where "just_allowed c v e" ..
  from that [OF just_allowed_by [OF this] rest] show thesis .
qed

text \<open>C2. The policies of the filesystem gate every operation of the guest. Whatever a request does, either it fails and changes neither
  mount, blobs nor streams, nor calls the host, or it does exactly what the same request does without any hooks at the paths of a
  document that the policies have allowed, for the operation it was made for. The chain is built from a configuration with policies that
  does not place them itself, and may have pre hooks or a stack that rewrite paths.
\<close>

theorem policy_guards_filesystem:
  assumes built: "build_hook_chain L ''filesystem'' cfg rp lr FS_HOOK_CAPS = Inr (fc_hooks (sv_config F))"
    and policy: "build_policy_chain (policies_of L) (op_mode cfg) (op_policies cfg) rp lr = Inr c"
    and nonempty: "op_policies cfg \<noteq> []" and unplaced: "Builtin ''@policy'' \<notin> set (op_stack cfg)"
    and run: "serve F q s = Some (r, s')"
  shows "(\<exists>e w. request_check F q (fs_world s) = (Inl e, w) \<and> r = Inl (gate_fault_of q e) \<and> s' = s\<lparr>fs_world := w\<rparr>)
    \<or> (\<exists>v eff w. allowed_by c v \<and> pinned (fst (request_gate q)) v \<and> effective_input v = Some eff
        \<and> serve (open_service F) (redirect eff q) (s\<lparr>fs_world := w\<rparr>) = Some (r, s'))"
proof (cases "request_check F q (fs_world s)")
  case (Pair res w)
  show ?thesis
  proof (cases res)
    case (Inl e)
    with Pair run show ?thesis
      by (auto simp: serve_gated [of F q] bind_fs_Some world_call_def lift_fs_def simp del: serve.simps)
  next
    case (Inr eff)
    with Pair run have "serve (open_service F) (redirect eff q) (s\<lparr>fs_world := w\<rparr>) = Some (r, s')"
      by (auto simp: serve_gated [of F q] bind_fs_Some world_call_def lift_fs_def simp del: serve.simps)
    moreover obtain v where "allowed_by c v" "pinned (fst (request_gate q)) v" "effective_input v = Some eff"
      using Pair Inr unfolding request_check_def
      by (auto split: prod.splits elim!: check_policy_allowed [OF _ built_chain_guarded [OF built policy nonempty unplaced]])
    ultimately show ?thesis by blast
  qed
qed
text \<open>A pre hook that moves every write below \<open>/work\<close>, and a policy that only allows that.\<close>

definition work_hook :: "'w evaluator" where
  "work_hook input e = (Inr (Some (JObj [(''input'', JObj [(''operation'', json_at input ''operation''), (''path'', JStr ''/work/a'')])])), e)"

definition work_policy :: "'w evaluator" where
  "work_policy input e = (Inr (Some (JBool (json_at input ''path'' = JStr ''/work/a''))), e)"

definition work_loader :: "nat hook_loader" where
  "work_loader = \<lparr>pl_remote = (\<lambda>url path input e. (OpaLost [], e)), pl_local = (\<lambda>path rule. Inr work_policy),
     hl_rego = (\<lambda>path rule. Inr work_hook), hl_remote = (\<lambda>url path input e. (Inl (Err []), e)), hl_read = (\<lambda>path. Inr []),
     hl_js = (\<lambda>f args e. (Inl (Err []), e)), hl_layer = (\<lambda>f input e. JsFail [] e), hl_executor = (\<lambda>f input e. (Inl (Err []), e))\<rparr>"

definition work_policies :: operation_policies where
  "work_policies = \<lparr>op_mode = AnyMode, op_policies = [\<lparr>ps_url = ''file:///p.rego'', ps_policy_path = None, ps_rule = None\<rparr>],
     op_pre = [\<lparr>hs_url = ''file:///h.rego'', hs_policy_path = None, hs_rule = None, hs_timeout_ms = None, hs_capabilities = None\<rparr>],
     op_post = [], op_stack = []\<rparr>"

definition work_chain :: "nat policy_chain" where
  "work_chain = \<lparr>pc_evaluators = [PolicyLocal work_policy], pc_mode = AnyMode\<rparr>"

definition missing :: "('w, 'a) host_call" where
  "missing e = (Inl \<lparr>io_kind_of = IoNotFound, io_text = []\<rparr>, e)"

definition no_host :: "nat host_fs" where
  "no_host = \<lparr>ho_read = (\<lambda>_. missing), ho_open = (\<lambda>_. missing), ho_file_is_dir = (\<lambda>_. missing), ho_seek = (\<lambda>_ _. missing),
     ho_take = (\<lambda>_ _. missing), ho_canonicalize = (\<lambda>_. missing), ho_write = (\<lambda>_ _. missing), ho_open_append = (\<lambda>_. missing),
     ho_create = (\<lambda>_. missing), ho_write_all = (\<lambda>_ _. missing), ho_flush = (\<lambda>_. missing), ho_read_dir = (\<lambda>_. missing),
     ho_metadata = (\<lambda>_. missing), ho_symlink_metadata = (\<lambda>_. missing), ho_read_link = (\<lambda>_. missing), ho_symlink = (\<lambda>_ _. missing),
     ho_create_dir = (\<lambda>_. missing), ho_create_dir_all = (\<lambda>_. missing), ho_remove_dir = (\<lambda>_. missing), ho_remove_dir_all = (\<lambda>_. missing),
     ho_remove_file = (\<lambda>_. missing), ho_rename = (\<lambda>_ _. missing), ho_copy = (\<lambda>_ _. missing), ho_try_exists = (\<lambda>_. missing)\<rparr>"

definition work_service :: "nat fs_service" where
  "work_service = \<lparr>sv_config = new_with_hooks \<lparr>hc_op = ''filesystem'', hc_pre = [HookLocal work_hook, HookPolicy work_chain], hc_post = [],
     hc_input_mutation = True, hc_stack = []\<rparr>, sv_host = no_host, sv_env = plain_env, sv_fuel = 0\<rparr>"

definition fresh_state :: "nat fs_state" where
  "fresh_state = \<lparr>fs_world = \<lparr>hw_env = 0, hw_captured = None\<rparr>, fs_blobs = Map.empty, fs_mount = Some empty_mount, fs_next = 0, fs_streams = []\<rparr>"

lemma work_built:
  "build_hook_chain work_loader ''filesystem'' work_policies [] [] FS_HOOK_CAPS = Inr (fc_hooks (sv_config work_service))"
  "build_policy_chain (policies_of work_loader) (op_mode work_policies) (op_policies work_policies) [] [] = Inr work_chain"
  "op_policies work_policies \<noteq> []" "Builtin ''@policy'' \<notin> set (op_stack work_policies)"
  by (simp_all add: work_loader_def work_policies_def work_service_def work_chain_def FS_HOOK_CAPS_def new_with_hooks_def build_hook_chain_def
      build_hook_def is_js_def file_path_def starts_with_def path_extension_def build_policy_chain_def build_evaluator_def is_http_def
      or_default_def phase_defaults_def strip_suffix_def ends_with_def policy_loader.defs)

lemma work_check:
  "request_check work_service (WriteFile ''/x'' [1]) w = (Inr \<lparr>fe_path = ''/work/a'', fe_destination = None\<rparr>, w)"
  by (simp add: request_check_def request_gate_def check_policy_def work_service_def new_with_hooks_def has_stack_def run_pre_def run_pre_with_def
      run_hook_def fs_policy_input_def opt_field_def work_hook_def in_env_def run_answer_def parse_hook_result_def allow_field_def reason_field_def
      replacement_field_def wrong_key_def replacement_key_def json_at_def json_get_def work_chain_def chain_evaluate_def evaluate_policy_def
      evaluate_local_def work_policy_def map_error_def verify_operation_def effective_input_def destination_of_def)

theorem policy_guards_filesystem_witness:
  "\<exists>v eff w r s'. serve work_service (WriteFile ''/x'' [1]) fresh_state = Some (r, s') \<and> allowed_by work_chain v \<and> pinned ''writeFile'' v
    \<and> effective_input v = Some eff \<and> serve (open_service work_service) (redirect eff (WriteFile ''/x'' [1])) (fresh_state\<lparr>fs_world := w\<rparr>) = Some (r, s')"
proof -
  have "\<exists>r s'. serve work_service (WriteFile ''/x'' [1]) fresh_state = Some (r, s')"
    unfolding serve_gated [of work_service "WriteFile ''/x'' [1]"]
    by (simp add: bind_fs_def world_call_def work_check lift_fs_def map_fs_def write_file_def open_gate with_mount_def
        fresh_state_def install_write_def ok_fs_def Let_def split: prod.splits)
  then obtain r s' where run: "serve work_service (WriteFile ''/x'' [1]) fresh_state = Some (r, s')" by blast
  from policy_guards_filesystem [OF work_built run] run show ?thesis
    by (auto simp: work_check request_gate_def simp del: serve.simps)
qed
section \<open>Streams\<close>













lemma plain_content_ok: "content_env_ok plain_env" "chunks_addressed plain_env Map.empty" "mount_ok plain_env Map.empty empty_mount"
  using plain_env_ok by (simp_all add: chunks_addressed_def mount_ok_def empty_mount_def root_solid_def)

definition plain_service :: "nat fs_service" where
  "plain_service = \<lparr>sv_config = new_with_hooks (permissive ''filesystem''), sv_host = no_host, sv_env = plain_env, sv_fuel = 0\<rparr>"


section \<open>Appending\<close>

text \<open>The content that a mount gives under a path, if any.\<close>

lemma read_opt_read:
  "read_opt env bs m p = Inr (Some b) \<longleftrightarrow> mount_read env bs m p = Inr b"
  by (auto simp: read_opt_def mount_read_def Let_def split: sum.splits option.splits)

lemma open_read_mount:
  assumes "fs_mount s = Some m" and "mount_read (sv_env F) (fs_blobs s) m (str_path p) = Inr b"
  shows "service_read_file (open_service F) p s = Some (Inr b, s)"
  using assms by (simp add: service_read_file_def read_bytes_def open_gate with_mount_def mount_query_def bind_fs_def lift_fs_def ok_fs_def
      Let_def flip: read_opt_read)

lemma open_read_host:
  assumes "fs_mount s = Some m" and "read_opt (sv_env F) (fs_blobs s) m (str_path p) = Inr None" and "fc_passthrough (sv_config F)"
    and "ho_read (sv_host F) p (hw_env (fs_world s)) = (Inr c, hw_env (fs_world s))"
  shows "service_read_file (open_service F) p s = Some (Inr c, s)"
  using assms by (simp add: service_read_file_def read_bytes_def open_gate with_mount_def mount_query_def bind_fs_def lift_fs_def ok_fs_def
      Let_def host_call_def in_env_def)

abbreviation reads :: "'w fs_service \<Rightarrow> string \<Rightarrow> ('w, bytes) fs_op" where
  "reads F p \<equiv> service_read_file (open_service F) p"

text \<open>C38. Appending on the mount. A file of the mount is extended by the data and reads so. A path that the mount cannot read is taken as
  empty, without an error: when reads fall through to the host, a file that the guest reads there before loses that content
  by an append, and reads as the appended data alone.
\<close>

theorem append_effect:
  assumes env: "content_env_ok (sv_env F)" and ad: "chunks_addressed (sv_env F) (fs_blobs s)"
    and m: "fs_mount s = Some m" "mount_ok (sv_env F) (fs_blobs s) m"
  shows "\<exists>r s'. append_file (open_service F) p d s = Some (r, s') \<and>
    (case mount_read (sv_env F) (fs_blobs s) m (str_path p) of
       Inr b \<Rightarrow> r = Inr () \<and> reads F p s = Some (Inr b, s) \<and> reads F p s' = Some (Inr (b @ d), s')
     | Inl (Err _) \<Rightarrow> r = Inr () \<and> reads F p s' = Some (Inr d, s')
     | Inl (Panic msg) \<Rightarrow> r = Inl (FsPanic msg) \<and> s' = s) \<and>
    (\<forall>c. mview (sv_env F) (fs_blobs s) m (components_of (str_path p)) = None \<and> fc_passthrough (sv_config F)
         \<and> ho_read (sv_host F) p (hw_env (fs_world s)) = (Inr c, hw_env (fs_world s)) \<longrightarrow>
       reads F p s = Some (Inr c, s) \<and> reads F p s' = Some (Inr d, s'))"
proof -
  let ?p = "str_path p"
  have installed: "\<exists>s'. install_write F p x m s = Some (Inr (), s') \<and> reads F p s' = Some (Inr x, s')" for x
  proof -
    obtain bs' m' where w: "mount_write (sv_env F) (fs_blobs s) m ?p x = (bs', m')" by fastforce
    from write_then_read [OF env ad m(2) w] show ?thesis
      by (auto simp: install_write_def w intro!: open_read_mount)
  qed
  have append: "append_file (open_service F) p d s = (case mount_read (sv_env F) (fs_blobs s) m ?p of
      Inl (Panic msg) \<Rightarrow> Some (Inl (FsPanic msg), s) | Inl (Err _) \<Rightarrow> install_write F p d m s | Inr b \<Rightarrow> install_write F p (b @ d) m s)"
    using m(1) by (simp add: append_file_def open_gate with_mount_def fail_fs_def Let_def split: sum.splits rerr.splits)
  have missing: "mount_read (sv_env F) (fs_blobs s) m ?p = Inl (enoent (path_of (components_of ?p)))"
    and host: "read_opt (sv_env F) (fs_blobs s) m ?p = Inr None" if "mview (sv_env F) (fs_blobs s) m (components_of ?p) = None"
    using effective_view [OF m(2), of "components_of ?p"] that by (simp_all add: mount_read_def read_opt_def Let_def)
  show ?thesis
  proof (cases "mount_read (sv_env F) (fs_blobs s) m ?p")
    case (Inr b)
    with installed [of "b @ d"] append missing open_read_mount [OF m(1) Inr] show ?thesis by auto
  next
    case (Inl e)
    with installed [of d] append missing host open_read_host [OF m(1)] show ?thesis
      by (cases e) (auto simp: enoent_def)
  qed
qed

definition lower_service :: "nat fs_service" where
  "lower_service = plain_service\<lparr>sv_config := (sv_config plain_service)\<lparr>fc_passthrough := True\<rparr>, sv_host := no_host\<lparr>ho_read := \<lambda>p e. (Inr [1], e)\<rparr>\<rparr>"

theorem append_effect_witness:
  "\<exists>s'. append_file (open_service lower_service) ''/a'' [2] fresh_state = Some (Inr (), s')
    \<and> service_read_file (open_service lower_service) ''/a'' fresh_state = Some (Inr [1], fresh_state)
    \<and> service_read_file (open_service lower_service) ''/a'' s' = Some (Inr [2], s')"
proof -
  have env: "sv_env lower_service = plain_env" by (simp add: lower_service_def plain_service_def)
  have ok: "content_env_ok (sv_env lower_service)" "chunks_addressed (sv_env lower_service) (fs_blobs fresh_state)"
    "fs_mount fresh_state = Some empty_mount" "mount_ok (sv_env lower_service) (fs_blobs fresh_state) empty_mount"
    using plain_content_ok by (simp_all add: env fresh_state_def)
  have "components_of (str_path ''/a'') = [''a'']" by code_simp
  then have view: "mview (sv_env lower_service) (fs_blobs fresh_state) empty_mount (components_of (str_path ''/a'')) = None"
    by (simp add: mview_def empty_mount_def)
  have "mount_read (sv_env lower_service) (fs_blobs fresh_state) empty_mount (str_path ''/a'') = Inl (enoent [Normal ''a''])"
    using effective_view [OF ok(4), of "[''a'']"] view by (simp add: mount_read_def \<open>components_of (str_path ''/a'') = [''a'']\<close> path_of_map)
  with append_effect [OF ok, of "''/a''" "[2]"] view show ?thesis
    by (auto simp: enoent_def lower_service_def fresh_state_def)
qed

end
