(* ===== verification/Token_Source.thy ===== *)
theory Token_Source
  imports Prelude
begin

text \<open>
  The source of OAuth tokens for header rules (\<open>src/server/src/engine/fetch_auth.rs\<close>): callers share one token, and one request for a
  new one. The token endpoint, the clock and the decoder of JWT claims are arguments. Times are in nanoseconds around the
  epoch; a \<open>SystemTime\<close> has 64 bits of signed seconds. Generations are unbounded here, as \<open>2 ^ 64\<close> requests are never made.
\<close>

section \<open>Tokens\<close>

type_synonym instant = int

definition NANOS :: int where "NANOS = 1000000000"

definition time_add :: "instant \<Rightarrow> u64 \<Rightarrow> instant option" where
  "time_add t secs = (let r = t + uint secs * NANOS in if r < 2 ^ 63 * NANOS then Some r else None)"

definition time_sub :: "instant \<Rightarrow> u64 \<Rightarrow> instant option" where
  "time_sub t secs = (let r = t - uint secs * NANOS in if - (2 ^ 63) * NANOS \<le> r then Some r else None)"

record token_config =
  tc_token_url :: string
  tc_client_id :: string
  tc_client_secret :: string
  tc_scope :: "string option"
  tc_refresh_buffer_secs :: u64

record cached_token =
  ct_access_token :: string
  ct_token_type :: string
  ct_refresh_token :: "string option"
  ct_expires_at :: instant

definition header_value :: "cached_token \<Rightarrow> string" where
  "header_value t = ct_token_type t @ '' '' @ ct_access_token t"

definition token_is_valid :: "instant \<Rightarrow> u64 \<Rightarrow> cached_token \<Rightarrow> bool" where
  "token_is_valid now buffer t = (case time_sub (ct_expires_at t) buffer of Some refresh_at \<Rightarrow> now < refresh_at | None \<Rightarrow> False)"

section \<open>Requests\<close>

datatype token_grant = ClientCredentials | RefreshToken string

fun grant_type :: "token_grant \<Rightarrow> string" where
  "grant_type ClientCredentials = ''client_credentials''"
| "grant_type (RefreshToken _) = ''refresh_token''"

fun grant_refresh_token :: "token_grant \<Rightarrow> string option" where
  "grant_refresh_token ClientCredentials = None"
| "grant_refresh_token (RefreshToken r) = Some r"

record token_payload =
  tp_access_token :: string
  tp_token_type :: "string option"
  tp_expires_in :: "u64 option"
  tp_refresh_token :: "string option"

text \<open>What came back: nothing, an error status with the text of its body, or a body that may not decode, with the time at which it was read.\<close>

datatype token_reply =
    TokenLost string
  | TokenStatus string string
  | TokenInvalid string
  | TokenPayload token_payload instant

definition token_form :: "token_config \<Rightarrow> token_grant \<Rightarrow> (string \<times> string) list" where
  "token_form c g =
     [(''grant_type'', grant_type g), (''client_id'', tc_client_id c), (''client_secret'', tc_client_secret c)]
     @ (case grant_refresh_token g of None \<Rightarrow> [] | Some r \<Rightarrow> [(''refresh_token'', r)])
     @ (if g = ClientCredentials then case tc_scope c of None \<Rightarrow> [] | Some s \<Rightarrow> [(''scope'', s)] else [])"

definition derive_expiry :: "(string \<Rightarrow> string + u64) \<Rightarrow> instant \<Rightarrow> string \<Rightarrow> u64 option \<Rightarrow> string + instant" where
  "derive_expiry jwt_exp now access_token expires_in =
     (case expires_in of
        Some secs \<Rightarrow> (case time_add now secs of Some t \<Rightarrow> Inr t | None \<Rightarrow> Inl ''token expiry overflowed system clock'')
      | None \<Rightarrow>
         (case jwt_exp access_token of
            Inl e \<Rightarrow> Inl (''token response missing expires_in and JWT exp could not be decoded: '' @ e)
          | Inr secs \<Rightarrow> (case time_add 0 secs of Some t \<Rightarrow> Inr t | None \<Rightarrow> Inl ''token JWT exp overflowed system clock'')))"

definition token_type_of :: "string option \<Rightarrow> string" where
  "token_type_of v = (case v of None \<Rightarrow> ''Bearer'' | Some s \<Rightarrow> if trim s = [] then ''Bearer'' else trim s)"

definition read_token :: "(string \<Rightarrow> string + u64) \<Rightarrow> token_reply \<Rightarrow> string + cached_token" where
  "read_token jwt_exp reply =
     (case reply of
        TokenLost e \<Rightarrow> Inl (''token request failed: '' @ e)
      | TokenStatus status body \<Rightarrow> Inl (''token endpoint returned '' @ status @ '': '' @ body)
      | TokenInvalid e \<Rightarrow> Inl (''token response JSON was invalid: '' @ e)
      | TokenPayload p now \<Rightarrow>
         (case derive_expiry jwt_exp now (tp_access_token p) (tp_expires_in p) of
            Inl e \<Rightarrow> Inl e
          | Inr expires_at \<Rightarrow> Inr \<lparr>ct_access_token = tp_access_token p, ct_token_type = token_type_of (tp_token_type p),
              ct_refresh_token = tp_refresh_token p, ct_expires_at = expires_at\<rparr>))"

type_synonym 'w endpoint = "string \<Rightarrow> (string \<times> string) list \<Rightarrow> 'w \<Rightarrow> token_reply \<times> 'w"

definition fetch_token ::
  "(string \<Rightarrow> string + u64) \<Rightarrow> 'w endpoint \<Rightarrow> token_config \<Rightarrow> token_grant \<Rightarrow> 'w \<Rightarrow> (string + cached_token) \<times> 'w" where
  "fetch_token jwt_exp post c g w = (case post (tc_token_url c) (token_form c g) w of (reply, w1) \<Rightarrow> (read_token jwt_exp reply, w1))"

text \<open>With a refresh token that is tried first, and kept when the endpoint sends no new one.\<close>

definition refresh_or_reacquire ::
  "(string \<Rightarrow> string + u64) \<Rightarrow> 'w endpoint \<Rightarrow> token_config \<Rightarrow> string option \<Rightarrow> 'w \<Rightarrow> (string + cached_token) \<times> 'w" where
  "refresh_or_reacquire jwt_exp post c refresh_token w =
     (case refresh_token of
        None \<Rightarrow> fetch_token jwt_exp post c ClientCredentials w
      | Some r \<Rightarrow>
         (case fetch_token jwt_exp post c (RefreshToken r) w of
            (Inr t, w1) \<Rightarrow> (Inr (if ct_refresh_token t = None then t\<lparr>ct_refresh_token := Some r\<rparr> else t), w1)
          | (Inl refresh_error, w1) \<Rightarrow>
             (case fetch_token jwt_exp post c ClientCredentials w1 of
                (Inr t, w2) \<Rightarrow> (Inr t, w2)
              | (Inl e, w2) \<Rightarrow> (Inl (''token refresh failed: '' @ refresh_error @ ''; token reacquire failed: '' @ e), w2))))"

section \<open>The shared state\<close>

record token_state =
  ts_cached :: "cached_token option"
  ts_in_flight :: "nat option"
  ts_next :: nat
  ts_failures :: "(nat \<times> string) list"

definition token_state_new :: token_state where
  "token_state_new = \<lparr>ts_cached = None, ts_in_flight = None, ts_next = 0, ts_failures = []\<rparr>"

definition MAX_RECORDED_FAILURES :: nat where "MAX_RECORDED_FAILURES = 8"

definition remember_failure :: "nat \<Rightarrow> string \<Rightarrow> token_state \<Rightarrow> token_state" where
  "remember_failure g e st =
     (if map_of (ts_failures st) g \<noteq> None then st\<lparr>ts_failures := map (\<lambda>(g', e'). (g', if g' = g then e else e')) (ts_failures st)\<rparr>
      else st\<lparr>ts_failures := (if MAX_RECORDED_FAILURES \<le> length (ts_failures st) then tl (ts_failures st) else ts_failures st) @ [(g, e)]\<rparr>)"

datatype resolution = Applied | AlreadyFailed string | Stale

definition apply_in_flight_result :: "nat \<Rightarrow> string + cached_token \<Rightarrow> token_state \<Rightarrow> resolution \<times> token_state" where
  "apply_in_flight_result g res st =
     (case map_of (ts_failures st) g of
        Some e \<Rightarrow> (AlreadyFailed e, st)
      | None \<Rightarrow>
         if ts_in_flight st \<noteq> Some g then (Stale, st)
         else (Applied,
           case res of
             Inr t \<Rightarrow> st\<lparr>ts_in_flight := None, ts_cached := Some t\<rparr>
           | Inl e \<Rightarrow> remember_failure g e (st\<lparr>ts_in_flight := None, ts_cached := None\<rparr>)))"

text \<open>The section of a caller up to its wait: a value from the cache, or a generation to wait for, which may be a new request with its refresh token.\<close>

datatype entered = FromCache string | Joined nat | Started nat "string option"

definition enter :: "token_config \<Rightarrow> instant \<Rightarrow> token_state \<Rightarrow> entered \<times> token_state" where
  "enter c now st =
     (case ts_cached st of
        Some t \<Rightarrow> if token_is_valid now (tc_refresh_buffer_secs c) t then (FromCache (header_value t), st)
          else (case ts_in_flight st of
             Some g \<Rightarrow> (Joined g, st)
           | None \<Rightarrow> (Started (ts_next st) (ct_refresh_token t), st\<lparr>ts_next := ts_next st + 1, ts_in_flight := Some (ts_next st)\<rparr>))
      | None \<Rightarrow>
         (case ts_in_flight st of
            Some g \<Rightarrow> (Joined g, st)
          | None \<Rightarrow> (Started (ts_next st) None, st\<lparr>ts_next := ts_next st + 1, ts_in_flight := Some (ts_next st)\<rparr>)))"

text \<open>The section after the wait: what is returned, or nothing when the loop goes on.\<close>

definition leave :: "nat \<Rightarrow> string + cached_token \<Rightarrow> token_state \<Rightarrow> (string + string) option \<times> token_state" where
  "leave g res st =
     (case apply_in_flight_result g res st of
        (Applied, st1) \<Rightarrow> (Some (map_sum id header_value res), st1)
      | (AlreadyFailed e, st1) \<Rightarrow> (Some (Inl e), st1)
      | (Stale, st1) \<Rightarrow> (None, st1))"

section \<open>Callers\<close>

text \<open>
  A run of callers \<open>'c\<close>: they enter and leave, enter again when the loop goes on, may be dropped while they wait, and may call again; a request ends at any time with any
  result; the clock moves. What the requests gave and what the callers got is recorded.
\<close>

datatype 'c token_event =
    Enter 'c
  | Complete nat "string + cached_token"
  | Leave 'c
  | DropCall 'c
  | Tick instant

record 'c token_run =
  tr_state :: token_state
  tr_now :: instant
  tr_waits :: "'c \<Rightarrow> nat option"
  tr_results :: "nat \<Rightarrow> (string + cached_token) option"
  tr_requests :: "(nat \<times> string option) list"
  tr_returns :: "('c \<times> (string + string) \<times> instant) list"

definition token_run_new :: "instant \<Rightarrow> 'c token_run" where
  "token_run_new now = \<lparr>tr_state = token_state_new, tr_now = now, tr_waits = (\<lambda>_. None), tr_results = (\<lambda>_. None), tr_requests = [], tr_returns = []\<rparr>"

fun token_step :: "token_config \<Rightarrow> 'c token_event \<Rightarrow> 'c token_run \<Rightarrow> 'c token_run" where
  "token_step c (Enter i) r =
     (if tr_waits r i \<noteq> None then r
      else case enter c (tr_now r) (tr_state r) of
        (FromCache v, st) \<Rightarrow> r\<lparr>tr_state := st, tr_returns := tr_returns r @ [(i, Inr v, tr_now r)]\<rparr>
      | (Joined g, st) \<Rightarrow> r\<lparr>tr_state := st, tr_waits := (tr_waits r)(i := Some g)\<rparr>
      | (Started g refresh, st) \<Rightarrow>
          r\<lparr>tr_state := st, tr_waits := (tr_waits r)(i := Some g), tr_requests := tr_requests r @ [(g, refresh)]\<rparr>)"
| "token_step c (Complete g res) r =
     (if g \<in> fst ` set (tr_requests r) \<and> tr_results r g = None then r\<lparr>tr_results := (tr_results r)(g := Some res)\<rparr> else r)"
| "token_step c (Leave i) r =
     (case tr_waits r i of
        None \<Rightarrow> r
      | Some g \<Rightarrow>
         (case tr_results r g of
            None \<Rightarrow> r
          | Some res \<Rightarrow>
             (case leave g res (tr_state r) of
                (Some v, st) \<Rightarrow> r\<lparr>tr_state := st, tr_waits := (tr_waits r)(i := None), tr_returns := tr_returns r @ [(i, v, tr_now r)]\<rparr>
              | (None, st) \<Rightarrow> r\<lparr>tr_state := st, tr_waits := (tr_waits r)(i := None)\<rparr>)))"
| "token_step c (DropCall i) r = r\<lparr>tr_waits := (tr_waits r)(i := None)\<rparr>"
| "token_step c (Tick now) r = r\<lparr>tr_now := now\<rparr>"

end
