(* ===== verification/Token_Props.thy ===== *)
theory Token_Props
  imports Token_Source
begin

text \<open>What callers of a token source can rely on, over any run of them.\<close>

section \<open>The shared state\<close>

text \<open>Of the requests made so far only the newest can be unfinished, and it is the one in flight; what is remembered was answered.\<close>

definition source_inv :: "token_state \<Rightarrow> (nat \<Rightarrow> (string + cached_token) option) \<Rightarrow> bool" where
  "source_inv st results \<longleftrightarrow>
     (\<forall>g. results g \<noteq> None \<longrightarrow> g < ts_next st)
     \<and> (\<forall>g < ts_next st. results g = None \<longrightarrow> ts_in_flight st = Some g)
     \<and> (\<forall>g. ts_in_flight st = Some g \<longrightarrow> Suc g = ts_next st)
     \<and> (\<forall>t. ts_cached st = Some t \<longrightarrow> (\<exists>g. results g = Some (Inr t)))
     \<and> (\<forall>g e. (g, e) \<in> set (ts_failures st) \<longrightarrow> results g = Some (Inl e))
     \<and> length (ts_failures st) \<le> MAX_RECORDED_FAILURES"

lemma source_invI:
  assumes "\<And>g. results g \<noteq> None \<Longrightarrow> g < ts_next st"
    and "\<And>g. g < ts_next st \<Longrightarrow> results g = None \<Longrightarrow> ts_in_flight st = Some g"
    and "\<And>g. ts_in_flight st = Some g \<Longrightarrow> Suc g = ts_next st"
    and "\<And>t. ts_cached st = Some t \<Longrightarrow> \<exists>g. results g = Some (Inr t)"
    and "\<And>g e. (g, e) \<in> set (ts_failures st) \<Longrightarrow> results g = Some (Inl e)"
    and "length (ts_failures st) \<le> MAX_RECORDED_FAILURES"
  shows "source_inv st results"
  using assms unfolding source_inv_def by blast

lemma source_invD:
  assumes "source_inv st results"
  shows "\<And>g. results g \<noteq> None \<Longrightarrow> g < ts_next st"
    and "\<And>g. g < ts_next st \<Longrightarrow> results g = None \<Longrightarrow> ts_in_flight st = Some g"
    and "\<And>g. ts_in_flight st = Some g \<Longrightarrow> Suc g = ts_next st"
    and "\<And>t. ts_cached st = Some t \<Longrightarrow> \<exists>g. results g = Some (Inr t)"
    and "\<And>g e. (g, e) \<in> set (ts_failures st) \<Longrightarrow> results g = Some (Inl e)"
    and "length (ts_failures st) \<le> MAX_RECORDED_FAILURES"
  using assms unfolding source_inv_def by blast+

lemma enter_cases:
  assumes "enter c now st = (x, st')"
  obtains t where "x = FromCache (header_value t)" and "ts_cached st = Some t" and "token_is_valid now (tc_refresh_buffer_secs c) t" and "st' = st"
    | g where "x = Joined g" and "ts_in_flight st = Some g" and "st' = st"
    | refresh where "x = Started (ts_next st) refresh" and "ts_in_flight st = None"
      and "st' = st\<lparr>ts_next := ts_next st + 1, ts_in_flight := Some (ts_next st)\<rparr>"
proof (cases "\<exists>t. ts_cached st = Some t \<and> token_is_valid now (tc_refresh_buffer_secs c) t")
  case True
  then obtain t where t: "ts_cached st = Some t" "token_is_valid now (tc_refresh_buffer_secs c) t" by blast
  with assms have "x = FromCache (header_value t)" "st' = st" by (simp_all add: enter_def)
  with that(1) t show thesis by blast
next
  case False
  show thesis
  proof (cases "ts_in_flight st")
    case None
    with False assms have "x = Started (ts_next st) (case ts_cached st of None \<Rightarrow> None | Some t \<Rightarrow> ct_refresh_token t)"
      "st' = st\<lparr>ts_next := ts_next st + 1, ts_in_flight := Some (ts_next st)\<rparr>"
      by (simp_all add: enter_def split: option.splits)
    with None that(3) show thesis by blast
  next
    case (Some g)
    with False assms have "x = Joined g" "st' = st" by (simp_all add: enter_def split: option.splits)
    with Some that(2) show thesis by blast
  qed
qed

lemma enter_source:
  assumes inv: "source_inv st results" and run: "enter c now st = (x, st')"
  shows "source_inv st' results"
  using run
proof (cases rule: enter_cases)
  case (3 refresh)
  show ?thesis unfolding 3(3)
  proof (rule source_invI)
    fix g assume "g < ts_next (st\<lparr>ts_next := ts_next st + 1, ts_in_flight := Some (ts_next st)\<rparr>)" "results g = None"
    with source_invD(2) [OF inv, of g] 3(2) show "ts_in_flight (st\<lparr>ts_next := ts_next st + 1, ts_in_flight := Some (ts_next st)\<rparr>) = Some g"
      by (auto simp: less_Suc_eq)
  qed (use source_invD [OF inv] in \<open>auto intro: less_SucI\<close>)
qed (use inv in simp_all)

lemma answer_source:
  assumes inv: "source_inv st results" and "g < ts_next st" and "results g = None"
  shows "source_inv st (results(g := Some res))"
proof (rule source_invI)
  fix t assume "ts_cached st = Some t"
  with source_invD(4) [OF inv] obtain g' where "results g' = Some (Inr t)" by blast
  with assms(3) show "\<exists>g'. (results(g := Some res)) g' = Some (Inr t)" by (intro exI [of _ g']) auto
next
  fix g' e assume "(g', e) \<in> set (ts_failures st)"
  with source_invD(5) [OF inv] assms(3) show "(results(g := Some res)) g' = Some (Inl e)" by fastforce
qed (use source_invD [OF inv] assms(2) in \<open>auto split: if_splits\<close>)

lemma remembered:
  assumes "map_of (ts_failures st) g = None"
  shows "ts_failures (remember_failure g e st) = (if MAX_RECORDED_FAILURES \<le> length (ts_failures st) then tl (ts_failures st) else ts_failures st) @ [(g, e)]"
    and "ts_cached (remember_failure g e st) = ts_cached st" "ts_in_flight (remember_failure g e st) = ts_in_flight st"
    "ts_next (remember_failure g e st) = ts_next st"
  using assms by (simp_all add: remember_failure_def)

lemma in_set_tl: "x \<in> set (tl xs) \<Longrightarrow> x \<in> set xs"
  by (cases xs) auto

lemma leave_cases:
  assumes inv: "source_inv st results" and "results g = Some res" and run: "leave g res st = (v, st')"
  obtains "v = Some (map_sum id header_value res)" and "ts_in_flight st = Some g" and "st' = snd (apply_in_flight_result g res st)"
    | e where "v = Some (Inl e)" and "res = Inl e" and "st' = st"
    | "v = None" and "ts_in_flight st \<noteq> Some g" and "st' = st"
proof (cases "map_of (ts_failures st) g")
  case (Some e)
  then have "results g = Some (Inl e)" using source_invD(5) [OF inv] by (blast dest: map_of_SomeD)
  with assms(2) have res: "res = Inl e" by simp
  have v: "v = Some (Inl e)" and st': "st' = st" using Some run by (simp_all add: leave_def apply_in_flight_result_def)
  show thesis by (rule that(2) [OF v res st'])
next
  case None
  show thesis
  proof (cases "ts_in_flight st = Some g")
    case True
    have "v = Some (map_sum id header_value res)" "st' = snd (apply_in_flight_result g res st)"
      using None run True by (simp_all add: leave_def apply_in_flight_result_def)
    then show thesis using True by (intro that(1))
  next
    case False
    have "v = None" "st' = st" using None run False by (simp_all add: leave_def apply_in_flight_result_def)
    then show thesis using False by (intro that(3))
  qed
qed

lemma applied_source:
  assumes inv: "source_inv st results" and res: "results g = Some res" and flight: "ts_in_flight st = Some g"
  shows "source_inv (snd (apply_in_flight_result g res st)) results"
proof (cases "map_of (ts_failures st) g")
  case (Some e)
  then show ?thesis using inv by (simp add: apply_in_flight_result_def)
next
  case None
  define st1 where "st1 = st\<lparr>ts_in_flight := None, ts_cached := None\<rparr>"
  have answered: "\<not> h < ts_next st" if "results h = None" for h
    using source_invD(2) [OF inv, of h] flight res that by auto
  show ?thesis
  proof (cases res)
    case (Inr t)
    with None flight have eq: "snd (apply_in_flight_result g res st) = st\<lparr>ts_in_flight := None, ts_cached := Some t\<rparr>"
      by (simp add: apply_in_flight_result_def)
    show ?thesis unfolding eq using source_invD [OF inv] answered res Inr by (intro source_invI) auto
  next
    case (Inl e)
    with None flight have eq: "snd (apply_in_flight_result g res st) = remember_failure g e st1"
      by (simp add: apply_in_flight_result_def st1_def)
    have none: "map_of (ts_failures st1) g = None" using None by (simp add: st1_def)
    show ?thesis unfolding eq
    proof (rule source_invI, unfold remembered [OF none])
      show "length ((if MAX_RECORDED_FAILURES \<le> length (ts_failures st1) then tl (ts_failures st1) else ts_failures st1) @ [(g, e)]) \<le> MAX_RECORDED_FAILURES"
        using source_invD(6) [OF inv] by (auto simp: st1_def MAX_RECORDED_FAILURES_def)
    qed (use source_invD [OF inv] answered res Inl in \<open>auto simp: st1_def split: if_splits dest: in_set_tl\<close>)
  qed
qed

section \<open>Runs\<close>

text \<open>A value that a caller may get: the result of a request, as the value of a header.\<close>

definition genuine :: "'c token_run \<Rightarrow> (string + string) \<Rightarrow> bool" where
  "genuine r v \<longleftrightarrow> (\<exists>g res. tr_results r g = Some res \<and> v = map_sum id header_value res)"

definition token_inv :: "'c token_run \<Rightarrow> bool" where
  "token_inv r \<longleftrightarrow> source_inv (tr_state r) (tr_results r)
     \<and> map fst (tr_requests r) = [0..<ts_next (tr_state r)]
     \<and> (\<forall>i g. tr_waits r i = Some g \<longrightarrow> g < ts_next (tr_state r))
     \<and> (\<forall>i v now. (i, v, now) \<in> set (tr_returns r) \<longrightarrow> genuine r v)"

lemma token_inv_new: "token_inv (token_run_new now)"
  by (simp add: token_inv_def source_inv_def token_run_new_def token_state_new_def)

lemma enter_keeps:
  assumes inv: "token_inv r"
  shows "token_inv (token_step c (Enter i) r)"
proof (cases "tr_waits r i")
  case None
  obtain x st where run: "enter c (tr_now r) (tr_state r) = (x, st)" by fastforce
  have src: "source_inv st (tr_results r)" using inv enter_source [OF _ run] by (simp add: token_inv_def)
  from run show ?thesis
  proof (cases rule: enter_cases)
    case (1 t)
    from inv 1(2) have "\<exists>g. tr_results r g = Some (Inr t)" using source_invD(4) by (auto simp: token_inv_def)
    then have "genuine r (Inr (header_value t))" unfolding genuine_def by (metis map_sum.simps(2))
    with inv None run 1 show ?thesis by (auto simp: token_inv_def genuine_def)
  next
    case (2 g)
    with inv have "g < ts_next (tr_state r)" using source_invD(3) [of "tr_state r" "tr_results r" g] by (auto simp: token_inv_def)
    with inv None run 2 show ?thesis by (auto simp: token_inv_def genuine_def)
  next
    case (3 refresh)
    with inv None run src show ?thesis by (auto simp: token_inv_def genuine_def intro: less_SucI)
  qed
qed (use inv in simp)

lemma complete_keeps:
  assumes inv: "token_inv r"
  shows "token_inv (token_step c (Complete g res) r)"
proof (cases "g \<in> fst ` set (tr_requests r) \<and> tr_results r g = None")
  case True
  have "fst ` set (tr_requests r) = {0..<ts_next (tr_state r)}"
    using inv by (metis atLeastLessThan_upt image_set token_inv_def)
  with True inv have src: "source_inv (tr_state r) ((tr_results r)(g := Some res))" by (auto simp: token_inv_def intro: answer_source)
  have "genuine (token_step c (Complete g res) r) v" if "genuine r v" for v
    using that True by (auto simp: genuine_def) (metis option.distinct(1))+
  with inv True src show ?thesis by (auto simp: token_inv_def)
qed (use inv in auto)

lemma leave_keeps:
  assumes inv: "token_inv r"
  shows "token_inv (token_step c (Leave i) r)"
proof (cases "\<exists>g res. tr_waits r i = Some g \<and> tr_results r g = Some res")
  case True
  then obtain g res where g: "tr_waits r i = Some g" "tr_results r g = Some res" by blast
  obtain v st where run: "leave g res (tr_state r) = (v, st)" by fastforce
  have src: "source_inv (tr_state r) (tr_results r)" using inv by (simp add: token_inv_def)
  have gen: "genuine r (map_sum id header_value res)" using g(2) by (auto simp: genuine_def)
  from src g(2) run show ?thesis
  proof (cases rule: leave_cases)
    case 1
    have "ts_next (snd (apply_in_flight_result g res (tr_state r))) = ts_next (tr_state r)"
      by (auto simp: apply_in_flight_result_def remember_failure_def split: option.splits sum.splits)
    with inv g run 1 gen applied_source [OF src g(2) 1(2)] show ?thesis by (auto simp: token_inv_def genuine_def)
  next
    case (2 e)
    with inv g run gen show ?thesis by (auto simp: token_inv_def genuine_def)
  next
    case 3
    with inv g run show ?thesis by (auto simp: token_inv_def genuine_def)
  qed
qed (use inv in \<open>auto split: option.splits\<close>)

lemma token_inv_steps: "token_inv (fold (token_step c) evs (token_run_new now))"
proof (induction evs rule: rev_induct)
  case (snoc ev evs)
  then show ?case
  proof (cases ev)
    case (DropCall i)
    with snoc show ?thesis by (auto simp: token_inv_def genuine_def)
  next
    case (Tick t)
    with snoc show ?thesis by (auto simp: token_inv_def genuine_def)
  qed (simp_all add: enter_keeps complete_keeps leave_keeps del: token_step.simps)
qed (simp add: token_inv_new)

text \<open>C23. Callers of a token source share one request. Over any run of callers that enter, wait, are dropped and enter again, with any results of the
  requests, every request has its own number and at most one is unfinished at a time; whatever a caller gets, a header value or an
  error, is the result of a request, and at most eight failures are kept.
\<close>

theorem token_single_flight:
  assumes r: "r = fold (token_step c) evs (token_run_new now)"
  shows "distinct (map fst (tr_requests r))
    \<and> (\<forall>g h. g \<in> fst ` set (tr_requests r) \<and> h \<in> fst ` set (tr_requests r) \<and> tr_results r g = None \<and> tr_results r h = None \<longrightarrow> g = h)
    \<and> (\<forall>i v t. (i, v, t) \<in> set (tr_returns r) \<longrightarrow> genuine r v)
    \<and> length (ts_failures (tr_state r)) \<le> 8"
proof -
  have inv: "token_inv r" unfolding r by (rule token_inv_steps)
  then have src: "source_inv (tr_state r) (tr_results r)" and req: "map fst (tr_requests r) = [0..<ts_next (tr_state r)]" by (simp_all add: token_inv_def)
  have "g \<in> fst ` set (tr_requests r) \<longleftrightarrow> g < ts_next (tr_state r)" for g
    using arg_cong [OF req, of set] by auto
  then have "g = h" if "g \<in> fst ` set (tr_requests r)" "h \<in> fst ` set (tr_requests r)" "tr_results r g = None" "tr_results r h = None" for g h
    using source_invD(2) [OF src, of g] source_invD(2) [OF src, of h] that by simp
  with inv req source_invD(6) [OF src] show ?thesis by (auto simp: token_inv_def MAX_RECORDED_FAILURES_def)
qed

definition sample_config :: token_config where
  "sample_config = \<lparr>tc_token_url = [], tc_client_id = [], tc_client_secret = [], tc_scope = None, tc_refresh_buffer_secs = 60\<rparr>"

definition sample_token :: cached_token where
  "sample_token = \<lparr>ct_access_token = ''t'', ct_token_type = ''Bearer'', ct_refresh_token = None, ct_expires_at = 100000000000\<rparr>"

definition sample_run :: "nat token_run" where
  "sample_run = fold (token_step sample_config) [Enter 1, Enter 2, Complete 0 (Inr sample_token), Leave 2] (token_run_new 0)"

lemma sample_run_waits: "tr_waits sample_run 1 = Some 0" "tr_results sample_run 0 = Some (Inr sample_token)" "tr_returns sample_run = [(2, Inr ''Bearer t'', 0)]"
  by (simp_all add: sample_run_def sample_config_def sample_token_def token_run_new_def token_state_new_def enter_def leave_def
      apply_in_flight_result_def header_value_def)

theorem token_single_flight_witness: "tr_requests sample_run = [(0, None)] \<and> genuine sample_run (Inr ''Bearer t'')"
proof -
  have req: "tr_requests sample_run = [(0, None)]"
    by (simp add: sample_run_def sample_config_def sample_token_def token_run_new_def token_state_new_def enter_def leave_def apply_in_flight_result_def)
  from token_single_flight [OF sample_run_def] req sample_run_waits(3) show ?thesis by auto
qed

text \<open>C40. No caller waits twice for the same request. Once the request that a caller waits for has ended, its next section returns a value, or the one
  after that returns a token from the cache that is still valid, or waits for a later request.
\<close>

theorem token_wait_moves_on:
  assumes r: "r = fold (token_step c) evs (token_run_new now)"
    and wait: "tr_waits r i = Some g" and ended: "tr_results r g = Some res"
  shows "let r1 = token_step c (Leave i) r; r2 = token_step c (Enter i) r1 in
    tr_waits r1 i = None \<and>
    ((\<exists>v. tr_returns r1 = tr_returns r @ [(i, v, tr_now r)])
     \<or> (\<exists>t. ts_cached (tr_state r1) = Some t \<and> token_is_valid (tr_now r) (tc_refresh_buffer_secs c) t
          \<and> tr_returns r2 = tr_returns r1 @ [(i, Inr (header_value t), tr_now r)])
     \<or> (\<exists>g'. g < g' \<and> tr_waits r2 i = Some g'))"
proof -
  have "token_inv r" unfolding r by (rule token_inv_steps)
  then have src: "source_inv (tr_state r) (tr_results r)" and g: "g < ts_next (tr_state r)" using wait by (auto simp: token_inv_def)
  obtain v st where run: "leave g res (tr_state r) = (v, st)" by fastforce
  from src ended run show ?thesis
  proof (cases rule: leave_cases)
    case 3
    let ?r1 = "r\<lparr>tr_waits := (tr_waits r)(i := None)\<rparr>"
    have r1: "token_step c (Leave i) r = ?r1" using wait ended run 3 by simp
    obtain x st' where enter: "enter c (tr_now r) (tr_state r) = (x, st')" by fastforce
    from enter show ?thesis
    proof (cases rule: enter_cases)
      case (2 g')
      with 3(2) g source_invD(3) [OF src 2(2)] have "g < g'" by (cases "g = g'") auto
      with enter 2 show ?thesis by (simp add: Let_def r1 del: token_step.simps(3))
    qed (use enter g in \<open>auto simp: Let_def r1 simp del: token_step.simps(3)\<close>)
  qed (use wait ended run in \<open>auto simp: Let_def\<close>)
qed

theorem token_wait_moves_on_witness:
  "let r1 = token_step sample_config (Leave 1) sample_run; r2 = token_step sample_config (Enter 1) r1 in
    tr_waits r1 1 = None \<and> tr_returns r2 = tr_returns r1 @ [(1, Inr ''Bearer t'', 0)]"
proof -
  note facts = token_wait_moves_on [OF sample_run_def sample_run_waits(1,2)]
  have "tr_returns (token_step sample_config (Leave 1) sample_run) = tr_returns sample_run"
    "tr_waits (token_step sample_config (Enter 1) (token_step sample_config (Leave 1) sample_run)) 1 = None"
    "ts_cached (tr_state (token_step sample_config (Leave 1) sample_run)) = Some sample_token" "tr_now sample_run = 0"
    by (simp_all add: sample_run_def sample_config_def sample_token_def token_run_new_def token_state_new_def enter_def leave_def
      apply_in_flight_result_def token_is_valid_def time_sub_def NANOS_def)
  with facts show ?thesis by (auto simp: Let_def sample_token_def header_value_def simp del: token_step.simps)
qed

end
