(* ===== verification/Spec2Isabelle.thy ===== *)
theory Spec2Isabelle
  imports Sched_Props Mount_Props Label_Props Store_Props Raft_Props Worker_Props Repl_Props
    Sched_Driver Runner_Props Exec_Props Fetch_Props Service_Props Token_Props
begin

text \<open>
  A verification of the state-keeping core of mcp-js, a server that runs JavaScript for agents.

  \<^bold>\<open>The program.\<close> The server keeps three kinds of durable state. The \<^emph>\<open>scheduler\<close>
  (\<open>src/scheduler-core\<close>) turns cron definitions into receipts, hands out attempts and records their outcome. The
  \<^emph>\<open>session file system\<close> (\<open>src/server/src/engine/fs_*.rs\<close>) keeps snapshots as trees of content-addressed blobs; a session
  mounts a snapshot, writes into an overlay, pushes a new snapshot, merges snapshots, moves labels between them, and a
  collector removes what no label reaches. Labels, the tags of heap snapshots and the log of executions live in a
  \<^emph>\<open>metadata store\<close> (\<open>src/server/metadata-store\<close>) or, in a cluster, on a replicated log: every node of the
  cluster runs the Raft implementation of \<open>src/server/src/cluster.rs\<close>. In a cluster the scheduler itself is such a replicated
  value, planned by the leader (\<open>src/scheduler-runner\<close>), and its attempts run on workers
  (\<open>src/server/src/scheduled_worker.rs\<close>) that ask the planner for admission before they launch. What guest code may do
  is decided by \<^emph>\<open>hooks and policies\<close> (\<open>src/server/src/engine/hooks.rs\<close>, \<open>opa.rs\<close>) around each operation, of which
  the filesystem (\<open>fs.rs\<close>) and \<open>fetch\<close> (\<open>fetch.rs\<close>) are modelled here.

  \<^bold>\<open>Theories and sources.\<close>
  \<^item> \<open>Prelude\<close> and \<open>BTree_Map\<close>: results (\<open>Err\<close> is a returned error, \<open>Panic\<close> a failed index or unwrap), checked machine
    arithmetic, text prefixes, and ordered maps as sorted association lists, behind the locale \<open>ordered_map\<close>.
  \<^item> \<open>Sched_Core\<close> models \<open>scheduler-core/src/core.rs\<close> one function per method. \<open>Sched_Inv\<close> has the invariant of the state,
    \<open>Sched_Steps\<close> an abstract step relation that every method refines, \<open>Sched_System\<close> runs with crashes, reopening and
    any answer of the store, \<open>Sched_Props\<close> the properties.
  \<^item> \<open>Fs_Tree\<close>, \<open>Fs_Store\<close>: paths, tree nodes, the node cache, listing and path-copying updates (\<open>fs_tree.rs\<close>,
    \<open>fs_store.rs\<close>); \<open>Fs_View\<close>: what a tree shows as a map from paths to files. \<open>Fs_Files\<close>: chunked files
    (\<open>fs_chunker.rs\<close>). \<open>Fs_Mount\<close>: the overlay (\<open>fs_mount.rs\<close>). \<open>Fs_Merge\<close>, \<open>Fs_Content\<close>: the three-way
    merges (\<open>fs_merge.rs\<close>, \<open>fs_content_merge.rs\<close>). \<open>Fs_Labels\<close>: labels and reflogs (\<open>fs_labels.rs\<close>).
    \<open>Fs_Snapshots\<close>: the verbs of the engine (\<open>ffi.rs\<close>, \<open>mod.rs\<close>). \<open>Fs_Gc\<close>: the collector (\<open>fs_gc.rs\<close>). Properties
    are in \<open>Fs_Props\<close>, \<open>Mount_Props\<close> and \<open>Label_Props\<close>.
  \<^item> \<open>Meta_Store\<close>: the store interface (\<open>metadata-store/src/lib.rs\<close>) as the locale \<open>metadata_store\<close>, interpreted on the
    sled backend (\<open>sled_store.rs\<close>). \<open>Heap_Tags\<close>, \<open>Session_Log\<close>: its clients \<open>heap_tags.rs\<close> and \<open>session_log.rs\<close>, with
    their properties in \<open>Store_Props\<close>.
  \<^item> \<open>Cluster_Node\<close> models \<open>cluster.rs\<close>: every section of the code that holds the state lock is a function from nodes to
    nodes. \<open>Cluster_Inv\<close>, \<open>Cluster_Steps\<close> and \<open>Cluster_Members\<close> show what each section keeps: disk and memory agree
    while the node runs, the data on disk is the replay of the applied entries, terms and votes are never taken
    back, and with sealed voters every node counts the same voters. \<open>Cluster_System\<close> composes the voters
    with their messages; \<open>Cluster_Props\<close> has the properties of terms, restarts, commits and proposals.
  \<^item> \<open>Raft_Logs\<close>, \<open>Raft_Safety\<close>, \<open>Raft_Steps\<close>, \<open>Raft_Lead\<close> and \<open>Raft_Follow\<close> are the safety argument of replication: the
    log of the leader of every term, which entries a majority has acknowledged, and that every step of the
    system keeps later leaders complete. \<open>Raft_Props\<close> has what follows for clients: voters never disagree on applied entries, and
    a write that was reported as committed stays.
  \<^item> \<open>Sched_Protocol\<close>: dispatches, admissions and permits (\<open>scheduled_protocol.rs\<close>). \<open>Sched_Worker\<close>: the worker that executes
    them (\<open>scheduled_worker.rs\<close>), with its properties over crashes and failures of its store in \<open>Worker_Props\<close>.
    \<open>Sched_Replicated\<close>: the planner that keeps the scheduler as one value of the cluster (\<open>scheduler-runner/src/replicated.rs\<close>);
    \<open>Repl_Inv\<close> shows what each of its compare-and-swaps keeps, \<open>Repl_Props\<close> that planners on any nodes decide the fate of an invocation
    at most once.
  \<^item> \<open>Sched_Driver\<close>: the driver of a core that is not replicated (\<open>scheduler-core/src/runner.rs\<close>), which claims, executes and drains.
    \<open>Sched_Remote\<close>, \<open>Sched_Manage\<close> and \<open>Sched_Runner\<close>: the process around the replicated planner, namely the client of the workers
    (\<open>scheduler-runner/src/remote.rs\<close>), the operator's commands and their credentials (\<open>management.rs\<close>), and the branches of the loop
    (\<open>main.rs\<close>). \<open>Runner_Props\<close> shows that this process changes the plan only by operations of the planner, that its loops end and
    drain, that it retries only what cannot be running, and that recovery needs its own credential.
  \<^item> \<open>Exec_Console\<close>: the console output of an execution, from the writer of pages (\<open>console.rs\<close>) to the reader by lines or bytes;
    \<open>Exec_Registry\<close>: the status of executions, their cancellation and the handles of their isolates (\<open>execution.rs\<close>), with the
    properties of both in \<open>Exec_Props\<close>.
  \<^item> \<open>Json_Value\<close>: the values of \<open>serde_json\<close>. \<open>Hook_Policy\<close>: policy chains (\<open>opa.rs\<close>). \<open>Hook_Chain\<close>, \<open>Hook_Build\<close>: pre and post hooks
    and layered stacks around an operation, and how they are built from a configuration (\<open>hooks.rs\<close>). \<open>Hook_Props\<close> shows, in the locale
    \<open>checked_documents\<close> of what an operation's normalization promises, that the executor is only reached behind the policy.
  \<^item> \<open>Fetch_Rules\<close>, \<open>Base64\<close>, \<open>Fetch_Op\<close>: header rules, the body codec and the operation \<open>fetch\<close> (\<open>fetch.rs\<close>), with properties in
    \<open>Fetch_Props\<close>: no request is sent that the policy has not just allowed. \<open>Token_Source\<close>: the shared OAuth token of header rules
    (\<open>fetch_auth.rs\<close>), with runs of concurrent callers in \<open>Token_Props\<close>.
  \<^item> \<open>Fs_Gate\<close>, \<open>Fs_Service\<close>: the gate in front of filesystem operations, the operations on the mount or the host, and write streams
    (\<open>fs.rs\<close>). \<open>Service_Props\<close> shows that a gated operation is the plain one at paths the policy allowed, and what is read back.

  \<^bold>\<open>Parameters.\<close> Code that is not part of the repository is an argument of the definitions: cron and time zones, serde and
  bincode encodings, SHA-256, blake3, zstd, FastCDC, diffy, sled, the clock, the Rego and JavaScript
  engines of hooks, policy and token servers, the HTTP client, the URL parser and the host filesystem. What the code relies on is a named hypothesis:
  encodings read back what they wrote, the hash has no collision among the blobs involved, the calendar returns later instants.
  In the cluster model \<open>cn_io\<close> lists the outcome of every disk write to come: done, failed and lost, or failed but kept.

  \<^bold>\<open>Fuel.\<close> The walks of a tree (\<open>walk\<close>, \<open>merge_node\<close>, \<open>mark_loop\<close>) carry fuel, and running out is \<open>None\<close>. For every tree
  that a store holds there is an amount that is enough, and the properties prove that the result is then
  \<open>Some\<close>. Loops that wait for answers of the cluster or of a worker (\<open>claim_loop\<close>, \<open>poll_execution\<close>) take the answers as a list, \<open>None\<close>
  being a list that was too short, and the theory says how many are enough. The filesystem service passes its fuel to the walks of the mount. The other loops are structural recursions or have a measure.

  \<^bold>\<open>Simplifications.\<close> A put to the blob backend succeeds. Reads of sled in the cluster model succeed. Timers may fire at
  any moment. A handle of a V8 isolate is a number, and its termination is recorded. The sections of a worker that hold its gate are one step. A check that the node is healthy and the section that follows it are one step. The policy hook in front of the
  snapshot verbs is the parameter \<open>sn_gate\<close>. A JavaScript layer is a finite tree of its calls of \<open>next\<close>, which its deadline makes it.

  \<^bold>\<open>Not modelled.\<close> The V8 engine and its bindings, the MCP and HTTP transports, the module
  loader, sockets and subprocesses, heap and artifact storage, configuration and start-up: they are bindings to
  V8, to the network or to the operating system, and keep no state of their own that the parts above rely on.
\<close>

end
